(* ===== verification/Prelude.thy ===== *)
theory Prelude
  imports Main "HOL-Library.Word" "HOL-Library.Monad_Syntax" "HOL-Library.Multiset"
begin

text \<open>
  Shared material of the development: the result monad of the kernel's C code, the fact
  collections the component theories fill, and the generic lemmas they share.

  A C function that may hit \<^verbatim>\<open>assert\<close> (kern/debug/assert.h: panic and never return) or run
  a loop for ever is modelled as an option: \<open>None\<close> is "the call does not return", \<open>Some r\<close>
  is "it returns r".  Error codes the code does return (\<open>-E_NO_MEM\<close>, \<open>-E_INVAL\<close>, a null
  pointer) are ordinary values of \<open>r\<close>.
\<close>

subsection \<open>Fact collections\<close>

named_theorems dll_simps \<open>equations of the doubly linked list operations\<close>
named_theorems model_defs \<open>definitions of small accessors that proofs unfold freely\<close>

subsection \<open>Assertions\<close>

definition c_assert :: "bool \<Rightarrow> unit option" where
  "c_assert b = (if b then Some () else None)"

lemma c_assert_simps [simp]: "c_assert True = Some ()" "c_assert False = None"
  by (simp_all add: c_assert_def)

lemma c_assert_Some_iff [simp]: "c_assert b = Some u \<longleftrightarrow> b"
  by (simp add: c_assert_def)

lemma bind_c_assert_Some_iff:
  "(do { c_assert b; f }) = Some r \<longleftrightarrow> b \<and> f = Some r"
  by (cases b) simp_all

subsection \<open>Machine types\<close>

type_synonym u8 = "8 word"
type_synonym u16 = "16 word"
type_synonym u32 = "32 word"
type_synonym u64 = "64 word"

subsection \<open>Error codes (libs/error.h)\<close>

text \<open>
  The kernel returns \<open>0\<close> for success and the negated code for an error; the models return the
  code as an \<open>int\<close>, as the C does.
\<close>

abbreviation (input) E_UNSPECIFIED :: int where "E_UNSPECIFIED \<equiv> 1"
abbreviation (input) E_BAD_PROC :: int where "E_BAD_PROC \<equiv> 2"
abbreviation (input) E_INVAL :: int where "E_INVAL \<equiv> 3"
abbreviation (input) E_NO_MEM :: int where "E_NO_MEM \<equiv> 4"

subsection \<open>Generic lemmas\<close>

lemma nat_empty_range [simp]: "p \<le> q \<and> q < p \<longleftrightarrow> False" for p q :: nat
  by auto

lemma unat_exp2:
  assumes "k < LENGTH('a::len)"
  shows "unat (2 ^ k :: 'a word) = 2 ^ k"
proof -
  have "(2 ^ k :: 'a word) = of_nat (2 ^ k)" by simp
  moreover have "(2::nat) ^ k < 2 ^ LENGTH('a)"
    using assms by (intro power_strict_increasing) simp_all
  ultimately show ?thesis by (simp add: unsigned_of_nat take_bit_nat_eq_self del: of_nat_power)
qed

lemma unat_add_small: "unat a + unat b < 2 ^ LENGTH('a) \<Longrightarrow> unat (a + b) = unat a + unat b"
  for a b :: "'a::len word"
  by (simp add: unat_word_ariths)

text \<open>A signed difference of two 32-bit words within half the range of a common base.\<close>

lemma sint_diff_window:
  fixes a b base :: "32 word"
  assumes "unat (a - base) < 2 ^ 31" "unat (b - base) < 2 ^ 31"
  shows "sint (a - b) = int (unat (a - base)) - int (unat (b - base))"
proof -
  let ?x = "unat (a - base)" and ?y = "unat (b - base)"
  have "a - b = word_of_int (int ?x - int ?y)"
    by simp
  then have "sint (a - b) = sint (word_of_int (int ?x - int ?y) :: 32 word)" by (rule arg_cong)
  also have "\<dots> = signed_take_bit 31 (int ?x - int ?y)"
    by (simp only: signed_of_int) simp
  finally have "sint (a - b) = signed_take_bit 31 (int ?x - int ?y)" .
  moreover have "- (2 ^ 31) \<le> int x - int y \<and> int x - int y < 2 ^ 31" if "x < 2 ^ 31" "y < 2 ^ 31" for x y :: nat
    using that by simp
  then have "- (2 ^ 31) \<le> int ?x - int ?y" "int ?x - int ?y < 2 ^ 31" using assms by blast+
  ultimately show ?thesis by (simp add: signed_take_bit_int_eq_self)
qed

lemma unat_drop_bit: "unat (drop_bit n w) = unat w div 2 ^ n" for w :: "'a::len word"
  unfolding unsigned_drop_bit_eq by (simp add: drop_bit_eq_div take_bit_nat_eq_self)

lemma sum_list_map_update:
  fixes f :: "'a \<Rightarrow> nat"
  assumes "i < length xs"
  shows "sum_list (map f (xs[i := y])) + f (xs ! i) = sum_list (map f xs) + f y"
  using assms by (induction xs arbitrary: i) (auto split: nat.splits)

end
