(* ===== verification/Klist.thy ===== *)
theory Klist
  imports Prelude
begin

text \<open>
  libs/list.h (the copies of labs 2 to 8 are identical): the intrusive circular doubly linked
  list every kernel queue is built from (page free lists, run queues, the timer list, wait
  queues, vma lists, process lists).

  A heap of \<^verbatim>\<open>list_entry_t\<close> is a record of two functions, one per pointer field, indexed by the
  address of the entry; the address type \<open>'a\<close> is chosen by the component that embeds the links.
  Each inline function of list.h is one state transformer, written with the same assignments in
  the same order.  \<open>dll l h xs\<close> says that the entries \<open>xs\<close>, in this order, hang off the head
  \<open>h\<close>: following \<open>next\<close> visits \<open>xs\<close> and returns to \<open>h\<close>, following \<open>prev\<close> visits the reverse.
\<close>

subsection \<open>The heap of links and the operations of list.h\<close>

record 'a links =
  lnext :: "'a \<Rightarrow> 'a"
  lprev :: "'a \<Rightarrow> 'a"

definition set_next :: "'a \<Rightarrow> 'a \<Rightarrow> 'a links \<Rightarrow> 'a links" where
  "set_next e v l = l\<lparr>lnext := (lnext l)(e := v)\<rparr>"

definition set_prev :: "'a \<Rightarrow> 'a \<Rightarrow> 'a links \<Rightarrow> 'a links" where
  "set_prev e v l = l\<lparr>lprev := (lprev l)(e := v)\<rparr>"

definition list_init :: "'a \<Rightarrow> 'a links \<Rightarrow> 'a links" where
  "list_init elm l = set_prev elm elm (set_next elm elm l)"

text \<open>\<^verbatim>\<open>prev->next = next->prev = elm; elm->next = next; elm->prev = prev;\<close> -- the chained
  assignment stores into \<^verbatim>\<open>next->prev\<close> first.\<close>

definition list_add_raw :: "'a \<Rightarrow> 'a \<Rightarrow> 'a \<Rightarrow> 'a links \<Rightarrow> 'a links" where
  "list_add_raw elm prev nxt l =
     set_prev elm prev (set_next elm nxt (set_next prev elm (set_prev nxt elm l)))"

definition list_del_raw :: "'a \<Rightarrow> 'a \<Rightarrow> 'a links \<Rightarrow> 'a links" where
  "list_del_raw prev nxt l = set_prev nxt prev (set_next prev nxt l)"

definition list_add_before :: "'a \<Rightarrow> 'a \<Rightarrow> 'a links \<Rightarrow> 'a links" where
  "list_add_before listelm elm l = list_add_raw elm (lprev l listelm) listelm l"

definition list_add_after :: "'a \<Rightarrow> 'a \<Rightarrow> 'a links \<Rightarrow> 'a links" where
  "list_add_after listelm elm l = list_add_raw elm listelm (lnext l listelm) l"

definition list_add :: "'a \<Rightarrow> 'a \<Rightarrow> 'a links \<Rightarrow> 'a links" where
  "list_add listelm elm l = list_add_after listelm elm l"

definition list_del :: "'a \<Rightarrow> 'a links \<Rightarrow> 'a links" where
  "list_del listelm l = list_del_raw (lprev l listelm) (lnext l listelm) l"

definition list_del_init :: "'a \<Rightarrow> 'a links \<Rightarrow> 'a links" where
  "list_del_init listelm l = list_init listelm (list_del listelm l)"

definition list_empty :: "'a \<Rightarrow> 'a links \<Rightarrow> bool" where
  "list_empty lst l \<longleftrightarrow> lnext l lst = lst"

definition list_next :: "'a \<Rightarrow> 'a links \<Rightarrow> 'a" where
  "list_next listelm l = lnext l listelm"

definition list_prev :: "'a \<Rightarrow> 'a links \<Rightarrow> 'a" where
  "list_prev listelm l = lprev l listelm"

lemmas link_defs = set_next_def set_prev_def list_init_def list_add_raw_def list_del_raw_def
  list_add_before_def list_add_after_def list_add_def list_del_def list_del_init_def
  list_empty_def list_next_def list_prev_def

subsection \<open>Paths along one pointer field\<close>

primrec path :: "('a \<Rightarrow> 'a) \<Rightarrow> 'a \<Rightarrow> 'a list \<Rightarrow> 'a \<Rightarrow> bool" where
  "path f a [] b \<longleftrightarrow> f a = b"
| "path f a (x # xs) b \<longleftrightarrow> f a = x \<and> path f x xs b"

lemma path_append [simp]:
  "path f a (xs @ y # ys) b \<longleftrightarrow> path f a xs y \<and> path f y ys b"
  by (induction xs arbitrary: a) auto

lemma path_upd [simp]:
  "x \<noteq> a \<Longrightarrow> x \<notin> set xs \<Longrightarrow> path (f(x := y)) a xs b \<longleftrightarrow> path f a xs b"
  by (induction xs arbitrary: a) auto

lemma path_cong:
  "(\<And>x. x \<in> insert a (set xs) \<Longrightarrow> f x = g x) \<Longrightarrow> path f a xs b \<longleftrightarrow> path g a xs b"
  by (induction xs arbitrary: a) auto

lemma path_snoc [simp]: "path f a (xs @ [y]) b \<longleftrightarrow> path f a xs y \<and> f y = b"
  by simp

subsection \<open>Well-formed circular lists\<close>

definition dll :: "'a links \<Rightarrow> 'a \<Rightarrow> 'a list \<Rightarrow> bool" where
  "dll l h xs \<longleftrightarrow> distinct (h # xs) \<and> path (lnext l) h xs h \<and> path (lprev l) h (rev xs) h"

lemma dllI:
  "distinct (h # xs) \<Longrightarrow> path (lnext l) h xs h \<Longrightarrow> path (lprev l) h (rev xs) h \<Longrightarrow> dll l h xs"
  by (simp add: dll_def)

lemma dll_distinct: "dll l h xs \<Longrightarrow> distinct xs"
  by (simp add: dll_def)

lemma dll_head_notin: "dll l h xs \<Longrightarrow> h \<notin> set xs"
  by (simp add: dll_def)

text \<open>The list does not depend on links outside it.\<close>

lemma dll_cong:
  assumes "\<And>x. x \<in> insert h (set xs) \<Longrightarrow> lnext l x = lnext l' x"
    and "\<And>x. x \<in> insert h (set xs) \<Longrightarrow> lprev l x = lprev l' x"
  shows "dll l h xs \<longleftrightarrow> dll l' h xs"
proof -
  have "path (lnext l) h xs h \<longleftrightarrow> path (lnext l') h xs h"
    using assms(1) by (rule path_cong)
  moreover have "path (lprev l) h (rev xs) h \<longleftrightarrow> path (lprev l') h (rev xs) h"
    by (rule path_cong) (simp add: assms(2))
  ultimately show ?thesis by (simp add: dll_def)
qed

text \<open>Reading a list whose entries are \<open>xs @ y # ys\<close>: the neighbours of \<open>y\<close>.\<close>

lemma dll_next_head: "dll l h xs \<Longrightarrow> lnext l h = (case xs of [] \<Rightarrow> h | x # _ \<Rightarrow> x)"
  by (cases xs) (auto simp: dll_def)

lemma dll_prev_head: "dll l h xs \<Longrightarrow> lprev l h = (if xs = [] then h else last xs)"
  by (cases xs rule: rev_cases) (auto simp: dll_def)

lemma dll_next_mid:
  "dll l h (xs @ y # ys) \<Longrightarrow> lnext l y = (case ys of [] \<Rightarrow> h | z # _ \<Rightarrow> z)"
  by (cases ys) (auto simp: dll_def)

lemma dll_prev_mid:
  "dll l h (xs @ y # ys) \<Longrightarrow> lprev l y = (if xs = [] then h else last xs)"
  by (cases xs rule: rev_cases) (auto simp: dll_def)

lemma dll_empty_iff [dll_simps]: "dll l h xs \<Longrightarrow> list_empty h l \<longleftrightarrow> xs = []"
  by (cases xs) (auto simp: dll_def list_empty_def)

lemma dll_member_not_empty: "dll l h xs \<Longrightarrow> x \<in> set xs \<Longrightarrow> \<not> list_empty x l"
proof -
  assume d: "dll l h xs" and "x \<in> set xs"
  then obtain ys zs where xs: "xs = ys @ x # zs" by (auto simp: in_set_conv_decomp)
  with d show ?thesis
    using dll_next_mid [of l h ys x zs] by (auto simp: list_empty_def dll_def split: list.splits)
qed

subsection \<open>Effect of the operations on well-formed lists\<close>

lemma dll_list_init [dll_simps, intro]: "dll (list_init h l) h []"
  by (simp add: dll_def link_defs)

text \<open>\<open>list_add_raw\<close> between two neighbours inserts there.\<close>

lemma dll_add_raw:
  assumes d: "dll l h (xs @ ys)" and e: "e \<noteq> h" "e \<notin> set (xs @ ys)"
    and p: "p = (if xs = [] then h else last xs)" and n: "n = (if ys = [] then h else hd ys)"
  shows "dll (list_add_raw e p n l) h (xs @ e # ys)"
proof (cases xs rule: rev_cases)
  case Nil
  then show ?thesis
    using assms by (cases ys) (auto simp: dll_def link_defs)
next
  case (snoc xs' x)
  then show ?thesis
    using assms by (cases ys) (auto simp: dll_def link_defs)
qed

lemma dll_add_after:
  assumes "dll l h (xs @ y # ys)" "e \<noteq> h" "e \<notin> set (xs @ y # ys)"
  shows "dll (list_add y e l) h (xs @ y # e # ys)"
  using dll_add_raw [of l h "xs @ [y]" ys e y "lnext l y"] assms dll_next_mid [OF assms(1)]
  by (cases ys) (auto simp: list_add_def list_add_after_def)

lemma dll_add_after_head:
  assumes "dll l h xs" "e \<noteq> h" "e \<notin> set xs"
  shows "dll (list_add h e l) h (e # xs)"
  using dll_add_raw [of l h "[]" xs e h "lnext l h"] assms dll_next_head [OF assms(1)]
  by (cases xs) (auto simp: list_add_def list_add_after_def)

lemma dll_add_after_prev:
  assumes "dll l h (xs @ ys)" "e \<noteq> h" "e \<notin> set (xs @ ys)"
    and "p = (if xs = [] then h else last xs)"
  shows "dll (list_add p e l) h (xs @ e # ys)"
proof (cases xs rule: rev_cases)
  case Nil
  then show ?thesis using assms dll_add_after_head [of l h ys e] by simp
next
  case (snoc zs z)
  then show ?thesis using assms dll_add_after [of l h zs z ys e] by simp
qed

lemma dll_add_before:
  assumes "dll l h (xs @ y # ys)" "e \<noteq> h" "e \<notin> set (xs @ y # ys)"
  shows "dll (list_add_before y e l) h (xs @ e # y # ys)"
  using dll_add_raw [of l h xs "y # ys" e "lprev l y" y] assms dll_prev_mid [OF assms(1)]
  by (auto simp: list_add_before_def)

lemma dll_add_before_head:
  assumes "dll l h xs" "e \<noteq> h" "e \<notin> set xs"
  shows "dll (list_add_before h e l) h (xs @ [e])"
  using dll_add_raw [of l h xs "[]" e "lprev l h" h] assms dll_prev_head [OF assms(1)]
  by (auto simp: list_add_before_def)

text \<open>\<open>list_del\<close> unlinks its argument; \<open>list_del_init\<close> also makes it a singleton list.\<close>

lemma dll_del:
  assumes "dll l h (xs @ y # ys)"
  shows "dll (list_del y l) h (xs @ ys)"
proof (cases xs rule: rev_cases)
  case Nil
  then show ?thesis
    using assms by (cases ys) (auto simp: dll_def link_defs)
next
  case (snoc xs' x)
  then show ?thesis
    using assms by (cases ys) (auto simp: dll_def link_defs)
qed

lemma dll_init_other:
  assumes "dll l h xs" "e \<noteq> h" "e \<notin> set xs"
  shows "dll (list_init e l) h xs"
  using assms by (auto simp: link_defs intro!: dll_cong [THEN iffD1, OF _ _ assms(1)])

lemma dll_del_init:
  assumes "dll l h (xs @ y # ys)"
  shows "dll (list_del_init y l) h (xs @ ys)"
  unfolding list_del_init_def
  using assms by (intro dll_init_other dll_del) (auto simp: dll_def)

lemma list_del_init_empty: "list_empty y (list_del_init y l)"
  by (simp add: link_defs)

text \<open>The entry itself is untouched by \<open>list_del\<close>: its stale links still point into the list.\<close>

lemma list_del_self:
  assumes "dll l h (xs @ y # ys)"
  shows "lnext (list_del y l) y = lnext l y" "lprev (list_del y l) y = lprev l y"
  using assms dll_next_mid [OF assms] dll_prev_mid [OF assms]
  by (auto simp: link_defs dll_def split: list.splits)

text \<open>Insertion at the tail and removal are inverse.\<close>

lemma dll_add_del:
  assumes "dll l h xs" "e \<noteq> h" "e \<notin> set xs"
  shows "dll (list_del_init e (list_add_before h e l)) h xs"
  using dll_del_init [of "list_add_before h e l" h xs e "[]"] dll_add_before_head [OF assms] by simp

text \<open>A list elsewhere in the heap is not affected.\<close>

lemma dll_add_before_frame:
  assumes d: "dll l h xs" and d': "dll l h' ys" and dj: "set (h # xs) \<inter> set (h' # ys) = {}"
    and e: "e \<notin> set (h' # ys)" and y: "y \<in> set (h # xs)"
  shows "dll (list_add_before y e l) h' ys"
proof -
  have p: "lprev l y \<in> set (h # xs)"
  proof (cases "y = h")
    case True
    then show ?thesis using dll_prev_head [OF d] by (auto split: if_splits)
  next
    case False
    with y obtain as bs where "xs = as @ y # bs" by (auto simp: in_set_conv_decomp)
    with d dll_prev_mid [of l h as y bs] show ?thesis by (auto split: if_splits)
  qed
  show ?thesis
    by (rule dll_cong [THEN iffD1, OF _ _ d'])
      (use p y e dj in \<open>auto simp: link_defs\<close>)
qed
text \<open>Two lists in one store: a change of one leaves the other.\<close>

lemma dll_add_other:
  assumes h: "dll l h xs" and g: "dll l g ys" and dj: "insert h (set xs) \<inter> insert g (set ys) = {}"
    and e: "e \<noteq> g" "e \<notin> set ys"
  shows "dll (list_add h e l) g ys"
proof -
  have "lnext l h \<in> insert h (set xs)" using dll_next_head [OF h] by (cases xs) auto
  then have "lnext l h \<notin> insert g (set ys)" "h \<notin> insert g (set ys)" using dj by blast+
  then have "dll (list_add h e l) g ys \<longleftrightarrow> dll l g ys"
    by (intro dll_cong) (use e in \<open>auto simp: link_defs\<close>)
  then show ?thesis using g by simp
qed

lemma dll_del_other:
  assumes h: "dll l h (xs @ y # zs)" and g: "dll l g ys" and dj: "insert h (set (xs @ y # zs)) \<inter> insert g (set ys) = {}"
  shows "dll (list_del y l) g ys"
proof -
  have "lnext l y \<in> insert h (set (xs @ y # zs))" using dll_next_mid [OF h] by (cases zs) auto
  moreover have "lprev l y \<in> insert h (set (xs @ y # zs))" using dll_prev_mid [OF h] last_in_set [of xs] by auto
  ultimately have "lnext l y \<notin> insert g (set ys)" "lprev l y \<notin> insert g (set ys)" using dj by blast+
  then have "dll (list_del y l) g ys \<longleftrightarrow> dll l g ys"
    by (intro dll_cong) (auto simp: link_defs)
  then show ?thesis using g by simp
qed

end
