(* ===== verification/Page.thy ===== *)
theory Page
  imports Klist
begin

text \<open>
  Page frames (kern/mm/memlayout.h, libs/atomic.h) and the state every list-based physical memory
  manager shares: the array of page descriptors, the links threaded through them and the count
  of free pages.  Page counts and page indices are naturals: the machine has at most
  \<^verbatim>\<open>KMEMSIZE / PGSIZE\<close> = 0x7E00 frames, far below the range of \<^verbatim>\<open>unsigned int\<close>.
\<close>

subsection \<open>Page descriptors and their flag bits\<close>

text \<open>\<open>FreeList\<close> is the address of \<^verbatim>\<open>free_area.free_list\<close>, \<open>PageLink p\<close> that of \<^verbatim>\<open>pages[p].page_link\<close>;
  \<^verbatim>\<open>le2page\<close> is the pattern match that recovers \<open>p\<close>.\<close>

datatype fl_entry = FreeList | PageLink nat

record page =
  pref :: int
  flags :: u64
  property :: nat

record pmm =
  pages :: "nat \<Rightarrow> page"
  flinks :: "fl_entry links"
  nr_free :: nat

definition PG_reserved :: nat where "PG_reserved = 0"
definition PG_property :: nat where "PG_property = 1"

definition PageReserved :: "page \<Rightarrow> bool" where
  "PageReserved p \<longleftrightarrow> bit (flags p) PG_reserved"

definition PageProperty :: "page \<Rightarrow> bool" where
  "PageProperty p \<longleftrightarrow> bit (flags p) PG_property"

definition SetPageReserved :: "page \<Rightarrow> page" where
  "SetPageReserved p = p\<lparr>flags := set_bit PG_reserved (flags p)\<rparr>"

definition SetPageProperty :: "page \<Rightarrow> page" where
  "SetPageProperty p = p\<lparr>flags := set_bit PG_property (flags p)\<rparr>"

definition ClearPageProperty :: "page \<Rightarrow> page" where
  "ClearPageProperty p = p\<lparr>flags := unset_bit PG_property (flags p)\<rparr>"

lemma page_flag_simps [simp]:
  "PageProperty (SetPageProperty p)"
  "\<not> PageProperty (ClearPageProperty p)"
  "PageReserved (SetPageProperty p) = PageReserved p"
  "PageReserved (ClearPageProperty p) = PageReserved p"
  "PageReserved (SetPageReserved p)"
  "PageProperty (SetPageReserved p) = PageProperty p"
  "property (SetPageProperty p) = property p"
  "property (ClearPageProperty p) = property p"
  "property (SetPageReserved p) = property p"
  "pref (SetPageProperty p) = pref p"
  "pref (ClearPageProperty p) = pref p"
  by (auto simp: PageProperty_def PageReserved_def SetPageProperty_def ClearPageProperty_def
      SetPageReserved_def PG_property_def PG_reserved_def bit_simps)

lemma page_flag_update [simp]:
  "PageProperty (p\<lparr>property := k\<rparr>) = PageProperty p"
  "PageReserved (p\<lparr>property := k\<rparr>) = PageReserved p"
  "PageProperty (p\<lparr>pref := r\<rparr>) = PageProperty p"
  "PageReserved (p\<lparr>pref := r\<rparr>) = PageReserved p"
  "\<not> PageProperty (p\<lparr>flags := 0\<rparr>)"
  "\<not> PageReserved (p\<lparr>flags := 0\<rparr>)"
  by (simp_all add: PageProperty_def PageReserved_def)

definition upd_page :: "nat \<Rightarrow> (page \<Rightarrow> page) \<Rightarrow> pmm \<Rightarrow> pmm" where
  "upd_page p f s = s\<lparr>pages := (pages s)(p := f (pages s p))\<rparr>"

lemma upd_page_simps [simp]:
  "pages (upd_page p f s) q = (if q = p then f (pages s p) else pages s q)"
  "flinks (upd_page p f s) = flinks s"
  "nr_free (upd_page p f s) = nr_free s"
  by (simp_all add: upd_page_def)

subsection \<open>Free blocks, abstractly\<close>

text \<open>A free block is its first page and its number of pages; the free list is abstractly the
  list of its blocks, in address order and without overlap.\<close>

type_synonym block = "nat \<times> nat"

definition before :: "block \<Rightarrow> block \<Rightarrow> bool" where
  "before x y \<longleftrightarrow> fst x + snd x \<le> fst y"

definition blocks_ok :: "block list \<Rightarrow> bool" where
  "blocks_ok bs \<longleftrightarrow> sorted_wrt before bs \<and> (\<forall>x \<in> set bs. 0 < snd x)"

definition block_pages :: "block \<Rightarrow> nat set" where
  "block_pages x = {fst x ..< fst x + snd x}"

definition free_set :: "block list \<Rightarrow> nat set" where
  "free_set bs = (\<Union>x \<in> set bs. block_pages x)"

lemma free_set_simps [simp]:
  "free_set [] = {}"
  "free_set (x # bs) = block_pages x \<union> free_set bs"
  "free_set (bs @ cs) = free_set bs \<union> free_set cs"
  by (auto simp: free_set_def)

lemma blocks_ok_Nil [simp]: "blocks_ok []"
  by (simp add: blocks_ok_def)

lemma blocks_ok_Cons [simp]:
  "blocks_ok (x # bs) \<longleftrightarrow> 0 < snd x \<and> (\<forall>y \<in> set bs. before x y) \<and> blocks_ok bs"
  by (auto simp: blocks_ok_def)

lemma blocks_ok_append:
  "blocks_ok (xs @ ys) \<longleftrightarrow> blocks_ok xs \<and> blocks_ok ys \<and> (\<forall>x \<in> set xs. \<forall>y \<in> set ys. before x y)"
  by (auto simp: blocks_ok_def sorted_wrt_append)

lemma blocks_ok_distinct: "blocks_ok bs \<Longrightarrow> distinct (map fst bs)"
proof (induction bs)
  case (Cons x bs)
  then show ?case by (force simp: before_def)
qed simp

lemma blocks_ok_pos: "blocks_ok bs \<Longrightarrow> x \<in> set bs \<Longrightarrow> 0 < snd x"
  by (simp add: blocks_ok_def)

lemma blocks_ok_mid:
  assumes "blocks_ok (xs @ x # ys)"
  shows "y \<in> set xs \<Longrightarrow> fst y + snd y \<le> fst x" "y \<in> set xs \<Longrightarrow> fst y < fst x"
    and "y \<in> set ys \<Longrightarrow> fst x + snd x \<le> fst y" "y \<in> set ys \<Longrightarrow> fst x < fst y"
  using assms blocks_ok_pos [of xs y] by (auto simp: blocks_ok_append before_def)

lemma blocks_ok_fresh:
  assumes "blocks_ok (xs @ x # ys)"
  shows "\<forall>y \<in> set (xs @ ys). fst y \<noteq> fst x"
    and "PageLink (fst x) \<notin> set (map (PageLink \<circ> fst) (xs @ ys))"
proof -
  show h: "\<forall>y \<in> set (xs @ ys). fst y \<noteq> fst x"
  proof
    fix y assume "y \<in> set (xs @ ys)"
    then show "fst y \<noteq> fst x" using blocks_ok_mid [OF assms, of y] by auto
  qed
  show "PageLink (fst x) \<notin> set (map (PageLink \<circ> fst) (xs @ ys))"
  proof
    assume "PageLink (fst x) \<in> set (map (PageLink \<circ> fst) (xs @ ys))"
    then have "PageLink (fst x) \<in> (PageLink \<circ> fst) ` set (xs @ ys)" by (simp only: set_map)
    then obtain y where "PageLink (fst x) = (PageLink \<circ> fst) y" "y \<in> set (xs @ ys)"
      by (rule imageE)
    then show False using bspec [OF h, of y] by simp
  qed
qed

subsection \<open>The invariant of a list-based manager\<close>

text \<open>
  \<open>pmm_wf s bs\<close>: the free list of \<open>s\<close> is intact and holds exactly the blocks \<open>bs\<close> in address
  order; each block's first page carries the block's size and the \<^verbatim>\<open>PG_property\<close> flag, which no
  other page carries; \<^verbatim>\<open>nr_free\<close> is the number of free pages.
\<close>

definition pmm_wf :: "pmm \<Rightarrow> block list \<Rightarrow> bool" where
  "pmm_wf s bs \<longleftrightarrow>
     dll (flinks s) FreeList (map (PageLink \<circ> fst) bs) \<and> blocks_ok bs \<and>
     (\<forall>x \<in> set bs. property (pages s (fst x)) = snd x) \<and>
     (\<forall>p. PageProperty (pages s p) \<longleftrightarrow> p \<in> fst ` set bs) \<and>
     nr_free s = sum_list (map snd bs)"

lemma pmm_wfD:
  assumes "pmm_wf s bs"
  shows "dll (flinks s) FreeList (map (PageLink \<circ> fst) bs)" and "blocks_ok bs"
    and "x \<in> set bs \<Longrightarrow> property (pages s (fst x)) = snd x"
    and "PageProperty (pages s p) \<longleftrightarrow> p \<in> fst ` set bs"
    and "nr_free s = sum_list (map snd bs)"
  using assms by (auto simp: pmm_wf_def)

text \<open>Changing anything but the links, the flag and the size of block heads keeps the invariant.\<close>

lemma pmm_wf_cong:
  assumes "pmm_wf s bs" and "flinks s' = flinks s" and "nr_free s' = nr_free s"
    and "\<And>p. PageProperty (pages s' p) = PageProperty (pages s p)"
    and "\<And>p. p \<in> fst ` set bs \<Longrightarrow> property (pages s' p) = property (pages s p)"
  shows "pmm_wf s' bs"
  using assms by (auto simp: pmm_wf_def)

end
