(* ===== verification/Pmm_FirstFit.thy ===== *)
theory Pmm_FirstFit
  imports Page
begin

text \<open>
  kern/mm/default_pmm.c (lab 8): the first-fit physical memory manager.  The operations work on
  the pointer structure, assignment by assignment; the abstract functions \<open>ff_alloc\<close> and \<open>ff_free\<close>
  say what they do to the list of free blocks.
\<close>

subsection \<open>The operations\<close>

definition default_init :: "pmm \<Rightarrow> pmm" where
  "default_init s = s\<lparr>flinks := list_init FreeList (flinks s), nr_free := 0\<rparr>"

text \<open>The loops over the page descriptors of a block.\<close>

fun init_pages :: "nat \<Rightarrow> nat \<Rightarrow> pmm \<Rightarrow> pmm option" where
  "init_pages p 0 s = Some s"
| "init_pages p (Suc k) s = do {
     c_assert (PageReserved (pages s p));
     init_pages (p + 1) k (upd_page p (\<lambda>pg. pg\<lparr>flags := 0, property := 0, pref := 0\<rparr>) s) }"

fun clear_pages :: "nat \<Rightarrow> nat \<Rightarrow> pmm \<Rightarrow> pmm option" where
  "clear_pages p 0 s = Some s"
| "clear_pages p (Suc k) s = do {
     c_assert (\<not> PageReserved (pages s p) \<and> \<not> PageProperty (pages s p));
     clear_pages (p + 1) k (upd_page p (\<lambda>pg. pg\<lparr>flags := 0, pref := 0\<rparr>) s) }"

text \<open>The loop that links a block in.  There is no \<^verbatim>\<open>break\<close> after the insertion at the tail: the
  loop goes on from the entry it has just added.\<close>

partial_function (option) insert_loop :: "nat \<Rightarrow> fl_entry \<Rightarrow> fl_entry links \<Rightarrow> fl_entry links option"
where
  "insert_loop base le l = (case list_next le l of
     FreeList \<Rightarrow> Some l
   | PageLink page \<Rightarrow>
       if base < page then Some (list_add_before (PageLink page) (PageLink base) l)
       else if list_next (PageLink page) l = FreeList
       then insert_loop base (PageLink page) (list_add (PageLink page) (PageLink base) l)
       else insert_loop base (PageLink page) l)"

declare insert_loop.simps [code]

definition link_block :: "nat \<Rightarrow> pmm \<Rightarrow> pmm option" where
  "link_block base s =
     (if list_empty FreeList (flinks s)
      then Some (s\<lparr>flinks := list_add FreeList (PageLink base) (flinks s)\<rparr>)
      else map_option (\<lambda>l. s\<lparr>flinks := l\<rparr>) (insert_loop base FreeList (flinks s)))"

definition mark_block :: "nat \<Rightarrow> nat \<Rightarrow> pmm \<Rightarrow> pmm" where
  "mark_block base n s =
     (let s1 = upd_page base (\<lambda>pg. SetPageProperty (pg\<lparr>property := n\<rparr>)) s
      in s1\<lparr>nr_free := nr_free s1 + n\<rparr>)"

definition default_init_memmap :: "nat \<Rightarrow> nat \<Rightarrow> pmm \<Rightarrow> pmm option" where
  "default_init_memmap base n s = do {
     c_assert (0 < n);
     s1 \<leftarrow> init_pages base n s;
     link_block base (mark_block base n s1) }"

partial_function (option) find_fit :: "nat \<Rightarrow> fl_entry \<Rightarrow> pmm \<Rightarrow> nat option option" where
  "find_fit n le s = (case list_next le (flinks s) of
     FreeList \<Rightarrow> Some None
   | PageLink p \<Rightarrow>
       if n \<le> property (pages s p) then Some (Some p) else find_fit n (PageLink p) s)"

declare find_fit.simps [code]

text \<open>Taking \<open>n\<close> pages from the front of the block at \<open>page\<close>, shared with the best-fit manager.\<close>

definition take_block :: "nat \<Rightarrow> nat \<Rightarrow> pmm \<Rightarrow> pmm" where
  "take_block n page s =
     (let prev = list_prev (PageLink page) (flinks s);
          s1 = s\<lparr>flinks := list_del (PageLink page) (flinks s)\<rparr>;
          s2 = (if n < property (pages s1 page) then
                  let p = page + n;
                      t = upd_page p (\<lambda>pg. pg\<lparr>property := property (pages s1 page) - n\<rparr>) s1;
                      t' = upd_page p SetPageProperty t
                  in t'\<lparr>flinks := list_add prev (PageLink p) (flinks t')\<rparr>
                else s1);
          s3 = s2\<lparr>nr_free := nr_free s2 - n\<rparr>
      in upd_page page ClearPageProperty s3)"

definition default_alloc_pages :: "nat \<Rightarrow> pmm \<Rightarrow> (nat option \<times> pmm) option" where
  "default_alloc_pages n s = do {
     c_assert (0 < n);
     if nr_free s < n then Some (None, s)
     else do {
       r \<leftarrow> find_fit n FreeList s;
       Some (case r of None \<Rightarrow> (None, s) | Some page \<Rightarrow> (Some page, take_block n page s)) } }"

text \<open>Absorbing the block at \<open>q\<close> into the one at \<open>p\<close>; both merging steps of
  \<^verbatim>\<open>default_free_pages\<close> do this, one with the predecessor, one with the successor.\<close>

definition fuse :: "nat \<Rightarrow> nat \<Rightarrow> pmm \<Rightarrow> pmm" where
  "fuse p q s =
     (let s1 = upd_page p (\<lambda>pg. pg\<lparr>property := property pg + property (pages s q)\<rparr>) s;
          s2 = upd_page q ClearPageProperty s1
      in s2\<lparr>flinks := list_del (PageLink q) (flinks s2)\<rparr>)"

definition merge_prev :: "nat \<Rightarrow> pmm \<Rightarrow> nat \<times> pmm" where
  "merge_prev base s = (case list_prev (PageLink base) (flinks s) of
     FreeList \<Rightarrow> (base, s)
   | PageLink p \<Rightarrow>
       if p + property (pages s p) = base then (p, fuse p base s) else (base, s))"

definition merge_next :: "nat \<Rightarrow> pmm \<Rightarrow> pmm" where
  "merge_next base s = (case list_next (PageLink base) (flinks s) of
     FreeList \<Rightarrow> s
   | PageLink p \<Rightarrow>
       if base + property (pages s base) = p then fuse base p s else s)"

definition default_free_pages :: "nat \<Rightarrow> nat \<Rightarrow> pmm \<Rightarrow> pmm option" where
  "default_free_pages base n s = do {
     c_assert (0 < n);
     s1 \<leftarrow> clear_pages base n s;
     s2 \<leftarrow> link_block base (mark_block base n s1);
     (case merge_prev base s2 of (base', s3) \<Rightarrow> Some (merge_next base' s3)) }"

definition default_nr_free_pages :: "pmm \<Rightarrow> nat" where
  "default_nr_free_pages s = nr_free s"

subsection \<open>The loops on well-formed lists\<close>

lemma insert_loop_step:
  "insert_loop base le l = (case list_next le l of
     FreeList \<Rightarrow> Some l
   | PageLink page \<Rightarrow>
       if base < page then Some (list_add_before (PageLink page) (PageLink base) l)
       else if list_next (PageLink page) l = FreeList
       then insert_loop base (PageLink page) (list_add (PageLink page) (PageLink base) l)
       else insert_loop base (PageLink page) l)"
  by (rule insert_loop.simps)

lemma insert_loop_mid:
  assumes "path (lnext l) le (map PageLink (xs @ c # ys)) FreeList"
    and "\<forall>x \<in> set xs. x \<le> base" and "base < c"
  shows "insert_loop base le l = Some (list_add_before (PageLink c) (PageLink base) l)"
  using assms
proof (induction xs arbitrary: le)
  case Nil
  then show ?case by (simp add: insert_loop_step [of base le] list_next_def)
next
  case (Cons x xs)
  have "lnext l (PageLink x) \<noteq> FreeList"
    using Cons.prems(1) by (cases xs) auto
  moreover have "insert_loop base (PageLink x) l
      = Some (list_add_before (PageLink c) (PageLink base) l)"
    using Cons.prems by (intro Cons.IH) auto
  ultimately show ?case
    using Cons.prems by (simp add: insert_loop_step [of base le] list_next_def)
qed

text \<open>At the tail the missing \<^verbatim>\<open>break\<close> makes the loop add the entry a second time, behind itself.\<close>

lemma insert_loop_tail:
  assumes "path (lnext l) le (map PageLink (xs @ [y])) FreeList" and "distinct (map PageLink (xs @ [y]))"
    and "\<forall>x \<in> set (xs @ [y]). x < base"
  shows "insert_loop base le l = Some
    (list_add (PageLink base) (PageLink base) (list_add (PageLink y) (PageLink base) l))"
  using assms
proof (induction xs arbitrary: le)
  case Nil
  let ?l1 = "list_add (PageLink y) (PageLink base) l"
  have n1: "lnext ?l1 (PageLink y) = PageLink base" "lnext ?l1 (PageLink base) = FreeList"
    using Nil by (auto simp: link_defs)
  have "lnext (list_add (PageLink base) (PageLink base) ?l1) (PageLink base) = FreeList"
    using n1 by (simp add: link_defs)
  then have "insert_loop base (PageLink base) (list_add (PageLink base) (PageLink base) ?l1)
      = Some (list_add (PageLink base) (PageLink base) ?l1)"
    by (simp add: insert_loop_step [of base "PageLink base"] list_next_def)
  then have "insert_loop base (PageLink y) ?l1 = Some (list_add (PageLink base) (PageLink base) ?l1)"
    using n1 by (simp add: insert_loop_step [of base "PageLink y"] list_next_def)
  then show ?case
    using Nil by (simp add: insert_loop_step [of base le] list_next_def)
next
  case (Cons x xs)
  have "lnext l (PageLink x) \<noteq> FreeList"
    using Cons.prems(1) by (cases xs) auto
  then show ?case
    using Cons by (simp add: insert_loop_step [of base le] list_next_def)
qed

lemma find_fit_path:
  assumes "path (lnext (flinks s)) le (map (PageLink \<circ> fst) bs) FreeList"
    and "\<forall>x \<in> set bs. property (pages s (fst x)) = snd x"
  shows "find_fit n le s = Some (map_option fst (find (\<lambda>x. n \<le> snd x) bs))"
  using assms
proof (induction bs arbitrary: le)
  case Nil
  then show ?case by (simp add: find_fit.simps [of n le] list_next_def)
next
  case (Cons x bs)
  then show ?case by (simp add: find_fit.simps [of n le] list_next_def)
qed

subsection \<open>Allocation\<close>

text \<open>First fit on the list of blocks: the first block that is large enough loses its first \<open>n\<close>
  pages.\<close>

definition rest_of :: "nat \<Rightarrow> block \<Rightarrow> block list" where
  "rest_of n x = (if n < snd x then [(fst x + n, snd x - n)] else [])"

lemma rest_of_simps [simp]:
  "n < snd x \<Longrightarrow> rest_of n x = [(fst x + n, snd x - n)]"
  "\<not> n < snd x \<Longrightarrow> rest_of n x = []"
  by (simp_all add: rest_of_def)

fun ff_alloc :: "nat \<Rightarrow> block list \<Rightarrow> (nat \<times> block list) option" where
  "ff_alloc n [] = None"
| "ff_alloc n (x # bs) =
     (if n \<le> snd x then Some (fst x, rest_of n x @ bs)
      else map_option (\<lambda>(b, bs'). (b, x # bs')) (ff_alloc n bs))"

lemma rest_of_ok:
  assumes "blocks_ok (xs @ x # ys)" "0 < n" "n \<le> snd x"
  shows "blocks_ok (xs @ rest_of n x @ ys)"
proof (cases "n < snd x")
  case True
  then show ?thesis using assms by (auto simp: blocks_ok_append rest_of_def before_def trans_le_add1)
next
  case False
  then show ?thesis using assms by (simp add: blocks_ok_append rest_of_def)
qed

lemma take_block_wf:
  assumes wf: "pmm_wf s (xs @ x # ys)" and n: "0 < n" "n \<le> snd x"
  shows "pmm_wf (take_block n (fst x) s) (xs @ rest_of n x @ ys)"
proof -
  let ?L = "map (PageLink \<circ> fst)"
  let ?l1 = "list_del (PageLink (fst x)) (flinks s)"
  let ?prev = "list_prev (PageLink (fst x)) (flinks s)"
  note d = pmm_wfD(1) [OF wf] and ok = pmm_wfD(2) [OF wf]
  have d1: "dll ?l1 FreeList (?L xs @ ?L ys)"
    using dll_del [of "flinks s" FreeList "?L xs" "PageLink (fst x)" "?L ys"] d by simp
  have prev: "?prev = (if ?L xs = [] then FreeList else last (?L xs))"
    using dll_prev_mid [of "flinks s" FreeList "?L xs" "PageLink (fst x)" "?L ys"] d
    by (simp add: list_prev_def)
  have fresh: "fst x + n \<noteq> fst y" if "y \<in> set (xs @ ys)" "n < snd x" for y
    using ok that n by (auto simp: blocks_ok_append before_def)
  have other: "fst y \<noteq> fst x" if "y \<in> set (xs @ ys)" for y
    using blocks_ok_mid [OF ok, of y] that by auto
  have d2: "dll (list_add ?prev (PageLink (fst x + n)) ?l1) FreeList
      (?L xs @ PageLink (fst x + n) # ?L ys)" if "n < snd x"
    using fresh [OF _ that] d1 prev by (intro dll_add_after_prev) auto
  have psize: "property (pages s (fst x)) = snd x"
    using wf by (auto simp: pmm_wf_def)
  have pg: "pages (take_block n (fst x) s) q =
      (if q = fst x then ClearPageProperty (pages s q)
       else if n < snd x \<and> q = fst x + n then SetPageProperty ((pages s q)\<lparr>property := snd x - n\<rparr>)
       else pages s q)" for q
    using n by (simp add: take_block_def psize Let_def)
  show ?thesis
    unfolding pmm_wf_def
  proof (intro conjI ballI allI)
    show "dll (flinks (take_block n (fst x) s)) FreeList (?L (xs @ rest_of n x @ ys))"
      using d1 d2 by (simp add: take_block_def psize rest_of_def Let_def)
    show "blocks_ok (xs @ rest_of n x @ ys)"
      using ok n by (rule rest_of_ok)
    show "property (pages (take_block n (fst x) s) (fst y)) = snd y"
      if "y \<in> set (xs @ rest_of n x @ ys)" for y
    proof (cases "y \<in> set (xs @ ys)")
      case True
      then show ?thesis
        using fresh [of y] other [of y] pmm_wfD(3) [OF wf, of y] pg [of "fst y"] by auto
    next
      case False
      with that have y: "n < snd x" "y = (fst x + n, snd x - n)"
        by (cases "n < snd x"; simp add: rest_of_def)+
      with n show ?thesis by (simp add: pg)
    qed
    show "PageProperty (pages (take_block n (fst x) s) p) \<longleftrightarrow> p \<in> fst ` set (xs @ rest_of n x @ ys)" for p
    proof -
      define A where "A = fst ` set (xs @ ys)"
      have "fst x \<notin> A" using other unfolding A_def by (metis imageE)
      moreover have "PageProperty (pages s p) \<longleftrightarrow> p = fst x \<or> p \<in> A"
        using pmm_wfD(4) [OF wf, of p] unfolding A_def by (simp add: disj_ac)
      moreover have "fst ` set (xs @ rest_of n x @ ys) = (if n < snd x then {fst x + n} else {}) \<union> A"
        unfolding A_def by (cases "n < snd x") (simp_all add: Un_ac)
      ultimately show ?thesis
        using n pg [of p] by (cases "p = fst x"; cases "n < snd x") simp_all
    qed
    show "nr_free (take_block n (fst x) s) = sum_list (map snd (xs @ rest_of n x @ ys))"
      using wf n by (auto simp: take_block_def psize rest_of_def Let_def pmm_wf_def)
  qed
qed

lemma ff_alloc_find:
  "ff_alloc n bs = None \<longleftrightarrow> find (\<lambda>x. n \<le> snd x) bs = None"
  by (induction bs) auto

lemma ff_alloc_Some:
  assumes "ff_alloc n bs = Some (b, bs')"
  obtains xs x ys where "bs = xs @ x # ys" "\<forall>y \<in> set xs. snd y < n" "n \<le> snd x" "b = fst x"
    "bs' = xs @ rest_of n x @ ys" "find (\<lambda>x. n \<le> snd x) bs = Some x"
proof -
  have "\<exists>xs x ys. bs = xs @ x # ys \<and> (\<forall>y \<in> set xs. snd y < n) \<and> n \<le> snd x \<and> b = fst x
    \<and> bs' = xs @ rest_of n x @ ys \<and> find (\<lambda>x. n \<le> snd x) bs = Some x"
    using assms
  proof (induction bs arbitrary: bs')
    case (Cons z bs)
    show ?case
    proof (cases "n \<le> snd z")
      case True
      with Cons.prems show ?thesis by (intro exI [of _ "[]"]) auto
    next
      case False
      with Cons.prems obtain cs where cs: "ff_alloc n bs = Some (b, cs)" "bs' = z # cs" by auto
      from Cons.IH [OF cs(1)] obtain xs x ys where
        "bs = xs @ x # ys" "\<forall>y \<in> set xs. snd y < n" "n \<le> snd x" "b = fst x"
        "cs = xs @ rest_of n x @ ys" "find (\<lambda>x. n \<le> snd x) bs = Some x" by blast
      with False cs(2) show ?thesis by (intro exI [of _ "z # xs"] exI [of _ x] exI [of _ ys]) auto
    qed
  qed simp
  then show ?thesis using that by blast
qed

lemma ff_alloc_too_large:
  assumes "sum_list (map snd bs) < n"
  shows "ff_alloc n bs = None"
  using assms by (induction bs) auto

text \<open>The pointer code refines the block-list function, on every well-formed state.\<close>

lemma default_alloc_refines:
  assumes wf: "pmm_wf s bs" and n: "0 < n"
  shows "case ff_alloc n bs of
      None \<Rightarrow> default_alloc_pages n s = Some (None, s)
    | Some (b, bs') \<Rightarrow>
        default_alloc_pages n s = Some (Some b, take_block n b s) \<and> pmm_wf (take_block n b s) bs'"
proof (cases "ff_alloc n bs")
  case None
  then have "find_fit n FreeList s = Some None"
    using wf find_fit_path [of s FreeList bs n] by (auto simp: pmm_wf_def dll_def ff_alloc_find)
  with None n show ?thesis by (simp add: default_alloc_pages_def)
next
  case (Some r)
  obtain b bs' where r: "r = (b, bs')" by (cases r)
  with Some obtain xs x ys where x: "bs = xs @ x # ys" "n \<le> snd x" "b = fst x"
    "bs' = xs @ rest_of n x @ ys" "find (\<lambda>x. n \<le> snd x) bs = Some x"
    using ff_alloc_Some by metis
  have "n \<le> nr_free s" using wf x by (simp add: pmm_wf_def)
  moreover have "find_fit n FreeList s = Some (Some b)"
    using wf find_fit_path [of s FreeList bs n] x by (auto simp: pmm_wf_def dll_def)
  ultimately have "default_alloc_pages n s = Some (Some b, take_block n b s)"
    using n by (simp add: default_alloc_pages_def)
  moreover have "pmm_wf (take_block n b s) bs'"
    using take_block_wf wf x n by simp
  ultimately show ?thesis using Some r by simp
qed

subsection \<open>Freeing\<close>

text \<open>Freeing on the list of blocks: insert in address order, join with the neighbours that touch.\<close>

fun join :: "block \<Rightarrow> block list \<Rightarrow> block list" where
  "join x [] = [x]"
| "join x (y # bs) =
     (if fst x + snd x = fst y then (fst x, snd x + snd y) # bs else x # y # bs)"

fun ff_free :: "nat \<Rightarrow> nat \<Rightarrow> block list \<Rightarrow> block list" where
  "ff_free b n [] = [(b, n)]"
| "ff_free b n (x # bs) =
     (if b < fst x then join (b, n) (x # bs)
      else if fst x + snd x = b then join (fst x, snd x + n) bs
      else x # ff_free b n bs)"

lemma init_pages_ok:
  assumes "\<forall>i < k. PageReserved (pages s (p + i))"
  shows "init_pages p k s = Some (s\<lparr>pages := (\<lambda>q. if p \<le> q \<and> q < p + k
      then (pages s q)\<lparr>flags := 0, property := 0, pref := 0\<rparr> else pages s q)\<rparr>)"
  using assms
proof (induction k arbitrary: p s)
  case (Suc k)
  have "PageReserved (pages s p)" using Suc.prems by (metis add_0_right zero_less_Suc)
  moreover have "\<forall>i < k. PageReserved (pages s (p + 1 + i))"
    using Suc.prems by (metis Suc_less_eq add_Suc_shift plus_1_eq_Suc add.commute)
  ultimately show ?case
    by (auto simp: Suc.IH upd_page_def intro!: arg_cong [where f = "\<lambda>g. pages_update g s"] ext)
qed simp

lemma clear_pages_ok:
  assumes "\<forall>i < k. \<not> PageReserved (pages s (p + i)) \<and> \<not> PageProperty (pages s (p + i))"
  shows "clear_pages p k s = Some (s\<lparr>pages := (\<lambda>q. if p \<le> q \<and> q < p + k
      then (pages s q)\<lparr>flags := 0, pref := 0\<rparr> else pages s q)\<rparr>)"
  using assms
proof (induction k arbitrary: p s)
  case (Suc k)
  have "\<not> PageReserved (pages s p) \<and> \<not> PageProperty (pages s p)"
    using Suc.prems by (metis add_0_right zero_less_Suc)
  moreover have "\<forall>i < k. \<not> PageReserved (pages s (p + 1 + i)) \<and> \<not> PageProperty (pages s (p + 1 + i))"
    using Suc.prems by (metis Suc_less_eq add_Suc_shift plus_1_eq_Suc add.commute)
  ultimately show ?case
    by (auto simp: Suc.IH upd_page_def intro!: arg_cong [where f = "\<lambda>g. pages_update g s"] ext)
qed simp

lemma clear_pages_flags:
  assumes "clear_pages p k s = Some t"
  shows "\<forall>i < k. \<not> PageReserved (pages s (p + i)) \<and> \<not> PageProperty (pages s (p + i))"
  using assms
proof (induction k arbitrary: p s)
  case (Suc k)
  from Suc.prems have h: "\<not> PageReserved (pages s p)" "\<not> PageProperty (pages s p)"
    by (auto simp: c_assert_def split: if_splits)
  with Suc have IH: "\<forall>i < k. \<not> PageReserved (pages s (p + 1 + i)) \<and> \<not> PageProperty (pages s (p + 1 + i))"
    by (fastforce simp: upd_page_def)
  show ?case
  proof (intro allI impI)
    fix i assume "i < Suc k"
    with h IH show "\<not> PageReserved (pages s (p + i)) \<and> \<not> PageProperty (pages s (p + i))"
      by (cases i) auto
  qed
qed simp

lemma clear_pages_wf:
  assumes "pmm_wf s bs" "clear_pages b n s = Some t"
  shows "pmm_wf t bs"
proof -
  have out: "\<not> PageProperty (pages s p)" if "b \<le> p" "p < b + n" for p
    using clear_pages_flags [OF assms(2), THEN spec, of "p - b"] that by auto
  have t: "t = s\<lparr>pages := (\<lambda>q. if b \<le> q \<and> q < b + n
      then (pages s q)\<lparr>flags := 0, pref := 0\<rparr> else pages s q)\<rparr>"
    using clear_pages_ok [OF clear_pages_flags [OF assms(2)]] assms(2) by simp
  show ?thesis
    using out by (intro pmm_wf_cong [OF assms(1)]) (auto simp: t split: if_splits)
qed

lemma init_pages_wf:
  assumes "pmm_wf s bs" "\<forall>i < n. PageReserved (pages s (b + i)) \<and> \<not> PageProperty (pages s (b + i))"
  obtains t where "init_pages b n s = Some t" "pmm_wf t bs"
proof -
  have out: "\<not> PageProperty (pages s p)" if "b \<le> p" "p < b + n" for p
    using assms(2) [THEN spec, of "p - b"] that by auto
  have heads: "\<not> (b \<le> p \<and> p < b + n)" if "p \<in> fst ` set bs" for p
    using out [of p] that pmm_wfD(4) [OF assms(1), of p] by blast
  have i: "init_pages b n s = Some (s\<lparr>pages := (\<lambda>q. if b \<le> q \<and> q < b + n
      then (pages s q)\<lparr>flags := 0, property := 0, pref := 0\<rparr> else pages s q)\<rparr>)"
    using assms(2) by (intro init_pages_ok) blast
  moreover have "pmm_wf (s\<lparr>pages := (\<lambda>q. if b \<le> q \<and> q < b + n
      then (pages s q)\<lparr>flags := 0, property := 0, pref := 0\<rparr> else pages s q)\<rparr>) bs"
    using out heads by (intro pmm_wf_cong [OF assms(1)]) auto
  ultimately show ?thesis by (rule that)
qed

text \<open>Linking a block in, in every position but behind the last block.\<close>

lemma link_block_dll:
  assumes d: "dll l FreeList (map (PageLink \<circ> fst) (xs @ ys))" and ok: "blocks_ok (xs @ x # ys)"
    and nt: "xs @ ys = [] \<or> ys \<noteq> []" and s: "flinks s = l"
  obtains l' where "link_block (fst x) s = Some (s\<lparr>flinks := l'\<rparr>)"
    "dll l' FreeList (map (PageLink \<circ> fst) (xs @ x # ys))"
proof -
  note fresh = blocks_ok_fresh(2) [OF ok]
  show ?thesis
  proof (cases ys)
    case Nil
    with nt have e: "xs = []" "ys = []" by auto
    with d have "dll (list_add FreeList (PageLink (fst x)) l) FreeList [PageLink (fst x)]"
      using dll_add_after_head [of l FreeList "[]" "PageLink (fst x)"] by simp
    moreover have "list_empty FreeList l" using d e dll_empty_iff [of l FreeList "[]"] by simp
    ultimately show ?thesis using that [of "list_add FreeList (PageLink (fst x)) l"] e s
      by (simp add: link_block_def)
  next
    case (Cons y zs)
    let ?l' = "list_add_before (PageLink (fst y)) (PageLink (fst x)) l"
    have "\<not> list_empty FreeList l" using d Cons dll_empty_iff [OF d] by simp
    moreover have "insert_loop (fst x) FreeList l = Some ?l'"
      using d Cons blocks_ok_mid [OF ok]
      by (intro insert_loop_mid [where xs = "map fst xs" and ys = "map fst zs"])
        (auto simp: dll_def comp_def intro: less_imp_le)
    moreover have "dll ?l' FreeList (map (PageLink \<circ> fst) (xs @ x # ys))"
      using dll_add_before [of l FreeList "map (PageLink \<circ> fst) xs" "PageLink (fst y)"
          "map (PageLink \<circ> fst) zs" "PageLink (fst x)"] d fresh Cons by simp
    ultimately show ?thesis using that [of ?l'] s by (simp add: link_block_def)
  qed
qed

lemma link_block_wf:
  assumes wf: "pmm_wf t (xs @ ys)" and ok: "blocks_ok (xs @ x # ys)"
    and nt: "xs @ ys = [] \<or> ys \<noteq> []"
  obtains u where "link_block (fst x) (mark_block (fst x) (snd x) t) = Some u" "pmm_wf u (xs @ x # ys)"
proof -
  let ?m = "mark_block (fst x) (snd x) t"
  have fl: "flinks ?m = flinks t" by (simp add: mark_block_def Let_def)
  obtain l' where l': "link_block (fst x) ?m = Some (?m\<lparr>flinks := l'\<rparr>)"
    "dll l' FreeList (map (PageLink \<circ> fst) (xs @ x # ys))"
    using link_block_dll [OF pmm_wfD(1) [OF wf] ok nt fl] by blast
  have fresh: "fst y \<noteq> fst x" if "y \<in> set (xs @ ys)" for y
    using blocks_ok_mid [OF ok, of y] that by auto
  have pg: "pages (?m\<lparr>flinks := l'\<rparr>) q =
      (if q = fst x then SetPageProperty ((pages t q)\<lparr>property := snd x\<rparr>) else pages t q)" for q
    by (simp add: mark_block_def Let_def)
  have "pmm_wf (?m\<lparr>flinks := l'\<rparr>) (xs @ x # ys)"
    unfolding pmm_wf_def
  proof (intro conjI ballI allI)
    show "property (pages (?m\<lparr>flinks := l'\<rparr>) (fst y)) = snd y" if "y \<in> set (xs @ x # ys)" for y
      using that fresh [of y] pmm_wfD(3) [OF wf, of y] pg [of "fst y"] by (cases "y = x") auto
    show "PageProperty (pages (?m\<lparr>flinks := l'\<rparr>) p) \<longleftrightarrow> p \<in> fst ` set (xs @ x # ys)" for p
      using pmm_wfD(4) [OF wf, of p] pg [of p] by auto
  qed (use l' ok wf in \<open>auto simp: mark_block_def Let_def pmm_wf_def\<close>)
  with l'(1) show ?thesis by (rule that)
qed

subsection \<open>Coalescing\<close>

lemma fuse_wf:
  assumes wf: "pmm_wf s (xs @ z # x # ys)" and adj: "fst z + snd z = fst x"
  shows "pmm_wf (fuse (fst z) (fst x) s) (xs @ (fst z, snd z + snd x) # ys)"
proof -
  let ?L = "map (PageLink \<circ> fst)" and ?t = "fuse (fst z) (fst x) s"
  note ok = pmm_wfD(2) [OF wf]
  have zx: "fst z < fst x" and z: "property (pages s (fst z)) = snd z" and x: "property (pages s (fst x)) = snd x"
    using wf blocks_ok_pos [OF ok, of z] adj by (auto simp: pmm_wf_def)
  have other: "fst y \<noteq> fst z" "fst y \<noteq> fst x" if "y \<in> set (xs @ ys)" for y
    using blocks_ok_mid [OF ok, of y] blocks_ok_mid [of "xs @ [z]" x ys y] ok that by auto
  have pg: "pages ?t q = (if q = fst z then (pages s q)\<lparr>property := snd z + snd x\<rparr>
      else if q = fst x then ClearPageProperty (pages s q) else pages s q)" for q
    using zx z x by (simp add: fuse_def Let_def)
  show ?thesis
    unfolding pmm_wf_def
  proof (intro conjI ballI allI)
    show "dll (flinks ?t) FreeList (?L (xs @ (fst z, snd z + snd x) # ys))"
      using pmm_wfD(1) [OF wf] dll_del [of "flinks s" FreeList "?L (xs @ [z])" "PageLink (fst x)" "?L ys"]
      by (simp add: fuse_def Let_def)
    show "blocks_ok (xs @ (fst z, snd z + snd x) # ys)"
      using ok adj by (auto simp: blocks_ok_append before_def)
    show "property (pages ?t (fst y)) = snd y" if "y \<in> set (xs @ (fst z, snd z + snd x) # ys)" for y
    proof (cases "y \<in> set (xs @ ys)")
      case True
      then show ?thesis using other [of y] pmm_wfD(3) [OF wf, of y] pg [of "fst y"] by auto
    next
      case False
      then show ?thesis using that pg [of "fst y"] by auto
    qed
    show "PageProperty (pages ?t p) \<longleftrightarrow> p \<in> fst ` set (xs @ (fst z, snd z + snd x) # ys)" for p
    proof -
      define A where "A = fst ` set (xs @ ys)"
      have "fst x \<notin> A" using other(2) unfolding A_def by (metis imageE)
      moreover have "PageProperty (pages s p) \<longleftrightarrow> p = fst z \<or> p = fst x \<or> p \<in> A"
        using pmm_wfD(4) [OF wf, of p] unfolding A_def by (simp add: disj_ac)
      moreover have "fst ` set (xs @ (fst z, snd z + snd x) # ys) = insert (fst z) A"
        unfolding A_def by simp
      ultimately show ?thesis using pg [of p] zx by auto
    qed
    show "nr_free ?t = sum_list (map snd (xs @ (fst z, snd z + snd x) # ys))"
      using pmm_wfD(5) [OF wf] by (simp add: fuse_def Let_def)
  qed
qed

lemma merge_next_wf:
  assumes wf: "pmm_wf s (xs @ x # ys)"
  shows "pmm_wf (merge_next (fst x) s) (xs @ join x ys)"
proof -
  have n: "list_next (PageLink (fst x)) (flinks s) = (case ys of [] \<Rightarrow> FreeList | y # _ \<Rightarrow> PageLink (fst y))"
    using dll_next_mid [of "flinks s" FreeList "map (PageLink \<circ> fst) xs" "PageLink (fst x)"
        "map (PageLink \<circ> fst) ys"] pmm_wfD(1) [OF wf]
    by (cases ys) (auto simp: list_next_def)
  have x: "property (pages s (fst x)) = snd x" using wf by (auto simp: pmm_wf_def)
  show ?thesis
  proof (cases ys)
    case Nil
    then show ?thesis using wf n by (simp add: merge_next_def)
  next
    case (Cons y zs)
    then show ?thesis using wf n x fuse_wf [of s xs x y zs] by (auto simp: merge_next_def)
  qed
qed

lemma merge_prev_wf:
  assumes wf: "pmm_wf s (xs @ x # ys)"
  shows "if xs \<noteq> [] \<and> fst (last xs) + snd (last xs) = fst x
    then merge_prev (fst x) s = (fst (last xs), fuse (fst (last xs)) (fst x) s) \<and>
      pmm_wf (fuse (fst (last xs)) (fst x) s) (butlast xs @ (fst (last xs), snd (last xs) + snd x) # ys)
    else merge_prev (fst x) s = (fst x, s)"
proof -
  have p: "list_prev (PageLink (fst x)) (flinks s) = (if xs = [] then FreeList else PageLink (fst (last xs)))"
    using dll_prev_mid [of "flinks s" FreeList "map (PageLink \<circ> fst) xs" "PageLink (fst x)"
        "map (PageLink \<circ> fst) ys"] pmm_wfD(1) [OF wf]
    by (auto simp: list_prev_def last_map)
  show ?thesis
  proof (cases xs rule: rev_cases)
    case Nil
    then show ?thesis using p by (simp add: merge_prev_def)
  next
    case (snoc zs z)
    moreover have "property (pages s (fst z)) = snd z" using wf snoc by (auto simp: pmm_wf_def)
    ultimately show ?thesis using wf p fuse_wf [of s zs z x ys] by (auto simp: merge_prev_def)
  qed
qed

lemma ff_free_split:
  assumes "blocks_ok (xs @ (b, n) # ys)"
  shows "ff_free b n (xs @ ys) =
    (if xs \<noteq> [] \<and> fst (last xs) + snd (last xs) = b
     then butlast xs @ join (fst (last xs), snd (last xs) + n) ys else xs @ join (b, n) ys)"
  using assms
proof (induction xs)
  case Nil
  then show ?case by (cases ys) (auto simp: before_def)
next
  case (Cons x xs)
  then have lt: "\<not> b < fst x" "fst x + snd x \<le> b" by (auto simp: before_def)
  show ?case
  proof (cases xs)
    case Nil
    then show ?thesis using lt Cons.prems by (cases ys) (auto simp: before_def)
  next
    case (Cons y zs)
    with \<open>blocks_ok ((x # xs) @ (b, n) # ys)\<close> have "fst x + snd x \<noteq> b"
      by (auto simp: before_def)
    with lt Cons Cons.IH \<open>blocks_ok ((x # xs) @ (b, n) # ys)\<close> show ?thesis by simp
  qed
qed

subsection \<open>Freeing a block: refinement, and the tail position\<close>

text \<open>\<open>fits b n bs\<close>: the pages \<open>b ..< b + n\<close> touch no free block.  \<open>not_tail b bs\<close>: some free block
  lies behind \<open>b\<close>, or there is none at all.\<close>

definition fits :: "nat \<Rightarrow> nat \<Rightarrow> block list \<Rightarrow> bool" where
  "fits b n bs \<longleftrightarrow> 0 < n \<and> list_all (\<lambda>x. b + n \<le> fst x \<or> fst x + snd x \<le> b) bs"

definition not_tail :: "nat \<Rightarrow> block list \<Rightarrow> bool" where
  "not_tail b bs \<longleftrightarrow> bs = [] \<or> b < fst (last bs)"

text \<open>What the descriptor loops check: pages in use carry neither flag.\<close>

definition in_use :: "nat \<Rightarrow> nat \<Rightarrow> pmm \<Rightarrow> bool" where
  "in_use b n s \<longleftrightarrow> list_all (\<lambda>p. \<not> PageReserved (pages s p) \<and> \<not> PageProperty (pages s p)) [b..<b+n]"

lemma in_useD: "in_use b n s \<Longrightarrow> i < n \<Longrightarrow> \<not> PageReserved (pages s (b + i)) \<and> \<not> PageProperty (pages s (b + i))"
  by (simp add: in_use_def list_all_iff)

lemma fits_position:
  assumes "blocks_ok bs" "fits b n bs"
  obtains xs ys where "bs = xs @ ys" "blocks_ok (xs @ (b, n) # ys)"
    "not_tail b bs \<longleftrightarrow> xs @ ys = [] \<or> ys \<noteq> []"
proof -
  have "\<exists>xs ys. bs = xs @ ys \<and> blocks_ok (xs @ (b, n) # ys)"
    using assms
  proof (induction bs)
    case Nil
    then show ?case by (auto simp: fits_def)
  next
    case (Cons x bs)
    show ?case
    proof (cases "b + n \<le> fst x")
      case True
      then have "blocks_ok ([] @ (b, n) # x # bs)"
        using Cons.prems by (auto simp: fits_def before_def intro: order_trans [of _ "fst x"])
      then show ?thesis by (metis append_Nil)
    next
      case False
      then have x: "before x (b, n)" using Cons.prems by (auto simp: fits_def before_def)
      from Cons obtain xs ys where "bs = xs @ ys" "blocks_ok (xs @ (b, n) # ys)"
        by (auto simp: fits_def)
      with x Cons.prems have "x # bs = (x # xs) @ ys \<and> blocks_ok ((x # xs) @ (b, n) # ys)" by auto
      then show ?thesis by blast
    qed
  qed
  then obtain xs ys where d: "bs = xs @ ys" "blocks_ok (xs @ (b, n) # ys)" by blast
  have "not_tail b bs \<longleftrightarrow> xs @ ys = [] \<or> ys \<noteq> []"
  proof (cases "ys = []")
    case True
    then show ?thesis using d blocks_ok_mid(2) [OF d(2), of "last xs"]
      by (cases "xs = []") (auto simp: not_tail_def)
  next
    case False
    then show ?thesis using d blocks_ok_mid(4) [OF d(2), of "last ys"] by (auto simp: not_tail_def)
  qed
  with d show ?thesis by (rule that)
qed

lemma default_free_pos:
  assumes wf: "pmm_wf s (xs @ ys)" and ok: "blocks_ok (xs @ (b, n) # ys)"
    and nt: "xs @ ys = [] \<or> ys \<noteq> []" and u: "in_use b n s"
  obtains s' where "default_free_pages b n s = Some s'" "pmm_wf s' (ff_free b n (xs @ ys))"
proof -
  have n: "0 < n" using ok by (simp add: blocks_ok_append)
  obtain t where t: "clear_pages b n s = Some t"
    using clear_pages_ok [of n s b] in_useD [OF u] by blast
  obtain v where v: "link_block b (mark_block b n t) = Some v" "pmm_wf v (xs @ (b, n) # ys)"
    using link_block_wf [OF clear_pages_wf [OF wf t] ok nt] by auto
  show ?thesis
  proof (cases "xs \<noteq> [] \<and> fst (last xs) + snd (last xs) = b")
    case True
    let ?z = "last xs"
    have m: "merge_prev b v = (fst ?z, fuse (fst ?z) b v)"
      "pmm_wf (fuse (fst ?z) b v) (butlast xs @ (fst ?z, snd ?z + n) # ys)"
      using True merge_prev_wf [OF v(2)] by auto
    have "default_free_pages b n s = Some (merge_next (fst ?z) (fuse (fst ?z) b v))"
      using n t v m by (simp add: default_free_pages_def)
    with True merge_next_wf [OF m(2)] show ?thesis
      by (intro that) (simp_all add: ff_free_split [OF ok])
  next
    case False
    then have m: "merge_prev b v = (b, v)" using merge_prev_wf [OF v(2)] by (simp split: if_splits)
    have "default_free_pages b n s = Some (merge_next b v)"
      using n t v m by (simp add: default_free_pages_def)
    moreover have "ff_free b n (xs @ ys) = xs @ join (b, n) ys"
      using False ff_free_split [OF ok] by auto
    ultimately show ?thesis using merge_next_wf [OF v(2)] that [of "merge_next b v"] by simp
  qed
qed

lemma default_free_refines:
  assumes wf: "pmm_wf s bs" and fit: "fits b n bs" and nt: "not_tail b bs" and u: "in_use b n s"
  obtains s' where "default_free_pages b n s = Some s'" "pmm_wf s' (ff_free b n bs)"
proof -
  obtain xs ys where "bs = xs @ ys" "blocks_ok (xs @ (b, n) # ys)" "xs @ ys = [] \<or> ys \<noteq> []"
    using fits_position [OF pmm_wfD(2) [OF wf] fit] nt by blast
  with wf u show ?thesis using default_free_pos that by metis
qed

lemma block_pages_split: "block_pages (a, m + n) = block_pages (a, m) \<union> block_pages (a + m, n)"
  by (auto simp: block_pages_def)

lemma free_set_join: "free_set (join x bs) = block_pages x \<union> free_set bs"
proof (cases bs)
  case (Cons y ys)
  then show ?thesis
    using block_pages_split [of "fst x" "snd x" "snd y"]
    by (cases "fst x + snd x = fst y") (simp_all add: Un_assoc)
qed simp

lemma free_set_ff_free: "free_set (ff_free b n bs) = block_pages (b, n) \<union> free_set bs"
proof (induction bs)
  case (Cons x bs)
  show ?case
  proof (cases "\<not> b < fst x \<and> fst x + snd x = b")
    case True
    then show ?thesis
      using block_pages_split [of "fst x" "snd x" n] by (simp add: free_set_join Un_ac)
  next
    case False
    then show ?thesis using Cons.IH by (auto simp: free_set_join simp del: join.simps)
  qed
qed simp

lemma sum_ff_free: "sum_list (map snd (ff_free b n bs)) = n + sum_list (map snd bs)"
proof -
  have j: "sum_list (map snd (join x cs)) = snd x + sum_list (map snd cs)" for x cs
    by (cases cs) auto
  show ?thesis by (induction bs) (auto simp: j)
qed

text \<open>Behind the last block the freed block ends up in the list with its own address as \<^verbatim>\<open>prev\<close>
  pointer, so it is neither joined with its predecessor nor can it be unlinked again.\<close>

lemma default_free_tail:
  assumes wf: "pmm_wf s (xs @ [z])" and ok: "blocks_ok (xs @ [z, (b, n)])" and u: "in_use b n s"
  obtains s' where "default_free_pages b n s = Some s'"
    "path (lnext (flinks s')) FreeList (map (PageLink \<circ> fst) (xs @ [z, (b, n)])) FreeList"
    "lprev (flinks s') (PageLink b) = PageLink b" "PageProperty (pages s' b)"
proof -
  let ?L = "map (PageLink \<circ> fst)"
  have n: "0 < n" using ok by (simp add: blocks_ok_append)
  obtain t where t: "clear_pages b n s = Some t"
    using clear_pages_ok [of n s b] in_useD [OF u] by blast
  note wft = clear_pages_wf [OF wf t]
  let ?m = "mark_block b n t"
  let ?l1 = "list_add (PageLink (fst z)) (PageLink b) (flinks t)"
  let ?l2 = "list_add (PageLink b) (PageLink b) ?l1"
  have d: "dll (flinks t) FreeList (?L xs @ [PageLink (fst z)])"
    using pmm_wfD(1) [OF wft] by simp
  have ok': "blocks_ok ((xs @ [z]) @ (b, n) # [])" using ok by simp
  have fresh: "PageLink b \<notin> set (?L xs @ [PageLink (fst z)])"
    using blocks_ok_fresh(2) [OF ok'] by simp
  have d1: "dll ?l1 FreeList (?L xs @ [PageLink (fst z), PageLink b])"
    using dll_add_after [OF d] fresh by simp
  have nx: "lnext ?l1 (PageLink b) = FreeList"
    using dll_next_mid [of ?l1 FreeList "?L xs @ [PageLink (fst z)]" "PageLink b" "[]"] d1 by simp
  have l2: "lnext ?l2 = lnext ?l1" "lprev ?l2 (PageLink b) = PageLink b"
    using nx by (auto simp: link_defs)
  have "insert_loop b FreeList (flinks ?m) = Some ?l2"
  proof -
    have "\<forall>x \<in> set (map fst xs @ [fst z]). x < b"
      using blocks_ok_mid(2) [OF ok'] by auto
    then show ?thesis
      using insert_loop_tail [of "flinks ?m" FreeList "map fst xs" "fst z" b] d
      by (simp add: mark_block_def Let_def dll_def comp_def)
  qed
  moreover have "\<not> list_empty FreeList (flinks ?m)"
    using dll_empty_iff [OF d] by (simp add: mark_block_def Let_def)
  ultimately have lk: "link_block b ?m = Some (?m\<lparr>flinks := ?l2\<rparr>)" by (simp add: link_block_def)
  have psz: "property (pages ?m b) = n" by (simp add: mark_block_def Let_def)
  have "merge_prev b (?m\<lparr>flinks := ?l2\<rparr>) = (b, ?m\<lparr>flinks := ?l2\<rparr>)"
    using l2 n psz by (simp add: merge_prev_def list_prev_def)
  moreover have "merge_next b (?m\<lparr>flinks := ?l2\<rparr>) = ?m\<lparr>flinks := ?l2\<rparr>"
    using l2 nx by (simp add: merge_next_def list_next_def)
  ultimately have "default_free_pages b n s = Some (?m\<lparr>flinks := ?l2\<rparr>)"
    using n t lk by (simp add: default_free_pages_def)
  moreover have "path (lnext ?l2) FreeList (?L (xs @ [z, (b, n)])) FreeList"
    using d1 l2(1) by (simp add: dll_def)
  ultimately show ?thesis
    using l2(2) that [of "?m\<lparr>flinks := ?l2\<rparr>"] by (simp add: mark_block_def Let_def)
qed

lemma self_prev_not_wf:
  assumes "lprev (flinks s) (PageLink b) = PageLink b" "PageProperty (pages s b)"
  shows "\<not> pmm_wf s bs"
proof
  assume wf: "pmm_wf s bs"
  then have "b \<in> fst ` set bs" using assms(2) by (simp add: pmm_wf_def)
  then obtain x where "x \<in> set bs" "b = fst x" by blast
  then obtain xs ys where bs: "bs = xs @ x # ys" "b = fst x" by (auto simp: in_set_conv_decomp)
  then have "dll (flinks s) FreeList (map (PageLink \<circ> fst) xs @ PageLink b # map (PageLink \<circ> fst) ys)"
    using wf by (simp add: pmm_wf_def)
  with dll_prev_mid [OF this] assms(1) show False
    by (cases xs rule: rev_cases) (auto simp: dll_def)
qed

end
