(* ===== verification/Pmm_Manager.thy ===== *)
theory Pmm_Manager
  imports Pmm_FirstFit
begin

text \<open>
  \<^verbatim>\<open>struct pmm_manager\<close> (kern/mm/pmm.h): the interface between the page-frame allocators and
  their clients (\<^verbatim>\<open>alloc_pages\<close>, \<^verbatim>\<open>free_pages\<close> and everything above them in kern/mm/pmm.c,
  kmalloc, the page tables).  The locale states the laws a client relies on; the clients' lemmas
  are proved from them once.  The interpretations on the first-fit, best-fit and buddy managers
  are in this theory, \<open>Pmm_BestFit\<close> and \<open>Buddy\<close>.

  \<open>free_of s\<close> is the set of frames the manager may still hand out, \<open>rounded n\<close> the number of
  frames it takes for a request of \<open>n\<close>, \<open>servable n s\<close> the side condition under which its
  allocation is correct and \<open>returnable b n s\<close> the one under which giving back is.
\<close>

locale pmm_manager =
  fixes alloc :: "nat \<Rightarrow> 's \<Rightarrow> (nat option \<times> 's) option"
    and give_back :: "nat \<Rightarrow> nat \<Rightarrow> 's \<Rightarrow> 's option"
    and ok :: "'s \<Rightarrow> bool"
    and free_of :: "'s \<Rightarrow> nat set"
    and rounded :: "nat \<Rightarrow> nat"
    and servable :: "nat \<Rightarrow> 's \<Rightarrow> bool"
    and returnable :: "nat \<Rightarrow> nat \<Rightarrow> 's \<Rightarrow> bool"
  assumes rounded_ge: "servable n s \<Longrightarrow> n \<le> rounded n"
    and alloc_returns: "ok s \<Longrightarrow> 0 < n \<Longrightarrow> servable n s \<Longrightarrow> \<exists>r s'. alloc n s = Some (r, s') \<and> ok s'"
    and alloc_none: "ok s \<Longrightarrow> alloc n s = Some (None, s') \<Longrightarrow> s' = s"
    and alloc_some: "ok s \<Longrightarrow> servable n s \<Longrightarrow> alloc n s = Some (Some b, s') \<Longrightarrow>
      {b ..< b + rounded n} \<subseteq> free_of s \<and> free_of s' = free_of s - {b ..< b + rounded n}"
    and servable_stable: "ok s \<Longrightarrow> servable m s \<Longrightarrow> servable n s \<Longrightarrow> alloc m s = Some (r, s') \<Longrightarrow> servable n s'"
    and free_ok: "ok s \<Longrightarrow> returnable b n s \<Longrightarrow>
      \<exists>s'. give_back b n s = Some s' \<and> ok s' \<and> free_of s' = free_of s \<union> {b ..< b + rounded n}"

text \<open>A client that asks for several blocks in turn, as \<^verbatim>\<open>basic_check\<close> and the page-table code do.\<close>

fun alloc_seq :: "(nat \<Rightarrow> 's \<Rightarrow> (nat option \<times> 's) option) \<Rightarrow> nat list \<Rightarrow> 's
    \<Rightarrow> ((nat \<times> nat) list \<times> 's) option" where
  "alloc_seq al [] s = Some ([], s)"
| "alloc_seq al (n # ns) s = do {
     (r, s1) \<leftarrow> al n s;
     (bs, s2) \<leftarrow> alloc_seq al ns s1;
     Some (case r of None \<Rightarrow> (bs, s2) | Some b \<Rightarrow> ((b, n) # bs, s2)) }"

context pmm_manager begin

lemma alloc_ok:
  assumes "ok s" "0 < n" "servable n s" "alloc n s = Some (r, s')"
  shows "ok s'" "free_of s' \<subseteq> free_of s"
proof -
  show "ok s'" using alloc_returns [OF assms(1-3)] assms(4) by auto
  show "free_of s' \<subseteq> free_of s"
    using alloc_none [of s n s'] alloc_some [of s n _ s'] assms by (cases r) auto
qed

text \<open>Blocks handed out one after the other are pairwise disjoint and come from the free frames.\<close>

lemma alloc_seq_disjoint:
  assumes "ok s" "\<forall>n \<in> set ns. 0 < n \<and> servable n s" "alloc_seq alloc ns s = Some (bs, s')"
  shows "ok s' \<and> sorted_wrt (\<lambda>x y. block_pages x \<inter> block_pages y = {}) bs \<and>
    free_set bs \<subseteq> free_of s \<and> free_set bs \<inter> free_of s' = {} \<and> free_of s' \<subseteq> free_of s"
  using assms
proof (induction ns arbitrary: s bs)
  case Nil
  then show ?case by simp
next
  case (Cons n ns)
  from Cons.prems(3) obtain r s1 cs where st: "alloc n s = Some (r, s1)"
    "alloc_seq alloc ns s1 = Some (cs, s')" "bs = (case r of None \<Rightarrow> cs | Some b \<Rightarrow> (b, n) # cs)"
    by (auto simp: Option.bind_eq_Some_conv split: option.splits)
  have s1: "ok s1" "free_of s1 \<subseteq> free_of s" using alloc_ok [OF _ _ _ st(1)] Cons.prems by auto
  have "\<forall>m \<in> set ns. 0 < m \<and> servable m s1"
    using servable_stable [OF _ _ _ st(1)] Cons.prems by auto
  with Cons.IH [OF s1(1) _ st(2)] have IH: "ok s'"
    "sorted_wrt (\<lambda>x y. block_pages x \<inter> block_pages y = {}) cs"
    "free_set cs \<subseteq> free_of s1" "free_set cs \<inter> free_of s' = {}" "free_of s' \<subseteq> free_of s1" by auto
  show ?case
  proof (cases r)
    case None
    with IH s1 st show ?thesis by auto
  next
    case (Some b)
    have b: "{b ..< b + rounded n} \<subseteq> free_of s" "free_of s1 = free_of s - {b ..< b + rounded n}"
      using alloc_some [of s n b s1] Cons.prems Some st(1) by auto
    have sub: "block_pages (b, n) \<subseteq> {b ..< b + rounded n}"
      using rounded_ge [of n s] Cons.prems by (auto simp: block_pages_def)
    have dj: "block_pages (b, n) \<inter> free_of s1 = {}" using b sub by auto
    have "\<forall>y \<in> set cs. block_pages (b, n) \<inter> block_pages y = {}"
      using dj IH(3) by (fastforce simp: free_set_def)
    then show ?thesis using IH s1 st b sub dj Some by auto
  qed
qed

text \<open>Giving a block back makes exactly its frames available again.\<close>

lemma alloc_free_of:
  assumes "ok s" "servable n s" "alloc n s = Some (Some b, s1)" "ok s1" "returnable b n s1"
  shows "\<exists>s2. give_back b n s1 = Some s2 \<and> ok s2 \<and> free_of s2 = free_of s"
  using free_ok [OF assms(4,5)] alloc_some [OF assms(1-3)] by auto

end

subsection \<open>The first-fit manager\<close>

definition pmm_ok :: "pmm \<Rightarrow> bool" where
  "pmm_ok s \<longleftrightarrow> (\<exists>bs. pmm_wf s bs)"

definition pmm_free_of :: "pmm \<Rightarrow> nat set" where
  "pmm_free_of s = {p. \<exists>b. PageProperty (pages s b) \<and> b \<le> p \<and> p < b + property (pages s b)}"

lemma pmm_free_of_eq:
  assumes "pmm_wf s bs"
  shows "pmm_free_of s = free_set bs"
proof -
  have "p \<in> pmm_free_of s \<longleftrightarrow> p \<in> free_set bs" for p
  proof
    assume "p \<in> pmm_free_of s"
    then obtain b where b: "PageProperty (pages s b)" "b \<le> p" "p < b + property (pages s b)"
      by (auto simp: pmm_free_of_def)
    then obtain x where x: "x \<in> set bs" "b = fst x" using pmm_wfD(4) [OF assms, of b] by blast
    with b pmm_wfD(3) [OF assms x(1)] show "p \<in> free_set bs"
      by (auto simp: free_set_def block_pages_def)
  next
    assume "p \<in> free_set bs"
    then obtain x where x: "x \<in> set bs" "p \<in> block_pages x" unfolding free_set_def by blast
    with pmm_wfD(3) [OF assms x(1)] pmm_wfD(4) [OF assms, of "fst x"] show "p \<in> pmm_free_of s"
      by (auto simp: pmm_free_of_def block_pages_def)
  qed
  then show ?thesis by blast
qed

text \<open>A block may be given back when its frames are in use and it does not lie behind the last
  free block (\<open>Pmm_FirstFit.default_free_tail\<close> shows what happens there).\<close>

definition pmm_returnable :: "nat \<Rightarrow> nat \<Rightarrow> pmm \<Rightarrow> bool" where
  "pmm_returnable b n s \<longleftrightarrow> (\<exists>bs. pmm_wf s bs \<and> fits b n bs \<and> not_tail b bs) \<and> in_use b n s"

lemma free_set_rest:
  assumes "blocks_ok (xs @ x # ys)" "0 < n" "n \<le> snd x"
  shows "free_set (xs @ rest_of n x @ ys) = free_set (xs @ x # ys) - {fst x ..< fst x + n}"
    and "{fst x ..< fst x + n} \<subseteq> free_set (xs @ x # ys)"
proof -
  have dj: "{fst x ..< fst x + n} \<inter> free_set (xs @ ys) = {}"
  proof -
    have "{fst x ..< fst x + n} \<inter> block_pages y = {}" if "y \<in> set (xs @ ys)" for y
      using blocks_ok_mid [OF assms(1), of y] that assms(3) by (auto simp: block_pages_def)
    then show ?thesis by (auto simp: free_set_def)
  qed
  have x: "block_pages x = {fst x ..< fst x + n} \<union> free_set (rest_of n x)"
  proof (cases "n < snd x")
    case True
    then show ?thesis using block_pages_split [of "fst x" n "snd x - n"]
      by (simp add: block_pages_def)
  next
    case False
    then show ?thesis using assms(3) by (simp add: block_pages_def)
  qed
  have "{fst x ..< fst x + n} \<inter> free_set (rest_of n x) = {}"
    by (cases "n < snd x") (auto simp: block_pages_def)
  with dj x show "free_set (xs @ rest_of n x @ ys) = free_set (xs @ x # ys) - {fst x ..< fst x + n}"
    by auto
  show "{fst x ..< fst x + n} \<subseteq> free_set (xs @ x # ys)" using x by auto
qed

lemma default_alloc_cases:
  assumes wf: "pmm_wf s bs" and n: "0 < n"
  shows "default_alloc_pages n s = Some (None, s) \<or>
    (\<exists>xs x ys. bs = xs @ x # ys \<and> n \<le> snd x \<and>
      default_alloc_pages n s = Some (Some (fst x), take_block n (fst x) s) \<and>
      pmm_wf (take_block n (fst x) s) (xs @ rest_of n x @ ys))"
proof (cases "ff_alloc n bs")
  case None
  then show ?thesis using default_alloc_refines [OF assms] by simp
next
  case (Some r)
  obtain b bs' where r: "r = (b, bs')" by (cases r)
  from ff_alloc_Some [of n bs b bs'] Some r obtain xs x ys where "bs = xs @ x # ys" "n \<le> snd x"
    "b = fst x" "bs' = xs @ rest_of n x @ ys" by metis
  with default_alloc_refines [OF assms] Some r show ?thesis
    by (intro disjI2 exI [of _ xs] exI [of _ x] exI [of _ ys]) simp
qed

interpretation ff: pmm_manager default_alloc_pages default_free_pages pmm_ok pmm_free_of "\<lambda>n. n"
  "\<lambda>_ _. True" pmm_returnable
proof unfold_locales
  fix s :: pmm and n :: nat assume "pmm_ok s" "0 < n"
  then show "\<exists>r s'. default_alloc_pages n s = Some (r, s') \<and> pmm_ok s'"
    using default_alloc_cases [of s _ n] unfolding pmm_ok_def by blast
next
  fix s s' :: pmm and n :: nat assume "pmm_ok s" "default_alloc_pages n s = Some (None, s')"
  then show "s' = s"
    by (auto simp: default_alloc_pages_def Option.bind_eq_Some_conv split: if_splits option.splits)
next
  fix s s' :: pmm and n b :: nat assume "pmm_ok s" and al: "default_alloc_pages n s = Some (Some b, s')"
  then obtain bs where wf: "pmm_wf s bs" by (auto simp: pmm_ok_def)
  have n: "0 < n" using al by (auto simp: default_alloc_pages_def Option.bind_eq_Some_conv)
  from default_alloc_cases [OF wf n] al obtain xs x ys where x: "bs = xs @ x # ys" "n \<le> snd x"
    "b = fst x" "pmm_wf s' (xs @ rest_of n x @ ys)" by auto
  show "{b ..< b + n} \<subseteq> pmm_free_of s \<and> pmm_free_of s' = pmm_free_of s - {b ..< b + n}"
    using free_set_rest [of xs x ys n] pmm_wfD(2) [OF wf] x n
    by (simp add: pmm_free_of_eq [OF wf] pmm_free_of_eq [OF x(4)])
next
  fix s :: pmm and b n :: nat assume "pmm_ok s" "pmm_returnable b n s"
  then obtain bs where bs: "pmm_wf s bs" "fits b n bs" "not_tail b bs" "in_use b n s"
    by (auto simp: pmm_returnable_def)
  then obtain s' where "default_free_pages b n s = Some s'" "pmm_wf s' (ff_free b n bs)"
    by (rule default_free_refines)
  then show "\<exists>s'. default_free_pages b n s = Some s' \<and> pmm_ok s' \<and>
      pmm_free_of s' = pmm_free_of s \<union> {b ..< b + n}"
    using pmm_free_of_eq [of s'] pmm_free_of_eq [OF bs(1)]
    by (auto simp: pmm_ok_def free_set_ff_free block_pages_def)
qed simp_all

end
