(* ===== verification/Pmm_BestFit.thy ===== *)
theory Pmm_BestFit
  imports Pmm_Manager
begin

text \<open>
  labcode/lab2/kern/mm/best_fit_pmm.c: the best-fit manager.  It differs from the first-fit one in
  the search loop of \<^verbatim>\<open>best_fit_alloc_pages\<close>; its other functions have the same bodies as those of
  default_pmm.c and use the same loops over the descriptors and the list.
\<close>

definition best_fit_init :: "pmm \<Rightarrow> pmm" where
  "best_fit_init s = s\<lparr>flinks := list_init FreeList (flinks s), nr_free := 0\<rparr>"

definition best_fit_init_memmap :: "nat \<Rightarrow> nat \<Rightarrow> pmm \<Rightarrow> pmm option" where
  "best_fit_init_memmap base n s = do {
     c_assert (0 < n);
     s1 \<leftarrow> init_pages base n s;
     link_block base (mark_block base n s1) }"

text \<open>The whole list is scanned; \<open>q\<close> is the best block so far and \<open>min_size\<close> its size.\<close>

partial_function (option) find_best ::
  "nat \<Rightarrow> fl_entry \<Rightarrow> nat \<Rightarrow> nat option \<Rightarrow> pmm \<Rightarrow> nat option option" where
  "find_best n le min_size q s = (case list_next le (flinks s) of
     FreeList \<Rightarrow> Some q
   | PageLink p \<Rightarrow>
       if n \<le> property (pages s p) \<and> property (pages s p) < min_size
       then find_best n (PageLink p) (property (pages s p)) (Some p) s
       else find_best n (PageLink p) min_size q s)"

declare find_best.simps [code]

definition best_fit_alloc_pages :: "nat \<Rightarrow> pmm \<Rightarrow> (nat option \<times> pmm) option" where
  "best_fit_alloc_pages n s = do {
     c_assert (0 < n);
     if nr_free s < n then Some (None, s)
     else do {
       r \<leftarrow> find_best n FreeList (nr_free s + 1) None s;
       Some (case r of None \<Rightarrow> (None, s) | Some page \<Rightarrow> (Some page, take_block n page s)) } }"

definition best_fit_free_pages :: "nat \<Rightarrow> nat \<Rightarrow> pmm \<Rightarrow> pmm option" where
  "best_fit_free_pages base n s = do {
     c_assert (0 < n);
     s1 \<leftarrow> clear_pages base n s;
     s2 \<leftarrow> link_block base (mark_block base n s1);
     (case merge_prev base s2 of (base', s3) \<Rightarrow> Some (merge_next base' s3)) }"

definition best_fit_nr_free_pages :: "pmm \<Rightarrow> nat" where
  "best_fit_nr_free_pages s = nr_free s"

subsection \<open>What the search finds\<close>

fun bf_scan :: "nat \<Rightarrow> nat \<Rightarrow> nat option \<Rightarrow> block list \<Rightarrow> nat option" where
  "bf_scan n m q [] = q"
| "bf_scan n m q (x # bs) =
     (if n \<le> snd x \<and> snd x < m then bf_scan n (snd x) (Some (fst x)) bs else bf_scan n m q bs)"

lemma find_best_path:
  assumes "path (lnext (flinks s)) le (map (PageLink \<circ> fst) bs) FreeList"
    and "\<forall>x \<in> set bs. property (pages s (fst x)) = snd x"
  shows "find_best n le m q s = Some (bf_scan n m q bs)"
  using assms
proof (induction bs arbitrary: le m q)
  case Nil
  then show ?case by (simp add: find_best.simps [of n le] list_next_def)
next
  case (Cons x bs)
  then show ?case by (simp add: find_best.simps [of n le] list_next_def)
qed

text \<open>\<open>best n bs x\<close> at a split of the list: large enough, strictly smaller than every candidate
  before it and at most as large as every candidate after it.\<close>

definition best_at :: "nat \<Rightarrow> block list \<Rightarrow> block \<Rightarrow> block list \<Rightarrow> bool" where
  "best_at n xs x ys \<longleftrightarrow> n \<le> snd x \<and> (\<forall>y \<in> set xs. n \<le> snd y \<longrightarrow> snd x < snd y) \<and>
     (\<forall>y \<in> set ys. n \<le> snd y \<longrightarrow> snd x \<le> snd y)"

lemma bf_scan_cases:
  "(bf_scan n m q bs = q \<and> (\<forall>y \<in> set bs. n \<le> snd y \<longrightarrow> m \<le> snd y)) \<or>
   (\<exists>xs x ys. bs = xs @ x # ys \<and> best_at n xs x ys \<and> snd x < m \<and> bf_scan n m q bs = Some (fst x))"
proof (induction bs arbitrary: m q)
  case Nil
  then show ?case by simp
next
  case (Cons z bs)
  show ?case
  proof (cases "n \<le> snd z \<and> snd z < m")
    case True
    consider (keep) "bf_scan n (snd z) (Some (fst z)) bs = Some (fst z)"
        "\<forall>y \<in> set bs. n \<le> snd y \<longrightarrow> snd z \<le> snd y"
      | (better) xs x ys where "bs = xs @ x # ys" "best_at n xs x ys" "snd x < snd z"
        "bf_scan n (snd z) (Some (fst z)) bs = Some (fst x)"
      using Cons.IH [of "snd z" "Some (fst z)"] by blast
    then show ?thesis
    proof cases
      case keep
      then have "best_at n [] z bs" using True by (simp add: best_at_def)
      with keep True show ?thesis by (intro disjI2 exI [of _ "[]"] exI [of _ z] exI [of _ bs]) simp
    next
      case better
      then have "best_at n (z # xs) x ys" by (simp add: best_at_def)
      with better True show ?thesis
        by (intro disjI2 exI [of _ "z # xs"] exI [of _ x] exI [of _ ys]) simp
    qed
  next
    case False
    then have e: "bf_scan n m q (z # bs) = bf_scan n m q bs" by auto
    consider (none) "bf_scan n m q bs = q" "\<forall>y \<in> set bs. n \<le> snd y \<longrightarrow> m \<le> snd y"
      | (some) xs x ys where "bs = xs @ x # ys" "best_at n xs x ys" "snd x < m"
        "bf_scan n m q bs = Some (fst x)"
      using Cons.IH [of m q] by blast
    then show ?thesis
    proof cases
      case none
      with e False show ?thesis by auto
    next
      case some
      then have "best_at n (z # xs) x ys" using False by (auto simp: best_at_def)
      with some e show ?thesis
        by (intro disjI2 exI [of _ "z # xs"] exI [of _ x] exI [of _ ys]) simp
    qed
  qed
qed

lemma best_fit_alloc_cases:
  assumes wf: "pmm_wf s bs" and n: "0 < n"
  shows "(best_fit_alloc_pages n s = Some (None, s) \<and> (\<forall>x \<in> set bs. snd x < n)) \<or>
    (\<exists>xs x ys. bs = xs @ x # ys \<and> best_at n xs x ys \<and>
      best_fit_alloc_pages n s = Some (Some (fst x), take_block n (fst x) s) \<and>
      pmm_wf (take_block n (fst x) s) (xs @ rest_of n x @ ys))"
proof -
  have le: "snd x \<le> nr_free s" if "x \<in> set bs" for x
    using wf member_le_sum_list [of "snd x" "map snd bs"] that by (simp add: pmm_wf_def)
  have f: "find_best n FreeList (nr_free s + 1) None s = Some (bf_scan n (nr_free s + 1) None bs)"
    using wf by (intro find_best_path) (auto simp: pmm_wf_def dll_def)
  consider (none) "bf_scan n (nr_free s + 1) None bs = None"
      "\<forall>y \<in> set bs. n \<le> snd y \<longrightarrow> nr_free s + 1 \<le> snd y"
    | (some) xs x ys where "bs = xs @ x # ys" "best_at n xs x ys"
      "bf_scan n (nr_free s + 1) None bs = Some (fst x)"
    using bf_scan_cases [of n "nr_free s + 1" None bs] by metis
  then show ?thesis
  proof cases
    case none
    have "snd x < n" if "x \<in> set bs" for x using none(2) le [OF that] that by fastforce
    then show ?thesis using n f none by (simp add: best_fit_alloc_pages_def)
  next
    case some
    then have x: "n \<le> snd x" "snd x \<le> nr_free s" using le [of x] by (auto simp: best_at_def)
    then have "best_fit_alloc_pages n s = Some (Some (fst x), take_block n (fst x) s)"
      using n f some by (simp add: best_fit_alloc_pages_def)
    moreover have "pmm_wf (take_block n (fst x) s) (xs @ rest_of n x @ ys)"
      using take_block_wf wf some n x by simp
    ultimately show ?thesis using some by blast
  qed
qed

lemma best_fit_free_eq: "best_fit_free_pages = default_free_pages"
  by (intro ext) (simp add: best_fit_free_pages_def default_free_pages_def)

lemma best_fit_init_memmap_eq: "best_fit_init_memmap = default_init_memmap"
  by (intro ext) (simp add: best_fit_init_memmap_def default_init_memmap_def)

interpretation bf: pmm_manager best_fit_alloc_pages best_fit_free_pages pmm_ok pmm_free_of "\<lambda>n. n"
  "\<lambda>_ _. True" pmm_returnable
proof unfold_locales
  fix s :: pmm and n :: nat assume "pmm_ok s" "0 < n"
  then show "\<exists>r s'. best_fit_alloc_pages n s = Some (r, s') \<and> pmm_ok s'"
    using best_fit_alloc_cases [of s _ n] unfolding pmm_ok_def by blast
next
  fix s s' :: pmm and n :: nat assume "pmm_ok s" "best_fit_alloc_pages n s = Some (None, s')"
  then show "s' = s"
    by (auto simp: best_fit_alloc_pages_def Option.bind_eq_Some_conv split: if_splits option.splits)
next
  fix s s' :: pmm and n b :: nat
  assume "pmm_ok s" and al: "best_fit_alloc_pages n s = Some (Some b, s')"
  then obtain bs where wf: "pmm_wf s bs" by (auto simp: pmm_ok_def)
  have n: "0 < n" using al by (auto simp: best_fit_alloc_pages_def Option.bind_eq_Some_conv)
  from best_fit_alloc_cases [OF wf n] al obtain xs x ys where x: "bs = xs @ x # ys" "best_at n xs x ys"
    "b = fst x" "pmm_wf s' (xs @ rest_of n x @ ys)" by auto
  then have "n \<le> snd x" by (simp add: best_at_def)
  then show "{b ..< b + n} \<subseteq> pmm_free_of s \<and> pmm_free_of s' = pmm_free_of s - {b ..< b + n}"
    using free_set_rest [of xs x ys n] pmm_wfD(2) [OF wf] x n
    by (simp add: pmm_free_of_eq [OF wf] pmm_free_of_eq [OF x(4)])
next
  fix s :: pmm and b n :: nat assume "pmm_ok s" "pmm_returnable b n s"
  then show "\<exists>s'. best_fit_free_pages b n s = Some s' \<and> pmm_ok s' \<and>
      pmm_free_of s' = pmm_free_of s \<union> {b ..< b + n}"
    unfolding best_fit_free_eq by (rule ff.free_ok)
qed simp_all

end
