(* ===== verification/Pmm_Check.thy ===== *)
theory Pmm_Check
  imports Pmm_BestFit
begin

text \<open>
  \<^verbatim>\<open>struct pmm_manager\<close> (kern/mm/pmm.h), the two list-based managers, and the self tests the kernel runs
  on them when it boots: \<^verbatim>\<open>basic_check\<close>, \<^verbatim>\<open>default_check\<close> (labcode/lab8/kern/mm/default_pmm.c) and
  \<^verbatim>\<open>best_fit_check\<close> (labcode/lab2/kern/mm/best_fit_pmm.c).  A test is a state transformer whose value is
  \<open>None\<close> when one of its assertions fails.  A test sets the free list aside by copying the list head and
  later copies it back.
\<close>

record manager =
  mm_init :: "pmm \<Rightarrow> pmm"
  mm_init_memmap :: "nat \<Rightarrow> nat \<Rightarrow> pmm \<Rightarrow> pmm option"
  mm_alloc_pages :: "nat \<Rightarrow> pmm \<Rightarrow> (nat option \<times> pmm) option"
  mm_free_pages :: "nat \<Rightarrow> nat \<Rightarrow> pmm \<Rightarrow> pmm option"
  mm_nr_free_pages :: "pmm \<Rightarrow> nat"

definition default_pmm_manager :: manager where
  "default_pmm_manager = \<lparr>mm_init = default_init, mm_init_memmap = default_init_memmap,
     mm_alloc_pages = default_alloc_pages, mm_free_pages = default_free_pages,
     mm_nr_free_pages = default_nr_free_pages\<rparr>"

definition best_fit_pmm_manager :: manager where
  "best_fit_pmm_manager = \<lparr>mm_init = best_fit_init, mm_init_memmap = best_fit_init_memmap,
     mm_alloc_pages = best_fit_alloc_pages, mm_free_pages = best_fit_free_pages,
     mm_nr_free_pages = best_fit_nr_free_pages\<rparr>"

text \<open>Allocation that must succeed, and allocation that must fail.\<close>

definition get_pages :: "manager \<Rightarrow> nat \<Rightarrow> pmm \<Rightarrow> (nat \<times> pmm) option" where
  "get_pages mm n s = do { (p, s) \<leftarrow> mm_alloc_pages mm n s; q \<leftarrow> p; Some (q, s) }"

definition no_pages :: "manager \<Rightarrow> nat \<Rightarrow> pmm \<Rightarrow> pmm option" where
  "no_pages mm n s = do { (p, s) \<leftarrow> mm_alloc_pages mm n s; c_assert (p = None); Some s }"

definition head_of :: "pmm \<Rightarrow> fl_entry \<times> fl_entry" where
  "head_of s = (lnext (flinks s) FreeList, lprev (flinks s) FreeList)"

definition set_head :: "fl_entry \<times> fl_entry \<Rightarrow> pmm \<Rightarrow> pmm" where
  "set_head h s = s\<lparr>flinks := set_prev FreeList (snd h) (set_next FreeList (fst h) (flinks s))\<rparr>"

definition PGSIZE :: u64 where "PGSIZE = 4096"

definition page2ppn :: "u64 \<Rightarrow> nat \<Rightarrow> u64" where
  "page2ppn nbase p = of_nat p + nbase"

definition page2pa :: "u64 \<Rightarrow> nat \<Rightarrow> u64" where
  "page2pa nbase p = push_bit 12 (page2ppn nbase p)"

text \<open>The result also tells the frames of the second and third page after the free list was emptied.\<close>

definition basic_check :: "manager \<Rightarrow> u64 \<Rightarrow> u64 \<Rightarrow> pmm \<Rightarrow> (pmm \<times> nat \<times> nat) option" where
  "basic_check mm nbase npage s = do {
     (p0, s) \<leftarrow> get_pages mm 1 s;
     (p1, s) \<leftarrow> get_pages mm 1 s;
     (p2, s) \<leftarrow> get_pages mm 1 s;
     c_assert (p0 \<noteq> p1 \<and> p0 \<noteq> p2 \<and> p1 \<noteq> p2);
     c_assert (pref (pages s p0) = 0 \<and> pref (pages s p1) = 0 \<and> pref (pages s p2) = 0);
     c_assert (page2pa nbase p0 < npage * PGSIZE);
     c_assert (page2pa nbase p1 < npage * PGSIZE);
     c_assert (page2pa nbase p2 < npage * PGSIZE);
     let free_list_store = head_of s;
     let s = s\<lparr>flinks := list_init FreeList (flinks s)\<rparr>;
     c_assert (list_empty FreeList (flinks s));
     let nr_free_store = nr_free s;
     let s = s\<lparr>nr_free := 0\<rparr>;
     s \<leftarrow> no_pages mm 1 s;
     s \<leftarrow> mm_free_pages mm p0 1 s;
     s \<leftarrow> mm_free_pages mm p1 1 s;
     s \<leftarrow> mm_free_pages mm p2 1 s;
     c_assert (nr_free s = 3);
     (p0, s) \<leftarrow> get_pages mm 1 s;
     (p1, s) \<leftarrow> get_pages mm 1 s;
     (p2, s) \<leftarrow> get_pages mm 1 s;
     s \<leftarrow> no_pages mm 1 s;
     s \<leftarrow> mm_free_pages mm p0 1 s;
     c_assert (\<not> list_empty FreeList (flinks s));
     (p, s) \<leftarrow> get_pages mm 1 s;
     c_assert (p = p0);
     s \<leftarrow> no_pages mm 1 s;
     c_assert (nr_free s = 0);
     let s = set_head free_list_store s;
     let s = s\<lparr>nr_free := nr_free_store\<rparr>;
     s \<leftarrow> mm_free_pages mm p 1 s;
     s \<leftarrow> mm_free_pages mm p1 1 s;
     s \<leftarrow> mm_free_pages mm p2 1 s;
     Some (s, p1, p2) }"

text \<open>The walk over the free list at the start and at the end of a test.\<close>

partial_function (option) count_blocks :: "fl_entry \<Rightarrow> pmm \<Rightarrow> bool \<Rightarrow> (nat \<times> nat) option" where
  "count_blocks le s flagged = (case list_next le (flinks s) of
     FreeList \<Rightarrow> Some (0, 0)
   | PageLink p \<Rightarrow> do {
       c_assert (flagged \<longrightarrow> PageProperty (pages s p));
       (c, t) \<leftarrow> count_blocks (PageLink p) s flagged;
       Some (c + 1, t + property (pages s p)) })"

declare count_blocks.simps [code]

definition default_check :: "u64 \<Rightarrow> u64 \<Rightarrow> pmm \<Rightarrow> pmm option" where
  "default_check nbase npage s = do {
     (count, total) \<leftarrow> count_blocks FreeList s True;
     c_assert (total = mm_nr_free_pages default_pmm_manager s);
     (s, _, _) \<leftarrow> basic_check default_pmm_manager nbase npage s;
     (p0, s) \<leftarrow> get_pages default_pmm_manager 5 s;
     c_assert (\<not> PageProperty (pages s p0));
     let free_list_store = head_of s;
     let s = s\<lparr>flinks := list_init FreeList (flinks s)\<rparr>;
     c_assert (list_empty FreeList (flinks s));
     s \<leftarrow> no_pages default_pmm_manager 1 s;
     let nr_free_store = nr_free s;
     let s = s\<lparr>nr_free := 0\<rparr>;
     s \<leftarrow> mm_free_pages default_pmm_manager (p0 + 2) 3 s;
     s \<leftarrow> no_pages default_pmm_manager 4 s;
     c_assert (PageProperty (pages s (p0 + 2)) \<and> property (pages s (p0 + 2)) = 3);
     (p1, s) \<leftarrow> get_pages default_pmm_manager 3 s;
     s \<leftarrow> no_pages default_pmm_manager 1 s;
     c_assert (p0 + 2 = p1);
     let p2 = p0 + 1;
     s \<leftarrow> mm_free_pages default_pmm_manager p0 1 s;
     s \<leftarrow> mm_free_pages default_pmm_manager p1 3 s;
     c_assert (PageProperty (pages s p0) \<and> property (pages s p0) = 1);
     c_assert (PageProperty (pages s p1) \<and> property (pages s p1) = 3);
     (p0, s) \<leftarrow> get_pages default_pmm_manager 1 s;
     c_assert (p0 + 1 = p2);
     s \<leftarrow> mm_free_pages default_pmm_manager p0 1 s;
     (p0, s) \<leftarrow> get_pages default_pmm_manager 2 s;
     c_assert (p0 = p2 + 1);
     s \<leftarrow> mm_free_pages default_pmm_manager p0 2 s;
     s \<leftarrow> mm_free_pages default_pmm_manager p2 1 s;
     (p0, s) \<leftarrow> get_pages default_pmm_manager 5 s;
     s \<leftarrow> no_pages default_pmm_manager 1 s;
     c_assert (nr_free s = 0);
     let s = s\<lparr>nr_free := nr_free_store\<rparr>;
     let s = set_head free_list_store s;
     s \<leftarrow> mm_free_pages default_pmm_manager p0 5 s;
     (count', total') \<leftarrow> count_blocks FreeList s False;
     c_assert (count = count');
     c_assert (total = total');
     Some s }"

text \<open>Each file has its own copy of \<^verbatim>\<open>basic_check\<close>, with the same text.\<close>

definition best_fit_basic_check :: "u64 \<Rightarrow> u64 \<Rightarrow> pmm \<Rightarrow> (pmm \<times> nat \<times> nat) option" where
  "best_fit_basic_check nbase npage s = basic_check best_fit_pmm_manager nbase npage s"

definition best_fit_check :: "u64 \<Rightarrow> u64 \<Rightarrow> pmm \<Rightarrow> pmm option" where
  "best_fit_check nbase npage s = do {
     (count, total) \<leftarrow> count_blocks FreeList s True;
     c_assert (total = mm_nr_free_pages best_fit_pmm_manager s);
     (s, _, _) \<leftarrow> best_fit_basic_check nbase npage s;
     (p0, s) \<leftarrow> get_pages best_fit_pmm_manager 5 s;
     c_assert (\<not> PageProperty (pages s p0));
     let free_list_store = head_of s;
     let s = s\<lparr>flinks := list_init FreeList (flinks s)\<rparr>;
     c_assert (list_empty FreeList (flinks s));
     s \<leftarrow> no_pages best_fit_pmm_manager 1 s;
     let nr_free_store = nr_free s;
     let s = s\<lparr>nr_free := 0\<rparr>;
     s \<leftarrow> mm_free_pages best_fit_pmm_manager (p0 + 1) 2 s;
     s \<leftarrow> mm_free_pages best_fit_pmm_manager (p0 + 4) 1 s;
     s \<leftarrow> no_pages best_fit_pmm_manager 4 s;
     c_assert (PageProperty (pages s (p0 + 1)) \<and> property (pages s (p0 + 1)) = 2);
     (p1, s) \<leftarrow> get_pages best_fit_pmm_manager 1 s;
     (q, s) \<leftarrow> get_pages best_fit_pmm_manager 2 s;
     c_assert (p0 + 4 = p1);
     let p2 = p0 + 1;
     s \<leftarrow> mm_free_pages best_fit_pmm_manager p0 5 s;
     (p0, s) \<leftarrow> get_pages best_fit_pmm_manager 5 s;
     s \<leftarrow> no_pages best_fit_pmm_manager 1 s;
     c_assert (nr_free s = 0);
     let s = s\<lparr>nr_free := nr_free_store\<rparr>;
     let s = set_head free_list_store s;
     s \<leftarrow> mm_free_pages best_fit_pmm_manager p0 5 s;
     (count', total') \<leftarrow> count_blocks FreeList s False;
     c_assert (count = count');
     c_assert (total = total');
     Some s }"

end
