(* ===== verification/Buddy.thy ===== *)
theory Buddy
  imports Pmm_Manager "HOL-Library.Log_Nat"
begin

unbundle bit_operations_syntax

text \<open>
  labcode/lab2/kern/mm/buddy_pmm.c: the buddy allocator.  The free areas are kept in a complete
  binary tree stored as an array (node \<open>i\<close> has the children \<open>2 i + 1\<close> and \<open>2 i + 2\<close>); a node
  records, for each of its halves, the class (binary logarithm plus one, 0 for none) of the
  largest free block in it.  The operations walk that array, downwards to find a block and
  upwards to repair the maxima.

  The abstract view is a tree of free, used and split areas.  \<open>rep\<close> says that the array holds a
  tree; allocation and release are shown to implement the abstract \<open>bt_alloc\<close> and \<open>bt_free\<close>.

  \<^verbatim>\<open>unsigned char\<close> classes never exceed 33 and \<^verbatim>\<open>int\<close> indices never exceed twice the number of
  frames, so both are naturals; the rounding functions, where wrap-around matters, work on words.
\<close>

subsection \<open>Rounding: IS_POWER_OF_2, fixsize, log2\<close>

definition is_power_of_2 :: "u64 \<Rightarrow> bool" where
  "is_power_of_2 x \<longleftrightarrow> x AND (x - 1) = 0"

definition smear :: "nat \<Rightarrow> u32 \<Rightarrow> u32" where
  "smear k x = x OR drop_bit k x"

definition fixsize :: "u32 \<Rightarrow> u32" where
  "fixsize sz = smear 16 (smear 8 (smear 4 (smear 2 (smear 1 sz)))) + 1"

fun log2 :: "nat \<Rightarrow> nat" where
  "log2 x = (if 1 < x then Suc (log2 (x div 2)) else 0)"

declare log2.simps [simp del]

text \<open>\<^verbatim>\<open>if (!IS_POWER_OF_2(n)) n = fixsize(n);\<close>: the argument of \<^verbatim>\<open>fixsize\<close> is narrowed to 32 bits.\<close>

definition buddy_round :: "u64 \<Rightarrow> u64" where
  "buddy_round n = (if is_power_of_2 n then n else ucast (fixsize (ucast n)))"

subsection \<open>The state and the operations\<close>

record bt_node =
  left_max :: nat
  right_max :: nat

record buddy =
  bt_base :: nat
  total_size :: nat
  bt_nodes :: "nat \<Rightarrow> bt_node"
  bt_pages :: "nat \<Rightarrow> page"

definition LEFT_LEAF :: "nat \<Rightarrow> nat" where "LEFT_LEAF i = 2 * i + 1"
definition RIGHT_LEAF :: "nat \<Rightarrow> nat" where "RIGHT_LEAF i = (i + 1) * 2"
definition PARENT :: "nat \<Rightarrow> nat" where "PARENT i = (i + 1) div 2 - 1"

fun get_index :: "nat \<Rightarrow> nat \<Rightarrow> nat \<Rightarrow> nat \<Rightarrow> nat" where
  "get_index offset prop_size tot_size index =
     (if prop_size < tot_size then
        let half = tot_size div 2 in
        if offset < half then get_index offset prop_size half (LEFT_LEAF index)
        else get_index (offset - half) prop_size half (RIGHT_LEAF index)
      else index)"

declare get_index.simps [simp del]

definition buddy_init :: "buddy \<Rightarrow> buddy" where
  "buddy_init s = s\<lparr>bt_base := 0, total_size := 0\<rparr>"

fun bt_init_pages :: "nat \<Rightarrow> nat \<Rightarrow> (nat \<Rightarrow> page) \<Rightarrow> (nat \<Rightarrow> page) option" where
  "bt_init_pages p 0 pg = Some pg"
| "bt_init_pages p (Suc k) pg = do {
     c_assert (PageReserved (pg p));
     bt_init_pages (p + 1) k (pg(p := (pg p)\<lparr>flags := 0, property := 0, pref := 0\<rparr>)) }"

fun bt_clear_pages :: "nat \<Rightarrow> nat \<Rightarrow> (nat \<Rightarrow> page) \<Rightarrow> (nat \<Rightarrow> page) option" where
  "bt_clear_pages p 0 pg = Some pg"
| "bt_clear_pages p (Suc k) pg = do {
     c_assert (\<not> PageReserved (pg p) \<and> \<not> PageProperty (pg p));
     bt_clear_pages (p + 1) k (pg(p := (pg p)\<lparr>flags := 0, pref := 0\<rparr>)) }"

text \<open>The loop over the tree nodes: \<open>block_size\<close> drops by one at each power of two.\<close>

fun init_nodes :: "nat \<Rightarrow> nat \<Rightarrow> nat \<Rightarrow> (nat \<Rightarrow> bt_node) \<Rightarrow> (nat \<Rightarrow> bt_node)" where
  "init_nodes 0 i block_size nd = nd"
| "init_nodes (Suc k) i block_size nd =
     (let b = (if is_power_of_2 (of_nat (i + 1)) then block_size - 1 else block_size)
      in init_nodes k (i + 1) b (nd(i := \<lparr>left_max = b, right_max = b\<rparr>)))"

definition buddy_init_memmap :: "nat \<Rightarrow> u64 \<Rightarrow> buddy \<Rightarrow> buddy option" where
  "buddy_init_memmap base n0 s = do {
     c_assert (0 < n0);
     let n = unat (if is_power_of_2 n0 then n0 else ucast (drop_bit 1 (fixsize (ucast n0))));
     let s1 = s\<lparr>bt_base := base, total_size := n\<rparr>;
     pg \<leftarrow> bt_init_pages base n (bt_pages s1);
     Some (s1\<lparr>bt_pages := pg, bt_nodes := init_nodes (2 * n - 1) 0 (log2 n + 1) (bt_nodes s1)\<rparr>) }"

text \<open>The search loop of \<^verbatim>\<open>buddy_alloc_pages\<close>; it returns the class, index and offset it stops at.\<close>

fun descend :: "(nat \<Rightarrow> bt_node) \<Rightarrow> nat \<Rightarrow> nat \<Rightarrow> nat \<Rightarrow> nat \<Rightarrow> nat \<times> nat \<times> nat" where
  "descend nd log2n block_size index offset =
     (if log2n < block_size then
        if log2n \<le> right_max (nd index)
        then descend nd log2n (block_size - 1) (RIGHT_LEAF index) (offset + 2 ^ (block_size - 2))
        else if log2n \<le> left_max (nd index)
        then descend nd log2n (block_size - 1) (LEFT_LEAF index) offset
        else (block_size, index, offset)
      else (block_size, index, offset))"

declare descend.simps [simp del]

lemma PARENT_less: "0 < i \<Longrightarrow> PARENT i < i"
  by (simp add: PARENT_def)

function alloc_up :: "(nat \<Rightarrow> bt_node) \<Rightarrow> nat \<Rightarrow> nat \<Rightarrow> (nat \<Rightarrow> bt_node)" where
  "alloc_up nd index maxn =
     (if 0 < index then
        let parent = PARENT index; p = nd parent in
        alloc_up
          (nd(parent := (if index = LEFT_LEAF parent then p\<lparr>left_max := maxn\<rparr> else p\<lparr>right_max := maxn\<rparr>)))
          parent
          (if index = LEFT_LEAF parent then max maxn (right_max p) else max maxn (left_max p))
      else nd)"
  by pat_completeness auto
termination
  by (relation "measure (\<lambda>(nd, index, maxn). index)") (auto simp: PARENT_less)

declare alloc_up.simps [simp del]

definition buddy_alloc_pages :: "u64 \<Rightarrow> buddy \<Rightarrow> (nat option \<times> buddy) option" where
  "buddy_alloc_pages n0 s = do {
     c_assert (0 < n0);
     let n = unat (buddy_round n0);
     if total_size s < n then Some (None, s)
     else
       let log2n = log2 n + 1 in
       (case descend (bt_nodes s) log2n (log2 (total_size s) + 1) 0 0 of (block_size, index, offset) \<Rightarrow>
          if log2n < block_size then Some (None, s)
          else
            let ret = bt_base s + offset;
                pg = (bt_pages s)(ret := (bt_pages s ret)\<lparr>property := 2 ^ (block_size - 1)\<rparr>);
                nd = (bt_nodes s)(index := \<lparr>left_max = 0, right_max = 0\<rparr>)
            in Some (Some ret, s\<lparr>bt_pages := pg, bt_nodes := alloc_up nd index 0\<rparr>)) }"

function free_up :: "(nat \<Rightarrow> bt_node) \<Rightarrow> nat \<Rightarrow> nat \<Rightarrow> nat \<Rightarrow> (nat \<Rightarrow> bt_node)" where
  "free_up nd index block_size maxn =
     (if 0 < index then
        let parent = PARENT index;
            p = (if index = LEFT_LEAF parent then (nd parent)\<lparr>left_max := maxn\<rparr>
                 else (nd parent)\<lparr>right_max := maxn\<rparr>);
            maxn' = (if right_max p = block_size \<and> left_max p = block_size then block_size + 1
                     else max (right_max p) (left_max p))
        in free_up (nd(parent := p)) parent (block_size + 1) maxn'
      else nd)"
  by pat_completeness auto
termination
  by (relation "measure (\<lambda>(nd, index, block_size, maxn). index)") (auto simp: PARENT_less)

declare free_up.simps [simp del]

text \<open>\<^verbatim>\<open>base == NULL\<close> is the argument \<open>None\<close>.\<close>

definition buddy_free_pages :: "nat option \<Rightarrow> u64 \<Rightarrow> buddy \<Rightarrow> buddy option" where
  "buddy_free_pages base n0 s = do {
     c_assert (0 < n0);
     (case base of None \<Rightarrow> Some s
      | Some b \<Rightarrow> do {
          let n = unat (buddy_round n0);
          pg \<leftarrow> bt_clear_pages b n (bt_pages s);
          let index = get_index (b - bt_base s) n (total_size s) 0;
          let pg' = pg(b := (pg b)\<lparr>property := 0\<rparr>);
          let block_size = log2 n + 1;
          let nd = (bt_nodes s)(index := \<lparr>left_max = block_size - 1, right_max = block_size - 1\<rparr>);
          Some (s\<lparr>bt_pages := pg', bt_nodes := free_up nd index block_size block_size\<rparr>) }) }"

definition buddy_total_size_pages :: "buddy \<Rightarrow> nat" where
  "buddy_total_size_pages s = total_size s"

subsection \<open>Facts about the rounding functions\<close>

lemma log2_pow2 [simp]: "log2 (2 ^ k) = k"
proof (induction k)
  case 0
  then show ?case by (simp add: log2.simps)
next
  case (Suc k)
  have "(1::nat) < 2 * 2 ^ k" using one_le_power [of "2::nat" k] by linarith
  with Suc show ?case by (simp add: log2.simps [of "2 * 2 ^ k"])
qed

lemma bit_smear: "bit (smear k x) i \<longleftrightarrow> bit x i \<or> bit x (i + k)"
  by (auto simp: smear_def bit_simps add.commute)

lemma bit_below_len: "bit (x :: u32) i \<Longrightarrow> i < 32"
  using bit_imp_le_length [of x i] by simp

lemma bit_smear_all:
  "bit (smear 16 (smear 8 (smear 4 (smear 2 (smear 1 x))))) i \<longleftrightarrow> (\<exists>d. bit x (i + d))"
proof
  assume "bit (smear 16 (smear 8 (smear 4 (smear 2 (smear 1 x))))) i"
  then show "\<exists>d. bit x (i + d)"
    unfolding bit_smear add.assoc by (metis add_0_right)
next
  assume "\<exists>d. bit x (i + d)"
  then obtain d where d: "bit x (i + d)" "d < 32" using bit_below_len by (metis le_add2 le_less_trans)
  have step: "\<exists>e. bit (smear k y) (i + e) \<and> e < k" if "bit y (i + e)" "e < 2 * k" for k y e
  proof (cases "e < k")
    case True
    then show ?thesis using that by (auto simp: bit_smear)
  next
    case False
    then show ?thesis using that by (intro exI [of _ "e - k"]) (auto simp: bit_smear)
  qed
  have "\<exists>e. bit x (i + e) \<and> e < 32" using d by blast
  have swap: "smear 16 (smear 8 (smear 4 (smear 2 (smear 1 x))))
      = smear 1 (smear 2 (smear 4 (smear 8 (smear 16 x))))"
    by (rule bit_eqI) (simp add: bit_smear add.assoc add.commute disj_ac)
  from step [of x d 16] d obtain e1 where "bit (smear 16 x) (i + e1)" "e1 < 16" by auto
  from step [of _ e1 8, OF this(1)] this(2) obtain e2 where "bit (smear 8 (smear 16 x)) (i + e2)" "e2 < 8" by auto
  from step [of _ e2 4, OF this(1)] this(2) obtain e3 where "bit (smear 4 (smear 8 (smear 16 x))) (i + e3)" "e3 < 4" by auto
  from step [of _ e3 2, OF this(1)] this(2) obtain e4 where
    "bit (smear 2 (smear 4 (smear 8 (smear 16 x)))) (i + e4)" "e4 < 2" by auto
  from step [of _ e4 1, OF this(1)] this(2) obtain e5 where
    "bit (smear 1 (smear 2 (smear 4 (smear 8 (smear 16 x))))) (i + e5)" "e5 < 1" by auto
  then show "bit (smear 16 (smear 8 (smear 4 (smear 2 (smear 1 x))))) i"
    unfolding swap by simp
qed

text \<open>\<open>2 ^ k \<le> x < 2 ^ (k + 1)\<close> pins the highest bit.\<close>

lemma nat_bit_high:
  assumes "(2::nat) ^ k \<le> x" "x < 2 ^ Suc k"
  shows "bit x k" and "k < i \<Longrightarrow> \<not> bit x i"
proof -
  have "x div 2 ^ k = 1"
    using assms by (intro div_nat_eqI) simp_all
  then show "bit x k" by (simp add: bit_iff_odd)
  show "\<not> bit x i" if "k < i"
  proof -
    have "(2::nat) ^ Suc k \<le> 2 ^ i" using that by (intro power_increasing) simp_all
    with assms(2) have "x div 2 ^ i = 0" by (intro div_less) linarith
    then show ?thesis by (simp add: bit_iff_odd)
  qed
qed

lemma fixsize_pow2:
  assumes k: "2 ^ k \<le> unat x" "unat x < 2 ^ Suc k" and k31: "k < 31"
  shows "unat (fixsize x) = 2 ^ Suc k"
proof -
  have bx: "bit x i \<longleftrightarrow> bit (unat x) i" for i
    by (auto simp: bit_simps)
  let ?S = "smear 16 (smear 8 (smear 4 (smear 2 (smear 1 x))))"
  have "bit ?S i \<longleftrightarrow> i \<le> k" for i
  proof
    assume "bit ?S i"
    then obtain d where "bit (unat x) (i + d)" unfolding bit_smear_all bx ..
    then show "i \<le> k" using nat_bit_high(2) [OF k, of "i + d"] by linarith
  next
    assume "i \<le> k"
    then show "bit ?S i"
      unfolding bit_smear_all bx using nat_bit_high(1) [OF k] by (metis le_add_diff_inverse)
  qed
  then have "?S = mask (Suc k)"
    using k31 by (intro bit_word_eqI) (simp add: bit_mask_iff less_Suc_eq_le)
  then have "fixsize x = mask (Suc k) + 1" by (simp add: fixsize_def)
  also have "\<dots> = 2 ^ Suc k" by (simp add: mask_eq_decr_exp)
  finally show ?thesis using k31 by (simp add: unat_exp2 del: power_Suc)
qed

lemma is_power_of_2_iff:
  assumes "0 < x"
  shows "is_power_of_2 x \<longleftrightarrow> (\<exists>k. unat x = 2 ^ k)"
proof -
  have x0: "0 < unat x" using assms by (simp add: word_less_nat_alt)
  obtain k where k: "2 ^ k \<le> unat x" "unat x < 2 ^ Suc k"
    using ex_power_ivl1 [of 2 "unat x"] x0 by auto
  have pred: "unat (x - 1) = unat x - 1" using assms by (simp add: unat_minus_one)
  show ?thesis
  proof
    assume "is_power_of_2 x"
    then have and0: "unat x AND (unat x - 1) = 0"
      using pred by (metis is_power_of_2_def unat_0 unsigned_and_eq)
    have "unat x = 2 ^ k"
    proof (rule ccontr)
      assume "unat x \<noteq> 2 ^ k"
      then have "2 ^ k \<le> unat x - 1" "unat x - 1 < 2 ^ Suc k" using k by auto
      then have "bit (unat x AND (unat x - 1)) k" using nat_bit_high(1) k by (simp add: bit_and_iff)
      with and0 show False by simp
    qed
    then show "\<exists>k. unat x = 2 ^ k" ..
  next
    assume "\<exists>k. unat x = 2 ^ k"
    then obtain j where j: "unat x = 2 ^ j" ..
    have "unat (x AND (x - 1)) = 2 ^ j AND mask j"
      by (simp add: unsigned_and_eq pred j mask_eq_exp_minus_1)
    also have "\<dots> = 0" by (rule bit_eqI) (auto simp: bit_simps)
    finally show "is_power_of_2 x" by (simp add: is_power_of_2_def unat_eq_zero)
  qed
qed

text \<open>Requests up to 2 GiB frames are rounded to the least power of two that is large enough.\<close>

lemma buddy_round_least:
  assumes "0 < n" "unat n < 2 ^ 31"
  obtains k where "unat (buddy_round n) = 2 ^ k" "unat n \<le> 2 ^ k" "2 ^ k < 2 * unat n"
proof (cases "is_power_of_2 n")
  case True
  then obtain k where "unat n = 2 ^ k" using is_power_of_2_iff assms by blast
  with True assms show ?thesis by (intro that [of k]) (simp_all add: buddy_round_def)
next
  case False
  have n0: "0 < unat n" using assms by (simp add: word_less_nat_alt)
  obtain k where k: "2 ^ k \<le> unat n" "unat n < 2 ^ Suc k"
    using ex_power_ivl1 [of 2 "unat n"] n0 by auto
  have "2 ^ k \<noteq> unat n" using False is_power_of_2_iff [OF assms(1)] by metis
  have "(2::nat) ^ k < 2 ^ 31" using k assms by linarith
  then have k31: "k < 31" by (metis power_less_imp_less_exp one_less_numeral_iff semiring_norm(76))
  have u: "unat (ucast n :: u32) = unat n"
    using assms by (simp add: take_bit_nat_eq_self unsigned_ucast_eq)
  have "unat (fixsize (ucast n)) = 2 ^ Suc k"
    using k k31 u by (intro fixsize_pow2) simp_all
  moreover have "(2::nat) ^ Suc k < 2 ^ 64"
    using k31 by (intro power_strict_increasing) simp_all
  ultimately have "unat (buddy_round n) = 2 ^ Suc k"
    using False by (simp add: buddy_round_def unsigned_ucast_eq take_bit_nat_eq_self)
  then show ?thesis using that [of "Suc k"] k \<open>2 ^ k \<noteq> unat n\<close> by simp
qed

subsection \<open>The abstract tree\<close>

datatype bt = BFree | BUsed | BSplit bt bt

text \<open>An area of class \<open>k\<close> has \<open>2 ^ (k - 1)\<close> frames.\<close>

fun maxfree :: "nat \<Rightarrow> bt \<Rightarrow> nat" where
  "maxfree k BFree = k"
| "maxfree k BUsed = 0"
| "maxfree k (BSplit l r) = max (maxfree (k - 1) l) (maxfree (k - 1) r)"

fun frames :: "nat \<Rightarrow> nat \<Rightarrow> bt \<Rightarrow> nat set" where
  "frames k off BFree = {off ..< off + 2 ^ (k - 1)}"
| "frames k off BUsed = {}"
| "frames k off (BSplit l r) = frames (k - 1) off l \<union> frames (k - 1) (off + 2 ^ (k - 2)) r"

fun used :: "nat \<Rightarrow> nat \<Rightarrow> bt \<Rightarrow> (nat \<times> nat) set" where
  "used k off BFree = {}"
| "used k off BUsed = {(off, k)}"
| "used k off (BSplit l r) = used (k - 1) off l \<union> used (k - 1) (off + 2 ^ (k - 2)) r"

fun bt_wf :: "nat \<Rightarrow> bt \<Rightarrow> bool" where
  "bt_wf k BFree \<longleftrightarrow> 0 < k"
| "bt_wf k BUsed \<longleftrightarrow> 0 < k"
| "bt_wf k (BSplit l r) \<longleftrightarrow> 1 < k \<and> bt_wf (k - 1) l \<and> bt_wf (k - 1) r \<and> \<not> (l = BFree \<and> r = BFree)"

fun halves :: "bt \<Rightarrow> (bt \<times> bt) option" where
  "halves BFree = Some (BFree, BFree)"
| "halves BUsed = None"
| "halves (BSplit l r) = Some (l, r)"

text \<open>Allocation prefers the right half; no search has to be undone, because the maxima are exact.\<close>

fun bt_alloc :: "nat \<Rightarrow> nat \<Rightarrow> nat \<Rightarrow> bt \<Rightarrow> (bt \<times> nat) option" where
  "bt_alloc j k off t =
     (if j < k then
        (case halves t of
           None \<Rightarrow> None
         | Some (l, r) \<Rightarrow>
             if j \<le> maxfree (k - 1) r
             then map_option (\<lambda>(r', o'). (BSplit l r', o')) (bt_alloc j (k - 1) (off + 2 ^ (k - 2)) r)
             else if j \<le> maxfree (k - 1) l
             then map_option (\<lambda>(l', o'). (BSplit l' r, o')) (bt_alloc j (k - 1) off l)
             else None)
      else if t = BFree then Some (BUsed, off) else None)"

declare bt_alloc.simps [simp del]

fun mk_split :: "bt \<Rightarrow> bt \<Rightarrow> bt" where
  "mk_split BFree BFree = BFree"
| "mk_split l r = BSplit l r"

fun bt_free :: "nat \<Rightarrow> nat \<Rightarrow> nat \<Rightarrow> nat \<Rightarrow> bt \<Rightarrow> bt" where
  "bt_free j k off b t =
     (if j < k then
        (case t of
           BSplit l r \<Rightarrow>
             if b < off + 2 ^ (k - 2) then mk_split (bt_free j (k - 1) off b l) r
             else mk_split l (bt_free j (k - 1) (off + 2 ^ (k - 2)) b r)
         | _ \<Rightarrow> t)
      else BFree)"

declare bt_free.simps [simp del]

lemma maxfree_le: "maxfree k t \<le> k"
proof (induction t arbitrary: k)
  case (BSplit l r)
  then show ?case by (auto intro: le_trans [OF _ diff_le_self])
qed simp_all

lemma maxfree_full: "bt_wf k t \<Longrightarrow> maxfree k t = k \<longleftrightarrow> t = BFree"
proof (cases t)
  case (BSplit l r)
  assume "bt_wf k t"
  with BSplit maxfree_le [of "k - 1" l] maxfree_le [of "k - 1" r] show ?thesis by auto
qed auto

lemma halves_wf:
  assumes "bt_wf k t" "1 < k" "halves t = Some (l, r)"
  shows "bt_wf (k - 1) l" "bt_wf (k - 1) r"
  using assms by (cases t; simp; blast)+

lemma halves_frames:
  assumes "1 < k" "halves t = Some (l, r)"
  shows "frames k off t = frames (k - 1) off l \<union> frames (k - 1) (off + 2 ^ (k - 2)) r"
    and "used k off t = used (k - 1) off l \<union> used (k - 1) (off + 2 ^ (k - 2)) r"
    and "maxfree k t \<noteq> k \<Longrightarrow> maxfree k t = max (maxfree (k - 1) l) (maxfree (k - 1) r)"
proof -
  obtain m where m: "k = Suc (Suc m)" using assms(1) by (cases k; cases "k - 1"; simp)
  show "frames k off t = frames (k - 1) off l \<union> frames (k - 1) (off + 2 ^ (k - 2)) r"
    using assms(2) by (cases t) (auto simp: m)
  show "used k off t = used (k - 1) off l \<union> used (k - 1) (off + 2 ^ (k - 2)) r"
    using assms by (cases t) auto
  show "maxfree k t \<noteq> k \<Longrightarrow> maxfree k t = max (maxfree (k - 1) l) (maxfree (k - 1) r)"
    using assms by (cases t) auto
qed

lemma pow_half: "1 < k \<Longrightarrow> (2::nat) ^ (k - 1) = 2 ^ (k - 2) + 2 ^ (k - 2)"
  by (cases k; cases "k - 1") (auto simp: mult_2)

lemma frames_bound: "bt_wf k t \<Longrightarrow> frames k off t \<subseteq> {off ..< off + 2 ^ (k - 1)}"
proof (induction t arbitrary: k off)
  case (BSplit l r)
  then have k: "1 < k" and l: "frames (k - 1) off l \<subseteq> {off ..< off + 2 ^ (k - 2)}"
    and r: "frames (k - 1) (off + 2 ^ (k - 2)) r \<subseteq> {off + 2 ^ (k - 2) ..< off + 2 ^ (k - 2) + 2 ^ (k - 2)}"
    using BSplit.IH(1) [of "k - 1" off] BSplit.IH(2) [of "k - 1" "off + 2 ^ (k - 2)"]
    by (simp_all add: numeral_2_eq_2)
  show ?case using l r pow_half [OF k] by fastforce
qed simp_all

lemma used_bound:
  "bt_wf k t \<Longrightarrow> (b, j) \<in> used k off t \<Longrightarrow> 0 < j \<and> j \<le> k \<and> off \<le> b \<and> b + 2 ^ (j - 1) \<le> off + 2 ^ (k - 1)"
proof (induction t arbitrary: k off)
  case (BSplit l r)
  then have k: "1 < k" by simp
  from BSplit.prems consider "(b, j) \<in> used (k - 1) off l" | "(b, j) \<in> used (k - 1) (off + 2 ^ (k - 2)) r"
    by auto
  then show ?case
  proof cases
    case 1
    then show ?thesis using BSplit.IH(1) [of "k - 1" off] BSplit.prems pow_half [OF k]
      by (auto simp: numeral_2_eq_2)
  next
    case 2
    then show ?thesis using BSplit.IH(2) [of "k - 1" "off + 2 ^ (k - 2)"] BSplit.prems pow_half [OF k]
      by (auto simp: numeral_2_eq_2)
  qed
qed auto

lemma bt_alloc_Some:
  assumes "bt_wf k t" "0 < j" "j \<le> maxfree k t"
  shows "\<exists>t' b. bt_alloc j k off t = Some (t', b) \<and> bt_wf k t' \<and> t' \<noteq> BFree \<and>
    {b ..< b + 2 ^ (j - 1)} \<subseteq> frames k off t \<and>
    frames k off t' = frames k off t - {b ..< b + 2 ^ (j - 1)} \<and>
    used k off t' = insert (b, j) (used k off t)"
  using assms
proof (induction k arbitrary: off t)
  case 0
  then show ?case using maxfree_le [of 0 t] by simp
next
  case (Suc k)
  show ?case
  proof (cases "j < Suc k")
    case False
    then have "j = Suc k" "t = BFree"
      using Suc.prems maxfree_le [of "Suc k" t] maxfree_full [of "Suc k" t] by auto
    then show ?thesis by (simp add: bt_alloc.simps)
  next
    case True
    have "t \<noteq> BUsed" using Suc.prems by auto
    then obtain l r where lr: "halves t = Some (l, r)" by (cases t) auto
    have k: "1 < Suc k" using True Suc.prems by simp
    note wf = halves_wf [OF Suc.prems(1) k lr]
    note hf = halves_frames [OF k lr]
    have wl: "bt_wf k l" and wr: "bt_wf k r" using wf by simp_all
    let ?m = "off + 2 ^ (k - 1)"
    have fl: "frames k off l \<subseteq> {off ..< ?m}" using frames_bound [OF wl] .
    have fr: "frames k ?m r \<subseteq> {?m ..< ?m + 2 ^ (k - 1)}" using frames_bound [OF wr] .
    have fe: "frames (Suc k) off t = frames k off l \<union> frames k ?m r"
      "used (Suc k) off t = used k off l \<union> used k ?m r" using hf by simp_all
    show ?thesis
    proof (cases "j \<le> maxfree k r")
      case r: True
      from Suc.IH [OF wr Suc.prems(2) r, of ?m] obtain r' b where b: "bt_alloc j k ?m r = Some (r', b)"
        "bt_wf k r'" "r' \<noteq> BFree" "{b ..< b + 2 ^ (j - 1)} \<subseteq> frames k ?m r"
        "frames k ?m r' = frames k ?m r - {b ..< b + 2 ^ (j - 1)}"
        "used k ?m r' = insert (b, j) (used k ?m r)" by blast
      have "bt_alloc j (Suc k) off t = Some (BSplit l r', b)"
        using True lr r b by (simp add: bt_alloc.simps [of j "Suc k"])
      moreover have "frames k off l \<inter> {b ..< b + 2 ^ (j - 1)} = {}" using b(4) fl fr by fastforce
      ultimately show ?thesis using b fe wl k by auto
    next
      case nr: False
      have "maxfree (Suc k) t \<noteq> Suc k"
      proof
        assume "maxfree (Suc k) t = Suc k"
        then have "t = BFree" using maxfree_full Suc.prems by blast
        with lr nr True show False by simp
      qed
      then have l: "j \<le> maxfree k l" using hf(3) Suc.prems nr by simp
      from Suc.IH [OF wl Suc.prems(2) l, of off] obtain l' b where b: "bt_alloc j k off l = Some (l', b)"
        "bt_wf k l'" "l' \<noteq> BFree" "{b ..< b + 2 ^ (j - 1)} \<subseteq> frames k off l"
        "frames k off l' = frames k off l - {b ..< b + 2 ^ (j - 1)}"
        "used k off l' = insert (b, j) (used k off l)" by blast
      have "bt_alloc j (Suc k) off t = Some (BSplit l' r, b)"
        using True lr l nr b by (simp add: bt_alloc.simps [of j "Suc k"])
      moreover have "frames k ?m r \<inter> {b ..< b + 2 ^ (j - 1)} = {}" using b(4) fl fr by fastforce
      ultimately show ?thesis using b fe wr k by auto
    qed
  qed
qed

lemma mk_split_props:
  assumes "1 < k" "bt_wf (k - 1) l" "bt_wf (k - 1) r"
  shows "bt_wf k (mk_split l r)"
    and "frames k off (mk_split l r) = frames (k - 1) off l \<union> frames (k - 1) (off + 2 ^ (k - 2)) r"
    and "used k off (mk_split l r) = used (k - 1) off l \<union> used (k - 1) (off + 2 ^ (k - 2)) r"
    and "halves (mk_split l r) = Some (l, r)"
proof -
  show h: "halves (mk_split l r) = Some (l, r)" by (cases l; cases r) auto
  show "bt_wf k (mk_split l r)" using assms by (cases l; cases r) auto
  show "frames k off (mk_split l r) = frames (k - 1) off l \<union> frames (k - 1) (off + 2 ^ (k - 2)) r"
    "used k off (mk_split l r) = used (k - 1) off l \<union> used (k - 1) (off + 2 ^ (k - 2)) r"
    using halves_frames(1,2) [OF assms(1) h] .
qed

lemma bt_free_ok:
  assumes "bt_wf k t" "(b, j) \<in> used k off t"
  shows "bt_wf k (bt_free j k off b t) \<and>
    frames k off (bt_free j k off b t) = frames k off t \<union> {b ..< b + 2 ^ (j - 1)} \<and>
    used k off (bt_free j k off b t) = used k off t - {(b, j)}"
  using assms
proof (induction t arbitrary: k off)
  case BFree
  then show ?case by simp
next
  case BUsed
  then show ?case by (auto simp: bt_free.simps)
next
  case (BSplit l r)
  have k: "1 < k" and wl: "bt_wf (k - 1) l" and wr: "bt_wf (k - 1) r" using BSplit.prems by auto
  let ?m = "off + 2 ^ (k - 2)"
  have km: "k - 1 - 1 = k - 2" by simp
  have ul: "c < ?m" if "(c, i) \<in> used (k - 1) off l" for c i
    using used_bound [OF wl that] km by (auto intro: less_le_trans [of c "c + 2 ^ (i - 1)"])
  have ur: "?m \<le> c" if "(c, i) \<in> used (k - 1) ?m r" for c i
    using used_bound [OF wr that] by simp
  from BSplit.prems consider (l) "(b, j) \<in> used (k - 1) off l" | (r) "(b, j) \<in> used (k - 1) ?m r" by auto
  then show ?case
  proof cases
    case l
    then have "j < k" "b < ?m" using used_bound [OF wl l] ul [OF l] k by auto
    then have e: "bt_free j k off b (BSplit l r) = mk_split (bt_free j (k - 1) off b l) r"
      by (simp add: bt_free.simps [of j k])
    note IH = BSplit.IH(1) [OF wl l]
    have "(b, j) \<notin> used (k - 1) ?m r" using ur \<open>b < ?m\<close> by (meson not_le)
    then show ?thesis
      unfolding e using IH wr k by (simp add: mk_split_props Un_Diff Un_ac)
  next
    case r
    then have "j < k" "\<not> b < ?m" using used_bound [OF wr r] ur [OF r] k by auto
    then have e: "bt_free j k off b (BSplit l r) = mk_split l (bt_free j (k - 1) ?m b r)"
      by (simp add: bt_free.simps [of j k])
    note IH = BSplit.IH(2) [OF wr r]
    have "(b, j) \<notin> used (k - 1) off l" using ul \<open>\<not> b < ?m\<close> by blast
    then show ?thesis
      unfolding e using IH wl k by (simp add: mk_split_props Un_Diff Un_ac)
  qed
qed

subsection \<open>The array as a representation of the tree\<close>

fun sub_nodes :: "nat \<Rightarrow> nat \<Rightarrow> nat set" where
  "sub_nodes i 0 = {}"
| "sub_nodes i (Suc k) = insert i (sub_nodes (LEFT_LEAF i) k \<union> sub_nodes (RIGHT_LEAF i) k)"

fun full :: "(nat \<Rightarrow> bt_node) \<Rightarrow> nat \<Rightarrow> nat \<Rightarrow> bool" where
  "full nd i 0 = True"
| "full nd i (Suc k) \<longleftrightarrow> nd i = \<lparr>left_max = k, right_max = k\<rparr> \<and>
     full nd (LEFT_LEAF i) k \<and> full nd (RIGHT_LEAF i) k"

fun rep :: "(nat \<Rightarrow> bt_node) \<Rightarrow> nat \<Rightarrow> nat \<Rightarrow> bt \<Rightarrow> bool" where
  "rep nd i k BFree \<longleftrightarrow> 0 < k \<and> full nd i k"
| "rep nd i k BUsed \<longleftrightarrow> 0 < k \<and> nd i = \<lparr>left_max = 0, right_max = 0\<rparr> \<and>
     full nd (LEFT_LEAF i) (k - 1) \<and> full nd (RIGHT_LEAF i) (k - 1)"
| "rep nd i k (BSplit l r) \<longleftrightarrow> 1 < k \<and> \<not> (l = BFree \<and> r = BFree) \<and>
     nd i = \<lparr>left_max = maxfree (k - 1) l, right_max = maxfree (k - 1) r\<rparr> \<and>
     rep nd (LEFT_LEAF i) (k - 1) l \<and> rep nd (RIGHT_LEAF i) (k - 1) r"

lemma leaf_simps [simp]:
  "PARENT (LEFT_LEAF i) = i" "PARENT (RIGHT_LEAF i) = i" "LEFT_LEAF i \<noteq> RIGHT_LEAF j"
  "0 < LEFT_LEAF i" "0 < RIGHT_LEAF i" "RIGHT_LEAF j \<noteq> LEFT_LEAF i"
  by (simp_all add: PARENT_def LEFT_LEAF_def RIGHT_LEAF_def; presburger)+

lemma sub_nodes_anc: "x \<in> sub_nodes i k \<Longrightarrow> \<exists>d < k. (x + 1) div 2 ^ d = i + 1"
proof (induction k arbitrary: i)
  case (Suc k)
  have up: "\<exists>d < Suc k. (x + 1) div 2 ^ d = i + 1"
    if "\<exists>d < k. (x + 1) div 2 ^ d = c + 1" "(c + 1) div 2 = i + 1" for c
  proof -
    from that(1) obtain d where "d < k" "(x + 1) div 2 ^ d = c + 1" by blast
    moreover have "(x + 1) div 2 ^ Suc d = (x + 1) div 2 ^ d div 2"
      by (simp only: power_Suc2 div_mult2_eq)
    ultimately have "(x + 1) div 2 ^ Suc d = i + 1" using that(2) by simp
    with \<open>d < k\<close> show ?thesis by (intro exI [of _ "Suc d"]) simp
  qed
  from Suc.prems consider "x = i" | "x \<in> sub_nodes (LEFT_LEAF i) k" | "x \<in> sub_nodes (RIGHT_LEAF i) k"
    by auto
  then show ?case
  proof cases
    case 1
    then show ?thesis by (intro exI [of _ 0]) simp
  next
    case 2
    then show ?thesis using Suc.IH by (intro up [of "LEFT_LEAF i"]) (auto simp: LEFT_LEAF_def)
  next
    case 3
    then show ?thesis using Suc.IH by (intro up [of "RIGHT_LEAF i"]) (auto simp: RIGHT_LEAF_def)
  qed
qed simp

lemma sub_nodes_ge: "x \<in> sub_nodes i k \<Longrightarrow> i \<le> x"
  by (induction k arbitrary: i) (fastforce simp: LEFT_LEAF_def RIGHT_LEAF_def)+

lemma sub_nodes_self [simp]: "i \<notin> sub_nodes (LEFT_LEAF i) k" "i \<notin> sub_nodes (RIGHT_LEAF i) k"
  using sub_nodes_ge [of i "LEFT_LEAF i" k] sub_nodes_ge [of i "RIGHT_LEAF i" k]
  by (auto simp: LEFT_LEAF_def RIGHT_LEAF_def)

lemma sub_nodes_disj: "x \<in> sub_nodes (LEFT_LEAF i) k \<Longrightarrow> x \<notin> sub_nodes (RIGHT_LEAF i) k'"
proof
  assume "x \<in> sub_nodes (LEFT_LEAF i) k" "x \<in> sub_nodes (RIGHT_LEAF i) k'"
  then obtain d e where "(x + 1) div 2 ^ d = LEFT_LEAF i + 1" "(x + 1) div 2 ^ e = RIGHT_LEAF i + 1"
    using sub_nodes_anc [of x "LEFT_LEAF i" k] sub_nodes_anc [of x "RIGHT_LEAF i" k'] by blast
  then have d: "(x + 1) div 2 ^ d = 2 * i + 2" and e: "(x + 1) div 2 ^ e = 2 * i + 3"
    by (simp_all add: LEFT_LEAF_def RIGHT_LEAF_def)
  have shift: "m div 2 ^ b \<le> (m div 2 ^ a) div 2" if "a < b" for a b m :: nat
  proof -
    have "2 ^ b = 2 ^ a * (2 * 2 ^ (b - a - 1) :: nat)"
      using that by (simp flip: power_Suc power_add)
    then have "m div 2 ^ b = (m div 2 ^ a) div 2 div 2 ^ (b - a - 1)" by (simp add: div_mult2_eq)
    then show ?thesis by simp
  qed
  consider "d = e" | "d < e" | "e < d" by linarith
  then show False
  proof cases
    case 1
    with d e show False by simp
  next
    case 2
    with shift [OF 2, of "x + 1"] d e show False by simp
  next
    case 3
    with shift [OF 3, of "x + 1"] d e show False by simp
  qed
qed

lemma full_cong: "(\<And>x. x \<in> sub_nodes i k \<Longrightarrow> nd x = nd' x) \<Longrightarrow> full nd i k \<longleftrightarrow> full nd' i k"
  by (induction k arbitrary: i) auto

lemma rep_cong: "(\<And>x. x \<in> sub_nodes i k \<Longrightarrow> nd x = nd' x) \<Longrightarrow> rep nd i k t \<longleftrightarrow> rep nd' i k t"
proof (induction t arbitrary: i k)
  case BFree
  then show ?case using full_cong [of i k nd nd'] by simp
next
  case BUsed
  then show ?case
    using full_cong [of "LEFT_LEAF i" "k - 1" nd nd'] full_cong [of "RIGHT_LEAF i" "k - 1" nd nd']
    by (cases k) auto
next
  case (BSplit l r)
  then show ?case
    using BSplit.IH(1) [of "LEFT_LEAF i" "k - 1"] BSplit.IH(2) [of "RIGHT_LEAF i" "k - 1"]
    by (cases k) auto
qed

lemma rep_wf: "rep nd i k t \<Longrightarrow> bt_wf k t"
  by (induction t arbitrary: i k) auto

text \<open>A node of an area that is not used shows its two halves.\<close>

lemma rep_halves:
  assumes "rep nd i k t" "1 < k" "halves t = Some (l, r)"
  shows "nd i = \<lparr>left_max = maxfree (k - 1) l, right_max = maxfree (k - 1) r\<rparr>"
    and "rep nd (LEFT_LEAF i) (k - 1) l" and "rep nd (RIGHT_LEAF i) (k - 1) r"
  using assms by (cases t; cases k; simp; blast)+

lemma rep_mk_split:
  assumes "1 < k" "nd i = \<lparr>left_max = maxfree (k - 1) l, right_max = maxfree (k - 1) r\<rparr>"
    and "rep nd (LEFT_LEAF i) (k - 1) l" "rep nd (RIGHT_LEAF i) (k - 1) r"
  shows "rep nd i k (mk_split l r)"
  using assms by (cases k; cases l; cases r) auto

lemma alloc_up_left:
  "alloc_up nd (LEFT_LEAF i) m =
     alloc_up (nd(i := (nd i)\<lparr>left_max := m\<rparr>)) i (max m (right_max (nd i)))"
  by (subst alloc_up.simps) (simp add: Let_def)

lemma alloc_up_right:
  "alloc_up nd (RIGHT_LEAF i) m =
     alloc_up (nd(i := (nd i)\<lparr>right_max := m\<rparr>)) i (max m (left_max (nd i)))"
  by (subst alloc_up.simps) (simp add: Let_def)

lemma rep_upd_root:
  "rep (nd(i := v)) (LEFT_LEAF i) k t \<longleftrightarrow> rep nd (LEFT_LEAF i) k t"
  "rep (nd(i := v)) (RIGHT_LEAF i) k t \<longleftrightarrow> rep nd (RIGHT_LEAF i) k t"
proof -
  show "rep (nd(i := v)) (LEFT_LEAF i) k t \<longleftrightarrow> rep nd (LEFT_LEAF i) k t"
    by (rule rep_cong) (metis fun_upd_other sub_nodes_self(1))
  show "rep (nd(i := v)) (RIGHT_LEAF i) k t \<longleftrightarrow> rep nd (RIGHT_LEAF i) k t"
    by (rule rep_cong) (metis fun_upd_other sub_nodes_self(2))
qed

lemma full_upd_root:
  "full (nd(i := v)) (LEFT_LEAF i) k \<longleftrightarrow> full nd (LEFT_LEAF i) k"
  "full (nd(i := v)) (RIGHT_LEAF i) k \<longleftrightarrow> full nd (RIGHT_LEAF i) k"
proof -
  show "full (nd(i := v)) (LEFT_LEAF i) k \<longleftrightarrow> full nd (LEFT_LEAF i) k"
    by (rule full_cong) (metis fun_upd_other sub_nodes_self(1))
  show "full (nd(i := v)) (RIGHT_LEAF i) k \<longleftrightarrow> full nd (RIGHT_LEAF i) k"
    by (rule full_cong) (metis fun_upd_other sub_nodes_self(2))
qed

text \<open>A step of either upward loop: the node above a changed half takes the new maximum.\<close>

lemma rep_join_right:
  assumes "rep nd i k t" "1 < k" "halves t = Some (l, r)"
    and "rep nd1 (RIGHT_LEAF i) (k - 1) r'" "\<forall>x. x \<notin> sub_nodes (RIGHT_LEAF i) (k - 1) \<longrightarrow> nd1 x = nd x"
  shows "rep (nd1(i := (nd1 i)\<lparr>right_max := maxfree (k - 1) r'\<rparr>)) i k (mk_split l r')"
    and "left_max (nd1 i) = maxfree (k - 1) l"
proof -
  note h = rep_halves [OF assms(1-3)]
  have i: "nd1 i = nd i" using assms(5) by simp
  show "left_max (nd1 i) = maxfree (k - 1) l" using i h(1) by simp
  have "rep nd1 (LEFT_LEAF i) (k - 1) l"
    using h(2) assms(5) sub_nodes_disj by (subst rep_cong [of _ _ _ nd]) metis
  then show "rep (nd1(i := (nd1 i)\<lparr>right_max := maxfree (k - 1) r'\<rparr>)) i k (mk_split l r')"
    using assms(2,4) h(1) i by (intro rep_mk_split) (simp_all add: rep_upd_root)
qed

lemma rep_join_left:
  assumes "rep nd i k t" "1 < k" "halves t = Some (l, r)"
    and "rep nd1 (LEFT_LEAF i) (k - 1) l'" "\<forall>x. x \<notin> sub_nodes (LEFT_LEAF i) (k - 1) \<longrightarrow> nd1 x = nd x"
  shows "rep (nd1(i := (nd1 i)\<lparr>left_max := maxfree (k - 1) l'\<rparr>)) i k (mk_split l' r)"
    and "right_max (nd1 i) = maxfree (k - 1) r"
proof -
  note h = rep_halves [OF assms(1-3)]
  have i: "nd1 i = nd i" using assms(5) by simp
  show "right_max (nd1 i) = maxfree (k - 1) r" using i h(1) by simp
  have "rep nd1 (RIGHT_LEAF i) (k - 1) r"
    using h(3) assms(5) sub_nodes_disj by (subst rep_cong [of _ _ _ nd]) metis
  then show "rep (nd1(i := (nd1 i)\<lparr>left_max := maxfree (k - 1) l'\<rparr>)) i k (mk_split l' r)"
    using assms(2,4) h(1) i by (intro rep_mk_split) (simp_all add: rep_upd_root)
qed

lemma sub_nodes_frame:
  assumes "\<forall>x. x \<notin> sub_nodes c (k - 1) \<longrightarrow> nd1 x = nd x" "c = LEFT_LEAF i \<or> c = RIGHT_LEAF i" "0 < k"
  shows "\<forall>x. x \<notin> sub_nodes i k \<longrightarrow> (nd1(i := v)) x = nd x"
  using assms by (cases k) auto

lemma maxfree_mk_split:
  assumes "1 < k" "\<not> (l = BFree \<and> r = BFree)"
  shows "mk_split l r = BSplit l r"
  using assms by (cases l; cases r) auto

lemma alloc_array:
  assumes "rep nd i k t" "0 < j" "j \<le> maxfree k t" "bt_alloc j k off t = Some (t', b)"
  shows "\<exists>idx nd'. descend nd j k i off = (j, idx, b) \<and>
    alloc_up (nd(idx := \<lparr>left_max = 0, right_max = 0\<rparr>)) idx 0 = alloc_up nd' i (maxfree k t') \<and>
    rep nd' i k t' \<and> (\<forall>x. x \<notin> sub_nodes i k \<longrightarrow> nd' x = nd x)"
  using assms
proof (induction k arbitrary: i off t t')
  case 0
  then show ?case using maxfree_le [of 0 t] by simp
next
  case (Suc k)
  note wf = rep_wf [OF Suc.prems(1)]
  show ?case
  proof (cases "j < Suc k")
    case False
    then have j: "j = Suc k" "t = BFree"
      using Suc.prems maxfree_le [of "Suc k" t] maxfree_full [OF wf] by auto
    then have "t' = BUsed" "b = off" using Suc.prems(4) by (simp_all add: bt_alloc.simps)
    moreover have "descend nd j (Suc k) i off = (j, i, off)" using j by (simp add: descend.simps)
    moreover have "rep (nd(i := \<lparr>left_max = 0, right_max = 0\<rparr>)) i (Suc k) BUsed"
      using Suc.prems(1) j(2) by (simp only: rep.simps full.simps full_upd_root fun_upd_same) simp
    ultimately show ?thesis
      by (intro exI [of _ i] exI [of _ "nd(i := \<lparr>left_max = 0, right_max = 0\<rparr>)"])
        (simp del: fun_upd_apply rep.simps add: fun_upd_other)
  next
    case True
    have k1: "1 < Suc k" using True Suc.prems by simp
    obtain l r where lr: "halves t = Some (l, r)"
      using Suc.prems by (cases t) auto
    note nd = rep_halves [OF Suc.prems(1) k1 lr, simplified diff_Suc_1]
    let ?m = "off + 2 ^ (k - 1)"
    show ?thesis
    proof (cases "j \<le> maxfree k r")
      case r: True
      then obtain r' where r': "bt_alloc j k ?m r = Some (r', b)" "t' = BSplit l r'"
        using Suc.prems(4) True lr by (auto simp: bt_alloc.simps [of j "Suc k"])
      from Suc.IH [OF nd(3) Suc.prems(2) r r'(1)] obtain idx nd1 where
        IH: "descend nd j k (RIGHT_LEAF i) ?m = (j, idx, b)"
        "alloc_up (nd(idx := \<lparr>left_max = 0, right_max = 0\<rparr>)) idx 0
          = alloc_up nd1 (RIGHT_LEAF i) (maxfree k r')"
        "rep nd1 (RIGHT_LEAF i) k r'" "\<forall>x. x \<notin> sub_nodes (RIGHT_LEAF i) k \<longrightarrow> nd1 x = nd x"
        by blast
      have "r' \<noteq> BFree" using bt_alloc_Some [OF rep_wf [OF nd(3)] Suc.prems(2) r, of ?m] r'(1) by auto
      then have mk: "mk_split l r' = t'" using r'(2) by (cases l; cases r') auto
      define nd2 where "nd2 = nd1(i := (nd1 i)\<lparr>right_max := maxfree k r'\<rparr>)"
      note J = rep_join_right [OF Suc.prems(1) k1 lr, simplified diff_Suc_1, OF IH(3,4)]
      have "descend nd j (Suc k) i off = (j, idx, b)"
        using True nd(1) r IH(1) by (simp add: descend.simps [of nd j "Suc k"])
      moreover have "alloc_up nd1 (RIGHT_LEAF i) (maxfree k r') = alloc_up nd2 i (maxfree (Suc k) t')"
        using J(2) r'(2) unfolding nd2_def alloc_up_right by (simp add: max.commute)
      moreover have "rep nd2 i (Suc k) t'" using J(1) mk unfolding nd2_def by simp
      moreover have "\<forall>x. x \<notin> sub_nodes i (Suc k) \<longrightarrow> nd2 x = nd x"
        unfolding nd2_def using IH(4) by (intro sub_nodes_frame [of "RIGHT_LEAF i"]) simp_all
      ultimately show ?thesis using IH(2) by metis
    next
      case nr: False
      have l: "j \<le> maxfree k l"
        using Suc.prems(4) True lr nr by (auto simp: bt_alloc.simps [of j "Suc k"] split: if_splits)
      then obtain l' where l': "bt_alloc j k off l = Some (l', b)" "t' = BSplit l' r"
        using Suc.prems(4) True lr nr by (auto simp: bt_alloc.simps [of j "Suc k"])
      from Suc.IH [OF nd(2) Suc.prems(2) l l'(1)] obtain idx nd1 where
        IH: "descend nd j k (LEFT_LEAF i) off = (j, idx, b)"
        "alloc_up (nd(idx := \<lparr>left_max = 0, right_max = 0\<rparr>)) idx 0
          = alloc_up nd1 (LEFT_LEAF i) (maxfree k l')"
        "rep nd1 (LEFT_LEAF i) k l'" "\<forall>x. x \<notin> sub_nodes (LEFT_LEAF i) k \<longrightarrow> nd1 x = nd x"
        by blast
      have "l' \<noteq> BFree" using bt_alloc_Some [OF rep_wf [OF nd(2)] Suc.prems(2) l, of off] l'(1) by auto
      then have mk: "mk_split l' r = t'" using l'(2) by (cases l'; cases r) auto
      define nd2 where "nd2 = nd1(i := (nd1 i)\<lparr>left_max := maxfree k l'\<rparr>)"
      note J = rep_join_left [OF Suc.prems(1) k1 lr, simplified diff_Suc_1, OF IH(3,4)]
      have "descend nd j (Suc k) i off = (j, idx, b)"
        using True nd(1) nr l IH(1) by (simp add: descend.simps [of nd j "Suc k"])
      moreover have "alloc_up nd1 (LEFT_LEAF i) (maxfree k l') = alloc_up nd2 i (maxfree (Suc k) t')"
        using J(2) l'(2) unfolding nd2_def alloc_up_left by simp
      moreover have "rep nd2 i (Suc k) t'" using J(1) mk unfolding nd2_def by simp
      moreover have "\<forall>x. x \<notin> sub_nodes i (Suc k) \<longrightarrow> nd2 x = nd x"
        unfolding nd2_def using IH(4) by (intro sub_nodes_frame [of "LEFT_LEAF i"]) simp_all
      ultimately show ?thesis using IH(2) by metis
    qed
  qed
qed

lemma free_up_left:
  "free_up nd (LEFT_LEAF i) c m = free_up (nd(i := (nd i)\<lparr>left_max := m\<rparr>)) i (c + 1)
     (if right_max (nd i) = c \<and> m = c then c + 1 else max (right_max (nd i)) m)"
  by (subst free_up.simps) (simp add: Let_def)

lemma free_up_right:
  "free_up nd (RIGHT_LEAF i) c m = free_up (nd(i := (nd i)\<lparr>right_max := m\<rparr>)) i (c + 1)
     (if m = c \<and> left_max (nd i) = c then c + 1 else max m (left_max (nd i)))"
  by (subst free_up.simps) (simp add: Let_def)

lemma maxfree_mk:
  assumes "bt_wf k l" "bt_wf k r"
  shows "maxfree (Suc k) (mk_split l r) =
    (if maxfree k r = k \<and> maxfree k l = k then k + 1 else max (maxfree k l) (maxfree k r))"
  using maxfree_full [OF assms(1)] maxfree_full [OF assms(2)] by (cases l; cases r) auto

lemma get_index_left:
  "1 < k \<Longrightarrow> j < k \<Longrightarrow> o' < 2 ^ (k - 2) \<Longrightarrow>
   get_index o' (2 ^ (j - 1)) (2 ^ (k - 1)) i = get_index o' (2 ^ (j - 1)) (2 ^ (k - 2)) (LEFT_LEAF i)"
proof -
  assume k: "1 < k" "j < k" "o' < 2 ^ (k - 2)"
  have "(2::nat) ^ (j - 1) < 2 ^ (k - 1)" using k by (intro power_strict_increasing) auto
  moreover have "(2::nat) ^ (k - 1) div 2 = 2 ^ (k - 2)" using pow_half [OF k(1)] by simp
  ultimately show ?thesis
    using k by (subst get_index.simps) (simp add: Let_def)
qed

lemma get_index_right:
  "1 < k \<Longrightarrow> j < k \<Longrightarrow> 2 ^ (k - 2) \<le> o' \<Longrightarrow>
   get_index o' (2 ^ (j - 1)) (2 ^ (k - 1)) i
     = get_index (o' - 2 ^ (k - 2)) (2 ^ (j - 1)) (2 ^ (k - 2)) (RIGHT_LEAF i)"
proof -
  assume k: "1 < k" "j < k" "2 ^ (k - 2) \<le> o'"
  have "(2::nat) ^ (j - 1) < 2 ^ (k - 1)" using k by (intro power_strict_increasing) auto
  moreover have "(2::nat) ^ (k - 1) div 2 = 2 ^ (k - 2)" using pow_half [OF k(1)] by simp
  ultimately show ?thesis
    using k by (subst get_index.simps) (simp add: Let_def)
qed

lemma free_array:
  assumes "rep nd i k t" "(b, j) \<in> used k off t"
    and "idx = get_index (b - off) (2 ^ (j - 1)) (2 ^ (k - 1)) i"
  shows "\<exists>nd'. free_up (nd(idx := \<lparr>left_max = j - 1, right_max = j - 1\<rparr>)) idx j j
      = free_up nd' i k (maxfree k (bt_free j k off b t)) \<and>
    rep nd' i k (bt_free j k off b t) \<and> (\<forall>x. x \<notin> sub_nodes i k \<longrightarrow> nd' x = nd x)"
  using assms
proof (induction t arbitrary: i k off)
  case BFree
  then show ?case by simp
next
  case BUsed
  then have j: "j = k" "b = off" "0 < k" by auto
  then have idx: "idx = i" using BUsed.prems by (simp add: get_index.simps)
  let ?nd = "nd(i := \<lparr>left_max = j - 1, right_max = j - 1\<rparr>)"
  obtain m where m: "k = Suc m" using j by (cases k) auto
  have "rep ?nd i k BFree"
    using BUsed.prems(1) j(1) unfolding m
    by (simp only: rep.simps full.simps full_upd_root fun_upd_same diff_Suc_1)
  moreover have "\<forall>x. x \<notin> sub_nodes i k \<longrightarrow> ?nd x = nd x" unfolding m by simp
  moreover have "bt_free j k off b BUsed = BFree" using j by (simp add: bt_free.simps)
  ultimately show ?case using idx j by (intro exI [of _ ?nd]) (simp del: fun_upd_apply rep.simps)
next
  case (BSplit l r)
  have k: "1 < k" using BSplit.prems(1) by simp
  have lr: "halves (BSplit l r) = Some (l, r)" by simp
  note nd = rep_halves [OF BSplit.prems(1) k lr]
  note wl = rep_wf [OF nd(2)] and wr = rep_wf [OF nd(3)]
  obtain m where m: "k = Suc m" using k by (cases k) auto
  let ?m = "off + 2 ^ (k - 2)"
  have e2: "k - 1 - 1 = k - 2" by simp
  from BSplit.prems(2) consider (l) "(b, j) \<in> used (k - 1) off l" | (r) "(b, j) \<in> used (k - 1) ?m r" by auto
  then show ?case
  proof cases
    case l
    note u = used_bound [OF wl l, unfolded e2]
    have "(2::nat) ^ (j - 1) > 0" by simp
    then have jb: "j < k" "b < ?m" "b - off < 2 ^ (k - 2)" using u k by linarith+
    have f: "bt_free j k off b (BSplit l r) = mk_split (bt_free j (k - 1) off b l) r"
      using jb by (simp add: bt_free.simps [of j k])
    define l' where "l' = bt_free j (k - 1) off b l"
    have idx: "idx = get_index (b - off) (2 ^ (j - 1)) (2 ^ (k - 1 - 1)) (LEFT_LEAF i)"
      using BSplit.prems(3) get_index_left [OF k jb(1,3)] unfolding e2 by simp
    from BSplit.IH(1) [OF nd(2) l idx] obtain nd1 where
      IH: "free_up (nd(idx := \<lparr>left_max = j - 1, right_max = j - 1\<rparr>)) idx j j
        = free_up nd1 (LEFT_LEAF i) (k - 1) (maxfree (k - 1) l')"
      "rep nd1 (LEFT_LEAF i) (k - 1) l'" "\<forall>x. x \<notin> sub_nodes (LEFT_LEAF i) (k - 1) \<longrightarrow> nd1 x = nd x"
      unfolding l'_def by blast
    define nd2 where "nd2 = nd1(i := (nd1 i)\<lparr>left_max := maxfree (k - 1) l'\<rparr>)"
    note J = rep_join_left [OF BSplit.prems(1) k lr IH(2,3)]
    have "free_up nd1 (LEFT_LEAF i) (k - 1) (maxfree (k - 1) l') = free_up nd2 i k (maxfree k (mk_split l' r))"
      using J(2) maxfree_mk [of m l' r] rep_wf [OF IH(2)] wr
      unfolding nd2_def free_up_left m by (simp add: max.commute conj_commute)
    moreover have "rep nd2 i k (mk_split l' r)" using J(1) unfolding nd2_def .
    moreover have "\<forall>x. x \<notin> sub_nodes i k \<longrightarrow> nd2 x = nd x"
      unfolding nd2_def using IH(3) k by (intro sub_nodes_frame [of "LEFT_LEAF i"]) simp_all
    ultimately show ?thesis unfolding f l'_def [symmetric] using IH(1) by metis
  next
    case r
    note u = used_bound [OF wr r, unfolded e2]
    have jb: "j < k" "\<not> b < ?m" "2 ^ (k - 2) \<le> b - off" using u k by linarith+
    have f: "bt_free j k off b (BSplit l r) = mk_split l (bt_free j (k - 1) ?m b r)"
      using jb by (simp add: bt_free.simps [of j k])
    define r' where "r' = bt_free j (k - 1) ?m b r"
    have idx: "idx = get_index (b - ?m) (2 ^ (j - 1)) (2 ^ (k - 1 - 1)) (RIGHT_LEAF i)"
      using BSplit.prems(3) get_index_right [OF k jb(1,3)] unfolding e2 by simp
    from BSplit.IH(2) [OF nd(3) r idx] obtain nd1 where
      IH: "free_up (nd(idx := \<lparr>left_max = j - 1, right_max = j - 1\<rparr>)) idx j j
        = free_up nd1 (RIGHT_LEAF i) (k - 1) (maxfree (k - 1) r')"
      "rep nd1 (RIGHT_LEAF i) (k - 1) r'" "\<forall>x. x \<notin> sub_nodes (RIGHT_LEAF i) (k - 1) \<longrightarrow> nd1 x = nd x"
      unfolding r'_def by blast
    define nd2 where "nd2 = nd1(i := (nd1 i)\<lparr>right_max := maxfree (k - 1) r'\<rparr>)"
    note J = rep_join_right [OF BSplit.prems(1) k lr IH(2,3)]
    have "free_up nd1 (RIGHT_LEAF i) (k - 1) (maxfree (k - 1) r') = free_up nd2 i k (maxfree k (mk_split l r'))"
      using J(2) maxfree_mk [of m l r'] rep_wf [OF IH(2)] wl
      unfolding nd2_def free_up_right m by (simp add: max.commute conj_commute)
    moreover have "rep nd2 i k (mk_split l r')" using J(1) unfolding nd2_def .
    moreover have "\<forall>x. x \<notin> sub_nodes i k \<longrightarrow> nd2 x = nd x"
      unfolding nd2_def using IH(3) k by (intro sub_nodes_frame [of "RIGHT_LEAF i"]) simp_all
    ultimately show ?thesis unfolding f r'_def [symmetric] using IH(1) by metis
  qed
qed

subsection \<open>The allocator's invariant and its refinement\<close>

text \<open>\<open>buddy_wf s K t\<close>: the array of \<open>s\<close> holds the tree \<open>t\<close> over \<open>2 ^ (K - 1)\<close> frames.\<close>

definition buddy_wf :: "buddy \<Rightarrow> nat \<Rightarrow> bt \<Rightarrow> bool" where
  "buddy_wf s K t \<longleftrightarrow> 1 < K \<and> total_size s = 2 ^ (K - 1) \<and> rep (bt_nodes s) 0 K t"

lemma alloc_up_0 [simp]: "alloc_up nd 0 m = nd"
  by (simp add: alloc_up.simps)

lemma free_up_0 [simp]: "free_up nd 0 c m = nd"
  by (simp add: free_up.simps)

lemma descend_stuck:
  assumes "rep nd i k t" "j < k" "0 < j" "maxfree k t < j"
  shows "descend nd j k i off = (k, i, off)"
proof (cases t)
  case BFree
  with assms show ?thesis by simp
qed (use assms in \<open>auto simp: descend.simps\<close>)

text \<open>Below the size of the whole area, allocation is exactly \<open>bt_alloc\<close> on the tree.\<close>

lemma buddy_alloc_ok:
  assumes wf: "buddy_wf s K t" and n: "0 < n" "unat (buddy_round n) = 2 ^ (j - 1)" and j: "0 < j" "j < K"
  shows "if maxfree K t < j then buddy_alloc_pages n s = Some (None, s)
    else \<exists>t' b s'. bt_alloc j K 0 t = Some (t', b) \<and>
      buddy_alloc_pages n s = Some (Some (bt_base s + b), s') \<and> buddy_wf s' K t' \<and>
      bt_base s' = bt_base s"
proof -
  have l: "log2 (unat (buddy_round n)) + 1 = j" "log2 (total_size s) + 1 = K"
    using wf n j by (simp_all add: buddy_wf_def)
  have "(2::nat) ^ (j - 1) \<le> 2 ^ (K - 1)" using j by (intro power_increasing) auto
  then have ts: "\<not> total_size s < unat (buddy_round n)" using wf n by (simp add: buddy_wf_def)
  have r: "rep (bt_nodes s) 0 K t" using wf by (simp add: buddy_wf_def)
  show ?thesis
  proof (cases "maxfree K t < j")
    case True
    then show ?thesis
      using n ts l j descend_stuck [OF r j(2,1) True, of 0] by (simp add: buddy_alloc_pages_def Let_def)
  next
    case False
    then obtain t' b where b: "bt_alloc j K 0 t = Some (t', b)"
      using bt_alloc_Some [OF rep_wf [OF r] j(1), of 0] by auto
    with alloc_array [OF r j(1) _ b] False obtain idx nd' where
      nd: "descend (bt_nodes s) j K 0 0 = (j, idx, b)"
      "alloc_up ((bt_nodes s)(idx := \<lparr>left_max = 0, right_max = 0\<rparr>)) idx 0 = nd'" "rep nd' 0 K t'"
      by (metis alloc_up_0 not_le)
    have "buddy_alloc_pages n s = Some (Some (bt_base s + b),
        s\<lparr>bt_pages := (bt_pages s)(bt_base s + b := (bt_pages s (bt_base s + b))\<lparr>property := 2 ^ (j - 1)\<rparr>),
          bt_nodes := nd'\<rparr>)"
      using n(1) ts l nd by (simp add: buddy_alloc_pages_def Let_def)
    then show ?thesis using False b nd(3) wf by (simp add: buddy_wf_def)
  qed
qed

definition bt_in_use :: "nat \<Rightarrow> nat \<Rightarrow> buddy \<Rightarrow> bool" where
  "bt_in_use b n s \<longleftrightarrow>
     list_all (\<lambda>p. \<not> PageReserved (bt_pages s p) \<and> \<not> PageProperty (bt_pages s p)) [b..<b + n]"

lemma bt_clear_pages_ok:
  assumes "\<forall>i < k. \<not> PageReserved (pg (p + i)) \<and> \<not> PageProperty (pg (p + i))"
  shows "\<exists>pg'. bt_clear_pages p k pg = Some pg'"
  using assms
proof (induction k arbitrary: p pg)
  case (Suc k)
  have "\<not> PageReserved (pg p) \<and> \<not> PageProperty (pg p)"
    using Suc.prems by (metis add_0_right zero_less_Suc)
  moreover have "\<forall>i < k. \<not> PageReserved (pg (p + 1 + i)) \<and> \<not> PageProperty (pg (p + 1 + i))"
    using Suc.prems by (metis Suc_less_eq add_Suc_shift plus_1_eq_Suc add.commute)
  ultimately show ?case
    using Suc.IH [of "pg(p := (pg p)\<lparr>flags := 0, pref := 0\<rparr>)" "p + 1"] by (simp add: fun_upd_def)
qed simp

lemma buddy_free_ok:
  assumes wf: "buddy_wf s K t" and n: "0 < n" "unat (buddy_round n) = 2 ^ (j - 1)"
    and u: "(b - bt_base s, j) \<in> used K 0 t" and iu: "bt_in_use b (2 ^ (j - 1)) s"
  shows "\<exists>s'. buddy_free_pages (Some b) n s = Some s' \<and> bt_base s' = bt_base s \<and>
    buddy_wf s' K (bt_free j K 0 (b - bt_base s) t)"
proof -
  have r: "rep (bt_nodes s) 0 K t" and ts: "total_size s = 2 ^ (K - 1)" using wf by (simp_all add: buddy_wf_def)
  have j: "0 < j" using used_bound [OF rep_wf [OF r] u] by simp
  have "\<forall>i < 2 ^ (j - 1). \<not> PageReserved (bt_pages s (b + i)) \<and> \<not> PageProperty (bt_pages s (b + i))"
    using iu by (simp add: bt_in_use_def list_all_iff)
  then obtain pg where pg: "bt_clear_pages b (2 ^ (j - 1)) (bt_pages s) = Some pg"
    using bt_clear_pages_ok by blast
  define idx where "idx = get_index (b - bt_base s) (2 ^ (j - 1)) (2 ^ (K - 1)) 0"
  from free_array [OF r u, of idx] obtain nd' where
    nd: "free_up ((bt_nodes s)(idx := \<lparr>left_max = j - 1, right_max = j - 1\<rparr>)) idx j j = nd'"
    "rep nd' 0 K (bt_free j K 0 (b - bt_base s) t)"
    unfolding idx_def by (metis free_up_0 diff_zero)
  have "buddy_free_pages (Some b) n s = Some (s\<lparr>bt_pages := pg(b := (pg b)\<lparr>property := 0\<rparr>), bt_nodes := nd'\<rparr>)"
    using n pg nd(1) ts j unfolding idx_def by (simp add: buddy_free_pages_def Let_def)
  then show ?thesis using nd(2) wf by (simp add: buddy_wf_def)
qed

subsection \<open>Building the tree\<close>

lemma log2_double: "log2 (2 * Suc m) = Suc (log2 (Suc m))" "log2 (2 * Suc m + 1) = Suc (log2 (Suc m))"
  by (subst log2.simps; simp)+

lemma log2_one_two: "log2 1 = 0" "log2 2 = 1"
proof -
  show "log2 1 = 0" by (subst log2.simps) simp
  then show "log2 2 = 1" by (subst log2.simps) simp
qed

lemma log2_step: "1 < i \<Longrightarrow> log2 i = Suc (log2 (i div 2))"
  by (subst log2.simps) simp

lemma log2_succ:
  "0 < i \<Longrightarrow> log2 (i + 1) = (if \<exists>k. i + 1 = 2 ^ k then Suc (log2 i) else log2 i)"
proof (induction i rule: less_induct)
  case (less i)
  show ?case
  proof (cases "i = 1")
    case True
    have "\<exists>k. (2::nat) = 2 ^ k" by (rule exI [of _ 1]) simp
    then show ?thesis using True log2_one_two by (simp del: One_nat_def Suc_1 add: one_add_one)
  next
    case False
    then have i2: "1 < i" using less.prems by simp
    show ?thesis
    proof (cases "even i")
      case True
      have "(i + 1) div 2 = i div 2" using True by simp
      then have "log2 (i + 1) = log2 i" using i2 log2_step [of i] log2_step [of "i + 1"] by simp
      moreover have "\<nexists>k. i + 1 = 2 ^ k"
      proof
        assume "\<exists>k. i + 1 = 2 ^ k"
        then obtain k where k: "i + 1 = 2 ^ k" ..
        have "odd (i + 1)" using True by simp
        then have "k = 0" unfolding k by simp
        with k i2 show False by simp
      qed
      ultimately show ?thesis by simp
    next
      case odd: False
      let ?h = "i div 2"
      have h: "0 < ?h" "?h < i" "(i + 1) div 2 = ?h + 1" "i + 1 = 2 * (?h + 1)"
        using odd i2 by presburger+
      have "(\<exists>k. i + 1 = 2 ^ k) \<longleftrightarrow> (\<exists>k. ?h + 1 = 2 ^ k)"
      proof
        assume "\<exists>k. i + 1 = 2 ^ k"
        then obtain k where k: "i + 1 = 2 ^ k" ..
        then have "k \<noteq> 0" using i2 by (intro notI) simp
        then obtain m where "k = Suc m" by (cases k) auto
        with k h(4) have "?h + 1 = 2 ^ m" by simp
        then show "\<exists>k. ?h + 1 = 2 ^ k" ..
      next
        assume "\<exists>k. ?h + 1 = 2 ^ k"
        then obtain k where "?h + 1 = 2 ^ k" ..
        with h(4) have "i + 1 = 2 ^ Suc k" by simp
        then show "\<exists>k. i + 1 = 2 ^ k" ..
      qed
      moreover have "log2 (i + 1) = Suc (log2 (?h + 1))" "log2 i = Suc (log2 ?h)"
        using i2 h(3) log2_step [of i] log2_step [of "i + 1"] by simp_all
      ultimately show ?thesis using less.IH [OF h(2,1)] by simp
    qed
  qed
qed

lemma log2_mono_pow: "i < 2 ^ k \<Longrightarrow> 0 < i \<Longrightarrow> log2 i < k"
proof (induction k arbitrary: i)
  case (Suc k)
  show ?case
  proof (cases "1 < i")
    case True
    then have "i div 2 < 2 ^ k" "0 < i div 2" using Suc.prems by auto
    then show ?thesis using Suc.IH True log2_step [of i] by simp
  next
    case False
    then show ?thesis by (simp add: log2.simps)
  qed
qed simp

text \<open>The class counter of the loop before node \<open>i\<close>, and the value written to node \<open>i\<close>.\<close>

definition level_class :: "nat \<Rightarrow> nat \<Rightarrow> nat" where
  "level_class K i = (if i = 0 then K else K - 1 - log2 i)"

lemma init_nodes_value:
  assumes "i + m < 2 ^ 63"
  shows "init_nodes m i (level_class K i) nd x =
    (if i \<le> x \<and> x < i + m
     then \<lparr>left_max = K - 1 - log2 (x + 1), right_max = K - 1 - log2 (x + 1)\<rparr> else nd x)"
  using assms
proof (induction m arbitrary: i nd)
  case (Suc m)
  have small: "i + 1 < 2 ^ 64" using Suc.prems by simp
  then have u: "unat (of_nat (i + 1) :: u64) = i + 1" by (simp add: unsigned_of_nat take_bit_nat_eq_self del: of_nat_Suc of_nat_add)
  then have "(0 :: u64) < of_nat (i + 1)" by (simp add: word_less_nat_alt del: of_nat_Suc of_nat_add)
  then have p2: "is_power_of_2 (of_nat (i + 1)) \<longleftrightarrow> (\<exists>k. i + 1 = 2 ^ k)"
    using is_power_of_2_iff u by simp
  have nxt: "(if is_power_of_2 (of_nat (i + 1)) then level_class K i - 1 else level_class K i)
      = level_class K (i + 1)"
  proof (cases "i = 0")
    case True
    have "\<exists>k. (1::nat) = 2 ^ k" by (rule exI [of _ 0]) simp
    then show ?thesis using True p2 by (simp add: level_class_def log2.simps)
  next
    case False
    then show ?thesis using p2 log2_succ [of i] by (simp add: level_class_def del: of_nat_Suc)
  qed
  have "level_class K (i + 1) = K - 1 - log2 (i + 1)" by (simp add: level_class_def)
  then show ?case
    using Suc.IH [of "i + 1"] Suc.prems nxt by (auto simp: Let_def simp del: of_nat_Suc)
qed simp

lemma full_levels:
  assumes "\<And>x. x \<in> sub_nodes i k \<Longrightarrow>
      nd x = \<lparr>left_max = K - 1 - log2 (x + 1), right_max = K - 1 - log2 (x + 1)\<rparr>"
    and "log2 (i + 1) + k = K"
  shows "full nd i k"
  using assms
proof (induction k arbitrary: i)
  case (Suc k)
  have "log2 (LEFT_LEAF i + 1) = Suc (log2 (i + 1))" "log2 (RIGHT_LEAF i + 1) = Suc (log2 (i + 1))"
    using log2_double [of i] by (simp_all add: LEFT_LEAF_def RIGHT_LEAF_def mult.commute)
  then have "full nd (LEFT_LEAF i) k" "full nd (RIGHT_LEAF i) k"
    using Suc.prems by (auto intro!: Suc.IH)
  moreover have "nd i = \<lparr>left_max = k, right_max = k\<rparr>"
    using Suc.prems(1) [of i] Suc.prems(2) by auto
  ultimately show ?case by simp
qed simp

lemma sub_nodes_bound: "x \<in> sub_nodes i k \<Longrightarrow> x + 1 < (i + 2) * 2 ^ k"
proof -
  assume "x \<in> sub_nodes i k"
  then obtain d where d: "d < k" "(x + 1) div 2 ^ d = i + 1" using sub_nodes_anc by blast
  then have "x + 1 < (i + 2) * 2 ^ d"
    using div_less_iff_less_mult [of "2 ^ d" "x + 1" "i + 2"] by simp
  also have "\<dots> \<le> (i + 2) * 2 ^ k" using d(1) by (intro mult_left_mono power_increasing) auto
  finally show ?thesis .
qed

lemma sub_nodes_root: "x \<in> sub_nodes 0 k \<Longrightarrow> x < 2 ^ k - 1"
proof -
  assume "x \<in> sub_nodes 0 k"
  then obtain d where d: "d < k" "(x + 1) div 2 ^ d = 1" using sub_nodes_anc [of x 0 k] by auto
  then have "x + 1 < 2 * 2 ^ d"
    using div_less_iff_less_mult [of "2 ^ d" "x + 1" 2] by simp
  also have "\<dots> = 2 ^ Suc d" by simp
  also have "\<dots> \<le> 2 ^ k" using d(1) by (intro power_increasing) auto
  finally show ?thesis by simp
qed

lemma init_nodes_full:
  assumes "k < 63"
  shows "full (init_nodes (2 ^ Suc k - 1) 0 (Suc k) nd) 0 (Suc k)"
proof (rule full_levels [where K = "Suc k"])
  have "(2::nat) ^ Suc k \<le> 2 ^ 63" using assms by (intro power_increasing) auto
  then have b: "0 + (2 ^ Suc k - 1) < (2::nat) ^ 63" using zero_less_power [of "2::nat" "Suc k"] by linarith
  fix x assume "x \<in> sub_nodes 0 (Suc k)"
  then have "x < 2 ^ Suc k - 1" by (rule sub_nodes_root)
  then show "init_nodes (2 ^ Suc k - 1) 0 (Suc k) nd x
      = \<lparr>left_max = Suc k - 1 - log2 (x + 1), right_max = Suc k - 1 - log2 (x + 1)\<rparr>"
    using init_nodes_value [OF b, of "Suc k" nd x] by (simp add: level_class_def)
qed (simp add: log2.simps)

lemma bt_init_pages_ok:
  assumes "\<forall>i < k. PageReserved (pg (p + i))"
  shows "\<exists>pg'. bt_init_pages p k pg = Some pg'"
  using assms
proof (induction k arbitrary: p pg)
  case (Suc k)
  have "PageReserved (pg p)" using Suc.prems by (metis add_0_right zero_less_Suc)
  moreover have "\<forall>i < k. PageReserved (pg (p + 1 + i))"
    using Suc.prems by (metis Suc_less_eq add_Suc_shift plus_1_eq_Suc add.commute)
  ultimately show ?case
    using Suc.IH [of "pg(p := (pg p)\<lparr>flags := 0, property := 0, pref := 0\<rparr>)" "p + 1"]
    by (simp add: fun_upd_def)
qed simp

text \<open>The size kept is the largest power of two that fits.\<close>

definition buddy_floor :: "u64 \<Rightarrow> u64" where
  "buddy_floor n = (if is_power_of_2 n then n else ucast (drop_bit 1 (fixsize (ucast n))))"

lemma buddy_floor_greatest:
  assumes "0 < n" "unat n < 2 ^ 31"
  obtains k where "unat (buddy_floor n) = 2 ^ k" "2 ^ k \<le> unat n" "unat n < 2 ^ Suc k"
proof (cases "is_power_of_2 n")
  case True
  then obtain k where "unat n = 2 ^ k" using is_power_of_2_iff assms by blast
  with True show ?thesis by (intro that [of k]) (simp_all add: buddy_floor_def)
next
  case False
  have n0: "0 < unat n" using assms by (simp add: word_less_nat_alt)
  obtain k where k: "2 ^ k \<le> unat n" "unat n < 2 ^ Suc k"
    using ex_power_ivl1 [of 2 "unat n"] n0 by auto
  have "(2::nat) ^ k < 2 ^ 31" using k assms by linarith
  then have k31: "k < 31" by (metis power_less_imp_less_exp one_less_numeral_iff semiring_norm(76))
  have u: "unat (ucast n :: u32) = unat n"
    using assms by (simp add: take_bit_nat_eq_self unsigned_ucast_eq)
  have "unat (fixsize (ucast n)) = 2 ^ Suc k"
    using k k31 u by (intro fixsize_pow2) simp_all
  then have "unat (drop_bit 1 (fixsize (ucast n))) = 2 ^ k"
    by (simp only: drop_bit_eq_div unat_div) simp
  moreover have "(2::nat) ^ k < 2 ^ 64"
    using k31 by (intro power_strict_increasing) simp_all
  ultimately have "unat (buddy_floor n) = 2 ^ k"
    using False k31 by (simp add: buddy_floor_def unsigned_ucast_eq take_bit_nat_eq_self)
  then show ?thesis using that [of k] k by simp
qed

lemma buddy_init_memmap_ok:
  assumes n: "1 < unat n" "unat n < 2 ^ 31"
    and res: "\<forall>i < unat (buddy_floor n). PageReserved (bt_pages s (base + i))"
  shows "\<exists>s' K. buddy_init_memmap base n s = Some s' \<and> bt_base s' = base \<and> buddy_wf s' K BFree \<and>
    2 ^ (K - 1) \<le> unat n \<and> unat n < 2 ^ K"
proof -
  have n0: "0 < n" using n by (auto simp: word_less_nat_alt)
  obtain k where k: "unat (buddy_floor n) = 2 ^ k" "2 ^ k \<le> unat n" "unat n < 2 ^ Suc k"
    using buddy_floor_greatest [OF n0 n(2)] by blast
  have "0 < k" using k n by (cases k) auto
  have "(2::nat) ^ k < 2 ^ 31" using k n by linarith
  then have k31: "k < 63" using power_less_imp_less_exp [of "2 :: nat" k 31] by simp
  obtain pg where pg: "bt_init_pages base (2 ^ k) (bt_pages s) = Some pg"
    using bt_init_pages_ok res k by metis
  define s' where "s' = s\<lparr>bt_base := base, total_size := 2 ^ k, bt_pages := pg,
     bt_nodes := init_nodes (2 ^ Suc k - 1) 0 (Suc k) (bt_nodes s)\<rparr>"
  have "buddy_init_memmap base n s = Some s'"
    using n0 pg k(1) unfolding s'_def buddy_init_memmap_def buddy_floor_def
    by (simp add: Let_def)
  moreover have "buddy_wf s' (Suc k) BFree"
    using init_nodes_full [OF k31, of "bt_nodes s"] \<open>0 < k\<close> by (simp add: buddy_wf_def s'_def)
  ultimately show ?thesis using k by (intro exI [of _ s'] exI [of _ "Suc k"]) (simp add: s'_def)
qed

text \<open>A request for the whole area is not checked against the root: it succeeds in every state.\<close>

lemma buddy_alloc_whole:
  assumes "buddy_wf s K t" "0 < n" "unat (buddy_round n) = total_size s"
  shows "\<exists>s'. buddy_alloc_pages n s = Some (Some (bt_base s), s') \<and>
    (t = BFree \<longrightarrow> bt_alloc K K 0 t = Some (BUsed, 0) \<and> buddy_wf s' K BUsed)"
proof -
  let ?nd = "(bt_nodes s)(0 := \<lparr>left_max = 0, right_max = 0\<rparr>)"
  have d: "descend (bt_nodes s) K K 0 0 = (K, 0, 0)" by (simp add: descend.simps)
  have "buddy_alloc_pages n s = Some (Some (bt_base s), s\<lparr>bt_pages := (bt_pages s)(bt_base s := (bt_pages s (bt_base s))\<lparr>property := 2 ^ (K - 1)\<rparr>),
      bt_nodes := ?nd\<rparr>)"
    using assms d by (simp add: buddy_alloc_pages_def buddy_wf_def Let_def alloc_up_0)
  moreover have "rep ?nd 0 K BUsed \<and> bt_alloc K K 0 t = Some (BUsed, 0)" if "t = BFree"
  proof -
    have "full (bt_nodes s) 0 K" "0 < K" using assms(1) that by (simp_all add: buddy_wf_def)
    with that show ?thesis by (cases K) (simp_all add: full_upd_root bt_alloc.simps)
  qed
  ultimately show ?thesis using assms(1) by (auto simp: buddy_wf_def)
qed

subsection \<open>The buddy allocator as a manager\<close>

lemma frames_empty: "bt_wf k t \<Longrightarrow> maxfree k t = 0 \<Longrightarrow> frames k off t = {}"
proof (induction t arbitrary: k off)
  case (BSplit l r)
  then show ?case using BSplit.IH(1) [of "k - 1"] BSplit.IH(2) [of "k - 1"] by auto
qed auto

text \<open>The array determines the free frames, though not the tree (a used area and one whose two
  halves are used look alike).\<close>

lemma frames_unique:
  assumes "rep nd i k t" "rep nd i k u" "maxfree k t = maxfree k u"
  shows "frames k off t = frames k off u"
  using assms
proof (induction t arbitrary: i k u off)
  case BFree
  then have "u = BFree" using maxfree_full [OF rep_wf [OF BFree.prems(2)]] by simp
  then show ?case by simp
next
  case BUsed
  then show ?case using frames_empty [OF rep_wf [OF BUsed.prems(2)]] by simp
next
  case (BSplit l r)
  show ?case
  proof (cases u)
    case BFree
    then show ?thesis
      using BSplit.prems maxfree_full [OF rep_wf [OF BSplit.prems(1)]] by simp
  next
    case BUsed
    then show ?thesis using BSplit.prems frames_empty [OF rep_wf [OF BSplit.prems(1)]] by simp
  next
    case (BSplit l' r')
    then show ?thesis
      using BSplit.prems(1,2) BSplit.IH(1) [of "LEFT_LEAF i" "k - 1" l' off]
        BSplit.IH(2) [of "RIGHT_LEAF i" "k - 1" r' "off + 2 ^ (k - 2)"] by simp
  qed
qed

lemma maxfree_unique:
  assumes "rep nd i k t" "rep nd i k u" "1 < k"
  shows "maxfree k t = maxfree k u"
proof -
  have "maxfree k t = (if left_max (nd i) = k - 1 \<and> right_max (nd i) = k - 1 then k
      else max (left_max (nd i)) (right_max (nd i)))" if "rep nd i k t" for t
  proof (cases t)
    case BFree
    then show ?thesis using that assms(3) by (cases k) auto
  next
    case BUsed
    then show ?thesis using that assms(3) by simp
  next
    case (BSplit l r)
    then show ?thesis
      using that maxfree_full [of "k - 1" l] maxfree_full [of "k - 1" r] rep_wf [OF that] by auto
  qed
  with assms show ?thesis by metis
qed

definition buddy_ok :: "buddy \<Rightarrow> bool" where
  "buddy_ok s \<longleftrightarrow> (\<exists>K t. buddy_wf s K t)"

definition buddy_free_of :: "buddy \<Rightarrow> nat set" where
  "buddy_free_of s = {p. \<exists>K t. buddy_wf s K t \<and> bt_base s \<le> p \<and> p - bt_base s \<in> frames K 0 t}"

definition buddy_servable :: "nat \<Rightarrow> buddy \<Rightarrow> bool" where
  "buddy_servable n s \<longleftrightarrow> 0 < n \<and> n < 2 ^ 31 \<and> unat (buddy_round (of_nat n)) < total_size s"

definition buddy_returnable :: "nat \<Rightarrow> nat \<Rightarrow> buddy \<Rightarrow> bool" where
  "buddy_returnable b n s \<longleftrightarrow> 0 < n \<and> n < 2 ^ 31 \<and> bt_base s \<le> b \<and>
     (\<exists>K t j. buddy_wf s K t \<and> (b - bt_base s, j) \<in> used K 0 t \<and>
        unat (buddy_round (of_nat n)) = 2 ^ (j - 1) \<and> bt_in_use b (2 ^ (j - 1)) s)"

lemma buddy_free_of_eq:
  assumes "buddy_wf s K t"
  shows "buddy_free_of s = (\<lambda>p. bt_base s + p) ` frames K 0 t"
proof -
  have "frames K' 0 t' = frames K 0 t" if "buddy_wf s K' t'" for K' t'
  proof -
    have "(2::nat) ^ (K' - 1) = 2 ^ (K - 1)" using that assms by (simp add: buddy_wf_def)
    then have "K' - 1 = K - 1" by simp
    then have "K' = K" using that assms by (auto simp: buddy_wf_def)
    then show ?thesis
      using that assms frames_unique [of "bt_nodes s" 0 K t' t 0] maxfree_unique [of "bt_nodes s" 0 K t' t]
      by (simp add: buddy_wf_def)
  qed
  then have "buddy_free_of s = {p. bt_base s \<le> p \<and> p - bt_base s \<in> frames K 0 t}"
    using assms unfolding buddy_free_of_def by blast
  also have "\<dots> = (\<lambda>p. bt_base s + p) ` frames K 0 t"
  proof (intro set_eqI iffI)
    fix p assume "p \<in> {p. bt_base s \<le> p \<and> p - bt_base s \<in> frames K 0 t}"
    then show "p \<in> (\<lambda>p. bt_base s + p) ` frames K 0 t"
      by (intro image_eqI [of _ _ "p - bt_base s"]) auto
  qed auto
  finally show ?thesis .
qed

lemma image_shift_ivl: "(\<lambda>p. c + p) ` {b ..< b + k} = {c + b ..< c + b + k}" for b c k :: nat
  by (simp add: ac_simps)

lemma image_shift_diff: "(\<lambda>p. c + p) ` (A - B) = (\<lambda>p. c + p) ` A - (\<lambda>p. c + p) ` B" for c :: nat
  by (rule image_set_diff) simp

lemma of_nat_pos: "0 < n \<Longrightarrow> n < 2 ^ 31 \<Longrightarrow> (0 :: u64) < of_nat n \<and> unat (of_nat n :: u64) = n"
  by (simp add: word_less_nat_alt unsigned_of_nat take_bit_nat_eq_self)

lemma buddy_servable_class:
  assumes wf: "buddy_wf s K t" and sv: "buddy_servable n s"
  obtains j where "unat (buddy_round (of_nat n)) = 2 ^ (j - 1)" "0 < j" "j < K" "n \<le> 2 ^ (j - 1)"
proof -
  have n: "0 < n" "n < 2 ^ 31" using sv by (simp_all add: buddy_servable_def)
  obtain k where k: "unat (buddy_round (of_nat n)) = 2 ^ k" "n \<le> 2 ^ k"
    using buddy_round_least [of "of_nat n"] of_nat_pos [OF n] n by metis
  have "(2::nat) ^ k < 2 ^ (K - 1)" using k sv wf by (simp add: buddy_servable_def buddy_wf_def)
  then have "k < K - 1" by (metis power_less_imp_less_exp one_less_numeral_iff semiring_norm(76))
  then show ?thesis using k that [of "Suc k"] by simp
qed

lemma buddy_alloc_total: "buddy_alloc_pages n s = Some (r, s') \<Longrightarrow> total_size s' = total_size s"
  by (auto simp: buddy_alloc_pages_def Option.bind_eq_Some_conv Let_def split: if_splits prod.splits)

lemma buddy_alloc_None: "buddy_alloc_pages n s = Some (None, s') \<Longrightarrow> s' = s"
  by (auto simp: buddy_alloc_pages_def Option.bind_eq_Some_conv Let_def split: if_splits prod.splits)

interpretation bd: pmm_manager "\<lambda>n. buddy_alloc_pages (of_nat n)" "\<lambda>b n. buddy_free_pages (Some b) (of_nat n)"
  buddy_ok buddy_free_of "\<lambda>n. unat (buddy_round (of_nat n))" buddy_servable buddy_returnable
proof unfold_locales
  fix n s assume "buddy_servable n s"
  then have "0 < n" "n < 2 ^ 31" by (simp_all add: buddy_servable_def)
  then show "n \<le> unat (buddy_round (of_nat n))"
    using buddy_round_least [of "of_nat n"] of_nat_pos by metis
next
  fix s :: buddy and n :: nat assume "buddy_ok s" "0 < n" and sv: "buddy_servable n s"
  then obtain K t where wf: "buddy_wf s K t" by (auto simp: buddy_ok_def)
  obtain j where j: "unat (buddy_round (of_nat n)) = 2 ^ (j - 1)" "0 < j" "j < K"
    using buddy_servable_class [OF wf sv] by blast
  have "(0 :: u64) < of_nat n" using sv of_nat_pos by (simp add: buddy_servable_def)
  from buddy_alloc_ok [OF wf this j] wf
  show "\<exists>r s'. buddy_alloc_pages (of_nat n) s = Some (r, s') \<and> buddy_ok s'"
    unfolding buddy_ok_def by (metis (no_types))
next
  fix s s' :: buddy and n :: nat assume "buddy_alloc_pages (of_nat n) s = Some (None, s')"
  then show "s' = s" by (rule buddy_alloc_None)
next
  fix s s' :: buddy and n b :: nat
  assume "buddy_ok s" and sv: "buddy_servable n s" and al: "buddy_alloc_pages (of_nat n) s = Some (Some b, s')"
  then obtain K t where wf: "buddy_wf s K t" by (auto simp: buddy_ok_def)
  obtain j where j: "unat (buddy_round (of_nat n)) = 2 ^ (j - 1)" "0 < j" "j < K"
    using buddy_servable_class [OF wf sv] by blast
  have "(0 :: u64) < of_nat n" using sv of_nat_pos by (simp add: buddy_servable_def)
  from buddy_alloc_ok [OF wf this j] al obtain t' c where c: "j \<le> maxfree K t"
    "bt_alloc j K 0 t = Some (t', c)" "b = bt_base s + c" "buddy_wf s' K t'" "bt_base s' = bt_base s"
    by (auto split: if_splits)
  from bt_alloc_Some [of K t j 0] c j wf rep_wf [of "bt_nodes s" 0 K t]
  have "{c ..< c + 2 ^ (j - 1)} \<subseteq> frames K 0 t" "frames K 0 t' = frames K 0 t - {c ..< c + 2 ^ (j - 1)}"
    by (auto simp: buddy_wf_def)
  then show "{b ..< b + unat (buddy_round (of_nat n))} \<subseteq> buddy_free_of s \<and>
      buddy_free_of s' = buddy_free_of s - {b ..< b + unat (buddy_round (of_nat n))}"
    unfolding buddy_free_of_eq [OF wf] buddy_free_of_eq [OF c(4)] c(3,5) j(1)
    using image_shift_ivl [of "bt_base s" c "2 ^ (j - 1)"] image_shift_diff image_mono by metis
next
  fix s s' :: buddy and m n :: nat and r
  assume "buddy_servable n s" "buddy_alloc_pages (of_nat m) s = Some (r, s')"
  then show "buddy_servable n s'" using buddy_alloc_total by (simp add: buddy_servable_def)
next
  fix s :: buddy and b n :: nat assume "buddy_ok s" and rt: "buddy_returnable b n s"
  then obtain K t j where w: "buddy_wf s K t" "(b - bt_base s, j) \<in> used K 0 t"
    "unat (buddy_round (of_nat n)) = 2 ^ (j - 1)" "bt_in_use b (2 ^ (j - 1)) s" "bt_base s \<le> b" "0 < n" "n < 2 ^ 31"
    by (auto simp: buddy_returnable_def)
  have "(0 :: u64) < of_nat n" using w of_nat_pos by simp
  from buddy_free_ok [OF w(1) this w(3,2,4)] obtain s' where s': "buddy_free_pages (Some b) (of_nat n) s = Some s'"
    "bt_base s' = bt_base s" "buddy_wf s' K (bt_free j K 0 (b - bt_base s) t)" by blast
  have bw: "bt_wf K t" using w(1) rep_wf by (auto simp: buddy_wf_def)
  have "buddy_free_of s' = buddy_free_of s \<union> {b ..< b + 2 ^ (j - 1)}"
    unfolding buddy_free_of_eq [OF w(1)] buddy_free_of_eq [OF s'(3)] s'(2)
    using bt_free_ok [OF bw w(2)] image_shift_ivl [of "bt_base s" "b - bt_base s" "2 ^ (j - 1)"] w(5)
    by (simp add: image_Un)
  with s' show "\<exists>s'. buddy_free_pages (Some b) (of_nat n) s = Some s' \<and> buddy_ok s' \<and>
      buddy_free_of s' = buddy_free_of s \<union> {b ..< b + unat (buddy_round (of_nat n))}"
    using w(3) by (auto simp: buddy_ok_def)
qed

end
