(* ===== verification/Pmm_Theorems.thy ===== *)
theory Pmm_Theorems
  imports Pmm_Check Buddy
begin

text \<open>
  The properties of the page-frame allocators (labcode/lab8/kern/mm/default_pmm.c,
  labcode/lab2/kern/mm/best_fit_pmm.c, labcode/lab2/kern/mm/buddy_pmm.c), each with an instance on
  a small memory: ten reserved frames, initialised by \<open>default_init_memmap\<close>, or sixteen for the
  buddy system.
\<close>

subsection \<open>A small memory\<close>

definition raw_page :: page where
  "raw_page = \<lparr>pref = 0, flags = 1, property = 0\<rparr>"

definition raw_pmm :: pmm where
  "raw_pmm = default_init \<lparr>pages = (\<lambda>_. raw_page),
     flinks = \<lparr>lnext = (\<lambda>_. FreeList), lprev = (\<lambda>_. FreeList)\<rparr>, nr_free = 0\<rparr>"

definition demo_full :: pmm where
  "demo_full = the (default_init_memmap 0 10 raw_pmm)"

definition demo_part :: pmm where
  "demo_part = take_block 3 0 demo_full"

definition demo_tail :: pmm where
  "demo_tail = the (default_free_pages 0 3 (take_block 7 3 demo_part))"

lemma raw_pmm_wf: "pmm_wf raw_pmm []"
  by (simp add: raw_pmm_def pmm_wf_def default_init_def raw_page_def PageProperty_def PG_property_def
      dll_def list_init_def set_next_def set_prev_def)

lemma default_init_memmap_wf:
  assumes wf: "pmm_wf s bs" and fit: "fits b n bs" and nt: "not_tail b bs"
    and res: "\<forall>i < n. PageReserved (pages s (b + i)) \<and> \<not> PageProperty (pages s (b + i))"
  shows "\<exists>s' xs ys. bs = xs @ ys \<and> default_init_memmap b n s = Some s' \<and> pmm_wf s' (xs @ (b, n) # ys)"
proof -
  obtain xs ys where x: "bs = xs @ ys" "blocks_ok (xs @ (b, n) # ys)" "xs @ ys = [] \<or> ys \<noteq> []"
    using fits_position [OF pmm_wfD(2) [OF wf] fit] nt by blast
  obtain t where t: "init_pages b n s = Some t" "pmm_wf t bs"
    using init_pages_wf [OF wf res] by blast
  obtain u where "link_block b (mark_block b n t) = Some u" "pmm_wf u (xs @ (b, n) # ys)"
    using link_block_wf [of t xs ys "(b, n)"] t x by auto
  moreover have "0 < n" using fit by (simp add: fits_def)
  ultimately show ?thesis using t x(1) by (simp add: default_init_memmap_def) blast
qed

lemma demo_full_wf: "pmm_wf demo_full [(0, 10)]"
proof -
  have "\<forall>i < 10. PageReserved (pages raw_pmm (0 + i)) \<and> \<not> PageProperty (pages raw_pmm (0 + i))"
    by (simp add: raw_pmm_def default_init_def raw_page_def PageProperty_def PageReserved_def
        PG_property_def PG_reserved_def)
  from default_init_memmap_wf [OF raw_pmm_wf _ _ this]
  show ?thesis by (auto simp: demo_full_def fits_def not_tail_def)
qed

lemma demo_part_wf: "pmm_wf demo_part [(3, 7)]"
  using default_alloc_refines [OF demo_full_wf, of 3] by (simp add: demo_part_def)

lemma demo_rest_wf: "pmm_wf (take_block 7 3 demo_part) []"
  using default_alloc_refines [OF demo_part_wf, of 7] by simp

lemma demo_tail_wf: "pmm_wf demo_tail [(0, 3)]"
proof -
  have "in_use 0 3 (take_block 7 3 demo_part)" by code_simp
  then obtain s' where "default_free_pages 0 3 (take_block 7 3 demo_part) = Some s'"
    "pmm_wf s' (ff_free 0 3 [])"
    using default_free_refines [OF demo_rest_wf, of 0 3] by (auto simp: fits_def not_tail_def)
  then show ?thesis by (simp add: demo_tail_def)
qed

subsection \<open>First fit\<close>

text \<open>C8: On a well-formed free list, \<^verbatim>\<open>default_alloc_pages(n)\<close> for a positive n always returns; it
  hands out the first block of the list that is large enough (\<open>ff_alloc\<close>), leaving its rest in the
  list at the same place, keeps the whole invariant (links both ways, sizes, flags, address order,
  free count), and returns no block and an unchanged state exactly when no block is large enough.\<close>

theorem first_fit_alloc:
  assumes "pmm_wf s bs" and "0 < n"
  shows "case ff_alloc n bs of
      None \<Rightarrow> default_alloc_pages n s = Some (None, s)
    | Some (b, bs') \<Rightarrow> \<exists>s'. default_alloc_pages n s = Some (Some b, s') \<and> pmm_wf s' bs' \<and>
        pmm_free_of s' = pmm_free_of s - {b ..< b + n} \<and> {b ..< b + n} \<subseteq> pmm_free_of s"
proof (cases "ff_alloc n bs")
  case None
  then show ?thesis using default_alloc_refines [OF assms] by simp
next
  case (Some r)
  obtain b bs' where r: "r = (b, bs')" by (cases r)
  with Some default_alloc_refines [OF assms]
  have al: "default_alloc_pages n s = Some (Some b, take_block n b s)" "pmm_wf (take_block n b s) bs'"
    by simp_all
  have ok: "pmm_ok s" using assms(1) by (auto simp: pmm_ok_def)
  show ?thesis using ff.alloc_some [OF ok TrueI al(1)] al r Some by simp
qed

lemma first_fit_alloc_witness:
  "\<exists>s'. default_alloc_pages 4 demo_part = Some (Some 3, s') \<and> pmm_wf s' [(7, 3)]"
  using first_fit_alloc [OF demo_part_wf, of 4] by auto

text \<open>C9: Giving back a block of in-use frames that overlaps no free block and lies in front of
  the last one (or into an empty list) returns, and leaves exactly the list in which the block is
  inserted at its address and merged with the neighbours it touches (\<open>ff_free\<close>): the invariant holds
  again and the free frames grow by exactly the block's.\<close>

theorem first_fit_free:
  assumes "pmm_wf s bs" and "fits b n bs" and "not_tail b bs" and "in_use b n s"
  shows "\<exists>s'. default_free_pages b n s = Some s' \<and> pmm_wf s' (ff_free b n bs) \<and>
    pmm_free_of s' = pmm_free_of s \<union> {b ..< b + n}"
proof -
  obtain s' where s': "default_free_pages b n s = Some s'" "pmm_wf s' (ff_free b n bs)"
    using default_free_refines [OF assms] .
  then show ?thesis
    using pmm_free_of_eq [OF s'(2)] pmm_free_of_eq [OF assms(1)]
    by (auto simp: free_set_ff_free block_pages_def)
qed

lemma first_fit_free_witness:
  "\<exists>s'. default_free_pages 0 3 demo_part = Some s' \<and> pmm_wf s' [(0, 10)]"
proof -
  have "in_use 0 3 demo_part" by code_simp
  with first_fit_free [OF demo_part_wf, of 0 3] show ?thesis by (auto simp: fits_def not_tail_def)
qed

text \<open>C10: Giving back a block behind the last free block breaks the list: the insertion loop has no
  \<^verbatim>\<open>break\<close> after the tail insertion, goes on from the entry it added and adds it to itself, so the
  block's backward link points to the block, and the state satisfies the invariant for no list of
  blocks at all.\<close>

theorem first_fit_free_tail_corrupts:
  assumes "pmm_wf s (xs @ [z])" and "blocks_ok (xs @ [z, (b, n)])" and "in_use b n s"
  shows "\<exists>s'. default_free_pages b n s = Some s' \<and> lprev (flinks s') (PageLink b) = PageLink b \<and>
    (\<nexists>bs. pmm_wf s' bs)"
  by (rule default_free_tail [OF assms]) (use self_prev_not_wf in blast)

lemma first_fit_free_tail_corrupts_witness:
  "\<exists>s'. default_free_pages 3 7 demo_tail = Some s' \<and> (\<nexists>bs. pmm_wf s' bs)"
proof -
  have "in_use 3 7 demo_tail" by code_simp
  then show ?thesis
    using first_fit_free_tail_corrupts [of demo_tail "[]" "(0, 3)" 3 7] demo_tail_wf
    by (auto simp: before_def)
qed

text \<open>The consequence, on ten frames: after a release behind the last free block, two requests
  for two pages in a row are both answered with frame 1, although the first was never given back.\<close>

lemma first_fit_double_allocation:
  "do { s \<leftarrow> default_init_memmap 0 10 raw_pmm;
        (p, s) \<leftarrow> default_alloc_pages 1 s;
        (q, s) \<leftarrow> default_alloc_pages 3 s;
        (r, s) \<leftarrow> default_alloc_pages 6 s;
        s \<leftarrow> default_free_pages 0 1 s;
        s \<leftarrow> default_free_pages 1 3 s;
        (x, s) \<leftarrow> default_alloc_pages 2 s;
        (y, s) \<leftarrow> default_alloc_pages 2 s;
        Some [p, q, r, x, y] } = Some [Some 0, Some 1, Some 4, Some 1, Some 1]"
  by code_simp

text \<open>The self tests the kernel runs at boot pass on sixteen free frames: \<^verbatim>\<open>default_check\<close> on the first-fit
  manager and \<^verbatim>\<open>best_fit_check\<close> on the best-fit manager, including \<^verbatim>\<open>basic_check\<close>, and leave one free block
  of all sixteen frames.\<close>

lemma self_tests_pass:
  "map_option (\<lambda>s. (nr_free s, count_blocks FreeList s True))
     (do { s \<leftarrow> default_init_memmap 0 16 raw_pmm; default_check 0x80000 0x88000 s }) = Some (16, Some (1, 16)) \<and>
   map_option (\<lambda>s. (nr_free s, count_blocks FreeList s True))
     (do { s \<leftarrow> best_fit_init_memmap 0 16 raw_pmm; best_fit_check 0x80000 0x88000 s }) = Some (16, Some (1, 16))"
  by (rule conjI; code_simp)

subsection \<open>Best fit\<close>

text \<open>On a well-formed free list \<^verbatim>\<open>best_fit_alloc_pages(n)\<close> always returns; it takes the n pages
  from a block such that no block that is large enough is smaller, the first one of that size,
  keeps the invariant, and gives no block exactly when every block is too small.\<close>

lemma best_fit_alloc:
  assumes "pmm_wf s bs" and "0 < n"
  shows "(best_fit_alloc_pages n s = Some (None, s) \<and> list_all (\<lambda>x. snd x < n) bs) \<or>
    (\<exists>xs x ys s'. bs = xs @ x # ys \<and> best_at n xs x ys \<and>
      best_fit_alloc_pages n s = Some (Some (fst x), s') \<and> pmm_wf s' (xs @ rest_of n x @ ys))"
  using best_fit_alloc_cases [OF assms] unfolding list_all_iff by blast

lemma best_fit_alloc_witness:
  "\<exists>s'. best_fit_alloc_pages 2 demo_part = Some (Some 3, s') \<and> pmm_wf s' [(5, 5)]"
  using best_fit_alloc [OF demo_part_wf, of 2] by (auto simp: Cons_eq_append_conv)

text \<open>A client that takes several blocks in turn from the first-fit manager gets pairwise
  disjoint blocks, all of them free before and none free afterwards.\<close>

lemma alloc_sequence_disjoint:
  assumes "pmm_ok s" and "list_all (\<lambda>n. 0 < n) ns" and "alloc_seq default_alloc_pages ns s = Some (bs, s')"
  shows "pmm_ok s' \<and> sorted_wrt (\<lambda>x y. block_pages x \<inter> block_pages y = {}) bs \<and>
    free_set bs \<subseteq> pmm_free_of s \<and> free_set bs \<inter> pmm_free_of s' = {}"
  using ff.alloc_seq_disjoint [OF assms(1) _ assms(3)] assms(2) by (auto simp: list_all_iff)

lemma alloc_sequence_disjoint_witness:
  "\<exists>s'. alloc_seq default_alloc_pages [1, 2, 3] demo_full = Some ([(0, 1), (1, 2), (3, 3)], s') \<and> pmm_ok s'"
proof -
  have "map_option fst (alloc_seq default_alloc_pages [1, 2, 3] demo_full) = Some [(0, 1), (1, 2), (3, 3)]"
    by code_simp
  then obtain s' where s': "alloc_seq default_alloc_pages [1, 2, 3] demo_full = Some ([(0, 1), (1, 2), (3, 3)], s')"
    by auto
  moreover have "pmm_ok demo_full" using demo_full_wf by (auto simp: pmm_ok_def)
  ultimately show ?thesis using alloc_sequence_disjoint [of demo_full "[1, 2, 3]"] by auto
qed

subsection \<open>The buddy system\<close>

definition raw_buddy :: buddy where
  "raw_buddy = buddy_init \<lparr>bt_base = 0, total_size = 0,
     bt_nodes = (\<lambda>_. \<lparr>left_max = 0, right_max = 0\<rparr>), bt_pages = (\<lambda>_. raw_page)\<rparr>"

definition demo_buddy :: buddy where
  "demo_buddy = the (buddy_init_memmap 100 20 raw_buddy)"

lemma five_bits:
  assumes "2 ^ (K - 1) \<le> (20::nat)" "20 < (2::nat) ^ K"
  shows "K = 5"
proof -
  have "(2::nat) ^ (K - 1) < 2 ^ 5" "(2::nat) ^ 4 < 2 ^ K" using assms by simp_all
  then have "K - 1 < 5" "4 < K"
    using power_less_imp_less_exp [of "2::nat" "K - 1" 5] power_less_imp_less_exp [of "2::nat" 4 K] by simp_all
  then show ?thesis by simp
qed

text \<open>\<^verbatim>\<open>buddy_init_memmap\<close> on n reserved pages (more than one, fewer than 2 to the 31) returns with
  one free area of the largest power of two pages not above n; the node array holds it.\<close>

lemma buddy_init_one_area:
  assumes "1 < unat n" and "unat n < 2 ^ 31"
    and "list_all (\<lambda>p. PageReserved (bt_pages s p)) [base ..< base + unat n]"
  shows "\<exists>s' K. buddy_init_memmap base n s = Some s' \<and> bt_base s' = base \<and> buddy_wf s' K BFree \<and>
    2 ^ (K - 1) \<le> unat n \<and> unat n < 2 ^ K"
proof -
  have n0: "0 < n" using assms(1) by (auto simp: word_less_nat_alt)
  obtain k where "unat (buddy_floor n) = 2 ^ k" "2 ^ k \<le> unat n"
    using buddy_floor_greatest [OF n0 assms(2)] by blast
  then have "\<forall>i < unat (buddy_floor n). PageReserved (bt_pages s (base + i))"
    using assms(3) by (auto simp: list_all_iff)
  with assms(1,2) show ?thesis by (rule buddy_init_memmap_ok)
qed

lemma buddy_init_one_area_witness: "buddy_wf demo_buddy 5 BFree \<and> bt_base demo_buddy = 100"
proof -
  have "1 < unat (20 :: u64)" "unat (20 :: u64) < 2 ^ 31" by simp_all
  moreover have "list_all (\<lambda>p. PageReserved (bt_pages raw_buddy p)) [100 ..< 100 + unat (20 :: u64)]"
    by code_simp
  ultimately obtain s' K where s': "buddy_init_memmap 100 20 raw_buddy = Some s'" "bt_base s' = 100"
    "buddy_wf s' K BFree" "2 ^ (K - 1) \<le> unat (20 :: u64)" "unat (20 :: u64) < 2 ^ K"
    using buddy_init_one_area [of 20 raw_buddy 100] by blast
  have "K = 5" using five_bits [of K] s'(4,5) by simp
  with s' show ?thesis by (simp add: demo_buddy_def)
qed

lemma demo_buddy_wf: "buddy_wf demo_buddy 5 BFree" "bt_base demo_buddy = 100" "total_size demo_buddy = 16"
proof -
  have res: "\<forall>i < unat (buddy_floor 20). PageReserved (bt_pages raw_buddy (100 + i))"
    by (simp add: raw_buddy_def buddy_init_def raw_page_def PageReserved_def PG_reserved_def)
  obtain s' K where s': "buddy_init_memmap 100 20 raw_buddy = Some s'" "bt_base s' = 100"
    "buddy_wf s' K BFree" "2 ^ (K - 1) \<le> unat (20 :: u64)" "unat (20 :: u64) < 2 ^ K"
    using buddy_init_memmap_ok [OF _ _ res] by auto
  have "K = 5" using five_bits [of K] s'(4,5) by simp
  with s' show "buddy_wf demo_buddy 5 BFree" "bt_base demo_buddy = 100" "total_size demo_buddy = 16"
    by (simp_all add: demo_buddy_def buddy_wf_def)
qed



text \<open>C12: Giving back a used area whose frames carry no flag returns, makes exactly that area free and
  merges it with its buddy, and the merged area with its own, as long as both halves are free: the
  array holds the tree the abstract release gives.\<close>

theorem buddy_free_refines:
  assumes "buddy_wf s K t" and "0 < n" and "unat (buddy_round n) = 2 ^ (j - 1)"
    and "(b - bt_base s, j) \<in> used K 0 t" and "bt_in_use b (2 ^ (j - 1)) s"
  shows "\<exists>s' t'. buddy_free_pages (Some b) n s = Some s' \<and> buddy_wf s' K t' \<and>
    t' = bt_free j K 0 (b - bt_base s) t \<and>
    frames K 0 t' = frames K 0 t \<union> {b - bt_base s ..< b - bt_base s + 2 ^ (j - 1)} \<and>
    used K 0 t' = used K 0 t - {(b - bt_base s, j)}"
proof -
  have "bt_wf K t" using assms(1) rep_wf by (auto simp: buddy_wf_def)
  from bt_free_ok [OF this assms(4)] buddy_free_ok [OF assms] show ?thesis by blast
qed

definition demo_buddy_used :: buddy where
  "demo_buddy_used = snd (the (buddy_alloc_pages 3 demo_buddy))"

lemma buddy_free_refines_witness:
  "\<exists>s'. buddy_free_pages (Some 112) 3 demo_buddy_used = Some s' \<and> buddy_wf s' 5 BFree"
proof -
  have b: "bt_alloc 3 5 0 BFree = Some (BSplit BFree (BSplit BFree BUsed), 12)" by code_simp
  have r: "unat (buddy_round 3) = 2 ^ (3 - 1)" by code_simp
  have w: "buddy_wf demo_buddy_used 5 (BSplit BFree (BSplit BFree BUsed))" "bt_base demo_buddy_used = 100"
    using buddy_alloc_ok [OF demo_buddy_wf(1) _ r] b demo_buddy_wf(2) by (auto simp: demo_buddy_used_def)
  have u: "bt_in_use 112 (2 ^ (3 - 1)) demo_buddy_used" by code_simp
  have f: "bt_free 3 5 0 12 (BSplit BFree (BSplit BFree BUsed)) = BFree" by code_simp
  show ?thesis using buddy_free_refines [OF w(1) _ r, of 112] w(2) u f by auto
qed

text \<open>A request for a whole pool is never checked against the root of the tree: it is answered
  with the pool's first frame in every state, however much of the pool is in use.\<close>

lemma buddy_whole_pool_unchecked:
  assumes "buddy_wf s K t" and "0 < n" and "unat (buddy_round n) = total_size s"
  shows "\<exists>s'. buddy_alloc_pages n s = Some (Some (bt_base s), s')"
  using buddy_alloc_whole [OF assms] by blast

lemma buddy_whole_pool_unchecked_witness:
  "\<exists>s'. buddy_alloc_pages 16 demo_buddy_used = Some (Some 100, s')"
proof -
  have b: "bt_alloc 3 5 0 BFree = Some (BSplit BFree (BSplit BFree BUsed), 12)" by code_simp
  have r: "unat (buddy_round 3) = 2 ^ (3 - 1)" "unat (buddy_round 16) = 16" by code_simp+
  have w: "buddy_wf demo_buddy_used 5 (BSplit BFree (BSplit BFree BUsed))" "bt_base demo_buddy_used = 100"
    using buddy_alloc_ok [OF demo_buddy_wf(1) _ r(1)] b demo_buddy_wf(2) by (auto simp: demo_buddy_used_def)
  from buddy_whole_pool_unchecked [OF w(1), of 16] r(2) w show ?thesis by (simp add: buddy_wf_def)
qed

text \<open>For a positive request below 2 to the 31, the rounding of the buddy allocator
  (\<^verbatim>\<open>IS_POWER_OF_2\<close> and the bit smearing of \<^verbatim>\<open>fixsize\<close> on 32-bit words) is the least power of two that
  is not smaller than the request.\<close>

lemma buddy_round_is_least_power:
  assumes "0 < n" and "unat n < 2 ^ 31"
  shows "\<exists>k. unat (buddy_round n) = 2 ^ k \<and> unat n \<le> 2 ^ k \<and> 2 ^ k < 2 * unat n"
  using buddy_round_least [OF assms] by blast

lemma buddy_round_is_least_power_witness:
  "\<exists>k. unat (buddy_round 1000) = 2 ^ k \<and> (1000::nat) \<le> 2 ^ k \<and> (2::nat) ^ k < 2000"
  using buddy_round_is_least_power [of 1000] by auto

end
