(* ===== verification/Skewheap.thy ===== *)
theory Skewheap
  imports Prelude "HOL-Library.Tree_Multiset"
begin

text \<open>
  libs/skew_heap.h: the mergeable heap the priority schedulers keep their run pool in.  The nodes
  are embedded in their owners, so the operations work on a store of parent, left and right
  pointers; a null pointer is \<open>None\<close>.  \<open>hrep\<close> says that a pointer is the root of a tree in the
  store, with the parent pointers of all nodes below the root; the operations are shown to
  implement \<open>smerge\<close>, \<open>sremove\<close> on trees, which keep the nodes and the heap order.
\<close>

subsection \<open>The operations on the store\<close>

record 'a skew =
  hparent :: "'a \<Rightarrow> 'a option"
  hleft :: "'a \<Rightarrow> 'a option"
  hright :: "'a \<Rightarrow> 'a option"

definition skew_heap_init :: "'a \<Rightarrow> 'a skew \<Rightarrow> 'a skew" where
  "skew_heap_init a h = h\<lparr>hparent := (hparent h)(a := None), hleft := (hleft h)(a := None),
     hright := (hright h)(a := None)\<rparr>"

definition set_parent :: "'a option \<Rightarrow> 'a option \<Rightarrow> 'a skew \<Rightarrow> 'a skew" where
  "set_parent l p h = (case l of None \<Rightarrow> h | Some x \<Rightarrow> h\<lparr>hparent := (hparent h)(x := p)\<rparr>)"

partial_function (option) skew_heap_merge ::
  "'a option \<Rightarrow> 'a option \<Rightarrow> ('a \<Rightarrow> 'a \<Rightarrow> int) \<Rightarrow> 'a skew \<Rightarrow> ('a option \<times> 'a skew) option"
where
  "skew_heap_merge a b cmp h = (case a of
     None \<Rightarrow> Some (b, h)
   | Some x \<Rightarrow> (case b of
       None \<Rightarrow> Some (a, h)
     | Some y \<Rightarrow>
         if cmp x y = - 1 then do {
           let r = hleft h x;
           (l, h1) \<leftarrow> skew_heap_merge (hright h x) b cmp h;
           let h2 = h1\<lparr>hleft := (hleft h1)(x := l), hright := (hright h1)(x := r)\<rparr>;
           Some (a, set_parent l a h2) }
         else do {
           let r = hleft h y;
           (l, h1) \<leftarrow> skew_heap_merge a (hright h y) cmp h;
           let h2 = h1\<lparr>hleft := (hleft h1)(y := l), hright := (hright h1)(y := r)\<rparr>;
           Some (b, set_parent l b h2) }))"

declare skew_heap_merge.simps [code]

definition skew_heap_insert ::
  "'a option \<Rightarrow> 'a \<Rightarrow> ('a \<Rightarrow> 'a \<Rightarrow> int) \<Rightarrow> 'a skew \<Rightarrow> ('a option \<times> 'a skew) option" where
  "skew_heap_insert a b cmp h = skew_heap_merge a (Some b) cmp (skew_heap_init b h)"

definition skew_heap_remove ::
  "'a option \<Rightarrow> 'a \<Rightarrow> ('a \<Rightarrow> 'a \<Rightarrow> int) \<Rightarrow> 'a skew \<Rightarrow> ('a option \<times> 'a skew) option" where
  "skew_heap_remove a b cmp h = do {
     let p = hparent h b;
     (rep, h1) \<leftarrow> skew_heap_merge (hleft h b) (hright h b) cmp h;
     let h2 = set_parent rep p h1;
     (case p of
        None \<Rightarrow> Some (rep, h2)
      | Some q \<Rightarrow>
          Some (a, if hleft h2 q = Some b then h2\<lparr>hleft := (hleft h2)(q := rep)\<rparr>
                   else h2\<lparr>hright := (hright h2)(q := rep)\<rparr>)) }"

subsection \<open>Trees\<close>

fun smerge :: "('a \<Rightarrow> 'a \<Rightarrow> bool) \<Rightarrow> 'a tree \<Rightarrow> 'a tree \<Rightarrow> 'a tree" where
  "smerge lt Leaf u = u"
| "smerge lt t Leaf = t"
| "smerge lt (Node l1 a r1) (Node l2 b r2) =
     (if lt a b then Node (smerge lt r1 (Node l2 b r2)) a l1
      else Node (smerge lt (Node l1 a r1) r2) b l2)"

fun sremove :: "('a \<Rightarrow> 'a \<Rightarrow> bool) \<Rightarrow> 'a \<Rightarrow> 'a tree \<Rightarrow> 'a tree" where
  "sremove lt b Leaf = Leaf"
| "sremove lt b (Node l x r) =
     (if x = b then smerge lt l r
      else if b \<in> set_tree l then Node (sremove lt b l) x r
      else Node l x (sremove lt b r))"

definition root_of :: "'a tree \<Rightarrow> 'a option" where
  "root_of t = (case t of Leaf \<Rightarrow> None | Node l x r \<Rightarrow> Some x)"

lemma root_of_simps [simp]: "root_of Leaf = None" "root_of (Node l x r) = Some x"
  by (simp_all add: root_of_def)

lemma root_of_in: "root_of t = Some x \<Longrightarrow> x \<in> set_tree t"
  by (cases t) auto

lemma smerge_Leaf2 [simp]: "smerge lt t Leaf = t"
  by (cases t) auto

lemma mset_smerge [simp]: "mset_tree (smerge lt t u) = mset_tree t + mset_tree u"
  by (induction lt t u rule: smerge.induct) auto

lemma set_smerge [simp]: "set_tree (smerge lt t u) = set_tree t \<union> set_tree u"
  by (metis mset_smerge set_mset_tree set_mset_union)

text \<open>Distinct nodes.\<close>

fun dist :: "'a tree \<Rightarrow> bool" where
  "dist Leaf \<longleftrightarrow> True"
| "dist (Node l x r) \<longleftrightarrow>
     dist l \<and> dist r \<and> x \<notin> set_tree l \<and> x \<notin> set_tree r \<and> set_tree l \<inter> set_tree r = {}"

lemma dist_smerge [simp]:
  "dist (smerge lt t u) \<longleftrightarrow> dist t \<and> dist u \<and> set_tree t \<inter> set_tree u = {}"
  by (induction lt t u rule: smerge.induct) auto

lemma set_sremove: "dist t \<Longrightarrow> set_tree (sremove lt b t) = set_tree t - {b}"
  by (induction t) auto

lemma dist_sremove: "dist t \<Longrightarrow> dist (sremove lt b t)"
  by (induction t) (auto simp: set_sremove)

subsection \<open>Heap order\<close>

text \<open>Order by a key: no node below another has a smaller key.\<close>

fun heap_by :: "('a \<Rightarrow> nat) \<Rightarrow> 'a tree \<Rightarrow> bool" where
  "heap_by f Leaf \<longleftrightarrow> True"
| "heap_by f (Node l x r) \<longleftrightarrow> heap_by f l \<and> heap_by f r \<and> (\<forall>y \<in> set_tree l \<union> set_tree r. f x \<le> f y)"

lemma heap_by_root: "heap_by f t \<Longrightarrow> root_of t = Some x \<Longrightarrow> y \<in> set_tree t \<Longrightarrow> f x \<le> f y"
  by (cases t) auto

lemma heap_by_const: "\<forall>x y. f x \<le> f y \<Longrightarrow> heap_by f t"
  by (induction t) auto

lemma heap_by_smerge:
  assumes "heap_by f t" "heap_by f u"
    and "\<forall>x \<in> set_tree t \<union> set_tree u. \<forall>y \<in> set_tree t \<union> set_tree u. lt x y \<longleftrightarrow> f x < f y"
  shows "heap_by f (smerge lt t u)"
  using assms
proof (induction lt t u rule: smerge.induct)
  case (3 lt l1 a r1 l2 b r2)
  note h1 = 3(3) and h2 = 3(4) and key = 3(5)
  show ?case
  proof (cases "lt a b")
    case True
    then have "f a \<le> f b" using key by simp
    moreover have "heap_by f (smerge lt r1 (Node l2 b r2))"
      using h1 by (intro 3(1) [OF True _ h2]) (simp, intro ballI, rule key [rule_format], auto)
    ultimately show ?thesis using True h1 h2 by (auto intro: order.trans [of "f a" "f b"])
  next
    case False
    then have "f b \<le> f a" using key by simp
    moreover have "heap_by f (smerge lt (Node l1 a r1) r2)"
      using h2 by (intro 3(2) [OF False h1]) (simp, intro ballI, rule key [rule_format], auto)
    ultimately show ?thesis using False h1 h2 by (auto intro: order.trans [of "f b" "f a"])
  qed
qed auto

lemma heap_by_sremove:
  assumes "heap_by f t" "dist t" and "\<forall>x \<in> set_tree t - {b}. \<forall>y \<in> set_tree t - {b}. lt x y \<longleftrightarrow> f x < f y"
  shows "heap_by f (sremove lt b t)"
  using assms
proof (induction t)
  case (Node l x r)
  show ?case
  proof (cases "x = b")
    case True
    then show ?thesis using Node.prems by (auto intro!: heap_by_smerge)
  next
    case False
    then show ?thesis using Node by (auto simp: set_sremove)
  qed
qed simp

subsection \<open>Trees in the store\<close>

definition kid :: "'a skew \<Rightarrow> 'a \<Rightarrow> 'a option \<Rightarrow> bool" where
  "kid h x c \<longleftrightarrow> (\<forall>y. c = Some y \<longrightarrow> hparent h y = Some x)"

fun hrep :: "'a skew \<Rightarrow> 'a option \<Rightarrow> 'a tree \<Rightarrow> bool" where
  "hrep h p Leaf \<longleftrightarrow> p = None"
| "hrep h p (Node l x r) \<longleftrightarrow> p = Some x \<and> hrep h (hleft h x) l \<and> hrep h (hright h x) r \<and>
     kid h x (hleft h x) \<and> kid h x (hright h x)"

lemma hrep_root: "hrep h p t \<Longrightarrow> root_of t = p"
  by (cases t) auto

lemma kid_None [simp]: "kid h x None"
  by (simp add: kid_def)

definition agree :: "'a set \<Rightarrow> 'a skew \<Rightarrow> 'a skew \<Rightarrow> bool" where
  "agree A h h' \<longleftrightarrow> (\<forall>x \<in> A. hparent h' x = hparent h x \<and> hleft h' x = hleft h x \<and> hright h' x = hright h x)"

text \<open>A tree is kept by changes outside it and to the parent pointer of its root.\<close>

lemma hrep_cong:
  assumes "hrep h p t" "dist t"
    and "\<forall>x \<in> set_tree t. hleft h' x = hleft h x \<and> hright h' x = hright h x"
    and "\<forall>x \<in> set_tree t. Some x \<noteq> p \<longrightarrow> hparent h' x = hparent h x"
  shows "hrep h' p t"
  using assms
proof (induction t arbitrary: p)
  case (Node l x r)
  have c: "kid h' x q" if "kid h x q" "q = root_of t" "t = l \<or> t = r" for q t
  proof -
    have "hparent h' y = Some x" if "q = Some y" for y
    proof -
      have "y \<in> set_tree t" using that \<open>q = root_of t\<close> root_of_in by metis
      then have "y \<in> set_tree (Node l x r)" "Some y \<noteq> p" using \<open>t = l \<or> t = r\<close> Node.prems by auto
      then show ?thesis using Node.prems(4) \<open>kid h x q\<close> that by (auto simp: kid_def)
    qed
    then show ?thesis by (simp add: kid_def)
  qed
  have p: "p = Some x" "hleft h' x = hleft h x" "hright h' x = hright h x" using Node.prems by auto
  have "hrep h' (hleft h x) l" by (rule Node.IH(1)) (use Node.prems in auto)
  moreover have "hrep h' (hright h x) r" by (rule Node.IH(2)) (use Node.prems in auto)
  ultimately show ?case
    using p c [OF _ hrep_root [symmetric], of "hleft h x" h l] c [OF _ hrep_root [symmetric], of "hright h x" h r]
      Node.prems(1) by simp
qed simp

lemma hrep_agree: "hrep h p t \<Longrightarrow> dist t \<Longrightarrow> agree (set_tree t) h h' \<Longrightarrow> hrep h' p t"
  by (rule hrep_cong) (auto simp: agree_def)

text \<open>The end of a merge step: the merged tree \<open>m\<close> becomes the left child, the old left child
  \<open>l1\<close> the right one.\<close>

definition hang :: "'a \<Rightarrow> 'a option \<Rightarrow> 'a option \<Rightarrow> 'a skew \<Rightarrow> 'a skew" where
  "hang x l r h = set_parent l (Some x) (h\<lparr>hleft := (hleft h)(x := l), hright := (hright h)(x := r)\<rparr>)"

lemma hang_simps [simp]:
  "hleft (hang x l r h) y = (if y = x then l else hleft h y)"
  "hright (hang x l r h) y = (if y = x then r else hright h y)"
  "hparent (hang x l r h) y = (if l = Some y then Some x else hparent h y)"
  by (auto simp: hang_def set_parent_def split: option.splits)

lemma hang_hrep:
  assumes "hrep h1 (root_of m) m" "dist (Node m x l1)" "hrep h p l1" "kid h x p"
    and "agree (insert x (set_tree l1)) h h1"
  shows "hrep (hang x (root_of m) p h1) (Some x) (Node m x l1)"
proof -
  let ?h = "hang x (root_of m) p h1"
  have nr: "root_of m \<noteq> Some y" if "y \<in> insert x (set_tree l1)" for y
    using assms(2) that root_of_in by fastforce
  have "hrep ?h (root_of m) m"
    by (rule hrep_cong [OF assms(1)]) (use assms(2) in auto)
  moreover have "hrep ?h p l1"
    using assms(2,5) nr by (intro hrep_agree [OF assms(3)]) (auto simp: agree_def)
  moreover have "kid ?h x p"
  proof -
    have "hparent ?h y = Some x" if "p = Some y" for y
    proof -
      have "y \<in> set_tree l1" using that assms(3) hrep_root root_of_in by metis
      then show ?thesis using nr [of y] assms(4,5) that by (simp add: agree_def kid_def)
    qed
    then show ?thesis by (simp add: kid_def)
  qed
  moreover have "kid ?h x (root_of m)" by (simp add: kid_def)
  ultimately show ?thesis by simp
qed

lemma skew_heap_merge_step:
  "skew_heap_merge (Some x) (Some y) cmp h =
     (if cmp x y = - 1
      then map_option (\<lambda>(l, h1). (Some x, hang x l (hleft h x) h1)) (skew_heap_merge (hright h x) (Some y) cmp h)
      else map_option (\<lambda>(l, h1). (Some y, hang y l (hleft h y) h1)) (skew_heap_merge (Some x) (hright h y) cmp h))"
  by (subst skew_heap_merge.simps)
    (auto simp: hang_def Let_def Option.bind_map_option split: option.splits split: Option.bind_splits)

lemma skew_heap_merge_None [simp]:
  "skew_heap_merge None b cmp h = Some (b, h)" "skew_heap_merge a None cmp h = Some (a, h)"
  by (simp_all add: skew_heap_merge.simps split: option.splits)

text \<open>Merging two disjoint trees always returns, with the merged tree; nothing outside the two
  changes, nor the parent pointer of the new root.\<close>

lemma skew_heap_merge_ok:
  assumes "hrep h a t" "hrep h b u" "dist t" "dist u" "set_tree t \<inter> set_tree u = {}"
  shows "\<exists>h'. skew_heap_merge a b cmp h = Some (root_of (smerge (\<lambda>x y. cmp x y = - 1) t u), h') \<and>
    hrep h' (root_of (smerge (\<lambda>x y. cmp x y = - 1) t u)) (smerge (\<lambda>x y. cmp x y = - 1) t u) \<and>
    agree (- (set_tree t \<union> set_tree u)) h h' \<and>
    (\<forall>x. root_of (smerge (\<lambda>x y. cmp x y = - 1) t u) = Some x \<longrightarrow> hparent h' x = hparent h x)"
  using assms
proof (induction "\<lambda>x y. cmp x y = - 1" t u arbitrary: a b h rule: smerge.induct)
  case (1 u)
  then show ?case using hrep_root by (auto simp: agree_def)
next
  case (2 l x r)
  then show ?case using hrep_root by (auto simp: agree_def)
next
  case (3 l1 x r1 l2 y r2)
  let ?lt = "\<lambda>x y. cmp x y = - 1"
  have ab: "a = Some x" "b = Some y" using 3(3,4) by simp_all
  show ?case
  proof (cases "cmp x y = - 1")
    case True
    let ?m = "smerge ?lt r1 (Node l2 y r2)"
    have "dist r1" "set_tree r1 \<inter> set_tree (Node l2 y r2) = {}" "hrep h (hright h x) r1" using 3 by auto
    with 3(1) [OF True _ 3(4) _ 3(6)] obtain h1 where h1:
      "skew_heap_merge (hright h x) b cmp h = Some (root_of ?m, h1)" "hrep h1 (root_of ?m) ?m"
      "agree (- (set_tree r1 \<union> set_tree (Node l2 y r2))) h h1" by blast
    have d: "dist (Node ?m x l1)" using 3 by auto
    have "agree (insert x (set_tree l1)) h h1" using h1(3) 3 by (auto simp: agree_def)
    with hang_hrep [OF h1(2) d, of h "hleft h x"] 3(3)
    have "hrep (hang x (root_of ?m) (hleft h x) h1) (Some x) (Node ?m x l1)" by simp
    moreover have "root_of ?m \<noteq> Some x" using d root_of_in by fastforce
    moreover have "agree (- (set_tree (Node l1 x r1) \<union> set_tree (Node l2 y r2))) h (hang x (root_of ?m) (hleft h x) h1)"
      using h1(3) root_of_in [of ?m] by (auto simp: agree_def)
    moreover have "hparent h1 x = hparent h x" using h1(3) 3(5,7) by (auto simp: agree_def)
    ultimately show ?thesis using True h1(1) ab by (simp add: skew_heap_merge_step)
  next
    case False
    let ?m = "smerge ?lt (Node l1 x r1) r2"
    have "dist r2" "set_tree (Node l1 x r1) \<inter> set_tree r2 = {}" "hrep h (hright h y) r2" using 3 by auto
    with 3(2) [OF False 3(3) _ 3(5)] obtain h1 where h1:
      "skew_heap_merge a (hright h y) cmp h = Some (root_of ?m, h1)" "hrep h1 (root_of ?m) ?m"
      "agree (- (set_tree (Node l1 x r1) \<union> set_tree r2)) h h1" by blast
    have d: "dist (Node ?m y l2)" using 3 by auto
    have "agree (insert y (set_tree l2)) h h1" using h1(3) 3 by (auto simp: agree_def)
    with hang_hrep [OF h1(2) d, of h "hleft h y"] 3(4)
    have "hrep (hang y (root_of ?m) (hleft h y) h1) (Some y) (Node ?m y l2)" by simp
    moreover have "root_of ?m \<noteq> Some y" using d root_of_in by fastforce
    moreover have "agree (- (set_tree (Node l1 x r1) \<union> set_tree (Node l2 y r2))) h (hang y (root_of ?m) (hleft h y) h1)"
      using h1(3) root_of_in [of ?m] by (auto simp: agree_def)
    moreover have "hparent h1 y = hparent h y" using h1(3) 3(6,7) by (auto simp: agree_def)
    ultimately show ?thesis using False h1(1) ab by (simp add: skew_heap_merge_step)
  qed
qed

subsection \<open>Insertion and removal\<close>

definition cmp_lt :: "('a \<Rightarrow> 'a \<Rightarrow> int) \<Rightarrow> 'a \<Rightarrow> 'a \<Rightarrow> bool" where
  "cmp_lt cmp x y \<longleftrightarrow> cmp x y = - 1"

lemma cmp_lt_eq: "(\<lambda>x y. cmp x y = - 1) = cmp_lt cmp"
  by (intro ext) (simp add: cmp_lt_def)

lemmas skew_heap_merge_tree = skew_heap_merge_ok [unfolded cmp_lt_eq]

text \<open>A whole heap: a tree in the store whose root has no parent.\<close>

definition heap_rep :: "'a skew \<Rightarrow> 'a option \<Rightarrow> 'a tree \<Rightarrow> bool" where
  "heap_rep h p t \<longleftrightarrow> hrep h p t \<and> dist t \<and> (\<forall>x. p = Some x \<longrightarrow> hparent h x = None)"

lemma heap_repD:
  assumes "heap_rep h p t"
  shows "hrep h p t" "dist t" "p = Some x \<Longrightarrow> hparent h x = None" "root_of t = p"
  using assms hrep_root by (auto simp: heap_rep_def)

lemma heap_rep_Leaf [simp]: "heap_rep h p Leaf \<longleftrightarrow> p = None"
  by (auto simp: heap_rep_def)

lemma heap_rep_agree:
  assumes "heap_rep h p t" "agree (set_tree t) h h'"
  shows "heap_rep h' p t"
proof -
  have "hparent h' x = None" if "p = Some x" for x
    using that heap_repD [OF assms(1)] root_of_in [of t x] assms(2) by (auto simp: agree_def)
  then show ?thesis using assms hrep_agree by (auto simp: heap_rep_def)
qed

lemma skew_heap_insert_ok:
  assumes h: "heap_rep h a t" and b: "b \<notin> set_tree t"
  shows "\<exists>p h'. skew_heap_insert a b cmp h = Some (p, h') \<and>
    heap_rep h' p (smerge (cmp_lt cmp) t (Node Leaf b Leaf)) \<and> agree (- insert b (set_tree t)) h h'"
proof -
  let ?h = "skew_heap_init b h" and ?m = "smerge (cmp_lt cmp) t (Node Leaf b Leaf)"
  have ag: "agree (- {b}) h ?h" by (simp add: agree_def skew_heap_init_def)
  have "agree (set_tree t) h ?h" using b by (auto simp: agree_def skew_heap_init_def)
  with h have t: "heap_rep ?h a t" by (rule heap_rep_agree)
  have u: "hrep ?h (Some b) (Node Leaf b Leaf)" by (simp add: skew_heap_init_def kid_def)
  have "dist (Node Leaf b Leaf)" "set_tree t \<inter> set_tree (Node Leaf b Leaf) = {}" using b by simp_all
  from skew_heap_merge_tree [OF heap_repD(1) [OF t] u heap_repD(2) [OF t] this, of cmp]
  obtain h' where h': "skew_heap_merge a (Some b) cmp ?h = Some (root_of ?m, h')" "hrep h' (root_of ?m) ?m"
    "agree (- (set_tree t \<union> set_tree (Node Leaf b Leaf))) ?h h'"
    "\<forall>x. root_of ?m = Some x \<longrightarrow> hparent h' x = hparent ?h x" by blast
  have "hparent ?h x = None" if "root_of ?m = Some x" for x
  proof -
    have "x = b \<or> root_of t = Some x" using that by (cases t) (auto split: if_splits)
    then show ?thesis using heap_repD(3,4) [OF t] by (auto simp: skew_heap_init_def)
  qed
  then have "heap_rep h' (root_of ?m) ?m" using h'(2,4) b heap_repD(2) [OF h] by (auto simp: heap_rep_def)
  moreover have "agree (- insert b (set_tree t)) h h'" using h'(3) ag by (auto simp: agree_def)
  ultimately show ?thesis using h'(1) by (auto simp: skew_heap_insert_def)
qed

lemma set_parent_simps [simp]:
  "hleft (set_parent l p h) = hleft h" "hright (set_parent l p h) = hright h"
  "hparent (set_parent l p h) y = (if l = Some y then p else hparent h y)"
  by (auto simp: set_parent_def split: option.splits)

lemma set_parent_hrep: "hrep h l t \<Longrightarrow> dist t \<Longrightarrow> hrep (set_parent l p h) l t"
  by (rule hrep_cong) auto

text \<open>The merge of the two subtrees of the removed node.\<close>

lemma remove_merge:
  assumes "hrep h (Some b) (Node l b r)" "dist (Node l b r)"
  obtains h1 h2 where "skew_heap_merge (hleft h b) (hright h b) cmp h = Some (root_of (smerge (cmp_lt cmp) l r), h1)"
    "set_parent (root_of (smerge (cmp_lt cmp) l r)) q h1 = h2"
    "hrep h2 (root_of (smerge (cmp_lt cmp) l r)) (smerge (cmp_lt cmp) l r)"
    "agree (- (set_tree l \<union> set_tree r)) h h2"
    "\<forall>y. root_of (smerge (cmp_lt cmp) l r) = Some y \<longrightarrow> hparent h2 y = q"
proof -
  let ?m = "smerge (cmp_lt cmp) l r"
  have "hrep h (hleft h b) l" "hrep h (hright h b) r" using assms(1) by simp_all
  from skew_heap_merge_tree [OF this, of cmp] assms(2) obtain h1 where h1:
    "skew_heap_merge (hleft h b) (hright h b) cmp h = Some (root_of ?m, h1)" "hrep h1 (root_of ?m) ?m"
    "agree (- (set_tree l \<union> set_tree r)) h h1" by auto
  have "dist ?m" using assms(2) by simp
  with h1(2) have "hrep (set_parent (root_of ?m) q h1) (root_of ?m) ?m" by (rule set_parent_hrep)
  moreover have "root_of ?m \<noteq> Some y" if "y \<notin> set_tree l \<union> set_tree r" for y
    using root_of_in [of ?m y] that by auto
  then have "agree (- (set_tree l \<union> set_tree r)) h (set_parent (root_of ?m) q h1)"
    using h1(3) by (auto simp: agree_def)
  ultimately show thesis using h1(1) that by simp
qed

lemma skew_heap_remove_result:
  assumes "hparent h b = Some q"
  shows "skew_heap_remove a b cmp h = map_option (\<lambda>(_, h'). (a, h')) (skew_heap_remove a' b cmp h)"
  using assms by (cases "skew_heap_merge (hleft h b) (hright h b) cmp h") (auto simp: skew_heap_remove_def Let_def)

lemma kid_agree:
  assumes "kid h x p" "hrep h p t" "agree (set_tree t) h h'"
  shows "kid h' x p"
proof -
  have "hparent h' y = Some x" if "p = Some y" for y
  proof -
    have "y \<in> set_tree t" using that assms(2) hrep_root root_of_in by metis
    then show ?thesis using assms(1,3) that by (simp add: kid_def agree_def)
  qed
  then show ?thesis by (simp add: kid_def)
qed

text \<open>Replacing one of the two subtrees of a node.\<close>

lemma replace_left:
  assumes "hrep h p (Node l x r)" "dist r" "hleft h' x = c" "hright h' x = hright h x"
    and "hrep h' c l'" "kid h' x c" "agree (set_tree r) h h'"
  shows "hrep h' p (Node l' x r)"
  using assms hrep_agree [of h "hright h x" r h'] kid_agree [of h x "hright h x" r h'] by simp

lemma replace_right:
  assumes "hrep h p (Node l x r)" "dist l" "hright h' x = c" "hleft h' x = hleft h x"
    and "hrep h' c r'" "kid h' x c" "agree (set_tree l) h h'"
  shows "hrep h' p (Node l x r')"
  using assms hrep_agree [of h "hleft h x" l h'] kid_agree [of h x "hleft h x" l h'] by simp

text \<open>Removing a child of \<open>x\<close>: its merged subtrees take its place.\<close>

lemma remove_child:
  assumes h: "hrep h (Some x) (Node l x r)" and d: "dist (Node l x r)"
    and b: "hleft h x = Some b \<or> hright h x = Some b"
  shows "hparent h b = Some x \<and> (\<exists>h'. skew_heap_remove (Some x) b cmp h = Some (Some x, h') \<and>
    hrep h' (Some x) (sremove (cmp_lt cmp) b (Node l x r)) \<and> agree (- set_tree (Node l x r)) h h' \<and>
    hparent h' x = hparent h x)"
proof -
  have hb: "hparent h b = Some x" using h b by (auto simp: kid_def)
  let ?t = "if hleft h x = Some b then l else r"
  have "hrep h (Some b) ?t" "dist ?t" "set_tree ?t \<subseteq> set_tree (Node l x r)" using h b d by auto
  then obtain l1 r1 where t: "?t = Node l1 b r1" by (cases ?t) auto
  let ?m = "smerge (cmp_lt cmp) l1 r1"
  have "hrep h (Some b) (Node l1 b r1)" "dist (Node l1 b r1)"
    using \<open>hrep h (Some b) ?t\<close> \<open>dist ?t\<close> t by simp_all
  from remove_merge [OF this, of cmp "Some x"] obtain h1 h2 where h2:
    "skew_heap_merge (hleft h b) (hright h b) cmp h = Some (root_of ?m, h1)"
    "set_parent (root_of ?m) (Some x) h1 = h2" "hrep h2 (root_of ?m) ?m"
    "agree (- (set_tree l1 \<union> set_tree r1)) h h2" "\<forall>y. root_of ?m = Some y \<longrightarrow> hparent h2 y = Some x" by blast
  have sub: "set_tree l1 \<union> set_tree r1 \<subseteq> set_tree ?t" using t by auto
  have xt: "x \<notin> set_tree ?t" using d by simp
  then have hx: "hleft h2 x = hleft h x" "hright h2 x = hright h x" "hparent h2 x = hparent h x"
    using h2(4) sub by (auto simp: agree_def)
  have m: "dist ?m" "x \<notin> set_tree ?m" using \<open>dist (Node l1 b r1)\<close> sub xt by auto
  show ?thesis
  proof (cases "hleft h x = Some b")
    case True
    define h3 where "h3 = h2\<lparr>hleft := (hleft h2)(x := root_of ?m)\<rparr>"
    have l: "l = Node l1 b r1" using t True by simp
    have "skew_heap_remove (Some x) b cmp h = Some (Some x, h3)"
      using h2(1,2) hb hx(1) True by (simp add: skew_heap_remove_def Let_def h3_def)
    moreover have "agree (- (insert x (set_tree l1 \<union> set_tree r1))) h h3"
      using h2(4) by (auto simp: agree_def h3_def)
    moreover have "hrep h3 (Some x) (Node ?m x r)"
    proof (rule replace_left [OF h])
      show "hrep h3 (root_of ?m) ?m" by (rule hrep_cong [OF h2(3)]) (use m in \<open>auto simp: h3_def\<close>)
      show "agree (set_tree r) h h3"
        using h2(4) d l by (simp add: agree_def h3_def) blast
    qed (use d hx h2(5) in \<open>auto simp: h3_def kid_def\<close>)
    ultimately show ?thesis using l d hb hx by (auto simp: h3_def agree_def)
  next
    case False
    define h3 where "h3 = h2\<lparr>hright := (hright h2)(x := root_of ?m)\<rparr>"
    have r: "r = Node l1 b r1" using t False by simp
    have "skew_heap_remove (Some x) b cmp h = Some (Some x, h3)"
      using h2(1,2) hb hx(1) False by (simp add: skew_heap_remove_def Let_def h3_def)
    moreover have "agree (- (insert x (set_tree l1 \<union> set_tree r1))) h h3"
      using h2(4) by (auto simp: agree_def h3_def)
    moreover have "hrep h3 (Some x) (Node l x ?m)"
    proof (rule replace_right [OF h])
      show "hrep h3 (root_of ?m) ?m" by (rule hrep_cong [OF h2(3)]) (use m in \<open>auto simp: h3_def\<close>)
      show "agree (set_tree l) h h3"
        using h2(4) d r by (simp add: agree_def h3_def) blast
    qed (use d hx h2(5) in \<open>auto simp: h3_def kid_def\<close>)
    ultimately show ?thesis using r d hb hx by (auto simp: h3_def agree_def)
  qed
qed

lemma skew_heap_remove_below:
  assumes "hrep h p t" "dist t" "b \<in> set_tree t" "p \<noteq> Some b"
  shows "\<exists>q h'. hparent h b = Some q \<and> skew_heap_remove p b cmp h = Some (p, h') \<and>
    hrep h' p (sremove (cmp_lt cmp) b t) \<and> agree (- set_tree t) h h' \<and>
    (\<forall>x. p = Some x \<longrightarrow> hparent h' x = hparent h x)"
  using assms
proof (induction t arbitrary: p)
  case (Node l x r)
  have p: "p = Some x" "x \<noteq> b" using Node.prems by auto
  let ?t = "if b \<in> set_tree l then l else r" and ?c = "if b \<in> set_tree l then hleft h x else hright h x"
  have bt: "b \<in> set_tree ?t" using Node.prems p by auto
  have ct: "hrep h ?c ?t" "kid h x ?c" "dist ?t" "x \<notin> set_tree ?t" using Node.prems by auto
  show ?case
  proof (cases "?c = Some b")
    case True
    then have "hleft h x = Some b \<or> hright h x = Some b" by (auto split: if_splits)
    with remove_child [of h x l r b cmp] Node.prems(1,2) p show ?thesis by blast
  next
    case False
    have "\<exists>q h'. hparent h b = Some q \<and> skew_heap_remove ?c b cmp h = Some (?c, h') \<and>
      hrep h' ?c (sremove (cmp_lt cmp) b ?t) \<and> agree (- set_tree ?t) h h' \<and>
      (\<forall>x. ?c = Some x \<longrightarrow> hparent h' x = hparent h x)"
      using Node.IH(1) [of "hleft h x"] Node.IH(2) [of "hright h x"] ct(1,3) bt False by (auto split: if_splits)
    then obtain q h' where h': "hparent h b = Some q" "skew_heap_remove ?c b cmp h = Some (?c, h')"
      "hrep h' ?c (sremove (cmp_lt cmp) b ?t)" "agree (- set_tree ?t) h h'"
      "\<forall>x. ?c = Some x \<longrightarrow> hparent h' x = hparent h x" by blast
    have rem: "skew_heap_remove p b cmp h = Some (p, h')"
      using skew_heap_remove_result [OF h'(1), of p cmp "?c"] h'(2) by simp
    have hx: "hleft h' x = hleft h x" "hright h' x = hright h x" "hparent h' x = hparent h x"
      using h'(4) ct(4) by (auto simp: agree_def)
    have k: "kid h' x ?c" using h'(5) ct(2) by (simp add: kid_def)
    have "hrep h' p (sremove (cmp_lt cmp) b (Node l x r))"
    proof (cases "b \<in> set_tree l")
      case True
      have "agree (set_tree r) h h'" using h'(4) True Node.prems(2) by (auto simp: agree_def)
      from replace_left [OF Node.prems(1) _ hx(1,2) _ _ this] h'(3) k True Node.prems(2) p
      show ?thesis by simp
    next
      case False
      have "agree (set_tree l) h h'" using h'(4) False Node.prems(2) by (auto simp: agree_def)
      from replace_right [OF Node.prems(1) _ hx(2,1) _ _ this] h'(3) k False Node.prems(2) p
      show ?thesis by simp
    qed
    moreover have "agree (- set_tree (Node l x r)) h h'" using h'(4) by (auto simp: agree_def split: if_splits)
    ultimately show ?thesis using h'(1) rem hx p by auto
  qed
qed simp

lemma skew_heap_remove_ok:
  assumes h: "heap_rep h a t" and b: "b \<in> set_tree t"
  shows "\<exists>p h'. skew_heap_remove a b cmp h = Some (p, h') \<and>
    heap_rep h' p (sremove (cmp_lt cmp) b t) \<and> agree (- set_tree t) h h'"
proof (cases "a = Some b")
  case False
  obtain x where "a = Some x" using b heap_repD(1) [OF h] by (cases t) auto
  with skew_heap_remove_below [OF heap_repD(1,2) [OF h] b False, of cmp] heap_repD(2,3) [OF h]
  show ?thesis by (auto simp: heap_rep_def dist_sremove)
next
  case True
  obtain l r where t: "t = Node l b r" using True heap_repD(1) [OF h] b by (cases t) auto
  have "hrep h (Some b) (Node l b r)" "dist (Node l b r)" using heap_repD(1,2) [OF h] True t by simp_all
  from remove_merge [OF this, of cmp None] obtain h1 h2 where h2:
    "skew_heap_merge (hleft h b) (hright h b) cmp h = Some (root_of (smerge (cmp_lt cmp) l r), h1)"
    "set_parent (root_of (smerge (cmp_lt cmp) l r)) None h1 = h2"
    "hrep h2 (root_of (smerge (cmp_lt cmp) l r)) (smerge (cmp_lt cmp) l r)"
    "agree (- (set_tree l \<union> set_tree r)) h h2"
    "\<forall>y. root_of (smerge (cmp_lt cmp) l r) = Some y \<longrightarrow> hparent h2 y = None" by blast
  have "hparent h b = None" using heap_repD(3) [OF h] True by simp
  with h2(1,2) have "skew_heap_remove a b cmp h = Some (root_of (smerge (cmp_lt cmp) l r), h2)"
    by (simp add: skew_heap_remove_def Let_def)
  moreover have "dist (smerge (cmp_lt cmp) l r)" using \<open>dist (Node l b r)\<close> by simp
  ultimately show ?thesis using h2(3-5) t by (auto simp: heap_rep_def agree_def)
qed

end
