(* ===== verification/Proc_State.thy ===== *)
theory Proc_State
  imports Klist Skewheap
begin

text \<open>
  The state shared by the scheduler, the timers and process management: \<^verbatim>\<open>struct proc_struct\<close>
  (kern/process/proc.h), \<^verbatim>\<open>struct run_queue\<close> and \<^verbatim>\<open>timer_t\<close> (kern/schedule/sched.h) and the static
  variables of sched.c, proc.c and rand.c.

  A process descriptor is named by a natural number (its address), null pointers are \<open>None\<close>.
  The embedded list nodes \<^verbatim>\<open>run_link\<close> of all descriptors and the head \<^verbatim>\<open>run_list\<close> of the run queue
  form one store of links; so do the \<^verbatim>\<open>timer_link\<close> nodes with \<^verbatim>\<open>timer_list\<close>.  There is one run
  queue, so \<^verbatim>\<open>proc->rq\<close> is a flag: set, or still null.  Saving and restoring the interrupt flag
  (\<^verbatim>\<open>local_intr_save\<close>) has no effect on this state.  Counters of descriptors (\<^verbatim>\<open>proc_num\<close>,
  \<^verbatim>\<open>nr_process\<close>) are bounded by the memory and are natural numbers; strides, priorities and wait
  states are 32-bit words.
\<close>

datatype proc_state = PROC_UNINIT | PROC_SLEEPING | PROC_RUNNABLE | PROC_ZOMBIE

datatype run_entry = RunList | RunLink nat
datatype timer_entry = TimerList | TimerLink nat

record proc_struct =
  state :: proc_state
  pid :: int
  runs :: int
  need_resched :: bool
  parent :: "nat option"
  flags :: u32
  exit_code :: int
  wait_state :: u32
  cptr :: "nat option"
  yptr :: "nat option"
  optr :: "nat option"
  has_rq :: bool
  time_slice :: int
  lab6_stride :: u32
  lab6_priority :: u32

record timer =
  expires :: u32
  tproc :: "nat option"

record kern =
  procs :: "nat \<Rightarrow> proc_struct"
  current :: nat
  idleproc :: nat
  initproc :: nat
  run_list :: "run_entry links"
  proc_num :: nat
  max_time_slice :: int
  lab6_run_pool :: "nat option"
  pool :: "nat skew"
  timers :: "nat \<Rightarrow> timer"
  timer_list :: "timer_entry links"
  rand_next :: u64

definition upd_proc :: "nat \<Rightarrow> (proc_struct \<Rightarrow> proc_struct) \<Rightarrow> kern \<Rightarrow> kern" where
  "upd_proc p f s = s\<lparr>procs := (procs s)(p := f (procs s p))\<rparr>"

lemma upd_proc_simps [simp]:
  "procs (upd_proc p f s) q = (if q = p then f (procs s p) else procs s q)"
  "current (upd_proc p f s) = current s"
  "idleproc (upd_proc p f s) = idleproc s"
  "initproc (upd_proc p f s) = initproc s"
  "run_list (upd_proc p f s) = run_list s"
  "proc_num (upd_proc p f s) = proc_num s"
  "max_time_slice (upd_proc p f s) = max_time_slice s"
  "lab6_run_pool (upd_proc p f s) = lab6_run_pool s"
  "pool (upd_proc p f s) = pool s"
  "timers (upd_proc p f s) = timers s"
  "timer_list (upd_proc p f s) = timer_list s"
  "rand_next (upd_proc p f s) = rand_next s"
  by (simp_all add: upd_proc_def)

subsection \<open>Constants (kern/process/proc.h, kern/schedule/sched.h)\<close>

definition MAX_TIME_SLICE :: int where "MAX_TIME_SLICE = 5"
definition PF_EXITING :: u32 where "PF_EXITING = 1"
definition WT_INTERRUPTED :: u32 where "WT_INTERRUPTED = 0x80000000"
definition WT_CHILD :: u32 where "WT_CHILD = or 1 WT_INTERRUPTED"
definition WT_KSEM :: u32 where "WT_KSEM = 0x100"
definition WT_TIMER :: u32 where "WT_TIMER = or 2 WT_INTERRUPTED"
definition WT_KBD :: u32 where "WT_KBD = or 4 WT_INTERRUPTED"

end
