(* ===== verification/Sched_Class.thy ===== *)
theory Sched_Class
  imports Proc_State
begin

text \<open>
  kern/schedule/sched.c (labcode/lab6 and labcode/lab8): the scheduler core, which reaches the
  scheduling policy only through \<^verbatim>\<open>struct sched_class\<close>.  The locale \<open>scheduling_class\<close> states what
  a policy promises (\<open>fresh\<close> is what it needs of the state before its
  initialisation); from it the core keeps the invariant that the run queue holds exactly the
  runnable processes other than the running one and the idle process, for every policy.
\<close>

record sched_class =
  sc_init :: "kern \<Rightarrow> kern"
  sc_enqueue :: "nat \<Rightarrow> kern \<Rightarrow> kern option"
  sc_dequeue :: "nat \<Rightarrow> kern \<Rightarrow> kern option"
  sc_pick_next :: "kern \<Rightarrow> (nat option \<times> kern) option"
  sc_proc_tick :: "nat \<Rightarrow> kern \<Rightarrow> kern"

subsection \<open>The core\<close>

definition sched_class_enqueue :: "sched_class \<Rightarrow> nat \<Rightarrow> kern \<Rightarrow> kern option" where
  "sched_class_enqueue cl p s = (if p \<noteq> idleproc s then sc_enqueue cl p s else Some s)"

definition sched_class_dequeue :: "sched_class \<Rightarrow> nat \<Rightarrow> kern \<Rightarrow> kern option" where
  "sched_class_dequeue cl p s = sc_dequeue cl p s"

definition sched_class_pick_next :: "sched_class \<Rightarrow> kern \<Rightarrow> (nat option \<times> kern) option" where
  "sched_class_pick_next cl s = sc_pick_next cl s"

definition sched_class_proc_tick :: "sched_class \<Rightarrow> nat \<Rightarrow> kern \<Rightarrow> kern" where
  "sched_class_proc_tick cl p s =
     (if p \<noteq> idleproc s then sc_proc_tick cl p s
      else upd_proc p (\<lambda>pr. pr\<lparr>need_resched := True\<rparr>) s)"

definition sched_init :: "sched_class \<Rightarrow> kern \<Rightarrow> kern" where
  "sched_init cl s = sc_init cl (s\<lparr>timer_list := list_init TimerList (timer_list s),
     max_time_slice := MAX_TIME_SLICE\<rparr>)"

definition wakeup_proc :: "sched_class \<Rightarrow> nat \<Rightarrow> kern \<Rightarrow> kern option" where
  "wakeup_proc cl p s = do {
     c_assert (state (procs s p) \<noteq> PROC_ZOMBIE);
     if state (procs s p) \<noteq> PROC_RUNNABLE then
       let s1 = upd_proc p (\<lambda>pr. pr\<lparr>state := PROC_RUNNABLE, wait_state := 0\<rparr>) s
       in if p \<noteq> current s1 then sched_class_enqueue cl p s1 else Some s1
     else Some s }"

text \<open>The part of \<^verbatim>\<open>proc_run\<close> on this state; the switch of page table and stack is assembly.\<close>

definition proc_run :: "nat \<Rightarrow> kern \<Rightarrow> kern" where
  "proc_run p s = (if p \<noteq> current s then s\<lparr>current := p\<rparr> else s)"

definition schedule :: "sched_class \<Rightarrow> kern \<Rightarrow> kern option" where
  "schedule cl s = do {
     let s1 = upd_proc (current s) (\<lambda>pr. pr\<lparr>need_resched := False\<rparr>) s;
     s2 \<leftarrow> (if state (procs s1 (current s1)) = PROC_RUNNABLE
           then sched_class_enqueue cl (current s1) s1 else Some s1);
     (nxt, s3) \<leftarrow> sched_class_pick_next cl s2;
     s4 \<leftarrow> (case nxt of Some p \<Rightarrow> sched_class_dequeue cl p s3 | None \<Rightarrow> Some s3);
     let p = (case nxt of Some p \<Rightarrow> p | None \<Rightarrow> idleproc s4);
     let s5 = upd_proc p (\<lambda>pr. pr\<lparr>runs := runs pr + 1\<rparr>) s4;
     Some (if p \<noteq> current s5 then proc_run p s5 else s5) }"

subsection \<open>The interface to a policy\<close>

text \<open>The part of the state a policy keeps its queue in, and the part the core relies on.\<close>

definition same_queue :: "kern \<Rightarrow> kern \<Rightarrow> bool" where
  "same_queue s s' \<longleftrightarrow> run_list s' = run_list s \<and> proc_num s' = proc_num s \<and>
     lab6_run_pool s' = lab6_run_pool s \<and> pool s' = pool s \<and>
     (\<forall>p. has_rq (procs s' p) = has_rq (procs s p))"

definition same_core :: "kern \<Rightarrow> kern \<Rightarrow> bool" where
  "same_core s s' \<longleftrightarrow> current s' = current s \<and> idleproc s' = idleproc s \<and>
     timers s' = timers s \<and> timer_list s' = timer_list s \<and>
     (\<forall>p. state (procs s' p) = state (procs s p) \<and> wait_state (procs s' p) = wait_state (procs s p))"

lemma same_core_refl [simp]: "same_core s s"
  by (simp add: same_core_def)

lemma same_core_trans: "same_core s t \<Longrightarrow> same_core t u \<Longrightarrow> same_core s u"
  by (simp add: same_core_def)

locale scheduling_class =
  fixes cl :: sched_class
    and ok :: "kern \<Rightarrow> bool"
    and queued :: "kern \<Rightarrow> nat set"
    and fresh :: "kern \<Rightarrow> bool"
  assumes frame: "ok s \<Longrightarrow> same_queue s s' \<Longrightarrow> ok s' \<and> queued s' = queued s"
    and init_empty: "fresh s \<Longrightarrow> ok (sc_init cl s) \<and> queued (sc_init cl s) = {} \<and> same_core s (sc_init cl s)"
    and enqueue: "ok s \<Longrightarrow> p \<notin> queued s \<Longrightarrow>
      \<exists>s'. sc_enqueue cl p s = Some s' \<and> ok s' \<and> queued s' = insert p (queued s) \<and> same_core s s'"
    and dequeue: "ok s \<Longrightarrow> p \<in> queued s \<Longrightarrow>
      \<exists>s'. sc_dequeue cl p s = Some s' \<and> ok s' \<and> queued s' = queued s - {p} \<and> same_core s s'"
    and pick: "ok s \<Longrightarrow> \<exists>r s'. sc_pick_next cl s = Some (r, s') \<and> ok s' \<and> queued s' = queued s \<and>
      same_core s s' \<and> (case r of None \<Rightarrow> queued s = {} | Some p \<Rightarrow> p \<in> queued s)"
    and tick: "ok s \<Longrightarrow> ok (sc_proc_tick cl p s) \<and> queued (sc_proc_tick cl p s) = queued s \<and>
      same_core s (sc_proc_tick cl p s)"

text \<open>The invariant of the core, and its transitions as the rest of the kernel drives them: a
  wakeup, a call of the scheduler, a timer tick, and the running process going to sleep or
  exiting (\<^verbatim>\<open>do_sleep\<close>, \<^verbatim>\<open>down\<close>, \<^verbatim>\<open>do_wait\<close>, \<^verbatim>\<open>do_exit\<close> set its state and then call \<^verbatim>\<open>schedule\<close>).\<close>

definition runnables :: "kern \<Rightarrow> nat set" where
  "runnables s = {p. state (procs s p) = PROC_RUNNABLE \<and> p \<noteq> current s \<and> p \<noteq> idleproc s}"

definition sched_inv :: "(kern \<Rightarrow> bool) \<Rightarrow> (kern \<Rightarrow> nat set) \<Rightarrow> kern \<Rightarrow> bool" where
  "sched_inv ok queued s \<longleftrightarrow> ok s \<and> queued s = runnables s"

inductive sched_step :: "sched_class \<Rightarrow> kern \<Rightarrow> kern \<Rightarrow> bool" for cl where
  wake: "wakeup_proc cl p s = Some s' \<Longrightarrow> sched_step cl s s'"
| resched: "schedule cl s = Some s' \<Longrightarrow> sched_step cl s s'"
| tick: "sched_step cl s (sched_class_proc_tick cl (current s) s)"
| block: "st \<noteq> PROC_RUNNABLE \<Longrightarrow>
    sched_step cl s (upd_proc (current s) (\<lambda>pr. pr\<lparr>state := st, wait_state := w\<rparr>) s)"

inductive_cases sched_stepE: "sched_step cl s s'"

context scheduling_class begin

lemma inv_frame:
  assumes "sched_inv ok queued s" "same_queue s s'" "same_core s s'"
  shows "sched_inv ok queued s'"
  using assms frame [of s s'] by (auto simp: sched_inv_def same_core_def runnables_def)

lemma wakeup_inv:
  assumes inv: "sched_inv ok queued s" and p: "state (procs s p) \<noteq> PROC_ZOMBIE"
  shows "\<exists>s'. wakeup_proc cl p s = Some s' \<and> sched_inv ok queued s' \<and>
    state (procs s' p) = PROC_RUNNABLE \<and> current s' = current s \<and>
    timers s' = timers s \<and> timer_list s' = timer_list s \<and>
    (\<forall>q. q \<noteq> p \<longrightarrow> state (procs s' q) = state (procs s q) \<and> wait_state (procs s' q) = wait_state (procs s q)) \<and>
    idleproc s' = idleproc s \<and> (\<forall>q. wait_state (procs s' q) \<in> {0, wait_state (procs s q)})"
proof (cases "state (procs s p) = PROC_RUNNABLE")
  case True
  then show ?thesis using inv by (simp add: wakeup_proc_def)
next
  case False
  let ?s1 = "upd_proc p (\<lambda>pr. pr\<lparr>state := PROC_RUNNABLE, wait_state := 0\<rparr>) s"
  have q: "ok ?s1" "queued ?s1 = queued s" using frame [of s ?s1] inv by (simp_all add: same_queue_def sched_inv_def)
  show ?thesis
  proof (cases "p = current s \<or> p = idleproc s")
    case True
    then have "runnables ?s1 = runnables s" by (auto simp: runnables_def)
    then have "sched_inv ok queued ?s1" using q inv by (simp add: sched_inv_def)
    moreover have "wakeup_proc cl p s = Some ?s1"
      using True False p by (auto simp: wakeup_proc_def sched_class_enqueue_def Let_def)
    ultimately show ?thesis by simp
  next
    case n: False
    then have "runnables ?s1 = insert p (runnables s)" by (auto simp: runnables_def)
    moreover have "p \<notin> queued ?s1" using q inv False by (simp add: sched_inv_def runnables_def)
    with enqueue [OF q(1)] obtain s' where s': "sc_enqueue cl p ?s1 = Some s'" "ok s'"
      "queued s' = insert p (queued ?s1)" "same_core ?s1 s'" by blast
    moreover have "wakeup_proc cl p s = Some s'"
      using n False p s'(1) by (auto simp: wakeup_proc_def sched_class_enqueue_def Let_def)
    moreover have "runnables s' = runnables ?s1" using s'(4) by (simp add: runnables_def same_core_def)
    ultimately show ?thesis using q inv by (auto simp: sched_inv_def same_core_def)
  qed
qed

lemma tick_inv:
  assumes "sched_inv ok queued s"
  shows "sched_inv ok queued (sched_class_proc_tick cl p s)"
proof (cases "p = idleproc s")
  case True
  then show ?thesis using assms
    by (intro inv_frame [OF assms]) (auto simp: sched_class_proc_tick_def same_queue_def same_core_def)
next
  case False
  have "ok s" using assms by (simp add: sched_inv_def)
  from tick [OF this, of p] assms False show ?thesis
    by (simp add: sched_class_proc_tick_def sched_inv_def runnables_def same_core_def)
qed

text \<open>The scheduler always returns; it runs a runnable process unless there is none, and then the
  idle process; no runnable process is lost.\<close>

lemma schedule_inv:
  assumes inv: "sched_inv ok queued s"
  shows "\<exists>s'. schedule cl s = Some s' \<and> sched_inv ok queued s' \<and>
    (\<forall>p. state (procs s' p) = state (procs s p) \<and> wait_state (procs s' p) = wait_state (procs s p)) \<and>
    idleproc s' = idleproc s \<and>
    (if runnables s = {} \<and> (state (procs s (current s)) \<noteq> PROC_RUNNABLE \<or> current s = idleproc s)
     then current s' = idleproc s
     else state (procs s (current s')) = PROC_RUNNABLE \<and> current s' \<noteq> idleproc s)"
proof -
  let ?s1 = "upd_proc (current s) (\<lambda>pr. pr\<lparr>need_resched := False\<rparr>) s"
  let ?ready = "{p. state (procs s p) = PROC_RUNNABLE \<and> p \<noteq> idleproc s \<and> (p = current s \<or> p \<in> runnables s)}"
  have i1: "sched_inv ok queued ?s1"
    by (rule inv_frame [OF inv]) (auto simp: same_queue_def same_core_def)
  have c1: "same_core s ?s1" by (simp add: same_core_def)
  have "\<exists>s2. (if state (procs ?s1 (current ?s1)) = PROC_RUNNABLE
      then sched_class_enqueue cl (current ?s1) ?s1 else Some ?s1) = Some s2 \<and> ok s2 \<and>
      queued s2 = ?ready \<and> same_core s s2"
  proof (cases "state (procs s (current s)) = PROC_RUNNABLE \<and> current s \<noteq> idleproc s")
    case True
    have "ok ?s1" "queued ?s1 = runnables s" using i1 by (auto simp: sched_inv_def runnables_def)
    moreover have "current s \<notin> runnables s" by (simp add: runnables_def)
    ultimately obtain s2 where "sc_enqueue cl (current s) ?s1 = Some s2" "ok s2"
      "queued s2 = insert (current s) (runnables s)" "same_core ?s1 s2" using enqueue [of ?s1 "current s"] by auto
    moreover have "insert (current s) (runnables s) = ?ready" using True by (auto simp: runnables_def)
    ultimately show ?thesis using True same_core_trans [OF c1] by (simp add: sched_class_enqueue_def)
  next
    case False
    have "queued ?s1 = ?ready" using i1 False by (auto simp: sched_inv_def runnables_def)
    then show ?thesis using False i1 c1 by (auto simp: sched_class_enqueue_def sched_inv_def)
  qed
  then obtain s2 where s2: "(if state (procs ?s1 (current ?s1)) = PROC_RUNNABLE
      then sched_class_enqueue cl (current ?s1) ?s1 else Some ?s1) = Some s2" "ok s2"
      "queued s2 = ?ready" "same_core s s2" by blast
  obtain r s3 where s3: "sc_pick_next cl s2 = Some (r, s3)" "ok s3" "queued s3 = ?ready" "same_core s2 s3"
    "case r of None \<Rightarrow> ?ready = {} | Some p \<Rightarrow> p \<in> ?ready" using pick [OF s2(2)] unfolding s2(3) by blast
  have "\<exists>s4. (case r of Some p \<Rightarrow> sched_class_dequeue cl p s3 | None \<Rightarrow> Some s3) = Some s4 \<and> ok s4 \<and>
     queued s4 = ?ready - set_option r \<and> same_core s s4"
  proof (cases r)
    case None
    then show ?thesis using s3 same_core_trans [OF s2(4) s3(4)] by auto
  next
    case (Some p)
    then obtain s4 where "sc_dequeue cl p s3 = Some s4" "ok s4" "queued s4 = ?ready - {p}" "same_core s3 s4"
      using dequeue [OF s3(2), of p] s3(3,5) by auto
    then show ?thesis using Some same_core_trans [OF same_core_trans [OF s2(4) s3(4)]]
      by (auto simp: sched_class_dequeue_def)
  qed
  then obtain s4 where s4: "(case r of Some p \<Rightarrow> sched_class_dequeue cl p s3 | None \<Rightarrow> Some s3) = Some s4"
    "ok s4" "queued s4 = ?ready - set_option r" "same_core s s4" by blast
  let ?p = "case r of Some p \<Rightarrow> p | None \<Rightarrow> idleproc s4"
  let ?s5 = "upd_proc ?p (\<lambda>pr. pr\<lparr>runs := runs pr + 1\<rparr>) s4"
  let ?s6 = "if ?p \<noteq> current ?s5 then proc_run ?p ?s5 else ?s5"
  have r: "schedule cl s = Some ?s6"
    using s2(1) s3(1) s4(1) by (simp add: schedule_def sched_class_pick_next_def Let_def)
  have c6: "current ?s6 = ?p" "idleproc ?s6 = idleproc s" "\<forall>p. state (procs ?s6 p) = state (procs s p) \<and> wait_state (procs ?s6 p) = wait_state (procs s p)"
    using s4(4) by (auto simp: proc_run_def same_core_def)
  have "same_queue s4 ?s6" by (auto simp: same_queue_def proc_run_def)
  with frame [OF s4(2)] have q6: "ok ?s6" "queued ?s6 = ?ready - set_option r" using s4(3) by blast+
  have "runnables ?s6 = ?ready - set_option r"
    using c6 s4(4) s3(5) by (cases r) (auto simp: runnables_def same_core_def)
  with q6 have "sched_inv ok queued ?s6" by (simp add: sched_inv_def)
  moreover have "if runnables s = {} \<and> (state (procs s (current s)) \<noteq> PROC_RUNNABLE \<or> current s = idleproc s)
     then ?p = idleproc s else state (procs s ?p) = PROC_RUNNABLE \<and> ?p \<noteq> idleproc s"
    using s3(5) s4(4) by (cases r) (auto simp: runnables_def same_core_def)
  ultimately show ?thesis using r c6 by auto
qed

lemma step_inv:
  assumes "sched_step cl s s'" "sched_inv ok queued s"
  shows "sched_inv ok queued s'"
  using assms
proof (cases rule: sched_step.cases)
  case (wake p)
  then have "state (procs s p) \<noteq> PROC_ZOMBIE" by (auto simp: wakeup_proc_def Option.bind_eq_Some_conv)
  with wakeup_inv [OF assms(2)] wake show ?thesis by fastforce
next
  case resched
  with schedule_inv [OF assms(2)] show ?thesis by auto
next
  case tick
  then show ?thesis using tick_inv [OF assms(2)] by simp
next
  case (block st w)
  have "ok s'" "queued s' = queued s"
    using frame [of s s'] assms(2) block by (simp_all add: same_queue_def sched_inv_def)
  moreover have "runnables s' = runnables s" using block by (auto simp: runnables_def)
  ultimately show ?thesis using assms(2) by (simp add: sched_inv_def)
qed

lemma reachable_inv:
  assumes "(sched_step cl)\<^sup>*\<^sup>* s s'" "sched_inv ok queued s"
  shows "sched_inv ok queued s'"
  using assms by (induction rule: rtranclp_induct) (auto intro: step_inv)

lemma init_inv:
  assumes "runnables s = {}" and "fresh (s\<lparr>timer_list := list_init TimerList (timer_list s),
     max_time_slice := MAX_TIME_SLICE\<rparr>)"
  shows "sched_inv ok queued (sched_init cl s)"
proof -
  let ?s = "s\<lparr>timer_list := list_init TimerList (timer_list s), max_time_slice := MAX_TIME_SLICE\<rparr>"
  have "runnables (sc_init cl ?s) = runnables s"
    using init_empty [OF assms(2)] by (simp add: runnables_def same_core_def)
  then show ?thesis using init_empty [OF assms(2)] assms(1) by (simp add: sched_init_def sched_inv_def)
qed

end

end
