(* ===== verification/Sched_RR.thy ===== *)
theory Sched_RR
  imports Sched_Class
begin

text \<open>
  kern/schedule/default_sched.c: the round-robin policy.  The run queue is the circular list
  through the \<^verbatim>\<open>run_link\<close> nodes; \<open>rr_wf s xs\<close> says that it holds the processes \<open>xs\<close> in this order.
  A process that is not queued has a self-linked node (\<^verbatim>\<open>alloc_proc\<close> initialises it,
  \<^verbatim>\<open>list_del_init\<close> restores it), which is what the assertions of the operations test.
\<close>

definition RR_init :: "kern \<Rightarrow> kern" where
  "RR_init s = s\<lparr>run_list := list_init RunList (run_list s), proc_num := 0\<rparr>"

definition RR_enqueue :: "nat \<Rightarrow> kern \<Rightarrow> kern option" where
  "RR_enqueue p s = do {
     c_assert (list_empty (RunLink p) (run_list s));
     let s1 = s\<lparr>run_list := list_add_before RunList (RunLink p) (run_list s)\<rparr>;
     let s2 = (if time_slice (procs s1 p) = 0 \<or> time_slice (procs s1 p) > max_time_slice s1
               then upd_proc p (\<lambda>pr. pr\<lparr>time_slice := max_time_slice s1\<rparr>) s1 else s1);
     let s3 = upd_proc p (\<lambda>pr. pr\<lparr>has_rq := True\<rparr>) s2;
     Some (s3\<lparr>proc_num := proc_num s3 + 1\<rparr>) }"

definition RR_dequeue :: "nat \<Rightarrow> kern \<Rightarrow> kern option" where
  "RR_dequeue p s = do {
     c_assert (\<not> list_empty (RunLink p) (run_list s) \<and> has_rq (procs s p));
     let s1 = s\<lparr>run_list := list_del_init (RunLink p) (run_list s)\<rparr>;
     Some (s1\<lparr>proc_num := proc_num s1 - 1\<rparr>) }"

definition RR_pick_next :: "kern \<Rightarrow> (nat option \<times> kern) option" where
  "RR_pick_next s = Some (case list_next RunList (run_list s) of
     RunList \<Rightarrow> (None, s) | RunLink p \<Rightarrow> (Some p, s))"

definition RR_proc_tick :: "nat \<Rightarrow> kern \<Rightarrow> kern" where
  "RR_proc_tick p s =
     (let s1 = (if 0 < time_slice (procs s p) then upd_proc p (\<lambda>pr. pr\<lparr>time_slice := time_slice pr - 1\<rparr>) s else s)
      in if time_slice (procs s1 p) = 0 then upd_proc p (\<lambda>pr. pr\<lparr>need_resched := True\<rparr>) s1 else s1)"

definition default_sched_class :: sched_class where
  "default_sched_class = \<lparr>sc_init = RR_init, sc_enqueue = RR_enqueue, sc_dequeue = RR_dequeue,
     sc_pick_next = RR_pick_next, sc_proc_tick = RR_proc_tick\<rparr>"

lemma default_sched_class_simps [simp]:
  "sc_init default_sched_class = RR_init" "sc_enqueue default_sched_class = RR_enqueue"
  "sc_dequeue default_sched_class = RR_dequeue" "sc_pick_next default_sched_class = RR_pick_next"
  "sc_proc_tick default_sched_class = RR_proc_tick"
  by (simp_all add: default_sched_class_def)

subsection \<open>The queue as a list\<close>

definition rr_wf :: "kern \<Rightarrow> nat list \<Rightarrow> bool" where
  "rr_wf s xs \<longleftrightarrow> dll (run_list s) RunList (map RunLink xs) \<and>
     (\<forall>p. p \<notin> set xs \<longrightarrow> list_empty (RunLink p) (run_list s)) \<and>
     proc_num s = length xs \<and> (\<forall>p \<in> set xs. has_rq (procs s p))"

definition rr_queued :: "kern \<Rightarrow> nat set" where
  "rr_queued s = {p. \<not> list_empty (RunLink p) (run_list s)}"

lemma rr_wfD:
  assumes "rr_wf s xs"
  shows "dll (run_list s) RunList (map RunLink xs)" "distinct xs" "rr_queued s = set xs"
    "proc_num s = length xs" "p \<in> set xs \<Longrightarrow> has_rq (procs s p)"
    "p \<notin> set xs \<Longrightarrow> list_empty (RunLink p) (run_list s)"
proof -
  show d: "dll (run_list s) RunList (map RunLink xs)" using assms by (simp add: rr_wf_def)
  then show "distinct xs" using dll_distinct [OF d] by (simp add: distinct_map)
  have "\<not> list_empty (RunLink p) (run_list s)" if "p \<in> set xs" for p
    using dll_member_not_empty [OF d] that by simp
  then show "rr_queued s = set xs" using assms by (auto simp: rr_wf_def rr_queued_def)
qed (use assms in \<open>auto simp: rr_wf_def\<close>)

lemma rr_wf_frame: "rr_wf s xs \<Longrightarrow> same_queue s s' \<Longrightarrow> rr_wf s' xs"
  by (simp add: rr_wf_def same_queue_def)

lemma last_RunLink: "xs \<noteq> [] \<Longrightarrow> last (map RunLink xs) = RunLink (last xs)"
  by (simp add: last_map)

lemma RR_enqueue_wf:
  assumes wf: "rr_wf s xs" and p: "p \<notin> set xs"
  shows "\<exists>s'. RR_enqueue p s = Some s' \<and> rr_wf s' (xs @ [p]) \<and> same_core s s' \<and>
    (\<forall>q. need_resched (procs s' q) = need_resched (procs s q) \<and> runs (procs s' q) = runs (procs s q))"
proof -
  note w = rr_wfD [OF wf]
  have e: "list_empty (RunLink p) (run_list s)" using w(6) p .
  let ?l = "list_add_before RunList (RunLink p) (run_list s)"
  have d: "dll ?l RunList (map RunLink (xs @ [p]))"
    using dll_add_before_head [OF w(1), of "RunLink p"] p by auto
  have out: "list_empty (RunLink q) ?l" if "q \<notin> set (xs @ [p])" for q
  proof -
    have "lprev (run_list s) RunList \<noteq> RunLink q"
      using dll_prev_head [OF w(1)] that by (cases "xs = []") (auto simp: last_map)
    then have "lnext ?l (RunLink q) = lnext (run_list s) (RunLink q)"
      using that by (simp add: link_defs)
    then show ?thesis using w(6) [of q] that by (simp add: list_empty_def)
  qed
  show ?thesis
    using e d out w(4,5) by (simp add: RR_enqueue_def Let_def rr_wf_def same_core_def)
qed

lemma RR_dequeue_wf:
  assumes wf: "rr_wf s (xs @ p # ys)"
  shows "\<exists>s'. RR_dequeue p s = Some s' \<and> rr_wf s' (xs @ ys) \<and> same_core s s' \<and> procs s' = procs s"
proof -
  note w = rr_wfD [OF wf]
  have ne: "\<not> list_empty (RunLink p) (run_list s)" using dll_member_not_empty [OF w(1)] by simp
  let ?l = "list_del_init (RunLink p) (run_list s)"
  have d: "dll ?l RunList (map RunLink (xs @ ys))"
    using dll_del_init [of "run_list s" RunList "map RunLink xs" "RunLink p" "map RunLink ys"] w(1) by simp
  have out: "list_empty (RunLink q) ?l" if "q \<notin> set (xs @ ys)" for q
  proof (cases "q = p")
    case True
    then show ?thesis by (simp add: list_del_init_empty)
  next
    case False
    have "lprev (run_list s) (RunLink p) = (if xs = [] then RunList else RunLink (last xs))"
      using dll_prev_mid [of "run_list s" RunList "map RunLink xs" "RunLink p" "map RunLink ys"] w(1)
      by (auto simp: last_map)
    then have "lnext ?l (RunLink q) = lnext (run_list s) (RunLink q)"
      using False that by (auto simp: link_defs)
    then show ?thesis using w(6) [of q] that False by (simp add: list_empty_def)
  qed
  show ?thesis using ne d out w(4,5) by (simp add: RR_dequeue_def Let_def rr_wf_def same_core_def)
qed

lemma RR_pick_next_wf:
  assumes "rr_wf s xs"
  shows "RR_pick_next s = Some (case xs of [] \<Rightarrow> None | p # _ \<Rightarrow> Some p, s)"
  using dll_next_head [OF rr_wfD(1) [OF assms]] by (cases xs) (simp_all add: RR_pick_next_def list_next_def)

lemma RR_proc_tick_frame: "same_queue s (RR_proc_tick p s)" "same_core s (RR_proc_tick p s)"
  by (auto simp: RR_proc_tick_def same_queue_def same_core_def Let_def)

lemma RR_init_wf:
  assumes "\<forall>p. list_empty (RunLink p) (run_list s)"
  shows "rr_wf (RR_init s) []" "same_core s (RR_init s)"
  using assms by (simp_all add: RR_init_def rr_wf_def same_core_def link_defs dll_def)

definition rr_ok :: "kern \<Rightarrow> bool" where
  "rr_ok s \<longleftrightarrow> (\<exists>xs. rr_wf s xs)"

definition run_links_fresh :: "kern \<Rightarrow> bool" where
  "run_links_fresh s \<longleftrightarrow> (\<forall>p. list_empty (RunLink p) (run_list s))"

interpretation rr: scheduling_class default_sched_class rr_ok rr_queued run_links_fresh
proof unfold_locales
  fix s s' assume "rr_ok s" "same_queue s s'"
  then show "rr_ok s' \<and> rr_queued s' = rr_queued s"
    using rr_wf_frame by (auto simp: rr_ok_def rr_queued_def same_queue_def)
next
  fix s assume "run_links_fresh s"
  then show "rr_ok (sc_init default_sched_class s) \<and> rr_queued (sc_init default_sched_class s) = {} \<and>
      same_core s (sc_init default_sched_class s)"
    using RR_init_wf [of s] rr_wfD(3) [of "RR_init s" "[]"] by (auto simp: rr_ok_def run_links_fresh_def)
next
  fix s p assume "rr_ok s" "p \<notin> rr_queued s"
  then obtain xs where xs: "rr_wf s xs" "p \<notin> set xs" using rr_wfD(3) by (auto simp: rr_ok_def)
  from RR_enqueue_wf [OF this] obtain s' where s': "RR_enqueue p s = Some s'" "rr_wf s' (xs @ [p])"
    "same_core s s'" by blast
  then show "\<exists>s'. sc_enqueue default_sched_class p s = Some s' \<and> rr_ok s' \<and>
      rr_queued s' = insert p (rr_queued s) \<and> same_core s s'"
    using rr_wfD(3) [OF xs(1)] rr_wfD(3) [OF s'(2)] by (auto simp: rr_ok_def)
next
  fix s p assume "rr_ok s" "p \<in> rr_queued s"
  then obtain ys zs where xs: "rr_wf s (ys @ p # zs)" using rr_wfD(3) split_list by (metis rr_ok_def)
  from RR_dequeue_wf [OF this] obtain s' where s': "RR_dequeue p s = Some s'" "rr_wf s' (ys @ zs)"
    "same_core s s'" by blast
  then show "\<exists>s'. sc_dequeue default_sched_class p s = Some s' \<and> rr_ok s' \<and>
      rr_queued s' = rr_queued s - {p} \<and> same_core s s'"
    using rr_wfD(2,3) [OF xs(1)] rr_wfD(3) [OF s'(2)] by (auto simp: rr_ok_def)
next
  fix s assume "rr_ok s"
  then obtain xs where xs: "rr_wf s xs" by (auto simp: rr_ok_def)
  then show "\<exists>r s'. sc_pick_next default_sched_class s = Some (r, s') \<and> rr_ok s' \<and> rr_queued s' = rr_queued s \<and>
      same_core s s' \<and> (case r of None \<Rightarrow> rr_queued s = {} | Some p \<Rightarrow> p \<in> rr_queued s)"
    using RR_pick_next_wf [OF xs] rr_wfD(3) [OF xs] by (auto simp: rr_ok_def split: list.split)
next
  fix s p assume "rr_ok s"
  then show "rr_ok (sc_proc_tick default_sched_class p s) \<and>
      rr_queued (sc_proc_tick default_sched_class p s) = rr_queued s \<and>
      same_core s (sc_proc_tick default_sched_class p s)"
    using rr_wf_frame [OF _ RR_proc_tick_frame(1)] RR_proc_tick_frame [of s p]
    by (auto simp: rr_ok_def rr_queued_def same_queue_def)
qed

subsection \<open>Turns\<close>

text \<open>The processes that run when \<^verbatim>\<open>schedule\<close> is called n times in a row.\<close>

fun turns :: "sched_class \<Rightarrow> nat \<Rightarrow> kern \<Rightarrow> (nat list \<times> kern) option" where
  "turns cl 0 s = Some ([], s)"
| "turns cl (Suc n) s = do {
     s1 \<leftarrow> schedule cl s;
     (ps, s2) \<leftarrow> turns cl n s1;
     Some (current s1 # ps, s2) }"

lemma turns_append:
  assumes "turns cl m s = Some (ps, s1)" "turns cl n s1 = Some (qs, s2)"
  shows "turns cl (m + n) s = Some (ps @ qs, s2)"
  using assms
  by (induction m arbitrary: s ps) (auto simp: Option.bind_eq_Some_conv)

definition rr_busy :: "kern \<Rightarrow> nat list \<Rightarrow> bool" where
  "rr_busy s xs \<longleftrightarrow> rr_wf s xs \<and> current s \<notin> set xs \<and>
     list_all (\<lambda>p. state (procs s p) = PROC_RUNNABLE \<and> p \<noteq> idleproc s) (current s # xs)"

text \<open>One turn: the running process goes to the tail, the head runs.\<close>

lemma rr_turn:
  assumes b: "rr_busy s xs" and sp: "xs @ [current s] = p # ps"
  shows "\<exists>s'. schedule default_sched_class s = Some s' \<and> current s' = p \<and> rr_busy s' ps"
proof -
  let ?s1 = "upd_proc (current s) (\<lambda>pr. pr\<lparr>need_resched := False\<rparr>) s"
  have wf: "rr_wf s xs" and c: "current s \<notin> set xs" "state (procs s (current s)) = PROC_RUNNABLE"
    "current s \<noteq> idleproc s" using b by (simp_all add: rr_busy_def)
  have "rr_wf ?s1 xs" by (rule rr_wf_frame [OF wf]) (simp add: same_queue_def)
  from RR_enqueue_wf [OF this c(1)] obtain s2 where s2: "RR_enqueue (current s) ?s1 = Some s2"
    "rr_wf s2 (p # ps)" "same_core ?s1 s2" using sp by auto
  from RR_dequeue_wf [of s2 "[]" p ps] s2(2) obtain s4 where s4: "RR_dequeue p s2 = Some s4" "rr_wf s4 ps"
    "same_core s2 s4" by auto
  let ?s5 = "upd_proc p (\<lambda>pr. pr\<lparr>runs := runs pr + 1\<rparr>) s4"
  let ?s6 = "if p \<noteq> current ?s5 then proc_run p ?s5 else ?s5"
  have run: "schedule default_sched_class s = Some ?s6"
    using s2(1) s4(1) c RR_pick_next_wf [OF s2(2)]
    by (simp add: schedule_def sched_class_enqueue_def sched_class_pick_next_def sched_class_dequeue_def Let_def)
  have st: "current ?s6 = p" "idleproc ?s6 = idleproc s" "\<forall>q. state (procs ?s6 q) = state (procs s q)"
    using s2(3) s4(3) by (auto simp: same_core_def proc_run_def)
  have "rr_wf ?s6 ps" by (rule rr_wf_frame [OF s4(2)]) (auto simp: same_queue_def proc_run_def)
  moreover have "p \<notin> set ps" using rr_wfD(2) [OF s2(2)] by simp
  moreover have "set (p # ps) = set (current s # xs)" using arg_cong [OF sp, of set] by simp
  then have "list_all (\<lambda>q. state (procs s q) = PROC_RUNNABLE \<and> q \<noteq> idleproc s) (p # ps)"
    using b unfolding rr_busy_def list_all_iff by blast
  ultimately have "rr_busy ?s6 ps" using st by (simp add: rr_busy_def list_all_iff)
  with run st(1) show ?thesis by blast
qed

lemma rr_turns:
  "rr_busy s (as @ bs) \<Longrightarrow> \<exists>s'. turns default_sched_class (length as) s = Some (as, s') \<and>
     current s' = last (current s # as) \<and> rr_busy s' (bs @ butlast (current s # as))"
proof (induction as arbitrary: s bs)
  case Nil
  then show ?case by simp
next
  case (Cons a as)
  from rr_turn [OF Cons.prems, of a "as @ bs @ [current s]"] obtain s1 where s1:
    "schedule default_sched_class s = Some s1" "current s1 = a" "rr_busy s1 (as @ bs @ [current s])" by auto
  from Cons.IH [OF s1(3)] obtain s' where "turns default_sched_class (length as) s1 = Some (as, s')"
    "current s' = last (current s1 # as)" "rr_busy s' ((bs @ [current s]) @ butlast (current s1 # as))" by blast
  then show ?case using s1(1,2) by simp
qed

lemma rr_full_round:
  assumes "rr_busy s xs"
  shows "\<exists>s'. turns default_sched_class (length xs + 1) s = Some (xs @ [current s], s') \<and>
    current s' = current s \<and> rr_busy s' xs"
proof -
  from rr_turns [of s xs "[]"] assms obtain s1 where s1: "turns default_sched_class (length xs) s = Some (xs, s1)"
    "current s1 = last (current s # xs)" "rr_busy s1 (butlast (current s # xs))" by auto
  have "butlast (current s # xs) @ [current s1] = current s # xs"
    unfolding s1(2) by (rule append_butlast_last_id) simp
  from rr_turn [OF s1(3) this] obtain s2 where "schedule default_sched_class s1 = Some s2"
    "current s2 = current s" "rr_busy s2 xs" by blast
  then show ?thesis using turns_append [OF s1(1), of 1 "[current s]" s2] by auto
qed

text \<open>Ticks: after as many ticks as the slice lasts, the running process has to be rescheduled.\<close>

lemma RR_ticks:
  assumes "0 < n" "time_slice (procs s p) = int n"
  shows "need_resched (procs ((RR_proc_tick p ^^ n) s) p)"
  using assms
proof (induction n arbitrary: s)
  case (Suc n)
  have ts: "time_slice (procs (RR_proc_tick p s) p) = int n"
    using Suc.prems(2) by (simp add: RR_proc_tick_def Let_def)
  show ?case
  proof (cases "n = 0")
    case True
    then show ?thesis using Suc.prems(2) by (simp add: RR_proc_tick_def Let_def)
  next
    case False
    then show ?thesis using Suc.IH [of "RR_proc_tick p s"] ts by (simp add: funpow_swap1)
  qed
qed simp

end
