(* ===== verification/Libs_Num.thy ===== *)
theory Libs_Num
  imports Prelude
begin

unbundle bit_operations_syntax

text \<open>
  libs/rand.c, libs/hash.c and the macro \<^verbatim>\<open>do_div\<close> (libs/riscv.h), on machine words.

  \<^verbatim>\<open>do_div(n, base)\<close> does not parenthesise its second argument.  With \<^verbatim>\<open>RAND_MAX + 1\<close> in its place,
  \<^verbatim>\<open>(unsigned long)n % (unsigned)base\<close> reads \<^verbatim>\<open>n % (unsigned)RAND_MAX + 1\<close>: the remainder by
  \<^verbatim>\<open>RAND_MAX\<close>, plus one.  This is what \<open>rand_value\<close> computes.
\<close>

definition RAND_MAX :: u64 where "RAND_MAX = 2147483647"

definition do_div_mod :: "u64 \<Rightarrow> u32 \<Rightarrow> u64" where
  "do_div_mod n b = n mod ucast b"

definition do_div_quot :: "u64 \<Rightarrow> u32 \<Rightarrow> u64" where
  "do_div_quot n b = n div ucast b"

definition rand_step :: "u64 \<Rightarrow> u64" where
  "rand_step nxt = (nxt * 0x5DEECE66D + 0xB) AND (2 ^ 48 - 1)"

definition rand_value :: "u64 \<Rightarrow> u64" where
  "rand_value nxt = do_div_mod (drop_bit 12 nxt) (ucast RAND_MAX) + 1"

definition rand :: "u64 \<Rightarrow> u64 \<times> u64" where
  "rand nxt = (let n' = rand_step nxt in (rand_value n', n'))"

definition srand :: "u32 \<Rightarrow> u64" where
  "srand seed = ucast seed"

definition GOLDEN_RATIO_PRIME_32 :: u64 where "GOLDEN_RATIO_PRIME_32 = 0x9e370001"

definition hash32 :: "u32 \<Rightarrow> nat \<Rightarrow> u32" where
  "hash32 val bits = (let hash = ucast (ucast val * GOLDEN_RATIO_PRIME_32) :: u32 in drop_bit (32 - bits) hash)"

text \<open>The generator's state stays below 2 to the 48, and its values lie between 1 and \<^verbatim>\<open>RAND_MAX\<close>.\<close>

lemma rand_step_bound: "unat (rand_step nxt) < 2 ^ 48"
proof -
  have "rand_step nxt = take_bit 48 (nxt * 0x5DEECE66D + 0xB)"
    by (simp only: rand_step_def take_bit_eq_mask mask_eq_exp_minus_1)
  then show ?thesis using take_bit_nat_less_exp [of 48] by (simp add: unsigned_take_bit_eq)
qed

lemma rand_value_range: "1 \<le> unat (rand_value nxt)" "unat (rand_value nxt) \<le> unat RAND_MAX"
proof -
  let ?m = "unat (drop_bit 12 nxt) mod 2147483647"
  have "unat (do_div_mod (drop_bit 12 nxt) (ucast RAND_MAX)) = ?m"
    by (simp add: do_div_mod_def RAND_MAX_def unat_mod)
  then have "unat (rand_value nxt) = Suc ?m"
    by (simp add: rand_value_def unat_word_ariths)
  moreover have "?m < 2147483647" by simp
  ultimately show "1 \<le> unat (rand_value nxt)" "unat (rand_value nxt) \<le> unat RAND_MAX"
    by (simp_all add: RAND_MAX_def)
qed

lemma hash32_bound:
  assumes "bits \<le> 32"
  shows "unat (hash32 val bits) < 2 ^ bits"
proof -
  have "unat (drop_bit (32 - bits) w) < 2 ^ bits" for w :: u32
  proof -
    have "unat w < 2 ^ bits * 2 ^ (32 - bits)"
      using unsigned_less [of w] assms by (simp flip: power_add)
    then show ?thesis unfolding unat_drop_bit by (rule less_mult_imp_div_less)
  qed
  then show ?thesis by (simp add: hash32_def Let_def)
qed

text \<open>The multiplier is odd, so the full-width hash is injective.\<close>

lemma hash32_32_inj: "hash32 x 32 = hash32 y 32 \<Longrightarrow> x = y"
proof -
  have mul: "ucast (ucast v * GOLDEN_RATIO_PRIME_32) = v * (0x9e370001 :: u32)" for v :: u32
    unfolding GOLDEN_RATIO_PRIME_32_def
    by transfer (simp add: take_bit_eq_mod mod_mult_left_eq mod_mod_cancel)
  assume "hash32 x 32 = hash32 y 32"
  then have "x * (0x9e370001 :: u32) = y * 0x9e370001" by (simp add: hash32_def mul)
  then have "x * 0x9e370001 * 0x61c90001 = y * 0x9e370001 * (0x61c90001 :: u32)" by (simp only:)
  moreover have "v * 0x9e370001 * 0x61c90001 = v" for v :: u32
  proof -
    have "(0x9e370001 * 0x61c90001 :: u32) = 1" by code_simp
    then show ?thesis by (simp only: mult.assoc mult_1_right)
  qed
  ultimately show "x = y" by (simp only:)
qed

end
