(* ===== verification/Sched_Lottery.thy ===== *)
theory Sched_Lottery
  imports Sched_RR Libs_Num
begin

unbundle bit_operations_syntax

text \<open>
  labcode/lab6/kern/schedule/default_sched_lottery.c: lottery scheduling.  The queue is the one of
  the round-robin policy; the next process is the one whose ticket interval holds the number drawn.
  The two loops over the queue are partial functions on the store (a broken list could make them
  run for ever); on a well-formed queue they return.
\<close>

definition proc_tickets :: "proc_struct \<Rightarrow> u32" where
  "proc_tickets pr = (if lab6_priority pr = 0 then 1 else lab6_priority pr)"

definition lottery_init :: "kern \<Rightarrow> kern" where
  "lottery_init s = s\<lparr>run_list := list_init RunList (run_list s), lab6_run_pool := None,
     proc_num := 0, rand_next := srand 1\<rparr>"

definition lottery_enqueue :: "nat \<Rightarrow> kern \<Rightarrow> kern option" where
  "lottery_enqueue p s = do {
     c_assert (list_empty (RunLink p) (run_list s));
     let s1 = s\<lparr>run_list := list_add_before RunList (RunLink p) (run_list s)\<rparr>;
     let s2 = (if time_slice (procs s1 p) = 0 \<or> time_slice (procs s1 p) > max_time_slice s1
               then upd_proc p (\<lambda>pr. pr\<lparr>time_slice := max_time_slice s1\<rparr>) s1 else s1);
     let s3 = upd_proc p (\<lambda>pr. pr\<lparr>has_rq := True\<rparr>) s2;
     Some (s3\<lparr>proc_num := proc_num s3 + 1\<rparr>) }"

definition lottery_dequeue :: "nat \<Rightarrow> kern \<Rightarrow> kern option" where
  "lottery_dequeue p s = do {
     c_assert (\<not> list_empty (RunLink p) (run_list s) \<and> has_rq (procs s p));
     let s1 = s\<lparr>run_list := list_del_init (RunLink p) (run_list s)\<rparr>;
     Some (s1\<lparr>proc_num := proc_num s1 - 1\<rparr>) }"

partial_function (option) ticket_total :: "run_entry \<Rightarrow> u64 \<Rightarrow> kern \<Rightarrow> u64 option" where
  "ticket_total le tot s = (case le of
     RunList \<Rightarrow> Some tot
   | RunLink p \<Rightarrow> ticket_total (list_next le (run_list s)) (tot + ucast (proc_tickets (procs s p))) s)"

declare ticket_total.simps [code]

partial_function (option) ticket_walk :: "run_entry \<Rightarrow> u64 \<Rightarrow> kern \<Rightarrow> nat option option" where
  "ticket_walk le win s = (case le of
     RunList \<Rightarrow> Some None
   | RunLink p \<Rightarrow>
       if win < ucast (proc_tickets (procs s p)) then Some (Some p)
       else ticket_walk (list_next le (run_list s)) (win - ucast (proc_tickets (procs s p))) s)"

declare ticket_walk.simps [code]

definition le2proc :: "run_entry \<Rightarrow> nat option" where
  "le2proc le = (case le of RunList \<Rightarrow> None | RunLink p \<Rightarrow> Some p)"

definition lottery_pick_next :: "kern \<Rightarrow> (nat option \<times> kern) option" where
  "lottery_pick_next s =
     (if list_empty RunList (run_list s) then Some (None, s)
      else do {
        tot \<leftarrow> ticket_total (list_next RunList (run_list s)) 0 s;
        if tot = 0 then Some (le2proc (list_next RunList (run_list s)), s)
        else do {
          let (r, n') = rand (rand_next s);
          let s1 = s\<lparr>rand_next := n'\<rparr>;
          w \<leftarrow> ticket_walk (list_next RunList (run_list s1)) ((r AND 0x7fffffff) mod tot) s1;
          Some (case w of Some p \<Rightarrow> Some p | None \<Rightarrow> le2proc (list_next RunList (run_list s1)), s1) } })"

definition lottery_proc_tick :: "nat \<Rightarrow> kern \<Rightarrow> kern" where
  "lottery_proc_tick p s =
     (let s1 = (if 0 < time_slice (procs s p) then upd_proc p (\<lambda>pr. pr\<lparr>time_slice := time_slice pr - 1\<rparr>) s else s)
      in if time_slice (procs s1 p) = 0 then upd_proc p (\<lambda>pr. pr\<lparr>need_resched := True\<rparr>) s1 else s1)"

definition lottery_sched_class :: sched_class where
  "lottery_sched_class = \<lparr>sc_init = lottery_init, sc_enqueue = lottery_enqueue, sc_dequeue = lottery_dequeue,
     sc_pick_next = lottery_pick_next, sc_proc_tick = lottery_proc_tick\<rparr>"

lemma lottery_sched_class_simps [simp]:
  "sc_init lottery_sched_class = lottery_init" "sc_enqueue lottery_sched_class = lottery_enqueue"
  "sc_dequeue lottery_sched_class = lottery_dequeue" "sc_pick_next lottery_sched_class = lottery_pick_next"
  "sc_proc_tick lottery_sched_class = lottery_proc_tick"
  by (simp_all add: lottery_sched_class_def)

lemma lottery_as_rr: "lottery_enqueue = RR_enqueue" "lottery_dequeue = RR_dequeue" "lottery_proc_tick = RR_proc_tick"
  by (intro ext; simp add: lottery_enqueue_def RR_enqueue_def lottery_dequeue_def RR_dequeue_def
      lottery_proc_tick_def RR_proc_tick_def)+

subsection \<open>The draw on the list of queued processes\<close>

definition tickets :: "kern \<Rightarrow> nat \<Rightarrow> nat" where
  "tickets s p = unat (proc_tickets (procs s p))"

fun winner :: "(nat \<Rightarrow> nat) \<Rightarrow> nat list \<Rightarrow> nat \<Rightarrow> nat option" where
  "winner t [] w = None"
| "winner t (p # ps) w = (if w < t p then Some p else winner t ps (w - t p))"

lemma tickets_pos: "0 < tickets s p"
  by (simp add: tickets_def proc_tickets_def unat_gt_0)

lemma unat_tickets: "unat (ucast (proc_tickets (procs s p)) :: u64) = tickets s p"
  by (simp add: tickets_def unsigned_ucast_eq take_bit_nat_eq_self
      order.strict_trans2 [OF unsigned_less [of "proc_tickets (procs s p)"]])

lemma tickets_bound: "tickets s p < 2 ^ 32"
  unfolding tickets_def using unsigned_less [of "proc_tickets (procs s p)"] by simp

lemma ticket_total_path:
  assumes "path (lnext (run_list s)) e (map RunLink xs) RunList"
    and "unat tot + sum_list (map (tickets s) xs) < 2 ^ 64"
  shows "\<exists>t. ticket_total (lnext (run_list s) e) tot s = Some t \<and>
    unat t = unat tot + sum_list (map (tickets s) xs)"
  using assms
proof (induction xs arbitrary: e tot)
  case Nil
  then show ?case by (simp add: ticket_total.simps)
next
  case (Cons p xs)
  let ?t = "tot + ucast (proc_tickets (procs s p))"
  have u: "unat ?t = unat tot + tickets s p"
    using Cons.prems(2) unat_tickets [of s p] by (simp add: unat_word_ariths)
  have "\<exists>t. ticket_total (lnext (run_list s) (RunLink p)) ?t s = Some t \<and>
      unat t = unat ?t + sum_list (map (tickets s) xs)"
    using Cons.prems u by (intro Cons.IH) simp_all
  then show ?case using Cons.prems(1) u
    by (simp add: ticket_total.simps [of "RunLink p"] list_next_def add.assoc)
qed

lemma ticket_walk_path:
  assumes "path (lnext (run_list s)) e (map RunLink xs) RunList"
  shows "ticket_walk (lnext (run_list s) e) win s = Some (winner (tickets s) xs (unat win))"
  using assms
proof (induction xs arbitrary: e win)
  case Nil
  then show ?case by (simp add: ticket_walk.simps)
next
  case (Cons p xs)
  let ?t = "ucast (proc_tickets (procs s p)) :: u64"
  have l: "win < ?t \<longleftrightarrow> unat win < tickets s p" by (simp add: word_less_nat_alt unat_tickets)
  have "unat (win - ?t) = unat win - tickets s p" if "\<not> win < ?t"
    using that by (simp add: unat_sub not_less unat_tickets [symmetric])
  then show ?case using Cons l
    by (simp add: ticket_walk.simps [of "RunLink p"] list_next_def)
qed

lemma winner_Some: "w < sum_list (map t xs) \<Longrightarrow> \<exists>p \<in> set xs. winner t xs w = Some p"
  by (induction xs arbitrary: w) auto

lemma winner_interval:
  "winner t xs w = Some p \<Longrightarrow>
     \<exists>as bs. xs = as @ p # bs \<and> sum_list (map t as) \<le> w \<and> w < sum_list (map t as) + t p"
proof (induction xs arbitrary: w)
  case (Cons x xs)
  show ?case
  proof (cases "w < t x")
    case True
    then show ?thesis using Cons.prems by (intro exI [of _ "[]"] exI [of _ xs]) simp
  next
    case False
    then obtain as bs where "xs = as @ p # bs" "sum_list (map t as) \<le> w - t x"
      "w - t x < sum_list (map t as) + t p" using Cons by fastforce
    then show ?thesis using False by (intro exI [of _ "x # as"] exI [of _ bs]) auto
  qed
qed simp

lemma ticket_total_returns:
  "path (lnext (run_list s)) e (map RunLink xs) RunList \<Longrightarrow>
     \<exists>t. ticket_total (lnext (run_list s) e) acc s = Some t"
  by (induction xs arbitrary: e acc)
    (auto simp: ticket_total.simps [of RunList] ticket_total.simps [of "RunLink p" for p] list_next_def)

lemma winner_in: "winner t xs w = Some p \<Longrightarrow> p \<in> set xs"
  by (induction xs arbitrary: w) (auto split: if_splits)

text \<open>The number drawn by the call of \<^verbatim>\<open>rand\<close>.\<close>

definition draw :: "kern \<Rightarrow> nat" where
  "draw s = unat (fst (rand (rand_next s)) AND 0x7fffffff)"

lemma lottery_pick_ok:
  assumes wf: "rr_wf s xs"
  shows "\<exists>r s'. lottery_pick_next s = Some (r, s') \<and> same_queue s s' \<and> same_core s s' \<and>
    (if xs = [] then r = None else r \<in> Some ` set xs) \<and>
    (xs \<noteq> [] \<longrightarrow> sum_list (map (tickets s) xs) < 2 ^ 64 \<longrightarrow>
       r = winner (tickets s) xs (draw s mod sum_list (map (tickets s) xs)))"
proof (cases xs)
  case Nil
  then show ?thesis using dll_empty_iff [OF rr_wfD(1) [OF wf]]
    by (simp add: lottery_pick_next_def same_queue_def)
next
  case (Cons y ys)
  have p: "path (lnext (run_list s)) RunList (map RunLink xs) RunList"
    using rr_wfD(1) [OF wf] by (simp add: dll_def)
  have ne: "\<not> list_empty RunList (run_list s)" using dll_empty_iff [OF rr_wfD(1) [OF wf]] Cons by simp
  have hd: "le2proc (lnext (run_list s) RunList) = Some y"
    using dll_next_head [OF rr_wfD(1) [OF wf]] Cons by (simp add: le2proc_def)
  obtain t where t: "ticket_total (lnext (run_list s) RunList) 0 s = Some t" using ticket_total_returns [OF p] by blast
  let ?s1 = "s\<lparr>rand_next := snd (rand (rand_next s))\<rparr>"
  let ?w = "(fst (rand (rand_next s)) AND 0x7fffffff) mod t"
  have tk: "tickets ?s1 = tickets s" by (intro ext) (simp add: tickets_def)
  have walk: "ticket_walk (lnext (run_list s) RunList) ?w ?s1 = Some (winner (tickets s) xs (unat ?w))"
    using ticket_walk_path [of ?s1 RunList xs ?w] p tk by simp
  have bnd: "t \<noteq> 0 \<and> unat ?w = draw s mod sum_list (map (tickets s) xs)"
    if "sum_list (map (tickets s) xs) < 2 ^ 64"
  proof -
    have "unat t = sum_list (map (tickets s) xs)" using ticket_total_path [OF p, of 0] that t by auto
    moreover have "sum_list (map (tickets s) xs) \<noteq> 0" using Cons tickets_pos [of s y] by simp
    ultimately have "unat t \<noteq> 0" "unat ?w = draw s mod sum_list (map (tickets s) xs)"
      by (simp_all only: draw_def unat_mod) auto
    then show ?thesis by auto
  qed
  show ?thesis
  proof (cases "t = 0")
    case True
    then have "lottery_pick_next s = Some (Some y, s)"
      using ne t hd by (simp add: lottery_pick_next_def list_next_def)
    then show ?thesis using Cons bnd True by (auto simp: same_queue_def)
  next
    case False
    let ?r = "case winner (tickets s) xs (unat ?w) of Some p \<Rightarrow> Some p | None \<Rightarrow> Some y"
    have r: "lottery_pick_next s = Some (?r, ?s1)"
      using ne t hd walk False by (simp add: lottery_pick_next_def list_next_def case_prod_beta Let_def split: option.split)
    have "?r \<in> Some ` set xs" using winner_in [of "tickets s" xs "unat ?w"] Cons by (auto split: option.split)
    moreover have "?r = winner (tickets s) xs (draw s mod sum_list (map (tickets s) xs))"
      if "sum_list (map (tickets s) xs) < 2 ^ 64"
    proof -
      have "0 < sum_list (map (tickets s) xs)" using Cons tickets_pos [of s y] by simp
      then have "draw s mod sum_list (map (tickets s) xs) < sum_list (map (tickets s) xs)" by simp
      with winner_Some [OF this] bnd [OF that] show ?thesis by auto
    qed
    ultimately show ?thesis using r Cons by (auto simp: same_queue_def same_core_def)
  qed
qed

interpretation lottery: scheduling_class lottery_sched_class rr_ok rr_queued run_links_fresh
proof unfold_locales
  fix s s' assume "rr_ok s" "same_queue s s'"
  then show "rr_ok s' \<and> rr_queued s' = rr_queued s" by (rule rr.frame)
next
  fix s assume f: "run_links_fresh s"
  have "rr_wf (lottery_init s) [] \<and> same_core s (lottery_init s)"
    using f by (simp add: lottery_init_def run_links_fresh_def rr_wf_def same_core_def link_defs dll_def)
  then show "rr_ok (sc_init lottery_sched_class s) \<and> rr_queued (sc_init lottery_sched_class s) = {} \<and>
      same_core s (sc_init lottery_sched_class s)"
    using rr_wfD(3) [of "lottery_init s" "[]"] by (auto simp: rr_ok_def)
next
  fix s assume "rr_ok s"
  then obtain xs where xs: "rr_wf s xs" by (auto simp: rr_ok_def)
  from lottery_pick_ok [OF this] obtain r s' where r: "lottery_pick_next s = Some (r, s')" "same_queue s s'"
    "same_core s s'" "if xs = [] then r = None else r \<in> Some ` set xs" by blast
  have "rr_wf s' xs" using rr_wf_frame [OF xs r(2)] .
  then show "\<exists>r s'. sc_pick_next lottery_sched_class s = Some (r, s') \<and> rr_ok s' \<and> rr_queued s' = rr_queued s \<and>
      same_core s s' \<and> (case r of None \<Rightarrow> rr_queued s = {} | Some p \<Rightarrow> p \<in> rr_queued s)"
    using r rr_wfD(3) [OF xs] rr_wfD(3) [of s' xs] by (auto simp: rr_ok_def split: if_splits)
qed (use rr.enqueue rr.dequeue rr.tick in \<open>simp_all add: lottery_as_rr\<close>)

end
