(* ===== verification/Sched_Stride.thy ===== *)
theory Sched_Stride
  imports Sched_Class
begin

text \<open>
  labcode/lab6/kern/schedule/default_sched_stride.c and default_sched_sjf.c (compiled with
  \<^verbatim>\<open>USE_SKEW_HEAP\<close>): the two policies that keep their queue in a skew heap, ordered by the stride
  and by the priority of the processes.  Both comparison functions subtract 32-bit words and look
  at the sign of the result, so the heap is ordered only while the keys lie within half the range
  of a word; for the stride policy this is kept by picking and queueing again.
\<close>

definition BIG_STRIDE :: u32 where "BIG_STRIDE = 2 ^ 30"

definition proc_stride_comp_f :: "kern \<Rightarrow> nat \<Rightarrow> nat \<Rightarrow> int" where
  "proc_stride_comp_f s a b =
     (let c = sint (lab6_stride (procs s a) - lab6_stride (procs s b))
      in if 0 < c then 1 else if c = 0 then 0 else - 1)"

definition stride_init :: "kern \<Rightarrow> kern" where
  "stride_init s = s\<lparr>run_list := list_init RunList (run_list s), lab6_run_pool := None, proc_num := 0\<rparr>"

definition stride_enqueue :: "nat \<Rightarrow> kern \<Rightarrow> kern option" where
  "stride_enqueue p s = do {
     (root, h) \<leftarrow> skew_heap_insert (lab6_run_pool s) p (proc_stride_comp_f s) (pool s);
     let s1 = s\<lparr>lab6_run_pool := root, pool := h\<rparr>;
     let s2 = (if lab6_priority (procs s1 p) = 0 then upd_proc p (\<lambda>pr. pr\<lparr>lab6_priority := 1\<rparr>) s1 else s1);
     let s3 = (if time_slice (procs s2 p) = 0 \<or> time_slice (procs s2 p) > max_time_slice s2
               then upd_proc p (\<lambda>pr. pr\<lparr>time_slice := max_time_slice s2\<rparr>) s2 else s2);
     let s4 = upd_proc p (\<lambda>pr. pr\<lparr>has_rq := True\<rparr>) s3;
     Some (s4\<lparr>proc_num := proc_num s4 + 1\<rparr>) }"

definition stride_dequeue :: "nat \<Rightarrow> kern \<Rightarrow> kern option" where
  "stride_dequeue p s = do {
     c_assert (has_rq (procs s p) \<and> 0 < proc_num s);
     (root, h) \<leftarrow> skew_heap_remove (lab6_run_pool s) p (proc_stride_comp_f s) (pool s);
     let s1 = s\<lparr>lab6_run_pool := root, pool := h\<rparr>;
     Some (s1\<lparr>proc_num := proc_num s1 - 1\<rparr>) }"

definition stride_pick_next :: "kern \<Rightarrow> (nat option \<times> kern) option" where
  "stride_pick_next s = Some (case lab6_run_pool s of
     None \<Rightarrow> (None, s)
   | Some p \<Rightarrow>
       let s1 = (if lab6_priority (procs s p) = 0 then upd_proc p (\<lambda>pr. pr\<lparr>lab6_priority := 1\<rparr>) s else s)
       in (Some p, upd_proc p (\<lambda>pr. pr\<lparr>lab6_stride := lab6_stride pr + BIG_STRIDE div lab6_priority pr\<rparr>) s1))"

definition stride_proc_tick :: "nat \<Rightarrow> kern \<Rightarrow> kern" where
  "stride_proc_tick p s =
     (let s1 = (if 0 < time_slice (procs s p) then upd_proc p (\<lambda>pr. pr\<lparr>time_slice := time_slice pr - 1\<rparr>) s else s)
      in if time_slice (procs s1 p) = 0 then upd_proc p (\<lambda>pr. pr\<lparr>need_resched := True\<rparr>) s1 else s1)"

definition stride_sched_class :: sched_class where
  "stride_sched_class = \<lparr>sc_init = stride_init, sc_enqueue = stride_enqueue, sc_dequeue = stride_dequeue,
     sc_pick_next = stride_pick_next, sc_proc_tick = stride_proc_tick\<rparr>"

definition proc_sjf_comp_f :: "kern \<Rightarrow> nat \<Rightarrow> nat \<Rightarrow> int" where
  "proc_sjf_comp_f s a b =
     (let c = sint (lab6_priority (procs s a) - lab6_priority (procs s b))
      in if 0 < c then 1 else if c = 0 then 0 else - 1)"

definition sjf_key :: "proc_struct \<Rightarrow> u32" where
  "sjf_key pr = (if lab6_priority pr = 0 then 1 else lab6_priority pr)"

definition sjf_init :: "kern \<Rightarrow> kern" where
  "sjf_init s = s\<lparr>run_list := list_init RunList (run_list s), lab6_run_pool := None, proc_num := 0\<rparr>"

definition sjf_enqueue :: "nat \<Rightarrow> kern \<Rightarrow> kern option" where
  "sjf_enqueue p s = do {
     let s1 = upd_proc p (\<lambda>pr. pr\<lparr>lab6_priority := sjf_key pr\<rparr>) s;
     (root, h) \<leftarrow> skew_heap_insert (lab6_run_pool s1) p (proc_sjf_comp_f s1) (pool s1);
     let s2 = s1\<lparr>lab6_run_pool := root, pool := h\<rparr>;
     let s3 = upd_proc p (\<lambda>pr. pr\<lparr>has_rq := True\<rparr>) s2;
     Some (s3\<lparr>proc_num := proc_num s3 + 1\<rparr>) }"

definition sjf_dequeue :: "nat \<Rightarrow> kern \<Rightarrow> kern option" where
  "sjf_dequeue p s = do {
     c_assert (has_rq (procs s p) \<and> 0 < proc_num s);
     (root, h) \<leftarrow> skew_heap_remove (lab6_run_pool s) p (proc_sjf_comp_f s) (pool s);
     let s1 = s\<lparr>lab6_run_pool := root, pool := h\<rparr>;
     Some (s1\<lparr>proc_num := proc_num s1 - 1\<rparr>) }"

definition sjf_pick_next :: "kern \<Rightarrow> (nat option \<times> kern) option" where
  "sjf_pick_next s = Some (case lab6_run_pool s of None \<Rightarrow> (None, s) | Some p \<Rightarrow> (Some p, s))"

definition sjf_proc_tick :: "nat \<Rightarrow> kern \<Rightarrow> kern" where
  "sjf_proc_tick p s = s"

definition sjf_sched_class :: sched_class where
  "sjf_sched_class = \<lparr>sc_init = sjf_init, sc_enqueue = sjf_enqueue, sc_dequeue = sjf_dequeue,
     sc_pick_next = sjf_pick_next, sc_proc_tick = sjf_proc_tick\<rparr>"

lemma heap_sched_class_simps [simp]:
  "sc_init stride_sched_class = stride_init" "sc_enqueue stride_sched_class = stride_enqueue"
  "sc_dequeue stride_sched_class = stride_dequeue" "sc_pick_next stride_sched_class = stride_pick_next"
  "sc_proc_tick stride_sched_class = stride_proc_tick"
  "sc_init sjf_sched_class = sjf_init" "sc_enqueue sjf_sched_class = sjf_enqueue"
  "sc_dequeue sjf_sched_class = sjf_dequeue" "sc_pick_next sjf_sched_class = sjf_pick_next"
  "sc_proc_tick sjf_sched_class = sjf_proc_tick"
  by (simp_all add: stride_sched_class_def sjf_sched_class_def)

subsection \<open>The queue as a heap\<close>

lemma hrep_unique: "hrep h p t \<Longrightarrow> hrep h p u \<Longrightarrow> t = u"
proof (induction t arbitrary: p u)
  case Leaf
  then show ?case by (cases u) auto
next
  case (Node l x r)
  then show ?case by (cases u) auto
qed

definition pool_wf :: "kern \<Rightarrow> nat tree \<Rightarrow> bool" where
  "pool_wf s t \<longleftrightarrow> heap_rep (pool s) (lab6_run_pool s) t \<and> proc_num s = card (set_tree t) \<and>
     (\<forall>p \<in> set_tree t. has_rq (procs s p))"

definition pool_ok :: "kern \<Rightarrow> bool" where
  "pool_ok s \<longleftrightarrow> (\<exists>t. pool_wf s t)"

definition pool_queued :: "kern \<Rightarrow> nat set" where
  "pool_queued s = {p. \<exists>t. hrep (pool s) (lab6_run_pool s) t \<and> p \<in> set_tree t}"

lemma pool_wfD:
  assumes "pool_wf s t"
  shows "heap_rep (pool s) (lab6_run_pool s) t" "proc_num s = card (set_tree t)"
    "p \<in> set_tree t \<Longrightarrow> has_rq (procs s p)" "pool_queued s = set_tree t"
  using assms hrep_unique by (auto simp: pool_wf_def pool_queued_def heap_rep_def)

lemma pool_wf_frame: "pool_wf s t \<Longrightarrow> same_queue s s' \<Longrightarrow> pool_wf s' t"
  by (simp add: pool_wf_def same_queue_def)

lemma pool_queued_frame: "same_queue s s' \<Longrightarrow> pool_queued s' = pool_queued s"
  by (simp add: pool_queued_def same_queue_def)

text \<open>Entering and leaving the heap with any comparison function.\<close>

lemma pool_enter:
  assumes wf: "pool_wf s t" and p: "p \<notin> set_tree t"
    and s': "\<And>root h. skew_heap_insert (lab6_run_pool s) p cmp (pool s) = Some (root, h) \<Longrightarrow>
      lab6_run_pool (f root h) = root \<and> pool (f root h) = h \<and> proc_num (f root h) = proc_num s + 1 \<and>
      (\<forall>q. has_rq (procs (f root h) q) = (q = p \<or> has_rq (procs s q)))"
  shows "\<exists>root h. skew_heap_insert (lab6_run_pool s) p cmp (pool s) = Some (root, h) \<and>
    pool_wf (f root h) (smerge (cmp_lt cmp) t (Node Leaf p Leaf))"
proof -
  from skew_heap_insert_ok [OF pool_wfD(1) [OF wf] p, of cmp] obtain root h where
    i: "skew_heap_insert (lab6_run_pool s) p cmp (pool s) = Some (root, h)"
    "heap_rep h root (smerge (cmp_lt cmp) t (Node Leaf p Leaf))" by blast
  then show ?thesis using s' [OF i(1)] p pool_wfD(2,3) [OF wf] by (auto simp: pool_wf_def)
qed

lemma pool_leave:
  assumes wf: "pool_wf s t" and p: "p \<in> set_tree t"
  shows "\<exists>root h. skew_heap_remove (lab6_run_pool s) p cmp (pool s) = Some (root, h) \<and>
    pool_wf (s\<lparr>lab6_run_pool := root, pool := h, proc_num := proc_num s - 1\<rparr>) (sremove (cmp_lt cmp) p t)"
proof -
  from skew_heap_remove_ok [OF pool_wfD(1) [OF wf] p, of cmp] obtain root h where
    i: "skew_heap_remove (lab6_run_pool s) p cmp (pool s) = Some (root, h)"
    "heap_rep h root (sremove (cmp_lt cmp) p t)" by blast
  moreover have "set_tree (sremove (cmp_lt cmp) p t) = set_tree t - {p}"
    using set_sremove heap_repD(2) [OF pool_wfD(1) [OF wf]] by metis
  ultimately show ?thesis using p pool_wfD(2,3) [OF wf] by (auto simp: pool_wf_def)
qed

lemma stride_enqueue_wf:
  assumes wf: "pool_wf s t" and p: "p \<notin> set_tree t"
  shows "\<exists>s'. stride_enqueue p s = Some s' \<and> same_core s s' \<and>
    pool_wf s' (smerge (cmp_lt (proc_stride_comp_f s)) t (Node Leaf p Leaf)) \<and>
    (\<forall>q. lab6_stride (procs s' q) = lab6_stride (procs s q)) \<and>
    (\<forall>q. q \<noteq> p \<longrightarrow> lab6_priority (procs s' q) = lab6_priority (procs s q)) \<and>
    lab6_priority (procs s' p) \<noteq> 0"
proof -
  let ?f = "\<lambda>root h. (let s1 = s\<lparr>lab6_run_pool := root, pool := h\<rparr>;
     s2 = (if lab6_priority (procs s1 p) = 0 then upd_proc p (\<lambda>pr. pr\<lparr>lab6_priority := 1\<rparr>) s1 else s1);
     s3 = (if time_slice (procs s2 p) = 0 \<or> time_slice (procs s2 p) > max_time_slice s2
               then upd_proc p (\<lambda>pr. pr\<lparr>time_slice := max_time_slice s2\<rparr>) s2 else s2);
     s4 = upd_proc p (\<lambda>pr. pr\<lparr>has_rq := True\<rparr>) s3
     in s4\<lparr>proc_num := proc_num s4 + 1\<rparr>)"
  have "\<exists>root h. skew_heap_insert (lab6_run_pool s) p (proc_stride_comp_f s) (pool s) = Some (root, h) \<and>
    pool_wf (?f root h) (smerge (cmp_lt (proc_stride_comp_f s)) t (Node Leaf p Leaf))"
    by (rule pool_enter [OF wf p]) (auto simp: Let_def)
  then obtain root h where "skew_heap_insert (lab6_run_pool s) p (proc_stride_comp_f s) (pool s) = Some (root, h)"
    "pool_wf (?f root h) (smerge (cmp_lt (proc_stride_comp_f s)) t (Node Leaf p Leaf))" by blast
  then show ?thesis
    by (intro exI [of _ "?f root h"]) (simp add: stride_enqueue_def Let_def same_core_def)
qed

lemma stride_dequeue_wf:
  assumes wf: "pool_wf s t" and p: "p \<in> set_tree t"
  shows "\<exists>s'. stride_dequeue p s = Some s' \<and> same_core s s' \<and> procs s' = procs s \<and>
    pool_wf s' (sremove (cmp_lt (proc_stride_comp_f s)) p t)"
proof -
  have "0 < card (set_tree t)" using p by (auto simp: card_gt_0_iff)
  then show ?thesis using pool_leave [OF assms, of "proc_stride_comp_f s"] pool_wfD(2,3) [OF wf] p
    by (auto simp: stride_dequeue_def Let_def same_core_def)
qed

lemma stride_pick_frame:
  "\<exists>r s'. stride_pick_next s = Some (r, s') \<and> r = lab6_run_pool s \<and> same_queue s s' \<and> same_core s s'"
  by (auto simp: stride_pick_next_def same_queue_def same_core_def Let_def split: option.split)

lemma stride_tick_frame: "same_queue s (stride_proc_tick p s)" "same_core s (stride_proc_tick p s)"
  by (auto simp: stride_proc_tick_def same_queue_def same_core_def Let_def)

lemma pool_root:
  assumes "pool_wf s t"
  shows "case lab6_run_pool s of None \<Rightarrow> pool_queued s = {} | Some p \<Rightarrow> p \<in> pool_queued s"
  using pool_wfD(4) [OF assms] heap_repD(4) [OF pool_wfD(1) [OF assms], symmetric] by (cases t) auto

lemma pool_wf_empty: "lab6_run_pool s = None \<Longrightarrow> proc_num s = 0 \<Longrightarrow> pool_wf s Leaf"
  by (simp add: pool_wf_def)

interpretation stride: scheduling_class stride_sched_class pool_ok pool_queued "\<lambda>_. True"
proof unfold_locales
  fix s s' assume "pool_ok s" "same_queue s s'"
  then show "pool_ok s' \<and> pool_queued s' = pool_queued s"
    using pool_wf_frame pool_queued_frame by (auto simp: pool_ok_def)
next
  fix s
  have "pool_wf (stride_init s) Leaf" by (rule pool_wf_empty) (simp_all add: stride_init_def)
  then show "pool_ok (sc_init stride_sched_class s) \<and> pool_queued (sc_init stride_sched_class s) = {} \<and>
      same_core s (sc_init stride_sched_class s)"
    using pool_wfD(4) [of "stride_init s" Leaf] by (auto simp: pool_ok_def stride_init_def same_core_def)
next
  fix s p assume "pool_ok s" "p \<notin> pool_queued s"
  then obtain t where t: "pool_wf s t" "p \<notin> set_tree t" using pool_wfD(4) by (auto simp: pool_ok_def)
  from stride_enqueue_wf [OF this] show "\<exists>s'. sc_enqueue stride_sched_class p s = Some s' \<and> pool_ok s' \<and>
      pool_queued s' = insert p (pool_queued s) \<and> same_core s s'"
    using pool_wfD(4) [OF t(1)] pool_wfD(4) by (fastforce simp: pool_ok_def)
next
  fix s p assume "pool_ok s" "p \<in> pool_queued s"
  then obtain t where t: "pool_wf s t" "p \<in> set_tree t" using pool_wfD(4) by (auto simp: pool_ok_def)
  have "set_tree (sremove lt p t) = set_tree t - {p}" for lt
    using set_sremove heap_repD(2) [OF pool_wfD(1) [OF t(1)]] by metis
  with stride_dequeue_wf [OF t] show "\<exists>s'. sc_dequeue stride_sched_class p s = Some s' \<and> pool_ok s' \<and>
      pool_queued s' = pool_queued s - {p} \<and> same_core s s'"
    using pool_wfD(4) [OF t(1)] pool_wfD(4) by (fastforce simp: pool_ok_def)
next
  fix s assume "pool_ok s"
  then obtain t where t: "pool_wf s t" by (auto simp: pool_ok_def)
  obtain r s' where r: "stride_pick_next s = Some (r, s')" "r = lab6_run_pool s" "same_queue s s'" "same_core s s'"
    using stride_pick_frame by blast
  have "pool_ok s'" "pool_queued s' = pool_queued s"
    using pool_wf_frame [OF t r(3)] pool_queued_frame [OF r(3)] by (auto simp: pool_ok_def)
  then show "\<exists>r s'. sc_pick_next stride_sched_class s = Some (r, s') \<and> pool_ok s' \<and>
      pool_queued s' = pool_queued s \<and> same_core s s' \<and>
      (case r of None \<Rightarrow> pool_queued s = {} | Some p \<Rightarrow> p \<in> pool_queued s)"
    using r pool_root [OF t] by auto
next
  fix s p assume "pool_ok s"
  then show "pool_ok (sc_proc_tick stride_sched_class p s) \<and>
      pool_queued (sc_proc_tick stride_sched_class p s) = pool_queued s \<and>
      same_core s (sc_proc_tick stride_sched_class p s)"
    using pool_wf_frame [OF _ stride_tick_frame(1)] pool_queued_frame [OF stride_tick_frame(1)] stride_tick_frame(2)
    by (auto simp: pool_ok_def)
qed

subsection \<open>The shortest-job-first policy\<close>

lemma sjf_enqueue_wf:
  assumes wf: "pool_wf s t" and p: "p \<notin> set_tree t"
  defines "s1 \<equiv> upd_proc p (\<lambda>pr. pr\<lparr>lab6_priority := sjf_key pr\<rparr>) s"
  shows "\<exists>s'. sjf_enqueue p s = Some s' \<and> same_core s s' \<and>
    pool_wf s' (smerge (cmp_lt (proc_sjf_comp_f s1)) t (Node Leaf p Leaf)) \<and>
    (\<forall>q. lab6_priority (procs s' q) = lab6_priority (procs s1 q))"
proof -
  have wf1: "pool_wf s1 t" by (rule pool_wf_frame [OF wf]) (simp add: same_queue_def s1_def)
  let ?f = "\<lambda>root h. (let s2 = s1\<lparr>lab6_run_pool := root, pool := h\<rparr>;
     s3 = upd_proc p (\<lambda>pr. pr\<lparr>has_rq := True\<rparr>) s2 in s3\<lparr>proc_num := proc_num s3 + 1\<rparr>)"
  have "\<exists>root h. skew_heap_insert (lab6_run_pool s1) p (proc_sjf_comp_f s1) (pool s1) = Some (root, h) \<and>
    pool_wf (?f root h) (smerge (cmp_lt (proc_sjf_comp_f s1)) t (Node Leaf p Leaf))"
    by (rule pool_enter [OF wf1 p]) (auto simp: Let_def)
  then obtain root h where "skew_heap_insert (lab6_run_pool s1) p (proc_sjf_comp_f s1) (pool s1) = Some (root, h)"
    "pool_wf (?f root h) (smerge (cmp_lt (proc_sjf_comp_f s1)) t (Node Leaf p Leaf))" by blast
  then show ?thesis
    by (intro exI [of _ "?f root h"]) (simp add: sjf_enqueue_def Let_def same_core_def s1_def)
qed

lemma sjf_dequeue_wf:
  assumes wf: "pool_wf s t" and p: "p \<in> set_tree t"
  shows "\<exists>s'. sjf_dequeue p s = Some s' \<and> same_core s s' \<and> procs s' = procs s \<and>
    pool_wf s' (sremove (cmp_lt (proc_sjf_comp_f s)) p t)"
proof -
  have "0 < card (set_tree t)" using p by (auto simp: card_gt_0_iff)
  then show ?thesis using pool_leave [OF assms, of "proc_sjf_comp_f s"] pool_wfD(2,3) [OF wf] p
    by (auto simp: sjf_dequeue_def Let_def same_core_def)
qed

interpretation sjf: scheduling_class sjf_sched_class pool_ok pool_queued "\<lambda>_. True"
proof unfold_locales
  fix s s' assume "pool_ok s" "same_queue s s'"
  then show "pool_ok s' \<and> pool_queued s' = pool_queued s" by (rule stride.frame)
next
  fix s
  have "pool_wf (sjf_init s) Leaf" by (rule pool_wf_empty) (simp_all add: sjf_init_def)
  then show "pool_ok (sc_init sjf_sched_class s) \<and> pool_queued (sc_init sjf_sched_class s) = {} \<and>
      same_core s (sc_init sjf_sched_class s)"
    using pool_wfD(4) [of "sjf_init s" Leaf] by (auto simp: pool_ok_def sjf_init_def same_core_def)
next
  fix s p assume "pool_ok s" "p \<notin> pool_queued s"
  then obtain t where t: "pool_wf s t" "p \<notin> set_tree t" using pool_wfD(4) by (auto simp: pool_ok_def)
  from sjf_enqueue_wf [OF this] show "\<exists>s'. sc_enqueue sjf_sched_class p s = Some s' \<and> pool_ok s' \<and>
      pool_queued s' = insert p (pool_queued s) \<and> same_core s s'"
    using pool_wfD(4) [OF t(1)] pool_wfD(4) by (fastforce simp: pool_ok_def)
next
  fix s p assume "pool_ok s" "p \<in> pool_queued s"
  then obtain t where t: "pool_wf s t" "p \<in> set_tree t" using pool_wfD(4) by (auto simp: pool_ok_def)
  have "set_tree (sremove lt p t) = set_tree t - {p}" for lt
    using set_sremove heap_repD(2) [OF pool_wfD(1) [OF t(1)]] by metis
  with sjf_dequeue_wf [OF t] show "\<exists>s'. sc_dequeue sjf_sched_class p s = Some s' \<and> pool_ok s' \<and>
      pool_queued s' = pool_queued s - {p} \<and> same_core s s'"
    using pool_wfD(4) [OF t(1)] pool_wfD(4) by (fastforce simp: pool_ok_def)
next
  fix s assume "pool_ok s"
  then obtain t where t: "pool_wf s t" by (auto simp: pool_ok_def)
  then show "\<exists>r s'. sc_pick_next sjf_sched_class s = Some (r, s') \<and> pool_ok s' \<and>
      pool_queued s' = pool_queued s \<and> same_core s s' \<and>
      (case r of None \<Rightarrow> pool_queued s = {} | Some p \<Rightarrow> p \<in> pool_queued s)"
    using pool_root [OF t] by (auto simp: pool_ok_def sjf_pick_next_def split: option.split)
next
  fix s p assume "pool_ok s"
  then show "pool_ok (sc_proc_tick sjf_sched_class p s) \<and>
      pool_queued (sc_proc_tick sjf_sched_class p s) = pool_queued s \<and>
      same_core s (sc_proc_tick sjf_sched_class p s)"
    by (simp add: sjf_proc_tick_def)
qed

subsection \<open>Order of the strides\<close>

text \<open>The distance of a stride from a base, going upwards through the wrap-around.\<close>

definition stride_key :: "kern \<Rightarrow> u32 \<Rightarrow> nat \<Rightarrow> nat" where
  "stride_key s base p = unat (lab6_stride (procs s p) - base)"

definition stride_wf :: "kern \<Rightarrow> nat tree \<Rightarrow> u32 \<Rightarrow> bool" where
  "stride_wf s t base \<longleftrightarrow> pool_wf s t \<and> heap_by (stride_key s base) t \<and>
     (\<forall>p \<in> set_tree t. stride_key s base p \<le> 2 ^ 30)"

lemma sign_less:
  "c = int m - int n \<Longrightarrow> (if 0 < c then 1 else if c = 0 then 0 else - 1) = (- 1 :: int) \<longleftrightarrow> m < n"
  by auto

lemma stride_comp_key:
  assumes "stride_key s base a \<le> 2 ^ 30" "stride_key s base b \<le> 2 ^ 30"
  shows "cmp_lt (proc_stride_comp_f s) a b \<longleftrightarrow> stride_key s base a < stride_key s base b"
proof -
  have c: "sint (lab6_stride (procs s a) - lab6_stride (procs s b)) = int (stride_key s base a) - int (stride_key s base b)"
    unfolding stride_key_def using assms by (intro sint_diff_window) (simp_all add: stride_key_def)
  show ?thesis unfolding cmp_lt_def proc_stride_comp_f_def Let_def by (rule sign_less [OF c])
qed

lemma heap_by_mono:
  assumes "heap_by f t" "\<forall>x \<in> set_tree t. \<forall>y \<in> set_tree t. f x \<le> f y \<longrightarrow> g x \<le> g y"
  shows "heap_by g t"
  using assms by (induction t) auto

lemma stride_pick_min:
  assumes "stride_wf s t base" "lab6_run_pool s = Some p" "q \<in> pool_queued s"
  shows "stride_key s base p \<le> stride_key s base q"
  using assms pool_wfD(4) [of s t] heap_repD(4) [OF pool_wfD(1), of s t] heap_by_root
  unfolding stride_wf_def by metis

text \<open>Seen from the stride of the process picked, the others keep their order and distance.\<close>

lemma stride_key_rebase:
  assumes "stride_key s base p \<le> stride_key s base q"
  shows "stride_key s (lab6_stride (procs s p)) q = stride_key s base q - stride_key s base p"
proof -
  let ?a = "lab6_stride (procs s q) - base" and ?b = "lab6_stride (procs s p) - base"
  have e: "lab6_stride (procs s q) - lab6_stride (procs s p) = ?a - ?b" by simp
  have "?b \<le> ?a" using assms by (simp add: stride_key_def word_le_nat_alt)
  then show ?thesis unfolding stride_key_def e by (rule unat_sub)
qed

lemma stride_round:
  assumes wf: "stride_wf s t base" and p: "lab6_run_pool s = Some p"
  shows "\<exists>s1 s2 s3 t'. stride_pick_next s = Some (Some p, s1) \<and> stride_dequeue p s1 = Some s2 \<and>
    stride_enqueue p s2 = Some s3 \<and> stride_wf s3 t' (lab6_stride (procs s p)) \<and> set_tree t' = set_tree t"
proof -
  have pw: "pool_wf s t" and hb: "heap_by (stride_key s base) t"
    and bd: "\<forall>q \<in> set_tree t. stride_key s base q \<le> 2 ^ 30" using wf by (simp_all add: stride_wf_def)
  note hr = pool_wfD(1) [OF pw]
  obtain l r where t: "t = Node l p r" using heap_repD(4) [OF hr] p by (cases t) auto
  have d: "dist (Node l p r)" using heap_repD(2) [OF hr] t by simp
  obtain s1 where s1: "stride_pick_next s = Some (Some p, s1)" "same_queue s s1"
    using stride_pick_frame [of s] p by auto
  let ?b = "lab6_stride (procs s p)"
  have st1: "lab6_stride (procs s1 q) = lab6_stride (procs s q)" if "q \<noteq> p" for q
    using s1(1) p that by (auto simp: stride_pick_next_def Let_def split: if_splits)
  have stp: "unat (lab6_stride (procs s1 p) - ?b) \<le> 2 ^ 30"
  proof -
    have "\<exists>pri. lab6_stride (procs s1 p) - ?b = BIG_STRIDE div pri"
    proof (cases "lab6_priority (procs s p) = 0")
      case True
      then have "lab6_stride (procs s1 p) - ?b = BIG_STRIDE div 1"
        using s1(1) p by (auto simp: stride_pick_next_def Let_def)
      then show ?thesis ..
    next
      case False
      then have "lab6_stride (procs s1 p) - ?b = BIG_STRIDE div lab6_priority (procs s p)"
        using s1(1) p by (auto simp: stride_pick_next_def Let_def)
      then show ?thesis ..
    qed
    then obtain pri where "lab6_stride (procs s1 p) - ?b = BIG_STRIDE div pri" ..
    moreover have "unat (BIG_STRIDE div pri) \<le> unat BIG_STRIDE" for pri by (simp add: unat_div div_le_dividend)
    ultimately show ?thesis by (simp add: BIG_STRIDE_def unat_exp2)
  qed
  have pw1: "pool_wf s1 t" by (rule pool_wf_frame [OF pw s1(2)])
  have "p \<in> set_tree t" using t by simp
  from stride_dequeue_wf [OF pw1 this] obtain s2 where s2: "stride_dequeue p s1 = Some s2" "procs s2 = procs s1"
    "pool_wf s2 (smerge (cmp_lt (proc_stride_comp_f s1)) l r)" using t by auto
  let ?m = "smerge (cmp_lt (proc_stride_comp_f s1)) l r"
  have "p \<notin> set_tree ?m" using d by simp
  from stride_enqueue_wf [OF s2(3) this] obtain s3 where s3: "stride_enqueue p s2 = Some s3"
    "pool_wf s3 (smerge (cmp_lt (proc_stride_comp_f s2)) ?m (Node Leaf p Leaf))"
    "\<forall>q. lab6_stride (procs s3 q) = lab6_stride (procs s2 q)" by blast
  let ?f = "stride_key s1 ?b"
  have f: "?f q = stride_key s base q - stride_key s base p" if "q \<in> set_tree l \<union> set_tree r" for q
  proof -
    have "q \<noteq> p" "stride_key s base p \<le> stride_key s base q" using that d hb t by auto
    then show ?thesis using stride_key_rebase [of s base p q] st1 [of q] by (simp add: stride_key_def)
  qed
  have fp: "?f p \<le> 2 ^ 30" using stp by (simp add: stride_key_def)
  have fb: "?f q \<le> 2 ^ 30" if "q \<in> insert p (set_tree l \<union> set_tree r)" for q
  proof (cases "q = p")
    case False
    then have "q \<in> set_tree l \<union> set_tree r" "q \<in> set_tree t" using that t by auto
    then show ?thesis using f [of q] bd by (auto intro: le_trans diff_le_self)
  qed (use fp in simp)
  have lt1: "cmp_lt (proc_stride_comp_f s1) x y \<longleftrightarrow> ?f x < ?f y"
    if "x \<in> insert p (set_tree l \<union> set_tree r)" "y \<in> insert p (set_tree l \<union> set_tree r)" for x y
    using stride_comp_key [of s1 ?b x y] fb that by blast
  have cmp2: "proc_stride_comp_f s2 = proc_stride_comp_f s1"
    by (intro ext) (simp add: proc_stride_comp_f_def s2(2))
  have "heap_by ?f l" "heap_by ?f r"
    using hb t f by (auto intro!: heap_by_mono [of "stride_key s base" _ ?f] diff_le_mono)
  then have "heap_by ?f ?m" using lt1 by (intro heap_by_smerge) auto
  then have hm: "heap_by ?f (smerge (cmp_lt (proc_stride_comp_f s2)) ?m (Node Leaf p Leaf))"
    using lt1 unfolding cmp2 by (intro heap_by_smerge [of ?f ?m]) auto
  have k3: "stride_key s3 ?b = ?f" using s3(3) s2(2) by (intro ext) (simp add: stride_key_def)
  have "stride_wf s3 (smerge (cmp_lt (proc_stride_comp_f s2)) ?m (Node Leaf p Leaf)) ?b"
    using s3(2) hm fb unfolding stride_wf_def k3 by auto
  moreover have "set_tree (smerge (cmp_lt (proc_stride_comp_f s2)) ?m (Node Leaf p Leaf)) = set_tree t" using t by auto
  ultimately show ?thesis using s1(1) s2(1) s3(1) by blast
qed

text \<open>Shortest job first: with priorities below 2 to the 31 the heap is ordered by priority.\<close>

definition sjf_wf :: "kern \<Rightarrow> nat tree \<Rightarrow> bool" where
  "sjf_wf s t \<longleftrightarrow> pool_wf s t \<and> heap_by (\<lambda>p. unat (lab6_priority (procs s p))) t \<and>
     (\<forall>p \<in> set_tree t. unat (lab6_priority (procs s p)) < 2 ^ 31)"

lemma sjf_comp_key:
  assumes "unat (lab6_priority (procs s a)) < 2 ^ 31" "unat (lab6_priority (procs s b)) < 2 ^ 31"
  shows "cmp_lt (proc_sjf_comp_f s) a b \<longleftrightarrow> unat (lab6_priority (procs s a)) < unat (lab6_priority (procs s b))"
proof -
  have c: "sint (lab6_priority (procs s a) - lab6_priority (procs s b)) =
      int (unat (lab6_priority (procs s a))) - int (unat (lab6_priority (procs s b)))"
    using sint_diff_window [of "lab6_priority (procs s a)" 0 "lab6_priority (procs s b)"] assms by simp
  show ?thesis unfolding cmp_lt_def proc_sjf_comp_f_def Let_def by (rule sign_less [OF c])
qed

lemma sjf_enqueue_order:
  assumes wf: "sjf_wf s t" and p: "p \<notin> set_tree t" and b: "unat (lab6_priority (procs s p)) < 2 ^ 31"
  shows "\<exists>s' t'. sjf_enqueue p s = Some s' \<and> sjf_wf s' t' \<and> set_tree t' = insert p (set_tree t)"
proof -
  let ?s1 = "upd_proc p (\<lambda>pr. pr\<lparr>lab6_priority := sjf_key pr\<rparr>) s"
  let ?k = "\<lambda>q. unat (lab6_priority (procs ?s1 q))"
  have pw: "pool_wf s t" and hb: "heap_by (\<lambda>p. unat (lab6_priority (procs s p))) t"
    and bd: "\<forall>p \<in> set_tree t. unat (lab6_priority (procs s p)) < 2 ^ 31" using wf by (simp_all add: sjf_wf_def)
  from sjf_enqueue_wf [OF pw p] obtain s' where s': "sjf_enqueue p s = Some s'"
    "pool_wf s' (smerge (cmp_lt (proc_sjf_comp_f ?s1)) t (Node Leaf p Leaf))"
    "\<forall>q. lab6_priority (procs s' q) = lab6_priority (procs ?s1 q)" by blast
  have kb: "\<forall>q \<in> insert p (set_tree t). ?k q < 2 ^ 31" using b bd p by (auto simp: sjf_key_def)
  have "heap_by ?k t" using hb p by (auto intro!: heap_by_mono [OF hb])
  then have "heap_by ?k (smerge (cmp_lt (proc_sjf_comp_f ?s1)) t (Node Leaf p Leaf))"
    by (rule heap_by_smerge) (use sjf_comp_key [of ?s1] kb in auto)
  then have "sjf_wf s' (smerge (cmp_lt (proc_sjf_comp_f ?s1)) t (Node Leaf p Leaf))"
    using s'(2) kb unfolding sjf_wf_def s'(3) [rule_format] by auto
  moreover have "set_tree (smerge (cmp_lt (proc_sjf_comp_f ?s1)) t (Node Leaf p Leaf)) = insert p (set_tree t)" by auto
  ultimately show ?thesis using s'(1) by blast
qed

lemma sjf_dequeue_order:
  assumes wf: "sjf_wf s t" and p: "p \<in> set_tree t"
  shows "\<exists>s' t'. sjf_dequeue p s = Some s' \<and> sjf_wf s' t' \<and> set_tree t' = set_tree t - {p}"
proof -
  have pw: "pool_wf s t" and hb: "heap_by (\<lambda>p. unat (lab6_priority (procs s p))) t"
    and bd: "\<forall>p \<in> set_tree t. unat (lab6_priority (procs s p)) < 2 ^ 31" using wf by (simp_all add: sjf_wf_def)
  have d: "dist t" using heap_repD(2) [OF pool_wfD(1) [OF pw]] .
  from sjf_dequeue_wf [OF pw p] obtain s' where s': "sjf_dequeue p s = Some s'" "procs s' = procs s"
    "pool_wf s' (sremove (cmp_lt (proc_sjf_comp_f s)) p t)" by blast
  have "heap_by (\<lambda>p. unat (lab6_priority (procs s p))) (sremove (cmp_lt (proc_sjf_comp_f s)) p t)"
    by (rule heap_by_sremove [OF hb d]) (use sjf_comp_key [of s] bd in auto)
  then have "sjf_wf s' (sremove (cmp_lt (proc_sjf_comp_f s)) p t)"
    using s'(2,3) bd set_sremove [OF d] by (auto simp: sjf_wf_def)
  then show ?thesis using s'(1) set_sremove [OF d] by blast
qed

lemma sjf_pick_min:
  assumes "sjf_wf s t" "lab6_run_pool s = Some p" "q \<in> pool_queued s"
  shows "lab6_priority (procs s p) \<le> lab6_priority (procs s q)"
proof -
  have "q \<in> set_tree t" "root_of t = Some p" "heap_by (\<lambda>p. unat (lab6_priority (procs s p))) t"
    using assms pool_wfD(4) [of s t] heap_repD(4) [OF pool_wfD(1), of s t] by (auto simp: sjf_wf_def)
  then show ?thesis using heap_by_root by (fastforce simp: word_le_nat_alt)
qed

end
