(* ===== verification/Timer.thy ===== *)
theory Timer
  imports Sched_RR
begin

unbundle bit_operations_syntax

text \<open>
  The timers of labcode/lab8/kern/schedule/sched.c.  \<^verbatim>\<open>timer_list\<close> is kept sorted by deadline; an
  entry's \<^verbatim>\<open>expires\<close> counts from the deadline of the entry before it, so a tick only touches the
  first one.  The abstract view is the list of absolute deadlines (\<open>deadlines\<close>); insertion adds
  one at its place, deletion removes one, a tick lowers all of them by one and removes and wakes
  those that reach zero.
\<close>

definition upd_timer :: "nat \<Rightarrow> (timer \<Rightarrow> timer) \<Rightarrow> kern \<Rightarrow> kern" where
  "upd_timer t f s = s\<lparr>timers := (timers s)(t := f (timers s t))\<rparr>"

lemma upd_timer_simps [simp]:
  "timers (upd_timer t f s) x = (if x = t then f (timers s t) else timers s x)"
  "procs (upd_timer t f s) = procs s" "current (upd_timer t f s) = current s"
  "idleproc (upd_timer t f s) = idleproc s" "run_list (upd_timer t f s) = run_list s"
  "proc_num (upd_timer t f s) = proc_num s" "lab6_run_pool (upd_timer t f s) = lab6_run_pool s"
  "pool (upd_timer t f s) = pool s" "timer_list (upd_timer t f s) = timer_list s"
  "max_time_slice (upd_timer t f s) = max_time_slice s" "rand_next (upd_timer t f s) = rand_next s"
  by (simp_all add: upd_timer_def)

definition timer_init :: "nat \<Rightarrow> nat option \<Rightarrow> u32 \<Rightarrow> kern \<Rightarrow> kern" where
  "timer_init t p e s =
     (let s1 = upd_timer t (\<lambda>tm. tm\<lparr>expires := e, tproc := p\<rparr>) s
      in s1\<lparr>timer_list := list_init (TimerLink t) (timer_list s1)\<rparr>)"

partial_function (option) add_loop :: "timer_entry \<Rightarrow> nat \<Rightarrow> kern \<Rightarrow> (timer_entry \<times> kern) option" where
  "add_loop le t s = (case le of
     TimerList \<Rightarrow> Some (le, s)
   | TimerLink nxt \<Rightarrow>
       if expires (timers s t) < expires (timers s nxt) then
         Some (le, upd_timer nxt (\<lambda>tm. tm\<lparr>expires := expires tm - expires (timers s t)\<rparr>) s)
       else
         let s1 = upd_timer t (\<lambda>tm. tm\<lparr>expires := expires tm - expires (timers s nxt)\<rparr>) s
         in add_loop (list_next le (timer_list s1)) t s1)"

declare add_loop.simps [code]

definition add_timer :: "nat \<Rightarrow> kern \<Rightarrow> kern option" where
  "add_timer t s = do {
     c_assert (0 < expires (timers s t) \<and> tproc (timers s t) \<noteq> None);
     c_assert (list_empty (TimerLink t) (timer_list s));
     (le, s1) \<leftarrow> add_loop (list_next TimerList (timer_list s)) t s;
     Some (s1\<lparr>timer_list := list_add_before le (TimerLink t) (timer_list s1)\<rparr>) }"

definition del_timer :: "nat \<Rightarrow> kern \<Rightarrow> kern" where
  "del_timer t s =
     (if \<not> list_empty (TimerLink t) (timer_list s) then
        let s1 = (if expires (timers s t) \<noteq> 0 then
                    (case list_next (TimerLink t) (timer_list s) of
                       TimerList \<Rightarrow> s
                     | TimerLink nxt \<Rightarrow>
                         upd_timer nxt (\<lambda>tm. tm\<lparr>expires := expires tm + expires (timers s t)\<rparr>) s)
                  else s)
        in s1\<lparr>timer_list := list_del_init (TimerLink t) (timer_list s1)\<rparr>
      else s)"

text \<open>The inner loop: \<open>t\<close> is the current timer, whose node is \<^verbatim>\<open>le\<close>.\<close>

partial_function (option) expire_loop :: "sched_class \<Rightarrow> nat \<Rightarrow> kern \<Rightarrow> kern option" where
  "expire_loop cl t s =
     (if expires (timers s t) = 0 then do {
        let le = list_next (TimerLink t) (timer_list s);
        p \<leftarrow> tproc (timers s t);
        c_assert (wait_state (procs s p) \<noteq> 0 \<longrightarrow> wait_state (procs s p) AND WT_INTERRUPTED \<noteq> 0);
        s1 \<leftarrow> wakeup_proc cl p s;
        let s2 = del_timer t s1;
        (case le of TimerList \<Rightarrow> Some s2 | TimerLink t' \<Rightarrow> expire_loop cl t' s2) }
      else Some s)"

declare expire_loop.simps [code]

definition run_timer_list :: "sched_class \<Rightarrow> kern \<Rightarrow> kern option" where
  "run_timer_list cl s = do {
     s1 \<leftarrow> (case list_next TimerList (timer_list s) of
        TimerList \<Rightarrow> Some s
      | TimerLink t \<Rightarrow> do {
          c_assert (expires (timers s t) \<noteq> 0);
          expire_loop cl t (upd_timer t (\<lambda>tm. tm\<lparr>expires := expires tm - 1\<rparr>) s) });
     Some (sched_class_proc_tick cl (current s1) s1) }"

subsection \<open>Deadlines\<close>

definition ex :: "kern \<Rightarrow> nat \<Rightarrow> nat" where
  "ex s t = unat (expires (timers s t))"

fun absl :: "(nat \<Rightarrow> nat) \<Rightarrow> nat \<Rightarrow> nat list \<Rightarrow> (nat \<times> nat) list" where
  "absl f a [] = []"
| "absl f a (t # ts) = (t, a + f t) # absl f (a + f t) ts"

definition deadlines :: "kern \<Rightarrow> nat list \<Rightarrow> (nat \<times> nat) list" where
  "deadlines s ts = absl (ex s) 0 ts"

lemma absl_append: "absl f a (xs @ ys) = absl f a xs @ absl f (a + sum_list (map f xs)) ys"
  by (induction xs arbitrary: a) (simp_all add: add.assoc)

lemma absl_cong: "(\<And>t. t \<in> set ts \<Longrightarrow> f t = g t) \<Longrightarrow> absl f a ts = absl g a ts"
  by (induction ts arbitrary: a) auto

lemma absl_bounds: "(t, d) \<in> set (absl f a ts) \<Longrightarrow> a \<le> d \<and> d \<le> a + sum_list (map f ts)"
  by (induction ts arbitrary: a) fastforce+

lemma absl_fst: "map fst (absl f a ts) = ts"
  by (induction ts arbitrary: a) auto

lemma absl_sorted: "sorted (map snd (absl f a ts))"
proof (induction ts arbitrary: a)
  case (Cons t ts)
  then show ?case using absl_bounds [of _ _ f "a + f t" ts] by fastforce
qed simp

definition tm_wf :: "kern \<Rightarrow> nat list \<Rightarrow> bool" where
  "tm_wf s ts \<longleftrightarrow> dll (timer_list s) TimerList (map TimerLink ts) \<and>
     (\<forall>t. t \<notin> set ts \<longrightarrow> list_empty (TimerLink t) (timer_list s))"

lemma tm_wfD:
  assumes "tm_wf s ts"
  shows "dll (timer_list s) TimerList (map TimerLink ts)" "distinct ts"
    "t \<notin> set ts \<Longrightarrow> list_empty (TimerLink t) (timer_list s)"
    "t \<in> set ts \<Longrightarrow> \<not> list_empty (TimerLink t) (timer_list s)"
proof -
  show d: "dll (timer_list s) TimerList (map TimerLink ts)" using assms by (simp add: tm_wf_def)
  then show "distinct ts" using dll_distinct [OF d] by (simp add: distinct_map)
  show "t \<in> set ts \<Longrightarrow> \<not> list_empty (TimerLink t) (timer_list s)"
    using dll_member_not_empty [OF d] by simp
qed (use assms in \<open>auto simp: tm_wf_def\<close>)

lemma tm_wf_insert:
  assumes wf: "tm_wf s (xs @ ys)" and t: "t \<notin> set (xs @ ys)"
    and le: "le = (case ys of [] \<Rightarrow> TimerList | y # _ \<Rightarrow> TimerLink y)"
  shows "tm_wf (s\<lparr>timer_list := list_add_before le (TimerLink t) (timer_list s)\<rparr>) (xs @ t # ys)"
proof -
  note w = tm_wfD [OF wf]
  let ?l = "list_add_before le (TimerLink t) (timer_list s)"
  have d: "dll ?l TimerList (map TimerLink (xs @ t # ys))"
  proof (cases ys)
    case Nil
    then show ?thesis using dll_add_before_head [OF w(1), of "TimerLink t"] t le by auto
  next
    case (Cons y zs)
    then show ?thesis
      using dll_add_before [of "timer_list s" TimerList "map TimerLink xs" "TimerLink y" "map TimerLink zs" "TimerLink t"]
        w(1) t le by auto
  qed
  have "list_empty (TimerLink q) ?l" if "q \<notin> set (xs @ t # ys)" for q
  proof -
    have "lprev (timer_list s) le = (if xs = [] then TimerList else TimerLink (last xs))"
    proof (cases ys)
      case Nil
      then show ?thesis using dll_prev_head [OF w(1)] le by (auto simp: last_map)
    next
      case (Cons y zs)
      then show ?thesis
        using dll_prev_mid [of "timer_list s" TimerList "map TimerLink xs" "TimerLink y" "map TimerLink zs"] w(1) le
        by (auto simp: last_map)
    qed
    then have "lnext ?l (TimerLink q) = lnext (timer_list s) (TimerLink q)" using that by (auto simp: link_defs)
    then show ?thesis using w(3) [of q] that by (simp add: list_empty_def)
  qed
  with d show ?thesis by (simp add: tm_wf_def)
qed

lemma tm_wf_remove:
  assumes wf: "tm_wf s (xs @ t # ys)"
  shows "tm_wf (s\<lparr>timer_list := list_del_init (TimerLink t) (timer_list s)\<rparr>) (xs @ ys)"
proof -
  note w = tm_wfD [OF wf]
  let ?l = "list_del_init (TimerLink t) (timer_list s)"
  have d: "dll ?l TimerList (map TimerLink (xs @ ys))"
    using dll_del_init [of "timer_list s" TimerList "map TimerLink xs" "TimerLink t" "map TimerLink ys"] w(1) by simp
  have "list_empty (TimerLink q) ?l" if "q \<notin> set (xs @ ys)" for q
  proof (cases "q = t")
    case True
    then show ?thesis by (simp add: list_del_init_empty)
  next
    case False
    have "lprev (timer_list s) (TimerLink t) = (if xs = [] then TimerList else TimerLink (last xs))"
      using dll_prev_mid [of "timer_list s" TimerList "map TimerLink xs" "TimerLink t" "map TimerLink ys"] w(1)
      by (auto simp: last_map)
    then have "lnext ?l (TimerLink q) = lnext (timer_list s) (TimerLink q)"
      using False that by (auto simp: link_defs)
    then show ?thesis using w(3) [of q] that False by (simp add: list_empty_def)
  qed
  with d show ?thesis by (simp add: tm_wf_def)
qed

lemma tm_wf_cong: "tm_wf s ts \<Longrightarrow> timer_list s' = timer_list s \<Longrightarrow> tm_wf s' ts"
  by (simp add: tm_wf_def)

subsection \<open>Insertion\<close>

lemma ex_sub: "b \<le> a \<Longrightarrow> unat (a - b) = unat a - unat b" for a b :: u32
  by (rule unat_sub)

text \<open>The entry the insertion stops at.\<close>

definition entry :: "nat list \<Rightarrow> timer_entry" where
  "entry ys = (case ys of [] \<Rightarrow> TimerList | y # _ \<Rightarrow> TimerLink y)"

lemma add_loop_ok:
  assumes "path (lnext (timer_list s)) e (map TimerLink ys) TimerList" "distinct (t # ys)"
  shows "\<exists>xs zs s'. ys = xs @ zs \<and> add_loop (lnext (timer_list s) e) t s = Some (entry zs, s') \<and>
    (\<exists>tm. s' = s\<lparr>timers := tm\<rparr>) \<and> sum_list (map (ex s) xs) \<le> ex s t \<and>
    ex s' t = ex s t - sum_list (map (ex s) xs) \<and> (\<forall>q. tproc (timers s' q) = tproc (timers s q)) \<and>
    (case zs of [] \<Rightarrow> \<forall>q. q \<noteq> t \<longrightarrow> ex s' q = ex s q
     | z # _ \<Rightarrow> ex s' t < ex s z \<and> ex s' z = ex s z - ex s' t \<and> (\<forall>q. q \<noteq> t \<and> q \<noteq> z \<longrightarrow> ex s' q = ex s q))"
  using assms
proof (induction ys arbitrary: e s)
  case Nil
  then show ?case
    by (intro exI [of _ "[]"] exI [of _ s]) (auto simp: add_loop.simps entry_def intro: exI [of _ "timers s"])
next
  case (Cons y ys)
  have e: "lnext (timer_list s) e = TimerLink y" using Cons.prems(1) by simp
  show ?case
  proof (cases "expires (timers s t) < expires (timers s y)")
    case True
    let ?s1 = "upd_timer y (\<lambda>tm. tm\<lparr>expires := expires tm - expires (timers s t)\<rparr>) s"
    have "add_loop (lnext (timer_list s) e) t s = Some (entry (y # ys), ?s1)"
      using e True by (simp add: add_loop.simps entry_def)
    moreover have "ex ?s1 y = ex s y - ex s t" "ex s t < ex s y" "t \<noteq> y"
      using True Cons.prems(2) ex_sub [of "expires (timers s t)" "expires (timers s y)"]
      by (auto simp: ex_def word_less_nat_alt word_le_nat_alt)
    ultimately show ?thesis
      by (intro exI [of _ "[]"] exI [of _ "y # ys"] exI [of _ ?s1]) (auto simp: ex_def upd_timer_def)
  next
    case False
    let ?s1 = "upd_timer t (\<lambda>tm. tm\<lparr>expires := expires tm - expires (timers s y)\<rparr>) s"
    have st: "add_loop (lnext (timer_list s) e) t s = add_loop (lnext (timer_list ?s1) (TimerLink y)) t ?s1"
      using e False by (simp add: add_loop.simps [of "TimerLink y"] list_next_def Let_def)
    have x1: "ex ?s1 t = ex s t - ex s y" "ex s y \<le> ex s t"
      using False by (simp_all add: ex_def ex_sub word_le_nat_alt not_less)
    have x2: "ex ?s1 q = ex s q" if "q \<noteq> t" for q using that by (simp add: ex_def)
    have "path (lnext (timer_list ?s1)) (TimerLink y) (map TimerLink ys) TimerList" "distinct (t # ys)"
      using Cons.prems by simp_all
    from Cons.IH [OF this] obtain xs zs s' where r: "ys = xs @ zs"
      "add_loop (lnext (timer_list ?s1) (TimerLink y)) t ?s1 = Some (entry zs, s')"
      "\<exists>tm. s' = ?s1\<lparr>timers := tm\<rparr>" "sum_list (map (ex ?s1) xs) \<le> ex ?s1 t"
      "ex s' t = ex ?s1 t - sum_list (map (ex ?s1) xs)" "\<forall>q. tproc (timers s' q) = tproc (timers ?s1 q)"
      "case zs of [] \<Rightarrow> \<forall>q. q \<noteq> t \<longrightarrow> ex s' q = ex ?s1 q
       | z # _ \<Rightarrow> ex s' t < ex ?s1 z \<and> ex s' z = ex ?s1 z - ex s' t \<and> (\<forall>q. q \<noteq> t \<and> q \<noteq> z \<longrightarrow> ex s' q = ex ?s1 q)"
      by blast
    have sm: "map (ex ?s1) xs = map (ex s) xs" by (intro map_cong refl x2) (use r(1) Cons.prems(2) in auto)
    have tp: "\<forall>q. tproc (timers s' q) = tproc (timers s q)" using r(6) by simp
    have "t \<notin> set zs" using r(1) Cons.prems(2) by auto
    then have zs: "case zs of [] \<Rightarrow> \<forall>q. q \<noteq> t \<longrightarrow> ex s' q = ex s q
       | z # _ \<Rightarrow> ex s' t < ex s z \<and> ex s' z = ex s z - ex s' t \<and> (\<forall>q. q \<noteq> t \<and> q \<noteq> z \<longrightarrow> ex s' q = ex s q)"
      using r(7) x2 by (cases zs) auto
    have "\<exists>tm. s' = s\<lparr>timers := tm\<rparr>" using r(3) by (auto simp: upd_timer_def)
    moreover have "sum_list (map (ex s) (y # xs)) \<le> ex s t" "ex s' t = ex s t - sum_list (map (ex s) (y # xs))"
      using r(4,5) x1 unfolding sm by simp_all
    ultimately show ?thesis using r(1,2) st tp zs
      by (intro exI [of _ "y # xs"] exI [of _ zs] exI [of _ s']) simp
  qed
qed

lemma add_timer_ok:
  assumes wf: "tm_wf s ts" and t: "t \<notin> set ts" "0 < expires (timers s t)" "tproc (timers s t) \<noteq> None"
  shows "\<exists>xs ys s'. ts = xs @ ys \<and> add_timer t s = Some s' \<and> tm_wf s' (xs @ t # ys) \<and>
    same_queue s s' \<and> procs s' = procs s \<and> current s' = current s \<and> idleproc s' = idleproc s \<and>
    deadlines s' (xs @ t # ys) = absl (ex s) 0 xs @ (t, ex s t) # absl (ex s) (sum_list (map (ex s) xs)) ys \<and>
    (\<forall>d \<in> set (map snd (absl (ex s) (sum_list (map (ex s) xs)) ys)). ex s t < d)"
proof -
  note w = tm_wfD [OF wf]
  have "path (lnext (timer_list s)) TimerList (map TimerLink ts) TimerList" using w(1) by (simp add: dll_def)
  from add_loop_ok [OF this, of t] t w(2) obtain xs zs s1 where r: "ts = xs @ zs"
    "add_loop (lnext (timer_list s) TimerList) t s = Some (entry zs, s1)"
    "\<exists>tm. s1 = s\<lparr>timers := tm\<rparr>" "sum_list (map (ex s) xs) \<le> ex s t"
    "ex s1 t = ex s t - sum_list (map (ex s) xs)"
    "case zs of [] \<Rightarrow> \<forall>q. q \<noteq> t \<longrightarrow> ex s1 q = ex s q
     | z # _ \<Rightarrow> ex s1 t < ex s z \<and> ex s1 z = ex s z - ex s1 t \<and> (\<forall>q. q \<noteq> t \<and> q \<noteq> z \<longrightarrow> ex s1 q = ex s q)"
    by auto
  obtain tm where tm: "s1 = s\<lparr>timers := tm\<rparr>" using r(3) by blast
  let ?s' = "s1\<lparr>timer_list := list_add_before (entry zs) (TimerLink t) (timer_list s1)\<rparr>"
  have "tm_wf s1 (xs @ zs)" using wf tm r(1) by (simp add: tm_wf_def)
  then have wf': "tm_wf ?s' (xs @ t # zs)"
    using t(1) r(1) by (intro tm_wf_insert) (simp_all add: entry_def)
  have at: "add_timer t s = Some ?s'"
    using t w(3) [OF t(1)] r(2) by (simp add: add_timer_def list_next_def)
  have exs: "ex ?s' = ex s1" by (intro ext) (simp add: ex_def)
  have dis: "distinct (t # xs @ zs)" using t(1) r(1) w(2) by simp
  have xs: "absl (ex s1) 0 xs = absl (ex s) 0 xs" "sum_list (map (ex s1) xs) = sum_list (map (ex s) xs)"
  proof -
    have "ex s1 q = ex s q" if "q \<in> set xs" for q
      using r(6) that dis by (cases zs) auto
    then show "absl (ex s1) 0 xs = absl (ex s) 0 xs" "sum_list (map (ex s1) xs) = sum_list (map (ex s) xs)"
      by (auto intro: absl_cong arg_cong [where f = sum_list])
  qed
  let ?a = "sum_list (map (ex s) xs)"
  have ta: "?a + ex s1 t = ex s t" using r(4,5) by simp
  have zs: "absl (ex s1) (ex s t) zs = absl (ex s) ?a zs \<and> (\<forall>d \<in> set (map snd (absl (ex s) ?a zs)). ex s t < d)"
  proof (cases zs)
    case (Cons z zs')
    then have z: "ex s1 t < ex s z" "ex s1 z = ex s z - ex s1 t" "\<forall>q. q \<noteq> t \<and> q \<noteq> z \<longrightarrow> ex s1 q = ex s q"
      using r(6) by simp_all
    have "absl (ex s1) b zs' = absl (ex s) b zs'" for b
      using z(3) dis Cons by (intro absl_cong) auto
    moreover have "ex s t + ex s1 z = ?a + ex s z" using z(1,2) ta by simp
    moreover have "\<forall>d \<in> set (map snd (absl (ex s) (?a + ex s z) zs')). ex s t < d"
      using absl_bounds [of _ _ "ex s" "?a + ex s z" zs'] z(1) ta by fastforce
    moreover have "ex s t < ?a + ex s z" using z(1) ta by simp
    ultimately show ?thesis using Cons by simp
  qed simp
  have "deadlines ?s' (xs @ t # zs) = absl (ex s) 0 xs @ (t, ex s t) # absl (ex s) ?a zs"
    using xs ta zs by (simp add: deadlines_def exs absl_append)
  moreover have "same_queue s ?s'" "procs ?s' = procs s" "current ?s' = current s" "idleproc ?s' = idleproc s"
    using tm by (simp_all add: same_queue_def)
  ultimately show ?thesis using r(1) at wf' zs by blast
qed

subsection \<open>Deletion\<close>

lemma del_timer_ok:
  assumes wf: "tm_wf s (xs @ t # ys)" and bnd: "case ys of [] \<Rightarrow> True | y # _ \<Rightarrow> ex s t + ex s y < 2 ^ 32"
  shows "tm_wf (del_timer t s) (xs @ ys)"
    and "deadlines (del_timer t s) (xs @ ys) = filter (\<lambda>(q, _). q \<noteq> t) (deadlines s (xs @ t # ys))"
    and "\<exists>tm l. del_timer t s = s\<lparr>timers := tm, timer_list := l\<rparr>"
proof -
  note w = tm_wfD [OF wf]
  have ne: "\<not> list_empty (TimerLink t) (timer_list s)" using w(4) by simp
  have nx: "lnext (timer_list s) (TimerLink t) = entry ys"
    using dll_next_mid [of "timer_list s" TimerList "map TimerLink xs" "TimerLink t" "map TimerLink ys"] w(1)
    by (cases ys) (auto simp: entry_def)
  define s1 where "s1 = (case ys of [] \<Rightarrow> s | y # _ \<Rightarrow>
      if expires (timers s t) \<noteq> 0 then upd_timer y (\<lambda>tm. tm\<lparr>expires := expires tm + expires (timers s t)\<rparr>) s else s)"
  have d: "del_timer t s = s1\<lparr>timer_list := list_del_init (TimerLink t) (timer_list s1)\<rparr>"
    using ne nx by (cases ys) (simp_all add: del_timer_def s1_def list_next_def entry_def Let_def)
  have tl: "timer_list s1 = timer_list s" by (simp add: s1_def split: list.split)
  have "tm_wf s1 (xs @ t # ys)" by (rule tm_wf_cong [OF wf tl])
  then show "tm_wf (del_timer t s) (xs @ ys)" unfolding d by (rule tm_wf_remove)
  show "\<exists>tm l. del_timer t s = s\<lparr>timers := tm, timer_list := l\<rparr>"
  proof -
    have "\<exists>tm. s1 = s\<lparr>timers := tm\<rparr>"
      by (cases ys) (auto simp: s1_def upd_timer_def intro: exI [of _ "timers s"])
    then show ?thesis unfolding d by auto
  qed
  have e1: "ex (del_timer t s) = ex s1" by (intro ext) (simp add: ex_def d)
  have dis: "distinct (xs @ t # ys)" using w(2) .
  have xs: "absl (ex s1) 0 xs = absl (ex s) 0 xs" "sum_list (map (ex s1) xs) = sum_list (map (ex s) xs)"
  proof -
    have "ex s1 q = ex s q" if "q \<in> set xs" for q using that dis by (auto simp: s1_def ex_def split: list.split)
    then show "absl (ex s1) 0 xs = absl (ex s) 0 xs" "sum_list (map (ex s1) xs) = sum_list (map (ex s) xs)"
      by (auto intro: absl_cong arg_cong [where f = sum_list])
  qed
  have ys: "absl (ex s1) a ys = absl (ex s) (a + ex s t) ys" for a
  proof (cases ys)
    case (Cons y zs)
    then have "ex s t + ex s y < 2 ^ 32" using bnd by simp
    then have "unat (expires (timers s y) + expires (timers s t)) = ex s t + ex s y"
      using unat_add_small [of "expires (timers s y)" "expires (timers s t)"] by (simp add: ex_def)
    then have "ex s1 y = ex s t + ex s y"
      using Cons by (cases "expires (timers s t) = 0") (simp_all add: s1_def ex_def)
    then have "a + ex s1 y = a + ex s t + ex s y" by simp
    moreover have "absl (ex s1) b zs = absl (ex s) b zs" for b
      using dis Cons by (intro absl_cong) (auto simp: s1_def ex_def)
    ultimately show ?thesis unfolding Cons absl.simps by (simp only:)
  qed simp
  have keep: "filter (\<lambda>(q, _). q \<noteq> t) (absl f a qs) = absl f a qs" if "t \<notin> set qs" for f a qs
    using that by (induction qs arbitrary: a) auto
  show "deadlines (del_timer t s) (xs @ ys) = filter (\<lambda>(q, _). q \<noteq> t) (deadlines s (xs @ t # ys))"
    using keep [of xs] keep [of ys] dis xs ys by (simp add: deadlines_def e1 absl_append)
qed

subsection \<open>Expiry\<close>

definition wakeable :: "kern \<Rightarrow> nat \<Rightarrow> bool" where
  "wakeable s t \<longleftrightarrow> (\<exists>p. tproc (timers s t) = Some p \<and> state (procs s p) \<noteq> PROC_ZOMBIE \<and>
     (wait_state (procs s p) = 0 \<or> wait_state (procs s p) AND WT_INTERRUPTED \<noteq> 0))"

definition woken :: "kern \<Rightarrow> kern \<Rightarrow> nat set \<Rightarrow> bool" where
  "woken s s' T \<longleftrightarrow> (\<forall>t \<in> T. \<forall>p. tproc (timers s t) = Some p \<longrightarrow> state (procs s' p) = PROC_RUNNABLE) \<and>
     (\<forall>p. state (procs s' p) \<noteq> state (procs s p) \<longrightarrow>
        state (procs s' p) = PROC_RUNNABLE \<and> (\<exists>t \<in> T. tproc (timers s t) = Some p))"

lemma del_timer_zero:
  assumes "tm_wf s (t # ys)" "expires (timers s t) = 0"
  shows "del_timer t s = s\<lparr>timer_list := list_del_init (TimerLink t) (timer_list s)\<rparr>"
    "tm_wf (del_timer t s) ys"
proof -
  show d: "del_timer t s = s\<lparr>timer_list := list_del_init (TimerLink t) (timer_list s)\<rparr>"
    using assms tm_wfD(4) [OF assms(1), of t] by (simp add: del_timer_def)
  show "tm_wf (del_timer t s) ys" unfolding d using tm_wf_remove [of s "[]" t ys] assms by simp
qed

lemma woken_trans:
  assumes "woken s s2 {t}" "woken s2 s' T" "timers s2 = timers s"
  shows "woken s s' (insert t T)"
  unfolding woken_def
proof (intro conjI ballI allI impI)
  fix q p assume q: "q \<in> insert t T" "tproc (timers s q) = Some p"
  show "state (procs s' p) = PROC_RUNNABLE"
  proof (cases "q \<in> T")
    case False
    then have "state (procs s2 p) = PROC_RUNNABLE" using q assms(1) unfolding woken_def by blast
    moreover have "state (procs s' p) = state (procs s2 p) \<or> state (procs s' p) = PROC_RUNNABLE"
      using assms(2) unfolding woken_def by blast
    ultimately show ?thesis by auto
  qed (use q assms(2,3) in \<open>auto simp: woken_def\<close>)
next
  fix p assume n: "state (procs s' p) \<noteq> state (procs s p)"
  have one: "state (procs s2 p) = PROC_RUNNABLE \<and> tproc (timers s t) = Some p"
    if "state (procs s2 p) \<noteq> state (procs s p)"
    using assms(1) that unfolding woken_def by blast
  have more: "state (procs s' p) = PROC_RUNNABLE \<and> (\<exists>q \<in> T. tproc (timers s q) = Some p)"
    if "state (procs s' p) \<noteq> state (procs s2 p)"
    using assms(2) that unfolding woken_def assms(3) by blast
  show "\<exists>q \<in> insert t T. tproc (timers s q) = Some p"
  proof (cases "state (procs s' p) = state (procs s2 p)")
    case True
    with n have "state (procs s2 p) \<noteq> state (procs s p)" by simp
    from one [OF this] show ?thesis by blast
  next
    case False
    from more [OF this] show ?thesis by blast
  qed
  show "state (procs s' p) = PROC_RUNNABLE"
  proof (cases "state (procs s' p) = state (procs s2 p)")
    case True
    with n have "state (procs s2 p) \<noteq> state (procs s p)" by simp
    from one [OF this] True show ?thesis by simp
  next
    case False
    from more [OF this] show ?thesis by blast
  qed
qed

context scheduling_class begin

lemma sched_inv_cong:
  assumes "sched_inv ok queued s" "same_queue s s'" "current s' = current s" "idleproc s' = idleproc s" "procs s' = procs s"
  shows "sched_inv ok queued s'"
  using assms frame [of s s'] by (auto simp: sched_inv_def runnables_def)

text \<open>One expired timer: its process is woken, its entry leaves the list.\<close>

lemma expire_step:
  assumes inv: "sched_inv ok queued s" and wf: "tm_wf s (t # ys)" and e0: "ex s t = 0" and wk: "wakeable s t"
  obtains s2 where
    "expire_loop cl t s = (case entry ys of TimerList \<Rightarrow> Some s2 | TimerLink t' \<Rightarrow> expire_loop cl t' s2)"
    "sched_inv ok queued s2" "tm_wf s2 ys" "timers s2 = timers s" "current s2 = current s"
    "woken s s2 {t}" "\<forall>q. wait_state (procs s2 q) \<in> {0, wait_state (procs s q)}"
proof -
  obtain p where p: "tproc (timers s t) = Some p" "state (procs s p) \<noteq> PROC_ZOMBIE"
    "wait_state (procs s p) \<noteq> 0 \<longrightarrow> wait_state (procs s p) AND WT_INTERRUPTED \<noteq> 0"
    using wk unfolding wakeable_def by blast
  from wakeup_inv [OF inv p(2)] obtain s1 where s1: "wakeup_proc cl p s = Some s1" "sched_inv ok queued s1"
    "state (procs s1 p) = PROC_RUNNABLE" "current s1 = current s" "timers s1 = timers s" "timer_list s1 = timer_list s"
    "\<forall>q. q \<noteq> p \<longrightarrow> state (procs s1 q) = state (procs s q)"
    "\<forall>q. wait_state (procs s1 q) \<in> {0, wait_state (procs s q)}" by blast
  have x0: "expires (timers s t) = 0" using e0 by (simp add: ex_def unat_eq_0)
  have wf1: "tm_wf s1 (t # ys)" by (rule tm_wf_cong [OF wf s1(6)])
  define s2 where "s2 = del_timer t s1"
  have d: "s2 = s1\<lparr>timer_list := list_del_init (TimerLink t) (timer_list s1)\<rparr>" "tm_wf s2 ys"
    using del_timer_zero [OF wf1] x0 s1(5) by (simp_all add: s2_def)
  have nx: "list_next (TimerLink t) (timer_list s) = entry ys"
    using dll_next_mid [of "timer_list s" TimerList "[]" "TimerLink t" "map TimerLink ys"] tm_wfD(1) [OF wf]
    by (cases ys) (simp_all add: entry_def list_next_def)
  have a: "c_assert (wait_state (procs s p) \<noteq> 0 \<longrightarrow> wait_state (procs s p) AND WT_INTERRUPTED \<noteq> 0) = Some ()"
    using p(3) by (simp add: c_assert_def)
  have "expire_loop cl t s = (case entry ys of TimerList \<Rightarrow> Some s2 | TimerLink t' \<Rightarrow> expire_loop cl t' s2)"
    using x0 p(1) s1(1) nx by (subst expire_loop.simps) (simp add: a Let_def s2_def split: timer_entry.split)
  moreover have "sched_inv ok queued s2"
    by (rule sched_inv_cong [OF s1(2)]) (simp_all add: d(1) same_queue_def)
  moreover have "woken s s2 {t}" using s1(3,7) p(1) by (auto simp: woken_def d(1))
  ultimately show thesis using that d s1(4,5,8) by simp
qed

lemma expire_loop_ok:
  assumes "sched_inv ok queued s" "tm_wf s (t # ys)"
    and "\<forall>q \<in> set (takeWhile (\<lambda>q. ex s q = 0) (t # ys)). wakeable s q"
  shows "\<exists>s'. expire_loop cl t s = Some s' \<and> sched_inv ok queued s' \<and>
    tm_wf s' (dropWhile (\<lambda>q. ex s q = 0) (t # ys)) \<and> timers s' = timers s \<and> current s' = current s \<and>
    woken s s' (set (takeWhile (\<lambda>q. ex s q = 0) (t # ys)))"
  using assms
proof (induction ys arbitrary: t s)
  case Nil
  show ?case
  proof (cases "ex s t = 0")
    case False
    then show ?thesis using Nil by (simp add: expire_loop.simps ex_def woken_def unat_eq_0)
  next
    case True
    with Nil.prems(3) have "wakeable s t" by simp
    from expire_step [OF Nil.prems(1,2) True this] True show ?thesis by (auto simp: entry_def)
  qed
next
  case (Cons y ys)
  show ?case
  proof (cases "ex s t = 0")
    case False
    then show ?thesis using Cons.prems by (simp add: expire_loop.simps ex_def woken_def unat_eq_0)
  next
    case True
    let ?T = "set (takeWhile (\<lambda>q. ex s q = 0) (y # ys))"
    from True Cons.prems(3) have "wakeable s t" by simp
    from expire_step [OF Cons.prems(1,2) True this] obtain s2 where s2: "expire_loop cl t s = expire_loop cl y s2"
      "sched_inv ok queued s2" "tm_wf s2 (y # ys)" "timers s2 = timers s" "current s2 = current s"
      "woken s s2 {t}" "\<forall>q. wait_state (procs s2 q) \<in> {0, wait_state (procs s q)}" by (auto simp: entry_def)
    have x2: "ex s2 = ex s" by (intro ext) (simp add: ex_def s2(4))
    have "wakeable s2 q" if "q \<in> ?T" for q
    proof -
      have "wakeable s q" by (rule bspec [OF Cons.prems(3)]) (use True that in simp)
      then obtain p where p: "tproc (timers s q) = Some p" "state (procs s p) \<noteq> PROC_ZOMBIE"
        "wait_state (procs s p) = 0 \<or> wait_state (procs s p) AND WT_INTERRUPTED \<noteq> 0" by (auto simp: wakeable_def)
      have "state (procs s2 p) \<noteq> PROC_ZOMBIE"
      proof -
        have "state (procs s2 p) = state (procs s p) \<or> state (procs s2 p) = PROC_RUNNABLE"
          using s2(6) unfolding woken_def by blast
        then show ?thesis using p(2) by auto
      qed
      moreover have "wait_state (procs s2 p) = 0 \<or> wait_state (procs s2 p) AND WT_INTERRUPTED \<noteq> 0"
        using s2(7) p(3) by (metis insertE empty_iff)
      ultimately show ?thesis using p(1) s2(4) by (simp add: wakeable_def)
    qed
    with Cons.IH [OF s2(2,3)] x2 obtain s' where s': "expire_loop cl y s2 = Some s'" "sched_inv ok queued s'"
      "tm_wf s' (dropWhile (\<lambda>q. ex s q = 0) (y # ys))" "timers s' = timers s2" "current s' = current s2"
      "woken s2 s' ?T" by auto
    have "woken s s' (insert t ?T)" by (rule woken_trans [OF s2(6) s'(6) s2(4)])
    then show ?thesis using s2 s' True by auto
  qed
qed

text \<open>A tick: all deadlines go down by one, those that reach zero leave the list and their
  processes are woken.\<close>

lemma run_timer_list_ok:
  assumes inv: "sched_inv ok queued s" and wf: "tm_wf s (t # ys)" and pos: "0 < ex s t"
    and wk: "\<forall>q \<in> set (takeWhile (\<lambda>q. (if q = t then ex s q - 1 else ex s q) = 0) (t # ys)). wakeable s q"
  shows "\<exists>s1 s' gone rest. t # ys = gone @ rest \<and> run_timer_list cl s = Some s' \<and>
    s' = sched_class_proc_tick cl (current s) s1 \<and> sched_inv ok queued s' \<and>
    tm_wf s1 rest \<and> woken s s1 (set gone) \<and>
    deadlines s (t # ys) = map (\<lambda>q. (q, 1)) gone @ map (\<lambda>(q, d). (q, d + 1)) (deadlines s1 rest) \<and>
    (\<forall>d \<in> set (map snd (deadlines s1 rest)). 0 < d)"
proof -
  let ?s0 = "upd_timer t (\<lambda>tm. tm\<lparr>expires := expires tm - 1\<rparr>) s"
  have x0: "ex ?s0 q = (if q = t then ex s q - 1 else ex s q)" for q
  proof -
    have "(1::32 word) \<le> expires (timers s t)" using pos by (simp add: ex_def word_le_nat_alt)
    then show ?thesis by (simp add: ex_def unat_sub)
  qed
  have i0: "sched_inv ok queued ?s0" by (rule sched_inv_cong [OF inv]) (simp_all add: same_queue_def)
  have wf0: "tm_wf ?s0 (t # ys)" by (rule tm_wf_cong [OF wf]) simp
  have wk0: "wakeable ?s0 q = wakeable s q" for q by (simp add: wakeable_def)
  define gone rest where "gone = takeWhile (\<lambda>q. ex ?s0 q = 0) (t # ys)" "rest = dropWhile (\<lambda>q. ex ?s0 q = 0) (t # ys)"
  from expire_loop_ok [OF i0 wf0] wk obtain s1 where s1: "expire_loop cl t ?s0 = Some s1" "sched_inv ok queued s1"
    "tm_wf s1 rest" "timers s1 = timers ?s0" "current s1 = current ?s0" "woken ?s0 s1 (set gone)"
    unfolding gone_rest_def x0 wk0 by blast
  have sp: "t # ys = gone @ rest" unfolding gone_rest_def by simp
  have nx: "list_next TimerList (timer_list s) = TimerLink t"
    using dll_next_head [OF tm_wfD(1) [OF wf]] by (simp add: list_next_def)
  have "expires (timers s t) \<noteq> 0" using pos by (auto simp: ex_def)
  then have r: "run_timer_list cl s = Some (sched_class_proc_tick cl (current s) s1)"
    using s1(1,5) nx by (simp add: run_timer_list_def)
  have x1: "ex s1 = ex ?s0" by (intro ext) (simp add: ex_def s1(4))
  have dis: "t \<notin> set ys" using tm_wfD(2) [OF wf] by simp
  have shift: "absl f (a + 1) qs = map (\<lambda>(q, d). (q, d + 1)) (absl f a qs)" for f a qs
    by (induction qs arbitrary: a) auto
  have zero: "absl (ex ?s0) 0 gone = map (\<lambda>q. (q, 0)) gone \<and> sum_list (map (ex ?s0) gone) = 0"
  proof -
    have "\<forall>q \<in> set gone. ex ?s0 q = 0" unfolding gone_rest_def by (meson set_takeWhileD)
    then show ?thesis by (induction gone) auto
  qed
  have "deadlines s (t # ys) = absl (ex ?s0) 1 (t # ys)"
  proof -
    have "absl (ex s) b ys = absl (ex ?s0) b ys" for b using dis by (intro absl_cong) (auto simp: ex_def)
    moreover have "ex s t = 1 + ex ?s0 t" using x0 [of t] pos by simp
    ultimately show ?thesis unfolding deadlines_def absl.simps by (simp only: add_0)
  qed
  also have "\<dots> = map (\<lambda>(q, d). (q, d + 1)) (absl (ex ?s0) 0 (gone @ rest))" using shift [of _ 0] sp by simp
  also have "\<dots> = map (\<lambda>q. (q, 1)) gone @ map (\<lambda>(q, d). (q, d + 1)) (deadlines s1 rest)"
    unfolding absl_append deadlines_def x1 zero [THEN conjunct1] zero [THEN conjunct2] by (simp add: o_def)
  finally have dl: "deadlines s (t # ys) = map (\<lambda>q. (q, 1)) gone @ map (\<lambda>(q, d). (q, d + 1)) (deadlines s1 rest)" .
  have pd: "\<forall>d \<in> set (map snd (deadlines s1 rest)). 0 < d"
  proof (cases rest)
    case (Cons q qs)
    then have "ex ?s0 q \<noteq> 0" using hd_dropWhile [of "\<lambda>q. ex ?s0 q = 0" "t # ys"] unfolding gone_rest_def by simp
    then show ?thesis using Cons absl_bounds [of _ _ "ex s1" "ex s1 q" qs] x1
      by (fastforce simp: deadlines_def)
  qed (simp add: deadlines_def)
  have "tproc (timers ?s0 q) = tproc (timers s q)" for q by simp
  then have "woken s s1 (set gone)"
    using s1(6) unfolding woken_def by (simp only: upd_timer_simps(2))
  moreover have "sched_inv ok queued (sched_class_proc_tick cl (current s) s1)" by (rule tick_inv [OF s1(2)])
  ultimately show ?thesis using sp r s1(3) dl pd by blast
qed

end

end
