(* ===== verification/Sched_Theorems.thy ===== *)
theory Sched_Theorems
  imports Sched_Lottery Sched_Stride Timer
begin

unbundle bit_operations_syntax

text \<open>
  The properties of the scheduler core, its four policies, the skew heap and the timers
  (labcode/lab6 and labcode/lab8, kern/schedule and libs), with instances on a small system: an
  idle process 0 and processes 1, 2, 3.
\<close>

subsection \<open>A small system\<close>

definition demo_proc :: "proc_state \<Rightarrow> u32 \<Rightarrow> proc_struct" where
  "demo_proc st pri = \<lparr>state = st, pid = 0, runs = 0, need_resched = False, parent = None, flags = 0,
     exit_code = 0, wait_state = 0, cptr = None, yptr = None, optr = None, has_rq = False,
     time_slice = 0, lab6_stride = 0, lab6_priority = pri\<rparr>"

definition demo_kern :: "nat \<Rightarrow> nat set \<Rightarrow> kern" where
  "demo_kern cur ready = \<lparr>procs = (\<lambda>p. demo_proc (if p \<in> ready then PROC_RUNNABLE else PROC_SLEEPING) (of_nat (p + 1))),
     current = cur, idleproc = 0, initproc = 1,
     run_list = \<lparr>lnext = (\<lambda>e. e), lprev = (\<lambda>e. e)\<rparr>, proc_num = 0, max_time_slice = 5,
     lab6_run_pool = None, pool = \<lparr>hparent = (\<lambda>_. None), hleft = (\<lambda>_. None), hright = (\<lambda>_. None)\<rparr>,
     timers = (\<lambda>t. \<lparr>expires = of_nat (10 * t), tproc = Some t\<rparr>),
     timer_list = \<lparr>lnext = (\<lambda>e. e), lprev = (\<lambda>e. e)\<rparr>, rand_next = 1\<rparr>"

lemma demo_fresh: "run_links_fresh (demo_kern c R)"
  by (simp add: run_links_fresh_def demo_kern_def list_empty_def)

text \<open>The four policies, with the invariant of their queue and the set of processes in it.\<close>

definition policies :: "(sched_class \<times> (kern \<Rightarrow> bool) \<times> (kern \<Rightarrow> nat set)) list" where
  "policies = [(default_sched_class, rr_ok, rr_queued), (stride_sched_class, pool_ok, pool_queued),
     (sjf_sched_class, pool_ok, pool_queued), (lottery_sched_class, rr_ok, rr_queued)]"

lemma policies_are_classes:
  "List.member policies (cl, ok, queued) \<Longrightarrow> \<exists>fresh. scheduling_class cl ok queued fresh"
  using rr.scheduling_class_axioms stride.scheduling_class_axioms sjf.scheduling_class_axioms
    lottery.scheduling_class_axioms by (auto simp: policies_def)

lemma demo_init_inv:
  "sched_inv rr_ok rr_queued (sched_init lottery_sched_class (demo_kern 0 {0}))"
  by (rule lottery.init_inv)
    (auto simp: runnables_def demo_kern_def demo_proc_def run_links_fresh_def list_empty_def)

lemma demo_lottery: "List.member policies (lottery_sched_class, rr_ok, rr_queued)"
  by (simp add: policies_def)

subsection \<open>The core\<close>

text \<open>C13: For each of the four policies, every sequence of wakeups, scheduler calls, ticks and blocking
  or exiting of the running process keeps the invariant that the policy's queue is intact and holds
  exactly the runnable processes other than the running one and the idle process: none is lost and
  none is queued twice.\<close>

theorem run_queue_is_runnables:
  assumes "List.member policies (cl, ok, queued)" and "sched_inv ok queued s" and "(sched_step cl)\<^sup>*\<^sup>* s s'"
  shows "sched_inv ok queued s' \<and>
    queued s' = {p. state (procs s' p) = PROC_RUNNABLE \<and> p \<noteq> current s' \<and> p \<noteq> idleproc s'}"
proof -
  obtain fresh where "scheduling_class cl ok queued fresh" using policies_are_classes [OF assms(1)] ..
  then have "sched_inv ok queued s'" by (rule scheduling_class.reachable_inv [OF _ assms(3,2)])
  then show ?thesis by (simp add: sched_inv_def runnables_def)
qed

definition demo_start :: kern where
  "demo_start = sched_init lottery_sched_class (demo_kern 0 {0})"

lemma run_queue_is_runnables_witness:
  "\<exists>s1. wakeup_proc lottery_sched_class 1 demo_start = Some s1 \<and> 1 \<in> rr_queued s1"
proof -
  have "map_option (\<lambda>s. (current s, idleproc s, state (procs s 1))) (wakeup_proc lottery_sched_class 1 demo_start) =
      Some (0, 0, PROC_RUNNABLE)"
    by code_simp
  then obtain s1 where s1: "wakeup_proc lottery_sched_class 1 demo_start = Some s1" "current s1 = 0" "idleproc s1 = 0"
    "state (procs s1 1) = PROC_RUNNABLE" by auto
  have "(sched_step lottery_sched_class)\<^sup>*\<^sup>* demo_start s1" using sched_step.wake [OF s1(1)] by blast
  with run_queue_is_runnables [OF demo_lottery demo_init_inv [folded demo_start_def]] s1 show ?thesis by simp
qed

text \<open>Under that invariant \<^verbatim>\<open>schedule\<close> always returns, for each of the four policies, keeps the
  invariant and every process state, and runs the idle process only if no other process is
  runnable; otherwise it runs a runnable process.\<close>

lemma schedule_work_conserving:
  assumes "List.member policies (cl, ok, queued)" and "sched_inv ok queued s"
  shows "\<exists>s'. schedule cl s = Some s' \<and> sched_inv ok queued s' \<and>
    (\<forall>p. state (procs s' p) = state (procs s p)) \<and>
    (if {p. state (procs s p) = PROC_RUNNABLE \<and> p \<noteq> idleproc s} = {} then current s' = idleproc s
     else state (procs s (current s')) = PROC_RUNNABLE \<and> current s' \<noteq> idleproc s)"
proof -
  obtain fresh where c: "scheduling_class cl ok queued fresh" using policies_are_classes [OF assms(1)] ..
  have e: "(runnables s = {} \<and> (state (procs s (current s)) \<noteq> PROC_RUNNABLE \<or> current s = idleproc s)) \<longleftrightarrow>
      {p. state (procs s p) = PROC_RUNNABLE \<and> p \<noteq> idleproc s} = {}"
    by (auto simp: runnables_def)
  from scheduling_class.schedule_inv [OF c assms(2)] show ?thesis unfolding e by blast
qed

lemma schedule_work_conserving_witness:
  "\<exists>s'. schedule lottery_sched_class demo_start = Some s' \<and> current s' = 0"
proof -
  have "{p. state (procs demo_start p) = PROC_RUNNABLE \<and> p \<noteq> idleproc demo_start} = {}" "idleproc demo_start = 0"
    by (simp_all add: demo_start_def sched_init_def lottery_init_def demo_kern_def demo_proc_def)
  with schedule_work_conserving [OF demo_lottery demo_init_inv [folded demo_start_def]] show ?thesis by auto
qed

text \<open>\<^verbatim>\<open>wakeup_proc\<close> on a process that is not a zombie returns, for each policy, makes it runnable
  without touching any other process's state, and keeps the invariant of the run queue.\<close>

lemma wakeup_makes_runnable:
  assumes "List.member policies (cl, ok, queued)" and "sched_inv ok queued s"
    and "state (procs s p) \<noteq> PROC_ZOMBIE"
  shows "\<exists>s'. wakeup_proc cl p s = Some s' \<and> sched_inv ok queued s' \<and>
    state (procs s' p) = PROC_RUNNABLE \<and> current s' = current s \<and>
    (\<forall>q. q \<noteq> p \<longrightarrow> state (procs s' q) = state (procs s q))"
proof -
  obtain fresh where c: "scheduling_class cl ok queued fresh" using policies_are_classes [OF assms(1)] ..
  from scheduling_class.wakeup_inv [OF c assms(2,3)] show ?thesis by blast
qed

lemma wakeup_makes_runnable_witness:
  "\<exists>s'. wakeup_proc lottery_sched_class 2 demo_start = Some s' \<and> state (procs s' 2) = PROC_RUNNABLE"
proof -
  have "state (procs demo_start 2) \<noteq> PROC_ZOMBIE"
    by (simp add: demo_start_def sched_init_def lottery_init_def demo_kern_def demo_proc_def)
  from wakeup_makes_runnable [OF demo_lottery demo_init_inv [folded demo_start_def] this] show ?thesis by blast
qed

subsection \<open>The policies\<close>

definition demo_busy :: kern where
  "demo_busy = the (do { s \<leftarrow> RR_enqueue 1 (RR_init (demo_kern 3 {0, 1, 2, 3})); RR_enqueue 2 s })"

lemma demo_busy_rr: "rr_busy demo_busy [1, 2] \<and> current demo_busy = 3"
proof -
  have w0: "rr_wf (RR_init (demo_kern 3 {0, 1, 2, 3})) []"
    using RR_init_wf(1) [of "demo_kern 3 {0, 1, 2, 3}"] demo_fresh [of 3 "{0, 1, 2, 3}"]
    by (simp add: run_links_fresh_def)
  from RR_enqueue_wf [OF w0, of 1] obtain s1 where s1: "RR_enqueue 1 (RR_init (demo_kern 3 {0, 1, 2, 3})) = Some s1"
    "rr_wf s1 [1]" "same_core (RR_init (demo_kern 3 {0, 1, 2, 3})) s1" by auto
  from RR_enqueue_wf [OF s1(2), of 2] obtain s2 where s2: "RR_enqueue 2 s1 = Some s2" "rr_wf s2 [1, 2]" "same_core s1 s2"
    by auto
  have "demo_busy = s2" using s1(1) s2(1) by (simp add: demo_busy_def)
  moreover have "current s2 = 3" "idleproc s2 = 0" "\<forall>p \<in> {1, 2, 3}. state (procs s2 p) = PROC_RUNNABLE"
    using s1(3) s2(3) by (simp_all add: same_core_def RR_init_def demo_kern_def demo_proc_def)
  ultimately show ?thesis using s2(2) by (simp add: rr_busy_def)
qed

text \<open>C14: Round robin is fair: with the processes xs queued and the running process runnable, as many
  scheduler calls as there are processes run xs in queue order and then the running process again, and
  restore the queue.\<close>

theorem round_robin_round:
  assumes "rr_busy s xs"
  shows "\<exists>s'. turns default_sched_class (length xs + 1) s = Some (xs @ [current s], s') \<and>
    current s' = current s \<and> rr_busy s' xs"
  by (rule rr_full_round [OF assms])

lemma round_robin_round_witness:
  "\<exists>s'. turns default_sched_class 3 demo_busy = Some ([1, 2, 3], s') \<and> rr_busy s' [1, 2]"
  using round_robin_round [of demo_busy "[1, 2]"] demo_busy_rr by (auto simp: eval_nat_numeral)

text \<open>A process with n ticks left in its time slice has to be rescheduled after n ticks (round robin
  and lottery).\<close>

lemma time_slice_ends:
  assumes "0 < n" and "time_slice (procs s p) = int n"
  shows "need_resched (procs ((RR_proc_tick p ^^ n) s) p) \<and>
    need_resched (procs ((lottery_proc_tick p ^^ n) s) p)"
  using RR_ticks [OF assms] by (simp add: lottery_as_rr)

lemma time_slice_ends_witness: "need_resched (procs ((RR_proc_tick 1 ^^ 5) demo_busy) 1)"
proof -
  have "time_slice (procs demo_busy 1) = int 5" by code_simp
  with time_slice_ends [of 5 demo_busy 1] show ?thesis by simp
qed

text \<open>Lottery scheduling draws fairly: with the tickets of the queued processes laid end to end in
  queue order, the process picked is the one whose interval holds the number drawn modulo the number
  of tickets; the queue is unchanged.\<close>

lemma lottery_picks_interval:
  assumes "rr_wf s xs" and "xs \<noteq> []" and "sum_list (map (tickets s) xs) < 2 ^ 64"
  shows "\<exists>p s' as bs. lottery_pick_next s = Some (Some p, s') \<and> xs = as @ p # bs \<and> rr_wf s' xs \<and>
    sum_list (map (tickets s) as) \<le> draw s mod sum_list (map (tickets s) xs) \<and>
    draw s mod sum_list (map (tickets s) xs) < sum_list (map (tickets s) as) + tickets s p"
proof -
  from lottery_pick_ok [OF assms(1)] assms(2,3) obtain r s' where r: "lottery_pick_next s = Some (r, s')"
    "same_queue s s'" "r \<in> Some ` set xs" "r = winner (tickets s) xs (draw s mod sum_list (map (tickets s) xs))" by auto
  then obtain p where "r = Some p" by blast
  with r(4) have "winner (tickets s) xs (draw s mod sum_list (map (tickets s) xs)) = Some p" by simp
  from winner_interval [OF this] show ?thesis using r(1) \<open>r = Some p\<close> rr_wf_frame [OF assms(1) r(2)] by blast
qed

lemma lottery_picks_interval_witness:
  "\<exists>p s'. lottery_pick_next demo_busy = Some (Some p, s') \<and> rr_wf s' [1, 2]"
proof -
  have "map (tickets demo_busy) [1, 2] = [2, 3]" by code_simp
  then have "sum_list (map (tickets demo_busy) [1, 2]) < 2 ^ 64" by simp
  with lottery_picks_interval [of demo_busy "[1, 2]"] demo_busy_rr show ?thesis by (auto simp: rr_busy_def)
qed

definition demo_stride :: kern where
  "demo_stride = the (do { s \<leftarrow> stride_enqueue 1 (stride_init (demo_kern 3 {0, 1, 2, 3})); stride_enqueue 2 s })"

lemma demo_stride_wf: "\<exists>t. stride_wf demo_stride t 0 \<and> lab6_run_pool demo_stride \<noteq> None"
proof -
  let ?s0 = "stride_init (demo_kern 3 {0, 1, 2, 3})"
  have w0: "pool_wf ?s0 Leaf" by (rule pool_wf_empty) (simp_all add: stride_init_def)
  have st0: "lab6_stride (procs ?s0 q) = 0" for q by (simp add: stride_init_def demo_kern_def demo_proc_def)
  from stride_enqueue_wf [OF w0, of 1] obtain s1 where s1: "stride_enqueue 1 ?s0 = Some s1"
    "pool_wf s1 (Node Leaf 1 Leaf)" "\<forall>q. lab6_stride (procs s1 q) = 0" using st0 by auto
  from stride_enqueue_wf [OF s1(2), of 2] obtain s2 where s2: "stride_enqueue 2 s1 = Some s2"
    "pool_wf s2 (smerge (cmp_lt (proc_stride_comp_f s1)) (Node Leaf 1 Leaf) (Node Leaf 2 Leaf))"
    "\<forall>q. lab6_stride (procs s2 q) = 0" using s1(3) by auto
  have "heap_by (stride_key s2 0) t" for t
    by (rule heap_by_const) (simp add: stride_key_def s2(3))
  moreover have "\<forall>p. stride_key s2 0 p \<le> 2 ^ 30" using s2(3) by (simp add: stride_key_def)
  moreover have "demo_stride = s2" using s1(1) s2(1) by (simp add: demo_stride_def)
  moreover have "lab6_run_pool demo_stride \<noteq> None" by code_simp
  ultimately show ?thesis using s2(2) by (auto simp: stride_wf_def)
qed

text \<open>C15: Stride scheduling: as long as the queued strides lie within \<^verbatim>\<open>BIG_STRIDE\<close> above some base (mod
  2 to the 32), the process picked has the smallest one, and picking it, removing it and queueing it
  again with its new stride returns and keeps the heap ordered and all strides within \<^verbatim>\<open>BIG_STRIDE\<close>
  above the stride it had, so the 32-bit comparison never misorders them across the wrap-around.\<close>

theorem stride_order_kept:
  assumes "stride_wf s t base" and "lab6_run_pool s = Some p"
  shows "(\<forall>q \<in> pool_queued s. stride_key s base p \<le> stride_key s base q) \<and>
    (\<exists>s1 s2 s3 t'. stride_pick_next s = Some (Some p, s1) \<and> stride_dequeue p s1 = Some s2 \<and>
      stride_enqueue p s2 = Some s3 \<and> stride_wf s3 t' (lab6_stride (procs s p)) \<and> set_tree t' = set_tree t)"
  using stride_pick_min [OF assms] stride_round [OF assms] by blast

lemma stride_order_kept_witness:
  "\<exists>p s1 s2 s3. stride_pick_next demo_stride = Some (Some p, s1) \<and> stride_dequeue p s1 = Some s2 \<and>
     stride_enqueue p s2 = Some s3"
proof -
  from demo_stride_wf obtain t p where "stride_wf demo_stride t 0" "lab6_run_pool demo_stride = Some p" by auto
  from stride_order_kept [OF this] show ?thesis by blast
qed

text \<open>Shortest job first, with priorities below 2 to the 31: queueing a process that is not queued,
  and removing one that is, return and keep the heap ordered by priority, and the process picked has
  the smallest priority of all queued ones.\<close>

lemma sjf_order_kept:
  assumes "sjf_wf s t"
  shows "(p \<notin> set_tree t \<longrightarrow> unat (lab6_priority (procs s p)) < 2 ^ 31 \<longrightarrow>
      (\<exists>s' t'. sjf_enqueue p s = Some s' \<and> sjf_wf s' t' \<and> set_tree t' = insert p (set_tree t))) \<and>
    (p \<in> set_tree t \<longrightarrow>
      (\<exists>s' t'. sjf_dequeue p s = Some s' \<and> sjf_wf s' t' \<and> set_tree t' = set_tree t - {p})) \<and>
    (case sjf_pick_next s of
       Some (Some q, s') \<Rightarrow> s' = s \<and> q \<in> set_tree t \<and>
         (\<forall>r \<in> set_tree t. lab6_priority (procs s q) \<le> lab6_priority (procs s r))
     | Some (None, s') \<Rightarrow> s' = s \<and> set_tree t = {}
     | None \<Rightarrow> False)"
proof -
  have pw: "pool_wf s t" using assms by (simp add: sjf_wf_def)
  have q: "pool_queued s = set_tree t" using pool_wfD(4) [OF pw] .
  have "case lab6_run_pool s of None \<Rightarrow> set_tree t = {} | Some p \<Rightarrow> p \<in> set_tree t"
    using pool_root [OF pw] by (simp only: q)
  then show ?thesis
    using sjf_enqueue_order [OF assms] sjf_dequeue_order [OF assms] sjf_pick_min [OF assms]
    unfolding q by (auto simp: sjf_pick_next_def split: option.splits)
qed

lemma demo_sjf_wf: "sjf_wf (sjf_init (demo_kern 3 {0, 1, 2, 3})) Leaf"
  by (simp add: sjf_wf_def pool_wf_def sjf_init_def)

lemma sjf_order_kept_witness:
  "\<exists>s' t'. sjf_enqueue 1 (sjf_init (demo_kern 3 {0, 1, 2, 3})) = Some s' \<and> sjf_wf s' t' \<and> set_tree t' = {1}"
proof -
  have "unat (lab6_priority (procs (sjf_init (demo_kern 3 {0, 1, 2, 3})) 1)) < 2 ^ 31"
    by (simp add: sjf_init_def demo_kern_def demo_proc_def)
  with sjf_order_kept [OF demo_sjf_wf, of 1] show ?thesis by simp
qed

subsection \<open>The skew heap\<close>

text \<open>C16: On the pointer store, inserting a fresh node into a heap and removing any of its nodes, wherever
  it is, return for every comparison function; the result is a heap again, with all parent, left and
  right pointers in place, whose nodes are the old ones plus or minus that node; nothing outside the
  heap changes.  When the comparison follows a key, heap order by that key is kept.\<close>

theorem skew_heap_correct:
  assumes "heap_rep h a t"
  shows "(b \<notin> set_tree t \<longrightarrow> (\<exists>p h' t'. skew_heap_insert a b cmp h = Some (p, h') \<and> heap_rep h' p t' \<and>
      mset_tree t' = add_mset b (mset_tree t) \<and> agree (- insert b (set_tree t)) h h' \<and>
      (heap_by f t \<longrightarrow> (\<forall>x \<in> insert b (set_tree t). \<forall>y \<in> insert b (set_tree t). cmp x y = - 1 \<longleftrightarrow> f x < f y) \<longrightarrow>
        heap_by f t'))) \<and>
    (b \<in> set_tree t \<longrightarrow> (\<exists>p h' t'. skew_heap_remove a b cmp h = Some (p, h') \<and> heap_rep h' p t' \<and>
      set_tree t' = set_tree t - {b} \<and> agree (- set_tree t) h h' \<and>
      (heap_by f t \<longrightarrow> (\<forall>x \<in> set_tree t. \<forall>y \<in> set_tree t. cmp x y = - 1 \<longleftrightarrow> f x < f y) \<longrightarrow> heap_by f t')))"
proof (intro conjI impI)
  assume b: "b \<notin> set_tree t"
  let ?t = "smerge (cmp_lt cmp) t (Node Leaf b Leaf)"
  have "heap_by f t \<longrightarrow> (\<forall>x \<in> insert b (set_tree t). \<forall>y \<in> insert b (set_tree t). cmp x y = - 1 \<longleftrightarrow> f x < f y) \<longrightarrow> heap_by f ?t"
    by (auto intro!: heap_by_smerge simp: cmp_lt_def)
  moreover have "mset_tree ?t = add_mset b (mset_tree t)" by simp
  ultimately show "\<exists>p h' t'. skew_heap_insert a b cmp h = Some (p, h') \<and> heap_rep h' p t' \<and>
      mset_tree t' = add_mset b (mset_tree t) \<and> agree (- insert b (set_tree t)) h h' \<and>
      (heap_by f t \<longrightarrow> (\<forall>x \<in> insert b (set_tree t). \<forall>y \<in> insert b (set_tree t). cmp x y = - 1 \<longleftrightarrow> f x < f y) \<longrightarrow> heap_by f t')"
    using skew_heap_insert_ok [OF assms b, of cmp] by blast
next
  assume b: "b \<in> set_tree t"
  have d: "dist t" using heap_repD(2) [OF assms] .
  have "heap_by f t \<longrightarrow> (\<forall>x \<in> set_tree t. \<forall>y \<in> set_tree t. cmp x y = - 1 \<longleftrightarrow> f x < f y) \<longrightarrow>
      heap_by f (sremove (cmp_lt cmp) b t)"
    using heap_by_sremove [OF _ d, of f b "cmp_lt cmp"] by (auto simp: cmp_lt_def)
  then show "\<exists>p h' t'. skew_heap_remove a b cmp h = Some (p, h') \<and> heap_rep h' p t' \<and>
      set_tree t' = set_tree t - {b} \<and> agree (- set_tree t) h h' \<and>
      (heap_by f t \<longrightarrow> (\<forall>x \<in> set_tree t. \<forall>y \<in> set_tree t. cmp x y = - 1 \<longleftrightarrow> f x < f y) \<longrightarrow> heap_by f t')"
    using skew_heap_remove_ok [OF assms b, of cmp] set_sremove [OF d, of "cmp_lt cmp" b] by blast
qed

lemma skew_heap_correct_witness:
  "\<exists>p h' t'. skew_heap_insert None (7::nat) (\<lambda>x y. if x < y then - 1 else 1)
     \<lparr>hparent = (\<lambda>_. Some 3), hleft = (\<lambda>_. Some 3), hright = (\<lambda>_. Some 3)\<rparr> = Some (p, h') \<and>
     heap_rep h' p t' \<and> mset_tree t' = {#7#}"
  using skew_heap_correct [of "\<lparr>hparent = (\<lambda>_. Some 3), hleft = (\<lambda>_. Some 3), hright = (\<lambda>_. Some 3)\<rparr>" None Leaf "7::nat"
    "\<lambda>x y. if x < y then - 1 else 1" "\<lambda>_. 0"] by auto

subsection \<open>Timers\<close>

definition demo_timers :: kern where
  "demo_timers = the (add_timer 2 (demo_kern 0 {0}))"

lemma demo_timers_wf: "tm_wf demo_timers [2]" "deadlines demo_timers [2] = [(2, 20)]"
proof -
  have "tm_wf (demo_kern 0 {0}) []" by (simp add: tm_wf_def demo_kern_def dll_def list_empty_def)
  from add_timer_ok [OF this, of 2] obtain s' where "add_timer 2 (demo_kern 0 {0}) = Some s'" "tm_wf s' [2]"
    "deadlines s' [2] = [(2, ex (demo_kern 0 {0}) 2)]" by (auto simp: demo_kern_def)
  moreover have "ex (demo_kern 0 {0}) 2 = 20" by (simp add: ex_def demo_kern_def)
  ultimately show "tm_wf demo_timers [2]" "deadlines demo_timers [2] = [(2, 20)]" by (simp_all add: demo_timers_def)
qed

text \<open>Inserting a timer that is not in the list returns; it puts the timer behind all timers with the
  same or an earlier deadline and in front of all later ones, changes no other timer's deadline, and
  the timer's own deadline is the number of ticks asked for.\<close>

lemma add_timer_sorted:
  assumes "tm_wf s ts" and "t \<notin> set ts" and "0 < expires (timers s t)" and "tproc (timers s t) \<noteq> None"
  shows "\<exists>xs ys s'. ts = xs @ ys \<and> add_timer t s = Some s' \<and> tm_wf s' (xs @ t # ys) \<and> procs s' = procs s \<and>
    (\<exists>ds es. deadlines s ts = ds @ es \<and> length ds = length xs \<and>
      deadlines s' (xs @ t # ys) = ds @ (t, unat (expires (timers s t))) # es) \<and>
    sorted (map snd (deadlines s' (xs @ t # ys)))"
proof -
  from add_timer_ok [OF assms] obtain xs ys s' where r: "ts = xs @ ys" "add_timer t s = Some s'"
    "tm_wf s' (xs @ t # ys)" "procs s' = procs s"
    "deadlines s' (xs @ t # ys) = absl (ex s) 0 xs @ (t, ex s t) # absl (ex s) (sum_list (map (ex s) xs)) ys"
    by blast
  have "deadlines s ts = absl (ex s) 0 xs @ absl (ex s) (sum_list (map (ex s) xs)) ys"
    using r(1) by (simp add: deadlines_def absl_append)
  moreover have "length (absl (ex s) 0 xs) = length xs" using absl_fst [of "ex s" 0 xs] by (metis length_map)
  moreover have "sorted (map snd (deadlines s' (xs @ t # ys)))" by (simp only: deadlines_def absl_sorted)
  ultimately have "\<exists>ds es. deadlines s ts = ds @ es \<and> length ds = length xs \<and>
      deadlines s' (xs @ t # ys) = ds @ (t, unat (expires (timers s t))) # es"
    "sorted (map snd (deadlines s' (xs @ t # ys)))" using r(5) unfolding ex_def by blast+
  with r(1-4) show ?thesis by blast
qed

lemma add_timer_sorted_witness:
  "\<exists>xs ys s'. [2] = xs @ ys \<and> add_timer 1 demo_timers = Some s' \<and> tm_wf s' (xs @ 1 # ys)"
proof -
  have "0 < expires (timers demo_timers 1)" "tproc (timers demo_timers 1) \<noteq> None" by code_simp+
  from add_timer_sorted [OF demo_timers_wf(1) _ this] show ?thesis by auto
qed

text \<open>C17: A tick of the clock on a list whose first timer is pending, the processes of the timers that run
  out being in a wakeable state: \<^verbatim>\<open>run_timer_list\<close> returns, lowers every deadline by one, removes exactly
  the timers whose deadline is reached and wakes exactly their processes, and keeps the invariant of
  the run queue; the timers left are again pending.\<close>

theorem timer_tick:
  assumes "sched_inv rr_ok rr_queued s" and "tm_wf s (t # ts)" and "0 < expires (timers s t)"
    and "list_all (\<lambda>q. wakeable s q) (t # ts)"
  shows "\<exists>s1 gone rest. t # ts = gone @ rest \<and>
    run_timer_list default_sched_class s = Some (sched_class_proc_tick default_sched_class (current s) s1) \<and>
    sched_inv rr_ok rr_queued (sched_class_proc_tick default_sched_class (current s) s1) \<and>
    tm_wf s1 rest \<and> woken s s1 (set gone) \<and>
    deadlines s (t # ts) = map (\<lambda>q. (q, 1)) gone @ map (\<lambda>(q, d). (q, d + 1)) (deadlines s1 rest) \<and>
    (\<forall>d \<in> set (map snd (deadlines s1 rest)). 0 < d)"
proof -
  have "0 < ex s t" using assms(3) by (simp add: ex_def word_less_nat_alt)
  moreover have "\<forall>q \<in> set (takeWhile (\<lambda>q. (if q = t then ex s q - 1 else ex s q) = 0) (t # ts)). wakeable s q"
    using assms(4) unfolding list_all_iff by (meson set_takeWhileD)
  ultimately show ?thesis using rr.run_timer_list_ok [OF assms(1,2)] by blast
qed

lemma timer_tick_witness:
  "\<exists>s1. run_timer_list default_sched_class demo_timers = Some (sched_class_proc_tick default_sched_class 0 s1) \<and>
     deadlines s1 [2] = [(2, 19)]"
proof -
  have "rr_wf demo_timers []"
  proof -
    have "rr_wf (demo_kern 0 {0}) []" by (simp add: rr_wf_def demo_kern_def dll_def list_empty_def)
    moreover have "tm_wf (demo_kern 0 {0}) []" by (simp add: tm_wf_def demo_kern_def dll_def list_empty_def)
    from add_timer_ok [OF this, of 2] have "same_queue (demo_kern 0 {0}) demo_timers"
      by (auto simp: demo_kern_def demo_timers_def)
    ultimately show ?thesis by (rule rr_wf_frame)
  qed
  moreover have "procs demo_timers = procs (demo_kern 0 {0})" "current demo_timers = 0" "idleproc demo_timers = 0"
  proof -
    have "tm_wf (demo_kern 0 {0}) []" by (simp add: tm_wf_def demo_kern_def dll_def list_empty_def)
    from add_timer_ok [OF this, of 2]
    show "procs demo_timers = procs (demo_kern 0 {0})" "current demo_timers = 0" "idleproc demo_timers = 0"
      by (auto simp: demo_kern_def demo_timers_def)
  qed
  ultimately have i: "sched_inv rr_ok rr_queued demo_timers"
    using rr_wfD(3) [of demo_timers "[]"] by (auto simp: sched_inv_def rr_ok_def runnables_def demo_kern_def demo_proc_def)
  have "0 < expires (timers demo_timers 2)" by code_simp
  moreover have "list_all (\<lambda>q. wakeable demo_timers q) [2]"
  proof -
    have "tproc (timers demo_timers 2) = Some 2" "state (procs demo_timers 2) \<noteq> PROC_ZOMBIE"
      "wait_state (procs demo_timers 2) = 0" by code_simp+
    then show ?thesis by (auto simp: wakeable_def)
  qed
  ultimately obtain s1 gone rest where r: "[2] = gone @ rest"
    "run_timer_list default_sched_class demo_timers = Some (sched_class_proc_tick default_sched_class (current demo_timers) s1)"
    "deadlines demo_timers [2] = map (\<lambda>q. (q, 1)) gone @ map (\<lambda>(q, d). (q, d + 1)) (deadlines s1 rest)"
    using timer_tick [OF i demo_timers_wf(1)] by blast
  then have "gone = []" using demo_timers_wf(2) by (cases gone) auto
  then show ?thesis using r demo_timers_wf(2) \<open>current demo_timers = 0\<close> by auto
qed

subsection \<open>Random numbers and hashing\<close>

text \<open>\<^verbatim>\<open>rand\<close> keeps its state below 2 to the 48 and returns a number from 1 to \<^verbatim>\<open>RAND_MAX\<close>, never 0:
  the macro \<^verbatim>\<open>do_div\<close> turns the argument \<^verbatim>\<open>RAND_MAX + 1\<close> into a remainder by \<^verbatim>\<open>RAND_MAX\<close>, plus one.\<close>

lemma rand_range:
  "unat (snd (rand n)) < 2 ^ 48 \<and> 1 \<le> unat (fst (rand n)) \<and> unat (fst (rand n)) \<le> unat RAND_MAX"
  using rand_step_bound [of n] rand_value_range [of "rand_step n"] by (simp add: rand_def Let_def)

text \<open>\<^verbatim>\<open>hash32\<close> with up to 32 bits stays below the number of buckets, and with 32 bits it maps
  different values to different ones (the multiplier is odd).\<close>

lemma hash32_range:
  assumes "bits \<le> 32"
  shows "unat (hash32 v bits) < 2 ^ bits \<and> (hash32 v 32 = hash32 w 32 \<longleftrightarrow> v = w)"
  using hash32_bound [OF assms] hash32_32_inj by blast

lemma hash32_range_witness: "unat (hash32 12345 10) < 1024"
  using hash32_range [of 10 12345] by simp

end
