(* ===== verification/Wait_Queue.thy ===== *)
theory Wait_Queue
  imports Sched_Class
begin

unbundle bit_operations_syntax

text \<open>
  kern/sync/wait.c and sem.c (labcode/lab8): wait queues, and the counting semaphores on top of
  them.  A wait record lives on the kernel stack of the process that waits, which is inside at most
  one blocking call, so it carries the number of its process.  The list nodes of all wait records and
  the heads of all queues are one store of links; queue i is the wait queue of semaphore i.

  \<^verbatim>\<open>__down\<close> gives up the processor in the middle; it is modelled in two parts: \<open>down_begin\<close> up to
  and including the call of \<^verbatim>\<open>schedule\<close> (the flag tells whether the semaphore was taken at once), and
  \<open>down_end\<close>, which the process executes when it runs again.
\<close>

datatype wait_entry = WaitHead nat | WaitLink nat

record wait =
  wproc :: "nat option"
  wakeup_flags :: u32
  wait_queue :: "nat option"

record sync =
  kst :: kern
  waits :: "nat \<Rightarrow> wait"
  wlinks :: "wait_entry links"
  sem_value :: "nat \<Rightarrow> int"

definition upd_wait :: "nat \<Rightarrow> (wait \<Rightarrow> wait) \<Rightarrow> sync \<Rightarrow> sync" where
  "upd_wait w f s = s\<lparr>waits := (waits s)(w := f (waits s w))\<rparr>"

lemma upd_wait_simps [simp]:
  "waits (upd_wait w f s) x = (if x = w then f (waits s w) else waits s x)"
  "kst (upd_wait w f s) = kst s" "wlinks (upd_wait w f s) = wlinks s" "sem_value (upd_wait w f s) = sem_value s"
  by (simp_all add: upd_wait_def)

subsection \<open>wait.c\<close>

definition wait_init :: "nat \<Rightarrow> nat \<Rightarrow> sync \<Rightarrow> sync" where
  "wait_init w p s =
     (let s1 = upd_wait w (\<lambda>wt. wt\<lparr>wproc := Some p, wakeup_flags := WT_INTERRUPTED\<rparr>) s
      in s1\<lparr>wlinks := list_init (WaitLink w) (wlinks s1)\<rparr>)"

definition wait_queue_init :: "nat \<Rightarrow> sync \<Rightarrow> sync" where
  "wait_queue_init q s = s\<lparr>wlinks := list_init (WaitHead q) (wlinks s)\<rparr>"

definition wait_queue_add :: "nat \<Rightarrow> nat \<Rightarrow> sync \<Rightarrow> sync option" where
  "wait_queue_add q w s = do {
     c_assert (list_empty (WaitLink w) (wlinks s) \<and> wproc (waits s w) \<noteq> None);
     let s1 = upd_wait w (\<lambda>wt. wt\<lparr>wait_queue := Some q\<rparr>) s;
     Some (s1\<lparr>wlinks := list_add_before (WaitHead q) (WaitLink w) (wlinks s1)\<rparr>) }"

definition wait_queue_del :: "nat \<Rightarrow> nat \<Rightarrow> sync \<Rightarrow> sync option" where
  "wait_queue_del q w s = do {
     c_assert (\<not> list_empty (WaitLink w) (wlinks s) \<and> wait_queue (waits s w) = Some q);
     Some (s\<lparr>wlinks := list_del_init (WaitLink w) (wlinks s)\<rparr>) }"

definition le2wait :: "nat \<Rightarrow> wait_entry \<Rightarrow> nat option" where
  "le2wait q le = (case le of WaitLink w \<Rightarrow> Some w | WaitHead _ \<Rightarrow> None)"

definition wait_queue_next :: "nat \<Rightarrow> nat \<Rightarrow> sync \<Rightarrow> nat option option" where
  "wait_queue_next q w s = do {
     c_assert (\<not> list_empty (WaitLink w) (wlinks s) \<and> wait_queue (waits s w) = Some q);
     let le = list_next (WaitLink w) (wlinks s);
     Some (if le \<noteq> WaitHead q then le2wait q le else None) }"

definition wait_queue_prev :: "nat \<Rightarrow> nat \<Rightarrow> sync \<Rightarrow> nat option option" where
  "wait_queue_prev q w s = do {
     c_assert (\<not> list_empty (WaitLink w) (wlinks s) \<and> wait_queue (waits s w) = Some q);
     let le = list_prev (WaitLink w) (wlinks s);
     Some (if le \<noteq> WaitHead q then le2wait q le else None) }"

definition wait_queue_first :: "nat \<Rightarrow> sync \<Rightarrow> nat option" where
  "wait_queue_first q s =
     (let le = list_next (WaitHead q) (wlinks s) in if le \<noteq> WaitHead q then le2wait q le else None)"

definition wait_queue_last :: "nat \<Rightarrow> sync \<Rightarrow> nat option" where
  "wait_queue_last q s =
     (let le = list_prev (WaitHead q) (wlinks s) in if le \<noteq> WaitHead q then le2wait q le else None)"

definition wait_queue_empty :: "nat \<Rightarrow> sync \<Rightarrow> bool" where
  "wait_queue_empty q s \<longleftrightarrow> list_empty (WaitHead q) (wlinks s)"

definition wait_in_queue :: "nat \<Rightarrow> sync \<Rightarrow> bool" where
  "wait_in_queue w s \<longleftrightarrow> \<not> list_empty (WaitLink w) (wlinks s)"

definition wakeup_wait :: "sched_class \<Rightarrow> nat \<Rightarrow> nat \<Rightarrow> u32 \<Rightarrow> bool \<Rightarrow> sync \<Rightarrow> sync option" where
  "wakeup_wait cl q w fl del s = do {
     s1 \<leftarrow> (if del then wait_queue_del q w s else Some s);
     let s2 = upd_wait w (\<lambda>wt. wt\<lparr>wakeup_flags := fl\<rparr>) s1;
     p \<leftarrow> wproc (waits s2 w);
     k \<leftarrow> wakeup_proc cl p (kst s2);
     Some (s2\<lparr>kst := k\<rparr>) }"

definition wakeup_first :: "sched_class \<Rightarrow> nat \<Rightarrow> u32 \<Rightarrow> bool \<Rightarrow> sync \<Rightarrow> sync option" where
  "wakeup_first cl q fl del s =
     (case wait_queue_first q s of None \<Rightarrow> Some s | Some w \<Rightarrow> wakeup_wait cl q w fl del s)"

partial_function (option) wakeup_all :: "sched_class \<Rightarrow> nat \<Rightarrow> nat \<Rightarrow> u32 \<Rightarrow> sync \<Rightarrow> sync option" where
  "wakeup_all cl q w fl s = do {
     s1 \<leftarrow> wakeup_wait cl q w fl True s;
     (case wait_queue_first q s1 of None \<Rightarrow> Some s1 | Some w' \<Rightarrow> wakeup_all cl q w' fl s1) }"

declare wakeup_all.simps [code]

partial_function (option) wakeup_each :: "sched_class \<Rightarrow> nat \<Rightarrow> nat \<Rightarrow> u32 \<Rightarrow> sync \<Rightarrow> sync option" where
  "wakeup_each cl q w fl s = do {
     s1 \<leftarrow> wakeup_wait cl q w fl False s;
     r \<leftarrow> wait_queue_next q w s1;
     (case r of None \<Rightarrow> Some s1 | Some w' \<Rightarrow> wakeup_each cl q w' fl s1) }"

declare wakeup_each.simps [code]

definition wakeup_queue :: "sched_class \<Rightarrow> nat \<Rightarrow> u32 \<Rightarrow> bool \<Rightarrow> sync \<Rightarrow> sync option" where
  "wakeup_queue cl q fl del s = (case wait_queue_first q s of
     None \<Rightarrow> Some s
   | Some w \<Rightarrow> if del then wakeup_all cl q w fl s else wakeup_each cl q w fl s)"

definition wait_current_set :: "nat \<Rightarrow> u32 \<Rightarrow> sync \<Rightarrow> sync option" where
  "wait_current_set q ws s =
     (let p = current (kst s);
          s1 = wait_init p p s;
          s2 = s1\<lparr>kst := upd_proc p (\<lambda>pr. pr\<lparr>state := PROC_SLEEPING, wait_state := ws\<rparr>) (kst s1)\<rparr>
      in wait_queue_add q p s2)"

definition wait_current_del :: "nat \<Rightarrow> nat \<Rightarrow> sync \<Rightarrow> sync option" where
  "wait_current_del q w s = (if wait_in_queue w s then wait_queue_del q w s else Some s)"

subsection \<open>sem.c\<close>

definition sem_init :: "nat \<Rightarrow> int \<Rightarrow> sync \<Rightarrow> sync" where
  "sem_init i v s = wait_queue_init i (s\<lparr>sem_value := (sem_value s)(i := v)\<rparr>)"

definition up_raw :: "sched_class \<Rightarrow> nat \<Rightarrow> u32 \<Rightarrow> sync \<Rightarrow> sync option" where
  "up_raw cl i ws s = (case wait_queue_first i s of
     None \<Rightarrow> Some (s\<lparr>sem_value := (sem_value s)(i := sem_value s i + 1)\<rparr>)
   | Some w \<Rightarrow> do {
       p \<leftarrow> wproc (waits s w);
       c_assert (wait_state (procs (kst s) p) = ws);
       wakeup_wait cl i w ws True s })"

definition down_begin :: "sched_class \<Rightarrow> nat \<Rightarrow> u32 \<Rightarrow> sync \<Rightarrow> (bool \<times> sync) option" where
  "down_begin cl i ws s =
     (if 0 < sem_value s i then Some (True, s\<lparr>sem_value := (sem_value s)(i := sem_value s i - 1)\<rparr>)
      else do {
        s1 \<leftarrow> wait_current_set i ws s;
        k \<leftarrow> schedule cl (kst s1);
        Some (False, s1\<lparr>kst := k\<rparr>) })"

definition down_end :: "nat \<Rightarrow> nat \<Rightarrow> u32 \<Rightarrow> sync \<Rightarrow> (u32 \<times> sync) option" where
  "down_end i w ws s = do {
     s1 \<leftarrow> wait_current_del i w s;
     Some (if wakeup_flags (waits s1 w) \<noteq> ws then wakeup_flags (waits s1 w) else 0, s1) }"

definition up :: "sched_class \<Rightarrow> nat \<Rightarrow> sync \<Rightarrow> sync option" where
  "up cl i s = up_raw cl i WT_KSEM s"

definition down_start :: "sched_class \<Rightarrow> nat \<Rightarrow> sync \<Rightarrow> (bool \<times> sync) option" where
  "down_start cl i s = down_begin cl i WT_KSEM s"

definition down_resume :: "nat \<Rightarrow> nat \<Rightarrow> sync \<Rightarrow> sync option" where
  "down_resume i w s = do {
     (fl, s1) \<leftarrow> down_end i w WT_KSEM s;
     c_assert (fl = 0);
     Some s1 }"

definition try_down :: "nat \<Rightarrow> sync \<Rightarrow> bool \<times> sync" where
  "try_down i s =
     (if 0 < sem_value s i then (True, s\<lparr>sem_value := (sem_value s)(i := sem_value s i - 1)\<rparr>) else (False, s))"

subsection \<open>The invariant\<close>

text \<open>
  \<open>sync_wf s Q\<close>: queue i holds the processes \<open>Q i\<close> in order; no process waits twice, and every waiting
  process sleeps for a semaphore; a semaphore with waiters has no free units, and no value is
  negative; the run queue holds exactly the runnable processes.
\<close>

definition sync_wf :: "(kern \<Rightarrow> bool) \<Rightarrow> (kern \<Rightarrow> nat set) \<Rightarrow> sync \<Rightarrow> (nat \<Rightarrow> nat list) \<Rightarrow> bool" where
  "sync_wf ok queued s Q \<longleftrightarrow>
     (\<forall>i. dll (wlinks s) (WaitHead i) (map WaitLink (Q i))) \<and>
     (\<forall>i j. i \<noteq> j \<longrightarrow> set (Q i) \<inter> set (Q j) = {}) \<and>
     (\<forall>w. (\<forall>i. w \<notin> set (Q i)) \<longrightarrow> list_empty (WaitLink w) (wlinks s)) \<and>
     (\<forall>i. \<forall>w \<in> set (Q i). wait_queue (waits s w) = Some i \<and> wproc (waits s w) = Some w \<and>
        state (procs (kst s) w) = PROC_SLEEPING \<and> wait_state (procs (kst s) w) = WT_KSEM) \<and>
     (\<forall>i. 0 \<le> sem_value s i \<and> (Q i \<noteq> [] \<longrightarrow> sem_value s i = 0)) \<and>
     sched_inv ok queued (kst s)"

lemma sync_wfD:
  assumes "sync_wf ok queued s Q"
  shows "dll (wlinks s) (WaitHead i) (map WaitLink (Q i))" "i \<noteq> j \<Longrightarrow> set (Q i) \<inter> set (Q j) = {}"
    "\<forall>i. w \<notin> set (Q i) \<Longrightarrow> list_empty (WaitLink w) (wlinks s)"
    "w \<in> set (Q i) \<Longrightarrow> wait_queue (waits s w) = Some i \<and> wproc (waits s w) = Some w \<and>
       state (procs (kst s) w) = PROC_SLEEPING \<and> wait_state (procs (kst s) w) = WT_KSEM"
    "0 \<le> sem_value s i" "Q i \<noteq> [] \<Longrightarrow> sem_value s i = 0" "sched_inv ok queued (kst s)"
    "distinct (Q i)" "w \<in> set (Q i) \<Longrightarrow> \<not> list_empty (WaitLink w) (wlinks s)"
proof -
  show d: "dll (wlinks s) (WaitHead i) (map WaitLink (Q i))" for i using assms by (simp add: sync_wf_def)
  show "distinct (Q i)" using dll_distinct [OF d [of i]] by (simp add: distinct_map)
  show "w \<in> set (Q i) \<Longrightarrow> \<not> list_empty (WaitLink w) (wlinks s)" using dll_member_not_empty [OF d [of i]] by simp
qed (use assms in \<open>auto simp: sync_wf_def\<close>)

lemma wait_queue_first_hd:
  assumes "dll (wlinks s) (WaitHead i) (map WaitLink ws)"
  shows "wait_queue_first i s = (case ws of [] \<Rightarrow> None | w # _ \<Rightarrow> Some w)"
  using dll_next_head [OF assms] by (cases ws) (simp_all add: wait_queue_first_def list_next_def le2wait_def Let_def)

text \<open>Links outside the changed queue are kept.\<close>

lemma queue_add_links:
  assumes d: "\<And>i. dll l (WaitHead i) (map WaitLink (Q i))" and dj: "\<And>i j. i \<noteq> j \<Longrightarrow> set (Q i) \<inter> set (Q j) = {}"
    and w: "\<And>i. w \<notin> set (Q i)" and e: "\<And>x. (\<And>i. x \<notin> set (Q i)) \<Longrightarrow> list_empty (WaitLink x) l"
  shows "dll (list_add_before (WaitHead q) (WaitLink w) l) (WaitHead i) (map WaitLink ((Q(q := Q q @ [w])) i))"
    and "(\<And>i. x \<notin> set (Q i)) \<Longrightarrow> x \<noteq> w \<Longrightarrow> list_empty (WaitLink x) (list_add_before (WaitHead q) (WaitLink w) l)"
proof -
  let ?l = "list_add_before (WaitHead q) (WaitLink w) l"
  have pv: "lprev l (WaitHead q) = (if Q q = [] then WaitHead q else WaitLink (last (Q q)))"
    using dll_prev_head [OF d [of q]] by (auto simp: last_map)
  show "dll ?l (WaitHead i) (map WaitLink ((Q(q := Q q @ [w])) i))"
  proof (cases "i = q")
    case True
    then show ?thesis using dll_add_before_head [OF d [of q], of "WaitLink w"] w by auto
  next
    case False
    have last: "Q q \<noteq> [] \<Longrightarrow> last (Q q) \<notin> set (Q i)" using dj [OF False] last_in_set by blast
    have "dll ?l (WaitHead i) (map WaitLink (Q i)) \<longleftrightarrow> dll l (WaitHead i) (map WaitLink (Q i))"
      by (rule dll_cong) (use False w pv last in \<open>auto simp: link_defs\<close>)
    then show ?thesis using d False by simp
  qed
  show "list_empty (WaitLink x) ?l" if "\<And>i. x \<notin> set (Q i)" "x \<noteq> w"
  proof -
    have "Q q \<noteq> [] \<Longrightarrow> last (Q q) \<noteq> x" using that(1) last_in_set by metis
    then have "lnext ?l (WaitLink x) = lnext l (WaitLink x)" using that(2) pv by (auto simp: link_defs)
    then show ?thesis using e [OF that(1)] by (simp add: list_empty_def)
  qed
qed

lemma queue_del_links:
  assumes d: "\<And>i. dll l (WaitHead i) (map WaitLink (Q i))" and dj: "\<And>i j. i \<noteq> j \<Longrightarrow> set (Q i) \<inter> set (Q j) = {}"
    and q: "Q q = xs @ w # ys" and e: "\<And>x. (\<And>i. x \<notin> set (Q i)) \<Longrightarrow> list_empty (WaitLink x) l"
  shows "dll (list_del_init (WaitLink w) l) (WaitHead i) (map WaitLink ((Q(q := xs @ ys)) i))"
    and "(\<And>i. x \<notin> set ((Q(q := xs @ ys)) i)) \<Longrightarrow> list_empty (WaitLink x) (list_del_init (WaitLink w) l)"
proof -
  let ?l = "list_del_init (WaitLink w) l"
  have dq: "dll l (WaitHead q) (map WaitLink xs @ WaitLink w # map WaitLink ys)" using d [of q] q by simp
  have pv: "lprev l (WaitLink w) = (if xs = [] then WaitHead q else WaitLink (last xs))"
    using dll_prev_mid [OF dq] by (auto simp: last_map)
  have nx: "lnext l (WaitLink w) = (if ys = [] then WaitHead q else WaitLink (hd ys))"
    using dll_next_mid [OF dq] by (cases ys) auto
  show "dll ?l (WaitHead i) (map WaitLink ((Q(q := xs @ ys)) i))"
  proof (cases "i = q")
    case True
    then show ?thesis using dll_del_init [OF dq] by simp
  next
    case False
    have dis: "set (Q q) \<inter> set (Q i) = {}" using dj False by metis
    have "xs \<noteq> [] \<Longrightarrow> last xs \<in> set (Q q)" "ys \<noteq> [] \<Longrightarrow> hd ys \<in> set (Q q)" "w \<in> set (Q q)" using q by simp_all
    then have nin: "w \<notin> set (Q i)" "xs \<noteq> [] \<Longrightarrow> last xs \<notin> set (Q i)" "ys \<noteq> [] \<Longrightarrow> hd ys \<notin> set (Q i)"
      using dis by blast+
    have "dll ?l (WaitHead i) (map WaitLink (Q i)) \<longleftrightarrow> dll l (WaitHead i) (map WaitLink (Q i))"
      by (rule dll_cong) (use False nin pv nx in \<open>auto simp: link_defs\<close>)
    then show ?thesis using d False by simp
  qed
  show "list_empty (WaitLink x) ?l" if x: "\<And>i. x \<notin> set ((Q(q := xs @ ys)) i)"
  proof (cases "x = w")
    case True
    then show ?thesis by (simp add: list_del_init_empty)
  next
    case False
    have n: "x \<notin> set (Q i)" for i using x [of i] x [of q] False q by (cases "i = q") auto
    have "xs \<noteq> [] \<Longrightarrow> last xs \<noteq> x" using n [of q] q last_in_set [of xs] by auto
    then have "lnext ?l (WaitLink x) = lnext l (WaitLink x)" using False pv by (auto simp: link_defs)
    then show ?thesis using e [OF n] by (simp add: list_empty_def)
  qed
qed

subsection \<open>The operations keep it\<close>

context scheduling_class begin

lemma up_ok:
  assumes wf: "sync_wf ok queued s Q"
  shows "\<exists>s'. up cl i s = Some s' \<and>
    (case Q i of
       [] \<Rightarrow> s' = s\<lparr>sem_value := (sem_value s)(i := sem_value s i + 1)\<rparr> \<and> sync_wf ok queued s' Q
     | w # ws \<Rightarrow> sync_wf ok queued s' (Q(i := ws)) \<and> sem_value s' = sem_value s \<and>
         state (procs (kst s') w) = PROC_RUNNABLE \<and> wakeup_flags (waits s' w) = WT_KSEM \<and>
         current (kst s') = current (kst s) \<and> idleproc (kst s') = idleproc (kst s) \<and>
         (\<forall>q. q \<noteq> w \<longrightarrow> waits s' q = waits s q \<and> state (procs (kst s') q) = state (procs (kst s) q)))"
proof (cases "Q i")
  case Nil
  then have "wait_queue_first i s = None" using wait_queue_first_hd [OF sync_wfD(1) [OF wf]] by simp
  then show ?thesis using Nil wf by (simp add: up_def up_raw_def sync_wf_def)
next
  case (Cons w ws)
  note W = sync_wfD [OF wf]
  have f: "wait_queue_first i s = Some w" using wait_queue_first_hd [OF W(1)] Cons by simp
  have w: "wait_queue (waits s w) = Some i" "wproc (waits s w) = Some w" "state (procs (kst s) w) = PROC_SLEEPING"
    "wait_state (procs (kst s) w) = WT_KSEM" "\<not> list_empty (WaitLink w) (wlinks s)"
    using W(4) [of w i] W(9) [of w i] Cons by simp_all
  have "state (procs (kst s) w) \<noteq> PROC_ZOMBIE" using w(3) by simp
  from wakeup_inv [OF W(7) this] obtain k where k: "wakeup_proc cl w (kst s) = Some k" "sched_inv ok queued k"
    "state (procs k w) = PROC_RUNNABLE" "current k = current (kst s)" "idleproc k = idleproc (kst s)"
    "\<forall>q. q \<noteq> w \<longrightarrow> state (procs k q) = state (procs (kst s) q) \<and> wait_state (procs k q) = wait_state (procs (kst s) q)"
    by blast
  let ?s1 = "s\<lparr>wlinks := list_del_init (WaitLink w) (wlinks s)\<rparr>"
  let ?s' = "(upd_wait w (\<lambda>wt. wt\<lparr>wakeup_flags := WT_KSEM\<rparr>) ?s1)\<lparr>kst := k\<rparr>"
  have r: "up cl i s = Some ?s'"
    using f w k(1) by (simp add: up_def up_raw_def wakeup_wait_def wait_queue_del_def)
  have Qi: "Q i = [] @ w # ws" using Cons by simp
  note del = queue_del_links [of "wlinks s" Q, OF W(1) W(2) Qi W(3)]
  have nw: "w \<notin> set ((Q(i := ws)) j)" for j
    using W(8) [of i] W(2) [of i j] Cons by (cases "j = i") auto
  have "sync_wf ok queued ?s' (Q(i := ws))"
    unfolding sync_wf_def
  proof (intro conjI)
    show "\<forall>j. dll (wlinks ?s') (WaitHead j) (map WaitLink ((Q(i := ws)) j))" using del(1) by simp
    show "\<forall>j l. j \<noteq> l \<longrightarrow> set ((Q(i := ws)) j) \<inter> set ((Q(i := ws)) l) = {}"
    proof (intro allI impI)
      fix j l :: nat assume "j \<noteq> l"
      then have "set (Q j) \<inter> set (Q l) = {}" by (rule W(2))
      then show "set ((Q(i := ws)) j) \<inter> set ((Q(i := ws)) l) = {}" using Cons by auto
    qed
    show "\<forall>x. (\<forall>j. x \<notin> set ((Q(i := ws)) j)) \<longrightarrow> list_empty (WaitLink x) (wlinks ?s')"
      using del(2) by simp
    show "\<forall>j. \<forall>x \<in> set ((Q(i := ws)) j). wait_queue (waits ?s' x) = Some j \<and> wproc (waits ?s' x) = Some x \<and>
        state (procs (kst ?s') x) = PROC_SLEEPING \<and> wait_state (procs (kst ?s') x) = WT_KSEM"
    proof (intro allI ballI)
      fix j x assume x: "x \<in> set ((Q(i := ws)) j)"
      then have "x \<noteq> w" "x \<in> set (Q j)" using nw [of j] Cons by (auto split: if_splits)
      then show "wait_queue (waits ?s' x) = Some j \<and> wproc (waits ?s' x) = Some x \<and>
        state (procs (kst ?s') x) = PROC_SLEEPING \<and> wait_state (procs (kst ?s') x) = WT_KSEM"
        using W(4) [of x j] k(6) by simp
    qed
    show "\<forall>j. 0 \<le> sem_value ?s' j \<and> ((Q(i := ws)) j \<noteq> [] \<longrightarrow> sem_value ?s' j = 0)"
      using W(5,6) Cons by simp
    show "sched_inv ok queued (kst ?s')" using k(2) by simp
  qed
  then show ?thesis using r Cons k by simp
qed

text \<open>Taking a unit, or going to sleep at the tail of the queue.\<close>

lemma down_ok:
  assumes wf: "sync_wf ok queued s Q" and c: "state (procs (kst s) (current (kst s))) = PROC_RUNNABLE"
    and idle: "state (procs (kst s) (idleproc (kst s))) = PROC_RUNNABLE" "current (kst s) \<noteq> idleproc (kst s)"
  shows "if 0 < sem_value s i
    then down_start cl i s = Some (True, s\<lparr>sem_value := (sem_value s)(i := sem_value s i - 1)\<rparr>) \<and>
      sync_wf ok queued (s\<lparr>sem_value := (sem_value s)(i := sem_value s i - 1)\<rparr>) Q
    else \<exists>s'. down_start cl i s = Some (False, s') \<and> sync_wf ok queued s' (Q(i := Q i @ [current (kst s)])) \<and>
      sem_value s' = sem_value s \<and> idleproc (kst s') = idleproc (kst s) \<and>
      state (procs (kst s') (current (kst s'))) = PROC_RUNNABLE \<and>
      (\<forall>q. q \<noteq> current (kst s) \<longrightarrow> waits s' q = waits s q \<and> state (procs (kst s') q) = state (procs (kst s) q))"
proof (cases "0 < sem_value s i")
  case True
  then have "Q i = []" using sync_wfD(6) [OF wf] by fastforce
  then show ?thesis using True wf by (simp add: down_start_def down_begin_def sync_wf_def)
next
  case False
  note W = sync_wfD [OF wf]
  let ?p = "current (kst s)"
  have np: "?p \<notin> set (Q j)" for j using W(4) [of ?p j] c by auto
  let ?s1 = "wait_init ?p ?p s"
  let ?k1 = "upd_proc ?p (\<lambda>pr. pr\<lparr>state := PROC_SLEEPING, wait_state := WT_KSEM\<rparr>) (kst s)"
  let ?s3 = "upd_wait ?p (\<lambda>wt. wt\<lparr>wait_queue := Some i\<rparr>) (?s1\<lparr>kst := ?k1\<rparr>)"
  let ?l1 = "list_init (WaitLink ?p) (wlinks s)"
  let ?l = "list_add_before (WaitHead i) (WaitLink ?p) ?l1"
  have k1: "sched_inv ok queued ?k1"
  proof -
    have "ok ?k1" "queued ?k1 = queued (kst s)"
      using frame [of "kst s" ?k1] W(7) by (simp_all add: same_queue_def sched_inv_def)
    moreover have "runnables ?k1 = runnables (kst s)" by (auto simp: runnables_def)
    ultimately show ?thesis using W(7) by (simp add: sched_inv_def)
  qed
  from schedule_inv [OF k1] obtain k where k: "schedule cl ?k1 = Some k" "sched_inv ok queued k"
    "\<forall>p. state (procs k p) = state (procs ?k1 p) \<and> wait_state (procs k p) = wait_state (procs ?k1 p)"
    "idleproc k = idleproc ?k1"
    "if runnables ?k1 = {} \<and> (state (procs ?k1 (current ?k1)) \<noteq> PROC_RUNNABLE \<or> current ?k1 = idleproc ?k1)
     then current k = idleproc ?k1 else state (procs ?k1 (current k)) = PROC_RUNNABLE \<and> current k \<noteq> idleproc ?k1"
    by blast
  let ?s' = "?s3\<lparr>wlinks := ?l, kst := k\<rparr>"
  have r: "down_start cl i s = Some (False, ?s')"
    using False k(1) by (simp add: down_start_def down_begin_def wait_current_set_def wait_queue_add_def
        wait_init_def Let_def list_empty_def link_defs)
  have d1: "dll ?l1 (WaitHead j) (map WaitLink (Q j))" for j
    using dll_init_other [OF W(1) [of j], of "WaitLink ?p"] np [of j] by auto
  have e1: "list_empty (WaitLink x) ?l1" if "\<And>j. x \<notin> set (Q j)" for x
    using W(3) [of x] that by (auto simp: list_empty_def link_defs)
  have add: "dll ?l (WaitHead j) (map WaitLink ((Q(i := Q i @ [?p])) j))"
    "(\<And>j. x \<notin> set (Q j)) \<Longrightarrow> x \<noteq> ?p \<Longrightarrow> list_empty (WaitLink x) ?l" for j x
    using queue_add_links [of ?l1 Q ?p, OF d1 W(2) np e1] by blast+
  have "sync_wf ok queued ?s' (Q(i := Q i @ [?p]))"
    unfolding sync_wf_def
  proof (intro conjI)
    show "\<forall>j. dll (wlinks ?s') (WaitHead j) (map WaitLink ((Q(i := Q i @ [?p])) j))" using add(1) by simp
    show "\<forall>j l. j \<noteq> l \<longrightarrow> set ((Q(i := Q i @ [?p])) j) \<inter> set ((Q(i := Q i @ [?p])) l) = {}"
    proof (intro allI impI)
      fix j l :: nat assume "j \<noteq> l"
      then have "set (Q j) \<inter> set (Q l) = {}" by (rule W(2))
      then show "set ((Q(i := Q i @ [?p])) j) \<inter> set ((Q(i := Q i @ [?p])) l) = {}" using np \<open>j \<noteq> l\<close> by auto
    qed
    show "\<forall>x. (\<forall>j. x \<notin> set ((Q(i := Q i @ [?p])) j)) \<longrightarrow> list_empty (WaitLink x) (wlinks ?s')"
    proof (intro allI impI)
      fix x assume x: "\<forall>j. x \<notin> set ((Q(i := Q i @ [?p])) j)"
      have "x \<noteq> ?p" using x [rule_format, of i] by auto
      moreover have "x \<notin> set (Q j)" for j using x [rule_format, of j] by (cases "j = i") auto
      ultimately show "list_empty (WaitLink x) (wlinks ?s')" using add(2) [of x] by simp
    qed
    show "\<forall>j. \<forall>x \<in> set ((Q(i := Q i @ [?p])) j). wait_queue (waits ?s' x) = Some j \<and> wproc (waits ?s' x) = Some x \<and>
        state (procs (kst ?s') x) = PROC_SLEEPING \<and> wait_state (procs (kst ?s') x) = WT_KSEM"
    proof (intro allI ballI)
      fix j x assume x: "x \<in> set ((Q(i := Q i @ [?p])) j)"
      show "wait_queue (waits ?s' x) = Some j \<and> wproc (waits ?s' x) = Some x \<and>
        state (procs (kst ?s') x) = PROC_SLEEPING \<and> wait_state (procs (kst ?s') x) = WT_KSEM"
      proof (cases "x = ?p")
        case True
        then have "j = i" using x np [of j] by (auto split: if_splits)
        then show ?thesis using True k(3) by (simp add: wait_init_def Let_def)
      next
        case False
        then have "x \<in> set (Q j)" using x by (auto split: if_splits)
        then show ?thesis using False W(4) [of x j] k(3) by (simp add: wait_init_def Let_def)
      qed
    qed
    show "\<forall>j. 0 \<le> sem_value ?s' j \<and> ((Q(i := Q i @ [?p])) j \<noteq> [] \<longrightarrow> sem_value ?s' j = 0)"
    proof -
      have "sem_value s i = 0" using W(5) [of i] False by linarith
      then show ?thesis using W(5,6) by (simp add: wait_init_def Let_def)
    qed
    show "sched_inv ok queued (kst ?s')" using k(2) by simp
  qed
  moreover have "state (procs k (current k)) = PROC_RUNNABLE"
    using k(3,5) idle by (auto split: if_splits)
  moreover have "waits ?s' q = waits s q \<and> state (procs k q) = state (procs (kst s) q)" if "q \<noteq> ?p" for q
    using that k(3) by (simp add: wait_init_def Let_def)
  ultimately show ?thesis using False r k(4) by (simp add: wait_init_def Let_def)
qed

end

subsection \<open>Processes inside \<^verbatim>\<open>down\<close>\<close>

text \<open>\<open>pend p\<close> is the semaphore process p has blocked on and not yet resumed from.\<close>

inductive sem_step :: "sched_class \<Rightarrow> sync \<times> (nat \<Rightarrow> nat option) \<Rightarrow> sync \<times> (nat \<Rightarrow> nat option) \<Rightarrow> bool" for cl where
  down_now: "pend (current (kst s)) = None \<Longrightarrow> current (kst s) \<noteq> idleproc (kst s) \<Longrightarrow>
    down_start cl i s = Some (True, s') \<Longrightarrow> sem_step cl (s, pend) (s', pend)"
| down_block: "pend (current (kst s)) = None \<Longrightarrow> current (kst s) \<noteq> idleproc (kst s) \<Longrightarrow>
    down_start cl i s = Some (False, s') \<Longrightarrow> sem_step cl (s, pend) (s', pend(current (kst s) \<mapsto> i))"
| down_resumed: "pend (current (kst s)) = Some i \<Longrightarrow> down_resume i (current (kst s)) s = Some s' \<Longrightarrow>
    sem_step cl (s, pend) (s', pend(current (kst s) := None))"
| up: "pend (current (kst s)) = None \<Longrightarrow> up cl i s = Some s' \<Longrightarrow> sem_step cl (s, pend) (s', pend)"
| switch: "schedule cl (kst s) = Some k \<Longrightarrow> sem_step cl (s, pend) (s\<lparr>kst := k\<rparr>, pend)"

inductive_cases sem_stepE: "sem_step cl (s, pend) r"

definition sem_inv :: "(kern \<Rightarrow> bool) \<Rightarrow> (kern \<Rightarrow> nat set) \<Rightarrow> sync \<times> (nat \<Rightarrow> nat option) \<Rightarrow> (nat \<Rightarrow> nat list) \<Rightarrow> bool" where
  "sem_inv ok queued sp Q \<longleftrightarrow> (case sp of (s, pend) \<Rightarrow>
     sync_wf ok queued s Q \<and> state (procs (kst s) (current (kst s))) = PROC_RUNNABLE \<and>
     state (procs (kst s) (idleproc (kst s))) = PROC_RUNNABLE \<and>
     (\<forall>i. \<forall>w \<in> set (Q i). pend w = Some i) \<and>
     (\<forall>w i. pend w = Some i \<longrightarrow> w \<in> set (Q i) \<or> wakeup_flags (waits s w) = WT_KSEM))"

context scheduling_class begin

text \<open>When a blocked process runs again its call has succeeded.\<close>

lemma resume_ok:
  assumes inv: "sem_inv ok queued (s, pend) Q" and p: "pend (current (kst s)) = Some i"
  shows "down_resume i (current (kst s)) s = Some s"
proof -
  let ?p = "current (kst s)"
  have wf: "sync_wf ok queued s Q" and c: "state (procs (kst s) ?p) = PROC_RUNNABLE" using inv by (simp_all add: sem_inv_def)
  have nq: "?p \<notin> set (Q j)" for j using sync_wfD(4) [OF wf, of ?p j] c by auto
  have "?p \<in> set (Q i) \<or> wakeup_flags (waits s ?p) = WT_KSEM"
    using inv p unfolding sem_inv_def prod.case by blast
  then have "wakeup_flags (waits s ?p) = WT_KSEM" using nq by blast
  moreover have "list_empty (WaitLink ?p) (wlinks s)" using sync_wfD(3) [OF wf] nq by blast
  ultimately show ?thesis
    by (simp add: down_resume_def down_end_def wait_current_del_def wait_in_queue_def)
qed

lemma sem_step_inv:
  assumes "sem_step cl sp sp'" "sem_inv ok queued sp Q"
  shows "\<exists>Q'. sem_inv ok queued sp' Q'"
  using assms
proof (cases rule: sem_step.cases)
  case (down_now pend s i s')
  have wf: "sync_wf ok queued s Q" "state (procs (kst s) (current (kst s))) = PROC_RUNNABLE"
    "state (procs (kst s) (idleproc (kst s))) = PROC_RUNNABLE" using assms(2) down_now by (simp_all add: sem_inv_def)
  have "s' = s\<lparr>sem_value := (sem_value s)(i := sem_value s i - 1)\<rparr> \<and> sync_wf ok queued s' Q"
    using down_ok [OF wf, of i] down_now by (auto split: if_splits)
  then show ?thesis using assms(2) down_now by (intro exI [of _ Q]) (auto simp: sem_inv_def)
next
  case (down_block pend s i s')
  let ?p = "current (kst s)"
  have wf: "sync_wf ok queued s Q" "state (procs (kst s) ?p) = PROC_RUNNABLE"
    "state (procs (kst s) (idleproc (kst s))) = PROC_RUNNABLE" using assms(2) down_block by (simp_all add: sem_inv_def)
  have s': "sync_wf ok queued s' (Q(i := Q i @ [?p]))" "idleproc (kst s') = idleproc (kst s)"
      "state (procs (kst s') (current (kst s'))) = PROC_RUNNABLE"
      "\<forall>q. q \<noteq> ?p \<longrightarrow> waits s' q = waits s q \<and> state (procs (kst s') q) = state (procs (kst s) q)"
    using down_ok [OF wf, of i] down_block by (auto split: if_splits)
  have "\<forall>j. \<forall>w \<in> set ((Q(i := Q i @ [?p])) j). (pend(?p \<mapsto> i)) w = Some j"
    using assms(2) down_block by (auto simp: sem_inv_def)
  moreover have "w \<in> set ((Q(i := Q i @ [?p])) j) \<or> wakeup_flags (waits s' w) = WT_KSEM"
    if "(pend(?p \<mapsto> i)) w = Some j" for w j
  proof (cases "w = ?p")
    case True
    then show ?thesis using that by simp
  next
    case False
    then have "w \<in> set (Q j) \<or> wakeup_flags (waits s w) = WT_KSEM" using that assms(2) down_block by (auto simp: sem_inv_def)
    then show ?thesis using s'(4) False by auto
  qed
  moreover have "state (procs (kst s') (idleproc (kst s'))) = PROC_RUNNABLE"
    using s'(2,4) wf(3) down_block by auto
  ultimately show ?thesis using s'(1,3) down_block by (intro exI [of _ "Q(i := Q i @ [?p])"]) (simp add: sem_inv_def)
next
  case (down_resumed pend s i s')
  have "s' = s" using resume_ok [of s pend Q i] assms(2) down_resumed by simp
  moreover have "current (kst s) \<notin> set (Q j)" for j
    using assms(2) down_resumed sync_wfD(4) [of ok queued s Q "current (kst s)" j] by (auto simp: sem_inv_def)
  ultimately show ?thesis using assms(2) down_resumed by (intro exI [of _ Q]) (auto simp: sem_inv_def)
next
  case (up pend s i s')
  have wf: "sync_wf ok queued s Q" using assms(2) up by (simp add: sem_inv_def)
  show ?thesis
  proof (cases "Q i")
    case Nil
    then show ?thesis using up_ok [OF wf, of i] up assms(2) by (intro exI [of _ Q]) (auto simp: sem_inv_def)
  next
    case (Cons w ws)
    then have s': "sync_wf ok queued s' (Q(i := ws))" "state (procs (kst s') w) = PROC_RUNNABLE"
      "wakeup_flags (waits s' w) = WT_KSEM" "current (kst s') = current (kst s)" "idleproc (kst s') = idleproc (kst s)"
      "\<forall>q. q \<noteq> w \<longrightarrow> waits s' q = waits s q \<and> state (procs (kst s') q) = state (procs (kst s) q)"
      using up_ok [OF wf, of i] up by simp_all
    have "v \<in> set ((Q(i := ws)) j) \<or> wakeup_flags (waits s' v) = WT_KSEM" if "pend v = Some j" for v j
    proof (cases "v = w")
      case False
      then have "v \<in> set (Q j) \<or> wakeup_flags (waits s v) = WT_KSEM" using that assms(2) up by (auto simp: sem_inv_def)
      then show ?thesis using s'(6) False Cons by auto
    qed (use s'(3) in simp)
    moreover have "\<forall>j. \<forall>v \<in> set ((Q(i := ws)) j). pend v = Some j"
      using assms(2) up Cons by (auto simp: sem_inv_def)
    moreover have "state (procs (kst s') (current (kst s'))) = PROC_RUNNABLE"
      using s'(2,4,6) assms(2) up by (cases "current (kst s) = w") (auto simp: sem_inv_def)
    moreover have "state (procs (kst s') (idleproc (kst s'))) = PROC_RUNNABLE"
      using s'(2,5,6) assms(2) up by (cases "idleproc (kst s) = w") (auto simp: sem_inv_def)
    ultimately show ?thesis using s'(1) up by (intro exI [of _ "Q(i := ws)"]) (simp add: sem_inv_def)
  qed
next
  case (switch s k pend)
  have wf: "sync_wf ok queued s Q" and idle: "state (procs (kst s) (idleproc (kst s))) = PROC_RUNNABLE"
    using assms(2) switch by (simp_all add: sem_inv_def)
  from schedule_inv [OF sync_wfD(7) [OF wf]] switch have k: "sched_inv ok queued k"
    "\<forall>p. state (procs k p) = state (procs (kst s) p) \<and> wait_state (procs k p) = wait_state (procs (kst s) p)"
    "idleproc k = idleproc (kst s)"
    "current k = idleproc (kst s) \<or> state (procs (kst s) (current k)) = PROC_RUNNABLE" by (auto split: if_splits)
  have "sync_wf ok queued (s\<lparr>kst := k\<rparr>) Q" using wf k(1,2) by (simp add: sync_wf_def)
  then show ?thesis using assms(2) switch k idle by (intro exI [of _ Q]) (auto simp: sem_inv_def)
qed

lemma sem_reachable_inv:
  assumes "(sem_step cl)\<^sup>*\<^sup>* sp sp'" "sem_inv ok queued sp Q"
  shows "\<exists>Q'. sem_inv ok queued sp' Q'"
  using assms
proof (induction rule: rtranclp_induct)
  case base
  then show ?case by blast
next
  case (step y z)
  then obtain Q' where "sem_inv ok queued y Q'" by blast
  with step.hyps(2) show ?case by (rule sem_step_inv)
qed

end

end
