(* ===== verification/Sync_Theorems.thy ===== *)
theory Sync_Theorems
  imports Sched_Theorems Wait_Queue
begin

text \<open>
  The properties of the wait queues and semaphores (labcode/lab8, kern/sync), for each of the four
  scheduling policies, with instances on the small system of the scheduler theory: process 1 runs
  and process 2 waits for semaphore 0.
\<close>

subsection \<open>A small system\<close>

definition demo_sync :: "kern \<Rightarrow> sync" where
  "demo_sync k = \<lparr>kst = k,
     waits = (\<lambda>w. \<lparr>wproc = None, wakeup_flags = 0, wait_queue = None\<rparr>),
     wlinks = \<lparr>lnext = (\<lambda>e. e), lprev = (\<lambda>e. e)\<rparr>, sem_value = (\<lambda>i. 0)\<rparr>"

definition demo_run2 :: kern where
  "demo_run2 = \<lparr>procs = (\<lambda>p. demo_proc (if p = 0 \<or> p = 2 then PROC_RUNNABLE else PROC_SLEEPING) 1),
     current = 2, idleproc = 0, initproc = 1,
     run_list = \<lparr>lnext = (\<lambda>e. e), lprev = (\<lambda>e. e)\<rparr>, proc_num = 0, max_time_slice = 5,
     lab6_run_pool = None, pool = \<lparr>hparent = (\<lambda>_. None), hleft = (\<lambda>_. None), hright = (\<lambda>_. None)\<rparr>,
     timers = (\<lambda>t. \<lparr>expires = 0, tproc = None\<rparr>),
     timer_list = \<lparr>lnext = (\<lambda>e. e), lprev = (\<lambda>e. e)\<rparr>, rand_next = 1\<rparr>"

lemma demo_run2_inv: "sched_inv rr_ok rr_queued demo_run2"
proof -
  have "rr_wf demo_run2 []" by (simp add: rr_wf_def demo_run2_def dll_def list_empty_def)
  moreover have "runnables demo_run2 = {}"
    by (auto simp: runnables_def demo_run2_def demo_proc_def split: if_splits)
  ultimately show ?thesis using rr_wfD(3) [of demo_run2 "[]"] by (auto simp: sched_inv_def rr_ok_def)
qed

lemma demo_sync_wf: "sync_wf rr_ok rr_queued (demo_sync demo_run2) (\<lambda>_. [])"
  using demo_run2_inv by (simp add: sync_wf_def demo_sync_def dll_def list_empty_def)

lemma demo_sem_inv: "sem_inv rr_ok rr_queued (demo_sync demo_run2, \<lambda>_. None) (\<lambda>_. [])"
  using demo_sync_wf by (simp add: sem_inv_def demo_sync_def demo_run2_def demo_proc_def)

lemma demo_rr: "List.member policies (default_sched_class, rr_ok, rr_queued)"
  by (simp add: policies_def)

subsection \<open>Semaphores\<close>

text \<open>C18: Semaphores under every schedule.  From a state that satisfies the invariant, after any sequence
  of steps (processes entering \<^verbatim>\<open>down\<close>, blocking in it and resuming, \<^verbatim>\<open>up\<close>, context switches), for each
  policy: the wait queues hold exactly the sleeping processes that wait for them and each at most
  once, a semaphore with waiters has value 0, no value is negative; a process that runs again after
  blocking leaves \<^verbatim>\<open>down\<close> without failing its assertion and without changing the state; and the
  running process can always call \<^verbatim>\<open>up\<close>, and unless it is the idle process \<^verbatim>\<open>down\<close>, which return.\<close>

theorem semaphores_never_fail:
  assumes "List.member policies (cl, ok, queued)" and "sem_inv ok queued sp Q"
    and "(sem_step cl)\<^sup>*\<^sup>* sp (s, pend)"
  shows "\<exists>Q. sync_wf ok queued s Q \<and>
    (\<forall>i. \<forall>w \<in> set (Q i). pend w = Some i \<and> state (procs (kst s) w) = PROC_SLEEPING) \<and>
    (\<forall>i. 0 \<le> sem_value s i \<and> (Q i \<noteq> [] \<longrightarrow> sem_value s i = 0)) \<and>
    (\<forall>i. pend (current (kst s)) = Some i \<longrightarrow> down_resume i (current (kst s)) s = Some s) \<and>
    (\<forall>i. up cl i s \<noteq> None) \<and>
    (\<forall>i. current (kst s) \<noteq> idleproc (kst s) \<longrightarrow> down_start cl i s \<noteq> None)"
proof -
  obtain fresh where c: "scheduling_class cl ok queued fresh" using policies_are_classes [OF assms(1)] ..
  from scheduling_class.sem_reachable_inv [OF c assms(3,2)] obtain R where R: "sem_inv ok queued (s, pend) R" ..
  then have w: "sync_wf ok queued s R" "state (procs (kst s) (current (kst s))) = PROC_RUNNABLE"
    "state (procs (kst s) (idleproc (kst s))) = PROC_RUNNABLE" "\<forall>i. \<forall>w \<in> set (R i). pend w = Some i"
    by (simp_all add: sem_inv_def)
  have "\<forall>i. \<forall>w \<in> set (R i). pend w = Some i \<and> state (procs (kst s) w) = PROC_SLEEPING"
    using w(4) sync_wfD(4) [OF w(1)] by blast
  moreover have "\<forall>i. 0 \<le> sem_value s i \<and> (R i \<noteq> [] \<longrightarrow> sem_value s i = 0)"
    using sync_wfD(5,6) [OF w(1)] by blast
  moreover have "\<forall>i. pend (current (kst s)) = Some i \<longrightarrow> down_resume i (current (kst s)) s = Some s"
    using scheduling_class.resume_ok [OF c R] by blast
  moreover have "up cl i s \<noteq> None" for i using scheduling_class.up_ok [OF c w(1), of i] by auto
  moreover have "down_start cl i s \<noteq> None" if "current (kst s) \<noteq> idleproc (kst s)" for i
    using scheduling_class.down_ok [OF c w(1,2,3) that, of i] by (cases "0 < sem_value s i") auto
  ultimately show ?thesis using w(1) by blast
qed

lemma semaphores_never_fail_witness:
  "\<exists>s. down_start default_sched_class 0 (demo_sync demo_run2) = Some (False, s) \<and> up default_sched_class 0 s \<noteq> None"
proof -
  have "map_option fst (down_start default_sched_class 0 (demo_sync demo_run2)) = Some False" by code_simp
  then obtain s where s: "down_start default_sched_class 0 (demo_sync demo_run2) = Some (False, s)" by auto
  have "sem_step default_sched_class (demo_sync demo_run2, \<lambda>_. None)
    (s, (\<lambda>_. None)(current (kst (demo_sync demo_run2)) \<mapsto> 0))"
    by (rule sem_step.down_block) (use s in \<open>simp_all add: demo_sync_def demo_run2_def\<close>)
  then have "(sem_step default_sched_class)\<^sup>*\<^sup>* (demo_sync demo_run2, \<lambda>_. None)
    (s, (\<lambda>_. None)(current (kst (demo_sync demo_run2)) \<mapsto> 0))" by (rule r_into_rtranclp)
  from semaphores_never_fail [OF demo_rr demo_sem_inv this] s show ?thesis by blast
qed

text \<open>Hand-over in order of arrival.  \<^verbatim>\<open>down\<close> of a runnable process other than the idle one takes a free
  unit if there is one and else puts the process to sleep at the tail of the semaphore's queue and runs
  a runnable process; \<^verbatim>\<open>up\<close> adds a unit if nobody waits and else wakes exactly the process that has waited
  longest, hands the unit to it without making it visible to others, and leaves the other waiters in
  their order.\<close>

lemma semaphore_handoff:
  assumes "List.member policies (cl, ok, queued)" and "sync_wf ok queued s Q"
  shows "(\<exists>s'. up cl i s = Some s' \<and>
      (case Q i of
         [] \<Rightarrow> s' = s\<lparr>sem_value := (sem_value s)(i := sem_value s i + 1)\<rparr> \<and> sync_wf ok queued s' Q
       | w # ws \<Rightarrow> sync_wf ok queued s' (Q(i := ws)) \<and> sem_value s' = sem_value s \<and>
           state (procs (kst s') w) = PROC_RUNNABLE \<and>
           (\<forall>q. q \<noteq> w \<longrightarrow> state (procs (kst s') q) = state (procs (kst s) q)))) \<and>
    (state (procs (kst s) (current (kst s))) = PROC_RUNNABLE \<and>
      state (procs (kst s) (idleproc (kst s))) = PROC_RUNNABLE \<and> current (kst s) \<noteq> idleproc (kst s) \<longrightarrow>
      (if 0 < sem_value s i
      then \<exists>s'. down_start cl i s = Some (True, s') \<and> sync_wf ok queued s' Q \<and>
        sem_value s' = (sem_value s)(i := sem_value s i - 1) \<and> kst s' = kst s
      else \<exists>s'. down_start cl i s = Some (False, s') \<and> sync_wf ok queued s' (Q(i := Q i @ [current (kst s)])) \<and>
        sem_value s' = sem_value s \<and> state (procs (kst s') (current (kst s'))) = PROC_RUNNABLE))"
proof (intro conjI impI)
  show "\<exists>s'. up cl i s = Some s' \<and>
      (case Q i of
         [] \<Rightarrow> s' = s\<lparr>sem_value := (sem_value s)(i := sem_value s i + 1)\<rparr> \<and> sync_wf ok queued s' Q
       | w # ws \<Rightarrow> sync_wf ok queued s' (Q(i := ws)) \<and> sem_value s' = sem_value s \<and>
           state (procs (kst s') w) = PROC_RUNNABLE \<and>
           (\<forall>q. q \<noteq> w \<longrightarrow> state (procs (kst s') q) = state (procs (kst s) q)))"
  proof -
    obtain fresh where c: "scheduling_class cl ok queued fresh" using policies_are_classes [OF assms(1)] ..
    show ?thesis using scheduling_class.up_ok [OF c assms(2), of i] by (cases "Q i") auto
  qed
  assume a: "state (procs (kst s) (current (kst s))) = PROC_RUNNABLE \<and>
    state (procs (kst s) (idleproc (kst s))) = PROC_RUNNABLE \<and> current (kst s) \<noteq> idleproc (kst s)"
  show "if 0 < sem_value s i
      then \<exists>s'. down_start cl i s = Some (True, s') \<and> sync_wf ok queued s' Q \<and>
        sem_value s' = (sem_value s)(i := sem_value s i - 1) \<and> kst s' = kst s
      else \<exists>s'. down_start cl i s = Some (False, s') \<and> sync_wf ok queued s' (Q(i := Q i @ [current (kst s)])) \<and>
        sem_value s' = sem_value s \<and> state (procs (kst s') (current (kst s'))) = PROC_RUNNABLE"
  proof -
    obtain fresh where c: "scheduling_class cl ok queued fresh" using policies_are_classes [OF assms(1)] ..
    from a have "state (procs (kst s) (current (kst s))) = PROC_RUNNABLE"
      "state (procs (kst s) (idleproc (kst s))) = PROC_RUNNABLE" "current (kst s) \<noteq> idleproc (kst s)" by simp_all
    from scheduling_class.down_ok [OF c assms(2) this, of i] show ?thesis by (cases "0 < sem_value s i") auto
  qed
qed

lemma semaphore_handoff_witness:
  "\<exists>s s'. down_start default_sched_class 0 (demo_sync demo_run2) = Some (False, s) \<and>
     up default_sched_class 0 s = Some s' \<and> sem_value s' 0 = 0 \<and> state (procs (kst s') 2) = PROC_RUNNABLE"
proof -
  have d: "\<not> 0 < sem_value (demo_sync demo_run2) 0" "current (kst (demo_sync demo_run2)) = 2"
    "idleproc (kst (demo_sync demo_run2)) = 0" "sem_value (demo_sync demo_run2) 0 = 0"
    "state (procs (kst (demo_sync demo_run2)) 2) = PROC_RUNNABLE" "state (procs (kst (demo_sync demo_run2)) 0) = PROC_RUNNABLE"
    by (simp_all add: demo_sync_def demo_run2_def demo_proc_def)
  obtain s where s: "down_start default_sched_class 0 (demo_sync demo_run2) = Some (False, s)"
    "sync_wf rr_ok rr_queued s ((\<lambda>_. [])(0 := [2]))" "sem_value s 0 = 0"
    using semaphore_handoff [OF demo_rr demo_sync_wf, of 0] d by auto
  obtain s' where "up default_sched_class 0 s = Some s'" "sem_value s' = sem_value s"
    "state (procs (kst s') 2) = PROC_RUNNABLE"
    using semaphore_handoff [OF demo_rr s(2), of 0] by auto
  with s show ?thesis by auto
qed

end
