(* ===== verification/Cstring.thy ===== *)
theory Cstring
  imports Prelude
begin

text \<open>
  libs/string.c (labcode/lab8): C strings and memory blocks.  Memory is a function from addresses to
  bytes; an address is a natural number, as no object reaches the end of the address space.  A loop
  that stops at a null byte only is a partial function: without one it never returns.  \<^verbatim>\<open>char\<close> is
  unsigned on this architecture.
\<close>

type_synonym mem = "nat \<Rightarrow> u8"

subsection \<open>Strings\<close>

partial_function (option) strlen_loop :: "mem \<Rightarrow> nat \<Rightarrow> nat \<Rightarrow> nat option" where
  "strlen_loop m s cnt = (if m s \<noteq> 0 then strlen_loop m (s + 1) (cnt + 1) else Some cnt)"

definition strlen :: "mem \<Rightarrow> nat \<Rightarrow> nat option" where
  "strlen m s = strlen_loop m s 0"

function strnlen_loop :: "mem \<Rightarrow> nat \<Rightarrow> nat \<Rightarrow> nat \<Rightarrow> nat" where
  "strnlen_loop m s len cnt = (if cnt < len \<and> m s \<noteq> 0 then strnlen_loop m (s + 1) len (cnt + 1) else cnt)"
  by pat_completeness auto
termination by (relation "measure (\<lambda>(m, s, len, cnt). len - cnt)") auto

declare strnlen_loop.simps [simp del]

definition strnlen :: "mem \<Rightarrow> nat \<Rightarrow> nat \<Rightarrow> nat" where
  "strnlen m s len = strnlen_loop m s len 0"

partial_function (option) strcpy_loop :: "nat \<Rightarrow> nat \<Rightarrow> mem \<Rightarrow> mem option" where
  "strcpy_loop p src m =
     (let c = m src; m1 = m(p := c)
      in if c \<noteq> 0 then strcpy_loop (p + 1) (src + 1) m1 else Some m1)"

definition strcpy :: "nat \<Rightarrow> nat \<Rightarrow> mem \<Rightarrow> (nat \<times> mem) option" where
  "strcpy dst src m = do { m1 \<leftarrow> strcpy_loop dst src m; Some (dst, m1) }"

primrec strncpy_loop :: "nat \<Rightarrow> nat \<Rightarrow> nat \<Rightarrow> mem \<Rightarrow> mem" where
  "strncpy_loop 0 p src m = m"
| "strncpy_loop (Suc len) p src m =
     (let c = m src in strncpy_loop len (p + 1) (if c \<noteq> 0 then src + 1 else src) (m(p := c)))"

definition strncpy :: "nat \<Rightarrow> nat \<Rightarrow> nat \<Rightarrow> mem \<Rightarrow> nat \<times> mem" where
  "strncpy dst src len m = (dst, strncpy_loop len dst src m)"

definition strcat :: "nat \<Rightarrow> nat \<Rightarrow> mem \<Rightarrow> (nat \<times> mem) option" where
  "strcat dst src m = do { n \<leftarrow> strlen m dst; strcpy (dst + n) src m }"

definition char_diff :: "u8 \<Rightarrow> u8 \<Rightarrow> int" where
  "char_diff a b = int (unat a) - int (unat b)"

partial_function (option) strcmp :: "mem \<Rightarrow> nat \<Rightarrow> nat \<Rightarrow> int option" where
  "strcmp m s1 s2 =
     (if m s1 \<noteq> 0 \<and> m s1 = m s2 then strcmp m (s1 + 1) (s2 + 1)
      else Some (char_diff (m s1) (m s2)))"

lemma char_diff_zero [simp]: "char_diff a b = 0 \<longleftrightarrow> a = b"
  by (simp only: char_diff_def right_minus_eq of_nat_eq_iff word_unat_eq_iff)

lemma char_diff_neg [simp]: "char_diff a b < 0 \<longleftrightarrow> a < b"
  by (simp only: char_diff_def word_less_nat_alt) linarith

primrec strncmp :: "mem \<Rightarrow> nat \<Rightarrow> nat \<Rightarrow> nat \<Rightarrow> int" where
  "strncmp m s1 s2 0 = 0"
| "strncmp m s1 s2 (Suc n) =
     (if m s1 \<noteq> 0 \<and> m s1 = m s2 then strncmp m (s1 + 1) (s2 + 1) n
      else char_diff (m s1) (m s2))"

partial_function (option) strchr :: "mem \<Rightarrow> nat \<Rightarrow> u8 \<Rightarrow> nat option option" where
  "strchr m s c =
     (if m s \<noteq> 0 then (if m s = c then Some (Some s) else strchr m (s + 1) c) else Some None)"

partial_function (option) strfind :: "mem \<Rightarrow> nat \<Rightarrow> u8 \<Rightarrow> nat option" where
  "strfind m s c =
     (if m s \<noteq> 0 then (if m s = c then Some s else strfind m (s + 1) c) else Some s)"

declare strlen_loop.simps [code] strcpy_loop.simps [code] strcmp.simps [code] strchr.simps [code]
  strfind.simps [code]

subsection \<open>Numbers\<close>

text \<open>\<^verbatim>\<open>val\<close> is a 64-bit integer; it wraps, as the comment in the code warns.\<close>

partial_function (option) skip_blanks :: "mem \<Rightarrow> nat \<Rightarrow> nat option" where
  "skip_blanks m s = (if m s = 0x20 \<or> m s = 9 then skip_blanks m (s + 1) else Some s)"

definition digit_of :: "u8 \<Rightarrow> int option" where
  "digit_of c =
     (if 0x30 \<le> c \<and> c \<le> 0x39 then Some (int (unat c) - 0x30)
      else if 0x61 \<le> c \<and> c \<le> 0x7a then Some (int (unat c) - 0x61 + 10)
      else if 0x41 \<le> c \<and> c \<le> 0x5a then Some (int (unat c) - 0x41 + 10)
      else None)"

partial_function (option) strtol_digits :: "mem \<Rightarrow> int \<Rightarrow> nat \<Rightarrow> u64 \<Rightarrow> (nat \<times> u64) option" where
  "strtol_digits m b s val = (case digit_of (m s) of
     None \<Rightarrow> Some (s, val)
   | Some dig \<Rightarrow> if dig \<ge> b then Some (s, val)
       else strtol_digits m b (s + 1) (val * word_of_int b + word_of_int dig))"

definition strtol_sign :: "mem \<Rightarrow> nat \<Rightarrow> nat \<times> bool" where
  "strtol_sign m s = (if m s = 0x2b then (s + 1, False) else if m s = 0x2d then (s + 1, True) else (s, False))"

definition strtol_base :: "mem \<Rightarrow> nat \<Rightarrow> int \<Rightarrow> nat \<times> int" where
  "strtol_base m s b =
     (if (b = 0 \<or> b = 16) \<and> m s = 0x30 \<and> m (s + 1) = 0x78 then (s + 2, 16)
      else if b = 0 \<and> m s = 0x30 then (s + 1, 8)
      else if b = 0 then (s, 10)
      else (s, b))"

definition strtol :: "mem \<Rightarrow> nat \<Rightarrow> int \<Rightarrow> (int \<times> nat) option" where
  "strtol m s b = do {
     s1 \<leftarrow> skip_blanks m s;
     let (s2, neg) = strtol_sign m s1;
     let (s3, b') = strtol_base m s2 b;
     (e, val) \<leftarrow> strtol_digits m b' s3 0;
     Some (sint (if neg then - val else val), e) }"

declare skip_blanks.simps [code] strtol_digits.simps [code]

subsection \<open>Memory blocks\<close>

primrec memset_loop :: "nat \<Rightarrow> nat \<Rightarrow> u8 \<Rightarrow> mem \<Rightarrow> mem" where
  "memset_loop 0 p c m = m"
| "memset_loop (Suc n) p c m = memset_loop n (p + 1) c (m(p := c))"

definition memset :: "nat \<Rightarrow> u8 \<Rightarrow> nat \<Rightarrow> mem \<Rightarrow> nat \<times> mem" where
  "memset s c n m = (s, memset_loop n s c m)"

primrec copy_up :: "nat \<Rightarrow> nat \<Rightarrow> nat \<Rightarrow> mem \<Rightarrow> mem" where
  "copy_up 0 d s m = m"
| "copy_up (Suc n) d s m = copy_up n (d + 1) (s + 1) (m(d := m s))"

primrec copy_down :: "nat \<Rightarrow> nat \<Rightarrow> nat \<Rightarrow> mem \<Rightarrow> mem" where
  "copy_down 0 d s m = m"
| "copy_down (Suc n) d s m = copy_down n (d - 1) (s - 1) (m(d - 1 := m (s - 1)))"

definition memmove :: "nat \<Rightarrow> nat \<Rightarrow> nat \<Rightarrow> mem \<Rightarrow> nat \<times> mem" where
  "memmove dst src n m =
     (dst, if src < dst \<and> src + n > dst then copy_down n (dst + n) (src + n) m else copy_up n dst src m)"

definition memcpy :: "nat \<Rightarrow> nat \<Rightarrow> nat \<Rightarrow> mem \<Rightarrow> nat \<times> mem" where
  "memcpy dst src n m = (dst, copy_up n dst src m)"

primrec memcmp :: "mem \<Rightarrow> nat \<Rightarrow> nat \<Rightarrow> nat \<Rightarrow> int" where
  "memcmp m s1 s2 0 = 0"
| "memcmp m s1 s2 (Suc n) =
     (if m s1 \<noteq> m s2 then char_diff (m s1) (m s2) else memcmp m (s1 + 1) (s2 + 1) n)"

subsection \<open>The string at an address\<close>

text \<open>\<open>cstr m a xs\<close>: the bytes \<open>xs\<close>, none of them null, and then a null byte stand at address a.\<close>

fun cstr :: "mem \<Rightarrow> nat \<Rightarrow> u8 list \<Rightarrow> bool" where
  "cstr m a [] \<longleftrightarrow> m a = 0"
| "cstr m a (x # xs) \<longleftrightarrow> m a = x \<and> x \<noteq> 0 \<and> cstr m (a + 1) xs"

lemma cstr_iff: "cstr m a xs \<longleftrightarrow> 0 \<notin> set xs \<and> (\<forall>i < length xs. m (a + i) = xs ! i) \<and> m (a + length xs) = 0"
proof (induction xs arbitrary: a)
  case (Cons x xs)
  have "(\<forall>i < length (x # xs). m (a + i) = (x # xs) ! i) \<longleftrightarrow> m a = x \<and> (\<forall>i < length xs. m (a + 1 + i) = xs ! i)"
    by (auto simp: less_Suc_eq_0_disj)
  then show ?case using Cons.IH [of "a + 1"] by auto
qed simp

lemma cstr_unique: "cstr m a xs \<Longrightarrow> cstr m a ys \<Longrightarrow> xs = ys"
proof (induction xs arbitrary: a ys)
  case Nil
  then show ?case by (cases ys) auto
next
  case (Cons x xs)
  then show ?case by (cases ys) auto
qed

lemma cstr_cong:
  "cstr m a xs \<Longrightarrow> (\<And>i. i \<le> length xs \<Longrightarrow> m' (a + i) = m (a + i)) \<Longrightarrow> cstr m' a xs"
  by (simp add: cstr_iff)

lemma strlen_cstr: "cstr m a xs \<Longrightarrow> strlen m a = Some (length xs)"
proof -
  have "cstr m a xs \<Longrightarrow> strlen_loop m a k = Some (k + length xs)" for k
    by (induction xs arbitrary: a k) (simp_all add: strlen_loop.simps)
  then show "cstr m a xs \<Longrightarrow> strlen m a = Some (length xs)" by (simp add: strlen_def)
qed

lemma strnlen_cstr: "cstr m a xs \<Longrightarrow> strnlen m a n = min n (length xs)"
proof -
  have "cstr m a xs \<Longrightarrow> k \<le> n \<Longrightarrow> strnlen_loop m a n k = min n (k + length xs)" for k
    by (induction xs arbitrary: a k) (subst strnlen_loop.simps; auto)+
  then show "cstr m a xs \<Longrightarrow> strnlen m a n = min n (length xs)" by (simp add: strnlen_def)
qed

text \<open>Blocks: what a copy loop leaves at every address.\<close>

lemma copy_up_at:
  assumes "d \<le> s \<or> s + n \<le> d"
  shows "copy_up n d s m x = (if d \<le> x \<and> x < d + n then m (s + (x - d)) else m x)"
  using assms
proof (induction n arbitrary: d s m)
  case (Suc n)
  have "copy_up (Suc n) d s m x = copy_up n (d + 1) (s + 1) (m(d := m s)) x" by simp
  also have "\<dots> = (if d + 1 \<le> x \<and> x < d + 1 + n then (m(d := m s)) (s + 1 + (x - (d + 1))) else (m(d := m s)) x)"
    by (rule Suc.IH) (use Suc.prems in auto)
  also have "\<dots> = (if d \<le> x \<and> x < d + Suc n then m (s + (x - d)) else m x)"
  proof -
    have "d + 1 \<le> x \<Longrightarrow> s + 1 + (x - (d + 1)) = s + (x - d)" "d + 1 \<le> x \<Longrightarrow> x < d + 1 + n \<Longrightarrow> s + (x - d) \<noteq> d"
      using Suc.prems by linarith+
    note e = this
    show ?thesis
    proof (cases "d + 1 \<le> x \<and> x < d + 1 + n")
      case True
      then show ?thesis unfolding e(1) [OF conjunct1 [OF True]] using e by simp
    next
      case False
      then show ?thesis by (cases "x = d") auto
    qed
  qed
  finally show ?case .
qed simp

lemma copy_down_at:
  assumes "s \<le> d" "n \<le> s"
  shows "copy_down n d s m x = (if d - n \<le> x \<and> x < d then m (s + x - d) else m x)"
  using assms
proof (induction n arbitrary: d s m)
  case (Suc n)
  have "copy_down (Suc n) d s m x = copy_down n (d - 1) (s - 1) (m(d - 1 := m (s - 1))) x" by simp
  also have "\<dots> = (if d - 1 - n \<le> x \<and> x < d - 1 then (m(d - 1 := m (s - 1))) (s - 1 + x - (d - 1)) else (m(d - 1 := m (s - 1))) x)"
    by (rule Suc.IH) (use Suc.prems in auto)
  also have "\<dots> = (if d - Suc n \<le> x \<and> x < d then m (s + x - d) else m x)"
  proof -
    have "x = d - 1 \<Longrightarrow> s + x - d = s - 1" "s - 1 + x - (d - 1) = s + x - d"
      "x < d - 1 \<Longrightarrow> s + x - d \<noteq> d - 1" using Suc.prems by linarith+
    moreover have "d - 1 - n = d - Suc n" "x < d \<longleftrightarrow> x < d - 1 \<or> x = d - 1" "d - Suc n \<le> d - 1"
      using Suc.prems by linarith+
    ultimately show ?thesis by (auto simp del: diff_diff_left)
  qed
  finally show ?case .
qed simp

lemma memmove_at:
  "fst (memmove dst src n m) = dst"
  "snd (memmove dst src n m) x = (if dst \<le> x \<and> x < dst + n then m (src + (x - dst)) else m x)"
proof -
  show "snd (memmove dst src n m) x = (if dst \<le> x \<and> x < dst + n then m (src + (x - dst)) else m x)"
  proof (cases "src < dst \<and> src + n > dst")
    case True
    then show ?thesis using copy_down_at [of "src + n" "dst + n" n m x] by (auto simp: memmove_def)
  next
    case False
    then show ?thesis using copy_up_at [of dst src n m x] by (auto simp: memmove_def)
  qed
qed (simp add: memmove_def)

lemma memset_at: "snd (memset s c n m) x = (if s \<le> x \<and> x < s + n then c else m x)"
proof -
  have "memset_loop n s c m x = (if s \<le> x \<and> x < s + n then c else m x)"
    by (induction n arbitrary: s m) auto
  then show ?thesis by (simp add: memset_def)
qed

lemma memcpy_at:
  "dst + n \<le> src \<or> src + n \<le> dst \<Longrightarrow>
   snd (memcpy dst src n m) x = (if dst \<le> x \<and> x < dst + n then m (src + (x - dst)) else m x)"
  using copy_up_at [of dst src n m x] by (auto simp: memcpy_def)

lemma memcmp_zero: "memcmp m a b n = 0 \<longleftrightarrow> (\<forall>i < n. m (a + i) = m (b + i))"
proof (induction n arbitrary: a b)
  case (Suc n)
  have "(\<forall>i < Suc n. m (a + i) = m (b + i)) \<longleftrightarrow> m a = m b \<and> (\<forall>i < n. m (a + 1 + i) = m (b + 1 + i))"
    by (auto simp: less_Suc_eq_0_disj)
  then show ?case using Suc [of "a + 1" "b + 1"] by simp
qed simp

text \<open>Copies that run forward over a source the destination does not overwrite too early.\<close>

lemma strcpy_loop_at:
  assumes "cstr m src xs" "\<forall>i \<le> length xs. dst \<noteq> src + i \<and> dst + i \<noteq> src" "dst \<le> src \<or> src + length xs < dst"
  shows "strcpy_loop dst src m = Some (copy_up (length xs + 1) dst src m)"
  using assms
proof (induction xs arbitrary: dst src m)
  case (Cons x xs)
  have ne: "dst \<noteq> src + 1 + i" if "i \<le> length xs" for i using Cons.prems(2) that by (metis Suc_le_mono add.assoc length_Cons plus_1_eq_Suc)
  have "cstr (m(dst := m src)) (src + 1) xs"
    by (rule cstr_cong [of m]) (use Cons.prems(1) in simp, use ne in \<open>metis fun_upd_other\<close>)
  moreover have "\<forall>i \<le> length xs. dst + 1 \<noteq> src + 1 + i \<and> dst + 1 + i \<noteq> src + 1" using Cons.prems(2) by auto
  ultimately have "strcpy_loop (dst + 1) (src + 1) (m(dst := m src)) =
      Some (copy_up (length xs + 1) (dst + 1) (src + 1) (m(dst := m src)))"
    using Cons.prems(3) by (intro Cons.IH) (assumption | force)+
  then show ?case using Cons.prems(1) by (subst strcpy_loop.simps) (simp add: Let_def)
qed (simp add: strcpy_loop.simps)

lemma strcpy_cstr:
  assumes "cstr m src xs" "dst + length xs < src \<or> src + length xs < dst"
  shows "\<exists>m'. strcpy dst src m = Some (dst, m') \<and> cstr m' dst xs \<and> cstr m' src xs \<and>
    (\<forall>x. \<not> (dst \<le> x \<and> x \<le> dst + length xs) \<longrightarrow> m' x = m x)"
proof -
  obtain m' where m': "m' = copy_up (length xs + 1) dst src m" by blast
  have at: "m' x = (if dst \<le> x \<and> x < dst + (length xs + 1) then m (src + (x - dst)) else m x)" for x
    unfolding m' by (rule copy_up_at) (use assms(2) in auto)
  have "strcpy dst src m = Some (dst, m')"
    using strcpy_loop_at [OF assms(1), of dst] assms(2) m' by (auto simp: strcpy_def)
  moreover have "cstr m' dst xs" using assms(1) by (simp add: cstr_iff at)
  moreover have "cstr m' src xs"
    by (rule cstr_cong [OF assms(1)]) (use assms(2) in \<open>auto simp: at\<close>)
  ultimately show ?thesis using at by (intro exI [of _ m']) auto
qed

lemma strcat_cstr:
  assumes "cstr m dst xs" "cstr m src ys" "dst + length xs + length ys < src \<or> src + length ys < dst"
  shows "\<exists>m'. strcat dst src m = Some (dst + length xs, m') \<and> cstr m' dst (xs @ ys)"
proof -
  have "dst + length xs + length ys < src \<or> src + length ys < dst + length xs" using assms(3) by auto
  from strcpy_cstr [OF assms(2) this] obtain m' where m': "strcpy (dst + length xs) src m = Some (dst + length xs, m')"
    "cstr m' (dst + length xs) ys" "\<forall>x. \<not> (dst + length xs \<le> x \<and> x \<le> dst + length xs + length ys) \<longrightarrow> m' x = m x"
    by blast
  have "m' (dst + i) = xs ! i" if "i < length xs" for i using m'(3) assms(1) that by (simp add: cstr_iff)
  then have "cstr m' dst (xs @ ys)" using m'(2) assms(1)
    by (auto simp: cstr_iff nth_append add.assoc) (metis le_add_diff_inverse linorder_not_less nat_add_left_cancel_less)
  then show ?thesis using m'(1) strlen_cstr [OF assms(1)] by (simp add: strcat_def)
qed

lemma strncpy_loop_at:
  assumes "cstr m src xs" "dst + n \<le> src \<or> src + length xs < dst"
  shows "strncpy_loop n dst src m x = (if dst \<le> x \<and> x < dst + n then
    (if x - dst < length xs then xs ! (x - dst) else 0) else m x)"
  using assms
proof (induction n arbitrary: dst src m xs)
  case (Suc n)
  let ?m = "m(dst := m src)"
  show ?case
  proof (cases xs)
    case Nil
    have "cstr ?m src []" using Suc.prems Nil by auto
    moreover have "dst + 1 + n \<le> src \<or> src + length ([] :: u8 list) < dst + 1" using Suc.prems(2) Nil by auto
    ultimately have "strncpy_loop n (dst + 1) src ?m x = (if dst + 1 \<le> x \<and> x < dst + 1 + n then
        if x - (dst + 1) < length ([] :: u8 list) then [] ! (x - (dst + 1)) else 0 else ?m x)" by (rule Suc.IH)
    moreover have "strncpy_loop (Suc n) dst src m x = strncpy_loop n (dst + 1) src ?m x" "m src = 0"
      using Suc.prems(1) Nil by (simp_all add: Let_def)
    ultimately show ?thesis using Nil by auto
  next
    case (Cons y ys)
    have "cstr ?m (src + 1) ys"
      by (rule cstr_cong [of m]) (use Suc.prems Cons in auto)
    moreover have "dst + 1 + n \<le> src + 1 \<or> src + 1 + length ys < dst + 1" using Suc.prems(2) Cons by auto
    ultimately have "strncpy_loop n (dst + 1) (src + 1) ?m x =
      (if dst + 1 \<le> x \<and> x < dst + 1 + n then if x - (dst + 1) < length ys then ys ! (x - (dst + 1)) else 0
       else ?m x)" by (rule Suc.IH)
    moreover have "strncpy_loop (Suc n) dst src m x = strncpy_loop n (dst + 1) (src + 1) ?m x" "m src = y"
      using Suc.prems(1) Cons by (auto simp: Let_def)
    moreover have "dst + 1 \<le> x \<Longrightarrow> x - dst = Suc (x - (dst + 1))" by auto
    ultimately show ?thesis using Cons by (cases "x = dst") auto
  qed
qed simp

text \<open>Comparison.\<close>

lemma uint_pos: "y \<noteq> 0 \<Longrightarrow> 0 < uint y" for y :: u8
  using uint_0_iff [of y] uint_ge_0 [of y] by linarith

fun bytes_cmp :: "u8 list \<Rightarrow> u8 list \<Rightarrow> int" where
  "bytes_cmp [] [] = 0"
| "bytes_cmp [] (y # ys) = - int (unat y)"
| "bytes_cmp (x # xs) [] = int (unat x)"
| "bytes_cmp (x # xs) (y # ys) = (if x = y then bytes_cmp xs ys else char_diff x y)"

lemma strcmp_cstr:
  "cstr m a xs \<Longrightarrow> cstr m b ys \<Longrightarrow> strcmp m a b = Some (bytes_cmp xs ys)"
  by (induction xs ys arbitrary: a b rule: bytes_cmp.induct) (subst strcmp.simps; auto simp: char_diff_def)+

lemma bytes_cmp_zero: "0 \<notin> set xs \<Longrightarrow> 0 \<notin> set ys \<Longrightarrow> bytes_cmp xs ys = 0 \<longleftrightarrow> xs = ys"
  by (induction xs ys rule: bytes_cmp.induct) (auto dest: uint_pos)

lemma bytes_cmp_neg:
  "0 \<notin> set xs \<Longrightarrow> 0 \<notin> set ys \<Longrightarrow> bytes_cmp xs ys < 0 \<longleftrightarrow> (xs, ys) \<in> lexord {(x, y). x < y}"
proof (induction xs ys rule: bytes_cmp.induct)
  case (2 y ys)
  then show ?case using uint_pos [of y] by simp
qed auto

lemma strncmp_cstr:
  "cstr m a xs \<Longrightarrow> cstr m b ys \<Longrightarrow> strncmp m a b n = bytes_cmp (take n xs) (take n ys)"
proof (induction n arbitrary: a b xs ys)
  case (Suc n)
  then show ?case by (cases xs; cases ys) (auto simp: char_diff_def)
qed simp

lemma strchr_cstr:
  "cstr m a xs \<Longrightarrow> c \<noteq> 0 \<Longrightarrow> strchr m a c =
     Some (if c \<in> set xs then Some (a + length (takeWhile (\<lambda>x. x \<noteq> c) xs)) else None)"
  by (induction xs arbitrary: a) (subst strchr.simps; auto)+

lemma strfind_cstr:
  "cstr m a xs \<Longrightarrow> c \<noteq> 0 \<Longrightarrow> strfind m a c = Some (a + length (takeWhile (\<lambda>x. x \<noteq> c) xs))"
  by (induction xs arbitrary: a) (subst strfind.simps; auto)+

text \<open>Numerals.\<close>

fun digits_val :: "int \<Rightarrow> int list \<Rightarrow> int \<Rightarrow> int" where
  "digits_val b [] v = v"
| "digits_val b (d # ds) v = digits_val b ds (v * b + d)"

lemma strtol_digits_ok:
  assumes "list_all2 (\<lambda>x d. digit_of x = Some d \<and> d < b) xs ds"
    and "\<forall>i < length xs. m (s + i) = xs ! i" and "case digit_of (m (s + length xs)) of None \<Rightarrow> True | Some d \<Rightarrow> b \<le> d"
  shows "strtol_digits m b s (word_of_int v) = Some (s + length xs, word_of_int (digits_val b ds v))"
  using assms
proof (induction xs ds arbitrary: s v rule: list_all2_induct)
  case Nil
  then show ?case by (subst strtol_digits.simps) (auto split: option.splits)
next
  case (Cons x xs d ds)
  have "\<forall>i < length xs. m (s + 1 + i) = xs ! i" using Cons.prems(1) by auto
  moreover have "m s = x" using Cons.prems(1) by (metis add.right_neutral length_greater_0_conv list.discI nth_Cons_0)
  ultimately show ?case using Cons.IH [of "s + 1" "v * b + d"] Cons.hyps(1) Cons.prems(2)
    by (subst strtol_digits.simps) (simp add: ac_simps)
qed

end
