(* ===== verification/Printfmt.thy ===== *)
theory Printfmt
  imports Cstring Libs_Num
begin

text \<open>
  libs/printfmt.c (labcode/lab8): the formatted output behind \<^verbatim>\<open>cprintf\<close> and \<^verbatim>\<open>snprintf\<close>.  The consumer
  \<^verbatim>\<open>putch\<close> is a function on an arbitrary output state \<open>'s\<close>.  Variable arguments are the 64-bit slots
  the calling convention passes (\<open>Word\<close>), or a pointer to a string of known contents (\<open>Str\<close>); taking
  an argument that is not there, or not of the kind asked for, has no value.  A format is the list
  of its bytes and the pointer \<^verbatim>\<open>fmt\<close> an index into it, with the null byte behind the end.
  A field width that overflows an \<^verbatim>\<open>int\<close> is undefined in C; widths are unbounded here.

  The case \<^verbatim>\<open>%e\<close> calls \<^verbatim>\<open>printfmt\<close> again, with the formats \<open>error %d\<close> and \<open>%s\<close>, which have no \<^verbatim>\<open>%e\<close>:
  the interpreter \<open>fmt_run\<close> takes the nested call as an argument, and two levels are the program.
\<close>

datatype varg = Word u64 | Str "u8 list"

type_synonym 's putch = "int \<Rightarrow> 's \<Rightarrow> 's"

definition ascii :: "char \<Rightarrow> u8" where
  "ascii c = of_char c"

definition bytes_of :: "string \<Rightarrow> u8 list" where
  "bytes_of s = List.map ascii s"

text \<open>The memory that holds just this string, at address 0.\<close>

definition str_mem :: "u8 list \<Rightarrow> mem" where
  "str_mem xs = (\<lambda>i. if i < length xs then xs ! i else 0)"

definition put_times :: "nat \<Rightarrow> 's putch \<Rightarrow> int \<Rightarrow> 's \<Rightarrow> 's" where
  "put_times n putch c s = ((putch c) ^^ n) s"

subsection \<open>Numbers\<close>

definition digit_char :: "u64 \<Rightarrow> int" where
  "digit_char d = uint (bytes_of ''0123456789abcdef'' ! unat d)"

partial_function (option) printnum :: "'s putch \<Rightarrow> u64 \<Rightarrow> u32 \<Rightarrow> int \<Rightarrow> int \<Rightarrow> 's \<Rightarrow> 's option" where
  "printnum putch num b width padc s = do {
     let result = do_div_quot num b;
     let md = do_div_mod num b;
     s1 \<leftarrow> (if num \<ge> ucast b then printnum putch result b (width - 1) padc s
           else Some (put_times (nat (width - 1)) putch padc s));
     Some (putch (digit_char md) s1) }"

declare printnum.simps [code]

fun va_word :: "varg list \<Rightarrow> (u64 \<times> varg list) option" where
  "va_word (Word w # ap) = Some (w, ap)"
| "va_word _ = None"

definition va_int :: "varg list \<Rightarrow> (int \<times> varg list) option" where
  "va_int ap = do { (w, ap1) \<leftarrow> va_word ap; Some (sint (ucast w :: u32), ap1) }"

definition getuint :: "varg list \<Rightarrow> nat \<Rightarrow> (u64 \<times> varg list) option" where
  "getuint ap lflag = do {
     (w, ap1) \<leftarrow> va_word ap;
     Some (if lflag \<ge> 2 then w else if lflag > 0 then w else ucast (ucast w :: u32), ap1) }"

definition getint :: "varg list \<Rightarrow> nat \<Rightarrow> (u64 \<times> varg list) option" where
  "getint ap lflag = do {
     (w, ap1) \<leftarrow> va_word ap;
     Some (if lflag \<ge> 2 then w else if lflag > 0 then w else scast (ucast w :: u32), ap1) }"

subsection \<open>Strings\<close>

fun va_str :: "varg list \<Rightarrow> (u8 list \<times> varg list) option" where
  "va_str (Str xs # ap) = Some (xs, ap)"
| "va_str (Word w # ap) = (if w = 0 then Some (bytes_of ''(null)'', ap) else None)"
| "va_str [] = None"

definition shown_char :: "bool \<Rightarrow> u8 \<Rightarrow> int" where
  "shown_char altflag ch =
     (if altflag \<and> (ch < ascii CHR '' '' \<or> ch > ascii CHR ''~'') then uint (ascii CHR ''?'') else uint ch)"

text \<open>The loop over the characters; it ends at the null byte behind the list at the latest.\<close>

fun print_chars :: "'s putch \<Rightarrow> bool \<Rightarrow> u8 list \<Rightarrow> int \<Rightarrow> int \<Rightarrow> 's \<Rightarrow> int \<times> 's" where
  "print_chars putch altflag [] precision width s = (width, s)"
| "print_chars putch altflag (ch # p) precision width s =
     (if ch \<noteq> 0 \<and> (precision < 0 \<or> precision - 1 \<ge> 0) then
        print_chars putch altflag p (if precision < 0 then precision else precision - 1) (width - 1)
          (putch (shown_char altflag ch) s)
      else (width, s))"

definition pad_string :: "'s putch \<Rightarrow> u8 list \<Rightarrow> int \<Rightarrow> int \<Rightarrow> int \<Rightarrow> 's \<Rightarrow> int \<times> 's" where
  "pad_string putch p padc width precision s =
     (if width > 0 \<and> padc \<noteq> uint (ascii CHR ''-'') then
        let w = width - int (strnlen (str_mem p) 0 (unat (word_of_int precision :: u64)))
        in (min w 0, put_times (nat w) putch padc s)
      else (width, s))"

definition print_string :: "'s putch \<Rightarrow> u8 list \<Rightarrow> bool \<Rightarrow> int \<Rightarrow> int \<Rightarrow> int \<Rightarrow> 's \<Rightarrow> 's" where
  "print_string putch p altflag padc width precision s =
     (let (width1, s1) = pad_string putch p padc width precision s;
        (width2, s2) = print_chars putch altflag p precision width1 s1
      in put_times (nat width2) putch (uint (ascii CHR '' '')) s2)"

subsection \<open>Conversions\<close>

record fspec =
  padc :: int
  fwidth :: int
  precision :: int
  lflag :: nat
  altflag :: bool

definition fspec_init :: fspec where
  "fspec_init = \<lparr>padc = uint (ascii CHR '' ''), fwidth = - 1, precision = - 1, lflag = 0, altflag = False\<rparr>"

definition fetch :: "u8 list \<Rightarrow> nat \<Rightarrow> u8" where
  "fetch fmt i = (if i < length fmt then fmt ! i else 0)"

definition is_digit :: "u8 \<Rightarrow> bool" where
  "is_digit c \<longleftrightarrow> ascii CHR ''0'' \<le> c \<and> c \<le> ascii CHR ''9''"

lemma fetch_end [simp]: "length fmt \<le> i \<Longrightarrow> fetch fmt i = 0"
  by (simp add: fetch_def)

lemma fetch_ne: "fetch fmt i \<noteq> 0 \<Longrightarrow> i < length fmt"
  by (simp add: fetch_def split: if_splits)

lemma is_digit_fetch: "is_digit (fetch fmt i) \<Longrightarrow> i < length fmt"
  by (rule fetch_ne) (auto simp: is_digit_def ascii_def)

lemma is_digit_0 [simp]: "\<not> is_digit 0"
  by (simp add: is_digit_def ascii_def)

function width_field :: "u8 list \<Rightarrow> nat \<Rightarrow> u8 \<Rightarrow> int \<Rightarrow> int \<times> nat" where
  "width_field fmt i ch prec =
     (let prec1 = prec * 10 + (uint ch - uint (ascii CHR ''0''));
          ch1 = fetch fmt i
      in if \<not> is_digit ch1 then (prec1, i) else width_field fmt (i + 1) ch1 prec1)"
  by pat_completeness auto
termination
  by (relation "measure (\<lambda>(fmt, i, ch, prec). length fmt - i)") (auto dest: is_digit_fetch)

declare width_field.simps [simp del]

lemma width_field_ge: "i \<le> snd (width_field fmt i ch prec)"
proof (induction fmt i ch prec rule: width_field.induct)
  case (1 fmt i ch prec)
  then show ?case by (subst width_field.simps) (auto simp: Let_def intro: Suc_leD)
qed

lemma escape_measure:
  "fetch fmt i \<noteq> 0 \<Longrightarrow> length fmt - (i + 1) < length fmt - i"
  "fetch fmt i \<noteq> 0 \<Longrightarrow> (p, k) = width_field fmt (i + 1) ch prec \<Longrightarrow> length fmt - k < length fmt - i"
proof -
  show "fetch fmt i \<noteq> 0 \<Longrightarrow> length fmt - (i + 1) < length fmt - i"
    by (auto dest: fetch_ne)
  assume "fetch fmt i \<noteq> 0" "(p, k) = width_field fmt (i + 1) ch prec"
  then have "i < length fmt" "i < k" using width_field_ge [of "i + 1" fmt ch prec] fetch_ne [of fmt i] by (auto dest: sym)
  then show "length fmt - k < length fmt - i" by simp
qed

definition process_precision :: "int \<Rightarrow> fspec \<Rightarrow> fspec" where
  "process_precision prec f =
     (if fwidth f < 0 then f\<lparr>fwidth := prec, precision := - 1\<rparr> else f\<lparr>precision := prec\<rparr>)"

definition error_string :: "nat \<Rightarrow> string option" where
  "error_string e = map_of
     [(1, ''unspecified error''), (2, ''bad process''), (3, ''invalid parameter''), (4, ''out of memory''),
      (5, ''out of processes''), (6, ''segmentation fault''), (8, ''invalid elf file''), (9, ''process is killed''),
      (10, ''panic failure''), (13, ''no such device''), (14, ''device not available''), (15, ''device/file is busy''),
      (16, ''no such file or directory''), (17, ''is a directory''), (18, ''not a directory''),
      (19, ''cross device link''), (20, ''unimplemented feature''), (21, ''illegal seek''),
      (22, ''too many files are open''), (23, ''file or directory already exists''), (24, ''directory is not empty'')] e"

definition MAXERROR :: int where "MAXERROR = 24"

type_synonym 's printer = "u8 list \<Rightarrow> varg list \<Rightarrow> 's \<Rightarrow> 's option"

definition print_error :: "'s printer \<Rightarrow> int \<Rightarrow> 's \<Rightarrow> 's option" where
  "print_error rec e s =
     (let err = (if e < 0 then sint (- (word_of_int e :: u32)) else e)
      in if err < 0 then None
         else if err > MAXERROR then rec (bytes_of ''error %d'') [Word (word_of_int err)] s
         else case error_string (nat err) of
           None \<Rightarrow> rec (bytes_of ''error %d'') [Word (word_of_int err)] s
         | Some p \<Rightarrow> rec (bytes_of ''%s'') [Str (bytes_of p)] s)"

text \<open>
  One escape: \<open>st\<close> is the index behind the percent sign, i the running one.  The result is the index to
  go on from, the arguments left and the output state.
\<close>

function escape :: "'s printer \<Rightarrow> 's putch \<Rightarrow> u8 list \<Rightarrow> nat \<Rightarrow> nat \<Rightarrow> fspec \<Rightarrow> varg list \<Rightarrow> 's \<Rightarrow>
    (nat \<times> varg list \<times> 's) option" where
  "escape rec putch fmt st i f ap s =
     (let ch = fetch fmt i; j = i + 1 in
      if ch = 0 then Some (st, ap, putch (uint (ascii CHR ''%'')) s)
      else if ch = ascii CHR ''-'' then escape rec putch fmt st j (f\<lparr>padc := uint (ascii CHR ''-'')\<rparr>) ap s
      else if ch = ascii CHR ''0'' then escape rec putch fmt st j (f\<lparr>padc := uint (ascii CHR ''0'')\<rparr>) ap s
      else if is_digit ch then
        (let (prec, k) = width_field fmt j ch 0
         in escape rec putch fmt st k (process_precision prec f) ap s)
      else if ch = ascii CHR ''*'' then
        (case va_int ap of None \<Rightarrow> None
         | Some (prec, ap1) \<Rightarrow> escape rec putch fmt st j (process_precision prec f) ap1 s)
      else if ch = ascii CHR ''.'' then
        escape rec putch fmt st j (if fwidth f < 0 then f\<lparr>fwidth := 0\<rparr> else f) ap s
      else if ch = ascii CHR ''#'' then escape rec putch fmt st j (f\<lparr>altflag := True\<rparr>) ap s
      else if ch = ascii CHR ''l'' then escape rec putch fmt st j (f\<lparr>lflag := lflag f + 1\<rparr>) ap s
      else if ch = ascii CHR ''c'' then do { (c, ap1) \<leftarrow> va_int ap; Some (j, ap1, putch c s) }
      else if ch = ascii CHR ''e'' then do { (e, ap1) \<leftarrow> va_int ap; s1 \<leftarrow> print_error rec e s; Some (j, ap1, s1) }
      else if ch = ascii CHR ''s'' then do {
        (p, ap1) \<leftarrow> va_str ap;
        Some (j, ap1, print_string putch p (altflag f) (padc f) (fwidth f) (precision f) s) }
      else if ch = ascii CHR ''d'' then do {
        (num, ap1) \<leftarrow> getint ap (lflag f);
        let (num1, s1) = (if sint num < 0 then (- num, putch (uint (ascii CHR ''-'')) s) else (num, s));
        s2 \<leftarrow> printnum putch num1 10 (fwidth f) (padc f) s1;
        Some (j, ap1, s2) }
      else if ch = ascii CHR ''u'' then do {
        (num, ap1) \<leftarrow> getuint ap (lflag f);
        s1 \<leftarrow> printnum putch num 10 (fwidth f) (padc f) s;
        Some (j, ap1, s1) }
      else if ch = ascii CHR ''o'' then do {
        (num, ap1) \<leftarrow> getuint ap (lflag f);
        s1 \<leftarrow> printnum putch num 8 (fwidth f) (padc f) s;
        Some (j, ap1, s1) }
      else if ch = ascii CHR ''p'' then do {
        (num, ap1) \<leftarrow> va_word ap;
        s1 \<leftarrow> printnum putch num 16 (fwidth f) (padc f)
          (putch (uint (ascii CHR ''x'')) (putch (uint (ascii CHR ''0'')) s));
        Some (j, ap1, s1) }
      else if ch = ascii CHR ''x'' then do {
        (num, ap1) \<leftarrow> getuint ap (lflag f);
        s1 \<leftarrow> printnum putch num 16 (fwidth f) (padc f) s;
        Some (j, ap1, s1) }
      else if ch = ascii CHR ''%'' then Some (j, ap, putch (uint ch) s)
      else Some (st, ap, putch (uint (ascii CHR ''%'')) s))"
  by pat_completeness auto
termination
  by (relation "measure (\<lambda>(rec, putch, fmt, st, i, f, ap, s). length fmt - i)")
    (simp_all only: wf_measure in_measure prod.case, (erule (1) escape_measure(2) | erule escape_measure(1))+)

declare escape.simps [simp del]

partial_function (option) fmt_run :: "'s printer \<Rightarrow> 's putch \<Rightarrow> u8 list \<Rightarrow> nat \<Rightarrow> varg list \<Rightarrow> 's \<Rightarrow> 's option" where
  "fmt_run rec putch fmt i ap s =
     (let ch = fetch fmt i in
      if ch \<noteq> ascii CHR ''%'' then
        (if ch = 0 then Some s else fmt_run rec putch fmt (i + 1) ap (putch (uint ch) s))
      else do {
        (j, ap1, s1) \<leftarrow> escape rec putch fmt (i + 1) (i + 1) fspec_init ap s;
        fmt_run rec putch fmt j ap1 s1 })"

declare fmt_run.simps [code]

text \<open>The nested \<^verbatim>\<open>printfmt\<close> of \<^verbatim>\<open>%e\<close>, and the function itself.\<close>

definition printfmt :: "'s putch \<Rightarrow> 's printer" where
  "printfmt putch fmt ap s = fmt_run (\<lambda>_ _ _. None) putch fmt 0 ap s"

definition vprintfmt :: "'s putch \<Rightarrow> 's printer" where
  "vprintfmt putch fmt ap s = fmt_run (printfmt putch) putch fmt 0 ap s"

subsection \<open>Buffers\<close>

record sprintbuf =
  sb_buf :: nat
  sb_ebuf :: nat
  sb_cnt :: int
  sb_mem :: mem

definition sprintputch :: "int \<Rightarrow> sprintbuf \<Rightarrow> sprintbuf" where
  "sprintputch ch b =
     (let b1 = b\<lparr>sb_cnt := sb_cnt b + 1\<rparr>
      in if sb_buf b1 < sb_ebuf b1
         then b1\<lparr>sb_mem := (sb_mem b1)(sb_buf b1 := word_of_int ch), sb_buf := sb_buf b1 + 1\<rparr>
         else b1)"

definition vsnprintf :: "nat \<Rightarrow> nat \<Rightarrow> u8 list \<Rightarrow> varg list \<Rightarrow> mem \<Rightarrow> (int \<times> mem) option" where
  "vsnprintf str sz fmt ap m =
     (let b = \<lparr>sb_buf = str, sb_ebuf = str + sz - 1, sb_cnt = 0, sb_mem = m\<rparr>
      in if str = 0 \<or> sb_buf b > sb_ebuf b then Some (- E_INVAL, m)
         else do {
           b1 \<leftarrow> vprintfmt sprintputch fmt ap b;
           Some (sb_cnt b1, (sb_mem b1)(sb_buf b1 := 0)) })"

definition snprintf :: "nat \<Rightarrow> nat \<Rightarrow> u8 list \<Rightarrow> varg list \<Rightarrow> mem \<Rightarrow> (int \<times> mem) option" where
  "snprintf str sz fmt ap m = vsnprintf str sz fmt ap m"

subsection \<open>What is printed\<close>

fun num_digits :: "nat \<Rightarrow> nat \<Rightarrow> nat list" where
  "num_digits b n = (if b < 2 \<or> n < b then [n] else num_digits b (n div b) @ [n mod b])"

declare num_digits.simps [simp del]

definition num_text :: "nat \<Rightarrow> nat \<Rightarrow> int \<Rightarrow> int \<Rightarrow> int list" where
  "num_text b n width pad =
     (let ds = num_digits b n
      in replicate (nat (width - int (length ds))) pad @ List.map (\<lambda>d. digit_char (of_nat d)) ds)"

lemma put_times_fold: "put_times n putch c s = fold putch (replicate n c) s"
proof (induction n arbitrary: s)
  case (Suc n)
  have "put_times (Suc n) putch c s = put_times n putch c (putch c s)"
    by (simp add: put_times_def funpow_swap1)
  then show ?case by (simp add: Suc.IH)
qed (simp add: put_times_def)

lemma num_digits_pos: "0 < length (num_digits b n)"
  by (subst num_digits.simps) auto

lemma num_digits_less: "2 \<le> b \<Longrightarrow> d \<in> set (num_digits b n) \<Longrightarrow> d < b"
proof (induction b n rule: num_digits.induct)
  case (1 b n)
  then show ?case by (subst (asm) (2) num_digits.simps) (auto split: if_splits)
qed

lemma printnum_ok:
  assumes "2 \<le> unat b" "unat b \<le> 16"
  shows "printnum putch num b w pad s = Some (fold putch (num_text (unat b) (unat num) w pad) s)"
proof (induction "unat num" arbitrary: num w s rule: less_induct)
  case less
  let ?q = "do_div_quot num b" and ?r = "do_div_mod num b"
  have "unat b < 2 ^ 64" using assms(2) by simp
  then have ub: "unat (ucast b :: u64) = unat b" by (simp add: unsigned_ucast_eq take_bit_nat_eq_self)
  have q: "unat ?q = unat num div unat b" and r: "unat ?r = unat num mod unat b"
    by (simp_all add: do_div_quot_def do_div_mod_def unat_div unat_mod ub)
  have ge: "num \<ge> ucast b \<longleftrightarrow> unat b \<le> unat num" by (simp only: word_le_nat_alt ub)
  have wr: "?r = of_nat (unat num mod unat b)" unfolding r [symmetric] by simp
  show ?case
  proof (cases "unat b \<le> unat num")
    case True
    then have lt: "unat ?q < unat num" using assms q by (simp add: div_less_dividend)
    have ds: "num_digits (unat b) (unat num) = num_digits (unat b) (unat num div unat b) @ [unat num mod unat b]"
      using True assms by (subst num_digits.simps) simp
    have "printnum putch ?q b (w - 1) pad s = Some (fold putch (num_text (unat b) (unat ?q) (w - 1) pad) s)"
      using lt by (rule less.hyps)
    then show ?thesis using True ge by (subst printnum.simps) (simp add: num_text_def ds q wr Let_def diff_diff_eq)
  next
    case False
    then have ds: "num_digits (unat b) (unat num) = [unat num]" by (subst num_digits.simps) simp
    then show ?thesis using False ge wr
      by (subst printnum.simps) (simp add: num_text_def put_times_fold Let_def)
  qed
qed

text \<open>Two consumers that keep a relation between their states make the printer keep it.\<close>

definition keeps :: "('s \<Rightarrow> 't \<Rightarrow> bool) \<Rightarrow> 's putch \<Rightarrow> 't putch \<Rightarrow> bool" where
  "keeps R f g \<longleftrightarrow> (\<forall>c s t. R s t \<longrightarrow> R (f c s) (g c t))"

lemma keepsD: "keeps R f g \<Longrightarrow> R s t \<Longrightarrow> R (f c s) (g c t)"
  by (simp add: keeps_def)

lemma keeps_fold: "keeps R f g \<Longrightarrow> R s t \<Longrightarrow> R (fold f cs s) (fold g cs t)"
  by (induction cs arbitrary: s t) (simp_all add: keepsD)

lemma keeps_times: "keeps R f g \<Longrightarrow> R s t \<Longrightarrow> R (put_times n f c s) (put_times n g c t)"
  unfolding put_times_fold by (rule keeps_fold)

lemma keeps_chars:
  assumes "keeps R f g"
  shows "R s t \<Longrightarrow> fst (print_chars f alt p prec w s) = fst (print_chars g alt p prec w t) \<and>
    R (snd (print_chars f alt p prec w s)) (snd (print_chars g alt p prec w t))"
proof (induction p arbitrary: prec w s t)
  case (Cons ch p)
  show ?case using Cons.IH [OF keepsD [OF assms Cons.prems]] Cons.prems by simp
qed simp

lemma keeps_string:
  assumes "keeps R f g" "R s t"
  shows "R (print_string f p alt pad w prec s) (print_string g p alt pad w prec t)"
proof -
  obtain w1 s1 t1 where 1: "pad_string f p pad w prec s = (w1, s1)" "pad_string g p pad w prec t = (w1, t1)" "R s1 t1"
  proof (cases "w > 0 \<and> pad \<noteq> uint (ascii CHR ''-'')")
    case True
    then show ?thesis using that keeps_times [OF assms] by (simp add: pad_string_def Let_def)
  next
    case False
    then show ?thesis using that assms(2) by (simp only: pad_string_def if_False)
  qed
  obtain w2 s2 t2 where 2: "print_chars f alt p prec w1 s1 = (w2, s2)" "print_chars g alt p prec w1 t1 = (w2, t2)" "R s2 t2"
    using keeps_chars [OF assms(1) 1(3), of alt p prec w1] by (metis prod.collapse)
  show ?thesis using keeps_times [OF assms(1) 2(3)] by (simp add: print_string_def 1 2)
qed

definition rel_esc :: "('s \<Rightarrow> 't \<Rightarrow> bool) \<Rightarrow> (nat \<times> varg list \<times> 's) option \<Rightarrow> (nat \<times> varg list \<times> 't) option \<Rightarrow> bool" where
  "rel_esc R = rel_option (rel_prod (=) (rel_prod (=) R))"

lemma rel_esc_simps [simp]:
  "rel_esc R None None" "rel_esc R (Some (i, a, s)) (Some (j, b, t)) \<longleftrightarrow> i = j \<and> a = b \<and> R s t"
  by (simp_all add: rel_esc_def)

definition keeps_printer :: "('s \<Rightarrow> 't \<Rightarrow> bool) \<Rightarrow> 's printer \<Rightarrow> 't printer \<Rightarrow> bool" where
  "keeps_printer R f g \<longleftrightarrow> (\<forall>fmt ap s t. R s t \<longrightarrow> rel_option R (f fmt ap s) (g fmt ap t))"

lemma keeps_error: "keeps_printer R rf rg \<Longrightarrow> R s t \<Longrightarrow> rel_option R (print_error rf e s) (print_error rg e t)"
  by (auto simp: print_error_def keeps_printer_def Let_def split: option.split)

lemma rel_esc_error:
  "rel_option R x y \<Longrightarrow> rel_esc R (do { s \<leftarrow> x; Some (j, ap, s) }) (do { s \<leftarrow> y; Some (j, ap, s) })"
  by (cases x; cases y) simp_all

lemma rel_esc_if:
  "(c \<Longrightarrow> rel_esc R x x') \<Longrightarrow> (\<not> c \<Longrightarrow> rel_esc R y y') \<Longrightarrow>
   rel_esc R (if c then x else y) (if c then x' else y')"
  by simp

lemma rel_esc_num:
  assumes "keeps R f g" "R s t" "2 \<le> unat b" "unat b \<le> 16"
  shows "rel_esc R (do { s1 \<leftarrow> printnum f num b w pad s; Some (j, ap, s1) })
    (do { s1 \<leftarrow> printnum g num b w pad t; Some (j, ap, s1) })"
  using keeps_fold [OF assms(1,2)] by (simp add: printnum_ok [OF assms(3,4)])

lemma rel_esc_bind:
  "(\<And>x ap1. m = Some (x, ap1) \<Longrightarrow> rel_esc R (f x ap1) (g x ap1)) \<Longrightarrow>
   rel_esc R (do { (x, ap1) \<leftarrow> m; f x ap1 }) (do { (x, ap1) \<leftarrow> m; g x ap1 })"
  by (cases m) auto

lemma escape_rel:
  assumes k: "keeps R f g" and p: "keeps_printer R rf rg"
  shows "R s t \<Longrightarrow> rel_esc R (escape rf f fmt st i sp ap s) (escape rg g fmt st i sp ap t)"
proof (induction "length fmt - i" arbitrary: i sp ap s t rule: less_induct)
  case less
  note put = keepsD [OF k]
  have IH: "rel_esc R (escape rf f fmt st j sp' ap' s) (escape rg g fmt st j sp' ap' t)"
    if "length fmt - j < length fmt - i" for j sp' ap'
    using that less.prems by (rule less.hyps)
  have next_ok: "rel_esc R (escape rf f fmt st (i + 1) sp' ap' s) (escape rg g fmt st (i + 1) sp' ap' t)"
    if "fetch fmt i \<noteq> 0" for sp' ap' by (rule IH [OF escape_measure(1) [OF that]])
  show ?case
    unfolding escape.simps [of rf f fmt st i sp ap s] escape.simps [of rg g fmt st i sp ap t] Let_def
  proof (intro rel_esc_if)
    assume n: "fetch fmt i \<noteq> 0"
    show "rel_esc R
      (case width_field fmt (i + 1) (fetch fmt i) 0 of
         (prec, k) \<Rightarrow> escape rf f fmt st k (process_precision prec sp) ap s)
      (case width_field fmt (i + 1) (fetch fmt i) 0 of
         (prec, k) \<Rightarrow> escape rg g fmt st k (process_precision prec sp) ap t)"
    proof (cases "width_field fmt (i + 1) (fetch fmt i) 0")
      case (Pair prec k)
      then show ?thesis using IH [OF escape_measure(2) [OF n Pair [symmetric]]] by simp
    qed
    show "rel_esc R
      (case va_int ap of None \<Rightarrow> None
       | Some (prec, ap1) \<Rightarrow> escape rf f fmt st (i + 1) (process_precision prec sp) ap1 s)
      (case va_int ap of None \<Rightarrow> None
       | Some (prec, ap1) \<Rightarrow> escape rg g fmt st (i + 1) (process_precision prec sp) ap1 t)"
      using next_ok [OF n] by (auto split: option.split)
    show "rel_esc R (do { (e, ap1) \<leftarrow> va_int ap; s1 \<leftarrow> print_error rf e s; Some (i + 1, ap1, s1) })
      (do { (e, ap1) \<leftarrow> va_int ap; s1 \<leftarrow> print_error rg e t; Some (i + 1, ap1, s1) })"
      by (intro rel_esc_bind rel_esc_error keeps_error [OF p less.prems])
    show "rel_esc R
      (do { (num, ap1) \<leftarrow> getint ap (lflag sp);
         case if sint num < 0 then (- num, f (uint (ascii CHR ''-'')) s) else (num, s) of
           (num1, s1) \<Rightarrow> do { s2 \<leftarrow> printnum f num1 10 (fwidth sp) (padc sp) s1; Some (i + 1, ap1, s2) } })
      (do { (num, ap1) \<leftarrow> getint ap (lflag sp);
         case if sint num < 0 then (- num, g (uint (ascii CHR ''-'')) t) else (num, t) of
           (num1, s1) \<Rightarrow> do { s2 \<leftarrow> printnum g num1 10 (fwidth sp) (padc sp) s1; Some (i + 1, ap1, s2) } })"
    proof (rule rel_esc_bind)
      fix num ap1
      show "rel_esc R
        (case if sint num < 0 then (- num, f (uint (ascii CHR ''-'')) s) else (num, s) of
           (num1, s1) \<Rightarrow> do { s2 \<leftarrow> printnum f num1 10 (fwidth sp) (padc sp) s1; Some (i + 1, ap1, s2) })
        (case if sint num < 0 then (- num, g (uint (ascii CHR ''-'')) t) else (num, t) of
           (num1, s1) \<Rightarrow> do { s2 \<leftarrow> printnum g num1 10 (fwidth sp) (padc sp) s1; Some (i + 1, ap1, s2) })"
        using rel_esc_num [OF k put [OF less.prems], of 10] rel_esc_num [OF k less.prems, of 10]
        by (cases "sint num < 0") simp_all
    qed
  qed (((rule next_ok, assumption) |
      (rule rel_esc_bind, (rule rel_esc_num [OF k], (intro put less.prems), (simp; fail), (simp; fail) |
        (simp add: put less.prems keeps_string [OF k]; fail))) |
      (simp add: put less.prems; fail))+)
qed

lemma escape_pos: "escape rf f fmt st i sp ap s = Some (j, ap1, s1) \<Longrightarrow> st \<le> i \<Longrightarrow> st \<le> j"
proof (induction "length fmt - i" arbitrary: i sp ap s rule: less_induct)
  case less
  show ?case
  proof (cases "fetch fmt i = 0")
    case True
    then show ?thesis using less.prems unfolding escape.simps [of rf f fmt st i] Let_def by simp
  next
    case n: False
    have IH: "st \<le> j" if "escape rf f fmt st (Suc i) sp' ap' s' = Some (j, ap1, s1)" for sp' ap' s'
      using less.hyps [of "i + 1"] escape_measure(1) [OF n] that less.prems(2) by simp
    have W: "st \<le> j" if w: "width_field fmt (Suc i) (fetch fmt i) 0 = (prec, k)"
      "escape rf f fmt st k (process_precision prec sp) ap s = Some (j, ap1, s1)" for prec k
    proof -
      have "st \<le> k" using width_field_ge [of "i + 1" fmt "fetch fmt i" 0] w(1) less.prems(2) by simp
      moreover have "length fmt - k < length fmt - i"
        by (rule escape_measure(2) [OF n, of prec k "fetch fmt i" 0]) (simp add: w(1))
      ultimately show ?thesis using less.hyps [OF _ w(2)] by simp
    qed
    show ?thesis
      using less.prems unfolding escape.simps [of rf f fmt st i] Let_def
      by (auto split: if_splits prod.splits option.splits simp: Option.bind_eq_Some_conv dest: IH W)
  qed
qed

text \<open>The printer of a format ends, and keeps the relation.\<close>

lemma fmt_run_rel:
  assumes k: "keeps R f g" and p: "keeps_printer R rf rg"
  shows "R s t \<Longrightarrow> rel_option R (fmt_run rf f fmt i ap s) (fmt_run rg g fmt i ap t)"
proof (induction "length fmt - i" arbitrary: i ap s t rule: less_induct)
  case less
  show ?case
  proof (cases "fetch fmt i = 0")
    case True
    then show ?thesis using less.prems
      by (simp add: fmt_run.simps [of rf] fmt_run.simps [of rg] ascii_def)
  next
    case n: False
    note lt = escape_measure(1) [OF n]
    show ?thesis
    proof (cases "fetch fmt i = ascii CHR ''%''")
      case False
      then show ?thesis using n less.hyps [OF lt keepsD [OF k less.prems]]
        by (subst (1) fmt_run.simps, subst (2) fmt_run.simps) (simp add: Let_def)
    next
      case True
      have e: "rel_esc R (escape rf f fmt (i + 1) (i + 1) fspec_init ap s) (escape rg g fmt (i + 1) (i + 1) fspec_init ap t)"
        using escape_rel [OF k p less.prems] .
      show ?thesis
      proof (cases "escape rf f fmt (i + 1) (i + 1) fspec_init ap s")
        case None
        with e have "escape rg g fmt (i + 1) (i + 1) fspec_init ap t = None" by (simp add: rel_esc_def)
        then show ?thesis using True n None by (subst (1) fmt_run.simps, subst (2) fmt_run.simps) (simp add: Let_def)
      next
        case (Some r)
        then obtain j ap1 s1 where r: "escape rf f fmt (i + 1) (i + 1) fspec_init ap s = Some (j, ap1, s1)" by (cases r) auto
        with e obtain t1 where t1: "escape rg g fmt (i + 1) (i + 1) fspec_init ap t = Some (j, ap1, t1)" "R s1 t1"
          by (auto simp: rel_esc_def option_rel_Some1)
        have "length fmt - j < length fmt - i" using escape_pos [OF r] fetch_ne [OF n] by auto
        then have "rel_option R (fmt_run rf f fmt j ap1 s1) (fmt_run rg g fmt j ap1 t1)" using t1(2) by (rule less.hyps)
        then show ?thesis using True n r t1(1) by (subst (1) fmt_run.simps, subst (2) fmt_run.simps) (simp add: Let_def)
      qed
    qed
  qed
qed

lemma printfmt_rel: "keeps R f g \<Longrightarrow> keeps_printer R (printfmt f) (printfmt g)"
  using fmt_run_rel [of R f g "\<lambda>_ _ _. None" "\<lambda>_ _ _. None"]
  by (auto simp: keeps_printer_def printfmt_def)

lemma vprintfmt_rel:
  assumes "keeps R f g" "R s t"
  shows "rel_option R (vprintfmt f fmt ap s) (vprintfmt g fmt ap t)"
  using fmt_run_rel [OF assms(1) printfmt_rel [OF assms(1)] assms(2)] by (simp add: vprintfmt_def)

definition snoc :: "int list putch" where
  "snoc c cs = cs @ [c]"

text \<open>The characters a format prints; any consumer is given just these, in this order.\<close>

definition output_of :: "u8 list \<Rightarrow> varg list \<Rightarrow> int list option" where
  "output_of fmt ap = vprintfmt snoc fmt ap []"

lemma vprintfmt_output: "vprintfmt putch fmt ap s = map_option (\<lambda>cs. fold putch cs s) (output_of fmt ap)"
proof -
  have "keeps (\<lambda>s' cs. s' = fold putch cs s) putch snoc" by (simp add: keeps_def snoc_def)
  from vprintfmt_rel [OF this, of s "[]" fmt ap]
  show ?thesis by (cases "output_of fmt ap") (auto simp: output_of_def option_rel_Some2)
qed

lemma fold_sprintputch:
  "fold sprintputch cs b = b\<lparr>sb_buf := sb_buf b + min (length cs) (sb_ebuf b - sb_buf b),
     sb_cnt := sb_cnt b + int (length cs),
     sb_mem := (\<lambda>x. if sb_buf b \<le> x \<and> x < sb_buf b + min (length cs) (sb_ebuf b - sb_buf b)
       then word_of_int (cs ! (x - sb_buf b)) else sb_mem b x)\<rparr>"
proof (induction cs arbitrary: b)
  case (Cons c cs)
  let ?b = "sprintputch c b"
  show ?case
  proof (cases "sb_buf b < sb_ebuf b")
    case True
    then have b: "?b = b\<lparr>sb_cnt := sb_cnt b + 1, sb_mem := (sb_mem b)(sb_buf b := word_of_int c), sb_buf := sb_buf b + 1\<rparr>"
      by (simp add: sprintputch_def Let_def)
    have m: "Suc (min (length cs) (sb_ebuf b - Suc (sb_buf b))) = min (Suc (length cs)) (sb_ebuf b - sb_buf b)"
      using True by (simp add: min_def) linarith
    have e: "sb_buf b \<le> x \<Longrightarrow> x \<noteq> sb_buf b \<Longrightarrow> x - sb_buf b = Suc (x - Suc (sb_buf b))" for x by simp
    have "fold sprintputch (c # cs) b = fold sprintputch cs ?b" by simp
    also have "\<dots> = b\<lparr>sb_buf := sb_buf b + min (Suc (length cs)) (sb_ebuf b - sb_buf b),
     sb_cnt := sb_cnt b + int (length (c # cs)),
     sb_mem := (\<lambda>x. if sb_buf b + 1 \<le> x \<and> x < sb_buf b + min (Suc (length cs)) (sb_ebuf b - sb_buf b)
       then word_of_int (cs ! (x - Suc (sb_buf b))) else sb_mem ?b x)\<rparr>"
      unfolding Cons.IH unfolding b by (rule sprintbuf.equality) (simp_all add: m [symmetric] fun_eq_iff)
    finally show ?thesis using True e by (auto simp: b fun_eq_iff min_def)
  next
    case False
    then show ?thesis using Cons.IH [of ?b] by (simp add: sprintputch_def Let_def)
  qed
qed simp

lemma vsnprintf_ok:
  assumes "output_of fmt ap = Some cs" "0 < str" "0 < sz"
  shows "\<exists>m'. vsnprintf str sz fmt ap m = Some (int (length cs), m') \<and>
    (\<forall>i < min (length cs) (sz - 1). m' (str + i) = word_of_int (cs ! i)) \<and>
    m' (str + min (length cs) (sz - 1)) = 0 \<and>
    (\<forall>x. x < str \<or> str + min (length cs) (sz - 1) < x \<longrightarrow> m' x = m x)"
proof -
  have e: "str + sz - 1 - str = sz - 1" using assms(3) by simp
  show ?thesis
    using assms by (auto simp: vsnprintf_def Let_def vprintfmt_output fold_sprintputch e)
qed

lemma vsnprintf_invalid: "str = 0 \<or> sz = 0 \<Longrightarrow> vsnprintf str sz fmt ap m = Some (- E_INVAL, m)"
  by (auto simp: vsnprintf_def Let_def)

subsection \<open>Numbers read back\<close>

lemma num_digits_value:
  assumes "2 \<le> b"
  shows "digits_val (int b) (List.map int (num_digits b n)) 0 = int n"
proof -
  have app: "digits_val c (xs @ [d]) v = digits_val c xs v * c + d" for c xs d v
    by (induction xs arbitrary: v) auto
  show ?thesis using assms
  proof (induction b n rule: num_digits.induct)
    case (1 b n)
    show ?case
    proof (cases "n < b")
      case True
      then show ?thesis by (subst num_digits.simps) simp
    next
      case False
      then have "digits_val (int b) (List.map int (num_digits b n)) 0 =
          digits_val (int b) (List.map int (num_digits b (n div b))) 0 * int b + int (n mod b)"
        using 1(2) by (subst num_digits.simps) (simp add: app)
      also have "\<dots> = int (n div b) * int b + int (n mod b)" using 1 False by simp
      also have "\<dots> = int n" by (metis div_mult_mod_eq of_nat_add of_nat_mult)
      finally show ?thesis by simp
    qed
  qed
qed

lemma num_digits_hd: "2 \<le> b \<Longrightarrow> hd (num_digits b n) = 0 \<Longrightarrow> num_digits b n = [0]"
proof (induction b n rule: num_digits.induct)
  case (1 b n)
  show ?case
  proof (cases "n < b")
    case True
    then show ?thesis using 1(3) by (subst (asm) num_digits.simps, subst num_digits.simps) simp
  next
    case False
    then have "num_digits b n = num_digits b (n div b) @ [n mod b]" using 1(2) by (subst num_digits.simps) simp
    then have "hd (num_digits b (n div b)) = 0" using 1(3) num_digits_pos [of b "n div b"] by simp
    then have z: "num_digits b (n div b) = [0]" using 1(1,2) False by simp
    have "digits_val (int b) (List.map int (num_digits b (n div b))) 0 = int (n div b)" using 1(2) by (rule num_digits_value)
    then show ?thesis using z False 1(2) by (simp add: div_eq_0_iff)
  qed
qed

lemma digit_chars:
  "list_all (\<lambda>d. let c = word_of_int (digit_char (of_nat d)) :: u8 in digit_of c = Some (int d) \<and> c \<noteq> 0 \<and>
     c \<noteq> 0x20 \<and> c \<noteq> 9 \<and> c \<noteq> 0x2b \<and> c \<noteq> 0x2d \<and> c \<noteq> 0x78 \<and> (c = 0x30 \<longleftrightarrow> d = 0)) [0..<16]"
  by code_simp

lemma digit_of_digit_char:
  assumes "d < 16"
  shows "digit_of (word_of_int (digit_char (of_nat d))) = Some (int d)"
    "word_of_int (digit_char (of_nat d)) \<noteq> (0 :: u8)"
    "word_of_int (digit_char (of_nat d)) \<notin> {0x20, 9, 0x2b, 0x2d, 0x78 :: u8}"
    "word_of_int (digit_char (of_nat d)) = (0x30 :: u8) \<longleftrightarrow> d = 0"
  using digit_chars assms unfolding list_all_iff Let_def by simp_all

definition num_bytes :: "nat \<Rightarrow> nat \<Rightarrow> u8 list" where
  "num_bytes b n = List.map (\<lambda>d. word_of_int (digit_char (of_nat d))) (num_digits b n)"

lemma num_bytes_digits:
  assumes "2 \<le> b" "b \<le> 16"
  shows "list_all2 (\<lambda>x d. digit_of x = Some d \<and> d < int b) (num_bytes b n) (List.map int (num_digits b n))"
    "0 \<notin> set (num_bytes b n)" "num_bytes b n \<noteq> []"
    "hd (num_bytes b n) \<notin> {0x20, 9, 0x2b, 0x2d}" "0x78 \<notin> set (num_bytes b n)"
    "hd (num_bytes b n) = 0x30 \<Longrightarrow> num_bytes b n = [0x30]"
proof -
  have d: "d < 16 \<and> d < b" if "d \<in> set (num_digits b n)" for d
    using num_digits_less [OF assms(1) that] assms(2) by simp
  show "list_all2 (\<lambda>x d. digit_of x = Some d \<and> d < int b) (num_bytes b n) (List.map int (num_digits b n))"
  proof -
    have "digit_of (word_of_int (digit_char (of_nat e))) = Some (int e) \<and> int e < int b" if "e \<in> set (num_digits b n)" for e
      using digit_of_digit_char(1) [OF conjunct1 [OF d [OF that]]] d [OF that] by simp
    then show ?thesis unfolding num_bytes_def list_all2_map1 list_all2_map2 list_all2_same by blast
  qed
  have "x \<noteq> 0 \<and> x \<noteq> 0x78" if x: "x \<in> set (num_bytes b n)" for x
  proof -
    from x obtain e where e: "x = word_of_int (digit_char (of_nat e))" "e \<in> set (num_digits b n)"
      unfolding num_bytes_def set_map by blast
    have "e < 16" using d [OF e(2)] by blast
    from digit_of_digit_char(2,3) [OF this] show ?thesis unfolding e(1) insert_iff by simp
  qed
  then show "0 \<notin> set (num_bytes b n)" "0x78 \<notin> set (num_bytes b n)" by blast+
  have ne: "num_digits b n \<noteq> []" using num_digits_pos [of b n] by auto
  then show "num_bytes b n \<noteq> []" by (simp add: num_bytes_def)
  have h: "hd (num_digits b n) < 16" "hd (num_bytes b n) = word_of_int (digit_char (of_nat (hd (num_digits b n))))"
    using ne d [of "hd (num_digits b n)"] by (simp_all add: num_bytes_def hd_map)
  show "hd (num_bytes b n) \<notin> {0x20, 9, 0x2b, 0x2d}" using digit_of_digit_char(3) [OF h(1)] unfolding h(2) insert_iff by simp
  assume "hd (num_bytes b n) = 0x30"
  then have "num_digits b n = [0]" using digit_of_digit_char(4) [OF h(1)] num_digits_hd [OF assms(1), of n] unfolding h(2) by simp
  then show "num_bytes b n = [0x30]" using digit_of_digit_char(4) [of 0] by (simp add: num_bytes_def)
qed

lemma list_all2_digits_cong:
  "2 \<le> b \<Longrightarrow> b \<le> 16 \<Longrightarrow> cstr m s (num_bytes b n) \<Longrightarrow>
   strtol_digits m (int b) s 0 = Some (s + length (num_bytes b n), word_of_int (int n))"
  using strtol_digits_ok [OF num_bytes_digits(1), of b n m s 0] num_digits_value [of b n]
  by (simp add: cstr_iff digit_of_def)

text \<open>The number text behind an optional minus sign, as \<^verbatim>\<open>strtol\<close> reads it.\<close>

lemma strtol_num_bytes:
  assumes b: "b = 8 \<or> b = 10 \<or> b = 16" and m: "cstr m s ((if neg then [0x2d] else []) @ num_bytes b n)"
  shows "strtol m s (int b) = Some (sint (if neg then - word_of_int (int n) else word_of_int (int n) :: u64),
    s + length ((if neg then [0x2d :: u8] else []) @ num_bytes b n))"
proof -
  have b2: "2 \<le> b" "b \<le> 16" "b \<noteq> 0" using b by auto
  define k where "k = (if neg then s + 1 else s)"
  obtain x xs where x: "num_bytes b n = x # xs" using num_bytes_digits(3) [OF b2(1,2)] by (cases "num_bytes b n") auto
  have k: "cstr m k (x # xs)" using m x by (cases neg) (simp_all add: k_def)
  have hd: "x \<notin> {0x20, 9, 0x2b, 0x2d}" "0x78 \<notin> set (x # xs)" "x = 0x30 \<Longrightarrow> xs = []"
    using num_bytes_digits(4-6) [OF b2(1,2), of n] x by auto
  have "skip_blanks m s = Some s" using m hd(1) x by (subst skip_blanks.simps) (auto split: if_splits)
  moreover have "strtol_sign m s = (k, neg)" using m hd(1) x by (cases neg) (auto simp: strtol_sign_def k_def)
  moreover have "strtol_base m k (int b) = (k, int b)"
  proof -
    have "m (k + 1) \<noteq> 0x78" using k hd(2) by (cases xs) auto
    then show ?thesis using b2 by (simp add: strtol_base_def)
  qed
  moreover have "strtol_digits m (int b) k 0 = Some (k + length (num_bytes b n), word_of_int (int n))"
    using list_all2_digits_cong [OF b2(1,2)] k x by metis
  ultimately show ?thesis by (simp add: strtol_def k_def)
qed

end
