(* ===== verification/Libs_Theorems.thy ===== *)
theory Libs_Theorems
  imports Printfmt
begin

text \<open>
  The properties of the string functions and of formatted output (labcode/lab8, libs), with
  instances on small memories.
\<close>

subsection \<open>Strings and blocks\<close>

definition demo_mem :: mem where
  "demo_mem = (\<lambda>i. if 10 \<le> i \<and> i < 13 then bytes_of ''abd'' ! (i - 10)
     else if 20 \<le> i \<and> i < 23 then bytes_of ''abc'' ! (i - 20) else 0)"

lemma demo_cstr: "cstr demo_mem 10 (bytes_of ''abd'')" "cstr demo_mem 20 (bytes_of ''abc'')"
  by code_simp+

text \<open>\<^verbatim>\<open>memmove\<close> copies correctly whether or not the blocks overlap: every byte of the destination gets
  the byte its place in the source had before the call, and no other byte changes; \<^verbatim>\<open>memcpy\<close> does the
  same when they do not overlap; \<^verbatim>\<open>memset\<close> fills exactly its block; \<^verbatim>\<open>memcmp\<close> is 0 exactly for equal blocks.\<close>

lemma memory_blocks:
  "snd (memmove dst src n m) x = (if dst \<le> x \<and> x < dst + n then m (src + (x - dst)) else m x) \<and>
   (dst + n \<le> src \<or> src + n \<le> dst \<longrightarrow> memcpy dst src n m = memmove dst src n m) \<and>
   snd (memset dst c n m) x = (if dst \<le> x \<and> x < dst + n then c else m x) \<and>
   (memcmp m dst src n = 0 \<longleftrightarrow> (\<forall>i < n. m (dst + i) = m (src + i)))"
proof -
  have "memcpy dst src n m = memmove dst src n m" if "dst + n \<le> src \<or> src + n \<le> dst"
    using memcpy_at [OF that] memmove_at by (intro prod_eqI) (auto simp: fun_eq_iff memcpy_def)
  then show ?thesis using memmove_at(2) memset_at memcmp_zero by blast
qed

lemma memory_blocks_witness: "snd (memcpy 0 10 3 demo_mem) 1 = bytes_of ''b'' ! 0"
proof -
  have "memcpy 0 10 3 demo_mem = memmove 0 10 3 demo_mem"
    using memory_blocks [of 0 10 3 demo_mem 1 0] by simp
  moreover have "snd (memmove 0 10 3 demo_mem) 1 = demo_mem 11"
    using memory_blocks [of 0 10 3 demo_mem 1 0] by simp
  ultimately show ?thesis by (simp add: demo_mem_def bytes_of_def)
qed

text \<open>On null-terminated strings: \<^verbatim>\<open>strlen\<close> and \<^verbatim>\<open>strnlen\<close> return the length; \<^verbatim>\<open>strcmp\<close> returns, with 0
  exactly for equal strings and a negative number exactly for a string that comes first in the
  lexicographic order of bytes; \<^verbatim>\<open>strchr\<close> and \<^verbatim>\<open>strfind\<close> find the first occurrence of a character; and
  \<^verbatim>\<open>strcpy\<close> into a place apart from the source returns, leaves the same string there and changes
  nothing outside it.\<close>

lemma string_functions:
  assumes "cstr m a xs" and "cstr m b ys"
  shows "strlen m a = Some (length xs) \<and> strnlen m a n = min n (length xs) \<and>
    (\<exists>r. strcmp m a b = Some r \<and> (r = 0 \<longleftrightarrow> xs = ys) \<and> (r < 0 \<longleftrightarrow> (xs, ys) \<in> lexord {(x, y). x < y})) \<and>
    (c \<noteq> 0 \<longrightarrow> strfind m a c = Some (a + length (takeWhile (\<lambda>x. x \<noteq> c) xs)) \<and>
      strchr m a c = Some (if c \<in> set xs then Some (a + length (takeWhile (\<lambda>x. x \<noteq> c) xs)) else None)) \<and>
    (dst + length xs < a \<or> a + length xs < dst \<longrightarrow> (\<exists>m'. strcpy dst a m = Some (dst, m') \<and> cstr m' dst xs \<and>
      (\<forall>x. \<not> (dst \<le> x \<and> x \<le> dst + length xs) \<longrightarrow> m' x = m x)))"
proof (intro conjI impI)
  have z: "0 \<notin> set xs" "0 \<notin> set ys" using assms by (simp_all add: cstr_iff)
  show "\<exists>r. strcmp m a b = Some r \<and> (r = 0 \<longleftrightarrow> xs = ys) \<and> (r < 0 \<longleftrightarrow> (xs, ys) \<in> lexord {(x, y). x < y})"
    using strcmp_cstr [OF assms] bytes_cmp_zero [OF z] bytes_cmp_neg [OF z] by blast
  assume "dst + length xs < a \<or> a + length xs < dst"
  from strcpy_cstr [OF assms(1) this] show "\<exists>m'. strcpy dst a m = Some (dst, m') \<and> cstr m' dst xs \<and>
      (\<forall>x. \<not> (dst \<le> x \<and> x \<le> dst + length xs) \<longrightarrow> m' x = m x)" by blast
qed (rule strlen_cstr [OF assms(1)] strnlen_cstr [OF assms(1)] strchr_cstr [OF assms(1)] strfind_cstr [OF assms(1)]; assumption)+

lemma string_functions_witness:
  "\<exists>r. strcmp demo_mem 10 20 = Some r \<and> r \<noteq> 0"
proof -
  have "bytes_of ''abd'' \<noteq> bytes_of ''abc''" by code_simp
  with string_functions [OF demo_cstr] show ?thesis by blast
qed

subsection \<open>Formatted output\<close>

text \<open>What a format prints does not depend on the consumer: \<^verbatim>\<open>vprintfmt\<close> with any \<^verbatim>\<open>putch\<close> on any state
  fails for lack of a fitting argument exactly if it does with a consumer that collects the characters,
  and otherwise passes exactly the characters collected to \<^verbatim>\<open>putch\<close>, in order.\<close>

lemma printf_consumer_independent:
  "vprintfmt putch fmt ap s =
     (case vprintfmt (\<lambda>c cs. cs @ [c]) fmt ap [] of None \<Rightarrow> None | Some cs \<Rightarrow> Some (fold putch cs s))"
proof -
  have "snoc = (\<lambda>c cs. cs @ [c])" by (simp add: fun_eq_iff snoc_def)
  then show ?thesis using vprintfmt_output [of putch fmt ap s] by (simp add: output_of_def split: option.split)
qed

text \<open>C19: \<^verbatim>\<open>snprintf\<close> stays in its buffer.  For a buffer that is not null and has a positive size, if the
  format prints the characters cs, it returns their number, the buffer holds the first \<open>sz - 1\<close> of them
  followed by a null byte, and no byte behind that one or before the buffer changes.  A null buffer or
  a size of 0 gives \<^verbatim>\<open>-E_INVAL\<close> and changes nothing.\<close>

theorem snprintf_bounded:
  assumes "vprintfmt (\<lambda>c cs. cs @ [c]) fmt ap [] = Some cs"
  shows "if str = 0 \<or> sz = 0 then snprintf str sz fmt ap m = Some (- E_INVAL, m)
    else \<exists>m'. snprintf str sz fmt ap m = Some (int (length cs), m') \<and>
      (\<forall>i < min (length cs) (sz - 1). m' (str + i) = word_of_int (cs ! i)) \<and>
      m' (str + min (length cs) (sz - 1)) = 0 \<and>
      (\<forall>x. x < str \<or> str + min (length cs) (sz - 1) < x \<longrightarrow> m' x = m x)"
proof -
  have "snoc = (\<lambda>c cs. cs @ [c])" by (simp add: fun_eq_iff snoc_def)
  then have "output_of fmt ap = Some cs" using assms by (simp add: output_of_def)
  from vsnprintf_ok [OF this, of str sz m] show ?thesis
    using vsnprintf_invalid [of str sz fmt ap m] by (auto simp: snprintf_def)
qed

lemma snprintf_bounded_witness:
  "\<exists>m'. snprintf 100 4 (bytes_of ''%d!'') [Word (- 12)] (\<lambda>_. 1) = Some (4, m') \<and> m' 103 = 0 \<and> m' 104 = 1"
proof -
  have "vprintfmt (\<lambda>c cs. cs @ [c]) (bytes_of ''%d!'') [Word (- 12)] [] = Some [45, 49, 50, 33]" by code_simp
  from snprintf_bounded [OF this, of 100 4 "\<lambda>_. 1"] show ?thesis by auto
qed

text \<open>C20: Printed numbers are read back.  Every 64-bit value v, printed into a large enough buffer by
  \<^verbatim>\<open>snprintf\<close> as signed decimal, hexadecimal or octal, is returned by \<^verbatim>\<open>strtol\<close> with that base (as the
  signed integer v stands for), with the end pointer at the null byte.\<close>

theorem print_parse_roundtrip:
  assumes "List.member [(''%ld'', 10), (''%lx'', 16), (''%lo'', 8)] (f, b)"
    and "vprintfmt (\<lambda>c cs. cs @ [c]) (bytes_of f) [Word v] [] = Some cs" and "length cs < sz" and "0 < str"
  shows "\<exists>m'. snprintf str sz (bytes_of f) [Word v] m = Some (int (length cs), m') \<and>
    strtol m' str (int b) = Some (sint v, str + length cs)"
proof -
  define neg where "neg \<longleftrightarrow> f = ''%ld'' \<and> sint v < 0"
  define u where "u = (if neg then - v else v)"
  have b: "b = 8 \<or> b = 10 \<or> b = 16" using assms(1) by auto
  have sn: "snoc = (\<lambda>c cs. cs @ [c])" by (simp add: fun_eq_iff snoc_def)
  have fold_snoc: "fold snoc xs ys = ys @ xs" for xs ys by (induction xs arbitrary: ys) (simp_all add: snoc_def)
  have pn: "printnum snoc u (of_nat b) (- 1) pad xs = Some (xs @ num_text b (unat u) (- 1) pad)" for pad xs u
    using b printnum_ok [of "of_nat b" snoc u "- 1" pad xs] by (auto simp: fold_snoc)
  have "output_of (bytes_of f) [Word v] =
      Some ((if neg then [0x2d] else []) @ num_text b (unat u) (- 1) (uint (ascii CHR '' '')))"
    using assms(1) pn
    by (auto simp: output_of_def vprintfmt_def fmt_run.simps escape.simps fetch_def bytes_of_def ascii_def
        is_digit_def fspec_init_def getint_def getuint_def neg_def u_def snoc_def split: if_splits)
  moreover have "output_of (bytes_of f) [Word v] = Some cs" using assms(2) by (simp add: output_of_def sn)
  ultimately have cs: "cs = (if neg then [0x2d] else []) @ num_text b (unat u) (- 1) (uint (ascii CHR '' ''))" by simp
  then have bytes: "List.map word_of_int cs = (if neg then [0x2d] else []) @ num_bytes b (unat u)"
    by (simp add: num_text_def num_bytes_def Let_def)
  have "0 < sz" "min (length cs) (sz - 1) = length cs" using assms(3) by auto
  with vsnprintf_ok [OF _ assms(4), of "bytes_of f" "[Word v]" cs sz m] assms(2) obtain m' where
    m': "snprintf str sz (bytes_of f) [Word v] m = Some (int (length cs), m')"
      "\<forall>i < length cs. m' (str + i) = word_of_int (cs ! i)" "m' (str + length cs) = 0"
    by (auto simp: snprintf_def output_of_def sn)
  have "0 \<notin> set ((if neg then [0x2d] else []) @ num_bytes b (unat u))" using num_bytes_digits(2) [of b "unat u"] b by auto
  then have "cstr m' str ((if neg then [0x2d] else []) @ num_bytes b (unat u))"
    using m'(2,3) unfolding bytes [symmetric] cstr_iff by simp
  from strtol_num_bytes [OF b this] have "strtol m' str (int b) =
      Some (sint (if neg then - word_of_int (int (unat u)) else word_of_int (int (unat u)) :: u64), str + length cs)"
    unfolding bytes [symmetric] by simp
  then show ?thesis using m'(1) by (auto simp: u_def split: if_splits)
qed

lemma print_parse_roundtrip_witness:
  "\<exists>m'. snprintf 64 30 (bytes_of ''%ld'') [Word (- 2025)] (\<lambda>_. 0) = Some (5, m') \<and> strtol m' 64 10 = Some (- 2025, 69)"
proof -
  have "vprintfmt (\<lambda>c cs. cs @ [c]) (bytes_of ''%ld'') [Word (- 2025)] [] = Some [45, 50, 48, 50, 53]" by code_simp
  from print_parse_roundtrip [OF _ this, of 10 30 64 "\<lambda>_. 0"] show ?thesis by auto
qed

end
