(* ===== verification/Bitmap.thy ===== *)
theory Bitmap
  imports Prelude
begin

unbundle bit_operations_syntax

text \<open>
  kern/fs/sfs/bitmap.c (labcode/lab8): the map of free disk blocks, an array of 32-bit words in which
  a set bit is a free block.  Abstractly it is the set of its free indices.
\<close>

record bitmap =
  nbits :: nat
  nwords :: nat
  bmap :: "u32 list"

definition WORD_BITS :: nat where "WORD_BITS = 32"

definition mask_of :: "nat \<Rightarrow> u32" where
  "mask_of offset = push_bit offset 1"

subsection \<open>Operations\<close>

text \<open>The leftover bits of the last word, cleared one by one.\<close>

function clear_over :: "nat \<Rightarrow> u32 \<Rightarrow> u32" where
  "clear_over overbits w = (if overbits < WORD_BITS then clear_over (overbits + 1) (w XOR mask_of overbits) else w)"
  by pat_completeness auto
termination by (relation "measure (\<lambda>(o', w). WORD_BITS - o')") auto

declare clear_over.simps [simp del]

text \<open>The outcome of the two calls of \<^verbatim>\<open>kmalloc\<close>, for the object and for its words, is an argument.
  \<open>None\<close> inside the result is the null pointer.\<close>

definition bitmap_create :: "bool \<Rightarrow> bool \<Rightarrow> nat \<Rightarrow> bitmap option option" where
  "bitmap_create mem1 mem2 nb = do {
     c_assert (nb \<noteq> 0 \<and> nb + WORD_BITS > nb);
     if \<not> mem1 then Some None
     else let nw = (nb + WORD_BITS - 1) div WORD_BITS in
       if \<not> mem2 then Some None
       else let words = replicate nw (- 1) in
         if nb \<noteq> nw * WORD_BITS then
           (let ix = nw - 1; overbits = nb - ix * WORD_BITS in do {
              c_assert (nb div WORD_BITS = ix);
              c_assert (overbits > 0 \<and> overbits < WORD_BITS);
              Some (Some \<lparr>nbits = nb, nwords = nw, bmap = words[ix := clear_over overbits (words ! ix)]\<rparr>) })
         else Some (Some \<lparr>nbits = nb, nwords = nw, bmap = words\<rparr>) }"

text \<open>The inner loop of \<^verbatim>\<open>bitmap_alloc\<close>; it ends in \<^verbatim>\<open>assert(0)\<close> if no bit is set.\<close>

function find_bit :: "u32 \<Rightarrow> nat \<Rightarrow> nat option" where
  "find_bit w offset =
     (if offset < WORD_BITS then (if w AND mask_of offset \<noteq> 0 then Some offset else find_bit w (offset + 1)) else None)"
  by pat_completeness auto
termination by (relation "measure (\<lambda>(w, o'). WORD_BITS - o')") auto

declare find_bit.simps [simp del]

text \<open>The result is the value returned, the index stored, if any, and the map.\<close>

function alloc_word :: "nat \<Rightarrow> bitmap \<Rightarrow> (int \<times> nat option \<times> bitmap) option" where
  "alloc_word ix b =
     (if ix < nwords b then
        (if bmap b ! ix \<noteq> 0 then
           (case find_bit (bmap b ! ix) 0 of
              None \<Rightarrow> None
            | Some offset \<Rightarrow> Some (0, Some (ix * WORD_BITS + offset),
                b\<lparr>bmap := (bmap b)[ix := bmap b ! ix XOR mask_of offset]\<rparr>))
         else alloc_word (ix + 1) b)
      else Some (- E_NO_MEM, None, b))"
  by pat_completeness auto
termination by (relation "measure (\<lambda>(ix, b). nwords b - ix)") auto

declare alloc_word.simps [simp del]

definition bitmap_alloc :: "bitmap \<Rightarrow> (int \<times> nat option \<times> bitmap) option" where
  "bitmap_alloc b = alloc_word 0 b"

definition bitmap_translate :: "bitmap \<Rightarrow> nat \<Rightarrow> (nat \<times> u32) option" where
  "bitmap_translate b index = do {
     c_assert (index < nbits b);
     Some (index div WORD_BITS, mask_of (index mod WORD_BITS)) }"

definition bitmap_test :: "bitmap \<Rightarrow> nat \<Rightarrow> bool option" where
  "bitmap_test b index = do {
     (word, mask) \<leftarrow> bitmap_translate b index;
     Some (bmap b ! word AND mask \<noteq> 0) }"

definition bitmap_free :: "bitmap \<Rightarrow> nat \<Rightarrow> bitmap option" where
  "bitmap_free b index = do {
     (word, mask) \<leftarrow> bitmap_translate b index;
     c_assert (bmap b ! word AND mask = 0);
     Some (b\<lparr>bmap := (bmap b)[word := bmap b ! word OR mask]\<rparr>) }"

definition bitmap_getdata :: "bitmap \<Rightarrow> u32 list \<times> nat" where
  "bitmap_getdata b = (bmap b, 4 * nwords b)"

subsection \<open>The set of free indices\<close>

definition bm_wf :: "bitmap \<Rightarrow> bool" where
  "bm_wf b \<longleftrightarrow> length (bmap b) = nwords b \<and> nbits b \<le> nwords b * WORD_BITS \<and>
     (\<forall>i < nwords b * WORD_BITS. bit (bmap b ! (i div WORD_BITS)) (i mod WORD_BITS) \<longrightarrow> i < nbits b)"

definition free_bits :: "bitmap \<Rightarrow> nat set" where
  "free_bits b = {i. i < nwords b * WORD_BITS \<and> bit (bmap b ! (i div WORD_BITS)) (i mod WORD_BITS)}"

lemma bit_mask_of: "k < WORD_BITS \<Longrightarrow> bit (mask_of k) n \<longleftrightarrow> n = k"
  by (auto simp: mask_of_def WORD_BITS_def bit_simps)

lemma and_mask_of: "k < WORD_BITS \<Longrightarrow> w AND mask_of k \<noteq> 0 \<longleftrightarrow> bit w k"
proof -
  assume k: "k < WORD_BITS"
  have "w AND mask_of k = (if bit w k then mask_of k else 0)"
    by (rule bit_eqI) (use k in \<open>auto simp: bit_and_iff bit_mask_of\<close>)
  moreover have "mask_of k \<noteq> 0" using bit_mask_of [OF k, of k] by auto
  ultimately show "w AND mask_of k \<noteq> 0 \<longleftrightarrow> bit w k" by simp
qed

lemma word_nonzero_bit: "(w :: u32) \<noteq> 0 \<longleftrightarrow> (\<exists>k < WORD_BITS. bit w k)"
proof
  assume "w \<noteq> 0"
  then obtain k where "bit w k" by (metis bit_eqI bit_0_eq bot_apply bot_bool_def)
  moreover from this have "k < LENGTH(32)" by (rule bit_imp_le_length)
  ultimately show "\<exists>k < WORD_BITS. bit w k" by (auto simp: WORD_BITS_def)
qed auto

lemma find_bit_ok:
  "find_bit w k = (if \<exists>j. k \<le> j \<and> j < WORD_BITS \<and> bit w j then Some (LEAST j. k \<le> j \<and> bit w j) else None)"
proof (induction w k rule: find_bit.induct)
  case (1 w k)
  show ?case
  proof (cases "k < WORD_BITS")
    case True
    show ?thesis
    proof (cases "bit w k")
      case b: True
      then have "(LEAST j. k \<le> j \<and> bit w j) = k" by (intro Least_equality) auto
      then show ?thesis using True b and_mask_of [OF True] by (subst find_bit.simps) auto
    next
      case False
      then have "(k \<le> j \<and> bit w j) = (k + 1 \<le> j \<and> bit w j)" for j by (cases "j = k") auto
      then have "(LEAST j. k \<le> j \<and> bit w j) = (LEAST j. k + 1 \<le> j \<and> bit w j)"
        "(\<exists>j. k \<le> j \<and> j < WORD_BITS \<and> bit w j) = (\<exists>j. k + 1 \<le> j \<and> j < WORD_BITS \<and> bit w j)"
        by (simp only: , blast)
      moreover have "find_bit w k = find_bit w (k + 1)"
        using True False and_mask_of [OF True, of w] by (subst find_bit.simps) simp
      moreover have "\<not> w AND mask_of k \<noteq> 0" using False and_mask_of [OF True, of w] by blast
      note 1 [OF True this]
      ultimately show ?thesis by (simp only:)
    qed
  next
    case False
    then show ?thesis by (subst find_bit.simps) auto
  qed
qed

lemma free_bits_word:
  "ix < nwords b \<Longrightarrow> k < WORD_BITS \<Longrightarrow> ix * WORD_BITS + k \<in> free_bits b \<longleftrightarrow> bit (bmap b ! ix) k"
proof -
  assume a: "ix < nwords b" "k < WORD_BITS"
  then have "ix * WORD_BITS + k < nwords b * WORD_BITS"
    by (metis add.commute div_less_iff_less_mult div_mult_self3 gr_implies_not0 div_less add_0 not_gr0)
  then show ?thesis using a by (simp add: free_bits_def)
qed

lemma free_bits_less: "bm_wf b \<Longrightarrow> i \<in> free_bits b \<Longrightarrow> i < nbits b"
  by (auto simp: bm_wf_def free_bits_def)

text \<open>Changing one bit.\<close>

lemma bm_update:
  assumes wf: "bm_wf b" and i: "i < nbits b"
    and w: "\<And>k. k < WORD_BITS \<Longrightarrow> bit w k \<longleftrightarrow> (if k = i mod WORD_BITS then v else bit (bmap b ! (i div WORD_BITS)) k)"
  defines "b' \<equiv> b\<lparr>bmap := (bmap b)[i div WORD_BITS := w]\<rparr>"
  shows "bm_wf b'" "free_bits b' = (if v then insert i (free_bits b) else free_bits b - {i})"
proof -
  have W: "0 < WORD_BITS" by (simp add: WORD_BITS_def)
  have iw: "i < nwords b * WORD_BITS" "length (bmap b) = nwords b" using wf i by (auto simp: bm_wf_def)
  then have d: "i div WORD_BITS < nwords b" by (simp add: div_less_iff_less_mult W)
  have b: "bit (bmap b' ! (j div WORD_BITS)) (j mod WORD_BITS) \<longleftrightarrow>
      (if j = i then v else bit (bmap b ! (j div WORD_BITS)) (j mod WORD_BITS))" for j
  proof (cases "j div WORD_BITS = i div WORD_BITS")
    case True
    then have "j mod WORD_BITS = i mod WORD_BITS \<longleftrightarrow> j = i" by (metis div_mult_mod_eq)
    then show ?thesis using True w [of "j mod WORD_BITS"] d iw(2) W by (simp add: b'_def)
  next
    case False
    then show ?thesis by (auto simp: b'_def)
  qed
  show "free_bits b' = (if v then insert i (free_bits b) else free_bits b - {i})"
    using iw(1) by (auto simp: free_bits_def b) (auto simp: b'_def)
  show "bm_wf b'" using wf i b by (auto simp: bm_wf_def b'_def)
qed

lemma bitmap_test_ok: "bm_wf b \<Longrightarrow> bitmap_test b i = (if i < nbits b then Some (i \<in> free_bits b) else None)"
proof -
  assume wf: "bm_wf b"
  have "i mod WORD_BITS < WORD_BITS" by (simp add: WORD_BITS_def)
  from and_mask_of [OF this] show ?thesis using wf
    by (auto simp: bitmap_test_def bitmap_translate_def free_bits_def bm_wf_def)
qed

lemma bitmap_free_ok:
  assumes wf: "bm_wf b" and i: "i < nbits b" "i \<notin> free_bits b"
  shows "\<exists>b'. bitmap_free b i = Some b' \<and> bm_wf b' \<and> free_bits b' = insert i (free_bits b) \<and>
    nbits b' = nbits b \<and> nwords b' = nwords b"
proof -
  have k: "i mod WORD_BITS < WORD_BITS" by (simp add: WORD_BITS_def)
  let ?w = "bmap b ! (i div WORD_BITS)"
  have "\<not> bit ?w (i mod WORD_BITS)" using wf i by (auto simp: free_bits_def bm_wf_def)
  then have "?w AND mask_of (i mod WORD_BITS) = 0" using and_mask_of [OF k] by blast
  moreover have "bit (?w OR mask_of (i mod WORD_BITS)) n \<longleftrightarrow> (if n = i mod WORD_BITS then True else bit ?w n)" for n
    by (auto simp: bit_or_iff bit_mask_of [OF k])
  note bm_update [OF wf i(1) this]
  ultimately show ?thesis using i(1) by (simp add: bitmap_free_def bitmap_translate_def)
qed

lemma alloc_word_ok:
  assumes "bm_wf b" "\<forall>i \<in> free_bits b. ix * WORD_BITS \<le> i"
  shows "if free_bits b = {} then alloc_word ix b = Some (- E_NO_MEM, None, b)
    else \<exists>b'. alloc_word ix b = Some (0, Some (LEAST i. i \<in> free_bits b), b') \<and> bm_wf b' \<and>
      free_bits b' = free_bits b - {LEAST i. i \<in> free_bits b} \<and> nbits b' = nbits b \<and> nwords b' = nwords b"
  using assms
proof (induction ix b rule: alloc_word.induct)
  case (1 ix b)
  note wf = 1(2) and ge = 1(3)
  have W: "0 < WORD_BITS" by (simp add: WORD_BITS_def)
  show ?case
  proof (cases "ix < nwords b")
    case False
    then have "free_bits b = {}" using ge W by (auto simp: free_bits_def) (metis less_le_trans linorder_not_le mult_le_mono1 not_le)
    then show ?thesis using False by (subst alloc_word.simps) simp
  next
    case True
    let ?w = "bmap b ! ix"
    show ?thesis
    proof (cases "?w = 0")
      case z: True
      have "(ix + 1) * WORD_BITS \<le> i" if i: "i \<in> free_bits b" for i
      proof (rule ccontr)
        assume "\<not> (ix + 1) * WORD_BITS \<le> i"
        then have "i div WORD_BITS = ix" using ge i W
          by (metis (no_types) add.commute div_nat_eqI mult.commute not_less plus_1_eq_Suc)
        then show False using i z by (simp add: free_bits_def)
      qed
      then have "\<forall>i \<in> free_bits b. (ix + 1) * WORD_BITS \<le> i" by blast
      moreover have "alloc_word ix b = alloc_word (ix + 1) b" using z True by (subst alloc_word.simps) simp
      moreover have "\<not> ?w \<noteq> 0" using z by blast
      note 1(1) [OF True this wf]
      ultimately show ?thesis by (simp only:)
    next
      case False
      then obtain k where k: "k < WORD_BITS" "bit ?w k" by (auto simp: word_nonzero_bit)
      let ?k = "LEAST j. bit ?w j"
      have lk: "?k \<le> k" "bit ?w ?k" using k(2) by (auto intro: Least_le LeastI)
      have fb: "find_bit ?w 0 = Some ?k" using k by (auto simp: find_bit_ok)
      have kW: "?k < WORD_BITS" using lk(1) k(1) by simp
      have i: "ix * WORD_BITS + ?k \<in> free_bits b" using free_bits_word [OF True kW] lk(2) by simp
      have least: "(LEAST i. i \<in> free_bits b) = ix * WORD_BITS + ?k"
      proof (rule Least_equality)
        show "ix * WORD_BITS + ?k \<in> free_bits b" by (rule i)
        fix j assume j: "j \<in> free_bits b"
        show "ix * WORD_BITS + ?k \<le> j"
        proof (cases "j < (ix + 1) * WORD_BITS")
          case True
          then have dj: "j div WORD_BITS = ix" using ge j W
            by (metis (no_types) add.commute div_nat_eqI mult.commute plus_1_eq_Suc)
          then have "bit ?w (j mod WORD_BITS)" using j by (simp add: free_bits_def)
          then have "?k \<le> j mod WORD_BITS" by (rule Least_le)
          then show ?thesis using div_mult_mod_eq [of j WORD_BITS] unfolding dj by (metis add_le_cancel_left)
        next
          case False
          then show ?thesis using kW by simp
        qed
      qed
      let ?i = "ix * WORD_BITS + ?k"
      have d: "?i div WORD_BITS = ix" "?i mod WORD_BITS = ?k" using kW by simp_all
      have "bit (?w XOR mask_of ?k) n \<longleftrightarrow> (if n = ?i mod WORD_BITS then False else bit (bmap b ! (?i div WORD_BITS)) n)" for n
        using lk(2) unfolding d by (auto simp: bit_xor_iff bit_mask_of [OF kW])
      note up = bm_update [OF wf free_bits_less [OF wf i] this]
      have "alloc_word ix b = Some (0, Some ?i, b\<lparr>bmap := (bmap b)[ix := ?w XOR mask_of ?k]\<rparr>)"
        using True False fb by (subst alloc_word.simps) simp
      then show ?thesis using i up unfolding least d by auto
    qed
  qed
qed

lemma clear_over_bit:
  "m \<le> WORD_BITS \<Longrightarrow> \<forall>k \<ge> m. k < WORD_BITS \<longrightarrow> bit w k \<Longrightarrow> k < WORD_BITS \<Longrightarrow>
   bit (clear_over m w) k \<longleftrightarrow> k < m \<and> bit w k"
proof (induction m w rule: clear_over.induct)
  case (1 m w)
  show ?case
  proof (cases "m < WORD_BITS")
    case True
    have x: "bit (w XOR mask_of m) j \<longleftrightarrow> (if j = m then False else bit w j)" for j
      using 1(3) True by (auto simp: bit_xor_iff bit_mask_of [OF True])
    have "bit (clear_over (m + 1) (w XOR mask_of m)) k \<longleftrightarrow> k < m + 1 \<and> bit (w XOR mask_of m) k"
      by (rule 1(1)) (use True 1(3,4) x in auto)
    then show ?thesis using True x by (subst clear_over.simps) auto
  next
    case False
    then show ?thesis using 1 by (subst clear_over.simps) auto
  qed
qed

lemma bitmap_create_ok:
  assumes "0 < nb"
  shows "\<exists>b. bitmap_create True True nb = Some (Some b) \<and> bm_wf b \<and> nbits b = nb \<and> free_bits b = {..<nb}"
proof -
  have W: "0 < WORD_BITS" by (simp add: WORD_BITS_def)
  define nw where "nw = (nb + WORD_BITS - 1) div WORD_BITS"
  let ?ws = "replicate nw (- 1) :: u32 list"
  have nw: "nb \<le> nw * WORD_BITS" "nw * WORD_BITS < nb + WORD_BITS" "0 < nw"
    using assms unfolding nw_def WORD_BITS_def by presburger+
  have all: "bit (- 1 :: u32) k \<longleftrightarrow> k < WORD_BITS" for k by (auto simp: WORD_BITS_def bit_simps)
  have m: "i mod WORD_BITS < WORD_BITS" for i using W by simp
  show ?thesis
  proof (cases "nb = nw * WORD_BITS")
    case True
    let ?b = "\<lparr>nbits = nb, nwords = nw, bmap = ?ws\<rparr>"
    have "bitmap_create True True nb = Some (Some ?b)" using assms True [symmetric] W unfolding bitmap_create_def nw_def [symmetric] Let_def by simp
    moreover have "i < nw * WORD_BITS \<Longrightarrow> bit (?ws ! (i div WORD_BITS)) (i mod WORD_BITS)" for i
      using W m by (simp del: bit_minus_1_iff add: all div_less_iff_less_mult)
    then have "free_bits ?b = {..<nb}" using True by (auto simp: free_bits_def)
    moreover have "bm_wf ?b" using True by (auto simp: bm_wf_def)
    ultimately show ?thesis by auto
  next
    case False
    let ?ix = "nw - 1"
    let ?ov = "nb - ?ix * WORD_BITS"
    have ov: "nb div WORD_BITS = ?ix" "0 < ?ov" "?ov < WORD_BITS" "?ix * WORD_BITS + ?ov = nb"
    proof -
      obtain m where m: "nw = Suc m" using nw(3) by (cases nw) auto
      have lt: "m * WORD_BITS < nb" "nb < Suc m * WORD_BITS" using nw False m by auto
      have "nb div WORD_BITS = m" by (rule div_nat_eqI) (use lt in \<open>simp_all add: mult.commute\<close>)
      then show "nb div WORD_BITS = ?ix" "0 < ?ov" "?ov < WORD_BITS" "?ix * WORD_BITS + ?ov = nb"
        using lt m by auto
    qed
    let ?b = "\<lparr>nbits = nb, nwords = nw, bmap = ?ws[?ix := clear_over ?ov (?ws ! ?ix)]\<rparr>"
    have "(nb \<noteq> 0 \<and> nb < nb + WORD_BITS) = True" using assms W by simp
    note this eqTrueI [OF False] eqTrueI [OF ov(1)] eqTrueI [OF conjI [OF ov(2,3)]]
    then have c: "bitmap_create True True nb = Some (Some ?b)"
      unfolding bitmap_create_def nw_def [symmetric] Let_def by (simp only: c_assert_simps if_True if_False not_True_eq_False bind.simps)
    have bits: "bit (bmap ?b ! (i div WORD_BITS)) (i mod WORD_BITS) \<longleftrightarrow> i < nb" if i: "i < nw * WORD_BITS" for i
    proof (cases "i div WORD_BITS = ?ix")
      case True
      have wx: "?ws ! ?ix = - 1" using nw(3) by simp
      have "bit (clear_over ?ov (?ws ! ?ix)) (i mod WORD_BITS) \<longleftrightarrow> i mod WORD_BITS < ?ov \<and> bit (?ws ! ?ix) (i mod WORD_BITS)"
        using ov(3) m by (intro clear_over_bit) (unfold wx all, auto)
      also have "\<dots> \<longleftrightarrow> i < nb" using True ov(4) div_mult_mod_eq [of i WORD_BITS] m unfolding wx all by auto
      finally show ?thesis using True nw(3) by simp
    next
      case ne: False
      have "i div WORD_BITS < nw" using i W by (simp add: div_less_iff_less_mult)
      moreover from this ne have "i div WORD_BITS < ?ix" by simp
      then have "i < ?ix * WORD_BITS" using W by (simp add: div_less_iff_less_mult)
      ultimately show ?thesis using ne ov(4) m by (simp add: all del: bit_minus_1_iff)
    qed
    obtain b where b: "b = ?b" by blast
    then have f: "nbits b = nb" "nwords b = nw" "length (bmap b) = nw" by simp_all
    have e: "i < nw * WORD_BITS \<Longrightarrow> bit (bmap b ! (i div WORD_BITS)) (i mod WORD_BITS) = (i < nb)" for i
      using bits unfolding b .
    have "i < nb \<Longrightarrow> i < nw * WORD_BITS" for i by (rule order_less_le_trans [OF _ nw(1)])
    then have "free_bits b = {..<nb}" unfolding free_bits_def f lessThan_def using e by blast
    moreover have "bm_wf b" unfolding bm_wf_def f
    proof (intro conjI allI impI)
      fix i assume "i < nw * WORD_BITS" "bit (bmap b ! (i div WORD_BITS)) (i mod WORD_BITS)"
      then show "i < nb" by (simp only: e)
    qed (rule refl, rule nw(1))
    moreover have "bitmap_create True True nb = Some (Some b)" unfolding b by (rule c)
    ultimately show ?thesis using f(1) by (intro exI [of _ b] conjI)
  qed
qed

end
