(* ===== verification/Iobuf.thy ===== *)
theory Iobuf
  imports Cstring
begin

text \<open>
  kern/fs/iobuf.c (labcode/lab8): the cursor of a transfer between a buffer in memory and a device or
  file.  \<^verbatim>\<open>copiedp\<close> is always stored here; callers that pass null ignore it.
\<close>

record iobuf =
  io_base :: nat
  io_offset :: nat
  io_len :: nat
  io_resid :: nat

definition iobuf_used :: "iobuf \<Rightarrow> nat" where
  "iobuf_used iob = io_len iob - io_resid iob"

definition iobuf_init :: "nat \<Rightarrow> nat \<Rightarrow> nat \<Rightarrow> iobuf" where
  "iobuf_init base len offset = \<lparr>io_base = base, io_offset = offset, io_len = len, io_resid = len\<rparr>"

definition iobuf_skip :: "nat \<Rightarrow> iobuf \<Rightarrow> iobuf option" where
  "iobuf_skip n iob = do {
     c_assert (io_resid iob \<ge> n);
     Some (iob\<lparr>io_base := io_base iob + n, io_offset := io_offset iob + n, io_resid := io_resid iob - n\<rparr>) }"

definition iobuf_move :: "nat \<Rightarrow> nat \<Rightarrow> bool \<Rightarrow> iobuf \<Rightarrow> mem \<Rightarrow> (int \<times> nat \<times> iobuf \<times> mem) option" where
  "iobuf_move data len m2b iob m =
     (let alen = (if io_resid iob > len then len else io_resid iob)
      in if alen > 0 then
           let src = io_base iob; dst = data;
               (src, dst) = (if m2b then (dst, src) else (src, dst));
               m1 = snd (memmove dst src alen m)
           in do {
             iob1 \<leftarrow> iobuf_skip alen iob;
             Some (if len - alen = 0 then 0 else - E_NO_MEM, alen, iob1, m1) }
         else Some (if len = 0 then 0 else - E_NO_MEM, alen, iob, m))"

definition iobuf_move_zeros :: "nat \<Rightarrow> iobuf \<Rightarrow> mem \<Rightarrow> (int \<times> nat \<times> iobuf \<times> mem) option" where
  "iobuf_move_zeros len iob m =
     (let alen = (if io_resid iob > len then len else io_resid iob)
      in if alen > 0 then do {
           let m1 = snd (memset (io_base iob) 0 alen m);
           iob1 \<leftarrow> iobuf_skip alen iob;
           Some (if len - alen = 0 then 0 else - E_NO_MEM, alen, iob1, m1) }
         else Some (if len = 0 then 0 else - E_NO_MEM, alen, iob, m))"

text \<open>A buffer is sound if what is left is a suffix of it.\<close>

definition iobuf_ok :: "nat \<Rightarrow> nat \<Rightarrow> iobuf \<Rightarrow> bool" where
  "iobuf_ok base offset iob \<longleftrightarrow> io_resid iob \<le> io_len iob \<and>
     io_base iob = base + iobuf_used iob \<and> io_offset iob = offset + iobuf_used iob"

lemma iobuf_init_ok: "iobuf_ok base offset (iobuf_init base len offset)"
  by (simp add: iobuf_ok_def iobuf_init_def iobuf_used_def)

lemma iobuf_skip_ok:
  "iobuf_ok base offset iob \<Longrightarrow> n \<le> io_resid iob \<Longrightarrow>
   \<exists>iob'. iobuf_skip n iob = Some iob' \<and> iobuf_ok base offset iob' \<and>
     io_resid iob' = io_resid iob - n \<and> io_base iob' = io_base iob + n"
  by (auto simp: iobuf_skip_def iobuf_ok_def iobuf_used_def)

text \<open>A move transfers as much as is asked for and left; it reports an error exactly if that is less
  than asked for.\<close>

lemma iobuf_move_ok:
  fixes len :: nat
  assumes "iobuf_ok base offset iob"
  defines "alen \<equiv> min len (io_resid iob)"
  shows "\<exists>iob' m'. iobuf_move data len m2b iob m = Some (if len \<le> io_resid iob then 0 else - E_NO_MEM, alen, iob', m') \<and>
    iobuf_ok base offset iob' \<and> io_resid iob' = io_resid iob - alen \<and>
    m' = snd (memmove (if m2b then io_base iob else data) (if m2b then data else io_base iob) alen m)"
proof (cases "alen = 0")
  case True
  have "snd (memmove d s 0 m) = m" for d s by (auto simp: memmove_def)
  then show ?thesis using True assms by (auto simp: iobuf_move_def Let_def min_def split: if_splits)
next
  case False
  have a: "(if io_resid iob > len then len else io_resid iob) = alen" by (simp add: alen_def min_def)
  have "alen \<le> io_resid iob" by (simp add: alen_def)
  from iobuf_skip_ok [OF assms(1) this] False show ?thesis
    unfolding iobuf_move_def a Let_def by (auto simp: alen_def min_def)
qed

end
