(* ===== verification/Sfs_Io.thy ===== *)
theory Sfs_Io
  imports Bitmap Iobuf
begin

text \<open>
  The block layer of the simple file system (labcode/lab8): the disk device kern/fs/devs/dev_disk0.c
  over the memory disk kern/driver/ide.c and ramdisk.c, and the block operations of
  kern/fs/sfs/sfs_io.c.

  The contents of a buffer is a function from offsets to bytes; an operation that fills a buffer
  returns its contents, and the caller stores it.  Block numbers are natural numbers, far below the
  2 to the 20 blocks for which the 32-bit product \<^verbatim>\<open>blkno * SFS_BLKSIZE\<close> does not overflow.  The locks
  (\<^verbatim>\<open>lock_sfs_io\<close>, \<^verbatim>\<open>lock_disk0\<close>) are semaphores that serialise these operations; each is one step here.
\<close>

type_synonym bytes = "nat \<Rightarrow> u8"

definition SFS_BLKSIZE :: nat where "SFS_BLKSIZE = 4096"
definition SECTSIZE :: nat where "SECTSIZE = 512"
definition DISK0_BLK_NSECT :: nat where "DISK0_BLK_NSECT = SFS_BLKSIZE div SECTSIZE"
definition DISK0_BUFSIZE :: nat where "DISK0_BUFSIZE = 4 * SFS_BLKSIZE"
definition MAX_NSECS :: nat where "MAX_NSECS = 128"
definition MAX_DISK_NSECS :: nat where "MAX_DISK_NSECS = 0x10000000"

subsection \<open>The memory disk\<close>

text \<open>\<open>dsize\<close> is its size in sectors.\<close>

record dev =
  image :: bytes
  dsize :: nat

definition blit :: "nat \<Rightarrow> nat \<Rightarrow> bytes \<Rightarrow> bytes \<Rightarrow> bytes" where
  "blit at n d b = (\<lambda>x. if at \<le> x \<and> x < at + n then d (x - at) else b x)"

definition ramdisk_nsecs :: "dev \<Rightarrow> nat \<Rightarrow> nat \<Rightarrow> nat" where
  "ramdisk_nsecs dv secno nsecs = (if secno \<le> dsize dv then min nsecs (dsize dv - secno) else nsecs)"

definition ramdisk_read :: "dev \<Rightarrow> nat \<Rightarrow> bytes \<Rightarrow> nat \<Rightarrow> bytes" where
  "ramdisk_read dv secno dst nsecs =
     blit 0 (ramdisk_nsecs dv secno nsecs * SECTSIZE) (\<lambda>i. image dv (secno * SECTSIZE + i)) dst"

definition ramdisk_write :: "dev \<Rightarrow> nat \<Rightarrow> bytes \<Rightarrow> nat \<Rightarrow> dev" where
  "ramdisk_write dv secno src nsecs =
     dv\<lparr>image := blit (secno * SECTSIZE) (ramdisk_nsecs dv secno nsecs * SECTSIZE) src (image dv)\<rparr>"

definition ide_read_secs :: "nat \<Rightarrow> bytes \<Rightarrow> nat \<Rightarrow> dev \<Rightarrow> bytes option" where
  "ide_read_secs secno dst nsecs dv = do {
     c_assert (nsecs \<le> MAX_NSECS);
     c_assert (secno < MAX_DISK_NSECS \<and> secno + nsecs \<le> MAX_DISK_NSECS);
     Some (ramdisk_read dv secno dst nsecs) }"

definition ide_write_secs :: "nat \<Rightarrow> bytes \<Rightarrow> nat \<Rightarrow> dev \<Rightarrow> dev option" where
  "ide_write_secs secno src nsecs dv = do {
     c_assert (nsecs \<le> MAX_NSECS);
     c_assert (secno < MAX_DISK_NSECS \<and> secno + nsecs \<le> MAX_DISK_NSECS);
     Some (ramdisk_write dv secno src nsecs) }"

subsection \<open>The disk device\<close>

definition d_blocks :: "dev \<Rightarrow> nat" where
  "d_blocks dv = dsize dv div DISK0_BLK_NSECT"

definition disk0_read_blks_nolock :: "nat \<Rightarrow> nat \<Rightarrow> bytes \<Rightarrow> dev \<Rightarrow> bytes option" where
  "disk0_read_blks_nolock blkno nblks buf dv = ide_read_secs (blkno * DISK0_BLK_NSECT) buf (nblks * DISK0_BLK_NSECT) dv"

definition disk0_write_blks_nolock :: "nat \<Rightarrow> nat \<Rightarrow> bytes \<Rightarrow> dev \<Rightarrow> dev option" where
  "disk0_write_blks_nolock blkno nblks buf dv = ide_write_secs (blkno * DISK0_BLK_NSECT) buf (nblks * DISK0_BLK_NSECT) dv"

text \<open>The transfer loop, through the bounce buffer of four blocks; \<open>pos\<close> is what \<^verbatim>\<open>iobuf_move\<close> has
  transferred, \<open>data\<close> the contents of the caller's buffer.\<close>

partial_function (option) disk0_loop :: "bool \<Rightarrow> nat \<Rightarrow> nat \<Rightarrow> nat \<Rightarrow> bytes \<Rightarrow> bytes \<Rightarrow> dev \<Rightarrow> (bytes \<times> dev) option" where
  "disk0_loop write blkno resid pos data dbuf dv =
     (if resid = 0 then Some (data, dv)
      else if write then do {
        let copied = min resid DISK0_BUFSIZE;
        let dbuf1 = blit 0 copied (\<lambda>i. data (pos + i)) dbuf;
        c_assert (copied \<noteq> 0 \<and> copied \<le> resid \<and> copied mod SFS_BLKSIZE = 0);
        let nblks = copied div SFS_BLKSIZE;
        dv1 \<leftarrow> disk0_write_blks_nolock blkno nblks dbuf1 dv;
        disk0_loop write (blkno + nblks) (resid - copied) (pos + copied) data dbuf1 dv1 }
      else do {
        let alen = min DISK0_BUFSIZE resid;
        let nblks = alen div SFS_BLKSIZE;
        dbuf1 \<leftarrow> disk0_read_blks_nolock blkno nblks dbuf dv;
        let copied = min resid alen;
        let data1 = blit pos copied dbuf1 data;
        c_assert (copied = alen \<and> copied mod SFS_BLKSIZE = 0);
        disk0_loop write (blkno + nblks) (resid - copied) (pos + copied) data1 dbuf1 dv })"

declare disk0_loop.simps [code]

definition disk0_io :: "bool \<Rightarrow> nat \<Rightarrow> nat \<Rightarrow> bytes \<Rightarrow> dev \<Rightarrow> (int \<times> bytes \<times> dev) option" where
  "disk0_io write offset resid data dv =
     (let blkno = offset div SFS_BLKSIZE; nblks = resid div SFS_BLKSIZE
      in if offset mod SFS_BLKSIZE \<noteq> 0 \<or> resid mod SFS_BLKSIZE \<noteq> 0 then Some (- E_INVAL, data, dv)
         else if blkno + nblks > d_blocks dv then Some (- E_INVAL, data, dv)
         else if nblks = 0 then Some (0, data, dv)
         else do {
           (data1, dv1) \<leftarrow> disk0_loop write blkno resid 0 data (\<lambda>_. 0) dv;
           Some (0, data1, dv1) })"

text \<open>One block.\<close>

definition block :: "dev \<Rightarrow> nat \<Rightarrow> bytes" where
  "block dv b = (\<lambda>i. image dv (b * SFS_BLKSIZE + i))"

definition block_eq :: "bytes \<Rightarrow> bytes \<Rightarrow> bool" where
  "block_eq d e \<longleftrightarrow> (\<forall>i < SFS_BLKSIZE. d i = e i)"

lemma sizes [simp]: "0 < SFS_BLKSIZE" "SFS_BLKSIZE \<noteq> 0" "0 < SECTSIZE" "0 < DISK0_BLK_NSECT" "DISK0_BLK_NSECT * SECTSIZE = SFS_BLKSIZE"
  "SFS_BLKSIZE \<le> DISK0_BUFSIZE" "DISK0_BLK_NSECT \<le> MAX_NSECS"
  by (simp_all add: SFS_BLKSIZE_def SECTSIZE_def DISK0_BLK_NSECT_def DISK0_BUFSIZE_def MAX_NSECS_def)

lemma d_blocks_sectors:
  "b < d_blocks dv \<Longrightarrow> b * DISK0_BLK_NSECT + DISK0_BLK_NSECT \<le> dsize dv"
proof -
  assume "b < d_blocks dv"
  then have "(b + 1) * DISK0_BLK_NSECT \<le> d_blocks dv * DISK0_BLK_NSECT" by (intro mult_le_mono1) simp
  also have "\<dots> \<le> dsize dv" by (simp add: d_blocks_def)
  finally show ?thesis by simp
qed

definition dev_ok :: "dev \<Rightarrow> bool" where
  "dev_ok dv \<longleftrightarrow> dsize dv \<le> MAX_DISK_NSECS"

lemma sector_bytes: "b * DISK0_BLK_NSECT * SECTSIZE = b * SFS_BLKSIZE"
  by (simp add: mult.assoc)

lemma disk0_read_block:
  assumes "dev_ok dv" "b < d_blocks dv"
  shows "\<exists>d. disk0_io False (b * SFS_BLKSIZE) SFS_BLKSIZE data dv = Some (0, d, dv) \<and>
    block_eq d (block dv b)"
proof -
  note s = d_blocks_sectors [OF assms(2)]
  have r: "disk0_read_blks_nolock b 1 (\<lambda>_. 0) dv = Some (blit 0 SFS_BLKSIZE (block dv b) (\<lambda>_. 0))"
  proof -
    have "b * DISK0_BLK_NSECT < MAX_DISK_NSECS" "b * DISK0_BLK_NSECT + DISK0_BLK_NSECT \<le> MAX_DISK_NSECS"
      using s assms(1) sizes(4) unfolding dev_ok_def by linarith+
    moreover have "ramdisk_nsecs dv (b * DISK0_BLK_NSECT) DISK0_BLK_NSECT = DISK0_BLK_NSECT"
      using s by (simp add: ramdisk_nsecs_def)
    ultimately show ?thesis
      by (simp add: disk0_read_blks_nolock_def ide_read_secs_def ramdisk_read_def block_def sector_bytes)
  qed
  let ?d = "blit 0 SFS_BLKSIZE (blit 0 SFS_BLKSIZE (block dv b) (\<lambda>_. 0)) data"
  have "disk0_loop False b SFS_BLKSIZE 0 data (\<lambda>_. 0) dv = Some (?d, dv)"
    using r by (subst disk0_loop.simps) (simp add: Let_def min_absorb1 min_absorb2 disk0_loop.simps [of False "Suc b" 0])
  then have "disk0_io False (b * SFS_BLKSIZE) SFS_BLKSIZE data dv = Some (0, ?d, dv)"
    using assms(2) by (simp add: disk0_io_def)
  moreover have "block_eq ?d (block dv b)" by (simp add: block_eq_def blit_def)
  ultimately show ?thesis by blast
qed

lemma disk0_write_block:
  assumes "dev_ok dv" "b < d_blocks dv"
  shows "disk0_io True (b * SFS_BLKSIZE) SFS_BLKSIZE data dv =
    Some (0, data, dv\<lparr>image := blit (b * SFS_BLKSIZE) SFS_BLKSIZE data (image dv)\<rparr>)"
proof -
  note s = d_blocks_sectors [OF assms(2)]
  let ?dv = "dv\<lparr>image := blit (b * SFS_BLKSIZE) SFS_BLKSIZE data (image dv)\<rparr>"
  have w: "disk0_write_blks_nolock b 1 (blit 0 SFS_BLKSIZE data (\<lambda>_. 0)) dv = Some ?dv"
  proof -
    have "b * DISK0_BLK_NSECT < MAX_DISK_NSECS" "b * DISK0_BLK_NSECT + DISK0_BLK_NSECT \<le> MAX_DISK_NSECS"
      using s assms(1) sizes(4) unfolding dev_ok_def by linarith+
    moreover have "ramdisk_nsecs dv (b * DISK0_BLK_NSECT) DISK0_BLK_NSECT = DISK0_BLK_NSECT"
      using s by (simp add: ramdisk_nsecs_def)
    moreover have "blit (b * SFS_BLKSIZE) SFS_BLKSIZE (blit 0 SFS_BLKSIZE data (\<lambda>_. 0)) (image dv) =
        blit (b * SFS_BLKSIZE) SFS_BLKSIZE data (image dv)"
      by (auto simp: blit_def fun_eq_iff)
    ultimately show ?thesis
      by (simp add: disk0_write_blks_nolock_def ide_write_secs_def ramdisk_write_def sector_bytes)
  qed
  have "disk0_loop True b SFS_BLKSIZE 0 data (\<lambda>_. 0) dv = Some (data, ?dv)"
    using w by (subst disk0_loop.simps) (simp add: Let_def min_absorb1 min_absorb2 disk0_loop.simps [of True "Suc b" 0])
  then show ?thesis using assms(2) by (simp add: disk0_io_def)
qed

subsection \<open>sfs_io.c\<close>

text \<open>The state of a mounted file system, \<^verbatim>\<open>struct sfs_fs\<close>; the superblock is \<open>sblocks\<close> and \<open>unused_blocks\<close>
  with its name.\<close>

record sfs =
  sdev :: dev
  sblocks :: nat
  unused_blocks :: nat
  sinfo :: "u8 list"
  super_dirty :: bool
  freemap :: bitmap
  sfs_buffer :: bytes

definition sfs_rwblock_nolock :: "bytes \<Rightarrow> nat \<Rightarrow> bool \<Rightarrow> bool \<Rightarrow> sfs \<Rightarrow> (int \<times> bytes \<times> sfs) option" where
  "sfs_rwblock_nolock buf blkno write check s = do {
     c_assert ((blkno \<noteq> 0 \<or> \<not> check) \<and> blkno < sblocks s);
     (ret, buf1, dv) \<leftarrow> disk0_io write (blkno * SFS_BLKSIZE) SFS_BLKSIZE buf (sdev s);
     Some (ret, buf1, s\<lparr>sdev := dv\<rparr>) }"

text \<open>Several blocks; \<open>pos\<close> is the offset of the current block in the buffer.\<close>

primrec sfs_rwblock_loop :: "nat \<Rightarrow> bytes \<Rightarrow> nat \<Rightarrow> nat \<Rightarrow> bool \<Rightarrow> sfs \<Rightarrow> (int \<times> bytes \<times> sfs) option" where
  "sfs_rwblock_loop 0 buf pos blkno write s = Some (0, buf, s)"
| "sfs_rwblock_loop (Suc nblks) buf pos blkno write s = do {
     (ret, part, s1) \<leftarrow> sfs_rwblock_nolock (\<lambda>i. buf (pos + i)) blkno write True s;
     let buf1 = (if write then buf else blit pos SFS_BLKSIZE part buf);
     if ret \<noteq> 0 then Some (ret, buf1, s1)
     else sfs_rwblock_loop nblks buf1 (pos + SFS_BLKSIZE) (blkno + 1) write s1 }"

definition sfs_rwblock :: "bytes \<Rightarrow> nat \<Rightarrow> nat \<Rightarrow> bool \<Rightarrow> sfs \<Rightarrow> (int \<times> bytes \<times> sfs) option" where
  "sfs_rwblock buf blkno nblks write s = sfs_rwblock_loop nblks buf 0 blkno write s"

definition sfs_rblock :: "bytes \<Rightarrow> nat \<Rightarrow> nat \<Rightarrow> sfs \<Rightarrow> (int \<times> bytes \<times> sfs) option" where
  "sfs_rblock buf blkno nblks s = sfs_rwblock buf blkno nblks False s"

definition sfs_wblock :: "bytes \<Rightarrow> nat \<Rightarrow> nat \<Rightarrow> sfs \<Rightarrow> (int \<times> bytes \<times> sfs) option" where
  "sfs_wblock buf blkno nblks s = sfs_rwblock buf blkno nblks True s"

definition sfs_rbuf :: "bytes \<Rightarrow> nat \<Rightarrow> nat \<Rightarrow> nat \<Rightarrow> sfs \<Rightarrow> (int \<times> bytes \<times> sfs) option" where
  "sfs_rbuf buf len blkno offset s = do {
     c_assert (offset < SFS_BLKSIZE \<and> offset + len \<le> SFS_BLKSIZE);
     (ret, b, s1) \<leftarrow> sfs_rwblock_nolock (sfs_buffer s) blkno False True s;
     let s2 = s1\<lparr>sfs_buffer := b\<rparr>;
     if ret = 0 then Some (ret, blit 0 len (\<lambda>i. b (offset + i)) buf, s2) else Some (ret, buf, s2) }"

definition sfs_wbuf :: "bytes \<Rightarrow> nat \<Rightarrow> nat \<Rightarrow> nat \<Rightarrow> sfs \<Rightarrow> (int \<times> sfs) option" where
  "sfs_wbuf buf len blkno offset s = do {
     c_assert (offset < SFS_BLKSIZE \<and> offset + len \<le> SFS_BLKSIZE);
     (ret, b, s1) \<leftarrow> sfs_rwblock_nolock (sfs_buffer s) blkno False True s;
     if ret = 0 then do {
       let b1 = blit offset len buf b;
       (ret1, b2, s2) \<leftarrow> sfs_rwblock_nolock b1 blkno True True s1;
       Some (ret1, s2\<lparr>sfs_buffer := b2\<rparr>) }
     else Some (ret, s1\<lparr>sfs_buffer := b\<rparr>) }"

text \<open>Little-endian integers in a buffer.\<close>

definition enc32 :: "nat \<Rightarrow> bytes" where
  "enc32 n = (\<lambda>i. of_nat (n div 256 ^ i))"

definition dec32 :: "bytes \<Rightarrow> nat" where
  "dec32 b = unat (b 0) + 256 * (unat (b 1) + 256 * (unat (b 2) + 256 * unat (b 3)))"

definition SFS_MAGIC :: nat where "SFS_MAGIC = 0x2f8dbe2a"

definition enc_super :: "sfs \<Rightarrow> bytes" where
  "enc_super s = blit 0 4 (enc32 SFS_MAGIC) (blit 4 4 (enc32 (sblocks s)) (blit 8 4 (enc32 (unused_blocks s))
     (blit 12 32 (\<lambda>i. if i < length (sinfo s) then sinfo s ! i else 0) (\<lambda>_. 0))))"

definition sfs_sync_super :: "sfs \<Rightarrow> (int \<times> sfs) option" where
  "sfs_sync_super s = do {
     let b = blit 0 44 (enc_super s) (blit 0 SFS_BLKSIZE (\<lambda>_. 0) (sfs_buffer s));
     (ret, b1, s1) \<leftarrow> sfs_rwblock_nolock b 0 True False s;
     Some (ret, s1\<lparr>sfs_buffer := b1\<rparr>) }"

definition sfs_freemap_blocks :: "sfs \<Rightarrow> nat" where
  "sfs_freemap_blocks s = (sblocks s + SFS_BLKSIZE * 8 - 1) div (SFS_BLKSIZE * 8)"

definition enc_freemap :: "bitmap \<Rightarrow> bytes" where
  "enc_freemap b = (\<lambda>i. ucast (drop_bit (8 * (i mod 4)) (bmap b ! (i div 4))))"

definition sfs_sync_freemap :: "sfs \<Rightarrow> (int \<times> sfs) option" where
  "sfs_sync_freemap s = do {
     (ret, _, s1) \<leftarrow> sfs_wblock (enc_freemap (freemap s)) 2 (sfs_freemap_blocks s) s;
     Some (ret, s1) }"

primrec sfs_clear_loop :: "nat \<Rightarrow> nat \<Rightarrow> sfs \<Rightarrow> (int \<times> sfs) option" where
  "sfs_clear_loop 0 blkno s = Some (0, s)"
| "sfs_clear_loop (Suc nblks) blkno s = do {
     (ret, b, s1) \<leftarrow> sfs_rwblock_nolock (sfs_buffer s) blkno True True s;
     if ret \<noteq> 0 then Some (ret, s1) else sfs_clear_loop nblks (blkno + 1) s1 }"

definition sfs_clear_block :: "nat \<Rightarrow> nat \<Rightarrow> sfs \<Rightarrow> (int \<times> sfs) option" where
  "sfs_clear_block blkno nblks s =
     sfs_clear_loop nblks blkno (s\<lparr>sfs_buffer := blit 0 SFS_BLKSIZE (\<lambda>_. 0) (sfs_buffer s)\<rparr>)"

end
