(* ===== verification/Sfs_Bmap.thy ===== *)
theory Sfs_Bmap
  imports Sfs_Io
begin

text \<open>
  kern/fs/sfs/sfs_inode.c (labcode/lab8), first part: allocation of disk blocks and the map from the
  block numbers of a file to disk blocks: twelve direct entries in the inode and one indirect block
  of 1024 entries.  An operation returns its error code, what it stores through pointers, and the new
  state; an inode that it may change is an argument and a result.  \<open>None\<close> is a failed assertion or
  a panic.
\<close>

record disk_inode =
  isize :: nat
  itype :: nat
  nlinks :: nat
  iblocks :: nat
  direct :: "nat list"
  indirect :: nat

record sfs_inode =
  din :: disk_inode
  ino :: nat
  dirty :: bool
  reclaim_count :: int

definition SFS_NDIRECT :: nat where "SFS_NDIRECT = 12"
definition SFS_BLK_NENTRY :: nat where "SFS_BLK_NENTRY = SFS_BLKSIZE div 4"

definition upd_din :: "(disk_inode \<Rightarrow> disk_inode) \<Rightarrow> sfs_inode \<Rightarrow> sfs_inode" where
  "upd_din f sin = sin\<lparr>din := f (din sin)\<rparr>"

subsection \<open>Blocks\<close>

definition sfs_block_inuse :: "nat \<Rightarrow> sfs \<Rightarrow> bool option" where
  "sfs_block_inuse b s =
     (if b \<noteq> 0 \<and> b < sblocks s then do { f \<leftarrow> bitmap_test (freemap s) b; Some (\<not> f) } else None)"

text \<open>The block number stored, when none is stored, is 0.\<close>

definition sfs_block_alloc :: "sfs \<Rightarrow> (int \<times> nat \<times> sfs) option" where
  "sfs_block_alloc s = do {
     (ret, st, fm) \<leftarrow> bitmap_alloc (freemap s);
     if ret \<noteq> 0 then Some (ret, 0, s\<lparr>freemap := fm\<rparr>)
     else do {
       b \<leftarrow> st;
       c_assert (unused_blocks s > 0);
       let s1 = s\<lparr>freemap := fm, unused_blocks := unused_blocks s - 1, super_dirty := True\<rparr>;
       u \<leftarrow> sfs_block_inuse b s1;
       c_assert u;
       (ret1, s2) \<leftarrow> sfs_clear_block b 1 s1;
       Some (ret1, b, s2) } }"

definition sfs_block_free :: "nat \<Rightarrow> sfs \<Rightarrow> sfs option" where
  "sfs_block_free b s = do {
     u \<leftarrow> sfs_block_inuse b s;
     c_assert u;
     fm \<leftarrow> bitmap_free (freemap s) b;
     Some (s\<lparr>freemap := fm, unused_blocks := unused_blocks s + 1, super_dirty := True\<rparr>) }"

subsection \<open>The block map\<close>

text \<open>The clean-up of a failed \<^verbatim>\<open>sfs_bmap_get_sub_nolock\<close>: the new entry block, if there is one, is freed.\<close>

definition bmap_cleanup :: "int \<Rightarrow> nat \<Rightarrow> nat \<Rightarrow> sfs \<Rightarrow> (int \<times> nat \<times> nat \<times> sfs) option" where
  "bmap_cleanup ret entp ent s =
     (if ent \<noteq> entp then do { s1 \<leftarrow> sfs_block_free ent s; Some (ret, entp, 0, s1) } else Some (ret, entp, 0, s))"

text \<open>The part behind the test of the entry: a block is allocated and entered.\<close>

definition bmap_enter :: "nat \<Rightarrow> nat \<Rightarrow> nat \<Rightarrow> sfs \<Rightarrow> (int \<times> nat \<times> nat \<times> sfs) option" where
  "bmap_enter entp ent index s = do {
     (ret, b, s1) \<leftarrow> sfs_block_alloc s;
     if ret \<noteq> 0 then bmap_cleanup ret entp ent s1
     else do {
       (ret1, s2) \<leftarrow> sfs_wbuf (enc32 b) 4 ent (index * 4) s1;
       if ret1 \<noteq> 0 then do { s3 \<leftarrow> sfs_block_free b s2; bmap_cleanup ret1 entp ent s3 }
       else Some (0, ent, b, s2) } }"

text \<open>The results are the error code, the new value of \<^verbatim>\<open>*entp\<close> and the block found (0 for none).\<close>

definition sfs_bmap_get_sub_nolock :: "nat \<Rightarrow> nat \<Rightarrow> bool \<Rightarrow> sfs \<Rightarrow> (int \<times> nat \<times> nat \<times> sfs) option" where
  "sfs_bmap_get_sub_nolock entp index create s = do {
     c_assert (index < SFS_BLK_NENTRY);
     if entp \<noteq> 0 then do {
       (ret, buf, s1) \<leftarrow> sfs_rbuf (enc32 0) 4 entp (index * 4) s;
       if ret \<noteq> 0 then Some (ret, entp, 0, s1)
       else if dec32 buf \<noteq> 0 \<or> \<not> create then Some (0, entp, dec32 buf, s1)
       else bmap_enter entp entp index s1 }
     else if \<not> create then Some (0, entp, 0, s)
     else do {
       (ret, ent, s1) \<leftarrow> sfs_block_alloc s;
       if ret \<noteq> 0 then Some (ret, entp, 0, s1) else bmap_enter entp ent index s1 } }"

definition bmap_out :: "nat \<Rightarrow> sfs_inode \<Rightarrow> sfs \<Rightarrow> (int \<times> nat \<times> sfs_inode \<times> sfs) option" where
  "bmap_out b sin s = do {
     u \<leftarrow> (if b = 0 then Some True else sfs_block_inuse b s);
     c_assert u;
     Some (0, b, sin, s) }"

definition sfs_bmap_get_nolock :: "sfs_inode \<Rightarrow> nat \<Rightarrow> bool \<Rightarrow> sfs \<Rightarrow> (int \<times> nat \<times> sfs_inode \<times> sfs) option" where
  "sfs_bmap_get_nolock sin index create s =
     (if index < SFS_NDIRECT then
        (let b = direct (din sin) ! index
         in if b = 0 \<and> create then do {
              (ret, b1, s1) \<leftarrow> sfs_block_alloc s;
              if ret \<noteq> 0 then Some (ret, 0, sin, s1)
              else bmap_out b1 (upd_din (\<lambda>d. d\<lparr>direct := (direct d)[index := b1]\<rparr>) sin\<lparr>dirty := True\<rparr>) s1 }
            else bmap_out b sin s)
      else if index - SFS_NDIRECT < SFS_BLK_NENTRY then do {
        (ret, ent, b, s1) \<leftarrow> sfs_bmap_get_sub_nolock (indirect (din sin)) (index - SFS_NDIRECT) create s;
        if ret \<noteq> 0 then Some (ret, 0, sin, s1)
        else if ent \<noteq> indirect (din sin) then do {
          c_assert (indirect (din sin) = 0);
          bmap_out b (upd_din (\<lambda>d. d\<lparr>indirect := ent\<rparr>) sin\<lparr>dirty := True\<rparr>) s1 }
        else bmap_out b sin s1 }
      else None)"

definition sfs_bmap_free_sub_nolock :: "nat \<Rightarrow> nat \<Rightarrow> sfs \<Rightarrow> (int \<times> sfs) option" where
  "sfs_bmap_free_sub_nolock ent index s = do {
     u \<leftarrow> sfs_block_inuse ent s;
     c_assert (u \<and> index < SFS_BLK_NENTRY);
     (ret, buf, s1) \<leftarrow> sfs_rbuf (enc32 0) 4 ent (index * 4) s;
     if ret \<noteq> 0 then Some (ret, s1)
     else if dec32 buf \<noteq> 0 then do {
       (ret1, s2) \<leftarrow> sfs_wbuf (enc32 0) 4 ent (index * 4) s1;
       if ret1 \<noteq> 0 then Some (ret1, s2)
       else do { s3 \<leftarrow> sfs_block_free (dec32 buf) s2; Some (0, s3) } }
     else Some (0, s1) }"

definition sfs_bmap_free_nolock :: "sfs_inode \<Rightarrow> nat \<Rightarrow> sfs \<Rightarrow> (int \<times> sfs_inode \<times> sfs) option" where
  "sfs_bmap_free_nolock sin index s =
     (if index < SFS_NDIRECT then
        (let b = direct (din sin) ! index
         in if b \<noteq> 0 then do {
              s1 \<leftarrow> sfs_block_free b s;
              Some (0, upd_din (\<lambda>d. d\<lparr>direct := (direct d)[index := 0]\<rparr>) sin\<lparr>dirty := True\<rparr>, s1) }
            else Some (0, sin, s))
      else if index - SFS_NDIRECT < SFS_BLK_NENTRY then
        (if indirect (din sin) \<noteq> 0 then do {
           (ret, s1) \<leftarrow> sfs_bmap_free_sub_nolock (indirect (din sin)) (index - SFS_NDIRECT) s;
           if ret \<noteq> 0 then Some (ret, sin, s1) else Some (0, sin, s1) }
         else Some (0, sin, s))
      else Some (0, sin, s))"

definition sfs_bmap_load_nolock :: "sfs_inode \<Rightarrow> nat \<Rightarrow> sfs \<Rightarrow> (int \<times> nat \<times> sfs_inode \<times> sfs) option" where
  "sfs_bmap_load_nolock sin index s = do {
     c_assert (index \<le> iblocks (din sin));
     let create = (index = iblocks (din sin));
     (ret, b, sin1, s1) \<leftarrow> sfs_bmap_get_nolock sin index create s;
     if ret \<noteq> 0 then Some (ret, 0, sin1, s1)
     else do {
       u \<leftarrow> sfs_block_inuse b s1;
       c_assert u;
       Some (0, b, if create then upd_din (\<lambda>d. d\<lparr>iblocks := iblocks d + 1\<rparr>) sin1 else sin1, s1) } }"

definition sfs_bmap_truncate_nolock :: "sfs_inode \<Rightarrow> sfs \<Rightarrow> (int \<times> sfs_inode \<times> sfs) option" where
  "sfs_bmap_truncate_nolock sin s = do {
     c_assert (iblocks (din sin) \<noteq> 0);
     (ret, sin1, s1) \<leftarrow> sfs_bmap_free_nolock sin (iblocks (din sin) - 1) s;
     if ret \<noteq> 0 then Some (ret, sin1, s1)
     else Some (0, upd_din (\<lambda>d. d\<lparr>iblocks := iblocks d - 1\<rparr>) sin1\<lparr>dirty := True\<rparr>, s1) }"

subsection \<open>The state of the disk\<close>

definition free_blocks :: "sfs \<Rightarrow> nat set" where
  "free_blocks s = free_bits (freemap s)"

definition img :: "sfs \<Rightarrow> bytes" where
  "img s = image (sdev s)"

definition sfs_ok :: "sfs \<Rightarrow> bool" where
  "sfs_ok s \<longleftrightarrow> dev_ok (sdev s) \<and> sblocks s \<le> d_blocks (sdev s) \<and> bm_wf (freemap s) \<and>
     sblocks s \<le> nbits (freemap s) \<and> free_blocks s \<subseteq> {0<..<sblocks s} \<and>
     unused_blocks s = card (free_blocks s) \<and> sblocks s < 2 ^ 32"

text \<open>\<open>goes s s' F I\<close>: s' is a sound state of the same file system with free blocks F and disk contents I.\<close>

definition goes :: "sfs \<Rightarrow> sfs \<Rightarrow> nat set \<Rightarrow> bytes \<Rightarrow> bool" where
  "goes s s' F I \<longleftrightarrow> sfs_ok s' \<and> sblocks s' = sblocks s \<and> free_blocks s' = F \<and> img s' = I"

lemma sfs_okD:
  assumes "sfs_ok s"
  shows "dev_ok (sdev s)" "b < sblocks s \<Longrightarrow> b < d_blocks (sdev s)" "bm_wf (freemap s)"
    "b < sblocks s \<Longrightarrow> b < nbits (freemap s)" "free_blocks s \<subseteq> {0<..<sblocks s}" "finite (free_blocks s)"
    "unused_blocks s = card (free_blocks s)" "sblocks s < 2 ^ 32"
proof -
  show f: "free_blocks s \<subseteq> {0<..<sblocks s}" using assms by (simp add: sfs_ok_def)
  show "finite (free_blocks s)" using f by (rule finite_subset) simp
qed (use assms in \<open>auto simp: sfs_ok_def\<close>)

lemma sfs_ok_buffer [simp]: "sfs_ok (s\<lparr>sfs_buffer := b\<rparr>) = sfs_ok s"
  by (simp add: sfs_ok_def free_blocks_def)

lemma goes_buffer: "sfs_ok s \<Longrightarrow> goes s (s\<lparr>sfs_buffer := b\<rparr>) (free_blocks s) (img s)"
  by (simp add: goes_def) (simp add: free_blocks_def img_def)

lemma goes_trans: "goes s s1 F I \<Longrightarrow> goes s1 s2 G J \<Longrightarrow> goes s s2 G J"
  by (simp add: goes_def)

lemma inuse_ok: "sfs_ok s \<Longrightarrow> 0 < b \<Longrightarrow> b < sblocks s \<Longrightarrow> sfs_block_inuse b s = Some (b \<notin> free_blocks s)"
  using bitmap_test_ok [OF sfs_okD(3), of s b] sfs_okD(4) [of s b]
  by (simp add: sfs_block_inuse_def free_blocks_def)

lemma blit_cong: "(\<And>i. i < n \<Longrightarrow> d i = e i) \<Longrightarrow> blit at n d b = blit at n e b"
  by (auto simp: blit_def fun_eq_iff)

lemma read_block_ok:
  assumes s: "sfs_ok s" and b: "b < sblocks s" "b \<noteq> 0 \<or> \<not> check"
  shows "\<exists>d. sfs_rwblock_nolock buf b False check s = Some (0, d, s) \<and>
    (\<forall>i < SFS_BLKSIZE. d i = img s (b * SFS_BLKSIZE + i))"
  using disk0_read_block [OF sfs_okD(1) [OF s] sfs_okD(2) [OF s b(1)], of buf] b
  by (auto simp: sfs_rwblock_nolock_def img_def block_eq_def block_def)

lemma rbuf_ok:
  assumes s: "sfs_ok s" and b: "0 < b" "b < sblocks s" and o: "off < SFS_BLKSIZE" "off + len \<le> SFS_BLKSIZE"
  shows "\<exists>s'. sfs_rbuf buf len b off s = Some (0, blit 0 len (\<lambda>i. img s (b * SFS_BLKSIZE + off + i)) buf, s') \<and>
    goes s s' (free_blocks s) (img s)"
proof -
  from read_block_ok [OF s b(2), of True "sfs_buffer s"] b(1) obtain d where
    d: "sfs_rwblock_nolock (sfs_buffer s) b False True s = Some (0, d, s)"
      "\<forall>i < SFS_BLKSIZE. d i = img s (b * SFS_BLKSIZE + i)" by blast
  have e: "blit 0 len (\<lambda>i. d (off + i)) buf = blit 0 len (\<lambda>i. img s (b * SFS_BLKSIZE + off + i)) buf"
    by (rule blit_cong) (use d(2) o in \<open>auto simp: add.assoc\<close>)
  have "sfs_rbuf buf len b off s = Some (0, blit 0 len (\<lambda>i. d (off + i)) buf, s\<lparr>sfs_buffer := d\<rparr>)"
    using d(1) b o by (simp add: sfs_rbuf_def)
  then show ?thesis using goes_buffer [OF s] e by auto
qed

lemma sfs_ok_image: "sfs_ok s \<Longrightarrow> goes s (s\<lparr>sdev := (sdev s)\<lparr>image := I\<rparr>, sfs_buffer := b\<rparr>) (free_blocks s) I"
  by (simp add: sfs_ok_def goes_def) (simp add: free_blocks_def img_def dev_ok_def d_blocks_def)

lemma sfs_ok_dev: "sfs_ok s \<Longrightarrow> goes s (s\<lparr>sdev := (sdev s)\<lparr>image := I\<rparr>\<rparr>) (free_blocks s) I"
  by (simp add: sfs_ok_def goes_def) (simp add: free_blocks_def img_def dev_ok_def d_blocks_def)

lemma write_block_ok:
  assumes s: "sfs_ok s" and b: "b < sblocks s" "b \<noteq> 0 \<or> \<not> check"
  shows "sfs_rwblock_nolock d b True check s =
    Some (0, d, s\<lparr>sdev := (sdev s)\<lparr>image := blit (b * SFS_BLKSIZE) SFS_BLKSIZE d (img s)\<rparr>\<rparr>)"
  using disk0_write_block [OF sfs_okD(1) [OF s] sfs_okD(2) [OF s b(1)], of d] b
  by (auto simp: sfs_rwblock_nolock_def img_def)

lemma wbuf_ok:
  assumes s: "sfs_ok s" and b: "0 < b" "b < sblocks s" and o: "off < SFS_BLKSIZE" "off + len \<le> SFS_BLKSIZE"
  shows "\<exists>s'. sfs_wbuf buf len b off s = Some (0, s') \<and>
    goes s s' (free_blocks s) (blit (b * SFS_BLKSIZE + off) len buf (img s))"
proof -
  from read_block_ok [OF s b(2), of True "sfs_buffer s"] b(1) obtain d where
    d: "sfs_rwblock_nolock (sfs_buffer s) b False True s = Some (0, d, s)"
      "\<forall>i < SFS_BLKSIZE. d i = img s (b * SFS_BLKSIZE + i)" by blast
  let ?d = "blit off len buf d"
  let ?I = "blit (b * SFS_BLKSIZE + off) len buf (img s)"
  have e: "blit (b * SFS_BLKSIZE) SFS_BLKSIZE ?d (img s) = ?I"
  proof (rule ext)
    fix x
    have "d (x - b * SFS_BLKSIZE) = img s x" if "b * SFS_BLKSIZE \<le> x" "x < b * SFS_BLKSIZE + SFS_BLKSIZE"
      using d(2) [rule_format, of "x - b * SFS_BLKSIZE"] that by simp
    moreover obtain B where B: "B = b * SFS_BLKSIZE" by blast
    ultimately have "B \<le> x \<Longrightarrow> x < B + SFS_BLKSIZE \<Longrightarrow> d (x - B) = img s x" by simp
    then show "blit (b * SFS_BLKSIZE) SFS_BLKSIZE ?d (img s) x = ?I x"
      using o unfolding blit_def B [symmetric] by (cases "B \<le> x"; cases "x < B + SFS_BLKSIZE") auto
  qed
  have "sfs_rwblock_nolock ?d b True True s = Some (0, ?d, s\<lparr>sdev := (sdev s)\<lparr>image := ?I\<rparr>\<rparr>)"
    using write_block_ok [OF s b(2), of True ?d] b(1) e by simp
  then have "sfs_wbuf buf len b off s = Some (0, s\<lparr>sdev := (sdev s)\<lparr>image := ?I\<rparr>, sfs_buffer := ?d\<rparr>)"
    using d(1) b o by (simp add: sfs_wbuf_def)
  then show ?thesis using sfs_ok_image [OF s] by blast
qed

lemma wblock_ok:
  assumes s: "sfs_ok s" and b: "0 < b" "b < sblocks s"
  shows "\<exists>s' d. sfs_wblock buf b 1 s = Some (0, d, s') \<and>
    goes s s' (free_blocks s) (blit (b * SFS_BLKSIZE) SFS_BLKSIZE buf (img s))"
proof -
  let ?I = "blit (b * SFS_BLKSIZE) SFS_BLKSIZE buf (img s)"
  have "sfs_wblock buf b 1 s = Some (0, buf, s\<lparr>sdev := (sdev s)\<lparr>image := ?I\<rparr>\<rparr>)"
    using write_block_ok [OF s b(2), of True buf] b by (simp add: sfs_wblock_def sfs_rwblock_def)
  then show ?thesis using sfs_ok_dev [OF s] by blast
qed

lemma rblock_ok:
  assumes s: "sfs_ok s" and b: "0 < b" "b < sblocks s"
  shows "\<exists>s'. sfs_rblock buf b 1 s = Some (0, blit 0 SFS_BLKSIZE (\<lambda>i. img s (b * SFS_BLKSIZE + i)) buf, s') \<and>
    goes s s' (free_blocks s) (img s)"
proof -
  from read_block_ok [OF s b(2), of True "\<lambda>i. buf (0 + i)"] b(1) obtain d where
    d: "sfs_rwblock_nolock (\<lambda>i. buf (0 + i)) b False True s = Some (0, d, s)"
      "\<forall>i < SFS_BLKSIZE. d i = img s (b * SFS_BLKSIZE + i)" by blast
  have "blit 0 SFS_BLKSIZE d buf = blit 0 SFS_BLKSIZE (\<lambda>i. img s (b * SFS_BLKSIZE + i)) buf"
    by (rule blit_cong) (use d(2) in auto)
  moreover have "sfs_rblock buf b 1 s = Some (0, blit 0 SFS_BLKSIZE d buf, s)"
    using d(1) b by (simp add: sfs_rblock_def sfs_rwblock_def)
  moreover have "goes s s (free_blocks s) (img s)" using s by (simp add: goes_def)
  ultimately show ?thesis by auto
qed

lemma block_alloc_ok:
  assumes s: "sfs_ok s"
  shows "if free_blocks s = {} then \<exists>s'. sfs_block_alloc s = Some (- E_NO_MEM, 0, s') \<and> goes s s' {} (img s)
    else \<exists>b s'. b \<in> free_blocks s \<and> sfs_block_alloc s = Some (0, b, s') \<and>
      goes s s' (free_blocks s - {b}) (blit (b * SFS_BLKSIZE) SFS_BLKSIZE (\<lambda>_. 0) (img s))"
proof (cases "free_blocks s = {}")
  case True
  then have "sfs_block_alloc s = Some (- E_NO_MEM, 0, s)"
    using alloc_word_ok [OF sfs_okD(3) [OF s], of 0]
    by (simp add: sfs_block_alloc_def bitmap_alloc_def free_blocks_def)
  then show ?thesis using True s by (simp add: goes_def)
next
  case False
  let ?b = "LEAST b. b \<in> free_bits (freemap s)"
  from alloc_word_ok [OF sfs_okD(3) [OF s], of 0] False obtain fm where
    fm: "bitmap_alloc (freemap s) = Some (0, Some ?b, fm)" "bm_wf fm" "free_bits fm = free_bits (freemap s) - {?b}"
      "nbits fm = nbits (freemap s)" by (auto simp: bitmap_alloc_def free_blocks_def)
  have b: "?b \<in> free_blocks s" using False by (auto simp: free_blocks_def intro: LeastI)
  then have br: "0 < ?b" "?b < sblocks s" using sfs_okD(5) [OF s] by auto
  let ?s1 = "s\<lparr>freemap := fm, unused_blocks := unused_blocks s - 1, super_dirty := True\<rparr>"
  have u: "0 < unused_blocks s" using False sfs_okD(6,7) [OF s] by (simp add: card_gt_0_iff)
  have ok1: "sfs_ok ?s1"
  proof -
    have "free_blocks ?s1 = free_blocks s - {?b}" using fm(3) by (simp add: free_blocks_def)
    moreover have "card (free_blocks s - {?b}) = unused_blocks s - 1"
      using b sfs_okD(6,7) [OF s] by simp
    ultimately show ?thesis using s fm by (auto simp: sfs_ok_def)
  qed
  have f1: "free_blocks ?s1 = free_blocks s - {?b}" "img ?s1 = img s" using fm(3) by (simp_all add: free_blocks_def img_def)
  have inuse: "sfs_block_inuse ?b ?s1 = Some True" using inuse_ok [OF ok1, of ?b] br f1(1) by simp
  let ?z = "blit 0 SFS_BLKSIZE (\<lambda>_. 0) (sfs_buffer s)"
  let ?s2 = "?s1\<lparr>sfs_buffer := ?z\<rparr>"
  have "sfs_rwblock_nolock ?z ?b True True ?s2 =
      Some (0, ?z, ?s2\<lparr>sdev := (sdev s)\<lparr>image := blit (?b * SFS_BLKSIZE) SFS_BLKSIZE ?z (img s)\<rparr>\<rparr>)"
    using write_block_ok [of ?s2 ?b True ?z] ok1 br by (simp add: img_def)
  moreover have "blit (?b * SFS_BLKSIZE) SFS_BLKSIZE ?z (img s) = blit (?b * SFS_BLKSIZE) SFS_BLKSIZE (\<lambda>_. 0) (img s)"
    by (rule blit_cong) (simp add: blit_def)
  ultimately have "sfs_clear_block ?b 1 ?s1 =
      Some (0, ?s2\<lparr>sdev := (sdev s)\<lparr>image := blit (?b * SFS_BLKSIZE) SFS_BLKSIZE (\<lambda>_. 0) (img s)\<rparr>\<rparr>)"
    by (simp add: sfs_clear_block_def)
  moreover have "goes s (?s2\<lparr>sdev := (sdev s)\<lparr>image := blit (?b * SFS_BLKSIZE) SFS_BLKSIZE (\<lambda>_. 0) (img s)\<rparr>\<rparr>)
      (free_blocks s - {?b}) (blit (?b * SFS_BLKSIZE) SFS_BLKSIZE (\<lambda>_. 0) (img s))"
    using sfs_ok_dev [of ?s2 "blit (?b * SFS_BLKSIZE) SFS_BLKSIZE (\<lambda>_. 0) (img s)"] ok1 f1(1)
    by (simp add: goes_def) (simp add: free_blocks_def)
  ultimately show ?thesis using False b fm(1) u inuse by (auto simp: sfs_block_alloc_def)
qed

lemma block_free_ok:
  assumes s: "sfs_ok s" and b: "0 < b" "b < sblocks s" "b \<notin> free_blocks s"
  shows "\<exists>s'. sfs_block_free b s = Some s' \<and> goes s s' (insert b (free_blocks s)) (img s)"
proof -
  from bitmap_free_ok [OF sfs_okD(3) [OF s] sfs_okD(4) [OF s b(2)]] b(3) obtain fm where
    fm: "bitmap_free (freemap s) b = Some fm" "bm_wf fm" "free_bits fm = insert b (free_bits (freemap s))"
      "nbits fm = nbits (freemap s)" by (auto simp: free_blocks_def)
  let ?s = "s\<lparr>freemap := fm, unused_blocks := unused_blocks s + 1, super_dirty := True\<rparr>"
  have f: "free_blocks ?s = insert b (free_blocks s)" "img ?s = img s" using fm(3) by (simp_all add: free_blocks_def img_def)
  have "sfs_ok ?s" using s fm b f sfs_okD(6,7) [OF s] by (auto simp: sfs_ok_def)
  then have "goes s ?s (insert b (free_blocks s)) (img s)" using f by (simp add: goes_def)
  moreover have "sfs_block_free b s = Some ?s" using inuse_ok [OF s b(1,2)] b(3) fm(1) by (simp add: sfs_block_free_def)
  ultimately show ?thesis by blast
qed

end
