(* ===== verification/Sfs_Map.thy ===== *)
theory Sfs_Map
  imports Sfs_Bmap
begin

text \<open>
  The block map of a file, seen from outside: \<open>bno\<close> is the disk block of a file block, \<open>file_ok\<close> the
  invariant of an inode, \<open>fc\<close> the contents of the file.  \<open>fs_step\<close> is what every operation on a file
  keeps: the disk and the inode stay sound, blocks only move between the file and the free map, and
  no block of anybody else is touched.
\<close>

subsection \<open>Blocks of the image\<close>

lemma block_div [simp]: "k < SFS_BLKSIZE \<Longrightarrow> (b * SFS_BLKSIZE + k) div SFS_BLKSIZE = b"
  by simp

lemma block_mod [simp]: "k < SFS_BLKSIZE \<Longrightarrow> (b * SFS_BLKSIZE + k) mod SFS_BLKSIZE = k"
  by simp

lemma in_blockD:
  assumes "b * SFS_BLKSIZE + off \<le> x" "x < b * SFS_BLKSIZE + off + n" "off + n \<le> SFS_BLKSIZE"
  shows "x div SFS_BLKSIZE = b" "x mod SFS_BLKSIZE = x - b * SFS_BLKSIZE"
proof -
  obtain k where k: "x = b * SFS_BLKSIZE + k" "k < SFS_BLKSIZE"
    using assms by (metis add.assoc add_leD1 add_less_cancel_left le_Suc_ex less_le_trans)
  then show "x div SFS_BLKSIZE = b" "x mod SFS_BLKSIZE = x - b * SFS_BLKSIZE" by simp_all
qed

lemma blit_outside:
  "off + n \<le> SFS_BLKSIZE \<Longrightarrow> x div SFS_BLKSIZE \<noteq> b \<Longrightarrow> blit (b * SFS_BLKSIZE + off) n d I x = I x"
  using in_blockD(1) [of b off x n] by (auto simp: blit_def)

lemma blit_in_block:
  assumes "off + n \<le> SFS_BLKSIZE" "k < SFS_BLKSIZE"
  shows "blit (b * SFS_BLKSIZE + off) n d I (b * SFS_BLKSIZE + k) =
    (if off \<le> k \<and> k < off + n then d (k - off) else I (b * SFS_BLKSIZE + k))"
  by (simp add: blit_def)

subsection \<open>Entries\<close>

lemma dec_enc32: "n < 2 ^ 32 \<Longrightarrow> dec32 (enc32 n) = n"
proof -
  assume n: "n < 2 ^ 32"
  have u: "unat (of_nat k :: u8) = k mod 256" for k by (simp add: unsigned_of_nat take_bit_eq_mod)
  obtain a b c where abc: "a = n div 256" "b = a div 256" "c = b div 256" by blast
  have e: "enc32 n 0 = of_nat n" "enc32 n 1 = of_nat a" "enc32 n 2 = of_nat b" "enc32 n 3 = of_nat c"
    by (simp_all add: enc32_def abc div_mult2_eq [symmetric])
  have "c = n div 2 ^ 24" by (simp add: abc div_mult2_eq [symmetric])
  then have "c mod 256 = c" using n by (simp add: div_less_iff_less_mult)
  then have "b mod 256 + 256 * (c mod 256) = b" by (simp add: abc)
  then have "a mod 256 + 256 * (b mod 256 + 256 * (c mod 256)) = a" by (simp add: abc)
  then show ?thesis unfolding dec32_def e u by (simp add: abc)
qed

lemma dec32_cong: "(\<And>k. k < 4 \<Longrightarrow> f k = g k) \<Longrightarrow> dec32 f = dec32 g"
  by (simp add: dec32_def)

lemma dec32_zero: "(\<And>k. k < 4 \<Longrightarrow> f k = 0) \<Longrightarrow> dec32 f = 0"
  by (simp add: dec32_def)

lemma dec32_blit [simp]: "dec32 (blit 0 4 f g) = dec32 f"
  by (rule dec32_cong) (simp add: blit_def)

definition MAX_BLOCKS :: nat where "MAX_BLOCKS = SFS_NDIRECT + SFS_BLK_NENTRY"

lemma entry_in_block:
  assumes "\<not> i < SFS_NDIRECT" "i < MAX_BLOCKS"
  shows "i - SFS_NDIRECT < SFS_BLK_NENTRY" "(i - SFS_NDIRECT) * 4 < SFS_BLKSIZE" "(i - SFS_NDIRECT) * 4 + 4 \<le> SFS_BLKSIZE"
  using assms by (auto simp: MAX_BLOCKS_def SFS_BLK_NENTRY_def SFS_BLKSIZE_def)

definition entry :: "bytes \<Rightarrow> nat \<Rightarrow> nat \<Rightarrow> nat" where
  "entry I e i = dec32 (\<lambda>k. I (e * SFS_BLKSIZE + (i - SFS_NDIRECT) * 4 + k))"

definition bno :: "bytes \<Rightarrow> disk_inode \<Rightarrow> nat \<Rightarrow> nat" where
  "bno I d i = (if i < SFS_NDIRECT then direct d ! i else if indirect d = 0 then 0 else entry I (indirect d) i)"

lemma entry_cong:
  assumes "\<not> i < SFS_NDIRECT" "i < MAX_BLOCKS" "\<And>x. x div SFS_BLKSIZE = e \<Longrightarrow> J x = I x"
  shows "entry J e i = entry I e i"
  unfolding entry_def
proof (rule dec32_cong)
  fix k :: nat assume "k < 4"
  then have "(i - SFS_NDIRECT) * 4 + k < SFS_BLKSIZE" using entry_in_block(3) [OF assms(1,2)] by linarith
  from block_div [OF this, of e] show "J (e * SFS_BLKSIZE + (i - SFS_NDIRECT) * 4 + k) = I (e * SFS_BLKSIZE + (i - SFS_NDIRECT) * 4 + k)"
    using assms(3) by (simp add: add.assoc)
qed

lemma bno_cong:
  assumes "i < MAX_BLOCKS" "\<And>x. indirect d \<noteq> 0 \<Longrightarrow> x div SFS_BLKSIZE = indirect d \<Longrightarrow> J x = I x"
  shows "bno J d i = bno I d i"
  using entry_cong [of i "indirect d" J I] assms by (auto simp: bno_def)

lemma entry_blit:
  assumes "\<not> i < SFS_NDIRECT" "i < MAX_BLOCKS" "\<not> j < SFS_NDIRECT" "j < MAX_BLOCKS" "n < 2 ^ 32"
  shows "entry (blit (e * SFS_BLKSIZE + (i - SFS_NDIRECT) * 4) 4 (enc32 n) I) e j = (if j = i then n else entry I e j)"
proof (cases "j = i")
  case True
  have "dec32 (\<lambda>k. blit (e * SFS_BLKSIZE + (i - SFS_NDIRECT) * 4) 4 (enc32 n) I (e * SFS_BLKSIZE + (i - SFS_NDIRECT) * 4 + k)) = dec32 (enc32 n)"
    by (rule dec32_cong) (simp add: blit_def)
  then show ?thesis using True assms(5) by (simp add: entry_def dec_enc32)
next
  case False
  obtain p q where pq: "p = i - SFS_NDIRECT" "q = j - SFS_NDIRECT" by blast
  have "p \<noteq> q" using False assms(1,3) pq by linarith
  have "blit (e * SFS_BLKSIZE + p * 4) 4 (enc32 n) I (e * SFS_BLKSIZE + q * 4 + k) = I (e * SFS_BLKSIZE + q * 4 + k)" if "k < 4" for k
    using that \<open>p \<noteq> q\<close> by (cases "p < q") (auto simp: blit_def)
  then show ?thesis using False pq by (auto simp: entry_def intro!: dec32_cong)
qed

subsection \<open>The invariant\<close>

definition own :: "bytes \<Rightarrow> disk_inode \<Rightarrow> nat set" where
  "own I d = bno I d ` {..<iblocks d} \<union> (if indirect d = 0 then {} else {indirect d})"

definition file_ok :: "sfs \<Rightarrow> disk_inode \<Rightarrow> bool" where
  "file_ok s d \<longleftrightarrow> length (direct d) = SFS_NDIRECT \<and> iblocks d \<le> MAX_BLOCKS \<and>
     own (img s) d \<subseteq> {0<..<sblocks s} - free_blocks s \<and>
     inj_on (bno (img s) d) {..<iblocks d} \<and> indirect d \<notin> bno (img s) d ` {..<iblocks d} \<and>
     (\<forall>i < MAX_BLOCKS. iblocks d \<le> i \<longrightarrow> bno (img s) d i = 0)"

text \<open>The contents: the bytes of the blocks, and zeros behind them.\<close>

definition fc :: "sfs \<Rightarrow> disk_inode \<Rightarrow> bytes" where
  "fc s d = (\<lambda>x. if x div SFS_BLKSIZE < iblocks d
     then img s (bno (img s) d (x div SFS_BLKSIZE) * SFS_BLKSIZE + x mod SFS_BLKSIZE) else 0)"

text \<open>Free blocks enough to extend the file to k blocks.\<close>

definition room :: "sfs \<Rightarrow> disk_inode \<Rightarrow> nat \<Rightarrow> bool" where
  "room s d k \<longleftrightarrow> (k - iblocks d) + (if SFS_NDIRECT < k \<and> indirect d = 0 then 1 else 0) \<le> card (free_blocks s)"

definition fs_step :: "sfs \<Rightarrow> disk_inode \<Rightarrow> sfs \<Rightarrow> disk_inode \<Rightarrow> bool" where
  "fs_step s d s' d' \<longleftrightarrow> sfs_ok s' \<and> file_ok s' d' \<and> sblocks s' = sblocks s \<and>
     free_blocks s' \<union> own (img s') d' = free_blocks s \<union> own (img s) d \<and>
     (\<forall>x. x div SFS_BLKSIZE \<notin> free_blocks s \<union> own (img s) d \<longrightarrow> img s' x = img s x)"

lemma fs_step_refl: "sfs_ok s \<Longrightarrow> file_ok s d \<Longrightarrow> fs_step s d s d"
  by (simp add: fs_step_def)

lemma fs_step_trans: "fs_step s d s1 d1 \<Longrightarrow> fs_step s1 d1 s2 d2 \<Longrightarrow> fs_step s d s2 d2"
  by (simp add: fs_step_def)

lemma file_okD:
  assumes "file_ok s d"
  shows "length (direct d) = SFS_NDIRECT" "iblocks d \<le> MAX_BLOCKS"
    "i < iblocks d \<Longrightarrow> 0 < bno (img s) d i" "i < iblocks d \<Longrightarrow> bno (img s) d i < sblocks s"
    "i < iblocks d \<Longrightarrow> bno (img s) d i \<notin> free_blocks s" "i < iblocks d \<Longrightarrow> bno (img s) d i \<noteq> indirect d"
    "i < iblocks d \<Longrightarrow> j < iblocks d \<Longrightarrow> bno (img s) d i = bno (img s) d j \<longleftrightarrow> i = j"
    "iblocks d \<le> i \<Longrightarrow> i < MAX_BLOCKS \<Longrightarrow> bno (img s) d i = 0"
    "indirect d \<noteq> 0 \<Longrightarrow> indirect d < sblocks s" "indirect d \<noteq> 0 \<Longrightarrow> indirect d \<notin> free_blocks s"
proof -
  show "i < iblocks d \<Longrightarrow> bno (img s) d i \<noteq> indirect d"
    using assms by (force simp: file_ok_def)
qed (use assms in \<open>auto simp: file_ok_def own_def inj_on_def split: if_splits\<close>)

lemma file_okI:
  assumes "length (direct d) = SFS_NDIRECT" "iblocks d \<le> MAX_BLOCKS"
    "\<And>i. i < iblocks d \<Longrightarrow> 0 < bno (img s) d i \<and> bno (img s) d i < sblocks s \<and> bno (img s) d i \<notin> free_blocks s \<and> bno (img s) d i \<noteq> indirect d"
    "\<And>i j. i < iblocks d \<Longrightarrow> j < iblocks d \<Longrightarrow> bno (img s) d i = bno (img s) d j \<Longrightarrow> i = j"
    "\<And>i. iblocks d \<le> i \<Longrightarrow> i < MAX_BLOCKS \<Longrightarrow> bno (img s) d i = 0"
    "indirect d \<noteq> 0 \<Longrightarrow> indirect d < sblocks s \<and> indirect d \<notin> free_blocks s"
  shows "file_ok s d"
  unfolding file_ok_def
proof (intro conjI)
  show "own (img s) d \<subseteq> {0<..<sblocks s} - free_blocks s" using assms(3,6) by (auto simp: own_def split: if_splits)
  show "inj_on (bno (img s) d) {..<iblocks d}" using assms(4) by (auto simp: inj_on_def)
  show "indirect d \<notin> bno (img s) d ` {..<iblocks d}" using assms(3) by (force simp: image_iff)
qed (use assms(1,2,5) in auto)

subsection \<open>Loading a block\<close>

lemma bno_nz_indirect:
  assumes "file_ok s d" "i < iblocks d" "\<not> i < SFS_NDIRECT"
  shows "indirect d \<noteq> 0"
  using file_okD(3) [OF assms(1,2)] assms(3) by (cases "indirect d = 0") (auto simp: bno_def)

lemma read_entry:
  assumes s: "sfs_ok s" and f: "file_ok s d" and i: "\<not> i < SFS_NDIRECT" "i < MAX_BLOCKS" "indirect d \<noteq> 0"
  shows "\<exists>b s'. sfs_rbuf (enc32 0) 4 (indirect d) ((i - SFS_NDIRECT) * 4) s = Some (0, b, s') \<and>
    dec32 b = bno (img s) d i \<and> goes s s' (free_blocks s) (img s)"
proof -
  from rbuf_ok [OF s _ file_okD(9) [OF f i(3)] entry_in_block(2,3) [OF i(1,2)], of "enc32 0"] i(3) obtain s' where
    r: "sfs_rbuf (enc32 0) 4 (indirect d) ((i - SFS_NDIRECT) * 4) s = Some (0, blit 0 4
      (\<lambda>k. img s (indirect d * SFS_BLKSIZE + (i - SFS_NDIRECT) * 4 + k)) (enc32 0), s')" "goes s s' (free_blocks s) (img s)"
    by blast
  moreover have "dec32 (blit 0 4 (\<lambda>k. img s (indirect d * SFS_BLKSIZE + (i - SFS_NDIRECT) * 4 + k)) (enc32 0)) = bno (img s) d i"
    using i by (simp add: bno_def entry_def)
  ultimately show ?thesis by blast
qed

lemma file_ok_cong:
  assumes "file_ok s d" "img s' = img s" "free_blocks s' = free_blocks s" "sblocks s' = sblocks s"
  shows "file_ok s' d"
  using assms by (simp add: file_ok_def)

lemma goes_same:
  assumes "goes s s' (free_blocks s) (img s)" "file_ok s d"
  shows "fs_step s d s' d" "fc s' d = fc s d" "room s' d k = room s d k" "img s' = img s" "sfs_ok s'" "file_ok s' d"
    "sblocks s' = sblocks s" "free_blocks s' = free_blocks s"
  using assms file_ok_cong [OF assms(2), of s'] by (simp_all add: goes_def fs_step_def fc_def room_def cong: if_cong)

lemma get_old:
  assumes s: "sfs_ok s" and f: "file_ok s (din sin)" and i: "i < iblocks (din sin)"
  shows "\<exists>s'. sfs_bmap_get_nolock sin i False s = Some (0, bno (img s) (din sin) i, sin, s') \<and>
    goes s s' (free_blocks s) (img s)"
proof -
  let ?b = "bno (img s) (din sin) i"
  note b = file_okD(3,4,5) [OF f i]
  have out: "bmap_out ?b sin s' = Some (0, ?b, sin, s')" if "goes s s' (free_blocks s) (img s)" for s'
    using inuse_ok [OF goes_same(5) [OF that f], of ?b] b that by (simp add: bmap_out_def goes_def)
  have im: "i < MAX_BLOCKS" using i file_okD(2) [OF f] by simp
  show ?thesis
  proof (cases "i < SFS_NDIRECT")
    case True
    then have "sfs_bmap_get_nolock sin i False s = bmap_out ?b sin s"
      by (simp add: sfs_bmap_get_nolock_def bno_def)
    then show ?thesis using out [of s] s by (simp add: goes_def)
  next
    case False
    note ind = bno_nz_indirect [OF f i False]
    from read_entry [OF s f False im ind] obtain b s' where
      r: "sfs_rbuf (enc32 0) 4 (indirect (din sin)) ((i - SFS_NDIRECT) * 4) s = Some (0, b, s')" "dec32 b = ?b"
        "goes s s' (free_blocks s) (img s)" by blast
    have "sfs_bmap_get_nolock sin i False s = bmap_out ?b sin s'"
      using False ind r(1,2) entry_in_block(1) [OF False im]
      by (simp add: sfs_bmap_get_nolock_def sfs_bmap_get_sub_nolock_def)
    then show ?thesis using out r(3) by auto
  qed
qed

lemma load_old:
  assumes "sfs_ok s" "file_ok s (din sin)" "i < iblocks (din sin)"
  shows "\<exists>s'. sfs_bmap_load_nolock sin i s = Some (0, bno (img s) (din sin) i, sin, s') \<and>
    goes s s' (free_blocks s) (img s)"
proof -
  from get_old [OF assms] obtain s' where
    g: "sfs_bmap_get_nolock sin i False s = Some (0, bno (img s) (din sin) i, sin, s')"
      "goes s s' (free_blocks s) (img s)" by blast
  have "sfs_block_inuse (bno (img s) (din sin) i) s' = Some True"
    using inuse_ok [OF goes_same(5) [OF g(2) assms(2)]] file_okD(3,4,5) [OF assms(2,3)] g(2) by (simp add: goes_def)
  then show ?thesis using g assms(3) by (simp add: sfs_bmap_load_nolock_def)
qed

subsection \<open>Extending a file\<close>

text \<open>What a new block leads to, whatever way it was entered.\<close>

lemma extend_ok:
  assumes f: "file_ok s d" and i: "i = iblocks d" "i < MAX_BLOCKS" and b: "b \<in> free_blocks s"
    and s: "sfs_ok s" "sfs_ok s'" "sblocks s' = sblocks s"
    and F: "free_blocks s' = free_blocks s - {b} - {indirect d'}"
    and d': "length (direct d') = SFS_NDIRECT" "iblocks d' = Suc i"
      "indirect d' = indirect d \<or> indirect d = 0 \<and> indirect d' \<in> free_blocks s \<and> indirect d' \<noteq> b"
    and n: "\<And>j. j < MAX_BLOCKS \<Longrightarrow> bno (img s') d' j = (if j = i then b else bno (img s) d j)"
    and I: "\<And>x. x div SFS_BLKSIZE \<noteq> b \<Longrightarrow> indirect d' = 0 \<or> x div SFS_BLKSIZE \<noteq> indirect d' \<Longrightarrow> img s' x = img s x"
      "\<And>x. x div SFS_BLKSIZE = b \<Longrightarrow> img s' x = 0"
  shows "fs_step s d s' d'" "fc s' d' = fc s d" "bno (img s') d' i = b"
proof -
  note fd = file_okD [OF f]
  note fs = sfs_okD(5) [OF s(1)]
  have br: "0 < b" "b < sblocks s" using fs b by auto
  have old: "bno (img s') d' j = bno (img s) d j" if "j < i" for j using n [of j] that i by simp
  show new: "bno (img s') d' i = b" using n [of i] i by simp
  have indb: "indirect d' \<noteq> b" using d'(3) fd(10) b br by fastforce
  have indj: "bno (img s) d j \<noteq> indirect d'" if "j < i" for j using d'(3) fd(5,6) [of j] that i by auto
  show step: "fs_step s d s' d'"
    unfolding fs_step_def
  proof (intro conjI)
    show "file_ok s' d'"
    proof (rule file_okI)
      fix j assume "j < iblocks d'"
      then consider "j = i" | "j < i" using d'(2) by linarith
      then show "0 < bno (img s') d' j \<and> bno (img s') d' j < sblocks s' \<and> bno (img s') d' j \<notin> free_blocks s' \<and> bno (img s') d' j \<noteq> indirect d'"
        by cases (use new br indb indj old s(3) F fd(3,4,5) [of j] i in auto)
    next
      fix j k assume jk: "j < iblocks d'" "k < iblocks d'" "bno (img s') d' j = bno (img s') d' k"
      have ne: "bno (img s) d l \<noteq> b" if "l < i" for l using fd(5) [of l] b that i by auto
      consider "j = i" "k = i" | "j < i" "k = i" | "j = i" "k < i" | "j < i" "k < i" using jk d'(2) by linarith
      then show "j = k" by cases (use jk(3) old new ne fd(7) [of j k] i in auto)
    next
      fix j assume "iblocks d' \<le> j" "j < MAX_BLOCKS"
      then show "bno (img s') d' j = 0" using n [of j] fd(8) [of j] d'(2) i by simp
    next
      assume "indirect d' \<noteq> 0"
      then show "indirect d' < sblocks s' \<and> indirect d' \<notin> free_blocks s'"
        using d'(3) fd(9) fs s(3) F by auto
    qed (use d'(1,2) i in auto)
    have "bno (img s') d' ` {..<iblocks d'} = insert b (bno (img s) d ` {..<iblocks d})"
      using old new d'(2) i by (auto simp: lessThan_Suc)
    then show "free_blocks s' \<union> own (img s') d' = free_blocks s \<union> own (img s) d"
      using F b d'(3) br fs by (fastforce simp: own_def split: if_splits)
    show "\<forall>x. x div SFS_BLKSIZE \<notin> free_blocks s \<union> own (img s) d \<longrightarrow> img s' x = img s x"
    proof (intro allI impI)
      fix x assume "x div SFS_BLKSIZE \<notin> free_blocks s \<union> own (img s) d"
      then show "img s' x = img s x" using b d'(3) by (intro I(1)) (auto simp: own_def split: if_splits)
    qed
  qed (use s in auto)
  show "fc s' d' = fc s d"
  proof
    fix x
    let ?j = "x div SFS_BLKSIZE"
    have m: "x mod SFS_BLKSIZE < SFS_BLKSIZE" by simp
    consider "?j < i" | "?j = i" | "i < ?j" by linarith
    then show "fc s' d' x = fc s d x"
    proof cases
      case 1
      have "img s' (bno (img s) d ?j * SFS_BLKSIZE + x mod SFS_BLKSIZE) = img s (bno (img s) d ?j * SFS_BLKSIZE + x mod SFS_BLKSIZE)"
        using I(1) [of "bno (img s) d ?j * SFS_BLKSIZE + x mod SFS_BLKSIZE"] block_div [OF m] indj [OF 1] fd(5) [of ?j] 1 i b by auto
      then show ?thesis using 1 old d'(2) i by (simp add: fc_def)
    next
      case 2
      then show ?thesis using new I(2) [OF block_div [OF m]] d'(2) i by (simp add: fc_def)
    qed (use d'(2) i in \<open>simp_all add: fc_def\<close>)
  qed
qed

lemma enter_ok:
  assumes s: "sfs_ok s" and e: "0 < ent" "ent < sblocks s" "ent \<notin> free_blocks s"
    and i: "\<not> i < SFS_NDIRECT" "i < MAX_BLOCKS"
  shows "if free_blocks s = {}
    then \<exists>s'. bmap_enter entp ent (i - SFS_NDIRECT) s = bmap_cleanup (- E_NO_MEM) entp ent s' \<and> goes s s' {} (img s)
    else \<exists>b s'. b \<in> free_blocks s \<and> bmap_enter entp ent (i - SFS_NDIRECT) s = Some (0, ent, b, s') \<and>
      goes s s' (free_blocks s - {b}) (blit (ent * SFS_BLKSIZE + (i - SFS_NDIRECT) * 4) 4 (enc32 b)
        (blit (b * SFS_BLKSIZE) SFS_BLKSIZE (\<lambda>_. 0) (img s)))"
proof (cases "free_blocks s = {}")
  case True
  then show ?thesis using block_alloc_ok [OF s] by (auto simp: bmap_enter_def)
next
  case False
  with block_alloc_ok [OF s] obtain b s1 where
    a: "b \<in> free_blocks s" "sfs_block_alloc s = Some (0, b, s1)"
      "goes s s1 (free_blocks s - {b}) (blit (b * SFS_BLKSIZE) SFS_BLKSIZE (\<lambda>_. 0) (img s))"
    by auto
  from a(3) have s1: "sfs_ok s1" "ent < sblocks s1" "free_blocks s1 = free_blocks s - {b}"
      "img s1 = blit (b * SFS_BLKSIZE) SFS_BLKSIZE (\<lambda>_. 0) (img s)" using e by (simp_all add: goes_def)
  from wbuf_ok [OF s1(1) e(1) s1(2) entry_in_block(2,3) [OF i], of "enc32 b"] obtain s2 where
    w: "sfs_wbuf (enc32 b) 4 ent ((i - SFS_NDIRECT) * 4) s1 = Some (0, s2)"
      "goes s1 s2 (free_blocks s - {b}) (blit (ent * SFS_BLKSIZE + (i - SFS_NDIRECT) * 4) 4 (enc32 b)
        (blit (b * SFS_BLKSIZE) SFS_BLKSIZE (\<lambda>_. 0) (img s)))"
    unfolding s1(3,4) by blast
  have "bmap_enter entp ent (i - SFS_NDIRECT) s = Some (0, ent, b, s2)"
    using a(2) w(1) by (simp add: bmap_enter_def)
  then show ?thesis using False a(1) goes_trans [OF a(3) w(2)] by auto
qed

definition same_file :: "sfs_inode \<Rightarrow> sfs_inode \<Rightarrow> bool" where
  "same_file sin sin' \<longleftrightarrow> isize (din sin') = isize (din sin) \<and> itype (din sin') = itype (din sin) \<and>
     nlinks (din sin') = nlinks (din sin) \<and> ino sin' = ino sin \<and> reclaim_count sin' = reclaim_count sin"

definition loaded :: "sfs \<Rightarrow> sfs_inode \<Rightarrow> nat \<Rightarrow> int \<Rightarrow> nat \<Rightarrow> sfs_inode \<Rightarrow> sfs \<Rightarrow> bool" where
  "loaded s sin i ret b sin' s' \<longleftrightarrow>
     fs_step s (din sin) s' (din sin') \<and> fc s' (din sin') = fc s (din sin) \<and> same_file sin sin' \<and>
     (ret = 0 \<and> b = bno (img s') (din sin') i \<and> iblocks (din sin') = max (iblocks (din sin)) (Suc i) \<and>
        (\<forall>k > i. room s' (din sin') k \<longleftrightarrow> room s (din sin) k) \<or>
      ret = - E_NO_MEM \<and> sin' = sin \<and> \<not> room s (din sin) (Suc i) \<and> i = iblocks (din sin))"

lemma load_finish:
  assumes g: "sfs_bmap_get_nolock sin i True s = Some (0, b, sin1, s1)" and i: "i = iblocks (din sin)"
    and s: "sfs_ok s1" "0 < b" "b < sblocks s1" "b \<notin> free_blocks s1"
  shows "sfs_bmap_load_nolock sin i s = Some (0, b, upd_din (\<lambda>d. d\<lparr>iblocks := iblocks d + 1\<rparr>) sin1, s1)"
  using g i inuse_ok [OF s(1-3)] s(4) by (simp add: sfs_bmap_load_nolock_def)

lemma load_fail:
  assumes "sfs_bmap_get_nolock sin i True s = Some (- E_NO_MEM, 0, sin, s1)" "i = iblocks (din sin)"
  shows "sfs_bmap_load_nolock sin i s = Some (- E_NO_MEM, 0, sin, s1)"
  using assms by (simp add: sfs_bmap_load_nolock_def)

lemma unchanged_ok:
  assumes f: "file_ok s d" and s: "sfs_ok s" "sfs_ok s'" "sblocks s' = sblocks s" "free_blocks s' = free_blocks s"
    and I: "\<And>x. x div SFS_BLKSIZE \<notin> free_blocks s \<Longrightarrow> img s' x = img s x"
  shows "fs_step s d s' d" "fc s' d = fc s d"
proof -
  note fd = file_okD [OF f]
  have n: "bno (img s') d j = bno (img s) d j" if "j < MAX_BLOCKS" for j
    using bno_cong [OF that, of d "img s'" "img s"] I fd(10) by auto
  then have n': "bno (img s') d j = bno (img s) d j" if "j < iblocks d" for j using that fd(2) by simp
  have f': "file_ok s' d" using fd n n' s by (intro file_okI) simp_all
  have o: "own (img s') d = own (img s) d" using n' by (auto simp: own_def)
  show "fs_step s d s' d" using f' s o I by (simp add: fs_step_def)
  show "fc s' d = fc s d"
  proof
    fix x
    let ?j = "x div SFS_BLKSIZE"
    have m: "x mod SFS_BLKSIZE < SFS_BLKSIZE" by simp
    have "img s' (bno (img s) d ?j * SFS_BLKSIZE + x mod SFS_BLKSIZE) = img s (bno (img s) d ?j * SFS_BLKSIZE + x mod SFS_BLKSIZE)"
      if "?j < iblocks d" using I [of "bno (img s) d ?j * SFS_BLKSIZE + x mod SFS_BLKSIZE"] block_div [OF m] fd(5) [OF that] by simp
    then show "fc s' d x = fc s d x" using n' by (simp add: fc_def)
  qed
qed

lemma room_extend:
  assumes "finite (free_blocks s)" "b \<in> free_blocks s" "i = iblocks d" "iblocks d' = Suc i" "i < k"
    "free_blocks s' = free_blocks s - {b} - {indirect d'}"
    "indirect d' = indirect d \<and> (indirect d = 0 \<or> indirect d \<notin> free_blocks s) \<and> 0 \<notin> free_blocks s \<or>
     indirect d = 0 \<and> indirect d' \<in> free_blocks s \<and> indirect d' \<noteq> b \<and> indirect d' \<noteq> 0 \<and> SFS_NDIRECT \<le> i"
  shows "room s' d' k \<longleftrightarrow> room s d k"
proof (cases "indirect d' = indirect d")
  case True
  then have "free_blocks s' = free_blocks s - {b}" using assms(6,7) by (cases "indirect d = 0") auto
  then have "card (free_blocks s) = Suc (card (free_blocks s'))" using card_Suc_Diff1 [OF assms(1,2)] by simp
  moreover have "k - iblocks d = Suc (k - Suc (iblocks d))" using assms(3,5) by simp
  ultimately show ?thesis using True assms(3-5) by (auto simp: room_def)
next
  case False
  then have i: "indirect d' \<in> free_blocks s - {b}" "indirect d = 0" "indirect d' \<noteq> 0" "SFS_NDIRECT \<le> i" using assms(7) by auto
  have "card (free_blocks s) = Suc (card (free_blocks s - {b}))" using card_Suc_Diff1 [OF assms(1,2)] by simp
  also have "card (free_blocks s - {b}) = Suc (card (free_blocks s'))"
    unfolding assms(6) using card_Suc_Diff1 [of "free_blocks s - {b}", OF _ i(1)] assms(1) by simp
  finally have "card (free_blocks s) = Suc (Suc (card (free_blocks s')))" .
  moreover have "k - iblocks d = Suc (k - Suc (iblocks d))" using assms(3,5) by simp
  ultimately show ?thesis using i assms(3-5) by (auto simp: room_def)
qed

lemma loadedI_new:
  assumes f: "file_ok s (din sin)" and i: "i = iblocks (din sin)" "i < MAX_BLOCKS" and b: "b \<in> free_blocks s"
    and s: "sfs_ok s" "sfs_ok s'" "sblocks s' = sblocks s"
    and F: "free_blocks s' = free_blocks s - {b} - {indirect (din sin')}"
    and d': "length (direct (din sin')) = SFS_NDIRECT" "iblocks (din sin') = Suc i" "same_file sin sin'"
      "indirect (din sin') = indirect (din sin) \<or>
       indirect (din sin) = 0 \<and> indirect (din sin') \<in> free_blocks s \<and> indirect (din sin') \<noteq> b \<and> SFS_NDIRECT \<le> i"
    and n: "\<And>j. j < MAX_BLOCKS \<Longrightarrow> bno (img s') (din sin') j = (if j = i then b else bno (img s) (din sin) j)"
    and I: "\<And>x. x div SFS_BLKSIZE \<noteq> b \<Longrightarrow> indirect (din sin') = 0 \<or> x div SFS_BLKSIZE \<noteq> indirect (din sin') \<Longrightarrow> img s' x = img s x"
      "\<And>x. x div SFS_BLKSIZE = b \<Longrightarrow> img s' x = 0"
  shows "loaded s sin i 0 b sin' s'"
proof -
  have ind: "indirect (din sin') = indirect (din sin) \<or>
       indirect (din sin) = 0 \<and> indirect (din sin') \<in> free_blocks s \<and> indirect (din sin') \<noteq> b" using d'(4) by auto
  note e = extend_ok [OF f i b s F d'(1,2) ind n I]
  have r: "room s' (din sin') k \<longleftrightarrow> room s (din sin) k" if k: "i < k" for k
  proof (rule room_extend [OF sfs_okD(6) [OF s(1)] b i(1) d'(2) k F])
    have "0 \<notin> free_blocks s" using sfs_okD(5) [OF s(1)] by auto
    then show "indirect (din sin') = indirect (din sin) \<and> (indirect (din sin) = 0 \<or> indirect (din sin) \<notin> free_blocks s) \<and> 0 \<notin> free_blocks s \<or>
       indirect (din sin) = 0 \<and> indirect (din sin') \<in> free_blocks s \<and> indirect (din sin') \<noteq> b \<and> indirect (din sin') \<noteq> 0 \<and> SFS_NDIRECT \<le> i"
      using d'(4) file_okD(10) [OF f] by metis
  qed
  show ?thesis unfolding loaded_def using e d'(2,3) i r by simp
qed

lemma alloc_br:
  assumes "sfs_ok s" "b \<in> free_blocks s"
  shows "0 < b" "b < sblocks s" "b < 2 ^ 32"
  using sfs_okD(5,8) [OF assms(1)] assms(2) by auto

lemma blit_whole: "blit (b * SFS_BLKSIZE) SFS_BLKSIZE d I x = (if x div SFS_BLKSIZE = b then d (x - b * SFS_BLKSIZE) else I x)"
proof (cases "x div SFS_BLKSIZE = b")
  case True
  have "x = b * SFS_BLKSIZE + x mod SFS_BLKSIZE" using True by (metis div_mult_mod_eq)
  moreover have "x mod SFS_BLKSIZE < SFS_BLKSIZE" by simp
  ultimately have "b * SFS_BLKSIZE \<le> x" "x < b * SFS_BLKSIZE + SFS_BLKSIZE" by linarith+
  then show ?thesis using True by (simp add: blit_def)
next
  case False
  then show ?thesis using blit_outside [of 0 SFS_BLKSIZE x b d I] by simp
qed

lemma load_direct:
  assumes s: "sfs_ok s" and f: "file_ok s (din sin)" and i: "i = iblocks (din sin)" "i < SFS_NDIRECT"
  shows "\<exists>ret b sin' s'. sfs_bmap_load_nolock sin i s = Some (ret, b, sin', s') \<and> loaded s sin i ret b sin' s'"
proof -
  note fd = file_okD [OF f]
  have im: "i < MAX_BLOCKS" using i by (simp add: MAX_BLOCKS_def)
  have z: "direct (din sin) ! i = 0" using fd(8) [of i] i im by (simp add: bno_def)
  show ?thesis
  proof (cases "free_blocks s = {}")
    case True
    with block_alloc_ok [OF s] obtain s1 where a: "sfs_block_alloc s = Some (- E_NO_MEM, 0, s1)" "goes s s1 {} (img s)" by auto
    have "sfs_bmap_get_nolock sin i True s = Some (- E_NO_MEM, 0, sin, s1)"
      using z i a(1) by (simp add: sfs_bmap_get_nolock_def)
    from load_fail [OF this i(1)] have "sfs_bmap_load_nolock sin i s = Some (- E_NO_MEM, 0, sin, s1)" .
    moreover have "loaded s sin i (- E_NO_MEM) 0 sin s1"
      using goes_same(1,2) [OF a(2) [folded True] f] True i by (simp add: loaded_def same_file_def room_def)
    ultimately show ?thesis by blast
  next
    case False
    with block_alloc_ok [OF s] obtain b s1 where
      a: "b \<in> free_blocks s" "sfs_block_alloc s = Some (0, b, s1)"
        "goes s s1 (free_blocks s - {b}) (blit (b * SFS_BLKSIZE) SFS_BLKSIZE (\<lambda>_. 0) (img s))" by auto
    then have s1: "sfs_ok s1" "sblocks s1 = sblocks s" "free_blocks s1 = free_blocks s - {b}"
      "img s1 = blit (b * SFS_BLKSIZE) SFS_BLKSIZE (\<lambda>_. 0) (img s)" by (simp_all add: goes_def)
    note br = alloc_br [OF s a(1)]
    let ?sin1 = "upd_din (\<lambda>d. d\<lparr>direct := (direct d)[i := b]\<rparr>) sin\<lparr>dirty := True\<rparr>"
    have "sfs_bmap_get_nolock sin i True s = bmap_out b ?sin1 s1"
      using z i a(2) by (simp add: sfs_bmap_get_nolock_def)
    also have "\<dots> = Some (0, b, ?sin1, s1)" using inuse_ok [OF s1(1), of b] br s1 by (simp add: bmap_out_def)
    finally have g: "sfs_bmap_get_nolock sin i True s = Some (0, b, ?sin1, s1)" .
    let ?sin2 = "upd_din (\<lambda>d. d\<lparr>iblocks := iblocks d + 1\<rparr>) ?sin1"
    have "sfs_bmap_load_nolock sin i s = Some (0, b, ?sin2, s1)"
      by (rule load_finish [OF g i(1) s1(1)]) (use br s1 in auto)
    moreover have "loaded s sin i 0 b ?sin2 s1"
    proof (rule loadedI_new [OF f i(1) im a(1) s s1(1,2)])
      have ib: "indirect (din sin) \<noteq> b" using fd(10) a(1) br(1) by fastforce
      have o: "img s1 x = img s x" if "x div SFS_BLKSIZE \<noteq> b" for x using s1(4) that by (simp add: blit_whole)
      show "free_blocks s1 = free_blocks s - {b} - {indirect (din ?sin2)}"
        using s1(3) fd(10) sfs_okD(5) [OF s] by (auto simp: upd_din_def)
      show "bno (img s1) (din ?sin2) j = (if j = i then b else bno (img s) (din sin) j)" if "j < MAX_BLOCKS" for j
        using entry_cong [OF _ that, of "indirect (din sin)" "img s1" "img s"] o ib i fd(1) by (auto simp: bno_def upd_din_def)
    qed (use s1(4) fd(1) i in \<open>auto simp: upd_din_def same_file_def blit_whole\<close>)
    ultimately show ?thesis by blast
  qed
qed

lemma load_indirect:
  assumes s: "sfs_ok s" and f: "file_ok s (din sin)" and i: "i = iblocks (din sin)" "\<not> i < SFS_NDIRECT" "i < MAX_BLOCKS"
    and ind: "indirect (din sin) \<noteq> 0"
  shows "\<exists>ret b sin' s'. sfs_bmap_load_nolock sin i s = Some (ret, b, sin', s') \<and> loaded s sin i ret b sin' s'"
proof -
  note fd = file_okD [OF f]
  let ?e = "indirect (din sin)"
  note k = entry_in_block(1) [OF i(2,3)]
  have z: "bno (img s) (din sin) i = 0" using fd(8) [of i] i by simp
  from read_entry [OF s f i(2,3) ind] z obtain bf s0 where
    r: "sfs_rbuf (enc32 0) 4 ?e ((i - SFS_NDIRECT) * 4) s = Some (0, bf, s0)" "dec32 bf = 0"
      "goes s s0 (free_blocks s) (img s)" by auto
  note g0 = goes_same(5,7,8) [OF r(3) f] goes_same(4) [OF r(3) f]
  have e: "0 < ?e" "?e < sblocks s0" "?e \<notin> free_blocks s0" using ind fd(9,10) g0 by auto
  have get: "sfs_bmap_get_nolock sin i True s = (do {
      (ret, ent, b, s1) \<leftarrow> bmap_enter ?e ?e (i - SFS_NDIRECT) s0;
      if ret \<noteq> 0 then Some (ret, 0, sin, s1)
      else if ent \<noteq> ?e then do {
        c_assert (?e = 0);
        bmap_out b (upd_din (\<lambda>d. d\<lparr>indirect := ent\<rparr>) sin\<lparr>dirty := True\<rparr>) s1 }
      else bmap_out b sin s1 })"
    using i(2) k ind r(1,2) by (simp add: sfs_bmap_get_nolock_def sfs_bmap_get_sub_nolock_def)
  show ?thesis
  proof (cases "free_blocks s = {}")
    case True
    with enter_ok [OF g0(1) e i(2,3), of ?e] g0(3) obtain s1 where
      a: "bmap_enter ?e ?e (i - SFS_NDIRECT) s0 = bmap_cleanup (- E_NO_MEM) ?e ?e s1" "goes s0 s1 {} (img s0)" by auto
    have "sfs_bmap_get_nolock sin i True s = Some (- E_NO_MEM, 0, sin, s1)"
      unfolding get using a(1) by (simp add: bmap_cleanup_def)
    from load_fail [OF this i(1)] have "sfs_bmap_load_nolock sin i s = Some (- E_NO_MEM, 0, sin, s1)" .
    moreover have "goes s s1 (free_blocks s) (img s)" using goes_trans [OF r(3) a(2)] True g0(4) by simp
    then have "loaded s sin i (- E_NO_MEM) 0 sin s1"
      using goes_same(1,2) [OF _ f] True i by (simp add: loaded_def same_file_def room_def)
    ultimately show ?thesis by blast
  next
    case False
    with enter_ok [OF g0(1) e i(2,3), of ?e] g0(3,4) obtain b s1 where
      a: "b \<in> free_blocks s" "bmap_enter ?e ?e (i - SFS_NDIRECT) s0 = Some (0, ?e, b, s1)"
        "goes s0 s1 (free_blocks s - {b}) (blit (?e * SFS_BLKSIZE + (i - SFS_NDIRECT) * 4) 4 (enc32 b)
          (blit (b * SFS_BLKSIZE) SFS_BLKSIZE (\<lambda>_. 0) (img s)))" by auto
    let ?J = "blit (b * SFS_BLKSIZE) SFS_BLKSIZE (\<lambda>_. 0) (img s)"
    let ?I = "blit (?e * SFS_BLKSIZE + (i - SFS_NDIRECT) * 4) 4 (enc32 b) ?J"
    have s1: "sfs_ok s1" "sblocks s1 = sblocks s" "free_blocks s1 = free_blocks s - {b}" "img s1 = ?I"
      using goes_trans [OF r(3) a(3)] by (simp_all add: goes_def)
    note br = alloc_br [OF s a(1)]
    have ne: "?e \<noteq> b" using fd(10) ind a(1) by auto
    have "sfs_bmap_get_nolock sin i True s = bmap_out b sin s1" unfolding get using a(2) by simp
    also have "\<dots> = Some (0, b, sin, s1)" using inuse_ok [OF s1(1), of b] br s1 by (simp add: bmap_out_def)
    finally have g: "sfs_bmap_get_nolock sin i True s = Some (0, b, sin, s1)" .
    let ?sin2 = "upd_din (\<lambda>d. d\<lparr>iblocks := iblocks d + 1\<rparr>) sin"
    have "sfs_bmap_load_nolock sin i s = Some (0, b, ?sin2, s1)"
      by (rule load_finish [OF g i(1) s1(1)]) (use br s1 in auto)
    moreover have "loaded s sin i 0 b ?sin2 s1"
    proof (rule loadedI_new [OF f i(1,3) a(1) s s1(1,2)])
      have c: "entry ?J ?e j = entry (img s) ?e j" if "\<not> j < SFS_NDIRECT" "j < MAX_BLOCKS" for j
        using entry_cong [OF that, of ?e ?J "img s"] ne by (simp add: blit_whole)
      show "free_blocks s1 = free_blocks s - {b} - {indirect (din ?sin2)}"
        using s1(3) fd(10) ind by (auto simp: upd_din_def)
      show "bno (img s1) (din ?sin2) j = (if j = i then b else bno (img s) (din sin) j)" if "j < MAX_BLOCKS" for j
        using entry_blit [OF i(2,3) _ that br(3), of ?e ?J] c [OF _ that] ind i(2) by (auto simp: bno_def upd_din_def s1(4))
      show "img s1 x = img s x" if "x div SFS_BLKSIZE \<noteq> b" "indirect (din ?sin2) = 0 \<or> x div SFS_BLKSIZE \<noteq> indirect (din ?sin2)" for x
        using that ind blit_outside [OF entry_in_block(3) [OF i(2,3)], of x ?e "enc32 b" ?J] unfolding s1(4)
        by (simp add: upd_din_def blit_whole)
      show "img s1 x = 0" if "x div SFS_BLKSIZE = b" for x
        using that ne blit_outside [OF entry_in_block(3) [OF i(2,3)], of x ?e "enc32 b" ?J] unfolding s1(4)
        by (simp add: blit_whole)
    qed (use fd(1) i in \<open>auto simp: upd_din_def same_file_def\<close>)
    ultimately show ?thesis by blast
  qed
qed

lemma goes_back: "goes s s' F I \<Longrightarrow> sfs_ok s' \<and> sblocks s' = sblocks s \<and> free_blocks s' = F \<and> img s' = I"
  by (simp add: goes_def)

lemma load_first_indirect:
  assumes s: "sfs_ok s" and f: "file_ok s (din sin)" and i: "i = iblocks (din sin)" "\<not> i < SFS_NDIRECT" "i < MAX_BLOCKS"
    and ind: "indirect (din sin) = 0"
  shows "\<exists>ret b sin' s'. sfs_bmap_load_nolock sin i s = Some (ret, b, sin', s') \<and> loaded s sin i ret b sin' s'"
proof -
  note fd = file_okD [OF f]
  note k = entry_in_block(1) [OF i(2,3)]
  have get: "sfs_bmap_get_nolock sin i True s = (do {
      (ret, ent, b, s1) \<leftarrow> (do {
        (ret, ent, s1) \<leftarrow> sfs_block_alloc s;
        if ret \<noteq> 0 then Some (ret, 0, 0, s1) else bmap_enter 0 ent (i - SFS_NDIRECT) s1 });
      if ret \<noteq> 0 then Some (ret, 0, sin, s1)
      else if ent \<noteq> 0 then bmap_out b (upd_din (\<lambda>d. d\<lparr>indirect := ent\<rparr>) sin\<lparr>dirty := True\<rparr>) s1
      else bmap_out b sin s1 })"
    using i(2) k ind by (simp add: sfs_bmap_get_nolock_def sfs_bmap_get_sub_nolock_def cong: prod.case_cong if_cong)
  show ?thesis
  proof (cases "free_blocks s = {}")
    case True
    with block_alloc_ok [OF s] obtain s1 where a: "sfs_block_alloc s = Some (- E_NO_MEM, 0, s1)" "goes s s1 {} (img s)" by auto
    have "sfs_bmap_get_nolock sin i True s = Some (- E_NO_MEM, 0, sin, s1)" unfolding get using a(1) by simp
    from load_fail [OF this i(1)] have "sfs_bmap_load_nolock sin i s = Some (- E_NO_MEM, 0, sin, s1)" .
    moreover have "loaded s sin i (- E_NO_MEM) 0 sin s1"
      using goes_same(1,2) [OF a(2) [folded True] f] True i by (simp add: loaded_def same_file_def room_def)
    ultimately show ?thesis by blast
  next
    case False
    with block_alloc_ok [OF s] obtain e s0 where
      a: "e \<in> free_blocks s" "sfs_block_alloc s = Some (0, e, s0)"
        "goes s s0 (free_blocks s - {e}) (blit (e * SFS_BLKSIZE) SFS_BLKSIZE (\<lambda>_. 0) (img s))" by auto
    let ?K = "blit (e * SFS_BLKSIZE) SFS_BLKSIZE (\<lambda>_. 0) (img s)"
    from goes_back [OF a(3)] have s0: "sfs_ok s0" "sblocks s0 = sblocks s" "free_blocks s0 = free_blocks s - {e}" "img s0 = ?K"
      by simp_all
    note er = alloc_br [OF s a(1)]
    have e: "0 < e" "e < sblocks s0" "e \<notin> free_blocks s0" using er s0 by auto
    show ?thesis
    proof (cases "free_blocks s0 = {}")
      case True
      with enter_ok [OF s0(1) e i(2,3), of 0] obtain s1 where
        n: "bmap_enter 0 e (i - SFS_NDIRECT) s0 = bmap_cleanup (- E_NO_MEM) 0 e s1" "goes s0 s1 {} ?K" using s0(4) by auto
      from goes_back [OF n(2)] have s1: "sfs_ok s1" "sblocks s1 = sblocks s" "free_blocks s1 = {}" "img s1 = ?K" using s0(2) by simp_all
      from block_free_ok [OF s1(1) er(1), unfolded s1] er(2) obtain s2 where
        fr: "sfs_block_free e s1 = Some s2" "goes s1 s2 {e} ?K" by auto
      from goes_back [OF fr(2)] have s2: "sfs_ok s2" "sblocks s2 = sblocks s" "free_blocks s2 = {e}" "img s2 = ?K" using s1(2) by simp_all
      have "sfs_bmap_get_nolock sin i True s = Some (- E_NO_MEM, 0, sin, s2)"
        unfolding get using a(2) n(1) fr(1) er(1) by (simp add: bmap_cleanup_def)
      from load_fail [OF this i(1)] have "sfs_bmap_load_nolock sin i s = Some (- E_NO_MEM, 0, sin, s2)" .
      moreover have F: "free_blocks s = {e}" using True s0(3) a(1) by auto
      have "img s2 x = img s x" if "x div SFS_BLKSIZE \<notin> free_blocks s" for x using that F s2(4) by (simp add: blit_whole)
      note u = unchanged_ok [OF f s s2(1,2) s2(3) [folded F] this]
      have "\<not> room s (din sin) (Suc i)" using F i ind by (simp add: room_def)
      then have "loaded s sin i (- E_NO_MEM) 0 sin s2" using u i by (simp add: loaded_def same_file_def)
      ultimately show ?thesis by blast
    next
      case False
      with enter_ok [OF s0(1) e i(2,3), of 0] s0(4) obtain b s1 where
        n: "b \<in> free_blocks s0" "bmap_enter 0 e (i - SFS_NDIRECT) s0 = Some (0, e, b, s1)"
          "goes s0 s1 (free_blocks s0 - {b}) (blit (e * SFS_BLKSIZE + (i - SFS_NDIRECT) * 4) 4 (enc32 b)
            (blit (b * SFS_BLKSIZE) SFS_BLKSIZE (\<lambda>_. 0) ?K))" by auto
      let ?J = "blit (b * SFS_BLKSIZE) SFS_BLKSIZE (\<lambda>_. 0) ?K"
      let ?I = "blit (e * SFS_BLKSIZE + (i - SFS_NDIRECT) * 4) 4 (enc32 b) ?J"
      from goes_back [OF n(3)] have s1: "sfs_ok s1" "sblocks s1 = sblocks s" "free_blocks s1 = free_blocks s - {b} - {e}" "img s1 = ?I"
        using s0 by auto
      have b: "b \<in> free_blocks s" "b \<noteq> e" using n(1) s0(3) by auto
      note br = alloc_br [OF s b(1)]
      let ?sin1 = "upd_din (\<lambda>d. d\<lparr>indirect := e\<rparr>) sin\<lparr>dirty := True\<rparr>"
      have "sfs_bmap_get_nolock sin i True s = bmap_out b ?sin1 s1" unfolding get using a(2) n(2) er(1) by simp
      also have "\<dots> = Some (0, b, ?sin1, s1)" using inuse_ok [OF s1(1), of b] br s1 by (simp add: bmap_out_def)
      finally have g: "sfs_bmap_get_nolock sin i True s = Some (0, b, ?sin1, s1)" .
      let ?sin2 = "upd_din (\<lambda>d. d\<lparr>iblocks := iblocks d + 1\<rparr>) ?sin1"
      have "sfs_bmap_load_nolock sin i s = Some (0, b, ?sin2, s1)"
        by (rule load_finish [OF g i(1) s1(1)]) (use br s1 in auto)
      moreover have "loaded s sin i 0 b ?sin2 s1"
      proof (rule loadedI_new [OF f i(1,3) b(1) s s1(1,2)])
        have c: "entry ?J e j = 0" if "\<not> j < SFS_NDIRECT" "j < MAX_BLOCKS" for j
        proof -
          have "entry ?J e j = entry (\<lambda>_. 0) e j" using entry_cong [OF that, of e ?J "\<lambda>_. 0"] b(2) by (simp add: blit_whole)
          then show ?thesis by (simp add: entry_def dec32_zero)
        qed
        show "bno (img s1) (din ?sin2) j = (if j = i then b else bno (img s) (din sin) j)" if "j < MAX_BLOCKS" for j
          using entry_blit [OF i(2,3) _ that br(3), of e ?J] c [OF _ that] ind i(2) er(1) by (auto simp: bno_def upd_din_def s1(4))
        show "img s1 x = img s x" if "x div SFS_BLKSIZE \<noteq> b" "indirect (din ?sin2) = 0 \<or> x div SFS_BLKSIZE \<noteq> indirect (din ?sin2)" for x
          using that er(1) blit_outside [OF entry_in_block(3) [OF i(2,3)], of x e "enc32 b" ?J] unfolding s1(4)
          by (simp add: upd_din_def blit_whole)
        show "img s1 x = 0" if "x div SFS_BLKSIZE = b" for x
          using that b(2) blit_outside [OF entry_in_block(3) [OF i(2,3)], of x e "enc32 b" ?J] unfolding s1(4)
          by (simp add: blit_whole)
      qed (use s1(3) fd(1) i ind b a(1) in \<open>auto simp: upd_din_def same_file_def\<close>)
      ultimately show ?thesis by blast
    qed
  qed
qed


lemma load_ok:
  assumes s: "sfs_ok s" and f: "file_ok s (din sin)" and i: "i \<le> iblocks (din sin)" "i < MAX_BLOCKS"
  shows "\<exists>ret b sin' s'. sfs_bmap_load_nolock sin i s = Some (ret, b, sin', s') \<and> loaded s sin i ret b sin' s'"
proof (cases "i < iblocks (din sin)")
  case True
  from load_old [OF s f True] obtain s' where
    l: "sfs_bmap_load_nolock sin i s = Some (0, bno (img s) (din sin) i, sin, s')" "goes s s' (free_blocks s) (img s)" by blast
  have "loaded s sin i 0 (bno (img s) (din sin) i) sin s'"
    using goes_same [OF l(2) f] True by (simp add: loaded_def same_file_def)
  then show ?thesis using l(1) by blast
next
  case False
  then have "i = iblocks (din sin)" using i by simp
  then show ?thesis using load_direct [OF s f] load_indirect [OF s f] load_first_indirect [OF s f] i(2) by blast
qed

subsection \<open>Cutting off the last block\<close>

lemma shrink_ok:
  assumes f: "file_ok s d" and i: "iblocks d = Suc i" and s: "sfs_ok s" "sfs_ok s'" "sblocks s' = sblocks s"
    and F: "free_blocks s' = insert (bno (img s) d i) (free_blocks s)"
    and d': "length (direct d') = SFS_NDIRECT" "iblocks d' = i" "indirect d' = indirect d"
    and n: "\<And>j. j < MAX_BLOCKS \<Longrightarrow> bno (img s') d' j = (if j = i then 0 else bno (img s) d j)"
    and I: "\<And>x. indirect d = 0 \<or> x div SFS_BLKSIZE \<noteq> indirect d \<Longrightarrow> img s' x = img s x"
  shows "fs_step s d s' d'" "fc s' d' = (\<lambda>x. if x div SFS_BLKSIZE < i then fc s d x else 0)"
proof -
  note fd = file_okD [OF f]
  have old: "bno (img s') d' j = bno (img s) d j" if "j < i" for j using n [of j] that i fd(2) by simp
  show "fs_step s d s' d'"
    unfolding fs_step_def
  proof (intro conjI)
    show "file_ok s' d'"
    proof (rule file_okI)
      fix j assume "j < iblocks d'"
      then show "0 < bno (img s') d' j \<and> bno (img s') d' j < sblocks s' \<and> bno (img s') d' j \<notin> free_blocks s' \<and> bno (img s') d' j \<noteq> indirect d'"
        using old fd(3,4,5,6) [of j] fd(7) [of j i] s(3) F d'(2,3) i by simp
    next
      fix j assume "iblocks d' \<le> j" "j < MAX_BLOCKS"
      then show "bno (img s') d' j = 0" using n [of j] fd(8) [of j] d'(2) i by (cases "j = i") auto
    next
      assume "indirect d' \<noteq> 0"
      then show "indirect d' < sblocks s' \<and> indirect d' \<notin> free_blocks s'"
        using d'(3) fd(9,10) fd(6) [of i] s(3) F i by auto
    qed (use d' i fd(2) fd(7) old in auto)
    have "bno (img s) d ` {..<iblocks d} = insert (bno (img s) d i) (bno (img s') d' ` {..<iblocks d'})"
      using old d'(2) i by (auto simp: lessThan_Suc)
    then show "free_blocks s' \<union> own (img s') d' = free_blocks s \<union> own (img s) d"
      using F d'(3) by (auto simp: own_def)
    show "\<forall>x. x div SFS_BLKSIZE \<notin> free_blocks s \<union> own (img s) d \<longrightarrow> img s' x = img s x"
      using I by (auto simp: own_def)
  qed (use s in auto)
  show "fc s' d' = (\<lambda>x. if x div SFS_BLKSIZE < i then fc s d x else 0)"
  proof
    fix x
    let ?j = "x div SFS_BLKSIZE"
    have m: "x mod SFS_BLKSIZE < SFS_BLKSIZE" by simp
    have "img s' (bno (img s) d ?j * SFS_BLKSIZE + x mod SFS_BLKSIZE) = img s (bno (img s) d ?j * SFS_BLKSIZE + x mod SFS_BLKSIZE)"
      if "?j < i" using I [of "bno (img s) d ?j * SFS_BLKSIZE + x mod SFS_BLKSIZE"] block_div [OF m] fd(6) [of ?j] that i by simp
    then show "fc s' d' x = (if ?j < i then fc s d x else 0)" using old d'(2) i by (simp add: fc_def)
  qed
qed

lemma truncate_ok:
  assumes s: "sfs_ok s" and f: "file_ok s (din sin)" and i: "iblocks (din sin) = Suc i"
  shows "\<exists>sin' s'. sfs_bmap_truncate_nolock sin s = Some (0, sin', s') \<and> fs_step s (din sin) s' (din sin') \<and>
    iblocks (din sin') = i \<and> same_file sin sin' \<and>
    fc s' (din sin') = (\<lambda>x. if x div SFS_BLKSIZE < i then fc s (din sin) x else 0)"
proof -
  note fd = file_okD [OF f]
  let ?b = "bno (img s) (din sin) i"
  have im: "i < MAX_BLOCKS" using fd(2) i by simp
  have b: "0 < ?b" "?b < sblocks s" "?b \<notin> free_blocks s" "?b \<noteq> indirect (din sin)" using fd(3-6) [of i] i by auto
  let ?cut = "\<lambda>d. d\<lparr>iblocks := iblocks d - 1\<rparr>"
  show ?thesis
  proof (cases "i < SFS_NDIRECT")
    case True
    then have e: "direct (din sin) ! i = ?b" by (simp add: bno_def)
    from block_free_ok [OF s b(1-3)] obtain s1 where
      fr: "sfs_block_free ?b s = Some s1" "goes s s1 (insert ?b (free_blocks s)) (img s)" by blast
    from goes_back [OF fr(2)] have s1: "sfs_ok s1" "sblocks s1 = sblocks s" "free_blocks s1 = insert ?b (free_blocks s)"
      "img s1 = img s" by simp_all
    let ?sin1 = "upd_din (\<lambda>d. d\<lparr>direct := (direct d)[i := 0]\<rparr>) sin\<lparr>dirty := True\<rparr>"
    let ?sin2 = "upd_din ?cut ?sin1\<lparr>dirty := True\<rparr>"
    have "sfs_bmap_free_nolock sin i s = Some (0, ?sin1, s1)"
      using True e fr(1) b(1) by (simp add: sfs_bmap_free_nolock_def)
    then have tr: "sfs_bmap_truncate_nolock sin s = Some (0, ?sin2, s1)"
      using i by (simp add: sfs_bmap_truncate_nolock_def)
    have n: "bno (img s1) (din ?sin2) j = (if j = i then 0 else bno (img s) (din sin) j)" if "j < MAX_BLOCKS" for j
      using True s1(4) fd(1) by (simp add: bno_def upd_din_def)
    have "length (direct (din ?sin2)) = SFS_NDIRECT" "iblocks (din ?sin2) = i" "indirect (din ?sin2) = indirect (din sin)"
      using fd(1) i by (simp_all add: upd_din_def)
    from shrink_ok [OF f i s s1(1-3) this n] s1(4) have "fs_step s (din sin) s1 (din ?sin2)"
      "fc s1 (din ?sin2) = (\<lambda>x. if x div SFS_BLKSIZE < i then fc s (din sin) x else 0)" by simp_all
    moreover have "same_file sin ?sin2" by (simp add: same_file_def upd_din_def)
    moreover have "iblocks (din ?sin2) = i" using i by (simp add: upd_din_def)
    ultimately show ?thesis using tr by blast
  next
    case False
    let ?e = "indirect (din sin)"
    have ind: "?e \<noteq> 0" using bno_nz_indirect [OF f _ False] i by simp
    note k = entry_in_block(1) [OF False im]
    from read_entry [OF s f False im ind] obtain bf s0 where
      r: "sfs_rbuf (enc32 0) 4 ?e ((i - SFS_NDIRECT) * 4) s = Some (0, bf, s0)" "dec32 bf = ?b"
        "goes s s0 (free_blocks s) (img s)" by blast
    from goes_back [OF r(3)] have s0: "sfs_ok s0" "sblocks s0 = sblocks s" "free_blocks s0 = free_blocks s" "img s0 = img s" by simp_all
    have e: "0 < ?e" "?e < sblocks s0" using ind fd(9) s0 by auto
    let ?I = "blit (?e * SFS_BLKSIZE + (i - SFS_NDIRECT) * 4) 4 (enc32 0) (img s)"
    from wbuf_ok [OF s0(1) e entry_in_block(2,3) [OF False im], of "enc32 0"] obtain s1 where
      w: "sfs_wbuf (enc32 0) 4 ?e ((i - SFS_NDIRECT) * 4) s0 = Some (0, s1)" "goes s0 s1 (free_blocks s) ?I"
      unfolding s0 by blast
    from goes_back [OF w(2)] have s1: "sfs_ok s1" "sblocks s1 = sblocks s" "free_blocks s1 = free_blocks s" "img s1 = ?I"
      using s0 by simp_all
    from block_free_ok [OF s1(1) b(1), unfolded s1] b obtain s2 where
      fr: "sfs_block_free ?b s1 = Some s2" "goes s1 s2 (insert ?b (free_blocks s)) ?I" by blast
    from goes_back [OF fr(2)] have s2: "sfs_ok s2" "sblocks s2 = sblocks s" "free_blocks s2 = insert ?b (free_blocks s)"
      "img s2 = ?I" using s1 by simp_all
    have u: "sfs_block_inuse ?e s = Some True" using inuse_ok [OF s, of ?e] ind fd(9,10) by simp
    have "sfs_bmap_free_nolock sin i s = Some (0, sin, s2)"
      using False k ind u r(1,2) w(1) fr(1) b(1) by (simp add: sfs_bmap_free_nolock_def sfs_bmap_free_sub_nolock_def)
    then have tr: "sfs_bmap_truncate_nolock sin s = Some (0, upd_din ?cut sin\<lparr>dirty := True\<rparr>, s2)"
      using i by (simp add: sfs_bmap_truncate_nolock_def)
    have n: "bno (img s2) (din (upd_din ?cut sin\<lparr>dirty := True\<rparr>)) j = (if j = i then 0 else bno (img s) (din sin) j)"
      if "j < MAX_BLOCKS" for j
      using entry_blit [OF False im _ that, of 0 ?e "img s"] ind False by (auto simp: bno_def upd_din_def s2(4))
    have I: "img s2 x = img s x" if "?e = 0 \<or> x div SFS_BLKSIZE \<noteq> ?e" for x
      using that ind blit_outside [OF entry_in_block(3) [OF False im], of x ?e "enc32 0" "img s"] unfolding s2(4) by simp
    have "length (direct (din (upd_din ?cut sin\<lparr>dirty := True\<rparr>))) = SFS_NDIRECT"
      "iblocks (din (upd_din ?cut sin\<lparr>dirty := True\<rparr>)) = i" "indirect (din (upd_din ?cut sin\<lparr>dirty := True\<rparr>)) = ?e"
      using fd(1) i by (simp_all add: upd_din_def)
    from shrink_ok [OF f i s s2(1-3) this n I]
    have "fs_step s (din sin) s2 (din (upd_din ?cut sin\<lparr>dirty := True\<rparr>))"
      "fc s2 (din (upd_din ?cut sin\<lparr>dirty := True\<rparr>)) = (\<lambda>x. if x div SFS_BLKSIZE < i then fc s (din sin) x else 0)"
      by simp_all
    moreover have "same_file sin (upd_din ?cut sin\<lparr>dirty := True\<rparr>)" by (simp add: same_file_def upd_din_def)
    moreover have "iblocks (din (upd_din ?cut sin\<lparr>dirty := True\<rparr>)) = i" using i by (simp add: upd_din_def)
    ultimately show ?thesis using tr by blast
  qed
qed

end
