(* ===== verification/Sfs_File.thy ===== *)
theory Sfs_File
  imports Sfs_Map
begin

text \<open>
  kern/fs/sfs/sfs_inode.c (labcode/lab8), second part: reading, writing and resizing a file.  The
  buffer of a transfer is kernel memory \<open>m\<close> at \<open>addr\<close>.  Offsets are 64-bit signed integers
  (\<^verbatim>\<open>off_t\<close>); the result is the error code, the number of bytes transferred, and the new inode, memory
  and file system.
\<close>

definition SFS_MAX_FILE_SIZE :: nat where "SFS_MAX_FILE_SIZE = 1024 * 1024 * 128"

abbreviation (input) SFS_TYPE_FILE :: nat where "SFS_TYPE_FILE \<equiv> 1"
abbreviation (input) SFS_TYPE_DIR :: nat where "SFS_TYPE_DIR \<equiv> 2"
abbreviation (input) SFS_TYPE_LINK :: nat where "SFS_TYPE_LINK \<equiv> 3"

definition wrap_off :: "int \<Rightarrow> int" where "wrap_off x = signed_take_bit 63 x"

definition sfs_buf_op :: "bool \<Rightarrow> nat \<Rightarrow> nat \<Rightarrow> nat \<Rightarrow> nat \<Rightarrow> mem \<Rightarrow> sfs \<Rightarrow> (int \<times> mem \<times> sfs) option" where
  "sfs_buf_op write addr sz off blk m s =
     (if write then do { (ret, s1) \<leftarrow> sfs_wbuf (\<lambda>i. m (addr + i)) sz blk off s; Some (ret, m, s1) }
      else do { (ret, b, s1) \<leftarrow> sfs_rbuf (\<lambda>i. m (addr + i)) sz blk off s; Some (ret, blit addr sz b m, s1) })"

definition sfs_block_op :: "bool \<Rightarrow> nat \<Rightarrow> nat \<Rightarrow> mem \<Rightarrow> sfs \<Rightarrow> (int \<times> mem \<times> sfs) option" where
  "sfs_block_op write addr blk m s =
     (if write then do { (ret, _, s1) \<leftarrow> sfs_wblock (\<lambda>i. m (addr + i)) blk 1 s; Some (ret, m, s1) }
      else do { (ret, b, s1) \<leftarrow> sfs_rblock (\<lambda>i. m (addr + i)) blk 1 s; Some (ret, blit addr SFS_BLKSIZE b m, s1) })"

text \<open>One block of the file: it is located and transferred.\<close>

definition sfs_io_step :: "(nat \<Rightarrow> mem \<Rightarrow> sfs \<Rightarrow> (int \<times> mem \<times> sfs) option) \<Rightarrow> nat \<Rightarrow> sfs_inode \<Rightarrow> mem \<Rightarrow> sfs \<Rightarrow>
    (int \<times> sfs_inode \<times> mem \<times> sfs) option" where
  "sfs_io_step bop blkno sin m s = do {
     (ret, blk, sin1, s1) \<leftarrow> sfs_bmap_load_nolock sin blkno s;
     if ret \<noteq> 0 then Some (ret, sin1, m, s1)
     else do { (ret1, m1, s2) \<leftarrow> bop blk m s1; Some (ret1, sin1, m1, s2) } }"

text \<open>The whole blocks, and then the rest of the last block.\<close>

primrec sfs_io_loop :: "nat \<Rightarrow> bool \<Rightarrow> nat \<Rightarrow> nat \<Rightarrow> nat \<Rightarrow> nat \<Rightarrow> sfs_inode \<Rightarrow> mem \<Rightarrow> sfs \<Rightarrow>
    (int \<times> nat \<times> sfs_inode \<times> mem \<times> sfs) option" where
  "sfs_io_loop 0 write addr blkno endpos alen sin m s =
     (let sz = endpos mod SFS_BLKSIZE
      in if sz \<noteq> 0 then do {
           (ret, sin1, m1, s1) \<leftarrow> sfs_io_step (sfs_buf_op write addr sz 0) blkno sin m s;
           Some (ret, if ret \<noteq> 0 then alen else alen + sz, sin1, m1, s1) }
         else Some (0, alen, sin, m, s))"
| "sfs_io_loop (Suc nblks) write addr blkno endpos alen sin m s = do {
     (ret, sin1, m1, s1) \<leftarrow> sfs_io_step (sfs_block_op write addr) blkno sin m s;
     if ret \<noteq> 0 then Some (ret, alen, sin1, m1, s1)
     else sfs_io_loop nblks write (addr + SFS_BLKSIZE) (blkno + 1) endpos (alen + SFS_BLKSIZE) sin1 m1 s1 }"

definition sfs_io_body :: "bool \<Rightarrow> nat \<Rightarrow> nat \<Rightarrow> nat \<Rightarrow> sfs_inode \<Rightarrow> mem \<Rightarrow> sfs \<Rightarrow>
    (int \<times> nat \<times> sfs_inode \<times> mem \<times> sfs) option" where
  "sfs_io_body write addr offset endpos sin m s =
     (let blkno = offset div SFS_BLKSIZE; nblks = endpos div SFS_BLKSIZE - blkno; blkoff = offset mod SFS_BLKSIZE
      in if blkoff \<noteq> 0 then do {
           let sz = (if nblks \<noteq> 0 then SFS_BLKSIZE - blkoff else endpos - offset);
           (ret, sin1, m1, s1) \<leftarrow> sfs_io_step (sfs_buf_op write addr sz blkoff) blkno sin m s;
           if ret \<noteq> 0 then Some (ret, 0, sin1, m1, s1)
           else if nblks = 0 then Some (0, sz, sin1, m1, s1)
           else sfs_io_loop (nblks - 1) write (addr + sz) (blkno + 1) endpos sz sin1 m1 s1 }
         else sfs_io_loop nblks write addr blkno endpos 0 sin m s)"

definition sfs_io_nolock :: "bool \<Rightarrow> nat \<Rightarrow> int \<Rightarrow> nat \<Rightarrow> sfs_inode \<Rightarrow> mem \<Rightarrow> sfs \<Rightarrow>
    (int \<times> nat \<times> sfs_inode \<times> mem \<times> sfs) option" where
  "sfs_io_nolock write addr offset len sin m s = do {
     c_assert (itype (din sin) \<noteq> SFS_TYPE_DIR);
     let endpos = wrap_off (offset + int len);
     if offset < 0 \<or> offset \<ge> int SFS_MAX_FILE_SIZE \<or> offset > endpos then Some (- E_INVAL, 0, sin, m, s)
     else if offset = endpos then Some (0, 0, sin, m, s)
     else if \<not> write \<and> offset \<ge> int (isize (din sin)) then Some (0, 0, sin, m, s)
     else do {
       let endpos1 = min (nat endpos) SFS_MAX_FILE_SIZE;
       let endpos2 = (if write then endpos1 else min endpos1 (isize (din sin)));
       (ret, alen, sin1, m1, s1) \<leftarrow> sfs_io_body write addr (nat offset) endpos2 sin m s;
       let sin2 = (if nat offset + alen > isize (din sin1)
         then upd_din (\<lambda>d. d\<lparr>isize := nat offset + alen\<rparr>) sin1\<lparr>dirty := True\<rparr> else sin1);
       Some (ret, alen, sin2, m1, s1) } }"

text \<open>The wrapper with the cursor of the transfer.\<close>

definition sfs_io :: "bool \<Rightarrow> sfs_inode \<Rightarrow> iobuf \<Rightarrow> mem \<Rightarrow> sfs \<Rightarrow> (int \<times> sfs_inode \<times> iobuf \<times> mem \<times> sfs) option" where
  "sfs_io write sin iob m s = do {
     (ret, alen, sin1, m1, s1) \<leftarrow> sfs_io_nolock write (io_base iob) (int (io_offset iob)) (io_resid iob) sin m s;
     iob1 \<leftarrow> (if alen \<noteq> 0 then iobuf_skip alen iob else Some iob);
     Some (ret, sin1, iob1, m1, s1) }"

definition sfs_read :: "sfs_inode \<Rightarrow> iobuf \<Rightarrow> mem \<Rightarrow> sfs \<Rightarrow> (int \<times> sfs_inode \<times> iobuf \<times> mem \<times> sfs) option" where
  "sfs_read sin iob m s = sfs_io False sin iob m s"

definition sfs_write :: "sfs_inode \<Rightarrow> iobuf \<Rightarrow> mem \<Rightarrow> sfs \<Rightarrow> (int \<times> sfs_inode \<times> iobuf \<times> mem \<times> sfs) option" where
  "sfs_write sin iob m s = sfs_io True sin iob m s"

subsection \<open>Resizing\<close>

text \<open>The two loops of \<^verbatim>\<open>sfs_truncfile\<close>: \<open>k\<close> blocks are added from \<open>nblks\<close> on, or cut off.\<close>

primrec trunc_grow :: "nat \<Rightarrow> nat \<Rightarrow> sfs_inode \<Rightarrow> sfs \<Rightarrow> (int \<times> sfs_inode \<times> sfs) option" where
  "trunc_grow 0 nblks sin s = Some (0, sin, s)"
| "trunc_grow (Suc k) nblks sin s = do {
     (ret, _, sin1, s1) \<leftarrow> sfs_bmap_load_nolock sin nblks s;
     if ret \<noteq> 0 then Some (ret, sin1, s1) else trunc_grow k (nblks + 1) sin1 s1 }"

primrec trunc_shrink :: "nat \<Rightarrow> sfs_inode \<Rightarrow> sfs \<Rightarrow> (int \<times> sfs_inode \<times> sfs) option" where
  "trunc_shrink 0 sin s = Some (0, sin, s)"
| "trunc_shrink (Suc k) sin s = do {
     (ret, sin1, s1) \<leftarrow> sfs_bmap_truncate_nolock sin s;
     if ret \<noteq> 0 then Some (ret, sin1, s1) else trunc_shrink k sin1 s1 }"

definition blocks_for :: "nat \<Rightarrow> nat" where
  "blocks_for n = (n + SFS_BLKSIZE - 1) div SFS_BLKSIZE"

definition sfs_truncfile :: "int \<Rightarrow> sfs_inode \<Rightarrow> sfs \<Rightarrow> (int \<times> sfs_inode \<times> sfs) option" where
  "sfs_truncfile len sin s =
     (if len < 0 \<or> len > int SFS_MAX_FILE_SIZE then Some (- E_INVAL, sin, s)
      else
        (let tblks = blocks_for (nat len); nblks = iblocks (din sin)
         in if int (isize (din sin)) = len then do { c_assert (tblks = nblks); Some (0, sin, s) }
            else do {
              (ret, sin1, s1) \<leftarrow> (if nblks < tblks then trunc_grow (tblks - nblks) nblks sin s
                else trunc_shrink (nblks - tblks) sin s);
              if ret \<noteq> 0 then Some (ret, sin1, s1)
              else do {
                c_assert (iblocks (din sin1) = tblks);
                Some (0, upd_din (\<lambda>d. d\<lparr>isize := nat len\<rparr>) sin1\<lparr>dirty := True\<rparr>, s1) } }))"

definition sfs_tryseek :: "int \<Rightarrow> sfs_inode \<Rightarrow> sfs \<Rightarrow> (int \<times> sfs_inode \<times> sfs) option" where
  "sfs_tryseek pos sin s =
     (if pos < 0 \<or> pos \<ge> int SFS_MAX_FILE_SIZE then Some (- E_INVAL, sin, s)
      else if pos > int (isize (din sin)) then sfs_truncfile pos sin s
      else Some (0, sin, s))"

subsection \<open>The inode on the disk\<close>

definition enc16 :: "nat \<Rightarrow> bytes" where
  "enc16 n = (\<lambda>i. of_nat (n div 256 ^ i))"

definition enc_inode :: "disk_inode \<Rightarrow> bytes" where
  "enc_inode d = blit 0 4 (enc32 (isize d)) (blit 4 2 (enc16 (itype d)) (blit 6 2 (enc16 (nlinks d))
     (blit 8 4 (enc32 (iblocks d)) (blit 12 48 (\<lambda>i. enc32 (direct d ! (i div 4)) (i mod 4))
       (blit 60 4 (enc32 (indirect d)) (\<lambda>_. 0))))))"

definition dec16 :: "bytes \<Rightarrow> nat" where
  "dec16 b = unat (b 0) + 256 * unat (b 1)"

definition dec_inode :: "bytes \<Rightarrow> disk_inode" where
  "dec_inode b = \<lparr>isize = dec32 b, itype = dec16 (\<lambda>i. b (4 + i)), nlinks = dec16 (\<lambda>i. b (6 + i)),
     iblocks = dec32 (\<lambda>i. b (8 + i)), direct = map (\<lambda>k. dec32 (\<lambda>i. b (12 + 4 * k + i))) [0..<SFS_NDIRECT],
     indirect = dec32 (\<lambda>i. b (60 + i))\<rparr>"

definition sizeof_disk_inode :: nat where "sizeof_disk_inode = 64"

definition sfs_fsync :: "sfs_inode \<Rightarrow> sfs \<Rightarrow> (int \<times> sfs_inode \<times> sfs) option" where
  "sfs_fsync sin s =
     (if dirty sin then do {
        let sin1 = sin\<lparr>dirty := False\<rparr>;
        (ret, s1) \<leftarrow> sfs_wbuf (enc_inode (din sin1)) sizeof_disk_inode (ino sin1) 0 s;
        Some (ret, if ret \<noteq> 0 then sin1\<lparr>dirty := True\<rparr> else sin1, s1) }
      else Some (0, sin, s))"

definition sfs_gettype :: "sfs_inode \<Rightarrow> nat option" where
  "sfs_gettype sin =
     (if itype (din sin) = SFS_TYPE_DIR then Some 0x2000
      else if itype (din sin) = SFS_TYPE_FILE then Some 0x1000
      else if itype (din sin) = SFS_TYPE_LINK then Some 0x3000
      else None)"

record stat =
  st_mode :: nat
  st_nlinks :: nat
  st_blocks :: nat
  st_size :: nat

definition sfs_fstat :: "sfs_inode \<Rightarrow> stat option" where
  "sfs_fstat sin = do {
     mode \<leftarrow> sfs_gettype sin;
     Some \<lparr>st_mode = mode, st_nlinks = nlinks (din sin), st_blocks = iblocks (din sin), st_size = isize (din sin)\<rparr> }"

subsection \<open>Transfers block by block\<close>

lemma blocks_for_bounds: "n \<le> blocks_for n * SFS_BLKSIZE" "n \<le> k * SFS_BLKSIZE \<longleftrightarrow> blocks_for n \<le> k"
proof -
  show *: "n \<le> k * SFS_BLKSIZE \<longleftrightarrow> blocks_for n \<le> k" for k
  proof -
    have "blocks_for n \<le> k \<longleftrightarrow> n + SFS_BLKSIZE - 1 < (k + 1) * SFS_BLKSIZE"
      by (simp add: blocks_for_def less_Suc_eq_le [symmetric] div_less_iff_less_mult del: mult_Suc)
    also have "\<dots> \<longleftrightarrow> n \<le> k * SFS_BLKSIZE" using sizes(1) by (simp del: sizes) linarith
    finally show ?thesis by simp
  qed
  show "n \<le> blocks_for n * SFS_BLKSIZE" using * [of "blocks_for n"] by simp
qed

lemma blocks_for_in: "0 < k \<Longrightarrow> k \<le> SFS_BLKSIZE \<Longrightarrow> blocks_for (b * SFS_BLKSIZE + k) = Suc b"
proof -
  assume k: "0 < k" "k \<le> SFS_BLKSIZE"
  have "b * SFS_BLKSIZE + k \<le> Suc b * SFS_BLKSIZE" "\<not> b * SFS_BLKSIZE + k \<le> b * SFS_BLKSIZE" using k by simp_all
  then show "blocks_for (b * SFS_BLKSIZE + k) = Suc b" unfolding blocks_for_bounds(2) by linarith
qed

lemma blocks_for_mult [simp]: "blocks_for (b * SFS_BLKSIZE) = b"
  using blocks_for_bounds(2) [of "b * SFS_BLKSIZE"] by (intro antisym) auto

lemma blocks_for_mono: "m \<le> n \<Longrightarrow> blocks_for m \<le> blocks_for n"
  using order_trans [OF _ blocks_for_bounds(1) [of n], of m] by (simp add: blocks_for_bounds(2))

lemma room_mono: "room s d k \<Longrightarrow> j \<le> k \<Longrightarrow> room s d j"
  by (auto simp: room_def split: if_splits)

text \<open>What is written goes into the block it is meant for.\<close>

lemma fc_write:
  assumes f: "file_ok s d" and b: "b < iblocks d" and o: "off + n \<le> SFS_BLKSIZE"
    and g: "goes s s' (free_blocks s) (blit (bno (img s) d b * SFS_BLKSIZE + off) n dat (img s))"
  shows "fs_step s d s' d" "fc s' d = blit (b * SFS_BLKSIZE + off) n dat (fc s d)" "room s' d k = room s d k"
proof -
  note fd = file_okD [OF f]
  note g' = goes_back [OF g]
  have I: "img s' x = img s x" if "x div SFS_BLKSIZE \<noteq> bno (img s) d b" for x
    using g' blit_outside [OF o that] by simp
  have n: "bno (img s') d j = bno (img s) d j" if "j < MAX_BLOCKS" for j
    using bno_cong [OF that, of d "img s'" "img s"] I fd(6) [OF b] by auto
  then have n': "bno (img s') d j = bno (img s) d j" if "j < iblocks d" for j using that fd(2) by simp
  have f': "file_ok s' d" using fd n n' g' by (intro file_okI) simp_all
  have ow: "own (img s') d = own (img s) d" using n' by (auto simp: own_def)
  show "fs_step s d s' d" using f' g' ow I b by (auto simp: fs_step_def own_def)
  show "room s' d k = room s d k" using g' by (simp add: room_def)
  show "fc s' d = blit (b * SFS_BLKSIZE + off) n dat (fc s d)"
  proof
    fix x
    let ?j = "x div SFS_BLKSIZE" and ?k = "x mod SFS_BLKSIZE"
    have x: "x = ?j * SFS_BLKSIZE + ?k" by simp
    have m: "?k < SFS_BLKSIZE" by simp
    consider "iblocks d \<le> ?j" | "?j < iblocks d" "?j \<noteq> b" | "?j = b" by linarith
    then show "fc s' d x = blit (b * SFS_BLKSIZE + off) n dat (fc s d) x"
    proof cases
      case 1
      then have "blit (b * SFS_BLKSIZE + off) n dat (fc s d) x = fc s d x" using blit_outside [OF o, of x b] b by auto
      then show ?thesis using 1 by (simp add: fc_def)
    next
      case 2
      then have "blit (b * SFS_BLKSIZE + off) n dat (fc s d) x = fc s d x" using blit_outside [OF o, of x b] by auto
      moreover have "img s' (bno (img s) d ?j * SFS_BLKSIZE + ?k) = img s (bno (img s) d ?j * SFS_BLKSIZE + ?k)"
        using I [of "bno (img s) d ?j * SFS_BLKSIZE + ?k"] block_div [OF m] fd(7) [of ?j b] 2 b by simp
      ultimately show ?thesis using 2 n' by (simp add: fc_def)
    next
      case 3
      have "blit (bno (img s) d b * SFS_BLKSIZE + off) n dat (img s) (bno (img s) d b * SFS_BLKSIZE + ?k) =
          (if off \<le> ?k \<and> ?k < off + n then dat (?k - off) else img s (bno (img s) d b * SFS_BLKSIZE + ?k))"
        by (rule blit_in_block [OF o m])
      moreover have "blit (b * SFS_BLKSIZE + off) n dat (fc s d) (b * SFS_BLKSIZE + ?k) =
          (if off \<le> ?k \<and> ?k < off + n then dat (?k - off) else fc s d (b * SFS_BLKSIZE + ?k))"
        by (rule blit_in_block [OF o m])
      moreover have "b * SFS_BLKSIZE + ?k = x" using x 3 by simp
      ultimately show ?thesis using 3 b n' g' by (simp add: fc_def)
    qed
  qed
qed

definition wop :: "(nat \<Rightarrow> mem \<Rightarrow> sfs \<Rightarrow> (int \<times> mem \<times> sfs) option) \<Rightarrow> nat \<Rightarrow> nat \<Rightarrow> bytes \<Rightarrow> mem \<Rightarrow> bool" where
  "wop bop off n dat m \<longleftrightarrow> (\<forall>s b. sfs_ok s \<longrightarrow> 0 < b \<longrightarrow> b < sblocks s \<longrightarrow>
     (\<exists>s'. bop b m s = Some (0, m, s') \<and> goes s s' (free_blocks s) (blit (b * SFS_BLKSIZE + off) n dat (img s))))"

lemma wop_buf:
  assumes "off < SFS_BLKSIZE" "off + n \<le> SFS_BLKSIZE"
  shows "wop (sfs_buf_op True addr n off) off n (\<lambda>i. m (addr + i)) m"
  unfolding wop_def
proof (intro allI impI)
  fix s b assume "sfs_ok s" "0 < b" "b < sblocks s"
  from wbuf_ok [OF this assms, of "\<lambda>i. m (addr + i)"] show "\<exists>s'. sfs_buf_op True addr n off b m s = Some (0, m, s') \<and>
      goes s s' (free_blocks s) (blit (b * SFS_BLKSIZE + off) n (\<lambda>i. m (addr + i)) (img s))"
    by (auto simp: sfs_buf_op_def)
qed

lemma wop_block: "wop (sfs_block_op True addr) 0 SFS_BLKSIZE (\<lambda>i. m (addr + i)) m"
  unfolding wop_def
proof (intro allI impI)
  fix s b assume "sfs_ok s" "0 < b" "b < sblocks s"
  from wblock_ok [OF this, of "\<lambda>i. m (addr + i)"] show "\<exists>s'. sfs_block_op True addr b m s = Some (0, m, s') \<and>
      goes s s' (free_blocks s) (blit (b * SFS_BLKSIZE + 0) SFS_BLKSIZE (\<lambda>i. m (addr + i)) (img s))"
    by (auto simp: sfs_block_op_def)
qed

lemma write_step:
  assumes w: "wop bop off n dat m" and s: "sfs_ok s" and f: "file_ok s (din sin)"
    and b: "b \<le> iblocks (din sin)" "b < MAX_BLOCKS" and o: "off + n \<le> SFS_BLKSIZE"
  shows "\<exists>ret sin' s'. sfs_io_step bop b sin m s = Some (ret, sin', m, s') \<and>
    fs_step s (din sin) s' (din sin') \<and> same_file sin sin' \<and>
    (ret = 0 \<and> fc s' (din sin') = blit (b * SFS_BLKSIZE + off) n dat (fc s (din sin)) \<and>
       iblocks (din sin') = max (iblocks (din sin)) (Suc b) \<and> (\<forall>k > b. room s (din sin) k \<longrightarrow> room s' (din sin') k) \<or>
     ret = - E_NO_MEM \<and> fc s' (din sin') = fc s (din sin) \<and> sin' = sin \<and> \<not> room s (din sin) (Suc b))"
proof -
  from load_ok [OF s f b] obtain ret blk sin1 s1 where
    l: "sfs_bmap_load_nolock sin b s = Some (ret, blk, sin1, s1)" "loaded s sin b ret blk sin1 s1" by blast
  from l(2) have c: "fs_step s (din sin) s1 (din sin1)" "fc s1 (din sin1) = fc s (din sin)" "same_file sin sin1"
    by (simp_all add: loaded_def)
  from c(1) have s1: "sfs_ok s1" "file_ok s1 (din sin1)" "sblocks s1 = sblocks s" by (simp_all add: fs_step_def)
  show ?thesis
  proof (cases "ret = 0")
    case True
    with l(2) have t: "blk = bno (img s1) (din sin1) b" "iblocks (din sin1) = max (iblocks (din sin)) (Suc b)"
      "\<forall>k > b. room s (din sin) k \<longrightarrow> room s1 (din sin1) k" by (auto simp: loaded_def)
    then have bi: "b < iblocks (din sin1)" by simp
    from w s1(1) file_okD(3,4) [OF s1(2) bi] obtain s2 where
      w2: "bop blk m s1 = Some (0, m, s2)" "goes s1 s2 (free_blocks s1) (blit (blk * SFS_BLKSIZE + off) n dat (img s1))"
      unfolding wop_def t(1) by blast
    from w2(2) have w3: "goes s1 s2 (free_blocks s1) (blit (bno (img s1) (din sin1) b * SFS_BLKSIZE + off) n dat (img s1))"
      unfolding t(1) .
    note x = fc_write [OF s1(2) bi o w3]
    have "sfs_io_step bop b sin m s = Some (0, sin1, m, s2)" using l(1) True w2(1) by (simp add: sfs_io_step_def)
    then show ?thesis using x t(2,3) c fs_step_trans [OF c(1) x(1)] by auto
  next
    case False
    with l(2) have t: "ret = - E_NO_MEM" "sin1 = sin" "\<not> room s (din sin) (Suc b)" by (auto simp: loaded_def)
    have "sfs_io_step bop b sin m s = Some (ret, sin1, m, s1)" using l(1) False by (simp add: sfs_io_step_def)
    then show ?thesis using t c by auto
  qed
qed

subsection \<open>Writing\<close>

text \<open>The bytes from \<open>o0\<close> up to \<open>p\<close> are written.\<close>

definition wrote :: "sfs \<Rightarrow> sfs_inode \<Rightarrow> nat \<Rightarrow> bytes \<Rightarrow> nat \<Rightarrow> sfs \<Rightarrow> sfs_inode \<Rightarrow> bool" where
  "wrote s sin o0 dat p s' sin' \<longleftrightarrow> o0 \<le> p \<and> fs_step s (din sin) s' (din sin') \<and> same_file sin sin' \<and>
     fc s' (din sin') = blit o0 (p - o0) dat (fc s (din sin)) \<and>
     iblocks (din sin') = max (iblocks (din sin)) (blocks_for p) \<and>
     (\<forall>k \<ge> blocks_for p. room s (din sin) k \<longrightarrow> room s' (din sin') k)"

lemma same_file_trans: "same_file a b \<Longrightarrow> same_file b c \<Longrightarrow> same_file a c"
  by (simp add: same_file_def)

lemma blit_append:
  "o0 \<le> p \<Longrightarrow> blit p n (\<lambda>i. dat (p - o0 + i)) (blit o0 (p - o0) dat c) = blit o0 (p + n - o0) dat c"
  by (auto simp: blit_def fun_eq_iff)

lemma wrote_start:
  assumes "sfs_ok s" "file_ok s (din sin)" "blocks_for o0 \<le> iblocks (din sin)"
  shows "wrote s sin o0 dat o0 s sin"
  using assms by (auto simp: wrote_def fs_step_refl same_file_def blit_def max_def)

lemma wrote_step:
  assumes w: "wrote s sin o0 dat p s1 sin1" and p: "p = b * SFS_BLKSIZE + off" "0 < n" "off + n \<le> SFS_BLKSIZE" "b < MAX_BLOCKS"
    and op: "wop bop off n (\<lambda>i. dat (p - o0 + i)) m"
  shows "\<exists>ret sin' s'. sfs_io_step bop b sin1 m s1 = Some (ret, sin', m, s') \<and>
    (ret = 0 \<and> wrote s sin o0 dat (p + n) s' sin' \<or>
     ret = - E_NO_MEM \<and> wrote s sin o0 dat p s' sin' \<and> \<not> room s (din sin) (Suc b))"
proof -
  from w have c: "o0 \<le> p" "fs_step s (din sin) s1 (din sin1)" "same_file sin sin1"
    "fc s1 (din sin1) = blit o0 (p - o0) dat (fc s (din sin))" "iblocks (din sin1) = max (iblocks (din sin)) (blocks_for p)"
    "\<And>k. k \<ge> blocks_for p \<Longrightarrow> room s (din sin) k \<Longrightarrow> room s1 (din sin1) k" by (auto simp: wrote_def)
  from c(2) have s1: "sfs_ok s1" "file_ok s1 (din sin1)" by (simp_all add: fs_step_def)
  have bp: "blocks_for p = (if off = 0 then b else Suc b)" using p blocks_for_in [of off b] by simp
  have bpn: "blocks_for (p + n) = Suc b" using p blocks_for_in [of "off + n" b] by (simp add: add.assoc)
  have le: "b \<le> iblocks (din sin1)" using c(5) bp by (auto split: if_splits)
  from write_step [OF op s1 le p(4,3)] obtain ret sin2 s2 where
    r: "sfs_io_step bop b sin1 m s1 = Some (ret, sin2, m, s2)" "fs_step s1 (din sin1) s2 (din sin2)" "same_file sin1 sin2"
      "ret = 0 \<and> fc s2 (din sin2) = blit p n (\<lambda>i. dat (p - o0 + i)) (fc s1 (din sin1)) \<and>
         iblocks (din sin2) = max (iblocks (din sin1)) (Suc b) \<and> (\<forall>k > b. room s1 (din sin1) k \<longrightarrow> room s2 (din sin2) k) \<or>
       ret = - E_NO_MEM \<and> fc s2 (din sin2) = fc s1 (din sin1) \<and> sin2 = sin1 \<and> \<not> room s1 (din sin1) (Suc b)"
    unfolding p(1) by blast
  note tr = fs_step_trans [OF c(2) r(2)] same_file_trans [OF c(3) r(3)]
  from r(4) show ?thesis
  proof (elim disjE conjE)
    assume h: "ret = 0" "fc s2 (din sin2) = blit p n (\<lambda>i. dat (p - o0 + i)) (fc s1 (din sin1))"
      "iblocks (din sin2) = max (iblocks (din sin1)) (Suc b)" "\<forall>k > b. room s1 (din sin1) k \<longrightarrow> room s2 (din sin2) k"
    have "wrote s sin o0 dat (p + n) s2 sin2"
      unfolding wrote_def
    proof (intro conjI allI impI)
      show "fc s2 (din sin2) = blit o0 (p + n - o0) dat (fc s (din sin))" unfolding h(2) c(4) by (rule blit_append [OF c(1)])
      show "iblocks (din sin2) = max (iblocks (din sin)) (blocks_for (p + n))" using h(3) c(5) bp bpn by (auto simp: max_def)
      fix k assume "blocks_for (p + n) \<le> k" "room s (din sin) k"
      then show "room s2 (din sin2) k" using h(4) c(6) bp bpn by (simp split: if_splits)
    qed (use c(1) tr in auto)
    then show ?thesis using r(1) h(1) by blast
  next
    assume h: "ret = - E_NO_MEM" "fc s2 (din sin2) = fc s1 (din sin1)" "sin2 = sin1" "\<not> room s1 (din sin1) (Suc b)"
    have F: "room s2 (din sin2) k" if "room s1 (din sin1) k" "Suc b \<le> k" for k
      using room_mono [OF that] h(4) by blast
    have nr: "\<not> room s (din sin) (Suc b)" using c(6) [of "Suc b"] h(4) bp by (auto split: if_splits)
    have "wrote s sin o0 dat p s2 sin2"
      unfolding wrote_def
    proof (intro conjI allI impI)
      fix k assume k: "blocks_for p \<le> k" "room s (din sin) k"
      have "k \<le> b" using nr room_mono [OF k(2), of "Suc b"] by linarith
      then show "room s2 (din sin2) k"
        using le bno_nz_indirect [OF s1(2), of SFS_NDIRECT] by (auto simp: room_def h(3))
    qed (use c tr h in auto)
    then show ?thesis using r(1) h(1) nr by blast
  qed
qed

text \<open>What a write that has started ends with: everything is written, or the disk is full and the bytes up
  to some p are written.\<close>

definition write_end :: "sfs \<Rightarrow> sfs_inode \<Rightarrow> nat \<Rightarrow> bytes \<Rightarrow> nat \<Rightarrow> int \<Rightarrow> nat \<Rightarrow> sfs_inode \<Rightarrow> sfs \<Rightarrow> bool" where
  "write_end s sin o0 dat e ret alen sin' s' \<longleftrightarrow> wrote s sin o0 dat (o0 + alen) s' sin' \<and> o0 + alen \<le> e \<and>
     (ret = 0 \<and> o0 + alen = e \<or>
      ret = - E_NO_MEM \<and> o0 + alen < e \<and> \<not> room s (din sin) (blocks_for e))"

lemma write_endI_fail:
  assumes "wrote s sin o0 dat p s' sin'" "alen = p - o0" "\<not> room s (din sin) (Suc b)" "p < e" "b * SFS_BLKSIZE < e"
  shows "write_end s sin o0 dat e (- E_NO_MEM) alen sin' s'"
proof -
  have "\<not> blocks_for e \<le> b" unfolding blocks_for_bounds(2) [symmetric] using assms(5) by simp
  then have "\<not> room s (din sin) (blocks_for e)" using room_mono [of s "din sin" "blocks_for e" "Suc b"] assms(3) by auto
  then show ?thesis using assms by (auto simp: write_end_def wrote_def)
qed

lemma write_loop:
  assumes "wrote s sin o0 dat (b * SFS_BLKSIZE) s1 sin1" "e div SFS_BLKSIZE = b + nblks" "e \<le> MAX_BLOCKS * SFS_BLKSIZE"
    "o0 + alen = b * SFS_BLKSIZE" "\<And>i. m (addr + i) = dat (alen + i)"
  shows "\<exists>ret alen' sin' s'. sfs_io_loop nblks True addr b e alen sin1 m s1 = Some (ret, alen', sin', m, s') \<and>
    write_end s sin o0 dat e ret alen' sin' s'"
  using assms
proof (induction nblks arbitrary: addr b alen sin1 s1)
  case 0
  let ?sz = "e mod SFS_BLKSIZE"
  have e: "e = b * SFS_BLKSIZE + ?sz" using 0(2) by (metis add.right_neutral div_mult_mod_eq)
  have al: "b * SFS_BLKSIZE - o0 = alen" using 0(4) by simp
  show ?case
  proof (cases "?sz = 0")
    case True
    then have "write_end s sin o0 dat e 0 alen sin1 s1" using 0(1,4) e by (simp add: write_end_def)
    then show ?thesis using True by simp
  next
    case False
    have sz: "?sz < SFS_BLKSIZE" by simp
    have "b * SFS_BLKSIZE < MAX_BLOCKS * SFS_BLKSIZE" using e False 0(3) by linarith
    then have bm: "b < MAX_BLOCKS" by simp
    have op: "wop (sfs_buf_op True addr ?sz 0) 0 ?sz (\<lambda>i. dat (b * SFS_BLKSIZE - o0 + i)) m"
      using wop_buf [of 0 ?sz addr m] sz 0(5) al by simp
    from wrote_step [OF 0(1) _ _ _ bm op] False sz obtain ret sin2 s2 where
      r: "sfs_io_step (sfs_buf_op True addr ?sz 0) b sin1 m s1 = Some (ret, sin2, m, s2)"
        "ret = 0 \<and> wrote s sin o0 dat (b * SFS_BLKSIZE + ?sz) s2 sin2 \<or>
         ret = - E_NO_MEM \<and> wrote s sin o0 dat (b * SFS_BLKSIZE) s2 sin2 \<and> \<not> room s (din sin) (Suc b)" by auto
    have lt: "b * SFS_BLKSIZE < e" using e False by linarith
    have "write_end s sin o0 dat e ret (if ret \<noteq> 0 then alen else alen + ?sz) sin2 s2"
      using r(2)
    proof (elim disjE conjE)
      assume "ret = 0" "wrote s sin o0 dat (b * SFS_BLKSIZE + ?sz) s2 sin2"
      moreover have "o0 + (alen + ?sz) = e" using 0(4) e by linarith
      ultimately show ?thesis using e by (simp add: write_end_def)
    next
      assume h: "ret = - E_NO_MEM" "wrote s sin o0 dat (b * SFS_BLKSIZE) s2 sin2" "\<not> room s (din sin) (Suc b)"
      from write_endI_fail [OF h(2) al [symmetric] h(3) lt lt] h(1) show ?thesis by simp
    qed
    then show ?thesis using False r(1) by (simp add: Let_def)
  qed
next
  case (Suc nblks)
  have al: "b * SFS_BLKSIZE - o0 = alen" using Suc.prems(4) by simp
  have "(b + Suc nblks) * SFS_BLKSIZE \<le> e" using Suc.prems(2) by (metis div_times_less_eq_dividend)
  then have be: "Suc b * SFS_BLKSIZE \<le> e" by (simp add: algebra_simps)
  then have lt: "b * SFS_BLKSIZE < e" using sizes(1) by (simp del: sizes)
  then have "b * SFS_BLKSIZE < MAX_BLOCKS * SFS_BLKSIZE" using Suc.prems(3) by (rule less_le_trans)
  then have bm: "b < MAX_BLOCKS" by simp
  have op: "wop (sfs_block_op True addr) 0 SFS_BLKSIZE (\<lambda>i. dat (b * SFS_BLKSIZE - o0 + i)) m"
    using wop_block [of addr m] Suc.prems(5) al by simp
  from wrote_step [OF Suc.prems(1) _ _ _ bm op] obtain ret sin2 s2 where
    r: "sfs_io_step (sfs_block_op True addr) b sin1 m s1 = Some (ret, sin2, m, s2)"
      "ret = 0 \<and> wrote s sin o0 dat (Suc b * SFS_BLKSIZE) s2 sin2 \<or>
       ret = - E_NO_MEM \<and> wrote s sin o0 dat (b * SFS_BLKSIZE) s2 sin2 \<and> \<not> room s (din sin) (Suc b)"
    by (auto simp: add.commute)
  from r(2) show ?case
  proof (elim disjE conjE)
    assume h: "ret = 0" "wrote s sin o0 dat (Suc b * SFS_BLKSIZE) s2 sin2"
    have "\<exists>ret alen' sin' s'. sfs_io_loop nblks True (addr + SFS_BLKSIZE) (Suc b) e (alen + SFS_BLKSIZE) sin2 m s2 =
        Some (ret, alen', sin', m, s') \<and> write_end s sin o0 dat e ret alen' sin' s'"
    proof (rule Suc.IH [OF h(2) _ Suc.prems(3)])
      show "m (addr + SFS_BLKSIZE + i) = dat (alen + SFS_BLKSIZE + i)" for i
        using Suc.prems(5) [of "SFS_BLKSIZE + i"] by (simp add: add.assoc)
    qed (use Suc.prems(2,4) in auto)
    then show ?thesis using r(1) h(1) by simp
  next
    assume h: "ret = - E_NO_MEM" "wrote s sin o0 dat (b * SFS_BLKSIZE) s2 sin2" "\<not> room s (din sin) (Suc b)"
    from write_endI_fail [OF h(2) al [symmetric] h(3) lt lt] h(1) r(1) show ?thesis by simp
  qed
qed

lemma write_body:
  assumes s: "sfs_ok s" and f: "file_ok s (din sin)" and o: "blocks_for o0 \<le> iblocks (din sin)" "o0 < e"
    and e: "e \<le> MAX_BLOCKS * SFS_BLKSIZE"
  shows "\<exists>ret alen sin' s'. sfs_io_body True addr o0 e sin m s = Some (ret, alen, sin', m, s') \<and>
    write_end s sin o0 (\<lambda>i. m (addr + i)) e ret alen sin' s'"
proof -
  let ?b = "o0 div SFS_BLKSIZE" and ?off = "o0 mod SFS_BLKSIZE" and ?dat = "\<lambda>i. m (addr + i)"
  note w0 = wrote_start [OF s f o(1), of ?dat]
  have oe: "o0 = ?b * SFS_BLKSIZE + ?off" by simp
  have le: "?b \<le> e div SFS_BLKSIZE" using o(2) by (intro div_le_mono) simp
  show ?thesis
  proof (cases "?off = 0")
    case True
    then have w: "wrote s sin o0 ?dat (?b * SFS_BLKSIZE) s sin" using w0 by auto
    have "\<exists>ret alen' sin' s'. sfs_io_loop (e div SFS_BLKSIZE - ?b) True addr ?b e 0 sin m s = Some (ret, alen', sin', m, s') \<and>
        write_end s sin o0 ?dat e ret alen' sin' s'"
      by (rule write_loop [OF w _ e]) (use le True oe in auto)
    then show ?thesis using True by (simp add: sfs_io_body_def Let_def)
  next
    case False
    define nb where "nb = e div SFS_BLKSIZE - ?b"
    define sz where "sz = (if nb \<noteq> 0 then SFS_BLKSIZE - ?off else e - o0)"
    have off: "?off < SFS_BLKSIZE" by simp
    have e1: "e = e div SFS_BLKSIZE * SFS_BLKSIZE + e mod SFS_BLKSIZE" "e mod SFS_BLKSIZE < SFS_BLKSIZE" by simp_all
    have sz: "0 < sz" "?off + sz \<le> SFS_BLKSIZE" "o0 + sz \<le> e" "nb = 0 \<Longrightarrow> o0 + sz = e"
      "nb \<noteq> 0 \<Longrightarrow> o0 + sz = Suc ?b * SFS_BLKSIZE"
    proof -
      show full: "o0 + sz = Suc ?b * SFS_BLKSIZE" if "nb \<noteq> 0"
      proof -
        have "sz = SFS_BLKSIZE - ?off" using that by (simp add: sz_def)
        then show ?thesis using off oe unfolding mult_Suc by linarith
      qed
      show "nb = 0 \<Longrightarrow> o0 + sz = e" using o(2) by (simp add: sz_def)
      show "0 < sz" using off o(2) by (simp add: sz_def)
      show "?off + sz \<le> SFS_BLKSIZE"
      proof (cases "nb = 0")
        case True
        then have "e div SFS_BLKSIZE = ?b" using le by (simp add: nb_def)
        then have "e = ?b * SFS_BLKSIZE + e mod SFS_BLKSIZE" using e1(1) by simp
        then have "?off + (e - o0) \<le> SFS_BLKSIZE" using oe e1(2) o(2) by linarith
        then show ?thesis using True by (simp add: sz_def)
      qed (use off in \<open>simp add: sz_def\<close>)
      show "o0 + sz \<le> e"
      proof (cases "nb = 0")
        case False
        then have "Suc ?b \<le> e div SFS_BLKSIZE" by (simp add: nb_def)
        then have "Suc ?b * SFS_BLKSIZE \<le> e div SFS_BLKSIZE * SFS_BLKSIZE" by (rule mult_le_mono1)
        also have "\<dots> \<le> e" by simp
        finally show ?thesis using full [OF False] by simp
      qed (use o(2) in \<open>simp add: sz_def\<close>)
    qed
    have "?b * SFS_BLKSIZE < MAX_BLOCKS * SFS_BLKSIZE" using oe o(2) e by linarith
    then have bm: "?b < MAX_BLOCKS" by simp
    have op: "wop (sfs_buf_op True addr sz ?off) ?off sz (\<lambda>i. ?dat (o0 - o0 + i)) m"
      using wop_buf [OF off sz(2), of addr m] by simp
    from wrote_step [OF w0 oe sz(1,2) bm op] obtain ret sin1 s1 where
      r: "sfs_io_step (sfs_buf_op True addr sz ?off) ?b sin m s = Some (ret, sin1, m, s1)"
        "ret = 0 \<and> wrote s sin o0 ?dat (o0 + sz) s1 sin1 \<or>
         ret = - E_NO_MEM \<and> wrote s sin o0 ?dat o0 s1 sin1 \<and> \<not> room s (din sin) (Suc ?b)" by blast
    have body: "sfs_io_body True addr o0 e sin m s =
        (if ret \<noteq> 0 then Some (ret, 0, sin1, m, s1) else if nb = 0 then Some (0, sz, sin1, m, s1)
         else sfs_io_loop (nb - 1) True (addr + sz) (?b + 1) e sz sin1 m s1)"
      using False r(1) unfolding sfs_io_body_def Let_def nb_def [symmetric] sz_def [symmetric] by simp
    from r(2) show ?thesis
    proof (elim disjE conjE)
      assume h: "ret = 0" "wrote s sin o0 ?dat (o0 + sz) s1 sin1"
      show ?thesis
      proof (cases "nb = 0")
        case True
        then have "write_end s sin o0 ?dat e 0 sz sin1 s1" using h sz(4) by (simp add: write_end_def)
        then show ?thesis unfolding body using True h(1) by simp
      next
        case False
        have w: "wrote s sin o0 ?dat (Suc ?b * SFS_BLKSIZE) s1 sin1" using h(2) sz(5) [OF False] by simp
        have "\<exists>ret alen' sin' s'. sfs_io_loop (nb - 1) True (addr + sz) (Suc ?b) e sz sin1 m s1 = Some (ret, alen', sin', m, s') \<and>
            write_end s sin o0 ?dat e ret alen' sin' s'"
          by (rule write_loop [OF w _ e sz(5) [OF False]]) (use False le in \<open>auto simp: nb_def add.assoc\<close>)
        then show ?thesis unfolding body using False h(1) by simp
      qed
    next
      assume h: "ret = - E_NO_MEM" "wrote s sin o0 ?dat o0 s1 sin1" "\<not> room s (din sin) (Suc ?b)"
      have "?b * SFS_BLKSIZE < e" using oe o(2) by linarith
      from write_endI_fail [OF h(2) _ h(3) o(2) this, of 0] h(1) show ?thesis unfolding body by simp
    qed
  qed
qed

subsection \<open>Reading\<close>

definition was_read :: "sfs \<Rightarrow> sfs_inode \<Rightarrow> nat \<Rightarrow> nat \<Rightarrow> mem \<Rightarrow> nat \<Rightarrow> mem \<Rightarrow> sfs \<Rightarrow> bool" where
  "was_read s sin o0 addr m p m' s' \<longleftrightarrow> goes s s' (free_blocks s) (img s) \<and> o0 \<le> p \<and>
     m' = blit addr (p - o0) (\<lambda>i. fc s (din sin) (o0 + i)) m"

definition rop :: "(nat \<Rightarrow> mem \<Rightarrow> sfs \<Rightarrow> (int \<times> mem \<times> sfs) option) \<Rightarrow> nat \<Rightarrow> nat \<Rightarrow> nat \<Rightarrow> bool" where
  "rop bop off n addr \<longleftrightarrow> (\<forall>m s b. sfs_ok s \<longrightarrow> 0 < b \<longrightarrow> b < sblocks s \<longrightarrow>
     (\<exists>s'. bop b m s = Some (0, blit addr n (\<lambda>i. img s (b * SFS_BLKSIZE + off + i)) m, s') \<and>
       goes s s' (free_blocks s) (img s)))"

lemma blit_blit: "blit addr n (blit 0 n d e) m = blit addr n d m"
  by (rule blit_cong) (simp add: blit_def)

lemma rop_buf:
  assumes "off < SFS_BLKSIZE" "off + n \<le> SFS_BLKSIZE"
  shows "rop (sfs_buf_op False addr n off) off n addr"
  unfolding rop_def
proof (intro allI impI)
  fix m s b assume "sfs_ok s" "0 < b" "b < sblocks s"
  from rbuf_ok [OF this assms, of "\<lambda>i. m (addr + i)"]
  show "\<exists>s'. sfs_buf_op False addr n off b m s = Some (0, blit addr n (\<lambda>i. img s (b * SFS_BLKSIZE + off + i)) m, s') \<and>
      goes s s' (free_blocks s) (img s)"
    by (auto simp: sfs_buf_op_def blit_blit)
qed

lemma rop_block: "rop (sfs_block_op False addr) 0 SFS_BLKSIZE addr"
  unfolding rop_def
proof (intro allI impI)
  fix m s b assume "sfs_ok s" "0 < b" "b < sblocks s"
  from rblock_ok [OF this, of "\<lambda>i. m (addr + i)"]
  show "\<exists>s'. sfs_block_op False addr b m s = Some (0, blit addr SFS_BLKSIZE (\<lambda>i. img s (b * SFS_BLKSIZE + 0 + i)) m, s') \<and>
      goes s s' (free_blocks s) (img s)"
    by (auto simp: sfs_block_op_def blit_blit)
qed

lemma read_step:
  assumes w: "rop bop off n addr" and s: "sfs_ok s" and f: "file_ok s (din sin)" and b: "b < iblocks (din sin)"
    and o: "off + n \<le> SFS_BLKSIZE"
  shows "\<exists>s'. sfs_io_step bop b sin m s = Some (0, sin, blit addr n (\<lambda>i. fc s (din sin) (b * SFS_BLKSIZE + off + i)) m, s') \<and>
    goes s s' (free_blocks s) (img s)"
proof -
  let ?blk = "bno (img s) (din sin) b"
  from load_old [OF s f b] obtain s1 where
    l: "sfs_bmap_load_nolock sin b s = Some (0, ?blk, sin, s1)" "goes s s1 (free_blocks s) (img s)" by blast
  from goes_back [OF l(2)] have s1: "sfs_ok s1" "sblocks s1 = sblocks s" "free_blocks s1 = free_blocks s" "img s1 = img s" by auto
  have "0 < ?blk" "?blk < sblocks s1" using file_okD(3,4) [OF f b] s1 by simp_all
  with w s1(1) have "\<exists>s'. bop ?blk m s1 = Some (0, blit addr n (\<lambda>i. img s1 (?blk * SFS_BLKSIZE + off + i)) m, s') \<and>
       goes s1 s' (free_blocks s1) (img s1)" unfolding rop_def by blast
  then obtain s2 where r: "bop ?blk m s1 = Some (0, blit addr n (\<lambda>i. img s (?blk * SFS_BLKSIZE + off + i)) m, s2)"
    "goes s1 s2 (free_blocks s) (img s)" unfolding s1 by blast
  have "fc s (din sin) (b * SFS_BLKSIZE + off + i) = img s (?blk * SFS_BLKSIZE + off + i)" if "i < n" for i
    using b o that block_div [of "off + i" b] block_mod [of "off + i" b] by (simp add: fc_def add.assoc)
  then have "blit addr n (\<lambda>i. img s (?blk * SFS_BLKSIZE + off + i)) m = blit addr n (\<lambda>i. fc s (din sin) (b * SFS_BLKSIZE + off + i)) m"
    by (intro blit_cong) simp
  then show ?thesis using l(1) r goes_trans [OF l(2) r(2)] by (simp add: sfs_io_step_def)
qed

lemma was_read_step:
  assumes w: "was_read s sin o0 addr m p m1 s1" and f: "file_ok s (din sin)" and b: "b < iblocks (din sin)"
    and p: "p = b * SFS_BLKSIZE + off" "off + n \<le> SFS_BLKSIZE" and op: "rop bop off n (addr + (p - o0))"
  shows "\<exists>m2 s2. sfs_io_step bop b sin m1 s1 = Some (0, sin, m2, s2) \<and> was_read s sin o0 addr m (p + n) m2 s2"
proof -
  from w have g: "goes s s1 (free_blocks s) (img s)" "o0 \<le> p" "m1 = blit addr (p - o0) (\<lambda>i. fc s (din sin) (o0 + i)) m"
    by (simp_all add: was_read_def)
  note same = goes_same [OF g(1) f]
  from read_step [OF op same(5,6) b p(2), of m1] obtain s2 where
    r: "sfs_io_step bop b sin m1 s1 = Some (0, sin, blit (addr + (p - o0)) n (\<lambda>i. fc s (din sin) (p + i)) m1, s2)"
      "goes s1 s2 (free_blocks s) (img s)"
    unfolding same(2,4,8) p(1) by blast
  have "blit (addr + (p - o0)) n (\<lambda>i. fc s (din sin) (p + i)) m1 = blit addr (p + n - o0) (\<lambda>i. fc s (din sin) (o0 + i)) m"
    using g(2) unfolding g(3) by (auto simp: blit_def fun_eq_iff intro!: arg_cong [where f = "fc s (din sin)"])
  then show ?thesis using r g(2) goes_trans [OF g(1) r(2)] by (auto simp: was_read_def)
qed

lemma read_loop:
  assumes "was_read s sin o0 addr0 m (b * SFS_BLKSIZE) m1 s1" "file_ok s (din sin)" "e div SFS_BLKSIZE = b + nblks"
    "e \<le> iblocks (din sin) * SFS_BLKSIZE" "o0 + alen = b * SFS_BLKSIZE" "addr = addr0 + alen"
  shows "\<exists>m' s'. sfs_io_loop nblks False addr b e alen sin m1 s1 = Some (0, e - o0, sin, m', s') \<and>
    was_read s sin o0 addr0 m e m' s'"
  using assms
proof (induction nblks arbitrary: addr b alen m1 s1)
  case 0
  let ?sz = "e mod SFS_BLKSIZE"
  have e: "e = b * SFS_BLKSIZE + ?sz" using 0(3) by (metis add.right_neutral div_mult_mod_eq)
  have al: "b * SFS_BLKSIZE - o0 = alen" using 0(5) by simp
  have len: "alen + ?sz = e - o0" using 0(5) e by linarith
  show ?case
  proof (cases "?sz = 0")
    case True
    then show ?thesis using 0(1) e len by simp
  next
    case False
    have sz: "?sz < SFS_BLKSIZE" by simp
    have "b * SFS_BLKSIZE < iblocks (din sin) * SFS_BLKSIZE" using e False 0(4) by linarith
    then have bi: "b < iblocks (din sin)" by simp
    have op: "rop (sfs_buf_op False addr ?sz 0) 0 ?sz (addr0 + (b * SFS_BLKSIZE - o0))"
      using rop_buf [of 0 ?sz addr] sz 0(6) al by simp
    from was_read_step [OF 0(1,2) bi _ _ op] sz e obtain m2 s2 where
      r: "sfs_io_step (sfs_buf_op False addr ?sz 0) b sin m1 s1 = Some (0, sin, m2, s2)" "was_read s sin o0 addr0 m e m2 s2" by auto
    then show ?thesis using False len by (simp add: Let_def)
  qed
next
  case (Suc nblks)
  have al: "b * SFS_BLKSIZE - o0 = alen" using Suc.prems(5) by simp
  have "(b + Suc nblks) * SFS_BLKSIZE \<le> e" using Suc.prems(3) by (metis div_times_less_eq_dividend)
  then have be: "Suc b * SFS_BLKSIZE \<le> e" by (simp add: algebra_simps)
  then have "Suc b * SFS_BLKSIZE \<le> iblocks (din sin) * SFS_BLKSIZE" using Suc.prems(4) by (rule order_trans)
  then have "Suc b \<le> iblocks (din sin)" by (simp del: mult_Suc)
  then have bi: "b < iblocks (din sin)" by simp
  have op: "rop (sfs_block_op False addr) 0 SFS_BLKSIZE (addr0 + (b * SFS_BLKSIZE - o0))"
    using rop_block [of addr] Suc.prems(6) al by simp
  from was_read_step [OF Suc.prems(1,2) bi _ _ op] obtain m2 s2 where
    r: "sfs_io_step (sfs_block_op False addr) b sin m1 s1 = Some (0, sin, m2, s2)"
      "was_read s sin o0 addr0 m (Suc b * SFS_BLKSIZE) m2 s2" by (auto simp: add.commute)
  have "\<exists>m' s'. sfs_io_loop nblks False (addr + SFS_BLKSIZE) (Suc b) e (alen + SFS_BLKSIZE) sin m2 s2 =
      Some (0, e - o0, sin, m', s') \<and> was_read s sin o0 addr0 m e m' s'"
    by (rule Suc.IH [OF r(2) Suc.prems(2) _ Suc.prems(4)]) (use Suc.prems(3,5,6) in auto)
  then show ?case using r(1) by simp
qed

lemma read_body:
  assumes s: "sfs_ok s" and f: "file_ok s (din sin)" and o: "o0 < e" and e: "e \<le> iblocks (din sin) * SFS_BLKSIZE"
  shows "\<exists>m' s'. sfs_io_body False addr o0 e sin m s = Some (0, e - o0, sin, m', s') \<and> was_read s sin o0 addr m e m' s'"
proof -
  let ?b = "o0 div SFS_BLKSIZE" and ?off = "o0 mod SFS_BLKSIZE"
  have w0: "was_read s sin o0 addr m o0 m s" using s by (auto simp: was_read_def goes_def blit_def)
  have oe: "o0 = ?b * SFS_BLKSIZE + ?off" by simp
  have le: "?b \<le> e div SFS_BLKSIZE" using o by (intro div_le_mono) simp
  show ?thesis
  proof (cases "?off = 0")
    case True
    then have w: "was_read s sin o0 addr m (?b * SFS_BLKSIZE) m s" using w0 by auto
    have "\<exists>m' s'. sfs_io_loop (e div SFS_BLKSIZE - ?b) False addr ?b e 0 sin m s = Some (0, e - o0, sin, m', s') \<and>
        was_read s sin o0 addr m e m' s'"
      by (rule read_loop [OF w f _ e]) (use le True oe in auto)
    then show ?thesis using True by (simp add: sfs_io_body_def Let_def)
  next
    case False
    define nb where "nb = e div SFS_BLKSIZE - ?b"
    define sz where "sz = (if nb \<noteq> 0 then SFS_BLKSIZE - ?off else e - o0)"
    have off: "?off < SFS_BLKSIZE" by simp
    have e1: "e = e div SFS_BLKSIZE * SFS_BLKSIZE + e mod SFS_BLKSIZE" "e mod SFS_BLKSIZE < SFS_BLKSIZE" by simp_all
    have sz: "?off + sz \<le> SFS_BLKSIZE" "nb = 0 \<Longrightarrow> o0 + sz = e" "nb \<noteq> 0 \<Longrightarrow> o0 + sz = Suc ?b * SFS_BLKSIZE"
    proof -
      show full: "o0 + sz = Suc ?b * SFS_BLKSIZE" if "nb \<noteq> 0"
      proof -
        have "sz = SFS_BLKSIZE - ?off" using that by (simp add: sz_def)
        then show ?thesis using off oe unfolding mult_Suc by linarith
      qed
      show "nb = 0 \<Longrightarrow> o0 + sz = e" using o by (simp add: sz_def)
      show "?off + sz \<le> SFS_BLKSIZE"
      proof (cases "nb = 0")
        case True
        then have "e div SFS_BLKSIZE = ?b" using le by (simp add: nb_def)
        then have "e = ?b * SFS_BLKSIZE + e mod SFS_BLKSIZE" using e1(1) by simp
        then have "?off + (e - o0) \<le> SFS_BLKSIZE" using oe e1(2) o by linarith
        then show ?thesis using True by (simp add: sz_def)
      qed (use off in \<open>simp add: sz_def\<close>)
    qed
    have "?b * SFS_BLKSIZE < iblocks (din sin) * SFS_BLKSIZE" using oe o e by linarith
    then have bi: "?b < iblocks (din sin)" by simp
    have op: "rop (sfs_buf_op False addr sz ?off) ?off sz (addr + (o0 - o0))"
      using rop_buf [OF off sz(1), of addr] by simp
    from was_read_step [OF w0 f bi oe sz(1) op] obtain m1 s1 where
      r: "sfs_io_step (sfs_buf_op False addr sz ?off) ?b sin m s = Some (0, sin, m1, s1)"
        "was_read s sin o0 addr m (o0 + sz) m1 s1" by blast
    have body: "sfs_io_body False addr o0 e sin m s =
        (if nb = 0 then Some (0, sz, sin, m1, s1) else sfs_io_loop (nb - 1) False (addr + sz) (?b + 1) e sz sin m1 s1)"
      using False r(1) unfolding sfs_io_body_def Let_def nb_def [symmetric] sz_def [symmetric] by simp
    show ?thesis
    proof (cases "nb = 0")
      case True
      then show ?thesis unfolding body using r(2) sz(2) by auto
    next
      case nb: False
      have w: "was_read s sin o0 addr m (Suc ?b * SFS_BLKSIZE) m1 s1" using r(2) sz(3) [OF nb] by simp
      have "\<exists>m' s'. sfs_io_loop (nb - 1) False (addr + sz) (Suc ?b) e sz sin m1 s1 = Some (0, e - o0, sin, m', s') \<and>
          was_read s sin o0 addr m e m' s'"
        by (rule read_loop [OF w f _ e sz(3) [OF nb]]) (use nb le in \<open>auto simp: nb_def\<close>)
      then show ?thesis unfolding body using nb by simp
    qed
  qed
qed

subsection \<open>Resizing\<close>

lemma trunc_grow_ok:
  assumes "sfs_ok s" "file_ok s (din sin)" "n = iblocks (din sin)" "n + k \<le> MAX_BLOCKS"
  shows "\<exists>ret sin' s'. trunc_grow k n sin s = Some (ret, sin', s') \<and> fs_step s (din sin) s' (din sin') \<and>
    same_file sin sin' \<and> fc s' (din sin') = fc s (din sin) \<and>
    (ret = 0 \<and> iblocks (din sin') = n + k \<and> (k = 0 \<or> room s (din sin) (n + k)) \<or>
     ret = - E_NO_MEM \<and> \<not> room s (din sin) (n + k) \<and> n \<le> iblocks (din sin') \<and> iblocks (din sin') < n + k \<and>
       (room s (din sin) (Suc n) \<longrightarrow> n < iblocks (din sin')))"
  using assms
proof (induction k arbitrary: n sin s)
  case 0
  then show ?case by (simp add: fs_step_refl same_file_def)
next
  case (Suc k)
  have i: "n \<le> iblocks (din sin)" "n < MAX_BLOCKS" using Suc.prems by auto
  from load_ok [OF Suc.prems(1,2) i] obtain ret b sin1 s1 where
    l: "sfs_bmap_load_nolock sin n s = Some (ret, b, sin1, s1)" "loaded s sin n ret b sin1 s1" by blast
  from l(2) have c: "fs_step s (din sin) s1 (din sin1)" "fc s1 (din sin1) = fc s (din sin)" "same_file sin sin1"
    by (simp_all add: loaded_def)
  show ?case
  proof (cases "ret = 0")
    case True
    with l(2) Suc.prems(3) have t: "iblocks (din sin1) = Suc n" "\<And>j. n < j \<Longrightarrow> room s1 (din sin1) j \<longleftrightarrow> room s (din sin) j"
      by (auto simp: loaded_def)
    have s1: "sfs_ok s1" "file_ok s1 (din sin1)" using c(1) by (simp_all add: fs_step_def)
    have "room s1 (din sin1) (Suc n)"
      using t(1) bno_nz_indirect [OF s1(2), of SFS_NDIRECT] by (cases "SFS_NDIRECT < Suc n") (simp_all add: room_def)
    then have rn: "room s (din sin) (Suc n)" using t(2) by simp
    from Suc.IH [OF s1 t(1) [symmetric]] Suc.prems(4) obtain ret2 sin2 s2 where
      r: "trunc_grow k (Suc n) sin1 s1 = Some (ret2, sin2, s2)" "fs_step s1 (din sin1) s2 (din sin2)" "same_file sin1 sin2"
        "fc s2 (din sin2) = fc s1 (din sin1)"
        "ret2 = 0 \<and> iblocks (din sin2) = Suc n + k \<and> (k = 0 \<or> room s1 (din sin1) (Suc n + k)) \<or>
         ret2 = - E_NO_MEM \<and> \<not> room s1 (din sin1) (Suc n + k) \<and> Suc n \<le> iblocks (din sin2) \<and> iblocks (din sin2) < Suc n + k \<and>
           (room s1 (din sin1) (Suc (Suc n)) \<longrightarrow> Suc n < iblocks (din sin2))" by auto
    have "trunc_grow (Suc k) n sin s = Some (ret2, sin2, s2)" using l(1) True r(1) by simp
    then show ?thesis
      using fs_step_trans [OF c(1) r(2)] same_file_trans [OF c(3) r(3)] r(4,5) c(2) t(2) [of "Suc n + k"] rn by auto
  next
    case False
    with l(2) have t: "ret = - E_NO_MEM" "sin1 = sin" "\<not> room s (din sin) (Suc n)" by (auto simp: loaded_def)
    have "trunc_grow (Suc k) n sin s = Some (ret, sin1, s1)" using l(1) False by simp
    moreover have "\<not> room s (din sin) (n + Suc k)" using t(3) room_mono [of s "din sin" "n + Suc k" "Suc n"] by auto
    ultimately show ?thesis using c t Suc.prems(3) by simp
  qed
qed

lemma trunc_shrink_ok:
  assumes "sfs_ok s" "file_ok s (din sin)" "iblocks (din sin) = n + k"
  shows "\<exists>sin' s'. trunc_shrink k sin s = Some (0, sin', s') \<and> fs_step s (din sin) s' (din sin') \<and> same_file sin sin' \<and>
    iblocks (din sin') = n \<and> (\<forall>x. x div SFS_BLKSIZE < n \<longrightarrow> fc s' (din sin') x = fc s (din sin) x)"
  using assms
proof (induction k arbitrary: sin s)
  case 0
  then show ?case by (simp add: fs_step_refl same_file_def)
next
  case (Suc k)
  from truncate_ok [OF Suc.prems(1,2), of "n + k"] Suc.prems(3) obtain sin1 s1 where
    l: "sfs_bmap_truncate_nolock sin s = Some (0, sin1, s1)" "fs_step s (din sin) s1 (din sin1)" "iblocks (din sin1) = n + k"
      "same_file sin sin1" "fc s1 (din sin1) = (\<lambda>x. if x div SFS_BLKSIZE < n + k then fc s (din sin) x else 0)" by auto
  have s1: "sfs_ok s1" "file_ok s1 (din sin1)" using l(2) by (simp_all add: fs_step_def)
  from Suc.IH [OF s1 l(3)] obtain sin2 s2 where
    r: "trunc_shrink k sin1 s1 = Some (0, sin2, s2)" "fs_step s1 (din sin1) s2 (din sin2)" "same_file sin1 sin2"
      "iblocks (din sin2) = n" "\<forall>x. x div SFS_BLKSIZE < n \<longrightarrow> fc s2 (din sin2) x = fc s1 (din sin1) x" by blast
  have "trunc_shrink (Suc k) sin s = Some (0, sin2, s2)" using l(1) r(1) by simp
  then show ?case
    using fs_step_trans [OF l(2) r(2)] same_file_trans [OF l(4) r(3)] r(4,5) l(5) by simp
qed

text \<open>The first file block that no block of an inode can stand for.\<close>

lemma load_beyond: "sfs_bmap_load_nolock sin MAX_BLOCKS s = None"
  by (simp add: sfs_bmap_load_nolock_def sfs_bmap_get_nolock_def MAX_BLOCKS_def bind_eq_None_conv) 

lemma load_gap: "iblocks (din sin) < i \<Longrightarrow> sfs_bmap_load_nolock sin i s = None"
  by (simp add: sfs_bmap_load_nolock_def)

lemma trunc_grow_beyond:
  assumes "sfs_ok s" "file_ok s (din sin)" "n = iblocks (din sin)" "MAX_BLOCKS < n + k" "room s (din sin) MAX_BLOCKS"
  shows "trunc_grow k n sin s = None"
  using assms
proof (induction k arbitrary: n sin s)
  case 0
  then show ?case using file_okD(2) [OF 0(2)] by simp
next
  case (Suc k)
  show ?case
  proof (cases "n = MAX_BLOCKS")
    case True
    then show ?thesis by (simp add: load_beyond)
  next
    case False
    then have i: "n \<le> iblocks (din sin)" "n < MAX_BLOCKS" using Suc.prems file_okD(2) [OF Suc.prems(2)] by auto
    from load_ok [OF Suc.prems(1,2) i] obtain ret b sin1 s1 where
      l: "sfs_bmap_load_nolock sin n s = Some (ret, b, sin1, s1)" "loaded s sin n ret b sin1 s1" by blast
    have "room s (din sin) (Suc n)" using room_mono [OF Suc.prems(5)] i(2) by simp
    with l(2) Suc.prems(3) have t: "ret = 0" "iblocks (din sin1) = Suc n" "\<And>j. n < j \<Longrightarrow> room s1 (din sin1) j \<longleftrightarrow> room s (din sin) j"
      "fs_step s (din sin) s1 (din sin1)" by (auto simp: loaded_def)
    have s1: "sfs_ok s1" "file_ok s1 (din sin1)" using t(4) by (simp_all add: fs_step_def)
    have "trunc_grow k (Suc n) sin1 s1 = None"
      by (rule Suc.IH [OF s1]) (use t i Suc.prems(4,5) in auto)
    then show ?thesis using l(1) t(1) by simp
  qed
qed

subsection \<open>Writing the inode back\<close>

definition inode_range :: "disk_inode \<Rightarrow> bool" where
  "inode_range d \<longleftrightarrow> isize d < 2 ^ 32 \<and> itype d < 2 ^ 16 \<and> nlinks d < 2 ^ 16 \<and> iblocks d < 2 ^ 32 \<and>
     length (direct d) = SFS_NDIRECT \<and> (\<forall>b \<in> set (direct d). b < 2 ^ 32) \<and> indirect d < 2 ^ 32"

lemma dec_enc16: "n < 2 ^ 16 \<Longrightarrow> dec16 (enc16 n) = n"
proof -
  assume "n < 2 ^ 16"
  then have "n div 256 mod 256 = n div 256" by (simp add: div_less_iff_less_mult)
  moreover have "unat (of_nat k :: u8) = k mod 256" for k by (simp add: unsigned_of_nat take_bit_eq_mod)
  ultimately show ?thesis by (simp add: dec16_def enc16_def)
qed

lemma dec16_cong: "(\<And>k. k < 2 \<Longrightarrow> f k = g k) \<Longrightarrow> dec16 f = dec16 g"
  by (simp add: dec16_def)

lemma enc_inode_direct:
  assumes "k < SFS_NDIRECT" "j < 4"
  shows "enc_inode d (12 + 4 * k + j) = enc32 (direct d ! k) j"
proof -
  have "(4 * k + j) div 4 = k" "(4 * k + j) mod 4 = j" "4 * k + j < 48" using assms by (simp_all add: SFS_NDIRECT_def)
  then show ?thesis by (simp add: enc_inode_def blit_def add.assoc)
qed

lemma dec_enc_inode:
  assumes "inode_range d"
  shows "dec_inode (enc_inode d) = d"
proof -
  note r = assms [unfolded inode_range_def]
  have dir: "dec32 (\<lambda>i. enc_inode d (12 + 4 * k + i)) = direct d ! k" if "k < SFS_NDIRECT" for k
  proof -
    have "dec32 (\<lambda>i. enc_inode d (12 + 4 * k + i)) = dec32 (enc32 (direct d ! k))"
      by (rule dec32_cong) (simp add: enc_inode_direct [OF that])
    also have "\<dots> = direct d ! k" using r that by (intro dec_enc32) simp
    finally show ?thesis .
  qed
  have "dec32 (enc_inode d) = dec32 (enc32 (isize d))" by (rule dec32_cong) (simp add: enc_inode_def blit_def)
  moreover have "dec16 (\<lambda>i. enc_inode d (4 + i)) = dec16 (enc16 (itype d))" by (rule dec16_cong) (simp add: enc_inode_def blit_def)
  moreover have "dec16 (\<lambda>i. enc_inode d (6 + i)) = dec16 (enc16 (nlinks d))" by (rule dec16_cong) (simp add: enc_inode_def blit_def)
  moreover have "dec32 (\<lambda>i. enc_inode d (8 + i)) = dec32 (enc32 (iblocks d))" by (rule dec32_cong) (simp add: enc_inode_def blit_def)
  moreover have "dec32 (\<lambda>i. enc_inode d (60 + i)) = dec32 (enc32 (indirect d))" by (rule dec32_cong) (simp add: enc_inode_def blit_def)
  moreover have "map (\<lambda>k. dec32 (\<lambda>i. enc_inode d (12 + 4 * k + i))) [0..<SFS_NDIRECT] = direct d"
    by (rule nth_equalityI) (use r dir in auto)
  ultimately show ?thesis using r by (simp add: dec_inode_def dec_enc32 dec_enc16)
qed

lemma dec_inode_cong:
  assumes "\<And>i. i < 64 \<Longrightarrow> f i = g i"
  shows "dec_inode f = dec_inode g"
proof -
  have "map (\<lambda>k. dec32 (\<lambda>i. f (12 + 4 * k + i))) [0..<SFS_NDIRECT] = map (\<lambda>k. dec32 (\<lambda>i. g (12 + 4 * k + i))) [0..<SFS_NDIRECT]"
    by (rule map_cong [OF refl], rule dec32_cong) (simp add: assms SFS_NDIRECT_def)
  moreover have "dec32 (\<lambda>i. f (60 + i)) = dec32 (\<lambda>i. g (60 + i))" "dec32 (\<lambda>i. f (8 + i)) = dec32 (\<lambda>i. g (8 + i))" "dec32 f = dec32 g"
    by (rule dec32_cong, simp add: assms)+
  moreover have "dec16 (\<lambda>i. f (4 + i)) = dec16 (\<lambda>i. g (4 + i))" "dec16 (\<lambda>i. f (6 + i)) = dec16 (\<lambda>i. g (6 + i))"
    by (rule dec16_cong, simp add: assms)+
  ultimately show ?thesis by (simp add: dec_inode_def)
qed

lemma fsync_ok:
  assumes s: "sfs_ok s" and n: "0 < ino sin" "ino sin < sblocks s" and r: "inode_range (din sin)" "dirty sin"
  shows "\<exists>s'. sfs_fsync sin s = Some (0, sin\<lparr>dirty := False\<rparr>, s') \<and>
    goes s s' (free_blocks s) (blit (ino sin * SFS_BLKSIZE) 64 (enc_inode (din sin)) (img s))"
  using wbuf_ok [OF s n, of 0 64 "enc_inode (din sin)"] r(2)
  by (auto simp: sfs_fsync_def sizeof_disk_inode_def SFS_BLKSIZE_def)

end
