(* ===== verification/Sfs_Theorems.thy ===== *)
theory Sfs_Theorems
  imports Sfs_File
begin

text \<open>
  What the simple file system promises: reading, writing and resizing a file over a sound disk, and
  what becomes of it when the disk is full or a limit is passed.
\<close>

lemma wrap_off_id: "0 \<le> x \<Longrightarrow> x < 2 ^ 63 \<Longrightarrow> wrap_off x = x"
  by (simp add: wrap_off_def signed_take_bit_int_eq_self)

lemma max_blocks_bytes: "MAX_BLOCKS * SFS_BLKSIZE = 4243456"
  by (simp add: MAX_BLOCKS_def SFS_NDIRECT_def SFS_BLK_NENTRY_def SFS_BLKSIZE_def)

lemma max_file_size: "SFS_MAX_FILE_SIZE = 134217728"
  by (simp add: SFS_MAX_FILE_SIZE_def)

subsection \<open>One file\<close>

text \<open>The invariant of a file between operations: its blocks are exactly those its size needs.\<close>

definition file_inv :: "sfs \<Rightarrow> sfs_inode \<Rightarrow> bool" where
  "file_inv s sin \<longleftrightarrow> sfs_ok s \<and> file_ok s (din sin) \<and> itype (din sin) = SFS_TYPE_FILE \<and>
     iblocks (din sin) = blocks_for (isize (din sin))"

text \<open>The contents proper.\<close>

definition contents :: "sfs \<Rightarrow> sfs_inode \<Rightarrow> u8 list" where
  "contents s sin = map (fc s (din sin)) [0..<isize (din sin)]"

definition upd_bytes :: "u8 list \<Rightarrow> nat \<Rightarrow> u8 list \<Rightarrow> u8 list" where
  "upd_bytes xs o0 ys = take o0 xs @ ys @ drop (o0 + length ys) xs"

definition mem_bytes :: "mem \<Rightarrow> nat \<Rightarrow> nat \<Rightarrow> u8 list" where
  "mem_bytes m a n = map (\<lambda>i. m (a + i)) [0..<n]"

lemma upd_bytes_blit:
  assumes "o0 \<le> n"
  shows "map (blit o0 k d f) [0..<max n (o0 + k)] = upd_bytes (map f [0..<n]) o0 (map d [0..<k])"
proof (rule nth_equalityI)
  fix i assume "i < length (map (blit o0 k d f) [0..<max n (o0 + k)])"
  then have "i < max n (o0 + k)" by simp
  then show "map (blit o0 k d f) [0..<max n (o0 + k)] ! i = upd_bytes (map f [0..<n]) o0 (map d [0..<k]) ! i"
    using assms by (auto simp: upd_bytes_def nth_append blit_def min_def)
qed (use assms in \<open>simp add: upd_bytes_def\<close>)

text \<open>A step of one file.\<close>

definition file_step :: "sfs \<Rightarrow> sfs_inode \<Rightarrow> sfs \<Rightarrow> sfs_inode \<Rightarrow> bool" where
  "file_step s sin s' sin' \<longleftrightarrow> fs_step s (din sin) s' (din sin') \<and> file_inv s' sin' \<and>
     ino sin' = ino sin \<and> nlinks (din sin') = nlinks (din sin)"

lemma same_map:
  assumes "iblocks d2 = iblocks d1" "direct d2 = direct d1" "indirect d2 = indirect d1"
  shows "own I d2 = own I d1" "file_ok s d2 = file_ok s d1" "fc s d2 = fc s d1" "fs_step t d s d2 = fs_step t d s d1"
proof -
  have b: "bno I d2 = bno I d1" for I by (simp add: bno_def assms fun_eq_iff)
  show o: "own I d2 = own I d1" for I by (simp add: own_def b assms)
  show f: "file_ok s d2 = file_ok s d1" by (simp add: file_ok_def o b assms)
  show "fc s d2 = fc s d1" by (simp add: fc_def b assms cong: if_cong)
  show "fs_step t d s d2 = fs_step t d s d1" by (simp add: fs_step_def o f)
qed

lemma io_write_ok:
  assumes i: "file_inv s sin" and o: "o0 \<le> isize (din sin)" "o0 + len \<le> MAX_BLOCKS * SFS_BLKSIZE"
  shows "\<exists>ret alen sin' s'. sfs_io_nolock True addr (int o0) len sin m s = Some (ret, alen, sin', m, s') \<and>
    file_step s sin s' sin' \<and> contents s' sin' = upd_bytes (contents s sin) o0 (mem_bytes m addr alen) \<and> alen \<le> len \<and>
    (ret = 0 \<and> alen = len \<or>
     ret = - E_NO_MEM \<and> alen < len \<and> \<not> room s (din sin) (blocks_for (o0 + len)))"
proof -
  from i have s: "sfs_ok s" "file_ok s (din sin)" "itype (din sin) = SFS_TYPE_FILE"
    "iblocks (din sin) = blocks_for (isize (din sin))" by (simp_all add: file_inv_def)
  have small: "o0 + len \<le> 4243456" using o(2) by (simp add: max_blocks_bytes)
  have we: "wrap_off (int o0 + int len) = int (o0 + len)" using wrap_off_id [of "int (o0 + len)"] small by simp
  show ?thesis
  proof (cases "len = 0")
    case True
    then have "sfs_io_nolock True addr (int o0) len sin m s = Some (0, 0, sin, m, s)"
      using s(3) we small by (simp add: sfs_io_nolock_def max_file_size)
    moreover have "file_step s sin s sin" using fs_step_refl [OF s(1,2)] i by (simp add: file_step_def)
    moreover have "contents s sin = upd_bytes (contents s sin) o0 (mem_bytes m addr 0)"
      by (simp add: upd_bytes_def mem_bytes_def)
    ultimately show ?thesis using True by auto
  next
    case False
    have b: "blocks_for o0 \<le> iblocks (din sin)" using s(4) blocks_for_mono [OF o(1)] by simp
    have lt: "o0 < o0 + len" using False by simp
    from write_body [OF s(1,2) b lt o(2), of addr m] obtain ret alen sin1 s1 where
      w: "sfs_io_body True addr o0 (o0 + len) sin m s = Some (ret, alen, sin1, m, s1)"
        "write_end s sin o0 (\<lambda>i. m (addr + i)) (o0 + len) ret alen sin1 s1" by blast
    define sin2 where "sin2 = (if o0 + alen > isize (din sin1)
         then upd_din (\<lambda>d. d\<lparr>isize := o0 + alen\<rparr>) sin1\<lparr>dirty := True\<rparr> else sin1)"
    have "sfs_io_nolock True addr (int o0) len sin m s = Some (ret, alen, sin2, m, s1)"
      using s(3) False small w(1) by (simp add: sfs_io_nolock_def we max_file_size sin2_def min_def del: of_nat_add)
    moreover from w(2) have e: "fs_step s (din sin) s1 (din sin1)" "same_file sin sin1"
      "fc s1 (din sin1) = blit o0 alen (\<lambda>i. m (addr + i)) (fc s (din sin))"
      "iblocks (din sin1) = max (iblocks (din sin)) (blocks_for (o0 + alen))" "alen \<le> len"
      "ret = 0 \<and> alen = len \<or> ret = - E_NO_MEM \<and> alen < len \<and> \<not> room s (din sin) (blocks_for (o0 + len))"
      by (auto simp: write_end_def wrote_def)
    have d: "isize (din sin2) = max (isize (din sin)) (o0 + alen)" "iblocks (din sin2) = iblocks (din sin1)"
      "direct (din sin2) = direct (din sin1)" "indirect (din sin2) = indirect (din sin1)"
      "itype (din sin2) = itype (din sin)" "nlinks (din sin2) = nlinks (din sin)" "ino sin2 = ino sin"
      using e(2) by (auto simp: sin2_def upd_din_def same_file_def max_def)
    note same_map [OF d(2-4)]
    moreover from this have "fs_step s (din sin) s1 (din sin2)" using e(1) by blast
    moreover have "blocks_for (isize (din sin2)) = max (iblocks (din sin)) (blocks_for (o0 + alen))"
      using s(4) blocks_for_mono [of "o0 + alen" "isize (din sin)"] blocks_for_mono [of "isize (din sin)" "o0 + alen"]
      by (auto simp: d max_def)
    ultimately show ?thesis
      using e upd_bytes_blit [OF o(1), of alen] s(3) d
      by (auto simp: file_step_def file_inv_def contents_def mem_bytes_def fs_step_def)
  qed
qed

lemma io_read_ok:
  assumes i: "file_inv s sin" and o: "o0 + len < 2 ^ 63" "o0 < SFS_MAX_FILE_SIZE" and sz: "isize (din sin) \<le> SFS_MAX_FILE_SIZE"
  defines "alen \<equiv> min len (isize (din sin) - o0)"
  shows "\<exists>m' s'. sfs_io_nolock False addr (int o0) len sin m s = Some (0, alen, sin, m', s') \<and>
    m' = blit addr alen (\<lambda>i. contents s sin ! (o0 + i)) m \<and> goes s s' (free_blocks s) (img s)"
proof -
  from i have s: "sfs_ok s" "file_ok s (din sin)" "itype (din sin) = SFS_TYPE_FILE"
    "iblocks (din sin) = blocks_for (isize (din sin))" by (simp_all add: file_inv_def)
  have we: "wrap_off (int o0 + int len) = int (o0 + len)" using wrap_off_id [of "int (o0 + len)"] o(1) by simp
  have gs: "goes s s (free_blocks s) (img s)" using s(1) by (simp add: goes_def)
  have m0: "blit addr 0 d m = m" for d by (simp add: blit_def)
  consider "len = 0" | "0 < len" "isize (din sin) \<le> o0" | "0 < len" "o0 < isize (din sin)" by linarith
  then show ?thesis
  proof cases
    case 1
    then have "sfs_io_nolock False addr (int o0) len sin m s = Some (0, 0, sin, m, s)"
      using s(3) we o(2) by (simp add: sfs_io_nolock_def)
    then show ?thesis using gs m0 1 by (simp add: alen_def)
  next
    case 2
    then have "sfs_io_nolock False addr (int o0) len sin m s = Some (0, 0, sin, m, s)"
      using s(3) we o(2) by (simp add: sfs_io_nolock_def)
    then show ?thesis using gs m0 2 by (simp add: alen_def)
  next
    case 3
    define e where "e = min (min (o0 + len) SFS_MAX_FILE_SIZE) (isize (din sin))"
    have e: "o0 < e" "e \<le> isize (din sin)" "e - o0 = alen" using 3 o(2) sz by (auto simp: e_def alen_def)
    have "isize (din sin) \<le> iblocks (din sin) * SFS_BLKSIZE" using s(4) blocks_for_bounds(1) by simp
    then have eb: "e \<le> iblocks (din sin) * SFS_BLKSIZE" using e(2) by linarith
    from read_body [OF s(1,2) e(1) eb, of addr m] obtain m' s' where
      r: "sfs_io_body False addr o0 e sin m s = Some (0, e - o0, sin, m', s')" "was_read s sin o0 addr m e m' s'" by blast
    have "sfs_io_nolock False addr (int o0) len sin m s = Some (0, e - o0, sin, m', s')"
      using s(3) 3 o(2) r(1) e(2) by (simp add: sfs_io_nolock_def we e_def [symmetric] del: of_nat_add)
    moreover have "m' = blit addr alen (\<lambda>i. contents s sin ! (o0 + i)) m"
    proof -
      have "m' = blit addr (e - o0) (\<lambda>i. fc s (din sin) (o0 + i)) m" using r(2) by (simp add: was_read_def)
      also have "\<dots> = blit addr (e - o0) (\<lambda>i. contents s sin ! (o0 + i)) m"
        by (rule blit_cong) (use e(1,2) in \<open>simp add: contents_def\<close>)
      finally show ?thesis unfolding e(3) .
    qed
    ultimately show ?thesis using r(2) e(3) by (simp add: was_read_def)
  qed
qed

subsection \<open>Another file\<close>

text \<open>A file is as it was if its blocks are not touched and none of them became free.\<close>

lemma file_frame:
  assumes f: "file_ok s e" and sb: "sblocks s' = sblocks s" and fr: "free_blocks s' \<inter> own (img s) e = {}"
    and I: "\<And>x. x div SFS_BLKSIZE \<in> own (img s) e \<Longrightarrow> img s' x = img s x"
  shows "file_ok s' e" "fc s' e = fc s e" "own (img s') e = own (img s) e"
proof -
  note fe = file_okD [OF f]
  have n: "bno (img s') e j = bno (img s) e j" if "j < MAX_BLOCKS" for j
    using bno_cong [OF that, of e "img s'" "img s"] I by (auto simp: own_def)
  then have n': "bno (img s') e j = bno (img s) e j" if "j < iblocks e" for j using that fe(2) by simp
  show ow: "own (img s') e = own (img s) e" using n' by (auto simp: own_def)
  show "file_ok s' e"
  proof (rule file_okI)
    fix i assume i: "i < iblocks e"
    then have "bno (img s) e i \<in> own (img s) e" by (auto simp: own_def)
    then have "bno (img s) e i \<notin> free_blocks s'" using fr by blast
    then show "0 < bno (img s') e i \<and> bno (img s') e i < sblocks s' \<and> bno (img s') e i \<notin> free_blocks s' \<and> bno (img s') e i \<noteq> indirect e"
      using n' [OF i] fe(3,4,6) [OF i] sb by simp
  next
    fix i j assume "i < iblocks e" "j < iblocks e" "bno (img s') e i = bno (img s') e j"
    then show "i = j" using n' fe(7) by simp
  next
    fix i assume "iblocks e \<le> i" "i < MAX_BLOCKS"
    then show "bno (img s') e i = 0" using n fe(8) by simp
  next
    assume ind: "indirect e \<noteq> 0"
    then have "indirect e \<in> own (img s) e" by (simp add: own_def)
    then show "indirect e < sblocks s' \<and> indirect e \<notin> free_blocks s'" using fr fe(9) [OF ind] sb by auto
  qed (use fe(1,2) in auto)
  show "fc s' e = fc s e"
  proof
    fix x
    let ?j = "x div SFS_BLKSIZE"
    have m: "x mod SFS_BLKSIZE < SFS_BLKSIZE" by simp
    show "fc s' e x = fc s e x"
    proof (cases "?j < iblocks e")
      case True
      then have "bno (img s) e ?j \<in> own (img s) e" by (auto simp: own_def)
      then have "img s' (bno (img s) e ?j * SFS_BLKSIZE + x mod SFS_BLKSIZE) = img s (bno (img s) e ?j * SFS_BLKSIZE + x mod SFS_BLKSIZE)"
        using I block_div [OF m] by simp
      then show ?thesis using True n' by (simp add: fc_def)
    qed (simp add: fc_def)
  qed
qed

lemma other_file:
  assumes st: "fs_step s d s' d'" and f: "file_ok s d" "file_ok s e" and dj: "own (img s) d \<inter> own (img s) e = {}"
  shows "file_ok s' e" "fc s' e = fc s e" "own (img s') d' \<inter> own (img s') e = {}" "own (img s') e = own (img s) e"
proof -
  from st have s': "sblocks s' = sblocks s" "free_blocks s' \<union> own (img s') d' = free_blocks s \<union> own (img s) d"
    "\<And>x. x div SFS_BLKSIZE \<notin> free_blocks s \<union> own (img s) d \<Longrightarrow> img s' x = img s x" by (auto simp: fs_step_def)
  have oe: "own (img s) e \<inter> (free_blocks s \<union> own (img s) d) = {}" using f(2) dj by (auto simp: file_ok_def)
  have a: "free_blocks s' \<inter> own (img s) e = {}" using s'(2) oe by blast
  have b: "img s' x = img s x" if "x div SFS_BLKSIZE \<in> own (img s) e" for x
    using that oe by (intro s'(3)) blast
  show "file_ok s' e" "fc s' e = fc s e" and fr: "own (img s') e = own (img s) e"
    by (rule file_frame [OF f(2) s'(1) a], erule b)+
  show "own (img s') d' \<inter> own (img s') e = {}" unfolding fr using s'(2) oe by blast
qed

subsection \<open>Resizing\<close>

lemma truncfile_ok:
  assumes i: "file_inv s sin" and len: "len \<le> MAX_BLOCKS * SFS_BLKSIZE"
  shows "\<exists>ret sin' s'. sfs_truncfile (int len) sin s = Some (ret, sin', s') \<and>
    (ret = 0 \<and> file_step s sin s' sin' \<and> contents s' sin' = map (fc s (din sin)) [0..<len] \<or>
     ret = - E_NO_MEM \<and> isize (din sin) < len \<and> \<not> room s (din sin) (blocks_for len) \<and>
       fs_step s (din sin) s' (din sin') \<and> same_file sin sin' \<and> contents s' sin' = contents s sin \<and>
       (room s (din sin) (Suc (iblocks (din sin))) \<longrightarrow> iblocks (din sin) < iblocks (din sin')))"
proof -
  from i have s: "sfs_ok s" "file_ok s (din sin)" "itype (din sin) = SFS_TYPE_FILE"
    "iblocks (din sin) = blocks_for (isize (din sin))" by (simp_all add: file_inv_def)
  have lim: "\<not> (int len < 0 \<or> int len > int SFS_MAX_FILE_SIZE)" using len by (simp add: max_blocks_bytes max_file_size)
  have bl: "blocks_for len \<le> MAX_BLOCKS" using len blocks_for_bounds(2) by simp
  let ?fin = "\<lambda>sin1. upd_din (\<lambda>d. d\<lparr>isize := len\<rparr>) sin1\<lparr>dirty := True\<rparr>"
  have finish: "file_step s sin s1 (?fin sin1) \<and> contents s1 (?fin sin1) = map (fc s1 (din sin1)) [0..<len]"
    if "fs_step s (din sin) s1 (din sin1)" "same_file sin sin1" "iblocks (din sin1) = blocks_for len" for s1 sin1
  proof -
    define sin2 where "sin2 = ?fin sin1"
    have "iblocks (din sin2) = iblocks (din sin1)" "direct (din sin2) = direct (din sin1)"
      "indirect (din sin2) = indirect (din sin1)" by (simp_all add: sin2_def upd_din_def)
    note sm = same_map [OF this]
    have d: "isize (din sin2) = len" "ino sin2 = ino sin" "nlinks (din sin2) = nlinks (din sin)"
      "itype (din sin2) = SFS_TYPE_FILE" "iblocks (din sin2) = blocks_for len"
      using that(2,3) s(3) by (simp_all add: sin2_def upd_din_def same_file_def)
    have "fs_step s (din sin) s1 (din sin2)" unfolding sm(4) by (rule that(1))
    then show ?thesis unfolding sin2_def [symmetric] by (simp add: file_step_def file_inv_def contents_def sm(3) d fs_step_def)
  qed
  consider (same) "len = isize (din sin)" | (grow) "len \<noteq> isize (din sin)" "iblocks (din sin) < blocks_for len"
    | (shrink) "len \<noteq> isize (din sin)" "blocks_for len \<le> iblocks (din sin)" by linarith
  then show ?thesis
  proof cases
    case same
    then have "sfs_truncfile (int len) sin s = Some (0, sin, s)" using s(4) lim by (simp add: sfs_truncfile_def)
    then show ?thesis using fs_step_refl [OF s(1,2)] i same by (simp add: file_step_def contents_def)
  next
    case grow
    let ?n = "iblocks (din sin)" and ?k = "blocks_for len - iblocks (din sin)"
    have nk: "?n + ?k = blocks_for len" using grow by simp
    from trunc_grow_ok [OF s(1,2) refl, of ?k] nk bl obtain ret sin1 s1 where
      g: "trunc_grow ?k ?n sin s = Some (ret, sin1, s1)" "fs_step s (din sin) s1 (din sin1)" "same_file sin sin1"
        "fc s1 (din sin1) = fc s (din sin)"
        "ret = 0 \<and> iblocks (din sin1) = blocks_for len \<or>
         ret = - E_NO_MEM \<and> \<not> room s (din sin) (blocks_for len) \<and> (room s (din sin) (Suc ?n) \<longrightarrow> ?n < iblocks (din sin1))"
      by auto
    have tr: "sfs_truncfile (int len) sin s = (if ret \<noteq> 0 then Some (ret, sin1, s1) else do {
                c_assert (iblocks (din sin1) = blocks_for len);
                Some (0, ?fin sin1, s1) })"
      using lim grow g(1) by (simp add: sfs_truncfile_def)
    have "isize (din sin) < len"
      using grow s(4) blocks_for_mono [of len "isize (din sin)"] by linarith
    from g(5) show ?thesis
    proof (elim disjE conjE)
      assume "ret = 0" "iblocks (din sin1) = blocks_for len"
      then show ?thesis using finish [OF g(2,3)] g(4) tr by simp
    next
      assume "ret = - E_NO_MEM" "\<not> room s (din sin) (blocks_for len)" "room s (din sin) (Suc ?n) \<longrightarrow> ?n < iblocks (din sin1)"
      then show ?thesis using tr g(2-4) \<open>isize (din sin) < len\<close> by (simp add: contents_def same_file_def)
    qed
  next
    case shrink
    let ?k = "iblocks (din sin) - blocks_for len"
    have nk: "iblocks (din sin) = blocks_for len + ?k" using shrink by simp
    from trunc_shrink_ok [OF s(1,2) nk] obtain sin1 s1 where
      g: "trunc_shrink ?k sin s = Some (0, sin1, s1)" "fs_step s (din sin) s1 (din sin1)" "same_file sin sin1"
        "iblocks (din sin1) = blocks_for len"
        "\<And>x. x div SFS_BLKSIZE < blocks_for len \<Longrightarrow> fc s1 (din sin1) x = fc s (din sin) x" by blast
    have "sfs_truncfile (int len) sin s = Some (0, ?fin sin1, s1)"
      using lim shrink g(1,4) by (simp add: sfs_truncfile_def)
    moreover have "x div SFS_BLKSIZE < blocks_for len" if "x < len" for x
      using less_le_trans [OF that blocks_for_bounds(1)] by (simp add: div_less_iff_less_mult)
    then have "map (fc s1 (din sin1)) [0..<len] = map (fc s (din sin)) [0..<len]" using g(5) by simp
    ultimately show ?thesis using finish [OF g(2-4)] by simp
  qed
qed

subsection \<open>A small file system\<close>

text \<open>Eight blocks, four of them free, and a file of ten bytes in block 3.\<close>

definition fs_small :: sfs where
  "fs_small = \<lparr>sdev = \<lparr>image = (\<lambda>_. 0), dsize = 64\<rparr>, sblocks = 8, unused_blocks = 4, sinfo = [], super_dirty = False,
     freemap = \<lparr>nbits = 32, nwords = 1, bmap = [0xF0]\<rparr>, sfs_buffer = (\<lambda>_. 0)\<rparr>"

definition file_small :: sfs_inode where
  "file_small = \<lparr>din = \<lparr>isize = 10, itype = 1, nlinks = 1, iblocks = 1, direct = 3 # replicate 11 0, indirect = 0\<rparr>,
     ino = 2, dirty = True, reclaim_count = 1\<rparr>"

lemma free_small: "free_blocks fs_small = {4, 5, 6, 7}"
proof -
  have "free_blocks fs_small = set (filter (bit (0xF0 :: u32)) [0..<32])"
    by (auto simp: free_blocks_def free_bits_def fs_small_def WORD_BITS_def)
  also have "\<dots> = {4, 5, 6, 7}" by code_simp
  finally show ?thesis .
qed

lemma small_ok: "file_inv fs_small file_small"
proof -
  have "sfs_ok fs_small"
    unfolding sfs_ok_def free_small
    by (simp add: fs_small_def dev_ok_def MAX_DISK_NSECS_def d_blocks_def DISK0_BLK_NSECT_def SFS_BLKSIZE_def SECTSIZE_def
      bm_wf_def WORD_BITS_def)
  moreover have b: "bno (img fs_small) (din file_small) i = (if i = 0 then 3 else 0)" if "i < MAX_BLOCKS" for i
    using that by (auto simp: bno_def file_small_def SFS_NDIRECT_def nth_Cons split: nat.splits)
  have "file_ok fs_small (din file_small)"
  proof (rule file_okI)
    show "iblocks (din file_small) \<le> MAX_BLOCKS" by (simp add: file_small_def MAX_BLOCKS_def SFS_NDIRECT_def)
    then have i0: "i = 0 \<and> i < MAX_BLOCKS" if "i < iblocks (din file_small)" for i using that by (auto simp: file_small_def)
    show "0 < bno (img fs_small) (din file_small) i \<and> bno (img fs_small) (din file_small) i < sblocks fs_small \<and>
        bno (img fs_small) (din file_small) i \<notin> free_blocks fs_small \<and> bno (img fs_small) (din file_small) i \<noteq> indirect (din file_small)"
      if "i < iblocks (din file_small)" for i
      using i0 [OF that] b [of i] by (simp add: free_small) (simp add: fs_small_def file_small_def)
    show "i = j" if "i < iblocks (din file_small)" "j < iblocks (din file_small)" for i j using that i0 by blast
  qed (auto simp: b, auto simp: file_small_def SFS_NDIRECT_def)
  moreover have "blocks_for 10 = 1" by (simp add: blocks_for_def SFS_BLKSIZE_def)
  ultimately show ?thesis by (simp add: file_inv_def file_small_def)
qed

subsection \<open>The properties\<close>



text \<open>C22: What was written is what is read: after a complete write of a buffer, a read of the same
  length at the same offset fills another buffer with the same bytes.\<close>

theorem sfs_write_read:
  assumes "file_inv s sin" "o0 \<le> isize (din sin)" "o0 + len \<le> MAX_BLOCKS * SFS_BLKSIZE"
    "room s (din sin) (blocks_for (o0 + len))" "isize (din sin) \<le> MAX_BLOCKS * SFS_BLKSIZE"
  shows "\<exists>sin1 s1 m2 s2.
    sfs_io_nolock True src (int o0) len sin m s = Some (0, len, sin1, m, s1) \<and>
    sfs_io_nolock False dst (int o0) len sin1 m s1 = Some (0, len, sin1, m2, s2) \<and>
    mem_bytes m2 dst len = mem_bytes m src len"
proof -
  from io_write_ok [OF assms(1-3), of src m] assms(4) obtain sin1 s1 where
    w: "sfs_io_nolock True src (int o0) len sin m s = Some (0, len, sin1, m, s1)" "file_step s sin s1 sin1"
      "contents s1 sin1 = upd_bytes (contents s sin) o0 (mem_bytes m src len)" by auto
  have "length (contents s1 sin1) = isize (din sin1)" by (simp add: contents_def)
  then have sz: "isize (din sin1) = max (isize (din sin)) (o0 + len)"
    using assms(2) unfolding w(3) by (auto simp: upd_bytes_def mem_bytes_def contents_def)
  then have sz2: "isize (din sin1) \<le> SFS_MAX_FILE_SIZE" "min len (isize (din sin1) - o0) = len"
    using assms(3,5) by (auto simp: max_file_size max_blocks_bytes)
  have small: "o0 + len < 2 ^ 63" "o0 < SFS_MAX_FILE_SIZE" using assms(3) by (auto simp: max_blocks_bytes max_file_size)
  have "file_inv s1 sin1" using w(2) by (simp add: file_step_def)
  from io_read_ok [OF this small sz2(1), of dst m, unfolded sz2(2)] obtain m2 s2 where
    r: "sfs_io_nolock False dst (int o0) len sin1 m s1 = Some (0, len, sin1, m2, s2)"
      "m2 = blit dst len (\<lambda>i. contents s1 sin1 ! (o0 + i)) m" by blast
  have "contents s1 sin1 ! (o0 + i) = m (src + i)" if "i < len" for i
    unfolding w(3) using that assms(2) by (simp add: upd_bytes_def mem_bytes_def contents_def nth_append)
  then have "mem_bytes m2 dst len = mem_bytes m src len" unfolding r(2) mem_bytes_def by (simp add: blit_def)
  then show ?thesis using w(1) r(1) by blast
qed

lemma sfs_write_read_witness:
  "\<exists>sin1 s1 m2 s2.
    sfs_io_nolock True 100 (int 7) 5000 file_small (\<lambda>_. 1) fs_small = Some (0, 5000, sin1, \<lambda>_. 1, s1) \<and>
    sfs_io_nolock False 9000 (int 7) 5000 sin1 (\<lambda>_. 1) s1 = Some (0, 5000, sin1, m2, s2) \<and>
    mem_bytes m2 9000 5000 = mem_bytes (\<lambda>_. 1) 100 5000"
proof (rule sfs_write_read [OF small_ok])
  show "room fs_small (din file_small) (blocks_for (7 + 5000))"
    by (simp add: room_def free_small) (simp add: file_small_def blocks_for_def SFS_BLKSIZE_def SFS_NDIRECT_def)
qed (simp_all add: file_small_def max_blocks_bytes)

text \<open>C23: \<open>sfs_truncfile\<close> gives a file of at most 1036 blocks the length asked for: a prefix of the
  contents stays, and what is added is what the last block held behind the end, then zeros.  If the
  disk is full the error is \<open>-E_NO_MEM\<close> and the contents are as before.\<close>

theorem sfs_truncfile_ok:
  assumes "file_inv s sin" "len \<le> MAX_BLOCKS * SFS_BLKSIZE"
  shows "\<exists>ret sin' s'. sfs_truncfile (int len) sin s = Some (ret, sin', s') \<and> fs_step s (din sin) s' (din sin') \<and>
    (ret = 0 \<and> file_inv s' sin' \<and> contents s' sin' = map (fc s (din sin)) [0..<len] \<or>
     ret = - E_NO_MEM \<and> isize (din sin) < len \<and> \<not> room s (din sin) (blocks_for len) \<and> contents s' sin' = contents s sin)"
  using truncfile_ok [OF assms] by (fastforce simp: file_step_def)

lemma sfs_truncfile_ok_witness:
  "\<exists>ret sin' s'. sfs_truncfile (int 9000) file_small fs_small = Some (ret, sin', s') \<and>
     fs_step fs_small (din file_small) s' (din sin')"
  using sfs_truncfile_ok [OF small_ok, of 9000] by (auto simp: max_blocks_bytes)

text \<open>A resize that fails half way leaves an inode that the next resize to its own size cannot
  accept: the blocks that were added stay, and \<^verbatim>\<open>assert(tblks == din->blocks)\<close> fails.\<close>

lemma sfs_failed_resize_panics:
  assumes "file_inv s sin" "len \<le> MAX_BLOCKS * SFS_BLKSIZE" "iblocks (din sin) < blocks_for len"
    "room s (din sin) (Suc (iblocks (din sin)))" "\<not> room s (din sin) (blocks_for len)"
  shows "\<exists>sin' s'. sfs_truncfile (int len) sin s = Some (- E_NO_MEM, sin', s') \<and>
    isize (din sin') = isize (din sin) \<and> sfs_truncfile (int (isize (din sin'))) sin' s' = None"
proof -
  let ?k = "blocks_for len - iblocks (din sin)"
  have s: "sfs_ok s" "file_ok s (din sin)" "iblocks (din sin) = blocks_for (isize (din sin))"
    using assms(1) by (simp_all add: file_inv_def)
  have k: "iblocks (din sin) + ?k = blocks_for len" "blocks_for len \<le> MAX_BLOCKS"
    using assms(2,3) blocks_for_bounds(2) by simp_all
  from trunc_grow_ok [OF s(1,2) refl, of ?k] k assms(3-5) obtain sin' s' where
    g: "trunc_grow ?k (iblocks (din sin)) sin s = Some (- E_NO_MEM, sin', s')" "same_file sin sin'"
      "iblocks (din sin) < iblocks (din sin')" by auto
  have lt: "int len \<le> int SFS_MAX_FILE_SIZE" "isize (din sin) \<noteq> len"
    using assms(2,3) s(3) by (auto simp: max_blocks_bytes max_file_size)
  have "isize (din sin) \<le> len" using s(3) assms(3) blocks_for_mono [of len "isize (din sin)"] by linarith
  then have "sfs_truncfile (int (isize (din sin'))) sin' s' = None"
    using g(2,3) s(3) lt by (simp add: sfs_truncfile_def same_file_def Let_def)
  moreover have "sfs_truncfile (int len) sin s = Some (- E_NO_MEM, sin', s')"
    using lt assms(3) g(1) by (simp add: sfs_truncfile_def)
  ultimately show ?thesis using g(2) by (auto simp: same_file_def)
qed

lemma sfs_failed_resize_panics_witness:
  "\<exists>sin' s'. sfs_truncfile (int 24000) file_small fs_small = Some (- E_NO_MEM, sin', s') \<and>
    isize (din sin') = isize (din file_small) \<and> sfs_truncfile (int (isize (din sin'))) sin' s' = None"
proof (rule sfs_failed_resize_panics [OF small_ok])
  show "room fs_small (din file_small) (Suc (iblocks (din file_small)))"
    "\<not> room fs_small (din file_small) (blocks_for 24000)"
    by (simp_all add: room_def free_small) (simp_all add: file_small_def blocks_for_def SFS_BLKSIZE_def SFS_NDIRECT_def)
qed (simp_all add: max_blocks_bytes, simp_all add: file_small_def blocks_for_def SFS_BLKSIZE_def)

text \<open>C24: The limits of the block map are below the limit the file operations check: on a disk with room for
  1036 blocks of the file, enlarging it to more than 1036 blocks panics although the size is at most
  \<^verbatim>\<open>SFS_MAX_FILE_SIZE\<close>, and so does a write that starts more than a block behind the last block of the
  file.\<close>

theorem sfs_limits_panic:
  assumes "file_inv s sin" "MAX_BLOCKS * SFS_BLKSIZE < len" "len \<le> SFS_MAX_FILE_SIZE" "room s (din sin) MAX_BLOCKS"
    "iblocks (din sin) < o0 div SFS_BLKSIZE" "o0 < SFS_MAX_FILE_SIZE" "0 < n" "n < 2 ^ 32"
  shows "sfs_truncfile (int len) sin s = None \<and> sfs_io_nolock True addr (int o0) n sin m s = None"
proof
  have s: "sfs_ok s" "file_ok s (din sin)" "iblocks (din sin) = blocks_for (isize (din sin))" "itype (din sin) = SFS_TYPE_FILE"
    using assms(1) by (simp_all add: file_inv_def)
  have bl: "MAX_BLOCKS < blocks_for len" using assms(2) blocks_for_bounds(2) [of len MAX_BLOCKS] by simp
  have nb: "iblocks (din sin) < blocks_for len" using bl file_okD(2) [OF s(2)] by simp
  have "trunc_grow (blocks_for len - iblocks (din sin)) (iblocks (din sin)) sin s = None"
    by (rule trunc_grow_beyond [OF s(1,2) refl]) (use bl nb assms(4) in auto)
  then show "sfs_truncfile (int len) sin s = None"
    using assms(3) nb s(3) by (auto simp: sfs_truncfile_def Let_def)
  have we: "wrap_off (int o0 + int n) = int (o0 + n)"
    using wrap_off_id [of "int (o0 + n)"] assms(6,8) by (simp add: max_file_size)
  have st: "sfs_io_step bop (o0 div SFS_BLKSIZE) sin m s = None" for bop
    using load_gap [OF assms(5)] by (simp add: sfs_io_step_def)
  have lp: "sfs_io_loop k True a (o0 div SFS_BLKSIZE) e al sin m s = None" if "k \<noteq> 0 \<or> e mod SFS_BLKSIZE \<noteq> 0" for k a e al
    using that st by (cases k) (simp_all add: Let_def)
  have "sfs_io_body True addr o0 (min (o0 + n) SFS_MAX_FILE_SIZE) sin m s = None" (is "sfs_io_body _ _ _ ?e _ _ _ = _")
  proof (cases "o0 mod SFS_BLKSIZE = 0")
    case True
    have "o0 < ?e" using assms(6,7) by simp
    moreover have "o0 = o0 div SFS_BLKSIZE * SFS_BLKSIZE" using True by auto
    ultimately have "?e div SFS_BLKSIZE - o0 div SFS_BLKSIZE \<noteq> 0 \<or> ?e mod SFS_BLKSIZE \<noteq> 0"
      by (metis add.right_neutral diff_is_0_eq div_mult_mod_eq leD mult_le_mono1)
    from lp [OF this, of addr 0] show ?thesis using True by (simp add: sfs_io_body_def Let_def)
  qed (simp add: sfs_io_body_def st)
  then show "sfs_io_nolock True addr (int o0) n sin m s = None"
    using assms(6,7) s(4) by (simp add: sfs_io_nolock_def we del: of_nat_add)
qed

definition fs_large :: sfs where
  "fs_large = fs_small\<lparr>sdev := \<lparr>image = (\<lambda>_. 0), dsize = 8704\<rparr>, sblocks := 1088, unused_blocks := 1084,
     freemap := \<lparr>nbits = 1088, nwords = 34, bmap = 0xFFFFFFF0 # replicate 33 (- 1)\<rparr>\<rparr>"

lemma free_large: "free_blocks fs_large = {4..<1088}"
proof -
  have w: "bit (0xFFFFFFF0 :: u32) i \<longleftrightarrow> 4 \<le> i" if "i < 32" for i
  proof -
    have "list_all (\<lambda>i. bit (0xFFFFFFF0 :: u32) i \<longleftrightarrow> 4 \<le> i) [0..<32]" by code_simp
    then show ?thesis using that by (simp add: list_all_iff)
  qed
  have "bit ((0xFFFFFFF0 # replicate 33 (- 1 :: u32)) ! (i div 32)) (i mod 32) \<longleftrightarrow> 4 \<le> i" if "i < 1088" for i
  proof (cases "i div 32 = 0")
    case True
    then show ?thesis using w [of i] by (simp add: div_eq_0_iff)
  next
    case False
    then have "32 \<le> i" by (simp add: div_eq_0_iff)
    moreover have "i div 32 - 1 < 33" using that by (simp add: div_less_iff_less_mult less_diff_conv2)
    then have "(replicate 33 (- 1 :: u32)) ! (i div 32 - 1) = - 1" by (rule nth_replicate)
    ultimately show ?thesis using False by (simp add: nth_Cons' bit_simps)
  qed
  then show ?thesis by (auto simp: free_blocks_def free_bits_def fs_large_def WORD_BITS_def)
qed

lemma large_ok: "file_inv fs_large file_small"
proof -
  have "sfs_ok fs_large"
  proof -
    have "nbits (freemap fs_large) = 1088" "nwords (freemap fs_large) = 34" by (simp_all add: fs_large_def)
    then have "bm_wf (freemap fs_large)"
      by (simp add: bm_wf_def WORD_BITS_def) (simp add: fs_large_def)
    then show ?thesis unfolding sfs_ok_def free_large
      by (auto simp: fs_large_def dev_ok_def MAX_DISK_NSECS_def d_blocks_def DISK0_BLK_NSECT_def SFS_BLKSIZE_def SECTSIZE_def)
  qed
  moreover have "img fs_large = img fs_small" by (simp add: img_def fs_large_def fs_small_def)
  moreover have "file_ok fs_small (din file_small)" using small_ok by (simp add: file_inv_def)
  note fd = file_okD [OF this]
  ultimately have "file_ok fs_large (din file_small)"
  proof (intro file_okI)
    fix i assume i: "i < iblocks (din file_small)"
    have "bno (img fs_small) (din file_small) i < 8" using fd(4) [OF i] by (simp add: fs_small_def)
    moreover have "bno (img fs_small) (din file_small) i \<notin> {4, 5, 6, 7}" using fd(5) [OF i] unfolding free_small .
    moreover have "x < 4" if "x < 8" "x \<notin> {4, 5, 6, 7}" for x :: nat using that by auto
    ultimately have "bno (img fs_small) (din file_small) i < 4" by blast
    then show "0 < bno (img fs_large) (din file_small) i \<and> bno (img fs_large) (din file_small) i < sblocks fs_large \<and>
      bno (img fs_large) (din file_small) i \<notin> free_blocks fs_large \<and> bno (img fs_large) (din file_small) i \<noteq> indirect (din file_small)"
      using fd(3,6) [OF i] \<open>img fs_large = img fs_small\<close> by (simp add: free_large) (simp add: fs_large_def)
  qed (use fd(1,2,7,8) \<open>img fs_large = img fs_small\<close> in \<open>auto simp: file_small_def\<close>)
  then show ?thesis using \<open>sfs_ok fs_large\<close> small_ok by (simp add: file_inv_def)
qed

lemma sfs_limits_panic_witness:
  "sfs_truncfile (int 5000000) file_small fs_large = None \<and> sfs_io_nolock True 100 (int 10000) 1 file_small (\<lambda>_. 0) fs_large = None"
proof (rule sfs_limits_panic [OF large_ok])
  show "room fs_large (din file_small) MAX_BLOCKS"
    by (simp add: room_def free_large) (simp add: file_small_def MAX_BLOCKS_def SFS_NDIRECT_def SFS_BLK_NENTRY_def SFS_BLKSIZE_def)
qed (simp_all add: max_blocks_bytes max_file_size, simp add: file_small_def SFS_BLKSIZE_def)

text \<open>\<open>sfs_fsync\<close> writes the inode so that reading its disk block back gives the same inode; it
  touches no other byte of the disk, and a second \<open>sfs_fsync\<close> does nothing.\<close>

lemma sfs_fsync_roundtrip:
  assumes "sfs_ok s" "0 < ino sin" "ino sin < sblocks s" "inode_range (din sin)" "dirty sin"
  shows "\<exists>sin' s'. sfs_fsync sin s = Some (0, sin', s') \<and> sfs_ok s' \<and> free_blocks s' = free_blocks s \<and>
    dec_inode (\<lambda>i. img s' (ino sin * SFS_BLKSIZE + i)) = din sin \<and> din sin' = din sin \<and>
    (\<forall>x. x div SFS_BLKSIZE \<noteq> ino sin \<longrightarrow> img s' x = img s x) \<and> sfs_fsync sin' s' = Some (0, sin', s')"
proof -
  from fsync_ok [OF assms] obtain s' where
    f: "sfs_fsync sin s = Some (0, sin\<lparr>dirty := False\<rparr>, s')"
      "goes s s' (free_blocks s) (blit (ino sin * SFS_BLKSIZE) 64 (enc_inode (din sin)) (img s))" by blast
  note g = goes_back [OF f(2)]
  have "dec_inode (\<lambda>i. img s' (ino sin * SFS_BLKSIZE + i)) = dec_inode (enc_inode (din sin))"
    by (rule dec_inode_cong) (use g in \<open>simp add: blit_def\<close>)
  moreover have "img s' x = img s x" if "x div SFS_BLKSIZE \<noteq> ino sin" for x
    using g blit_outside [of 0 64 x "ino sin" "enc_inode (din sin)" "img s"] that by (simp add: SFS_BLKSIZE_def)
  ultimately show ?thesis using f(1) g dec_enc_inode [OF assms(4)] by (auto simp: sfs_fsync_def)
qed

lemma sfs_fsync_roundtrip_witness:
  "\<exists>sin' s'. sfs_fsync file_small fs_small = Some (0, sin', s') \<and>
    dec_inode (\<lambda>i. img s' (2 * SFS_BLKSIZE + i)) = din file_small"
proof -
  have "sfs_ok fs_small" using small_ok by (simp add: file_inv_def)
  moreover have "0 < ino file_small" "ino file_small < sblocks fs_small" "inode_range (din file_small)" "dirty file_small"
    "ino file_small = 2"
    by (simp_all add: file_small_def fs_small_def inode_range_def SFS_NDIRECT_def)
  ultimately show ?thesis using sfs_fsync_roundtrip [of fs_small file_small] by auto
qed

text \<open>Files do not interfere: a write to one file, complete or not, leaves every file that shares no
  block with it as it was, and they still share no block.\<close>

lemma sfs_write_frame:
  assumes "file_inv s a" "file_inv s b" "own (img s) (din a) \<inter> own (img s) (din b) = {}"
    "o0 \<le> isize (din a)" "o0 + len \<le> MAX_BLOCKS * SFS_BLKSIZE"
  shows "\<exists>ret alen a' s'. sfs_io_nolock True addr (int o0) len a m s = Some (ret, alen, a', m, s') \<and>
    file_inv s' b \<and> contents s' b = contents s b \<and> own (img s') (din a') \<inter> own (img s') (din b) = {}"
proof -
  from io_write_ok [OF assms(1,4,5), of addr m] obtain ret alen a' s' where
    w: "sfs_io_nolock True addr (int o0) len a m s = Some (ret, alen, a', m, s')" "file_step s a s' a'" by blast
  from w(2) have st: "fs_step s (din a) s' (din a')" by (simp add: file_step_def)
  have f: "file_ok s (din a)" "file_ok s (din b)" using assms(1,2) by (simp_all add: file_inv_def)
  note other_file [OF st f assms(3)]
  then show ?thesis using w(1) assms(2) st by (simp add: file_inv_def contents_def fs_step_def)
qed

definition file_empty :: sfs_inode where
  "file_empty = \<lparr>din = \<lparr>isize = 0, itype = 1, nlinks = 1, iblocks = 0, direct = replicate 12 0, indirect = 0\<rparr>,
     ino = 1, dirty = True, reclaim_count = 1\<rparr>"

lemma empty_ok: "sfs_ok s \<Longrightarrow> file_inv s file_empty \<and> own (img s) (din file_empty) = {}"
  by (auto simp: file_inv_def file_empty_def own_def blocks_for_def SFS_BLKSIZE_def bno_def SFS_NDIRECT_def intro!: file_okI)

lemma sfs_write_frame_witness:
  "\<exists>ret alen a' s'. sfs_io_nolock True 100 (int 0) 5000 file_empty (\<lambda>_. 1) fs_small = Some (ret, alen, a', \<lambda>_. 1, s') \<and>
    contents s' file_small = contents fs_small file_small"
proof -
  have "sfs_ok fs_small" using small_ok by (simp add: file_inv_def)
  from sfs_write_frame [OF conjunct1 [OF empty_ok [OF this]] small_ok _ _ _, of 0 5000 100 "\<lambda>_. 1"] empty_ok [OF this]
  show ?thesis by (auto simp: max_blocks_bytes)
qed

text \<open>The free map of the disk is a set: \<open>sfs_block_alloc\<close> takes a block out of it, clears it on the
  disk and counts it, or reports \<open>-E_NO_MEM\<close> exactly if the set is empty; \<open>sfs_block_free\<close> puts it
  back.\<close>

lemma sfs_block_alloc_free:
  assumes "sfs_ok s"
  shows "if free_blocks s = {} then \<exists>s'. sfs_block_alloc s = Some (- E_NO_MEM, 0, s') \<and> sfs_ok s' \<and> free_blocks s' = {}
    else \<exists>b s1 s2. b \<in> free_blocks s \<and> sfs_block_alloc s = Some (0, b, s1) \<and> sfs_ok s1 \<and>
      free_blocks s1 = free_blocks s - {b} \<and> unused_blocks s1 = unused_blocks s - 1 \<and>
      (\<forall>x. img s1 x = (if x div SFS_BLKSIZE = b then 0 else img s x)) \<and>
      sfs_block_free b s1 = Some s2 \<and> sfs_ok s2 \<and> free_blocks s2 = free_blocks s"
proof (cases "free_blocks s = {}")
  case True
  then show ?thesis using block_alloc_ok [OF assms] by (auto simp: goes_def)
next
  case False
  with block_alloc_ok [OF assms] obtain b s1 where
    a: "b \<in> free_blocks s" "sfs_block_alloc s = Some (0, b, s1)"
      "goes s s1 (free_blocks s - {b}) (blit (b * SFS_BLKSIZE) SFS_BLKSIZE (\<lambda>_. 0) (img s))" by auto
  note g = goes_back [OF a(3)]
  from block_free_ok [of s1 b] g alloc_br [OF assms a(1)] obtain s2 where
    f: "sfs_block_free b s1 = Some s2" "goes s1 s2 (insert b (free_blocks s1)) (img s1)" by auto
  have "free_blocks s2 = free_blocks s" using goes_back [OF f(2)] g a(1) by auto
  moreover have "unused_blocks s1 = unused_blocks s - 1"
    using sfs_okD(6,7) [OF assms] sfs_okD(7) [of s1] g a(1) by simp
  ultimately show ?thesis using False a f goes_back [OF f(2)] g by (auto simp: blit_whole)
qed

lemma sfs_block_alloc_free_witness:
  "\<exists>b s1 s2. b \<in> {4, 5, 6, 7} \<and> sfs_block_alloc fs_small = Some (0, b, s1) \<and> sfs_block_free b s1 = Some s2"
proof -
  have "sfs_ok fs_small" using small_ok by (simp add: file_inv_def)
  from sfs_block_alloc_free [OF this] show ?thesis unfolding free_small by auto
qed

end
