(* ===== verification/Sfs_Dir.thy ===== *)
theory Sfs_Dir
  imports Sfs_Theorems Libs_Theorems
begin

text \<open>
  kern/fs/sfs/sfs_inode.c (labcode/lab8), third part: directories.  A directory is a file with one
  entry in each block: the number of an inode, 0 for an empty slot, and a name of at most 255 bytes.
  An entry is read into a buffer in kernel memory, \<open>entry\<close> is its address; what \<^verbatim>\<open>kmalloc\<close> returns for it
  is an argument, \<open>None\<close> for null.
\<close>

abbreviation (input) E_NOENT :: int where "E_NOENT \<equiv> 16"
abbreviation (input) E_ISDIR :: int where "E_ISDIR \<equiv> 17"

definition SFS_MAX_FNAME_LEN :: nat where "SFS_MAX_FNAME_LEN = 255"
definition sizeof_disk_entry :: nat where "sizeof_disk_entry = 260"
definition sfs_dentry_size :: nat where "sfs_dentry_size = 256"

text \<open>\<^verbatim>\<open>entry->ino\<close> and \<^verbatim>\<open>entry->name\<close>.\<close>

definition entry_ino :: "mem \<Rightarrow> nat \<Rightarrow> nat" where
  "entry_ino m ent = dec32 (\<lambda>i. m (ent + i))"

definition entry_name :: "nat \<Rightarrow> nat" where
  "entry_name ent = ent + 4"

definition sfs_dirent_read_nolock :: "sfs_inode \<Rightarrow> nat \<Rightarrow> nat \<Rightarrow> mem \<Rightarrow> sfs \<Rightarrow> (int \<times> sfs_inode \<times> mem \<times> sfs) option" where
  "sfs_dirent_read_nolock sin slot ent m s = do {
     c_assert (itype (din sin) = SFS_TYPE_DIR \<and> slot < iblocks (din sin));
     (ret, blk, sin1, s1) \<leftarrow> sfs_bmap_load_nolock sin slot s;
     if ret \<noteq> 0 then Some (ret, sin1, m, s1)
     else do {
       u \<leftarrow> sfs_block_inuse blk s1;
       c_assert u;
       (ret1, b, s2) \<leftarrow> sfs_rbuf (\<lambda>i. m (ent + i)) sizeof_disk_entry blk 0 s1;
       let m1 = blit ent sizeof_disk_entry b m;
       if ret1 \<noteq> 0 then Some (ret1, sin1, m1, s2)
       else Some (0, sin1, m1(entry_name ent + SFS_MAX_FNAME_LEN := 0), s2) } }"

text \<open>The search loop: \<open>k\<close> slots are left, from slot i on.  The results are the error code, the slot and
  the inode number found, and the empty slot seen last.\<close>

primrec dirent_search_loop :: "nat \<Rightarrow> nat \<Rightarrow> nat \<Rightarrow> nat \<Rightarrow> nat \<Rightarrow> sfs_inode \<Rightarrow> mem \<Rightarrow> sfs \<Rightarrow>
    (int \<times> (nat \<times> nat) option \<times> nat \<times> sfs_inode \<times> mem \<times> sfs) option" where
  "dirent_search_loop 0 i name ent emp sin m s = Some (- E_NOENT, None, emp, sin, m, s)"
| "dirent_search_loop (Suc k) i name ent emp sin m s = do {
     (ret, sin1, m1, s1) \<leftarrow> sfs_dirent_read_nolock sin i ent m s;
     if ret \<noteq> 0 then Some (ret, None, emp, sin1, m1, s1)
     else if entry_ino m1 ent = 0 then dirent_search_loop k (i + 1) name ent i sin1 m1 s1
     else do {
       c \<leftarrow> strcmp m1 name (entry_name ent);
       if c = 0 then Some (0, Some (i, entry_ino m1 ent), emp, sin1, m1, s1)
       else dirent_search_loop k (i + 1) name ent emp sin1 m1 s1 } }"

definition sfs_dirent_search_nolock :: "nat option \<Rightarrow> sfs_inode \<Rightarrow> nat \<Rightarrow> mem \<Rightarrow> sfs \<Rightarrow>
    (int \<times> (nat \<times> nat) option \<times> nat option \<times> sfs_inode \<times> mem \<times> sfs) option" where
  "sfs_dirent_search_nolock kmem sin name m s = do {
     n \<leftarrow> strlen m name;
     c_assert (n \<le> SFS_MAX_FNAME_LEN);
     case kmem of None \<Rightarrow> Some (- E_NO_MEM, None, None, sin, m, s)
     | Some ent \<Rightarrow> do {
         let nslots = iblocks (din sin);
         (ret, found, emp, sin1, m1, s1) \<leftarrow> dirent_search_loop nslots 0 name ent nslots sin m s;
         Some (ret, found, Some emp, sin1, m1, s1) } }"

primrec dirent_findino_loop :: "nat \<Rightarrow> nat \<Rightarrow> nat \<Rightarrow> nat \<Rightarrow> sfs_inode \<Rightarrow> mem \<Rightarrow> sfs \<Rightarrow> (int \<times> sfs_inode \<times> mem \<times> sfs) option" where
  "dirent_findino_loop 0 i num ent sin m s = Some (- E_NOENT, sin, m, s)"
| "dirent_findino_loop (Suc k) i num ent sin m s = do {
     (ret, sin1, m1, s1) \<leftarrow> sfs_dirent_read_nolock sin i ent m s;
     if ret \<noteq> 0 then Some (ret, sin1, m1, s1)
     else if entry_ino m1 ent = num then Some (0, sin1, m1, s1)
     else dirent_findino_loop k (i + 1) num ent sin1 m1 s1 }"

definition sfs_dirent_findino_nolock :: "sfs_inode \<Rightarrow> nat \<Rightarrow> nat \<Rightarrow> mem \<Rightarrow> sfs \<Rightarrow> (int \<times> sfs_inode \<times> mem \<times> sfs) option" where
  "sfs_dirent_findino_nolock sin num ent m s = dirent_findino_loop (iblocks (din sin)) 0 num ent sin m s"

primrec getdirentry_loop :: "nat \<Rightarrow> nat \<Rightarrow> nat \<Rightarrow> nat \<Rightarrow> sfs_inode \<Rightarrow> mem \<Rightarrow> sfs \<Rightarrow> (int \<times> sfs_inode \<times> mem \<times> sfs) option" where
  "getdirentry_loop 0 i slot ent sin m s = Some (- E_NOENT, sin, m, s)"
| "getdirentry_loop (Suc k) i slot ent sin m s = do {
     (ret, sin1, m1, s1) \<leftarrow> sfs_dirent_read_nolock sin i ent m s;
     if ret \<noteq> 0 then Some (ret, sin1, m1, s1)
     else if entry_ino m1 ent \<noteq> 0 then
       (if slot = 0 then Some (0, sin1, m1, s1) else getdirentry_loop k (i + 1) (slot - 1) ent sin1 m1 s1)
     else getdirentry_loop k (i + 1) slot ent sin1 m1 s1 }"

definition sfs_getdirentry_sub_nolock :: "sfs_inode \<Rightarrow> nat \<Rightarrow> nat \<Rightarrow> mem \<Rightarrow> sfs \<Rightarrow> (int \<times> sfs_inode \<times> mem \<times> sfs) option" where
  "sfs_getdirentry_sub_nolock sin slot ent m s = getdirentry_loop (iblocks (din sin)) 0 slot ent sin m s"

definition sfs_getdirentry :: "nat option \<Rightarrow> sfs_inode \<Rightarrow> iobuf \<Rightarrow> mem \<Rightarrow> sfs \<Rightarrow> (int \<times> sfs_inode \<times> iobuf \<times> mem \<times> sfs) option" where
  "sfs_getdirentry kmem sin iob m s =
     (case kmem of None \<Rightarrow> Some (- E_NO_MEM, sin, iob, m, s)
      | Some ent \<Rightarrow>
          let offset = io_offset iob; slot = offset div sfs_dentry_size
          in if offset mod sfs_dentry_size \<noteq> 0 then Some (- E_INVAL, sin, iob, m, s)
             else if slot > iblocks (din sin) then Some (- E_NOENT, sin, iob, m, s)
             else do {
               (ret, sin1, m1, s1) \<leftarrow> sfs_getdirentry_sub_nolock sin slot ent m s;
               if ret \<noteq> 0 then Some (ret, sin1, iob, m1, s1)
               else do {
                 (ret1, _, iob1, m2) \<leftarrow> iobuf_move (entry_name ent) sfs_dentry_size True iob m1;
                 Some (ret1, sin1, iob1, m2, s1) } })"

definition sfs_opendir :: "u32 \<Rightarrow> int" where
  "sfs_opendir open_flags =
     (if open_flags AND 3 \<noteq> 0 then - E_ISDIR
      else if open_flags AND 0x20 \<noteq> 0 then - E_ISDIR
      else 0)"

subsection \<open>The entries of a directory\<close>

definition dent :: "bytes \<Rightarrow> nat \<Rightarrow> nat \<times> u8 list" where
  "dent f i = (dec32 (\<lambda>j. f (i * SFS_BLKSIZE + j)),
     takeWhile (\<lambda>x. x \<noteq> 0) (map (\<lambda>j. f (i * SFS_BLKSIZE + 4 + j)) [0..<SFS_MAX_FNAME_LEN]))"

definition dents :: "sfs \<Rightarrow> sfs_inode \<Rightarrow> (nat \<times> u8 list) list" where
  "dents s sin = map (dent (fc s (din sin))) [0..<iblocks (din sin)]"

definition dir_ok :: "sfs \<Rightarrow> sfs_inode \<Rightarrow> bool" where
  "dir_ok s sin \<longleftrightarrow> sfs_ok s \<and> file_ok s (din sin) \<and> itype (din sin) = SFS_TYPE_DIR"

lemma cstr_takeWhile:
  assumes "\<And>j. j < n \<Longrightarrow> m (a + j) = xs ! j" "m (a + n) = 0" "length xs = n"
  shows "cstr m a (takeWhile (\<lambda>x. x \<noteq> 0) xs)"
  using assms
proof (induction xs arbitrary: a n)
  case (Cons x xs)
  have "m a = x" using Cons.prems(1) [of 0] Cons.prems(3) by simp
  moreover have "cstr m (a + 1) (takeWhile (\<lambda>x. x \<noteq> 0) xs)"
  proof (rule Cons.IH [OF _ _ refl])
    show "m (a + 1 + j) = xs ! j" if "j < length xs" for j using Cons.prems(1) [of "Suc j"] Cons.prems(3) that by simp
    show "m (a + 1 + length xs) = 0" using Cons.prems(2,3) by auto
  qed
  ultimately show ?case by auto
qed simp

lemma dirent_read_ok:
  assumes d: "dir_ok s sin" and i: "i < iblocks (din sin)"
  shows "\<exists>m' s'. sfs_dirent_read_nolock sin i ent m s = Some (0, sin, m', s') \<and> goes s s' (free_blocks s) (img s) \<and>
    entry_ino m' ent = fst (dents s sin ! i) \<and> cstr m' (entry_name ent) (snd (dents s sin ! i)) \<and>
    (\<forall>x. x < ent \<or> ent + sizeof_disk_entry \<le> x \<longrightarrow> m' x = m x)"
proof -
  from d have s: "sfs_ok s" "file_ok s (din sin)" "itype (din sin) = SFS_TYPE_DIR" by (simp_all add: dir_ok_def)
  let ?blk = "bno (img s) (din sin) i"
  from load_old [OF s(1,2) i] obtain s1 where
    l: "sfs_bmap_load_nolock sin i s = Some (0, ?blk, sin, s1)" "goes s s1 (free_blocks s) (img s)" by blast
  note g = goes_back [OF l(2)]
  note b = file_okD(3-5) [OF s(2) i]
  have iu: "sfs_block_inuse ?blk s1 = Some True" using inuse_ok [of s1 ?blk] g b by simp
  have se: "sizeof_disk_entry = 260" by (simp add: sizeof_disk_entry_def)
  from rbuf_ok [of s1 ?blk 0 260 "\<lambda>i. m (ent + i)"] g b obtain s2 where
    r: "sfs_rbuf (\<lambda>i. m (ent + i)) 260 ?blk 0 s1 =
        Some (0, blit 0 260 (\<lambda>i. img s (?blk * SFS_BLKSIZE + 0 + i)) (\<lambda>i. m (ent + i)), s2)"
      "goes s1 s2 (free_blocks s) (img s)" by (auto simp: SFS_BLKSIZE_def)
  let ?m = "(blit ent 260 (blit 0 260 (\<lambda>i. img s (?blk * SFS_BLKSIZE + 0 + i)) (\<lambda>i. m (ent + i))) m)(ent + 259 := 0)"
  have read: "sfs_dirent_read_nolock sin i ent m s = Some (0, sin, ?m, s2)"
    using l(1) iu r(1) s(3) i by (simp add: sfs_dirent_read_nolock_def se entry_name_def SFS_MAX_FNAME_LEN_def add.commute)
  have at: "?m (ent + j) = fc s (din sin) (i * SFS_BLKSIZE + j)" if "j < 259" for j
    using that i by (simp add: fc_def blit_def SFS_BLKSIZE_def)
  have di: "dents s sin ! i = dent (fc s (din sin)) i" using i by (simp add: dents_def)
  have "entry_ino ?m ent = fst (dents s sin ! i)"
    unfolding entry_ino_def di dent_def fst_conv by (rule dec32_cong, rule at) simp
  moreover have "cstr ?m (entry_name ent) (snd (dents s sin ! i))"
    unfolding di dent_def snd_conv entry_name_def
  proof (rule cstr_takeWhile [where n = SFS_MAX_FNAME_LEN])
    show "?m (ent + 4 + j) = map (\<lambda>j. fc s (din sin) (i * SFS_BLKSIZE + 4 + j)) [0..<SFS_MAX_FNAME_LEN] ! j"
      if "j < SFS_MAX_FNAME_LEN" for j
      using at [of "4 + j"] that by (simp only: SFS_MAX_FNAME_LEN_def add.assoc) simp
  qed (simp_all add: SFS_MAX_FNAME_LEN_def)
  moreover have "\<forall>x. x < ent \<or> ent + sizeof_disk_entry \<le> x \<longrightarrow> ?m x = m x" by (auto simp: se blit_def)
  moreover have "goes s s2 (free_blocks s) (img s)" using goes_trans [OF l(2) r(2)] .
  ultimately show ?thesis using read by blast
qed

lemma dir_same:
  assumes "goes s s' (free_blocks s) (img s)" "dir_ok s sin"
  shows "dir_ok s' sin" "dents s' sin = dents s sin"
  using goes_same [OF assms(1), of "din sin"] assms(2) by (simp_all add: dir_ok_def dents_def)

subsection \<open>Search\<close>

text \<open>What the loops compute, on the list of entries.\<close>

fun dir_find :: "u8 list \<Rightarrow> (nat \<times> u8 list) list \<Rightarrow> nat \<Rightarrow> nat \<Rightarrow> (nat \<times> nat) option \<times> nat" where
  "dir_find nm [] i emp = (None, emp)"
| "dir_find nm ((n, x) # ds) i emp =
     (if n = 0 then dir_find nm ds (i + 1) i else if x = nm then (Some (i, n), emp) else dir_find nm ds (i + 1) emp)"

definition found_ok :: "u8 list \<Rightarrow> (nat \<times> u8 list) list \<Rightarrow> nat \<Rightarrow> (nat \<times> nat) option \<Rightarrow> bool" where
  "found_ok nm ds i r \<longleftrightarrow> (case r of
     Some (j, n) \<Rightarrow> \<exists>k < length ds. j = i + k \<and> n \<noteq> 0 \<and> ds ! k = (n, nm) \<and> (\<forall>l < k. fst (ds ! l) = 0 \<or> snd (ds ! l) \<noteq> nm)
   | None \<Rightarrow> \<forall>e \<in> set ds. fst e = 0 \<or> snd e \<noteq> nm)"

lemma found_shift:
  assumes "found_ok nm ds (Suc i) r" "fst e = 0 \<or> snd e \<noteq> nm"
  shows "found_ok nm (e # ds) i r"
proof (cases r)
  case (Some a)
  then obtain j n k where r: "r = Some (j, n)" "k < length ds" "j = Suc i + k" "n \<noteq> 0" "ds ! k = (n, nm)"
    "\<forall>l < k. fst (ds ! l) = 0 \<or> snd (ds ! l) \<noteq> nm" using assms(1) by (auto simp: found_ok_def split: prod.splits)
  have "\<forall>l < Suc k. fst ((e # ds) ! l) = 0 \<or> snd ((e # ds) ! l) \<noteq> nm"
    using r(6) assms(2) by (auto simp: less_Suc_eq_0_disj)
  then show ?thesis unfolding found_ok_def r(1) using r(2-5) by (auto intro!: exI [of _ "Suc k"])
qed (use assms in \<open>auto simp: found_ok_def\<close>)

lemma dir_find_spec: "found_ok nm ds i (fst (dir_find nm ds i emp))"
proof (induction nm ds i emp rule: dir_find.induct)
  case (2 nm n x ds i emp)
  consider "n = 0" | "n \<noteq> 0" "x = nm" | "n \<noteq> 0" "x \<noteq> nm" by blast
  then show ?case
  proof cases
    case 1
    then show ?thesis using found_shift [OF "2.IH"(1) [OF 1, simplified], of "(n, x)"] by simp
  next
    case 2
    then show ?thesis by (auto simp: found_ok_def)
  next
    case 3
    then show ?thesis using found_shift [OF "2.IH"(2) [OF 3, simplified], of "(n, x)"] by simp
  qed
qed (simp add: found_ok_def)

lemma search_loop_ok:
  assumes "dir_ok s sin" "i + k = iblocks (din sin)" "cstr m name nm"
    "name + length nm < ent \<or> ent + sizeof_disk_entry \<le> name"
  shows "\<exists>ret m' s'. dirent_search_loop k i name ent emp sin m s =
      Some (ret, fst (dir_find nm (drop i (dents s sin)) i emp), snd (dir_find nm (drop i (dents s sin)) i emp), sin, m', s') \<and>
    goes s s' (free_blocks s) (img s) \<and>
    ret = (if fst (dir_find nm (drop i (dents s sin)) i emp) = None then - E_NOENT else 0)"
  using assms
proof (induction k arbitrary: i emp m s)
  case 0
  then have "drop i (dents s sin) = []" by (simp add: dents_def)
  then show ?case using 0(1) by (simp add: goes_def dir_ok_def)
next
  case (Suc k)
  have i: "i < iblocks (din sin)" using Suc.prems(2) by simp
  from dirent_read_ok [OF Suc.prems(1) i, of ent m] obtain m1 s1 where
    r: "sfs_dirent_read_nolock sin i ent m s = Some (0, sin, m1, s1)" "goes s s1 (free_blocks s) (img s)"
      "entry_ino m1 ent = fst (dents s sin ! i)" "cstr m1 (entry_name ent) (snd (dents s sin ! i))"
      "\<And>x. x < ent \<or> ent + sizeof_disk_entry \<le> x \<Longrightarrow> m1 x = m x" by blast
  note ds = dir_same [OF r(2) Suc.prems(1)]
  obtain n x where e: "dents s sin ! i = (n, x)" by fastforce
  have c: "cstr m1 name nm" using Suc.prems(3,4) by (auto intro!: cstr_cong [OF Suc.prems(3)] r(5))
  have sc: "strcmp m1 name (entry_name ent) = Some (bytes_cmp nm x)"
    using strcmp_cstr [OF c r(4)] e by simp
  have z: "bytes_cmp nm x = 0 \<longleftrightarrow> x = nm"
    using bytes_cmp_zero [of nm x] c r(4) e by (auto simp: cstr_iff)
  have "length (dents s sin) = iblocks (din sin)" by (simp add: dents_def)
  then have dr: "drop i (dents s sin) = (n, x) # drop (Suc i) (dents s sin)"
    using i e by (metis Cons_nth_drop_Suc)
  have n: "entry_ino m1 ent = n" using r(3) e by simp
  note g = goes_back [OF r(2)]
  have IH: "\<exists>ret m' s'. dirent_search_loop k (Suc i) name ent em sin m1 s1 =
      Some (ret, fst (dir_find nm (drop (Suc i) (dents s sin)) (Suc i) em), snd (dir_find nm (drop (Suc i) (dents s sin)) (Suc i) em), sin, m', s') \<and>
    goes s s' (free_blocks s) (img s) \<and>
    ret = (if fst (dir_find nm (drop (Suc i) (dents s sin)) (Suc i) em) = None then - E_NOENT else 0)" for em
    using Suc.IH [OF ds(1) _ c Suc.prems(4), of "Suc i" em] Suc.prems(2) goes_trans [OF r(2)] g unfolding ds(2) by auto
  consider "n = 0" | "n \<noteq> 0" "x = nm"
    | "n \<noteq> 0" "x \<noteq> nm" by blast
  then show ?case
  proof cases
    case 1
    then show ?thesis unfolding dr using IH [of i] r(1) n by simp
  next
    case 2
    then show ?thesis unfolding dr using r(1,2) n sc z by simp
  next
    case 3
    then show ?thesis unfolding dr using IH [of emp] r(1) n sc z by simp
  qed
qed

lemma getdirentry_loop_ok:
  assumes "dir_ok s sin" "i + k = iblocks (din sin)"
  shows "\<exists>m' s'. goes s s' (free_blocks s) (img s) \<and>
    (let es = filter (\<lambda>e. fst e \<noteq> 0) (drop i (dents s sin))
     in if slot < length es
        then getdirentry_loop k i slot ent sin m s = Some (0, sin, m', s') \<and> cstr m' (entry_name ent) (snd (es ! slot)) \<and>
          entry_ino m' ent = fst (es ! slot)
        else getdirentry_loop k i slot ent sin m s = Some (- E_NOENT, sin, m', s')) \<and>
    (\<forall>x. x < ent \<or> ent + sizeof_disk_entry \<le> x \<longrightarrow> m' x = m x)"
  using assms
proof (induction k arbitrary: i slot m s)
  case 0
  then have "drop i (dents s sin) = []" by (simp add: dents_def)
  then show ?case using 0(1) by (auto simp: goes_def dir_ok_def)
next
  case (Suc k)
  have i: "i < iblocks (din sin)" using Suc.prems(2) by simp
  from dirent_read_ok [OF Suc.prems(1) i, of ent m] obtain m1 s1 where
    r: "sfs_dirent_read_nolock sin i ent m s = Some (0, sin, m1, s1)" "goes s s1 (free_blocks s) (img s)"
      "entry_ino m1 ent = fst (dents s sin ! i)" "cstr m1 (entry_name ent) (snd (dents s sin ! i))"
      "\<forall>x. x < ent \<or> ent + sizeof_disk_entry \<le> x \<longrightarrow> m1 x = m x" by blast
  note ds = dir_same [OF r(2) Suc.prems(1)]
  have "length (dents s sin) = iblocks (din sin)" by (simp add: dents_def)
  then have dr: "drop i (dents s sin) = dents s sin ! i # drop (Suc i) (dents s sin)"
    using i by (simp add: Cons_nth_drop_Suc)
  note g = goes_back [OF r(2)]
  have IH: "\<exists>m' s'. goes s s' (free_blocks s) (img s) \<and>
    (let es = filter (\<lambda>e. fst e \<noteq> 0) (drop (Suc i) (dents s sin))
     in if sl < length es
        then getdirentry_loop k (Suc i) sl ent sin m1 s1 = Some (0, sin, m', s') \<and> cstr m' (entry_name ent) (snd (es ! sl)) \<and>
          entry_ino m' ent = fst (es ! sl)
        else getdirentry_loop k (Suc i) sl ent sin m1 s1 = Some (- E_NOENT, sin, m', s')) \<and>
    (\<forall>x. x < ent \<or> ent + sizeof_disk_entry \<le> x \<longrightarrow> m' x = m x)" for sl
  proof -
    have ik: "Suc i + k = iblocks (din sin)" using Suc.prems(2) by simp
    have g': "free_blocks s1 = free_blocks s" "img s1 = img s" using g by simp_all
    from Suc.IH [OF ds(1) ik, of sl m1, unfolded ds(2) g'] show ?thesis
      by (elim exE conjE) (intro exI conjI, erule goes_trans [OF r(2)], assumption, simp add: r(5))
  qed
  show ?case
  proof (cases "fst (dents s sin ! i) = 0")
    case True
    then have "getdirentry_loop (Suc k) i slot ent sin m s = getdirentry_loop k (Suc i) slot ent sin m1 s1"
      "filter (\<lambda>e. fst e \<noteq> 0) (drop i (dents s sin)) = filter (\<lambda>e. fst e \<noteq> 0) (drop (Suc i) (dents s sin))"
      using r(1,3) by (simp_all add: dr)
    then show ?thesis using IH [of slot] by (simp only:)
  next
    case False
    show ?thesis
    proof (cases slot)
      case 0
      then show ?thesis unfolding dr using False r by (auto simp: Let_def)
    next
      case (Suc sl)
      obtain es where es: "es = filter (\<lambda>e. fst e \<noteq> 0) (drop (Suc i) (dents s sin))" by blast
      have "getdirentry_loop (Suc k) i (Suc sl) ent sin m s = getdirentry_loop k (Suc i) sl ent sin m1 s1"
        "filter (\<lambda>e. fst e \<noteq> 0) (drop i (dents s sin)) = dents s sin ! i # es"
        using r(1,3) False by (simp_all add: dr es)
      then show ?thesis using IH [of sl] unfolding Suc es [symmetric] Let_def
        by (simp only: list.size nth_Cons_Suc add_Suc_right add_0_right Suc_less_eq)
    qed
  qed
qed

subsection \<open>The properties\<close>

definition fs_dir :: sfs where
  "fs_dir = fs_small\<lparr>sdev := \<lparr>image = (\<lambda>x. if x = 3 * 4096 then 5 else if x = 3 * 4096 + 4 then 97 else 0), dsize = 64\<rparr>\<rparr>"

definition dir_small :: sfs_inode where
  "dir_small = file_small\<lparr>din := (din file_small)\<lparr>isize := 4096, itype := 2\<rparr>\<rparr>"

lemma dir_small_ok: "dir_ok fs_dir dir_small" "dents fs_dir dir_small = [(5, [97])]"
proof -
  have fb: "free_blocks fs_dir = {4, 5, 6, 7}" using free_small by (simp add: free_blocks_def fs_dir_def)
  have "sfs_ok fs_small" "file_ok fs_small (din file_small)" using small_ok by (simp_all add: file_inv_def)
  then have "sfs_ok fs_dir"
    unfolding sfs_ok_def fb free_small by (simp add: fs_dir_def fs_small_def dev_ok_def d_blocks_def)
  moreover have b: "bno (img fs_dir) (din dir_small) i = (if i = 0 then 3 else 0)" for i
    by (auto simp: bno_def dir_small_def file_small_def SFS_NDIRECT_def nth_Cons split: nat.splits)
  have "file_ok fs_dir (din dir_small)"
    by (rule file_okI, simp_all add: b fb) (auto simp: dir_small_def file_small_def fs_dir_def fs_small_def SFS_NDIRECT_def MAX_BLOCKS_def)
  ultimately show "dir_ok fs_dir dir_small" by (simp add: dir_ok_def dir_small_def)
  have f: "fc fs_dir (din dir_small) j = img fs_dir (12288 + j)" if "j < 4096" for j
    using that by (simp add: fc_def b SFS_BLKSIZE_def) (simp add: dir_small_def file_small_def)
  have im: "img fs_dir x = (if x = 12288 then 5 else if x = 12292 then 97 else 0)" for x
    by (simp add: img_def fs_dir_def)
  have "dent (fc fs_dir (din dir_small)) 0 = (5, [97])"
    by (simp add: dent_def dec32_def f im SFS_MAX_FNAME_LEN_def upt_conv_Cons)
  then show "dents fs_dir dir_small = [(5, [97])]" by (simp add: dents_def) (simp add: dir_small_def file_small_def)
qed

lemma dir_search_ok:
  assumes "dir_ok s sin" "cstr m name nm" "length nm \<le> SFS_MAX_FNAME_LEN"
    "name + length nm < ent \<or> ent + sizeof_disk_entry \<le> name"
  shows "\<exists>ret found emp m' s'. sfs_dirent_search_nolock (Some ent) sin name m s = Some (ret, found, emp, sin, m', s') \<and>
    goes s s' (free_blocks s) (img s) \<and>
    (case found of
       None \<Rightarrow> ret = - E_NOENT \<and> (\<forall>e \<in> set (dents s sin). fst e = 0 \<or> snd e \<noteq> nm)
     | Some (i, n) \<Rightarrow> ret = 0 \<and> i < length (dents s sin) \<and> n \<noteq> 0 \<and> dents s sin ! i = (n, nm) \<and>
         (\<forall>l < i. fst (dents s sin ! l) = 0 \<or> snd (dents s sin ! l) \<noteq> nm))"
proof -
  let ?n = "iblocks (din sin)"
  let ?r = "fst (dir_find nm (dents s sin) 0 ?n)"
  from search_loop_ok [OF assms(1) _ assms(2,4), of 0 ?n ?n] obtain ret m' s' where
    l: "dirent_search_loop ?n 0 name ent ?n sin m s = Some (ret, ?r, snd (dir_find nm (dents s sin) 0 ?n), sin, m', s')"
      "goes s s' (free_blocks s) (img s)" "ret = (if ?r = None then - E_NOENT else 0)" by auto
  have "sfs_dirent_search_nolock (Some ent) sin name m s =
      Some (ret, ?r, Some (snd (dir_find nm (dents s sin) 0 ?n)), sin, m', s')"
    using strlen_cstr [OF assms(2)] assms(3) l(1) by (simp add: sfs_dirent_search_nolock_def Let_def)
  moreover have "found_ok nm (dents s sin) 0 ?r" by (rule dir_find_spec)
  ultimately show ?thesis using l(2,3) by (cases ?r) (auto simp: found_ok_def split: prod.splits)
qed

text \<open>The search of a directory finds the first entry in use with the name, and reports \<open>-E_NOENT\<close>
  exactly if there is none; it changes neither the directory nor the disk.\<close>

lemma sfs_dir_search:
  assumes "dir_ok s sin" "cstr m name nm" "length nm \<le> SFS_MAX_FNAME_LEN"
    "name + length nm < ent \<or> ent + sizeof_disk_entry \<le> name"
  shows "\<exists>ret found emp m' s'. sfs_dirent_search_nolock (Some ent) sin name m s = Some (ret, found, emp, sin, m', s') \<and>
    goes s s' (free_blocks s) (img s) \<and>
    (case found of
       None \<Rightarrow> ret = - E_NOENT \<and> (\<forall>e \<in> set (dents s sin). fst e = 0 \<or> snd e \<noteq> nm)
     | Some (i, n) \<Rightarrow> ret = 0 \<and> i < length (dents s sin) \<and> n \<noteq> 0 \<and> dents s sin ! i = (n, nm) \<and>
         (\<forall>l < i. fst (dents s sin ! l) = 0 \<or> snd (dents s sin ! l) \<noteq> nm))"
  using assms by (rule dir_search_ok)

lemma sfs_dir_search_witness:
  "\<exists>ret found emp m' s'. sfs_dirent_search_nolock (Some 1000) dir_small 20 demo_mem fs_dir = Some (ret, found, emp, dir_small, m', s') \<and>
     ret = - E_NOENT"
proof -
  have "length (bytes_of ''abc'') = 3" "bytes_of ''abc'' \<noteq> [97]" by code_simp+
  with sfs_dir_search [OF dir_small_ok(1) demo_cstr(2), of 1000] show ?thesis
    by (auto simp: SFS_MAX_FNAME_LEN_def dir_small_ok(2) split: option.splits)
qed

text \<open>Reading the entries of a directory by \<open>sfs_getdirentry\<close> at the offsets 0, 256, 512, ... gives the
  names of the entries in use, in order, and \<open>-E_NOENT\<close> behind the last one.\<close>

lemma sfs_getdirentry_ok:
  assumes "dir_ok s sin" "iobuf_ok base o0 iob" "io_offset iob = k * sfs_dentry_size" "sfs_dentry_size \<le> io_resid iob"
    "io_base iob + sfs_dentry_size \<le> ent \<or> ent + sizeof_disk_entry \<le> io_base iob"
  defines "es \<equiv> filter (\<lambda>e. fst e \<noteq> 0) (dents s sin)"
  shows "\<exists>iob' m' s'. goes s s' (free_blocks s) (img s) \<and>
    (if k < length es
     then sfs_getdirentry (Some ent) sin iob m s = Some (0, sin, iob', m', s') \<and> cstr m' (io_base iob) (snd (es ! k)) \<and>
       io_offset iob' = (k + 1) * sfs_dentry_size
     else sfs_getdirentry (Some ent) sin iob m s = Some (- E_NOENT, sin, iob, m', s'))"
proof -
  have dz: "0 < sfs_dentry_size" by (simp add: sfs_dentry_size_def)
  have slot: "io_offset iob mod sfs_dentry_size = 0" "io_offset iob div sfs_dentry_size = k" using assms(3) dz by simp_all
  have le: "length es \<le> iblocks (din sin)" unfolding es_def using length_filter_le [of _ "dents s sin"] by (simp add: dents_def)
  have gs: "goes s s (free_blocks s) (img s)" using assms(1) by (simp add: goes_def dir_ok_def)
  show ?thesis
  proof (cases "k \<le> iblocks (din sin)")
    case False
    then have "sfs_getdirentry (Some ent) sin iob m s = Some (- E_NOENT, sin, iob, m, s)"
      using slot by (simp add: sfs_getdirentry_def)
    then show ?thesis using False le gs by auto
  next
    case True
    from getdirentry_loop_ok [OF assms(1), of 0 "iblocks (din sin)" k ent m] obtain m1 s1 where
      l: "goes s s1 (free_blocks s) (img s)"
        "if k < length es
         then getdirentry_loop (iblocks (din sin)) 0 k ent sin m s = Some (0, sin, m1, s1) \<and>
           cstr m1 (entry_name ent) (snd (es ! k)) \<and> entry_ino m1 ent = fst (es ! k)
         else getdirentry_loop (iblocks (din sin)) 0 k ent sin m s = Some (- E_NOENT, sin, m1, s1)"
      unfolding Let_def drop_0 es_def [symmetric] by auto
    show ?thesis
    proof (cases "k < length es")
      case False
      then have "sfs_getdirentry (Some ent) sin iob m s = Some (- E_NOENT, sin, iob, m1, s1)"
        using slot True l(2) by (simp add: sfs_getdirentry_def sfs_getdirentry_sub_nolock_def)
      then show ?thesis using False l(1) by auto
    next
      case k: True
      from iobuf_move_ok [OF assms(2), of "entry_name ent" sfs_dentry_size True m1] assms(4) obtain iob2 m2 where
        mv: "iobuf_move (entry_name ent) sfs_dentry_size True iob m1 = Some (0, sfs_dentry_size, iob2, m2)"
          "iobuf_ok base o0 iob2" "io_resid iob2 = io_resid iob - sfs_dentry_size"
          "m2 = snd (memmove (io_base iob) (entry_name ent) sfs_dentry_size m1)"
        by (auto simp: min_def)
      have "sfs_getdirentry (Some ent) sin iob m s = Some (0, sin, iob2, m2, s1)"
        using slot True l(2) k mv(1) by (simp add: sfs_getdirentry_def sfs_getdirentry_sub_nolock_def)
      moreover have "length (snd (es ! k)) \<le> SFS_MAX_FNAME_LEN"
      proof -
        have "es ! k \<in> set (dents s sin)" using nth_mem [OF k] by (simp add: es_def)
        then obtain i where "es ! k = dent (fc s (din sin)) i" by (auto simp: dents_def)
        then show ?thesis using length_takeWhile_le [of "\<lambda>x. x \<noteq> 0" "map (\<lambda>j. fc s (din sin) (i * SFS_BLKSIZE + 4 + j)) [0..<SFS_MAX_FNAME_LEN]"]
          by (simp add: dent_def)
      qed
      then have "cstr m2 (io_base iob) (snd (es ! k))"
        using l(2) k unfolding mv(4) cstr_iff by (simp add: memmove_at sfs_dentry_size_def SFS_MAX_FNAME_LEN_def)
      moreover have "io_offset iob2 = (k + 1) * sfs_dentry_size"
        using mv(1) assms(3,4) dz by (auto simp: iobuf_move_def iobuf_skip_def Let_def split: if_splits)
      ultimately show ?thesis using k l(1) by auto
    qed
  qed
qed

lemma sfs_getdirentry_ok_witness:
  "\<exists>iob' m' s'. sfs_getdirentry (Some 1000) dir_small (iobuf_init 5000 256 0) (\<lambda>_. 0) fs_dir = Some (0, dir_small, iob', m', s') \<and>
     cstr m' 5000 [97]"
  using sfs_getdirentry_ok [OF dir_small_ok(1) iobuf_init_ok [of 5000 0 256], of 0 1000 "\<lambda>_. 0"]
  by (auto simp: dir_small_ok(2) iobuf_init_def sfs_dentry_size_def sizeof_disk_entry_def)

end
