(* ===== verification/Vfs_Node.thy ===== *)
theory Vfs_Node
  imports Sfs_Dir Klist
begin

unbundle bit_operations_syntax

text \<open>
  The nodes of the virtual file system (labcode/lab8): kern/fs/vfs/inode.h and inode.c (reference and
  open counts, dispatch through the tables of operations), kern/fs/devs/dev.c with the console devices,
  and the rest of kern/fs/sfs/sfs_inode.c: the cache of in-memory inodes, in which a disk inode is
  loaded, found again and reclaimed.

  A node is named by its address.  \<^verbatim>\<open>kmalloc\<close> takes its results from the list \<open>mallocs\<close> of the state,
  \<open>None\<close> for null.  The semaphores serialise the operations; each is one step here.  The console is
  the string it was sent; \<open>keys\<close> are the characters the keyboard delivers until a reader that waits
  for more of them is interrupted.
\<close>

abbreviation (input) E_BUSY :: int where "E_BUSY \<equiv> 15"
abbreviation (input) E_NOTDIR :: int where "E_NOTDIR \<equiv> 18"
abbreviation (input) E_UNIMP :: int where "E_UNIMP \<equiv> 20"
abbreviation (input) E_MAX_OPEN :: int where "E_MAX_OPEN \<equiv> 22"
abbreviation (input) E_EXISTS :: int where "E_EXISTS \<equiv> 23"
abbreviation (input) E_NO_DEV :: int where "E_NO_DEV \<equiv> 13"
abbreviation (input) E_NA_DEV :: int where "E_NA_DEV \<equiv> 14"

definition O_ACCMODE :: u32 where "O_ACCMODE = 3"
definition O_RDONLY :: u32 where "O_RDONLY = 0"
definition O_WRONLY :: u32 where "O_WRONLY = 1"
definition O_RDWR :: u32 where "O_RDWR = 2"
definition O_CREAT :: u32 where "O_CREAT = 4"
definition O_EXCL :: u32 where "O_EXCL = 8"
definition O_TRUNC :: u32 where "O_TRUNC = 0x10"
definition O_APPEND :: u32 where "O_APPEND = 0x20"

lemmas O_defs = O_ACCMODE_def O_RDONLY_def O_WRONLY_def O_RDWR_def O_CREAT_def O_EXCL_def O_TRUNC_def O_APPEND_def

subsection \<open>Data\<close>

datatype dev_kind = Stdin | Stdout | Disk0

record device =
  d_kind :: dev_kind
  dblocks :: nat
  dblocksize :: nat

datatype in_info = DeviceInfo device | SfsInodeInfo sfs_inode

text \<open>The three tables of operations, and the fields of \<^verbatim>\<open>struct inode_ops\<close>.\<close>

datatype inode_ops = DevNodeOps | SfsNodeDirops | SfsNodeFileops

datatype vop_name = VopOpen | VopClose | VopRead | VopWrite | VopFstat | VopFsync | VopNamefile
  | VopGetdirentry | VopReclaim | VopGettype | VopTryseek | VopTruncate | VopCreate | VopLookup | VopIoctl

definition dev_node_ops :: "vop_name list" where
  "dev_node_ops = [VopOpen, VopClose, VopRead, VopWrite, VopFstat, VopIoctl, VopGettype, VopTryseek, VopLookup]"

definition sfs_node_dirops :: "vop_name list" where
  "sfs_node_dirops = [VopOpen, VopClose, VopFstat, VopFsync, VopNamefile, VopGetdirentry, VopReclaim,
     VopGettype, VopLookup]"

definition sfs_node_fileops :: "vop_name list" where
  "sfs_node_fileops = [VopOpen, VopClose, VopRead, VopWrite, VopFstat, VopFsync, VopReclaim, VopGettype,
     VopTryseek, VopTruncate]"

definition has_op :: "inode_ops \<Rightarrow> vop_name \<Rightarrow> bool" where
  "has_op ops op = List.member (case ops of DevNodeOps \<Rightarrow> dev_node_ops | SfsNodeDirops \<Rightarrow> sfs_node_dirops
     | SfsNodeFileops \<Rightarrow> sfs_node_fileops) op"

record inode =
  in_info :: in_info
  ref_count :: int
  open_count :: int
  in_fs :: bool
  in_ops :: inode_ops

datatype inode_entry = InodeList | InodeLink nat
datatype ihash_entry = IHashHead nat | IHashLink nat

record vfs =
  inodes :: "nat \<Rightarrow> inode option"
  inode_list :: "inode_entry links"
  ihash_list :: "ihash_entry links"
  sfs :: sfs
  mallocs :: "nat option list"
  keys :: "u8 list"
  console :: "u8 list"

definition kmalloc :: "vfs \<Rightarrow> nat option \<times> vfs" where
  "kmalloc s = (case mallocs s of [] \<Rightarrow> (None, s) | r # rs \<Rightarrow> (r, s\<lparr>mallocs := rs\<rparr>))"

definition upd_node :: "nat \<Rightarrow> (inode \<Rightarrow> inode) \<Rightarrow> vfs \<Rightarrow> vfs" where
  "upd_node n f s = s\<lparr>inodes := (inodes s)(n := map_option f (inodes s n))\<rparr>"

lemma upd_node_simps [simp]:
  "inodes (upd_node n f s) x = (if x = n then map_option f (inodes s n) else inodes s x)"
  "inode_list (upd_node n f s) = inode_list s" "ihash_list (upd_node n f s) = ihash_list s"
  "sfs (upd_node n f s) = sfs s" "mallocs (upd_node n f s) = mallocs s" "keys (upd_node n f s) = keys s"
  "console (upd_node n f s) = console s"
  by (simp_all add: upd_node_def)

subsection \<open>inode.c\<close>

definition MAX_INODE_COUNT :: int where "MAX_INODE_COUNT = 0x10000"

definition inode_check :: "inode \<Rightarrow> bool" where
  "inode_check nd \<longleftrightarrow> ref_count nd \<ge> open_count nd \<and> open_count nd \<ge> 0 \<and>
     ref_count nd < MAX_INODE_COUNT \<and> open_count nd < MAX_INODE_COUNT"

text \<open>The macro \<^verbatim>\<open>__vop_op\<close>: the node, or a failed assertion.\<close>

definition vop_op :: "vop_name \<Rightarrow> nat \<Rightarrow> vfs \<Rightarrow> inode option" where
  "vop_op op n s = do { nd \<leftarrow> inodes s n; c_assert (has_op (in_ops nd) op); c_assert (inode_check nd); Some nd }"

definition sfs_info :: "nat \<Rightarrow> vfs \<Rightarrow> sfs_inode option" where
  "sfs_info n s = do { nd \<leftarrow> inodes s n; case in_info nd of SfsInodeInfo sin \<Rightarrow> Some sin | DeviceInfo _ \<Rightarrow> None }"

definition set_sin :: "nat \<Rightarrow> sfs_inode \<Rightarrow> vfs \<Rightarrow> vfs" where
  "set_sin n sin s = upd_node n (\<lambda>nd. nd\<lparr>in_info := SfsInodeInfo sin\<rparr>) s"

text \<open>An operation of the simple file system on a node.\<close>

definition on_sin :: "(sfs_inode \<Rightarrow> sfs \<Rightarrow> (int \<times> sfs_inode \<times> sfs) option) \<Rightarrow> nat \<Rightarrow> vfs \<Rightarrow> (int \<times> vfs) option" where
  "on_sin f n s = do {
     sin \<leftarrow> sfs_info n s;
     (ret, sin1, t) \<leftarrow> f sin (sfs s);
     Some (ret, set_sin n sin1 (s\<lparr>sfs := t\<rparr>)) }"

definition inode_init :: "nat \<Rightarrow> inode_ops \<Rightarrow> bool \<Rightarrow> in_info \<Rightarrow> vfs \<Rightarrow> vfs" where
  "inode_init n ops f info s =
     s\<lparr>inodes := (inodes s)(n \<mapsto> \<lparr>in_info = info, ref_count = 1, open_count = 0, in_fs = f, in_ops = ops\<rparr>)\<rparr>"

definition inode_kill :: "nat \<Rightarrow> vfs \<Rightarrow> vfs option" where
  "inode_kill n s = do {
     nd \<leftarrow> inodes s n;
     c_assert (ref_count nd = 0);
     c_assert (open_count nd = 0);
     Some (s\<lparr>inodes := (inodes s)(n := None)\<rparr>) }"

definition inode_ref_inc :: "nat \<Rightarrow> vfs \<Rightarrow> (int \<times> vfs) option" where
  "inode_ref_inc n s = do {
     nd \<leftarrow> inodes s n;
     Some (ref_count nd + 1, upd_node n (\<lambda>nd. nd\<lparr>ref_count := ref_count nd + 1\<rparr>) s) }"

definition inode_open_inc :: "nat \<Rightarrow> vfs \<Rightarrow> (int \<times> vfs) option" where
  "inode_open_inc n s = do {
     nd \<leftarrow> inodes s n;
     Some (open_count nd + 1, upd_node n (\<lambda>nd. nd\<lparr>open_count := open_count nd + 1\<rparr>) s) }"

subsection \<open>Operations of devices and files\<close>

definition dop_open :: "device \<Rightarrow> u32 \<Rightarrow> int" where
  "dop_open dev open_flags = (case d_kind dev of
     Stdin \<Rightarrow> if open_flags \<noteq> O_RDONLY then - E_INVAL else 0
   | Stdout \<Rightarrow> if open_flags \<noteq> O_WRONLY then - E_INVAL else 0
   | Disk0 \<Rightarrow> 0)"

definition dev_open :: "device \<Rightarrow> u32 \<Rightarrow> int" where
  "dev_open dev open_flags =
     (if open_flags AND (O_CREAT OR O_TRUNC OR O_EXCL OR O_APPEND) \<noteq> 0 then - E_INVAL else dop_open dev open_flags)"

text \<open>The transfer functions of the devices.  \<^verbatim>\<open>stdin_io\<close> and \<^verbatim>\<open>stdout_io\<close> count \<^verbatim>\<open>io_resid\<close> down and leave
  the other fields of the cursor.\<close>

definition stdin_io :: "iobuf \<Rightarrow> bool \<Rightarrow> mem \<Rightarrow> vfs \<Rightarrow> int \<times> iobuf \<times> mem \<times> vfs" where
  "stdin_io iob write m s =
     (if write then (- E_INVAL, iob, m, s)
      else
        let n = min (io_resid iob) (length (keys s));
            m1 = blit (io_base iob) n (\<lambda>i. keys s ! i) m
        in (int n, iob\<lparr>io_resid := io_resid iob - n\<rparr>, m1, s\<lparr>keys := drop n (keys s)\<rparr>))"

definition stdout_io :: "iobuf \<Rightarrow> bool \<Rightarrow> mem \<Rightarrow> vfs \<Rightarrow> int \<times> iobuf \<times> mem \<times> vfs" where
  "stdout_io iob write m s =
     (if write then (0, iob\<lparr>io_resid := 0\<rparr>, m, s\<lparr>console := console s @ map (\<lambda>i. m (io_base iob + i)) [0..<io_resid iob]\<rparr>)
      else (- E_INVAL, iob, m, s))"

definition disk0_dev_io :: "iobuf \<Rightarrow> bool \<Rightarrow> mem \<Rightarrow> vfs \<Rightarrow> (int \<times> iobuf \<times> mem \<times> vfs) option" where
  "disk0_dev_io iob write m s = do {
     (ret, d, dv) \<leftarrow> disk0_io write (io_offset iob) (io_resid iob) (\<lambda>i. m (io_base iob + i)) (sdev (sfs s));
     if ret \<noteq> 0 then Some (ret, iob, m, s)
     else do {
       iob1 \<leftarrow> iobuf_skip (io_resid iob) iob;
       Some (0, iob1, if write then m else blit (io_base iob) (io_resid iob) d m, s\<lparr>sfs := (sfs s)\<lparr>sdev := dv\<rparr>\<rparr>) } }"

definition dop_io :: "device \<Rightarrow> iobuf \<Rightarrow> bool \<Rightarrow> mem \<Rightarrow> vfs \<Rightarrow> (int \<times> iobuf \<times> mem \<times> vfs) option" where
  "dop_io dev iob write m s = (case d_kind dev of
     Stdin \<Rightarrow> Some (stdin_io iob write m s)
   | Stdout \<Rightarrow> Some (stdout_io iob write m s)
   | Disk0 \<Rightarrow> disk0_dev_io iob write m s)"

definition dev_gettype :: "device \<Rightarrow> nat" where
  "dev_gettype dev = (if dblocks dev > 0 then 0x5000 else 0x4000)"

definition dev_fstat :: "device \<Rightarrow> stat" where
  "dev_fstat dev = \<lparr>st_mode = dev_gettype dev, st_nlinks = 1, st_blocks = dblocks dev,
     st_size = dblocks dev * dblocksize dev\<rparr>"

definition dev_tryseek :: "device \<Rightarrow> int \<Rightarrow> int" where
  "dev_tryseek dev pos =
     (if dblocks dev > 0 \<and> pos mod int (dblocksize dev) = 0 \<and> 0 \<le> pos \<and>
        pos < int (dblocks dev * dblocksize dev) then 0 else - E_INVAL)"
subsection \<open>Dispatch: the operations without effect on the counts\<close>

definition vop_fsync :: "nat \<Rightarrow> vfs \<Rightarrow> (int \<times> vfs) option" where
  "vop_fsync n s = do { vop_op VopFsync n s; on_sin sfs_fsync n s }"

definition vop_truncate :: "nat \<Rightarrow> int \<Rightarrow> vfs \<Rightarrow> (int \<times> vfs) option" where
  "vop_truncate n len s = do { vop_op VopTruncate n s; on_sin (sfs_truncfile len) n s }"

definition vop_tryseek :: "nat \<Rightarrow> int \<Rightarrow> vfs \<Rightarrow> (int \<times> vfs) option" where
  "vop_tryseek n pos s = do {
     nd \<leftarrow> vop_op VopTryseek n s;
     case in_info nd of
       DeviceInfo dev \<Rightarrow> Some (dev_tryseek dev pos, s)
     | SfsInodeInfo _ \<Rightarrow> on_sin (sfs_tryseek pos) n s }"

definition vop_gettype :: "nat \<Rightarrow> vfs \<Rightarrow> nat option" where
  "vop_gettype n s = do {
     nd \<leftarrow> vop_op VopGettype n s;
     case in_info nd of DeviceInfo dev \<Rightarrow> Some (dev_gettype dev) | SfsInodeInfo sin \<Rightarrow> sfs_gettype sin }"

definition vop_fstat :: "nat \<Rightarrow> vfs \<Rightarrow> stat option" where
  "vop_fstat n s = do {
     nd \<leftarrow> vop_op VopFstat n s;
     vop_gettype n s;
     case in_info nd of DeviceInfo dev \<Rightarrow> Some (dev_fstat dev) | SfsInodeInfo sin \<Rightarrow> sfs_fstat sin }"

definition vop_open :: "nat \<Rightarrow> u32 \<Rightarrow> vfs \<Rightarrow> int option" where
  "vop_open n open_flags s = do {
     nd \<leftarrow> vop_op VopOpen n s;
     case in_ops nd of
       DevNodeOps \<Rightarrow> (case in_info nd of DeviceInfo dev \<Rightarrow> Some (dev_open dev open_flags) | SfsInodeInfo _ \<Rightarrow> None)
     | SfsNodeDirops \<Rightarrow> Some (sfs_opendir open_flags)
     | SfsNodeFileops \<Rightarrow> Some 0 }"

definition vop_close :: "nat \<Rightarrow> vfs \<Rightarrow> (int \<times> vfs) option" where
  "vop_close n s = do {
     nd \<leftarrow> vop_op VopClose n s;
     if in_ops nd = DevNodeOps then Some (0, s) else vop_fsync n s }"

definition vop_io :: "bool \<Rightarrow> nat \<Rightarrow> iobuf \<Rightarrow> mem \<Rightarrow> vfs \<Rightarrow> (int \<times> iobuf \<times> mem \<times> vfs) option" where
  "vop_io write n iob m s = do {
     nd \<leftarrow> vop_op (if write then VopWrite else VopRead) n s;
     case in_info nd of
       DeviceInfo dev \<Rightarrow> dop_io dev iob write m s
     | SfsInodeInfo sin \<Rightarrow> do {
         (ret, sin1, iob1, m1, t) \<leftarrow> sfs_io write sin iob m (sfs s);
         Some (ret, iob1, m1, set_sin n sin1 (s\<lparr>sfs := t\<rparr>)) } }"

definition vop_read :: "nat \<Rightarrow> iobuf \<Rightarrow> mem \<Rightarrow> vfs \<Rightarrow> (int \<times> iobuf \<times> mem \<times> vfs) option" where
  "vop_read n iob m s = vop_io False n iob m s"

definition vop_write :: "nat \<Rightarrow> iobuf \<Rightarrow> mem \<Rightarrow> vfs \<Rightarrow> (int \<times> iobuf \<times> mem \<times> vfs) option" where
  "vop_write n iob m s = vop_io True n iob m s"

definition vop_getdirentry :: "nat \<Rightarrow> iobuf \<Rightarrow> mem \<Rightarrow> vfs \<Rightarrow> (int \<times> iobuf \<times> mem \<times> vfs) option" where
  "vop_getdirentry n iob m s = do {
     vop_op VopGetdirentry n s;
     sin \<leftarrow> sfs_info n s;
     let (kmem, s1) = kmalloc s;
     (ret, sin1, iob1, m1, t) \<leftarrow> sfs_getdirentry kmem sin iob m (sfs s1);
     Some (ret, iob1, m1, set_sin n sin1 (s1\<lparr>sfs := t\<rparr>)) }"

subsection \<open>Reclaiming\<close>

definition sfs_hash_list :: "nat \<Rightarrow> ihash_entry" where
  "sfs_hash_list num = IHashHead (unat (hash32 (of_nat num) 10))"

definition sfs_set_links :: "nat \<Rightarrow> nat \<Rightarrow> vfs \<Rightarrow> vfs" where
  "sfs_set_links n num s =
     s\<lparr>inode_list := list_add InodeList (InodeLink n) (inode_list s),
       ihash_list := list_add (sfs_hash_list num) (IHashLink n) (ihash_list s)\<rparr>"

definition sfs_remove_links :: "nat \<Rightarrow> vfs \<Rightarrow> vfs" where
  "sfs_remove_links n s =
     s\<lparr>inode_list := list_del (InodeLink n) (inode_list s), ihash_list := list_del (IHashLink n) (ihash_list s)\<rparr>"

definition free_block :: "nat \<Rightarrow> vfs \<Rightarrow> vfs option" where
  "free_block b s = do { t \<leftarrow> sfs_block_free b (sfs s); Some (s\<lparr>sfs := t\<rparr>) }"

definition sfs_reclaim :: "nat \<Rightarrow> vfs \<Rightarrow> (int \<times> vfs) option" where
  "sfs_reclaim n s = do {
     nd \<leftarrow> inodes s n;
     sin \<leftarrow> sfs_info n s;
     c_assert (reclaim_count sin > 0);
     let s1 = set_sin n (sin\<lparr>reclaim_count := reclaim_count sin - 1\<rparr>) s;
     if reclaim_count sin - 1 \<noteq> 0 \<or> ref_count nd \<noteq> 0 then Some (- E_BUSY, s1)
     else do {
       (ret, s2) \<leftarrow> (if nlinks (din sin) = 0 then vop_truncate n 0 s1 else Some (0, s1));
       if ret \<noteq> 0 then Some (ret, s2)
       else do {
         sin2 \<leftarrow> sfs_info n s2;
         (ret, s3) \<leftarrow> (if dirty sin2 then vop_fsync n s2 else Some (0, s2));
         if ret \<noteq> 0 then Some (ret, s3)
         else do {
           let s4 = sfs_remove_links n s3;
           sin4 \<leftarrow> sfs_info n s4;
           s5 \<leftarrow> (if nlinks (din sin4) = 0 then do {
                s5 \<leftarrow> free_block (ino sin4) s4;
                if indirect (din sin4) \<noteq> 0 then free_block (indirect (din sin4)) s5 else Some s5 }
              else Some s4);
           s6 \<leftarrow> inode_kill n s5;
           Some (0, s6) } } } }"

definition vop_reclaim :: "nat \<Rightarrow> vfs \<Rightarrow> (int \<times> vfs) option" where
  "vop_reclaim n s = do { vop_op VopReclaim n s; sfs_reclaim n s }"

text \<open>What \<^verbatim>\<open>vop_reclaim\<close> and \<^verbatim>\<open>vop_close\<close> return here is only reported on the console.\<close>

definition inode_ref_dec :: "nat \<Rightarrow> vfs \<Rightarrow> (int \<times> vfs) option" where
  "inode_ref_dec n s = do {
     nd \<leftarrow> inodes s n;
     c_assert (ref_count nd > 0);
     let s1 = upd_node n (\<lambda>nd. nd\<lparr>ref_count := ref_count nd - 1\<rparr>) s;
     s2 \<leftarrow> (if ref_count nd - 1 = 0 then do { (ret, s2) \<leftarrow> vop_reclaim n s1; Some s2 } else Some s1);
     Some (ref_count nd - 1, s2) }"

definition inode_open_dec :: "nat \<Rightarrow> vfs \<Rightarrow> (int \<times> vfs) option" where
  "inode_open_dec n s = do {
     nd \<leftarrow> inodes s n;
     c_assert (open_count nd > 0);
     let s1 = upd_node n (\<lambda>nd. nd\<lparr>open_count := open_count nd - 1\<rparr>) s;
     s2 \<leftarrow> (if open_count nd - 1 = 0 then do { (ret, s2) \<leftarrow> vop_close n s1; Some s2 } else Some s1);
     Some (open_count nd - 1, s2) }"

definition vfs_close :: "nat \<Rightarrow> vfs \<Rightarrow> vfs option" where
  "vfs_close n s = do { (_, s1) \<leftarrow> inode_open_dec n s; (_, s2) \<leftarrow> inode_ref_dec n s1; Some s2 }"

subsection \<open>Loading and looking up\<close>

definition sfs_get_ops :: "nat \<Rightarrow> inode_ops option" where
  "sfs_get_ops typ = (if typ = SFS_TYPE_DIR then Some SfsNodeDirops
     else if typ = SFS_TYPE_FILE then Some SfsNodeFileops else None)"

definition sfs_create_inode :: "disk_inode \<Rightarrow> nat \<Rightarrow> vfs \<Rightarrow> (int \<times> nat option \<times> vfs) option" where
  "sfs_create_inode d num s =
     (let (r, s1) = kmalloc s
      in case r of None \<Rightarrow> Some (- E_NO_MEM, None, s1)
       | Some n \<Rightarrow> do {
           ops \<leftarrow> sfs_get_ops (itype d);
           Some (0, Some n, inode_init n ops True
             (SfsInodeInfo \<lparr>din = d, ino = num, dirty = False, reclaim_count = 1\<rparr>) s1) })"

partial_function (option) lookup_loop :: "ihash_entry \<Rightarrow> nat \<Rightarrow> ihash_entry \<Rightarrow> vfs \<Rightarrow> (nat option \<times> vfs) option" where
  "lookup_loop lst num le s =
     (let le1 = list_next le (ihash_list s)
      in if le1 = lst then Some (None, s)
         else case le1 of IHashHead _ \<Rightarrow> None
         | IHashLink n \<Rightarrow> do {
             sin \<leftarrow> sfs_info n s;
             if ino sin = num then do {
               (rc, s1) \<leftarrow> inode_ref_inc n s;
               Some (Some n, if rc = 1 then set_sin n (sin\<lparr>reclaim_count := reclaim_count sin + 1\<rparr>) s1 else s1) }
             else lookup_loop lst num le1 s })"

declare lookup_loop.simps [code]

definition lookup_sfs_nolock :: "nat \<Rightarrow> vfs \<Rightarrow> (nat option \<times> vfs) option" where
  "lookup_sfs_nolock num s = lookup_loop (sfs_hash_list num) num (sfs_hash_list num) s"

definition sfs_load_inode :: "nat \<Rightarrow> vfs \<Rightarrow> (int \<times> nat option \<times> vfs) option" where
  "sfs_load_inode num s = do {
     (found, s1) \<leftarrow> lookup_sfs_nolock num s;
     case found of Some n \<Rightarrow> Some (0, Some n, s1)
     | None \<Rightarrow>
         let (d, s2) = kmalloc s1
         in case d of None \<Rightarrow> Some (- E_NO_MEM, None, s2)
          | Some _ \<Rightarrow> do {
              u \<leftarrow> sfs_block_inuse num (sfs s2);
              c_assert u;
              (ret, b, t) \<leftarrow> sfs_rbuf (\<lambda>_. 0) sizeof_disk_inode num 0 (sfs s2);
              let s3 = s2\<lparr>sfs := t\<rparr>;
              if ret \<noteq> 0 then Some (ret, None, s3)
              else do {
                c_assert (nlinks (dec_inode b) \<noteq> 0);
                (ret, r, s4) \<leftarrow> sfs_create_inode (dec_inode b) num s3;
                case r of None \<Rightarrow> Some (ret, None, s4) | Some n \<Rightarrow> Some (0, Some n, sfs_set_links n num s4) } } }"

definition sfs_get_root :: "vfs \<Rightarrow> (nat \<times> vfs) option" where
  "sfs_get_root s = do { (ret, r, s1) \<leftarrow> sfs_load_inode 1 s; n \<leftarrow> r; Some (n, s1) }"

text \<open>The name is a string in memory at an address.\<close>

definition sfs_lookup_once :: "nat \<Rightarrow> nat \<Rightarrow> mem \<Rightarrow> vfs \<Rightarrow> (int \<times> nat option \<times> mem \<times> vfs) option" where
  "sfs_lookup_once n name m s = do {
     sin \<leftarrow> sfs_info n s;
     let (kmem, s1) = kmalloc s;
     (ret, found, _, sin1, m1, t) \<leftarrow> sfs_dirent_search_nolock kmem sin name m (sfs s1);
     let s2 = set_sin n sin1 (s1\<lparr>sfs := t\<rparr>);
     case (ret = 0, found) of
       (True, Some (_, num)) \<Rightarrow> do { (ret1, r, s3) \<leftarrow> sfs_load_inode num s2; Some (ret1, r, m1, s3) }
     | _ \<Rightarrow> Some (ret, None, m1, s2) }"

definition sfs_lookup :: "nat \<Rightarrow> nat \<Rightarrow> mem \<Rightarrow> vfs \<Rightarrow> (int \<times> nat option \<times> mem \<times> vfs) option" where
  "sfs_lookup n nm m s = do {
     c_assert (m nm \<noteq> 0 \<and> m nm \<noteq> 0x2f);
     (_, s1) \<leftarrow> inode_ref_inc n s;
     sin \<leftarrow> sfs_info n s1;
     if itype (din sin) \<noteq> SFS_TYPE_DIR then do { (_, s2) \<leftarrow> inode_ref_dec n s1; Some (- E_NOTDIR, None, m, s2) }
     else do {
       (ret, sub, m1, s2) \<leftarrow> sfs_lookup_once n nm m s1;
       (_, s3) \<leftarrow> inode_ref_dec n s2;
       Some (ret, if ret \<noteq> 0 then None else sub, m1, s3) } }"

definition dev_lookup :: "nat \<Rightarrow> nat \<Rightarrow> mem \<Rightarrow> vfs \<Rightarrow> (int \<times> nat option \<times> mem \<times> vfs) option" where
  "dev_lookup n nm m s =
     (if m nm \<noteq> 0 then Some (- E_NOENT, None, m, s)
      else do { (_, s1) \<leftarrow> inode_ref_inc n s; Some (0, Some n, m, s1) })"

definition vop_lookup :: "nat \<Rightarrow> nat \<Rightarrow> mem \<Rightarrow> vfs \<Rightarrow> (int \<times> nat option \<times> mem \<times> vfs) option" where
  "vop_lookup n nm m s = do {
     nd \<leftarrow> vop_op VopLookup n s;
     if in_ops nd = DevNodeOps then dev_lookup n nm m s else sfs_lookup n nm m s }"

subsection \<open>Writing the file system back\<close>

partial_function (option) sync_loop :: "inode_entry \<Rightarrow> vfs \<Rightarrow> vfs option" where
  "sync_loop le s = (case list_next le (inode_list s) of
     InodeList \<Rightarrow> Some s
   | InodeLink n \<Rightarrow> do { (_, s1) \<leftarrow> vop_fsync n s; sync_loop (InodeLink n) s1 })"

declare sync_loop.simps [code]

definition sfs_sync :: "vfs \<Rightarrow> (int \<times> vfs) option" where
  "sfs_sync s = do {
     s1 \<leftarrow> sync_loop InodeList s;
     let t = sfs s1;
     if \<not> super_dirty t then Some (0, s1)
     else do {
       (ret, t1) \<leftarrow> sfs_sync_super (t\<lparr>super_dirty := False\<rparr>);
       if ret \<noteq> 0 then Some (ret, s1\<lparr>sfs := t1\<lparr>super_dirty := True\<rparr>\<rparr>)
       else do {
         (ret, t2) \<leftarrow> sfs_sync_freemap t1;
         Some (ret, s1\<lparr>sfs := if ret \<noteq> 0 then t2\<lparr>super_dirty := True\<rparr> else t2\<rparr>) } } }"

end
