(* ===== verification/Vfs_Cache.thy ===== *)
theory Vfs_Cache
  imports Vfs_Node
begin

text \<open>
  The invariants of the nodes.  \<open>vol s D\<close>: the disk holds the inodes \<open>D\<close> (a map from inode numbers),
  each sound, with blocks of its own.  \<open>cache_ok\<close>: the in-memory inodes are linked in the list and in
  the hash table, one at most for a disk inode, and agree with \<open>D\<close>; what is not dirty is what the disk
  holds.  \<open>counts_ok s R F\<close>: the counts of node n are \<open>R n\<close>, the references held somewhere, and \<open>F n\<close>,
  the open files among them.
\<close>

subsection \<open>The volume\<close>

definition disk_file :: "sfs \<Rightarrow> nat \<Rightarrow> disk_inode \<Rightarrow> bool" where
  "disk_file s i d \<longleftrightarrow> file_ok s d \<and> 0 < i \<and> i < sblocks s \<and> i \<notin> free_blocks s \<and> i \<notin> own (img s) d \<and>
     isize d < 2 ^ 32 \<and> 0 < nlinks d \<and> nlinks d < 2 ^ 16 \<and>
     (itype d = SFS_TYPE_DIR \<or> itype d = SFS_TYPE_FILE \<and> iblocks d = blocks_for (isize d))"

definition footprint :: "sfs \<Rightarrow> nat \<Rightarrow> disk_inode \<Rightarrow> nat set" where
  "footprint s i d = insert i (own (img s) d)"

definition entries :: "sfs \<Rightarrow> disk_inode \<Rightarrow> (nat \<times> u8 list) set" where
  "entries s d = dent (fc s d) ` {..<iblocks d}"

definition vol :: "sfs \<Rightarrow> (nat \<Rightarrow> disk_inode option) \<Rightarrow> bool" where
  "vol s D \<longleftrightarrow> sfs_ok s \<and> (\<forall>i d. D i = Some d \<longrightarrow> disk_file s i d) \<and>
     (\<forall>i j d e. D i = Some d \<longrightarrow> D j = Some e \<longrightarrow> i \<noteq> j \<longrightarrow> footprint s i d \<inter> footprint s j e = {}) \<and>
     (\<forall>i d k nm. D i = Some d \<longrightarrow> itype d = SFS_TYPE_DIR \<longrightarrow> (k, nm) \<in> entries s d \<longrightarrow> k \<noteq> 0 \<longrightarrow> D k \<noteq> None)"

text \<open>The inode as the disk has it.\<close>

definition on_disk :: "sfs \<Rightarrow> nat \<Rightarrow> disk_inode" where
  "on_disk s i = dec_inode (\<lambda>x. img s (i * SFS_BLKSIZE + x))"

lemma volD:
  assumes "vol s D"
  shows "sfs_ok s" "D i = Some d \<Longrightarrow> disk_file s i d"
    "D i = Some d \<Longrightarrow> D j = Some e \<Longrightarrow> i \<noteq> j \<Longrightarrow> footprint s i d \<inter> footprint s j e = {}"
    "D i = Some d \<Longrightarrow> itype d = SFS_TYPE_DIR \<Longrightarrow> (k, nm) \<in> entries s d \<Longrightarrow> k \<noteq> 0 \<Longrightarrow> D k \<noteq> None"
  using assms unfolding vol_def by blast+

lemma disk_fileD:
  assumes "disk_file s i d"
  shows "file_ok s d" "0 < i" "i < sblocks s" "i \<notin> free_blocks s" "i \<notin> own (img s) d" "0 < nlinks d" "nlinks d < 2 ^ 16"
    "isize d < 2 ^ 32" "itype d = SFS_TYPE_DIR \<or> itype d = SFS_TYPE_FILE"
  using assms by (auto simp: disk_file_def)

lemma disk_file_range:
  assumes "sfs_ok s" "disk_file s i d"
  shows "inode_range d"
proof -
  note f = file_okD [OF disk_fileD(1) [OF assms(2)]]
  have sb: "sblocks s < 2 ^ 32" using sfs_okD(8) [OF assms(1)] .
  have dir: "direct d ! k < 2 ^ 32" if "k < SFS_NDIRECT" for k
  proof (cases "k < iblocks d")
    case True
    from f(4) [OF this] that sb show ?thesis by (simp add: bno_def)
  next
    case False
    with f(8) [of k] that show ?thesis by (simp add: bno_def MAX_BLOCKS_def)
  qed
  have "\<forall>b \<in> set (direct d). b < 2 ^ 32" using dir f(1) by (auto simp: in_set_conv_nth)
  moreover have "indirect d < 2 ^ 32" using f(9) sb by (cases "indirect d = 0") auto
  moreover have "iblocks d < 2 ^ 32" using f(2) by (simp add: MAX_BLOCKS_def SFS_NDIRECT_def SFS_BLK_NENTRY_def SFS_BLKSIZE_def)
  ultimately show ?thesis
    using disk_fileD [OF assms(2)] f(1) by (auto simp: inode_range_def)
qed

text \<open>A change outside the footprints of the other inodes.\<close>

lemma footprint_frame:
  assumes "disk_file s j e" "sblocks s' = sblocks s" "free_blocks s' \<inter> footprint s j e = {}"
    and I: "\<And>x. x div SFS_BLKSIZE \<in> own (img s) e \<Longrightarrow> img s' x = img s x"
  shows "disk_file s' j e" "footprint s' j e = footprint s j e" "fc s' e = fc s e" "entries s' e = entries s e"
proof -
  have "free_blocks s' \<inter> own (img s) e = {}" using assms(3) by (auto simp: footprint_def)
  note ff = file_frame [OF disk_fileD(1) [OF assms(1)] assms(2) this]
  have fr: "file_ok s' e" "fc s' e = fc s e" "own (img s') e = own (img s) e" by (rule ff, erule I)+
  have "j \<notin> free_blocks s'" using assms(3) by (auto simp: footprint_def)
  with fr assms(1,2) show "disk_file s' j e" by (simp add: disk_file_def)
  show "footprint s' j e = footprint s j e" "fc s' e = fc s e" "entries s' e = entries s e"
    using fr by (simp_all add: footprint_def entries_def)
qed

lemma vol_same:
  assumes v: "vol s D" and s': "sfs_ok s'" "sblocks s' = sblocks s" "free_blocks s' = free_blocks s"
    and I: "\<And>i d x. D i = Some d \<Longrightarrow> x div SFS_BLKSIZE \<in> own (img s) d \<Longrightarrow> img s' x = img s x"
  shows "vol s' D" "D i = Some d \<Longrightarrow> fc s' d = fc s d"
proof -
  have fr: "disk_file s' j e \<and> footprint s' j e = footprint s j e \<and> fc s' e = fc s e \<and> entries s' e = entries s e" if "D j = Some e" for j e
  proof -
    note f = volD(2) [OF v that]
    have "free_blocks s' \<inter> footprint s j e = {}"
      using disk_fileD(1,4) [OF f] s'(3) by (auto simp: footprint_def file_ok_def)
    note ff = footprint_frame [OF f s'(2) this]
    show ?thesis by (intro conjI) (rule ff, erule I [OF that])+
  qed
  show "vol s' D"
    unfolding vol_def
  proof (intro conjI allI impI)
    fix i j d e assume "D i = Some d" "D j = Some e" "i \<noteq> j"
    then show "footprint s' i d \<inter> footprint s' j e = {}" using volD(3) [OF v, of i d j e] fr by simp
  next
    fix i d k nm assume "D i = Some d" "itype d = SFS_TYPE_DIR" "(k, nm) \<in> entries s' d" "k \<noteq> 0"
    then show "D k \<noteq> None" using volD(4) [OF v, of i d k nm] fr by simp
  qed (use fr s'(1) in auto)
  show "D i = Some d \<Longrightarrow> fc s' d = fc s d" using fr by blast
qed

lemma vol_goes:
  assumes "vol s D" "goes s s' (free_blocks s) (img s)"
  shows "vol s' D" "on_disk s' i = on_disk s i" "D j = Some d \<Longrightarrow> fc s' d = fc s d"
proof -
  note g = goes_back [OF assms(2)]
  show "vol s' D" by (rule vol_same(1) [OF assms(1)]) (use g in auto)
  show "D j = Some d \<Longrightarrow> fc s' d = fc s d" by (rule vol_same(2) [OF assms(1)]) (use g in auto)
  show "on_disk s' i = on_disk s i" using g by (simp add: on_disk_def)
qed

text \<open>Writing an inode back.\<close>

lemma vol_sync:
  assumes v: "vol s D" and i: "D i = Some d" and g: "goes s s' (free_blocks s) (blit (i * SFS_BLKSIZE) 64 (enc_inode d) (img s))"
  shows "vol s' D" "on_disk s' i = d" "D j = Some e \<Longrightarrow> j \<noteq> i \<Longrightarrow> on_disk s' j = on_disk s j"
    "D j = Some e \<Longrightarrow> fc s' e = fc s e"
proof -
  note b = goes_back [OF g]
  have out: "img s' x = img s x" if "x div SFS_BLKSIZE \<noteq> i" for x
    using b that blit_outside [of 0 64 x i "enc_inode d" "img s"] by (simp add: SFS_BLKSIZE_def)
  have I: "img s' x = img s x" if "D j = Some e" "x div SFS_BLKSIZE \<in> own (img s) e" for j e x
  proof -
    have "i \<notin> own (img s) e"
      using volD(3) [OF v i that(1)] disk_fileD(5) [OF volD(2) [OF v i]] i that(1)
      by (cases "i = j") (auto simp: footprint_def)
    then show ?thesis using that(2) by (intro out) auto
  qed
  show "vol s' D" by (rule vol_same(1) [OF v]) (use b I in auto)
  show "D j = Some e \<Longrightarrow> fc s' e = fc s e" by (rule vol_same(2) [OF v]) (use b I in auto)
  have "on_disk s' i = dec_inode (enc_inode d)"
    unfolding on_disk_def by (rule dec_inode_cong) (use b in \<open>simp add: blit_def\<close>)
  also have "\<dots> = d" using dec_enc_inode disk_file_range volD(1,2) v i by blast
  finally show "on_disk s' i = d" .
  show "on_disk s' j = on_disk s j" if "D j = Some e" "j \<noteq> i"
    unfolding on_disk_def
  proof (rule dec_inode_cong)
    fix x :: nat assume "x < 64"
    then have "x < SFS_BLKSIZE" by (simp add: SFS_BLKSIZE_def)
    then show "img s' (j * SFS_BLKSIZE + x) = img s (j * SFS_BLKSIZE + x)" using that(2) by (intro out) simp
  qed
qed

text \<open>A step of one file.\<close>

lemma vol_step:
  assumes v: "vol s D" and i: "D i = Some d" "itype d = SFS_TYPE_FILE" and st: "fs_step s d s' d'"
    and d': "itype d' = itype d" "nlinks d' = nlinks d" "iblocks d' = blocks_for (isize d')" "isize d' < 2 ^ 32"
  shows "vol s' (D(i \<mapsto> d'))" "D j = Some e \<Longrightarrow> on_disk s' j = on_disk s j" "D j = Some e \<Longrightarrow> j \<noteq> i \<Longrightarrow> fc s' e = fc s e"
proof -
  from st have s': "sfs_ok s'" "file_ok s' d'" "sblocks s' = sblocks s" "free_blocks s' \<union> own (img s') d' = free_blocks s \<union> own (img s) d"
    "\<And>x. x div SFS_BLKSIZE \<notin> free_blocks s \<union> own (img s) d \<Longrightarrow> img s' x = img s x" by (auto simp: fs_step_def)
  have out: "footprint s j e \<inter> (free_blocks s \<union> own (img s) d) = {}" if "D j = Some e" "j \<noteq> i" for j e
    using volD(3) [OF v i(1) that(1)] that(2) disk_fileD(1,4) [OF volD(2) [OF v that(1)]]
    by (auto simp: footprint_def file_ok_def)
  have fr: "disk_file s' j e \<and> footprint s' j e = footprint s j e \<and> fc s' e = fc s e \<and> entries s' e = entries s e"
    if "D j = Some e" "j \<noteq> i" for j e
  proof -
    have a: "free_blocks s' \<inter> footprint s j e = {}" using out [OF that] s'(4) by blast
    have b: "img s' x = img s x" if "x div SFS_BLKSIZE \<in> own (img s) e" for x
      using out [OF \<open>D j = Some e\<close> \<open>j \<noteq> i\<close>] that by (intro s'(5)) (auto simp: footprint_def)
    note ff = footprint_frame [OF volD(2) [OF v that(1)] s'(3) a]
    show ?thesis by (intro conjI) (rule ff, erule b)+
  qed
  note fi = disk_fileD [OF volD(2) [OF v i(1)]]
  have "i \<notin> free_blocks s' \<union> own (img s') d'" using fi(4,5) unfolding s'(4) by blast
  then have di: "disk_file s' i d'" using s'(2,3) fi d' i(2) by (simp add: disk_file_def)
  have fpi: "footprint s' i d' \<subseteq> insert i (free_blocks s \<union> own (img s) d)" using s'(4) by (auto simp: footprint_def)
  have dj: "footprint s' i d' \<inter> footprint s' j e = {}" if "D j = Some e" "j \<noteq> i" for j e
    using fpi out [OF that] fr [OF that] volD(3) [OF v i(1) that(1)] that(2) by (auto simp: footprint_def)
  show "vol s' (D(i \<mapsto> d'))"
    unfolding vol_def
  proof (intro conjI allI impI)
    fix j e assume "(D(i \<mapsto> d')) j = Some e"
    then show "disk_file s' j e" using fr di by (cases "j = i") auto
  next
    fix j k e f assume "(D(i \<mapsto> d')) j = Some e" "(D(i \<mapsto> d')) k = Some f" "j \<noteq> k"
    then show "footprint s' j e \<inter> footprint s' k f = {}"
      using volD(3) [OF v, of j e k f] fr dj [of j e] dj [of k f] by (cases "j = i"; cases "k = i") auto
  next
    fix j e k nm assume *: "(D(i \<mapsto> d')) j = Some e" "itype e = SFS_TYPE_DIR" "(k, nm) \<in> entries s' e" "k \<noteq> 0"
    then have "j \<noteq> i" using i(2) d'(1) by auto
    with * show "(D(i \<mapsto> d')) k \<noteq> None" using volD(4) [OF v, of j e k nm] fr [of j e] by auto
  qed (rule s'(1))
  show "D j = Some e \<Longrightarrow> j \<noteq> i \<Longrightarrow> fc s' e = fc s e" using fr by blast
  show "on_disk s' j = on_disk s j" if "D j = Some e"
    unfolding on_disk_def
  proof (rule dec_inode_cong)
    fix x :: nat assume "x < 64"
    then have "x < SFS_BLKSIZE" by (simp add: SFS_BLKSIZE_def)
    moreover have "j \<notin> free_blocks s \<union> own (img s) d"
      using out [OF that] fi(4,5) by (cases "j = i") (auto simp: footprint_def)
    ultimately show "img s' (j * SFS_BLKSIZE + x) = img s (j * SFS_BLKSIZE + x)" by (intro s'(5)) simp
  qed
qed
subsection \<open>The cache\<close>

lemma sfs_info_Some: "sfs_info n s = Some sin \<longleftrightarrow> (\<exists>nd. inodes s n = Some nd \<and> in_info nd = SfsInodeInfo sin)"
proof (cases "inodes s n")
  case (Some nd)
  then show ?thesis by (cases "in_info nd") (auto simp: sfs_info_def)
qed (simp add: sfs_info_def)

definition bucket :: "nat \<Rightarrow> nat" where
  "bucket num = unat (hash32 (of_nat num) 10)"

lemma sfs_hash_list_bucket [simp]: "sfs_hash_list num = IHashHead (bucket num)"
  by (simp add: sfs_hash_list_def bucket_def)

lemma bucket_less: "bucket num < 1024"
  using hash32_bound [of 10 "of_nat num"] by (simp add: bucket_def)

definition node_ok :: "inode \<Rightarrow> bool" where
  "node_ok nd \<longleftrightarrow> (case in_info nd of
     SfsInodeInfo sin \<Rightarrow> sfs_get_ops (itype (din sin)) = Some (in_ops nd) \<and> in_fs nd
   | DeviceInfo _ \<Rightarrow> in_ops nd = DevNodeOps)"

definition malloc_ok :: "vfs \<Rightarrow> bool" where
  "malloc_ok s \<longleftrightarrow> distinct (concat (map (\<lambda>r. case r of None \<Rightarrow> [] | Some a \<Rightarrow> [a]) (mallocs s))) \<and>
     (\<forall>a. Some a \<in> set (mallocs s) \<longrightarrow> inodes s a = None)"

definition cache_ok :: "vfs \<Rightarrow> (nat \<Rightarrow> disk_inode option) \<Rightarrow> nat list \<Rightarrow> (nat \<Rightarrow> nat list) \<Rightarrow> bool" where
  "cache_ok s D C B \<longleftrightarrow>
     dll (inode_list s) InodeList (map InodeLink C) \<and>
     (\<forall>h < 1024. dll (ihash_list s) (IHashHead h) (map IHashLink (B h))) \<and>
     (\<forall>n. n \<in> set C \<longleftrightarrow> sfs_info n s \<noteq> None) \<and>
     (\<forall>h n. n \<in> set (B h) \<longleftrightarrow> (\<exists>sin. sfs_info n s = Some sin \<and> bucket (ino sin) = h)) \<and>
     (\<forall>m n x y. sfs_info m s = Some x \<longrightarrow> sfs_info n s = Some y \<longrightarrow> ino x = ino y \<longrightarrow> m = n) \<and>
     (\<forall>n sin. sfs_info n s = Some sin \<longrightarrow> D (ino sin) = Some (din sin) \<and> reclaim_count sin = 1 \<and>
        (\<not> dirty sin \<longrightarrow> on_disk (sfs s) (ino sin) = din sin)) \<and>
     (\<forall>i d. D i = Some d \<longrightarrow> (\<forall>n sin. sfs_info n s = Some sin \<longrightarrow> ino sin \<noteq> i) \<longrightarrow> on_disk (sfs s) i = d) \<and>
     (\<forall>n nd. inodes s n = Some nd \<longrightarrow> node_ok nd) \<and> malloc_ok s"

lemma cache_okD:
  assumes "cache_ok s D C B"
  shows "dll (inode_list s) InodeList (map InodeLink C)" "h < 1024 \<Longrightarrow> dll (ihash_list s) (IHashHead h) (map IHashLink (B h))"
    "n \<in> set C \<longleftrightarrow> sfs_info n s \<noteq> None" "n \<in> set (B h) \<longleftrightarrow> (\<exists>sin. sfs_info n s = Some sin \<and> bucket (ino sin) = h)"
    "sfs_info m s = Some x \<Longrightarrow> sfs_info n s = Some y \<Longrightarrow> ino x = ino y \<Longrightarrow> m = n"
    "sfs_info n s = Some sin \<Longrightarrow> D (ino sin) = Some (din sin)" "sfs_info n s = Some sin \<Longrightarrow> reclaim_count sin = 1"
    "sfs_info n s = Some sin \<Longrightarrow> \<not> dirty sin \<Longrightarrow> on_disk (sfs s) (ino sin) = din sin"
    "D i = Some d \<Longrightarrow> (\<And>n sin. sfs_info n s = Some sin \<Longrightarrow> ino sin \<noteq> i) \<Longrightarrow> on_disk (sfs s) i = d"
    "inodes s n = Some nd \<Longrightarrow> node_ok nd" "malloc_ok s"
proof -
  show "n \<in> set (B h) \<longleftrightarrow> (\<exists>sin. sfs_info n s = Some sin \<and> bucket (ino sin) = h)"
    using assms unfolding cache_ok_def by (elim conjE) (erule allE)+
  show "D i = Some d \<Longrightarrow> (\<And>n sin. sfs_info n s = Some sin \<Longrightarrow> ino sin \<noteq> i) \<Longrightarrow> on_disk (sfs s) i = d"
    using assms unfolding cache_ok_def by (elim conjE) metis
qed (use assms in \<open>simp_all add: cache_ok_def\<close>)

definition counts_ok :: "vfs \<Rightarrow> (nat \<Rightarrow> nat) \<Rightarrow> (nat \<Rightarrow> nat) \<Rightarrow> bool" where
  "counts_ok s R F \<longleftrightarrow>
     (\<forall>n nd. inodes s n = Some nd \<longrightarrow> ref_count nd = int (R n) \<and> open_count nd = int (F n)) \<and>
     (\<forall>n. inodes s n = None \<longrightarrow> R n = 0) \<and> (\<forall>n. F n \<le> R n \<and> R n < 0x10000)"

lemma counts_okD:
  assumes "counts_ok s R F"
  shows "inodes s n = Some nd \<Longrightarrow> ref_count nd = int (R n)" "inodes s n = Some nd \<Longrightarrow> open_count nd = int (F n)"
    "inodes s n = None \<Longrightarrow> R n = 0" "F n \<le> R n" "R n < 0x10000"
  using assms by (auto simp: counts_ok_def)

text \<open>The invariant between operations: the nodes are those somebody refers to.\<close>

definition vfs_inv :: "vfs \<Rightarrow> (nat \<Rightarrow> disk_inode option) \<Rightarrow> (nat \<Rightarrow> nat) \<Rightarrow> (nat \<Rightarrow> nat) \<Rightarrow> bool" where
  "vfs_inv s D R F \<longleftrightarrow> vol (sfs s) D \<and> (\<exists>C B. cache_ok s D C B) \<and> counts_ok s R F \<and> (\<forall>n. inodes s n \<noteq> None \<longrightarrow> 0 < R n)"

lemma vfs_invE:
  assumes "vfs_inv s D R F"
  obtains C B where "vol (sfs s) D" "cache_ok s D C B" "counts_ok s R F" "\<And>n. inodes s n \<noteq> None \<longleftrightarrow> 0 < R n"
  using assms counts_okD(3) [of s R F] unfolding vfs_inv_def by (metis less_numeral_extra(3))

lemma vfs_invI:
  "vol (sfs s) D \<Longrightarrow> cache_ok s D C B \<Longrightarrow> counts_ok s R F \<Longrightarrow> (\<And>n. inodes s n \<noteq> None \<Longrightarrow> 0 < R n) \<Longrightarrow> vfs_inv s D R F"
  unfolding vfs_inv_def by blast

subsection \<open>States with the same cache\<close>

definition same_nodes :: "vfs \<Rightarrow> vfs \<Rightarrow> bool" where
  "same_nodes s s' \<longleftrightarrow> inode_list s' = inode_list s \<and> ihash_list s' = ihash_list s \<and>
     (\<forall>n. map_option (\<lambda>nd. (in_info nd, in_ops nd, in_fs nd)) (inodes s' n) =
          map_option (\<lambda>nd. (in_info nd, in_ops nd, in_fs nd)) (inodes s n))"

lemma sfs_info_body: "sfs_info n s = (case map_option (\<lambda>nd. (in_info nd, in_ops nd, in_fs nd)) (inodes s n) of
    Some (SfsInodeInfo sin, _) \<Rightarrow> Some sin | _ \<Rightarrow> None)"
  by (auto simp: sfs_info_def split: option.splits in_info.splits)

lemma same_nodesD:
  assumes "same_nodes s s'"
  shows "sfs_info n s' = sfs_info n s" "inodes s' n = None \<longleftrightarrow> inodes s n = None"
    "inodes s' n = Some nd \<Longrightarrow> \<exists>nd0. inodes s n = Some nd0 \<and> in_info nd0 = in_info nd \<and> in_ops nd0 = in_ops nd \<and> in_fs nd0 = in_fs nd"
proof -
  have e: "map_option (\<lambda>nd. (in_info nd, in_ops nd, in_fs nd)) (inodes s' n) =
      map_option (\<lambda>nd. (in_info nd, in_ops nd, in_fs nd)) (inodes s n)"
    using assms by (simp add: same_nodes_def)
  show "sfs_info n s' = sfs_info n s" unfolding sfs_info_body e ..
  show "inodes s' n = None \<longleftrightarrow> inodes s n = None" using e by (cases "inodes s' n"; cases "inodes s n") simp_all
  show "inodes s' n = Some nd \<Longrightarrow> \<exists>nd0. inodes s n = Some nd0 \<and> in_info nd0 = in_info nd \<and> in_ops nd0 = in_ops nd \<and> in_fs nd0 = in_fs nd"
    using e by (cases "inodes s n") simp_all
qed

lemma cache_cong:
  assumes c: "cache_ok s D C B" and n: "same_nodes s s'" and m: "set (mallocs s') \<subseteq> set (mallocs s)" "malloc_ok s \<Longrightarrow> malloc_ok s'"
    and d: "\<And>i d. D i = Some d \<Longrightarrow> on_disk (sfs s') i = on_disk (sfs s) i"
  shows "cache_ok s' D C B"
proof -
  note i = same_nodesD(1) [OF n]
  have l: "inode_list s' = inode_list s" "ihash_list s' = ihash_list s" using n by (simp_all add: same_nodes_def)
  have ok: "node_ok nd" if "inodes s' k = Some nd" for k nd
  proof -
    from same_nodesD(3) [OF n that] obtain nd0 where "inodes s k = Some nd0" "in_info nd0 = in_info nd"
      "in_ops nd0 = in_ops nd" "in_fs nd0 = in_fs nd" by blast
    with cache_okD(10) [OF c this(1)] show ?thesis by (simp add: node_ok_def split: in_info.splits)
  qed
  have "\<not> dirty sin \<Longrightarrow> on_disk (sfs s') (ino sin) = din sin" if "sfs_info k s = Some sin" for k sin
    using cache_okD(6,8) [OF c that] d by simp
  moreover have "on_disk (sfs s') j = d'" if "D j = Some d'" "\<forall>n sin. sfs_info n s = Some sin \<longrightarrow> ino sin \<noteq> j" for j d'
    using cache_okD(9) [OF c that(1)] that d by simp
  ultimately show ?thesis
    using c ok m(2) unfolding cache_ok_def i l by (simp add: cache_okD(11) [OF c])
qed

lemma counts_cong:
  assumes "counts_ok s R F" "\<And>n. map_option (\<lambda>nd. (ref_count nd, open_count nd)) (inodes s' n) = map_option (\<lambda>nd. (ref_count nd, open_count nd)) (inodes s n)"
  shows "counts_ok s' R F"
  unfolding counts_ok_def
proof (intro conjI allI impI)
  fix n nd assume "inodes s' n = Some nd"
  then obtain nd0 where "inodes s n = Some nd0" "ref_count nd0 = ref_count nd" "open_count nd0 = open_count nd"
    using assms(2) [of n] by (cases "inodes s n") auto
  then show "ref_count nd = int (R n)" "open_count nd = int (F n)" using counts_okD(1,2) [OF assms(1)] by auto
next
  fix n assume "inodes s' n = None"
  then have "inodes s n = None" using assms(2) [of n] by (cases "inodes s n") auto
  then show "R n = 0" using counts_okD(3) [OF assms(1)] by blast
qed (use counts_okD(4,5) [OF assms(1)] in auto)

lemma vop_op_ok:
  assumes "counts_ok s R F" "inodes s n = Some nd" "has_op (in_ops nd) op"
  shows "vop_op op n s = Some nd"
  using assms(2,3) counts_okD(1,2) [OF assms(1,2)] counts_okD(4,5) [OF assms(1), of n]
  by (simp add: vop_op_def inode_check_def MAX_INODE_COUNT_def)
subsection \<open>Counting up\<close>

lemma same_nodes_refl: "same_nodes s s"
  by (simp add: same_nodes_def)

lemma same_nodes_trans: "same_nodes s t \<Longrightarrow> same_nodes t u \<Longrightarrow> same_nodes s u"
  by (simp add: same_nodes_def)

lemma same_nodes_upd:
  assumes "\<And>nd. in_info (f nd) = in_info nd \<and> in_ops (f nd) = in_ops nd \<and> in_fs (f nd) = in_fs nd"
  shows "same_nodes s (upd_node n f s)"
  using assms by (cases "inodes s n") (auto simp: same_nodes_def)

lemma malloc_ok_cong: "mallocs s' = mallocs s \<Longrightarrow> (\<And>n. inodes s' n = None \<longleftrightarrow> inodes s n = None) \<Longrightarrow> malloc_ok s' \<longleftrightarrow> malloc_ok s"
  by (simp add: malloc_ok_def)

lemma cache_upd:
  assumes "cache_ok s D C B" "\<And>nd. in_info (f nd) = in_info nd \<and> in_ops (f nd) = in_ops nd \<and> in_fs (f nd) = in_fs nd"
  shows "cache_ok (upd_node n f s) D C B"
proof (rule cache_cong [OF assms(1) same_nodes_upd [OF assms(2)]])
  show "malloc_ok s \<Longrightarrow> malloc_ok (upd_node n f s)" by (simp add: malloc_ok_cong [of "upd_node n f s" s])
qed simp_all

lemma ref_inc_ok:
  assumes v: "vfs_inv s D R F" and n: "0 < R n" "R n + 1 < 0x10000"
  shows "\<exists>s'. inode_ref_inc n s = Some (int (R n) + 1, s') \<and> vfs_inv s' D (R(n := R n + 1)) F \<and> same_nodes s s' \<and>
    sfs s' = sfs s \<and> mallocs s' = mallocs s"
proof -
  from v obtain C B where i: "vol (sfs s) D" "cache_ok s D C B" "counts_ok s R F" "\<And>n. inodes s n \<noteq> None \<longleftrightarrow> 0 < R n"
    by (rule vfs_invE) blast
  obtain nd where nd: "inodes s n = Some nd" using i(4) [of n] n(1) by blast
  let ?s = "upd_node n (\<lambda>nd. nd\<lparr>ref_count := ref_count nd + 1\<rparr>) s"
  have "inode_ref_inc n s = Some (int (R n) + 1, ?s)"
    using nd counts_okD(1) [OF i(3) nd] by (simp add: inode_ref_inc_def)
  moreover have "vfs_inv ?s D (R(n := R n + 1)) F"
  proof (rule vfs_invI)
    show "cache_ok ?s D C B" by (rule cache_upd [OF i(2)]) simp
    show "counts_ok ?s (R(n := R n + 1)) F"
      using i(3) nd n(2) by (auto simp: counts_ok_def le_Suc_eq)
    show "inodes ?s m \<noteq> None \<Longrightarrow> 0 < (R(n := R n + 1)) m" for m using i(4) [of m] by (cases "m = n") auto
  qed (simp add: i(1))
  moreover have "same_nodes s ?s" by (rule same_nodes_upd) simp
  ultimately show ?thesis by auto
qed

lemma open_inc_ok:
  assumes v: "vfs_inv s D R F" and n: "F n < R n"
  shows "\<exists>s'. inode_open_inc n s = Some (int (F n) + 1, s') \<and> vfs_inv s' D R (F(n := F n + 1)) \<and> same_nodes s s' \<and>
    sfs s' = sfs s \<and> mallocs s' = mallocs s"
proof -
  from v obtain C B where i: "vol (sfs s) D" "cache_ok s D C B" "counts_ok s R F" "\<And>n. inodes s n \<noteq> None \<longleftrightarrow> 0 < R n"
    by (rule vfs_invE) blast
  have "0 < R n" using n by simp
  then obtain nd where nd: "inodes s n = Some nd" using i(4) [of n] by blast
  let ?s = "upd_node n (\<lambda>nd. nd\<lparr>open_count := open_count nd + 1\<rparr>) s"
  have "inode_open_inc n s = Some (int (F n) + 1, ?s)"
    using nd counts_okD(2) [OF i(3) nd] by (simp add: inode_open_inc_def)
  moreover have "vfs_inv ?s D R (F(n := F n + 1))"
  proof (rule vfs_invI)
    show "cache_ok ?s D C B" by (rule cache_upd [OF i(2)]) simp
    show "counts_ok ?s R (F(n := F n + 1))"
      using i(3) nd n by (auto simp: counts_ok_def)
    show "inodes ?s m \<noteq> None \<Longrightarrow> 0 < R m" for m using i(4) [of m] by (cases "m = n") auto
  qed (simp add: i(1))
  moreover have "same_nodes s ?s" by (rule same_nodes_upd) simp
  ultimately show ?thesis by auto
qed

subsection \<open>Writing back and counting down\<close>

lemma cache_set_sin:
  assumes c: "cache_ok s D C B" and n: "sfs_info n s = Some sin" and e: "ino sin1 = ino sin" "reclaim_count sin1 = 1"
      "itype (din sin1) = itype (din sin)"
    and D: "D' = D(ino sin \<mapsto> din sin1)"
    and t: "\<not> dirty sin1 \<Longrightarrow> on_disk t (ino sin) = din sin1"
      "\<And>i d. i \<noteq> ino sin \<Longrightarrow> D i = Some d \<Longrightarrow> on_disk t i = on_disk (sfs s) i"
  shows "cache_ok (set_sin n sin1 (s\<lparr>sfs := t\<rparr>)) D' C B"
proof -
  let ?s = "set_sin n sin1 (s\<lparr>sfs := t\<rparr>)"
  obtain nd where nd: "inodes s n = Some nd" "in_info nd = SfsInodeInfo sin"
    using n by (auto simp: sfs_info_Some)
  have i: "sfs_info m ?s = (if m = n then Some sin1 else sfs_info m s)" for m
    using nd by (simp add: sfs_info_def set_sin_def)
  have ln: "inode_list ?s = inode_list s" "ihash_list ?s = ihash_list s" "sfs ?s = t" by (simp_all add: set_sin_def)
  have nodes: "node_ok x" if "inodes ?s m = Some x" for m x
    using that nd cache_okD(10) [OF c nd(1)] cache_okD(10) [OF c, of m x] e(3)
    by (cases "m = n") (auto simp: set_sin_def node_ok_def)
  have mal: "malloc_ok ?s" using cache_okD(11) [OF c] nd by (auto simp: malloc_ok_def set_sin_def)
  have other: "ino x \<noteq> ino sin" if "sfs_info m s = Some x" "m \<noteq> n" for m x
    using cache_okD(5) [OF c that(1) n] that(2) by auto
  show ?thesis
    unfolding cache_ok_def ln i
  proof (intro conjI allI impI)
    show "dll (inode_list s) InodeList (map InodeLink C)" by (rule cache_okD(1) [OF c])
    show "dll (ihash_list s) (IHashHead h) (map IHashLink (B h))" if "h < 1024" for h by (rule cache_okD(2) [OF c that])
    show "k \<in> set C \<longleftrightarrow> (if k = n then Some sin1 else sfs_info k s) \<noteq> None" for k
      using cache_okD(3) [OF c, of k] n by auto
    show "k \<in> set (B h) \<longleftrightarrow> (\<exists>sin. (if k = n then Some sin1 else sfs_info k s) = Some sin \<and> bucket (ino sin) = h)" for h k
      using cache_okD(4) [OF c, of k h] n e(1) by auto
    show "k = m" if "(if k = n then Some sin1 else sfs_info k s) = Some x" "(if m = n then Some sin1 else sfs_info m s) = Some y"
      "ino x = ino y" for k m x y
      using that cache_okD(5) [OF c, of k x m y] other e(1) by (auto split: if_splits)
    show "D' (ino x) = Some (din x)" if "(if k = n then Some sin1 else sfs_info k s) = Some x" for k x
      using that cache_okD(6) [OF c, of k x] other [of k x] e(1) D by (auto split: if_splits)
    show "reclaim_count x = 1" if "(if k = n then Some sin1 else sfs_info k s) = Some x" for k x
      using that cache_okD(7) [OF c, of k x] e(2) by (auto split: if_splits)
    show "on_disk t (ino x) = din x" if "(if k = n then Some sin1 else sfs_info k s) = Some x" "\<not> dirty x" for k x
    proof (cases "k = n")
      case True
      then show ?thesis using that t(1) e(1) by simp
    next
      case False
      then have x: "sfs_info k s = Some x" using that(1) by simp
      then show ?thesis using t(2) [OF other [OF x False] cache_okD(6) [OF c x]] cache_okD(8) [OF c x that(2)] by simp
    qed
    show "on_disk t j = d" if "D' j = Some d"
      "\<forall>k x. (if k = n then Some sin1 else sfs_info k s) = Some x \<longrightarrow> ino x \<noteq> j" for j d
    proof -
      have j: "j \<noteq> ino sin" using that(2) [rule_format, of n sin1] e(1) by simp
      then have d: "D j = Some d" using that(1) D by simp
      have "ino x \<noteq> j" if "sfs_info k s = Some x" for k x
        using that \<open>\<forall>k x. _\<close> [rule_format, of k x] n j by (cases "k = n") auto
      then show ?thesis using t(2) [OF j d] cache_okD(9) [OF c d] by simp
    qed
  qed (use nodes mal in auto)
qed
lemma has_fsync: "sfs_get_ops typ = Some ops \<Longrightarrow> has_op ops VopFsync \<and> has_op ops VopClose \<and> has_op ops VopReclaim \<and> has_op ops VopOpen \<and>
    has_op ops VopFstat \<and> has_op ops VopGettype \<and> ops \<noteq> DevNodeOps"
  by (auto simp: sfs_get_ops_def has_op_def sfs_node_dirops_def sfs_node_fileops_def split: if_splits)

lemma sfs_node:
  assumes "cache_ok s D C B" "sfs_info n s = Some sin"
  obtains nd where "inodes s n = Some nd" "in_info nd = SfsInodeInfo sin" "sfs_get_ops (itype (din sin)) = Some (in_ops nd)" "in_fs nd"
proof -
  from assms(2) obtain nd where nd: "inodes s n = Some nd" "in_info nd = SfsInodeInfo sin" by (auto simp: sfs_info_Some)
  with cache_okD(10) [OF assms(1) nd(1)] show ?thesis by (intro that [OF nd]) (auto simp: node_ok_def)
qed

text \<open>Contents of the files as seen through the nodes are not changed by writing inodes back.\<close>

definition same_data :: "(nat \<Rightarrow> disk_inode option) \<Rightarrow> vfs \<Rightarrow> vfs \<Rightarrow> bool" where
  "same_data D s s' \<longleftrightarrow> (\<forall>i d. D i = Some d \<longrightarrow> fc (sfs s') d = fc (sfs s) d) \<and>
     free_blocks (sfs s') = free_blocks (sfs s) \<and> keys s' = keys s \<and> console s' = console s"

lemma same_data_refl [simp]: "same_data D s s"
  by (simp add: same_data_def)

lemma same_data_trans: "same_data D s t \<Longrightarrow> same_data D t u \<Longrightarrow> same_data D s u"
  by (simp add: same_data_def)

lemma same_data_upd [simp]: "same_data D s (upd_node n f s)"
  by (simp add: same_data_def)

text \<open>Writing one inode back, as seen on the disk.\<close>

lemma fsync_disk:
  assumes v: "vol t D" and D: "D (ino sin) = Some (din sin)" and c: "\<not> dirty sin \<Longrightarrow> on_disk t (ino sin) = din sin"
  shows "\<exists>t'. sfs_fsync sin t = Some (0, sin\<lparr>dirty := False\<rparr>, t') \<and> vol t' D \<and> on_disk t' (ino sin) = din sin \<and>
    (\<forall>i d. i \<noteq> ino sin \<longrightarrow> D i = Some d \<longrightarrow> on_disk t' i = on_disk t i) \<and> (\<forall>i d. D i = Some d \<longrightarrow> fc t' d = fc t d) \<and>
    free_blocks t' = free_blocks t"
proof (cases "dirty sin")
  case True
  note f = disk_fileD [OF volD(2) [OF v D]]
  from fsync_ok [OF volD(1) [OF v] f(2,3) disk_file_range [OF volD(1) [OF v] volD(2) [OF v D]] True] obtain t' where
    t: "sfs_fsync sin t = Some (0, sin\<lparr>dirty := False\<rparr>, t')"
      "goes t t' (free_blocks t) (blit (ino sin * SFS_BLKSIZE) 64 (enc_inode (din sin)) (img t))" by blast
  note w = vol_sync [OF v D t(2)]
  show ?thesis using t(1) w(1,2) w(3) w(4) goes_back [OF t(2)] by blast
next
  case False
  then have "sin\<lparr>dirty := False\<rparr> = sin" by simp
  then show ?thesis using False v c by (simp add: sfs_fsync_def)
qed

lemma fsync_node:
  assumes v: "vol (sfs s) D" and c: "cache_ok s D C B" and k: "counts_ok s R F" and n: "sfs_info n s = Some sin"
  shows "\<exists>s'. vop_fsync n s = Some (0, s') \<and> vol (sfs s') D \<and> cache_ok s' D C B \<and> counts_ok s' R F \<and>
    (\<forall>m. inodes s' m = (if m = n then map_option (\<lambda>nd. nd\<lparr>in_info := SfsInodeInfo (sin\<lparr>dirty := False\<rparr>)\<rparr>) (inodes s m) else inodes s m)) \<and>
    same_data D s s'"
proof -
  obtain nd where nd: "inodes s n = Some nd" "in_info nd = SfsInodeInfo sin" "sfs_get_ops (itype (din sin)) = Some (in_ops nd)"
    using sfs_node [OF c n] by metis
  have op: "vop_op VopFsync n s = Some nd" using vop_op_ok [OF k nd(1)] has_fsync [OF nd(3)] by blast
  note D = cache_okD(6) [OF c n]
  from fsync_disk [of "sfs s" D sin] v D cache_okD(8) [OF c n] obtain t where
    t: "sfs_fsync sin (sfs s) = Some (0, sin\<lparr>dirty := False\<rparr>, t)" "vol t D" "on_disk t (ino sin) = din sin"
    "\<And>i d. i \<noteq> ino sin \<Longrightarrow> D i = Some d \<Longrightarrow> on_disk t i = on_disk (sfs s) i" "\<And>i d. D i = Some d \<Longrightarrow> fc t d = fc (sfs s) d"
    "free_blocks t = free_blocks (sfs s)"
    by blast
  define sin1 where "sin1 = sin\<lparr>dirty := False\<rparr>"
  let ?s = "set_sin n sin1 (s\<lparr>sfs := t\<rparr>)"
  have "vop_fsync n s = Some (0, ?s)" using op n t(1) by (simp add: vop_fsync_def on_sin_def sin1_def)
  moreover have "cache_ok ?s (D(ino sin \<mapsto> din sin1)) C B"
    by (rule cache_set_sin [OF c n]) (use t cache_okD(7) [OF c n] in \<open>auto simp: sin1_def\<close>)
  moreover have "D(ino sin \<mapsto> din sin1) = D" using D by (auto simp: sin1_def)
  moreover have "counts_ok ?s R F" by (rule counts_cong [OF k]) (auto simp: set_sin_def nd)
  moreover have "inodes ?s m = (if m = n then map_option (\<lambda>nd. nd\<lparr>in_info := SfsInodeInfo sin1\<rparr>) (inodes s m) else inodes s m)" for m
    by (simp add: set_sin_def)
  moreover have "sfs ?s = t" "same_data D s ?s" using t(5,6) by (simp_all add: set_sin_def same_data_def)
  ultimately show ?thesis unfolding sin1_def [symmetric] using t(2) by metis
qed

end
