(* ===== verification/Vfs_Refs.thy ===== *)
theory Vfs_Refs
  imports Vfs_Cache
begin

text \<open>
  Counting down: closing a node, giving up a reference, and the reclaim that the last reference
  causes.  A reclaimed inode leaves the cache, and the disk holds what it was.
\<close>

subsection \<open>What stays of the other nodes\<close>

definition node_key :: "inode \<Rightarrow> inode_ops \<times> nat option" where
  "node_key nd = (in_ops nd, case in_info nd of SfsInodeInfo sin \<Rightarrow> Some (ino sin) | DeviceInfo _ \<Rightarrow> None)"

definition shrinks :: "vfs \<Rightarrow> vfs \<Rightarrow> bool" where
  "shrinks s s' \<longleftrightarrow> (\<forall>m nd'. inodes s' m = Some nd' \<longrightarrow> (\<exists>nd. inodes s m = Some nd \<and> node_key nd = node_key nd'))"

definition grows :: "vfs \<Rightarrow> vfs \<Rightarrow> bool" where
  "grows s s' \<longleftrightarrow> (\<forall>m nd. inodes s m = Some nd \<longrightarrow> (\<exists>nd'. inodes s' m = Some nd' \<and> node_key nd' = node_key nd))"

lemma shrinks_refl [simp]: "shrinks s s" by (simp add: shrinks_def)
lemma grows_refl [simp]: "grows s s" by (simp add: grows_def)

lemma shrinks_trans: "shrinks s t \<Longrightarrow> shrinks t u \<Longrightarrow> shrinks s u"
  unfolding shrinks_def by (metis (no_types, lifting))

lemma grows_trans: "grows s t \<Longrightarrow> grows t u \<Longrightarrow> grows s u"
  unfolding grows_def by (metis (no_types, lifting))

lemma same_nodes_shrinks: "same_nodes s s' \<Longrightarrow> shrinks s s' \<and> grows s s'"
proof -
  assume e: "same_nodes s s'"
  have "\<exists>nd. inodes s m = Some nd \<and> node_key nd = node_key nd'" if "inodes s' m = Some nd'" for m nd'
    using same_nodesD(3) [OF e that] by (auto simp: node_key_def)
  moreover have "\<exists>nd'. inodes s' m = Some nd' \<and> node_key nd' = node_key nd" if "inodes s m = Some nd" for m nd
  proof -
    note m = that
    obtain nd' where nd': "inodes s' m = Some nd'" using same_nodesD(2) [OF e, of m] m by (cases "inodes s' m") auto
    from same_nodesD(3) [OF e this] m nd' show ?thesis by (auto simp: node_key_def)
  qed
  ultimately show ?thesis unfolding shrinks_def grows_def by blast
qed

subsection \<open>Closing\<close>

lemma open_dec_ok:
  assumes v: "vfs_inv s D R F" and n: "0 < F n"
  shows "\<exists>s'. inode_open_dec n s = Some (int (F n) - 1, s') \<and> vfs_inv s' D R (F(n := F n - 1)) \<and> same_data D s s' \<and> shrinks s s'"
proof -
  from v obtain C B where i: "vol (sfs s) D" "cache_ok s D C B" "counts_ok s R F" "\<And>n. inodes s n \<noteq> None \<longleftrightarrow> 0 < R n"
    by (rule vfs_invE) blast
  have "0 < R n" using n counts_okD(4) [OF i(3), of n] by simp
  then obtain nd where nd: "inodes s n = Some nd" using i(4) [of n] by blast
  let ?s = "upd_node n (\<lambda>nd. nd\<lparr>open_count := open_count nd - 1\<rparr>) s" and ?F = "F(n := F n - 1)"
  have o: "open_count nd = int (F n)" using counts_okD(2) [OF i(3) nd] .
  have c: "cache_ok ?s D C B" by (rule cache_upd [OF i(2)]) simp
  have k: "counts_ok ?s R ?F"
    using i(3) nd n by (auto simp: counts_ok_def diff_le_self intro: le_trans [OF diff_le_self])
  have sh: "shrinks s ?s" "inodes ?s m \<noteq> None \<longleftrightarrow> 0 < R m" for m
    using same_nodes_shrinks [OF same_nodes_upd [of "\<lambda>nd. nd\<lparr>open_count := open_count nd - 1\<rparr>" s n]] i(4) [of m] by auto
  have "\<exists>s'. (if open_count nd - 1 = 0 then do { (ret, s2) \<leftarrow> vop_close n ?s; Some s2 } else Some ?s) = Some s' \<and>
      vfs_inv s' D R ?F \<and> same_data D s s' \<and> shrinks s s'"
  proof (cases "open_count nd - 1 = 0")
    case False
    then show ?thesis using vfs_invI [of ?s D C B R ?F] i(1) c k sh by auto
  next
    case True
    obtain nd1 where nd1: "inodes ?s n = Some nd1" "in_info nd1 = in_info nd" "in_ops nd1 = in_ops nd" using nd by auto
    show ?thesis
    proof (cases "in_info nd")
      case (DeviceInfo dev)
      then have "in_ops nd1 = DevNodeOps" using cache_okD(10) [OF c nd1(1)] nd1(2) by (simp add: node_ok_def)
      moreover from this have "vop_op VopClose n ?s = Some nd1"
        using vop_op_ok [OF k nd1(1)] by (simp add: has_op_def dev_node_ops_def)
      ultimately have "vop_close n ?s = Some (0, ?s)" by (simp add: vop_close_def)
      then show ?thesis using vfs_invI [of ?s D C B R ?F] i(1) c k sh True by auto
    next
      case (SfsInodeInfo sin)
      then have sin: "sfs_info n ?s = Some sin" using nd1 by (auto simp: sfs_info_Some)
      have g: "sfs_get_ops (itype (din sin)) = Some (in_ops nd1)"
        using cache_okD(10) [OF c nd1(1)] nd1(2) SfsInodeInfo by (simp add: node_ok_def)
      have "vop_op VopClose n ?s = Some nd1" using vop_op_ok [OF k nd1(1)] has_fsync [OF g] by blast
      then have cl: "vop_close n ?s = vop_fsync n ?s" using has_fsync [OF g] by (simp add: vop_close_def)
      have "vol (sfs ?s) D" using i(1) by simp
      from fsync_node [OF this c k sin] obtain s' where s': "vop_fsync n ?s = Some (0, s')" "vol (sfs s') D"
        "cache_ok s' D C B" "counts_ok s' R ?F" "same_data D ?s s'"
        and im: "\<And>m. inodes s' m = (if m = n then map_option (\<lambda>nd. nd\<lparr>in_info := SfsInodeInfo (sin\<lparr>dirty := False\<rparr>)\<rparr>) (inodes ?s m) else inodes ?s m)"
        by blast
      have sh': "shrinks ?s s'"
        unfolding shrinks_def using im nd1 SfsInodeInfo by (auto simp: node_key_def)
      have "inodes s' m \<noteq> None \<longleftrightarrow> inodes ?s m \<noteq> None" for m unfolding im by simp
      then have "vfs_inv s' D R ?F" using vfs_invI [OF s'(2-4)] sh(2) by blast
      moreover have "same_data D s s'" using same_data_trans [OF same_data_upd s'(5)] .
      moreover have "shrinks s s'" using shrinks_trans [OF sh(1) sh'] .
      ultimately show ?thesis using True cl s'(1) by auto
    qed
  qed
  then show ?thesis using nd o n by (auto simp: inode_open_dec_def)
qed

subsection \<open>Leaving the cache\<close>

lemma cache_remove:
  assumes c: "cache_ok s D C B" and n: "sfs_info n s = Some sin"
    and t: "on_disk t (ino sin) = din sin" "\<And>i d. i \<noteq> ino sin \<Longrightarrow> D i = Some d \<Longrightarrow> on_disk t i = on_disk (sfs s) i"
    and s': "inode_list s' = list_del (InodeLink n) (inode_list s)" "ihash_list s' = list_del (IHashLink n) (ihash_list s)"
      "inodes s' = (inodes s)(n := None)" "sfs s' = t" "mallocs s' = mallocs s"
  shows "\<exists>C' B'. cache_ok s' D C' B'"
proof -
  let ?h = "bucket (ino sin)"
  have "n \<in> set C" "n \<in> set (B ?h)" using cache_okD(3,4) [OF c] n by auto
  then obtain xs ys us vs where C: "C = xs @ n # ys" and B: "B ?h = us @ n # vs" by (metis split_list)
  let ?B = "B(?h := us @ vs)"
  have dC: "distinct C" using dll_distinct [OF cache_okD(1) [OF c]] by (simp add: distinct_map)
  have dl: "dll (ihash_list s) (IHashHead h) (map IHashLink (B h))" if "h < 1024" for h using cache_okD(2) [OF c that] .
  have dB: "distinct (B ?h)" using dll_distinct [OF dl [OF bucket_less]] by (simp add: distinct_map)
  have inf: "sfs_info m s' = (if m = n then None else sfs_info m s)" for m using s'(3) by (simp add: sfs_info_def)
  have hm: "k \<in> set (B h) \<longleftrightarrow> (\<exists>x. sfs_info k s = Some x \<and> bucket (ino x) = h)" for k h by (rule cache_okD(4) [OF c])
  have other: "ino x \<noteq> ino sin" if "sfs_info m s = Some x" "m \<noteq> n" for m x
    using cache_okD(5) [OF c that(1) n] that(2) by auto
  have "cache_ok s' D (xs @ ys) ?B"
    unfolding cache_ok_def inf
  proof (intro conjI allI impI)
    show "dll (inode_list s') InodeList (map InodeLink (xs @ ys))"
      using dll_del [of "inode_list s" InodeList "map InodeLink xs" "InodeLink n" "map InodeLink ys"] cache_okD(1) [OF c]
      by (simp add: C s'(1))
    show "dll (ihash_list s') (IHashHead h) (map IHashLink (?B h))" if "h < 1024" for h
    proof (cases "h = ?h")
      case True
      then show ?thesis
        using dll_del [of "ihash_list s" "IHashHead h" "map IHashLink us" "IHashLink n" "map IHashLink vs"] dl [OF that]
        by (simp add: B s'(2))
    next
      case False
      have "set (B ?h) \<inter> set (B h) = {}" using hm False by auto
      have "dll (list_del (IHashLink n) (ihash_list s)) (IHashHead h) (map IHashLink (B h))"
      proof (rule dll_del_other)
        show "dll (ihash_list s) (IHashHead ?h) (map IHashLink us @ IHashLink n # map IHashLink vs)"
          using dl [OF bucket_less, of "ino sin"] B by simp
        show "insert (IHashHead ?h) (set (map IHashLink us @ IHashLink n # map IHashLink vs)) \<inter>
            insert (IHashHead h) (set (map IHashLink (B h))) = {}"
          using \<open>set (B ?h) \<inter> set (B h) = {}\<close> False unfolding B by auto
      qed (rule dl [OF that])
      then show ?thesis using False by (simp add: s'(2))
    qed
    show "m \<in> set (xs @ ys) \<longleftrightarrow> (if m = n then None else sfs_info m s) \<noteq> None" for m
      using cache_okD(3) [OF c, of m] dC by (auto simp: C)
    show "m \<in> set (?B h) \<longleftrightarrow> (\<exists>x. (if m = n then None else sfs_info m s) = Some x \<and> bucket (ino x) = h)" for h m
    proof (cases "m = n")
      case True
      have "n \<notin> set (B h)" if "h \<noteq> ?h" using hm [of n h] n that by auto
      then show ?thesis using True dB by (auto simp: B)
    next
      case False
      have "m \<in> set (?B h) \<longleftrightarrow> m \<in> set (B h)" using False B by auto
      then show ?thesis using hm [of m h] False by simp
    qed
    show "k = m" if "(if k = n then None else sfs_info k s) = Some x" "(if m = n then None else sfs_info m s) = Some y" "ino x = ino y" for k m x y
      using that cache_okD(5) [OF c, of k x m y] by (auto split: if_splits)
    show "on_disk (sfs s') (ino x) = din x" if "(if k = n then None else sfs_info k s) = Some x" "\<not> dirty x" for k x
    proof -
      have x: "sfs_info k s = Some x" "k \<noteq> n" using that(1) by (auto split: if_splits)
      then show ?thesis using t(2) [OF other [OF x] cache_okD(6) [OF c x(1)]] cache_okD(8) [OF c x(1) that(2)] s'(4) by simp
    qed
    show "on_disk (sfs s') j = d" if "D j = Some d" "\<forall>k x. (if k = n then None else sfs_info k s) = Some x \<longrightarrow> ino x \<noteq> j" for j d
    proof (cases "j = ino sin")
      case True
      then show ?thesis using t(1) s'(4) cache_okD(6) [OF c n] that(1) by simp
    next
      case False
      have "ino x \<noteq> j" if "sfs_info k s = Some x" for k x
        using that \<open>\<forall>k x. _\<close> [rule_format, of k x] n False by (cases "k = n") auto
      then show ?thesis using t(2) [OF False that(1)] cache_okD(9) [OF c that(1)] s'(4) by simp
    qed
    show "node_ok nd" if "inodes s' m = Some nd" for m nd
      using that cache_okD(10) [OF c, of m nd] s'(3) by (auto split: if_splits)
    show "malloc_ok s'" using cache_okD(11) [OF c] s'(3,5) by (auto simp: malloc_ok_def)
  qed (use cache_okD(6,7) [OF c] in \<open>auto split: if_splits\<close>)
  then show ?thesis by blast
qed
subsection \<open>Giving up a reference\<close>

text \<open>The reclaim: the node has been given up by everybody, and its counts are 0.\<close>

lemma reclaim_ok:
  assumes v: "vol (sfs s) D" and c: "cache_ok s D C B" and n: "inodes s n = Some nd" "in_info nd = SfsInodeInfo sin"
    and z: "ref_count nd = 0" "open_count nd = 0"
  shows "\<exists>s' C' B'. vop_reclaim n s = Some (0, s') \<and> vol (sfs s') D \<and> cache_ok s' D C' B' \<and>
    inodes s' = (inodes s)(n := None) \<and> same_data D s s' \<and> on_disk (sfs s') (ino sin) = din sin"
proof -
  have si: "sfs_info n s = Some sin" using n by (auto simp: sfs_info_Some)
  note r1 = cache_okD(7) [OF c si] and D = cache_okD(6) [OF c si]
  have nl: "nlinks (din sin) \<noteq> 0" using disk_fileD(6) [OF volD(2) [OF v D]] by simp
  have g: "sfs_get_ops (itype (din sin)) = Some (in_ops nd)" using cache_okD(10) [OF c n(1)] n(2) by (simp add: node_ok_def)
  define sin0 where "sin0 = sin\<lparr>reclaim_count := 0\<rparr>"
  have s0: "ino sin0 = ino sin" "din sin0 = din sin" "dirty sin0 = dirty sin" by (simp_all add: sin0_def)
  let ?s1 = "set_sin n sin0 s"
  have s1: "sfs_info n ?s1 = Some sin0" "sfs ?s1 = sfs s" using n by (auto simp: set_sin_def sfs_info_Some)
  have op: "vop_op VopReclaim n s = Some nd" "vop_op VopFsync n ?s1 = Some (nd\<lparr>in_info := SfsInodeInfo sin0\<rparr>)"
    using n z has_fsync [OF g] by (simp_all add: vop_op_def inode_check_def MAX_INODE_COUNT_def set_sin_def)
  from fsync_disk [of "sfs s" D sin0] v D cache_okD(8) [OF c si] s0 obtain t where
    t: "sfs_fsync sin0 (sfs s) = Some (0, sin0\<lparr>dirty := False\<rparr>, t)" "vol t D" "on_disk t (ino sin) = din sin"
    "\<And>i d. i \<noteq> ino sin \<Longrightarrow> D i = Some d \<Longrightarrow> on_disk t i = on_disk (sfs s) i" "\<And>i d. D i = Some d \<Longrightarrow> fc t d = fc (sfs s) d"
    "free_blocks t = free_blocks (sfs s)" by auto
  define s3 where "s3 = set_sin n (sin0\<lparr>dirty := False\<rparr>) (s\<lparr>sfs := t\<rparr>)"
  have s3: "(if dirty sin0 then vop_fsync n ?s1 else Some (0, ?s1)) = Some (0, s3)"
  proof (cases "dirty sin0")
    case True
    then show ?thesis using op(2) s1 t(1) by (simp add: vop_fsync_def on_sin_def s3_def set_sin_def upd_node_def n)
  next
    case False
    then have e: "sin0\<lparr>dirty := False\<rparr> = sin0" and ts: "t = sfs s" using t(1) by (simp_all add: sfs_fsync_def)
    have "s\<lparr>sfs := sfs s\<rparr> = s" by simp
    then show ?thesis unfolding s3_def e ts using False by simp
  qed
  have info3: "sfs_info n (sfs_remove_links n s3) = Some (sin0\<lparr>dirty := False\<rparr>)"
    using n by (auto simp: s3_def set_sin_def sfs_info_Some sfs_remove_links_def)
  define s' where "s' = (sfs_remove_links n s3)\<lparr>inodes := (inodes s3)(n := None)\<rparr>"
  have k: "inode_kill n (sfs_remove_links n s3) = Some s'"
    using n z by (simp add: inode_kill_def s'_def s3_def set_sin_def sfs_remove_links_def)
  have "reclaim_count sin - 1 = 0" using r1 by simp
  then have "vop_reclaim n s = Some (0, s')"
    using op(1) n z si r1 nl s3 info3 k s0 s1 by (simp add: vop_reclaim_def sfs_reclaim_def sin0_def [symmetric])
  moreover have e: "inode_list s' = list_del (InodeLink n) (inode_list s)" "ihash_list s' = list_del (IHashLink n) (ihash_list s)"
    "inodes s' = (inodes s)(n := None)" "sfs s' = t" "mallocs s' = mallocs s" "keys s' = keys s" "console s' = console s"
    by (simp_all add: s'_def s3_def set_sin_def sfs_remove_links_def fun_eq_iff)
  moreover have "\<exists>C' B'. cache_ok s' D C' B'" by (rule cache_remove [OF c si t(3) _ e(1-5)]) (rule t(4))
  moreover have "same_data D s s'" using t(5,6) e by (simp add: same_data_def)
  ultimately show ?thesis using t(2,3) by auto
qed

lemma ref_dec_ok:
  assumes v: "vfs_inv s D R F" and n: "F n < R n" and d: "R n = 1 \<Longrightarrow> sfs_info n s \<noteq> None"
  shows "\<exists>s'. inode_ref_dec n s = Some (int (R n) - 1, s') \<and> vfs_inv s' D (R(n := R n - 1)) F \<and> same_data D s s' \<and> shrinks s s' \<and>
    (\<forall>sin. R n = 1 \<longrightarrow> sfs_info n s = Some sin \<longrightarrow> on_disk (sfs s') (ino sin) = din sin)"
proof -
  from v obtain C B where i: "vol (sfs s) D" "cache_ok s D C B" "counts_ok s R F" "\<And>n. inodes s n \<noteq> None \<longleftrightarrow> 0 < R n"
    by (rule vfs_invE) blast
  have "0 < R n" using n by simp
  then obtain nd where nd: "inodes s n = Some nd" using i(4) [of n] by blast
  let ?s = "upd_node n (\<lambda>nd. nd\<lparr>ref_count := ref_count nd - 1\<rparr>) s" and ?R = "R(n := R n - 1)"
  have r: "ref_count nd = int (R n)" "open_count nd = int (F n)" using counts_okD(1,2) [OF i(3) nd] by simp_all
  have c: "cache_ok ?s D C B" by (rule cache_upd [OF i(2)]) simp
  have sn: "same_nodes s ?s" by (rule same_nodes_upd) simp
  have k: "counts_ok ?s ?R F"
    unfolding counts_ok_def
  proof (intro conjI allI impI)
    fix m x assume "inodes ?s m = Some x"
    then show "ref_count x = int (?R m)" "open_count x = int (F m)"
      using counts_okD(1,2) [OF i(3), of m] nd r n by (auto split: if_splits)
  next
    fix m assume "inodes ?s m = None"
    then show "?R m = 0" using counts_okD(3) [OF i(3), of m] nd by (cases "m = n") auto
  next
    fix m show "F m \<le> ?R m" "?R m < 0x10000" using counts_okD(4,5) [OF i(3), of m] n by auto
  qed
  show ?thesis
  proof (cases "R n = 1")
    case False
    have "inodes ?s m \<noteq> None \<Longrightarrow> 0 < ?R m" for m using i(4) [of m] n False by (cases "m = n") auto
    then have "vfs_inv ?s D ?R F" using i(1) c k by (intro vfs_invI [of ?s D C B]) auto
    then show ?thesis using False nd r n same_nodes_shrinks [OF sn] by (auto simp: inode_ref_dec_def)
  next
    case True
    then have F0: "F n = 0" using n by simp
    obtain sin where sin: "in_info nd = SfsInodeInfo sin" "sfs_info n s = Some sin" using d [OF True] nd by (auto simp: sfs_info_Some)
    let ?nd = "nd\<lparr>ref_count := ref_count nd - 1\<rparr>"
    have nd': "inodes ?s n = Some ?nd" "in_info ?nd = SfsInodeInfo sin" "ref_count ?nd = 0" "open_count ?nd = 0"
      using nd sin r True F0 by simp_all
    have "vol (sfs ?s) D" using i(1) by simp
    from reclaim_ok [OF this c nd'] obtain s' C' B' where s': "vop_reclaim n ?s = Some (0, s')" "vol (sfs s') D"
      "cache_ok s' D C' B'" "inodes s' = (inodes ?s)(n := None)" "same_data D ?s s'" "on_disk (sfs s') (ino sin) = din sin" by blast
    have im: "inodes s' m = (if m = n then None else inodes s m)" for m using s'(4) by simp
    have "counts_ok s' ?R F"
      unfolding counts_ok_def
    proof (intro conjI allI impI)
      fix m x assume "inodes s' m = Some x"
      then show "ref_count x = int (?R m)" "open_count x = int (F m)"
        using counts_okD(1,2) [OF i(3), of m] by (auto simp: im split: if_splits)
    next
      fix m assume "inodes s' m = None"
      then show "?R m = 0" using counts_okD(3) [OF i(3), of m] True by (auto simp: im split: if_splits)
    next
      fix m show "F m \<le> ?R m" "?R m < 0x10000" using counts_okD(4,5) [OF k, of m] by blast+
    qed
    moreover have "inodes s' m \<noteq> None \<Longrightarrow> 0 < ?R m" for m using i(4) [of m] by (auto simp: im split: if_splits)
    ultimately have "vfs_inv s' D ?R F" using s'(2,3) by (intro vfs_invI [of s' D C' B']) auto
    moreover have "same_data D s s'" using same_data_trans [OF same_data_upd s'(5)] .
    moreover have "shrinks s s'" unfolding shrinks_def by (auto simp: im split: if_splits)
    moreover have "inode_ref_dec n s = Some (0, s')" using nd r True s'(1) by (simp add: inode_ref_dec_def)
    ultimately show ?thesis using s'(6) sin(2) True by simp
  qed
qed

lemma vfs_close_ok:
  assumes v: "vfs_inv s D R F" and n: "0 < F n" and d: "R n = 1 \<Longrightarrow> sfs_info n s \<noteq> None"
  shows "\<exists>s'. vfs_close n s = Some s' \<and> vfs_inv s' D (R(n := R n - 1)) (F(n := F n - 1)) \<and> same_data D s s' \<and> shrinks s s'"
proof -
  from open_dec_ok [OF v n] obtain s1 where s1: "inode_open_dec n s = Some (int (F n) - 1, s1)"
    "vfs_inv s1 D R (F(n := F n - 1))" "same_data D s s1" "shrinks s s1" by blast
  from v obtain C B where i: "counts_ok s R F" "\<And>n. inodes s n \<noteq> None \<longleftrightarrow> 0 < R n" by (rule vfs_invE) blast
  have lt: "F n - 1 < R n" using n counts_okD(4) [OF i(1), of n] by simp
  from s1(2) have "inodes s1 m \<noteq> None \<longleftrightarrow> 0 < R m" for m by (rule vfs_invE) blast
  then have d1: "sfs_info n s1 \<noteq> None" if one: "R n = 1"
  proof -
    obtain nd1 where "inodes s1 n = Some nd1" using \<open>\<And>m. (inodes s1 m \<noteq> None) = _\<close> [of n] one by auto
    with s1(4) obtain nd where "inodes s n = Some nd" "node_key nd = node_key nd1" by (auto simp: shrinks_def)
    then show ?thesis using d [OF one] \<open>inodes s1 n = Some nd1\<close>
      by (auto simp: node_key_def sfs_info_Some split: in_info.splits)
  qed
  from ref_dec_ok [OF s1(2), of n] lt d1 obtain s2 where s2: "inode_ref_dec n s1 = Some (int (R n) - 1, s2)"
    "vfs_inv s2 D (R(n := R n - 1)) (F(n := F n - 1))" "same_data D s1 s2" "shrinks s1 s2" by auto
  then show ?thesis using s1 same_data_trans [OF s1(3) s2(3)] shrinks_trans [OF s1(4) s2(4)] by (auto simp: vfs_close_def)
qed

end
