(* ===== verification/Vfs_Load.thy ===== *)
theory Vfs_Load
  imports Vfs_Refs
begin

text \<open>
  Loading inodes: \<^verbatim>\<open>sfs_load_inode\<close> finds the node of a disk inode or makes one, and looking a name up
  in a directory gives the node of its entry.
\<close>

subsection \<open>Allocation\<close>

lemma kmalloc_ok:
  assumes c: "cache_ok s D C B" and k: "kmalloc s = (r, s1)"
  shows "cache_ok s1 D C B" "inodes s1 = inodes s" "sfs s1 = sfs s" "inode_list s1 = inode_list s" "ihash_list s1 = ihash_list s"
    "keys s1 = keys s" "console s1 = console s" "r = Some a \<Longrightarrow> inodes s a = None \<and> Some a \<notin> set (mallocs s1)"
proof -
  show e: "inodes s1 = inodes s" "sfs s1 = sfs s" "inode_list s1 = inode_list s" "ihash_list s1 = ihash_list s"
    "keys s1 = keys s" "console s1 = console s"
    using k by (auto simp: kmalloc_def split: list.splits)
  have m: "malloc_ok s" using cache_okD(11) [OF c] .
  have ms: "mallocs s1 = tl (mallocs s)" using k by (auto simp: kmalloc_def split: list.splits)
  have "malloc_ok s1" "set (mallocs s1) \<subseteq> set (mallocs s)" using m e(1) ms by (cases "mallocs s"; auto simp: malloc_ok_def)+
  then show "cache_ok s1 D C B" using e by (intro cache_cong [OF c]) (auto simp: same_nodes_def)
  show "r = Some a \<Longrightarrow> inodes s a = None \<and> Some a \<notin> set (mallocs s1)"
    using m k by (cases "mallocs s") (auto simp: malloc_ok_def kmalloc_def split: option.splits)
qed

lemma vfs_inv_kmalloc:
  assumes "vfs_inv s D R F" "kmalloc s = (r, s1)"
  shows "vfs_inv s1 D R F" "same_data D s s1" "inodes s1 = inodes s" "sfs s1 = sfs s"
proof -
  from assms(1) obtain C B where i: "vol (sfs s) D" "cache_ok s D C B" "counts_ok s R F" "\<And>n. inodes s n \<noteq> None \<longleftrightarrow> 0 < R n"
    by (rule vfs_invE) blast
  note k = kmalloc_ok [OF i(2) assms(2)]
  show "vfs_inv s1 D R F" using i k by (intro vfs_invI [of s1 D C B]) (auto simp: counts_ok_def)
  show "same_data D s s1" "inodes s1 = inodes s" "sfs s1 = sfs s" using k by (simp_all add: same_data_def)
qed

subsection \<open>Searching the cache\<close>

lemma find_SomeD: "find P xs = Some x \<Longrightarrow> x \<in> set xs" "find P xs = Some x \<Longrightarrow> P x"
  by (induction xs) (auto split: if_splits)

lemma lookup_loop_ok:
  assumes "dll (ihash_list s) (IHashHead h) (map IHashLink (us @ vs))" "\<And>n. n \<in> set (us @ vs) \<Longrightarrow> sfs_info n s \<noteq> None"
    "le = (if us = [] then IHashHead h else IHashLink (last us))"
  shows "lookup_loop (IHashHead h) num le s = (case find (\<lambda>n. ino (the (sfs_info n s)) = num) vs of
      None \<Rightarrow> Some (None, s)
    | Some n \<Rightarrow> do {
        (rc, s1) \<leftarrow> inode_ref_inc n s;
        Some (Some n, if rc = 1 then set_sin n ((the (sfs_info n s))\<lparr>reclaim_count := reclaim_count (the (sfs_info n s)) + 1\<rparr>) s1 else s1) })"
  using assms
proof (induction vs arbitrary: us le)
  case Nil
  have "list_next le (ihash_list s) = IHashHead h"
  proof (cases us rule: rev_cases)
    case Nil
    with Nil.prems show ?thesis using dll_next_head [OF Nil.prems(1)] by (simp add: list_next_def)
  next
    case (snoc us' u)
    with Nil.prems show ?thesis
      using dll_next_mid [of "ihash_list s" "IHashHead h" "map IHashLink us'" "IHashLink u" "[]"] by (simp add: list_next_def)
  qed
  then show ?case by (simp add: lookup_loop.simps)
next
  case (Cons v vs)
  have nx: "list_next le (ihash_list s) = IHashLink v"
  proof (cases us rule: rev_cases)
    case Nil
    with Cons.prems show ?thesis using dll_next_head [OF Cons.prems(1)] by (simp add: list_next_def)
  next
    case (snoc us' u)
    with Cons.prems show ?thesis
      using dll_next_mid [of "ihash_list s" "IHashHead h" "map IHashLink us'" "IHashLink u" "IHashLink v # map IHashLink vs"]
      by (simp add: list_next_def)
  qed
  obtain sin where sin: "sfs_info v s = Some sin" using Cons.prems(2) [of v] by auto
  have ih: "lookup_loop (IHashHead h) num (IHashLink v) s = (case find (\<lambda>n. ino (the (sfs_info n s)) = num) vs of
      None \<Rightarrow> Some (None, s)
    | Some n \<Rightarrow> do {
        (rc, s1) \<leftarrow> inode_ref_inc n s;
        Some (Some n, if rc = 1 then set_sin n ((the (sfs_info n s))\<lparr>reclaim_count := reclaim_count (the (sfs_info n s)) + 1\<rparr>) s1 else s1) })"
  proof (rule Cons.IH)
    show "dll (ihash_list s) (IHashHead h) (map IHashLink ((us @ [v]) @ vs))" using Cons.prems(1) by simp
    show "n \<in> set ((us @ [v]) @ vs) \<Longrightarrow> sfs_info n s \<noteq> None" for n using Cons.prems(2) [of n] by simp
  qed simp
  show ?case
    by (subst lookup_loop.simps) (simp add: nx sin ih Let_def cong: if_cong prod.case_cong)
qed

lemma lookup_ok:
  assumes v: "vfs_inv s D R F" and b: "\<And>n sin. sfs_info n s = Some sin \<Longrightarrow> ino sin = num \<Longrightarrow> R n + 1 < 0x10000"
  shows "(\<forall>n sin. sfs_info n s = Some sin \<longrightarrow> ino sin \<noteq> num) \<and> lookup_sfs_nolock num s = Some (None, s) \<or>
    (\<exists>n sin s'. sfs_info n s = Some sin \<and> ino sin = num \<and> lookup_sfs_nolock num s = Some (Some n, s') \<and>
      vfs_inv s' D (R(n := R n + 1)) F \<and> same_nodes s s' \<and> sfs s' = sfs s \<and> same_data D s s')"
proof -
  from v obtain C B where i: "vol (sfs s) D" "cache_ok s D C B" "counts_ok s R F" "\<And>n. inodes s n \<noteq> None \<longleftrightarrow> 0 < R n"
    by (rule vfs_invE) blast
  let ?B = "B (bucket num)" and ?P = "\<lambda>n. ino (the (sfs_info n s)) = num"
  have m: "n \<in> set ?B \<longleftrightarrow> (\<exists>sin. sfs_info n s = Some sin \<and> bucket (ino sin) = bucket num)" for n by (rule cache_okD(4) [OF i(2)])
  have l: "lookup_sfs_nolock num s = (case find ?P ?B of
      None \<Rightarrow> Some (None, s)
    | Some n \<Rightarrow> do {
        (rc, s1) \<leftarrow> inode_ref_inc n s;
        Some (Some n, if rc = 1 then set_sin n ((the (sfs_info n s))\<lparr>reclaim_count := reclaim_count (the (sfs_info n s)) + 1\<rparr>) s1 else s1) })"
    using lookup_loop_ok [of s "bucket num" "[]" ?B] cache_okD(2) [OF i(2) bucket_less] m by (auto simp: lookup_sfs_nolock_def)
  show ?thesis
  proof (cases "find ?P ?B")
    case None
    then have "\<not> ?P n" if "n \<in> set ?B" for n using that by (auto simp: find_None_iff)
    then have "ino sin \<noteq> num" if "sfs_info n s = Some sin" for n sin using m [of n] that by fastforce
    then show ?thesis using l None by simp
  next
    case (Some n)
    note n = find_SomeD [OF Some]
    obtain sin where sin: "sfs_info n s = Some sin" using n(1) m [of n] by blast
    then have num: "ino sin = num" using n(2) by simp
    obtain nd where "inodes s n = Some nd" using sin by (auto simp: sfs_info_Some)
    then have "0 < R n" using i(4) [of n] by simp
    from ref_inc_ok [OF v this b [OF sin num]] obtain s' where s': "inode_ref_inc n s = Some (int (R n) + 1, s')"
      "vfs_inv s' D (R(n := R n + 1)) F" "same_nodes s s'" "sfs s' = sfs s" by blast
    have "keys s' = keys s" "console s' = console s" using s'(1) by (auto simp: inode_ref_inc_def Option.bind_eq_Some_conv)
    then have "same_data D s s'" using s'(4) by (simp add: same_data_def)
    then show ?thesis using l Some s' sin num \<open>0 < R n\<close> by auto
  qed
qed

subsection \<open>Entering the cache\<close>

lemma cache_add:
  assumes c: "cache_ok s D C B" and n: "inodes s n = None" and nm: "Some n \<notin> set (mallocs s)"
    and D: "D (ino sin) = Some (din sin)" and new: "\<And>m x. sfs_info m s = Some x \<Longrightarrow> ino x \<noteq> ino sin"
    and r: "reclaim_count sin = 1" "on_disk (sfs s) (ino sin) = din sin" and ops: "sfs_get_ops (itype (din sin)) = Some ops"
    and s': "inode_list s' = list_add InodeList (InodeLink n) (inode_list s)"
      "ihash_list s' = list_add (IHashHead (bucket (ino sin))) (IHashLink n) (ihash_list s)"
      "inodes s' = (inodes s)(n \<mapsto> nd)" "sfs s' = sfs s" "mallocs s' = mallocs s"
    and nd: "in_info nd = SfsInodeInfo sin" "in_ops nd = ops" "in_fs nd"
  shows "\<exists>C' B'. cache_ok s' D C' B'"
proof -
  let ?h = "bucket (ino sin)"
  let ?B = "B(?h := n # B ?h)"
  have none: "sfs_info n s = None" using n by (simp add: sfs_info_def)
  have nC: "n \<notin> set C" "n \<notin> set (B h)" for h using cache_okD(3,4) [OF c, of n] none by auto
  have dl: "dll (ihash_list s) (IHashHead h) (map IHashLink (B h))" if "h < 1024" for h using cache_okD(2) [OF c that] .
  have inf: "sfs_info m s' = (if m = n then Some sin else sfs_info m s)" for m using s'(3) nd by (simp add: sfs_info_def)
  have "cache_ok s' D (n # C) ?B"
    unfolding cache_ok_def inf
  proof (intro conjI allI impI)
    show "dll (inode_list s') InodeList (map InodeLink (n # C))"
      using dll_add_after_head [OF cache_okD(1) [OF c], of "InodeLink n"] nC by (auto simp: s'(1))
    show "dll (ihash_list s') (IHashHead h) (map IHashLink (?B h))" if "h < 1024" for h
    proof (cases "h = ?h")
      case True
      then show ?thesis using dll_add_after_head [OF dl [OF that], of "IHashLink n"] nC by (auto simp: s'(2))
    next
      case False
      have "set (B ?h) \<inter> set (B h) = {}" using cache_okD(4) [OF c] False by auto
      then have "dll (list_add (IHashHead ?h) (IHashLink n) (ihash_list s)) (IHashHead h) (map IHashLink (B h))"
        by (intro dll_add_other [OF dl [OF bucket_less] dl [OF that]]) (use False nC in auto)
      then show ?thesis using False by (simp add: s'(2))
    qed
    show "m \<in> set (n # C) \<longleftrightarrow> (if m = n then Some sin else sfs_info m s) \<noteq> None" for m
      using cache_okD(3) [OF c, of m] by auto
    show "m \<in> set (?B h) \<longleftrightarrow> (\<exists>x. (if m = n then Some sin else sfs_info m s) = Some x \<and> bucket (ino x) = h)" for h m
      using cache_okD(4) [OF c, of m h] nC by auto
    show "k = m" if "(if k = n then Some sin else sfs_info k s) = Some x" "(if m = n then Some sin else sfs_info m s) = Some y" "ino x = ino y" for k m x y
      using that cache_okD(5) [OF c, of k x m y] new by (auto split: if_splits)
    show "D (ino x) = Some (din x)" "reclaim_count x = 1" if "(if k = n then Some sin else sfs_info k s) = Some x" for k x
      using that cache_okD(6,7) [OF c, of k x] D r by (auto split: if_splits)
    show "on_disk (sfs s') (ino x) = din x" if "(if k = n then Some sin else sfs_info k s) = Some x" "\<not> dirty x" for k x
      using that cache_okD(8) [OF c, of k x] r(2) s'(4) by (auto split: if_splits)
    show "on_disk (sfs s') j = d" if "D j = Some d" "\<forall>k x. (if k = n then Some sin else sfs_info k s) = Some x \<longrightarrow> ino x \<noteq> j" for j d
      using cache_okD(9) [OF c that(1)] that(2) none s'(4) by (metis option.distinct(1))
    show "node_ok x" if "inodes s' m = Some x" for m x
      using that cache_okD(10) [OF c, of m x] s'(3) nd ops by (auto simp: node_ok_def split: if_splits)
    show "malloc_ok s'" using cache_okD(11) [OF c] s'(3,5) nm by (auto simp: malloc_ok_def)
  qed
  then show ?thesis by blast
qed
subsection \<open>Loading an inode\<close>

definition same_counts :: "vfs \<Rightarrow> vfs \<Rightarrow> bool" where
  "same_counts s s' \<longleftrightarrow> inodes s' = inodes s \<and> inode_list s' = inode_list s \<and> ihash_list s' = ihash_list s"

text \<open>\<open>bound_refs R\<close>: no count is at the limit \<^verbatim>\<open>MAX_INODE_COUNT\<close> that \<^verbatim>\<open>inode_check\<close> asserts.\<close>

definition bound_refs :: "(nat \<Rightarrow> nat) \<Rightarrow> nat \<Rightarrow> bool" where
  "bound_refs R k \<longleftrightarrow> (\<forall>n. R n + k < 0x10000)"

lemma grows_add: "inodes s n = None \<Longrightarrow> inodes s' = (inodes s)(n \<mapsto> nd) \<Longrightarrow> grows s s'"
  by (auto simp: grows_def)

lemma vfs_inv_sfs:
  assumes v: "vfs_inv s D R F" and g: "goes (sfs s) t (free_blocks (sfs s)) (img (sfs s))"
  shows "vfs_inv (s\<lparr>sfs := t\<rparr>) D R F" "same_data D s (s\<lparr>sfs := t\<rparr>)"
proof -
  from v obtain C B where i: "vol (sfs s) D" "cache_ok s D C B" "counts_ok s R F" "\<And>n. inodes s n \<noteq> None \<longleftrightarrow> 0 < R n"
    by (rule vfs_invE) blast
  note w = vol_goes [OF i(1) g]
  have "cache_ok (s\<lparr>sfs := t\<rparr>) D C B"
    by (rule cache_cong [OF i(2)]) (use w(2) in \<open>auto simp: same_nodes_def malloc_ok_def\<close>)
  then show "vfs_inv (s\<lparr>sfs := t\<rparr>) D R F" using i w(1) by (intro vfs_invI [of _ D C B]) (auto simp: counts_ok_def)
  show "same_data D s (s\<lparr>sfs := t\<rparr>)" using w(3) goes_back [OF g] by (simp add: same_data_def)
qed

text \<open>One of the next k allocations fails.\<close>

definition short :: "nat \<Rightarrow> vfs \<Rightarrow> bool" where
  "short k s \<longleftrightarrow> length (mallocs s) < k \<or> None \<in> set (take k (mallocs s))"

lemma short_kmalloc:
  assumes "kmalloc s = (r, s1)"
  shows "r = None \<Longrightarrow> 0 < k \<Longrightarrow> short k s" "r \<noteq> None \<Longrightarrow> short k s1 \<Longrightarrow> short (Suc k) s"
  using assms by (cases "mallocs s"; cases k; auto simp: kmalloc_def short_def)+

lemma short_cong: "mallocs s' = mallocs s \<Longrightarrow> short k s' = short k s"
  by (simp add: short_def)

lemma short_mono: "short j s \<Longrightarrow> j \<le> k \<Longrightarrow> short k s"
  unfolding short_def using set_take_subset_set_take [of j k "mallocs s"] by auto

lemma load_new:
  assumes v: "vfs_inv s D R F" and D: "D num = Some d" and new: "\<forall>n sin. sfs_info n s = Some sin \<longrightarrow> ino sin \<noteq> num"
  shows "\<exists>ret r s'. sfs_create_inode d num s = Some (ret, r, s') \<and>
    (case r of None \<Rightarrow> ret = - E_NO_MEM \<and> short 1 s \<and> vfs_inv s' D R F \<and> same_data D s s' \<and> inodes s' = inodes s
     | Some n \<Rightarrow> let s2 = sfs_set_links n num s' in R n = 0 \<and> vfs_inv s2 D (R(n := 1)) F \<and> same_data D s s2 \<and> grows s s2 \<and>
         (\<exists>sin. sfs_info n s2 = Some sin \<and> ino sin = num \<and> din sin = d))"
proof -
  obtain r s1 where k: "kmalloc s = (r, s1)" by (cases "kmalloc s")
  from v obtain C B where i: "vol (sfs s) D" "cache_ok s D C B" "counts_ok s R F" "\<And>n. inodes s n \<noteq> None \<longleftrightarrow> 0 < R n"
    by (rule vfs_invE) blast
  note k1 = kmalloc_ok [OF i(2) k] and v1 = vfs_inv_kmalloc [OF v k]
  show ?thesis
  proof (cases r)
    case None
    then show ?thesis using k v1 short_kmalloc(1) [OF k, of 1] by (simp add: sfs_create_inode_def)
  next
    case (Some n)
    obtain ops where ops: "sfs_get_ops (itype d) = Some ops"
      using disk_fileD(9) [OF volD(2) [OF i(1) D]] by (auto simp: sfs_get_ops_def)
    have n: "inodes s n = None" "Some n \<notin> set (mallocs s1)" using k1(8) [OF Some] by auto
    define sin where "sin = \<lparr>din = d, ino = num, dirty = False, reclaim_count = 1\<rparr>"
    define nd where "nd = \<lparr>in_info = SfsInodeInfo sin, ref_count = 1, open_count = 0, in_fs = True, in_ops = ops\<rparr>"
    let ?s1 = "s1\<lparr>inodes := (inodes s1)(n \<mapsto> nd)\<rparr>"
    let ?s2 = "sfs_set_links n num ?s1"
    have c: "sfs_create_inode d num s = Some (0, Some n, ?s1)"
      using k Some ops by (simp add: sfs_create_inode_def inode_init_def sin_def nd_def)
    have "on_disk (sfs s) num = d" by (rule cache_okD(9) [OF i(2) D]) (use new in blast)
    moreover have "ino x \<noteq> num" if "sfs_info m s1 = Some x" for m x using new that k1(2) by (simp add: sfs_info_def)
    ultimately have "\<exists>C' B'. cache_ok ?s2 D C' B'"
      using n k1 D ops
      by (intro cache_add [of s1 D C B n sin ops _ nd, OF k1(1)]) (auto simp: sin_def nd_def sfs_set_links_def)
    then obtain C' B' where c2: "cache_ok ?s2 D C' B'" by blast
    have e: "inodes ?s2 = (inodes s)(n \<mapsto> nd)" "sfs ?s2 = sfs s" using k1(2,3) by (simp_all add: sfs_set_links_def)
    have R0: "R n = 0" "F n = 0" using i(4) [of n] n(1) counts_okD(4) [OF i(3), of n] by auto
    have "counts_ok ?s2 (R(n := 1)) F"
      unfolding counts_ok_def e using i(3) R0 by (auto simp: counts_ok_def nd_def)
    moreover have "inodes ?s2 m \<noteq> None \<Longrightarrow> 0 < (R(n := 1)) m" for m using i(4) [of m] e(1) by (cases "m = n") auto
    ultimately have "vfs_inv ?s2 D (R(n := 1)) F" using c2 i(1) e(2) by (intro vfs_invI [of ?s2 D C' B']) auto
    moreover have "same_data D s ?s2" using e(2) k1(6,7) by (simp add: same_data_def sfs_set_links_def)
    moreover have "grows s ?s2" by (rule grows_add [OF n(1) e(1)])
    moreover have "sfs_info n ?s2 = Some sin" using e(1) by (auto simp: sfs_info_Some nd_def)
    ultimately show ?thesis using c R0 by (auto simp: sin_def)
  qed
qed

lemma load_inode_ok:
  assumes v: "vfs_inv s D R F" and D: "D num = Some d" and b: "bound_refs R 1"
  shows "\<exists>ret r s'. sfs_load_inode num s = Some (ret, r, s') \<and> same_data D s s' \<and> grows s s' \<and>
    (case r of None \<Rightarrow> ret = - E_NO_MEM \<and> short 2 s \<and> vfs_inv s' D R F \<and> (\<forall>n sin. sfs_info n s = Some sin \<longrightarrow> ino sin \<noteq> num)
     | Some n \<Rightarrow> ret = 0 \<and> vfs_inv s' D (R(n := R n + 1)) F \<and>
         (\<exists>sin. sfs_info n s' = Some sin \<and> ino sin = num \<and> din sin = d) \<and>
         (\<forall>m sin. sfs_info m s = Some sin \<longrightarrow> ino sin = num \<longrightarrow> m = n))"
proof -
  from lookup_ok [OF v, of num] b consider
    (hit) n sin s' where "sfs_info n s = Some sin" "ino sin = num" "lookup_sfs_nolock num s = Some (Some n, s')"
      "vfs_inv s' D (R(n := R n + 1)) F" "same_nodes s s'" "same_data D s s'"
    | (miss) "\<And>n sin. sfs_info n s = Some sin \<Longrightarrow> ino sin \<noteq> num" "lookup_sfs_nolock num s = Some (None, s)"
    by (auto simp: bound_refs_def)
  then show ?thesis
  proof cases
    case hit
    from v obtain C B where i: "cache_ok s D C B" by (rule vfs_invE) blast
    have "din sin = d" using cache_okD(6) [OF i hit(1)] hit(2) D by simp
    moreover have "m = n" if "sfs_info m s = Some x" "ino x = num" for m x
      using cache_okD(5) [OF i that(1) hit(1)] that(2) hit(2) by simp
    moreover have "sfs_load_inode num s = Some (0, Some n, s')" using hit(3) by (simp add: sfs_load_inode_def)
    moreover have "sfs_info n s' = Some sin" using same_nodesD(1) [OF hit(5)] hit(1) by simp
    ultimately show ?thesis using hit(2,4,6) same_nodes_shrinks [OF hit(5)] by auto
  next
    case miss
    obtain r0 s2 where k: "kmalloc s = (r0, s2)" by (cases "kmalloc s")
    note v2 = vfs_inv_kmalloc [OF v k]
    show ?thesis
    proof (cases r0)
      case None
      then show ?thesis using miss k v2 short_kmalloc(1) [OF k, of 2] by (simp add: sfs_load_inode_def grows_def)
    next
      case (Some a)
      from v2(1) obtain C B where i2: "vol (sfs s2) D" "cache_ok s2 D C B" by (rule vfs_invE) blast
      note f = disk_fileD [OF volD(2) [OF i2(1) D]]
      have u: "sfs_block_inuse num (sfs s2) = Some True" using inuse_ok [OF volD(1) [OF i2(1)] f(2,3)] f(4) by simp
      have "0 + 64 \<le> SFS_BLKSIZE" by (simp add: SFS_BLKSIZE_def)
      from rbuf_ok [OF volD(1) [OF i2(1)] f(2,3) _ this, of "\<lambda>_. 0"] obtain t where t:
        "sfs_rbuf (\<lambda>_. 0) 64 num 0 (sfs s2) = Some (0, blit 0 64 (\<lambda>i. img (sfs s2) (num * SFS_BLKSIZE + 0 + i)) (\<lambda>_. 0), t)"
        "goes (sfs s2) t (free_blocks (sfs s2)) (img (sfs s2))" by auto
      let ?b = "blit 0 64 (\<lambda>i. img (sfs s2) (num * SFS_BLKSIZE + 0 + i)) (\<lambda>_. 0)"
      have new2: "ino sin \<noteq> num" if "sfs_info n s2 = Some sin" for n sin using miss(1) [of n sin] that v2(3) by (simp add: sfs_info_def)
      have "on_disk (sfs s2) num = d" by (rule cache_okD(9) [OF i2(2) D]) (rule new2)
      moreover have "dec_inode ?b = on_disk (sfs s2) num" unfolding on_disk_def by (rule dec_inode_cong) (simp add: blit_def)
      ultimately have dec: "dec_inode ?b = d" by simp
      let ?s3 = "s2\<lparr>sfs := t\<rparr>"
      note v3 = vfs_inv_sfs [OF v2(1) t(2)]
      have new3: "\<forall>n sin. sfs_info n ?s3 = Some sin \<longrightarrow> ino sin \<noteq> num" using new2 by (simp add: sfs_info_def)
      from load_new [OF v3(1) D new3] obtain ret r s4 where c: "sfs_create_inode d num ?s3 = Some (ret, r, s4)"
        and cr: "case r of None \<Rightarrow> ret = - E_NO_MEM \<and> short 1 ?s3 \<and> vfs_inv s4 D R F \<and> same_data D ?s3 s4 \<and> inodes s4 = inodes ?s3
         | Some n \<Rightarrow> let s2 = sfs_set_links n num s4 in R n = 0 \<and> vfs_inv s2 D (R(n := 1)) F \<and> same_data D ?s3 s2 \<and> grows ?s3 s2 \<and>
             (\<exists>sin. sfs_info n s2 = Some sin \<and> ino sin = num \<and> din sin = d)" by (elim exE conjE)
      have sd: "same_data D s ?s3" by (rule same_data_trans [OF v2(2) v3(2)])
      have l: "sfs_load_inode num s = Some (ret, r, case r of None \<Rightarrow> s4 | Some n \<Rightarrow> sfs_set_links n num s4)" if "r \<noteq> None \<Longrightarrow> ret = 0"
        using miss(2) k Some u t(1) dec f(6) c that
        by (cases r) (simp_all add: sfs_load_inode_def sizeof_disk_inode_def)
      have e3: "inodes ?s3 = inodes s" using v2(3) by simp
      have sh: "short 1 ?s3 \<Longrightarrow> short 2 s" using short_kmalloc(2) [OF k, of 1] Some by (simp add: short_def numeral_2_eq_2)
      show ?thesis
      proof (cases r)
        case None
        then show ?thesis using l cr sh miss(1) same_data_trans [OF sd, of s4] e3 by (auto simp: grows_def)
      next
        case (Some n)
        have "ret = 0" using c Some by (auto simp: sfs_create_inode_def Option.bind_eq_Some_conv split: prod.splits option.splits)
        then show ?thesis using l cr Some miss(1) same_data_trans [OF sd, of "sfs_set_links n num s4"] e3
          by (auto simp: Let_def grows_def)
      qed
    qed
  qed
qed

end
