(* ===== verification/Vfs_Lookup.thy ===== *)
theory Vfs_Lookup
  imports Vfs_Load
begin

text \<open>
  Names: \<^verbatim>\<open>sfs_lookup_once\<close>, \<^verbatim>\<open>sfs_lookup\<close> and the dispatch \<^verbatim>\<open>vop_lookup\<close>.
\<close>

lemma entries_dents: "entries s (din sin) = set (dents s sin)"
  by (auto simp: entries_def dents_def)

lemma vfs_inv_dir:
  assumes "vfs_inv s D R F" "sfs_info n s = Some sin"
  shows "D (ino sin) = Some (din sin)" "disk_file (sfs s) (ino sin) (din sin)" "vol (sfs s) D"
    "itype (din sin) = SFS_TYPE_DIR \<Longrightarrow> dir_ok (sfs s) sin" "0 < R n"
proof -
  from assms(1) obtain C B where i: "vol (sfs s) D" "cache_ok s D C B" "\<And>n. inodes s n \<noteq> None \<longleftrightarrow> 0 < R n"
    by (rule vfs_invE) blast
  show v: "vol (sfs s) D" by (rule i(1))
  show d: "D (ino sin) = Some (din sin)" by (rule cache_okD(6) [OF i(2) assms(2)])
  show f: "disk_file (sfs s) (ino sin) (din sin)" by (rule volD(2) [OF i(1) d])
  show "itype (din sin) = SFS_TYPE_DIR \<Longrightarrow> dir_ok (sfs s) sin"
    using volD(1) [OF v] disk_fileD(1) [OF f] by (simp add: dir_ok_def)
  show "0 < R n" using i(3) [of n] assms(2) by (auto simp: sfs_info_Some)
qed

text \<open>The buffer of the search does not overlap the name.\<close>

definition apart :: "vfs \<Rightarrow> nat \<Rightarrow> nat \<Rightarrow> bool" where
  "apart s name len \<longleftrightarrow> (case fst (kmalloc s) of None \<Rightarrow> True
     | Some ent \<Rightarrow> name + len < ent \<or> ent + sizeof_disk_entry \<le> name)"

lemma set_sin_same: "sfs_info n s = Some sin \<Longrightarrow> set_sin n sin s = s"
proof -
  assume "sfs_info n s = Some sin"
  then obtain nd where "inodes s n = Some nd" "in_info nd = SfsInodeInfo sin" by (auto simp: sfs_info_Some)
  then have "map_option (\<lambda>nd. nd\<lparr>in_info := SfsInodeInfo sin\<rparr>) (inodes s n) = inodes s n" by (cases nd) simp
  then show ?thesis by (simp add: set_sin_def upd_node_def)
qed

lemma lookup_once_ok:
  assumes v: "vfs_inv s D R F" and n: "sfs_info n s = Some sin" and dir: "itype (din sin) = SFS_TYPE_DIR"
    and nm: "cstr m name nm" "length nm \<le> SFS_MAX_FNAME_LEN" "apart s name (length nm)" and b: "bound_refs R 1"
  shows "\<exists>ret r m' s'. sfs_lookup_once n name m s = Some (ret, r, m', s') \<and> same_data D s s' \<and> grows s s' \<and>
    (case r of
       None \<Rightarrow> vfs_inv s' D R F \<and> (ret = - E_NO_MEM \<and> short 3 s \<or> ret = - E_NOENT \<and> (\<forall>k. (k, nm) \<in> entries (sfs s) (din sin) \<longrightarrow> k = 0))
     | Some k \<Rightarrow> ret = 0 \<and> vfs_inv s' D (R(k := R k + 1)) F \<and>
         (\<exists>sk. sfs_info k s' = Some sk \<and> ino sk \<noteq> 0 \<and> (ino sk, nm) \<in> entries (sfs s) (din sin)))"
proof -
  obtain r0 s1 where k: "kmalloc s = (r0, s1)" by (cases "kmalloc s")
  note v1 = vfs_inv_kmalloc [OF v k]
  have n1: "sfs_info n s1 = Some sin" using n v1(3) by (simp add: sfs_info_def)
  have dk: "dir_ok (sfs s1) sin" using vfs_inv_dir(4) [OF v1(1) n1 dir] .
  show ?thesis
  proof (cases r0)
    case None
    then have "sfs_lookup_once n name m s = Some (- E_NO_MEM, None, m, s1)"
      using n k strlen_cstr [OF nm(1)] nm(2) set_sin_same [OF n1]
      by (simp add: sfs_lookup_once_def sfs_dirent_search_nolock_def)
    then show ?thesis using v1 short_kmalloc(1) [OF k, of 3] None by (auto simp: grows_def)
  next
    case (Some ent)
    have ap: "name + length nm < ent \<or> ent + sizeof_disk_entry \<le> name" using nm(3) k Some by (simp add: apart_def)
    from dir_search_ok [OF dk nm(1,2) ap] obtain ret found emp m' t where
      d: "sfs_dirent_search_nolock (Some ent) sin name m (sfs s1) = Some (ret, found, emp, sin, m', t)"
        "goes (sfs s1) t (free_blocks (sfs s1)) (img (sfs s1))"
      and fd: "case found of
           None \<Rightarrow> ret = - E_NOENT \<and> (\<forall>e \<in> set (dents (sfs s1) sin). fst e = 0 \<or> snd e \<noteq> nm)
         | Some (i, num) \<Rightarrow> ret = 0 \<and> i < length (dents (sfs s1) sin) \<and> num \<noteq> 0 \<and> dents (sfs s1) sin ! i = (num, nm) \<and>
             (\<forall>l < i. fst (dents (sfs s1) sin ! l) = 0 \<or> snd (dents (sfs s1) sin ! l) \<noteq> nm)" by blast
    let ?s2 = "s1\<lparr>sfs := t\<rparr>"
    note v2 = vfs_inv_sfs [OF v1(1) d(2)]
    have n2: "sfs_info n ?s2 = Some sin" using n1 by (simp add: sfs_info_def)
    have ss: "set_sin n sin ?s2 = ?s2" by (rule set_sin_same [OF n2])
    have sd: "same_data D s ?s2" by (rule same_data_trans [OF v1(2) v2(2)])
    have gr: "grows s ?s2" using v1(3) by (simp add: grows_def)
    have en: "entries (sfs s) (din sin) = set (dents (sfs s1) sin)" using v1(4) by (simp add: entries_dents)
    show ?thesis
    proof (cases found)
      case None
      then have "sfs_lookup_once n name m s = Some (- E_NOENT, None, m', ?s2)"
        using n k Some d(1) fd ss by (simp add: sfs_lookup_once_def)
      moreover have "\<forall>k. (k, nm) \<in> entries (sfs s) (din sin) \<longrightarrow> k = 0" using fd None en by fastforce
      ultimately show ?thesis using v2(1) sd gr by auto
    next
      case F: (Some p)
      obtain i num where p: "p = (i, num)" by (cases p)
      with fd F have f: "ret = 0" "i < length (dents (sfs s1) sin)" "num \<noteq> 0" "dents (sfs s1) sin ! i = (num, nm)" by auto
      have mem: "(num, nm) \<in> entries (sfs s) (din sin)" using f(2,4) en by (metis nth_mem)
      have D: "D (ino sin) = Some (din sin)" using vfs_inv_dir(1) [OF v n] .
      obtain e where e: "D num = Some e" using volD(4) [OF vfs_inv_dir(3) [OF v] D dir mem f(3)] n by auto
      from load_inode_ok [OF v2(1) e b] obtain ret1 r s3 where l: "sfs_load_inode num ?s2 = Some (ret1, r, s3)"
        "same_data D ?s2 s3" "grows ?s2 s3" "case r of None \<Rightarrow> ret1 = - E_NO_MEM \<and> short 2 ?s2 \<and> vfs_inv s3 D R F
         | Some k \<Rightarrow> ret1 = 0 \<and> vfs_inv s3 D (R(k := R k + 1)) F \<and> (\<exists>sin. sfs_info k s3 = Some sin \<and> ino sin = num \<and> din sin = e)"
        by (cases "sfs_load_inode num ?s2") (auto split: option.splits)
      have sh: "short 2 ?s2 \<Longrightarrow> short 3 s" using short_kmalloc(2) [OF k, of 2] Some by (simp add: short_def numeral_3_eq_3)
      have "sfs_lookup_once n name m s = Some (ret1, r, m', s3)"
        using n k Some d(1) F p f(1) l(1) ss by (simp add: sfs_lookup_once_def)
      then show ?thesis using l(4) sh same_data_trans [OF sd l(2)] grows_trans [OF gr l(3)] mem f(3)
        by (cases r) auto
    qed
  qed
qed

lemma grows_sfs_info:
  assumes "grows s s'" "sfs_info n s = Some sin"
  shows "\<exists>sin'. sfs_info n s' = Some sin' \<and> ino sin' = ino sin"
proof -
  from assms(2) obtain nd where nd: "inodes s n = Some nd" "in_info nd = SfsInodeInfo sin" by (auto simp: sfs_info_Some)
  with assms(1) obtain nd' where "inodes s' n = Some nd'" "node_key nd' = node_key nd" by (auto simp: grows_def)
  with nd show ?thesis by (auto simp: node_key_def sfs_info_Some split: in_info.splits)
qed

text \<open>A node that is not the last reference stays when a reference is given up.\<close>

lemma ref_dec_keeps:
  assumes "vfs_inv s D R F" "F n < R n" "1 < R n"
  shows "\<exists>s'. inode_ref_dec n s = Some (int (R n) - 1, s') \<and> vfs_inv s' D (R(n := R n - 1)) F \<and> same_data D s s' \<and> same_nodes s s'"
proof -
  from ref_dec_ok [OF assms(1,2)] assms(3) obtain s' where r: "inode_ref_dec n s = Some (int (R n) - 1, s')"
    "vfs_inv s' D (R(n := R n - 1)) F" "same_data D s s'" by auto
  from assms(1) obtain C B where i: "counts_ok s R F" "\<And>n. inodes s n \<noteq> None \<longleftrightarrow> 0 < R n" by (rule vfs_invE) blast
  have "0 < R n" using assms(3) by simp
  then obtain nd where nd: "inodes s n = Some nd" using i(2) [of n] by blast
  have "s' = upd_node n (\<lambda>nd. nd\<lparr>ref_count := ref_count nd - 1\<rparr>) s"
    using r(1) nd counts_okD(1) [OF i(1) nd] assms(3) by (simp add: inode_ref_dec_def)
  then have "same_nodes s s'" by (simp add: same_nodes_upd)
  then show ?thesis using r by auto
qed

lemma lookup_dir_ok:
  assumes v: "vfs_inv s D R F" and n: "sfs_info n s = Some sin" and dir: "itype (din sin) = SFS_TYPE_DIR"
    and nm: "cstr m name nm" "length nm \<le> SFS_MAX_FNAME_LEN" "apart s name (length nm)" "nm \<noteq> []" "hd nm \<noteq> 0x2f" and b: "bound_refs R 2"
  shows "\<exists>ret r m' s'. vop_lookup n name m s = Some (ret, r, m', s') \<and> same_data D s s' \<and> grows s s' \<and>
    (case r of
       None \<Rightarrow> vfs_inv s' D R F \<and> (ret = - E_NO_MEM \<and> short 3 s \<or> ret = - E_NOENT \<and> (\<forall>k. (k, nm) \<in> entries (sfs s) (din sin) \<longrightarrow> k = 0))
     | Some k \<Rightarrow> ret = 0 \<and> vfs_inv s' D (R(k := R k + 1)) F \<and>
         (\<exists>sk. sfs_info k s' = Some sk \<and> ino sk \<noteq> 0 \<and> (ino sk, nm) \<in> entries (sfs s) (din sin)))"
proof -
  let ?R1 = "R(n := R n + 1)"
  have pos: "0 < R n" by (rule vfs_inv_dir(5) [OF v n])
  have lt: "R n + 1 < 0x10000" using b [unfolded bound_refs_def, rule_format, of n] by simp
  from v obtain C B where i: "cache_ok s D C B" "counts_ok s R F" by (rule vfs_invE) blast
  obtain nd where nd: "inodes s n = Some nd" "in_ops nd = SfsNodeDirops"
  proof (rule sfs_node [OF i(1) n])
    fix x assume "inodes s n = Some x" "sfs_get_ops (itype (din sin)) = Some (in_ops x)"
    with dir show thesis by (intro that [of x]) (simp_all add: sfs_get_ops_def)
  qed
  have op: "vop_op VopLookup n s = Some nd"
    using vop_op_ok [OF i(2) nd(1)] nd(2) by (simp add: has_op_def sfs_node_dirops_def)
  from ref_inc_ok [OF v pos lt] obtain s1 where s1: "inode_ref_inc n s = Some (int (R n) + 1, s1)" "vfs_inv s1 D ?R1 F"
    "same_nodes s s1" "sfs s1 = sfs s" "mallocs s1 = mallocs s" by blast
  have kc: "keys s1 = keys s" "console s1 = console s" using s1(1) by (auto simp: inode_ref_inc_def Option.bind_eq_Some_conv)
  have n1: "sfs_info n s1 = Some sin" using same_nodesD(1) [OF s1(3)] n by simp
  have b1: "bound_refs ?R1 1" 
    unfolding bound_refs_def
  proof
    fix k show "?R1 k + 1 < 0x10000" using b [unfolded bound_refs_def, rule_format, of k] by (cases "k = n") auto
  qed
  have ap: "apart s1 name (length nm)" using nm(3) s1(5) by (simp add: apart_def kmalloc_def split: list.splits)
  from lookup_once_ok [OF s1(2) n1 dir nm(1,2) ap b1] obtain ret r m' s2 where l: "sfs_lookup_once n name m s1 = Some (ret, r, m', s2)"
    "same_data D s1 s2" "grows s1 s2"
    and lr: "case r of
       None \<Rightarrow> vfs_inv s2 D ?R1 F \<and> (ret = - E_NO_MEM \<and> short 3 s1 \<or> ret = - E_NOENT \<and> (\<forall>k. (k, nm) \<in> entries (sfs s1) (din sin) \<longrightarrow> k = 0))
     | Some k \<Rightarrow> ret = 0 \<and> vfs_inv s2 D (?R1(k := ?R1 k + 1)) F \<and>
         (\<exists>sk. sfs_info k s2 = Some sk \<and> ino sk \<noteq> 0 \<and> (ino sk, nm) \<in> entries (sfs s1) (din sin))" by blast
  let ?R2 = "case r of None \<Rightarrow> ?R1 | Some k \<Rightarrow> ?R1(k := ?R1 k + 1)"
  have v2: "vfs_inv s2 D ?R2 F" using lr by (cases r) simp_all
  have R2: "R n < ?R2 n" "F n \<le> R n" "?R2(n := ?R2 n - 1) = (case r of None \<Rightarrow> R | Some k \<Rightarrow> R(k := R k + 1))"
    using counts_okD(4) [OF i(2), of n] by (auto split: option.splits)
  from ref_dec_keeps [OF v2, of n] R2 pos obtain s3 where s3: "inode_ref_dec n s2 = Some (int (?R2 n) - 1, s3)"
    "vfs_inv s3 D (case r of None \<Rightarrow> R | Some k \<Rightarrow> R(k := R k + 1)) F" "same_data D s2 s3" "same_nodes s2 s3" by auto
  have first: "m name \<noteq> 0 \<and> m name \<noteq> 0x2f" using nm(1,4,5) by (cases nm) auto
  have sub: "(if ret \<noteq> 0 then None else r) = r" using lr by (cases r) auto
  have "vop_lookup n name m s = Some (ret, if ret \<noteq> 0 then None else r, m', s3)"
    using op nd(2) s1(1) n1 dir l(1) s3(1) first by (simp add: vop_lookup_def sfs_lookup_def)
  then have r: "vop_lookup n name m s = Some (ret, r, m', s3)" unfolding sub .
  have "same_data D s s1" using s1(4) kc by (simp add: same_data_def)
  then have sd: "same_data D s s3" using same_data_trans l(2) s3(3) by blast
  have "grows s s1" "grows s2 s3" using same_nodes_shrinks s1(3) s3(4) by blast+
  then have gr: "grows s s3" using grows_trans l(3) by blast
  show ?thesis using r sd gr s3(2) lr short_cong [OF s1(5)] s1(4) same_nodesD(1) [OF s3(4)] by (cases r) auto
qed

end
