(* ===== verification/File_Table.thy ===== *)
theory File_Table
  imports Vfs_Lookup
begin

unbundle bit_operations_syntax

text \<open>
  Descriptors (labcode/lab8): kern/fs/file.c and fs.c, and the path functions of kern/fs/vfs
  (vfslookup.c, vfspath.c, vfsdev.c, vfsfile.c, vfs.c) they open files with.

  A \<^verbatim>\<open>files_struct\<close> is named by its address, \<open>fp\<close> is \<^verbatim>\<open>current->filesp\<close>; a \<^verbatim>\<open>struct file *\<close> is the pair of
  \<open>fp\<close> and an index.  The list of devices is a list, names and paths are strings in memory.  The
  semaphores \<^verbatim>\<open>files_sem\<close>, \<^verbatim>\<open>vdev_list_sem\<close> and \<^verbatim>\<open>bootfs_sem\<close> only serialise.
\<close>

datatype fd_status = FD_NONE | FD_INIT | FD_OPENED | FD_CLOSED

record filp =
  status :: fd_status
  readable :: bool
  writable :: bool
  fd :: int
  pos :: int
  node :: "nat option"
  fopen_count :: int

record files_struct =
  pwd :: "nat option"
  fd_array :: "filp list"
  files_count :: int

record vdev =
  devname :: nat
  devnode :: "nat option"
  vdev_fs :: bool
  mountable :: bool

record kfs =
  nodes :: vfs
  vdev_list :: "vdev list"
  bootfs_node :: "nat option"
  ftabs :: "nat \<Rightarrow> files_struct option"

text \<open>\<^verbatim>\<open>(PGSIZE - sizeof(struct files_struct)) / sizeof(struct file)\<close>; \<^verbatim>\<open>bool\<close> is a \<^verbatim>\<open>long long\<close>.\<close>

definition FILES_STRUCT_NENTRY :: nat where "FILES_STRUCT_NENTRY = (4096 - 48) div 56"
definition NO_FD :: int where "NO_FD = - 0x9527"

definition testfd :: "int \<Rightarrow> bool" where
  "testfd n \<longleftrightarrow> 0 \<le> n \<and> n < int FILES_STRUCT_NENTRY"

subsection \<open>The table\<close>

definition on_node :: "(vfs \<Rightarrow> (int \<times> vfs) option) \<Rightarrow> kfs \<Rightarrow> (int \<times> kfs) option" where
  "on_node f s = do { (ret, v) \<leftarrow> f (nodes s); Some (ret, s\<lparr>nodes := v\<rparr>) }"

definition get_fd_array :: "nat \<Rightarrow> kfs \<Rightarrow> filp list option" where
  "get_fd_array fp s = do { fs \<leftarrow> ftabs s fp; c_assert (files_count fs > 0); Some (fd_array fs) }"

definition file_at :: "nat \<Rightarrow> nat \<Rightarrow> kfs \<Rightarrow> filp option" where
  "file_at fp i s = do { fs \<leftarrow> ftabs s fp; c_assert (i < length (fd_array fs)); Some (fd_array fs ! i) }"

definition upd_file :: "nat \<Rightarrow> nat \<Rightarrow> (filp \<Rightarrow> filp) \<Rightarrow> kfs \<Rightarrow> kfs" where
  "upd_file fp i f s = s\<lparr>ftabs := (ftabs s)(fp := map_option (\<lambda>fs. fs\<lparr>fd_array := (fd_array fs)[i := f (fd_array fs ! i)]\<rparr>) (ftabs s fp))\<rparr>"

definition fd_array_init :: "filp list" where
  "fd_array_init = map (\<lambda>i. \<lparr>status = FD_NONE, readable = False, writable = False, fd = int i, pos = 0, node = None,
     fopen_count = 0\<rparr>) [0..<FILES_STRUCT_NENTRY]"

text \<open>The loop over the table: the first free entry from index i on.\<close>

fun find_free :: "filp list \<Rightarrow> nat \<Rightarrow> nat option" where
  "find_free [] i = None"
| "find_free (f # fs) i = (if status f = FD_NONE then Some i else find_free fs (i + 1))"

definition fd_found :: "nat \<Rightarrow> nat \<Rightarrow> kfs \<Rightarrow> (int \<times> nat option \<times> kfs) option" where
  "fd_found fp i s = do {
     f \<leftarrow> file_at fp i s;
     c_assert (fopen_count f = 0);
     Some (0, Some i, upd_file fp i (\<lambda>f. f\<lparr>status := FD_INIT, node := None\<rparr>) s) }"

definition fd_array_alloc :: "nat \<Rightarrow> int \<Rightarrow> kfs \<Rightarrow> (int \<times> nat option \<times> kfs) option" where
  "fd_array_alloc fp n s = do {
     fa \<leftarrow> get_fd_array fp s;
     if n = NO_FD then
       (case find_free fa 0 of None \<Rightarrow> Some (- E_MAX_OPEN, None, s) | Some i \<Rightarrow> fd_found fp i s)
     else if testfd n then
       (if status (fa ! nat n) = FD_NONE then fd_found fp (nat n) s else Some (- E_BUSY, None, s))
     else Some (- E_INVAL, None, s) }"

definition close_node :: "nat option \<Rightarrow> kfs \<Rightarrow> kfs option" where
  "close_node r s = do { n \<leftarrow> r; v \<leftarrow> vfs_close n (nodes s); Some (s\<lparr>nodes := v\<rparr>) }"

definition fd_array_free :: "nat \<Rightarrow> nat \<Rightarrow> kfs \<Rightarrow> kfs option" where
  "fd_array_free fp i s = do {
     f \<leftarrow> file_at fp i s;
     c_assert (status f = FD_INIT \<or> status f = FD_CLOSED);
     c_assert (fopen_count f = 0);
     s1 \<leftarrow> (if status f = FD_CLOSED then close_node (node f) s else Some s);
     Some (upd_file fp i (\<lambda>f. f\<lparr>status := FD_NONE\<rparr>) s1) }"

definition fd_array_acquire :: "nat \<Rightarrow> nat \<Rightarrow> kfs \<Rightarrow> kfs option" where
  "fd_array_acquire fp i s = do {
     f \<leftarrow> file_at fp i s;
     c_assert (status f = FD_OPENED);
     Some (upd_file fp i (\<lambda>f. f\<lparr>fopen_count := fopen_count f + 1\<rparr>) s) }"

definition fd_array_release :: "nat \<Rightarrow> nat \<Rightarrow> kfs \<Rightarrow> kfs option" where
  "fd_array_release fp i s = do {
     f \<leftarrow> file_at fp i s;
     c_assert (status f = FD_OPENED \<or> status f = FD_CLOSED);
     c_assert (fopen_count f > 0);
     let s1 = upd_file fp i (\<lambda>f. f\<lparr>fopen_count := fopen_count f - 1\<rparr>) s;
     if fopen_count f - 1 = 0 then fd_array_free fp i s1 else Some s1 }"

definition fd_array_open :: "nat \<Rightarrow> nat \<Rightarrow> kfs \<Rightarrow> kfs option" where
  "fd_array_open fp i s = do {
     f \<leftarrow> file_at fp i s;
     c_assert (status f = FD_INIT \<and> node f \<noteq> None);
     Some (upd_file fp i (\<lambda>f. f\<lparr>status := FD_OPENED, fopen_count := fopen_count f + 1\<rparr>) s) }"

definition fd_array_close :: "nat \<Rightarrow> nat \<Rightarrow> kfs \<Rightarrow> kfs option" where
  "fd_array_close fp i s = do {
     f \<leftarrow> file_at fp i s;
     c_assert (status f = FD_OPENED);
     c_assert (fopen_count f > 0);
     let s1 = upd_file fp i (\<lambda>f. f\<lparr>status := FD_CLOSED, fopen_count := fopen_count f - 1\<rparr>) s;
     if fopen_count f - 1 = 0 then fd_array_free fp i s1 else Some s1 }"

definition fd_array_dup :: "nat \<Rightarrow> nat \<Rightarrow> nat \<Rightarrow> nat \<Rightarrow> kfs \<Rightarrow> kfs option" where
  "fd_array_dup fp to fp' from s = do {
     t \<leftarrow> file_at fp to s;
     f \<leftarrow> file_at fp' from s;
     c_assert (status t = FD_INIT \<and> status f = FD_OPENED);
     n \<leftarrow> node f;
     (_, s1) \<leftarrow> on_node (inode_ref_inc n) s;
     (_, s2) \<leftarrow> on_node (inode_open_inc n) s1;
     fd_array_open fp to (upd_file fp to (\<lambda>t. t\<lparr>pos := pos f, readable := readable f, writable := writable f, node := Some n\<rparr>) s2) }"

definition fd2file :: "nat \<Rightarrow> int \<Rightarrow> kfs \<Rightarrow> nat option option" where
  "fd2file fp n s =
     (if testfd n then do {
        fa \<leftarrow> get_fd_array fp s;
        let f = fa ! nat n;
        Some (if status f = FD_OPENED \<and> fd f = n then Some (nat n) else None) }
      else Some None)"

definition file_testfd :: "nat \<Rightarrow> int \<Rightarrow> bool \<Rightarrow> bool \<Rightarrow> kfs \<Rightarrow> bool option" where
  "file_testfd fp n rd wr s = do {
     r \<leftarrow> fd2file fp n s;
     case r of None \<Rightarrow> Some False
     | Some i \<Rightarrow> do {
         f \<leftarrow> file_at fp i s;
         Some (if rd \<and> \<not> readable f then False else if wr \<and> \<not> writable f then False else True) } }"

subsection \<open>fs.c\<close>

text \<open>The address of the new table, or null, is what \<^verbatim>\<open>kmalloc\<close> returns.\<close>

definition files_create :: "nat option \<Rightarrow> kfs \<Rightarrow> nat option \<times> kfs" where
  "files_create r s = (case r of None \<Rightarrow> (None, s)
     | Some fp \<Rightarrow> (Some fp, s\<lparr>ftabs := (ftabs s)(fp \<mapsto> \<lparr>pwd = None, fd_array = fd_array_init, files_count = 0\<rparr>)\<rparr>))"

text \<open>The loop of \<^verbatim>\<open>files_destroy\<close> and \<^verbatim>\<open>files_closeall\<close>; only the first asserts that the entry is free.\<close>

primrec close_loop :: "bool \<Rightarrow> nat \<Rightarrow> nat \<Rightarrow> nat \<Rightarrow> kfs \<Rightarrow> kfs option" where
  "close_loop chk 0 i fp s = Some s"
| "close_loop chk (Suc k) i fp s = do {
     f \<leftarrow> file_at fp i s;
     s1 \<leftarrow> (if status f = FD_OPENED then fd_array_close fp i s else Some s);
     f1 \<leftarrow> file_at fp i s1;
     c_assert (chk \<longrightarrow> status f1 = FD_NONE);
     close_loop chk k (i + 1) fp s1 }"

definition files_destroy :: "nat \<Rightarrow> kfs \<Rightarrow> kfs option" where
  "files_destroy fp s = do {
     fs \<leftarrow> ftabs s fp;
     c_assert (files_count fs = 0);
     s1 \<leftarrow> (case pwd fs of None \<Rightarrow> Some s | Some n \<Rightarrow> do { (_, s1) \<leftarrow> on_node (inode_ref_dec n) s; Some s1 });
     s2 \<leftarrow> close_loop True FILES_STRUCT_NENTRY 0 fp s1;
     Some (s2\<lparr>ftabs := (ftabs s2)(fp := None)\<rparr>) }"

definition files_closeall :: "nat \<Rightarrow> kfs \<Rightarrow> kfs option" where
  "files_closeall fp s = do {
     fs \<leftarrow> ftabs s fp;
     c_assert (files_count fs > 0);
     close_loop False (FILES_STRUCT_NENTRY - 2) 2 fp s }"

definition set_pwd :: "nat \<Rightarrow> nat option \<Rightarrow> kfs \<Rightarrow> kfs" where
  "set_pwd fp r s = s\<lparr>ftabs := (ftabs s)(fp := map_option (\<lambda>fs. fs\<lparr>pwd := r\<rparr>) (ftabs s fp))\<rparr>"

definition add_files_count :: "nat \<Rightarrow> int \<Rightarrow> kfs \<Rightarrow> kfs" where
  "add_files_count fp k s = s\<lparr>ftabs := (ftabs s)(fp := map_option (\<lambda>fs. fs\<lparr>files_count := files_count fs + k\<rparr>) (ftabs s fp))\<rparr>"

primrec dup_loop :: "nat \<Rightarrow> nat \<Rightarrow> nat \<Rightarrow> nat \<Rightarrow> kfs \<Rightarrow> kfs option" where
  "dup_loop 0 i to from s = Some s"
| "dup_loop (Suc k) i to from s = do {
     f \<leftarrow> file_at from i s;
     s1 \<leftarrow> (if status f = FD_OPENED
           then fd_array_dup to i from i (upd_file to i (\<lambda>t. t\<lparr>status := FD_INIT\<rparr>) s)
           else Some s);
     dup_loop k (i + 1) to from s1 }"

definition dup_files :: "nat \<Rightarrow> nat \<Rightarrow> kfs \<Rightarrow> (int \<times> kfs) option" where
  "dup_files to from s = do {
     t \<leftarrow> ftabs s to;
     f \<leftarrow> ftabs s from;
     c_assert (files_count t = 0 \<and> files_count f > 0);
     s1 \<leftarrow> (case pwd f of None \<Rightarrow> Some (set_pwd to None s)
           | Some n \<Rightarrow> do { (_, s1) \<leftarrow> on_node (inode_ref_inc n) (set_pwd to (Some n) s); Some s1 });
     s2 \<leftarrow> dup_loop FILES_STRUCT_NENTRY 0 to from s1;
     Some (0, s2) }"
subsection \<open>The current and the boot directory\<close>

definition vfs_get_curdir :: "nat \<Rightarrow> kfs \<Rightarrow> (int \<times> nat option \<times> kfs) option" where
  "vfs_get_curdir fp s = do {
     fs \<leftarrow> ftabs s fp;
     case pwd fs of None \<Rightarrow> Some (- E_NOENT, None, s)
     | Some n \<Rightarrow> do { (_, s1) \<leftarrow> on_node (inode_ref_inc n) s; Some (0, Some n, s1) } }"

definition vfs_set_curdir :: "nat \<Rightarrow> nat option \<Rightarrow> kfs \<Rightarrow> (int \<times> kfs) option" where
  "vfs_set_curdir fp dir s = do {
     fs \<leftarrow> ftabs s fp;
     if pwd fs = dir then Some (0, s)
     else do {
       (ret, s1) \<leftarrow> (case dir of None \<Rightarrow> Some (0, s)
         | Some n \<Rightarrow> do {
             typ \<leftarrow> vop_gettype n (nodes s);
             if typ AND 0x7000 \<noteq> 0x2000 then Some (- E_NOTDIR, s)
             else do { (_, s1) \<leftarrow> on_node (inode_ref_inc n) s; Some (0, s1) } });
       if ret \<noteq> 0 then Some (ret, s1)
       else
         let s2 = set_pwd fp dir s1
         in case pwd fs of None \<Rightarrow> Some (0, s2)
            | Some old \<Rightarrow> do { (_, s3) \<leftarrow> on_node (inode_ref_dec old) s2; Some (0, s3) } } }"

definition vfs_get_bootfs :: "kfs \<Rightarrow> (int \<times> nat option \<times> kfs) option" where
  "vfs_get_bootfs s = (case bootfs_node s of None \<Rightarrow> Some (- E_NOENT, None, s)
     | Some n \<Rightarrow> do { (_, s1) \<leftarrow> on_node (inode_ref_inc n) s; Some (0, Some n, s1) })"

definition change_bootfs :: "nat option \<Rightarrow> kfs \<Rightarrow> kfs option" where
  "change_bootfs r s =
     (let s1 = s\<lparr>bootfs_node := r\<rparr>
      in case bootfs_node s of None \<Rightarrow> Some s1
         | Some old \<Rightarrow> do { (_, s2) \<leftarrow> on_node (inode_ref_dec old) s1; Some s2 })"

subsection \<open>Paths\<close>

definition fsop_get_root :: "kfs \<Rightarrow> (nat \<times> kfs) option" where
  "fsop_get_root s = do { (n, v) \<leftarrow> sfs_get_root (nodes s); Some (n, s\<lparr>nodes := v\<rparr>) }"

fun get_root_loop :: "vdev list \<Rightarrow> nat \<Rightarrow> mem \<Rightarrow> kfs \<Rightarrow> (int \<times> nat option \<times> kfs) option" where
  "get_root_loop [] name m s = Some (- E_NO_DEV, None, s)"
| "get_root_loop (vd # vds) name m s = do {
     c \<leftarrow> strcmp m name (devname vd);
     if c = 0 then
       (if vdev_fs vd then do { (n, s1) \<leftarrow> fsop_get_root s; Some (0, Some n, s1) }
        else if \<not> mountable vd then do {
          n \<leftarrow> devnode vd;
          (_, s1) \<leftarrow> on_node (inode_ref_inc n) s;
          Some (0, Some n, s1) }
        else Some (- E_NA_DEV, None, s))
     else get_root_loop vds name m s }"

definition vfs_get_root :: "nat \<Rightarrow> mem \<Rightarrow> kfs \<Rightarrow> (int \<times> nat option \<times> kfs) option" where
  "vfs_get_root name m s = get_root_loop (vdev_list s) name m s"

text \<open>The scan of \<^verbatim>\<open>get_device\<close> for the first colon or slash; \<open>-1\<close> for none.\<close>

partial_function (option) scan_path :: "nat \<Rightarrow> nat \<Rightarrow> mem \<Rightarrow> (int \<times> int) option" where
  "scan_path pth i m =
     (if m (pth + i) = 0 then Some (- 1, - 1)
      else if m (pth + i) = 0x3a then Some (- 1, int i)
      else if m (pth + i) = 0x2f then Some (int i, - 1)
      else scan_path pth (i + 1) m)"

declare scan_path.simps [code]

text \<open>\<^verbatim>\<open>while (*++p == '/');\<close>\<close>

partial_function (option) skip_slashes :: "nat \<Rightarrow> mem \<Rightarrow> nat option" where
  "skip_slashes p m = (if m (p + 1) = 0x2f then skip_slashes (p + 1) m else Some (p + 1))"

declare skip_slashes.simps [code]

definition get_device :: "nat \<Rightarrow> nat \<Rightarrow> mem \<Rightarrow> kfs \<Rightarrow> (int \<times> nat \<times> nat option \<times> mem \<times> kfs) option" where
  "get_device fp pth m s = do {
     (slash, colon) \<leftarrow> scan_path pth 0 m;
     if colon < 0 \<and> slash \<noteq> 0 then do {
       (ret, r, s1) \<leftarrow> vfs_get_curdir fp s;
       Some (ret, pth, r, m, s1) }
     else if colon > 0 then do {
       let m1 = m(pth + nat colon := 0);
       sub \<leftarrow> skip_slashes (pth + nat colon) m1;
       (ret, r, s1) \<leftarrow> vfs_get_root pth m1 s;
       Some (ret, sub, r, m1, s1) }
     else do {
       (ret, r, s1) \<leftarrow> (if m pth = 0x2f then vfs_get_bootfs s
         else do {
           c_assert (m pth = 0x3a);
           (ret, r, s1) \<leftarrow> vfs_get_curdir fp s;
           if ret \<noteq> 0 then Some (ret, None, s1)
           else do {
             n \<leftarrow> r;
             nd \<leftarrow> inodes (nodes s1) n;
             c_assert (in_fs nd);
             (root, s2) \<leftarrow> fsop_get_root s1;
             (_, s3) \<leftarrow> on_node (inode_ref_dec n) s2;
             Some (0, Some root, s3) } });
       if ret \<noteq> 0 then Some (ret, pth, None, m, s1)
       else do { sub \<leftarrow> skip_slashes pth m; Some (0, sub, r, m, s1) } } }"

definition vfs_lookup :: "nat \<Rightarrow> nat \<Rightarrow> mem \<Rightarrow> kfs \<Rightarrow> (int \<times> nat option \<times> mem \<times> kfs) option" where
  "vfs_lookup fp pth m s = do {
     (ret, sub, r, m1, s1) \<leftarrow> get_device fp pth m s;
     if ret \<noteq> 0 then Some (ret, None, m1, s1)
     else do {
       n \<leftarrow> r;
       if m1 sub \<noteq> 0 then do {
         (ret, r2, m2, v) \<leftarrow> vop_lookup n sub m1 (nodes s1);
         (_, s2) \<leftarrow> on_node (inode_ref_dec n) (s1\<lparr>nodes := v\<rparr>);
         Some (ret, r2, m2, s2) }
       else Some (0, Some n, m1, s1) } }"

definition vfs_lookup_parent :: "nat \<Rightarrow> nat \<Rightarrow> mem \<Rightarrow> kfs \<Rightarrow> (int \<times> nat option \<times> nat \<times> mem \<times> kfs) option" where
  "vfs_lookup_parent fp pth m s = do {
     (ret, sub, r, m1, s1) \<leftarrow> get_device fp pth m s;
     Some (ret, if ret \<noteq> 0 then None else r, sub, m1, s1) }"

definition vfs_chdir :: "nat \<Rightarrow> nat \<Rightarrow> mem \<Rightarrow> kfs \<Rightarrow> (int \<times> mem \<times> kfs) option" where
  "vfs_chdir fp pth m s = do {
     (ret, r, m1, s1) \<leftarrow> vfs_lookup fp pth m s;
     if ret \<noteq> 0 then Some (ret, m1, s1)
     else do {
       n \<leftarrow> r;
       (ret, s2) \<leftarrow> vfs_set_curdir fp (Some n) s1;
       (_, s3) \<leftarrow> on_node (inode_ref_dec n) s2;
       Some (ret, m1, s3) } }"

definition vfs_set_bootfs :: "nat \<Rightarrow> nat option \<Rightarrow> mem \<Rightarrow> kfs \<Rightarrow> (int \<times> mem \<times> kfs) option" where
  "vfs_set_bootfs fp fsname m s = (case fsname of
     None \<Rightarrow> do { s1 \<leftarrow> change_bootfs None s; Some (0, m, s1) }
   | Some pth \<Rightarrow> do {
       c \<leftarrow> strchr m pth 0x3a;
       case c of
         None \<Rightarrow> Some (- E_INVAL, m, s)
       | Some q \<Rightarrow>
           if m (q + 1) \<noteq> 0 then Some (- E_INVAL, m, s)
           else do {
             (ret, m1, s1) \<leftarrow> vfs_chdir fp pth m s;
             if ret \<noteq> 0 then Some (ret, m1, s1)
             else do {
               (ret, r, s2) \<leftarrow> vfs_get_curdir fp s1;
               if ret \<noteq> 0 then Some (ret, m1, s2)
               else do { s3 \<leftarrow> change_bootfs r s2; Some (0, m1, s3) } } } })"

subsection \<open>Opening\<close>

text \<open>No table of operations has \<^verbatim>\<open>vop_create\<close>: the guard of the macro fails, and nothing follows it.\<close>

definition vop_create :: "nat \<Rightarrow> kfs \<Rightarrow> (int \<times> nat option \<times> kfs) option" where
  "vop_create dir s = do { vop_op VopCreate dir (nodes s); None }"

text \<open>\<^verbatim>\<open>vfs_open\<close>, from the node on.\<close>

definition vfs_open_node :: "nat \<Rightarrow> u32 \<Rightarrow> kfs \<Rightarrow> (int \<times> nat option \<times> kfs) option" where
  "vfs_open_node n open_flags s = do {
     ret \<leftarrow> vop_open n open_flags (nodes s);
     if ret \<noteq> 0 then do { (_, s1) \<leftarrow> on_node (inode_ref_dec n) s; Some (ret, None, s1) }
     else do {
       (_, s1) \<leftarrow> on_node (inode_open_inc n) s;
       if open_flags AND O_TRUNC \<noteq> 0 \<or> open_flags AND O_CREAT \<noteq> 0 then do {
         (ret, s2) \<leftarrow> on_node (vop_truncate n 0) s1;
         if ret \<noteq> 0 then do {
           (_, s3) \<leftarrow> on_node (inode_open_dec n) s2;
           (_, s4) \<leftarrow> on_node (inode_ref_dec n) s3;
           Some (ret, None, s4) }
         else Some (0, Some n, s2) }
       else Some (0, Some n, s1) } }"

definition vfs_open :: "nat \<Rightarrow> nat \<Rightarrow> u32 \<Rightarrow> mem \<Rightarrow> kfs \<Rightarrow> (int \<times> nat option \<times> mem \<times> kfs) option" where
  "vfs_open fp pth open_flags m s =
     (if open_flags AND O_ACCMODE = 3 then Some (- E_INVAL, None, m, s)
      else if open_flags AND O_TRUNC \<noteq> 0 \<and> open_flags AND O_ACCMODE = O_RDONLY then Some (- E_INVAL, None, m, s)
      else do {
        let excl = (open_flags AND O_EXCL \<noteq> 0);
        let create = (open_flags AND O_CREAT \<noteq> 0);
        (ret, r, m1, s1) \<leftarrow> vfs_lookup fp pth m s;
        if ret \<noteq> 0 then
          (if ret = - E_NOENT \<and> create then do {
             (ret, dir, name, m2, s2) \<leftarrow> vfs_lookup_parent fp pth m1 s1;
             if ret \<noteq> 0 then Some (ret, None, m2, s2)
             else do {
               d \<leftarrow> dir;
               (_, r, s3) \<leftarrow> vop_create d s2;
               n \<leftarrow> r;
               (ret, r2, s4) \<leftarrow> vfs_open_node n open_flags s3;
               Some (ret, r2, m2, s4) } }
           else Some (ret, None, m1, s1))
        else if excl \<and> create then Some (- E_EXISTS, None, m1, s1)
        else do {
          n \<leftarrow> r;
          (ret, r2, s2) \<leftarrow> vfs_open_node n open_flags s1;
          Some (ret, r2, m1, s2) } })"

definition file_open :: "nat \<Rightarrow> nat \<Rightarrow> u32 \<Rightarrow> mem \<Rightarrow> kfs \<Rightarrow> (int \<times> mem \<times> kfs) option" where
  "file_open fp pth open_flags m s =
     (let mode = open_flags AND O_ACCMODE
      in if mode = 3 then Some (- E_INVAL, m, s)
         else do {
           (ret, fi, s1) \<leftarrow> fd_array_alloc fp NO_FD s;
           if ret \<noteq> 0 then Some (ret, m, s1)
           else do {
             i \<leftarrow> fi;
             (ret, r, m1, s2) \<leftarrow> vfs_open fp pth open_flags m s1;
             if ret \<noteq> 0 then do { s3 \<leftarrow> fd_array_free fp i s2; Some (ret, m1, s3) }
             else do {
               n \<leftarrow> r;
               p \<leftarrow> (if open_flags AND O_APPEND \<noteq> 0 then do { st \<leftarrow> vop_fstat n (nodes s2); Some (int (st_size st)) }
                    else Some 0);
               s3 \<leftarrow> fd_array_open fp i (upd_file fp i (\<lambda>f. f\<lparr>pos := p, node := Some n,
                    readable := (mode = O_RDONLY \<or> mode = O_RDWR), writable := (mode = O_WRONLY \<or> mode = O_RDWR)\<rparr>) s2);
               f \<leftarrow> file_at fp i s3;
               Some (fd f, m1, s3) } } })"

subsection \<open>Operations on descriptors\<close>

definition file_close :: "nat \<Rightarrow> int \<Rightarrow> kfs \<Rightarrow> (int \<times> kfs) option" where
  "file_close fp n s = do {
     r \<leftarrow> fd2file fp n s;
     case r of None \<Rightarrow> Some (- E_INVAL, s)
     | Some i \<Rightarrow> do { s1 \<leftarrow> fd_array_close fp i s; Some (0, s1) } }"

text \<open>\<^verbatim>\<open>file_read\<close> and \<^verbatim>\<open>file_write\<close>, with what is stored in \<^verbatim>\<open>*copied_store\<close>.\<close>

definition file_io :: "bool \<Rightarrow> nat \<Rightarrow> int \<Rightarrow> nat \<Rightarrow> nat \<Rightarrow> mem \<Rightarrow> kfs \<Rightarrow> (int \<times> nat \<times> mem \<times> kfs) option" where
  "file_io write fp n base len m s = do {
     r \<leftarrow> fd2file fp n s;
     case r of None \<Rightarrow> Some (- E_INVAL, 0, m, s)
     | Some i \<Rightarrow> do {
         f \<leftarrow> file_at fp i s;
         if \<not> (if write then writable f else readable f) then Some (- E_INVAL, 0, m, s)
         else do {
           s1 \<leftarrow> fd_array_acquire fp i s;
           nd \<leftarrow> node f;
           (ret, iob, m1, v) \<leftarrow> (if write then vop_write else vop_read) nd (iobuf_init base len (nat (pos f))) m (nodes s1);
           let copied = iobuf_used iob;
           let s2 = s1\<lparr>nodes := v\<rparr>;
           f2 \<leftarrow> file_at fp i s2;
           let s3 = (if status f2 = FD_OPENED then upd_file fp i (\<lambda>f. f\<lparr>pos := pos f + int copied\<rparr>) s2 else s2);
           s4 \<leftarrow> fd_array_release fp i s3;
           Some (ret, copied, m1, s4) } } }"

definition file_read :: "nat \<Rightarrow> int \<Rightarrow> nat \<Rightarrow> nat \<Rightarrow> mem \<Rightarrow> kfs \<Rightarrow> (int \<times> nat \<times> mem \<times> kfs) option" where
  "file_read fp n base len m s = file_io False fp n base len m s"

definition file_write :: "nat \<Rightarrow> int \<Rightarrow> nat \<Rightarrow> nat \<Rightarrow> mem \<Rightarrow> kfs \<Rightarrow> (int \<times> nat \<times> mem \<times> kfs) option" where
  "file_write fp n base len m s = file_io True fp n base len m s"

definition file_seek :: "nat \<Rightarrow> int \<Rightarrow> int \<Rightarrow> int \<Rightarrow> kfs \<Rightarrow> (int \<times> kfs) option" where
  "file_seek fp n off whence s = do {
     r \<leftarrow> fd2file fp n s;
     case r of None \<Rightarrow> Some (- E_INVAL, s)
     | Some i \<Rightarrow> do {
         s1 \<leftarrow> fd_array_acquire fp i s;
         f \<leftarrow> file_at fp i s1;
         nd \<leftarrow> node f;
         (ret, p) \<leftarrow> (if whence = 0 then Some (0, off)
           else if whence = 1 then Some (0, wrap_off (off + pos f))
           else if whence = 2 then do { st \<leftarrow> vop_fstat nd (nodes s1); Some (0, wrap_off (off + int (st_size st))) }
           else Some (- E_INVAL, off));
         (ret, s2) \<leftarrow> (if ret = 0 then do {
             (ret, s2) \<leftarrow> on_node (vop_tryseek nd p) s1;
             Some (ret, if ret = 0 then upd_file fp i (\<lambda>f. f\<lparr>pos := p\<rparr>) s2 else s2) }
           else Some (ret, s1));
         s3 \<leftarrow> fd_array_release fp i s2;
         Some (ret, s3) } }"

definition file_fstat :: "nat \<Rightarrow> int \<Rightarrow> kfs \<Rightarrow> (int \<times> stat option \<times> kfs) option" where
  "file_fstat fp n s = do {
     r \<leftarrow> fd2file fp n s;
     case r of None \<Rightarrow> Some (- E_INVAL, None, s)
     | Some i \<Rightarrow> do {
         s1 \<leftarrow> fd_array_acquire fp i s;
         f \<leftarrow> file_at fp i s1;
         nd \<leftarrow> node f;
         st \<leftarrow> vop_fstat nd (nodes s1);
         s2 \<leftarrow> fd_array_release fp i s1;
         Some (0, Some st, s2) } }"

definition file_fsync :: "nat \<Rightarrow> int \<Rightarrow> kfs \<Rightarrow> (int \<times> kfs) option" where
  "file_fsync fp n s = do {
     r \<leftarrow> fd2file fp n s;
     case r of None \<Rightarrow> Some (- E_INVAL, s)
     | Some i \<Rightarrow> do {
         s1 \<leftarrow> fd_array_acquire fp i s;
         f \<leftarrow> file_at fp i s1;
         nd \<leftarrow> node f;
         (ret, s2) \<leftarrow> on_node (vop_fsync nd) s1;
         s3 \<leftarrow> fd_array_release fp i s2;
         Some (ret, s3) } }"

text \<open>\<^verbatim>\<open>struct dirent\<close>: the offset, and the address of the buffer of 256 bytes.\<close>

definition file_getdirentry :: "nat \<Rightarrow> int \<Rightarrow> nat \<Rightarrow> nat \<Rightarrow> mem \<Rightarrow> kfs \<Rightarrow> (int \<times> nat \<times> mem \<times> kfs) option" where
  "file_getdirentry fp n name offset m s = do {
     r \<leftarrow> fd2file fp n s;
     case r of None \<Rightarrow> Some (- E_INVAL, offset, m, s)
     | Some i \<Rightarrow> do {
         s1 \<leftarrow> fd_array_acquire fp i s;
         f \<leftarrow> file_at fp i s1;
         nd \<leftarrow> node f;
         (ret, iob, m1, v) \<leftarrow> vop_getdirentry nd (iobuf_init name 256 offset) m (nodes s1);
         s2 \<leftarrow> fd_array_release fp i (s1\<lparr>nodes := v\<rparr>);
         Some (ret, if ret = 0 then offset + iobuf_used iob else offset, m1, s2) } }"

definition file_dup :: "nat \<Rightarrow> int \<Rightarrow> int \<Rightarrow> kfs \<Rightarrow> (int \<times> kfs) option" where
  "file_dup fp fd1 fd2 s = do {
     r \<leftarrow> fd2file fp fd1 s;
     case r of None \<Rightarrow> Some (- E_INVAL, s)
     | Some i \<Rightarrow> do {
         (ret, rj, s1) \<leftarrow> fd_array_alloc fp fd2 s;
         case rj of None \<Rightarrow> Some (ret, s1)
         | Some j \<Rightarrow> do {
             s2 \<leftarrow> fd_array_dup fp j fp i s1;
             f \<leftarrow> file_at fp j s2;
             Some (fd f, s2) } } }"

end
