(* ===== verification/File_Inv.thy ===== *)
theory File_Inv
  imports File_Table
begin

text \<open>
  The invariant of the descriptor tables.  The references and open counts of a node are exactly the
  table entries and current directories that hold it, plus those held elsewhere (\<open>base\<close>: the list of
  devices, the boot directory).  \<open>H fp i\<close> counts the operations in progress on entry i of table fp,
  between \<^verbatim>\<open>fd_array_acquire\<close> and \<^verbatim>\<open>fd_array_release\<close>.
\<close>

subsection \<open>Sums over the tables\<close>

definition tsum :: "('b \<Rightarrow> nat) \<Rightarrow> (nat \<Rightarrow> 'b option) \<Rightarrow> nat" where
  "tsum g t = (\<Sum>a \<in> dom t. g (the (t a)))"

lemma tsum_split: "finite (dom t) \<Longrightarrow> t a = Some x \<Longrightarrow> tsum g t = g x + (\<Sum>b \<in> dom t - {a}. g (the (t b)))"
  unfolding tsum_def by (subst sum.remove [of _ a]) auto

lemma tsum_upd:
  assumes "finite (dom t)" "t a = Some x"
  shows "tsum g (t(a \<mapsto> y)) + g x = tsum g t + g y"
proof -
  have d: "dom (t(a \<mapsto> y)) = dom t" using assms(2) by auto
  have "tsum g (t(a \<mapsto> y)) = g y + (\<Sum>b \<in> dom t - {a}. g (the ((t(a \<mapsto> y)) b)))"
    using tsum_split [of "t(a \<mapsto> y)" a y g] assms d by simp
  moreover have "(\<Sum>b \<in> dom t - {a}. g (the ((t(a \<mapsto> y)) b))) = (\<Sum>b \<in> dom t - {a}. g (the (t b)))"
    by (rule sum.cong) auto
  ultimately show ?thesis using tsum_split [OF assms, of g] by simp
qed

lemma tsum_new:
  assumes "finite (dom t)" "t a = None"
  shows "tsum g (t(a \<mapsto> y)) = tsum g t + g y"
proof -
  let ?t = "t(a \<mapsto> y)"
  have "tsum g ?t = g y + (\<Sum>b \<in> dom ?t - {a}. g (the (?t b)))"
    by (rule tsum_split) (use assms in auto)
  also have "(\<Sum>b \<in> dom ?t - {a}. g (the (?t b))) = tsum g t"
    unfolding tsum_def by (rule sum.cong) (use assms(2) in auto)
  finally show ?thesis by (simp only: add.commute)
qed

lemma tsum_del:
  assumes "finite (dom t)" "t a = Some x"
  shows "tsum g (t(a := None)) + g x = tsum g t"
proof -
  have "tsum g (t(a := None)) = (\<Sum>b \<in> dom t - {a}. g (the (t b)))"
    unfolding tsum_def by (rule sum.cong) auto
  then show ?thesis using tsum_split [OF assms, of g] by simp
qed

lemma tsum_member: "finite (dom t) \<Longrightarrow> t a = Some x \<Longrightarrow> g x \<le> tsum g t"
  using tsum_split [of t a x g] by simp

lemma tsum_mono: "(\<And>x. g x \<le> h x) \<Longrightarrow> tsum g t \<le> tsum h t"
  unfolding tsum_def by (rule sum_mono)

subsection \<open>The invariant\<close>

definition holds :: "filp \<Rightarrow> nat \<Rightarrow> bool" where
  "holds f n \<longleftrightarrow> (status f = FD_OPENED \<or> status f = FD_CLOSED) \<and> node f = Some n"

definition opens_of :: "nat \<Rightarrow> files_struct \<Rightarrow> nat" where
  "opens_of n fs = sum_list (map (\<lambda>f. of_bool (holds f n)) (fd_array fs))"

definition refs_of :: "nat \<Rightarrow> files_struct \<Rightarrow> nat" where
  "refs_of n fs = opens_of n fs + of_bool (pwd fs = Some n)"

definition opens :: "kfs \<Rightarrow> nat \<Rightarrow> nat" where
  "opens s n = tsum (opens_of n) (ftabs s)"

definition refs :: "kfs \<Rightarrow> nat \<Rightarrow> nat" where
  "refs s n = tsum (refs_of n) (ftabs s)"

definition entry_ok :: "nat \<Rightarrow> filp \<Rightarrow> nat \<Rightarrow> bool" where
  "entry_ok i f h \<longleftrightarrow> fd f = int i \<and> (case status f of
     FD_NONE \<Rightarrow> fopen_count f = 0 \<and> h = 0
   | FD_INIT \<Rightarrow> fopen_count f = 0 \<and> h = 0
   | FD_OPENED \<Rightarrow> node f \<noteq> None \<and> fopen_count f = 1 + int h
   | FD_CLOSED \<Rightarrow> node f \<noteq> None \<and> fopen_count f = int h \<and> 0 < h)"

definition tab_ok :: "files_struct \<Rightarrow> (nat \<Rightarrow> nat) \<Rightarrow> bool" where
  "tab_ok fs h \<longleftrightarrow> length (fd_array fs) = FILES_STRUCT_NENTRY \<and>
     (\<forall>i < FILES_STRUCT_NENTRY. entry_ok i (fd_array fs ! i) (h i))"

text \<open>Only the list of devices keeps the nodes of devices alive for ever.\<close>

definition devs_ok :: "vfs \<Rightarrow> (nat \<Rightarrow> nat) \<Rightarrow> bool" where
  "devs_ok v base \<longleftrightarrow> (\<forall>n nd. inodes v n = Some nd \<longrightarrow> in_ops nd = DevNodeOps \<longrightarrow> 0 < base n)"

definition kfs_inv :: "kfs \<Rightarrow> (nat \<Rightarrow> disk_inode option) \<Rightarrow> (nat \<Rightarrow> nat) \<Rightarrow> (nat \<Rightarrow> nat \<Rightarrow> nat) \<Rightarrow> bool" where
  "kfs_inv s D base H \<longleftrightarrow> finite (dom (ftabs s)) \<and> (\<forall>fp fs. ftabs s fp = Some fs \<longrightarrow> tab_ok fs (H fp)) \<and>
     vfs_inv (nodes s) D (\<lambda>n. base n + refs s n) (opens s) \<and> devs_ok (nodes s) base"

lemma kfs_invD:
  assumes "kfs_inv s D base H"
  shows "finite (dom (ftabs s))" "ftabs s fp = Some fs \<Longrightarrow> tab_ok fs (H fp)"
    "vfs_inv (nodes s) D (\<lambda>n. base n + refs s n) (opens s)" "devs_ok (nodes s) base"
  using assms by (auto simp: kfs_inv_def)

lemma tab_okD:
  assumes "tab_ok fs h"
  shows "length (fd_array fs) = FILES_STRUCT_NENTRY" "i < FILES_STRUCT_NENTRY \<Longrightarrow> entry_ok i (fd_array fs ! i) (h i)"
  using assms by (auto simp: tab_ok_def)

lemma opens_le_refs: "opens s n \<le> refs s n"
  unfolding opens_def refs_def by (rule tsum_mono) (simp add: refs_of_def)

lemma devs_ok_shrinks: "devs_ok v base \<Longrightarrow> shrinks v v' \<Longrightarrow> devs_ok v' base"
  unfolding devs_ok_def shrinks_def node_key_def by (metis (no_types, lifting) prod.inject)

lemma devs_ok_nodes: "devs_ok v base \<Longrightarrow> same_nodes v v' \<Longrightarrow> devs_ok v' base"
  using devs_ok_shrinks same_nodes_shrinks by blast

text \<open>A node with a descriptor is the last reference only if it is an inode of the file system.\<close>

lemma dev_refs:
  assumes v: "vfs_inv v D R F" and d: "devs_ok v base" and r: "base n < R n"
  shows "R n = 1 \<Longrightarrow> sfs_info n v \<noteq> None"
proof -
  assume one: "R n = 1"
  from v obtain C B where i: "cache_ok v D C B" "\<And>n. inodes v n \<noteq> None \<longleftrightarrow> 0 < R n" by (rule vfs_invE) blast
  from i(2) [of n] one obtain nd where nd: "inodes v n = Some nd" by auto
  have "in_ops nd \<noteq> DevNodeOps" using d [unfolded devs_ok_def, rule_format, OF nd] r one by auto
  with cache_okD(10) [OF i(1) nd] show "sfs_info n v \<noteq> None"
    using nd by (cases "in_info nd") (auto simp: node_ok_def sfs_info_Some)
qed

subsection \<open>A step of one entry\<close>

lemma opens_of_upd:
  assumes "i < length (fd_array fs)"
  shows "opens_of n (fs\<lparr>fd_array := (fd_array fs)[i := f]\<rparr>) + of_bool (holds (fd_array fs ! i) n) = opens_of n fs + of_bool (holds f n)"
  using sum_list_map_update [OF assms, of "\<lambda>f. of_bool (holds f n)" f] by (simp add: opens_of_def)

lemma entry_sums:
  assumes fin: "finite (dom (ftabs s))" and t: "ftabs s fp = Some fs" and i: "i < length (fd_array fs)"
  shows "opens (upd_file fp i g s) n + of_bool (holds (fd_array fs ! i) n) = opens s n + of_bool (holds (g (fd_array fs ! i)) n)"
    "refs (upd_file fp i g s) n + of_bool (holds (fd_array fs ! i) n) = refs s n + of_bool (holds (g (fd_array fs ! i)) n)"
proof -
  let ?fs = "fs\<lparr>fd_array := (fd_array fs)[i := g (fd_array fs ! i)]\<rparr>"
  have u: "ftabs (upd_file fp i g s) = (ftabs s)(fp \<mapsto> ?fs)" using t by (simp add: upd_file_def)
  note o = opens_of_upd [OF i, of n "g (fd_array fs ! i)"]
  have r: "refs_of n ?fs + of_bool (holds (fd_array fs ! i) n) = refs_of n fs + of_bool (holds (g (fd_array fs ! i)) n)"
    using o by (simp add: refs_of_def)
  show "opens (upd_file fp i g s) n + of_bool (holds (fd_array fs ! i) n) = opens s n + of_bool (holds (g (fd_array fs ! i)) n)"
    using tsum_upd [OF fin t, of "opens_of n" ?fs] o by (simp add: opens_def u)
  show "refs (upd_file fp i g s) n + of_bool (holds (fd_array fs ! i) n) = refs s n + of_bool (holds (g (fd_array fs ! i)) n)"
    using tsum_upd [OF fin t, of "refs_of n" ?fs] r by (simp add: refs_def u)
qed

lemma entry_step:
  assumes k: "kfs_inv s D base H" and t: "ftabs s fp = Some fs" and i: "i < FILES_STRUCT_NENTRY"
    and e: "entry_ok i (g (fd_array fs ! i)) h" and d: "devs_ok v base"
    and v: "vfs_inv v D R F"
    and R: "\<And>n. R n + of_bool (holds (fd_array fs ! i) n) = base n + refs s n + of_bool (holds (g (fd_array fs ! i)) n)"
    and F: "\<And>n. F n + of_bool (holds (fd_array fs ! i) n) = opens s n + of_bool (holds (g (fd_array fs ! i)) n)"
  shows "kfs_inv (upd_file fp i g (s\<lparr>nodes := v\<rparr>)) D base (H(fp := (H fp)(i := h)))"
proof -
  let ?s = "upd_file fp i g (s\<lparr>nodes := v\<rparr>)"
  note ok = tab_okD [OF kfs_invD(2) [OF k t]]
  have u: "ftabs ?s = (ftabs s)(fp \<mapsto> fs\<lparr>fd_array := (fd_array fs)[i := g (fd_array fs ! i)]\<rparr>)" "nodes ?s = v"
    using t by (simp_all add: upd_file_def)
  have s: "opens (s\<lparr>nodes := v\<rparr>) n = opens s n" "refs (s\<lparr>nodes := v\<rparr>) n = refs s n" for n by (simp_all add: opens_def refs_def)
  have sums: "opens ?s n = F n" "base n + refs ?s n = R n" for n
    using entry_sums [of "s\<lparr>nodes := v\<rparr>" fp fs i g n] kfs_invD(1) [OF k] t i ok(1) R [of n] F [of n] s by auto
  show ?thesis
    unfolding kfs_inv_def
  proof (intro conjI allI impI)
    show "finite (dom (ftabs ?s))" using kfs_invD(1) [OF k] u by simp
    show "tab_ok x ((H(fp := (H fp)(i := h))) q)" if "ftabs ?s q = Some x" for q x
      using that kfs_invD(2) [OF k, of q x] ok e i u(1) by (cases "q = fp") (auto simp: tab_ok_def nth_list_update)
    have "(\<lambda>n. base n + refs ?s n) = R" "opens ?s = F" using sums by auto
    then show "vfs_inv (nodes ?s) D (\<lambda>n. base n + refs ?s n) (opens ?s)" using v u(2) by simp
    show "devs_ok (nodes ?s) base" using d u(2) by simp
  qed
qed

text \<open>The case in which the entry holds what it held, and the nodes are not touched.\<close>

lemma entry_step_same:
  assumes k: "kfs_inv s D base H" and t: "ftabs s fp = Some fs" and i: "i < FILES_STRUCT_NENTRY"
    and e: "entry_ok i (g (fd_array fs ! i)) h" and h: "\<And>n. holds (g (fd_array fs ! i)) n \<longleftrightarrow> holds (fd_array fs ! i) n"
  shows "kfs_inv (upd_file fp i g s) D base (H(fp := (H fp)(i := h)))"
proof -
  have "kfs_inv (upd_file fp i g (s\<lparr>nodes := nodes s\<rparr>)) D base (H(fp := (H fp)(i := h)))"
  proof (rule entry_step)
    show "vfs_inv (nodes s) D (\<lambda>n. base n + refs s n) (opens s)" using kfs_invD(3) [OF k] .
    show "devs_ok (nodes s) base" using kfs_invD(4) [OF k] .
  qed (rule k t i e | simp only: h)+
  then show ?thesis by simp
qed

lemma file_at_ok: "kfs_inv s D base H \<Longrightarrow> ftabs s fp = Some fs \<Longrightarrow> i < FILES_STRUCT_NENTRY \<Longrightarrow> file_at fp i s = Some (fd_array fs ! i)"
  using tab_okD(1) [OF kfs_invD(2)] by (simp add: file_at_def)

lemma upd_file_comp:
  assumes "ftabs s fp = Some fs" "i < length (fd_array fs)"
  shows "upd_file fp i g (upd_file fp i f s) = upd_file fp i (\<lambda>x. g (f x)) s"
  using assms by (simp add: upd_file_def)

lemma upd_file_nodes: "upd_file fp i g (s\<lparr>nodes := v\<rparr>) = (upd_file fp i g s)\<lparr>nodes := v\<rparr>"
  by (simp add: upd_file_def)

end
