(* ===== verification/File_Ops.thy ===== *)
theory File_Ops
  imports File_Inv
begin

text \<open>
  The operations of the table keep the invariant, whatever operations on the same descriptor are in
  progress: an entry closed while it is in use is freed by the last release.
\<close>

subsection \<open>Allocation\<close>

lemma find_free_None: "find_free fs i = None \<longleftrightarrow> (\<forall>f \<in> set fs. status f \<noteq> FD_NONE)"
  by (induction fs arbitrary: i) auto

lemma find_free_Some:
  "find_free fs i = Some k \<Longrightarrow> i \<le> k \<and> k - i < length fs \<and> status (fs ! (k - i)) = FD_NONE \<and> (\<forall>j < k - i. status (fs ! j) \<noteq> FD_NONE)"
proof (induction fs arbitrary: i)
  case (Cons f fs)
  show ?case
  proof (cases "status f = FD_NONE")
    case True
    then show ?thesis using Cons.prems by auto
  next
    case False
    with Cons.prems have "find_free fs (i + 1) = Some k" by simp
    note ih = Cons.IH [OF this]
    then have k: "k - i = Suc (k - (i + 1))" by auto
    show ?thesis using ih False unfolding k by (auto simp: nth_Cons split: nat.splits)
  qed
qed simp

lemma entry_okD:
  assumes "entry_ok i f h"
  shows "fd f = int i" "status f = FD_NONE \<or> status f = FD_INIT \<Longrightarrow> fopen_count f = 0 \<and> h = 0"
    "status f = FD_OPENED \<Longrightarrow> fopen_count f = 1 + int h" "status f = FD_CLOSED \<Longrightarrow> fopen_count f = int h \<and> 0 < h"
    "status f = FD_OPENED \<or> status f = FD_CLOSED \<Longrightarrow> \<exists>n. node f = Some n \<and> holds f n"
  using assms by (auto simp: entry_ok_def holds_def)

lemma entry_at:
  assumes "kfs_inv s D base H" "ftabs s fp = Some fs" "i < FILES_STRUCT_NENTRY"
  shows "entry_ok i (fd_array fs ! i) (H fp i)" "i < length (fd_array fs)" "file_at fp i s = Some (fd_array fs ! i)"
  using tab_okD [OF kfs_invD(2) [OF assms(1,2)]] assms(2,3) by (auto simp: file_at_def)

definition fd_allocd :: "nat \<Rightarrow> nat \<Rightarrow> kfs \<Rightarrow> kfs" where
  "fd_allocd fp i = upd_file fp i (\<lambda>f. f\<lparr>status := FD_INIT, node := None\<rparr>)"

lemma fd_found_ok:
  assumes k: "kfs_inv s D base H" and t: "ftabs s fp = Some fs" and i: "i < FILES_STRUCT_NENTRY" "status (fd_array fs ! i) = FD_NONE"
  shows "fd_found fp i s = Some (0, Some i, fd_allocd fp i s)" "kfs_inv (fd_allocd fp i s) D base H"
proof -
  note e = entry_at [OF k t i(1)]
  note z = entry_okD(1,2) [OF e(1)]
  show "fd_found fp i s = Some (0, Some i, fd_allocd fp i s)" using e(3) z(2) i(2) by (simp add: fd_found_def fd_allocd_def)
  have "kfs_inv (fd_allocd fp i s) D base (H(fp := (H fp)(i := 0)))"
    unfolding fd_allocd_def by (rule entry_step_same [OF k t i(1)]) (use z i(2) in \<open>auto simp: entry_ok_def holds_def\<close>)
  moreover have "H(fp := (H fp)(i := 0)) = H" using z(2) i(2) by (metis fun_upd_triv)
  ultimately show "kfs_inv (fd_allocd fp i s) D base H" by simp
qed

text \<open>What an allocation promises: the lowest free descriptor, or the one asked for, or the error.\<close>

definition alloc_spec :: "filp list \<Rightarrow> int \<Rightarrow> int \<Rightarrow> nat option \<Rightarrow> bool" where
  "alloc_spec fa n ret r \<longleftrightarrow> (case r of
     Some i \<Rightarrow> ret = 0 \<and> i < length fa \<and> status (fa ! i) = FD_NONE \<and>
       (if n = NO_FD then \<forall>j < i. status (fa ! j) \<noteq> FD_NONE else n = int i)
   | None \<Rightarrow>
       if n = NO_FD then ret = - E_MAX_OPEN \<and> (\<forall>j < length fa. status (fa ! j) \<noteq> FD_NONE)
       else if testfd n then ret = - E_BUSY \<and> status (fa ! nat n) \<noteq> FD_NONE
       else ret = - E_INVAL)"

lemma fd_alloc_ok:
  assumes k: "kfs_inv s D base H" and t: "ftabs s fp = Some fs" and c: "0 < files_count fs"
  shows "\<exists>ret r s'. fd_array_alloc fp n s = Some (ret, r, s') \<and> alloc_spec (fd_array fs) n ret r \<and> kfs_inv s' D base H \<and>
    s' = (case r of None \<Rightarrow> s | Some i \<Rightarrow> fd_allocd fp i s)"
proof -
  note len = tab_okD(1) [OF kfs_invD(2) [OF k t]]
  have g: "get_fd_array fp s = Some (fd_array fs)" using t c by (simp add: get_fd_array_def)
  consider (none) "n = NO_FD" "find_free (fd_array fs) 0 = None" | (low) i where "n = NO_FD" "find_free (fd_array fs) 0 = Some i"
    | (free) "n \<noteq> NO_FD" "testfd n" "status (fd_array fs ! nat n) = FD_NONE"
    | (busy) "n \<noteq> NO_FD" "testfd n" "status (fd_array fs ! nat n) \<noteq> FD_NONE" | (bad) "n \<noteq> NO_FD" "\<not> testfd n"
    by (cases "find_free (fd_array fs) 0") blast+
  then show ?thesis
  proof cases
    case none
    then have "alloc_spec (fd_array fs) n (- E_MAX_OPEN) None" by (simp add: find_free_None alloc_spec_def)
    then show ?thesis using g k none by (auto simp: fd_array_alloc_def)
  next
    case (low i)
    note f = find_free_Some [OF low(2)]
    then have "i < FILES_STRUCT_NENTRY" "status (fd_array fs ! i) = FD_NONE" using len by auto
    note fo = fd_found_ok [OF k t this]
    have "alloc_spec (fd_array fs) n 0 (Some i)" using low f by (simp add: alloc_spec_def)
    then show ?thesis using g fo low by (simp add: fd_array_alloc_def)
  next
    case free
    then have n: "nat n < FILES_STRUCT_NENTRY" by (auto simp: testfd_def)
    note fo = fd_found_ok [OF k t n free(3)]
    have "alloc_spec (fd_array fs) n 0 (Some (nat n))" using free n len by (simp add: alloc_spec_def testfd_def)
    then show ?thesis using g fo free by (simp add: fd_array_alloc_def)
  next
    case busy
    then show ?thesis using g k by (auto simp: fd_array_alloc_def alloc_spec_def)
  next
    case bad
    then show ?thesis using g k by (auto simp: fd_array_alloc_def alloc_spec_def)
  qed
qed

subsection \<open>Acquire, release, close\<close>

lemma acquire_ok:
  assumes k: "kfs_inv s D base H" and t: "ftabs s fp = Some fs" and i: "i < FILES_STRUCT_NENTRY" "status (fd_array fs ! i) = FD_OPENED"
  shows "\<exists>s'. fd_array_acquire fp i s = Some s' \<and> s' = upd_file fp i (\<lambda>f. f\<lparr>fopen_count := fopen_count f + 1\<rparr>) s \<and>
    kfs_inv s' D base (H(fp := (H fp)(i := H fp i + 1)))"
proof -
  note e = entry_at [OF k t i(1)]
  have "kfs_inv (upd_file fp i (\<lambda>f. f\<lparr>fopen_count := fopen_count f + 1\<rparr>) s) D base (H(fp := (H fp)(i := H fp i + 1)))"
    by (rule entry_step_same [OF k t i(1)]) (use e(1) i(2) in \<open>auto simp: entry_ok_def holds_def\<close>)
  then show ?thesis using e(3) i(2) by (simp add: fd_array_acquire_def)
qed

text \<open>The last operation on an entry that nobody keeps open gives up the node.\<close>

lemma entry_gone:
  assumes k: "kfs_inv s D base H" and t: "ftabs s fp = Some fs" and i: "i < FILES_STRUCT_NENTRY" "holds (fd_array fs ! i) n"
    and g: "\<And>f. node (g f) = node f \<and> fd (g f) = fd f" "status (g (fd_array fs ! i)) = FD_CLOSED" "fopen_count (g (fd_array fs ! i)) = 0"
  shows "\<exists>s' v. fd_array_free fp i (upd_file fp i g s) = Some s' \<and> vfs_close n (nodes s) = Some v \<and>
    s' = upd_file fp i (\<lambda>f. (g f)\<lparr>status := FD_NONE\<rparr>) (s\<lparr>nodes := v\<rparr>) \<and>
    kfs_inv s' D base (H(fp := (H fp)(i := 0))) \<and> same_data D (nodes s) v \<and> shrinks (nodes s) v"
proof -
  note e = entry_at [OF k t i(1)]
  let ?R = "\<lambda>m. base m + refs s m"
  have o: "0 < opens s n"
  proof -
    have "opens_of n fs \<le> opens s n" using tsum_member [OF kfs_invD(1) [OF k] t, of "opens_of n"] by (simp add: opens_def)
    moreover have "1 \<le> opens_of n fs"
      using elem_le_sum_list [of i "map (\<lambda>f. of_bool (holds f n) :: nat) (fd_array fs)"] i(2) e(2) by (simp add: opens_of_def)
    ultimately show ?thesis by linarith
  qed
  have r: "base n < ?R n" using o opens_le_refs [of s n] by simp
  from vfs_close_ok [OF kfs_invD(3) [OF k] o dev_refs [OF kfs_invD(3,4) [OF k] r]] obtain v where
    v: "vfs_close n (nodes s) = Some v" "vfs_inv v D (?R(n := ?R n - 1)) ((opens s)(n := opens s n - 1))" "same_data D (nodes s) v" "shrinks (nodes s) v"
    by blast
  let ?g = "\<lambda>f. (g f)\<lparr>status := FD_NONE\<rparr>"
  have nd: "node (g (fd_array fs ! i)) = Some n" using g(1) i(2) by (simp add: holds_def)
  have "fd_array_free fp i (upd_file fp i g s) = Some (upd_file fp i ?g (s\<lparr>nodes := v\<rparr>))"
    using t e(2) g(2,3) nd v(1) by (simp add: fd_array_free_def file_at_def upd_file_def close_node_def)
  moreover have "kfs_inv (upd_file fp i ?g (s\<lparr>nodes := v\<rparr>)) D base (H(fp := (H fp)(i := 0)))"
  proof (rule entry_step [OF k t i(1) _ devs_ok_shrinks [OF kfs_invD(4) [OF k] v(4)] v(2)])
    show "entry_ok i (?g (fd_array fs ! i)) 0" using entry_okD(1) [OF e(1)] g by (simp add: entry_ok_def)
    have h: "holds (fd_array fs ! i) m \<longleftrightarrow> m = n" "\<not> holds (?g (fd_array fs ! i)) m" for m using i(2) by (auto simp: holds_def)
    show "(?R(n := ?R n - 1)) m + of_bool (holds (fd_array fs ! i) m) = ?R m + of_bool (holds (?g (fd_array fs ! i)) m)" for m
      using h r by auto
    show "((opens s)(n := opens s n - 1)) m + of_bool (holds (fd_array fs ! i) m) = opens s m + of_bool (holds (?g (fd_array fs ! i)) m)" for m
      using h o by auto
  qed
  ultimately show ?thesis using v by blast
qed


lemma release_ok:
  assumes k: "kfs_inv s D base H" and t: "ftabs s fp = Some fs" and i: "i < FILES_STRUCT_NENTRY" "0 < H fp i"
  shows "\<exists>s'. fd_array_release fp i s = Some s' \<and> kfs_inv s' D base (H(fp := (H fp)(i := H fp i - 1))) \<and>
    same_data D (nodes s) (nodes s') \<and>
    (\<exists>fs'. ftabs s' = (ftabs s)(fp \<mapsto> fs\<lparr>fd_array := (fd_array fs)[i := fs']\<rparr>) \<and>
      status fs' = (if status (fd_array fs ! i) = FD_CLOSED \<and> H fp i = 1 then FD_NONE else status (fd_array fs ! i)))"
proof -
  note e = entry_at [OF k t i(1)]
  let ?f = "fd_array fs ! i" and ?g = "\<lambda>f. f\<lparr>fopen_count := fopen_count f - 1\<rparr>"
  have st: "status ?f = FD_OPENED \<or> status ?f = FD_CLOSED" using entry_okD(2) [OF e(1)] i(2) by (cases "status ?f") auto
  have pos: "fopen_count ?f > 0" using entry_okD(3,4) [OF e(1)] st i(2) by auto
  have r: "fd_array_release fp i s = (if fopen_count ?f - 1 = 0 then fd_array_free fp i (upd_file fp i ?g s) else Some (upd_file fp i ?g s))"
    using e(3) st pos by (auto simp: fd_array_release_def)
  show ?thesis
  proof (cases "fopen_count ?f - 1 = 0")
    case False
    have "kfs_inv (upd_file fp i ?g s) D base (H(fp := (H fp)(i := H fp i - 1)))"
      by (rule entry_step_same [OF k t i(1)]) (use e(1) i(2) False st in \<open>auto simp: entry_ok_def holds_def\<close>)
    moreover have "\<not> (status ?f = FD_CLOSED \<and> H fp i = 1)" using False entry_okD(4) [OF e(1)] by auto
    ultimately show ?thesis using r False t by (auto simp: upd_file_def)
  next
    case True
    then have c: "status ?f = FD_CLOSED" "H fp i = 1" using st entry_okD(3,4) [OF e(1)] i(2) by auto
    from entry_okD(5) [OF e(1) st] obtain n where n: "holds ?f n" by blast
    from entry_gone [OF k t i(1) n, of ?g] c True obtain s' v where s': "fd_array_free fp i (upd_file fp i ?g s) = Some s'"
      "s' = upd_file fp i (\<lambda>f. (?g f)\<lparr>status := FD_NONE\<rparr>) (s\<lparr>nodes := v\<rparr>)"
      "kfs_inv s' D base (H(fp := (H fp)(i := 0)))" "same_data D (nodes s) v" by auto
    then show ?thesis using r True t c by (auto simp: upd_file_def)
  qed
qed

lemma close_ok:
  assumes k: "kfs_inv s D base H" and t: "ftabs s fp = Some fs" and i: "i < FILES_STRUCT_NENTRY" "status (fd_array fs ! i) = FD_OPENED"
  shows "\<exists>s'. fd_array_close fp i s = Some s' \<and> kfs_inv s' D base H \<and> same_data D (nodes s) (nodes s') \<and>
    (\<exists>fs'. ftabs s' = (ftabs s)(fp \<mapsto> fs\<lparr>fd_array := (fd_array fs)[i := fs']\<rparr>) \<and>
      status fs' = (if H fp i = 0 then FD_NONE else FD_CLOSED))"
proof -
  note e = entry_at [OF k t i(1)]
  let ?f = "fd_array fs ! i" and ?g = "\<lambda>f. f\<lparr>status := FD_CLOSED, fopen_count := fopen_count f - 1\<rparr>"
  note c = entry_okD(3) [OF e(1) i(2)]
  have r: "fd_array_close fp i s = (if fopen_count ?f - 1 = 0 then fd_array_free fp i (upd_file fp i ?g s) else Some (upd_file fp i ?g s))"
    using e(3) i(2) c by (auto simp: fd_array_close_def)
  have H: "H(fp := (H fp)(i := H fp i)) = H" by simp
  show ?thesis
  proof (cases "H fp i = 0")
    case False
    have "kfs_inv (upd_file fp i ?g s) D base (H(fp := (H fp)(i := H fp i)))"
      by (rule entry_step_same [OF k t i(1)]) (use e(1) i(2) False in \<open>auto simp: entry_ok_def holds_def\<close>)
    then show ?thesis using r False t c H by (auto simp: upd_file_def)
  next
    case True
    then have c0: "fopen_count ?f - 1 = 0" using c by simp
    obtain n where n: "holds ?f n" using entry_okD(5) [OF e(1)] i(2) by blast
    from entry_gone [OF k t i(1) n, of ?g] c0 obtain s' v where s': "fd_array_free fp i (upd_file fp i ?g s) = Some s'"
      "s' = upd_file fp i (\<lambda>f. (?g f)\<lparr>status := FD_NONE\<rparr>) (s\<lparr>nodes := v\<rparr>)"
      "kfs_inv s' D base (H(fp := (H fp)(i := 0)))" "same_data D (nodes s) v" by auto
    have "H(fp := (H fp)(i := 0)) = H" using True by (metis fun_upd_triv)
    then show ?thesis using r c0 t True s' by (auto simp: upd_file_def)
  qed
qed

lemma free_init_ok:
  assumes k: "kfs_inv s D base H" and t: "ftabs s fp = Some fs" and i: "i < FILES_STRUCT_NENTRY" "status (fd_array fs ! i) = FD_INIT"
  shows "fd_array_free fp i s = Some (upd_file fp i (\<lambda>f. f\<lparr>status := FD_NONE\<rparr>) s)"
    "kfs_inv (upd_file fp i (\<lambda>f. f\<lparr>status := FD_NONE\<rparr>) s) D base H"
proof -
  note e = entry_at [OF k t i(1)]
  have z: "fopen_count (fd_array fs ! i) = 0" "H fp i = 0" using entry_okD(2) [OF e(1)] i(2) by auto
  show "fd_array_free fp i s = Some (upd_file fp i (\<lambda>f. f\<lparr>status := FD_NONE\<rparr>) s)" using e(3) i(2) z by (simp add: fd_array_free_def)
  have "kfs_inv (upd_file fp i (\<lambda>f. f\<lparr>status := FD_NONE\<rparr>) s) D base (H(fp := (H fp)(i := H fp i)))"
    by (rule entry_step_same [OF k t i(1)]) (use e(1) i(2) z in \<open>auto simp: entry_ok_def holds_def\<close>)
  then show "kfs_inv (upd_file fp i (\<lambda>f. f\<lparr>status := FD_NONE\<rparr>) s) D base H" by simp
qed

text \<open>Opening an entry with a node that the caller has counted.\<close>

lemma open_ok:
  assumes k: "kfs_inv s D base H" and t: "ftabs s fp = Some fs" and i: "i < FILES_STRUCT_NENTRY" "status (fd_array fs ! i) = FD_INIT"
    and g: "\<And>f. status (g f) = status f \<and> node (g f) = Some n \<and> fd (g f) = fd f \<and> fopen_count (g f) = fopen_count f"
    and v: "vfs_inv v D ((\<lambda>m. base m + refs s m)(n := base n + refs s n + 1)) ((opens s)(n := opens s n + 1))" and d: "devs_ok v base"
  shows "\<exists>s'. fd_array_open fp i (upd_file fp i g (s\<lparr>nodes := v\<rparr>)) = Some s' \<and> kfs_inv s' D base H \<and>
    s' = upd_file fp i (\<lambda>f. (g f)\<lparr>status := FD_OPENED, fopen_count := fopen_count f + 1\<rparr>) (s\<lparr>nodes := v\<rparr>)"
proof -
  note e = entry_at [OF k t i(1)]
  have z: "fopen_count (fd_array fs ! i) = 0" "H fp i = 0" "fd (fd_array fs ! i) = int i" using entry_okD(1,2) [OF e(1)] i(2) by auto
  let ?g = "\<lambda>f. (g f)\<lparr>status := FD_OPENED, fopen_count := fopen_count f + 1\<rparr>"
  have "fd_array_open fp i (upd_file fp i g (s\<lparr>nodes := v\<rparr>)) = Some (upd_file fp i ?g (s\<lparr>nodes := v\<rparr>))"
    using t e(2) i(2) g by (simp add: fd_array_open_def file_at_def upd_file_def)
  moreover have "kfs_inv (upd_file fp i ?g (s\<lparr>nodes := v\<rparr>)) D base (H(fp := (H fp)(i := 0)))"
  proof (rule entry_step [OF k t i(1) _ d v])
    show "entry_ok i (?g (fd_array fs ! i)) 0" using g z by (simp add: entry_ok_def)
    have h: "\<not> holds (fd_array fs ! i) m" "holds (?g (fd_array fs ! i)) m \<longleftrightarrow> m = n" for m using i(2) g by (auto simp: holds_def)
    show "((\<lambda>m. base m + refs s m)(n := base n + refs s n + 1)) m + of_bool (holds (fd_array fs ! i) m) =
        base m + refs s m + of_bool (holds (?g (fd_array fs ! i)) m)" for m using h by auto
    show "((opens s)(n := opens s n + 1)) m + of_bool (holds (fd_array fs ! i) m) = opens s m + of_bool (holds (?g (fd_array fs ! i)) m)" for m
      using h by auto
  qed
  moreover have "H(fp := (H fp)(i := 0)) = H" using z(2) by (metis fun_upd_triv)
  ultimately show ?thesis by auto
qed

subsection \<open>Duplication\<close>

lemma on_node_Some: "f (nodes s) = Some (ret, v) \<Longrightarrow> on_node f s = Some (ret, s\<lparr>nodes := v\<rparr>)"
  by (simp add: on_node_def)

lemma holds_refs:
  assumes "kfs_inv s D base H" "ftabs s fp = Some fs" "i < FILES_STRUCT_NENTRY" "holds (fd_array fs ! i) n"
  shows "0 < opens s n" "0 < refs s n"
proof -
  have "opens_of n fs \<le> opens s n" using tsum_member [OF kfs_invD(1) [OF assms(1)] assms(2), of "opens_of n"] by (simp add: opens_def)
  moreover have "1 \<le> opens_of n fs"
    using elem_le_sum_list [of i "map (\<lambda>f. of_bool (holds f n) :: nat) (fd_array fs)"] assms(4) entry_at(2) [OF assms(1-3)]
    by (simp add: opens_of_def)
  ultimately show "0 < opens s n" by linarith
  then show "0 < refs s n" using opens_le_refs [of s n] by simp
qed

definition dup_entry :: "filp \<Rightarrow> filp \<Rightarrow> filp" where
  "dup_entry f t = t\<lparr>pos := pos f, readable := readable f, writable := writable f, node := node f, status := FD_OPENED, fopen_count := 1\<rparr>"

lemma dup_ok:
  assumes k: "kfs_inv s D base H" and t: "ftabs s fp = Some ft" "ftabs s fp' = Some ff" and i: "i < FILES_STRUCT_NENTRY" "j < FILES_STRUCT_NENTRY"
    and st: "status (fd_array ft ! i) = FD_INIT" "status (fd_array ff ! j) = FD_OPENED" and b: "\<And>n. base n + refs s n + 1 < 0x10000"
  shows "\<exists>s'. fd_array_dup fp i fp' j s = Some s' \<and> kfs_inv s' D base H \<and> sfs (nodes s') = sfs (nodes s) \<and>
    ftabs s' = (ftabs s)(fp \<mapsto> ft\<lparr>fd_array := (fd_array ft)[i := dup_entry (fd_array ff ! j) (fd_array ft ! i)]\<rparr>) \<and> same_nodes (nodes s) (nodes s') \<and>
    (\<forall>m. refs s' m = refs s m + of_bool (node (fd_array ff ! j) = Some m)) \<and> s' = s\<lparr>nodes := nodes s', ftabs := ftabs s'\<rparr>"
proof -
  let ?f = "fd_array ff ! j" and ?R = "\<lambda>m. base m + refs s m"
  note e = entry_at [OF k t(1) i(1)] and e' = entry_at [OF k t(2) i(2)]
  obtain n where n: "node ?f = Some n" "holds ?f n" using entry_okD(5) [OF e'(1)] st(2) by blast
  note h = holds_refs [OF k t(2) i(2) n(2)]
  from ref_inc_ok [OF kfs_invD(3) [OF k], of n] h b [of n] obtain v1 where
    v1: "inode_ref_inc n (nodes s) = Some (int (?R n) + 1, v1)" "vfs_inv v1 D (?R(n := ?R n + 1)) (opens s)" "same_nodes (nodes s) v1" "sfs v1 = sfs (nodes s)"
    by auto
  have "opens s n < (?R(n := ?R n + 1)) n" using opens_le_refs [of s n] by simp
  from open_inc_ok [OF v1(2) this] obtain v where
    v: "inode_open_inc n v1 = Some (int (opens s n) + 1, v)" "vfs_inv v D (?R(n := ?R n + 1)) ((opens s)(n := opens s n + 1))" "same_nodes v1 v" "sfs v = sfs v1"
    by blast
  have sn: "same_nodes (nodes s) v" using same_nodes_trans v1(3) v(3) by blast
  let ?g = "\<lambda>t. t\<lparr>pos := pos ?f, readable := readable ?f, writable := writable ?f, node := Some n\<rparr>"
  let ?h = "\<lambda>f. (?g f)\<lparr>status := FD_OPENED, fopen_count := fopen_count f + 1\<rparr>"
  obtain s' where s': "fd_array_open fp i (upd_file fp i ?g (s\<lparr>nodes := v\<rparr>)) = Some s'" "kfs_inv s' D base H"
    "s' = upd_file fp i ?h (s\<lparr>nodes := v\<rparr>)"
    using open_ok [where g = ?g, OF k t(1) i(1) st(1) _ v(2) devs_ok_nodes [OF kfs_invD(4) [OF k] sn]] by auto
  have "fd_array_dup fp i fp' j s = Some s'"
    using e(3) e'(3) st n(1) s'(1) v1(1) v(1) by (simp add: fd_array_dup_def on_node_def)
  moreover have "fopen_count (fd_array ft ! i) = 0" using entry_okD(2) [OF e(1)] st(1) by simp
  then have "ftabs s' = (ftabs s)(fp \<mapsto> ft\<lparr>fd_array := (fd_array ft)[i := dup_entry ?f (fd_array ft ! i)]\<rparr>)"
    using t(1) n(1) unfolding s'(3) by (simp add: upd_file_def dup_entry_def)
  moreover have "refs s' m = refs s m + of_bool (node ?f = Some m)" for m
  proof -
    have "refs (upd_file fp i ?h (s\<lparr>nodes := v\<rparr>)) m + of_bool (holds (fd_array ft ! i) m) =
        refs (s\<lparr>nodes := v\<rparr>) m + of_bool (holds (?h (fd_array ft ! i)) m)"
      by (rule entry_sums(2)) (use kfs_invD(1) [OF k] t(1) e(2) in simp_all)
    moreover have "refs (s\<lparr>nodes := v\<rparr>) m = refs s m" by (simp add: refs_def)
    moreover have "\<not> holds (fd_array ft ! i) m" "holds (?h (fd_array ft ! i)) m \<longleftrightarrow> m = n" using st(1) by (auto simp: holds_def)
    ultimately show ?thesis using n(1) s'(3) by auto
  qed
  moreover have "s' = s\<lparr>nodes := nodes s', ftabs := ftabs s'\<rparr>" using s'(3) by (simp add: upd_file_def)
  ultimately show ?thesis using s' v(4) v1(4) sn by (simp add: upd_file_def)
qed

text \<open>The copy of a table, as \<^verbatim>\<open>dup_files\<close> makes it in an empty one.\<close>

definition dup_array :: "nat \<Rightarrow> nat \<Rightarrow> filp list \<Rightarrow> filp list \<Rightarrow> filp list" where
  "dup_array i k ff ft = map (\<lambda>j. if i \<le> j \<and> j < i + k \<and> status (ff ! j) = FD_OPENED then dup_entry (ff ! j) (ft ! j) else ft ! j)
     [0..<FILES_STRUCT_NENTRY]"

lemma dup_array_nth: "j < FILES_STRUCT_NENTRY \<Longrightarrow> dup_array i k ff ft ! j =
    (if i \<le> j \<and> j < i + k \<and> status (ff ! j) = FD_OPENED then dup_entry (ff ! j) (ft ! j) else ft ! j)"
  "length (dup_array i k ff ft) = FILES_STRUCT_NENTRY"
  by (simp_all add: dup_array_def)

lemma dup_entry_init [simp]: "dup_entry f (t\<lparr>status := st\<rparr>) = dup_entry f t"
  by (cases t) (simp add: dup_entry_def)

lemma dup_array_0: "length ft = FILES_STRUCT_NENTRY \<Longrightarrow> dup_array i 0 ff ft = ft"
  by (rule nth_equalityI) (auto simp: dup_array_nth)

lemma dup_array_Suc:
  assumes "length ft = FILES_STRUCT_NENTRY" "i < FILES_STRUCT_NENTRY"
  shows "status (ff ! i) = FD_OPENED \<Longrightarrow> dup_array (Suc i) k ff (ft[i := dup_entry (ff ! i) (ft ! i)]) = dup_array i (Suc k) ff ft"
    "status (ff ! i) \<noteq> FD_OPENED \<Longrightarrow> dup_array (Suc i) k ff ft = dup_array i (Suc k) ff ft"
  by (rule nth_equalityI; use assms in \<open>auto simp: dup_array_nth nth_list_update le_Suc_eq not_less_eq_eq\<close>)+

lemma dup_loop_ok:
  assumes "kfs_inv s D base H" "ftabs s to = Some ft" "ftabs s from = Some ff" "to \<noteq> from" "i + k = FILES_STRUCT_NENTRY"
    and "\<And>j. i \<le> j \<Longrightarrow> j < FILES_STRUCT_NENTRY \<Longrightarrow> status (fd_array ft ! j) = FD_NONE" and "\<And>n. base n + refs s n + k < 0x10000"
  shows "\<exists>s'. dup_loop k i to from s = Some s' \<and> kfs_inv s' D base H \<and> sfs (nodes s') = sfs (nodes s) \<and> same_nodes (nodes s) (nodes s') \<and>
    ftabs s' = (ftabs s)(to \<mapsto> ft\<lparr>fd_array := dup_array i k (fd_array ff) (fd_array ft)\<rparr>) \<and> s' = s\<lparr>nodes := nodes s', ftabs := ftabs s'\<rparr>"
  using assms
proof (induction k arbitrary: i s ft)
  case 0
  have "(ftabs s)(to \<mapsto> ft\<lparr>fd_array := dup_array i 0 (fd_array ff) (fd_array ft)\<rparr>) = ftabs s"
    using dup_array_0 [OF tab_okD(1) [OF kfs_invD(2) [OF "0.prems"(1,2)]]] "0.prems"(2) by auto
  then show ?case using "0.prems" same_nodes_refl by auto
next
  case (Suc k)
  have i: "i < FILES_STRUCT_NENTRY" using Suc.prems(5) by simp
  note e = entry_at [OF Suc.prems(1,2) i] and e' = entry_at [OF Suc.prems(1,3) i]
  have len: "length (fd_array ft) = FILES_STRUCT_NENTRY" using tab_okD(1) [OF kfs_invD(2) [OF Suc.prems(1,2)]] .
  show ?case
  proof (cases "status (fd_array ff ! i) = FD_OPENED")
    case False
    have "\<exists>s'. dup_loop k (Suc i) to from s = Some s' \<and> kfs_inv s' D base H \<and> sfs (nodes s') = sfs (nodes s) \<and> same_nodes (nodes s) (nodes s') \<and>
      ftabs s' = (ftabs s)(to \<mapsto> ft\<lparr>fd_array := dup_array (Suc i) k (fd_array ff) (fd_array ft)\<rparr>) \<and> s' = s\<lparr>nodes := nodes s', ftabs := ftabs s'\<rparr>"
    proof (rule Suc.IH [OF Suc.prems(1-4)])
      show "base n + refs s n + k < 0x10000" for n using Suc.prems(7) [of n] by simp
    qed (use Suc.prems in auto)
    then show ?thesis using e'(3) False dup_array_Suc(2) [OF len i, of "fd_array ff" k] by auto
  next
    case True
    let ?s1 = "upd_file to i (\<lambda>t. t\<lparr>status := FD_INIT\<rparr>) s"
    let ?ft1 = "ft\<lparr>fd_array := (fd_array ft)[i := (fd_array ft ! i)\<lparr>status := FD_INIT\<rparr>]\<rparr>"
    have none: "status (fd_array ft ! i) = FD_NONE" using Suc.prems(6) i by simp
    have u: "ftabs ?s1 = (ftabs s)(to \<mapsto> ?ft1)" "nodes ?s1 = nodes s" using Suc.prems(2) by (simp_all add: upd_file_def)
    have "kfs_inv ?s1 D base (H(to := (H to)(i := H to i)))"
      by (rule entry_step_same [OF Suc.prems(1,2) i]) (use e(1) none in \<open>auto simp: entry_ok_def holds_def\<close>)
    then have k1: "kfs_inv ?s1 D base H" by simp
    have r1: "refs ?s1 n = refs s n" for n
      using entry_sums(2) [OF kfs_invD(1) [OF Suc.prems(1)] Suc.prems(2) e(2), of "\<lambda>t. t\<lparr>status := FD_INIT\<rparr>" n] none by (simp add: holds_def)
    have t1: "ftabs ?s1 to = Some ?ft1" "ftabs ?s1 from = Some ff" using u Suc.prems(3,4) by simp_all
    have st1: "status (fd_array ?ft1 ! i) = FD_INIT" using len i by simp
    have b1: "base n + refs ?s1 n + 1 < 0x10000" for n using r1 [of n] Suc.prems(7) [of n] by simp
    from dup_ok [OF k1 t1 i i st1 True b1] obtain s2 where s2: "fd_array_dup to i from i ?s1 = Some s2" "kfs_inv s2 D base H"
      "sfs (nodes s2) = sfs (nodes ?s1)" "same_nodes (nodes ?s1) (nodes s2)"
      "ftabs s2 = (ftabs ?s1)(to \<mapsto> ?ft1\<lparr>fd_array := (fd_array ?ft1)[i := dup_entry (fd_array ff ! i) (fd_array ?ft1 ! i)]\<rparr>)"
      "\<And>m. refs s2 m = refs ?s1 m + of_bool (node (fd_array ff ! i) = Some m)" "s2 = ?s1\<lparr>nodes := nodes s2, ftabs := ftabs s2\<rparr>" by blast
    let ?ft2 = "ft\<lparr>fd_array := (fd_array ft)[i := dup_entry (fd_array ff ! i) (fd_array ft ! i)]\<rparr>"
    have u2: "ftabs s2 = (ftabs s)(to \<mapsto> ?ft2)" using s2(5) u(1) len i by simp
    have "\<exists>s'. dup_loop k (Suc i) to from s2 = Some s' \<and> kfs_inv s' D base H \<and> sfs (nodes s') = sfs (nodes s2) \<and> same_nodes (nodes s2) (nodes s') \<and>
      ftabs s' = (ftabs s2)(to \<mapsto> ?ft2\<lparr>fd_array := dup_array (Suc i) k (fd_array ff) (fd_array ?ft2)\<rparr>) \<and> s' = s2\<lparr>nodes := nodes s', ftabs := ftabs s'\<rparr>"
    proof (rule Suc.IH [OF s2(2) _ _ Suc.prems(4)])
      show "base n + refs s2 n + k < 0x10000" for n using Suc.prems(7) [of n] s2(6) [of n] r1 [of n] by simp
      show "ftabs s2 to = Some ?ft2" "ftabs s2 from = Some ff" using u2 Suc.prems(3,4) by simp_all
    qed (use Suc.prems in auto)
    then obtain s' where s': "dup_loop k (Suc i) to from s2 = Some s'" "kfs_inv s' D base H" "sfs (nodes s') = sfs (nodes s2)"
      "same_nodes (nodes s2) (nodes s')" "ftabs s' = (ftabs s2)(to \<mapsto> ?ft2\<lparr>fd_array := dup_array (Suc i) k (fd_array ff) (fd_array ?ft2)\<rparr>)"
      "s' = s2\<lparr>nodes := nodes s', ftabs := ftabs s'\<rparr>"
      by blast
    have "file_at to i s2 = Some (fd_array ?ft2 ! i)" using u2 len i by (simp add: file_at_def)
    have "dup_loop (Suc k) i to from s = Some s'" using e'(3) True s2(1) s'(1) by simp
    moreover have "ftabs s' = (ftabs s)(to \<mapsto> ft\<lparr>fd_array := dup_array i (Suc k) (fd_array ff) (fd_array ft)\<rparr>)"
      using s'(5) u2 dup_array_Suc(1) [OF len i True, of k] by simp
    moreover have "s' = s\<lparr>nodes := nodes s', ftabs := ftabs s'\<rparr>"
      by (subst s'(6), subst s2(7)) (simp add: upd_file_def)
    ultimately show ?thesis using s' s2(3,4) u(2) same_nodes_trans [of "nodes s" "nodes s2" "nodes s'"] by metis
  qed
qed

subsection \<open>The current directory\<close>

lemma set_pwd_sums:
  assumes k: "finite (dom (ftabs s))" and t: "ftabs s fp = Some fs"
  shows "opens (set_pwd fp r s) n = opens s n" "refs (set_pwd fp r s) n + of_bool (pwd fs = Some n) = refs s n + of_bool (r = Some n)"
proof -
  have u: "ftabs (set_pwd fp r s) = (ftabs s)(fp \<mapsto> fs\<lparr>pwd := r\<rparr>)" using t by (simp add: set_pwd_def)
  show "opens (set_pwd fp r s) n = opens s n"
    using tsum_upd [OF k t, of "opens_of n" "fs\<lparr>pwd := r\<rparr>"] by (simp add: opens_def u opens_of_def)
  show "refs (set_pwd fp r s) n + of_bool (pwd fs = Some n) = refs s n + of_bool (r = Some n)"
    using tsum_upd [OF k t, of "refs_of n" "fs\<lparr>pwd := r\<rparr>"] by (simp add: refs_def u refs_of_def opens_of_def)
qed

lemma set_pwd_step:
  assumes k: "kfs_inv s D base H" and t: "ftabs s fp = Some fs" and d: "devs_ok v base" and v: "vfs_inv v D R (opens s)"
    and R: "\<And>n. R n + of_bool (pwd fs = Some n) = base n + refs s n + of_bool (r = Some n)"
  shows "kfs_inv (set_pwd fp r (s\<lparr>nodes := v\<rparr>)) D base H"
proof -
  let ?s = "set_pwd fp r (s\<lparr>nodes := v\<rparr>)"
  have s: "opens (s\<lparr>nodes := v\<rparr>) n = opens s n" "refs (s\<lparr>nodes := v\<rparr>) n = refs s n" for n by (simp_all add: opens_def refs_def)
  have t': "ftabs (s\<lparr>nodes := v\<rparr>) fp = Some fs" "finite (dom (ftabs (s\<lparr>nodes := v\<rparr>)))" using t kfs_invD(1) [OF k] by simp_all
  have "opens ?s n = opens s n" "base n + refs ?s n = R n" for n
    using set_pwd_sums [OF t'(2,1), of r n] R [of n] s by auto
  then have "opens ?s = opens s" "(\<lambda>n. base n + refs ?s n) = R" by auto
  moreover have "tab_ok x (H q)" if "ftabs ?s q = Some x" for q x
    using that kfs_invD(2) [OF k, of q] kfs_invD(2) [OF k t] t by (cases "q = fp") (auto simp: set_pwd_def tab_ok_def)
  ultimately show ?thesis
    using kfs_invD(1) [OF k] t v d by (auto simp: kfs_inv_def set_pwd_def)
qed

lemma pwd_refs: "kfs_inv s D base H \<Longrightarrow> ftabs s fp = Some fs \<Longrightarrow> pwd fs = Some n \<Longrightarrow> opens s n < refs s n"
proof -
  assume k: "kfs_inv s D base H" and t: "ftabs s fp = Some fs" and p: "pwd fs = Some n"
  note s = set_pwd_sums [OF kfs_invD(1) [OF k] t, of None n]
  then show "opens s n < refs s n" using opens_le_refs [of "set_pwd fp None s" n] p by simp
qed

lemma dup_files_ok:
  assumes k: "kfs_inv s D base H" and t: "ftabs s to = Some ft" "ftabs s from = Some ff" and ne: "to \<noteq> from"
    and fresh: "files_count ft = 0" "0 < files_count ff" "pwd ft = None" "\<And>j. j < FILES_STRUCT_NENTRY \<Longrightarrow> status (fd_array ft ! j) = FD_NONE"
    and b: "\<And>n. base n + refs s n + FILES_STRUCT_NENTRY + 1 < 0x10000"
  shows "\<exists>s'. dup_files to from s = Some (0, s') \<and> kfs_inv s' D base H \<and> sfs (nodes s') = sfs (nodes s) \<and> same_nodes (nodes s) (nodes s') \<and>
    ftabs s' = (ftabs s)(to \<mapsto> ft\<lparr>pwd := pwd ff, fd_array := dup_array 0 FILES_STRUCT_NENTRY (fd_array ff) (fd_array ft)\<rparr>)"
proof -
  let ?s0 = "set_pwd to (pwd ff) s"
  have u0: "ftabs ?s0 = (ftabs s)(to \<mapsto> ft\<lparr>pwd := pwd ff\<rparr>)" "nodes ?s0 = nodes s" using t by (simp_all add: set_pwd_def)
  have "\<exists>v. (case pwd ff of None \<Rightarrow> Some (set_pwd to None s)
           | Some n \<Rightarrow> do { (_, s1) \<leftarrow> on_node (inode_ref_inc n) (set_pwd to (Some n) s); Some s1 }) = Some (?s0\<lparr>nodes := v\<rparr>) \<and>
      kfs_inv (?s0\<lparr>nodes := v\<rparr>) D base H \<and> same_nodes (nodes s) v \<and> sfs v = sfs (nodes s)"
  proof (cases "pwd ff")
    case None
    have e: "set_pwd to None s = set_pwd to None (s\<lparr>nodes := nodes s\<rparr>)" by simp
    have "kfs_inv (set_pwd to None s) D base H"
      unfolding e by (rule set_pwd_step [OF k t(1) kfs_invD(4) [OF k] kfs_invD(3) [OF k]]) (use fresh(3) in simp)
    moreover have "set_pwd to None s = (set_pwd to None s)\<lparr>nodes := nodes s\<rparr>" by (simp add: set_pwd_def)
    ultimately show ?thesis using None same_nodes_refl by (intro exI [of _ "nodes s"]) simp
  next
    case (Some n)
    let ?R = "\<lambda>n. base n + refs s n"
    have "0 < ?R n" "?R n + 1 < 0x10000" using pwd_refs [OF k t(2) Some] b [of n] by simp_all
    from ref_inc_ok [OF kfs_invD(3) [OF k] this] obtain v where
      v: "inode_ref_inc n (nodes s) = Some (int (?R n) + 1, v)" "vfs_inv v D (?R(n := ?R n + 1)) (opens s)" "same_nodes (nodes s) v" "sfs v = sfs (nodes s)"
      by blast
    have "kfs_inv (set_pwd to (Some n) (s\<lparr>nodes := v\<rparr>)) D base H"
      by (rule set_pwd_step [OF k t(1) devs_ok_nodes [OF kfs_invD(4) [OF k] v(3)] v(2)]) (use fresh(3) in auto)
    moreover have "set_pwd to (Some n) (s\<lparr>nodes := v\<rparr>) = (set_pwd to (Some n) s)\<lparr>nodes := v\<rparr>" by (simp add: set_pwd_def)
    moreover have "on_node (inode_ref_inc n) (set_pwd to (Some n) s) = Some (int (?R n) + 1, (set_pwd to (Some n) s)\<lparr>nodes := v\<rparr>)"
      by (rule on_node_Some) (use v(1) in \<open>simp add: set_pwd_def\<close>)
    ultimately show ?thesis using Some v by (intro exI [of _ v]) simp
  qed
  then obtain v where v: "(case pwd ff of None \<Rightarrow> Some (set_pwd to None s)
           | Some n \<Rightarrow> do { (_, s1) \<leftarrow> on_node (inode_ref_inc n) (set_pwd to (Some n) s); Some s1 }) = Some (?s0\<lparr>nodes := v\<rparr>)"
      "kfs_inv (?s0\<lparr>nodes := v\<rparr>) D base H" "same_nodes (nodes s) v" "sfs v = sfs (nodes s)" by blast
  let ?s1 = "?s0\<lparr>nodes := v\<rparr>" and ?ft1 = "ft\<lparr>pwd := pwd ff\<rparr>"
  have t1: "ftabs ?s1 to = Some ?ft1" "ftabs ?s1 from = Some ff" using u0 t ne by simp_all
  have b1: "base n + refs ?s1 n + FILES_STRUCT_NENTRY < 0x10000" for n
  proof -
    have "refs ?s1 n = refs ?s0 n" by (simp add: refs_def)
    moreover have "refs ?s0 n \<le> refs s n + 1" using set_pwd_sums(2) [OF kfs_invD(1) [OF k] t(1), of "pwd ff" n] fresh(3)
      by (cases "pwd ff = Some n") simp_all
    ultimately show ?thesis using b [of n] by simp
  qed
  from dup_loop_ok [OF v(2) t1 ne, of 0 FILES_STRUCT_NENTRY] fresh(4) b1 obtain s' where
    s': "dup_loop FILES_STRUCT_NENTRY 0 to from ?s1 = Some s'" "kfs_inv s' D base H" "sfs (nodes s') = sfs v" "same_nodes v (nodes s')"
    "ftabs s' = (ftabs ?s1)(to \<mapsto> ?ft1\<lparr>fd_array := dup_array 0 FILES_STRUCT_NENTRY (fd_array ff) (fd_array ?ft1)\<rparr>)" by auto
  have "dup_files to from s = Some (0, s')"
    unfolding dup_files_def using t fresh(1,2) v(1) s'(1) by simp
  then show ?thesis using s' v(3,4) u0 same_nodes_trans [OF v(3) s'(4)] by auto
qed

subsection \<open>Creation and destruction of a table\<close>

lemma files_create_ok:
  assumes k: "kfs_inv s D base H" and fp: "ftabs s fp = None" and H: "\<And>i. i < FILES_STRUCT_NENTRY \<Longrightarrow> H fp i = 0"
  shows "\<exists>s'. files_create (Some fp) s = (Some fp, s') \<and> kfs_inv s' D base H \<and> nodes s' = nodes s \<and>
    ftabs s' = (ftabs s)(fp \<mapsto> \<lparr>pwd = None, fd_array = fd_array_init, files_count = 0\<rparr>)"
proof -
  let ?fs = "\<lparr>pwd = None, fd_array = fd_array_init, files_count = 0\<rparr>"
  let ?s = "s\<lparr>ftabs := (ftabs s)(fp \<mapsto> ?fs)\<rparr>"
  have z: "opens_of n ?fs = 0" "refs_of n ?fs = 0" for n
    by (auto simp: opens_of_def refs_of_def holds_def fd_array_init_def intro!: sum_list_0 [THEN trans [rotated]] arg_cong [where f = sum_list])
  have "opens ?s n = opens s n" "refs ?s n = refs s n" for n
    using tsum_new [OF kfs_invD(1) [OF k] fp, of "opens_of n" ?fs] tsum_new [OF kfs_invD(1) [OF k] fp, of "refs_of n" ?fs] z
    by (simp_all add: opens_def refs_def)
  then have "opens ?s = opens s" "refs ?s = refs s" by auto
  moreover have "tab_ok ?fs (H fp)" using H by (auto simp: tab_ok_def fd_array_init_def entry_ok_def)
  ultimately have "kfs_inv ?s D base H" using k by (auto simp: kfs_inv_def)
  then show ?thesis by (simp add: files_create_def)
qed

text \<open>Every open entry from index i on is closed, at once or by the operation in progress on it.\<close>

definition closed_from :: "nat \<Rightarrow> (nat \<Rightarrow> nat) \<Rightarrow> filp list \<Rightarrow> filp list \<Rightarrow> bool" where
  "closed_from i h fa fa' \<longleftrightarrow> (\<forall>j < FILES_STRUCT_NENTRY. if j < i then fa' ! j = fa ! j else status (fa' ! j) =
     (if status (fa ! j) = FD_OPENED then if h j = 0 then FD_NONE else FD_CLOSED else status (fa ! j)))"

lemma close_loop_ok:
  assumes "kfs_inv s D base H" "ftabs s fp = Some fs" "i + k = FILES_STRUCT_NENTRY"
    and "chk \<Longrightarrow> \<forall>j. i \<le> j \<longrightarrow> j < FILES_STRUCT_NENTRY \<longrightarrow> H fp j = 0 \<and> (status (fd_array fs ! j) = FD_NONE \<or> status (fd_array fs ! j) = FD_OPENED)"
  shows "\<exists>s' fa. close_loop chk k i fp s = Some s' \<and> kfs_inv s' D base H \<and> same_data D (nodes s) (nodes s') \<and>
    ftabs s' = (ftabs s)(fp \<mapsto> fs\<lparr>fd_array := fa\<rparr>) \<and>
    closed_from i (H fp) (fd_array fs) fa"
  using assms
proof (induction k arbitrary: i s fs)
  case 0
  have "(ftabs s)(fp \<mapsto> fs\<lparr>fd_array := fd_array fs\<rparr>) = ftabs s" using "0.prems"(2) by auto
  then show ?case using "0.prems" by (auto simp: closed_from_def intro!: exI [of _ "fd_array fs"])
next
  case (Suc k)
  have i: "i < FILES_STRUCT_NENTRY" using Suc.prems(3) by simp
  note e = entry_at [OF Suc.prems(1,2) i]
  let ?st = "status (fd_array fs ! i)"
  have "\<exists>s1 f. (if ?st = FD_OPENED then fd_array_close fp i s else Some s) = Some s1 \<and> kfs_inv s1 D base H \<and> same_data D (nodes s) (nodes s1) \<and>
      ftabs s1 = (ftabs s)(fp \<mapsto> fs\<lparr>fd_array := (fd_array fs)[i := f]\<rparr>) \<and>
      status f = (if ?st = FD_OPENED then if H fp i = 0 then FD_NONE else FD_CLOSED else ?st)"
  proof (cases "?st = FD_OPENED")
    case True
    then show ?thesis using close_ok [OF Suc.prems(1,2) i True] by auto
  next
    case False
    have "(ftabs s)(fp \<mapsto> fs\<lparr>fd_array := (fd_array fs)[i := fd_array fs ! i]\<rparr>) = ftabs s" using Suc.prems(2) by auto
    then show ?thesis using False Suc.prems(1) by (intro exI [of _ s] exI [of _ "fd_array fs ! i"]) simp
  qed
  then obtain s1 f where s1: "(if ?st = FD_OPENED then fd_array_close fp i s else Some s) = Some s1" "kfs_inv s1 D base H"
      "same_data D (nodes s) (nodes s1)" "ftabs s1 = (ftabs s)(fp \<mapsto> fs\<lparr>fd_array := (fd_array fs)[i := f]\<rparr>)"
      "status f = (if ?st = FD_OPENED then if H fp i = 0 then FD_NONE else FD_CLOSED else ?st)" by blast
  let ?fs1 = "fs\<lparr>fd_array := (fd_array fs)[i := f]\<rparr>"
  have t1: "ftabs s1 fp = Some ?fs1" using s1(4) by simp
  have f1: "file_at fp i s1 = Some f" using t1 e(2) by (simp add: file_at_def)
  have chk: "chk \<longrightarrow> status f = FD_NONE" using Suc.prems(4) s1(5) i by auto
  have "\<exists>s' fa. close_loop chk k (Suc i) fp s1 = Some s' \<and> kfs_inv s' D base H \<and> same_data D (nodes s1) (nodes s') \<and>
    ftabs s' = (ftabs s1)(fp \<mapsto> ?fs1\<lparr>fd_array := fa\<rparr>) \<and>
    closed_from (Suc i) (H fp) (fd_array ?fs1) fa"
    by (rule Suc.IH [OF s1(2) t1]) (use Suc.prems(3,4) in \<open>auto simp: nth_list_update\<close>)
  then obtain s' fa where s': "close_loop chk k (Suc i) fp s1 = Some s'" "kfs_inv s' D base H" "same_data D (nodes s1) (nodes s')"
      "ftabs s' = (ftabs s1)(fp \<mapsto> ?fs1\<lparr>fd_array := fa\<rparr>)"
      and fa: "closed_from (Suc i) (H fp) (fd_array ?fs1) fa" by blast
  have "close_loop chk (Suc k) i fp s = Some s'" using e(3) s1(1) f1 chk s'(1) by simp
  moreover have "closed_from i (H fp) (fd_array fs) fa"
    unfolding closed_from_def
  proof (intro allI impI)
    fix j assume "j < FILES_STRUCT_NENTRY"
    then show "if j < i then fa ! j = fd_array fs ! j else status (fa ! j) =
        (if status (fd_array fs ! j) = FD_OPENED then if H fp j = 0 then FD_NONE else FD_CLOSED else status (fd_array fs ! j))"
      using fa [unfolded closed_from_def, rule_format, of j] s1(5) e(2) by (cases "j = i") (simp_all add: nth_list_update)
  qed
  moreover have "ftabs s' = (ftabs s)(fp \<mapsto> fs\<lparr>fd_array := fa\<rparr>)" using s'(4) s1(4) by simp
  ultimately show ?case using s'(2) same_data_trans [OF s1(3) s'(3)] by blast
qed

text \<open>The directory of a table plays no part in closing its entries.\<close>

lemma set_pwd_nodes [simp]: "nodes (set_pwd fq r s) = nodes s" "(set_pwd fq r s)\<lparr>nodes := v\<rparr> = set_pwd fq r (s\<lparr>nodes := v\<rparr>)"
  by (cases s, simp add: set_pwd_def)+

lemma set_pwd_file [simp]: "file_at fp i (set_pwd fq r s) = file_at fp i s"
  by (cases "ftabs s fp") (auto simp: set_pwd_def file_at_def)

lemma set_pwd_upd [simp]: "upd_file fp i g (set_pwd fq r s) = set_pwd fq r (upd_file fp i g s)"
proof (cases "fp = fq")
  case True
  have "map_option (\<lambda>fs. fs\<lparr>fd_array := (fd_array fs)[i := g (fd_array fs ! i)]\<rparr>) (map_option (\<lambda>fs. fs\<lparr>pwd := r\<rparr>) x) =
      map_option (\<lambda>fs. fs\<lparr>pwd := r\<rparr>) (map_option (\<lambda>fs. fs\<lparr>fd_array := (fd_array fs)[i := g (fd_array fs ! i)]\<rparr>) x)" for x
  proof (cases x)
    case (Some a)
    then show ?thesis by (cases a) simp
  qed simp
  from this [of "ftabs s fq"] show ?thesis using True by (simp add: set_pwd_def upd_file_def del: option.map_comp)
next
  case False
  then show ?thesis by (simp add: set_pwd_def upd_file_def fun_upd_twist)
qed

lemma close_loop_set_pwd: "close_loop chk k i fp (set_pwd fq r s) = map_option (set_pwd fq r) (close_loop chk k i fp s)"
proof -
  have cn: "close_node n (set_pwd fq r s) = map_option (set_pwd fq r) (close_node n s)" for n s
    by (cases n; cases "vfs_close (the n) (nodes s)") (auto simp: close_node_def)
  have fr: "fd_array_free fp i (set_pwd fq r s) = map_option (set_pwd fq r) (fd_array_free fp i s)" for i s
    by (cases "file_at fp i s"; cases "close_node (node (the (file_at fp i s))) s") (auto simp: fd_array_free_def cn c_assert_def)
  have cl: "fd_array_close fp i (set_pwd fq r s) = map_option (set_pwd fq r) (fd_array_close fp i s)" for i s
    by (cases "file_at fp i s") (auto simp: fd_array_close_def fr c_assert_def Let_def)
  show ?thesis
  proof (induction k arbitrary: i s)
    case (Suc k)
    show ?case
    proof (cases "file_at fp i s")
      case (Some f)
      let ?s1 = "if status f = FD_OPENED then fd_array_close fp i s else Some s"
      have c: "(if status f = FD_OPENED then fd_array_close fp i (set_pwd fq r s) else Some (set_pwd fq r s)) = map_option (set_pwd fq r) ?s1"
        by (simp add: cl)
      show ?thesis
      proof (cases ?s1)
        case s1: (Some s1)
        show ?thesis using Some c s1 Suc.IH by (cases "file_at fp i s1") (auto simp: c_assert_def)
      qed (use Some c in simp)
    qed simp
  qed simp
qed

lemma files_destroy_ok:
  assumes k: "kfs_inv s D base H" and t: "ftabs s fp = Some fs" and c: "files_count fs = 0"
    and e: "\<And>j. j < FILES_STRUCT_NENTRY \<Longrightarrow> H fp j = 0 \<and> status (fd_array fs ! j) \<noteq> FD_INIT"
  shows "\<exists>s'. files_destroy fp s = Some s' \<and> kfs_inv s' D base H \<and> same_data D (nodes s) (nodes s') \<and> ftabs s' = (ftabs s)(fp := None)"
proof -
  let ?R = "\<lambda>n. base n + refs s n"
  have ns: "set_pwd fp r s\<lparr>nodes := nodes s\<rparr> = set_pwd fp r s" for r by simp
  have "\<exists>v. (case pwd fs of None \<Rightarrow> Some s | Some n \<Rightarrow> do { (_, s1) \<leftarrow> on_node (inode_ref_dec n) s; Some s1 }) = Some (s\<lparr>nodes := v\<rparr>) \<and>
      kfs_inv (set_pwd fp None (s\<lparr>nodes := v\<rparr>)) D base H \<and> same_data D (nodes s) v"
  proof (cases "pwd fs")
    case None
    have "kfs_inv (set_pwd fp None (s\<lparr>nodes := nodes s\<rparr>)) D base H"
      by (rule set_pwd_step [OF k t kfs_invD(4) [OF k] kfs_invD(3) [OF k]]) (use None in simp)
    then show ?thesis using None by (intro exI [of _ "nodes s"]) simp
  next
    case (Some n)
    note p = pwd_refs [OF k t Some]
    have "opens s n < ?R n" "base n < ?R n" using p by simp_all
    from ref_dec_ok [OF kfs_invD(3) [OF k] this(1) dev_refs [OF kfs_invD(3,4) [OF k] this(2)]] obtain v where
      v: "inode_ref_dec n (nodes s) = Some (int (?R n) - 1, v)" "vfs_inv v D (?R(n := ?R n - 1)) (opens s)" "same_data D (nodes s) v" "shrinks (nodes s) v"
      by blast
    have "kfs_inv (set_pwd fp None (s\<lparr>nodes := v\<rparr>)) D base H"
      by (rule set_pwd_step [OF k t devs_ok_shrinks [OF kfs_invD(4) [OF k] v(4)] v(2)]) (use Some p in auto)
    then show ?thesis using Some v on_node_Some [of "inode_ref_dec n" s, OF v(1)] by (intro exI [of _ v]) simp
  qed
  then obtain v where v: "(case pwd fs of None \<Rightarrow> Some s | Some n \<Rightarrow> do { (_, s1) \<leftarrow> on_node (inode_ref_dec n) s; Some s1 }) = Some (s\<lparr>nodes := v\<rparr>)"
      "kfs_inv (set_pwd fp None (s\<lparr>nodes := v\<rparr>)) D base H" "same_data D (nodes s) v" by blast
  let ?s1 = "set_pwd fp None (s\<lparr>nodes := v\<rparr>)" and ?fs1 = "fs\<lparr>pwd := None\<rparr>"
  have t1: "ftabs ?s1 fp = Some ?fs1" using t by (simp add: set_pwd_def)
  have "\<forall>j. 0 \<le> j \<longrightarrow> j < FILES_STRUCT_NENTRY \<longrightarrow>
      H fp j = 0 \<and> (status (fd_array ?fs1 ! j) = FD_NONE \<or> status (fd_array ?fs1 ! j) = FD_OPENED)"
  proof (intro allI impI)
    fix j assume j: "j < FILES_STRUCT_NENTRY"
    show "H fp j = 0 \<and> (status (fd_array ?fs1 ! j) = FD_NONE \<or> status (fd_array ?fs1 ! j) = FD_OPENED)"
      using e [OF j] entry_okD(4) [OF entry_at(1) [OF k t j]] by (cases "status (fd_array fs ! j)") auto
  qed
  note h = this
  from close_loop_ok [OF v(2) t1, of 0 FILES_STRUCT_NENTRY True] h obtain s2 fa where
    s2: "close_loop True FILES_STRUCT_NENTRY 0 fp ?s1 = Some s2" "kfs_inv s2 D base H" "same_data D v (nodes s2)"
      "ftabs s2 = (ftabs ?s1)(fp \<mapsto> ?fs1\<lparr>fd_array := fa\<rparr>)" "closed_from 0 (H fp) (fd_array ?fs1) fa" by auto
  from s2(1) obtain s3 where s3: "close_loop True FILES_STRUCT_NENTRY 0 fp (s\<lparr>nodes := v\<rparr>) = Some s3" "s2 = set_pwd fp None s3"
    by (auto simp: close_loop_set_pwd)
  let ?s' = "s3\<lparr>ftabs := (ftabs s3)(fp := None)\<rparr>"
  have fin: "?s' = s2\<lparr>ftabs := (ftabs s2)(fp := None)\<rparr>" using s3(2) by (auto simp: set_pwd_def fun_eq_iff)
  have "files_destroy fp s = Some ?s'" using t c v(1) s3(1) by (simp add: files_destroy_def)
  moreover have "kfs_inv ?s' D base H"
  proof -
    have t2: "ftabs s2 fp = Some (?fs1\<lparr>fd_array := fa\<rparr>)" using s2(4) by simp
    have len: "length fa = FILES_STRUCT_NENTRY" using tab_okD(1) [OF kfs_invD(2) [OF s2(2) t2]] by simp
    have "\<not> holds f n" if "f \<in> set fa" for f n
    proof -
      from \<open>f \<in> set fa\<close> len obtain j where j: "f = fa ! j" "j < FILES_STRUCT_NENTRY" by (metis in_set_conv_nth)
      then show ?thesis using s2(5) h by (auto simp: closed_from_def holds_def split: if_splits)
    qed
    then have z: "opens_of n (?fs1\<lparr>fd_array := fa\<rparr>) = 0" "refs_of n (?fs1\<lparr>fd_array := fa\<rparr>) = 0" for n
      by (auto simp: opens_of_def refs_of_def sum_list_eq_0_iff)
    have "opens ?s' n = opens s2 n" "refs ?s' n = refs s2 n" for n
      using tsum_del [OF kfs_invD(1) [OF s2(2)] t2, of "opens_of n"] tsum_del [OF kfs_invD(1) [OF s2(2)] t2, of "refs_of n"] z
      by (simp_all add: opens_def refs_def fin)
    then have "opens ?s' = opens s2" "refs ?s' = refs s2" by auto
    then show ?thesis using s2(2) by (auto simp: kfs_inv_def fin)
  qed
  moreover have "ftabs ?s' = (ftabs s)(fp := None)" unfolding fin using s2(4) by (auto simp: set_pwd_def fun_eq_iff)
  moreover have "same_data D (nodes s) (nodes ?s')" using same_data_trans [OF v(3) s2(3)] s3(2) by simp
  ultimately show ?thesis by auto
qed

end
