(* ===== verification/File_Open.thy ===== *)
theory File_Open
  imports File_Ops
begin

text \<open>
  From a name to a descriptor: \<^verbatim>\<open>vfs_lookup\<close> of a relative name, \<^verbatim>\<open>file_open\<close>, and the operations on
  descriptors that the system calls are.
\<close>

subsection \<open>Names\<close>

lemma devs_ok_grows:
  assumes d: "devs_ok v base" and v: "vfs_inv v D R F" "vfs_inv v' D' R' F'" and g: "grows v v'"
    and n: "\<And>n. 0 < R' n \<Longrightarrow> R n = 0 \<Longrightarrow> sfs_info n v' \<noteq> None"
  shows "devs_ok v' base"
  unfolding devs_ok_def
proof (intro allI impI)
  fix n nd assume nd: "inodes v' n = Some nd" and dev: "in_ops nd = DevNodeOps"
  from v(1) obtain C B where i: "\<And>n. inodes v n \<noteq> None \<longleftrightarrow> 0 < R n" by (rule vfs_invE) blast
  from v(2) obtain C' B' where i': "cache_ok v' D' C' B'" "\<And>n. inodes v' n \<noteq> None \<longleftrightarrow> 0 < R' n" by (rule vfs_invE) blast
  have "sfs_info n v' = None"
  proof (rule ccontr)
    assume "sfs_info n v' \<noteq> None"
    then obtain sin where s: "sfs_info n v' = Some sin" by auto
    obtain nd2 where "inodes v' n = Some nd2" "sfs_get_ops (itype (din sin)) = Some (in_ops nd2)" using sfs_node [OF i'(1) s] by metis
    with has_fsync dev nd show False by auto
  qed
  then have "R n \<noteq> 0" using n [of n] i'(2) [of n] nd by auto
  then obtain nd0 where nd0: "inodes v n = Some nd0" using i [of n] by blast
  then obtain nd1 where "inodes v' n = Some nd1" "node_key nd1 = node_key nd0" using g by (auto simp: grows_def)
  then have "in_ops nd0 = DevNodeOps" using nd dev by (simp add: node_key_def)
  then show "0 < base n" using d nd0 by (auto simp: devs_ok_def)
qed

lemma cstr_nz: "cstr m a xs \<Longrightarrow> i < length xs \<Longrightarrow> m (a + i) = xs ! i \<and> xs ! i \<noteq> 0"
  "cstr m a xs \<Longrightarrow> m (a + length xs) = 0"
proof (induction xs arbitrary: a i)
  case (Cons x xs)
  {
    case 1
    then show ?case using Cons.IH(1) [of "a + 1" "i - 1"] by (cases i) auto
  next
    case 2
    then show ?case using Cons.IH(2) [of "a + 1"] by auto
  }
qed auto

text \<open>The scan stops at the end of the name, or at a slash that is not its first character.\<close>

lemma scan_path_rel:
  assumes "cstr m pth nm" "0x3a \<notin> set nm" "i \<le> length nm"
  shows "\<exists>slash. scan_path pth i m = Some (slash, - 1) \<and> (slash = - 1 \<or> int i \<le> slash \<and> nat slash < length nm \<and> nm ! nat slash = 0x2f)"
  using assms(3)
proof (induction "length nm - i" arbitrary: i)
  case 0
  then have "i = length nm" by simp
  then show ?case using cstr_nz(2) [OF assms(1)] by (subst scan_path.simps) simp
next
  case (Suc k)
  then have i: "i < length nm" by simp
  note c = cstr_nz(1) [OF assms(1) i]
  have "nm ! i \<noteq> 0x3a" using assms(2) i by (metis nth_mem)
  show ?case
  proof (cases "nm ! i = 0x2f")
    case True
    then show ?thesis using c i by (subst scan_path.simps) simp
  next
    case False
    have "k = length nm - (i + 1)" "i + 1 \<le> length nm" using Suc.hyps(2) i by simp_all
    from Suc.hyps(1) [OF this] obtain slash where "scan_path pth (i + 1) m = Some (slash, - 1)"
      "slash = - 1 \<or> int (i + 1) \<le> slash \<and> nat slash < length nm \<and> nm ! nat slash = 0x2f" by blast
    then show ?thesis using c False \<open>nm ! i \<noteq> 0x3a\<close> by (subst scan_path.simps) auto
  qed
qed

definition rel_name :: "mem \<Rightarrow> nat \<Rightarrow> u8 list \<Rightarrow> bool" where
  "rel_name m pth nm \<longleftrightarrow> cstr m pth nm \<and> nm \<noteq> [] \<and> hd nm \<noteq> 0x2f \<and> 0x3a \<notin> set nm \<and> length nm \<le> SFS_MAX_FNAME_LEN"

lemma get_device_rel:
  assumes "rel_name m pth nm" "ftabs s fp = Some fs" "pwd fs = Some n" "on_node (inode_ref_inc n) s = Some (r, s1)"
  shows "get_device fp pth m s = Some (0, pth, Some n, m, s1)"
proof -
  from assms(1) have c: "cstr m pth nm" "0x3a \<notin> set nm" "nm \<noteq> []" "hd nm \<noteq> 0x2f" by (auto simp: rel_name_def)
  from scan_path_rel [OF c(1,2), of 0] obtain slash where s: "scan_path pth 0 m = Some (slash, - 1)"
    "slash = - 1 \<or> 0 \<le> slash \<and> nat slash < length nm \<and> nm ! nat slash = 0x2f" by auto
  have "slash \<noteq> 0" using s(2) c(3,4) by (auto simp: hd_conv_nth)
  then show ?thesis using s(1) assms(2-4) by (simp add: get_device_def vfs_get_curdir_def)
qed

text \<open>What a lookup of \<open>nm\<close> in the directory \<open>d\<close> promises; the result, if any, has been counted.\<close>

definition lookup_spec :: "vfs \<Rightarrow> disk_inode \<Rightarrow> u8 list \<Rightarrow> int \<Rightarrow> nat option \<Rightarrow> vfs \<Rightarrow> bool" where
  "lookup_spec v d nm ret r v' \<longleftrightarrow> (case r of
     None \<Rightarrow> ret = - E_NO_MEM \<and> short 3 v \<or> ret = - E_NOENT \<and> (\<forall>k. (k, nm) \<in> entries (sfs v) d \<longrightarrow> k = 0)
   | Some k \<Rightarrow> ret = 0 \<and> (\<exists>sk. sfs_info k v' = Some sk \<and> ino sk \<noteq> 0 \<and> (ino sk, nm) \<in> entries (sfs v) d))"

definition counted :: "nat option \<Rightarrow> (nat \<Rightarrow> nat) \<Rightarrow> (nat \<Rightarrow> nat)" where
  "counted r R = (case r of None \<Rightarrow> R | Some k \<Rightarrow> R(k := R k + 1))"

lemma apart_mallocs: "mallocs s' = mallocs s \<Longrightarrow> apart s' a k \<longleftrightarrow> apart s a k"
  by (simp add: apart_def kmalloc_def split: list.splits)

lemma vfs_lookup_ok:
  assumes k: "kfs_inv s D base H" and t: "ftabs s fp = Some fs" "pwd fs = Some n" "sfs_info n (nodes s) = Some sin" "itype (din sin) = SFS_TYPE_DIR"
    and nm: "rel_name m pth nm" "apart (nodes s) pth (length nm)" and b: "bound_refs (\<lambda>n. base n + refs s n) 3"
  shows "\<exists>ret r m' v. vfs_lookup fp pth m s = Some (ret, r, m', s\<lparr>nodes := v\<rparr>) \<and> same_data D (nodes s) v \<and> grows (nodes s) v \<and>
    lookup_spec (nodes s) (din sin) nm ret r v \<and> vfs_inv v D (counted r (\<lambda>n. base n + refs s n)) (opens s) \<and> devs_ok v base"
proof -
  let ?R = "\<lambda>n. base n + refs s n"
  let ?R1 = "?R(n := ?R n + 1)"
  from nm(1) have c: "cstr m pth nm" "nm \<noteq> []" "hd nm \<noteq> 0x2f" "length nm \<le> SFS_MAX_FNAME_LEN" by (auto simp: rel_name_def)
  have pos: "opens s n < ?R n" using pwd_refs [OF k t(1,2)] by simp
  have bn: "?R m + 3 < 0x10000" for m using b by (simp add: bound_refs_def)
  have "0 < ?R n" "?R n + 1 < 0x10000" using pos bn [of n] by linarith+
  from ref_inc_ok [OF kfs_invD(3) [OF k] this] obtain v1 where
    v1: "inode_ref_inc n (nodes s) = Some (int (?R n) + 1, v1)" "vfs_inv v1 D ?R1 (opens s)" "same_nodes (nodes s) v1"
      "sfs v1 = sfs (nodes s)" "mallocs v1 = mallocs (nodes s)" by blast
  have n1: "sfs_info n v1 = Some sin" using same_nodesD(1) [OF v1(3)] t(3) by simp
  have "?R1 m + 2 < 0x10000" for m using bn [of m] by (cases "m = n") auto
  then have "bound_refs ?R1 2" by (simp add: bound_refs_def)
  moreover have "apart v1 pth (length nm)" using nm(2) apart_mallocs [OF v1(5)] by simp
  ultimately obtain ret r m' v2 where l: "vop_lookup n pth m v1 = Some (ret, r, m', v2)" "same_data D v1 v2" "grows v1 v2"
    and lr: "case r of
       None \<Rightarrow> vfs_inv v2 D ?R1 (opens s) \<and> (ret = - E_NO_MEM \<and> short 3 v1 \<or> ret = - E_NOENT \<and> (\<forall>k. (k, nm) \<in> entries (sfs v1) (din sin) \<longrightarrow> k = 0))
     | Some k \<Rightarrow> ret = 0 \<and> vfs_inv v2 D (?R1(k := ?R1 k + 1)) (opens s) \<and>
         (\<exists>sk. sfs_info k v2 = Some sk \<and> ino sk \<noteq> 0 \<and> (ino sk, nm) \<in> entries (sfs v1) (din sin))"
    using lookup_dir_ok [OF v1(2) n1 t(4) c(1,4) _ c(2,3)] by blast
  have v2: "vfs_inv v2 D (counted r ?R1) (opens s)" using lr by (cases r) (simp_all add: counted_def)
  have R2: "?R n < counted r ?R1 n" "(counted r ?R1)(n := counted r ?R1 n - 1) = counted r ?R"
    by (auto simp: counted_def split: option.splits)
  have "opens s n < counted r ?R1 n" "1 < counted r ?R1 n" using pos R2(1) by linarith+
  from ref_dec_keeps [OF v2 this] obtain v3 where v3: "inode_ref_dec n v2 = Some (int (counted r ?R1 n) - 1, v3)"
    "vfs_inv v3 D (counted r ?R) (opens s)" "same_data D v2 v3" "same_nodes v2 v3" unfolding R2(2) by blast
  have first: "m pth \<noteq> 0" using c(1,2) by (cases nm) auto
  have gd: "get_device fp pth m s = Some (0, pth, Some n, m, s\<lparr>nodes := v1\<rparr>)"
    using get_device_rel [OF nm(1) t(1,2)] on_node_Some [of "inode_ref_inc n" s, OF v1(1)] by blast
  have "vfs_lookup fp pth m s = Some (ret, r, m', s\<lparr>nodes := v3\<rparr>)"
    using gd first l(1) v3(1) by (simp add: vfs_lookup_def on_node_def)
  moreover have "keys v1 = keys (nodes s)" "console v1 = console (nodes s)"
    using v1(1) by (auto simp: inode_ref_inc_def Option.bind_eq_Some_conv)
  then have "same_data D (nodes s) v1" using v1(4) by (simp add: same_data_def)
  then have "same_data D (nodes s) v3" using same_data_trans l(2) v3(3) by blast
  moreover have g: "grows (nodes s) v3" using same_nodes_shrinks v1(3) v3(4) grows_trans l(3) by blast
  moreover have ls: "lookup_spec (nodes s) (din sin) nm ret r v3"
    using lr v1(4) short_cong [OF v1(5)] same_nodesD(1) [OF v3(4)] by (cases r) (auto simp: lookup_spec_def)
  moreover have "devs_ok v3 base"
  proof (rule devs_ok_grows [OF kfs_invD(4) [OF k] kfs_invD(3) [OF k] v3(2) g])
    fix j assume "0 < counted r ?R j" "?R j = 0"
    then have "r = Some j" by (cases r) (auto simp: counted_def split: if_splits)
    then show "sfs_info j v3 \<noteq> None" using ls by (auto simp: lookup_spec_def)
  qed
  ultimately show ?thesis using v3(2) by blast
qed

subsection \<open>Opening\<close>

lemma kfs_inv_nodes:
  assumes "kfs_inv s D base H" "vfs_inv v D' (\<lambda>n. base n + refs s n) (opens s)" "devs_ok v base"
  shows "kfs_inv (s\<lparr>nodes := v\<rparr>) D' base H"
proof -
  have "refs (s\<lparr>nodes := v\<rparr>) = refs s" "opens (s\<lparr>nodes := v\<rparr>) = opens s" by (auto simp: refs_def opens_def)
  then show ?thesis using assms by (simp add: kfs_inv_def)
qed

lemma vfs_open_node_ok:
  assumes v: "vfs_inv (nodes s) D (R(k := R k + 1)) F" and F: "F k \<le> R k" and n: "sfs_info k (nodes s) = Some sk"
    and fl: "flags AND O_TRUNC = 0" "flags AND O_CREAT = 0"
  shows "\<exists>v. same_data D (nodes s) v \<and> shrinks (nodes s) v \<and>
    (vfs_open_node k flags s = Some (- E_ISDIR, None, s\<lparr>nodes := v\<rparr>) \<and> vfs_inv v D R F \<and> itype (din sk) = SFS_TYPE_DIR \<and> sfs_opendir flags = - E_ISDIR \<or>
     vfs_open_node k flags s = Some (0, Some k, s\<lparr>nodes := v\<rparr>) \<and> vfs_inv v D (R(k := R k + 1)) (F(k := F k + 1)) \<and> sfs_info k v = Some sk)"
proof -
  let ?R = "R(k := R k + 1)"
  from v obtain C B where i: "cache_ok (nodes s) D C B" "counts_ok (nodes s) ?R F" by (rule vfs_invE) blast
  obtain nd where nd: "inodes (nodes s) k = Some nd" "sfs_get_ops (itype (din sk)) = Some (in_ops nd)" using sfs_node [OF i(1) n] by metis
  have op: "vop_op VopOpen k (nodes s) = Some nd" using vop_op_ok [OF i(2) nd(1)] has_fsync [OF nd(2)] by blast
  have vo: "vop_open k flags (nodes s) = Some (if in_ops nd = SfsNodeDirops then sfs_opendir flags else 0)"
    using op has_fsync [OF nd(2)] by (cases "in_ops nd") (simp_all add: vop_open_def)
  have r: "?R(k := ?R k - 1) = R" by simp
  show ?thesis
  proof (cases "in_ops nd = SfsNodeDirops \<and> sfs_opendir flags \<noteq> 0")
    case True
    then have dir: "itype (din sk) = SFS_TYPE_DIR" "sfs_opendir flags = - E_ISDIR"
      using nd(2) by (auto simp: sfs_get_ops_def sfs_opendir_def split: if_splits)
    have "F k < ?R k" using F by simp
    from ref_dec_ok [OF v this] n obtain v' where v': "inode_ref_dec k (nodes s) = Some (int (?R k) - 1, v')"
      "vfs_inv v' D R F" "same_data D (nodes s) v'" "shrinks (nodes s) v'" unfolding r by auto
    have "vfs_open_node k flags s = Some (- E_ISDIR, None, s\<lparr>nodes := v'\<rparr>)"
      using vo True dir(2) v'(1) by (simp add: vfs_open_node_def on_node_def)
    then show ?thesis using v' dir by blast
  next
    case False
    then have ret: "vop_open k flags (nodes s) = Some 0" using vo by auto
    have "F k < ?R k" using F by simp
    from open_inc_ok [OF v this] obtain v' where v': "inode_open_inc k (nodes s) = Some (int (F k) + 1, v')"
      "vfs_inv v' D ?R (F(k := F k + 1))" "same_nodes (nodes s) v'" "sfs v' = sfs (nodes s)" by blast
    have "keys v' = keys (nodes s)" "console v' = console (nodes s)"
      using v'(1) by (auto simp: inode_open_inc_def Option.bind_eq_Some_conv)
    then have "same_data D (nodes s) v'" using v'(4) by (simp add: same_data_def)
    moreover have "vfs_open_node k flags s = Some (0, Some k, s\<lparr>nodes := v'\<rparr>)"
      using ret v'(1) fl by (simp add: vfs_open_node_def on_node_def)
    moreover have "shrinks (nodes s) v'" using same_nodes_shrinks [OF v'(3)] by simp
    ultimately show ?thesis using v' same_nodesD(1) [OF v'(3), of k] n by auto
  qed
qed

definition same_open :: "files_struct \<Rightarrow> files_struct \<Rightarrow> bool" where
  "same_open fs fs' \<longleftrightarrow> pwd fs' = pwd fs \<and> files_count fs' = files_count fs \<and> length (fd_array fs') = length (fd_array fs) \<and>
     (\<forall>j < length (fd_array fs). status (fd_array fs' ! j) = status (fd_array fs ! j) \<and>
        (status (fd_array fs ! j) \<noteq> FD_NONE \<longrightarrow> fd_array fs' ! j = fd_array fs ! j))"

definition opened_entry :: "nat \<Rightarrow> nat \<Rightarrow> u32 \<Rightarrow> nat \<Rightarrow> filp" where
  "opened_entry i k flags sz = (let mode = flags AND O_ACCMODE in
     \<lparr>status = FD_OPENED, readable = (mode = O_RDONLY \<or> mode = O_RDWR), writable = (mode = O_WRONLY \<or> mode = O_RDWR),
      fd = int i, pos = (if flags AND O_APPEND \<noteq> 0 then int sz else 0), node = Some k, fopen_count = 1\<rparr>)"

definition open_spec :: "(nat \<Rightarrow> disk_inode option) \<Rightarrow> files_struct \<Rightarrow> vfs \<Rightarrow> disk_inode \<Rightarrow> u8 list \<Rightarrow> u32 \<Rightarrow> int \<Rightarrow> files_struct \<Rightarrow> vfs \<Rightarrow> bool" where
  "open_spec D fs v d nm flags ret fs' v' \<longleftrightarrow>
     (\<exists>i k sk. ret = int i \<and> alloc_spec (fd_array fs) NO_FD 0 (Some i) \<and>
        sfs_info k v' = Some sk \<and> ino sk \<noteq> 0 \<and> (ino sk, nm) \<in> entries (sfs v) d \<and>
        fs' = fs\<lparr>fd_array := (fd_array fs)[i := opened_entry i k flags (isize (din sk))]\<rparr>) \<or>
     same_open fs fs' \<and> (ret = - E_MAX_OPEN \<and> alloc_spec (fd_array fs) NO_FD ret None \<or> ret = - E_NO_MEM \<and> short 3 v \<or>
        ret = - E_NOENT \<and> (\<forall>k. (k, nm) \<in> entries (sfs v) d \<longrightarrow> k = 0) \<or>
        ret = - E_ISDIR \<and> sfs_opendir flags = - E_ISDIR \<and>
          (\<exists>k dk. (k, nm) \<in> entries (sfs v) d \<and> D k = Some dk \<and> itype dk = SFS_TYPE_DIR))"

lemma sfs_gettype_ok:
  assumes "disk_file s i (din sin)"
  shows "sfs_gettype sin = Some (if itype (din sin) = SFS_TYPE_DIR then 0x2000 else 0x1000)"
  using disk_fileD(9) [OF assms] by (auto simp: sfs_gettype_def)

lemma vop_fstat_sfs:
  assumes v: "vfs_inv v D R F" and n: "sfs_info n v = Some sin"
  shows "vop_gettype n v = Some (if itype (din sin) = SFS_TYPE_DIR then 0x2000 else 0x1000)"
    "vop_fstat n v = Some \<lparr>st_mode = (if itype (din sin) = SFS_TYPE_DIR then 0x2000 else 0x1000), st_nlinks = nlinks (din sin),
       st_blocks = iblocks (din sin), st_size = isize (din sin)\<rparr>"
proof -
  from v obtain C B where i: "cache_ok v D C B" "counts_ok v R F" by (rule vfs_invE) blast
  obtain nd where nd: "inodes v n = Some nd" "in_info nd = SfsInodeInfo sin" "sfs_get_ops (itype (din sin)) = Some (in_ops nd)"
    using sfs_node [OF i(1) n] by metis
  have op: "vop_op VopGettype n v = Some nd" "vop_op VopFstat n v = Some nd" using vop_op_ok [OF i(2) nd(1)] has_fsync [OF nd(3)] by blast+
  note g = sfs_gettype_ok [OF vfs_inv_dir(2) [OF v n]]
  show t: "vop_gettype n v = Some (if itype (din sin) = SFS_TYPE_DIR then 0x2000 else 0x1000)"
    using op(1) nd(2) g by (simp add: vop_gettype_def)
  then show "vop_fstat n v = Some \<lparr>st_mode = (if itype (din sin) = SFS_TYPE_DIR then 0x2000 else 0x1000), st_nlinks = nlinks (din sin),
       st_blocks = iblocks (din sin), st_size = isize (din sin)\<rparr>"
    using op(2) nd(2) g by (simp add: vop_fstat_def sfs_fstat_def)
qed

lemma alloc_entry:
  assumes k: "kfs_inv s D base H" and t: "ftabs s fp = Some fs" and i: "i < FILES_STRUCT_NENTRY" "status (fd_array fs ! i) = FD_NONE"
  shows "ftabs (fd_allocd fp i s) = (ftabs s)(fp \<mapsto> fs\<lparr>fd_array := (fd_array fs)[i := (fd_array fs ! i)\<lparr>status := FD_INIT, node := None\<rparr>]\<rparr>)"
    "nodes (fd_allocd fp i s) = nodes s" "refs (fd_allocd fp i s) = refs s" "opens (fd_allocd fp i s) = opens s"
proof -
  show "ftabs (fd_allocd fp i s) = (ftabs s)(fp \<mapsto> fs\<lparr>fd_array := (fd_array fs)[i := (fd_array fs ! i)\<lparr>status := FD_INIT, node := None\<rparr>]\<rparr>)"
    "nodes (fd_allocd fp i s) = nodes s" using t by (simp_all add: fd_allocd_def upd_file_def)
  show "refs (fd_allocd fp i s) = refs s" "opens (fd_allocd fp i s) = opens s"
    using entry_sums [OF kfs_invD(1) [OF k] t entry_at(2) [OF k t i(1)], of "\<lambda>f. f\<lparr>status := FD_INIT, node := None\<rparr>"] i(2)
    by (auto simp: fd_allocd_def holds_def)
qed

lemma sfs_opendir_flags: "sfs_opendir flags = - E_ISDIR \<or> sfs_opendir flags = 0"
  by (simp add: sfs_opendir_def)

text \<open>A failed \<^verbatim>\<open>file_open\<close> frees the entry it allocated.\<close>

lemma open_fails:
  assumes k: "kfs_inv s D base H" and t: "ftabs s fp = Some fs" and i: "i < FILES_STRUCT_NENTRY" "status (fd_array fs ! i) = FD_NONE"
    and v: "vfs_inv v D (\<lambda>n. base n + refs s n) (opens s)" "devs_ok v base"
  shows "\<exists>s' fs'. fd_array_free fp i ((fd_allocd fp i s)\<lparr>nodes := v\<rparr>) = Some s' \<and> kfs_inv s' D base H \<and> nodes s' = v \<and>
    ftabs s' = (ftabs s)(fp \<mapsto> fs') \<and> same_open fs fs'"
proof -
  let ?s1 = "fd_allocd fp i s" and ?fa = "(fd_array fs)[i := (fd_array fs ! i)\<lparr>status := FD_INIT, node := None\<rparr>]"
  note a = alloc_entry [OF k t i]
  have k1: "kfs_inv (?s1\<lparr>nodes := v\<rparr>) D base H"
    by (rule kfs_inv_nodes [OF fd_found_ok(2) [OF k t i]]) (use v a in auto)
  have t1: "ftabs (?s1\<lparr>nodes := v\<rparr>) fp = Some (fs\<lparr>fd_array := ?fa\<rparr>)" using a by simp
  have len: "i < length (fd_array fs)" using entry_at(2) [OF k t i(1)] .
  have st: "status (fd_array (fs\<lparr>fd_array := ?fa\<rparr>) ! i) = FD_INIT" using len by simp
  note f = free_init_ok [OF k1 t1 i(1) st]
  let ?s' = "upd_file fp i (\<lambda>f. f\<lparr>status := FD_NONE\<rparr>) (?s1\<lparr>nodes := v\<rparr>)"
  let ?fs' = "fs\<lparr>fd_array := (fd_array fs)[i := (fd_array fs ! i)\<lparr>node := None, status := FD_NONE\<rparr>]\<rparr>"
  have "ftabs ?s' = (ftabs s)(fp \<mapsto> ?fs')" using a len by (simp add: upd_file_def)
  moreover have "same_open fs ?fs'" using i(2) len by (auto simp: same_open_def nth_list_update)
  ultimately show ?thesis using f by (intro exI [of _ ?s'] exI [of _ ?fs']) (simp add: upd_file_def)
qed

lemma file_open_ok:
  assumes k: "kfs_inv s D base H" and t: "ftabs s fp = Some fs" "0 < files_count fs"
    and p: "pwd fs = Some n" "sfs_info n (nodes s) = Some sin" "itype (din sin) = SFS_TYPE_DIR"
    and nm: "rel_name m pth nm" "apart (nodes s) pth (length nm)" and b: "bound_refs (\<lambda>n. base n + refs s n) 3"
    and fl: "flags AND O_ACCMODE \<noteq> 3" "flags AND O_TRUNC = 0" "flags AND O_CREAT = 0"
  shows "\<exists>ret m' s' fs'. file_open fp pth flags m s = Some (ret, m', s') \<and> kfs_inv s' D base H \<and> same_data D (nodes s) (nodes s') \<and>
    ftabs s' = (ftabs s)(fp \<mapsto> fs') \<and> open_spec D fs (nodes s) (din sin) nm flags ret fs' (nodes s')"
proof -
  let ?R = "\<lambda>n. base n + refs s n"
  from fd_alloc_ok [OF k t, of NO_FD] obtain ret r where al: "fd_array_alloc fp NO_FD s = Some (ret, r, case r of None \<Rightarrow> s | Some i \<Rightarrow> fd_allocd fp i s)"
    "alloc_spec (fd_array fs) NO_FD ret r" by blast
  show ?thesis
  proof (cases r)
    case None
    then have "ret = - E_MAX_OPEN" using al(2) by (simp add: alloc_spec_def)
    moreover have "same_open fs fs" by (simp add: same_open_def)
    ultimately have "open_spec D fs (nodes s) (din sin) nm flags ret fs (nodes s)" using al(2) None by (simp add: open_spec_def)
    moreover have "file_open fp pth flags m s = Some (ret, m, s)"
      using al(1) None fl(1) \<open>ret = _\<close> by (simp add: file_open_def)
    ultimately show ?thesis using k t by (intro exI [of _ ret] exI [of _ m] exI [of _ s] exI [of _ fs]) (auto simp: fun_upd_idem)
  next
    case (Some i)
    then have i: "i < FILES_STRUCT_NENTRY" "status (fd_array fs ! i) = FD_NONE" "ret = 0"
      using al(2) tab_okD(1) [OF kfs_invD(2) [OF k t(1)]] by (auto simp: alloc_spec_def)
    let ?s1 = "fd_allocd fp i s" and ?f0 = "(fd_array fs ! i)\<lparr>status := FD_INIT, node := None\<rparr>"
    let ?fs1 = "fs\<lparr>fd_array := (fd_array fs)[i := ?f0]\<rparr>"
    note a = alloc_entry [OF k t(1) i(1,2)] and k1 = fd_found_ok(2) [OF k t(1) i(1,2)]
    have t1: "ftabs ?s1 fp = Some ?fs1" "pwd ?fs1 = Some n" using a p(1) by simp_all
    have "sfs_info n (nodes ?s1) = Some sin" "apart (nodes ?s1) pth (length nm)" "bound_refs (\<lambda>n. base n + refs ?s1 n) 3"
      using p(2) nm(2) b a by simp_all
    from vfs_lookup_ok [OF k1 t1 this(1) p(3) nm(1) this(2,3)] obtain ret2 r2 m2 v where
      l: "vfs_lookup fp pth m ?s1 = Some (ret2, r2, m2, ?s1\<lparr>nodes := v\<rparr>)" "same_data D (nodes s) v" "grows (nodes s) v"
        "lookup_spec (nodes s) (din sin) nm ret2 r2 v" "vfs_inv v D (counted r2 ?R) (opens s)" "devs_ok v base"
      unfolding a(2-4) by blast
    have vo: "flags AND O_TRUNC \<noteq> 0 \<and> flags AND O_ACCMODE = O_RDONLY \<longleftrightarrow> False" using fl(2) by simp
    show ?thesis
    proof (cases r2)
      case None
      have ret2: "ret2 \<noteq> 0" "ret2 = - E_NO_MEM \<and> short 3 (nodes s) \<or> ret2 = - E_NOENT \<and> (\<forall>k. (k, nm) \<in> entries (sfs (nodes s)) (din sin) \<longrightarrow> k = 0)"
        using l(4) None by (auto simp: lookup_spec_def)
      have "vfs_inv v D ?R (opens s)" using l(5) None by (simp add: counted_def)
      from open_fails [OF k t(1) i(1,2) this l(6)] obtain s' fs' where s': "fd_array_free fp i (?s1\<lparr>nodes := v\<rparr>) = Some s'"
        "kfs_inv s' D base H" "nodes s' = v" "ftabs s' = (ftabs s)(fp \<mapsto> fs')" "same_open fs fs'" by blast
      have "vfs_open fp pth flags m ?s1 = Some (ret2, None, m2, ?s1\<lparr>nodes := v\<rparr>)"
        using l(1) ret2(1) fl by (simp add: vfs_open_def)
      then have "file_open fp pth flags m s = Some (ret2, m2, s')"
        using al(1) Some fl(1) i(3) ret2(1) s'(1) by (simp add: file_open_def)
      moreover have "open_spec D fs (nodes s) (din sin) nm flags ret2 fs' (nodes s')" using ret2(2) s'(5) by (auto simp: open_spec_def)
      ultimately show ?thesis using s' l(2) by blast
    next
      case r2: (Some j)
      have lv: "ret2 = 0" "vfs_inv v D (?R(j := ?R j + 1)) (opens s)" using l(4,5) r2 by (simp_all add: lookup_spec_def counted_def)
      from l(4) r2 obtain sk where sk: "sfs_info j v = Some sk" "ino sk \<noteq> 0" "(ino sk, nm) \<in> entries (sfs (nodes s)) (din sin)"
        by (auto simp: lookup_spec_def)
      let ?s2 = "?s1\<lparr>nodes := v\<rparr>"
      have "vfs_inv (nodes ?s2) D (?R(j := ?R j + 1)) (opens s)" "opens s j \<le> ?R j" "sfs_info j (nodes ?s2) = Some sk"
        using lv(2) opens_le_refs [of s j] sk(1) by simp_all
      from vfs_open_node_ok [OF this fl(2,3)] obtain v' where v': "same_data D v v'" "shrinks v v'"
        and cs: "vfs_open_node j flags ?s2 = Some (- E_ISDIR, None, ?s2\<lparr>nodes := v'\<rparr>) \<and> vfs_inv v' D ?R (opens s) \<and> sfs_opendir flags = - E_ISDIR \<and> itype (din sk) = SFS_TYPE_DIR \<or>
          vfs_open_node j flags ?s2 = Some (0, Some j, ?s2\<lparr>nodes := v'\<rparr>) \<and> vfs_inv v' D (?R(j := ?R j + 1)) ((opens s)(j := opens s j + 1)) \<and>
            sfs_info j v' = Some sk" by auto
      have d': "devs_ok v' base" using devs_ok_shrinks l(6) v'(2) by blast
      have sd: "same_data D (nodes s) v'" using same_data_trans l(2) v'(1) by blast
      have vfo: "vfs_open fp pth flags m ?s1 = map_option (\<lambda>(ret, r, s). (ret, r, m2, s)) (vfs_open_node j flags ?s2)"
        using l(1) lv(1) r2 fl by (cases "vfs_open_node j flags ?s2") (auto simp: vfs_open_def)
      from cs show ?thesis
      proof (elim disjE conjE)
        assume c: "vfs_open_node j flags ?s2 = Some (- E_ISDIR, None, ?s2\<lparr>nodes := v'\<rparr>)" "vfs_inv v' D ?R (opens s)" "sfs_opendir flags = - E_ISDIR"
          "itype (din sk) = SFS_TYPE_DIR"
        from open_fails [OF k t(1) i(1,2) c(2) d'] obtain s' fs' where s': "fd_array_free fp i (?s1\<lparr>nodes := v'\<rparr>) = Some s'"
          "kfs_inv s' D base H" "nodes s' = v'" "ftabs s' = (ftabs s)(fp \<mapsto> fs')" "same_open fs fs'" by blast
        have "file_open fp pth flags m s = Some (- E_ISDIR, m2, s')"
          using al(1) Some fl(1) i(3) vfo c(1) s'(1) by (simp add: file_open_def)
        moreover have "open_spec D fs (nodes s) (din sin) nm flags (- E_ISDIR) fs' (nodes s')"
          using c(3,4) s'(5) sk(3) vfs_inv_dir(1) [OF lv(2) sk(1)] by (auto simp: open_spec_def)
        ultimately show ?thesis using s' sd by blast
      next
        assume c: "vfs_open_node j flags ?s2 = Some (0, Some j, ?s2\<lparr>nodes := v'\<rparr>)"
          "vfs_inv v' D (?R(j := ?R j + 1)) ((opens s)(j := opens s j + 1))" "sfs_info j v' = Some sk"
        let ?p = "if flags AND O_APPEND \<noteq> 0 then int (isize (din sk)) else 0"
        let ?mode = "flags AND O_ACCMODE"
        let ?g = "\<lambda>f. f\<lparr>pos := ?p, node := Some j, readable := (?mode = O_RDONLY \<or> ?mode = O_RDWR), writable := (?mode = O_WRONLY \<or> ?mode = O_RDWR)\<rparr>"
        have len: "i < length (fd_array fs)" using entry_at(2) [OF k t(1) i(1)] .
        have st: "status (fd_array ?fs1 ! i) = FD_INIT" using len by simp
        from open_ok [where g = ?g and v = v' and n = j, OF k1 t1(1) i(1) st _ _ d'] c(2) a(3,4) obtain s' where
          s': "fd_array_open fp i (upd_file fp i ?g (?s1\<lparr>nodes := v'\<rparr>)) = Some s'" "kfs_inv s' D base H"
            "s' = upd_file fp i (\<lambda>f. (?g f)\<lparr>status := FD_OPENED, fopen_count := fopen_count f + 1\<rparr>) (?s1\<lparr>nodes := v'\<rparr>)" by auto
        have z: "fd (fd_array fs ! i) = int i" "fopen_count (fd_array fs ! i) = 0" using entry_okD(1,2) [OF entry_at(1) [OF k t(1) i(1)]] i(2) by auto
        have e: "(?g ?f0)\<lparr>status := FD_OPENED, fopen_count := fopen_count ?f0 + 1\<rparr> = opened_entry i j flags (isize (din sk))"
          using z by (cases "fd_array fs ! i") (simp add: opened_entry_def Let_def)
        let ?fs' = "fs\<lparr>fd_array := (fd_array fs)[i := opened_entry i j flags (isize (din sk))]\<rparr>"
        have tab: "ftabs s' = (ftabs s)(fp \<mapsto> ?fs')"
          unfolding s'(3) e [symmetric] using a(1) len by (simp add: upd_file_def)
        have fa: "file_at fp i s' = Some (opened_entry i j flags (isize (din sk)))" using tab len by (simp add: file_at_def)
        have "nodes s' = v'" unfolding s'(3) by (simp add: upd_file_def)
        have "file_open fp pth flags m s = Some (int i, m2, s')"
          using al(1) Some fl(1) i(3) vfo c(1) s'(1) fa vop_fstat_sfs(2) [OF c(2,3)]
          by (cases "flags AND O_APPEND = 0") (simp_all add: file_open_def opened_entry_def Let_def)
        moreover have "open_spec D fs (nodes s) (din sin) nm flags (int i) ?fs' v'"
          unfolding open_spec_def using al(2) Some i(3) sk c(3) by (intro disjI1 exI [of _ i] exI [of _ j] exI [of _ sk]) simp
        ultimately show ?thesis using s'(2) sd tab \<open>nodes s' = v'\<close> by blast
      qed
    qed
  qed
qed

end
