(* ===== verification/File_Io.thy ===== *)
theory File_Io
  imports File_Open Sfs_Theorems
begin

text \<open>
  Reading and writing through descriptors, and the other operations of file.c on an open entry.
\<close>

subsection \<open>Changes of an inode are marked\<close>

text \<open>A pointer or the size of an inode changes only together with its dirty flag.\<close>

definition marks :: "sfs_inode \<Rightarrow> sfs_inode \<Rightarrow> bool" where
  "marks a b \<longleftrightarrow> reclaim_count b = reclaim_count a \<and> (dirty a \<longrightarrow> dirty b) \<and>
     (dirty b \<or> direct (din b) = direct (din a) \<and> indirect (din b) = indirect (din a) \<and> isize (din b) = isize (din a))"

lemma marks_refl [simp]: "marks a a" by (simp add: marks_def)
lemma marks_trans: "marks a b \<Longrightarrow> marks b c \<Longrightarrow> marks a c" by (auto simp: marks_def)

lemma marks_load: "sfs_bmap_load_nolock sin i s = Some (ret, b, sin1, s1) \<Longrightarrow> marks sin sin1"
proof -
  have out: "bmap_out b a s = Some (ret, b1, c, s1) \<Longrightarrow> c = a" for b a s ret b1 c s1
    by (auto simp: bmap_out_def Option.bind_eq_Some_conv)
  have get: "sfs_bmap_get_nolock sin i c s = Some (ret, b, a, s1) \<Longrightarrow> marks sin a" for i c ret b a s1
    by (auto simp: sfs_bmap_get_nolock_def Let_def Option.bind_eq_Some_conv marks_def upd_din_def dest!: out split: if_splits)
  show "sfs_bmap_load_nolock sin i s = Some (ret, b, sin1, s1) \<Longrightarrow> marks sin sin1"
    by (auto simp: sfs_bmap_load_nolock_def Let_def Option.bind_eq_Some_conv upd_din_def dest!: get split: if_splits)
      (auto simp: marks_def)
qed

lemma marks_step: "sfs_io_step bop b sin m s = Some (ret, sin1, m1, s1) \<Longrightarrow> marks sin sin1"
  by (auto simp: sfs_io_step_def Option.bind_eq_Some_conv dest!: marks_load split: if_splits)

lemma marks_loop: "sfs_io_loop k w addr b e alen sin m s = Some (ret, alen', sin1, m1, s1) \<Longrightarrow> marks sin sin1"
proof (induction k arbitrary: addr b alen sin m s)
  case 0
  then show ?case by (auto simp: Let_def Option.bind_eq_Some_conv dest!: marks_step split: if_splits)
next
  case (Suc k)
  from Suc.prems obtain ret1 sin2 m2 s2 where st: "sfs_io_step (sfs_block_op w addr) b sin m s = Some (ret1, sin2, m2, s2)"
    by (auto simp: Option.bind_eq_Some_conv)
  show ?case
  proof (cases "ret1 = 0")
    case True
    then have "sfs_io_loop k w (addr + SFS_BLKSIZE) (b + 1) e (alen + SFS_BLKSIZE) sin2 m2 s2 = Some (ret, alen', sin1, m1, s1)"
      using Suc.prems st by simp
    then show ?thesis using Suc.IH marks_step [OF st] marks_trans by blast
  next
    case False
    then show ?thesis using Suc.prems st marks_step [OF st] by simp
  qed
qed

lemma marks_io: "sfs_io w sin iob m s = Some (ret, sin1, iob1, m1, s1) \<Longrightarrow> marks sin sin1"
proof -
  have body: "sfs_io_body w addr o0 e sin m s = Some (ret, alen, sin1, m1, s1) \<Longrightarrow> marks sin sin1" for w addr o0 e ret alen sin1 m1 s1
    by (auto simp: sfs_io_body_def Let_def Option.bind_eq_Some_conv dest!: marks_loop marks_step split: if_splits intro: marks_trans)
  have nolock: "sfs_io_nolock w addr off len sin m s = Some (ret, alen, sin1, m1, s1) \<Longrightarrow> marks sin sin1" for w addr off len ret alen sin1 m1 s1
  proof -
    assume "sfs_io_nolock w addr off len sin m s = Some (ret, alen, sin1, m1, s1)"
    then show "marks sin sin1"
      by (auto simp: sfs_io_nolock_def Let_def Option.bind_eq_Some_conv upd_din_def dest!: body split: if_splits) (auto simp: marks_def)
  qed
  show "sfs_io w sin iob m s = Some (ret, sin1, iob1, m1, s1) \<Longrightarrow> marks sin sin1"
    by (auto simp: sfs_io_def Option.bind_eq_Some_conv dest!: nolock)
qed

subsection \<open>Reading and writing a node\<close>

definition node_data :: "vfs \<Rightarrow> nat \<Rightarrow> u8 list option" where
  "node_data v n = map_option (contents (sfs v)) (sfs_info n v)"

definition regular :: "vfs \<Rightarrow> nat \<Rightarrow> bool" where
  "regular v n \<longleftrightarrow> (\<exists>sin. sfs_info n v = Some sin \<and> itype (din sin) = SFS_TYPE_FILE)"

lemma regular_inv:
  assumes "vfs_inv v D R F" "sfs_info n v = Some sin" "itype (din sin) = SFS_TYPE_FILE"
  shows "file_inv (sfs v) sin"
  using volD(1) [OF vfs_inv_dir(3) [OF assms(1,2)]] disk_fileD(1) [OF vfs_inv_dir(2) [OF assms(1,2)]]
    vfs_inv_dir(2) [OF assms(1,2)] assms(3) by (auto simp: file_inv_def disk_file_def)

lemma set_sin_info:
  assumes "sfs_info n s = Some sin"
  shows "sfs_info m (set_sin n sin1 (s\<lparr>sfs := t\<rparr>)) = (if m = n then Some sin1 else sfs_info m s)"
    "ino sin1 = ino sin \<Longrightarrow> shrinks s (set_sin n sin1 (s\<lparr>sfs := t\<rparr>)) \<and> grows s (set_sin n sin1 (s\<lparr>sfs := t\<rparr>))"
proof -
  from assms obtain nd where nd: "inodes s n = Some nd" "in_info nd = SfsInodeInfo sin" by (auto simp: sfs_info_Some)
  then show "sfs_info m (set_sin n sin1 (s\<lparr>sfs := t\<rparr>)) = (if m = n then Some sin1 else sfs_info m s)"
    by (simp add: sfs_info_def set_sin_def)
  show "ino sin1 = ino sin \<Longrightarrow> shrinks s (set_sin n sin1 (s\<lparr>sfs := t\<rparr>)) \<and> grows s (set_sin n sin1 (s\<lparr>sfs := t\<rparr>))"
    using nd by (auto simp: shrinks_def grows_def set_sin_def node_key_def)
qed

lemma sfs_op_node:
  assumes v: "vfs_inv s D R F" and n: "sfs_info n s = Some sin" and op: "has_op SfsNodeFileops op" and ty: "itype (din sin) = SFS_TYPE_FILE"
  shows "\<exists>nd. vop_op op n s = Some nd \<and> in_info nd = SfsInodeInfo sin \<and> in_ops nd = SfsNodeFileops"
proof -
  from v obtain C B where i: "cache_ok s D C B" "counts_ok s R F" by (rule vfs_invE) blast
  obtain nd where nd: "inodes s n = Some nd" "in_info nd = SfsInodeInfo sin" "sfs_get_ops (itype (din sin)) = Some (in_ops nd)"
    using sfs_node [OF i(1) n] by metis
  then have "in_ops nd = SfsNodeFileops" using ty by (simp add: sfs_get_ops_def)
  then show ?thesis using vop_op_ok [OF i(2) nd(1)] nd(2) op by auto
qed

lemma iobuf_used_skip: "alen \<le> len \<Longrightarrow> \<exists>iob'. (if alen \<noteq> 0 then iobuf_skip alen (iobuf_init base len o0) else Some (iobuf_init base len o0)) = Some iob' \<and>
    iobuf_used iob' = alen"
  by (auto simp: iobuf_skip_def iobuf_init_def iobuf_used_def)

lemma vop_write_ok:
  assumes v: "vfs_inv s D R F" and n: "sfs_info n s = Some sin" "itype (din sin) = SFS_TYPE_FILE"
    and o: "o0 \<le> isize (din sin)" "o0 + len \<le> MAX_BLOCKS * SFS_BLKSIZE"
  shows "\<exists>ret alen iob' sin' s'. vop_write n (iobuf_init base len o0) m s = Some (ret, iob', m, s') \<and> iobuf_used iob' = alen \<and>
    sfs_info n s' = Some sin' \<and> itype (din sin') = SFS_TYPE_FILE \<and> vfs_inv s' (D(ino sin \<mapsto> din sin')) R F \<and> shrinks s s' \<and> grows s s' \<and> alen \<le> len \<and>
    contents (sfs s') sin' = upd_bytes (contents (sfs s) sin) o0 (mem_bytes m base alen) \<and>
    (\<forall>j. j \<noteq> n \<longrightarrow> node_data s' j = node_data s j) \<and>
    (ret = 0 \<and> alen = len \<or> ret = - E_NO_MEM \<and> alen < len \<and> \<not> room (sfs s) (din sin) (blocks_for (o0 + len)))"
proof -
  from v obtain C B where i: "vol (sfs s) D" "cache_ok s D C B" "counts_ok s R F" "\<And>n. inodes s n \<noteq> None \<longleftrightarrow> 0 < R n"
    by (rule vfs_invE) blast
  have fi: "file_inv (sfs s) sin" using regular_inv [OF v n] .
  have D: "D (ino sin) = Some (din sin)" by (rule cache_okD(6) [OF i(2) n(1)])
  note df = disk_fileD [OF volD(2) [OF i(1) D]]
  from io_write_ok [OF fi o, of base m] obtain ret alen sin' t where
    w: "sfs_io_nolock True base (int o0) len sin m (sfs s) = Some (ret, alen, sin', m, t)"
      "file_step (sfs s) sin t sin'" "contents t sin' = upd_bytes (contents (sfs s) sin) o0 (mem_bytes m base alen)"
      "alen \<le> len"
      "ret = 0 \<and> alen = len \<or> ret = - E_NO_MEM \<and> alen < len \<and> \<not> room (sfs s) (din sin) (blocks_for (o0 + len))" by blast
  from iobuf_used_skip [OF w(4)] obtain iob' where iob':
    "(if alen \<noteq> 0 then iobuf_skip alen (iobuf_init base len o0) else Some (iobuf_init base len o0)) = Some iob'" "iobuf_used iob' = alen" by blast
  have io: "sfs_io True sin (iobuf_init base len o0) m (sfs s) = Some (ret, sin', iob', m, t)"
    using w(1) iob'(1) by (auto simp: sfs_io_def iobuf_init_def)
  note mk = marks_io [OF io]
  let ?s = "set_sin n sin' (s\<lparr>sfs := t\<rparr>)" and ?D = "D(ino sin \<mapsto> din sin')"
  from sfs_op_node [OF v n(1) _ n(2), of VopWrite] obtain nd where nd: "vop_op VopWrite n s = Some nd" "in_info nd = SfsInodeInfo sin"
    by (auto simp: has_op_def sfs_node_fileops_def)
  have r: "vop_write n (iobuf_init base len o0) m s = Some (ret, iob', m, ?s)" using nd io by (simp add: vop_write_def vop_io_def)
  from w(2) have fs: "fs_step (sfs s) (din sin) t (din sin')" "file_inv t sin'" "ino sin' = ino sin" "nlinks (din sin') = nlinks (din sin)"
    by (auto simp: file_step_def)
  have f': "itype (din sin') = SFS_TYPE_FILE" "iblocks (din sin') = blocks_for (isize (din sin'))" using fs(2) by (auto simp: file_inv_def)
  have "isize (din sin') = length (upd_bytes (contents (sfs s) sin) o0 (mem_bytes m base alen))"
    using w(3) by (metis contents_def diff_zero length_map length_upt)
  then have "isize (din sin') \<le> max (isize (din sin)) (o0 + alen)"
    using o(1) by (simp add: upd_bytes_def contents_def mem_bytes_def)
  then have sz: "isize (din sin') < 2 ^ 32" using df(8) o(2) w(4) by (simp add: max_blocks_bytes)
  have ty: "itype (din sin') = itype (din sin)" using f'(1) n(2) by simp
  note vs = vol_step [OF i(1) D n(2) fs(1) ty fs(4) f'(2) sz]
  have od: "on_disk t (ino sin) = din sin'" if "\<not> dirty sin'"
  proof -
    have m: "direct (din sin') = direct (din sin)" "indirect (din sin') = indirect (din sin)" "isize (din sin') = isize (din sin)" "\<not> dirty sin"
      using mk that by (auto simp: marks_def)
    have "iblocks (din sin') = iblocks (din sin)" using f'(2) fi m(3) by (simp add: file_inv_def)
    then have "din sin' = din sin" using m ty fs(4) by (cases "din sin"; cases "din sin'") simp
    then show ?thesis using vs(2) [OF D] cache_okD(8) [OF i(2) n(1) m(4)] by simp
  qed
  have c: "cache_ok ?s ?D C B"
    by (rule cache_set_sin [OF i(2) n(1) fs(3) _ ty refl]) (use od vs(2) mk cache_okD(7) [OF i(2) n(1)] in \<open>auto simp: marks_def\<close>)
  have k: "counts_ok ?s R F"
    by (rule counts_cong [OF i(3)]) (auto simp: set_sin_def option.map_comp comp_def)
  have "sfs ?s = t" by (simp add: set_sin_def)
  then have "vfs_inv ?s ?D R F"
    using vs(1) c k i(4) by (intro vfs_invI) (auto simp: set_sin_def split: if_splits)
  moreover have "node_data ?s j = node_data s j" if "j \<noteq> n" for j
  proof (cases "sfs_info j s")
    case (Some sj)
    have "ino sj \<noteq> ino sin" using cache_okD(5) [OF i(2) Some n(1)] that by auto
    then have "fc t (din sj) = fc (sfs s) (din sj)" using vs(3) cache_okD(6) [OF i(2) Some] by blast
    then show ?thesis using set_sin_info(1) [OF n(1)] that Some \<open>sfs ?s = t\<close> by (simp add: node_data_def contents_def)
  next
    case None
    then show ?thesis using set_sin_info(1) [OF n(1)] that by (simp add: node_data_def)
  qed
  moreover have "sfs_info n ?s = Some sin'" "shrinks s ?s" "grows s ?s" using set_sin_info [OF n(1)] fs(3) by simp_all
  ultimately show ?thesis
    using r iob'(2) w(3-5) f'(1) \<open>sfs ?s = t\<close> by (intro exI [of _ ret] exI [of _ alen] exI [of _ iob'] exI [of _ sin'] exI [of _ ?s]) auto
qed


lemma vop_read_ok:
  assumes v: "vfs_inv s D R F" and n: "sfs_info n s = Some sin" "itype (din sin) = SFS_TYPE_FILE"
    and o: "o0 + len < 2 ^ 63" "o0 < SFS_MAX_FILE_SIZE"
  shows "\<exists>iob' s'. vop_read n (iobuf_init base len o0) m s =
      Some (0, iob', blit base (min len (isize (din sin) - o0)) (\<lambda>i. contents (sfs s) sin ! (o0 + i)) m, s') \<and>
    iobuf_used iob' = min len (isize (din sin) - o0) \<and> vfs_inv s' D R F \<and> same_data D s s' \<and> same_nodes s s'"
proof -
  let ?alen = "min len (isize (din sin) - o0)"
  from v obtain C B where i: "vol (sfs s) D" "cache_ok s D C B" "counts_ok s R F" by (rule vfs_invE) blast
  have fi: "file_inv (sfs s) sin" using regular_inv [OF v n] .
  have "isize (din sin) \<le> iblocks (din sin) * SFS_BLKSIZE" using blocks_for_bounds(1) [of "isize (din sin)"] fi by (simp add: file_inv_def)
  also have "\<dots> \<le> MAX_BLOCKS * SFS_BLKSIZE" using file_okD(2) [of "sfs s" "din sin"] fi by (simp add: file_inv_def)
  finally have "isize (din sin) \<le> SFS_MAX_FILE_SIZE" by (simp add: max_blocks_bytes max_file_size)
  from io_read_ok [OF fi o this, of base m] obtain t where
    t: "sfs_io_nolock False base (int o0) len sin m (sfs s) =
        Some (0, ?alen, sin, blit base ?alen (\<lambda>i. contents (sfs s) sin ! (o0 + i)) m, t)" "goes (sfs s) t (free_blocks (sfs s)) (img (sfs s))"
    by blast
  have "?alen \<le> len" by simp
  from iobuf_used_skip [OF this] obtain iob' where iob':
    "(if ?alen \<noteq> 0 then iobuf_skip ?alen (iobuf_init base len o0) else Some (iobuf_init base len o0)) = Some iob'" "iobuf_used iob' = ?alen" by blast
  have io: "sfs_io False sin (iobuf_init base len o0) m (sfs s) =
      Some (0, sin, iob', blit base ?alen (\<lambda>i. contents (sfs s) sin ! (o0 + i)) m, t)"
    using t(1) iob'(1) by (simp add: sfs_io_def) (simp add: iobuf_init_def)
  from sfs_op_node [OF v n(1) _ n(2), of VopRead] obtain nd where nd: "vop_op VopRead n s = Some nd" "in_info nd = SfsInodeInfo sin"
    by (auto simp: has_op_def sfs_node_fileops_def)
  have "sfs_info n (s\<lparr>sfs := t\<rparr>) = Some sin" using n(1) by (simp add: sfs_info_def)
  then have same: "set_sin n sin (s\<lparr>sfs := t\<rparr>) = s\<lparr>sfs := t\<rparr>" by (rule set_sin_same)
  have "vop_read n (iobuf_init base len o0) m s = Some (0, iob', blit base ?alen (\<lambda>i. contents (sfs s) sin ! (o0 + i)) m, s\<lparr>sfs := t\<rparr>)"
    using nd io same by (simp add: vop_read_def vop_io_def)
  moreover have "same_nodes s (s\<lparr>sfs := t\<rparr>)" by (simp add: same_nodes_def)
  ultimately show ?thesis using iob'(2) vfs_inv_sfs [OF v t(2)] by blast
qed

subsection \<open>Descriptors\<close>

lemma fd2file_open:
  assumes k: "kfs_inv s D base H" and t: "ftabs s fp = Some fs" "0 < files_count fs" and i: "i < FILES_STRUCT_NENTRY"
  shows "fd2file fp (int i) s = Some (if status (fd_array fs ! i) = FD_OPENED then Some i else None)"
  using t i entry_okD(1) [OF entry_at(1) [OF k t(1) i]] by (simp add: fd2file_def testfd_def get_fd_array_def)

lemma fd2file_bad: "\<not> testfd n \<Longrightarrow> fd2file fp n s = Some None"
  by (simp add: fd2file_def)

text \<open>An operation on the node between \<^verbatim>\<open>fd_array_acquire\<close> and \<^verbatim>\<open>fd_array_release\<close>.\<close>

definition set_pos :: "int \<Rightarrow> filp \<Rightarrow> filp" where
  "set_pos p f = f\<lparr>pos := p\<rparr>"

lemma set_pos_simps [simp]: "status (set_pos p f) = status f" "node (set_pos p f) = node f" "fd (set_pos p f) = fd f"
  "fopen_count (set_pos p f) = fopen_count f" "readable (set_pos p f) = readable f" "writable (set_pos p f) = writable f" "pos (set_pos p f) = p"
  by (simp_all add: set_pos_def)

lemma set_pos_id: "set_pos (pos f) f = f"
  by (simp add: set_pos_def)

lemma upd_file_same:
  assumes "ftabs s fp = Some fs" "i < length (fd_array fs)" "g (fd_array fs ! i) = fd_array fs ! i"
  shows "upd_file fp i g s = s"
proof -
  have "(ftabs s)(fp \<mapsto> fs) = ftabs s" using assms(1) by auto
  then show ?thesis using assms by (simp add: upd_file_def)
qed

lemma during_open:
  assumes k: "kfs_inv s D base H" and t: "ftabs s fp = Some fs" and i: "i < FILES_STRUCT_NENTRY" "status (fd_array fs ! i) = FD_OPENED"
    and v: "vfs_inv v D' (\<lambda>n. base n + refs s n) (opens s)" "devs_ok v base"
  shows "\<exists>s1. fd_array_acquire fp i s = Some s1 \<and> nodes s1 = nodes s \<and>
    file_at fp i s1 = Some ((fd_array fs ! i)\<lparr>fopen_count := fopen_count (fd_array fs ! i) + 1\<rparr>) \<and>
    file_at fp i (s1\<lparr>nodes := v\<rparr>) = Some ((fd_array fs ! i)\<lparr>fopen_count := fopen_count (fd_array fs ! i) + 1\<rparr>) \<and>
    fd_array_release fp i (upd_file fp i (set_pos p) (s1\<lparr>nodes := v\<rparr>)) = Some (upd_file fp i (set_pos p) (s\<lparr>nodes := v\<rparr>)) \<and>
    fd_array_release fp i (s1\<lparr>nodes := v\<rparr>) = Some (s\<lparr>nodes := v\<rparr>) \<and>
    kfs_inv (upd_file fp i (set_pos p) (s\<lparr>nodes := v\<rparr>)) D' base H \<and> kfs_inv (s\<lparr>nodes := v\<rparr>) D' base H"
proof -
  note e = entry_at [OF k t i(1)]
  let ?f = "fd_array fs ! i" and ?inc = "\<lambda>f. f\<lparr>fopen_count := fopen_count f + 1\<rparr>"
  have c: "fopen_count ?f > 0" using entry_okD(3) [OF e(1) i(2)] by simp
  have k': "kfs_inv (s\<lparr>nodes := v\<rparr>) D' base H" by (rule kfs_inv_nodes [OF k v])
  have t': "ftabs (s\<lparr>nodes := v\<rparr>) fp = Some fs" using t by simp
  have "kfs_inv (upd_file fp i (set_pos p) (s\<lparr>nodes := v\<rparr>)) D' base (H(fp := (H fp)(i := H fp i)))"
    by (rule entry_step_same [OF k' t' i(1)]) (use e(1) i(2) in \<open>auto simp: entry_ok_def holds_def\<close>)
  then have kp: "kfs_inv (upd_file fp i (set_pos p) (s\<lparr>nodes := v\<rparr>)) D' base H" by simp
  let ?s1 = "upd_file fp i ?inc s" and ?dec = "\<lambda>f. f\<lparr>fopen_count := fopen_count f - 1\<rparr>"
  have acq: "fd_array_acquire fp i s = Some ?s1" using e(3) i(2) by (simp add: fd_array_acquire_def)
  have back1: "?dec (?inc f) = f" for f by (cases f) simp
  have back2: "(set_pos p (f\<lparr>fopen_count := x\<rparr>))\<lparr>fopen_count := fopen_count f\<rparr> = set_pos p f" for f x by (cases f) (simp add: set_pos_def)
  have id: "(ftabs s)(fp \<mapsto> fs) = ftabs s" using t by auto
  have "upd_file fp i ?dec (upd_file fp i (set_pos p) (?s1\<lparr>nodes := v\<rparr>)) = upd_file fp i (set_pos p) (s\<lparr>nodes := v\<rparr>)"
    using t e(2) by (simp add: upd_file_def back2)
  moreover have "file_at fp i (upd_file fp i (set_pos p) (?s1\<lparr>nodes := v\<rparr>)) = Some (set_pos p (?inc ?f))"
    using t e(2) by (simp add: upd_file_def file_at_def)
  ultimately have rel2: "fd_array_release fp i (upd_file fp i (set_pos p) (?s1\<lparr>nodes := v\<rparr>)) = Some (upd_file fp i (set_pos p) (s\<lparr>nodes := v\<rparr>))"
    using i(2) c by (simp add: fd_array_release_def)
  have "upd_file fp i ?dec (?s1\<lparr>nodes := v\<rparr>) = s\<lparr>nodes := v\<rparr>"
    using t e(2) back1 [of ?f] id by (simp add: upd_file_def)
  moreover have at: "file_at fp i ?s1 = Some (?inc ?f)" "file_at fp i (?s1\<lparr>nodes := v\<rparr>) = Some (?inc ?f)"
    using t e(2) by (simp_all add: upd_file_def file_at_def)
  ultimately have rel1: "fd_array_release fp i (?s1\<lparr>nodes := v\<rparr>) = Some (s\<lparr>nodes := v\<rparr>)"
    using i(2) c by (simp add: fd_array_release_def)
  have "nodes ?s1 = nodes s" by (simp add: upd_file_def)
  with acq rel1 rel2 at kp k' show ?thesis by blast
qed

lemma upd_file_cong:
  assumes "file_at fp i s = Some f" "g f = h f"
  shows "upd_file fp i g s = upd_file fp i h s"
  using assms by (cases "ftabs s fp") (auto simp: file_at_def upd_file_def c_assert_def split: if_splits)

text \<open>The position is advanced by what was transferred.\<close>

lemma upd_pos:
  assumes "file_at fp i s = Some f" "pos f = int o0"
  shows "upd_file fp i (\<lambda>f. f\<lparr>pos := pos f + int c\<rparr>) s = upd_file fp i (set_pos (int (o0 + c))) s"
  by (rule upd_file_cong [OF assms(1)]) (simp add: set_pos_def assms(2))

lemma file_write_ok:
  assumes k: "kfs_inv s D base H" and t: "ftabs s fp = Some fs" "0 < files_count fs"
    and i: "i < FILES_STRUCT_NENTRY" "status (fd_array fs ! i) = FD_OPENED" "writable (fd_array fs ! i)" "node (fd_array fs ! i) = Some n"
    and n: "sfs_info n (nodes s) = Some sin" "itype (din sin) = SFS_TYPE_FILE"
    and o: "pos (fd_array fs ! i) = int o0" "o0 \<le> isize (din sin)" "o0 + len \<le> MAX_BLOCKS * SFS_BLKSIZE"
  shows "\<exists>ret c v sin'. file_write fp (int i) buf len m s = Some (ret, c, m, upd_file fp i (set_pos (int (o0 + c))) (s\<lparr>nodes := v\<rparr>)) \<and>
    kfs_inv (upd_file fp i (set_pos (int (o0 + c))) (s\<lparr>nodes := v\<rparr>)) (D(ino sin \<mapsto> din sin')) base H \<and> c \<le> len \<and> sfs_info n v = Some sin' \<and> itype (din sin') = SFS_TYPE_FILE \<and>
    node_data v n = Some (upd_bytes (contents (sfs (nodes s)) sin) o0 (mem_bytes m buf c)) \<and>
    (\<forall>j. j \<noteq> n \<longrightarrow> node_data v j = node_data (nodes s) j) \<and> grows (nodes s) v \<and>
    (ret = 0 \<and> c = len \<or> ret = - E_NO_MEM \<and> c < len \<and> \<not> room (sfs (nodes s)) (din sin) (blocks_for (o0 + len)))"
proof -
  from vop_write_ok [OF kfs_invD(3) [OF k] n o(2,3), of buf m] obtain ret c iob' sin' v where
    w: "vop_write n (iobuf_init buf len o0) m (nodes s) = Some (ret, iob', m, v)" "iobuf_used iob' = c" "sfs_info n v = Some sin'" "itype (din sin') = SFS_TYPE_FILE"
      "vfs_inv v (D(ino sin \<mapsto> din sin')) (\<lambda>n. base n + refs s n) (opens s)" "shrinks (nodes s) v" "c \<le> len"
      "contents (sfs v) sin' = upd_bytes (contents (sfs (nodes s)) sin) o0 (mem_bytes m buf c)"
      "\<And>j. j \<noteq> n \<Longrightarrow> node_data v j = node_data (nodes s) j" "grows (nodes s) v"
      "ret = 0 \<and> c = len \<or> ret = - E_NO_MEM \<and> c < len \<and> \<not> room (sfs (nodes s)) (din sin) (blocks_for (o0 + len))" by blast
  from during_open [OF k t(1) i(1,2) w(5) devs_ok_shrinks [OF kfs_invD(4) [OF k] w(6)], of "int (o0 + c)"] obtain s1 where
    s1: "fd_array_acquire fp i s = Some s1" "nodes s1 = nodes s"
      "file_at fp i (s1\<lparr>nodes := v\<rparr>) = Some ((fd_array fs ! i)\<lparr>fopen_count := fopen_count (fd_array fs ! i) + 1\<rparr>)"
      "fd_array_release fp i (upd_file fp i (set_pos (int (o0 + c))) (s1\<lparr>nodes := v\<rparr>)) =
        Some (upd_file fp i (set_pos (int (o0 + c))) (s\<lparr>nodes := v\<rparr>))"
      "kfs_inv (upd_file fp i (set_pos (int (o0 + c))) (s\<lparr>nodes := v\<rparr>)) (D(ino sin \<mapsto> din sin')) base H" by blast
  have up: "upd_file fp i (\<lambda>f. f\<lparr>pos := pos f + int c\<rparr>) (s1\<lparr>nodes := v\<rparr>) = upd_file fp i (set_pos (int (o0 + c))) (s1\<lparr>nodes := v\<rparr>)"
    by (rule upd_pos [OF s1(3)]) (simp add: o(1))
  have "file_write fp (int i) buf len m s = Some (ret, c, m, upd_file fp i (set_pos (int (o0 + c))) (s\<lparr>nodes := v\<rparr>))"
    using fd2file_open [OF k t i(1)] entry_at(3) [OF k t(1) i(1)] i s1 w(1,2) o(1)
    by (simp add: file_write_def file_io_def Let_def up del: of_nat_add)
  moreover have "node_data v n = Some (upd_bytes (contents (sfs (nodes s)) sin) o0 (mem_bytes m buf c))"
    using w(3,8) by (simp add: node_data_def)
  ultimately show ?thesis using s1(5) w by blast
qed

lemma file_read_ok:
  assumes k: "kfs_inv s D base H" and t: "ftabs s fp = Some fs" "0 < files_count fs"
    and i: "i < FILES_STRUCT_NENTRY" "status (fd_array fs ! i) = FD_OPENED" "readable (fd_array fs ! i)" "node (fd_array fs ! i) = Some n"
    and n: "sfs_info n (nodes s) = Some sin" "itype (din sin) = SFS_TYPE_FILE"
    and o: "pos (fd_array fs ! i) = int o0" "o0 + len < 2 ^ 63" "o0 < SFS_MAX_FILE_SIZE"
  defines "c \<equiv> min len (isize (din sin) - o0)"
  shows "\<exists>v. file_read fp (int i) buf len m s =
      Some (0, c, blit buf c (\<lambda>j. contents (sfs (nodes s)) sin ! (o0 + j)) m, upd_file fp i (set_pos (int (o0 + c))) (s\<lparr>nodes := v\<rparr>)) \<and>
    kfs_inv (upd_file fp i (set_pos (int (o0 + c))) (s\<lparr>nodes := v\<rparr>)) D base H \<and> same_data D (nodes s) v \<and> same_nodes (nodes s) v"
proof -
  from vop_read_ok [OF kfs_invD(3) [OF k] n o(2,3), of buf m, folded c_def] obtain iob' v where
    w: "vop_read n (iobuf_init buf len o0) m (nodes s) = Some (0, iob', blit buf c (\<lambda>i. contents (sfs (nodes s)) sin ! (o0 + i)) m, v)"
      "iobuf_used iob' = c" "vfs_inv v D (\<lambda>n. base n + refs s n) (opens s)" "same_data D (nodes s) v" "same_nodes (nodes s) v" by blast
  from during_open [OF k t(1) i(1,2) w(3) devs_ok_nodes [OF kfs_invD(4) [OF k] w(5)], of "int (o0 + c)"] obtain s1 where
    s1: "fd_array_acquire fp i s = Some s1" "nodes s1 = nodes s"
      "file_at fp i (s1\<lparr>nodes := v\<rparr>) = Some ((fd_array fs ! i)\<lparr>fopen_count := fopen_count (fd_array fs ! i) + 1\<rparr>)"
      "fd_array_release fp i (upd_file fp i (set_pos (int (o0 + c))) (s1\<lparr>nodes := v\<rparr>)) =
        Some (upd_file fp i (set_pos (int (o0 + c))) (s\<lparr>nodes := v\<rparr>))"
      "kfs_inv (upd_file fp i (set_pos (int (o0 + c))) (s\<lparr>nodes := v\<rparr>)) D base H" by blast
  have up: "upd_file fp i (\<lambda>f. f\<lparr>pos := pos f + int c\<rparr>) (s1\<lparr>nodes := v\<rparr>) = upd_file fp i (set_pos (int (o0 + c))) (s1\<lparr>nodes := v\<rparr>)"
    by (rule upd_pos [OF s1(3)]) (simp add: o(1))
  have "file_read fp (int i) buf len m s =
      Some (0, c, blit buf c (\<lambda>j. contents (sfs (nodes s)) sin ! (o0 + j)) m, upd_file fp i (set_pos (int (o0 + c))) (s\<lparr>nodes := v\<rparr>))"
    using fd2file_open [OF k t i(1)] entry_at(3) [OF k t(1) i(1)] i s1 w(1,2) o(1)
    by (simp add: file_read_def file_io_def Let_def up del: of_nat_add)
  then show ?thesis using s1(5) w by blast
qed

text \<open>Closing, duplicating, asking and writing back.\<close>

lemma file_close_ok:
  assumes k: "kfs_inv s D base H" and t: "ftabs s fp = Some fs" "0 < files_count fs"
    and i: "i < FILES_STRUCT_NENTRY" "status (fd_array fs ! i) = FD_OPENED"
  shows "\<exists>s'. file_close fp (int i) s = Some (0, s') \<and> kfs_inv s' D base H \<and> same_data D (nodes s) (nodes s') \<and>
    (\<exists>f. ftabs s' = (ftabs s)(fp \<mapsto> fs\<lparr>fd_array := (fd_array fs)[i := f]\<rparr>) \<and> status f = (if H fp i = 0 then FD_NONE else FD_CLOSED))"
proof -
  from close_ok [OF k t(1) i] obtain s' where "fd_array_close fp i s = Some s'" "kfs_inv s' D base H" "same_data D (nodes s) (nodes s')"
    "\<exists>f. ftabs s' = (ftabs s)(fp \<mapsto> fs\<lparr>fd_array := (fd_array fs)[i := f]\<rparr>) \<and> status f = (if H fp i = 0 then FD_NONE else FD_CLOSED)" by blast
  then show ?thesis using fd2file_open [OF k t i(1)] i(2) by (simp add: file_close_def)
qed

lemma file_fsync_ok:
  assumes k: "kfs_inv s D base H" and t: "ftabs s fp = Some fs" "0 < files_count fs"
    and i: "i < FILES_STRUCT_NENTRY" "status (fd_array fs ! i) = FD_OPENED" "node (fd_array fs ! i) = Some n"
    and n: "sfs_info n (nodes s) = Some sin"
  shows "\<exists>v. file_fsync fp (int i) s = Some (0, s\<lparr>nodes := v\<rparr>) \<and> kfs_inv (s\<lparr>nodes := v\<rparr>) D base H \<and> same_data D (nodes s) v \<and>
    on_disk (sfs v) (ino sin) = din sin"
proof -
  let ?R = "\<lambda>n. base n + refs s n"
  from kfs_invD(3) [OF k] obtain C B where v: "vol (sfs (nodes s)) D" "cache_ok (nodes s) D C B" "counts_ok (nodes s) ?R (opens s)"
    "\<And>n. inodes (nodes s) n \<noteq> None \<longleftrightarrow> 0 < ?R n" by (rule vfs_invE) blast
  from fsync_node [OF v(1-3) n] obtain v' where v': "vop_fsync n (nodes s) = Some (0, v')" "vol (sfs v') D" "cache_ok v' D C B"
    "counts_ok v' ?R (opens s)" "same_data D (nodes s) v'"
    and im: "\<And>m. inodes v' m = (if m = n then map_option (\<lambda>nd. nd\<lparr>in_info := SfsInodeInfo (sin\<lparr>dirty := False\<rparr>)\<rparr>) (inodes (nodes s) m) else inodes (nodes s) m)"
    by blast
  from n obtain nd where nd: "inodes (nodes s) n = Some nd" "in_info nd = SfsInodeInfo sin" by (auto simp: sfs_info_Some)
  have n': "sfs_info n v' = Some (sin\<lparr>dirty := False\<rparr>)" using im [of n] nd by (simp add: sfs_info_def)
  have "shrinks (nodes s) v'" unfolding shrinks_def using im nd by (auto simp: node_key_def)
  then have d: "devs_ok v' base" using devs_ok_shrinks [OF kfs_invD(4) [OF k]] by blast
  have "vfs_inv v' D ?R (opens s)"
  proof (rule vfs_invI [OF v'(2-4)])
    fix m assume "inodes v' m \<noteq> None"
    then have "inodes (nodes s) m \<noteq> None" using im [of m] by (auto split: if_splits)
    then show "0 < ?R m" using v(4) [of m] by simp
  qed
  from during_open [OF k t(1) i(1,2) this d, of 0] obtain s1 where s1: "fd_array_acquire fp i s = Some s1" "nodes s1 = nodes s"
    "file_at fp i s1 = Some ((fd_array fs ! i)\<lparr>fopen_count := fopen_count (fd_array fs ! i) + 1\<rparr>)"
    "fd_array_release fp i (s1\<lparr>nodes := v'\<rparr>) = Some (s\<lparr>nodes := v'\<rparr>)" "kfs_inv (s\<lparr>nodes := v'\<rparr>) D base H" by blast
  have "file_fsync fp (int i) s = Some (0, s\<lparr>nodes := v'\<rparr>)"
    using fd2file_open [OF k t i(1)] i s1 v'(1) by (simp add: file_fsync_def on_node_def)
  then show ?thesis using s1(5) v'(5) cache_okD(8) [OF v'(3) n'] by (intro exI [of _ v']) simp
qed

lemma file_dup_ok:
  assumes k: "kfs_inv s D base H" and t: "ftabs s fp = Some fs" "0 < files_count fs"
    and i: "i < FILES_STRUCT_NENTRY" "status (fd_array fs ! i) = FD_OPENED" and b: "\<And>n. base n + refs s n + 1 < 0x10000"
  shows "\<exists>ret r s'. file_dup fp (int i) fd2 s = Some (ret, s') \<and> kfs_inv s' D base H \<and> sfs (nodes s') = sfs (nodes s) \<and>
    (case r of None \<Rightarrow> s' = s \<and> alloc_spec (fd_array fs) fd2 ret None
     | Some j \<Rightarrow> ret = int j \<and> alloc_spec (fd_array fs) fd2 0 (Some j) \<and>
         ftabs s' = (ftabs s)(fp \<mapsto> fs\<lparr>fd_array := (fd_array fs)[j := dup_entry (fd_array fs ! i) (fd_array fs ! j)]\<rparr>))"
proof -
  have f2: "fd2file fp (int i) s = Some (Some i)" using fd2file_open [OF k t i(1)] i(2) by simp
  from fd_alloc_ok [OF k t, of fd2] obtain ret r where al: "fd_array_alloc fp fd2 s = Some (ret, r, case r of None \<Rightarrow> s | Some i \<Rightarrow> fd_allocd fp i s)"
    "alloc_spec (fd_array fs) fd2 ret r" by blast
  show ?thesis
  proof (cases r)
    case None
    then show ?thesis using f2 al k by (intro exI [of _ ret] exI [of _ "None :: nat option"] exI [of _ s]) (simp add: file_dup_def)
  next
    case (Some j)
    then have j: "j < FILES_STRUCT_NENTRY" "status (fd_array fs ! j) = FD_NONE" "ret = 0"
      using al(2) tab_okD(1) [OF kfs_invD(2) [OF k t(1)]] by (auto simp: alloc_spec_def)
    have ij: "i \<noteq> j" using i(2) j(2) by auto
    note a = alloc_entry [OF k t(1) j(1,2)] and k1 = fd_found_ok(2) [OF k t(1) j(1,2)] and len = entry_at(2) [OF k t(1) j(1)]
    let ?fs1 = "fs\<lparr>fd_array := (fd_array fs)[j := (fd_array fs ! j)\<lparr>status := FD_INIT, node := None\<rparr>]\<rparr>" and ?s1 = "fd_allocd fp j s"
    have t1: "ftabs ?s1 fp = Some ?fs1" using a(1) by simp
    have st: "status (fd_array ?fs1 ! j) = FD_INIT" "status (fd_array ?fs1 ! i) = FD_OPENED" using len ij i(2) by simp_all
    have b1: "base n + refs ?s1 n + 1 < 0x10000" for n using b [of n] a(3) by simp
    from dup_ok [OF k1 t1 t1 j(1) i(1) st b1] obtain s' where s': "fd_array_dup fp j fp i ?s1 = Some s'" "kfs_inv s' D base H"
      "sfs (nodes s') = sfs (nodes ?s1)"
      "ftabs s' = (ftabs ?s1)(fp \<mapsto> ?fs1\<lparr>fd_array := (fd_array ?fs1)[j := dup_entry (fd_array ?fs1 ! i) (fd_array ?fs1 ! j)]\<rparr>)" by blast
    have de: "dup_entry f (t\<lparr>status := x, node := y\<rparr>) = dup_entry f t" for f t x y by (cases t) (simp add: dup_entry_def)
    have tab: "ftabs s' = (ftabs s)(fp \<mapsto> fs\<lparr>fd_array := (fd_array fs)[j := dup_entry (fd_array fs ! i) (fd_array fs ! j)]\<rparr>)"
      using s'(4) a(1) len ij de by simp
    have "fd (dup_entry (fd_array fs ! i) (fd_array fs ! j)) = int j"
      using entry_okD(1) [OF entry_at(1) [OF k t(1) j(1)]] by (simp add: dup_entry_def)
    then have "file_dup fp (int i) fd2 s = Some (int j, s')"
      using f2 al(1) Some j(3) s'(1) tab len by (simp add: file_dup_def file_at_def)
    then show ?thesis using s'(2,3) a(2) tab al(2) Some j(3)
      by (intro exI [of _ "int j"] exI [of _ "Some j"] exI [of _ s']) simp
  qed
qed

end
