(* ===== verification/File_Steps.thy ===== *)
theory File_Steps
  imports File_Io
begin

text \<open>
  The table as a transition system: the operations of file.c and fs.c on tables that threads share,
  in any order.  An operation that sleeps holds its entry between \<^verbatim>\<open>fd_array_acquire\<close> and
  \<^verbatim>\<open>fd_array_release\<close>, and everything may happen in between; \<open>H\<close> counts these holders.
\<close>

datatype fd_act = Alloc nat int | Free nat nat | Acquire nat nat | Release nat nat | Close nat nat
  | Dup nat nat nat nat | Create nat | Destroy nat | Fork nat nat | Count nat int

text \<open>The calls, \<open>None\<close> for a failed assertion.\<close>

fun fd_run :: "fd_act \<Rightarrow> kfs \<Rightarrow> kfs option" where
  "fd_run (Alloc fp n) s = map_option (\<lambda>(ret, r, s1). s1) (fd_array_alloc fp n s)"
| "fd_run (Free fp i) s = fd_array_free fp i s"
| "fd_run (Acquire fp i) s = fd_array_acquire fp i s"
| "fd_run (Release fp i) s = fd_array_release fp i s"
| "fd_run (Close fp i) s = fd_array_close fp i s"
| "fd_run (Dup fp i fq j) s = fd_array_dup fp i fq j s"
| "fd_run (Create fp) s = Some (snd (files_create (Some fp) s))"
| "fd_run (Destroy fp) s = files_destroy fp s"
| "fd_run (Fork to from) s = map_option snd (dup_files to from s)"
| "fd_run (Count fp k) s = (case ftabs s fp of None \<Rightarrow> None | Some _ \<Rightarrow> Some (add_files_count fp k s))"

fun held :: "fd_act \<Rightarrow> (nat \<Rightarrow> nat \<Rightarrow> nat) \<Rightarrow> (nat \<Rightarrow> nat \<Rightarrow> nat)" where
  "held (Acquire fp i) H = H(fp := (H fp)(i := H fp i + 1))"
| "held (Release fp i) H = H(fp := (H fp)(i := H fp i - 1))"
| "held _ H = H"

definition entry_status :: "kfs \<Rightarrow> nat \<Rightarrow> nat \<Rightarrow> fd_status option" where
  "entry_status s fp i = (case ftabs s fp of None \<Rightarrow> None
     | Some fs \<Rightarrow> if i < FILES_STRUCT_NENTRY then Some (status (fd_array fs ! i)) else None)"

text \<open>When the callers make the calls: on an entry that \<^verbatim>\<open>fd2file\<close> gave, that they allocated, or that
  they hold; a table is destroyed by its last user.  No count is at the limit of \<^verbatim>\<open>inode_check\<close>.\<close>

fun may :: "(nat \<Rightarrow> nat) \<Rightarrow> fd_act \<Rightarrow> kfs \<Rightarrow> (nat \<Rightarrow> nat \<Rightarrow> nat) \<Rightarrow> bool" where
  "may base (Alloc fp n) s H \<longleftrightarrow> (\<exists>fs. ftabs s fp = Some fs \<and> 0 < files_count fs)"
| "may base (Free fp i) s H \<longleftrightarrow> entry_status s fp i = Some FD_INIT"
| "may base (Acquire fp i) s H \<longleftrightarrow> entry_status s fp i = Some FD_OPENED"
| "may base (Release fp i) s H \<longleftrightarrow> entry_status s fp i \<noteq> None \<and> 0 < H fp i"
| "may base (Close fp i) s H \<longleftrightarrow> entry_status s fp i = Some FD_OPENED"
| "may base (Dup fp i fq j) s H \<longleftrightarrow> entry_status s fp i = Some FD_INIT \<and> entry_status s fq j = Some FD_OPENED \<and>
     bound_refs (\<lambda>n. base n + refs s n) 1"
| "may base (Create fp) s H \<longleftrightarrow> ftabs s fp = None \<and> (\<forall>i < FILES_STRUCT_NENTRY. H fp i = 0)"
| "may base (Destroy fp) s H \<longleftrightarrow> (\<exists>fs. ftabs s fp = Some fs \<and> files_count fs = 0) \<and>
     (\<forall>i < FILES_STRUCT_NENTRY. H fp i = 0 \<and> entry_status s fp i \<noteq> Some FD_INIT)"
| "may base (Fork to from) s H \<longleftrightarrow> to \<noteq> from \<and> (\<exists>ft. ftabs s to = Some ft \<and> files_count ft = 0 \<and> pwd ft = None) \<and>
     (\<exists>ff. ftabs s from = Some ff \<and> 0 < files_count ff) \<and> (\<forall>i < FILES_STRUCT_NENTRY. entry_status s to i = Some FD_NONE) \<and>
     bound_refs (\<lambda>n. base n + refs s n) (FILES_STRUCT_NENTRY + 1)"
| "may base (Count fp k) s H \<longleftrightarrow> ftabs s fp \<noteq> None"

lemma entry_status_Some: "entry_status s fp i = Some st \<longleftrightarrow>
    (\<exists>fs. ftabs s fp = Some fs \<and> i < FILES_STRUCT_NENTRY \<and> status (fd_array fs ! i) = st)"
  by (auto simp: entry_status_def split: option.splits if_splits)

lemma add_files_count_ok:
  assumes k: "kfs_inv s D base H" and t: "ftabs s fp = Some fs"
  shows "kfs_inv (add_files_count fp c s) D base H"
proof -
  let ?s = "add_files_count fp c s" and ?fs = "fs\<lparr>files_count := files_count fs + c\<rparr>"
  have u: "ftabs ?s = (ftabs s)(fp \<mapsto> ?fs)" "nodes ?s = nodes s" using t by (simp_all add: add_files_count_def)
  have "opens ?s n = opens s n" "refs ?s n = refs s n" for n
    using tsum_upd [OF kfs_invD(1) [OF k] t, of "opens_of n" ?fs] tsum_upd [OF kfs_invD(1) [OF k] t, of "refs_of n" ?fs]
    by (simp_all add: opens_def refs_def u opens_of_def refs_of_def)
  then have "opens ?s = opens s" "refs ?s = refs s" by auto
  moreover have "tab_ok x (H q)" if "ftabs ?s q = Some x" for q x
    using that kfs_invD(2) [OF k, of q] kfs_invD(2) [OF k t] u(1) by (cases "q = fp") (auto simp: tab_ok_def)
  ultimately show ?thesis using k u by (auto simp: kfs_inv_def)
qed

text \<open>No call fails an assertion, and every call keeps the invariant.\<close>

lemma fd_act_ok:
  assumes k: "kfs_inv s D base H" and m: "may base a s H"
  shows "\<exists>s'. fd_run a s = Some s' \<and> kfs_inv s' D base (held a H) \<and>
    (\<forall>i d. D i = Some d \<longrightarrow> fc (sfs (nodes s')) d = fc (sfs (nodes s)) d)"
proof (cases a)
  case (Alloc fp n)
  then obtain fs where t: "ftabs s fp = Some fs" "0 < files_count fs" using m by auto
  from fd_alloc_ok [OF k t, of n] obtain ret r where
    "fd_array_alloc fp n s = Some (ret, r, case r of None \<Rightarrow> s | Some i \<Rightarrow> fd_allocd fp i s)"
    "kfs_inv (case r of None \<Rightarrow> s | Some i \<Rightarrow> fd_allocd fp i s) D base H" by blast
  moreover have "nodes (case r of None \<Rightarrow> s | Some i \<Rightarrow> fd_allocd fp i s) = nodes s"
    by (cases r) (simp_all add: fd_allocd_def upd_file_def)
  ultimately show ?thesis using Alloc by simp
next
  case (Free fp i)
  then obtain fs where "ftabs s fp = Some fs" "i < FILES_STRUCT_NENTRY" "status (fd_array fs ! i) = FD_INIT"
    using m by (auto simp: entry_status_Some)
  from free_init_ok [OF k this] show ?thesis using Free by (simp add: upd_file_def)
next
  case (Acquire fp i)
  then obtain fs where "ftabs s fp = Some fs" "i < FILES_STRUCT_NENTRY" "status (fd_array fs ! i) = FD_OPENED"
    using m by (auto simp: entry_status_Some)
  from acquire_ok [OF k this] show ?thesis using Acquire by (auto simp: upd_file_def)
next
  case (Release fp i)
  then obtain fs where "ftabs s fp = Some fs" "i < FILES_STRUCT_NENTRY" "0 < H fp i"
    using m by (auto simp: entry_status_Some)
  from release_ok [OF k this] show ?thesis using Release by (auto simp: same_data_def)
next
  case (Close fp i)
  then obtain fs where "ftabs s fp = Some fs" "i < FILES_STRUCT_NENTRY" "status (fd_array fs ! i) = FD_OPENED"
    using m by (auto simp: entry_status_Some)
  from close_ok [OF k this] show ?thesis using Close by (auto simp: same_data_def)
next
  case (Dup fp i fq j)
  then obtain ft ff where t: "ftabs s fp = Some ft" "ftabs s fq = Some ff" "i < FILES_STRUCT_NENTRY" "j < FILES_STRUCT_NENTRY"
    "status (fd_array ft ! i) = FD_INIT" "status (fd_array ff ! j) = FD_OPENED" and b: "\<And>n. base n + refs s n + 1 < 0x10000"
    using m by (auto simp: entry_status_Some bound_refs_def)
  from dup_ok [OF k t b] obtain s' where "fd_array_dup fp i fq j s = Some s'" "kfs_inv s' D base H" "sfs (nodes s') = sfs (nodes s)" by blast
  then show ?thesis using Dup by simp
next
  case (Create fp)
  then have "ftabs s fp = None" "\<And>i. i < FILES_STRUCT_NENTRY \<Longrightarrow> H fp i = 0" using m by auto
  from files_create_ok [OF k this] show ?thesis using Create by auto
next
  case (Destroy fp)
  then obtain fs where t: "ftabs s fp = Some fs" "files_count fs = 0" using m by auto
  have "\<And>j. j < FILES_STRUCT_NENTRY \<Longrightarrow> H fp j = 0 \<and> status (fd_array fs ! j) \<noteq> FD_INIT"
    using m Destroy t(1) by (auto simp: entry_status_def)
  from files_destroy_ok [OF k t this] show ?thesis using Destroy by (auto simp: same_data_def)
next
  case (Fork fp fq)
  then obtain ft ff where t: "ftabs s fp = Some ft" "ftabs s fq = Some ff" "fp \<noteq> fq" "files_count ft = 0" "0 < files_count ff" "pwd ft = None"
    using m by auto
  have n: "\<And>j. j < FILES_STRUCT_NENTRY \<Longrightarrow> status (fd_array ft ! j) = FD_NONE" using m Fork t(1) by (auto simp: entry_status_def)
  have b: "\<And>n. base n + refs s n + FILES_STRUCT_NENTRY + 1 < 0x10000" using m Fork by (simp add: bound_refs_def add.assoc)
  from dup_files_ok [OF k t n b] obtain s' where s': "dup_files fp fq s = Some (0, s')" "kfs_inv s' D base H" "sfs (nodes s') = sfs (nodes s)" by blast
  then show ?thesis using Fork by simp
next
  case (Count fp c)
  then obtain fs where t: "ftabs s fp = Some fs" using m by auto
  from add_files_count_ok [OF k t, of c] show ?thesis using Count t by (auto simp: add_files_count_def)
qed

end
