(* ===== verification/File_Small.thy ===== *)
theory File_Small
  imports File_Steps
begin

text \<open>
  A small machine that the witnesses run: a disk of eight blocks with the root directory (inode 1),
  one file \<^verbatim>\<open>a\<close> (inode 4), both cached, and one process in the root directory.
\<close>

definition root_d :: disk_inode where
  "root_d = \<lparr>isize = 4096, itype = 2, nlinks = 1, iblocks = 1, direct = 3 # replicate 11 0, indirect = 0\<rparr>"

definition file_d :: disk_inode where
  "file_d = \<lparr>isize = 10, itype = 1, nlinks = 1, iblocks = 1, direct = 5 # replicate 11 0, indirect = 0\<rparr>"

definition image_two :: bytes where
  "image_two = (\<lambda>x. if x div 4096 = 1 then enc_inode root_d (x - 4096) else if x div 4096 = 4 then enc_inode file_d (x - 4 * 4096)
     else if x = 3 * 4096 then 4 else if x = 3 * 4096 + 4 then 97 else 0)"

definition fs_two :: sfs where
  "fs_two = \<lparr>sdev = \<lparr>image = image_two, dsize = 64\<rparr>, sblocks = 8, unused_blocks = 2, sinfo = [], super_dirty = False,
     freemap = \<lparr>nbits = 32, nwords = 1, bmap = [0xC0]\<rparr>, sfs_buffer = (\<lambda>_. 0)\<rparr>"

definition D_two :: "nat \<Rightarrow> disk_inode option" where
  "D_two = [1 \<mapsto> root_d, 4 \<mapsto> file_d]"

lemma two_simps [simp]: "iblocks root_d = 1" "iblocks file_d = 1" "isize root_d = 4096" "isize file_d = 10" "itype root_d = 2" "itype file_d = 1"
  "nlinks root_d = 1" "nlinks file_d = 1" "indirect root_d = 0" "indirect file_d = 0" "length (direct root_d) = 12" "length (direct file_d) = 12"
  "sblocks fs_two = 8"
  by (simp_all add: root_d_def file_d_def fs_two_def)

lemma free_two: "free_blocks fs_two = {6, 7}"
proof -
  have "free_blocks fs_two = set (filter (bit (0xC0 :: u32)) [0..<32])"
    by (auto simp: free_blocks_def free_bits_def fs_two_def WORD_BITS_def)
  also have "\<dots> = {6, 7}" by code_simp
  finally show ?thesis .
qed

lemma img_two: "img fs_two = image_two"
  by (simp add: img_def fs_two_def fun_eq_iff)

lemma fs_two_ok: "sfs_ok fs_two"
  unfolding sfs_ok_def free_two
  by (simp add: fs_two_def dev_ok_def MAX_DISK_NSECS_def d_blocks_def DISK0_BLK_NSECT_def SFS_BLKSIZE_def SECTSIZE_def
    bm_wf_def WORD_BITS_def)

lemma bno_two: "bno I root_d i = (if i = 0 then 3 else 0)" "bno I file_d i = (if i = 0 then 5 else 0)"
  by (auto simp: bno_def root_d_def file_d_def SFS_NDIRECT_def nth_Cons split: nat.splits)

lemma file_two: "file_ok fs_two root_d" "file_ok fs_two file_d"
  by (rule file_okI; auto simp: bno_two free_two SFS_NDIRECT_def MAX_BLOCKS_def)+

lemma own_two: "own I root_d = {3}" "own I file_d = {5}"
  by (auto simp: own_def bno_two)

lemma entries_two: "entries fs_two root_d = {(4, [97])}"
proof -
  have f: "fc fs_two root_d j = image_two (12288 + j)" if "j < 4096" for j
    using that by (simp add: fc_def bno_two SFS_BLKSIZE_def img_two)
  have im: "image_two x = (if x = 12288 then 4 else if x = 12292 then 97 else 0)" if "12288 \<le> x" "x < 16384" for x
  proof -
    have "x div 4096 = 3" by (rule div_nat_eqI) (use that in simp_all)
    then show ?thesis by (simp add: image_two_def)
  qed
  have "dent (fc fs_two root_d) 0 = (4, [97])"
    by (simp add: dent_def dec32_def f im SFS_MAX_FNAME_LEN_def upt_conv_Cons)
  moreover have "{..<iblocks root_d} = {0}" by auto
  ultimately show ?thesis by (simp add: entries_def)
qed

lemma on_disk_two: "on_disk fs_two 1 = root_d" "on_disk fs_two 4 = file_d"
proof -
  have r: "inode_range root_d" "inode_range file_d" by (simp_all add: inode_range_def root_d_def file_d_def SFS_NDIRECT_def)
  have dv: "(4096 + x) div 4096 = 1" "(16384 + x) div 4096 = 4" if "x < 64" for x :: nat
    by (rule div_nat_eqI; use that in simp)+
  have e: "on_disk fs_two 1 = dec_inode (enc_inode root_d)" "on_disk fs_two 4 = dec_inode (enc_inode file_d)"
    unfolding on_disk_def img_two by (rule dec_inode_cong, simp add: image_two_def SFS_BLKSIZE_def dv)+
  show "on_disk fs_two 1 = root_d" "on_disk fs_two 4 = file_d" unfolding e by (rule dec_enc_inode [OF r(1)] dec_enc_inode [OF r(2)])+
qed

lemma D_twoD: "D_two i = Some d \<Longrightarrow> i = 1 \<and> d = root_d \<or> i = 4 \<and> d = file_d"
  by (auto simp: D_two_def split: if_splits)

lemma vol_two: "vol fs_two D_two"
  unfolding vol_def
proof (intro conjI allI impI)
  have b: "blocks_for 10 = 1" by (simp add: blocks_for_def SFS_BLKSIZE_def)
  show "disk_file fs_two i d" if "D_two i = Some d" for i d
    using D_twoD [OF that] file_two
    by (auto simp: disk_file_def own_two free_two b)
  show "footprint fs_two i d \<inter> footprint fs_two j e = {}" if "D_two i = Some d" "D_two j = Some e" "i \<noteq> j" for i j d e
    using D_twoD [OF that(1)] D_twoD [OF that(2)] that(3) by (auto simp: footprint_def own_two)
  show "D_two k \<noteq> None" if "D_two i = Some d" "itype d = SFS_TYPE_DIR" "(k, nm) \<in> entries fs_two d" "k \<noteq> 0" for i d k nm
  proof -
    have "i = 1 \<and> d = root_d" using D_twoD [OF that(1)] that(2) by auto
    then have "k = 4" using that(3) entries_two by simp
    then show ?thesis by (simp add: D_two_def)
  qed
qed (rule fs_two_ok)

text \<open>The nodes: first none, then the two are entered.\<close>

definition mk_node :: "nat \<Rightarrow> disk_inode \<Rightarrow> inode_ops \<Rightarrow> inode" where
  "mk_node i d ops = \<lparr>in_info = SfsInodeInfo \<lparr>din = d, ino = i, dirty = False, reclaim_count = 1\<rparr>,
     ref_count = 1, open_count = 0, in_fs = True, in_ops = ops\<rparr>"

definition vfs_none :: vfs where
  "vfs_none = \<lparr>inodes = (\<lambda>_. None), inode_list = \<lparr>lnext = id, lprev = id\<rparr>, ihash_list = \<lparr>lnext = id, lprev = id\<rparr>, sfs = fs_two,
     mallocs = [Some 5000, Some 6000, Some 7000], keys = [], console = []\<rparr>"

definition enter :: "nat \<Rightarrow> nat \<Rightarrow> disk_inode \<Rightarrow> inode_ops \<Rightarrow> vfs \<Rightarrow> vfs" where
  "enter n i d ops v = sfs_set_links n i (v\<lparr>inodes := (inodes v)(n \<mapsto> mk_node i d ops)\<rparr>)"

definition vfs_two :: vfs where
  "vfs_two = enter 200 4 file_d SfsNodeFileops (enter 100 1 root_d SfsNodeDirops vfs_none)"

lemma cache_none: "cache_ok vfs_none D_two [] (\<lambda>_. [])"
proof -
  have "sfs_info n vfs_none = None" for n by (simp add: sfs_info_def vfs_none_def)
  moreover have "on_disk fs_two i = d" if "D_two i = Some d" for i d using D_twoD [OF that] on_disk_two by auto
  ultimately show ?thesis by (simp add: cache_ok_def malloc_ok_def) (simp add: vfs_none_def dll_def)
qed

lemma cache_enter:
  assumes c: "cache_ok v D C B" and n: "inodes v n = None" "Some n \<notin> set (mallocs v)"
    and D: "D i = Some d" "on_disk (sfs v) i = d" "\<And>m x. sfs_info m v = Some x \<Longrightarrow> ino x \<noteq> i" "sfs_get_ops (itype d) = Some ops"
  shows "\<exists>C' B'. cache_ok (enter n i d ops v) D C' B'"
  by (rule cache_add [where sin = "\<lparr>din = d, ino = i, dirty = False, reclaim_count = 1\<rparr>" and nd = "mk_node i d ops" and ops = ops, OF c n])
    (use D in \<open>simp_all add: enter_def sfs_set_links_def mk_node_def\<close>)

lemma vfs_two_ok: "vfs_inv vfs_two D_two (\<lambda>n. of_bool (n = 100 \<or> n = 200)) (\<lambda>_. 0)"
proof -
  let ?v1 = "enter 100 1 root_d SfsNodeDirops vfs_none"
  have i1: "sfs_info m ?v1 = (if m = 100 then Some \<lparr>din = root_d, ino = 1, dirty = False, reclaim_count = 1\<rparr> else None)" for m
    by (simp add: sfs_info_def enter_def sfs_set_links_def mk_node_def vfs_none_def)
  obtain C B where "cache_ok ?v1 D_two C B"
    using cache_enter [OF cache_none, of 100 1 root_d SfsNodeDirops] on_disk_two
    by (auto simp: vfs_none_def D_two_def sfs_info_def root_d_def sfs_get_ops_def)
  moreover have "inodes ?v1 200 = None" "mallocs ?v1 = mallocs vfs_none" "sfs ?v1 = fs_two"
    by (simp_all add: enter_def sfs_set_links_def vfs_none_def)
  moreover have "sfs_get_ops (itype file_d) = Some SfsNodeFileops" by (simp add: file_d_def sfs_get_ops_def)
  moreover have "ino x \<noteq> 4" if "sfs_info m ?v1 = Some x" for m x using that i1 [of m] by (auto split: if_splits)
  ultimately obtain C' B' where c: "cache_ok vfs_two D_two C' B'"
    using cache_enter [of ?v1 D_two C B 200 4 file_d SfsNodeFileops] on_disk_two
    by (auto simp: vfs_two_def vfs_none_def D_two_def)
  have ind: "inodes vfs_two n = (if n = 200 then Some (mk_node 4 file_d SfsNodeFileops)
      else if n = 100 then Some (mk_node 1 root_d SfsNodeDirops) else None)" for n
    by (simp add: vfs_two_def enter_def sfs_set_links_def vfs_none_def)
  have s: "sfs vfs_two = fs_two" by (simp add: vfs_two_def enter_def sfs_set_links_def vfs_none_def)
  have k: "counts_ok vfs_two (\<lambda>n. of_bool (n = 100 \<or> n = 200)) (\<lambda>_. 0)"
    unfolding counts_ok_def ind by (auto simp: mk_node_def split: if_splits)
  show ?thesis by (rule vfs_invI [OF _ c k]) (auto simp: s vol_two ind split: if_splits)
qed

text \<open>The process: its table is at 7; the file is also held elsewhere.\<close>

definition fs_one :: files_struct where
  "fs_one = \<lparr>pwd = Some 100, fd_array = fd_array_init, files_count = 1\<rparr>"

definition kfs_small :: kfs where
  "kfs_small = \<lparr>nodes = vfs_two, vdev_list = [], bootfs_node = None, ftabs = [7 \<mapsto> fs_one]\<rparr>"

definition base_small :: "nat \<Rightarrow> nat" where
  "base_small n = of_bool (n = 200)"

lemma fd_init_none: "f \<in> set fd_array_init \<Longrightarrow> status f = FD_NONE"
  by (auto simp: fd_array_init_def)

lemma refs_small: "refs kfs_small n = of_bool (n = 100)" "opens kfs_small n = 0"
proof -
  have o: "opens_of n fs_one = 0" for n
    by (auto simp: opens_of_def fs_one_def sum_list_eq_0_iff holds_def dest!: fd_init_none)
  show "refs kfs_small n = of_bool (n = 100)" "opens kfs_small n = 0"
    by (auto simp: refs_def opens_def tsum_def kfs_small_def refs_of_def o) (simp_all add: fs_one_def)
qed

lemma kfs_small_ok: "kfs_inv kfs_small D_two base_small (\<lambda>_ _. 0)"
proof -
  have R: "(\<lambda>n. base_small n + refs kfs_small n) = (\<lambda>n. of_bool (n = 100 \<or> n = 200))" "opens kfs_small = (\<lambda>_. 0)"
    by (auto simp: refs_small base_small_def)
  have "tab_ok fs_one (\<lambda>_. 0)" by (auto simp: tab_ok_def fs_one_def fd_array_init_def entry_ok_def)
  moreover have "devs_ok vfs_two base_small"
    by (auto simp: devs_ok_def vfs_two_def enter_def sfs_set_links_def vfs_none_def mk_node_def split: if_splits)
  moreover have "ftabs kfs_small fp = Some fs \<Longrightarrow> fs = fs_one" for fp fs by (simp add: kfs_small_def split: if_splits)
  moreover have "finite (dom (ftabs kfs_small))" "nodes kfs_small = vfs_two" by (simp_all add: kfs_small_def)
  ultimately show ?thesis using vfs_two_ok R by (auto simp: kfs_inv_def)
qed

text \<open>Descriptor i of the process is opened on the file, for reading and writing.\<close>

definition open_node :: "nat \<Rightarrow> kfs \<Rightarrow> kfs" where
  "open_node i s = upd_file 7 i (\<lambda>f. f\<lparr>pos := 0, node := Some 200, readable := True, writable := True, status := FD_OPENED,
     fopen_count := fopen_count f + 1\<rparr>) ((fd_allocd 7 i s)\<lparr>nodes := upd_node 200 (\<lambda>nd. nd\<lparr>open_count := open_count nd + 1\<rparr>)
       (upd_node 200 (\<lambda>nd. nd\<lparr>ref_count := ref_count nd + 1\<rparr>) (nodes s))\<rparr>)"

definition open_file :: "nat \<Rightarrow> filp" where
  "open_file i = \<lparr>status = FD_OPENED, readable = True, writable = True, fd = int i, pos = 0, node = Some 200, fopen_count = 1\<rparr>"

lemma open_node_ok:
  assumes k: "kfs_inv s D base_small H" and t: "ftabs s 7 = Some fs" and i: "i < FILES_STRUCT_NENTRY" "status (fd_array fs ! i) = FD_NONE"
    and b: "base_small 200 + refs s 200 + 1 < 0x10000"
  shows "kfs_inv (open_node i s) D base_small H" "ftabs (open_node i s) = (ftabs s)(7 \<mapsto> fs\<lparr>fd_array := (fd_array fs)[i := open_file i]\<rparr>)"
    "sfs_info n (nodes (open_node i s)) = sfs_info n (nodes s)" "sfs (nodes (open_node i s)) = sfs (nodes s)"
    "refs (open_node i s) n = refs s n + of_bool (n = 200)"
proof -
  let ?R = "\<lambda>n. base_small n + refs s n"
  let ?v1 = "upd_node 200 (\<lambda>nd. nd\<lparr>ref_count := ref_count nd + 1\<rparr>) (nodes s)"
  let ?v = "upd_node 200 (\<lambda>nd. nd\<lparr>open_count := open_count nd + 1\<rparr>) ?v1"
  note e = entry_at [OF k t i(1)]
  have pos: "0 < ?R 200" by (simp add: base_small_def)
  from ref_inc_ok [OF kfs_invD(3) [OF k] pos b] obtain s' where s': "inode_ref_inc 200 (nodes s) = Some (int (?R 200) + 1, s')"
    "vfs_inv s' D (?R(200 := ?R 200 + 1)) (opens s)" "same_nodes (nodes s) s'" by blast
  then have v1: "s' = ?v1" by (auto simp: inode_ref_inc_def Option.bind_eq_Some_conv)
  have "opens s 200 < (?R(200 := ?R 200 + 1)) 200" using opens_le_refs [of s 200] by simp
  from open_inc_ok [OF s'(2) this] obtain s2 where s2: "inode_open_inc 200 s' = Some (int (opens s 200) + 1, s2)"
    "vfs_inv s2 D (?R(200 := ?R 200 + 1)) ((opens s)(200 := opens s 200 + 1))" "same_nodes s' s2" by blast
  then have v: "s2 = ?v" by (auto simp: inode_open_inc_def Option.bind_eq_Some_conv v1)
  have sn: "same_nodes (nodes s) ?v" using same_nodes_trans [OF s'(3) s2(3)] v by simp
  note a = alloc_entry [OF k t i] and k1 = fd_found_ok(2) [OF k t i]
  let ?fs1 = "fs\<lparr>fd_array := (fd_array fs)[i := (fd_array fs ! i)\<lparr>status := FD_INIT, node := None\<rparr>]\<rparr>"
  have t1: "ftabs (fd_allocd 7 i s) 7 = Some ?fs1" "status (fd_array ?fs1 ! i) = FD_INIT" using a(1) e(2) by simp_all
  let ?g = "\<lambda>f. f\<lparr>pos := 0, node := Some 200, readable := True, writable := True\<rparr>"
  from open_ok [where g = ?g and v = ?v and n = 200, OF k1 t1(1) i(1) t1(2)] s2(2) a(3,4) devs_ok_nodes [OF kfs_invD(4) [OF k] sn] v
  show "kfs_inv (open_node i s) D base_small H" by (auto simp: open_node_def)
  have z: "fd (fd_array fs ! i) = int i" "fopen_count (fd_array fs ! i) = 0" using entry_okD(1,2) [OF e(1)] i(2) by auto
  then have f: "(fd_array fs ! i)\<lparr>status := FD_INIT, node := Some 200, pos := 0, readable := True, writable := True, status := FD_OPENED,
      fopen_count := 1\<rparr> = open_file i" by (cases "fd_array fs ! i") (simp add: open_file_def)
  show tab: "ftabs (open_node i s) = (ftabs s)(7 \<mapsto> fs\<lparr>fd_array := (fd_array fs)[i := open_file i]\<rparr>)"
    using a(1) e(2) z f by (cases "fd_array fs ! i") (simp add: open_node_def upd_file_def open_file_def)
  have nd: "nodes (open_node i s) = ?v" by (simp add: open_node_def upd_file_def)
  show "sfs_info n (nodes (open_node i s)) = sfs_info n (nodes s)" using same_nodesD(1) [OF sn] nd by simp
  show "sfs (nodes (open_node i s)) = sfs (nodes s)" using nd by simp
  have "ftabs (upd_file 7 i (\<lambda>_. open_file i) s) = ftabs (open_node i s)" using t tab by (simp add: upd_file_def)
  then show "refs (open_node i s) n = refs s n + of_bool (n = 200)"
    using entry_sums(2) [OF kfs_invD(1) [OF k] t e(2), of "\<lambda>_. open_file i" n] i(2) by (auto simp: refs_def holds_def open_file_def)
qed

text \<open>One descriptor, and two, are open.\<close>

definition kfs_open :: kfs where "kfs_open = open_node 0 kfs_small"
definition kfs_both :: kfs where "kfs_both = open_node 1 kfs_open"

lemma small_tab: "ftabs kfs_small 7 = Some fs_one" "i < FILES_STRUCT_NENTRY \<Longrightarrow> status (fd_array fs_one ! i) = FD_NONE"
  "i < FILES_STRUCT_NENTRY \<Longrightarrow> entry_status kfs_small 7 i = Some FD_NONE"
proof -
  show t: "ftabs kfs_small 7 = Some fs_one" by (simp add: kfs_small_def)
  show "i < FILES_STRUCT_NENTRY \<Longrightarrow> status (fd_array fs_one ! i) = FD_NONE"
    by (simp add: fs_one_def fd_array_init_def)
  then show "i < FILES_STRUCT_NENTRY \<Longrightarrow> entry_status kfs_small 7 i = Some FD_NONE" by (simp add: entry_status_def t)
qed

lemma nentry: "FILES_STRUCT_NENTRY = 72"
  by (simp add: FILES_STRUCT_NENTRY_def)

lemma kfs_open_ok: "kfs_inv kfs_open D_two base_small (\<lambda>_ _. 0)"
  "ftabs kfs_open = [7 \<mapsto> fs_one\<lparr>fd_array := (fd_array fs_one)[0 := open_file 0]\<rparr>]" "refs kfs_open n = of_bool (n = 100 \<or> n = 200)"
  "sfs_info n (nodes kfs_open) = sfs_info n vfs_two" "sfs (nodes kfs_open) = fs_two"
proof -
  have b: "base_small 200 + refs kfs_small 200 + 1 < 0x10000" by (simp add: base_small_def refs_small)
  have z: "0 < FILES_STRUCT_NENTRY" by (simp add: nentry)
  note o = open_node_ok [OF kfs_small_ok small_tab(1) z small_tab(2) [OF z] b]
  show "kfs_inv kfs_open D_two base_small (\<lambda>_ _. 0)" using o(1) by (simp add: kfs_open_def)
  show "ftabs kfs_open = [7 \<mapsto> fs_one\<lparr>fd_array := (fd_array fs_one)[0 := open_file 0]\<rparr>]" using o(2) by (simp add: kfs_open_def kfs_small_def)
  show "refs kfs_open n = of_bool (n = 100 \<or> n = 200)" using o(5) [of n] by (auto simp: kfs_open_def refs_small)
  show "sfs_info n (nodes kfs_open) = sfs_info n vfs_two" using o(3) by (simp add: kfs_open_def) (simp add: kfs_small_def)
  show "sfs (nodes kfs_open) = fs_two"
    using o(4) by (simp add: kfs_open_def) (simp add: kfs_small_def vfs_two_def enter_def sfs_set_links_def vfs_none_def)
qed

lemma kfs_both_ok: "kfs_inv kfs_both D_two base_small (\<lambda>_ _. 0)"
  "ftabs kfs_both = [7 \<mapsto> fs_one\<lparr>fd_array := (fd_array fs_one)[0 := open_file 0, 1 := open_file 1]\<rparr>]"
  "sfs_info n (nodes kfs_both) = sfs_info n vfs_two" "sfs (nodes kfs_both) = fs_two" "refs kfs_both n \<le> 2"
proof -
  have b: "base_small 200 + refs kfs_open 200 + 1 < 0x10000" by (simp add: base_small_def kfs_open_ok(3))
  have z: "1 < FILES_STRUCT_NENTRY" by (simp add: nentry)
  have t: "ftabs kfs_open 7 = Some (fs_one\<lparr>fd_array := (fd_array fs_one)[0 := open_file 0]\<rparr>)" by (simp add: kfs_open_ok(2))
  have st: "status (fd_array (fs_one\<lparr>fd_array := (fd_array fs_one)[0 := open_file 0]\<rparr>) ! 1) = FD_NONE" using small_tab(2) [OF z] by simp
  note o = open_node_ok [OF kfs_open_ok(1) t z st b]
  show "kfs_inv kfs_both D_two base_small (\<lambda>_ _. 0)" using o(1) by (simp add: kfs_both_def)
  show "ftabs kfs_both = [7 \<mapsto> fs_one\<lparr>fd_array := (fd_array fs_one)[0 := open_file 0, 1 := open_file 1]\<rparr>]"
    using o(2) by (simp add: kfs_both_def kfs_open_ok(2))
  show "sfs_info n (nodes kfs_both) = sfs_info n vfs_two" "sfs (nodes kfs_both) = fs_two"
    using o(3,4) by (simp_all add: kfs_both_def kfs_open_ok(4,5))
  show "refs kfs_both n \<le> 2" using o(5) [of n] by (simp add: kfs_both_def kfs_open_ok(3))
qed

lemma info_two: "sfs_info 100 vfs_two = Some \<lparr>din = root_d, ino = 1, dirty = False, reclaim_count = 1\<rparr>"
  "sfs_info 200 vfs_two = Some \<lparr>din = file_d, ino = 4, dirty = False, reclaim_count = 1\<rparr>"
  by (simp_all add: sfs_info_def vfs_two_def enter_def sfs_set_links_def vfs_none_def mk_node_def)

end
