(* ===== verification/File_Theorems.thy ===== *)
theory File_Theorems
  imports File_Small
begin

text \<open>
  What the descriptors, the nodes and the paths promise.
\<close>

subsection \<open>Executions\<close>

inductive fd_exec :: "(nat \<Rightarrow> nat) \<Rightarrow> kfs \<Rightarrow> (nat \<Rightarrow> nat \<Rightarrow> nat) \<Rightarrow> fd_act list \<Rightarrow> kfs \<Rightarrow> (nat \<Rightarrow> nat \<Rightarrow> nat) \<Rightarrow> bool" for base where
  fd_nil: "fd_exec base s H [] s H"
| fd_cons: "may base a s H \<Longrightarrow> fd_run a s = Some s1 \<Longrightarrow> fd_exec base s1 (held a H) as s' H' \<Longrightarrow> fd_exec base s H (a # as) s' H'"

inductive_simps fd_exec_simps: "fd_exec base s H [] s' H'" "fd_exec base s H (a # as) s' H'"

lemma fd_exec_inv:
  assumes "fd_exec base s H as s' H'" "kfs_inv s D base H"
  shows "kfs_inv s' D base H' \<and> (\<forall>i d. D i = Some d \<longrightarrow> fc (sfs (nodes s')) d = fc (sfs (nodes s)) d)"
  using assms
proof (induction rule: fd_exec.induct)
  case (fd_cons a s H s1 as s' H')
  from fd_act_ok [OF fd_cons.prems fd_cons.hyps(1)] fd_cons.hyps(2) have
    "kfs_inv s1 D base (held a H)" "\<forall>i d. D i = Some d \<longrightarrow> fc (sfs (nodes s1)) d = fc (sfs (nodes s)) d" by auto
  then show ?case using fd_cons.IH by simp
qed simp

text \<open>C25: Threads that share descriptor tables may allocate, use, close, duplicate and inherit descriptors
  in any order: no assertion fails, each node exists exactly while it is referred to, its reference
  count is the number of open or closing entries and current directories that hold it (and of the
  holders outside the tables), its open count the number of those entries, and no file changes.\<close>

theorem descriptors_safe:
  assumes "kfs_inv s D base H" "fd_exec base s H as s' H'"
  shows "(\<forall>n nd. inodes (nodes s') n = Some nd \<longrightarrow>
      ref_count nd = int (base n + refs s' n) \<and> open_count nd = int (opens s' n)) \<and>
    (\<forall>n. inodes (nodes s') n \<noteq> None \<longleftrightarrow> 0 < base n + refs s' n) \<and>
    (\<forall>fp fs i. ftabs s' fp = Some fs \<longrightarrow> i < FILES_STRUCT_NENTRY \<longrightarrow> entry_ok i (fd_array fs ! i) (H' fp i)) \<and>
    (\<forall>i d. D i = Some d \<longrightarrow> fc (sfs (nodes s')) d = fc (sfs (nodes s)) d) \<and>
    (\<forall>a. may base a s' H' \<longrightarrow> fd_run a s' \<noteq> None)"
proof (intro conjI allI impI)
  note e = fd_exec_inv [OF assms(2,1)]
  then have k: "kfs_inv s' D base H'" by simp
  from kfs_invD(3) [OF k] obtain C B where c: "counts_ok (nodes s') (\<lambda>n. base n + refs s' n) (opens s')"
    "\<And>n. inodes (nodes s') n \<noteq> None \<longleftrightarrow> 0 < base n + refs s' n" by (rule vfs_invE) blast
  show "ref_count nd = int (base n + refs s' n)" "open_count nd = int (opens s' n)" if "inodes (nodes s') n = Some nd" for n nd
    using counts_okD(1,2) [OF c(1) that] .
  show "inodes (nodes s') n \<noteq> None \<longleftrightarrow> 0 < base n + refs s' n" for n by (rule c(2))
  show "entry_ok i (fd_array fs ! i) (H' fp i)" if "ftabs s' fp = Some fs" "i < FILES_STRUCT_NENTRY" for fp fs i
    using entry_at(1) [OF k that] .
  show "fc (sfs (nodes s')) d = fc (sfs (nodes s)) d" if "D i = Some d" for i d using e that by blast
  show "fd_run a s' \<noteq> None" if "may base a s' H'" for a using fd_act_ok [OF k that] by auto
qed

lemma len_one [simp]: "length (fd_array fs_one) = 72"
  by (simp add: fs_one_def fd_array_init_def nentry)

lemma descriptors_safe_witness:
  "\<exists>s'. fd_exec base_small kfs_small (\<lambda>_ _. 0) [Create 9, Fork 9 7, Alloc 7 NO_FD] s' (\<lambda>_ _. 0) \<and>
     (\<forall>n. inodes (nodes s') n \<noteq> None \<longleftrightarrow> 0 < base_small n + refs s' n)"
proof -
  let ?H = "\<lambda>_ _. 0 :: nat"
  note k0 = kfs_small_ok
  have m1: "may base_small (Create 9) kfs_small ?H" by (simp add: kfs_small_def)
  from files_create_ok [OF k0, of 9] obtain s1 where s1: "fd_run (Create 9) kfs_small = Some s1" "kfs_inv s1 D_two base_small ?H"
    "ftabs s1 = (ftabs kfs_small)(9 \<mapsto> \<lparr>pwd = None, fd_array = fd_array_init, files_count = 0\<rparr>)" by (auto simp: kfs_small_def)
  let ?ft = "\<lparr>pwd = None, fd_array = fd_array_init, files_count = 0\<rparr> :: files_struct"
  have z: "opens_of n ?ft = 0" for n by (auto simp: opens_of_def sum_list_eq_0_iff holds_def dest!: fd_init_none)
  have r1: "refs s1 n = of_bool (n = 100)" for n
  proof -
    have "tsum (refs_of n) (ftabs s1) = tsum (refs_of n) (ftabs kfs_small) + refs_of n ?ft"
      unfolding s1(3) by (rule tsum_new) (simp_all add: kfs_small_def)
    then show ?thesis using refs_small(1) [of n] z [of n] by (simp add: refs_def refs_of_def)
  qed
  have st: "entry_status s1 9 i = Some FD_NONE" if "i < FILES_STRUCT_NENTRY" for i
    using that by (simp add: entry_status_def s1(3) fd_array_init_def)
  have m2: "may base_small (Fork 9 7) s1 ?H"
    using st r1 by (auto simp: s1(3) kfs_small_def fs_one_def bound_refs_def base_small_def FILES_STRUCT_NENTRY_def)
  from fd_act_ok [OF s1(2) m2] obtain s2 where s2: "fd_run (Fork 9 7) s1 = Some s2" "kfs_inv s2 D_two base_small ?H" by auto
  have "\<exists>fs. ftabs s2 7 = Some fs \<and> 0 < files_count fs"
  proof -
    have t: "ftabs s1 9 = Some ?ft" "ftabs s1 7 = Some fs_one" by (simp_all add: s1(3) kfs_small_def)
    have b: "base_small n + refs s1 n + FILES_STRUCT_NENTRY + 1 < 0x10000" for n
      using r1 [of n] by (simp add: base_small_def FILES_STRUCT_NENTRY_def)
    from dup_files_ok [OF s1(2) t _ _ _ _ _ b] obtain s' where "dup_files 9 7 s1 = Some (0, s')"
      "ftabs s' = (ftabs s1)(9 \<mapsto> ?ft\<lparr>pwd := pwd fs_one, fd_array := dup_array 0 FILES_STRUCT_NENTRY (fd_array fs_one) (fd_array ?ft)\<rparr>)"
      by (auto simp: fs_one_def fd_array_init_def)
    then show ?thesis using s2(1) t(2) by (auto simp: fs_one_def)
  qed
  then have m3: "may base_small (Alloc 7 NO_FD) s2 ?H" by simp
  from fd_act_ok [OF s2(2) m3] obtain s3 where s3: "fd_run (Alloc 7 NO_FD) s2 = Some s3" by auto
  have e: "fd_exec base_small kfs_small ?H [Create 9, Fork 9 7, Alloc 7 NO_FD] s3 ?H"
    by (rule fd_cons [OF m1 s1(1)], simp only: held.simps, rule fd_cons [OF m2 s2(1)], simp only: held.simps,
        rule fd_cons [OF m3 s3], simp only: held.simps, rule fd_nil)
  with descriptors_safe [OF k0 e] show ?thesis by blast
qed

lemma refs_upd:
  assumes "finite (dom (ftabs s))" "ftabs s fp = Some fs" "i < length (fd_array fs)"
    and "ftabs s' = (ftabs s)(fp \<mapsto> fs\<lparr>fd_array := (fd_array fs)[i := f]\<rparr>)"
  shows "refs s' n + of_bool (holds (fd_array fs ! i) n) = refs s n + of_bool (holds f n)"
proof -
  have "ftabs (upd_file fp i (\<lambda>_. f) s) = ftabs s'" using assms(2,4) by (simp add: upd_file_def)
  then show ?thesis using entry_sums(2) [OF assms(1-3), of "\<lambda>_. f" n] by (simp add: refs_def)
qed

lemma close_busy:
  assumes k: "kfs_inv s D base H" and t: "ftabs s fp = Some fs" and i: "i < FILES_STRUCT_NENTRY"
    and o: "status (fd_array fs ! i) = FD_OPENED" and h: "0 < H fp i"
  shows "fd_array_close fp i s = Some (upd_file fp i (\<lambda>f. f\<lparr>status := FD_CLOSED, fopen_count := fopen_count f - 1\<rparr>) s)"
proof -
  note e = entry_at [OF k t i]
  show ?thesis using e(3) o h entry_okD(3) [OF e(1) o] by (simp add: fd_array_close_def)
qed

text \<open>A closed entry that is still held: it is not free, its node lives, and no allocation hands it out.\<close>

lemma closed_kept:
  assumes k: "kfs_inv s D base H" and t: "ftabs s fp = Some fs" and i: "i < FILES_STRUCT_NENTRY"
    and c: "status (fd_array fs ! i) = FD_CLOSED" "node (fd_array fs ! i) = Some n"
  shows "entry_status s fp i = Some FD_CLOSED" "inodes (nodes s) n \<noteq> None" "fd_array_alloc fp m s = Some (ret, r, s') \<Longrightarrow> r \<noteq> Some i"
proof -
  show "entry_status s fp i = Some FD_CLOSED" using t c i by (simp add: entry_status_def)
  from kfs_invD(3) [OF k] obtain C B where "\<And>n. inodes (nodes s) n \<noteq> None \<longleftrightarrow> 0 < base n + refs s n" by (rule vfs_invE) blast
  moreover have "holds (fd_array fs ! i) n" using c by (simp add: holds_def)
  ultimately show "inodes (nodes s) n \<noteq> None" using holds_refs(2) [OF k t i] by simp
  show "r \<noteq> Some i" if "fd_array_alloc fp m s = Some (ret, r, s')"
  proof -
    from that have "0 < files_count fs" using t by (cases "0 < files_count fs") (simp_all add: fd_array_alloc_def get_fd_array_def)
    from fd_alloc_ok [OF k t this, of m] that have "alloc_spec (fd_array fs) m ret r" by auto
    then show ?thesis using c(1) by (auto simp: alloc_spec_def)
  qed
qed

text \<open>\<open>releases k\<close>: the next \<open>k\<close> holders of the entry let go.\<close>

primrec releases :: "nat \<Rightarrow> nat \<Rightarrow> nat \<Rightarrow> kfs \<Rightarrow> kfs option" where
  "releases 0 fp i s = Some s"
| "releases (Suc k) fp i s = Option.bind (releases k fp i s) (fd_array_release fp i)"

lemma release_closed:
  assumes k: "kfs_inv s D base H" and t: "ftabs s fp = Some fs" and i: "i < FILES_STRUCT_NENTRY"
    and c: "status (fd_array fs ! i) = FD_CLOSED" "node (fd_array fs ! i) = Some n" and H: "1 < H fp i"
  shows "\<exists>s' fs'. fd_array_release fp i s = Some s' \<and> kfs_inv s' D base (H(fp := (H fp)(i := H fp i - 1))) \<and> ftabs s' fp = Some fs' \<and>
    status (fd_array fs' ! i) = FD_CLOSED \<and> node (fd_array fs' ! i) = Some n \<and> refs s' n = refs s n"
proof -
  note e = entry_at [OF k t i]
  let ?f = "fd_array fs ! i" and ?g = "\<lambda>f. f\<lparr>fopen_count := fopen_count f - 1\<rparr>"
  let ?s = "upd_file fp i ?g s" and ?fs = "fs\<lparr>fd_array := (fd_array fs)[i := ?g (fd_array fs ! i)]\<rparr>"
  have r: "fd_array_release fp i s = Some ?s" using e(3) c(1) H entry_okD(4) [OF e(1) c(1)] by (simp add: fd_array_release_def)
  have u: "ftabs ?s = (ftabs s)(fp \<mapsto> ?fs)" using t by (simp add: upd_file_def)
  have "refs ?s n = refs s n" using refs_upd [OF kfs_invD(1) [OF k] t e(2) u, of n] c by (simp add: holds_def)
  moreover have "kfs_inv ?s D base (H(fp := (H fp)(i := H fp i - 1)))" using release_ok [OF k t i] r H by auto
  ultimately show ?thesis using r u c e(2) by (intro exI [of _ ?s] exI [of _ ?fs]) simp
qed

lemma releases_closed:
  assumes "kfs_inv s D base H" "ftabs s fp = Some fs" "i < FILES_STRUCT_NENTRY"
    "status (fd_array fs ! i) = FD_CLOSED" "node (fd_array fs ! i) = Some n" "k < H fp i"
  shows "\<exists>s' fs'. releases k fp i s = Some s' \<and> kfs_inv s' D base (H(fp := (H fp)(i := H fp i - k))) \<and> ftabs s' fp = Some fs' \<and>
    status (fd_array fs' ! i) = FD_CLOSED \<and> node (fd_array fs' ! i) = Some n \<and> refs s' n = refs s n"
  using assms(6)
proof (induction k)
  case 0
  have "H(fp := (H fp)(i := H fp i - 0)) = H" by simp
  then show ?case using assms by simp
next
  case (Suc k)
  then have "k < H fp i" by simp
  from Suc.IH [OF this] obtain s1 fs1 where s1: "releases k fp i s = Some s1" "kfs_inv s1 D base (H(fp := (H fp)(i := H fp i - k)))" "ftabs s1 fp = Some fs1"
    "status (fd_array fs1 ! i) = FD_CLOSED" "node (fd_array fs1 ! i) = Some n" "refs s1 n = refs s n" by blast
  have e: "(H(fp := (H fp)(i := H fp i - k)))(fp := ((H(fp := (H fp)(i := H fp i - k))) fp)(i := (H(fp := (H fp)(i := H fp i - k))) fp i - 1)) =
      H(fp := (H fp)(i := H fp i - Suc k))" by simp
  have "1 < (H(fp := (H fp)(i := H fp i - k))) fp i" using Suc.prems by simp
  from release_closed [OF s1(2,3) assms(3) s1(4,5) this, unfolded e] obtain s2 fs2 where s2: "fd_array_release fp i s1 = Some s2"
    "kfs_inv s2 D base (H(fp := (H fp)(i := H fp i - Suc k)))" "ftabs s2 fp = Some fs2"
    "status (fd_array fs2 ! i) = FD_CLOSED" "node (fd_array fs2 ! i) = Some n" "refs s2 n = refs s n" using s1(6) by auto
  moreover have "releases (Suc k) fp i s = Some s2" using s1(1) s2(1) by simp
  ultimately show ?case by blast
qed

text \<open>The last one: the entry is free and its node gives up one reference.\<close>

lemma release_last:
  assumes k: "kfs_inv s D base H" and t: "ftabs s fp = Some fs" and i: "i < FILES_STRUCT_NENTRY"
    and c: "status (fd_array fs ! i) = FD_CLOSED" "node (fd_array fs ! i) = Some n" and H: "H fp i = 1"
  shows "\<exists>s'. fd_array_release fp i s = Some s' \<and> kfs_inv s' D base (H(fp := (H fp)(i := 0))) \<and> entry_status s' fp i = Some FD_NONE \<and>
    refs s n = refs s' n + 1 \<and> (inodes (nodes s') n = None \<longleftrightarrow> base n + refs s n = 1)"
proof -
  note len = entry_at(2) [OF k t i]
  from release_ok [OF k t i] H c(1) obtain s' f where s': "fd_array_release fp i s = Some s'" "kfs_inv s' D base (H(fp := (H fp)(i := 0)))"
    "ftabs s' = (ftabs s)(fp \<mapsto> fs\<lparr>fd_array := (fd_array fs)[i := f]\<rparr>)" "status f = FD_NONE" by auto
  have r: "refs s n = refs s' n + 1"
    using refs_upd [OF kfs_invD(1) [OF k] t len s'(3), of n] c s'(4) by (simp add: holds_def)
  from kfs_invD(3) [OF s'(2)] obtain C B where "\<And>n. inodes (nodes s') n \<noteq> None \<longleftrightarrow> 0 < base n + refs s' n" by (rule vfs_invE) blast
  then have "inodes (nodes s') n = None \<longleftrightarrow> base n + refs s' n = 0" by (metis gr0I less_irrefl)
  moreover have "entry_status s' fp i = Some FD_NONE" using s'(3,4) i len by (simp add: entry_status_def)
  ultimately show ?thesis using s'(1,2) r by auto
qed

text \<open>C26: A descriptor closed while other threads use it, however many, stays allocated, and its file alive, until
  the last of them lets go: the close and every release but the last leave the entry closed, its node in memory, and
  nothing that is opened meanwhile gets the entry; the last release frees the entry and gives up the node, which
  goes away exactly if that was its last reference.\<close>

theorem close_deferred:
  assumes "kfs_inv s D base H" "ftabs s fp = Some fs" "i < FILES_STRUCT_NENTRY"
    "status (fd_array fs ! i) = FD_OPENED" "node (fd_array fs ! i) = Some n" "0 < H fp i"
  shows "\<exists>s1 s2. fd_array_close fp i s = Some s1 \<and>
    (\<forall>k < H fp i. \<exists>t. releases k fp i s1 = Some t \<and> entry_status t fp i = Some FD_CLOSED \<and> inodes (nodes t) n \<noteq> None \<and> refs t n = refs s n \<and>
      (\<forall>m ret r s'. fd_array_alloc fp m t = Some (ret, r, s') \<longrightarrow> r \<noteq> Some i)) \<and>
    releases (H fp i) fp i s1 = Some s2 \<and> kfs_inv s2 D base (H(fp := (H fp)(i := 0))) \<and> entry_status s2 fp i = Some FD_NONE \<and>
    refs s n = refs s2 n + 1 \<and> (inodes (nodes s2) n = None \<longleftrightarrow> base n + refs s n = 1)"
proof -
  note k = assms(1) and t = assms(2) and i = assms(3)
  let ?g = "\<lambda>f. f\<lparr>status := FD_CLOSED, fopen_count := fopen_count f - 1\<rparr>"
  let ?s1 = "upd_file fp i ?g s" and ?fs1 = "fs\<lparr>fd_array := (fd_array fs)[i := ?g (fd_array fs ! i)]\<rparr>"
  note len = entry_at(2) [OF k t i]
  have c: "fd_array_close fp i s = Some ?s1" by (rule close_busy [OF k t i assms(4)]) (simp add: assms(6))
  from close_ok [OF k t i assms(4)] c have k1: "kfs_inv ?s1 D base H" by simp
  have u: "ftabs ?s1 = (ftabs s)(fp \<mapsto> ?fs1)" using t by (simp add: upd_file_def)
  have st: "status (fd_array ?fs1 ! i) = FD_CLOSED" "node (fd_array ?fs1 ! i) = Some n" using len assms(5) by simp_all
  have r: "refs ?s1 n = refs s n" using refs_upd [OF kfs_invD(1) [OF k] t len u, of n] assms(4,5) by (simp add: holds_def)
  have t1: "ftabs ?s1 fp = Some ?fs1" using u by simp
  note rel = releases_closed [OF k1 t1 i st, unfolded r]
  have each: "\<exists>t. releases j fp i ?s1 = Some t \<and> entry_status t fp i = Some FD_CLOSED \<and> inodes (nodes t) n \<noteq> None \<and> refs t n = refs s n \<and>
      (\<forall>m ret r s'. fd_array_alloc fp m t = Some (ret, r, s') \<longrightarrow> r \<noteq> Some i)" if "j < H fp i" for j
  proof -
    from rel [OF that] obtain t fs' where "releases j fp i ?s1 = Some t" "kfs_inv t D base (H(fp := (H fp)(i := H fp i - j)))"
      "ftabs t fp = Some fs'" "status (fd_array fs' ! i) = FD_CLOSED" "node (fd_array fs' ! i) = Some n" "refs t n = refs s n" by blast
    then show ?thesis using closed_kept [of t D base _ fp fs' i n] i by blast
  qed
  from assms(6) obtain m where m: "H fp i = Suc m" by (cases "H fp i") simp_all
  then have one: "m < H fp i" "H fp i - m = 1" by simp_all
  from rel [OF one(1), unfolded one(2)] obtain t fs' where t': "releases m fp i ?s1 = Some t" "kfs_inv t D base (H(fp := (H fp)(i := 1)))"
    "ftabs t fp = Some fs'" "status (fd_array fs' ! i) = FD_CLOSED" "node (fd_array fs' ! i) = Some n" "refs t n = refs s n"
    by blast
  from release_last [OF t'(2,3) i t'(4,5)] obtain s2 where s2: "fd_array_release fp i t = Some s2"
    "kfs_inv s2 D base (H(fp := (H fp)(i := 0)))" "entry_status s2 fp i = Some FD_NONE" "refs t n = refs s2 n + 1"
    "inodes (nodes s2) n = None \<longleftrightarrow> base n + refs t n = 1" by auto
  have "releases (H fp i) fp i ?s1 = Some s2" using t'(1) s2(1) m by simp
  then show ?thesis using c each s2 t'(6) by (intro exI [of _ ?s1] exI [of _ s2]) simp
qed

text \<open>Two holders of entry 0.\<close>

lemma close_deferred_witness:
  "\<exists>s s' s1 s2 s3. fd_array_acquire 7 0 kfs_open = Some s \<and> fd_array_acquire 7 0 s = Some s' \<and> fd_array_close 7 0 s' = Some s1 \<and>
    fd_array_release 7 0 s1 = Some s2 \<and> entry_status s2 7 0 = Some FD_CLOSED \<and>
    fd_array_release 7 0 s2 = Some s3 \<and> entry_status s3 7 0 = Some FD_NONE \<and> inodes (nodes s3) 200 \<noteq> None"
proof -
  let ?a = "\<lambda>f. f\<lparr>fopen_count := fopen_count f + 1\<rparr>" and ?z = "\<lambda>_ _. 0 :: nat"
  let ?fs = "\<lambda>f. fs_one\<lparr>fd_array := (fd_array fs_one)[0 := f]\<rparr>"
  have z: "0 < FILES_STRUCT_NENTRY" by (simp add: nentry)
  have len: "0 < length (fd_array fs_one)" by simp
  have t: "ftabs kfs_open 7 = Some (?fs (open_file 0))" by (simp add: kfs_open_ok(2))
  from acquire_ok [OF kfs_open_ok(1) t z] len obtain s where s: "fd_array_acquire 7 0 kfs_open = Some s"
    "s = upd_file 7 0 ?a kfs_open" "kfs_inv s D_two base_small (?z(7 := (?z 7)(0 := 1)))" by (auto simp: open_file_def)
  have ts: "ftabs s 7 = Some (?fs ((open_file 0)\<lparr>fopen_count := 2\<rparr>))" using len by (simp add: s(2) upd_file_def t) (simp add: open_file_def)
  from acquire_ok [OF s(3) ts z] len obtain s' where s': "fd_array_acquire 7 0 s = Some s'"
    "s' = upd_file 7 0 ?a s" "kfs_inv s' D_two base_small (?z(7 := (?z 7)(0 := 2)))" by (auto simp: open_file_def numeral_2_eq_2)
  have ts': "ftabs s' 7 = Some (?fs ((open_file 0)\<lparr>fopen_count := 3\<rparr>))" using len by (simp add: s'(2) upd_file_def ts)
  have h: "(?z(7 := (?z 7)(0 := 2))) 7 0 = 2" "status (fd_array (?fs ((open_file 0)\<lparr>fopen_count := 3\<rparr>)) ! 0) = FD_OPENED"
    "node (fd_array (?fs ((open_file 0)\<lparr>fopen_count := 3\<rparr>)) ! 0) = Some 200" "(0 :: nat) < 2" using len by (simp_all add: open_file_def)
  from close_deferred [OF s'(3) ts' z h(2,3), unfolded h(1), OF h(4)] obtain s1 s3 where c: "fd_array_close 7 0 s' = Some s1"
    "\<forall>k < (2 :: nat). \<exists>t. releases k 7 0 s1 = Some t \<and> entry_status t 7 0 = Some FD_CLOSED \<and> inodes (nodes t) 200 \<noteq> None \<and>
      refs t 200 = refs s' 200 \<and> (\<forall>m ret r s'. fd_array_alloc 7 m t = Some (ret, r, s') \<longrightarrow> r \<noteq> Some 0)" "releases 2 7 0 s1 = Some s3"
    "entry_status s3 7 0 = Some FD_NONE" "inodes (nodes s3) 200 = None \<longleftrightarrow> base_small 200 + refs s' 200 = 1"
    by (elim exE conjE) (rule that)
  from c(2) obtain s2 where s2: "fd_array_release 7 0 s1 = Some s2" "entry_status s2 7 0 = Some FD_CLOSED" by (force dest: spec [of _ 1])
  have "refs s 200 = refs kfs_open 200" using refs_upd [OF kfs_invD(1) [OF kfs_open_ok(1)] t, of 0 s "?a (open_file 0)" 200] len
    by (simp add: s(2) upd_file_def t holds_def)
  moreover have "refs s' 200 = refs s 200" using refs_upd [OF kfs_invD(1) [OF s(3)] ts, of 0 s' "?a ((open_file 0)\<lparr>fopen_count := 2\<rparr>)" 200] len
    by (simp add: s'(2) upd_file_def ts holds_def)
  moreover have "fd_array_release 7 0 s2 = Some s3" using c(3) s2(1) by (simp add: numeral_2_eq_2)
  ultimately show ?thesis using s(1) s'(1) c s2 by (auto simp: kfs_open_ok(3) base_small_def)
qed

text \<open>\<open>fd_array_alloc\<close> gives the lowest free descriptor, or the one asked for; it reports \<open>-E_MAX_OPEN\<close>
  exactly if none is free, \<open>-E_BUSY\<close> if the one asked for is in use and \<open>-E_INVAL\<close> if there is no such
  descriptor, and changes nothing then.\<close>

lemma descriptor_allocation:
  assumes "kfs_inv s D base H" "ftabs s fp = Some fs" "0 < files_count fs"
  shows "\<exists>ret r s'. fd_array_alloc fp n s = Some (ret, r, s') \<and> kfs_inv s' D base H \<and>
    (case r of
       Some i \<Rightarrow> ret = 0 \<and> i < FILES_STRUCT_NENTRY \<and> entry_status s fp i = Some FD_NONE \<and> entry_status s' fp i = Some FD_INIT \<and>
         (if n = NO_FD then \<forall>j < i. entry_status s fp j \<noteq> Some FD_NONE else n = int i)
     | None \<Rightarrow> s' = s \<and>
         (if n = NO_FD then ret = - E_MAX_OPEN \<and> (\<forall>j < FILES_STRUCT_NENTRY. entry_status s fp j \<noteq> Some FD_NONE)
          else if 0 \<le> n \<and> n < int FILES_STRUCT_NENTRY then ret = - E_BUSY \<and> entry_status s fp (nat n) \<noteq> Some FD_NONE
          else ret = - E_INVAL))"
proof -
  note len = tab_okD(1) [OF kfs_invD(2) [OF assms(1,2)]]
  have st: "entry_status s fp j = Some (status (fd_array fs ! j))" if "j < FILES_STRUCT_NENTRY" for j
    using that assms(2) by (simp add: entry_status_def)
  from fd_alloc_ok [OF assms, of n] obtain ret r where a: "fd_array_alloc fp n s = Some (ret, r, case r of None \<Rightarrow> s | Some i \<Rightarrow> fd_allocd fp i s)"
    "alloc_spec (fd_array fs) n ret r" "kfs_inv (case r of None \<Rightarrow> s | Some i \<Rightarrow> fd_allocd fp i s) D base H" by blast
  show ?thesis
  proof (cases r)
    case None
    then show ?thesis using a st len by (auto simp: alloc_spec_def testfd_def)
  next
    case (Some i)
    then have i: "i < FILES_STRUCT_NENTRY" "status (fd_array fs ! i) = FD_NONE" using a(2) len by (auto simp: alloc_spec_def)
    have "entry_status (fd_allocd fp i s) fp i = Some FD_INIT"
      using alloc_entry(1) [OF assms(1,2) i] i(1) len by (simp add: entry_status_def)
    then show ?thesis using a st i Some by (auto simp: alloc_spec_def)
  qed
qed

lemma descriptor_allocation_witness:
  "\<exists>s'. fd_array_alloc 7 NO_FD kfs_open = Some (0, Some 1, s') \<and> entry_status s' 7 1 = Some FD_INIT"
proof -
  let ?fs = "fs_one\<lparr>fd_array := (fd_array fs_one)[0 := open_file 0]\<rparr>"
  have t: "ftabs kfs_open 7 = Some ?fs" by (simp add: kfs_open_ok(2))
  have st: "entry_status kfs_open 7 0 = Some FD_OPENED" "entry_status kfs_open 7 1 = Some FD_NONE"
    using small_tab(2) [of 1] by (auto simp: entry_status_def t nentry open_file_def)
  from descriptor_allocation [OF kfs_open_ok(1) t, of NO_FD] st obtain i s' where
    i: "fd_array_alloc 7 NO_FD kfs_open = Some (0, Some i, s')" "entry_status kfs_open 7 i = Some FD_NONE"
      "\<forall>j < i. entry_status kfs_open 7 j \<noteq> Some FD_NONE" "entry_status s' 7 i = Some FD_INIT"
    by (fastforce simp: fs_one_def nentry split: option.splits)
  have "i = 1" using i(2,3) st by (metis less_one linorder_neqE_nat option.inject fd_status.distinct(3))
  then show ?thesis using i by blast
qed


subsection \<open>Files\<close>

text \<open>C27: \<open>file_open\<close> of a relative name, without creation or truncation, never fails an assertion and
  keeps the invariant: it opens the lowest free descriptor on the node of an inode that the current
  directory has under the name, at offset 0 or at the end for \<open>O_APPEND\<close>; or it reports that the table
  is full, that memory is short, that there is no such entry or that a directory cannot be written,
  and the open descriptors and all files are as before.\<close>

theorem file_open_correct:
  assumes "kfs_inv s D base H" "ftabs s fp = Some fs" "0 < files_count fs"
    "pwd fs = Some n" "sfs_info n (nodes s) = Some sin" "itype (din sin) = SFS_TYPE_DIR"
    "rel_name m pth nm" "apart (nodes s) pth (length nm)" "bound_refs (\<lambda>n. base n + refs s n) 3"
    "flags AND O_ACCMODE \<noteq> 3" "flags AND O_TRUNC = 0" "flags AND O_CREAT = 0"
  shows "\<exists>ret m' s' fs'. file_open fp pth flags m s = Some (ret, m', s') \<and> kfs_inv s' D base H \<and> same_data D (nodes s) (nodes s') \<and>
    ftabs s' = (ftabs s)(fp \<mapsto> fs') \<and> open_spec D fs (nodes s) (din sin) nm flags ret fs' (nodes s')"
  using assms by (rule file_open_ok)

lemma small_nodes: "nodes kfs_small = vfs_two" "sfs vfs_two = fs_two" "mallocs vfs_two = [Some 5000, Some 6000, Some 7000]"
  "apart vfs_two 20 1" "\<not> short 3 vfs_two"
  by (simp_all add: kfs_small_def vfs_two_def enter_def sfs_set_links_def vfs_none_def apart_def kmalloc_def short_def)

lemma small_name: "rel_name (\<lambda>x. if x = 20 then 97 else 0) 20 [97]"
  by (simp add: rel_name_def SFS_MAX_FNAME_LEN_def)

lemma small_bound: "bound_refs (\<lambda>n. base_small n + refs kfs_small n) 3"
  by (simp add: bound_refs_def base_small_def refs_small)

lemma file_open_correct_witness:
  "\<exists>m' s'. file_open 7 20 O_RDWR (\<lambda>x. if x = 20 then 97 else 0) kfs_small = Some (0, m', s') \<and>
    (\<exists>k sk. sfs_info k (nodes s') = Some sk \<and> ino sk = 4)"
proof -
  let ?m = "\<lambda>x. if x = 20 then 97 else (0 :: u8)"
  have z: "0 < FILES_STRUCT_NENTRY" by (simp add: nentry)
  have pw: "pwd fs_one = Some 100" "0 < files_count fs_one" by (simp_all add: fs_one_def)
  from file_open_correct [OF kfs_small_ok small_tab(1) pw(2,1) _ _ small_name _ small_bound, of _ O_RDWR] info_two(1) small_nodes
  obtain ret m' s' fs' where
    o: "file_open 7 20 O_RDWR ?m kfs_small = Some (ret, m', s')" "open_spec D_two fs_one vfs_two root_d [97] O_RDWR ret fs' (nodes s')"
    by (auto simp: O_defs)
  have n0: "alloc_spec (fd_array fs_one) NO_FD 0 (Some i) \<Longrightarrow> i = 0" for i
    using small_tab(2) [OF z] by (cases i) (auto simp: alloc_spec_def)
  have nf: "\<not> alloc_spec (fd_array fs_one) NO_FD ret None"
    using small_tab(2) [OF z] by (auto simp: alloc_spec_def intro!: exI [of _ 0])
  have "ret = 0 \<and> (\<exists>k sk. sfs_info k (nodes s') = Some sk \<and> ino sk = 4)"
    using o(2) nf n0 entries_two small_nodes(5) by (auto simp: open_spec_def small_nodes(2) D_two_def)
  then show ?thesis using o(1) by blast
qed

text \<open>C28: Descriptors on the same file see one file: when the disk has room, what \<open>file_write\<close> writes through
  one descriptor is what \<open>file_read\<close> reads at the same offset through another, of the same or of another
  process; both succeed in full, no other file changes and the invariant is kept.\<close>

theorem write_seen_by_read:
  assumes "kfs_inv s D base H" "ftabs s fp = Some fs" "ftabs s fq = Some gs" "0 < files_count fs" "0 < files_count gs"
    "i < FILES_STRUCT_NENTRY" "j < FILES_STRUCT_NENTRY" "fp = fq \<longrightarrow> i \<noteq> j"
    "status (fd_array fs ! i) = FD_OPENED" "writable (fd_array fs ! i)" "node (fd_array fs ! i) = Some n" "pos (fd_array fs ! i) = int o0"
    "status (fd_array gs ! j) = FD_OPENED" "readable (fd_array gs ! j)" "node (fd_array gs ! j) = Some n" "pos (fd_array gs ! j) = int o0"
    "sfs_info n (nodes s) = Some sin" "itype (din sin) = SFS_TYPE_FILE" "o0 \<le> isize (din sin)"
    "o0 + len \<le> MAX_BLOCKS * SFS_BLKSIZE" "room (sfs (nodes s)) (din sin) (blocks_for (o0 + len))"
  shows "\<exists>s1 m2 s2 D'. file_write fp (int i) src len m s = Some (0, len, m, s1) \<and>
    file_read fq (int j) dst len m s1 = Some (0, len, m2, s2) \<and> mem_bytes m2 dst len = mem_bytes m src len \<and>
    kfs_inv s2 D' base H \<and> (\<forall>k. k \<noteq> n \<longrightarrow> node_data (nodes s2) k = node_data (nodes s) k)"
proof -
  from file_write_ok [OF assms(1,2,4,6,9,10,11,17,18,12,19,20), of src m] assms(21) obtain v sin' where
    w: "file_write fp (int i) src len m s = Some (0, len, m, upd_file fp i (set_pos (int (o0 + len))) (s\<lparr>nodes := v\<rparr>))"
      "kfs_inv (upd_file fp i (set_pos (int (o0 + len))) (s\<lparr>nodes := v\<rparr>)) (D(ino sin \<mapsto> din sin')) base H"
      "sfs_info n v = Some sin'" "itype (din sin') = SFS_TYPE_FILE"
      "node_data v n = Some (upd_bytes (contents (sfs (nodes s)) sin) o0 (mem_bytes m src len))"
      "\<And>k. k \<noteq> n \<Longrightarrow> node_data v k = node_data (nodes s) k" by blast
  let ?s1 = "upd_file fp i (set_pos (int (o0 + len))) (s\<lparr>nodes := v\<rparr>)" and ?D = "D(ino sin \<mapsto> din sin')"
  let ?gs = "if fp = fq then fs\<lparr>fd_array := (fd_array fs)[i := set_pos (int (o0 + len)) (fd_array fs ! i)]\<rparr> else gs"
  have t: "ftabs ?s1 fq = Some ?gs" using assms(2,3) by (auto simp: upd_file_def)
  have nd: "nodes ?s1 = v" by (simp add: upd_file_def)
  have e: "fd_array ?gs ! j = fd_array gs ! j" "files_count ?gs = files_count gs" using assms(2,3,8) by auto
  have ct: "contents (sfs v) sin' = upd_bytes (contents (sfs (nodes s)) sin) o0 (mem_bytes m src len)"
    using w(3,5) by (simp add: node_data_def)
  have lc: "length (contents (sfs (nodes s)) sin) = isize (din sin)" "length (contents (sfs v) sin') = isize (din sin')"
    by (simp_all add: contents_def)
  then have sz: "isize (din sin') = max (isize (din sin)) (o0 + len)"
    using assms(19) unfolding ct by (auto simp: upd_bytes_def mem_bytes_def)
  then have c: "min len (isize (din sin') - o0) = len" by simp
  have small: "o0 + len < 2 ^ 63" "o0 < SFS_MAX_FILE_SIZE" using assms(20) by (auto simp: max_blocks_bytes max_file_size)
  have st: "status (fd_array ?gs ! j) = FD_OPENED" "readable (fd_array ?gs ! j)" "node (fd_array ?gs ! j) = Some n" "pos (fd_array ?gs ! j) = int o0"
    "0 < files_count ?gs" "sfs_info n (nodes ?s1) = Some sin'"
    unfolding e nd using assms(5,13-16) w(3) by simp_all
  from file_read_ok [OF w(2) t st(5) assms(7) st(1-3,6) w(4) st(4) small, of dst m, unfolded c nd] obtain v2 where
    r: "file_read fq (int j) dst len m ?s1 = Some (0, len, blit dst len (\<lambda>k. contents (sfs v) sin' ! (o0 + k)) m,
        upd_file fq j (set_pos (int (o0 + len))) (?s1\<lparr>nodes := v2\<rparr>))"
      "kfs_inv (upd_file fq j (set_pos (int (o0 + len))) (?s1\<lparr>nodes := v2\<rparr>)) ?D base H" "same_data ?D v v2" "same_nodes v v2" by blast
  have bytes: "contents (sfs v) sin' ! (o0 + k) = m (src + k)" if "k < len" for k
    unfolding ct using that assms(19) lc(1) by (simp add: upd_bytes_def mem_bytes_def nth_append)
  have "mem_bytes (blit dst len (\<lambda>k. contents (sfs v) sin' ! (o0 + k)) m) dst len = mem_bytes m src len"
    unfolding mem_bytes_def using bytes by (simp add: blit_def)
  moreover have "node_data v2 k = node_data (nodes s) k" if "k \<noteq> n" for k
  proof -
    have "vfs_inv v ?D (\<lambda>n. base n + refs ?s1 n) (opens ?s1)" using kfs_invD(3) [OF w(2)] nd by simp
    then have "fc (sfs v2) (din x) = fc (sfs v) (din x)" if "sfs_info k v = Some x" for x
      using vfs_inv_dir(1) [OF _ that] r(3) by (auto simp: same_data_def)
    then have "node_data v2 k = node_data v k"
      using same_nodesD(1) [OF r(4), of k] by (cases "sfs_info k v") (auto simp: node_data_def contents_def)
    then show ?thesis using w(6) [OF that] by simp
  qed
  moreover have "nodes (upd_file fq j (set_pos (int (o0 + len))) (?s1\<lparr>nodes := v2\<rparr>)) = v2" by (simp add: upd_file_def)
  ultimately show ?thesis using w(1) r(1,2) by metis
qed

lemma write_seen_by_read_witness:
  "\<exists>s1 m2 s2. file_write 7 (int 0) 3000 5 (\<lambda>_. 9) kfs_both = Some (0, 5, \<lambda>_. 9, s1) \<and>
    file_read 7 (int 1) 8000 5 (\<lambda>_. 9) s1 = Some (0, 5, m2, s2) \<and> mem_bytes m2 8000 5 = mem_bytes (\<lambda>_. 9) 3000 5"
proof -
  let ?fs = "fs_one\<lparr>fd_array := (fd_array fs_one)[0 := open_file 0, 1 := open_file 1]\<rparr>"
  let ?sin = "\<lparr>din = file_d, ino = 4, dirty = False, reclaim_count = 1\<rparr>"
  have t: "ftabs kfs_both 7 = Some ?fs" by (simp add: kfs_both_ok(2))
  have n: "sfs_info 200 (nodes kfs_both) = Some ?sin" by (simp add: kfs_both_ok(3) info_two)
  have e: "fd_array ?fs ! 0 = open_file 0" "fd_array ?fs ! 1 = open_file 1" "0 < files_count ?fs" by (simp_all, simp add: fs_one_def)
  have b: "blocks_for 5 = 1" by (simp add: blocks_for_def SFS_BLKSIZE_def)
  have r: "room (sfs (nodes kfs_both)) (din ?sin) (blocks_for (0 + 5))"
    by (simp add: room_def b kfs_both_ok(4) SFS_NDIRECT_def)
  have f: "status (open_file i) = FD_OPENED" "writable (open_file i)" "readable (open_file i)" "node (open_file i) = Some 200" "pos (open_file i) = int 0" for i
    by (simp_all add: open_file_def)
  from write_seen_by_read [OF kfs_both_ok(1) t t e(3) e(3), of 0 1 200 0 ?sin 5 3000 "\<lambda>_. 9" 8000, unfolded e(1,2)] f n r show ?thesis
    by (auto simp: nentry max_blocks_bytes)
qed


text \<open>\<open>vfs_open\<close> with \<open>O_CREAT\<close> and \<open>O_EXCL\<close> of an existing file reports \<open>-E_EXISTS\<close> but keeps the reference
  the lookup took: the count is one more than all holders together, so the node is never reclaimed.\<close>

lemma excl_open_leaks:
  assumes "kfs_inv s D base H" "ftabs s fp = Some fs" "pwd fs = Some n" "sfs_info n (nodes s) = Some sin" "itype (din sin) = SFS_TYPE_DIR"
    "rel_name m pth nm" "apart (nodes s) pth (length nm)" "bound_refs (\<lambda>n. base n + refs s n) 3" "\<not> short 3 (nodes s)"
    "(k0, nm) \<in> entries (sfs (nodes s)) (din sin)" "k0 \<noteq> 0"
    "flags AND O_ACCMODE \<noteq> 3" "flags AND O_TRUNC = 0" "flags AND O_CREAT \<noteq> 0" "flags AND O_EXCL \<noteq> 0"
  shows "\<exists>m' s' k nd. vfs_open fp pth flags m s = Some (- E_EXISTS, None, m', s') \<and> ftabs s' = ftabs s \<and>
    inodes (nodes s') k = Some nd \<and> ref_count nd = int (base k + refs s' k) + 1"
proof -
  from vfs_lookup_ok [OF assms(1-8)] obtain ret r m' v where
    l: "vfs_lookup fp pth m s = Some (ret, r, m', s\<lparr>nodes := v\<rparr>)" "lookup_spec (nodes s) (din sin) nm ret r v"
      "vfs_inv v D (counted r (\<lambda>n. base n + refs s n)) (opens s)" by blast
  obtain k where r: "r = Some k" "ret = 0"
    using l(2) assms(9-11) by (auto simp: lookup_spec_def split: option.splits)
  from l(3) obtain C B where i: "counts_ok v (counted r (\<lambda>n. base n + refs s n)) (opens s)"
    "\<And>n. inodes v n \<noteq> None \<longleftrightarrow> 0 < counted r (\<lambda>n. base n + refs s n) n" by (rule vfs_invE) blast
  have "0 < counted r (\<lambda>n. base n + refs s n) k" using r(1) by (simp add: counted_def)
  then obtain nd where nd: "inodes v k = Some nd" using i(2) [of k] by blast
  have "refs (s\<lparr>nodes := v\<rparr>) k = refs s k" by (simp add: refs_def)
  then have "ref_count nd = int (base k + refs (s\<lparr>nodes := v\<rparr>) k) + 1"
    using counts_okD(1) [OF i(1) nd] r(1) by (simp add: counted_def)
  moreover have "vfs_open fp pth flags m s = Some (- E_EXISTS, None, m', s\<lparr>nodes := v\<rparr>)"
    using l(1) r assms(12-15) by (simp add: vfs_open_def)
  ultimately show ?thesis using nd by (intro exI [of _ m'] exI [of _ "s\<lparr>nodes := v\<rparr>"] exI [of _ k] exI [of _ nd]) simp
qed

lemma excl_open_leaks_witness:
  "\<exists>m' s' k nd. vfs_open 7 20 (O_RDWR OR O_CREAT OR O_EXCL) (\<lambda>x. if x = 20 then 97 else 0) kfs_small = Some (- E_EXISTS, None, m', s') \<and>
    inodes (nodes s') k = Some nd \<and> ref_count nd = int (base_small k + refs s' k) + 1"
proof -
  have pw: "pwd fs_one = Some 100" by (simp add: fs_one_def)
  show ?thesis
    using excl_open_leaks [OF kfs_small_ok small_tab(1) pw _ _ small_name _ small_bound, of _ 4 "O_RDWR OR O_CREAT OR O_EXCL"]
      info_two(1) small_nodes entries_two
    by (auto simp: O_defs)
qed

text \<open>No file is ever created: a successful \<open>vfs_open\<close>, whatever the flags, is one of a node that the lookup
  of the whole path found.\<close>

lemma open_never_creates:
  assumes "vfs_open fp pth flags m s = Some (0, r, m', s')"
  shows "\<exists>n m1 s1. vfs_lookup fp pth m s = Some (0, Some n, m1, s1) \<and> r = Some n"
proof (cases "vfs_lookup fp pth m s")
  case None
  then show ?thesis using assms by (auto simp: vfs_open_def split: if_splits)
next
  case (Some p)
  obtain ret r1 m1 s1 where p: "p = (ret, r1, m1, s1)" by (cases p)
  have nc: "vop_create d t = None" for d t by (cases "vop_op VopCreate d (nodes t)") (simp_all add: vop_create_def)
  have ret: "ret = 0"
  proof (rule ccontr)
    assume "ret \<noteq> 0"
    then show False using assms Some p
      by (auto simp: vfs_open_def Option.bind_eq_Some_conv nc split: if_splits)
  qed
  then obtain n where "r1 = Some n" "vfs_open_node n flags s1 = Some (0, r, s')"
    using assms Some p by (auto simp: vfs_open_def Option.bind_eq_Some_conv split: if_splits)
  moreover from this have "r = Some n"
    by (auto simp: vfs_open_node_def Option.bind_eq_Some_conv split: if_splits)
  ultimately show ?thesis using Some p ret by simp
qed

lemma open_never_creates_witness:
  "\<exists>r m' s'. vfs_open 7 20 O_RDWR (\<lambda>x. if x = 20 then 97 else 0) kfs_small = Some (0, r, m', s') \<and>
    (\<exists>n m1 s1. vfs_lookup 7 20 (\<lambda>x. if x = 20 then 97 else 0) kfs_small = Some (0, Some n, m1, s1) \<and> r = Some n)"
proof -
  let ?m = "\<lambda>x. if x = 20 then 97 else (0 :: u8)"
  have pw: "pwd fs_one = Some 100" by (simp add: fs_one_def)
  let ?R = "\<lambda>n. base_small n + refs kfs_small n"
  from vfs_lookup_ok [OF kfs_small_ok small_tab(1) pw _ _ small_name _ small_bound] info_two(1) small_nodes obtain ret r m' v where
    l: "vfs_lookup 7 20 ?m kfs_small = Some (ret, r, m', kfs_small\<lparr>nodes := v\<rparr>)" "lookup_spec vfs_two root_d [97] ret r v"
      "vfs_inv v D_two (counted r ?R) (opens kfs_small)" by auto
  obtain k sk where r: "r = Some k" "ret = 0" "sfs_info k v = Some sk" "ino sk = 4"
    using l(2) entries_two small_nodes(2,5) by (auto simp: lookup_spec_def split: option.splits)
  have "din sk = file_d" using vfs_inv_dir(1) [OF l(3) r(3)] r(4) by (simp add: D_two_def)
  then have ty: "itype (din sk) \<noteq> SFS_TYPE_DIR" by simp
  let ?s = "kfs_small\<lparr>nodes := v\<rparr>"
  have "vfs_inv (nodes ?s) D_two (?R(k := ?R k + 1)) (opens kfs_small)" "sfs_info k (nodes ?s) = Some sk" using l(3) r by (simp_all add: counted_def)
  from vfs_open_node_ok [OF this(1) _ this(2), of O_RDWR] ty obtain v' where "vfs_open_node k O_RDWR ?s = Some (0, Some k, ?s\<lparr>nodes := v'\<rparr>)"
    by (auto simp: refs_small O_defs)
  then have o: "vfs_open 7 20 O_RDWR ?m kfs_small = Some (0, Some k, m', ?s\<lparr>nodes := v'\<rparr>)"
    using l(1) r(1,2) by (simp add: vfs_open_def O_defs)
  show ?thesis using o open_never_creates [OF o] by blast
qed

subsection \<open>Processes\<close>

text \<open>C29: \<open>dup_files\<close> gives a new process the current directory and every open descriptor of its parent, at
  the same offset and with the same rights, as entries of its own; the parent's table stays, each node
  is counted once more for each entry it got, and the file system is not touched.\<close>

theorem fork_copies_descriptors:
  assumes "kfs_inv s D base H" "ftabs s child = Some ft" "ftabs s parent = Some ff" "child \<noteq> parent"
    "files_count ft = 0" "0 < files_count ff" "pwd ft = None" "\<forall>j < FILES_STRUCT_NENTRY. status (fd_array ft ! j) = FD_NONE"
    "bound_refs (\<lambda>n. base n + refs s n) (FILES_STRUCT_NENTRY + 1)"
  shows "\<exists>s' ft'. dup_files child parent s = Some (0, s') \<and> kfs_inv s' D base H \<and> ftabs s' = (ftabs s)(child \<mapsto> ft') \<and>
    pwd ft' = pwd ff \<and> sfs (nodes s') = sfs (nodes s) \<and>
    (\<forall>i < FILES_STRUCT_NENTRY. let f = fd_array ff ! i; f' = fd_array ft' ! i in
       if status f = FD_OPENED then status f' = FD_OPENED \<and> node f' = node f \<and> pos f' = pos f \<and>
         readable f' = readable f \<and> writable f' = writable f \<and> fd f' = int i \<and> fopen_count f' = 1
       else status f' = FD_NONE) \<and>
    (\<forall>n. refs s' n = refs s n + card {i. i < FILES_STRUCT_NENTRY \<and> status (fd_array ff ! i) = FD_OPENED \<and> node (fd_array ff ! i) = Some n} +
       of_bool (pwd ff = Some n))"
proof -
  note k = assms(1)
  have b: "base n + refs s n + FILES_STRUCT_NENTRY + 1 < 0x10000" for n using assms(9) by (simp add: bound_refs_def add.assoc)
  have none: "\<And>j. j < FILES_STRUCT_NENTRY \<Longrightarrow> status (fd_array ft ! j) = FD_NONE" using assms(8) by blast
  let ?fa = "dup_array 0 FILES_STRUCT_NENTRY (fd_array ff) (fd_array ft)"
  let ?ft = "ft\<lparr>pwd := pwd ff, fd_array := ?fa\<rparr>"
  from dup_files_ok [OF k assms(2-7) none b] obtain s' where s': "dup_files child parent s = Some (0, s')" "kfs_inv s' D base H"
    "sfs (nodes s') = sfs (nodes s)" "ftabs s' = (ftabs s)(child \<mapsto> ?ft)" by blast
  have nth: "?fa ! i = (if status (fd_array ff ! i) = FD_OPENED then dup_entry (fd_array ff ! i) (fd_array ft ! i) else fd_array ft ! i)"
    if "i < FILES_STRUCT_NENTRY" for i using dup_array_nth(1) [OF that] that by simp
  have fdi: "fd (fd_array ft ! i) = int i" if "i < FILES_STRUCT_NENTRY" for i
    using entry_okD(1) [OF entry_at(1) [OF k assms(2) that]] .
  have rf: "refs s' n = refs s n + card {i. i < FILES_STRUCT_NENTRY \<and> status (fd_array ff ! i) = FD_OPENED \<and> node (fd_array ff ! i) = Some n} +
       of_bool (pwd ff = Some n)" for n
  proof -
    have hd: "holds (?fa ! i) n \<longleftrightarrow> status (fd_array ff ! i) = FD_OPENED \<and> node (fd_array ff ! i) = Some n" if "i < FILES_STRUCT_NENTRY" for i
      using nth [OF that] none [OF that] by (simp add: holds_def dup_entry_def)
    have "opens_of n ?ft = (\<Sum>i < FILES_STRUCT_NENTRY. of_bool (holds (?fa ! i) n))"
      by (simp add: opens_of_def sum_list_sum_nth dup_array_nth(2) atLeast0LessThan)
    also have "\<dots> = (\<Sum>i < FILES_STRUCT_NENTRY. of_bool (status (fd_array ff ! i) = FD_OPENED \<and> node (fd_array ff ! i) = Some n))"
      by (rule sum.cong) (simp_all add: hd)
    also have "\<dots> = card {i. i < FILES_STRUCT_NENTRY \<and> status (fd_array ff ! i) = FD_OPENED \<and> node (fd_array ff ! i) = Some n}"
      by (simp add: sum_of_bool_eq Int_def)
    finally have o: "opens_of n ?ft = card {i. i < FILES_STRUCT_NENTRY \<and> status (fd_array ff ! i) = FD_OPENED \<and> node (fd_array ff ! i) = Some n}" .
    have "opens_of n ft = 0"
    proof -
      have "\<not> holds f n" if "f \<in> set (fd_array ft)" for f
        using that none tab_okD(1) [OF kfs_invD(2) [OF k assms(2)]] by (auto simp: in_set_conv_nth holds_def)
      then show ?thesis by (simp add: opens_of_def sum_list_eq_0_iff)
    qed
    then have "refs_of n ft = 0" using assms(7) by (simp add: refs_of_def)
    then show ?thesis
      using tsum_upd [OF kfs_invD(1) [OF k] assms(2), of "refs_of n" ?ft] o by (simp add: refs_def s'(4) refs_of_def)
  qed
  have "let f = fd_array ff ! i; f' = fd_array ?ft ! i in
       if status f = FD_OPENED then status f' = FD_OPENED \<and> node f' = node f \<and> pos f' = pos f \<and>
         readable f' = readable f \<and> writable f' = writable f \<and> fd f' = int i \<and> fopen_count f' = 1
       else status f' = FD_NONE" if "i < FILES_STRUCT_NENTRY" for i
    using nth [OF that] none [OF that] fdi [OF that] by (simp add: dup_entry_def Let_def)
  then show ?thesis using s' rf by (intro exI [of _ s'] exI [of _ ?ft] conjI) simp_all
qed

lemma fork_copies_descriptors_witness:
  "\<exists>s s' ft'. files_create (Some 9) kfs_both = (Some 9, s) \<and> dup_files 9 7 s = Some (0, s') \<and> ftabs s' 9 = Some ft' \<and>
    status (fd_array ft' ! 1) = FD_OPENED \<and> node (fd_array ft' ! 1) = Some 200"
proof -
  let ?ft = "\<lparr>pwd = None, fd_array = fd_array_init, files_count = 0\<rparr> :: files_struct"
  let ?fs = "fs_one\<lparr>fd_array := (fd_array fs_one)[0 := open_file 0, 1 := open_file 1]\<rparr>"
  have "ftabs kfs_both 9 = None" by (simp add: kfs_both_ok(2))
  from files_create_ok [OF kfs_both_ok(1) this] obtain s where s: "files_create (Some 9) kfs_both = (Some 9, s)"
    "kfs_inv s D_two base_small (\<lambda>_ _. 0)" "ftabs s = (ftabs kfs_both)(9 \<mapsto> ?ft)" by auto
  have t: "ftabs s 9 = Some ?ft" "ftabs s 7 = Some ?fs" by (simp_all add: s(3) kfs_both_ok(2))
  have "opens_of n ?ft = 0" for n by (auto simp: opens_of_def sum_list_eq_0_iff holds_def dest!: fd_init_none)
  then have "refs_of n ?ft = 0" for n by (simp add: refs_of_def)
  then have r: "refs s n = refs kfs_both n" for n
    using tsum_new [OF kfs_invD(1) [OF kfs_both_ok(1)], of 9 "refs_of n" ?ft] by (simp add: refs_def s(3) kfs_both_ok(2))
  have b: "bound_refs (\<lambda>n. base_small n + refs s n) (FILES_STRUCT_NENTRY + 1)"
    unfolding bound_refs_def nentry
  proof
    fix n show "base_small n + refs s n + (72 + 1) < 0x10000"
      using kfs_both_ok(5) [of n] by (cases "n = 200") (simp_all add: base_small_def r)
  qed
  have st: "\<forall>j < FILES_STRUCT_NENTRY. status (fd_array ?ft ! j) = FD_NONE" by (simp add: fd_array_init_def)
  have c: "0 < files_count ?fs" by (simp add: fs_one_def)
  from fork_copies_descriptors [OF s(2) t _ _ c _ st b] obtain s' ft' where f: "dup_files 9 7 s = Some (0, s')" "ftabs s' = (ftabs s)(9 \<mapsto> ft')"
    "\<forall>i < FILES_STRUCT_NENTRY. let f = fd_array ?fs ! i; f' = fd_array ft' ! i in
       if status f = FD_OPENED then status f' = FD_OPENED \<and> node f' = node f \<and> pos f' = pos f \<and>
         readable f' = readable f \<and> writable f' = writable f \<and> fd f' = int i \<and> fopen_count f' = 1
       else status f' = FD_NONE" by auto
  have "fd_array ?fs ! 1 = open_file 1" by simp
  then have "status (fd_array ft' ! 1) = FD_OPENED \<and> node (fd_array ft' ! 1) = Some 200"
    using f(3) [rule_format, of 1] by (simp add: Let_def open_file_def nentry)
  then show ?thesis using s(1) f by auto
qed

text \<open>One node for one file: loading an inode finds its node in the cache if there is one and counts it,
  or enters a new node that holds what the disk holds; the inode is the same in both cases.  It fails
  only if \<open>kmalloc\<close> does, and then nothing is entered.\<close>

lemma node_cached_once:
  assumes "vfs_inv s D R F" "D num = Some d" "bound_refs R 1"
  shows "\<exists>ret r s'. sfs_load_inode num s = Some (ret, r, s') \<and> same_data D s s' \<and> grows s s' \<and>
    (case r of None \<Rightarrow> ret = - E_NO_MEM \<and> short 2 s \<and> vfs_inv s' D R F \<and> (\<forall>n sin. sfs_info n s = Some sin \<longrightarrow> ino sin \<noteq> num)
     | Some n \<Rightarrow> ret = 0 \<and> vfs_inv s' D (R(n := R n + 1)) F \<and>
         (\<exists>sin. sfs_info n s' = Some sin \<and> ino sin = num \<and> din sin = d) \<and>
         (\<forall>m sin. sfs_info m s = Some sin \<longrightarrow> ino sin = num \<longrightarrow> m = n))"
  using assms by (rule load_inode_ok)

lemma node_cached_once_witness:
  "\<exists>s'. sfs_load_inode 4 vfs_two = Some (0, Some 200, s') \<and> vfs_inv s' D_two (\<lambda>n. of_bool (n = 100) + 2 * of_bool (n = 200)) (\<lambda>_. 0)"
proof -
  let ?R = "\<lambda>n :: nat. of_bool (n = 100 \<or> n = 200) :: nat"
  have "D_two 4 = Some file_d" "bound_refs ?R 1" by (simp_all add: D_two_def bound_refs_def)
  from node_cached_once [OF vfs_two_ok this] obtain ret r s' where l: "sfs_load_inode 4 vfs_two = Some (ret, r, s')"
    and c: "case r of None \<Rightarrow> ret = - E_NO_MEM \<and> short 2 vfs_two \<and> vfs_inv s' D_two ?R (\<lambda>_. 0) \<and> (\<forall>n sin. sfs_info n vfs_two = Some sin \<longrightarrow> ino sin \<noteq> 4)
     | Some n \<Rightarrow> ret = 0 \<and> vfs_inv s' D_two (?R(n := ?R n + 1)) (\<lambda>_. 0) \<and>
         (\<exists>sin. sfs_info n s' = Some sin \<and> ino sin = 4 \<and> din sin = file_d) \<and>
         (\<forall>m sin. sfs_info m vfs_two = Some sin \<longrightarrow> ino sin = 4 \<longrightarrow> m = n)" by blast
  have "\<not> short 2 vfs_two" by (simp add: short_def small_nodes(3))
  with c info_two(2) have "r = Some 200 \<and> ret = 0 \<and> vfs_inv s' D_two (?R(200 := ?R 200 + 1)) (\<lambda>_. 0)"
    by (cases r) fastforce+
  moreover have "?R(200 := ?R 200 + 1) = (\<lambda>n. of_bool (n = 100) + 2 * of_bool (n = 200))" by auto
  ultimately show ?thesis using l by simp
qed

text \<open>Giving up the last reference writes the inode back and reclaims its node; loading the inode again
  gives a node with the same inode and the same contents.\<close>

lemma reclaim_and_reload:
  assumes "vfs_inv s D R F" "R n = 1" "F n = 0" "sfs_info n s = Some sin" "bound_refs R 1"
  shows "\<exists>s1. inode_ref_dec n s = Some (0, s1) \<and> inodes s1 n = None \<and> on_disk (sfs s1) (ino sin) = din sin \<and>
    (\<exists>ret r s2. sfs_load_inode (ino sin) s1 = Some (ret, r, s2) \<and> (r = None \<longrightarrow> ret = - E_NO_MEM \<and> short 2 s1) \<and>
       (\<forall>k. r = Some k \<longrightarrow> (\<exists>sin2. sfs_info k s2 = Some sin2 \<and> din sin2 = din sin \<and> contents (sfs s2) sin2 = contents (sfs s) sin)))"
proof -
  have "F n < R n" using assms(2,3) by simp
  from ref_dec_ok [OF assms(1) this] assms(2,4) obtain s1 where s1: "inode_ref_dec n s = Some (0, s1)"
    "vfs_inv s1 D (R(n := 0)) F" "same_data D s s1" "on_disk (sfs s1) (ino sin) = din sin" by auto
  from s1(2) obtain C B where "\<And>m. inodes s1 m \<noteq> None \<longleftrightarrow> 0 < (R(n := 0)) m" by (rule vfs_invE) blast
  from this [of n] have none: "inodes s1 n = None" by simp
  note D = vfs_inv_dir(1) [OF assms(1,4)]
  have "bound_refs (R(n := 0)) 1" using assms(5) by (simp add: bound_refs_def)
  from load_inode_ok [OF s1(2) D this] obtain ret r s2 where l: "sfs_load_inode (ino sin) s1 = Some (ret, r, s2)" "same_data D s1 s2"
    and c: "case r of None \<Rightarrow> ret = - E_NO_MEM \<and> short 2 s1 \<and> vfs_inv s2 D (R(n := 0)) F \<and> (\<forall>n x. sfs_info n s1 = Some x \<longrightarrow> ino x \<noteq> ino sin)
     | Some k \<Rightarrow> ret = 0 \<and> vfs_inv s2 D ((R(n := 0))(k := (R(n := 0)) k + 1)) F \<and>
         (\<exists>x. sfs_info k s2 = Some x \<and> ino x = ino sin \<and> din x = din sin) \<and>
         (\<forall>m x. sfs_info m s1 = Some x \<longrightarrow> ino x = ino sin \<longrightarrow> m = k)" by blast
  have "fc (sfs s2) (din sin) = fc (sfs s) (din sin)" using D s1(3) l(2) by (simp add: same_data_def)
  then have "\<exists>x. sfs_info k s2 = Some x \<and> din x = din sin \<and> contents (sfs s2) x = contents (sfs s) sin" if "r = Some k" for k
    using c that by (auto simp: contents_def)
  moreover have "r = None \<longrightarrow> ret = - E_NO_MEM \<and> short 2 s1" using c by auto
  ultimately show ?thesis using s1 none l(1) by blast
qed

lemma reclaim_and_reload_witness:
  "\<exists>s1. inode_ref_dec 200 vfs_two = Some (0, s1) \<and> inodes s1 200 = None \<and> on_disk (sfs s1) 4 = file_d"
proof -
  have "bound_refs (\<lambda>n. of_bool (n = 100 \<or> n = 200)) 1" by (simp add: bound_refs_def)
  from reclaim_and_reload [OF vfs_two_ok _ _ info_two(2) this] show ?thesis by auto
qed

text \<open>A call of an operation that the node's table does not have fails an assertion, which user code can
  cause: reading or seeking on the descriptor of a directory, \<open>fsync\<close> on one of a device, reading entries
  on one of a file.\<close>

lemma missing_operation_panics:
  assumes "kfs_inv s D base H" "ftabs s fp = Some fs" "0 < files_count fs" "i < FILES_STRUCT_NENTRY"
    "status (fd_array fs ! i) = FD_OPENED" "readable (fd_array fs ! i)" "node (fd_array fs ! i) = Some n" "inodes (nodes s) n = Some nd"
  shows "(in_ops nd = SfsNodeDirops \<longrightarrow> file_read fp (int i) buf len m s = None \<and> file_seek fp (int i) off 0 s = None) \<and>
    (in_ops nd = DevNodeOps \<longrightarrow> file_fsync fp (int i) s = None \<and> file_getdirentry fp (int i) name doff m s = None) \<and>
    (in_ops nd = SfsNodeFileops \<longrightarrow> file_getdirentry fp (int i) name doff m s = None)"
proof -
  note k = assms(1)
  from during_open [OF k assms(2,4,5) kfs_invD(3) [OF k] kfs_invD(4) [OF k]] obtain s1 where s1: "fd_array_acquire fp i s = Some s1"
    "nodes s1 = nodes s" "file_at fp i s1 = Some ((fd_array fs ! i)\<lparr>fopen_count := fopen_count (fd_array fs ! i) + 1\<rparr>)" by blast
  have f: "fd2file fp (int i) s = Some (Some i)" using fd2file_open [OF k assms(2-4)] assms(5) by simp
  have no: "vop_op op n (nodes s) = None" if "\<not> has_op (in_ops nd) op" for op using assms(8) that by (simp add: vop_op_def)
  note at = entry_at(3) [OF k assms(2,4)]
  have rd: "file_read fp (int i) buf len m s = None" if "\<not> has_op (in_ops nd) VopRead"
    using f at s1 assms(6,7) no [OF that] by (simp add: file_read_def file_io_def vop_read_def vop_io_def)
  have sk: "file_seek fp (int i) off 0 s = None" if "\<not> has_op (in_ops nd) VopTryseek"
    using f s1 assms(7) no [OF that] by (simp add: file_seek_def on_node_def vop_tryseek_def)
  have fy: "file_fsync fp (int i) s = None" if "\<not> has_op (in_ops nd) VopFsync"
    using f s1 assms(7) no [OF that] by (simp add: file_fsync_def on_node_def vop_fsync_def)
  have ge: "file_getdirentry fp (int i) name doff m s = None" if "\<not> has_op (in_ops nd) VopGetdirentry"
    using f s1 assms(7) no [OF that] by (simp add: file_getdirentry_def vop_getdirentry_def)
  show ?thesis using rd sk fy ge by (simp add: has_op_def sfs_node_dirops_def dev_node_ops_def sfs_node_fileops_def)
qed

lemma missing_operation_panics_witness:
  "file_getdirentry 7 (int 0) 3000 0 (\<lambda>_. 0) kfs_open = None"
proof -
  let ?fs = "fs_one\<lparr>fd_array := (fd_array fs_one)[0 := open_file 0]\<rparr>"
  have t: "ftabs kfs_open 7 = Some ?fs" "0 < files_count ?fs" "fd_array ?fs ! 0 = open_file 0" by (simp_all add: kfs_open_ok(2)) (simp_all add: fs_one_def)
  obtain nd where nd: "inodes (nodes kfs_open) 200 = Some nd" "in_ops nd = SfsNodeFileops"
    by (auto simp: kfs_open_def open_node_def upd_file_def kfs_small_def vfs_two_def enter_def sfs_set_links_def mk_node_def)
  from missing_operation_panics [OF kfs_open_ok(1) t(1,2), of 0 200 nd] nd t(3) show ?thesis
    by (simp add: open_file_def nentry)
qed

end
