(* ===== verification/Pmm_Frames.thy ===== *)
theory Pmm_Frames
  imports Pmm_Check
begin

text \<open>
  The frame manager as the page-table code uses it: single frames, with the reference counts and the
  reserved flags of their descriptors.  The locale extends \<open>pmm_manager\<close>; its laws say that a frame
  handed out was free and keeps its descriptor, that the manager refuses only when nothing is free, and
  that a frame in use may be given back when a higher frame is free or none is (\<open>Pmm_FirstFit.default_free_tail\<close>
  shows what happens otherwise).  It is interpreted by the first-fit manager the kernel runs with.
\<close>

locale frame_pool = pmm_manager alloc give_back ok free_of rounded servable returnable
  for alloc :: "nat \<Rightarrow> 's \<Rightarrow> (nat option \<times> 's) option"
    and give_back :: "nat \<Rightarrow> nat \<Rightarrow> 's \<Rightarrow> 's option"
    and ok :: "'s \<Rightarrow> bool"
    and free_of :: "'s \<Rightarrow> nat set"
    and rounded :: "nat \<Rightarrow> nat"
    and servable :: "nat \<Rightarrow> 's \<Rightarrow> bool"
    and returnable :: "nat \<Rightarrow> nat \<Rightarrow> 's \<Rightarrow> bool" +
  fixes ref :: "'s \<Rightarrow> nat \<Rightarrow> int"
    and reserved :: "'s \<Rightarrow> nat \<Rightarrow> bool"
    and set_ref :: "nat \<Rightarrow> int \<Rightarrow> 's \<Rightarrow> 's"
  assumes one_frame: "rounded 1 = 1" "servable 1 s"
    and finite_free: "ok s \<Longrightarrow> finite (free_of s)"
    and refused: "ok s \<Longrightarrow> alloc 1 s = Some (None, s') \<Longrightarrow> free_of s = {}"
    and alloc_descriptors: "ok s \<Longrightarrow> alloc 1 s = Some (r, s') \<Longrightarrow> ref s' = ref s \<and> reserved s' = reserved s"
    and free_descriptors: "ok s \<Longrightarrow> returnable p 1 s \<Longrightarrow> give_back p 1 s = Some s' \<Longrightarrow>
      ref s' = (ref s)(p := 0) \<and> reserved s' = (reserved s)(p := False)"
    and below_free: "ok s \<Longrightarrow> p \<notin> free_of s \<Longrightarrow> \<not> reserved s p \<Longrightarrow> free_of s = {} \<or> (\<exists>h \<in> free_of s. p < h) \<Longrightarrow> returnable p 1 s"
    and set_ref: "ok s \<Longrightarrow> ok (set_ref p n s) \<and> free_of (set_ref p n s) = free_of s \<and>
      ref (set_ref p n s) = (ref s)(p := n) \<and> reserved (set_ref p n s) = reserved s"
begin

text \<open>The state a client keeps: free frames carry no reference and are not reserved.\<close>

definition pool :: "'s \<Rightarrow> bool" where
  "pool s \<longleftrightarrow> ok s \<and> (\<forall>p \<in> free_of s. ref s p = 0 \<and> \<not> reserved s p)"

lemma pool_set_ref:
  assumes "pool s" "p \<notin> free_of s"
  shows "pool (set_ref p n s) \<and> free_of (set_ref p n s) = free_of s \<and> ref (set_ref p n s) = (ref s)(p := n) \<and>
    reserved (set_ref p n s) = reserved s"
  using assms set_ref [of s p n] by (auto simp: pool_def)

lemma pool_alloc:
  assumes "pool s"
  obtains (none) "alloc 1 s = Some (None, s)" "free_of s = {}"
  | (some) p s' where "alloc 1 s = Some (Some p, s')" "pool s'" "p \<in> free_of s" "free_of s' = free_of s - {p}"
      "ref s' = ref s" "reserved s' = reserved s" "ref s p = 0" "\<not> reserved s p"
proof -
  have ok: "ok s" using assms by (simp add: pool_def)
  from alloc_returns [OF ok _ one_frame(2)] obtain r s' where a: "alloc 1 s = Some (r, s')" "ok s'" by auto
  show thesis
  proof (cases r)
    case None
    with a alloc_none [OF ok] refused [OF ok] none show thesis by blast
  next
    case (Some p)
    have d: "ref s' = ref s" "reserved s' = reserved s" using alloc_descriptors [OF ok a(1)] by auto
    have "{p ..< p + rounded 1} \<subseteq> free_of s \<and> free_of s' = free_of s - {p ..< p + rounded 1}"
      using alloc_some [OF ok one_frame(2)] a(1) Some by blast
    then have "p \<in> free_of s" "free_of s' = free_of s - {p}" by (auto simp: one_frame(1) [unfolded One_nat_def])
    with d a Some assms some show thesis by (auto simp: pool_def)
  qed
qed

lemma pool_free:
  assumes "pool s" "p \<notin> free_of s" "\<not> reserved s p" "free_of s = {} \<or> (\<exists>h \<in> free_of s. p < h)"
  obtains s' where "give_back p 1 s = Some s'" "pool s'" "free_of s' = insert p (free_of s)" "ref s' = (ref s)(p := 0)"
    "reserved s' = (reserved s)(p := False)"
proof -
  have ok: "ok s" using assms by (simp add: pool_def)
  note r = below_free [OF ok assms(2-4)]
  from free_ok [OF ok r] obtain s' where s': "give_back p 1 s = Some s'" "ok s'" "free_of s' = free_of s \<union> {p ..< p + rounded 1}"
    by blast
  have "free_of s' = insert p (free_of s)" using s'(3) by (auto simp: one_frame(1) [unfolded One_nat_def])
  moreover have "ref s' = (ref s)(p := 0)" "reserved s' = (reserved s)(p := False)" using free_descriptors [OF ok r s'(1)] by auto
  ultimately show thesis using that [OF s'(1)] s'(2) assms(1) by (auto simp: pool_def)
qed

end

subsection \<open>The first-fit manager\<close>

definition frame_ref :: "pmm \<Rightarrow> nat \<Rightarrow> int" where "frame_ref s p = pref (pages s p)"
definition frame_reserved :: "pmm \<Rightarrow> nat \<Rightarrow> bool" where "frame_reserved s p = PageReserved (pages s p)"
definition set_frame_ref :: "nat \<Rightarrow> int \<Rightarrow> pmm \<Rightarrow> pmm" where
  "set_frame_ref p n s = upd_page p (\<lambda>pg. pg\<lparr>pref := n\<rparr>) s"

definition same_descriptors :: "pmm \<Rightarrow> pmm \<Rightarrow> bool" where
  "same_descriptors s s' \<longleftrightarrow> frame_ref s' = frame_ref s \<and> frame_reserved s' = frame_reserved s"

lemma same_descriptorsI:
  "(\<And>p. pref (pages s' p) = pref (pages s p) \<and> PageReserved (pages s' p) = PageReserved (pages s p)) \<Longrightarrow> same_descriptors s s'"
  by (auto simp: same_descriptors_def frame_ref_def frame_reserved_def fun_eq_iff)

lemma same_descriptors_trans: "same_descriptors s t \<Longrightarrow> same_descriptors t u \<Longrightarrow> same_descriptors s u"
  by (simp add: same_descriptors_def)

lemma same_descriptors_refl [simp]: "same_descriptors s s"
  by (simp add: same_descriptors_def)

lemma alloc_same_descriptors:
  assumes "default_alloc_pages n s = Some (r, s')"
  shows "same_descriptors s s'"
proof -
  have "same_descriptors s (take_block n b s)" for b
    by (rule same_descriptorsI) (simp add: take_block_def Let_def list_next_def)
  then show ?thesis using assms
    by (auto simp: default_alloc_pages_def Option.bind_eq_Some_conv split: if_splits option.splits)
qed

lemma fuse_same_descriptors: "same_descriptors s (fuse p q s)"
  by (rule same_descriptorsI) (simp add: fuse_def Let_def)

lemma merge_same_descriptors:
  "same_descriptors s (snd (merge_prev b s))" "same_descriptors s (merge_next b s)"
  by (auto simp: merge_prev_def merge_next_def Let_def fuse_same_descriptors split: fl_entry.splits)

lemma free_descriptors:
  assumes "default_free_pages p 1 s = Some s'"
  shows "frame_ref s' = (frame_ref s)(p := 0)" "frame_reserved s' = (frame_reserved s)(p := False)"
proof -
  from assms obtain s1 s2 where s1: "clear_pages p 1 s = Some s1"
    and l: "link_block p (mark_block p 1 s1) = Some s2" "(case merge_prev p s2 of (b, s3) \<Rightarrow> Some (merge_next b s3)) = Some s'"
    unfolding default_free_pages_def bind_eq_Some_conv by blast
  have "same_descriptors s1 (mark_block p 1 s1)"
    by (rule same_descriptorsI) (simp add: mark_block_def Let_def)
  moreover have "same_descriptors (mark_block p 1 s1) s2"
    using l(1) by (intro same_descriptorsI) (auto simp: link_block_def Option.bind_eq_Some_conv split: if_splits)
  moreover have "same_descriptors s2 s'"
  proof (cases "merge_prev p s2")
    case (Pair b s3)
    then show ?thesis
      using l(2) merge_same_descriptors(1) [of s2 p] merge_same_descriptors(2) [of s3 b] by (auto intro: same_descriptors_trans)
  qed
  ultimately have "same_descriptors s1 s'" using same_descriptors_trans by blast
  moreover have "frame_ref s1 = (frame_ref s)(p := 0)" "frame_reserved s1 = (frame_reserved s)(p := False)"
    using s1 by (auto simp: One_nat_def frame_ref_def frame_reserved_def fun_eq_iff Option.bind_eq_Some_conv)
  ultimately show "frame_ref s' = (frame_ref s)(p := 0)" "frame_reserved s' = (frame_reserved s)(p := False)"
    by (simp_all add: same_descriptors_def)
qed

text \<open>A frame below a free one does not lie behind the last free block.\<close>

lemma below_free_returnable:
  assumes "pmm_ok s" "p \<notin> pmm_free_of s" "\<not> frame_reserved s p" "pmm_free_of s = {} \<or> (\<exists>h \<in> pmm_free_of s. p < h)"
  shows "pmm_returnable p 1 s"
proof -
  from assms(1) obtain bs where wf: "pmm_wf s bs" by (auto simp: pmm_ok_def)
  note fr = pmm_free_of_eq [OF wf]
  have out: "p + 1 \<le> fst x \<or> fst x + snd x \<le> p" if "x \<in> set bs" for x
    using assms(2) that by (fastforce simp: fr free_set_def block_pages_def)
  have "not_tail p bs"
  proof (cases "bs = []")
    case ne: False
    then have "pmm_free_of s \<noteq> {}"
      using pmm_wfD(2) [OF wf] blocks_ok_pos by (cases bs) (fastforce simp: fr free_set_def block_pages_def)+
    with assms(4) obtain h where "h \<in> pmm_free_of s" "p < h" by blast
    then obtain x where x: "x \<in> set bs" "fst x \<le> h" "h < fst x + snd x" "p < h" by (auto simp: fr free_set_def block_pages_def)
    then have "p < fst x" using out [OF x(1)] by simp
    moreover have "fst x \<le> fst (last bs)"
    proof (cases "x = last bs")
      case False
      have "bs = butlast bs @ [last bs]" using ne by simp
      moreover from this False x(1) have "x \<in> set (butlast bs)" by (metis Un_iff empty_iff insert_iff list.set set_append)
      ultimately have "before x (last bs)"
        using pmm_wfD(2) [OF wf] unfolding blocks_ok_def by (metis list.set_intros(1) sorted_wrt_append)
      then show ?thesis by (simp add: before_def)
    qed simp
    ultimately show ?thesis by (simp add: not_tail_def)
  qed (simp add: not_tail_def)
  moreover have "fits p 1 bs" using out by (auto simp: fits_def list_all_iff)
  moreover have "\<not> PageProperty (pages s p)"
    using pmm_wfD(4) [OF wf, of p] pmm_wfD(2) [OF wf] out blocks_ok_pos by fastforce
  ultimately show ?thesis using wf assms(3) by (auto simp: pmm_returnable_def in_use_def frame_reserved_def)
qed

lemma set_frame_ref_ok:
  assumes "pmm_ok s"
  shows "pmm_ok (set_frame_ref p n s) \<and> pmm_free_of (set_frame_ref p n s) = pmm_free_of s \<and>
    frame_ref (set_frame_ref p n s) = (frame_ref s)(p := n) \<and> frame_reserved (set_frame_ref p n s) = frame_reserved s"
proof -
  from assms obtain bs where "pmm_wf s bs" by (auto simp: pmm_ok_def)
  then have "pmm_wf (set_frame_ref p n s) bs" by (rule pmm_wf_cong) (simp_all add: set_frame_ref_def)
  then have "pmm_ok (set_frame_ref p n s)" by (auto simp: pmm_ok_def)
  then show ?thesis by (auto simp: set_frame_ref_def pmm_free_of_def frame_ref_def frame_reserved_def fun_eq_iff)
qed

lemma default_refused:
  assumes "pmm_ok s" "default_alloc_pages 1 s = Some (None, s')"
  shows "pmm_free_of s = {}"
proof -
  from assms(1) obtain bs where wf: "pmm_wf s bs" by (auto simp: pmm_ok_def)
  have "ff_alloc 1 bs = None" using default_alloc_refines [OF wf, of 1] assms(2) by (auto split: option.splits prod.splits)
  then have "\<not> 1 \<le> snd x" if "x \<in> set bs" for x using that by (cases x) (auto simp: ff_alloc_find find_None_iff)
  then have "bs = []" using pmm_wfD(2) [OF wf] blocks_ok_pos by (cases bs) fastforce+
  then show ?thesis by (simp add: pmm_free_of_eq [OF wf])
qed

interpretation fp: frame_pool default_alloc_pages default_free_pages pmm_ok pmm_free_of "\<lambda>n. n" "\<lambda>_ _. True"
  pmm_returnable frame_ref frame_reserved set_frame_ref
proof unfold_locales
  fix s :: pmm assume "pmm_ok s"
  then show "finite (pmm_free_of s)" by (auto simp: pmm_ok_def pmm_free_of_eq free_set_def block_pages_def)
next
  fix s s' :: pmm assume "pmm_ok s" "default_alloc_pages 1 s = Some (None, s')"
  then show "pmm_free_of s = {}" by (rule default_refused)
next
  fix s s' :: pmm and r assume "default_alloc_pages 1 s = Some (r, s')"
  then show "frame_ref s' = frame_ref s \<and> frame_reserved s' = frame_reserved s"
    using alloc_same_descriptors by (auto simp: same_descriptors_def)
next
  fix s s' :: pmm and p assume "default_free_pages p 1 s = Some s'"
  then show "frame_ref s' = (frame_ref s)(p := 0) \<and> frame_reserved s' = (frame_reserved s)(p := False)"
    by (simp add: free_descriptors)
next
  fix s :: pmm and p
  assume "pmm_ok s" "p \<notin> pmm_free_of s" "\<not> frame_reserved s p" "pmm_free_of s = {} \<or> (\<exists>h \<in> pmm_free_of s. p < h)"
  then show "pmm_returnable p 1 s" by (rule below_free_returnable)
next
  fix s :: pmm and p n assume "pmm_ok s"
  then show "pmm_ok (set_frame_ref p n s) \<and> pmm_free_of (set_frame_ref p n s) = pmm_free_of s \<and>
    frame_ref (set_frame_ref p n s) = (frame_ref s)(p := n) \<and> frame_reserved (set_frame_ref p n s) = frame_reserved s"
    by (rule set_frame_ref_ok)
qed simp_all

end
