(* ===== verification/Paging.thy ===== *)
theory Paging
  imports Pmm_Frames
begin

unbundle bit_operations_syntax

text \<open>
  Page tables (kern/mm/pmm.c, mmu.h, memlayout.h of labcode/lab8): the three-level tables of an address
  space in physical memory, mapping and unmapping pages, and copying a range of one address space into
  another.

  Physical memory is the array of page frames; \<open>ram v p i\<close> is the i-th 64-bit word of frame \<open>p\<close>, the
  granularity at which this code reads and writes it (table entries, and whole pages in \<^verbatim>\<open>memset\<close> and
  \<^verbatim>\<open>memcpy\<close>).  The kernel virtual address of a frame is named by its index in \<^verbatim>\<open>pages\<close>; \<^verbatim>\<open>KADDR\<close>, \<^verbatim>\<open>PADDR\<close>
  and \<^verbatim>\<open>pa2page\<close> fail when the frame is not one of memory.  A pointer to an entry is the frame and the
  index in it.  Frames come from the manager the kernel is built with, \<open>default_pmm_manager\<close>.  Flushing
  the translation buffer has no effect on this state.
\<close>

record vmem =
  frames :: pmm
  ram :: "nat \<Rightarrow> nat \<Rightarrow> u64"
  npage :: nat

subsection \<open>Addresses and entries (mmu.h, memlayout.h, pmm.h)\<close>

definition nbase :: u64 where "nbase = 0x80000"
definition PTSIZE :: u64 where "PTSIZE = 0x200000"
definition PDSIZE :: u64 where "PDSIZE = 0x40000000"
definition USERBASE :: u64 where "USERBASE = 0x200000"
definition USERTOP :: u64 where "USERTOP = 0x80000000"
definition KERNBASE :: u64 where "KERNBASE = 0xFFFFFFFFC0200000"
definition KERNTOP :: u64 where "KERNTOP = KERNBASE + 0x7E00000"

definition PTE_V :: u64 where "PTE_V = 1"
definition PTE_U :: u64 where "PTE_U = 0x10"
definition PTE_USER :: u64 where "PTE_USER = 0x1F"

definition USER_ACCESS :: "u64 \<Rightarrow> u64 \<Rightarrow> bool" where
  "USER_ACCESS s e \<longleftrightarrow> USERBASE \<le> s \<and> s < e \<and> e \<le> USERTOP"

definition KERN_ACCESS :: "u64 \<Rightarrow> u64 \<Rightarrow> bool" where
  "KERN_ACCESS s e \<longleftrightarrow> KERNBASE \<le> s \<and> s < e \<and> e \<le> KERNTOP"

definition ROUNDDOWN :: "u64 \<Rightarrow> u64 \<Rightarrow> u64" where "ROUNDDOWN a n = a - a mod n"
definition ROUNDUP :: "u64 \<Rightarrow> u64 \<Rightarrow> u64" where "ROUNDUP a n = ROUNDDOWN (a + n - 1) n"

definition PDX1 :: "u64 \<Rightarrow> nat" where "PDX1 la = unat (drop_bit 30 la AND 0x1FF)"
definition PDX0 :: "u64 \<Rightarrow> nat" where "PDX0 la = unat (drop_bit 21 la AND 0x1FF)"
definition PTX :: "u64 \<Rightarrow> nat" where "PTX la = unat (drop_bit 12 la AND 0x1FF)"

definition PTE_ADDR :: "u64 \<Rightarrow> u64" where "PTE_ADDR pte = push_bit 2 (pte AND NOT 0x3FF)"

definition pte_create :: "u64 \<Rightarrow> u64 \<Rightarrow> u64" where
  "pte_create ppn ty = push_bit 10 ppn OR PTE_V OR ty"

definition valid :: "u64 \<Rightarrow> bool" where "valid e \<longleftrightarrow> e AND PTE_V \<noteq> 0"

definition pa2page :: "u64 \<Rightarrow> vmem \<Rightarrow> nat option" where
  "pa2page pa v = (let n = drop_bit 12 pa in
     if unat n \<ge> npage v \<or> n < nbase then None else Some (unat (n - nbase)))"

definition pte2page :: "u64 \<Rightarrow> vmem \<Rightarrow> nat option" where
  "pte2page e v = do { c_assert (valid e); pa2page (PTE_ADDR e) v }"

definition pde2page :: "u64 \<Rightarrow> vmem \<Rightarrow> nat option" where
  "pde2page e v = pa2page (PTE_ADDR e) v"

subsection \<open>Frames\<close>

definition alloc_pages :: "nat \<Rightarrow> vmem \<Rightarrow> (nat option \<times> vmem) option" where
  "alloc_pages n v = do {
     (r, f) \<leftarrow> mm_alloc_pages default_pmm_manager n (frames v);
     Some (r, v\<lparr>frames := f\<rparr>) }"

definition free_pages :: "nat \<Rightarrow> nat \<Rightarrow> vmem \<Rightarrow> vmem option" where
  "free_pages p n v = do {
     f \<leftarrow> mm_free_pages default_pmm_manager p n (frames v);
     Some (v\<lparr>frames := f\<rparr>) }"

definition page_ref :: "nat \<Rightarrow> vmem \<Rightarrow> int" where
  "page_ref p v = pref (pages (frames v) p)"

definition set_page_ref :: "nat \<Rightarrow> int \<Rightarrow> vmem \<Rightarrow> vmem" where
  "set_page_ref p n v = v\<lparr>frames := upd_page p (\<lambda>pg. pg\<lparr>pref := n\<rparr>) (frames v)\<rparr>"

definition page_ref_inc :: "nat \<Rightarrow> vmem \<Rightarrow> vmem" where
  "page_ref_inc p v = set_page_ref p (page_ref p v + 1) v"

definition page_ref_dec :: "nat \<Rightarrow> vmem \<Rightarrow> vmem" where
  "page_ref_dec p v = set_page_ref p (page_ref p v - 1) v"

definition set_word :: "nat \<Rightarrow> nat \<Rightarrow> u64 \<Rightarrow> vmem \<Rightarrow> vmem" where
  "set_word p i w v = v\<lparr>ram := (ram v)(p := (ram v p)(i := w))\<rparr>"

definition set_frame :: "nat \<Rightarrow> (nat \<Rightarrow> u64) \<Rightarrow> vmem \<Rightarrow> vmem" where
  "set_frame p c v = v\<lparr>ram := (ram v)(p := c)\<rparr>"

text \<open>\<^verbatim>\<open>page2kva\<close>: the frame itself, when its address is one of memory.\<close>

definition page2kva :: "nat \<Rightarrow> vmem \<Rightarrow> nat option" where
  "page2kva p v = pa2page (page2pa nbase p) v"

subsection \<open>Walking and changing a table\<close>

text \<open>One level of \<open>get_pte\<close>: the table the i-th entry of table \<open>t\<close> points to, made if it is missing and
  \<open>create\<close> is set.\<close>

definition next_table :: "nat \<Rightarrow> nat \<Rightarrow> bool \<Rightarrow> vmem \<Rightarrow> (nat option \<times> vmem) option" where
  "next_table t i create v =
     (if valid (ram v t i) then do { u \<leftarrow> pde2page (ram v t i) v; Some (Some u, v) }
      else if \<not> create then Some (None, v)
      else do {
        (r, v1) \<leftarrow> alloc_pages 1 v;
        case r of None \<Rightarrow> Some (None, v1)
        | Some p \<Rightarrow> do {
            q \<leftarrow> page2kva p v1;
            let v2 = set_frame q (\<lambda>_. 0) (set_page_ref p 1 v1);
            let v3 = set_word t i (pte_create (page2ppn nbase p) (PTE_U OR PTE_V)) v2;
            u \<leftarrow> pde2page (ram v3 t i) v3;
            Some (Some u, v3) } })"

definition get_pte :: "nat \<Rightarrow> u64 \<Rightarrow> bool \<Rightarrow> vmem \<Rightarrow> ((nat \<times> nat) option \<times> vmem) option" where
  "get_pte pgdir la create v = do {
     (r1, v1) \<leftarrow> next_table pgdir (PDX1 la) create v;
     case r1 of None \<Rightarrow> Some (None, v1)
     | Some t1 \<Rightarrow> do {
         (r0, v2) \<leftarrow> next_table t1 (PDX0 la) create v1;
         case r0 of None \<Rightarrow> Some (None, v2) | Some t0 \<Rightarrow> Some (Some (t0, PTX la), v2) } }"

definition get_page :: "nat \<Rightarrow> u64 \<Rightarrow> vmem \<Rightarrow> (nat option \<times> (nat \<times> nat) option) option" where
  "get_page pgdir la v = do {
     (ptep, v1) \<leftarrow> get_pte pgdir la False v;
     case ptep of None \<Rightarrow> Some (None, None)
     | Some (t, i) \<Rightarrow>
         if valid (ram v1 t i) then do { p \<leftarrow> pte2page (ram v1 t i) v1; Some (Some p, ptep) }
         else Some (None, ptep) }"

definition page_remove_pte :: "nat \<times> nat \<Rightarrow> vmem \<Rightarrow> vmem option" where
  "page_remove_pte ptep v = (case ptep of (t, i) \<Rightarrow>
     if valid (ram v t i) then do {
       p \<leftarrow> pte2page (ram v t i) v;
       let v1 = page_ref_dec p v;
       v2 \<leftarrow> (if page_ref p v1 = 0 then free_pages p 1 v1 else Some v1);
       Some (set_word t i 0 v2) }
     else Some v)"

definition page_remove :: "nat \<Rightarrow> u64 \<Rightarrow> vmem \<Rightarrow> vmem option" where
  "page_remove pgdir la v = do {
     (ptep, v1) \<leftarrow> get_pte pgdir la False v;
     case ptep of None \<Rightarrow> Some v1 | Some e \<Rightarrow> page_remove_pte e v1 }"

definition page_insert :: "nat \<Rightarrow> nat \<Rightarrow> u64 \<Rightarrow> u64 \<Rightarrow> vmem \<Rightarrow> (int \<times> vmem) option" where
  "page_insert pgdir page la perm v = do {
     (ptep, v1) \<leftarrow> get_pte pgdir la True v;
     case ptep of None \<Rightarrow> Some (- E_NO_MEM, v1)
     | Some (t, i) \<Rightarrow> do {
         let v2 = page_ref_inc page v1;
         v3 \<leftarrow> (if valid (ram v2 t i) then do {
                   p \<leftarrow> pte2page (ram v2 t i) v2;
                   if p = page then Some (page_ref_dec page v2) else page_remove_pte (t, i) v2 }
                else Some v2);
         Some (0, set_word t i (pte_create (page2ppn nbase page) (PTE_V OR perm)) v3) } }"

definition pgdir_alloc_page :: "nat \<Rightarrow> u64 \<Rightarrow> u64 \<Rightarrow> vmem \<Rightarrow> (nat option \<times> vmem) option" where
  "pgdir_alloc_page pgdir la perm v = do {
     (r, v1) \<leftarrow> alloc_pages 1 v;
     case r of None \<Rightarrow> Some (None, v1)
     | Some page \<Rightarrow> do {
         (ret, v2) \<leftarrow> page_insert pgdir page la perm v1;
         if ret \<noteq> 0 then do { v3 \<leftarrow> free_pages page 1 v2; Some (None, v3) }
         else do { c_assert (page_ref page v2 = 1); Some (Some page, v2) } } }"

subsection \<open>Ranges\<close>

partial_function (option) unmap_loop :: "nat \<Rightarrow> u64 \<Rightarrow> u64 \<Rightarrow> vmem \<Rightarrow> vmem option" where
  "unmap_loop pgdir s e v = do {
     (ptep, v1) \<leftarrow> get_pte pgdir s False v;
     (s1, v2) \<leftarrow> (case ptep of None \<Rightarrow> Some (ROUNDDOWN (s + PTSIZE) PTSIZE, v1)
       | Some (t, i) \<Rightarrow> do {
           v2 \<leftarrow> (if ram v1 t i \<noteq> 0 then page_remove_pte (t, i) v1 else Some v1);
           Some (s + PGSIZE, v2) });
     if s1 \<noteq> 0 \<and> s1 < e then unmap_loop pgdir s1 e v2 else Some v2 }"

declare unmap_loop.simps [code]

definition unmap_range :: "nat \<Rightarrow> u64 \<Rightarrow> u64 \<Rightarrow> vmem \<Rightarrow> vmem option" where
  "unmap_range pgdir s e v = do {
     c_assert (s mod PGSIZE = 0 \<and> e mod PGSIZE = 0);
     c_assert (USER_ACCESS s e);
     unmap_loop pgdir s e v }"

text \<open>The body of the inner loop of \<open>exit_range\<close>, the inner and the outer loop.\<close>

definition free_table :: "nat \<Rightarrow> u64 \<Rightarrow> bool \<Rightarrow> vmem \<Rightarrow> (bool \<times> vmem) option" where
  "free_table pd0 la free_pd0 v =
     (let i = PDX0 la; pde0 = ram v pd0 i in
      if valid pde0 then do {
        q \<leftarrow> pde2page pde0 v;
        if list_all (\<lambda>i. \<not> valid (ram v q i)) [0..<512] then do {
          v1 \<leftarrow> free_pages q 1 v;
          Some (free_pd0, set_word pd0 i 0 v1) }
        else Some (free_pd0, v) }
      else Some (False, v))"

partial_function (option) exit_tables :: "nat \<Rightarrow> u64 \<Rightarrow> u64 \<Rightarrow> u64 \<Rightarrow> bool \<Rightarrow> vmem \<Rightarrow> (bool \<times> vmem) option" where
  "exit_tables pd0 d0 d1 e free_pd0 v = do {
     (fr, v1) \<leftarrow> free_table pd0 d0 free_pd0 v;
     let d0' = d0 + PTSIZE;
     if d0' \<noteq> 0 \<and> d0' < d1 + PDSIZE \<and> d0' < e then exit_tables pd0 d0' d1 e fr v1
     else Some (fr, v1) }"

declare exit_tables.simps [code]

partial_function (option) exit_loop :: "nat \<Rightarrow> u64 \<Rightarrow> u64 \<Rightarrow> u64 \<Rightarrow> vmem \<Rightarrow> vmem option" where
  "exit_loop pgdir d1 d0 e v = do {
     v1 \<leftarrow> (if valid (ram v pgdir (PDX1 d1)) then do {
              pd0 \<leftarrow> pde2page (ram v pgdir (PDX1 d1)) v;
              (fr, v1) \<leftarrow> exit_tables pd0 d0 d1 e True v;
              if fr then do { v2 \<leftarrow> free_pages pd0 1 v1; Some (set_word pgdir (PDX1 d1) 0 v2) }
              else Some v1 }
            else Some v);
     let d1' = d1 + PDSIZE;
     if d1' \<noteq> 0 \<and> d1' < e then exit_loop pgdir d1' d1' e v1 else Some v1 }"

declare exit_loop.simps [code]

definition exit_range :: "nat \<Rightarrow> u64 \<Rightarrow> u64 \<Rightarrow> vmem \<Rightarrow> vmem option" where
  "exit_range pgdir s e v = do {
     c_assert (s mod PGSIZE = 0 \<and> e mod PGSIZE = 0);
     c_assert (USER_ACCESS s e);
     exit_loop pgdir (ROUNDDOWN s PDSIZE) (ROUNDDOWN s PTSIZE) e v }"

text \<open>The page the entry \<open>ptep\<close> maps, copied to a new page at the address \<open>la\<close> of the space \<open>to\<close>.\<close>

definition copy_page :: "nat \<Rightarrow> u64 \<Rightarrow> nat \<times> nat \<Rightarrow> vmem \<Rightarrow> (int \<times> vmem) option" where
  "copy_page to la ptep v = do {
     (nptep, v1) \<leftarrow> get_pte to la True v;
     case nptep of None \<Rightarrow> Some (- E_NO_MEM, v1)
     | Some _ \<Rightarrow> do {
         let pte = ram v1 (fst ptep) (snd ptep);
         page \<leftarrow> pte2page pte v1;
         (r, v2) \<leftarrow> alloc_pages 1 v1;
         npage \<leftarrow> r;
         src \<leftarrow> page2kva page v2;
         dst \<leftarrow> page2kva npage v2;
         (ret, v3) \<leftarrow> page_insert to npage la (pte AND PTE_USER) (set_frame dst (ram v2 src) v2);
         c_assert (ret = 0);
         Some (0, v3) } }"

partial_function (option) copy_loop :: "nat \<Rightarrow> nat \<Rightarrow> u64 \<Rightarrow> u64 \<Rightarrow> vmem \<Rightarrow> (int \<times> vmem) option" where
  "copy_loop to frm s e v = do {
     (ptep, v1) \<leftarrow> get_pte frm s False v;
     (ret, s1, v2) \<leftarrow> (case ptep of None \<Rightarrow> Some (0, ROUNDDOWN (s + PTSIZE) PTSIZE, v1)
       | Some (t, i) \<Rightarrow>
           if valid (ram v1 t i) then do {
             (ret, v2) \<leftarrow> copy_page to s (t, i) v1;
             Some (ret, s + PGSIZE, v2) }
           else Some (0, s + PGSIZE, v1));
     if ret \<noteq> 0 then Some (ret, v2)
     else if s1 \<noteq> 0 \<and> s1 < e then copy_loop to frm s1 e v2 else Some (0, v2) }"

declare copy_loop.simps [code]

definition copy_range :: "nat \<Rightarrow> nat \<Rightarrow> u64 \<Rightarrow> u64 \<Rightarrow> vmem \<Rightarrow> (int \<times> vmem) option" where
  "copy_range to frm s e v = do {
     c_assert (s mod PGSIZE = 0 \<and> e mod PGSIZE = 0);
     c_assert (USER_ACCESS s e);
     copy_loop to frm s e v }"

end
