(* ===== verification/Paging_Inv.thy ===== *)
theory Paging_Inv
  imports Paging
begin

text \<open>
  Address spaces.  \<open>pte v pd k\<close> is the entry a walk of the tables rooted at \<open>pd\<close> finds for the user page
  number \<open>k\<close> (0 when a table is missing).  It uses the kernel's own reading of an entry; \<open>Sv39\<close> shows that a
  walk of the machine's format, written down independently, translates the same way.  \<open>vm_inv v S\<close> says of the
  spaces rooted at the frames \<open>S\<close>: the tables are trees that share no frame, entries for tables are no
  leaves, every table and every mapped frame is in use, and the reference count of a mapped frame is the
  number of entries that map it.
\<close>

subsection \<open>Words\<close>

lemma low_mask: "(0x3FF :: u64) = mask 10"
  by (simp add: mask_eq_exp_minus_1)

lemma pte_create_addr:
  assumes "ty AND NOT 0x3FF = 0"
  shows "pte_create n ty AND NOT 0x3FF = push_bit 10 n"
proof (rule bit_word_eqI)
  fix i assume i: "i < LENGTH(64)"
  have "\<not> bit (ty AND NOT (mask 10)) i" using assms unfolding low_mask by simp
  then have "\<not> (bit ty i \<and> 10 \<le> i)" using i by (auto simp: bit_simps)
  then show "bit (pte_create n ty AND NOT 0x3FF) i \<longleftrightarrow> bit (push_bit 10 n) i"
    unfolding low_mask using i by (auto simp: pte_create_def PTE_V_def bit_simps)
qed

lemma pte_create_valid: "valid (pte_create n ty)"
proof -
  have "bit (pte_create n ty AND PTE_V) 0" by (simp add: pte_create_def PTE_V_def bit_simps)
  then show ?thesis by (auto simp: valid_def)
qed

lemma drop_push_12: "drop_bit 12 (push_bit 12 w) = w" if "unat w < 2 ^ 52" for w :: u64
proof (rule bit_word_eqI)
  fix i assume "i < LENGTH(64)"
  have "\<not> bit w i" if "52 \<le> i" for i
  proof
    assume "bit w i"
    then have "bit (unat w) i" by (simp add: bit_simps)
    then have "odd (unat w div 2 ^ i)" by (simp add: bit_iff_odd)
    moreover have "unat w < 2 ^ i" using \<open>unat w < 2 ^ 52\<close> power_increasing [OF that, of "2 :: nat"] by simp
    ultimately show False by simp
  qed
  then show "bit (drop_bit 12 (push_bit 12 w)) i \<longleftrightarrow> bit w i"
    by (auto simp: bit_simps) (metis not_less)
qed

definition limit :: "vmem \<Rightarrow> nat set" where
  "limit v = {p. p + 0x80000 < npage v}"

definition entry_frame :: "vmem \<Rightarrow> u64 \<Rightarrow> nat option" where
  "entry_frame v e = (if valid e then pa2page (PTE_ADDR e) v else None)"

lemma unat_page2ppn: "p + 0x80000 < 2 ^ 44 \<Longrightarrow> unat (page2ppn nbase p) = p + 0x80000"
  by (simp add: page2ppn_def nbase_def unat_word_ariths unsigned_of_nat take_bit_nat_eq_self)

lemma page2ppn_back:
  assumes "p \<in> limit v" "npage v \<le> 2 ^ 44"
  shows "pa2page (push_bit 12 (page2ppn nbase p)) v = Some p"
proof -
  have l: "p + 0x80000 < npage v" using assms by (simp add: limit_def)
  then have u: "unat (page2ppn nbase p) = p + 0x80000" using assms(2) by (intro unat_page2ppn) simp
  have "drop_bit 12 (push_bit 12 (page2ppn nbase p)) = page2ppn nbase p" using u l assms(2) by (intro drop_push_12) simp
  moreover have "\<not> page2ppn nbase p < nbase" unfolding word_less_nat_alt u by (simp add: nbase_def)
  moreover have "unat (page2ppn nbase p - nbase) = p" using l assms(2)
    by (simp add: page2ppn_def unsigned_of_nat take_bit_nat_eq_self)
  ultimately show ?thesis using l by (simp add: pa2page_def Let_def u)
qed

lemma page2kva_ok:
  assumes "p \<in> limit v" "npage v \<le> 2 ^ 44"
  shows "page2kva p v = Some p"
  using page2ppn_back [OF assms] by (simp add: page2kva_def page2pa_def)

lemma pte_create_page:
  assumes "p \<in> limit v" "npage v \<le> 2 ^ 44" "ty AND NOT 0x3FF = 0"
  shows "pa2page (PTE_ADDR (pte_create (page2ppn nbase p) ty)) v = Some p"
proof -
  have "PTE_ADDR (pte_create (page2ppn nbase p) ty) = push_bit 12 (page2ppn nbase p)"
    unfolding PTE_ADDR_def pte_create_addr [OF assms(3)] by simp
  then show ?thesis using page2ppn_back [OF assms(1,2)] by simp
qed

lemma entry_frame_create [simp]:
  assumes "p \<in> limit v" "npage v \<le> 2 ^ 44" "ty AND NOT 0x3FF = 0"
  shows "entry_frame v (pte_create (page2ppn nbase p) ty) = Some p"
  using pte_create_page [OF assms] pte_create_valid by (simp add: entry_frame_def)

lemma entry_frame_zero [simp]: "entry_frame v 0 = None"
  by (simp add: entry_frame_def valid_def)

lemma entry_frame_npage: "npage v' = npage v \<Longrightarrow> entry_frame v' = entry_frame v"
  by (auto simp: entry_frame_def pa2page_def Let_def fun_eq_iff)

lemma user_index:
  assumes "la < USERTOP"
  shows "PDX1 la = unat la div 4096 div 512 div 512" "PDX0 la = unat la div 4096 div 512 mod 512"
    "PTX la = unat la div 4096 mod 512" "unat la div 4096 < 2 ^ 19" "PDX1 la < 2"
proof -
  have u: "unat la < 2 ^ 31" using assms by (simp add: USERTOP_def word_less_nat_alt)
  have m: "unat (w AND 0x1FF) = unat w mod 512" for w :: u64
  proof -
    have "(0x1FF :: u64) = mask 9" by (simp add: mask_eq_exp_minus_1)
    then have "w AND 0x1FF = take_bit 9 w" by (simp only: take_bit_eq_mask)
    then have "unat (w AND 0x1FF) = take_bit 9 (unat w)" by (simp only: unsigned_take_bit_eq)
    then show ?thesis by (simp add: take_bit_eq_mod)
  qed
  have "unat la div 2 ^ 30 < 2" using u by (simp add: less_mult_imp_div_less)
  then show "PDX1 la = unat la div 4096 div 512 div 512" "PDX1 la < 2"
    by (simp_all add: PDX1_def m unat_drop_bit div_mult2_eq [symmetric])
  show "PDX0 la = unat la div 4096 div 512 mod 512" "PTX la = unat la div 4096 mod 512"
    by (simp_all add: PDX0_def PTX_def m unat_drop_bit div_mult2_eq [symmetric])
  show "unat la div 4096 < 2 ^ 19" using u by (simp add: less_mult_imp_div_less)
qed
subsection \<open>The trees\<close>

text \<open>A place in the trees of the spaces: the root of a space, the second-level table for the i-th
  gigabyte, the third-level table for the j-th two megabytes; and the frame that is there.\<close>

datatype slot = Root nat | Mid nat nat | Low nat nat

definition mid :: "vmem \<Rightarrow> nat \<Rightarrow> nat \<Rightarrow> nat option" where
  "mid v pd i = entry_frame v (ram v pd i)"

definition low :: "vmem \<Rightarrow> nat \<Rightarrow> nat \<Rightarrow> nat option" where
  "low v pd j = (case mid v pd (j div 512) of None \<Rightarrow> None | Some t \<Rightarrow> entry_frame v (ram v t (j mod 512)))"

fun tab :: "vmem \<Rightarrow> slot \<Rightarrow> nat option" where
  "tab v (Root pd) = Some pd"
| "tab v (Mid pd i) = mid v pd i"
| "tab v (Low pd j) = low v pd j"

definition pte :: "vmem \<Rightarrow> nat \<Rightarrow> nat \<Rightarrow> u64" where
  "pte v pd k = (case low v pd (k div 512) of None \<Rightarrow> 0 | Some t \<Rightarrow> ram v t (k mod 512))"

definition slots :: "nat set \<Rightarrow> slot set" where
  "slots S = {s. case s of Root pd \<Rightarrow> pd \<in> S | Mid pd i \<Rightarrow> pd \<in> S \<and> i < 2 | Low pd j \<Rightarrow> pd \<in> S \<and> j < 1024}"

lemma slots_simps [simp]:
  "Root pd \<in> slots S \<longleftrightarrow> pd \<in> S" "Mid pd i \<in> slots S \<longleftrightarrow> pd \<in> S \<and> i < 2" "Low pd j \<in> slots S \<longleftrightarrow> pd \<in> S \<and> j < 1024"
  by (simp_all add: slots_def)

text \<open>Where the i-th entry of the table at a place leads, and that entry.\<close>

fun child :: "slot \<Rightarrow> nat \<Rightarrow> slot" where
  "child (Root pd) i = Mid pd i"
| "child (Mid pd i) j = Low pd (i * 512 + j)"
| "child (Low pd j) k = Low pd j"

fun is_low :: "slot \<Rightarrow> bool" where
  "is_low (Low pd j) = True" | "is_low s = False"

lemma tab_child:
  assumes "tab v s = Some t" "\<not> is_low s" "i < 512"
  shows "tab v (child s i) = entry_frame v (ram v t i)"
  using assms by (cases s) (auto simp: mid_def low_def)

lemma child_slot:
  assumes "s \<in> slots S" "\<not> is_low s"
  shows "child s i \<in> slots S \<longleftrightarrow> (case s of Root _ \<Rightarrow> i < 2 | Mid _ j \<Rightarrow> j * 512 + i < 1024 | Low _ _ \<Rightarrow> True)"
  using assms by (cases s) auto

text \<open>The user pages that are mapped to a frame.\<close>

definition USER_PAGES :: nat where "USER_PAGES = 2 ^ 19"

definition maps :: "vmem \<Rightarrow> nat set \<Rightarrow> nat \<Rightarrow> (nat \<times> nat) set" where
  "maps v S f = {(pd, k). pd \<in> S \<and> k < USER_PAGES \<and> entry_frame v (pte v pd k) = Some f}"

definition vfree :: "vmem \<Rightarrow> nat set" where "vfree v = pmm_free_of (frames v)"

definition owned :: "vmem \<Rightarrow> nat \<Rightarrow> bool" where
  "owned v p \<longleftrightarrow> p \<notin> vfree v \<and> \<not> frame_reserved (frames v) p \<and> p \<in> limit v"

definition pool_ok :: "vmem \<Rightarrow> bool" where
  "pool_ok v \<longleftrightarrow> fp.pool (frames v) \<and> npage v \<le> 2 ^ 44 \<and> vfree v \<subseteq> limit v"

text \<open>An entry that points to a table of the next level: it is no leaf, and uses no bit above the frame number.\<close>

definition pointer :: "u64 \<Rightarrow> bool" where
  "pointer e \<longleftrightarrow> e AND 0xE = 0 \<and> drop_bit 54 e = 0"

definition tree_ok :: "vmem \<Rightarrow> nat set \<Rightarrow> bool" where
  "tree_ok v S \<longleftrightarrow> (\<forall>s \<in> slots S. \<forall>t. tab v s = Some t \<longrightarrow> owned v t) \<and>
     (\<forall>s \<in> slots S. \<forall>s' \<in> slots S. tab v s = tab v s' \<longrightarrow> tab v s \<noteq> None \<longrightarrow> s = s') \<and>
     (\<forall>s \<in> slots S. \<forall>t i. \<not> is_low s \<longrightarrow> tab v s = Some t \<longrightarrow> i < 512 \<longrightarrow> child s i \<in> slots S \<longrightarrow>
        valid (ram v t i) \<longrightarrow> tab v (child s i) \<noteq> None \<and> pointer (ram v t i))"

definition tables :: "vmem \<Rightarrow> nat set \<Rightarrow> nat set" where
  "tables v S = {t. \<exists>s \<in> slots S. tab v s = Some t}"

definition leaf_ok :: "vmem \<Rightarrow> nat set \<Rightarrow> bool" where
  "leaf_ok v S \<longleftrightarrow> (\<forall>pd \<in> S. \<forall>k < USER_PAGES. pte v pd k = 0 \<or>
     (\<exists>f. entry_frame v (pte v pd k) = Some f \<and> owned v f \<and> f \<notin> tables v S \<and> page_ref f v = int (card (maps v S f))))"

definition vm_inv :: "vmem \<Rightarrow> nat set \<Rightarrow> bool" where
  "vm_inv v S \<longleftrightarrow> finite S \<and> pool_ok v \<and> tree_ok v S \<and> leaf_ok v S"

lemma vm_invD:
  assumes "vm_inv v S"
  shows "finite S" "pool_ok v" "tree_ok v S" "leaf_ok v S" "fp.pool (frames v)" "npage v \<le> 2 ^ 44" "vfree v \<subseteq> limit v"
  using assms by (auto simp: vm_inv_def pool_ok_def)

lemma tree_okD:
  assumes "tree_ok v S" "s \<in> slots S" "tab v s = Some t"
  shows "owned v t" "s' \<in> slots S \<Longrightarrow> tab v s' = Some t \<Longrightarrow> s' = s"
    "\<not> is_low s \<Longrightarrow> i < 512 \<Longrightarrow> child s i \<in> slots S \<Longrightarrow> valid (ram v t i) \<Longrightarrow> \<exists>u. tab v (child s i) = Some u"
    "\<not> is_low s \<Longrightarrow> i < 512 \<Longrightarrow> child s i \<in> slots S \<Longrightarrow> valid (ram v t i) \<Longrightarrow> pointer (ram v t i)"
proof -
  show "owned v t" using assms unfolding tree_ok_def by blast
  show "s' = s" if "s' \<in> slots S" "tab v s' = Some t"
  proof -
    have "tab v s = tab v s'" "tab v s \<noteq> None" using that assms by simp_all
    then show ?thesis using that(1) assms(1,2) unfolding tree_ok_def by blast
  qed
  assume "\<not> is_low s" "i < 512" "child s i \<in> slots S" "valid (ram v t i)"
  then have "tab v (child s i) \<noteq> None \<and> pointer (ram v t i)" using assms unfolding tree_ok_def by blast
  then show "\<exists>u. tab v (child s i) = Some u" "pointer (ram v t i)" by blast+
qed

lemma leaf_okD:
  assumes "leaf_ok v S" "pd \<in> S" "k < USER_PAGES"
  obtains (none) "pte v pd k = 0" "entry_frame v (pte v pd k) = None"
  | (some) f where "entry_frame v (pte v pd k) = Some f" "owned v f" "f \<notin> tables v S" "page_ref f v = int (card (maps v S f))"
  using assms unfolding leaf_ok_def by fastforce

lemma finite_maps: "finite S \<Longrightarrow> finite (maps v S f)"
  by (rule finite_subset [of _ "S \<times> {..< USER_PAGES}"]) (auto simp: maps_def)

lemma page_index: "k < USER_PAGES \<Longrightarrow> k div 512 < 1024" "j < 1024 \<Longrightarrow> j div 512 < (2 :: nat)"
  by (simp_all add: USER_PAGES_def less_mult_imp_div_less)

lemma tables_slot: "s \<in> slots S \<Longrightarrow> tab v s = Some t \<Longrightarrow> t \<in> tables v S"
  by (auto simp: tables_def)

text \<open>The trees depend on the tables only.\<close>

lemma same_trees:
  assumes "npage v' = npage v" "\<And>t. t \<in> tables v S \<Longrightarrow> ram v' t = ram v t"
  shows "s \<in> slots S \<Longrightarrow> tab v' s = tab v s" "pd \<in> S \<Longrightarrow> k < USER_PAGES \<Longrightarrow> pte v' pd k = pte v pd k" "tables v' S = tables v S"
proof -
  note e = entry_frame_npage [OF assms(1)]
  have r: "ram v' pd = ram v pd" if "pd \<in> S" for pd
    using that by (intro assms(2) tables_slot [of "Root pd"]) simp_all
  have m: "mid v' pd i = mid v pd i" if "pd \<in> S" for pd i using that by (simp add: mid_def e r)
  have l: "low v' pd j = low v pd j" if "pd \<in> S" "j < 1024" for pd j
  proof (cases "mid v pd (j div 512)")
    case (Some t)
    have "t \<in> tables v S" by (rule tables_slot [of "Mid pd (j div 512)"]) (use that Some in \<open>simp_all add: page_index\<close>)
    then show ?thesis using that Some by (simp add: low_def m e assms(2))
  qed (simp add: low_def m that)
  show t: "tab v' s = tab v s" if "s \<in> slots S" for s using that by (cases s) (simp_all add: m l)
  show "pte v' pd k = pte v pd k" if "pd \<in> S" "k < USER_PAGES"
  proof (cases "low v pd (k div 512)")
    case (Some t)
    have "t \<in> tables v S" by (rule tables_slot [of "Low pd (k div 512)"]) (use that Some in \<open>simp_all add: page_index\<close>)
    then show ?thesis using that Some by (simp add: pte_def l page_index assms(2))
  qed (simp add: pte_def l page_index that)
  show "tables v' S = tables v S" using t by (auto simp: tables_def)
qed
lemma vm_inv_cong:
  assumes i: "vm_inv v S" and n: "npage v' = npage v" and r: "\<And>t. t \<in> tables v S \<Longrightarrow> ram v' t = ram v t" and p: "pool_ok v'"
    and o: "\<And>p. owned v p \<Longrightarrow> p \<in> tables v S \<or> maps v S p \<noteq> {} \<Longrightarrow> owned v' p"
    and f: "\<And>p. maps v S p \<noteq> {} \<Longrightarrow> page_ref p v' = page_ref p v"
  shows "vm_inv v' S"
proof -
  note t = same_trees [OF n r] and e = entry_frame_npage [OF n]
  have m: "maps v' S = maps v S" by (auto simp: maps_def fun_eq_iff t(2) e)
  have "tree_ok v' S" unfolding tree_ok_def
  proof (intro conjI ballI allI impI)
    fix s t' assume s: "s \<in> slots S" "tab v' s = Some t'"
    then show "owned v' t'" using tree_okD(1) [OF vm_invD(3) [OF i]] t(1) o tables_slot by auto
  next
    fix s s' assume s: "s \<in> slots S" "s' \<in> slots S" "tab v' s = tab v' s'" "tab v' s \<noteq> None"
    then show "s = s'" using tree_okD(2) [OF vm_invD(3) [OF i]] t(1) by auto
  next
    fix s t' k assume s: "s \<in> slots S" "\<not> is_low s" "tab v' s = Some t'" "k < 512" "child s k \<in> slots S" "valid (ram v' t' k)"
    then have "ram v' t' = ram v t'" using r tables_slot t(1) by auto
    then show "tab v' (child s k) \<noteq> None" "pointer (ram v' t' k)" using tree_okD(3,4) [OF vm_invD(3) [OF i], of s t' k] s t(1) by auto
  qed
  moreover have "leaf_ok v' S" unfolding leaf_ok_def
  proof (intro ballI allI impI)
    fix pd k assume k: "pd \<in> S" "k < USER_PAGES"
    from vm_invD(4) [OF i] k show "pte v' pd k = 0 \<or> (\<exists>f. entry_frame v' (pte v' pd k) = Some f \<and> owned v' f \<and>
        f \<notin> tables v' S \<and> page_ref f v' = int (card (maps v' S f)))"
    proof (cases rule: leaf_okD)
      case (some g)
      then have "maps v S g \<noteq> {}" using k by (auto simp: maps_def)
      then show ?thesis using some o f k by (simp add: t e m)
    qed (simp add: t k)
  qed
  ultimately show ?thesis using vm_invD(1) [OF i] p by (simp add: vm_inv_def)
qed

text \<open>Writing an entry of a third-level table changes that page of that space only.\<close>

lemma set_word_simps [simp]:
  "frames (set_word t i w v) = frames v" "npage (set_word t i w v) = npage v"
  "ram (set_word t i w v) p k = (if p = t \<and> k = i then w else ram v p k)"
  by (simp_all add: set_word_def)

lemma set_leaf:
  assumes t: "tree_ok v S" and s: "pd \<in> S" "j < 1024" "tab v (Low pd j) = Some p" and i: "i < 512"
  shows "s \<in> slots S \<Longrightarrow> tab (set_word p i w v) s = tab v s"
    "pd' \<in> S \<Longrightarrow> k < USER_PAGES \<Longrightarrow> pte (set_word p i w v) pd' k = (if pd' = pd \<and> k = j * 512 + i then w else pte v pd' k)"
    "tables (set_word p i w v) S = tables v S"
proof -
  let ?v = "set_word p i w v"
  have L: "Low pd j \<in> slots S" using s by simp
  note e = entry_frame_npage [of ?v v, simplified]
  note only = tree_okD(2) [OF t L s(3)]
  have m: "mid ?v pd' k = mid v pd' k" if "pd' \<in> S" for pd' k
    using only [of "Root pd'"] that by (auto simp: mid_def e)
  have l: "low ?v pd' k = low v pd' k" if "pd' \<in> S" "k < 1024" for pd' k
  proof (cases "mid v pd' (k div 512)")
    case (Some q)
    then have "q \<noteq> p" using only [of "Mid pd' (k div 512)"] that by (auto simp: page_index)
    then show ?thesis using Some that by (simp add: low_def m e)
  qed (simp add: low_def m that)
  show T: "tab ?v s = tab v s" if "s \<in> slots S" for s using that by (cases s) (simp_all add: m l)
  show "pte ?v pd' k = (if pd' = pd \<and> k = j * 512 + i then w else pte v pd' k)" if k: "pd' \<in> S" "k < USER_PAGES"
  proof (cases "low v pd' (k div 512)")
    case None
    then have "\<not> (pd' = pd \<and> k = j * 512 + i)" using s(3) i by auto
    then show ?thesis using None k by (auto simp: pte_def l page_index)
  next
    case (Some q)
    have "q = p \<longleftrightarrow> pd' = pd \<and> k div 512 = j"
      using only [of "Low pd' (k div 512)"] k Some s(3) by (auto simp: page_index)
    moreover have "k = j * 512 + i \<longleftrightarrow> k div 512 = j \<and> k mod 512 = i" using i by auto
    ultimately show ?thesis using Some k by (auto simp: pte_def l page_index)
  qed
  show "tables ?v S = tables v S" using T by (auto simp: tables_def)
qed
text \<open>A zeroed frame entered as a table of a space changes no translation.\<close>

lemma new_table:
  assumes t: "tree_ok v S" and s: "s \<in> slots S" "\<not> is_low s" "tab v s = Some t" "i < 512" "child s i \<in> slots S" "\<not> valid (ram v t i)"
    and p: "p \<notin> tables v S" and n: "npage v' = npage v" and r: "ram v' = (ram v)(p := \<lambda>_. 0, t := (ram v t)(i := e))"
    and e: "entry_frame v e = Some p"
  shows "s' \<in> slots S \<Longrightarrow> tab v' s' = (if s' = child s i then Some p else tab v s')"
    "pd \<in> S \<Longrightarrow> k < USER_PAGES \<Longrightarrow> pte v' pd k = pte v pd k"
    "tables v' S = insert p (tables v S)"
proof -
  note en = entry_frame_npage [OF n]
  note only = tree_okD(2) [OF t s(1,3)]
  have out: "q \<noteq> p" if "s' \<in> slots S" "tab v s' = Some q" for s' q using tables_slot [OF that] p by auto
  have none: "tab v (child s i) = None" using tab_child [OF s(3,2,4)] s(6) by (simp add: entry_frame_def)
  have tp: "t \<noteq> p" using out [OF s(1,3)] .
  have m: "mid v' pd k = (if Mid pd k = child s i then Some p else mid v pd k)" if "pd \<in> S" for pd k
  proof (cases "pd = t")
    case True
    then have "s = Root pd" using only [of "Root pd"] that by simp
    then show ?thesis using True e by (simp add: mid_def r en)
  next
    case False
    have "pd \<noteq> p" using out [of "Root pd"] that by simp
    moreover have "Mid pd k \<noteq> child s i" using s(2,3) False by (cases s) auto
    ultimately show ?thesis using False by (simp add: mid_def r en)
  qed
  have l: "low v' pd k = (if Low pd k = child s i then Some p else low v pd k)" if "pd \<in> S" "k < 1024" for pd k
  proof (cases "Mid pd (k div 512) = child s i")
    case True
    then have "s = Root pd" by (cases s) auto
    moreover have "mid v pd (k div 512) = None" using none True by (metis tab.simps(2))
    ultimately show ?thesis using that True m [of pd "k div 512"] tp by (auto simp: low_def r en)
  next
    case False
    show ?thesis
    proof (cases "mid v pd (k div 512)")
      case None
      have "Low pd k \<noteq> child s i"
      proof
        assume "Low pd k = child s i"
        then have "s = Mid pd (k div 512)" using s(2,4) by (cases s) auto
        then show False using s(3) None by simp
      qed
      then show ?thesis using None False that m by (simp add: low_def)
    next
      case (Some q)
      have q: "q \<noteq> p" using out [of "Mid pd (k div 512)"] Some that by (simp add: page_index)
      show ?thesis
      proof (cases "q = t")
        case True
        then have sm: "s = Mid pd (k div 512)" using only [of "Mid pd (k div 512)"] Some that by (simp add: page_index)
        have "k = k div 512 * 512 + i \<longleftrightarrow> k mod 512 = i" using div_mult_mod_eq [of k 512] by (metis add_left_cancel)
        then have "Low pd k = child s i \<longleftrightarrow> k mod 512 = i" by (simp add: sm)
        then show ?thesis using True Some False m [of pd "k div 512"] that e tp by (simp add: low_def r en)
      next
        case nt: False
        have "Low pd k \<noteq> child s i"
        proof
          assume "Low pd k = child s i"
          then have "s = Mid pd (k div 512)" using s(2,4) by (cases s) auto
          then show False using s(3) Some nt by simp
        qed
        then show ?thesis using Some False nt q m [of pd "k div 512"] that by (simp add: low_def r en)
      qed
    qed
  qed
  show T: "tab v' s' = (if s' = child s i then Some p else tab v s')" if "s' \<in> slots S" for s'
  proof (cases s')
    case (Root pd)
    then have "s' \<noteq> child s i" using s(2) by (cases s) auto
    then show ?thesis using Root by simp
  qed (use that m l in auto)
  show "pte v' pd k = pte v pd k" if k: "pd \<in> S" "k < USER_PAGES"
  proof (cases "Low pd (k div 512) = child s i")
    case True
    then have "low v pd (k div 512) = None" using none by (metis tab.simps(3))
    then show ?thesis using l [of pd "k div 512"] k True tp by (simp add: pte_def page_index r)
  next
    case False
    show ?thesis
    proof (cases "low v pd (k div 512)")
      case (Some q)
      have "q \<noteq> p" using out [of "Low pd (k div 512)"] Some k by (simp add: page_index)
      moreover have "q \<noteq> t" using only [of "Low pd (k div 512)"] Some k s(2) by (auto simp: page_index)
      ultimately show ?thesis using Some False l [of pd "k div 512"] k by (simp add: pte_def page_index r)
    qed (use False l [of pd "k div 512"] k in \<open>simp add: pte_def page_index\<close>)
  qed
  have "q \<in> tables v' S \<longleftrightarrow> q = p \<or> q \<in> tables v S" for q
  proof
    assume "q \<in> tables v' S"
    then obtain s' where "s' \<in> slots S" "tab v' s' = Some q" by (auto simp: tables_def)
    then show "q = p \<or> q \<in> tables v S" using T tables_slot by (auto split: if_splits)
  next
    assume "q = p \<or> q \<in> tables v S"
    then show "q \<in> tables v' S"
    proof
      assume "q = p"
      then show ?thesis using T [OF s(5)] s(5) by (auto simp: tables_def)
    next
      assume "q \<in> tables v S"
      then obtain s' where s': "s' \<in> slots S" "tab v s' = Some q" by (auto simp: tables_def)
      then have "s' \<noteq> child s i" using none by auto
      then show ?thesis using T [OF s'(1)] s' by (auto simp: tables_def)
    qed
  qed
  then show "tables v' S = insert p (tables v S)" by blast
qed

end
