(* ===== verification/Paging_Ops.thy ===== *)
theory Paging_Ops
  imports Paging_Inv
begin

text \<open>
  The operations on page tables keep \<open>vm_inv\<close> and act on the translations \<open>pte\<close> as they should: walking
  with creation changes none, inserting and removing change the one of their page, and the loops over
  ranges are pointwise.
\<close>

lemma frames_update [simp]:
  "vfree (v\<lparr>ram := r\<rparr>) = vfree v" "vfree (set_word t i w v) = vfree v" "vfree (set_frame p c v) = vfree v"
  "frames (set_frame p c v) = frames v" "npage (set_frame p c v) = npage v" "npage (set_page_ref p n v) = npage v"
  "ram (set_page_ref p n v) = ram v" "ram (set_frame p c v) = (ram v)(p := c)"
  "page_ref q (set_word t i w v) = page_ref q v" "page_ref q (set_frame p c v) = page_ref q v"
  by (simp_all add: vfree_def set_word_def set_frame_def set_page_ref_def page_ref_def)

lemma limit_update: "npage v' = npage v \<Longrightarrow> limit v' = limit v"
  by (simp add: limit_def)

lemma page_ref_frame: "page_ref p v = frame_ref (frames v) p"
  by (simp add: page_ref_def frame_ref_def)

lemma set_page_ref_frame: "set_page_ref p n v = v\<lparr>frames := set_frame_ref p n (frames v)\<rparr>"
  by (simp add: set_page_ref_def set_frame_ref_def)

lemma set_page_ref_ok:
  assumes "pool_ok v" "p \<notin> vfree v"
  shows "pool_ok (set_page_ref p n v)" "vfree (set_page_ref p n v) = vfree v"
    "page_ref q (set_page_ref p n v) = (if q = p then n else page_ref q v)"
    "frame_reserved (frames (set_page_ref p n v)) = frame_reserved (frames v)"
  using fp.pool_set_ref [of "frames v" p n] assms
  by (auto simp: pool_ok_def vfree_def set_page_ref_frame page_ref_frame limit_def)

lemma alloc_page_cases:
  assumes "pool_ok v"
  obtains (none) "alloc_pages 1 v = Some (None, v)" "vfree v = {}"
  | (some) p f where "alloc_pages 1 v = Some (Some p, v\<lparr>frames := f\<rparr>)" "p \<in> vfree v" "pool_ok (v\<lparr>frames := f\<rparr>)"
      "vfree (v\<lparr>frames := f\<rparr>) = vfree v - {p}" "\<And>q. page_ref q (v\<lparr>frames := f\<rparr>) = page_ref q v" "page_ref p v = 0"
      "frame_reserved f = frame_reserved (frames v)" "\<not> frame_reserved f p" "p \<in> limit v"
proof -
  have "fp.pool (frames v)" using assms by (simp add: pool_ok_def)
  then show thesis
  proof (cases rule: fp.pool_alloc)
    case none
    have "v\<lparr>frames := frames v\<rparr> = v" by simp
    with none that(1) show thesis by (simp add: alloc_pages_def default_pmm_manager_def vfree_def)
  next
    case (some p f)
    have "p \<in> limit v" using assms some(3) by (auto simp: pool_ok_def vfree_def)
    moreover have "pool_ok (v\<lparr>frames := f\<rparr>)" using assms some(2,4) by (auto simp: pool_ok_def vfree_def limit_def)
    ultimately show thesis using some that(2) [of p f]
      by (simp add: alloc_pages_def default_pmm_manager_def vfree_def page_ref_frame)
  qed
qed

lemma free_page_ok:
  assumes "pool_ok v" "owned v p" "vfree v = {} \<or> (\<exists>h \<in> vfree v. p < h)"
  obtains f where "free_pages p 1 v = Some (v\<lparr>frames := f\<rparr>)" "pool_ok (v\<lparr>frames := f\<rparr>)" "vfree (v\<lparr>frames := f\<rparr>) = insert p (vfree v)"
    "\<And>q. page_ref q (v\<lparr>frames := f\<rparr>) = (if q = p then 0 else page_ref q v)" "frame_reserved f = (frame_reserved (frames v))(p := False)"
proof -
  have "fp.pool (frames v)" "p \<notin> pmm_free_of (frames v)" "\<not> frame_reserved (frames v) p"
    "pmm_free_of (frames v) = {} \<or> (\<exists>h \<in> pmm_free_of (frames v). p < h)"
    using assms by (simp_all add: pool_ok_def owned_def vfree_def)
  from fp.pool_free [OF this] obtain f where f: "default_free_pages p 1 (frames v) = Some f" "fp.pool f"
    "pmm_free_of f = insert p (pmm_free_of (frames v))" "frame_ref f = (frame_ref (frames v))(p := 0)"
    "frame_reserved f = (frame_reserved (frames v))(p := False)" by blast
  have "pool_ok (v\<lparr>frames := f\<rparr>)" using assms f by (auto simp: pool_ok_def vfree_def limit_def owned_def)
  with f show thesis using that [of f]
    by (simp add: free_pages_def default_pmm_manager_def vfree_def page_ref_frame)
qed

subsection \<open>Walking\<close>

text \<open>Only tables have been added, at most \<open>n\<close>: no translation and no other frame has changed.\<close>

definition grown :: "nat set \<Rightarrow> nat \<Rightarrow> vmem \<Rightarrow> vmem \<Rightarrow> bool" where
  "grown S n v v' \<longleftrightarrow> npage v' = npage v \<and> frame_reserved (frames v') = frame_reserved (frames v) \<and>
     (\<exists>N. N \<subseteq> vfree v \<and> vfree v' = vfree v - N \<and> tables v' S = tables v S \<union> N \<and> card N \<le> n) \<and>
     (\<forall>s \<in> slots S. \<forall>t. tab v s = Some t \<longrightarrow> tab v' s = Some t) \<and>
     (\<forall>pd \<in> S. \<forall>k < USER_PAGES. pte v' pd k = pte v pd k) \<and>
     (\<forall>f. f \<notin> tables v' S \<longrightarrow> ram v' f = ram v f \<and> page_ref f v' = page_ref f v)"

lemma grown_refl [simp]: "grown S n v v"
  unfolding grown_def by (auto intro!: exI [of _ "{}"])

lemma grown_trans:
  assumes "grown S m v v'" "grown S n v' w"
  shows "grown S (m + n) v w"
proof -
  from assms obtain M N where M: "M \<subseteq> vfree v" "vfree v' = vfree v - M" "tables v' S = tables v S \<union> M" "card M \<le> m"
    and N: "N \<subseteq> vfree v'" "vfree w = vfree v' - N" "tables w S = tables v' S \<union> N" "card N \<le> n" unfolding grown_def by blast
  have "card (M \<union> N) \<le> m + n" using card_Un_le [of M N] M(4) N(4) by linarith
  then have "\<exists>N. N \<subseteq> vfree v \<and> vfree w = vfree v - N \<and> tables w S = tables v S \<union> N \<and> card N \<le> m + n"
    using M N by (intro exI [of _ "M \<union> N"]) auto
  moreover have "f \<notin> tables w S \<Longrightarrow> f \<notin> tables v' S" for f using N(3) by blast
  ultimately show ?thesis using assms unfolding grown_def by simp
qed

lemma grown_mono: "grown S m v v' \<Longrightarrow> m \<le> n \<Longrightarrow> grown S n v v'"
  unfolding grown_def by (meson le_trans)

lemma new_table_inv:
  assumes i: "vm_inv v S" and s: "s \<in> slots S" "\<not> is_low s" "tab v s = Some t" "k < 512" "child s k \<in> slots S" "\<not> valid (ram v t k)"
    and p: "p \<in> vfree v" "\<not> frame_reserved (frames v) p" and n: "npage v' = npage v" and r: "ram v' = (ram v)(p := \<lambda>_. 0, t := (ram v t)(k := e))"
    and e: "entry_frame v e = Some p" "pointer e" and f: "pool_ok v'" "vfree v' = vfree v - {p}" "\<And>q. q \<noteq> p \<Longrightarrow> page_ref q v' = page_ref q v"
      "frame_reserved (frames v') = frame_reserved (frames v)"
  shows "vm_inv v' S" "grown S 1 v v'" "\<And>s'. s' \<in> slots S \<Longrightarrow> tab v' s' = (if s' = child s k then Some p else tab v s')"
proof -
  note T = vm_invD(3) [OF i]
  have pt: "p \<notin> tables v S" using p(1) tree_okD(1) [OF T] by (auto simp: tables_def owned_def)
  note nt = new_table [OF T s pt n r e(1)]
  show tab: "tab v' s' = (if s' = child s k then Some p else tab v s')" if "s' \<in> slots S" for s' using nt(1) [OF that] .
  have none: "tab v (child s k) = None" using tab_child [OF s(3,2,4)] s(6) by (simp add: entry_frame_def)
  have lim: "limit v' = limit v" using n by (simp add: limit_def)
  have own: "owned v' q" if "owned v q \<or> q = p" for q
    using that p f vm_invD(7) [OF i] by (auto simp: owned_def lim)
  note en = entry_frame_npage [OF n]
  have m: "maps v' S = maps v S" by (auto simp: maps_def fun_eq_iff nt(2) en)
  have tp: "t \<noteq> p" using tables_slot [OF s(1,3)] pt by auto
  have "tree_ok v' S" unfolding tree_ok_def
  proof (intro conjI ballI allI impI)
    fix s' q assume "s' \<in> slots S" "tab v' s' = Some q"
    then show "owned v' q" using tab tree_okD(1) [OF T] own by (auto split: if_splits)
  next
    fix s1 s2 assume a: "s1 \<in> slots S" "s2 \<in> slots S" "tab v' s1 = tab v' s2" "tab v' s1 \<noteq> None"
    show "s1 = s2"
    proof (cases "s1 = child s k \<or> s2 = child s k")
      case True
      then have "tab v' s1 = Some p" "tab v' s2 = Some p" using a tab by auto
      moreover have "s' = child s k" if "s' \<in> slots S" "tab v' s' = Some p" for s'
        using that tab [of s'] tables_slot [of s' S v p] pt by (auto split: if_splits)
      ultimately show ?thesis using a by blast
    next
      case False
      then show ?thesis using a tab tree_okD(2) [OF T] by auto
    qed
  next
    fix s' q j assume a: "s' \<in> slots S" "\<not> is_low s'" "tab v' s' = Some q" "j < 512" "child s' j \<in> slots S" "valid (ram v' q j)"
    have "s' \<noteq> child s k"
    proof
      assume "s' = child s k"
      then have "q = p" using a(1,3) tab by simp
      then show False using a(6) tp by (simp add: r valid_def)
    qed
    then have q: "tab v s' = Some q" using a(1,3) tab by simp
    then have qp: "q \<noteq> p" using tables_slot [OF a(1)] pt by auto
    have "tab v' (child s' j) \<noteq> None \<and> pointer (ram v' q j)"
    proof (cases "q = t \<and> j = k")
      case True
      then have "s' = s" using tree_okD(2) [OF T s(1,3) a(1)] q by simp
      then show ?thesis using True tab [OF a(5)] e(2) by (simp add: r)
    next
      case False
      then have "ram v' q j = ram v q j" using qp by (auto simp: r)
      then show ?thesis using tree_okD(3,4) [OF T a(1) q a(2,4,5)] a(6) tab [OF a(5)] by auto
    qed
    then show "tab v' (child s' j) \<noteq> None" "pointer (ram v' q j)" by blast+
  qed
  moreover have "leaf_ok v' S" unfolding leaf_ok_def
  proof (intro ballI allI impI)
    fix pd j assume j: "pd \<in> S" "j < USER_PAGES"
    from vm_invD(4) [OF i] j show "pte v' pd j = 0 \<or> (\<exists>f. entry_frame v' (pte v' pd j) = Some f \<and> owned v' f \<and>
        f \<notin> tables v' S \<and> page_ref f v' = int (card (maps v' S f)))"
    proof (cases rule: leaf_okD)
      case (some g)
      then have "g \<noteq> p" using p(1) by (auto simp: owned_def)
      then show ?thesis using some own f(3) by (simp add: nt(2,3) j en m)
    qed (simp add: nt(2) j)
  qed
  ultimately show "vm_inv v' S" using vm_invD(1) [OF i] f(1) by (simp add: vm_inv_def)
  have "ram v' g = ram v g" if "g \<notin> tables v' S" for g
    using that tables_slot [OF s(1,3)] by (auto simp: r nt(3))
  moreover have "tab v' s' = Some q" if "s' \<in> slots S" "tab v s' = Some q" for s' q using that none tab by auto
  ultimately show "grown S 1 v v'" using n f nt(2,3) p(1) unfolding grown_def
    by (auto intro!: exI [of _ "{p}"])
qed
lemma perm_bits: "(PTE_U OR PTE_V) AND NOT 0x3FF = 0" "(e AND PTE_USER) AND NOT 0x3FF = 0" "(PTE_V OR e AND PTE_USER) AND NOT 0x3FF = 0"
proof -
  have u: "PTE_USER = mask 5" by (simp add: PTE_USER_def mask_eq_exp_minus_1)
  show "(PTE_U OR PTE_V) AND NOT 0x3FF = 0" by (simp add: PTE_U_def PTE_V_def)
  have *: "(x AND PTE_USER) AND NOT 0x3FF = 0" for x
    unfolding low_mask u by (rule bit_word_eqI) (auto simp: bit_simps)
  show "(e AND PTE_USER) AND NOT 0x3FF = 0" by (rule *)
  have "(PTE_V OR e AND PTE_USER) = (PTE_V OR e) AND PTE_USER"
    by (rule bit_word_eqI) (auto simp: bit_simps PTE_V_def u)
  then show "(PTE_V OR e AND PTE_USER) AND NOT 0x3FF = 0" using * by simp
qed

lemma entry_top:
  assumes "p \<in> limit v" "npage v \<le> 2 ^ 44" "ty AND NOT 0x3FF = 0"
  shows "drop_bit 54 (pte_create (page2ppn nbase p) ty) = 0"
proof -
  have u: "unat (page2ppn nbase p) < 2 ^ 44" using assms(1,2) unat_page2ppn [of p] by (simp add: limit_def)
  have hi: "\<not> bit (page2ppn nbase p) i" if "44 \<le> i" for i
  proof
    assume "bit (page2ppn nbase p) i"
    then have "bit (unat (page2ppn nbase p)) i" by (simp add: bit_simps)
    then have "odd (unat (page2ppn nbase p) div 2 ^ i)" by (simp add: bit_iff_odd)
    moreover have "unat (page2ppn nbase p) < 2 ^ i" using u power_increasing [OF that, of "2 :: nat"] by simp
    ultimately show False by simp
  qed
  have n: "drop_bit 54 (push_bit 10 (page2ppn nbase p)) = 0" by (rule bit_word_eqI) (auto simp: bit_simps hi)
  have z: "\<not> bit (ty AND NOT (mask 10)) i" for i using assms(3) unfolding low_mask by simp
  have "\<not> bit ty (54 + i)" for i using z [of "54 + i"] bit_imp_le_length [of ty "54 + i"] by (auto simp: bit_simps)
  then have "drop_bit 54 ty = 0" by (intro bit_word_eqI) (simp add: bit_simps)
  then show ?thesis by (simp add: pte_create_def n) (simp add: PTE_V_def)
qed

lemma table_pointer:
  assumes "p \<in> limit v" "npage v \<le> 2 ^ 44"
  shows "pointer (pte_create (page2ppn nbase p) (PTE_U OR PTE_V))"
proof -
  have "push_bit 10 n AND mask 10 = 0" for n :: u64 by (rule bit_word_eqI) (auto simp: bit_simps)
  then have "push_bit 10 n AND (mask 10 AND 0xE) = 0" for n :: u64 by (simp only: and.assoc [symmetric] and_zero_eq) simp
  then have low: "push_bit 10 n AND 0xE = 0" for n :: u64 by (simp add: mask_eq_exp_minus_1)
  have "pte_create (page2ppn nbase p) (PTE_U OR PTE_V) AND 0xE = 0"
    by (simp add: pte_create_def bit.conj_disj_distrib2 low) (simp add: PTE_U_def PTE_V_def)
  then show ?thesis using entry_top [OF assms perm_bits(1)] by (simp add: pointer_def)
qed

lemma next_table_ok:
  assumes i: "vm_inv v S" and s: "s \<in> slots S" "\<not> is_low s" "tab v s = Some t" "k < 512" "child s k \<in> slots S"
  shows "\<exists>r v'. next_table t k create v = Some (r, v') \<and> vm_inv v' S \<and> grown S 1 v v' \<and> tab v' (child s k) = r \<and>
    (r = None \<longrightarrow> v' = v \<and> (create \<longrightarrow> vfree v = {})) \<and> (\<not> create \<or> tab v (child s k) \<noteq> None \<longrightarrow> v' = v)"
proof (cases "valid (ram v t k)")
  case True
  from tree_okD(3) [OF vm_invD(3) [OF i] s(1,3,2,4,5) True] obtain u where u: "tab v (child s k) = Some u" by blast
  then have "pde2page (ram v t k) v = Some u"
    using True tab_child [OF s(3,2,4)] by (simp add: entry_frame_def pde2page_def)
  then show ?thesis using True i u by (simp add: next_table_def)
next
  case nv: False
  have none: "tab v (child s k) = None" using tab_child [OF s(3,2,4)] nv by (simp add: entry_frame_def)
  show ?thesis
  proof (cases create)
    case False
    then show ?thesis using nv i none by (simp add: next_table_def)
  next
    case True
    note P = vm_invD(2) [OF i]
    from P show ?thesis
    proof (cases rule: alloc_page_cases)
      case none'': none
      then show ?thesis using nv i none True by (simp add: next_table_def)
    next
      case (some p f)
      let ?v1 = "v\<lparr>frames := f\<rparr>"
      let ?v2 = "set_frame p (\<lambda>_. 0) (set_page_ref p 1 ?v1)"
      let ?e = "pte_create (page2ppn nbase p) (PTE_U OR PTE_V)"
      let ?v3 = "set_word t k ?e ?v2"
      have lim: "p \<in> limit ?v1" "npage ?v1 \<le> 2 ^ 44" using some(9) vm_invD(6) [OF i] by (simp_all add: limit_def)
      note ref = set_page_ref_ok [OF some(3), where p = p and n = 1]
      have out: "p \<notin> vfree ?v1" using some(4) by simp
      have tp: "t \<noteq> p" using some(2) tree_okD(1) [OF vm_invD(3) [OF i] s(1,3)] by (auto simp: owned_def)
      have e: "entry_frame v ?e = Some p" using entry_frame_create [of p v] some(9) vm_invD(6) [OF i] perm_bits(1) by blast
      have pool: "pool_ok ?v3" using ref(1) [OF out] by (simp add: pool_ok_def limit_def)
      have r: "ram ?v3 = (ram v)(p := \<lambda>_. 0, t := (ram v t)(k := ?e))" using tp by (auto simp: fun_eq_iff)
      have "vfree ?v3 = vfree v - {p}" "frame_reserved (frames ?v3) = frame_reserved (frames v)"
        using ref(2,4) [OF out] some(4,7) by simp_all
      moreover have "page_ref q ?v3 = page_ref q v" if "q \<noteq> p" for q using ref(3) [OF out] that some(5) by simp
      ultimately have n: "vm_inv ?v3 S" "grown S 1 v ?v3" "tab ?v3 (child s k) = Some p"
        using new_table_inv [OF i s nv some(2) _ _ r e table_pointer [OF some(9) vm_invD(6) [OF i]] pool] some(7,8) s(5) by simp_all
      have "pde2page ?e ?v3 = Some p"
        using pte_create_page [of p ?v3] lim perm_bits(1) by (simp add: pde2page_def limit_def)
      then have "next_table t k create v = Some (Some p, ?v3)"
        using nv True some(1) page2kva_ok [OF lim] by (simp add: next_table_def Let_def)
      then show ?thesis using n True none by simp
    qed
  qed
qed

lemma get_pte_ok:
  assumes i: "vm_inv v S" and pd: "pd \<in> S" and la: "la < USERTOP"
  shows "\<exists>r v'. get_pte pd la create v = Some (r, v') \<and> vm_inv v' S \<and> grown S 2 v v' \<and>
    (\<not> create \<or> low v pd (unat la div 4096 div 512) \<noteq> None \<longrightarrow> v' = v) \<and>
    (case r of None \<Rightarrow> low v' pd (unat la div 4096 div 512) = None \<and> (create \<longrightarrow> vfree v' = {})
     | Some (t, k) \<Rightarrow> low v' pd (unat la div 4096 div 512) = Some t \<and> k = unat la div 4096 mod 512)"
proof -
  note u = user_index [OF la]
  let ?j = "unat la div 4096 div 512"
  have j: "?j < 1024" "?j div 512 < 2" using page_index u(4) by (simp_all add: USER_PAGES_def)
  have R: "Root pd \<in> slots S" "\<not> is_low (Root pd)" "tab v (Root pd) = Some pd" "PDX1 la < 512" "child (Root pd) (PDX1 la) \<in> slots S"
    using pd u(5) by simp_all
  from next_table_ok [OF i R, of create, unfolded child.simps tab.simps] obtain r1 v1 where
    n1: "next_table pd (PDX1 la) create v = Some (r1, v1)" "vm_inv v1 S" "grown S 1 v v1" "mid v1 pd (PDX1 la) = r1"
      "r1 = None \<longrightarrow> v1 = v \<and> (create \<longrightarrow> vfree v = {})" "\<not> create \<or> mid v pd (PDX1 la) \<noteq> None \<longrightarrow> v1 = v"
    by (elim exE conjE) (rule that, assumption+)
  show ?thesis
  proof (cases r1)
    case None
    then have "low v1 pd ?j = None" using n1(4) by (simp add: low_def u(1))
    then show ?thesis using n1 None grown_mono [OF n1(3), of 2] by (auto simp: get_pte_def)
  next
    case (Some t1)
    have c: "child (Mid pd (PDX1 la)) (PDX0 la) = Low pd ?j" by (simp add: u(1,2) div_mult_mod_eq)
    have m: "Mid pd (PDX1 la) \<in> slots S" "\<not> is_low (Mid pd (PDX1 la))" "tab v1 (Mid pd (PDX1 la)) = Some t1" "PDX0 la < 512"
      "child (Mid pd (PDX1 la)) (PDX0 la) \<in> slots S"
      using pd u n1(4) Some j unfolding c by simp_all
    from next_table_ok [OF n1(2) m, of create, unfolded c tab.simps] obtain r0 v2 where
      n2: "next_table t1 (PDX0 la) create v1 = Some (r0, v2)" "vm_inv v2 S" "grown S 1 v1 v2" "low v2 pd ?j = r0"
        "r0 = None \<longrightarrow> v2 = v1 \<and> (create \<longrightarrow> vfree v1 = {})" "\<not> create \<or> low v1 pd ?j \<noteq> None \<longrightarrow> v2 = v1"
      by (elim exE conjE) (rule that, assumption+)
    have g: "grown S 2 v v2" using grown_trans [OF n1(3) n2(3)] by (simp add: numeral_2_eq_2)
    have "low v pd ?j \<noteq> None \<Longrightarrow> mid v pd (PDX1 la) \<noteq> None" by (auto simp: low_def u(1) split: option.splits)
    then have "\<not> create \<or> low v pd ?j \<noteq> None \<longrightarrow> v2 = v" using n1(6) n2(6) by auto
    then show ?thesis using n1 n2 Some g u(3) by (cases r0) (auto simp: get_pte_def)
  qed
qed

text \<open>Without creation the walk is a function of the translations.\<close>

lemma get_pte_look:
  assumes "vm_inv v S" "pd \<in> S" "la < USERTOP"
  shows "get_pte pd la False v = Some (map_option (\<lambda>t. (t, unat la div 4096 mod 512)) (low v pd (unat la div 4096 div 512)), v)"
proof -
  from get_pte_ok [OF assms, of False] obtain r where "get_pte pd la False v = Some (r, v)"
    "case r of None \<Rightarrow> low v pd (unat la div 4096 div 512) = None
     | Some (t, k) \<Rightarrow> low v pd (unat la div 4096 div 512) = Some t \<and> k = unat la div 4096 mod 512"
    by (auto split: option.splits)
  then show ?thesis by (cases r) auto
qed

subsection \<open>Entries of pages\<close>

lemma set_entry_inv:
  assumes i: "vm_inv v S" and k: "pd \<in> S" "k < USER_PAGES" "low v pd (k div 512) = Some t"
    and n: "npage v' = npage v" and r: "ram v' = (ram v)(t := (ram v t)(k mod 512 := w))" and p: "pool_ok v'"
    and w: "w = 0 \<or> (\<exists>f. entry_frame v w = Some f \<and> owned v' f \<and> f \<notin> tables v S \<and> page_ref f v = int (card (maps v S f)))"
    and o: "\<And>g. owned v g \<Longrightarrow> g \<in> tables v S \<or> maps v S g - {(pd, k)} \<noteq> {} \<Longrightarrow> owned v' g"
    and f: "\<And>g. entry_frame v w = Some g \<or> maps v S g - {(pd, k)} \<noteq> {} \<Longrightarrow> page_ref g v' =
      page_ref g v + of_bool (entry_frame v w = Some g) - of_bool (entry_frame v (pte v pd k) = Some g)"
  shows "vm_inv v' S" "tables v' S = tables v S" "\<And>s. s \<in> slots S \<Longrightarrow> tab v' s = tab v s"
    "\<And>pd' k'. pd' \<in> S \<Longrightarrow> k' < USER_PAGES \<Longrightarrow> pte v' pd' k' = (if pd' = pd \<and> k' = k then w else pte v pd' k')"
proof -
  let ?u = "set_word t (k mod 512) w v"
  have L: "tab v (Low pd (k div 512)) = Some t" using k by simp
  have lt: "k mod 512 < 512" by simp
  note sl = set_leaf [OF vm_invD(3) [OF i] k(1) page_index(1) [OF k(2)] L lt, where w = w]
  have ru: "ram v' = ram ?u" by (simp add: r set_word_def)
  have nu: "npage v' = npage ?u" by (simp add: n)
  note st = same_trees [OF nu, of S] and en = entry_frame_npage [OF n]
  show tab: "tab v' s = tab v s" if "s \<in> slots S" for s using st(1) [OF _ that] sl(1) [OF that] by (simp add: ru)
  show P: "pte v' pd' k' = (if pd' = pd \<and> k' = k then w else pte v pd' k')" if "pd' \<in> S" "k' < USER_PAGES" for pd' k'
    using st(2) [OF _ that] sl(2) [OF that] by (simp add: ru)
  show tbl: "tables v' S = tables v S" using tab by (auto simp: tables_def)
  have m: "maps v' S g = (maps v S g - {(pd, k)}) \<union> (if entry_frame v w = Some g then {(pd, k)} else {})" for g
    using k(1,2) by (auto simp: maps_def en P split: if_splits)
  have tt: "t \<in> tables v S" by (rule tables_slot [OF _ L]) (use k page_index in simp)
  have "tree_ok v' S" unfolding tree_ok_def
  proof (intro conjI ballI allI impI)
    fix s q assume "s \<in> slots S" "tab v' s = Some q"
    then show "owned v' q" using tab o tree_okD(1) [OF vm_invD(3) [OF i]] tables_slot by auto
  next
    fix s s' assume "s \<in> slots S" "s' \<in> slots S" "tab v' s = tab v' s'" "tab v' s \<noteq> None"
    then show "s = s'" using tree_okD(2) [OF vm_invD(3) [OF i]] tab by auto
  next
    fix s q j assume a: "s \<in> slots S" "\<not> is_low s" "tab v' s = Some q" "j < 512" "child s j \<in> slots S" "valid (ram v' q j)"
    have "q \<noteq> t"
    proof
      assume "q = t"
      then have "s = Low pd (k div 512)" using tree_okD(2) [OF vm_invD(3) [OF i] _ L, of s] a(1,3) tab k page_index by simp
      then show False using a(2) by simp
    qed
    then show "tab v' (child s j) \<noteq> None" "pointer (ram v' q j)" using tree_okD(3,4) [OF vm_invD(3) [OF i] a(1) _ a(2,4,5), of q] a tab by (simp_all add: r)
  qed
  moreover have "leaf_ok v' S" unfolding leaf_ok_def
  proof (intro ballI allI impI)
    fix pd' k' assume k': "pd' \<in> S" "k' < USER_PAGES"
    have C: "page_ref g v' = int (card (maps v' S g))" if "entry_frame v' (pte v' pd' k') = Some g" "page_ref g v = int (card (maps v S g))" for g
    proof -
      have "(pd', k') \<in> maps v' S g" using that(1) k' by (simp add: maps_def)
      then have g: "entry_frame v w = Some g \<or> maps v S g - {(pd, k)} \<noteq> {}" by (auto simp: m split: if_splits)
      have fin: "finite (maps v S g)" using finite_maps vm_invD(1) [OF i] .
      have mem: "(pd, k) \<in> maps v S g \<longleftrightarrow> entry_frame v (pte v pd k) = Some g" using k by (simp add: maps_def)
      have c: "int (card (maps v S g - {(pd, k)})) = int (card (maps v S g)) - of_bool (entry_frame v (pte v pd k) = Some g)"
      proof (cases "(pd, k) \<in> maps v S g")
        case True
        have "0 < card (maps v S g)" using True fin card_gt_0_iff by blast
        moreover have "card (maps v S g - {(pd, k)}) = card (maps v S g) - 1" using True by (rule card_Diff_singleton)
        ultimately show ?thesis using True mem by simp
      qed (use mem in simp)
      have "int (card (maps v' S g)) = int (card (maps v S g - {(pd, k)})) + of_bool (entry_frame v w = Some g)"
        using fin by (simp add: m card.insert_remove)
      then show ?thesis using f [OF g] that(2) c by simp
    qed
    show "pte v' pd' k' = 0 \<or> (\<exists>f. entry_frame v' (pte v' pd' k') = Some f \<and> owned v' f \<and>
        f \<notin> tables v' S \<and> page_ref f v' = int (card (maps v' S f)))"
    proof (cases "pd' = pd \<and> k' = k")
      case True
      show ?thesis
      proof (cases "w = 0")
        case w0: True
        then show ?thesis using True P [OF k'] by simp
      next
        case False
        with w obtain g where g: "entry_frame v w = Some g" "owned v' g" "g \<notin> tables v S" "page_ref g v = int (card (maps v S g))" by blast
        then show ?thesis using C [of g] True P [OF k'] by (auto simp: en tbl)
      qed
    next
      case False
      from vm_invD(4) [OF i] k' show ?thesis
      proof (cases rule: leaf_okD)
        case (some g)
        have "(pd', k') \<in> maps v S g - {(pd, k)}" using some(1) k' False by (auto simp: maps_def)
        then have "owned v' g" using o some(2) by blast
        moreover have e': "entry_frame v' (pte v' pd' k') = Some g" using some(1) False P [OF k'] by (auto simp: en)
        ultimately show ?thesis using C [OF e' some(4)] some(3) by (simp add: tbl)
      qed (use False P k' in auto)
    qed
  qed
  ultimately show "vm_inv v' S" using vm_invD(1) [OF i] p by (simp add: vm_inv_def)
qed
text \<open>A free frame lies above every frame in use, so that frames can be given back.\<close>

definition topped :: "vmem \<Rightarrow> bool" where
  "topped v \<longleftrightarrow> (\<exists>h \<in> vfree v. \<forall>p. owned v p \<longrightarrow> p < h)"

definition drop_ref :: "nat \<Rightarrow> vmem \<Rightarrow> vmem option" where
  "drop_ref p v = (let v1 = page_ref_dec p v in if page_ref p v1 = 0 then free_pages p 1 v1 else Some v1)"

lemma page_remove_pte_drop:
  "page_remove_pte (t, i) v =
     (if valid (ram v t i) then do { p \<leftarrow> pte2page (ram v t i) v; v2 \<leftarrow> drop_ref p v; Some (set_word t i 0 v2) } else Some v)"
  by (simp add: page_remove_pte_def drop_ref_def Let_def)

lemma drop_ref_ok:
  assumes v: "pool_ok v" "owned v p" and t: "topped v"
  obtains f where "drop_ref p v = Some (v\<lparr>frames := f\<rparr>)" "pool_ok (v\<lparr>frames := f\<rparr>)"
    "vfree (v\<lparr>frames := f\<rparr>) = (if page_ref p v = 1 then insert p (vfree v) else vfree v)"
    "\<And>q. page_ref q (v\<lparr>frames := f\<rparr>) = (if q = p then page_ref p v - 1 else page_ref q v)"
    "frame_reserved f = frame_reserved (frames v)"
proof -
  let ?v1 = "page_ref_dec p v"
  have pf: "p \<notin> vfree v" using v(2) by (simp add: owned_def)
  note s = set_page_ref_ok [OF v(1) pf, where n = "page_ref p v - 1", folded page_ref_dec_def]
  have v1: "?v1 = v\<lparr>frames := frames ?v1\<rparr>" by (simp add: page_ref_dec_def set_page_ref_def)
  show thesis
  proof (cases "page_ref p v = 1")
    case False
    then have "drop_ref p v = Some ?v1" by (simp add: drop_ref_def Let_def s(3))
    then show ?thesis using that [of "frames ?v1"] False s v1 by simp
  next
    case True
    have own: "owned ?v1 q = owned v q" for q using s(2,4) by (simp add: owned_def page_ref_dec_def limit_def)
    from t obtain h where "h \<in> vfree v" "p < h" using v(2) unfolding topped_def by blast
    then have "vfree ?v1 = {} \<or> (\<exists>h \<in> vfree ?v1. p < h)" using s(2) by auto
    from free_page_ok [OF s(1) _ this] own v(2) obtain f where f: "free_pages p 1 ?v1 = Some (?v1\<lparr>frames := f\<rparr>)"
      "pool_ok (?v1\<lparr>frames := f\<rparr>)" "vfree (?v1\<lparr>frames := f\<rparr>) = insert p (vfree ?v1)"
      "\<And>q. page_ref q (?v1\<lparr>frames := f\<rparr>) = (if q = p then 0 else page_ref q ?v1)"
      "frame_reserved f = (frame_reserved (frames ?v1))(p := False)" by blast
    have e: "?v1\<lparr>frames := f\<rparr> = v\<lparr>frames := f\<rparr>" by (simp add: page_ref_dec_def set_page_ref_def)
    have "frame_reserved f = frame_reserved (frames v)" using f(5) s(4) v(2) by (auto simp: owned_def fun_eq_iff)
    moreover have "drop_ref p v = Some (v\<lparr>frames := f\<rparr>)" using f(1) True by (simp add: drop_ref_def Let_def s(3) e)
    ultimately show ?thesis using that [of f] f(2-4) True s(2,3) by (simp add: e)
  qed
qed

text \<open>The effect of writing one entry: that page of that space, nothing else.\<close>

definition entry_set :: "nat set \<Rightarrow> nat \<Rightarrow> nat \<Rightarrow> u64 \<Rightarrow> vmem \<Rightarrow> vmem \<Rightarrow> bool" where
  "entry_set S pd k w v v' \<longleftrightarrow> npage v' = npage v \<and> tables v' S = tables v S \<and>
     frame_reserved (frames v') = frame_reserved (frames v) \<and> (\<forall>s \<in> slots S. tab v' s = tab v s) \<and>
     (\<forall>pd' \<in> S. \<forall>k' < USER_PAGES. pte v' pd' k' = (if pd' = pd \<and> k' = k then w else pte v pd' k')) \<and>
     (\<forall>f. f \<notin> tables v S \<longrightarrow> ram v' f = ram v f)"

lemma remove_ok:
  assumes i: "vm_inv v S" and k: "pd \<in> S" "k < USER_PAGES" "low v pd (k div 512) = Some t" and t: "topped v"
  shows "\<exists>v'. page_remove_pte (t, k mod 512) v = Some v' \<and> vm_inv v' S \<and> entry_set S pd k 0 v v' \<and> topped v' \<and>
    vfree v' = vfree v \<union> {f. entry_frame v (pte v pd k) = Some f \<and> card (maps v S f) = 1} \<and>
    (\<forall>f. entry_frame v (pte v pd k) \<noteq> Some f \<longrightarrow> page_ref f v' = page_ref f v)"
proof -
  have e: "pte v pd k = ram v t (k mod 512)" using k(3) by (simp add: pte_def)
  have tt: "t \<in> tables v S" by (rule tables_slot [of "Low pd (k div 512)"]) (use k page_index in simp_all)
  from vm_invD(4) [OF i] k(1,2) show ?thesis
  proof (cases rule: leaf_okD)
    case none
    have nv: "\<not> valid 0" by (simp add: valid_def)
    have "page_remove_pte (t, k mod 512) v = Some v" using none nv by (simp add: page_remove_pte_drop e)
    moreover have "entry_set S pd k 0 v v" using none(1) by (simp add: entry_set_def)
    ultimately show ?thesis using i t none by auto
  next
    case (some f)
    note P = vm_invD(2) [OF i]
    have val: "valid (ram v t (k mod 512))" "pa2page (PTE_ADDR (ram v t (k mod 512))) v = Some f"
      using some(1) by (auto simp: entry_frame_def e split: if_splits)
    from drop_ref_ok [OF P some(2) t] obtain fr where d: "drop_ref f v = Some (v\<lparr>frames := fr\<rparr>)" "pool_ok (v\<lparr>frames := fr\<rparr>)"
      "vfree (v\<lparr>frames := fr\<rparr>) = (if page_ref f v = 1 then insert f (vfree v) else vfree v)"
      "\<And>q. page_ref q (v\<lparr>frames := fr\<rparr>) = (if q = f then page_ref f v - 1 else page_ref q v)"
      "frame_reserved fr = frame_reserved (frames v)" by blast
    let ?v' = "set_word t (k mod 512) 0 (v\<lparr>frames := fr\<rparr>)"
    have r: "ram ?v' = (ram v)(t := (ram v t)(k mod 512 := 0))" by (simp add: set_word_def)
    have res: "page_remove_pte (t, k mod 512) v = Some ?v'"
      using val d(1) by (simp add: page_remove_pte_drop pte2page_def)
    have pool: "pool_ok ?v'" using d(2) by (simp add: pool_ok_def limit_def)
    have fr: "vfree ?v' = (if page_ref f v = 1 then insert f (vfree v) else vfree v)" using d(3) by simp
    have own: "owned ?v' g \<longleftrightarrow> owned v g \<and> (page_ref f v = 1 \<longrightarrow> g \<noteq> f)" for g
      using fr d(5) by (auto simp: owned_def limit_def)
    have one: "page_ref f v = 1 \<longleftrightarrow> card (maps v S f) = 1" using some(4) by simp
    have o: "owned ?v' g" if "owned v g" "g \<in> tables v S \<or> maps v S g - {(pd, k)} \<noteq> {}" for g
    proof -
      have "g = f \<Longrightarrow> card (maps v S f) \<noteq> 1"
      proof
        assume g: "g = f" and c: "card (maps v S f) = 1"
        have "(pd, k) \<in> maps v S f" using some(1) k by (simp add: maps_def)
        with c have "maps v S f = {(pd, k)}" by (auto simp: card_1_singleton_iff)
        then show False using that(2) some(3) g by simp
      qed
      then show ?thesis using that(1) one by (auto simp: own)
    qed
    have refs: "page_ref g ?v' = page_ref g v + of_bool (entry_frame v 0 = Some g) - of_bool (entry_frame v (pte v pd k) = Some g)" for g
      using some(1) d(4) by (simp add: e)
    have n: "npage ?v' = npage v" by simp
    have w0: "(0 :: u64) = 0 \<or> (\<exists>f. entry_frame v 0 = Some f \<and> owned ?v' f \<and> f \<notin> tables v S \<and> page_ref f v = int (card (maps v S f)))"
      by simp
    note inv = set_entry_inv [OF i k n r pool w0 o refs]
    have "entry_set S pd k 0 v ?v'" using inv(2-4) tt d(5) by (auto simp: entry_set_def)
    moreover have "topped ?v'" using t fr unfolding topped_def own by auto
    moreover have "vfree ?v' = vfree v \<union> {f. entry_frame v (pte v pd k) = Some f \<and> card (maps v S f) = 1}"
      using fr some(1) one by (auto simp: e)
    moreover have "page_ref g ?v' = page_ref g v" if "entry_frame v (pte v pd k) \<noteq> Some g" for g using refs [of g] that by simp
    ultimately show ?thesis using res inv(1) by blast
  qed
qed
lemma grown_owned:
  assumes "grown S n v v'" "owned v p"
  shows "owned v' p" "p \<notin> tables v S \<Longrightarrow> p \<notin> tables v' S" "p \<notin> tables v S \<Longrightarrow> page_ref p v' = page_ref p v \<and> ram v' p = ram v p"
proof -
  from assms obtain N where N: "N \<subseteq> vfree v" "vfree v' = vfree v - N" "tables v' S = tables v S \<union> N" by (auto simp: grown_def)
  then show o: "owned v' p" using assms by (auto simp: owned_def grown_def limit_def)
  show t: "p \<notin> tables v' S" if "p \<notin> tables v S" using that N assms(2) by (auto simp: owned_def)
  show "page_ref p v' = page_ref p v \<and> ram v' p = ram v p" if "p \<notin> tables v S"
    using t [OF that] assms(1) by (simp add: grown_def)
qed

lemma grown_maps: "grown S n v v' \<Longrightarrow> maps v' S = maps v S"
  using entry_frame_npage [of v' v] by (auto simp: grown_def maps_def fun_eq_iff)

text \<open>A page entered at an address, in place of whatever was mapped there.\<close>

definition leaf_entry :: "nat \<Rightarrow> u64 \<Rightarrow> u64" where
  "leaf_entry page perm = pte_create (page2ppn nbase page) (PTE_V OR perm)"

lemma page_insert_ok:
  assumes i: "vm_inv v S" and pd: "pd \<in> S" and la: "la < USERTOP" and top: "pte v pd (unat la div 4096) \<noteq> 0 \<Longrightarrow> topped v"
    and p: "owned v page" "page \<notin> tables v S" "page_ref page v = int (card (maps v S page))"
    and perm: "(PTE_V OR perm) AND NOT 0x3FF = 0"
  shows "\<exists>ret v' v1. page_insert pd page la perm v = Some (ret, v') \<and> vm_inv v' S \<and> grown S 2 v v1 \<and>
    (if ret = 0 then entry_set S pd (unat la div 4096) (leaf_entry page perm) v1 v' \<and> low v1 pd (unat la div 4096 div 512) \<noteq> None \<and>
       vfree v' = vfree v1 \<union> {f. f \<noteq> page \<and> entry_frame v (pte v pd (unat la div 4096)) = Some f \<and> card (maps v S f) = 1} \<and>
       (\<forall>q. page_ref q v' = page_ref q v1 + of_bool (q = page) - of_bool (entry_frame v (pte v pd (unat la div 4096)) = Some q))
     else ret = - E_NO_MEM \<and> v' = v1 \<and> vfree v' = {}) \<and>
    (low v pd (unat la div 4096 div 512) \<noteq> None \<longrightarrow> ret = 0 \<and> v1 = v)"
proof -
  let ?k = "unat la div 4096" and ?w = "leaf_entry page perm"
  have k: "?k < USER_PAGES" using user_index(4) [OF la] by (simp add: USER_PAGES_def)
  from get_pte_ok [OF i pd la, of True] obtain r v1 where g: "get_pte pd la True v = Some (r, v1)" "vm_inv v1 S" "grown S 2 v v1"
    "\<not> True \<or> low v pd (?k div 512) \<noteq> None \<longrightarrow> v1 = v"
    "case r of None \<Rightarrow> low v1 pd (?k div 512) = None \<and> (True \<longrightarrow> vfree v1 = {})
     | Some (t, j) \<Rightarrow> low v1 pd (?k div 512) = Some t \<and> j = ?k mod 512"
    by (elim exE conjE) (rule that, assumption+)
  note go = grown_owned [OF g(3) p(1)]
  note gm = grown_maps [OF g(3)]
  have pt: "pte v1 pd ?k = pte v pd ?k" using g(3) pd k by (simp add: grown_def)
  have n1: "npage v1 = npage v" using g(3) by (simp add: grown_def)
  note P = vm_invD(2) [OF g(2)]
  show ?thesis
  proof (cases r)
    case None
    then have "page_insert pd page la perm v = Some (- E_NO_MEM, v1)" using g(1) by (simp add: page_insert_def)
    then show ?thesis using g None by auto
  next
    case (Some e)
    then obtain t where r: "r = Some (t, ?k mod 512)" and low: "low v1 pd (?k div 512) = Some t" using g(5) by (cases e) auto
    have tt: "t \<in> tables v1 S" by (rule tables_slot [of "Low pd (?k div 512)"]) (use low pd k page_index in simp_all)
    have e: "ram v1 t (?k mod 512) = pte v1 pd ?k" using low by (simp add: pte_def)
    have pf: "page \<notin> vfree v1" "page \<notin> tables v1 S" using go p by (auto simp: owned_def)
    have lim: "page \<in> limit v" "npage v \<le> 2 ^ 44" using p(1) vm_invD(6) [OF i] by (simp_all add: owned_def)
    have we: "entry_frame v1 ?w = Some page"
      using entry_frame_create [OF lim perm] by (simp add: leaf_entry_def entry_frame_npage [OF n1])
    note ref = set_page_ref_ok [OF P pf(1), where n = "page_ref page v1 + 1", folded page_ref_inc_def]
    let ?v2 = "page_ref_inc page v1"
    have rv2: "ram ?v2 = ram v1" "npage ?v2 = npage v1" by (simp_all add: page_ref_inc_def)
    have own2: "owned ?v2 q = owned v1 q" for q using ref(2,4) rv2 by (simp add: owned_def limit_def)
    have cnt: "page_ref page v1 = int (card (maps v1 S page))" using go(3) p(2,3) by (simp add: gm)
    text \<open>It is enough to describe the frames after the old entry is gone.\<close>
    have fin: ?thesis
      if v3: "(if valid (ram ?v2 t (?k mod 512)) then do {
                   q \<leftarrow> pte2page (ram ?v2 t (?k mod 512)) ?v2;
                   if q = page then Some (page_ref_dec page ?v2) else page_remove_pte (t, ?k mod 512) ?v2 }
                else Some ?v2) = Some v3"
        and s: "npage v3 = npage v1" "\<And>q j. q \<noteq> t \<or> j \<noteq> ?k mod 512 \<Longrightarrow> ram v3 q j = ram v1 q j" "pool_ok v3"
          "frame_reserved (frames v3) = frame_reserved (frames v1)"
        and f: "vfree v3 = vfree v1 \<union> {f. f \<noteq> page \<and> entry_frame v1 (pte v1 pd ?k) = Some f \<and> card (maps v1 S f) = 1}"
          "\<And>q. page_ref q v3 = page_ref q v1 + of_bool (q = page) - of_bool (entry_frame v1 (pte v1 pd ?k) = Some q)" for v3
    proof -
      let ?v' = "set_word t (?k mod 512) ?w v3"
      have res: "page_insert pd page la perm v = Some (0, ?v')"
        using g(1) r v3 by (simp add: page_insert_def Let_def leaf_entry_def)
      have n: "npage ?v' = npage v1" using s(1) by simp
      have rm: "ram ?v' = (ram v1)(t := (ram v1 t)(?k mod 512 := ?w))" using s(2) by (auto simp: fun_eq_iff)
      have pool: "pool_ok ?v'" using s(3) by (simp add: pool_ok_def limit_def)
      have own: "owned ?v' q \<longleftrightarrow> owned v1 q \<and> \<not> (q \<noteq> page \<and> entry_frame v1 (pte v1 pd ?k) = Some q \<and> card (maps v1 S q) = 1)" for q
        using s(1,4) f(1) by (auto simp: owned_def limit_def)
      have o: "owned ?v' q" if "owned v1 q" "q \<in> tables v1 S \<or> maps v1 S q - {(pd, ?k)} \<noteq> {}" for q
      proof -
        have False if c: "entry_frame v1 (pte v1 pd ?k) = Some q" "card (maps v1 S q) = 1"
        proof -
          have mem: "(pd, ?k) \<in> maps v1 S q" using c(1) pd k by (simp add: maps_def)
          with c(2) have "maps v1 S q = {(pd, ?k)}" by (auto simp: card_1_singleton_iff)
          moreover have "q \<notin> tables v1 S"
            using vm_invD(4) [OF g(2)] pd k c(1) by (cases rule: leaf_okD) auto
          ultimately show False using \<open>q \<in> tables v1 S \<or> _\<close> by simp
        qed
        then show ?thesis using that(1) by (auto simp: own)
      qed
      have w: "?w = 0 \<or> (\<exists>f. entry_frame v1 ?w = Some f \<and> owned ?v' f \<and> f \<notin> tables v1 S \<and> page_ref f v1 = int (card (maps v1 S f)))"
        using we own [of page] go(1) pf(2) cnt by blast
      have refs: "page_ref q ?v' = page_ref q v1 + of_bool (entry_frame v1 ?w = Some q) - of_bool (entry_frame v1 (pte v1 pd ?k) = Some q)" for q
        using f(2) [of q] we by auto
      note inv = set_entry_inv [OF g(2) pd k low n rm pool w o refs]
      have "entry_set S pd ?k ?w v1 ?v'" using inv(2-4) n s(4) tt by (auto simp: entry_set_def rm)
      moreover have "vfree ?v' = vfree v1 \<union> {f. f \<noteq> page \<and> entry_frame v (pte v pd ?k) = Some f \<and> card (maps v S f) = 1}"
        using f(1) by (simp add: pt gm entry_frame_npage [OF n1])
      moreover have "page_ref q ?v' = page_ref q v1 + of_bool (q = page) - of_bool (entry_frame v (pte v pd ?k) = Some q)" for q
        using f(2) [of q] by (simp add: pt entry_frame_npage [OF n1])
      ultimately show ?thesis using res inv(1) g(3,4) low
        by (intro exI [of _ 0] exI [of _ ?v'] exI [of _ v1]) simp
    qed
    from vm_invD(4) [OF g(2)] pd k show ?thesis
    proof (cases rule: leaf_okD)
      case none
      have nv: "\<not> valid 0" by (simp add: valid_def)
      show ?thesis
        by (rule fin [of ?v2]) (use none nv rv2 ref in \<open>auto simp: e\<close>)
    next
      case (some q)
      have val: "valid (pte v1 pd ?k)" "pa2page (PTE_ADDR (pte v1 pd ?k)) v1 = Some q"
        using some(1) by (auto simp: entry_frame_def split: if_splits)
      have q2: "pte2page (ram ?v2 t (?k mod 512)) ?v2 = Some q" using val by (simp add: pte2page_def rv2 e pa2page_def)
      show ?thesis
      proof (cases "q = page")
        case True
        note dec = set_page_ref_ok [OF ref(1), where p = page and n = "page_ref page ?v2 - 1", folded page_ref_dec_def]
        have "page \<notin> vfree ?v2" using pf(1) ref(2) by simp
        note dec = dec [OF this]
        show ?thesis
          by (rule fin [of "page_ref_dec page ?v2"])
            (use True q2 val(1) dec ref rv2 some(1) in \<open>auto simp: e page_ref_dec_def\<close>)
      next
        case False
        have "v1 = v" using g(4) low pt val(1) by (auto simp: pte_def valid_def split: option.splits)
        moreover have "pte v pd ?k \<noteq> 0" using val(1) pt by (auto simp: valid_def)
        ultimately have "topped ?v2" using top own2 ref(2) by (simp add: topped_def)
        from drop_ref_ok [OF ref(1) _ this, of q] some(2) own2 obtain fr where
          d: "drop_ref q ?v2 = Some (?v2\<lparr>frames := fr\<rparr>)" "pool_ok (?v2\<lparr>frames := fr\<rparr>)"
            "vfree (?v2\<lparr>frames := fr\<rparr>) = (if page_ref q ?v2 = 1 then insert q (vfree ?v2) else vfree ?v2)"
            "\<And>q'. page_ref q' (?v2\<lparr>frames := fr\<rparr>) = (if q' = q then page_ref q ?v2 - 1 else page_ref q' ?v2)"
            "frame_reserved fr = frame_reserved (frames ?v2)" by blast
        let ?v3 = "set_word t (?k mod 512) 0 (?v2\<lparr>frames := fr\<rparr>)"
        have "page_remove_pte (t, ?k mod 512) ?v2 = Some ?v3"
          using val(1) q2 d(1) by (simp add: page_remove_pte_drop e rv2)
        moreover have "ram ?v3 q' j = ram v1 q' j" if "q' \<noteq> t \<or> j \<noteq> ?k mod 512" for q' j using that rv2 by auto
        moreover have "pool_ok ?v3" using d(2) by (simp add: pool_ok_def limit_def)
        moreover have "vfree ?v3 = vfree v1 \<union> {f. f \<noteq> page \<and> entry_frame v1 (pte v1 pd ?k) = Some f \<and> card (maps v1 S f) = 1}"
          using d(3) ref(2,3) False some(1,4) by auto
        moreover have "page_ref q' ?v3 = page_ref q' v1 + of_bool (q' = page) - of_bool (entry_frame v1 (pte v1 pd ?k) = Some q')" for q'
          using d(4) ref(3) False some(1) by auto
        ultimately show ?thesis using False q2 val(1) d(5) ref(4) rv2
          by (intro fin [of ?v3]) (simp_all add: e)
      qed
    qed
  qed
qed

end
