(* ===== verification/Paging_Copy.thy ===== *)
theory Paging_Copy
  imports Paging_Range
begin

text \<open>
  \<open>copy_range\<close>: with three free frames for every page to copy (at most two for tables, one for the page)
  it succeeds, and each page of the range gets a frame of its own with the contents of the original.
\<close>

definition page_copied :: "vmem \<Rightarrow> nat \<Rightarrow> nat \<Rightarrow> vmem \<Rightarrow> nat \<Rightarrow> bool" where
  "page_copied v to frm v' k \<longleftrightarrow> (if pte v frm k = 0 then pte v' to k = 0
     else \<exists>f g. entry_frame v (pte v frm k) = Some f \<and> pte v' to k = leaf_entry g (pte v frm k AND PTE_USER) \<and>
       entry_frame v (pte v' to k) = Some g \<and> g \<in> vfree v \<and> g \<notin> vfree v' \<and> page_ref g v' = 1 \<and> ram v' g = ram v f)"

definition copied :: "nat set \<Rightarrow> nat \<Rightarrow> nat \<Rightarrow> nat set \<Rightarrow> vmem \<Rightarrow> vmem \<Rightarrow> bool" where
  "copied S to frm A v v' \<longleftrightarrow> npage v' = npage v \<and> frame_reserved (frames v') = frame_reserved (frames v) \<and>
     (\<forall>pd \<in> S. \<forall>k < USER_PAGES. pd \<noteq> to \<or> k \<notin> A \<longrightarrow> pte v' pd k = pte v pd k) \<and>
     (\<forall>k \<in> A. page_copied v to frm v' k) \<and>
     vfree v' \<subseteq> vfree v \<and> card (vfree v) \<le> card (vfree v') + 3 * card {k \<in> A. pte v frm k \<noteq> 0} \<and>
     (\<forall>s \<in> slots S. \<forall>t. tab v s = Some t \<longrightarrow> tab v' s = Some t) \<and>
     (\<forall>f. owned v f \<longrightarrow> f \<notin> tables v S \<longrightarrow> owned v' f \<and> f \<notin> tables v' S \<and> ram v' f = ram v f \<and> page_ref f v' = page_ref f v)"

lemma leaf_frame: "vm_inv v S \<Longrightarrow> pd \<in> S \<Longrightarrow> k < USER_PAGES \<Longrightarrow> entry_frame v (pte v pd k) = Some f \<Longrightarrow> owned v f \<and> f \<notin> tables v S"
  by (drule vm_invD(4)) (erule (2) leaf_okD, simp_all)

lemma leaf_zero: "vm_inv v S \<Longrightarrow> pd \<in> S \<Longrightarrow> k < USER_PAGES \<Longrightarrow> entry_frame v (pte v pd k) = None \<longleftrightarrow> pte v pd k = 0"
  by (drule vm_invD(4)) (erule (2) leaf_okD, auto)

lemma grown_card:
  assumes "grown S n v v'" "finite (vfree v)"
  shows "card (vfree v) \<le> card (vfree v') + n" "vfree v' \<subseteq> vfree v"
proof -
  from assms(1) obtain N where N: "N \<subseteq> vfree v" "vfree v' = vfree v - N" "card N \<le> n" by (auto simp: grown_def)
  then show "vfree v' \<subseteq> vfree v" by blast
  have "card (vfree v') = card (vfree v) - card N" using N assms(2) by (simp add: card_Diff_subset finite_subset)
  then show "card (vfree v) \<le> card (vfree v') + n" using N(3) by simp
qed

lemma finite_vfree: "vm_inv v S \<Longrightarrow> finite (vfree v)"
  using vm_invD(5) fp.finite_free by (auto simp: vfree_def fp.pool_def)

lemma copy_page_ok:
  assumes i: "vm_inv v S" and S: "to \<in> S" "frm \<in> S" "to \<noteq> frm" and la: "la < USERTOP" "unat la div 4096 = k"
    and t: "low v frm (k div 512) = Some t" and f: "entry_frame v (pte v frm k) = Some f" and z: "pte v to k = 0"
    and room: "3 \<le> card (vfree v)"
  shows "\<exists>v'. copy_page to la (t, k mod 512) v = Some (0, v') \<and> vm_inv v' S \<and> copied S to frm {k} v v'"
proof -
  note u = user_index(4) [OF la(1), unfolded la(2), folded USER_PAGES_def]
  from get_pte_ok [OF i S(1) la(1), of True, unfolded la(2)] obtain r v1 where g: "get_pte to la True v = Some (r, v1)"
    "vm_inv v1 S" "grown S 2 v v1" "\<not> True \<or> low v to (k div 512) \<noteq> None \<longrightarrow> v1 = v"
    "case r of None \<Rightarrow> low v1 to (k div 512) = None \<and> (True \<longrightarrow> vfree v1 = {})
     | Some (t, j) \<Rightarrow> low v1 to (k div 512) = Some t \<and> j = k mod 512" by (elim exE conjE) (rule that, assumption+)
  note gc = grown_card [OF g(3) finite_vfree [OF i]]
  have one: "vfree v1 \<noteq> {}" using gc(1) room by auto
  then obtain t' where r: "r = Some (t', k mod 512)" "low v1 to (k div 512) = Some t'" using g(5) by (auto split: option.splits)
  have n1: "npage v1 = npage v" using g(3) by (simp add: grown_def)
  have pte1: "pte v1 pd j = pte v pd j" if "pd \<in> S" "j < USER_PAGES" for pd j using g(3) that by (simp add: grown_def)
  have "tab v (Low frm (k div 512)) = Some t" "Low frm (k div 512) \<in> slots S" using t S(2) u page_index by simp_all
  then have "tab v1 (Low frm (k div 512)) = Some t" using g(3) unfolding grown_def by blast
  then have e: "ram v1 t (k mod 512) = pte v frm k" using pte1 [OF S(2) u] by (simp add: pte_def)
  have f1: "entry_frame v1 (pte v frm k) = Some f" using f by (simp add: entry_frame_npage [OF n1])
  then have p2: "pte2page (pte v frm k) v1 = Some f" by (auto simp: entry_frame_def pte2page_def split: if_splits)
  have of: "owned v f" "f \<notin> tables v S" using leaf_frame [OF i S(2) u f] by auto
  note of1 = grown_owned [OF g(3) of(1)]
  note P1 = vm_invD(2) [OF g(2)]
  from P1 show ?thesis
  proof (cases rule: alloc_page_cases)
    case none
    then show ?thesis using one by simp
  next
    case (some q fr)
    let ?v2 = "v1\<lparr>frames := fr\<rparr>"
    let ?v3 = "set_frame q (ram v1 f) ?v2"
    have lim: "f \<in> limit ?v2" "q \<in> limit ?v2" "npage ?v2 \<le> 2 ^ 44"
      using of1(1) some(9) vm_invD(6) [OF g(2)] by (simp_all add: owned_def limit_def)
    have qt: "q \<notin> tables v1 S" using some(2) tree_okD(1) [OF vm_invD(3) [OF g(2)]] by (auto simp: tables_def owned_def)
    have fq: "f \<noteq> q" using of1(1) some(2) by (auto simp: owned_def)
    have own3: "owned ?v3 p \<longleftrightarrow> owned v1 p \<or> p = q" for p
      using some(2,4,7,8,9) by (auto simp: owned_def limit_def)
    have n3: "npage ?v3 = npage v1" by simp
    have r3: "ram ?v3 p = ram v1 p" if "p \<in> tables v1 S" for p using that qt by auto
    have pool3: "pool_ok ?v3" using some(3) by (simp add: pool_ok_def limit_def)
    have i3: "vm_inv ?v3 S"
      by (rule vm_inv_cong [OF g(2) n3 r3 pool3]) (use own3 some(5) in auto)
    note st = same_trees [OF n3 r3]
    have m3: "maps ?v3 S = maps v1 S" by (auto simp: maps_def fun_eq_iff st(2) entry_frame_npage [OF n3])
    have "maps v1 S q = {}"
      using leaf_frame [OF g(2)] some(2) by (fastforce simp: maps_def owned_def)
    then have ref: "page_ref q ?v3 = int (card (maps ?v3 S q))" using some(5,6) by (simp add: m3)
    have z3: "pte ?v3 to k = 0" using st(2) [OF _ S(1) u] pte1 [OF S(1) u] z by simp
    have l3: "low ?v3 to (k div 512) = Some t'"
      using st(1) [where s = "Low to (k div 512)"] r(2) S(1) u page_index by simp
    let ?perm = "pte v frm k AND PTE_USER"
    from page_insert_ok [OF i3 S(1) la(1), of q ?perm, unfolded la(2)] own3 [of q] qt ref st(3) z3 perm_bits(3)
    obtain ret v' v4 where ins: "page_insert to q la ?perm ?v3 = Some (ret, v')" "vm_inv v' S"
      "if ret = 0 then entry_set S to k (leaf_entry q ?perm) v4 v' \<and> low v4 to (k div 512) \<noteq> None \<and>
         vfree v' = vfree v4 \<union> {f. f \<noteq> q \<and> entry_frame ?v3 (pte ?v3 to k) = Some f \<and> card (maps ?v3 S f) = 1} \<and>
         (\<forall>p. page_ref p v' = page_ref p v4 + of_bool (p = q) - of_bool (entry_frame ?v3 (pte ?v3 to k) = Some p))
       else ret = - E_NO_MEM \<and> v' = v4 \<and> vfree v' = {}" "low ?v3 to (k div 512) \<noteq> None \<longrightarrow> ret = 0 \<and> v4 = ?v3"
      by auto
    then have ins: "page_insert to q la ?perm ?v3 = Some (0, v')" "vm_inv v' S" "entry_set S to k (leaf_entry q ?perm) ?v3 v'"
      "vfree v' = vfree ?v3" "\<And>p. page_ref p v' = page_ref p ?v3 + of_bool (p = q)" using l3 z3 by auto
    have res: "copy_page to la (t, k mod 512) v = Some (0, v')"
      using g(1) r(1) e p2 some(1) page2kva_ok [OF lim(1,3)] page2kva_ok [OF lim(2,3)] ins(1)
      by (simp add: copy_page_def Let_def)
    have P': "pte v' pd j = (if pd = to \<and> j = k then leaf_entry q ?perm else pte v pd j)" if "pd \<in> S" "j < USER_PAGES" for pd j
      using ins(3) that st(2) [OF _ that] pte1 [OF that] by (simp add: entry_set_def)
    have pk: "pte v frm k \<noteq> 0" using f by auto
    have "card (vfree v1) = Suc (card (vfree v1 - {q}))" using some(2) finite_vfree [OF g(2)] by (rule card.remove [rotated])
    then have c: "card (vfree v) \<le> card (vfree v') + 3" using gc(1) ins(4) some(4) by simp
    have le: "entry_frame v (leaf_entry q ?perm) = Some q"
      using entry_frame_create [of q v] some(9) vm_invD(6) [OF i] perm_bits(3) n1 by (simp add: leaf_entry_def limit_def)
    have keep: "owned v' p \<and> p \<notin> tables v' S \<and> ram v' p = ram v p \<and> page_ref p v' = page_ref p v" if p: "owned v p" "p \<notin> tables v S" for p
    proof -
      note gp = grown_owned [OF g(3) p(1)]
      have pq: "p \<noteq> q" using gp(1) some(2) by (auto simp: owned_def)
      have "owned ?v3 p" using own3 gp(1) by simp
      then have "owned v' p" using ins(3,4) by (simp add: owned_def entry_set_def limit_def)
      moreover have "tables v' S = tables v1 S" using ins(3) st(3) by (simp add: entry_set_def)
      ultimately show ?thesis using ins(3,5) gp p(2) pq some(5) st(3) by (simp add: entry_set_def)
    qed
    have tabs: "tab v' s = Some x" if "s \<in> slots S" "tab v s = Some x" for s x
      using that g(3) st(1) [OF _ that(1)] ins(3) unfolding grown_def entry_set_def by metis
    have rq: "ram v' q = ram v f"
      using ins(3) qt st(3) of1(3) of(2) by (simp add: entry_set_def)
    have ns: "npage v' = npage v" "frame_reserved (frames v') = frame_reserved (frames v)"
      using ins(3) n1 some(7) g(3) by (simp_all add: entry_set_def grown_def)
    have other: "\<forall>pd \<in> S. \<forall>j < USER_PAGES. pd \<noteq> to \<or> j \<notin> {k} \<longrightarrow> pte v' pd j = pte v pd j"
      using P' by simp
    have "pte v' to k = leaf_entry q ?perm" "page_ref q v' = 1" using P' S(1) u ins(5) some(5,6) by simp_all
    moreover have "q \<in> vfree v" "q \<notin> vfree v'" using gc(2) some(2,4) ins(4) by auto
    ultimately have page: "\<exists>f g. entry_frame v (pte v frm k) = Some f \<and> pte v' to k = leaf_entry g ?perm \<and>
          entry_frame v (pte v' to k) = Some g \<and> g \<in> vfree v \<and> g \<notin> vfree v' \<and> page_ref g v' = 1 \<and> ram v' g = ram v f"
      using f le rq by auto
    have one: "{j \<in> {k}. pte v frm j \<noteq> 0} = {k}" using pk by auto
    have "copied S to frm {k} v v'" unfolding copied_def
    proof (intro conjI)
      show "vfree v' \<subseteq> vfree v" using ins(4) some(4) gc(2) by auto
      show "card (vfree v) \<le> card (vfree v') + 3 * card {j \<in> {k}. pte v frm j \<noteq> 0}" using c unfolding one by simp
    qed (use ns other page pk keep tabs in \<open>auto simp: page_copied_def\<close>)
    then show ?thesis using res ins(2) by blast
  qed
qed
lemma copied_nothing:
  "(\<And>k. k \<in> A \<Longrightarrow> pte v frm k = 0 \<and> pte v to k = 0) \<Longrightarrow> copied S to frm A v v"
  by (simp add: copied_def page_copied_def)

lemma copied_trans:
  assumes i: "vm_inv v S" "vm_inv v1 S" and S: "to \<in> S" "frm \<in> S" "frm \<noteq> to"
    and c: "copied S to frm A v v1" "copied S to frm B v1 v2" and AB: "A \<inter> B = {}" "A \<subseteq> {..< USER_PAGES}" "B \<subseteq> {..< USER_PAGES}"
  shows "copied S to frm (A \<union> B) v v2"
proof -
  have n: "npage v1 = npage v" "npage v2 = npage v" "frame_reserved (frames v2) = frame_reserved (frames v)"
    using c by (simp_all add: copied_def)
  note e = entry_frame_npage [OF n(1)]
  have P1: "pte v1 pd k = pte v pd k" if "pd \<in> S" "k < USER_PAGES" "pd \<noteq> to \<or> k \<notin> A" for pd k
    using c(1) that unfolding copied_def by blast
  have P2: "pte v2 pd k = pte v1 pd k" if "pd \<in> S" "k < USER_PAGES" "pd \<noteq> to \<or> k \<notin> B" for pd k
    using c(2) that unfolding copied_def by blast
  have K1: "owned v1 f \<and> f \<notin> tables v1 S \<and> ram v1 f = ram v f \<and> page_ref f v1 = page_ref f v" if "owned v f" "f \<notin> tables v S" for f
    using c(1) that unfolding copied_def by blast
  have K2: "owned v2 f \<and> f \<notin> tables v2 S \<and> ram v2 f = ram v1 f \<and> page_ref f v2 = page_ref f v1" if "owned v1 f" "f \<notin> tables v1 S" for f
    using c(2) that unfolding copied_def by blast
  have F: "vfree v1 \<subseteq> vfree v" "vfree v2 \<subseteq> vfree v1" "card (vfree v) \<le> card (vfree v1) + 3 * card {k \<in> A. pte v frm k \<noteq> 0}"
    "card (vfree v1) \<le> card (vfree v2) + 3 * card {k \<in> B. pte v1 frm k \<noteq> 0}" using c by (simp_all add: copied_def)
  have frm: "pte v1 frm k = pte v frm k" if "k \<in> B" for k using P1 S that AB by auto
  have B: "{k \<in> B. pte v1 frm k \<noteq> 0} = {k \<in> B. pte v frm k \<noteq> 0}" using frm by auto
  have "finite A" "finite B" using AB by (auto intro: finite_subset)
  then have "card ({k \<in> A. pte v frm k \<noteq> 0} \<union> {k \<in> B. pte v frm k \<noteq> 0}) = card {k \<in> A. pte v frm k \<noteq> 0} + card {k \<in> B. pte v frm k \<noteq> 0}"
    using AB(1) by (intro card_Un_disjoint) auto
  moreover have "{k \<in> A \<union> B. pte v frm k \<noteq> 0} = {k \<in> A. pte v frm k \<noteq> 0} \<union> {k \<in> B. pte v frm k \<noteq> 0}" by auto
  ultimately have card: "card (vfree v) \<le> card (vfree v2) + 3 * card {k \<in> A \<union> B. pte v frm k \<noteq> 0}" using F(3,4) B by simp
  have C: "k \<in> A \<Longrightarrow> page_copied v to frm v1 k" "k \<in> B \<Longrightarrow> page_copied v1 to frm v2 k" for k
    using c by (simp_all add: copied_def)
  have pages: "page_copied v to frm v2 k" if k: "k \<in> A \<union> B" for k
  proof (cases "k \<in> A")
    case True
    have k': "k < USER_PAGES" "k \<notin> B" using True AB by auto
    have t: "pte v2 to k = pte v1 to k" using P2 [OF S(1) k'(1)] k'(2) by blast
    show ?thesis
    proof (cases "pte v frm k = 0")
      case True
      then show ?thesis using C(1) [OF \<open>k \<in> A\<close>] t by (simp add: page_copied_def)
    next
      case False
      then obtain f g where g: "entry_frame v (pte v frm k) = Some f" "pte v1 to k = leaf_entry g (pte v frm k AND PTE_USER)"
        "entry_frame v (pte v1 to k) = Some g" "g \<in> vfree v" "g \<notin> vfree v1" "page_ref g v1 = 1" "ram v1 g = ram v f"
        using C(1) [OF \<open>k \<in> A\<close>] unfolding page_copied_def by auto
      have "owned v1 g \<and> g \<notin> tables v1 S" using leaf_frame [OF i(2) S(1) k'(1)] g(3) by (simp add: e)
      then show ?thesis using K2 [of g] g F(2) False t by (auto simp: page_copied_def)
    qed
  next
    case False
    then have k': "k \<in> B" "k < USER_PAGES" using k AB by auto
    show ?thesis
    proof (cases "pte v frm k = 0")
      case True
      then show ?thesis using C(2) [OF k'(1)] frm [OF k'(1)] by (simp add: page_copied_def)
    next
      case nz: False
      then have "pte v1 frm k \<noteq> 0" using frm [OF k'(1)] by simp
      then obtain f g where g: "entry_frame v1 (pte v1 frm k) = Some f" "pte v2 to k = leaf_entry g (pte v1 frm k AND PTE_USER)"
        "entry_frame v1 (pte v2 to k) = Some g" "g \<in> vfree v1" "g \<notin> vfree v2" "page_ref g v2 = 1" "ram v2 g = ram v1 f"
        using C(2) [OF k'(1)] unfolding page_copied_def by auto
      have f: "entry_frame v (pte v frm k) = Some f" using g(1) frm [OF k'(1)] by (simp add: e)
      have "ram v1 f = ram v f" using leaf_frame [OF i(1) S(2) k'(2) f] K1 by blast
      then show ?thesis using g f F(1) frm [OF k'(1)] nz by (auto simp: e page_copied_def)
    qed
  qed
  have other: "\<forall>pd \<in> S. \<forall>k < USER_PAGES. pd \<noteq> to \<or> k \<notin> A \<union> B \<longrightarrow> pte v2 pd k = pte v pd k" using P1 P2 by simp
  have tabs: "tab v2 s = Some t" if "s \<in> slots S" "tab v s = Some t" for s t
    using c that unfolding copied_def by blast
  show ?thesis unfolding copied_def
  proof (intro conjI)
    show "vfree v2 \<subseteq> vfree v" using F(1,2) by blast
    show "\<forall>f. owned v f \<longrightarrow> f \<notin> tables v S \<longrightarrow> owned v2 f \<and> f \<notin> tables v2 S \<and> ram v2 f = ram v f \<and> page_ref f v2 = page_ref f v"
      using K1 K2 by auto
  qed (use n card pages other tabs in blast)+
qed

lemma copy_loop_ok:
  assumes "vm_inv v S" "to \<in> S" "frm \<in> S" "to \<noteq> frm" "at_page s a" "at_page e b" "0 < a" "a < b"
    "\<forall>k \<in> {a ..< b}. pte v to k = 0" "3 * card {k \<in> {a ..< b}. pte v frm k \<noteq> 0} \<le> card (vfree v)"
  shows "\<exists>v'. copy_loop to frm s e v = Some (0, v') \<and> vm_inv v' S \<and> copied S to frm {a ..< b} v v'"
  using assms
proof (induction "b - a" arbitrary: a s v rule: less_induct)
  case less
  note p = less.prems
  have a: "a < USER_PAGES" and b: "b \<le> USER_PAGES" using p(6,8) by (simp_all add: at_page_def)
  note at = at_pageD [OF p(5)]
  note look = get_pte_look [OF p(1,3) at(2) [OF a], unfolded at(1)]
  have rest: ?case if v1: "vm_inv v1 S" "copied S to frm {a ..< min c b} v v1" and c: "at_page s1 c" "a < c"
    and u: "copy_loop to frm s e v = (if s1 \<noteq> 0 \<and> s1 < e then copy_loop to frm s1 e v1 else Some (0, v1))" for v1 c s1
  proof (cases "c < b")
    case True
    have m: "min c b = c" using True by simp
    have "s1 \<noteq> 0 \<and> s1 < e" using True c at_page_less [OF c(1) p(6)] at_page_zero [OF c(1)] by simp
    moreover have lt: "b - c < b - a" "0 < c" using c(2) True by auto
    have P: "pte v1 pd k = pte v pd k" if "pd \<in> S" "k \<in> {c ..< b}" for pd k
      using v1(2) that b unfolding copied_def m by auto
    have to: "\<forall>k \<in> {c ..< b}. pte v1 to k = 0" using P [OF p(2)] p(9) c(2) by auto
    have frm: "{k \<in> {c ..< b}. pte v1 frm k \<noteq> 0} = {k \<in> {c ..< b}. pte v frm k \<noteq> 0}" using P [OF p(3)] by auto
    have "{k \<in> {a ..< b}. pte v frm k \<noteq> 0} = {k \<in> {a ..< c}. pte v frm k \<noteq> 0} \<union> {k \<in> {c ..< b}. pte v frm k \<noteq> 0}"
      using True c(2) by auto
    moreover have "card ({k \<in> {a ..< c}. pte v frm k \<noteq> 0} \<union> {k \<in> {c ..< b}. pte v frm k \<noteq> 0}) =
      card {k \<in> {a ..< c}. pte v frm k \<noteq> 0} + card {k \<in> {c ..< b}. pte v frm k \<noteq> 0}" by (intro card_Un_disjoint) auto
    moreover have "card (vfree v) \<le> card (vfree v1) + 3 * card {k \<in> {a ..< c}. pte v frm k \<noteq> 0}"
      using v1(2) unfolding copied_def m by blast
    ultimately have "3 * card {k \<in> {c ..< b}. pte v1 frm k \<noteq> 0} \<le> card (vfree v1)" using p(10) frm by simp
    from less.hyps [OF lt(1) v1(1) p(2-4) c(1) p(6) lt(2) True to this] obtain v' where
      v': "copy_loop to frm s1 e v1 = Some (0, v')" "vm_inv v' S" "copied S to frm {c ..< b} v1 v'" by blast
    have sub: "{a ..< c} \<inter> {c ..< b} = {}" "{a ..< c} \<subseteq> {..< USER_PAGES}" "{c ..< b} \<subseteq> {..< USER_PAGES}" using b True by auto
    have "copied S to frm ({a ..< c} \<union> {c ..< b}) v v'"
      by (rule copied_trans [OF p(1) v1(1) p(2,3) _ v1(2) [unfolded m] v'(3) sub]) (use p(4) in simp)
    moreover have "{a ..< c} \<union> {c ..< b} = {a ..< b}" using True c(2) by auto
    ultimately show ?thesis using u v' \<open>s1 \<noteq> 0 \<and> s1 < e\<close> by simp
  next
    case False
    then have "\<not> s1 < e" "min c b = b" using at_page_less [OF c(1) p(6)] by simp_all
    then show ?thesis using u v1 by auto
  qed
  show ?case
  proof (cases "low v frm (a div 512)")
    case None
    have "pte v frm k = 0 \<and> pte v to k = 0" if "k \<in> {a ..< min (next_pt a) b}" for k
    proof -
      have "pte v to k = 0" using that p(9) by auto
      then show ?thesis using that None next_pt(3) [of a k] by (simp add: pte_def [of v frm])
    qed
    then have "copied S to frm {a ..< min (next_pt a) b} v v" by (intro copied_nothing)
    moreover have "copy_loop to frm s e v = (if ROUNDDOWN (s + PTSIZE) PTSIZE \<noteq> 0 \<and> ROUNDDOWN (s + PTSIZE) PTSIZE < e
      then copy_loop to frm (ROUNDDOWN (s + PTSIZE) PTSIZE) e v else Some (0, v))"
      by (subst copy_loop.simps) (simp add: look None)
    ultimately show ?thesis
      by (rule_tac rest [OF p(1) _ at_page_skip [OF p(5) a] next_pt(1)])
  next
    case (Some t)
    have one: "{a ..< min (a + 1) b} = {a}" using p(8) by auto
    have e: "ram v t (a mod 512) = pte v frm a" using Some by (simp add: pte_def)
    have za: "pte v to a = 0" using p(8,9) by simp
    have "\<exists>v1. (if valid (ram v t (a mod 512)) then do { (ret, v2) \<leftarrow> copy_page to s (t, a mod 512) v; Some (ret, s + PGSIZE, v2) }
      else Some (0, s + PGSIZE, v)) = Some (0, s + PGSIZE, v1) \<and> vm_inv v1 S \<and> copied S to frm {a} v v1"
      using vm_invD(4) [OF p(1)] p(3) a
    proof (cases rule: leaf_okD)
      case none
      have "\<not> valid 0" by (simp add: valid_def)
      then show ?thesis using none(1) p(1) copied_nothing [of "{a}" v frm to S] za by (auto simp: e)
    next
      case (some f)
      have "pte v frm a \<noteq> 0" using some(1) by auto
      then have "{a} \<subseteq> {k \<in> {a ..< b}. pte v frm k \<noteq> 0}" using p(8) by simp
      then have "card {a} \<le> card {k \<in> {a ..< b}. pte v frm k \<noteq> 0}" by (intro card_mono) simp_all
      then have "3 \<le> card (vfree v)" using p(10) by simp
      from copy_page_ok [OF p(1-4) at(2) [OF a] at(1) Some some(1) za this] obtain v1 where
        "copy_page to s (t, a mod 512) v = Some (0, v1)" "vm_inv v1 S" "copied S to frm {a} v v1" by blast
      moreover have "valid (pte v frm a)" using some(1) by (auto simp: entry_frame_def split: if_splits)
      ultimately show ?thesis by (simp add: e)
    qed
    then obtain v1 where v1: "(if valid (ram v t (a mod 512)) then do { (ret, v2) \<leftarrow> copy_page to s (t, a mod 512) v; Some (ret, s + PGSIZE, v2) }
      else Some (0, s + PGSIZE, v)) = Some (0, s + PGSIZE, v1)" "vm_inv v1 S" "copied S to frm {a} v v1" by blast
    have "copy_loop to frm s e v = (if s + PGSIZE \<noteq> 0 \<and> s + PGSIZE < e then copy_loop to frm (s + PGSIZE) e v1 else Some (0, v1))"
      by (subst copy_loop.simps) (simp add: look Some v1(1) del: if_split)
    then show ?thesis using rest [OF v1(2) _ at_page_next [OF p(5) a]] v1(3) unfolding one by simp
  qed
qed

lemma copy_range_ok:
  assumes "vm_inv v S" "to \<in> S" "frm \<in> S" "to \<noteq> frm" "s mod PGSIZE = 0" "e mod PGSIZE = 0" "USER_ACCESS s e"
    "\<forall>k \<in> {unat s div 4096 ..< unat e div 4096}. pte v to k = 0"
    "3 * card {k \<in> {unat s div 4096 ..< unat e div 4096}. pte v frm k \<noteq> 0} \<le> card (vfree v)"
  shows "\<exists>v'. copy_range to frm s e v = Some (0, v') \<and> vm_inv v' S \<and> copied S to frm {unat s div 4096 ..< unat e div 4096} v v'"
proof -
  from user_range [OF assms(5-7)] obtain a b where ab: "at_page s a" "at_page e b" "0 < a" "a < b"
    "a = unat s div 4096" "b = unat e div 4096" .
  from copy_loop_ok [OF assms(1-4) ab(1-4)] show ?thesis using assms(5-9) ab(5,6) by (simp add: copy_range_def)
qed

end
