(* ===== verification/Paging_Exit.thy ===== *)
theory Paging_Exit
  imports Paging_Copy
begin

text \<open>
  \<open>exit_range\<close> gives back the tables of an address space whose pages are all unmapped.  The tables of the
  range are freed, and the second-level table when every entry of the range was present, even if
  tables outside the range still hang below it: these are then out of reach and never freed.
\<close>

fun space :: "slot \<Rightarrow> nat" where
  "space (Root pd) = pd" | "space (Mid pd i) = pd" | "space (Low pd j) = pd"

text \<open>The places at and below a place.\<close>

fun below :: "slot \<Rightarrow> slot \<Rightarrow> bool" where
  "below (Mid pd i) s = (s = Mid pd i \<or> (\<exists>j. s = Low pd j \<and> j div 512 = i))"
| "below (Low pd j) s = (s = Low pd j)"
| "below (Root pd) s = (space s = pd)"

text \<open>The tables at the places \<open>A\<close> are gone and the frames \<open>F\<close> free; no translation has changed.\<close>

definition trimmed :: "nat set \<Rightarrow> slot set \<Rightarrow> nat set \<Rightarrow> vmem \<Rightarrow> vmem \<Rightarrow> bool" where
  "trimmed S A F v v' \<longleftrightarrow> npage v' = npage v \<and> frame_reserved (frames v') = frame_reserved (frames v) \<and>
     (\<forall>s \<in> slots S. tab v' s = (if s \<in> A then None else tab v s)) \<and>
     (\<forall>pd \<in> S. \<forall>k < USER_PAGES. pte v' pd k = pte v pd k) \<and> vfree v' = vfree v \<union> F \<and>
     (\<forall>f. f \<notin> tables v S \<longrightarrow> ram v' f = ram v f \<and> page_ref f v' = page_ref f v)"

lemma trimmed_refl: "(\<And>s. s \<in> slots S \<Longrightarrow> s \<in> A \<Longrightarrow> tab v s = None) \<Longrightarrow> trimmed S A {} v v"
  by (auto simp: trimmed_def)

lemma trimmed_tables: "trimmed S A F v v' \<Longrightarrow> tables v' S \<subseteq> tables v S"
  by (auto simp: trimmed_def tables_def split: if_splits)

lemma trimmed_trans:
  assumes "trimmed S A F v v1" "trimmed S B G v1 v2"
  shows "trimmed S (A \<union> B) (F \<union> G) v v2"
proof -
  have t: "tab v2 s = (if s \<in> A \<union> B then None else tab v s)" if "s \<in> slots S" for s
  proof -
    have "tab v1 s = (if s \<in> A then None else tab v s)" "tab v2 s = (if s \<in> B then None else tab v1 s)"
      using assms that by (simp_all add: trimmed_def)
    then show ?thesis by auto
  qed
  have o: "ram v2 f = ram v f \<and> page_ref f v2 = page_ref f v" if "f \<notin> tables v S" for f
  proof -
    have "ram v1 f = ram v f \<and> page_ref f v1 = page_ref f v" using assms(1) that unfolding trimmed_def by blast
    moreover have "f \<notin> tables v1 S" using that trimmed_tables [OF assms(1)] by blast
    then have "ram v2 f = ram v1 f \<and> page_ref f v2 = page_ref f v1" using assms(2) unfolding trimmed_def by blast
    ultimately show ?thesis by simp
  qed
  have "npage v2 = npage v" "frame_reserved (frames v2) = frame_reserved (frames v)" "vfree v2 = vfree v \<union> (F \<union> G)"
    "\<forall>pd \<in> S. \<forall>k < USER_PAGES. pte v2 pd k = pte v pd k" using assms by (simp_all add: trimmed_def Un_assoc)
  then show ?thesis using t o unfolding trimmed_def by simp
qed

lemma base_512:
  assumes "a * 512 + j = b * 512 + k" "j < 512" "k < (512 :: nat)"
  shows "a = b \<and> j = k"
proof -
  have "(a * 512 + j) div 512 = (b * 512 + k) div 512" using assms(1) by (rule arg_cong)
  then have "a = b" using assms(2,3) by simp
  then show ?thesis using assms(1) by simp
qed

lemma child_inj:
  "child s j = child s' k \<Longrightarrow> \<not> is_low s \<Longrightarrow> \<not> is_low s' \<Longrightarrow> j < 512 \<Longrightarrow> k < 512 \<Longrightarrow> s = s' \<and> j = k"
  by (cases s; cases s') (auto dest: base_512)

lemma remove_table:
  assumes i: "vm_inv v S" and s: "s \<in> slots S" "\<not> is_low s" "tab v s = Some t" "k < 512" "child s k \<in> slots S" "tab v (child s k) = Some q"
    and z: "\<And>j. j < USER_PAGES \<Longrightarrow> pte v (space s) j = 0" and n: "npage v' = npage v" and r: "ram v' = (ram v)(t := (ram v t)(k := 0))"
    and p: "pool_ok v'" "vfree v' = insert q (vfree v)" "\<And>g. g \<noteq> q \<Longrightarrow> page_ref g v' = page_ref g v" "frame_reserved (frames v') = frame_reserved (frames v)"
  shows "vm_inv v' S" "trimmed S {s'. below (child s k) s'} {q} v v'"
proof -
  note T = vm_invD(3) [OF i] and e = entry_frame_npage [OF n]
  note only = tree_okD(2) [OF T s(1,3)]
  let ?gone = "below (child s k)"
  have m: "mid v' pd j = (if ?gone (Mid pd j) then None else mid v pd j)" if "pd \<in> S" "j < 2" for pd j
  proof (cases "pd = t")
    case True
    then have "s = Root pd" using only [of "Root pd"] that by simp
    then show ?thesis using True by (simp add: mid_def r e)
  next
    case False
    then have "\<not> ?gone (Mid pd j)" using s(2,3) by (cases s) auto
    then show ?thesis using False by (simp add: mid_def r e)
  qed
  have l: "low v' pd j = (if ?gone (Low pd j) then None else low v pd j)" if "pd \<in> S" "j < 1024" for pd j
  proof (cases "mid v' pd (j div 512)")
    case None
    then have "?gone (Mid pd (j div 512)) \<or> mid v pd (j div 512) = None" using m that page_index by (auto split: if_splits)
    moreover have "?gone (Mid pd (j div 512)) \<Longrightarrow> ?gone (Low pd j)" using s(2) by (cases s) auto
    ultimately show ?thesis using None by (auto simp: low_def)
  next
    case (Some u)
    then have u: "mid v pd (j div 512) = Some u" "\<not> ?gone (Mid pd (j div 512))" using m that page_index by (auto split: if_splits)
    have eq: "u = t \<longleftrightarrow> s = Mid pd (j div 512)"
      using only [of "Mid pd (j div 512)"] that u(1) s(3) page_index by auto
    show ?thesis
    proof (cases "s = Mid pd (j div 512)")
      case True
      have "j = j div 512 * 512 + k \<longleftrightarrow> j mod 512 = k" using div_mult_mod_eq [of j 512] by (metis add_left_cancel)
      then have "?gone (Low pd j) \<longleftrightarrow> j mod 512 = k" by (simp add: True)
      then show ?thesis using Some u True eq by (simp add: low_def r e)
    next
      case False
      then have "\<not> ?gone (Low pd j)" using u(2) s(2,4) by (cases s) auto
      then show ?thesis using Some u(1) False eq by (simp add: low_def r e)
    qed
  qed
  have gone_root: "\<not> ?gone (Root pd)" for pd using s(2) by (cases s) auto
  have tab: "tab v' s' = (if ?gone s' then None else tab v s')" if "s' \<in> slots S" for s'
    using that m l gone_root by (cases s') auto
  have sp: "?gone s' \<Longrightarrow> space s' = space s" for s' using s(2) by (cases s) auto
  have P: "pte v' pd j = pte v pd j" if "pd \<in> S" "j < USER_PAGES" for pd j
  proof (cases "low v' pd (j div 512)")
    case None
    then have "?gone (Low pd (j div 512)) \<or> low v pd (j div 512) = None" using l that page_index by (auto split: if_splits)
    then have "pte v pd j = 0"
    proof
      assume "?gone (Low pd (j div 512))"
      then have "pd = space s" using sp by fastforce
      then show ?thesis using z that by simp
    qed (simp add: pte_def)
    then show ?thesis using None by (simp add: pte_def)
  next
    case (Some u)
    then have u: "low v pd (j div 512) = Some u" using l that page_index by (auto split: if_splits)
    have "u \<noteq> t" using only [of "Low pd (j div 512)"] that u s(2) page_index by auto
    then show ?thesis using Some u by (simp add: pte_def r)
  qed
  have qs: "tab v (child s k) = Some q" "child s k \<in> slots S" using s by auto
  have gc: "?gone (child s k)" using s(2) by (cases s) auto
  have tq: "s' = child s k" if "s' \<in> slots S" "tab v s' = Some q" for s' using tree_okD(2) [OF T qs(2,1) that] .
  have own: "owned v' g \<longleftrightarrow> owned v g \<and> g \<noteq> q" for g
    using p(2,4) by (auto simp: owned_def limit_def n)
  have mp: "maps v' S = maps v S" by (auto simp: maps_def fun_eq_iff P e)
  have "tree_ok v' S" unfolding tree_ok_def
  proof (intro conjI ballI allI impI)
    fix s' g assume a: "s' \<in> slots S" "tab v' s' = Some g"
    then have "tab v s' = Some g" "\<not> ?gone s'" using tab by (auto split: if_splits)
    then show "owned v' g" using tree_okD(1) [OF T a(1)] tq [of s'] a(1) gc own by auto
  next
    fix s1 s2 assume "s1 \<in> slots S" "s2 \<in> slots S" "tab v' s1 = tab v' s2" "tab v' s1 \<noteq> None"
    then show "s1 = s2" using tab tree_okD(2) [OF T] by (auto split: if_splits)
  next
    fix s' g j assume a: "s' \<in> slots S" "\<not> is_low s'" "tab v' s' = Some g" "j < 512" "child s' j \<in> slots S" "valid (ram v' g j)"
    then have g: "tab v s' = Some g" "\<not> ?gone s'" using tab by (auto split: if_splits)
    have "\<not> (g = t \<and> j = k)" using a(6) by (auto simp: r valid_def)
    then have ne: "child s' j \<noteq> child s k \<and> valid (ram v g j)"
    proof -
      assume h: "\<not> (g = t \<and> j = k)"
      have "child s' j = child s k \<Longrightarrow> s' = s \<and> j = k" using child_inj a(2,4) s(2,4) by blast
      then show ?thesis using a(6) h g(1) s(3) by (auto simp: r split: if_splits)
    qed
    then have "\<not> ?gone (child s' j)" using g(2) a(2,4) s(2,4) by (cases s; cases s') auto
    moreover have "ram v' g j = ram v g j" using \<open>\<not> (g = t \<and> j = k)\<close> by (auto simp: r)
    ultimately show "tab v' (child s' j) \<noteq> None" "pointer (ram v' g j)" using tree_okD(3,4) [OF T a(1) g(1) a(2,4,5)] ne tab [OF a(5)] by auto
  qed
  moreover have "leaf_ok v' S" unfolding leaf_ok_def
  proof (intro ballI allI impI)
    fix pd j assume j: "pd \<in> S" "j < USER_PAGES"
    from vm_invD(4) [OF i] j show "pte v' pd j = 0 \<or> (\<exists>f. entry_frame v' (pte v' pd j) = Some f \<and> owned v' f \<and>
        f \<notin> tables v' S \<and> page_ref f v' = int (card (maps v' S f)))"
    proof (cases rule: leaf_okD)
      case (some g)
      have "q \<in> tables v S" using tables_slot [OF qs(2,1)] .
      then have "g \<noteq> q" using some(3) by auto
      moreover have "g \<notin> tables v' S" using some(3) tab by (auto simp: tables_def split: if_splits)
      ultimately show ?thesis using some p(3) own by (simp add: P j e mp)
    qed (simp add: P j)
  qed
  ultimately show "vm_inv v' S" using vm_invD(1) [OF i] p(1) by (simp add: vm_inv_def)
  have "q \<in> tables v S" "t \<in> tables v S" using tables_slot [OF qs(2,1)] tables_slot [OF s(1,3)] by auto
  then have "ram v' f = ram v f \<and> page_ref f v' = page_ref f v" if "f \<notin> tables v S" for f
    using that p(3) [of f] by (auto simp: r)
  then show "trimmed S {s'. ?gone s'} {q} v v'" using n p(2,4) tab P by (simp add: trimmed_def)
qed

subsection \<open>The loops\<close>

definition emptied :: "vmem \<Rightarrow> nat \<Rightarrow> bool" where
  "emptied v pd \<longleftrightarrow> (\<forall>k < USER_PAGES. pte v pd k = 0)"

lemma emptied_trimmed: "trimmed S A F v v' \<Longrightarrow> pd \<in> S \<Longrightarrow> emptied v pd \<Longrightarrow> emptied v' pd"
  by (simp add: trimmed_def emptied_def)

lemma free_topped:
  assumes "vm_inv v S" "topped v" "owned v q"
  obtains f where "free_pages q 1 v = Some (v\<lparr>frames := f\<rparr>)" "pool_ok (v\<lparr>frames := f\<rparr>)" "vfree (v\<lparr>frames := f\<rparr>) = insert q (vfree v)"
    "\<And>g. g \<noteq> q \<Longrightarrow> page_ref g (v\<lparr>frames := f\<rparr>) = page_ref g v" "frame_reserved f = frame_reserved (frames v)"
proof -
  from assms(2,3) have "vfree v = {} \<or> (\<exists>h \<in> vfree v. q < h)" unfolding topped_def by blast
  from free_page_ok [OF vm_invD(2) [OF assms(1)] assms(3) this] obtain f where f: "free_pages q 1 v = Some (v\<lparr>frames := f\<rparr>)"
    "pool_ok (v\<lparr>frames := f\<rparr>)" "vfree (v\<lparr>frames := f\<rparr>) = insert q (vfree v)"
    "\<And>g. page_ref g (v\<lparr>frames := f\<rparr>) = (if g = q then 0 else page_ref g v)" "frame_reserved f = (frame_reserved (frames v))(q := False)" by blast
  have "frame_reserved f = frame_reserved (frames v)" using f(5) assms(3) by (auto simp: owned_def fun_eq_iff)
  then show thesis using that [OF f(1-3)] f(4) by simp
qed

lemma trimmed_topped:
  assumes "trimmed S A F v v'" "topped v"
  shows "topped v'"
proof -
  have o: "owned v p" if "owned v' p" for p using assms(1) that by (simp add: trimmed_def owned_def limit_def)
  from assms(2) obtain h where "h \<in> vfree v" "\<And>p. owned v p \<Longrightarrow> p < h" unfolding topped_def by blast
  moreover from this(1) have "h \<in> vfree v'" using assms(1) by (simp add: trimmed_def)
  ultimately show ?thesis using o unfolding topped_def by blast
qed

lemma drop_table:
  assumes i: "vm_inv v S" and t: "topped v" and z: "emptied v (space s)"
    and s: "s \<in> slots S" "\<not> is_low s" "tab v s = Some t" "k < 512" "child s k \<in> slots S" "tab v (child s k) = Some q"
  shows "\<exists>v1. free_pages q 1 v = Some v1 \<and> vm_inv (set_word t k 0 v1) S \<and> topped (set_word t k 0 v1) \<and>
    trimmed S {s'. below (child s k) s'} {q} v (set_word t k 0 v1)"
proof -
  have "owned v q" using tree_okD(1) [OF vm_invD(3) [OF i] s(5,6)] .
  from free_topped [OF i t this] obtain f where f: "free_pages q 1 v = Some (v\<lparr>frames := f\<rparr>)" "pool_ok (v\<lparr>frames := f\<rparr>)"
    "vfree (v\<lparr>frames := f\<rparr>) = insert q (vfree v)" "\<And>g. g \<noteq> q \<Longrightarrow> page_ref g (v\<lparr>frames := f\<rparr>) = page_ref g v"
    "frame_reserved f = frame_reserved (frames v)" by blast
  let ?v = "set_word t k 0 (v\<lparr>frames := f\<rparr>)"
  have "npage ?v = npage v" "ram ?v = (ram v)(t := (ram v t)(k := 0))" by (simp_all add: set_word_def)
  moreover have "pool_ok ?v" using f(2) by (simp add: pool_ok_def limit_def)
  moreover have "\<And>j. j < USER_PAGES \<Longrightarrow> pte v (space s) j = 0" using z by (simp add: emptied_def)
  ultimately have "vm_inv ?v S" "trimmed S {s'. below (child s k) s'} {q} v ?v"
    using remove_table [OF i s, of ?v] f(3-5) by simp_all
  then show ?thesis using f(1) trimmed_topped t by blast
qed

lemma free_table_ok:
  assumes i: "vm_inv v S" and t: "topped v" and pd: "pd \<in> S" "mid v pd (j div 512) = Some t" and z: "emptied v pd"
    and j: "j < 1024" "PDX0 la = j mod 512"
  shows "\<exists>v'. free_table t la fr v = Some (fr \<and> low v pd j \<noteq> None, v') \<and> vm_inv v' S \<and> topped v' \<and>
    trimmed S {Low pd j} (set_option (low v pd j)) v v'"
proof -
  let ?s = "Mid pd (j div 512)"
  have c: "child ?s (j mod 512) = Low pd j" by (simp add: div_mult_mod_eq)
  have s: "?s \<in> slots S" "\<not> is_low ?s" "tab v ?s = Some t" "j mod 512 < 512" "child ?s (j mod 512) \<in> slots S"
    unfolding c using pd j page_index by simp_all
  have e: "low v pd j = entry_frame v (ram v t (j mod 512))" using pd(2) by (simp add: low_def)
  show ?thesis
  proof (cases "valid (ram v t (j mod 512))")
    case False
    then have n: "low v pd j = None" by (simp add: e entry_frame_def)
    then have "trimmed S {Low pd j} {} v v" by (intro trimmed_refl) auto
    then show ?thesis using False i t n by (simp add: free_table_def j Let_def)
  next
    case True
    from tree_okD(3) [OF vm_invD(3) [OF i] s(1,3,2,4,5) True] obtain q where q: "tab v (child ?s (j mod 512)) = Some q" by blast
    then have q': "low v pd j = Some q" by (simp only: c tab.simps)
    have p: "pde2page (ram v t (j mod 512)) v = Some q" using True q' by (simp add: e entry_frame_def pde2page_def)
    have "ram v q k = 0" if k: "k < 512" for k
    proof -
      have "(j * 512 + k) div 512 = j" "(j * 512 + k) mod 512 = k" using k by simp_all
      then have "pte v pd (j * 512 + k) = ram v q k" using q' by (simp add: pte_def)
      moreover have "j * 512 + k < USER_PAGES" using j(1) k by (simp add: USER_PAGES_def)
      ultimately show ?thesis using z by (simp add: emptied_def)
    qed
    then have "list_all (\<lambda>i. \<not> valid (ram v q i)) [0..<512]" by (auto simp: list_all_iff valid_def)
    moreover from drop_table [OF i t _ s q] z obtain v1 where
      "free_pages q 1 v = Some v1" "vm_inv (set_word t (j mod 512) 0 v1) S" "topped (set_word t (j mod 512) 0 v1)"
      "trimmed S {s'. below (child ?s (j mod 512)) s'} {q} v (set_word t (j mod 512) 0 v1)" by auto
    moreover have "{s'. below (Low pd j) s'} = {Low pd j}" by auto
    ultimately show ?thesis using True p q' unfolding c by (simp add: free_table_def j Let_def)
  qed
qed

lemma at_tables:
  assumes "at_page d (512 * j)" "j < 1024"
  shows "PDX0 d = j mod 512" "PDX1 d = j div 512" "at_page (d + PTSIZE) (512 * (j + 1))"
proof -
  have u: "512 * j < USER_PAGES" using assms(2) by (simp add: USER_PAGES_def)
  note a = at_pageD [OF assms(1)]
  note i = user_index [OF a(2) [OF u], unfolded a(1)]
  show "PDX0 d = j mod 512" "PDX1 d = j div 512" using i(1,2) by simp_all
  show "at_page (d + PTSIZE) (512 * (j + 1))"
    using assms by (simp add: at_page_def unat_word_ariths PTSIZE_def USER_PAGES_def)
qed

lemma exit_tables_ok:
  assumes "vm_inv v S" "topped v" "pd \<in> S" "mid v pd i = Some t" "emptied v pd"
    "at_page d0 (512 * j)" "i * 512 \<le> j" "j < m" "m \<le> (i + 1) * 512" "i < 2"
    "\<And>j' d. at_page d (512 * j') \<Longrightarrow> j < j' \<Longrightarrow> (d < d1 + PDSIZE \<and> d < e) \<longleftrightarrow> j' < m"
  shows "\<exists>v'. exit_tables t d0 d1 e fr v = Some (fr \<and> (\<forall>j' \<in> {j ..< m}. low v pd j' \<noteq> None), v') \<and> vm_inv v' S \<and> topped v' \<and>
    trimmed S (Low pd ` {j ..< m}) {q. \<exists>j' \<in> {j ..< m}. low v pd j' = Some q} v v'"
  using assms
proof (induction "m - j" arbitrary: j d0 fr v rule: less_induct)
  case less
  note p = less.prems
  have j: "j < 1024" "j div 512 = i"
  proof -
    show "j < 1024" using p(8-10) by (cases "i = 0") auto
    have "i \<le> j div 512" using p(7) div_le_mono [of "i * 512" j 512] by simp
    moreover have "j div 512 < i + 1" using p(8,9) by (intro less_mult_imp_div_less) simp
    ultimately show "j div 512 = i" by simp
  qed
  note at = at_tables [OF p(6) j(1)]
  from free_table_ok [OF p(1-3) _ p(5) j(1) at(1), of t fr] p(4) j(2) obtain v1 where
    f: "free_table t d0 fr v = Some (fr \<and> low v pd j \<noteq> None, v1)" "vm_inv v1 S" "topped v1"
      "trimmed S {Low pd j} (set_option (low v pd j)) v v1" by auto
  have nz: "d0 + PTSIZE \<noteq> 0" using at_page_zero [OF at(3)] by simp
  have go: "d0 + PTSIZE < d1 + PDSIZE \<and> d0 + PTSIZE < e \<longleftrightarrow> j + 1 < m" using p(11) [OF at(3)] by simp
  have u: "exit_tables t d0 d1 e fr v = (if j + 1 < m then exit_tables t (d0 + PTSIZE) d1 e (fr \<and> low v pd j \<noteq> None) v1
      else Some (fr \<and> low v pd j \<noteq> None, v1))"
    by (subst exit_tables.simps) (simp add: f(1) nz go Let_def)
  show ?case
  proof (cases "j + 1 < m")
    case False
    then have "{j ..< m} = {j}" using p(8) by auto
    moreover have "{q. low v pd j = Some q} = set_option (low v pd j)" by auto
    ultimately show ?thesis using u f False by simp
  next
    case True
    have mid1: "mid v1 pd i = Some t" using f(4) p(3,4,10) by (auto simp: trimmed_def dest: bspec [of _ _ "Mid pd i"])
    have low1: "low v1 pd j' = low v pd j'" if "j' \<in> {j + 1 ..< m}" for j'
    proof -
      have "j' < 1024" using that p(9,10) by (cases "i = 0") auto
      then show ?thesis using f(4) p(3) that by (auto simp: trimmed_def dest: bspec [of _ _ "Low pd j'"])
    qed
    have "m - (j + 1) < m - j" "i * 512 \<le> j + 1" using True p(7) by auto
    with less.hyps [OF _ f(2,3) p(3) mid1 emptied_trimmed [OF f(4) p(3,5)] at(3) _ True p(9,10)] p(11) obtain v' where
      v': "exit_tables t (d0 + PTSIZE) d1 e (fr \<and> low v pd j \<noteq> None) v1 =
          Some ((fr \<and> low v pd j \<noteq> None) \<and> (\<forall>j' \<in> {j + 1 ..< m}. low v1 pd j' \<noteq> None), v')" "vm_inv v' S" "topped v'"
        "trimmed S (Low pd ` {j + 1 ..< m}) {q. \<exists>j' \<in> {j + 1 ..< m}. low v1 pd j' = Some q} v1 v'" by fastforce
    have split: "{j ..< m} = insert j {j + 1 ..< m}" using p(8) by auto
    have "{q. \<exists>j' \<in> {j + 1 ..< m}. low v1 pd j' = Some q} = {q. \<exists>j' \<in> {j + 1 ..< m}. low v pd j' = Some q}" using low1 by auto
    with trimmed_trans [OF f(4) v'(4)]
    have "trimmed S ({Low pd j} \<union> Low pd ` {j + 1 ..< m}) (set_option (low v pd j) \<union> {q. \<exists>j' \<in> {j + 1 ..< m}. low v pd j' = Some q}) v v'"
      by simp
    moreover have "{Low pd j} \<union> Low pd ` {j + 1 ..< m} = Low pd ` {j ..< m}" unfolding split by simp
    moreover have "set_option (low v pd j) \<union> {q. \<exists>j' \<in> {j + 1 ..< m}. low v pd j' = Some q} = {q. \<exists>j' \<in> {j ..< m}. low v pd j' = Some q}"
      unfolding split by auto
    moreover have "((fr \<and> low v pd j \<noteq> None) \<and> (\<forall>j' \<in> {j + 1 ..< m}. low v1 pd j' \<noteq> None)) =
      (fr \<and> (\<forall>j' \<in> {j ..< m}. low v pd j' \<noteq> None))" unfolding split using low1 by auto
    ultimately show ?thesis using u v'(1-3) True by auto
  qed
qed
subsection \<open>The gigabytes\<close>

text \<open>What is given back for the tables \<open>{a ..< b}\<close>: the tables, and the second-level tables none of whose
  entries in the range was missing.\<close>

definition full :: "vmem \<Rightarrow> nat \<Rightarrow> nat \<Rightarrow> nat \<Rightarrow> nat \<Rightarrow> bool" where
  "full v pd a b i \<longleftrightarrow> mid v pd i \<noteq> None \<and> (\<exists>j \<in> {a ..< b}. j div 512 = i) \<and> (\<forall>j \<in> {a ..< b}. j div 512 = i \<longrightarrow> low v pd j \<noteq> None)"

definition gone :: "vmem \<Rightarrow> nat \<Rightarrow> nat \<Rightarrow> nat \<Rightarrow> slot set" where
  "gone v pd a b = Low pd ` {a ..< b} \<union> {s. \<exists>i. full v pd a b i \<and> below (Mid pd i) s}"

definition given :: "vmem \<Rightarrow> nat \<Rightarrow> nat \<Rightarrow> nat \<Rightarrow> nat set" where
  "given v pd a b = {q. \<exists>j \<in> {a ..< b}. low v pd j = Some q} \<union> {t. \<exists>i. full v pd a b i \<and> mid v pd i = Some t}"

definition exit_dir :: "nat \<Rightarrow> u64 \<Rightarrow> u64 \<Rightarrow> u64 \<Rightarrow> vmem \<Rightarrow> vmem option" where
  "exit_dir pgdir d1 d0 e v =
     (if valid (ram v pgdir (PDX1 d1)) then do {
        pd0 \<leftarrow> pde2page (ram v pgdir (PDX1 d1)) v;
        (fr, v1) \<leftarrow> exit_tables pd0 d0 d1 e True v;
        if fr then do { v2 \<leftarrow> free_pages pd0 1 v1; Some (set_word pgdir (PDX1 d1) 0 v2) } else Some v1 }
      else Some v)"

lemma exit_loop_step:
  "exit_loop pgdir d1 d0 e v = do {
     v1 \<leftarrow> exit_dir pgdir d1 d0 e v;
     if d1 + PDSIZE \<noteq> 0 \<and> d1 + PDSIZE < e then exit_loop pgdir (d1 + PDSIZE) (d1 + PDSIZE) e v1 else Some v1 }"
  by (subst exit_loop.simps) (simp add: exit_dir_def Let_def)

lemma one_gigabyte:
  assumes "i * 512 \<le> j" "j < m" "m \<le> (i + 1) * 512" "k \<in> {j ..< m}"
  shows "k div 512 = (i :: nat)"
proof -
  have "i \<le> k div 512" using assms div_le_mono [of "i * 512" k 512] by simp
  moreover have "k div 512 < i + 1" using assms by (intro less_mult_imp_div_less) simp
  ultimately show ?thesis by simp
qed

lemma exit_dir_ok:
  assumes i: "vm_inv v S" and t: "topped v" and pd: "pd \<in> S" and z: "emptied v pd"
    and d: "at_page d1 (512 * 512 * i)" "at_page d0 (512 * j)" "at_page e n" "i < 2"
    and j: "i * 512 \<le> j" "j < m" "m = min ((i + 1) * 512) ((n + 511) div 512)"
  shows "\<exists>v'. exit_dir pd d1 d0 e v = Some v' \<and> vm_inv v' S \<and> topped v' \<and> trimmed S (gone v pd j m) (given v pd j m) v v'"
proof -
  have m: "m \<le> (i + 1) * 512" using j(3) by simp
  note gb = one_gigabyte [OF j(1,2) m]
  have fi: "full v pd j m i' \<longleftrightarrow> i' = i \<and> mid v pd i \<noteq> None \<and> (\<forall>k \<in> {j ..< m}. low v pd k \<noteq> None)" for i'
    using gb j(2) by (auto simp: full_def)
  have x: "PDX1 d1 = i"
  proof -
    have u: "512 * 512 * i < USER_PAGES" using d(4) by (simp add: USER_PAGES_def)
    note a = at_pageD [OF d(1)]
    show ?thesis using user_index(1) [OF a(2) [OF u], unfolded a(1)] by simp
  qed
  have next1: "at_page (d1 + PDSIZE) (512 * 512 * (i + 1))"
    using d(1,4) by (simp add: at_page_def unat_word_ariths PDSIZE_def USER_PAGES_def)
  have e: "mid v pd i = entry_frame v (ram v pd i)" by (simp add: mid_def)
  show ?thesis
  proof (cases "mid v pd i")
    case None
    have s: "Root pd \<in> slots S" "\<not> is_low (Root pd)" "tab v (Root pd) = Some pd" "i < 512" "child (Root pd) i \<in> slots S"
      using pd d(4) by simp_all
    have "\<not> valid (ram v pd i)" using tree_okD(3) [OF vm_invD(3) [OF i] s(1,3,2,4,5)] None by auto
    moreover have l: "low v pd k = None" if "k \<in> {j ..< m}" for k using None gb that by (simp add: low_def)
    then have "trimmed S (gone v pd j m) {} v v" by (intro trimmed_refl) (auto simp: gone_def fi None)
    moreover have "given v pd j m = {}" using l by (auto simp: given_def fi None)
    ultimately show ?thesis using i t by (simp add: exit_dir_def x)
  next
    case (Some u)
    have v: "valid (ram v pd i)" "pde2page (ram v pd i) v = Some u"
      using Some by (auto simp: e entry_frame_def pde2page_def split: if_splits)
    have cond: "d < d1 + PDSIZE \<and> d < e \<longleftrightarrow> k < m" if "at_page d (512 * k)" for k d
      using at_page_less [OF that next1] at_page_less [OF that d(3)] j(3) by auto
    from exit_tables_ok [OF i t pd Some z d(2) j(1,2) m d(4), of d1 e True] cond obtain v1 where
      v1: "exit_tables u d0 d1 e True v = Some (\<forall>k \<in> {j ..< m}. low v pd k \<noteq> None, v1)" "vm_inv v1 S" "topped v1"
        "trimmed S (Low pd ` {j ..< m}) {q. \<exists>k \<in> {j ..< m}. low v pd k = Some q} v v1" by auto
    show ?thesis
    proof (cases "\<forall>k \<in> {j ..< m}. low v pd k \<noteq> None")
      case False
      then have "gone v pd j m = Low pd ` {j ..< m}" "given v pd j m = {q. \<exists>k \<in> {j ..< m}. low v pd k = Some q}"
        by (auto simp: gone_def given_def fi)
      then show ?thesis using v v1(2-) v1(1) [unfolded False [THEN eq_False [THEN iffD2]]] by (simp add: exit_dir_def x)
    next
      case True
      have m1: "mid v1 pd i = Some u" using v1(4) Some pd d(4) by (auto simp: trimmed_def dest: bspec [of _ _ "Mid pd i"])
      have s: "Root pd \<in> slots S" "\<not> is_low (Root pd)" "tab v1 (Root pd) = Some pd" "i < 512" "child (Root pd) i \<in> slots S"
        "tab v1 (child (Root pd) i) = Some u" using pd d(4) m1 by simp_all
      have "emptied v1 (space (Root pd))" using emptied_trimmed [OF v1(4) pd z] by simp
      from drop_table [OF v1(2,3) this s] obtain v2 where v2: "free_pages u 1 v1 = Some v2" "vm_inv (set_word pd i 0 v2) S"
        "topped (set_word pd i 0 v2)" "trimmed S {s'. below (child (Root pd) i) s'} {u} v1 (set_word pd i 0 v2)" by blast
      have "Low pd ` {j ..< m} \<union> {s'. below (child (Root pd) i) s'} = gone v pd j m"
        using Some True by (auto simp: gone_def fi)
      moreover have "{q. \<exists>k \<in> {j ..< m}. low v pd k = Some q} \<union> {u} = given v pd j m"
        using Some True by (auto simp: given_def fi)
      ultimately have "trimmed S (gone v pd j m) (given v pd j m) v (set_word pd i 0 v2)"
        using trimmed_trans [OF v1(4) v2(4)] by simp
      then show ?thesis using v v1(1) v2 True by (simp add: exit_dir_def x)
    qed
  qed
qed
lemma exit_last:
  assumes "vm_inv v S" "topped v" "pd \<in> S" "emptied v pd" "at_page d1 (512 * 512 * i)" "at_page d0 (512 * a)" "at_page e n" "i < 2"
    "i * 512 \<le> a" "a < b" "b = (n + 511) div 512" "b \<le> (i + 1) * 512"
  shows "\<exists>v'. exit_loop pd d1 d0 e v = Some v' \<and> vm_inv v' S \<and> topped v' \<and> trimmed S (gone v pd a b) (given v pd a b) v v'"
proof -
  have "b = min ((i + 1) * 512) ((n + 511) div 512)" using assms(11,12) by simp
  from exit_dir_ok [OF assms(1-10) this] obtain v' where
    v': "exit_dir pd d1 d0 e v = Some v'" "vm_inv v' S" "topped v'" "trimmed S (gone v pd a b) (given v pd a b) v v'" by blast
  have "at_page (d1 + PDSIZE) (512 * 512 * (i + 1))"
    using assms(5,8) by (simp add: at_page_def unat_word_ariths PDSIZE_def USER_PAGES_def)
  moreover have "n \<le> 512 * 512 * (i + 1)" using assms(11,12) by (simp add: div_le_dividend)
  ultimately have "\<not> d1 + PDSIZE < e" using at_page_less [OF _ assms(7)] by (meson not_le)
  then show ?thesis using v' by (subst exit_loop_step) simp
qed

lemma gone_split:
  assumes "a < 512" "512 < b" "b \<le> 1024"
    "\<And>j. j < 1024 \<Longrightarrow> low v1 pd j = (if Low pd j \<in> gone v pd a 512 then None else low v pd j)"
    "\<And>i. i < 2 \<Longrightarrow> mid v1 pd i = (if Mid pd i \<in> gone v pd a 512 then None else mid v pd i)"
  shows "gone v pd a 512 \<union> gone v1 pd 512 b = gone v pd a b" "given v pd a 512 \<union> given v1 pd 512 b = given v pd a b"
proof -
  have j0: "j div 512 = 0" if "j \<in> {a ..< 512}" for j using that by simp
  have j1: "j div 512 = 1" if "j \<in> {512 ..< b}" for j using one_gigabyte [of 1 512 b j] that assms(2,3) by simp
  have split: "{a ..< b} = {a ..< 512} \<union> {512 ..< b}" using assms(1,2) by auto
  have low1: "low v1 pd j = low v pd j" if "j \<in> {512 ..< b}" for j
  proof -
    have "j < 1024" "Low pd j \<notin> gone v pd a 512" using that j0 j1 [OF that] assms(3) by (auto simp: gone_def full_def)
    then show ?thesis using assms(4) by simp
  qed
  have mid1: "mid v1 pd 1 = mid v pd 1" using assms(5) [of 1] j0 by (auto simp: gone_def full_def)
  have one: "full w pd c d i \<longleftrightarrow> i = k \<and> mid w pd k \<noteq> None \<and> (\<forall>j \<in> {c ..< d}. low w pd j \<noteq> None)"
    if "c < d" "\<And>j. j \<in> {c ..< d} \<Longrightarrow> j div 512 = k" for w c d i k
  proof (cases "i = k")
    case True
    have "c \<in> {c ..< d}" using that(1) by simp
    then show ?thesis using that(2) True by (auto simp: full_def)
  qed (use that(2) in \<open>auto simp: full_def\<close>)
  have f0: "full w pd a 512 i \<longleftrightarrow> i = 0 \<and> mid w pd 0 \<noteq> None \<and> (\<forall>j \<in> {a ..< 512}. low w pd j \<noteq> None)" for w i
    by (rule one [OF assms(1)]) (rule j0)
  have f1: "full w pd 512 b i \<longleftrightarrow> i = 1 \<and> mid w pd 1 \<noteq> None \<and> (\<forall>j \<in> {512 ..< b}. low w pd j \<noteq> None)" for w i
    by (rule one [OF assms(2)]) (rule j1)
  have low1': "(\<forall>j \<in> {512 ..< b}. low v1 pd j \<noteq> None) \<longleftrightarrow> (\<forall>j \<in> {512 ..< b}. low v pd j \<noteq> None)" using low1 by simp
  have f2: "full v pd a b i \<longleftrightarrow> full v pd a 512 i \<or> full v pd 512 b i" for i
  proof -
    have "full v pd a b i \<Longrightarrow> i = 0 \<or> i = 1" using j0 j1 unfolding full_def split by (elim conjE bexE UnE) auto
    moreover have "full v pd a b 0 \<longleftrightarrow> full v pd a 512 0"
    proof -
      have "(\<exists>j \<in> {a ..< b}. j div 512 = 0) \<longleftrightarrow> (\<exists>j \<in> {a ..< 512}. j div 512 = 0)"
        "(\<forall>j \<in> {a ..< b}. j div 512 = 0 \<longrightarrow> low v pd j \<noteq> None) \<longleftrightarrow> (\<forall>j \<in> {a ..< 512}. j div 512 = 0 \<longrightarrow> low v pd j \<noteq> None)"
        unfolding split by (simp_all add: bex_Un ball_Un j1)
      then show ?thesis unfolding full_def by simp
    qed
    moreover have "full v pd a b 1 \<longleftrightarrow> full v pd 512 b 1"
    proof -
      have "(\<exists>j \<in> {a ..< b}. j div 512 = 1) \<longleftrightarrow> (\<exists>j \<in> {512 ..< b}. j div 512 = 1)"
        "(\<forall>j \<in> {a ..< b}. j div 512 = 1 \<longrightarrow> low v pd j \<noteq> None) \<longleftrightarrow> (\<forall>j \<in> {512 ..< b}. j div 512 = 1 \<longrightarrow> low v pd j \<noteq> None)"
        unfolding split by (simp_all add: bex_Un ball_Un j0)
      then show ?thesis unfolding full_def by simp
    qed
    moreover have "\<not> full v pd a 512 1" "\<not> full v pd 512 b 0" by (simp_all add: f0 f1)
    moreover have "full v pd a 512 i \<Longrightarrow> i = 0" "full v pd 512 b i \<Longrightarrow> i = 1" using f0 f1 by blast+
    ultimately show ?thesis by blast
  qed
  have f3: "full v1 pd 512 b i \<longleftrightarrow> full v pd 512 b i" for i unfolding f1 mid1 low1' ..
  have f: "full v pd a b i \<longleftrightarrow> full v pd a 512 i \<or> full v1 pd 512 b i" for i unfolding f2 f3 ..
  have im: "Low pd ` {a ..< b} = Low pd ` {a ..< 512} \<union> Low pd ` {512 ..< b}" unfolding split by (rule image_Un)
  show "gone v pd a 512 \<union> gone v1 pd 512 b = gone v pd a b" unfolding gone_def im f by blast
  have "{t. \<exists>i. full v1 pd 512 b i \<and> mid v1 pd i = Some t} = {t. \<exists>i. full v1 pd 512 b i \<and> mid v pd i = Some t}"
    using mid1 f1 by auto
  moreover have "{q. \<exists>j \<in> {512 ..< b}. low v1 pd j = Some q} = {q. \<exists>j \<in> {512 ..< b}. low v pd j = Some q}" using low1 by auto
  ultimately show "given v pd a 512 \<union> given v1 pd 512 b = given v pd a b" unfolding given_def f split by blast
qed

lemma exit_loop_ok:
  assumes "vm_inv v S" "topped v" "pd \<in> S" "emptied v pd" "at_page d1 (512 * 512 * (a div 512))" "at_page d0 (512 * a)" "at_page e n"
    "a < b" "b = (n + 511) div 512"
  shows "\<exists>v'. exit_loop pd d1 d0 e v = Some v' \<and> vm_inv v' S \<and> topped v' \<and> trimmed S (gone v pd a b) (given v pd a b) v v'"
proof -
  have b: "b \<le> 1024" using assms(7,9) by (auto simp: at_page_def USER_PAGES_def)
  then have i: "a div 512 < 2" using assms(8) page_index(2) [of a] by simp
  have a: "a div 512 * 512 \<le> a" by simp
  show ?thesis
  proof (cases "b \<le> (a div 512 + 1) * 512")
    case True
    show ?thesis using exit_last [OF assms(1-7) i a assms(8,9) True] .
  next
    case False
    have q: "a div 512 = 0"
    proof (rule ccontr)
      assume "a div 512 \<noteq> 0"
      then have "a div 512 = 1" using i by linarith
      then show False using False b by simp
    qed
    then have i0: "a div 512 = 0" "a < 512" "512 < b" using False by (simp_all add: div_eq_0_iff)
    note a1 = assms(5) [unfolded i0(1)]
    have "512 = min ((0 + 1) * 512) ((n + 511) div 512)" using i0(3) assms(9) by simp
    from exit_dir_ok [OF assms(1-4) a1 assms(6,7) _ _ i0(2) this] obtain v1 where
      v1: "exit_dir pd d1 d0 e v = Some v1" "vm_inv v1 S" "topped v1" "trimmed S (gone v pd a 512) (given v pd a 512) v v1" by auto
    have d: "at_page (d1 + PDSIZE) (512 * 512 * 1)" "at_page (d1 + PDSIZE) (512 * 512)"
      using a1 by (simp_all add: at_page_def unat_word_ariths PDSIZE_def USER_PAGES_def)
    from exit_last [OF v1(2,3) assms(3) emptied_trimmed [OF v1(4) assms(3,4)] d assms(7) _ _ i0(3) assms(9)] b obtain v' where
      v': "exit_loop pd (d1 + PDSIZE) (d1 + PDSIZE) e v1 = Some v'" "vm_inv v' S" "topped v'"
        "trimmed S (gone v1 pd 512 b) (given v1 pd 512 b) v1 v'" by auto
    have "512 * 512 < n" using i0(3) assms(9) by linarith
    then have "d1 + PDSIZE < e" "d1 + PDSIZE \<noteq> 0" using at_page_less [OF d(2) assms(7)] at_page_zero [OF d(2)] by simp_all
    then have "exit_loop pd d1 d0 e v = Some v'" using v1(1) v'(1) by (subst exit_loop_step) simp
    moreover have l: "low v1 pd j = (if Low pd j \<in> gone v pd a 512 then None else low v pd j)" if "j < 1024" for j
      using v1(4) assms(3) that unfolding trimmed_def by (metis slots_simps(3) tab.simps(3))
    moreover have m: "mid v1 pd j = (if Mid pd j \<in> gone v pd a 512 then None else mid v pd j)" if "j < 2" for j
      using v1(4) assms(3) that unfolding trimmed_def by (metis slots_simps(2) tab.simps(2))
    ultimately show ?thesis using v'(2,3) trimmed_trans [OF v1(4) v'(4)] gone_split [OF i0(2,3) b l m] by simp
  qed
qed

text \<open>The tables of a range: from the one of its first page to the one of its last.\<close>

lemma exit_range_ok:
  assumes "vm_inv v S" "topped v" "pd \<in> S" "emptied v pd" "s mod PGSIZE = 0" "e mod PGSIZE = 0" "USER_ACCESS s e"
  shows "\<exists>v'. exit_range pd s e v = Some v' \<and> vm_inv v' S \<and> topped v' \<and>
    trimmed S (gone v pd (unat s div 0x200000) ((unat e + 0x1FFFFF) div 0x200000))
      (given v pd (unat s div 0x200000) ((unat e + 0x1FFFFF) div 0x200000)) v v'"
proof -
  from user_range [OF assms(5-7)] obtain a b where ab: "at_page s a" "at_page e b" "0 < a" "a < b"
    "a = unat s div 4096" "b = unat e div 4096" .
  have s: "unat s = 4096 * a" "a < USER_PAGES" "unat e = 4096 * b" using ab by (simp_all add: at_page_def)
  have j: "unat s div 0x200000 = a div 512" using s(1) by simp
  have n: "(unat e + 0x1FFFFF) div 0x200000 = (b + 511) div 512"
  proof -
    have "(4096 * b + 0x1FFFFF) div 4096 = b + 511" by simp
    then show ?thesis unfolding s(3) using div_mult2_eq [of "4096 * b + 0x1FFFFF" 4096 512] by simp
  qed
  have down: "unat (ROUNDDOWN s w) = unat s div unat w * unat w" for w
  proof -
    have "s mod w \<le> s" by (simp add: word_le_nat_alt unat_mod)
    then have "unat (ROUNDDOWN s w) = unat s - unat s mod unat w" by (simp add: ROUNDDOWN_def unat_sub unat_mod)
    then show ?thesis by (simp add: minus_mod_eq_div_mult)
  qed
  have "at_page (ROUNDDOWN s PDSIZE) (512 * 512 * (a div 512 div 512))"
    using s(1,2) down [of PDSIZE] by (auto simp: at_page_def PDSIZE_def div_mult2_eq [of _ 512 512, symmetric, simplified] USER_PAGES_def)
  moreover have "at_page (ROUNDDOWN s PTSIZE) (512 * (a div 512))"
    using s(1,2) down [of PTSIZE] by (simp add: at_page_def PTSIZE_def div_mult2_eq USER_PAGES_def)
  moreover have "a div 512 < (b + 511) div 512" using ab(4) by linarith
  ultimately show ?thesis using exit_loop_ok [OF assms(1-4) _ _ ab(2), of _ "a div 512" _ "(b + 511) div 512"] assms(5-7)
    unfolding j n by (simp add: exit_range_def)
qed

end
