(* ===== verification/Paging_New.thy ===== *)
theory Paging_New
  imports Paging_Exit
begin

text \<open>
  New pages and new address spaces: \<open>pgdir_alloc_page\<close> maps a page taken from the manager, and
  \<^verbatim>\<open>setup_pgdir\<close> and \<^verbatim>\<open>put_pgdir\<close> (kern/process/proc.c of labcode/lab8) make the root of a space, with
  the kernel's entries copied from the boot table, and give it back.
\<close>

subsection \<open>Definitions\<close>

definition setup_pgdir :: "nat \<Rightarrow> vmem \<Rightarrow> (nat option \<times> vmem) option" where
  "setup_pgdir boot v = do {
     (r, v1) \<leftarrow> alloc_pages 1 v;
     case r of None \<Rightarrow> Some (None, v1)
     | Some page \<Rightarrow> do {
         pgdir \<leftarrow> page2kva page v1;
         Some (Some pgdir, set_frame pgdir (ram v1 boot) v1) } }"

definition put_pgdir :: "nat \<Rightarrow> vmem \<Rightarrow> vmem option" where
  "put_pgdir pgdir v = free_pages pgdir 1 v"

subsection \<open>Taking a frame\<close>

definition taken :: "nat set \<Rightarrow> nat \<Rightarrow> vmem \<Rightarrow> vmem \<Rightarrow> bool" where
  "taken S g v v1 \<longleftrightarrow> npage v1 = npage v \<and> frame_reserved (frames v1) = frame_reserved (frames v) \<and> g \<in> vfree v \<and>
     vfree v1 = vfree v - {g} \<and> owned v1 g \<and> g \<notin> tables v S \<and> maps v S g = {} \<and> page_ref g v = 0 \<and> g \<in> limit v \<and>
     (\<forall>p. page_ref p v1 = page_ref p v)"

lemma unmapped_free: "vm_inv v S \<Longrightarrow> g \<in> vfree v \<Longrightarrow> g \<notin> tables v S \<and> maps v S g = {}"
  using tree_okD(1) [OF vm_invD(3)] leaf_frame by (fastforce simp: tables_def maps_def owned_def)

text \<open>The frame may be written before anything else happens.\<close>

lemma alloc_taken:
  assumes i: "vm_inv v S"
  obtains (none) "alloc_pages 1 v = Some (None, v)" "vfree v = {}"
  | (some) g v1 where "alloc_pages 1 v = Some (Some g, v1)" "taken S g v v1" "ram v1 = ram v"
      "\<And>c. vm_inv (set_frame g c v1) S" "vm_inv v1 S"
proof -
  from vm_invD(2) [OF i] show thesis
  proof (cases rule: alloc_page_cases)
    case none
    then show thesis by (rule that(1))
  next
    case (some g f)
    let ?v1 = "v\<lparr>frames := f\<rparr>"
    note u = unmapped_free [OF i some(2)]
    have own: "owned ?v1 p \<longleftrightarrow> owned v p \<or> p = g" for p using some(2,4,7,8,9) by (auto simp: owned_def limit_def)
    have inv: "vm_inv w S" if w: "npage w = npage v" "frames w = f" "\<And>p. p \<noteq> g \<Longrightarrow> ram w p = ram v p" for w
    proof -
      have fr: "vfree w = vfree ?v1" "\<And>p. page_ref p w = page_ref p ?v1" "limit w = limit v"
        using w by (simp_all add: vfree_def page_ref_def limit_def)
      have "pool_ok w" using some(3) w fr by (simp add: pool_ok_def limit_def)
      moreover have "ram w t = ram v t" if "t \<in> tables v S" for t
        using that conjunct1 [OF u] by (intro w(3)) auto
      moreover have "owned w p" if "owned v p" for p using own [of p] that w fr by (simp add: owned_def limit_def)
      moreover have "page_ref p w = page_ref p v" for p using fr(2) some(5) by simp
      ultimately show ?thesis by (intro vm_inv_cong [OF i w(1)])
    qed
    have "taken S g v ?v1" unfolding taken_def using some(2,4-9) u own [of g] by simp
    moreover have "vm_inv (set_frame g c ?v1) S" for c by (rule inv) (simp_all add: set_frame_def)
    moreover have "vm_inv ?v1 S" by (rule inv) simp_all
    ultimately show thesis using that(2) some(1) by simp
  qed
qed

subsection \<open>A new space\<close>

lemma empty_spaces: "pool_ok v \<Longrightarrow> vm_inv v {}"
  by (auto simp: vm_inv_def tree_ok_def leaf_ok_def slots_def split: slot.splits)

lemma add_space:
  assumes i: "vm_inv v S" and p: "owned v pd" "pd \<notin> tables v S" "maps v S pd = {}" and z: "\<And>j. j < 2 \<Longrightarrow> \<not> valid (ram v pd j)"
  shows "vm_inv v (insert pd S)" "\<And>k. k < USER_PAGES \<Longrightarrow> pte v pd k = 0"
proof -
  have m: "mid v pd j = None" if "j < 2" for j using z [OF that] by (simp add: mid_def entry_frame_def)
  have l: "low v pd j = None" if "j < 1024" for j using m page_index(2) [OF that] by (simp add: low_def)
  show pt: "pte v pd k = 0" if "k < USER_PAGES" for k using l page_index(1) [OF that] by (simp add: pte_def)
  have new: "s \<in> slots S \<or> tab v s = None \<or> s = Root pd" if "s \<in> slots (insert pd S)" for s
    using that m l by (cases s) auto
  have sub: "s \<in> slots S \<Longrightarrow> s \<in> slots (insert pd S)" for s by (auto simp: slots_def split: slot.splits)
  have root: "tab v s = Some pd \<Longrightarrow> s \<in> slots S \<Longrightarrow> False" for s using p(2) tables_slot by blast
  have tabs: "tables v (insert pd S) = insert pd (tables v S)"
  proof (intro set_eqI iffI)
    fix t assume "t \<in> tables v (insert pd S)"
    then obtain s where "s \<in> slots (insert pd S)" "tab v s = Some t" by (auto simp: tables_def)
    then show "t \<in> insert pd (tables v S)" using new [of s] tables_slot by auto
  next
    fix t assume "t \<in> insert pd (tables v S)"
    moreover have "Root pd \<in> slots (insert pd S)" "tab v (Root pd) = Some pd" by simp_all
    ultimately show "t \<in> tables v (insert pd S)" using sub unfolding tables_def by blast
  qed
  have mp: "maps v (insert pd S) = maps v S" using pt by (auto simp: maps_def fun_eq_iff)
  note T = vm_invD(3) [OF i]
  have "tree_ok v (insert pd S)" unfolding tree_ok_def
  proof (intro conjI ballI allI impI)
    fix s t assume "s \<in> slots (insert pd S)" "tab v s = Some t"
    then show "owned v t" using new [of s] tree_okD(1) [OF T] p(1) by auto
  next
    fix s s' assume a: "s \<in> slots (insert pd S)" "s' \<in> slots (insert pd S)" "tab v s = tab v s'" "tab v s \<noteq> None"
    then consider "s \<in> slots S" "s' \<in> slots S" | "s = Root pd" "s' \<in> slots S" | "s' = Root pd" "s \<in> slots S" | "s = s'"
      using new by metis
    then show "s = s'"
    proof cases
      case 1
      then show ?thesis using a(3,4) tree_okD(2) [OF T] by auto
    qed (use a(3,4) root in auto)
  next
    fix s t j assume a: "s \<in> slots (insert pd S)" "\<not> is_low s" "tab v s = Some t" "j < 512" "child s j \<in> slots (insert pd S)"
      "valid (ram v t j)"
    have "tab v (child s j) \<noteq> None \<and> pointer (ram v t j)"
    proof (cases "s = Root pd")
      case True
      then show ?thesis using a z by auto
    next
      case False
      then have "s \<in> slots S" using new a by fastforce
      moreover have "child s j \<in> slots S" using \<open>s \<in> slots S\<close> a(2,5) by (cases s) auto
      ultimately show ?thesis using tree_okD(3,4) [OF T _ a(3,2,4) _ a(6)] by auto
    qed
    then show "tab v (child s j) \<noteq> None" "pointer (ram v t j)" by blast+
  qed
  moreover have "leaf_ok v (insert pd S)" unfolding leaf_ok_def
  proof (intro ballI allI impI)
    fix pd' k assume k: "pd' \<in> insert pd S" "k < USER_PAGES"
    show "pte v pd' k = 0 \<or> (\<exists>f. entry_frame v (pte v pd' k) = Some f \<and> owned v f \<and> f \<notin> tables v (insert pd S) \<and>
        page_ref f v = int (card (maps v (insert pd S) f)))"
    proof (cases "pd' = pd")
      case False
      with k have "pd' \<in> S" by simp
      from vm_invD(4) [OF i] this k(2) show ?thesis
      proof (cases rule: leaf_okD)
        case (some f)
        then have "maps v S f \<noteq> {}" using k \<open>pd' \<in> S\<close> by (auto simp: maps_def)
        then have "f \<noteq> pd" using p(3) by auto
        then show ?thesis using some tabs mp by simp
      qed auto
    qed (use pt k in simp)
  qed
  ultimately show "vm_inv v (insert pd S)" using vm_invD(1,2) [OF i] by (simp add: vm_inv_def)
qed

lemma setup_pgdir_ok:
  assumes i: "vm_inv v S" and b: "\<not> valid (ram v boot 0)" "\<not> valid (ram v boot 1)"
  obtains (none) "setup_pgdir boot v = Some (None, v)" "vfree v = {}"
  | (some) pd v' where "setup_pgdir boot v = Some (Some pd, v')" "taken S pd v v'" "vm_inv v' (insert pd S)"
      "ram v' = (ram v)(pd := ram v boot)" "\<And>k. k < USER_PAGES \<Longrightarrow> pte v' pd k = 0"
  using i
proof (cases rule: alloc_taken)
  case none
  then show thesis by (intro that(1)) (simp_all add: setup_pgdir_def)
next
  case (some pd v1)
  let ?v = "set_frame pd (ram v1 boot) v1"
  have lim: "pd \<in> limit v1" "npage v1 \<le> 2 ^ 44" using some(2) vm_invD(6) [OF some(5)] by (simp_all add: taken_def owned_def)
  have t: "taken S pd v ?v"
  proof -
    have "vfree ?v = vfree v1" "page_ref p ?v = page_ref p v1" "owned ?v p = owned v1 p" for p
      by (simp_all add: set_frame_def vfree_def page_ref_def owned_def limit_def)
    then show ?thesis using some(2) by (simp add: taken_def)
  qed
  have r: "ram ?v = (ram v)(pd := ram v boot)" using some(3) by (simp add: set_frame_def)
  have n: "npage ?v = npage v" using t by (simp add: taken_def)
  have "ram ?v p = ram v p" if "p \<in> tables v S" for p using t that unfolding r by (auto simp: taken_def)
  note st = same_trees [OF n this]
  have tabs: "tables ?v S = tables v S" by (rule st(3))
  have "maps ?v S = maps v S" by (auto simp: maps_def fun_eq_iff st(2) entry_frame_npage [OF n])
  then have "owned ?v pd" "pd \<notin> tables ?v S" "maps ?v S pd = {}" using t tabs by (simp_all add: taken_def)
  moreover have "\<not> valid (ram ?v pd j)" if "j < 2" for j
  proof -
    have "j = 0 \<or> j = 1" using that by auto
    then show ?thesis using b unfolding r by auto
  qed
  ultimately have "vm_inv ?v (insert pd S)" "\<And>k. k < USER_PAGES \<Longrightarrow> pte ?v pd k = 0" using add_space [OF some(4)] by auto
  moreover have "setup_pgdir boot v = Some (Some pd, ?v)" using some(1) page2kva_ok [OF lim] by (simp add: setup_pgdir_def)
  ultimately show thesis using that(2) t r by blast
qed
subsection \<open>A new page\<close>

lemma pgdir_alloc_page_ok:
  assumes i: "vm_inv v S" and pd: "pd \<in> S" and la: "la < USERTOP" "unat la div 4096 = k" and z: "pte v pd k = 0"
    and perm: "(PTE_V OR perm) AND NOT 0x3FF = 0"
  shows "\<exists>r v'. pgdir_alloc_page pd la perm v = Some (r, v') \<and> vm_inv v' S \<and>
    (case r of None \<Rightarrow> card (vfree v) \<le> 3 \<and> (\<forall>pd' \<in> S. \<forall>j < USER_PAGES. pte v' pd' j = pte v pd' j)
     | Some g \<Rightarrow> g \<in> vfree v \<and> g \<notin> vfree v' \<and> vfree v' \<subseteq> vfree v \<and> card (vfree v) \<le> card (vfree v') + 3 \<and>
        frame_reserved (frames v') = frame_reserved (frames v) \<and> npage v' = npage v \<and>
        page_ref g v' = 1 \<and> maps v' S g = {(pd, k)} \<and>
        (\<forall>pd' \<in> S. \<forall>j < USER_PAGES. pte v' pd' j = (if pd' = pd \<and> j = k then leaf_entry g perm else pte v pd' j)))"
proof -
  note u = user_index(4) [OF la(1), unfolded la(2), folded USER_PAGES_def]
  from i show ?thesis
  proof (cases rule: alloc_taken)
    case none
    then show ?thesis using i by (simp add: pgdir_alloc_page_def)
  next
    case (some g v1)
    note T = some(2) [unfolded taken_def]
    have n: "npage v1 = npage v" and og: "owned v1 g" and fv: "vfree v1 = vfree v - {g}" using T by simp_all
    note e1 = entry_frame_npage [OF n]
    note st = same_trees [OF n, of S, unfolded some(3), OF refl]
    have mp: "maps v1 S = maps v S" by (auto simp: maps_def fun_eq_iff st(2) e1)
    have g: "g \<notin> tables v1 S" "page_ref g v1 = int (card (maps v1 S g))" "maps v1 S g = {}" "page_ref g v1 = 0"
      using T by (simp_all add: st(3) mp)
    have z1: "pte v1 pd k = 0" using z st(2) [OF pd u] by simp
    have c1: "card (vfree v) = card (vfree v1) + 1"
      using T finite_vfree [OF i] card.remove [of "vfree v" g] by simp
    from page_insert_ok [OF some(5) pd la(1) _ og g(1,2) perm, unfolded la(2)] z1 obtain ret v' v2 where
      ins: "page_insert pd g la perm v1 = Some (ret, v')" "vm_inv v' S" "grown S 2 v1 v2"
      "if ret = 0 then entry_set S pd k (leaf_entry g perm) v2 v' \<and> low v2 pd (k div 512) \<noteq> None \<and>
         vfree v' = vfree v2 \<union> {f. f \<noteq> g \<and> entry_frame v1 (pte v1 pd k) = Some f \<and> card (maps v1 S f) = 1} \<and>
         (\<forall>q. page_ref q v' = page_ref q v2 + of_bool (q = g) - of_bool (entry_frame v1 (pte v1 pd k) = Some q))
       else ret = - E_NO_MEM \<and> v' = v2 \<and> vfree v' = {}" by blast
    note gc = grown_card [OF ins(3) finite_vfree [OF some(5)]]
    note og2 = grown_owned [OF ins(3) og]
    have P2: "pte v2 pd' j = pte v pd' j" if "pd' \<in> S" "j < USER_PAGES" for pd' j
      using ins(3) that st(2) [OF that] by (simp add: grown_def)
    have n2: "npage v2 = npage v" "frame_reserved (frames v2) = frame_reserved (frames v)"
      using ins(3) T by (simp_all add: grown_def)
    show ?thesis
    proof (cases "ret = 0")
      case True
      then have v': "entry_set S pd k (leaf_entry g perm) v2 v'" "vfree v' = vfree v2" "page_ref g v' = page_ref g v2 + 1"
        using ins(4) z1 by simp_all
      have one: "page_ref g v' = 1" using v'(3) og2(3) g by simp
      have P: "\<forall>pd' \<in> S. \<forall>j < USER_PAGES. pte v' pd' j = (if pd' = pd \<and> j = k then leaf_entry g perm else pte v pd' j)"
        using v'(1) P2 by (simp add: entry_set_def)
      have n': "npage v' = npage v" "frame_reserved (frames v') = frame_reserved (frames v)"
        using v'(1) n2 by (simp_all add: entry_set_def)
      have "g \<in> limit v" using T by simp
      then have le: "entry_frame v (leaf_entry g perm) = Some g"
        using entry_frame_create [of g v] vm_invD(6) [OF i] perm by (simp add: leaf_entry_def)
      have "maps v S g = {}" using T by simp
      then have other: "entry_frame v (pte v pd' j) \<noteq> Some g" if "pd' \<in> S" "j < USER_PAGES" for pd' j
        using that by (auto simp: maps_def)
      have "(d, j) \<in> maps v' S g \<longleftrightarrow> (d, j) = (pd, k)" for d j
      proof (cases "d \<in> S \<and> j < USER_PAGES")
        case True
        then have "pte v' d j = (if d = pd \<and> j = k then leaf_entry g perm else pte v d j)" using P by blast
        then show ?thesis using other [of d j] True le by (simp add: maps_def entry_frame_npage [OF n'(1)])
      qed (use pd u in \<open>auto simp: maps_def\<close>)
      then have "maps v' S g = {(pd, k)}" by auto
      moreover have "pgdir_alloc_page pd la perm v = Some (Some g, v')"
        using some(1) ins(1) True one by (simp add: pgdir_alloc_page_def)
      moreover have "g \<in> vfree v" "g \<notin> vfree v'" "vfree v' \<subseteq> vfree v" "card (vfree v) \<le> card (vfree v') + 3"
      proof -
        show "g \<in> vfree v" using T by simp
        show "vfree v' \<subseteq> vfree v" "g \<notin> vfree v'" using gc(2) v'(2) fv by auto
        show "card (vfree v) \<le> card (vfree v') + 3" using gc(1) v'(2) c1 by simp
      qed
      ultimately show ?thesis using ins(2) one P n' by auto
    next
      case False
      then have v': "ret = - E_NO_MEM" "v' = v2" "vfree v2 = {}" using ins(4) by auto
      have i2: "vm_inv v2 S" using ins(2) v'(2) by simp
      from free_page_ok [OF vm_invD(2) [OF i2] og2(1)] v'(3) obtain f where
        f: "free_pages g 1 v2 = Some (v2\<lparr>frames := f\<rparr>)" "pool_ok (v2\<lparr>frames := f\<rparr>)" "vfree (v2\<lparr>frames := f\<rparr>) = insert g (vfree v2)"
        "\<And>q. page_ref q (v2\<lparr>frames := f\<rparr>) = (if q = g then 0 else page_ref q v2)"
        "frame_reserved f = (frame_reserved (frames v2))(g := False)" by blast
      have mp2: "maps v2 S g = {}" using grown_maps [OF ins(3)] g(3) by simp
      have "vm_inv (v2\<lparr>frames := f\<rparr>) S"
      proof (rule vm_inv_cong [OF i2 _ _ f(2)])
        fix p assume p: "owned v2 p" "p \<in> tables v2 S \<or> maps v2 S p \<noteq> {}"
        then have "p \<noteq> g" using mp2 og2(2) g(1) by auto
        then show "owned (v2\<lparr>frames := f\<rparr>) p" using p(1) f(3,5) by (simp add: owned_def limit_def)
      next
        fix p assume "maps v2 S p \<noteq> {}"
        then have "p \<noteq> g" using mp2 by auto
        then show "page_ref p (v2\<lparr>frames := f\<rparr>) = page_ref p v2" using f(4) by simp
      qed simp_all
      moreover have "pte (v2\<lparr>frames := f\<rparr>) pd' j = pte v pd' j" if "pd' \<in> S" "j < USER_PAGES" for pd' j
        using same_trees(2) [of "v2\<lparr>frames := f\<rparr>" v2 S pd' j] that P2 [OF that] by simp
      moreover have "pgdir_alloc_page pd la perm v = Some (None, v2\<lparr>frames := f\<rparr>)"
        using some(1) ins(1) v' f(1) by (simp add: pgdir_alloc_page_def)
      moreover have "card (vfree v) \<le> 3" using gc(1) v'(3) c1 by simp
      ultimately show ?thesis by simp
    qed
  qed
qed

end
