(* ===== verification/Vmm.thy ===== *)
theory Vmm
  imports Paging_New Cstring
begin

text \<open>
  Virtual memory areas (kern/mm/vmm.c and vmm.h of labcode/lab8): the areas of an address space, sorted by
  address, finding the area of an address with a one-entry cache, mapping a new area, copying and taking
  down a whole space, and the checks of user addresses that the system calls make.

  The list of a space is the sequence of its areas as \<^verbatim>\<open>list_next\<close> visits it; areas never change and are only
  removed together, so an area stands for the pointer to it, and the cached area is one of the list.
  The outcomes of the calls of \<^verbatim>\<open>kmalloc\<close> are a list of booleans, used one by one (none left is failure).
  Bytes of the current address space are those of \<open>mem\<close>, as for the string functions.
\<close>

record vma =
  vm_start :: u64
  vm_end :: u64
  vm_flags :: u32

record mm =
  mmap_list :: "vma list"
  mmap_cache :: "vma option"
  mm_pgdir :: "nat option"
  map_count :: int
  mm_count :: int

definition VM_READ :: u32 where "VM_READ = 1"
definition VM_WRITE :: u32 where "VM_WRITE = 2"
definition VM_STACK :: u32 where "VM_STACK = 8"

subsection \<open>Areas\<close>

definition kmalloc :: "bool list \<Rightarrow> bool \<times> bool list" where
  "kmalloc os = (case os of [] \<Rightarrow> (False, []) | b # os' \<Rightarrow> (b, os'))"

definition mm_create :: "bool list \<Rightarrow> mm option \<times> bool list" where
  "mm_create os = (case kmalloc os of (ok, os') \<Rightarrow>
     (if ok then Some \<lparr>mmap_list = [], mmap_cache = None, mm_pgdir = None, map_count = 0, mm_count = 0\<rparr> else None, os'))"

definition vma_create :: "u64 \<Rightarrow> u64 \<Rightarrow> u32 \<Rightarrow> bool list \<Rightarrow> vma option \<times> bool list" where
  "vma_create s e fl os = (case kmalloc os of (ok, os') \<Rightarrow>
     (if ok then Some \<lparr>vm_start = s, vm_end = e, vm_flags = fl\<rparr> else None, os'))"

definition covers :: "vma \<Rightarrow> u64 \<Rightarrow> bool" where
  "covers v addr \<longleftrightarrow> vm_start v \<le> addr \<and> addr < vm_end v"

primrec find_loop :: "vma list \<Rightarrow> u64 \<Rightarrow> vma option" where
  "find_loop [] addr = None"
| "find_loop (v # vs) addr = (if covers v addr then Some v else find_loop vs addr)"

definition find_vma :: "mm \<Rightarrow> u64 \<Rightarrow> vma option \<times> mm" where
  "find_vma mm addr =
     (let r = (case mmap_cache mm of
                 Some v \<Rightarrow> if covers v addr then Some v else find_loop (mmap_list mm) addr
               | None \<Rightarrow> find_loop (mmap_list mm) addr)
      in case r of None \<Rightarrow> (None, mm) | Some v \<Rightarrow> (Some v, mm\<lparr>mmap_cache := Some v\<rparr>))"

definition check_vma_overlap :: "vma \<Rightarrow> vma \<Rightarrow> bool" where
  "check_vma_overlap p n \<longleftrightarrow> vm_start p < vm_end p \<and> vm_end p \<le> vm_start n \<and> vm_start n < vm_end n"

definition insert_vma_struct :: "mm \<Rightarrow> vma \<Rightarrow> mm option" where
  "insert_vma_struct mm v = do {
     c_assert (vm_start v < vm_end v);
     let front = takeWhile (\<lambda>p. \<not> vm_start p > vm_start v) (mmap_list mm);
     let back = dropWhile (\<lambda>p. \<not> vm_start p > vm_start v) (mmap_list mm);
     c_assert (front = [] \<or> check_vma_overlap (last front) v);
     c_assert (back = [] \<or> check_vma_overlap v (hd back));
     Some (mm\<lparr>mmap_list := front @ v # back, map_count := map_count mm + 1\<rparr>) }"

text \<open>Destroying a space gives back its areas, in this order, and then the descriptor.\<close>

definition mm_destroy :: "mm \<Rightarrow> vma list option" where
  "mm_destroy mm = do { c_assert (mm_count mm = 0); Some (mmap_list mm) }"

definition mm_map :: "mm \<Rightarrow> u64 \<Rightarrow> u64 \<Rightarrow> u32 \<Rightarrow> bool list \<Rightarrow> (int \<times> vma option \<times> mm \<times> bool list) option" where
  "mm_map mm addr len fl os =
     (let s = ROUNDDOWN addr PGSIZE; e = ROUNDUP (addr + len) PGSIZE in
      if \<not> USER_ACCESS s e then Some (- E_INVAL, None, mm, os)
      else (case find_vma mm s of (r, mm1) \<Rightarrow>
        if (case r of None \<Rightarrow> False | Some v \<Rightarrow> e > vm_start v) then Some (- E_INVAL, None, mm1, os)
        else (case vma_create s e fl os of
          (None, os1) \<Rightarrow> Some (- E_NO_MEM, None, mm1, os1)
        | (Some v, os1) \<Rightarrow> do { mm2 \<leftarrow> insert_vma_struct mm1 v; Some (0, Some v, mm2, os1) })))"

subsection \<open>Whole spaces\<close>

text \<open>The loop goes over the areas of \<^verbatim>\<open>from\<close> from the last to the first.\<close>

primrec dup_areas :: "vma list \<Rightarrow> nat \<Rightarrow> nat \<Rightarrow> mm \<Rightarrow> bool list \<Rightarrow> vmem \<Rightarrow> (int \<times> mm \<times> bool list \<times> vmem) option" where
  "dup_areas [] topd frompd to os v = Some (0, to, os, v)"
| "dup_areas (a # as) topd frompd to os v =
     (case vma_create (vm_start a) (vm_end a) (vm_flags a) os of
        (None, os1) \<Rightarrow> Some (- E_NO_MEM, to, os1, v)
      | (Some n, os1) \<Rightarrow> do {
          to1 \<leftarrow> insert_vma_struct to n;
          (ret, v1) \<leftarrow> copy_range topd frompd (vm_start a) (vm_end a) v;
          if ret \<noteq> 0 then Some (- E_NO_MEM, to1, os1, v1) else dup_areas as topd frompd to1 os1 v1 })"

definition dup_mmap :: "mm \<Rightarrow> mm \<Rightarrow> bool list \<Rightarrow> vmem \<Rightarrow> (int \<times> mm \<times> bool list \<times> vmem) option" where
  "dup_mmap to frm os v = do {
     topd \<leftarrow> mm_pgdir to;
     frompd \<leftarrow> mm_pgdir frm;
     dup_areas (rev (mmap_list frm)) topd frompd to os v }"

primrec unmap_areas :: "vma list \<Rightarrow> nat \<Rightarrow> vmem \<Rightarrow> vmem option" where
  "unmap_areas [] pgdir v = Some v"
| "unmap_areas (a # as) pgdir v = do { v1 \<leftarrow> unmap_range pgdir (vm_start a) (vm_end a) v; unmap_areas as pgdir v1 }"

primrec exit_areas :: "vma list \<Rightarrow> nat \<Rightarrow> vmem \<Rightarrow> vmem option" where
  "exit_areas [] pgdir v = Some v"
| "exit_areas (a # as) pgdir v = do { v1 \<leftarrow> exit_range pgdir (vm_start a) (vm_end a) v; exit_areas as pgdir v1 }"

definition exit_mmap :: "mm \<Rightarrow> vmem \<Rightarrow> vmem option" where
  "exit_mmap mm v = do {
     c_assert (mm_count mm = 0);
     pgdir \<leftarrow> mm_pgdir mm;
     v1 \<leftarrow> unmap_areas (mmap_list mm) pgdir v;
     exit_areas (mmap_list mm) pgdir v1 }"

subsection \<open>User addresses\<close>

text \<open>What the check asks of the area of a byte.\<close>

definition area_allows :: "vma \<Rightarrow> u64 \<Rightarrow> bool \<Rightarrow> bool" where
  "area_allows v addr write \<longleftrightarrow> vm_flags v AND (if write then VM_WRITE else VM_READ) \<noteq> 0 \<and>
     \<not> (write \<and> vm_flags v AND VM_STACK \<noteq> 0 \<and> addr < vm_start v + PGSIZE)"

partial_function (option) check_loop :: "mm \<Rightarrow> u64 \<Rightarrow> u64 \<Rightarrow> bool \<Rightarrow> (bool \<times> mm) option" where
  "check_loop mm s e write =
     (if s < e then
        (case find_vma mm s of (r, mm1) \<Rightarrow>
           (case r of None \<Rightarrow> Some (False, mm1)
            | Some v \<Rightarrow>
                if s < vm_start v \<or> \<not> area_allows v s write then Some (False, mm1)
                else check_loop mm1 (vm_end v) e write))
      else Some (True, mm))"

declare check_loop.simps [code]

definition user_mem_check :: "mm option \<Rightarrow> u64 \<Rightarrow> u64 \<Rightarrow> bool \<Rightarrow> (bool \<times> mm option) option" where
  "user_mem_check mmo addr len write = (case mmo of
     None \<Rightarrow> Some (KERN_ACCESS addr (addr + len), None)
   | Some mm \<Rightarrow>
       if \<not> USER_ACCESS addr (addr + len) then Some (False, mmo)
       else do { (r, mm1) \<leftarrow> check_loop mm addr (addr + len) write; Some (r, Some mm1) })"

definition copy_from_user :: "mm option \<Rightarrow> u64 \<Rightarrow> u64 \<Rightarrow> u64 \<Rightarrow> bool \<Rightarrow> mem \<Rightarrow> (bool \<times> mm option \<times> mem) option" where
  "copy_from_user mmo dst src len writable m = do {
     (ok, mmo1) \<leftarrow> user_mem_check mmo src len writable;
     if \<not> ok then Some (False, mmo1, m)
     else Some (True, mmo1, snd (memcpy (unat dst) (unat src) (unat len) m)) }"

definition copy_to_user :: "mm option \<Rightarrow> u64 \<Rightarrow> u64 \<Rightarrow> u64 \<Rightarrow> mem \<Rightarrow> (bool \<times> mm option \<times> mem) option" where
  "copy_to_user mmo dst src len m = do {
     (ok, mmo1) \<leftarrow> user_mem_check mmo dst len True;
     if \<not> ok then Some (False, mmo1, m)
     else Some (True, mmo1, snd (memcpy (unat dst) (unat src) (unat len) m)) }"

partial_function (option) string_loop :: "mm option \<Rightarrow> u64 \<Rightarrow> u64 \<Rightarrow> u64 \<Rightarrow> u64 \<Rightarrow> mem \<Rightarrow> (bool \<times> mm option \<times> mem) option" where
  "string_loop mmo dst src maxn part0 m =
     (let part = (if part0 > maxn then maxn else part0) in do {
        (ok, mmo1) \<leftarrow> user_mem_check mmo src part False;
        if \<not> ok then Some (False, mmo1, m)
        else (let alen = strnlen m (unat src) (unat part) in
          if alen < unat part then Some (True, mmo1, snd (memcpy (unat dst) (unat src) (alen + 1) m))
          else if part = maxn then Some (False, mmo1, m)
          else string_loop mmo1 (dst + part) (src + part) (maxn - part) PGSIZE
                 (snd (memcpy (unat dst) (unat src) (unat part) m))) })"

declare string_loop.simps [code]

definition copy_string :: "mm option \<Rightarrow> u64 \<Rightarrow> u64 \<Rightarrow> u64 \<Rightarrow> mem \<Rightarrow> (bool \<times> mm option \<times> mem) option" where
  "copy_string mmo dst src maxn m = string_loop mmo dst src maxn (ROUNDDOWN (src + PGSIZE) PGSIZE - src) m"

end
