(* ===== verification/Vmm_Inv.thy ===== *)
theory Vmm_Inv
  imports Vmm
begin

text \<open>
  The invariant of the areas of a space: \<open>areas_ok\<close> says that the list is sorted and that no two areas
  overlap, \<open>mm_ok\<close> that the cached area is one of them and the count is right.  Under it the cache makes
  no difference, inserting fails exactly on an overlap, and the check of a user range is the check of
  each of its bytes.
\<close>

definition areas_ok :: "vma list \<Rightarrow> bool" where
  "areas_ok as \<longleftrightarrow> sorted_wrt (\<lambda>a b. vm_end a \<le> vm_start b) as \<and> (\<forall>a \<in> set as. vm_start a < vm_end a)"

definition mm_ok :: "mm \<Rightarrow> bool" where
  "mm_ok mm \<longleftrightarrow> areas_ok (mmap_list mm) \<and> (\<forall>a. mmap_cache mm = Some a \<longrightarrow> a \<in> set (mmap_list mm)) \<and>
     map_count mm = int (length (mmap_list mm))"

definition overlaps :: "vma \<Rightarrow> vma \<Rightarrow> bool" where
  "overlaps a b \<longleftrightarrow> vm_start a < vm_end b \<and> vm_start b < vm_end a"

text \<open>The spaces of processes: areas of whole pages of user memory.\<close>

definition vma_user :: "vma \<Rightarrow> bool" where
  "vma_user a \<longleftrightarrow> vm_start a mod PGSIZE = 0 \<and> vm_end a mod PGSIZE = 0 \<and> USER_ACCESS (vm_start a) (vm_end a)"

definition space_ok :: "mm \<Rightarrow> bool" where
  "space_ok mm \<longleftrightarrow> mm_ok mm \<and> (\<forall>a \<in> set (mmap_list mm). vma_user a)"

subsection \<open>Finding\<close>

lemma areas_ok_simps [simp]:
  "areas_ok []"
  "areas_ok (a # as) \<longleftrightarrow> vm_start a < vm_end a \<and> (\<forall>b \<in> set as. vm_end a \<le> vm_start b) \<and> areas_ok as"
  by (auto simp: areas_ok_def)

lemma areas_ok_append [simp]:
  "areas_ok (as @ bs) \<longleftrightarrow> areas_ok as \<and> areas_ok bs \<and> (\<forall>a \<in> set as. \<forall>b \<in> set bs. vm_end a \<le> vm_start b)"
  by (auto simp: areas_ok_def sorted_wrt_append)

lemma covers_unique:
  assumes "areas_ok as" "a \<in> set as" "b \<in> set as" "covers a x" "covers b x"
  shows "a = b"
  using assms
proof (induction as)
  case (Cons c as)
  have "c = d" if d: "d \<in> set (c # as)" "covers c x" "covers d x" for d
  proof (rule ccontr)
    assume "c \<noteq> d"
    then have "vm_end c \<le> vm_start d" using Cons.prems(1) d(1) by auto
    then show False using d(2,3) by (auto simp: covers_def word_le_nat_alt word_less_nat_alt)
  qed
  then show ?case using Cons by fastforce
qed simp

lemma find_loop_Some: "find_loop as x = Some v \<Longrightarrow> v \<in> set as \<and> covers v x"
  by (induction as) (auto split: if_splits)

lemma find_loop_None: "find_loop as x = None \<longleftrightarrow> (\<forall>a \<in> set as. \<not> covers a x)"
  by (induction as) auto

lemma find_loop_iff: "areas_ok as \<Longrightarrow> find_loop as x = Some v \<longleftrightarrow> v \<in> set as \<and> covers v x"
  using find_loop_Some [of as x] find_loop_None [of as x] covers_unique [of as _ v x] by (cases "find_loop as x") auto

lemma find_vma_covers: "find_vma mm x = (Some v, mm1) \<Longrightarrow> covers v x"
  using find_loop_Some by (fastforce simp: find_vma_def Let_def split: option.splits if_splits)

text \<open>The cache is invisible.\<close>

lemma find_vma_ok:
  assumes "mm_ok mm"
  obtains c where "find_vma mm x = (find_loop (mmap_list mm) x, mm\<lparr>mmap_cache := c\<rparr>)" "mm_ok (mm\<lparr>mmap_cache := c\<rparr>)"
proof -
  let ?r = "find_loop (mmap_list mm) x"
  have a: "areas_ok (mmap_list mm)" "\<And>a. mmap_cache mm = Some a \<Longrightarrow> a \<in> set (mmap_list mm)" using assms by (auto simp: mm_ok_def)
  have "(case mmap_cache mm of Some v \<Rightarrow> if covers v x then Some v else ?r | None \<Rightarrow> ?r) = ?r"
    using a(2) find_loop_iff [OF a(1), of x, THEN iffD2] by (auto split: option.splits)
  then have f: "find_vma mm x = (case ?r of None \<Rightarrow> (None, mm) | Some v \<Rightarrow> (Some v, mm\<lparr>mmap_cache := Some v\<rparr>))"
    by (simp add: find_vma_def)
  show thesis
  proof (cases ?r)
    case None
    have "mm\<lparr>mmap_cache := mmap_cache mm\<rparr> = mm" by simp
    then show thesis using that [of "mmap_cache mm"] f None assms by simp
  next
    case (Some v)
    then have "mm_ok (mm\<lparr>mmap_cache := Some v\<rparr>)" using assms find_loop_Some by (auto simp: mm_ok_def)
    then show thesis using that f Some by simp
  qed
qed

subsection \<open>Inserting\<close>

lemma split_areas:
  assumes ok: "areas_ok as" and v: "vm_start v < vm_end v"
    and f: "front = takeWhile (\<lambda>p. \<not> vm_start p > vm_start v) as" and b: "rear = dropWhile (\<lambda>p. \<not> vm_start p > vm_start v) as"
  shows "(front = [] \<or> check_vma_overlap (last front) v) \<and> (rear = [] \<or> check_vma_overlap v (hd rear)) \<longleftrightarrow>
      (\<forall>a \<in> set as. \<not> overlaps a v)" (is "?L \<longleftrightarrow> ?R")
    and "\<forall>a \<in> set as. \<not> overlaps a v \<Longrightarrow> areas_ok (front @ v # rear)"
proof -
  have as: "as = front @ rear" using f b by simp
  have fr: "vm_start a \<le> vm_start v" if "a \<in> set front" for a using that f by (auto dest: set_takeWhileD)
  have fb: "areas_ok front" "areas_ok rear" "\<And>a b. a \<in> set front \<Longrightarrow> b \<in> set rear \<Longrightarrow> vm_end a \<le> vm_start b" using ok unfolding as by auto
  have bk: "vm_start v < vm_start a" if "a \<in> set rear" for a
  proof (cases rear)
    case (Cons h t)
    then have h: "vm_start v < vm_start h" using hd_dropWhile [of "\<lambda>p. \<not> vm_start p > vm_start v" as] b by (metis list.discI list.sel(1))
    show ?thesis
    proof (cases "a = h")
      case False
      then have "vm_end h \<le> vm_start a" "vm_start h < vm_end h" using that Cons fb(2) by auto
      then show ?thesis using h by simp
    qed (use h in simp)
  qed (use that in simp)
  have pos: "vm_start a < vm_end a" if "a \<in> set as" for a using ok that by (simp add: areas_ok_def)
  have nov: "\<not> overlaps a v \<longleftrightarrow> vm_end a \<le> vm_start v" if "a \<in> set front" for a
    using fr [OF that] v by (auto simp: overlaps_def)
  have nov': "\<not> overlaps a v \<longleftrightarrow> vm_end v \<le> vm_start a" if "a \<in> set rear" for a
    using bk [OF that] pos [of a] that as v by (auto simp: overlaps_def)
  have last: "(\<forall>a \<in> set front. vm_end a \<le> vm_start v) \<longleftrightarrow> front = [] \<or> vm_end (last front) \<le> vm_start v"
  proof (cases "front = []")
    case False
    then have "front = butlast front @ [last front]" by simp
    then have bl: "areas_ok (butlast front @ [last front])" "set front = insert (last front) (set (butlast front))"
      using fb(1) by (metis, metis Un_insert_right list.simps(15) set_append sup_bot.right_neutral empty_set)
    then have "vm_end a \<le> vm_start (last front)" "vm_start (last front) < vm_end (last front)" if "a \<in> set (butlast front)" for a using that by auto
    then show ?thesis using False bl(2) by fastforce
  qed simp
  have first: "(\<forall>a \<in> set rear. vm_end v \<le> vm_start a) \<longleftrightarrow> rear = [] \<or> vm_end v \<le> vm_start (hd rear)"
  proof (cases rear)
    case (Cons h t)
    have "vm_end v \<le> vm_start a" if "a \<in> set t" "vm_end v \<le> vm_start h" for a
    proof -
      have "vm_end h \<le> vm_start a" "vm_start h < vm_end h" using fb(2) that(1) Cons by auto
      then show ?thesis using that(2) by simp
    qed
    then show ?thesis using Cons by auto
  qed simp
  have R: "?R \<longleftrightarrow> (\<forall>a \<in> set front. vm_end a \<le> vm_start v) \<and> (\<forall>a \<in> set rear. vm_end v \<le> vm_start a)"
    unfolding as using nov nov' by auto
  have "front = [] \<or> check_vma_overlap (last front) v \<longleftrightarrow> front = [] \<or> vm_end (last front) \<le> vm_start v"
    using pos [of "last front"] v as by (auto simp: check_vma_overlap_def)
  moreover have "rear = [] \<or> check_vma_overlap v (hd rear) \<longleftrightarrow> rear = [] \<or> vm_end v \<le> vm_start (hd rear)"
    using pos [of "hd rear"] v as by (auto simp: check_vma_overlap_def)
  ultimately show "?L \<longleftrightarrow> ?R" using R last first by simp
  show "areas_ok (front @ v # rear)" if ?R using that fb v unfolding R by auto
qed

lemma insert_ok:
  assumes "mm_ok mm" "vm_start v < vm_end v"
  shows "if \<forall>a \<in> set (mmap_list mm). \<not> overlaps a v
    then \<exists>mm'. insert_vma_struct mm v = Some mm' \<and> mm_ok mm' \<and> set (mmap_list mm') = insert v (set (mmap_list mm)) \<and>
      mmap_cache mm' = mmap_cache mm \<and> mm_pgdir mm' = mm_pgdir mm \<and> mm_count mm' = mm_count mm \<and>
      length (mmap_list mm') = length (mmap_list mm) + 1
    else insert_vma_struct mm v = None"
proof -
  let ?P = "\<lambda>p. \<not> vm_start p > vm_start v"
  let ?f = "takeWhile ?P (mmap_list mm)" and ?b = "dropWhile ?P (mmap_list mm)"
  have ok: "areas_ok (mmap_list mm)" using assms(1) by (simp add: mm_ok_def)
  note S = split_areas [OF ok assms(2) refl refl]
  show ?thesis
  proof (cases "\<forall>a \<in> set (mmap_list mm). \<not> overlaps a v")
    case True
    have len: "length ?f + length ?b = length (mmap_list mm)" by (metis length_append takeWhile_dropWhile_id)
    have set: "set ?f \<union> set ?b = set (mmap_list mm)" by (metis set_append takeWhile_dropWhile_id)
    let ?m = "mm\<lparr>mmap_list := ?f @ v # ?b, map_count := map_count mm + 1\<rparr>"
    have "insert_vma_struct mm v = Some ?m" using S(1) True assms(2) by (simp add: insert_vma_struct_def Let_def)
    moreover have "mm_ok ?m" using S(2) [OF True] assms(1) len set by (auto simp: mm_ok_def simp del: areas_ok_append)
    moreover have "set (mmap_list ?m) = insert v (set (mmap_list mm))" using set by auto
    ultimately show ?thesis using True len by auto
  next
    case False
    then have "\<not> ((?f = [] \<or> check_vma_overlap (last ?f) v) \<and> (?b = [] \<or> check_vma_overlap v (hd ?b)))" using S(1) by blast
    then have "insert_vma_struct mm v = None"
      unfolding insert_vma_struct_def Let_def by (auto simp: c_assert_def)
    then show ?thesis using False by simp
  qed
qed

end
