(* ===== verification/Vmm_User.thy ===== *)
theory Vmm_User
  imports Vmm_Inv
begin

text \<open>
  The checks of user addresses return, and answer for a range what holds of each of its bytes;
  \<open>copy_string\<close> copies exactly the strings that end in time and lie in readable memory.
\<close>

definition byte_ok :: "vma list \<Rightarrow> bool \<Rightarrow> u64 \<Rightarrow> bool" where
  "byte_ok as write x \<longleftrightarrow> (\<exists>a \<in> set as. covers a x \<and> area_allows a x write)"

lemma area_allows_up: "area_allows v x w \<Longrightarrow> x \<le> y \<Longrightarrow> area_allows v y w"
  by (auto simp: area_allows_def word_le_nat_alt word_less_nat_alt)

subsection \<open>Returning\<close>

lemma check_loop_returns: "\<exists>r. check_loop mm s e w = Some r"
proof (induction "unat e - unat s" arbitrary: mm s rule: less_induct)
  case less
  show ?case
  proof (cases "s < e")
    case True
    obtain r mm1 where f: "find_vma mm s = (r, mm1)" by fastforce
    have "\<exists>q. check_loop mm1 (vm_end v) e w = Some q" if "r = Some v" for v
    proof -
      have "s < vm_end v" using find_vma_covers f that by (fastforce simp: covers_def)
      then have "unat e - unat (vm_end v) < unat e - unat s" using True by (simp add: word_less_nat_alt)
      then show ?thesis by (rule less)
    qed
    then show ?thesis using True f by (subst check_loop.simps) (auto split: option.splits)
  next
    case False
    then have "check_loop mm s e w = Some (True, mm)" by (subst check_loop.simps) simp
    then show ?thesis by blast
  qed
qed

lemma user_mem_check_returns: "\<exists>r. user_mem_check mmo addr len w = Some r"
proof (cases mmo)
  case (Some mm)
  obtain r mm1 where "check_loop mm addr (addr + len) w = Some (r, mm1)"
    using check_loop_returns [of mm addr "addr + len" w] by fastforce
  then show ?thesis using Some by (auto simp: user_mem_check_def)
qed (simp add: user_mem_check_def)

lemma empty_range: "user_mem_check mmo addr 0 w = Some (False, mmo)"
  by (cases mmo) (simp_all add: user_mem_check_def USER_ACCESS_def KERN_ACCESS_def)

lemma string_loop_returns: "\<exists>r. string_loop mmo dst src maxn part m = Some r"
proof (induction "unat maxn" arbitrary: mmo dst src maxn part m rule: less_induct)
  case less
  let ?p = "if part > maxn then maxn else part"
  from user_mem_check_returns obtain r mmo1 where c: "user_mem_check mmo src ?p False = Some (r, mmo1)" by fastforce
  have "\<exists>q. string_loop mmo1 (dst + ?p) (src + ?p) (maxn - ?p) PGSIZE (snd (memcpy (unat dst) (unat src) (unat ?p) m)) = Some q"
    if r: r and "?p \<noteq> maxn"
  proof (rule less)
    have "?p \<noteq> 0" using c r empty_range by force
    then have "0 < unat ?p" by (simp only: unat_gt_0 not_False_eq_True)
    moreover have "?p \<le> maxn" by auto
    moreover from this have "unat (maxn - ?p) = unat maxn - unat ?p" "unat ?p \<le> unat maxn"
      by (rule unat_sub, simp only: word_le_nat_alt)
    ultimately show "unat (maxn - ?p) < unat maxn" by linarith
  qed
  then show ?case using c by (subst string_loop.simps) (auto simp: Let_def)
qed

subsection \<open>Ranges and their bytes\<close>

lemma check_loop_ok:
  "mm_ok mm \<Longrightarrow> \<exists>c. check_loop mm s e w = Some (\<forall>x. s \<le> x \<and> x < e \<longrightarrow> byte_ok (mmap_list mm) w x, mm\<lparr>mmap_cache := c\<rparr>) \<and>
    mm_ok (mm\<lparr>mmap_cache := c\<rparr>)"
proof (induction "unat e - unat s" arbitrary: mm s rule: less_induct)
  case less
  let ?as = "mmap_list mm"
  have ok: "areas_ok ?as" using less.prems by (simp add: mm_ok_def)
  show ?case
  proof (cases "s < e")
    case False
    then have "\<forall>x. s \<le> x \<and> x < e \<longrightarrow> byte_ok ?as w x" by (auto simp: word_le_nat_alt word_less_nat_alt)
    moreover have "mm\<lparr>mmap_cache := mmap_cache mm\<rparr> = mm" by simp
    ultimately show ?thesis using False less.prems by (subst check_loop.simps) (auto intro!: exI [of _ "mmap_cache mm"])
  next
    case True
    from less.prems obtain c where c: "find_vma mm s = (find_loop ?as s, mm\<lparr>mmap_cache := c\<rparr>)" "mm_ok (mm\<lparr>mmap_cache := c\<rparr>)"
      by (rule find_vma_ok)
    show ?thesis
    proof (cases "\<exists>v. find_loop ?as s = Some v \<and> area_allows v s w")
      case False
      have "\<not> byte_ok ?as w s" using False find_loop_iff [OF ok] by (auto simp: byte_ok_def)
      then have "\<not> (\<forall>x. s \<le> x \<and> x < e \<longrightarrow> byte_ok ?as w x)" using True by auto
      then show ?thesis using True False c
        by (subst check_loop.simps) (auto split: option.splits intro!: exI [of _ c])
    next
      case t: True
      then obtain v where v: "find_loop ?as s = Some v" "area_allows v s w" by blast
      then have cv: "v \<in> set ?as" "covers v s" using find_loop_Some by auto
      have "s < vm_end v" using cv(2) by (simp add: covers_def)
      then have "unat e - unat (vm_end v) < unat e - unat s" using True by (simp add: word_less_nat_alt)
      from less.hyps [OF this c(2)] obtain d where
        d: "check_loop (mm\<lparr>mmap_cache := c\<rparr>) (vm_end v) e w =
            Some (\<forall>x. vm_end v \<le> x \<and> x < e \<longrightarrow> byte_ok ?as w x, mm\<lparr>mmap_cache := d\<rparr>)" "mm_ok (mm\<lparr>mmap_cache := d\<rparr>)" by auto
      have "byte_ok ?as w x" if "s \<le> x" "x < vm_end v" for x
      proof -
        have "covers v x" using that cv(2) by (auto simp: covers_def word_le_nat_alt word_less_nat_alt)
        then show ?thesis using cv(1) area_allows_up [OF v(2) that(1)] by (auto simp: byte_ok_def)
      qed
      moreover have "s \<le> x" if "vm_end v \<le> x" for x using that cv(2) by (auto simp: covers_def word_le_nat_alt word_less_nat_alt)
      ultimately have "(\<forall>x. s \<le> x \<and> x < e \<longrightarrow> byte_ok ?as w x) \<longleftrightarrow> (\<forall>x. vm_end v \<le> x \<and> x < e \<longrightarrow> byte_ok ?as w x)"
        by (meson not_le)
      moreover have "\<not> s < vm_start v" using cv(2) by (auto simp: covers_def)
      ultimately show ?thesis using True v c(1) d by (subst check_loop.simps) auto
    qed
  qed
qed

text \<open>The test of the bounds is not fooled by an address that wraps around.\<close>

lemma user_access_len:
  "USER_ACCESS addr (addr + len) \<longleftrightarrow> 0x200000 \<le> unat addr \<and> 0 < unat len \<and> unat addr + unat len \<le> 0x80000000"
proof (cases "unat addr + unat len < 2 ^ 64")
  case True
  then have "unat (addr + len) = unat addr + unat len" by (intro unat_add_small) simp
  then show ?thesis by (auto simp: USER_ACCESS_def USERBASE_def USERTOP_def word_le_nat_alt word_less_nat_alt)
next
  case False
  have l: "unat len < 2 ^ 64" "unat addr < 2 ^ 64" by (rule order_less_le_trans [OF unsigned_less], simp)+
  then have "(unat addr + unat len) mod 2 ^ 64 = unat addr + unat len - 2 ^ 64" using False by (simp add: mod_if)
  then have "unat (addr + len) < unat addr" using l False by (simp add: unat_word_ariths)
  then have "\<not> USER_ACCESS addr (addr + len)" by (simp add: USER_ACCESS_def word_less_nat_alt)
  then show ?thesis using False by simp
qed

lemma user_mem_check_ok:
  assumes "mm_ok mm"
  shows "\<exists>c. user_mem_check (Some mm) addr len w =
      Some (0x200000 \<le> unat addr \<and> 0 < unat len \<and> unat addr + unat len \<le> 0x80000000 \<and>
        (\<forall>i < unat len. byte_ok (mmap_list mm) w (addr + of_nat i)), Some (mm\<lparr>mmap_cache := c\<rparr>)) \<and>
      mm_ok (mm\<lparr>mmap_cache := c\<rparr>)"
proof (cases "USER_ACCESS addr (addr + len)")
  case False
  have "mm\<lparr>mmap_cache := mmap_cache mm\<rparr> = mm" by simp
  then show ?thesis using False assms by (intro exI [of _ "mmap_cache mm"]) (auto simp: user_mem_check_def user_access_len)
next
  case True
  then have b: "0x200000 \<le> unat addr \<and> 0 < unat len \<and> unat addr + unat len \<le> 0x80000000" by (simp add: user_access_len)
  then have e: "unat (addr + len) = unat addr + unat len" by (intro unat_add_small) simp
  have i: "unat (addr + of_nat i) = unat addr + i" if "i < unat len" for i
    using that b by (simp add: unat_word_ariths unat_of_nat)
  have "(\<forall>x. addr \<le> x \<and> x < addr + len \<longrightarrow> byte_ok (mmap_list mm) w x) \<longleftrightarrow>
      (\<forall>i < unat len. byte_ok (mmap_list mm) w (addr + of_nat i))"
  proof safe
    fix i assume "\<forall>x. addr \<le> x \<and> x < addr + len \<longrightarrow> byte_ok (mmap_list mm) w x" "i < unat len"
    then show "byte_ok (mmap_list mm) w (addr + of_nat i)" using i e by (simp add: word_le_nat_alt word_less_nat_alt)
  next
    fix x assume a: "\<forall>i < unat len. byte_ok (mmap_list mm) w (addr + of_nat i)" "addr \<le> x" "x < addr + len"
    then have "unat x - unat addr < unat len" using e by (simp add: word_le_nat_alt word_less_nat_alt)
    moreover have "addr + of_nat (unat x - unat addr) = x" using a(2) by (simp add: of_nat_diff word_le_nat_alt)
    ultimately show "byte_ok (mmap_list mm) w x" using a(1) by metis
  qed
  then show ?thesis using check_loop_ok [OF assms, of addr "addr + len" w] True b by (auto simp: user_mem_check_def)
qed
subsection \<open>Strings\<close>

definition nul_at :: "mem \<Rightarrow> nat \<Rightarrow> nat \<Rightarrow> bool" where
  "nul_at m a n \<longleftrightarrow> m (a + n) = 0 \<and> (\<forall>i < n. m (a + i) \<noteq> 0)"

lemma nul_at_unique: "nul_at m a n \<Longrightarrow> nul_at m a k \<Longrightarrow> n = k"
  unfolding nul_at_def by (metis linorder_neqE_nat)

lemma strnlen_cases: "strnlen m a n \<le> n \<and> (\<forall>i < strnlen m a n. m (a + i) \<noteq> 0) \<and> (strnlen m a n < n \<longrightarrow> m (a + strnlen m a n) = 0)"
proof -
  have "k \<le> n \<Longrightarrow> (\<forall>i < k. m (a + i) \<noteq> 0) \<Longrightarrow> s = a + k \<Longrightarrow>
      strnlen_loop m s n k \<le> n \<and> (\<forall>i < strnlen_loop m s n k. m (a + i) \<noteq> 0) \<and>
      (strnlen_loop m s n k < n \<longrightarrow> m (a + strnlen_loop m s n k) = 0)" for k s
  proof (induction "n - k" arbitrary: k s rule: less_induct)
    case less
    show ?case
    proof (cases "k < n \<and> m s \<noteq> 0")
      case True
      then have "n - (k + 1) < n - k" "k + 1 \<le> n" "\<forall>i < k + 1. m (a + i) \<noteq> 0" "s + 1 = a + (k + 1)"
        using less.prems by (auto simp: less_Suc_eq)
      from less.hyps [OF this] show ?thesis using True by (subst (1 2 3 4) strnlen_loop.simps) simp
    next
      case False
      then show ?thesis using less.prems by (subst (1 2 3 4) strnlen_loop.simps) auto
    qed
  qed
  from this [of 0 a] show ?thesis by (simp add: strnlen_def)
qed

lemma strnlen_iff: "strnlen m a n = k \<and> k < n \<longleftrightarrow> nul_at m a k \<and> k < n" "strnlen m a n = n \<Longrightarrow> i < n \<Longrightarrow> m (a + i) \<noteq> 0"
proof -
  note c = strnlen_cases [of m a n]
  show "i < n \<Longrightarrow> m (a + i) \<noteq> 0" if "strnlen m a n = n" using c that by simp
  have 1: "nul_at m a (strnlen m a n)" if "strnlen m a n < n" using c that by (simp add: nul_at_def)
  have 2: "strnlen m a n < n" if "nul_at m a k" "k < n"
  proof (rule ccontr)
    assume "\<not> strnlen m a n < n"
    then show False using c that by (auto simp: nul_at_def)
  qed
  show "strnlen m a n = k \<and> k < n \<longleftrightarrow> nul_at m a k \<and> k < n" using 1 2 nul_at_unique by blast
qed

lemma readable_page:
  assumes "space_ok mm" "byte_ok (mmap_list mm) False x" "unat y div 4096 = unat x div 4096"
  shows "byte_ok (mmap_list mm) False y" "0x200000 \<le> unat x \<and> unat x < 0x80000000"
proof -
  from assms(2) obtain a where a: "a \<in> set (mmap_list mm)" "covers a x" "area_allows a x False" by (auto simp: byte_ok_def)
  then have u: "vma_user a" using assms(1) by (simp add: space_ok_def)
  from u have "vm_start a mod PGSIZE = 0" "vm_end a mod PGSIZE = 0" "USER_ACCESS (vm_start a) (vm_end a)" by (simp_all add: vma_user_def)
  from user_range [OF this] obtain s e where se: "unat (vm_start a) = 4096 * s" "unat (vm_end a) = 4096 * e" by (auto simp: at_page_def)
  have x: "4096 * s \<le> unat x" "unat x < 4096 * e" using a(2) se by (simp_all add: covers_def word_le_nat_alt word_less_nat_alt)
  then have "s \<le> unat x div 4096" "unat x div 4096 < e" by (simp_all add: less_eq_div_iff_mult_less_eq div_less_iff_less_mult mult.commute)
  then have "4096 * s \<le> unat y" "unat y < 4096 * e"
    unfolding assms(3) [symmetric] by (simp_all add: less_eq_div_iff_mult_less_eq div_less_iff_less_mult mult.commute)
  then have "covers a y" using se by (simp add: covers_def word_le_nat_alt word_less_nat_alt)
  moreover have "area_allows a y False" using a(3) by (simp add: area_allows_def)
  ultimately show "byte_ok (mmap_list mm) False y" using a(1) by (auto simp: byte_ok_def)
  show "0x200000 \<le> unat x \<and> unat x < 0x80000000"
    using x u se by (simp add: vma_user_def USER_ACCESS_def USERBASE_def USERTOP_def word_le_nat_alt)
qed

lemma chunk_check:
  assumes "space_ok mm" "0 < unat part" "unat src mod 4096 + unat part \<le> 4096"
  obtains c where "user_mem_check (Some mm) src part False = Some (byte_ok (mmap_list mm) False src, Some (mm\<lparr>mmap_cache := c\<rparr>))"
    "space_ok (mm\<lparr>mmap_cache := c\<rparr>)"
    "\<And>i. byte_ok (mmap_list mm) False src \<Longrightarrow> i < unat part \<Longrightarrow> byte_ok (mmap_list mm) False (src + of_nat i)"
    "byte_ok (mmap_list mm) False src \<Longrightarrow> unat src + unat part \<le> 0x80000000"
proof -
  let ?ok = "byte_ok (mmap_list mm) False"
  have mm: "mm_ok mm" using assms(1) by (simp add: space_ok_def)
  from user_mem_check_ok [OF mm, of src part False] obtain c where c: "user_mem_check (Some mm) src part False =
      Some (0x200000 \<le> unat src \<and> 0 < unat part \<and> unat src + unat part \<le> 0x80000000 \<and>
        (\<forall>i < unat part. ?ok (src + of_nat i)), Some (mm\<lparr>mmap_cache := c\<rparr>))" "mm_ok (mm\<lparr>mmap_cache := c\<rparr>)" by blast
  have all: "?ok (src + of_nat i)" "unat src + unat part \<le> 0x80000000" "0x200000 \<le> unat src"
    if "?ok src" "i < unat part" for i
  proof -
    have b: "0x200000 \<le> unat src \<and> unat src < 0x80000000" using readable_page(2) [OF assms(1) that(1) refl] .
    then show "0x200000 \<le> unat src" by simp
    define q where "q = unat src div 4096"
    define r where "r = unat src mod 4096"
    have d: "unat src = q * 4096 + r" "r + unat part \<le> 4096" using assms(3) by (simp_all add: q_def r_def)
    have "q < 0x80000" using b by (simp add: q_def div_less_iff_less_mult)
    then show l: "unat src + unat part \<le> 0x80000000" using d by linarith
    have u: "unat (src + of_nat i) = unat src + i" using that(2) l by (simp add: unat_word_ariths unat_of_nat)
    have "q * 4096 \<le> unat src + i" using d(1) by simp
    moreover have "unat src + i < (q + 1) * 4096" using d that(2) by simp
    ultimately have "unat (src + of_nat i) div 4096 = unat src div 4096" unfolding u q_def [symmetric]
      by (intro div_nat_eqI) (simp_all add: mult.commute)
    then show "?ok (src + of_nat i)" by (rule readable_page(1) [OF assms(1) that(1)])
  qed
  have "(0x200000 \<le> unat src \<and> 0 < unat part \<and> unat src + unat part \<le> 0x80000000 \<and> (\<forall>i < unat part. ?ok (src + of_nat i))) \<longleftrightarrow> ?ok src"
  proof
    assume "0x200000 \<le> unat src \<and> 0 < unat part \<and> unat src + unat part \<le> 0x80000000 \<and> (\<forall>i < unat part. ?ok (src + of_nat i))"
    then have "?ok (src + of_nat 0)" using assms(2) by blast
    then show "?ok src" by simp
  qed (use all assms(2) in blast)
  then have "user_mem_check (Some mm) src part False = Some (?ok src, Some (mm\<lparr>mmap_cache := c\<rparr>))" using c(1) by simp
  moreover have "space_ok (mm\<lparr>mmap_cache := c\<rparr>)" using c(2) assms(1) by (simp add: space_ok_def)
  ultimately show thesis by (rule that) (use all assms(2) in blast)+
qed
text \<open>What \<open>copy_string\<close> decides, and what it writes.\<close>

definition string_readable :: "vma list \<Rightarrow> mem \<Rightarrow> u64 \<Rightarrow> nat \<Rightarrow> nat \<Rightarrow> bool" where
  "string_readable as m src maxn n \<longleftrightarrow> n < maxn \<and> nul_at m (unat src) n \<and> (\<forall>i \<le> n. byte_ok as False (src + of_nat i))"

definition string_copied :: "mem \<Rightarrow> nat \<Rightarrow> nat \<Rightarrow> nat \<Rightarrow> mem \<Rightarrow> bool" where
  "string_copied m dst src n m' \<longleftrightarrow> (\<forall>x. m' x = (if dst \<le> x \<and> x \<le> dst + n then m (src + (x - dst)) else m x))"

text \<open>A chunk without the end of the string may be skipped.\<close>

lemma skip_chunk:
  assumes "\<And>i. i < k \<Longrightarrow> m (unat src + i) \<noteq> 0" "\<And>i. i < k \<Longrightarrow> byte_ok as False (src + of_nat i)"
    and "unat (src + of_nat k) = unat src + k" "k \<le> maxn" "\<And>x. unat src + k \<le> x \<Longrightarrow> x < unat src + maxn \<Longrightarrow> m1 x = m x"
  shows "string_readable as m src maxn n \<longleftrightarrow> k \<le> n \<and> string_readable as m1 (src + of_nat k) (maxn - k) (n - k)"
proof (cases "k \<le> n \<and> n < maxn")
  case True
  have eq: "m1 (unat src + k + i) = m (unat src + k + i)" if "i \<le> n - k" for i
    by (rule assms(5)) (use that True in linarith)+
  have "nul_at m (unat src) n \<longleftrightarrow> nul_at m1 (unat src + k) (n - k)"
  proof
    assume a: "nul_at m (unat src) n"
    then have "m (unat src + k + i) \<noteq> 0" if "i < n - k" for i using that True by (simp add: nul_at_def add.assoc)
    then show "nul_at m1 (unat src + k) (n - k)" using a True eq eq [of "n - k"] by (simp add: nul_at_def)
  next
    assume a: "nul_at m1 (unat src + k) (n - k)"
    have "m (unat src + i) \<noteq> 0" if "i < n" for i
    proof (cases "i < k")
      case False
      then have "i - k < n - k" using that by simp
      then have "m1 (unat src + k + (i - k)) \<noteq> 0" using a unfolding nul_at_def by blast
      then show ?thesis using eq [of "i - k"] False that by simp
    qed (use assms(1) in simp)
    then show "nul_at m (unat src) n" using a True eq [of "n - k"] by (simp add: nul_at_def)
  qed
  moreover have "(\<forall>i \<le> n. byte_ok as False (src + of_nat i)) \<longleftrightarrow> (\<forall>i \<le> n - k. byte_ok as False (src + of_nat k + of_nat i))"
  proof safe
    fix i assume "\<forall>i \<le> n. byte_ok as False (src + of_nat i)" "i \<le> n - k"
    then have "byte_ok as False (src + of_nat (k + i))" using True by (metis Nat.le_diff_conv2 add.commute)
    then show "byte_ok as False (src + of_nat k + of_nat i)" by (simp add: add.assoc)
  next
    fix i assume a: "\<forall>i \<le> n - k. byte_ok as False (src + of_nat k + of_nat i)" "i \<le> n"
    show "byte_ok as False (src + of_nat i)"
    proof (cases "i < k")
      case False
      then have "of_nat i = (of_nat k + of_nat (i - k) :: u64)" by (simp flip: of_nat_add)
      moreover have "byte_ok as False (src + of_nat k + of_nat (i - k))" using a by simp
      ultimately show ?thesis by (simp only: add.assoc)
    qed (use assms(2) in simp)
  qed
  ultimately show ?thesis using True assms(3) by (auto simp: string_readable_def)
next
  case False
  then show ?thesis using assms(1,4) by (auto simp: string_readable_def nul_at_def)
qed

lemma string_loop_ok:
  assumes "space_ok mm" "unat src mod 4096 + unat part = 4096" "unat dst + unat maxn < 2 ^ 64"
    "unat dst + unat maxn \<le> unat src \<or> unat src + unat maxn \<le> unat dst"
  shows "\<exists>r c m'. string_loop (Some mm) dst src maxn part m = Some (r, Some (mm\<lparr>mmap_cache := c\<rparr>), m') \<and>
    (r \<longleftrightarrow> (\<exists>n. string_readable (mmap_list mm) m src (unat maxn) n)) \<and> space_ok (mm\<lparr>mmap_cache := c\<rparr>) \<and>
    (\<forall>n. string_readable (mmap_list mm) m src (unat maxn) n \<longrightarrow> string_copied m (unat dst) (unat src) n m') \<and>
    (\<forall>x. x < unat dst \<or> unat dst + unat maxn \<le> x \<longrightarrow> m' x = m x)"
  using assms
proof (induction "unat maxn" arbitrary: mm dst src maxn part m rule: less_induct)
  case less
  note sp = less.prems(1) and al = less.prems(2) and wr = less.prems(3) and sep = less.prems(4)
  define p where "p = (if part > maxn then maxn else part)"
  let ?R = "string_readable (mmap_list mm) m src (unat maxn)"
  have up: "unat p \<le> unat maxn" "unat p \<le> unat part" by (simp_all add: p_def word_less_nat_alt)
  have fin: ?case if "string_loop (Some mm) dst src maxn part m = Some (r, Some (mm\<lparr>mmap_cache := c\<rparr>), m')"
    "r \<longleftrightarrow> (\<exists>n. ?R n)" "space_ok (mm\<lparr>mmap_cache := c\<rparr>)" "\<And>n. ?R n \<Longrightarrow> string_copied m (unat dst) (unat src) n m'"
    "\<And>x. x < unat dst \<or> unat dst + unat maxn \<le> x \<Longrightarrow> m' x = m x" for r c m'
    using that by blast
  show ?case
  proof (cases "maxn = 0")
    case True
    then have "p = 0" using al by (auto simp: p_def word_less_nat_alt)
    moreover have "mm\<lparr>mmap_cache := mmap_cache mm\<rparr> = mm" by simp
    ultimately have s: "string_loop (Some mm) dst src maxn part m = Some (False, Some (mm\<lparr>mmap_cache := mmap_cache mm\<rparr>), m)"
      by (subst string_loop.simps) (simp add: p_def [symmetric] Let_def empty_range)
    have "\<not> ?R n" for n using True by (simp add: string_readable_def)
    then show ?thesis by (intro fin [OF s]) (use sp in simp_all)
  next
    case mx: False
    have pos: "0 < unat p" using mx al by (auto simp: p_def unat_gt_0)
    have fit: "unat src mod 4096 + unat p \<le> 4096" using up al by simp
    from sp pos fit obtain c where c: "user_mem_check (Some mm) src p False = Some (byte_ok (mmap_list mm) False src, Some (mm\<lparr>mmap_cache := c\<rparr>))"
      "space_ok (mm\<lparr>mmap_cache := c\<rparr>)" "\<And>i. byte_ok (mmap_list mm) False src \<Longrightarrow> i < unat p \<Longrightarrow> byte_ok (mmap_list mm) False (src + of_nat i)"
      "byte_ok (mmap_list mm) False src \<Longrightarrow> unat src + unat p \<le> 0x80000000"
      by (rule chunk_check) (rule that, assumption+)
    have step: "string_loop (Some mm) dst src maxn part m = (if \<not> byte_ok (mmap_list mm) False src then Some (False, Some (mm\<lparr>mmap_cache := c\<rparr>), m)
      else let alen = strnlen m (unat src) (unat p) in
        if alen < unat p then Some (True, Some (mm\<lparr>mmap_cache := c\<rparr>), snd (memcpy (unat dst) (unat src) (alen + 1) m))
        else if p = maxn then Some (False, Some (mm\<lparr>mmap_cache := c\<rparr>), m)
        else string_loop (Some (mm\<lparr>mmap_cache := c\<rparr>)) (dst + p) (src + p) (maxn - p) PGSIZE
               (snd (memcpy (unat dst) (unat src) (unat p) m)))"
      by (subst string_loop.simps) (simp only: Let_def p_def [symmetric] c(1) Option.bind.simps prod.case)
    show ?thesis
    proof (cases "byte_ok (mmap_list mm) False src")
      case False
      have s: "string_loop (Some mm) dst src maxn part m = Some (False, Some (mm\<lparr>mmap_cache := c\<rparr>), m)" using step False by simp
      have "\<not> ?R n" for n using False by (auto simp: string_readable_def dest: spec [of _ 0])
      then show ?thesis by (intro fin [OF s _ c(2)]) simp_all
    next
      case ok: True
      note rd = c(3) [OF ok]
      show ?thesis
      proof (cases "strnlen m (unat src) (unat p) < unat p")
        case True
        let ?n = "strnlen m (unat src) (unat p)"
        have nul: "nul_at m (unat src) ?n" using strnlen_iff(1) True by blast
        then have R: "?R ?n" using True up rd by (simp add: string_readable_def)
        have only: "n = ?n" if "?R n" for n
        proof -
          have "nul_at m (unat src) n" using that by (simp add: string_readable_def)
          then show ?thesis using nul nul_at_unique by blast
        qed
        have ap: "unat dst + (?n + 1) \<le> unat src \<or> unat src + (?n + 1) \<le> unat dst" using sep True up by linarith
        have s: "string_loop (Some mm) dst src maxn part m = Some (True, Some (mm\<lparr>mmap_cache := c\<rparr>), snd (memcpy (unat dst) (unat src) (?n + 1) m))"
          using step ok True by (simp only: Let_def if_True if_False not_True_eq_False)
        have cp: "string_copied m (unat dst) (unat src) ?n (snd (memcpy (unat dst) (unat src) (?n + 1) m))"
          using memcpy_at [OF ap] by (simp add: string_copied_def less_Suc_eq_le)
        have "snd (memcpy (unat dst) (unat src) (?n + 1) m) x = m x" if "x < unat dst \<or> unat dst + unat maxn \<le> x" for x
          using memcpy_at [OF ap, of m x] that True up by auto
        moreover have "string_copied m (unat dst) (unat src) n (snd (memcpy (unat dst) (unat src) (?n + 1) m))" if "?R n" for n
          using cp only [OF that] by simp
        moreover have "True \<longleftrightarrow> (\<exists>n. ?R n)" using R by blast
        ultimately show ?thesis by (intro fin [OF s _ c(2)])
      next
        case False
        then have full: "strnlen m (unat src) (unat p) = unat p" using strnlen_cases [of m "unat src" "unat p"] by simp
        note nn = strnlen_iff(2) [OF full]
        show ?thesis
        proof (cases "p = maxn")
          case True
          then have "\<not> ?R n" for n using nn by (auto simp: string_readable_def nul_at_def)
          moreover have s: "string_loop (Some mm) dst src maxn part m = Some (False, Some (mm\<lparr>mmap_cache := c\<rparr>), m)"
            using step ok False True by (simp only: Let_def if_True if_False not_True_eq_False simp_thms)
          ultimately show ?thesis by (intro fin [OF s _ c(2)]) simp_all
        next
          case pm: False
          let ?m1 = "snd (memcpy (unat dst) (unat src) (unat p) m)"
          have pp: "p = part" using pm by (auto simp: p_def)
          have ap: "unat dst + unat p \<le> unat src \<or> unat src + unat p \<le> unat dst" using sep up by linarith
          note m1 = memcpy_at [OF ap, of m]
          have us: "unat (src + p) = unat src + unat p" using c(4) [OF ok] by (intro unat_add_small) simp
          have ud: "unat (dst + p) = unat dst + unat p" using wr up by (intro unat_add_small) simp
          have um: "unat (maxn - p) = unat maxn - unat p" by (rule unat_sub) (auto simp: p_def)
          have h1: "unat (maxn - p) < unat maxn" using um pos up by simp
          have h2: "unat (src + p) mod 4096 + unat PGSIZE = 4096"
          proof -
            have "(unat src + unat p) mod 4096 = (unat src mod 4096 + unat p) mod 4096" by (simp add: mod_simps)
            then show ?thesis using al us pp by (simp add: PGSIZE_def)
          qed
          have h3: "unat (dst + p) + unat (maxn - p) < 2 ^ 64" using wr ud um up by simp
          have h4: "unat (dst + p) + unat (maxn - p) \<le> unat (src + p) \<or> unat (src + p) + unat (maxn - p) \<le> unat (dst + p)"
            unfolding ud um us using sep up by linarith
          have le: "unat dst + unat p + (unat maxn - unat p) = unat dst + unat maxn" using up(1) by simp
          from less.hyps [OF h1 c(2) h2 h3 h4, of ?m1, unfolded ud us um le] obtain r d m' where
            IH: "string_loop (Some (mm\<lparr>mmap_cache := c\<rparr>)) (dst + p) (src + p) (maxn - p) PGSIZE ?m1 = Some (r, Some (mm\<lparr>mmap_cache := d\<rparr>), m')"
              "r \<longleftrightarrow> (\<exists>n. string_readable (mmap_list mm) ?m1 (src + p) (unat maxn - unat p) n)"
              "space_ok (mm\<lparr>mmap_cache := d\<rparr>)"
              "\<forall>n. string_readable (mmap_list mm) ?m1 (src + p) (unat maxn - unat p) n \<longrightarrow>
                 string_copied ?m1 (unat dst + unat p) (unat src + unat p) n m'"
              "\<forall>x. x < unat dst + unat p \<or> unat dst + unat maxn \<le> x \<longrightarrow> m' x = ?m1 x" by auto
          have sk: "?R n \<longleftrightarrow> unat p \<le> n \<and> string_readable (mmap_list mm) ?m1 (src + p) (unat maxn - unat p) (n - unat p)" for n
            using skip_chunk [of "unat p" m src "mmap_list mm" "unat maxn" ?m1 n] nn rd us up m1 sep by auto
          have r: "r \<longleftrightarrow> (\<exists>n. ?R n)" unfolding IH(2) sk by (metis add_diff_cancel_left' le_add1)
          have cp: "string_copied m (unat dst) (unat src) n m'" if "?R n" for n
          proof -
            have n: "unat p \<le> n" "n < unat maxn" and q: "string_readable (mmap_list mm) ?m1 (src + p) (unat maxn - unat p) (n - unat p)"
              using that sk by (auto simp: string_readable_def)
            have "m' x = (if unat dst \<le> x \<and> x \<le> unat dst + n then m (unat src + (x - unat dst)) else m x)" for x
            proof -
              have s: "m' x = (if unat dst + unat p \<le> x \<and> x \<le> unat dst + n then ?m1 (unat src + unat p + (x - (unat dst + unat p))) else ?m1 x)"
                using IH(4) q n by (simp add: string_copied_def)
              show ?thesis
              proof (cases "unat dst + unat p \<le> x \<and> x \<le> unat dst + n")
                case True
                then have e: "unat src + unat p + (x - (unat dst + unat p)) = unat src + (x - unat dst)" by simp
                have "\<not> (unat dst \<le> unat src + (x - unat dst) \<and> unat src + (x - unat dst) < unat dst + unat p)"
                  using True sep n by linarith
                then have "?m1 (unat src + (x - unat dst)) = m (unat src + (x - unat dst))" unfolding m1 by (rule if_not_P)
                then show ?thesis using s True unfolding e by simp
              next
                case False
                then show ?thesis using s m1 [of x] n by auto
              qed
            qed
            then show ?thesis by (simp add: string_copied_def)
          qed
          have s: "string_loop (Some mm) dst src maxn part m = Some (r, Some (mm\<lparr>mmap_cache := d\<rparr>), m')"
            using step ok False pm IH(1) by (simp only: Let_def if_False not_True_eq_False simp_thms)
          have "m' x = m x" if "x < unat dst \<or> unat dst + unat maxn \<le> x" for x
            using IH(5) m1 [of x] that up by auto
          then show ?thesis using r cp by (intro fin [OF s _ IH(3)])
        qed
      qed
    qed
  qed
qed
lemma first_chunk: "unat src mod 4096 + unat (ROUNDDOWN (src + PGSIZE) PGSIZE - src) = 4096"
proof -
  define r where "r = src mod PGSIZE"
  have pg: "unat PGSIZE = 4096" by (simp add: PGSIZE_def)
  have ur: "unat r = unat src mod 4096" by (simp add: r_def unat_mod pg)
  have "(src + PGSIZE) mod PGSIZE = r"
  proof -
    have "unat (src + PGSIZE) mod 4096 = unat src mod 4096"
    proof -
      have "(4096 :: nat) dvd 2 ^ 64" by simp
      then have "(unat src + 4096) mod 2 ^ 64 mod 4096 = (unat src + 4096) mod 4096" by (rule mod_mod_cancel)
      then show ?thesis by (simp add: unat_word_ariths pg)
    qed
    then have "unat ((src + PGSIZE) mod PGSIZE) = unat r" by (simp only: unat_mod pg ur)
    then show ?thesis by (simp only: word_unat_eq_iff)
  qed
  then have "ROUNDDOWN (src + PGSIZE) PGSIZE - src = PGSIZE - r" by (simp add: ROUNDDOWN_def)
  moreover have "unat (PGSIZE - r) = 4096 - unat r"
    using unat_sub [of r PGSIZE] by (simp add: word_le_nat_alt pg ur)
  ultimately show ?thesis by (simp add: ur)
qed

lemma copy_string_ok:
  assumes "space_ok mm" "unat dst + unat maxn < 2 ^ 64" "unat dst + unat maxn \<le> unat src \<or> unat src + unat maxn \<le> unat dst"
  shows "\<exists>r c m'. copy_string (Some mm) dst src maxn m = Some (r, Some (mm\<lparr>mmap_cache := c\<rparr>), m') \<and>
    (r \<longleftrightarrow> (\<exists>n. string_readable (mmap_list mm) m src (unat maxn) n)) \<and> space_ok (mm\<lparr>mmap_cache := c\<rparr>) \<and>
    (\<forall>n. string_readable (mmap_list mm) m src (unat maxn) n \<longrightarrow> string_copied m (unat dst) (unat src) n m') \<and>
    (\<forall>x. x < unat dst \<or> unat dst + unat maxn \<le> x \<longrightarrow> m' x = m x)"
  using string_loop_ok [OF assms(1) first_chunk assms(2,3)] by (simp only: copy_string_def)

end
