(* ===== verification/Vmm_Space.thy ===== *)
theory Vmm_Space
  imports Vmm_User
begin

text \<open>
  Copying and taking down whole spaces: \<open>dup_mmap\<close> copies the areas and their pages, \<open>exit_mmap\<close> and
  \<open>put_pgdir\<close> unmap everything and give back frames, tables and the root.
\<close>

definition vma_pages :: "vma \<Rightarrow> nat set" where
  "vma_pages a = {unat (vm_start a) div 4096 ..< unat (vm_end a) div 4096}"

definition vma_tables :: "vma \<Rightarrow> nat set" where
  "vma_tables a = {unat (vm_start a) div 0x200000 ..< (unat (vm_end a) + 0x1FFFFF) div 0x200000}"

definition area_pages :: "vma list \<Rightarrow> nat set" where "area_pages as = (\<Union>a \<in> set as. vma_pages a)"
definition area_tables :: "vma list \<Rightarrow> nat set" where "area_tables as = (\<Union>a \<in> set as. vma_tables a)"

lemma area_simps [simp]:
  "area_pages [] = {}" "area_pages (a # as) = vma_pages a \<union> area_pages as"
  "area_tables [] = {}" "area_tables (a # as) = vma_tables a \<union> area_tables as"
  by (auto simp: area_pages_def area_tables_def)

lemma vma_userD:
  assumes "vma_user a"
  shows "vm_start a mod PGSIZE = 0" "vm_end a mod PGSIZE = 0" "USER_ACCESS (vm_start a) (vm_end a)"
    "vma_pages a \<subseteq> {..< USER_PAGES}" "vma_tables a \<subseteq> {..< 1024}"
proof -
  show u: "vm_start a mod PGSIZE = 0" "vm_end a mod PGSIZE = 0" "USER_ACCESS (vm_start a) (vm_end a)" using assms by (simp_all add: vma_user_def)
  have e: "unat (vm_end a) \<le> 0x80000000" using u(3) by (simp add: USER_ACCESS_def USERTOP_def word_le_nat_alt)
  have "unat (vm_end a) div 4096 \<le> 0x80000000 div 4096" using e by (rule div_le_mono)
  then show "vma_pages a \<subseteq> {..< USER_PAGES}" by (auto simp: vma_pages_def USER_PAGES_def)
  have "(unat (vm_end a) + 0x1FFFFF) div 0x200000 \<le> (0x80000000 + 0x1FFFFF) div 0x200000" by (rule div_le_mono) (use e in simp)
  then show "vma_tables a \<subseteq> {..< 1024}" by (auto simp: vma_tables_def)
qed

lemma vma_pages_disjoint: "vm_end a \<le> vm_start b \<Longrightarrow> vma_pages a \<inter> vma_pages b = {}"
proof -
  assume "vm_end a \<le> vm_start b"
  then have "unat (vm_end a) div 4096 \<le> unat (vm_start b) div 4096" by (intro div_le_mono) (simp add: word_le_nat_alt)
  then show ?thesis by (auto simp: vma_pages_def)
qed

subsection \<open>Copying\<close>

lemma insert_front:
  assumes "areas_ok (a # mmap_list mm)"
  shows "insert_vma_struct mm a = Some (mm\<lparr>mmap_list := a # mmap_list mm, map_count := map_count mm + 1\<rparr>)"
proof (cases "mmap_list mm")
  case (Cons b bs)
  have "vm_start a < vm_end a" "vm_end a \<le> vm_start b" "vm_start b < vm_end b" using assms Cons by auto
  moreover from this have "vm_start a < vm_start b" by (auto simp: word_le_nat_alt word_less_nat_alt)
  ultimately show ?thesis using Cons by (simp add: insert_vma_struct_def check_vma_overlap_def Let_def)
qed (use assms in \<open>simp add: insert_vma_struct_def\<close>)

lemma vma_id: "\<lparr>vm_start = vm_start a, vm_end = vm_end a, vm_flags = vm_flags a\<rparr> = a"
  by (cases a) simp

lemma dup_areas_ok:
  assumes "vm_inv v S" "topd \<in> S" "frompd \<in> S" "topd \<noteq> frompd" "areas_ok (rev as @ mmap_list to)" "\<forall>a \<in> set as. vma_user a"
    "os = replicate (length as) True @ os'" "\<forall>k \<in> area_pages as. pte v topd k = 0"
    "3 * card {k \<in> area_pages as. pte v frompd k \<noteq> 0} \<le> card (vfree v)"
  shows "\<exists>v'. dup_areas as topd frompd to os v =
      Some (0, to\<lparr>mmap_list := rev as @ mmap_list to, map_count := map_count to + int (length as)\<rparr>, os', v') \<and>
    vm_inv v' S \<and> copied S topd frompd (area_pages as) v v'"
  using assms
proof (induction as arbitrary: to os v)
  case Nil
  have "copied S topd frompd {} v v" using copied_nothing by fastforce
  then show ?case using Nil by simp
next
  case (Cons a as)
  let ?P = "vma_pages a" and ?Q = "area_pages as" and ?m = "\<lambda>k. pte v frompd k \<noteq> 0"
  let ?to = "to\<lparr>mmap_list := a # mmap_list to, map_count := map_count to + 1\<rparr>"
  have u: "vma_user a" using Cons.prems(6) by simp
  have PQ: "?P \<inter> ?Q = {}"
  proof -
    have "?P \<inter> vma_pages b = {}" if "b \<in> set as" for b
    proof -
      have "vm_end b \<le> vm_start a" using Cons.prems(5) that by auto
      then show ?thesis using vma_pages_disjoint by blast
    qed
    then show ?thesis by (auto simp: area_pages_def)
  qed
  have sub: "?P \<subseteq> {..< USER_PAGES}" "?Q \<subseteq> {..< USER_PAGES}"
    using vma_userD(4) Cons.prems(6) by (auto simp: area_pages_def)
  have fin: "finite ?P" "finite ?Q" using sub finite_subset by auto
  have "{k \<in> ?P \<union> ?Q. ?m k} = {k \<in> ?P. ?m k} \<union> {k \<in> ?Q. ?m k}" by auto
  then have cards: "card {k \<in> ?P \<union> ?Q. ?m k} = card {k \<in> ?P. ?m k} + card {k \<in> ?Q. ?m k}"
    using PQ fin by (simp add: card_Un_disjoint disjoint_iff)
  have room: "3 * card {k \<in> ?P. ?m k} + 3 * card {k \<in> ?Q. ?m k} \<le> card (vfree v)" using Cons.prems(9) cards by simp
  have z: "\<forall>k \<in> {unat (vm_start a) div 4096 ..< unat (vm_end a) div 4096}. pte v topd k = 0"
    using Cons.prems(8) by (simp add: vma_pages_def)
  have "3 * card {k \<in> {unat (vm_start a) div 4096 ..< unat (vm_end a) div 4096}. ?m k} \<le> card (vfree v)"
    using room by (simp add: vma_pages_def)
  from copy_range_ok [OF Cons.prems(1-4) vma_userD(1-3) [OF u] z this, folded vma_pages_def] obtain v1 where
    v1: "copy_range topd frompd (vm_start a) (vm_end a) v = Some (0, v1)" "vm_inv v1 S" "copied S topd frompd ?P v v1" by blast
  have keep: "pte v1 frompd k = pte v frompd k" if "k < USER_PAGES" for k
    using v1(3) that Cons.prems(3,4) by (simp add: copied_def)
  have z1: "\<forall>k \<in> ?Q. pte v1 topd k = 0"
  proof
    fix k assume k: "k \<in> ?Q"
    then have "k \<notin> ?P" "k < USER_PAGES" using PQ sub by auto
    then have "pte v1 topd k = pte v topd k" using v1(3) Cons.prems(2) by (simp add: copied_def)
    then show "pte v1 topd k = 0" using Cons.prems(8) k by simp
  qed
  have "{k \<in> ?Q. pte v1 frompd k \<noteq> 0} = {k \<in> ?Q. ?m k}" using keep sub(2) by auto
  moreover have "card (vfree v) \<le> card (vfree v1) + 3 * card {k \<in> ?P. ?m k}" using v1(3) by (simp add: copied_def)
  ultimately have room1: "3 * card {k \<in> ?Q. pte v1 frompd k \<noteq> 0} \<le> card (vfree v1)" using room by simp
  have ok: "areas_ok (rev as @ mmap_list ?to)" "areas_ok (a # mmap_list to)" using Cons.prems(5) by simp_all
  from Cons.IH [OF v1(2) Cons.prems(2-4) ok(1) _ refl z1 room1] Cons.prems(6) obtain v' where
    v': "dup_areas as topd frompd ?to (replicate (length as) True @ os') v1 =
        Some (0, ?to\<lparr>mmap_list := rev as @ mmap_list ?to, map_count := map_count ?to + int (length as)\<rparr>, os', v')"
      "vm_inv v' S" "copied S topd frompd ?Q v1 v'" by auto
  have "copied S topd frompd (?P \<union> ?Q) v v'"
    using copied_trans [OF Cons.prems(1) v1(2) Cons.prems(2,3) _ v1(3) v'(3) PQ sub] Cons.prems(4) by simp
  moreover have "dup_areas (a # as) topd frompd to os v = dup_areas as topd frompd ?to (replicate (length as) True @ os') v1"
    using Cons.prems(7) v1(1) insert_front [OF ok(2)] by (simp add: vma_create_def kmalloc_def vma_id)
  ultimately show ?case using v' by (simp add: ac_simps)
qed

subsection \<open>Taking down\<close>

lemma unmap_areas_ok:
  assumes "vm_inv v S" "topped v" "pd \<in> S" "\<forall>a \<in> set as. vma_user a"
  shows "\<exists>v'. unmap_areas as pd v = Some v' \<and> vm_inv v' S \<and> topped v' \<and> cleared S pd (area_pages as) v v'"
  using assms
proof (induction as arbitrary: v)
  case Nil
  have "cleared S pd {} v v" by (rule cleared_nothing) simp
  then show ?case using Nil by simp
next
  case (Cons a as)
  then have u: "vma_user a" by simp
  from unmap_range_ok [OF Cons.prems(1,3,2) vma_userD(1-3) [OF u], folded vma_pages_def] obtain v1 where
    v1: "unmap_range pd (vm_start a) (vm_end a) v = Some v1" "vm_inv v1 S" "topped v1" "cleared S pd (vma_pages a) v v1" by blast
  from Cons.IH [OF v1(2,3) Cons.prems(3)] Cons.prems(4) obtain v' where
    "unmap_areas as pd v1 = Some v'" "vm_inv v' S" "topped v'" "cleared S pd (area_pages as) v1 v'" by auto
  then show ?case using v1 cleared_trans [OF v1(4)] by auto
qed

lemma exit_areas_ok:
  assumes "vm_inv v S" "topped v" "pd \<in> S" "emptied v pd" "\<forall>a \<in> set as. vma_user a"
  shows "\<exists>v' A F. exit_areas as pd v = Some v' \<and> vm_inv v' S \<and> topped v' \<and> trimmed S A F v v' \<and> Low pd ` area_tables as \<subseteq> A"
  using assms
proof (induction as arbitrary: v)
  case Nil
  have "trimmed S {} {} v v" by (rule trimmed_refl) simp
  then show ?case using Nil by auto
next
  case (Cons a as)
  then have u: "vma_user a" by simp
  let ?a = "unat (vm_start a) div 0x200000" and ?b = "(unat (vm_end a) + 0x1FFFFF) div 0x200000"
  from exit_range_ok [OF Cons.prems(1-4) vma_userD(1-3) [OF u]] obtain v1 where
    v1: "exit_range pd (vm_start a) (vm_end a) v = Some v1" "vm_inv v1 S" "topped v1" "trimmed S (gone v pd ?a ?b) (given v pd ?a ?b) v v1" by blast
  from Cons.IH [OF v1(2,3) Cons.prems(3) emptied_trimmed [OF v1(4) Cons.prems(3,4)]] Cons.prems(5) obtain v' A F where
    v': "exit_areas as pd v1 = Some v'" "vm_inv v' S" "topped v'" "trimmed S A F v1 v'" "Low pd ` area_tables as \<subseteq> A" by auto
  have "Low pd ` vma_tables a \<subseteq> gone v pd ?a ?b" by (auto simp: gone_def vma_tables_def)
  then have "Low pd ` area_tables (a # as) \<subseteq> gone v pd ?a ?b \<union> A" using v'(5) by auto
  then show ?case using v1(1) v'(1-3) trimmed_trans [OF v1(4) v'(4)] by auto
qed

lemma trimmed_maps: "trimmed S A F v v' \<Longrightarrow> maps v' S f = maps v S f"
  using entry_frame_npage [of v' v] by (auto simp: trimmed_def maps_def)

lemma exit_mmap_ok:
  assumes i: "vm_inv v S" and t: "topped v" and pd: "pd \<in> S" "mm_pgdir mm = Some pd" and c: "mm_count mm = 0"
    and sp: "space_ok mm" and all: "\<And>k. k < USER_PAGES \<Longrightarrow> pte v pd k \<noteq> 0 \<Longrightarrow> k \<in> area_pages (mmap_list mm)"
  shows "\<exists>v'. exit_mmap mm v = Some v' \<and> vm_inv v' S \<and> topped v' \<and> emptied v' pd \<and>
    (\<forall>pd' \<in> S. pd' \<noteq> pd \<longrightarrow> (\<forall>k < USER_PAGES. pte v' pd' k = pte v pd' k)) \<and>
    {f. maps v S f \<noteq> {} \<and> maps v' S f = {}} \<subseteq> vfree v' \<and> npage v' = npage v \<and> (\<forall>j \<in> area_tables (mmap_list mm). low v' pd j = None)"
proof -
  let ?as = "mmap_list mm"
  have u: "\<forall>a \<in> set ?as. vma_user a" using sp by (simp add: space_ok_def)
  from unmap_areas_ok [OF i t pd(1) u] obtain v1 where
    v1: "unmap_areas ?as pd v = Some v1" "vm_inv v1 S" "topped v1" "cleared S pd (area_pages ?as) v v1" by blast
  have P1: "pte v1 pd' k = (if pd' = pd \<and> k \<in> area_pages ?as then 0 else pte v pd' k)" if "pd' \<in> S" "k < USER_PAGES" for pd' k
    using v1(4) that by (simp add: cleared_def)
  have e1: "emptied v1 pd" unfolding emptied_def using P1 [OF pd(1)] all by auto
  from exit_areas_ok [OF v1(2,3) pd(1) e1 u] obtain v' A F where
    v': "exit_areas ?as pd v1 = Some v'" "vm_inv v' S" "topped v'" "trimmed S A F v1 v'" "Low pd ` area_tables ?as \<subseteq> A" by blast
  have "exit_mmap mm v = Some v'" using v1(1) v'(1) pd(2) c by (simp add: exit_mmap_def)
  moreover have "\<forall>pd' \<in> S. pd' \<noteq> pd \<longrightarrow> (\<forall>k < USER_PAGES. pte v' pd' k = pte v pd' k)"
    using v'(4) P1 by (simp add: trimmed_def)
  moreover have "{f. maps v S f \<noteq> {} \<and> maps v' S f = {}} \<subseteq> vfree v'"
    using v1(4) v'(4) trimmed_maps [OF v'(4)] by (auto simp: cleared_def trimmed_def)
  moreover have "npage v' = npage v" using v1(4) v'(4) by (simp add: cleared_def trimmed_def)
  moreover have "low v' pd j = None" if j: "j \<in> area_tables ?as" for j
  proof -
    have "j < 1024" using j u vma_userD(5) by (auto simp: area_tables_def)
    moreover have "Low pd j \<in> A" using v'(5) j by blast
    ultimately show ?thesis using v'(4) pd(1) by (auto simp: trimmed_def dest: bspec [of _ _ "Low pd j"])
  qed
  ultimately show ?thesis using v'(2,3) emptied_trimmed [OF v'(4) pd(1) e1] by blast
qed

lemma remove_space:
  assumes i: "vm_inv v S" and pd: "pd \<in> S" and z: "emptied v pd"
  shows "vm_inv v (S - {pd})" "owned v pd" "pd \<notin> tables v (S - {pd})" "maps v (S - {pd}) = maps v S"
proof -
  note T = vm_invD(3) [OF i]
  have sub: "s \<in> slots (S - {pd}) \<Longrightarrow> s \<in> slots S" for s by (auto simp: slots_def split: slot.splits)
  have keep: "child s k \<in> slots S \<Longrightarrow> s \<in> slots (S - {pd}) \<Longrightarrow> child s k \<in> slots (S - {pd})" for s k by (cases s) auto
  have tabs: "tables v (S - {pd}) \<subseteq> tables v S" using sub by (auto simp: tables_def)
  have root: "Root pd \<in> slots S" "tab v (Root pd) = Some pd" using pd by simp_all
  show "owned v pd" using tree_okD(1) [OF T root] .
  show "pd \<notin> tables v (S - {pd})"
  proof
    assume "pd \<in> tables v (S - {pd})"
    then obtain s where s: "s \<in> slots (S - {pd})" "tab v s = Some pd" by (auto simp: tables_def)
    have "s = Root pd" using tree_okD(2) [OF T root sub [OF s(1)] s(2)] .
    then show False using s(1) by simp
  qed
  show m: "maps v (S - {pd}) = maps v S"
    using z by (auto simp: maps_def fun_eq_iff emptied_def)
  have "tree_ok v (S - {pd})" unfolding tree_ok_def
  proof (intro conjI ballI allI impI)
    fix s t assume "s \<in> slots (S - {pd})" "tab v s = Some t"
    then show "owned v t" using tree_okD(1) [OF T sub] by blast
  next
    fix s s' assume a: "s \<in> slots (S - {pd})" "s' \<in> slots (S - {pd})" "tab v s = tab v s'" "tab v s \<noteq> None"
    then obtain t where "tab v s = Some t" "tab v s' = Some t" by auto
    then show "s = s'" using tree_okD(2) [OF T sub [OF a(2)] _ sub [OF a(1)]] by blast
  next
    fix s t k assume a: "s \<in> slots (S - {pd})" "\<not> is_low s" "tab v s = Some t" "k < 512" "child s k \<in> slots (S - {pd})" "valid (ram v t k)"
    from tree_okD(3,4) [OF T sub [OF a(1)] a(3,2,4) sub [OF a(5)] a(6)] show "tab v (child s k) \<noteq> None" "pointer (ram v t k)" by auto
  qed
  moreover have "leaf_ok v (S - {pd})" using vm_invD(4) [OF i] tabs unfolding leaf_ok_def m by blast
  ultimately show "vm_inv v (S - {pd})" using vm_invD(1,2) [OF i] by (simp add: vm_inv_def)
qed

lemma put_pgdir_ok:
  assumes i: "vm_inv v S" and t: "topped v" and pd: "pd \<in> S" and z: "emptied v pd"
  shows "\<exists>v'. put_pgdir pd v = Some v' \<and> vm_inv v' (S - {pd}) \<and> topped v' \<and> vfree v' = insert pd (vfree v) \<and>
    (\<forall>pd' \<in> S - {pd}. \<forall>k < USER_PAGES. pte v' pd' k = pte v pd' k)"
proof -
  note r = remove_space [OF i pd z]
  from free_topped [OF i t r(2)] obtain f where f: "free_pages pd 1 v = Some (v\<lparr>frames := f\<rparr>)" "pool_ok (v\<lparr>frames := f\<rparr>)"
    "vfree (v\<lparr>frames := f\<rparr>) = insert pd (vfree v)" "\<And>g. g \<noteq> pd \<Longrightarrow> page_ref g (v\<lparr>frames := f\<rparr>) = page_ref g v"
    "frame_reserved f = frame_reserved (frames v)" by blast
  let ?v = "v\<lparr>frames := f\<rparr>"
  have unm: "maps v (S - {pd}) pd = {}"
  proof -
    have "pd \<in> tables v S" using tables_slot [of "Root pd" S v pd] pd by simp
    then show ?thesis unfolding r(4) using leaf_frame [OF i] by (fastforce simp: maps_def)
  qed
  have own: "owned ?v p \<longleftrightarrow> owned v p \<and> p \<noteq> pd" for p using f(3,5) by (auto simp: owned_def limit_def)
  have "vm_inv ?v (S - {pd})"
  proof (rule vm_inv_cong [OF r(1) _ _ f(2)])
    fix p assume "owned v p" "p \<in> tables v (S - {pd}) \<or> maps v (S - {pd}) p \<noteq> {}"
    then show "owned ?v p" using own r(3) unm by auto
  next
    fix p assume "maps v (S - {pd}) p \<noteq> {}"
    then have "p \<noteq> pd" using unm by auto
    then show "page_ref p ?v = page_ref p v" by (rule f(4))
  qed simp_all
  moreover have "topped ?v" using t own f(3) unfolding topped_def by auto
  moreover have "pte ?v pd' k = pte v pd' k" for pd' k by (simp add: pte_def low_def mid_def entry_frame_npage [of ?v v] split: option.splits)
  ultimately show ?thesis using f(1,3) by (simp add: put_pgdir_def)
qed

end
