(* ===== verification/Sv39.thy ===== *)
theory Sv39
  imports Paging_Ops
begin

text \<open>
  The address translation of the machine.  mmu.h lays out the entries and addresses of the Sv39 format of
  RISC-V; this theory writes its walk down on plain numbers, with none of the kernel's macros: a table is a
  frame of 512 words of 64 bits at a physical address, bit 0 of an entry says that it is valid, bits 1 to 3
  (R, W, X) are 0 in an entry that points to the next table and R or X in a leaf, the frame number is at bit
  10, and leaves at the upper levels map 1 gigabyte or 2 megabytes.  It then shows that the walk of
  \<^verbatim>\<open>get_pte\<close>, which tests the valid bit only, agrees with it.  The walk gives the translation; which
  accesses the flags of the leaf allow (and A and D) is left out, and so is the rule that software keeps
  the bits A, D and U of an entry for a table clear (\<^verbatim>\<open>get_pte\<close> sets U there).
\<close>

subsection \<open>The walk of the machine\<close>

definition phys_word :: "vmem \<Rightarrow> nat \<Rightarrow> nat option" where
  "phys_word v a = (if 0x80000000 \<le> a \<and> a < npage v * 4096
     then Some (unat (ram v (a div 4096 - 0x80000) (a mod 4096 div 8))) else None)"

definition flag :: "nat \<Rightarrow> nat \<Rightarrow> bool" where
  "flag e k \<longleftrightarrow> odd (e div 2 ^ k)"

fun sv39_walk :: "vmem \<Rightarrow> nat \<Rightarrow> nat \<Rightarrow> nat \<Rightarrow> nat option" where
  "sv39_walk v 0 ppn va = None"
| "sv39_walk v (Suc l) ppn va = (case phys_word v (ppn * 4096 + 8 * (va div 2 ^ (12 + 9 * l) mod 512)) of
     None \<Rightarrow> None
   | Some e \<Rightarrow>
       if \<not> flag e 0 \<or> flag e 2 \<and> \<not> flag e 1 \<or> 2 ^ 54 \<le> e then None
       else if flag e 1 \<or> flag e 3 then
         (if e div 2 ^ 10 mod 2 ^ (9 * l) = 0 then Some (e div 2 ^ 10 * 4096 + va mod 2 ^ (12 + 9 * l)) else None)
       else sv39_walk v l (e div 2 ^ 10) va)"

definition sv39 :: "vmem \<Rightarrow> nat \<Rightarrow> nat \<Rightarrow> nat option" where
  "sv39 v root va = (if va < 2 ^ 38 \<or> 2 ^ 64 - 2 ^ 38 \<le> va then sv39_walk v 3 root va else None)"

text \<open>The entries a last-level table may hold for a mapped page.\<close>

definition sv39_leaf :: "nat \<Rightarrow> bool" where
  "sv39_leaf e \<longleftrightarrow> (flag e 1 \<or> flag e 3) \<and> (flag e 2 \<longrightarrow> flag e 1) \<and> e < 2 ^ 54"

subsection \<open>Entries as numbers\<close>

lemma flag_bit: "flag (unat w) k \<longleftrightarrow> bit w k" for w :: u64
proof -
  have "bit (unat w) k \<longleftrightarrow> bit w k" by (auto simp: bit_simps dest: bit_imp_le_length)
  then show ?thesis by (simp add: flag_def bit_iff_odd)
qed

lemma valid_flag: "valid e \<longleftrightarrow> flag (unat e) 0"
  by (simp add: valid_def PTE_V_def flag_bit and_one_eq bit_0 odd_iff_mod_2_eq_one)

lemma top_bits: "unat e < 2 ^ 54 \<longleftrightarrow> drop_bit 54 e = 0" for e :: u64
proof -
  have "drop_bit 54 e = 0 \<longleftrightarrow> unat e div 2 ^ 54 = 0" by (metis unat_drop_bit unat_eq_0)
  then show ?thesis by (simp add: div_eq_0_iff)
qed

lemma pointer_flags:
  assumes "pointer e"
  shows "\<not> flag (unat e) 1" "\<not> flag (unat e) 2" "\<not> flag (unat e) 3" "unat e < 2 ^ 54"
proof -
  have "\<not> bit (e AND 0xE) k" for k using assms by (simp add: pointer_def)
  from this [of 1] this [of 2] this [of 3] show "\<not> flag (unat e) 1" "\<not> flag (unat e) 2" "\<not> flag (unat e) 3"
    by (simp_all add: flag_bit bit_simps)
  show "unat e < 2 ^ 54" using assms unfolding top_bits pointer_def by simp
qed

text \<open>An entry for a readable page is a leaf.\<close>

lemma readable_leaf:
  assumes "p \<in> limit v" "npage v \<le> 2 ^ 44" "(PTE_V OR perm) AND NOT 0x3FF = 0" "bit perm 1"
  shows "sv39_leaf (unat (pte_create (page2ppn nbase p) (PTE_V OR perm)))"
proof -
  have "flag (unat (pte_create (page2ppn nbase p) (PTE_V OR perm))) 1" using assms(4) by (simp add: flag_bit pte_create_def bit_simps)
  moreover have "unat (pte_create (page2ppn nbase p) (PTE_V OR perm)) < 2 ^ 54" using entry_top [OF assms(1-3)] unfolding top_bits .
  ultimately show ?thesis unfolding sv39_leaf_def by blast
qed

text \<open>The kernel's reading of the frame number is the field of the entry.\<close>

lemma entry_frame_number:
  assumes "entry_frame v e = Some f" "unat e < 2 ^ 54"
  shows "unat e div 2 ^ 10 = f + 0x80000" "f + 0x80000 < npage v" "valid e"
proof -
  let ?n = "drop_bit 12 (PTE_ADDR e)"
  have z: "\<not> bit e i" if "54 \<le> i" for i
  proof -
    have "\<not> bit (drop_bit 54 e) (i - 54)" using assms(2) unfolding top_bits by simp
    then show ?thesis using that by (simp add: bit_simps)
  qed
  have n: "?n = drop_bit 10 e"
  proof (rule bit_word_eqI)
    fix i assume "i < LENGTH(64)"
    show "bit ?n i \<longleftrightarrow> bit (drop_bit 10 e) i"
      using z [of "10 + i"] by (cases "44 \<le> i") (auto simp: PTE_ADDR_def low_mask bit_simps)
  qed
  from assms(1) have p: "valid e" "unat ?n < npage v" "nbase \<le> ?n" "f = unat (?n - nbase)"
    by (auto simp: entry_frame_def pa2page_def Let_def split: if_splits)
  then have "f + 0x80000 = unat ?n" by (simp add: unat_sub word_le_nat_alt nbase_def)
  then show "unat e div 2 ^ 10 = f + 0x80000" "f + 0x80000 < npage v" "valid e"
    using p(1,2) unfolding n by (simp_all add: unat_drop_bit)
qed

lemma phys_word_table:
  assumes "t \<in> limit v" "i < 512"
  shows "phys_word v ((t + 0x80000) * 4096 + 8 * i) = Some (unat (ram v t i))"
proof -
  have d: "((t + 0x80000) * 4096 + 8 * i) div 4096 = t + 0x80000" "((t + 0x80000) * 4096 + 8 * i) mod 4096 = 8 * i"
    using assms(2) by (simp_all only: div_mult_self3 mod_mult_self3) simp_all
  have "(t + 0x80000 + 1) * 4096 \<le> npage v * 4096" using assms(1) by (intro mult_right_mono) (auto simp: limit_def)
  then have "(t + 0x80000) * 4096 + 8 * i < npage v * 4096" using assms(2) by simp
  then show ?thesis unfolding phys_word_def d by simp
qed

subsection \<open>The two walks\<close>

lemma walk_step:
  assumes i: "vm_inv v S" and s: "s \<in> slots S" "\<not> is_low s" "tab v s = Some t" "k < 512" "child s k \<in> slots S"
    and va: "va div 2 ^ (12 + 9 * l) mod 512 = k"
  shows "sv39_walk v (Suc l) (t + 0x80000) va = (case tab v (child s k) of None \<Rightarrow> None | Some u \<Rightarrow> sv39_walk v l (u + 0x80000) va)"
proof -
  note T = vm_invD(3) [OF i]
  have "t \<in> limit v" using tree_okD(1) [OF T s(1,3)] by (simp add: owned_def)
  note w = phys_word_table [OF this s(4)] and c = tab_child [OF s(3,2,4)]
  show ?thesis
  proof (cases "valid (ram v t k)")
    case False
    then show ?thesis using w c va by (simp add: valid_flag entry_frame_def)
  next
    case True
    from tree_okD(3,4) [OF T s(1,3,2,4,5) True] obtain u where u: "tab v (child s k) = Some u" "pointer (ram v t k)" by blast
    note f = pointer_flags [OF u(2)]
    have "unat (ram v t k) div 2 ^ 10 = u + 0x80000" using entry_frame_number(1) [OF _ f(4)] c u(1) by simp
    then show ?thesis using w va f True u(1) by (simp add: valid_flag)
  qed
qed

lemma walk_leaf:
  assumes "t \<in> limit v" and "va div 4096 mod 512 = k" and "ram v t k = 0 \<or> entry_frame v (ram v t k) = Some f"
  shows "sv39_walk v (Suc 0) (t + 0x80000) va =
    (if valid (ram v t k) \<and> sv39_leaf (unat (ram v t k)) then Some ((f + 0x80000) * 4096 + va mod 4096) else None)"
proof -
  have k: "k < 512" using assms(2) by auto
  note w = phys_word_table [OF assms(1) k]
  show ?thesis
  proof (cases "valid (ram v t k) \<and> sv39_leaf (unat (ram v t k))")
    case True
    then have "ram v t k \<noteq> 0" by (auto simp: valid_def)
    then have "unat (ram v t k) div 2 ^ 10 = f + 0x80000" using entry_frame_number(1) [of v "ram v t k" f] assms(3) True by (simp add: sv39_leaf_def)
    then show ?thesis using w assms(2) True by (auto simp: valid_flag sv39_leaf_def)
  qed (use w assms(2) in \<open>auto simp: valid_flag sv39_leaf_def\<close>)
qed

text \<open>The walk of the machine finds the frame of the entry \<open>pte\<close>, if that is a leaf.\<close>

lemma sv39_pte:
  assumes i: "vm_inv v S" and pd: "pd \<in> S" and va: "va < 2 ^ 31"
  shows "sv39 v (pd + 0x80000) va = (case entry_frame v (pte v pd (va div 4096)) of None \<Rightarrow> None
    | Some f \<Rightarrow> if sv39_leaf (unat (pte v pd (va div 4096))) then Some ((f + 0x80000) * 4096 + va mod 4096) else None)"
proof -
  let ?k = "va div 4096"
  let ?j = "?k div 512"
  have k: "?k < USER_PAGES" using va by (simp add: USER_PAGES_def less_mult_imp_div_less)
  have j: "?j < 1024" "?j div 512 < 2" using page_index k by simp_all
  have d: "va div 2 ^ (12 + 9 * 2) mod 512 = ?j div 512" "va div 2 ^ (12 + 9 * 1) mod 512 = ?j mod 512" "?k mod 512 = ?k mod 512"
    using j(2) by (simp_all add: div_mult2_eq [symmetric])
  have R: "Root pd \<in> slots S" "\<not> is_low (Root pd)" "tab v (Root pd) = Some pd" "?j div 512 < 512" "child (Root pd) (?j div 512) \<in> slots S"
    using pd j by simp_all
  have e: "sv39 v (pd + 0x80000) va = sv39_walk v (Suc 2) (pd + 0x80000) va" using va by (simp add: sv39_def numeral_3_eq_3)
  note top = walk_step [OF i R d(1), unfolded child.simps tab.simps]
  show ?thesis
  proof (cases "mid v pd (?j div 512)")
    case None
    then show ?thesis unfolding e top by (simp add: pte_def low_def)
  next
    case (Some t)
    have M: "Mid pd (?j div 512) \<in> slots S" "\<not> is_low (Mid pd (?j div 512))" "tab v (Mid pd (?j div 512)) = Some t" "?j mod 512 < 512"
      "child (Mid pd (?j div 512)) (?j mod 512) \<in> slots S" using pd j Some by simp_all
    have c: "?j div 512 * 512 + ?j mod 512 = ?j" by simp
    note second = walk_step [OF i M d(2), unfolded child.simps tab.simps c]
    have e2: "sv39 v (pd + 0x80000) va = (case low v pd ?j of None \<Rightarrow> None | Some u \<Rightarrow> sv39_walk v (Suc 0) (u + 0x80000) va)"
      unfolding e top Some using second by (simp only: numeral_2_eq_2 One_nat_def option.case)
    show ?thesis
    proof (cases "low v pd ?j")
      case None
      then show ?thesis using e2 by (simp add: pte_def)
    next
      case (Some u)
      have "Low pd ?j \<in> slots S" "tab v (Low pd ?j) = Some u" using Some pd j by simp_all
      from tree_okD(1) [OF vm_invD(3) [OF i] this] have u: "u \<in> limit v" by (simp add: owned_def)
      have p: "pte v pd ?k = ram v u (?k mod 512)" using Some by (simp add: pte_def)
      note leaf = walk_leaf [OF u d(3), folded p]
      from vm_invD(4) [OF i] pd k show ?thesis
      proof (cases rule: leaf_okD)
        case none
        then show ?thesis using e2 Some leaf by (simp add: valid_def)
      next
        case (some f)
        have "valid (pte v pd ?k)" using some(1) by (auto simp: entry_frame_def split: if_splits)
        then show ?thesis using e2 Some leaf [of f] some(1) by simp
      qed
    qed
  qed
qed

end
