(* ===== verification/Paging_Theorems.thy ===== *)
theory Paging_Theorems
  imports Pmm_Theorems Paging_New Sv39
begin

text \<open>
  The properties of the page-table code, and small memories for their witnesses: ten frames, two spaces
  made by \<open>setup_pgdir\<close> from an empty boot table, and states reached from there.
\<close>

subsection \<open>Example states\<close>

text \<open>The free frames are \<open>b\<close> to \<open>h\<close>, the last of memory.  First fit hands them out from below.\<close>

definition packed :: "nat \<Rightarrow> nat \<Rightarrow> vmem \<Rightarrow> bool" where
  "packed b h v \<longleftrightarrow> pmm_wf (frames v) [(b, h + 1 - b)] \<and> b \<le> h \<and> npage v = 0x80000 + h + 1"

lemma packed_free: "packed b h v \<Longrightarrow> vfree v = {b ..< h + 1}"
  by (auto simp: packed_def vfree_def pmm_free_of_eq free_set_def block_pages_def)

lemma packed_topped:
  assumes "packed b h v"
  shows "topped v"
proof -
  have "h \<in> vfree v" using packed_free [OF assms] assms by (simp add: packed_def)
  moreover have "p < h" if "owned v p" for p
  proof -
    have "p \<notin> vfree v" "p \<le> h" "b \<le> h" using that assms by (simp_all add: owned_def limit_def packed_def)
    then show ?thesis using packed_free [OF assms] by simp
  qed
  ultimately show ?thesis unfolding topped_def by blast
qed

lemma packed_alloc:
  assumes "packed b h v" "b < h"
  shows "\<exists>f. alloc_pages 1 v = Some (Some b, v\<lparr>frames := f\<rparr>) \<and> packed (b + 1) h (v\<lparr>frames := f\<rparr>)"
proof -
  have wf: "pmm_wf (frames v) [(b, h + 1 - b)]" using assms(1) by (simp add: packed_def)
  have "ff_alloc 1 [(b, h + 1 - b)] = Some (b, [(b + 1, h + 1 - (b + 1))])" using assms(2) by simp
  with default_alloc_refines [OF wf, of 1] have "default_alloc_pages 1 (frames v) = Some (Some b, take_block 1 b (frames v))"
    "pmm_wf (take_block 1 b (frames v)) [(b + 1, h + 1 - (b + 1))]" by (auto simp del: One_nat_def)
  then show ?thesis using assms
    by (intro exI [of _ "take_block 1 b (frames v)"]) (simp add: alloc_pages_def default_pmm_manager_def packed_def)
qed

lemma packed_writes [simp]:
  "packed b h (set_frame p c v) \<longleftrightarrow> packed b h v" "packed b h (set_word p i w v) \<longleftrightarrow> packed b h v"
  by (simp_all add: packed_def set_frame_def set_word_def)

lemma packed_ref [simp]: "packed b h (set_page_ref p n v) \<longleftrightarrow> packed b h v"
proof -
  have "pmm_wf s bs \<Longrightarrow> pmm_wf (upd_page p (\<lambda>pg. pg\<lparr>pref := n\<rparr>) s) bs" for s bs n by (rule pmm_wf_cong) auto
  moreover have "upd_page p (\<lambda>pg. pg\<lparr>pref := pref (pages s p)\<rparr>) (upd_page p (\<lambda>pg. pg\<lparr>pref := n\<rparr>) s) = s" for s
    by (simp add: upd_page_def)
  ultimately have "pmm_wf (upd_page p (\<lambda>pg. pg\<lparr>pref := n\<rparr>) s) bs \<longleftrightarrow> pmm_wf s bs" for s bs by metis
  then show ?thesis by (simp add: packed_def set_page_ref_def)
qed

lemma packed_next_table:
  assumes "next_table t i c v = Some (r, v')" "packed b h v" "b < h"
  shows "\<exists>b'. packed b' h v' \<and> b' \<le> b + 1"
proof (cases "\<not> valid (ram v t i) \<and> c")
  case True
  from packed_alloc [OF assms(2,3)] obtain f where f: "alloc_pages 1 v = Some (Some b, v\<lparr>frames := f\<rparr>)"
    "packed (b + 1) h (v\<lparr>frames := f\<rparr>)" by blast
  from assms(1) obtain q w where "v' = set_word t i w (set_frame q (\<lambda>_. 0) (set_page_ref b 1 (v\<lparr>frames := f\<rparr>)))"
    unfolding next_table_def using True f(1) by (simp add: Let_def) (auto simp only: bind_eq_Some_conv prod.inject option.inject)
  then have "packed (b + 1) h v'" using f(2) by simp
  then show ?thesis by blast
next
  case False
  then have "v' = v" using assms(1) by (auto simp: next_table_def bind_eq_Some_conv split: if_splits)
  then show ?thesis using assms(2) by auto
qed

lemma packed_get_pte:
  assumes "get_pte pd la c v = Some (r, v')" "packed b h v" "b + 2 \<le> h"
  shows "\<exists>b'. packed b' h v' \<and> b' \<le> b + 2"
proof -
  from assms(1) obtain r1 v1 where n: "next_table pd (PDX1 la) c v = Some (r1, v1)"
    "r1 = None \<and> v1 = v' \<or> (\<exists>t r0. r1 = Some t \<and> next_table t (PDX0 la) c v1 = Some (r0, v'))"
    by (cases "next_table pd (PDX1 la) c v") (auto simp: get_pte_def bind_eq_Some_conv split: option.splits)
  from packed_next_table [OF n(1) assms(2)] assms(3) obtain b1 where b1: "packed b1 h v1" "b1 \<le> b + 1" by auto
  from n(2) show ?thesis
  proof
    assume "\<exists>t r0. r1 = Some t \<and> next_table t (PDX0 la) c v1 = Some (r0, v')"
    then obtain t r0 where "next_table t (PDX0 la) c v1 = Some (r0, v')" by blast
    from packed_next_table [OF this b1(1)] b1(2) assms(3) show ?thesis by fastforce
  qed (use b1 in auto)
qed

lemma packed_new_page:
  assumes "vm_inv v S" "pd \<in> S" "la < USERTOP" "pte v pd (unat la div 4096) = 0"
    "pgdir_alloc_page pd la perm v = Some (r, v')" "packed b h v" "b + 3 \<le> h"
  shows "\<exists>b'. packed b' h v' \<and> b' \<le> b + 3"
proof -
  from packed_alloc [OF assms(6)] assms(7) obtain f where f: "alloc_pages 1 v = Some (Some b, v\<lparr>frames := f\<rparr>)"
    "packed (b + 1) h (v\<lparr>frames := f\<rparr>)" by auto
  let ?v = "v\<lparr>frames := f\<rparr>"
  from assms(1) have i: "vm_inv ?v S"
  proof (cases rule: alloc_taken)
    case (some g v1)
    then show ?thesis using f(1) by simp
  qed (use f in simp)
  have pt: "pte ?v pd (unat la div 4096) = 0" using assms(4) by (simp add: pte_def low_def mid_def entry_frame_npage [of ?v v] split: option.splits)
  from get_pte_ok [OF i assms(2,3), of True] obtain q v2 where g: "get_pte pd la True ?v = Some (q, v2)"
    "vm_inv v2 S" "grown S 2 ?v v2" "case q of None \<Rightarrow> low v2 pd (unat la div 4096 div 512) = None \<and> (True \<longrightarrow> vfree v2 = {})
     | Some (t, k) \<Rightarrow> low v2 pd (unat la div 4096 div 512) = Some t \<and> k = unat la div 4096 mod 512"
    by (elim exE conjE) (rule that, assumption+)
  from packed_get_pte [OF g(1) f(2)] assms(7) obtain b2 where b2: "packed b2 h v2" "b2 \<le> b + 3" by auto
  have "unat la div 4096 < USER_PAGES" using user_index(4) [OF assms(3)] by (simp add: USER_PAGES_def)
  then have z: "pte v2 pd (unat la div 4096) = 0" using g(3) assms(2) pt by (simp add: grown_def)
  show ?thesis
  proof (cases q)
    case None
    then show ?thesis using g(4) packed_free [OF b2(1)] b2(1) by (simp add: packed_def)
  next
    case (Some e)
    then obtain t where t: "q = Some (t, unat la div 4096 mod 512)" "low v2 pd (unat la div 4096 div 512) = Some t"
      using g(4) by (cases e) auto
    then have "ram v2 t (unat la div 4096 mod 512) = 0" using z by (simp add: pte_def)
    then have "page_insert pd b la perm ?v = Some (0, set_word t (unat la div 4096 mod 512) (leaf_entry b perm) (page_ref_inc b v2))"
      using g(1) t(1) by (simp add: page_insert_def page_ref_inc_def valid_def leaf_entry_def Let_def)
    then show ?thesis using assms(5) f(1) b2
      by (auto simp: pgdir_alloc_page_def page_ref_inc_def bind_eq_Some_conv split: if_splits)
  qed
qed
lemma packed_setup:
  assumes "vm_inv v S" "packed b h v" "b < h" "\<not> valid (ram v boot 0)" "\<not> valid (ram v boot 1)"
  shows "\<exists>v'. setup_pgdir boot v = Some (Some b, v') \<and> vm_inv v' (insert b S) \<and> packed (b + 1) h v' \<and>
    ram v' = (ram v)(b := ram v boot) \<and> (\<forall>k < USER_PAGES. pte v' b k = 0)"
proof -
  from packed_alloc [OF assms(2,3)] obtain f where f: "alloc_pages 1 v = Some (Some b, v\<lparr>frames := f\<rparr>)"
    "packed (b + 1) h (v\<lparr>frames := f\<rparr>)" by blast
  from assms(1,4,5) show ?thesis
  proof (cases rule: setup_pgdir_ok)
    case none
    then show ?thesis using packed_free [OF assms(2)] assms(2) by (simp add: packed_def)
  next
    case (some pd v')
    have "b \<in> limit (v\<lparr>frames := f\<rparr>)" "npage (v\<lparr>frames := f\<rparr>) \<le> 2 ^ 44"
      using assms(2) vm_invD(6) [OF assms(1)] by (simp_all add: limit_def packed_def)
    then have "page2kva b (v\<lparr>frames := f\<rparr>) = Some b" by (rule page2kva_ok)
    then have "pd = b" "v' = set_frame b (ram v boot) (v\<lparr>frames := f\<rparr>)"
      using f(1) some(1) by (auto simp: setup_pgdir_def)
    then show ?thesis using some f(2) by auto
  qed
qed

definition demo_frames :: vmem where
  "demo_frames = \<lparr>frames = demo_full, ram = (\<lambda>_ _. 0), npage = 0x8000A\<rparr>"

definition demo_one :: vmem where
  "demo_one = snd (the (setup_pgdir 20 demo_frames))"

definition demo_two :: vmem where
  "demo_two = snd (the (setup_pgdir 20 demo_one))"

lemma demo_frames_ok: "vm_inv demo_frames {}" "packed 0 9 demo_frames"
proof -
  show p: "packed 0 9 demo_frames" using demo_full_wf by (simp add: packed_def demo_frames_def)
  have "list_all (\<lambda>p. frame_ref demo_full p = 0 \<and> \<not> frame_reserved demo_full p) [0 ..< 10]" by code_simp
  then have "\<forall>p \<in> vfree demo_frames. frame_ref demo_full p = 0 \<and> \<not> frame_reserved demo_full p"
    by (auto simp: packed_free [OF p] list_all_iff)
  then have "pool_ok demo_frames" using demo_full_wf packed_free [OF p]
    by (auto simp: pool_ok_def fp.pool_def pmm_ok_def vfree_def limit_def demo_frames_def)
  then show "vm_inv demo_frames {}" by (rule empty_spaces)
qed

lemma demo_one_ok: "vm_inv demo_one {0}" "packed 1 9 demo_one" "ram demo_one = (\<lambda>_ _. 0)"
proof -
  from packed_setup [OF demo_frames_ok, of 20] obtain v' where "setup_pgdir 20 demo_frames = Some (Some 0, v')"
    "vm_inv v' {0}" "packed 1 9 v'" "ram v' = (ram demo_frames)(0 := ram demo_frames 20)"
    by (auto simp: demo_frames_def valid_def)
  then show "vm_inv demo_one {0}" "packed 1 9 demo_one" "ram demo_one = (\<lambda>_ _. 0)" by (auto simp: demo_one_def demo_frames_def)
qed

lemma demo_two_ok: "vm_inv demo_two {0, 1}" "packed 2 9 demo_two" "pte demo_two 0 k = 0" "pte demo_two 1 k = 0"
proof -
  from packed_setup [OF demo_one_ok(1,2), of 20] obtain v' where s: "setup_pgdir 20 demo_one = Some (Some 1, v')"
    "vm_inv v' {1, 0}" "packed 2 9 v'" "ram v' = (ram demo_one)(1 := ram demo_one 20)"
    by (auto simp: demo_one_ok(3) valid_def numeral_2_eq_2)
  then have r: "ram demo_two = (\<lambda>_ _. 0)" by (auto simp: demo_two_def demo_one_ok(3))
  show "vm_inv demo_two {0, 1}" "packed 2 9 demo_two" using s by (simp_all add: demo_two_def insert_commute)
  show "pte demo_two 0 k = 0" "pte demo_two 1 k = 0" by (simp_all add: pte_def low_def mid_def r)
qed

text \<open>A page at the address \<open>0x800000\<close> of the space 0.\<close>

definition demo_mapped :: vmem where
  "demo_mapped = snd (the (pgdir_alloc_page 0 0x800000 PTE_USER demo_two))"

lemma user_perm: "(PTE_V OR PTE_USER) AND NOT 0x3FF = 0"
  by (simp add: PTE_V_def PTE_USER_def)

lemma demo_mapped_ok:
  obtains g b where "vm_inv demo_mapped {0, 1}" "packed b 9 demo_mapped" "b \<le> 5" "page_ref g demo_mapped = 1"
    "entry_frame demo_mapped (pte demo_mapped 0 0x800) = Some g" "maps demo_mapped {0, 1} g = {(0, 0x800)}"
    "\<And>k. k < USER_PAGES \<Longrightarrow> pte demo_mapped 1 k = 0" "\<And>k. k < USER_PAGES \<Longrightarrow> k \<noteq> 0x800 \<Longrightarrow> pte demo_mapped 0 k = 0"
    "pte demo_mapped 0 0x800 = leaf_entry g PTE_USER"
proof -
  have la: "(0x800000 :: u64) < USERTOP" "unat (0x800000 :: u64) div 4096 = 0x800" by (simp_all add: USERTOP_def)
  have z: "pte demo_two 0 0x800 = 0" by (rule demo_two_ok)
  have S: "0 \<in> {0, 1 :: nat}" by simp
  from pgdir_alloc_page_ok [OF demo_two_ok(1) S la z user_perm] obtain r v' where
    p: "pgdir_alloc_page 0 0x800000 PTE_USER demo_two = Some (r, v')" "vm_inv v' {0, 1}"
      "case r of None \<Rightarrow> card (vfree demo_two) \<le> 3 \<and> (\<forall>pd' \<in> {0, 1}. \<forall>j < USER_PAGES. pte v' pd' j = pte demo_two pd' j)
     | Some g \<Rightarrow> g \<in> vfree demo_two \<and> g \<notin> vfree v' \<and> vfree v' \<subseteq> vfree demo_two \<and> card (vfree demo_two) \<le> card (vfree v') + 3 \<and>
        frame_reserved (frames v') = frame_reserved (frames demo_two) \<and> npage v' = npage demo_two \<and>
        page_ref g v' = 1 \<and> maps v' {0, 1} g = {(0, 0x800)} \<and>
        (\<forall>pd' \<in> {0, 1}. \<forall>j < USER_PAGES. pte v' pd' j = (if pd' = 0 \<and> j = 0x800 then leaf_entry g PTE_USER else pte demo_two pd' j))"
    by (elim exE conjE) (rule that, assumption+)
  have "card (vfree demo_two) = 8" using packed_free [OF demo_two_ok(2)] by simp
  then obtain g where g: "r = Some g" using p(3) by (cases r) auto
  from packed_new_page [OF demo_two_ok(1) S la(1) _ p(1) demo_two_ok(2)] z la(2) obtain b where
    b: "packed b 9 v'" "b \<le> 5" by auto
  have d: "demo_mapped = v'" by (simp add: demo_mapped_def p(1))
  have u: "0x800 < USER_PAGES" by (simp add: USER_PAGES_def)
  have m: "maps v' {0, 1} g = {(0, 0x800)}" "page_ref g v' = 1" using p(3) g by simp_all
  then have "entry_frame v' (pte v' 0 0x800) = Some g" by (auto simp: maps_def set_eq_iff)
  moreover have "pte v' 1 k = 0" "k \<noteq> 0x800 \<Longrightarrow> pte v' 0 k = 0" if "k < USER_PAGES" for k
    using p(3) g that demo_two_ok(3,4) by simp_all
  moreover have "pte v' 0 0x800 = leaf_entry g PTE_USER" using p(3) g u by simp
  ultimately show thesis using that p(2) b m unfolding d by blast
qed
subsection \<open>Properties\<close>

text \<open>C35: \<^verbatim>\<open>get_pte\<close> without creation returns the place of an entry, and \<^verbatim>\<open>get_page\<close> the frame it maps, that the
  machine's own walk of the three Sv39 levels uses: the machine translates an address exactly if \<^verbatim>\<open>get_page\<close>
  finds a frame and the entry is a leaf by its R, W and X bits, and then to that frame and the offset in the page.
  The walk of the machine is written on numbers, with none of the kernel's macros, and ends at a leaf on any level;
  that the kernel, which tests no leaf bits, still agrees is because its entries for tables are none.  The
  entry is the one \<open>pte\<close> names in all other properties; the null pointer comes back exactly when a table is
  missing, and the assertions hold.\<close>

theorem walk_agrees_with_machine:
  assumes "vm_inv v S" and "pd \<in> S" and "la < USERTOP"
  shows "\<exists>r fr. get_pte pd la False v = Some (r, v) \<and> get_page pd la v = Some (fr, r) \<and>
    (case r of None \<Rightarrow> low v pd (unat la div 4096 div 512) = None \<and> pte v pd (unat la div 4096) = 0
     | Some (t, i) \<Rightarrow> low v pd (unat la div 4096 div 512) = Some t \<and> ram v t i = pte v pd (unat la div 4096)) \<and>
    fr = entry_frame v (pte v pd (unat la div 4096)) \<and>
    sv39 v (pd + 0x80000) (unat la) = (case (r, fr) of
       (Some (t, i), Some f) \<Rightarrow> if sv39_leaf (unat (ram v t i)) then Some ((f + 0x80000) * 4096 + unat la mod 4096) else None
     | _ \<Rightarrow> None)"
proof -
  let ?k = "unat la div 4096"
  have k: "?k < USER_PAGES" using user_index(4) [OF assms(3)] by (simp add: USER_PAGES_def)
  have la: "unat la < 2 ^ 31" using assms(3) by (simp add: USERTOP_def word_less_nat_alt)
  note look = get_pte_look [OF assms] and hw = sv39_pte [OF assms(1,2) la]
  show ?thesis
  proof (cases "low v pd (?k div 512)")
    case None
    then show ?thesis using look hw by (simp add: get_page_def pte_def)
  next
    case (Some t)
    then have e: "ram v t (?k mod 512) = pte v pd ?k" by (simp add: pte_def)
    have "\<exists>f. entry_frame v (pte v pd ?k) = Some f" if "valid (pte v pd ?k)"
    proof -
      have "pte v pd ?k \<noteq> 0" using that by (auto simp: valid_def)
      then show ?thesis using leaf_zero [OF assms(1,2) k] by auto
    qed
    then have "valid (pte v pd ?k) \<Longrightarrow> pte2page (pte v pd ?k) v = entry_frame v (pte v pd ?k) \<and> entry_frame v (pte v pd ?k) \<noteq> None"
      by (auto simp: pte2page_def entry_frame_def)
    moreover have "\<not> valid (pte v pd ?k) \<Longrightarrow> entry_frame v (pte v pd ?k) = None" by (simp add: entry_frame_def)
    ultimately show ?thesis using look Some e hw by (cases "valid (pte v pd ?k)") (auto simp: get_page_def)
  qed
qed

text \<open>The page the witnesses map: its entry carries all five user bits, so the machine translates it.\<close>

lemma walk_agrees_with_machine_witness:
  "\<exists>t i g. get_pte 0 0x800004 False demo_mapped = Some (Some (t, i), demo_mapped) \<and>
    get_page 0 0x800004 demo_mapped = Some (Some g, Some (t, i)) \<and> sv39 demo_mapped 0x80000 0x800004 = Some ((g + 0x80000) * 4096 + 4)"
proof -
  obtain b g where d: "vm_inv demo_mapped {0, 1}" "entry_frame demo_mapped (pte demo_mapped 0 0x800) = Some g"
    "pte demo_mapped 0 0x800 = leaf_entry g PTE_USER" by (rule demo_mapped_ok) (rule that, assumption+)
  have la: "(0x800004 :: u64) < USERTOP" by (simp add: USERTOP_def)
  have k: "unat (0x800004 :: u64) div 4096 = 0x800" "unat (0x800004 :: u64) mod 4096 = 4" "unat (0x800004 :: u64) = 0x800004" by simp_all
  from leaf_frame [OF d(1) _ _ d(2)] have "g \<in> limit demo_mapped" by (simp add: owned_def USER_PAGES_def)
  from readable_leaf [OF this vm_invD(6) [OF d(1)] user_perm] have f: "sv39_leaf (unat (pte demo_mapped 0 0x800))"
    by (simp add: d(3) leaf_entry_def PTE_USER_def)
  from walk_agrees_with_machine [OF d(1) _ la, of 0, unfolded k(1) d(2)] obtain r where
    r: "get_pte 0 0x800004 False demo_mapped = Some (r, demo_mapped)" "get_page 0 0x800004 demo_mapped = Some (Some g, r)"
      "case r of None \<Rightarrow> low demo_mapped 0 (0x800 div 512) = None \<and> pte demo_mapped 0 0x800 = 0
       | Some (t, i) \<Rightarrow> low demo_mapped 0 (0x800 div 512) = Some t \<and> ram demo_mapped t i = pte demo_mapped 0 0x800"
      "sv39 demo_mapped (0 + 0x80000) (unat (0x800004 :: u64)) = (case (r, Some g) of
         (Some (t, i), Some f) \<Rightarrow> if sv39_leaf (unat (ram demo_mapped t i)) then Some ((f + 0x80000) * 4096 + unat (0x800004 :: u64) mod 4096) else None
       | _ \<Rightarrow> None)" by auto
  have "r \<noteq> None" using r(3) d(2) by (cases r) auto
  then show ?thesis using r f by (auto simp: k)
qed

text \<open>C30: Mapping a page at an address changes that page of that space and nothing else: every other
  translation of every space stays, no frame but tables is written, and the reference counts stay those
  of the mappings (in \<open>vm_inv\<close>).  A page that was mapped there and nowhere else is given back.  The
  call fails, with \<open>-E_NO_MEM\<close> and every translation as it was, only when a table is needed and fewer
  than three frames were free.\<close>

theorem page_insert_maps:
  assumes "vm_inv v S" and "topped v" and "pd \<in> S" and "la < USERTOP" and "(PTE_V OR perm) AND NOT 0x3FF = 0"
    and "owned v page" and "page \<notin> tables v S" and "page_ref page v = int (card (maps v S page))"
  shows "\<exists>ret v'. page_insert pd page la perm v = Some (ret, v') \<and> vm_inv v' S \<and>
    (if ret = 0
     then (\<forall>pd' \<in> S. \<forall>k < USER_PAGES. pte v' pd' k =
             (if pd' = pd \<and> k = unat la div 4096 then pte_create (page2ppn nbase page) (PTE_V OR perm) else pte v pd' k)) \<and>
          entry_frame v' (pte v' pd (unat la div 4096)) = Some page \<and>
          (\<forall>f. maps v S f \<noteq> {} \<and> maps v' S f = {} \<longrightarrow> f \<in> vfree v') \<and> (\<forall>f. f \<notin> tables v' S \<longrightarrow> ram v' f = ram v f)
     else ret = - E_NO_MEM \<and> card (vfree v) < 3 \<and> (\<forall>pd' \<in> S. \<forall>k < USER_PAGES. pte v' pd' k = pte v pd' k))"
proof -
  let ?k = "unat la div 4096"
  have k: "?k < USER_PAGES" using user_index(4) [OF assms(4)] by (simp add: USER_PAGES_def)
  from page_insert_ok [OF assms(1,3,4,2) assms(6-8,5)] obtain ret v' v1 where
    p: "page_insert pd page la perm v = Some (ret, v')" "vm_inv v' S" "grown S 2 v v1"
    "if ret = 0 then entry_set S pd ?k (leaf_entry page perm) v1 v' \<and> low v1 pd (?k div 512) \<noteq> None \<and>
       vfree v' = vfree v1 \<union> {f. f \<noteq> page \<and> entry_frame v (pte v pd ?k) = Some f \<and> card (maps v S f) = 1} \<and>
       (\<forall>q. page_ref q v' = page_ref q v1 + of_bool (q = page) - of_bool (entry_frame v (pte v pd ?k) = Some q))
     else ret = - E_NO_MEM \<and> v' = v1 \<and> vfree v' = {}" by blast
  have g: "\<forall>pd' \<in> S. \<forall>j < USER_PAGES. pte v1 pd' j = pte v pd' j" "npage v1 = npage v" "\<forall>f. f \<notin> tables v1 S \<longrightarrow> ram v1 f = ram v f"
    using p(3) by (simp_all add: grown_def)
  show ?thesis
  proof (cases "ret = 0")
    case True
    then have e: "entry_set S pd ?k (leaf_entry page perm) v1 v'"
      "vfree v' = vfree v1 \<union> {f. f \<noteq> page \<and> entry_frame v (pte v pd ?k) = Some f \<and> card (maps v S f) = 1}" using p(4) by simp_all
    have P: "\<forall>pd' \<in> S. \<forall>j < USER_PAGES. pte v' pd' j = (if pd' = pd \<and> j = ?k then leaf_entry page perm else pte v pd' j)"
      using e(1) g(1) by (simp add: entry_set_def)
    have n: "npage v' = npage v" using e(1) g(2) by (simp add: entry_set_def)
    have "page \<in> limit v" using assms(6) by (simp add: owned_def)
    then have le: "entry_frame v' (leaf_entry page perm) = Some page"
      using entry_frame_create [of page v'] vm_invD(6) [OF p(2)] assms(5) n by (simp add: leaf_entry_def limit_def)
    have mine: "entry_frame v' (pte v' pd ?k) = Some page" using P le assms(3) k by simp
    have "f \<in> vfree v'" if f: "maps v S f \<noteq> {}" "maps v' S f = {}" for f
    proof -
      have "f \<noteq> page" using f(2) mine assms(3) k by (auto simp: maps_def set_eq_iff)
      moreover have one: "(d, j) = (pd, ?k)" if dj: "(d, j) \<in> maps v S f" for d j
      proof (rule ccontr)
        assume ne: "(d, j) \<noteq> (pd, ?k)"
        have "d \<in> S" "j < USER_PAGES" "entry_frame v (pte v d j) = Some f" using dj by (simp_all add: maps_def)
        moreover from this have "pte v' d j = pte v d j" using P ne by auto
        ultimately have "(d, j) \<in> maps v' S f" by (simp add: maps_def entry_frame_npage [OF n])
        then show False using f(2) by simp
      qed
      moreover from f(1) one have "maps v S f = {(pd, ?k)}" by auto
      moreover from this have "entry_frame v (pte v pd ?k) = Some f" by (auto simp: maps_def set_eq_iff)
      ultimately show ?thesis using e(2) by simp
    qed
    moreover have "\<forall>f. f \<notin> tables v' S \<longrightarrow> ram v' f = ram v f" using e(1) g(3) by (simp add: entry_set_def)
    ultimately show ?thesis using p(1,2) True P mine by (simp add: leaf_entry_def)
  next
    case False
    then have f: "ret = - E_NO_MEM" "v' = v1" "vfree v1 = {}" using p(4) by auto
    then have "card (vfree v) < 3" using grown_card(1) [OF p(3) finite_vfree [OF assms(1)]] by simp
    then show ?thesis using p(1,2) f(1,2) False g(1) by simp
  qed
qed

lemma page_insert_maps_witness:
  "\<exists>g v'. page_insert 1 g 0x900000 PTE_USER demo_mapped = Some (0, v') \<and> entry_frame v' (pte v' 1 0x900) = Some g \<and>
    pte v' 0 0x800 = pte demo_mapped 0 0x800"
proof -
  obtain b g where d: "vm_inv demo_mapped {0, 1}" "packed b 9 demo_mapped" "b \<le> 5" "page_ref g demo_mapped = 1"
    "entry_frame demo_mapped (pte demo_mapped 0 0x800) = Some g" "maps demo_mapped {0, 1} g = {(0, 0x800)}"
    "\<And>k. k < USER_PAGES \<Longrightarrow> pte demo_mapped 1 k = 0" "\<And>k. k < USER_PAGES \<Longrightarrow> k \<noteq> 0x800 \<Longrightarrow> pte demo_mapped 0 k = 0"
    by (rule demo_mapped_ok) (rule that, assumption+)
  have u: "0x800 < USER_PAGES" "0x900 < USER_PAGES" by (simp_all add: USER_PAGES_def)
  have la: "(0x900000 :: u64) < USERTOP" by (simp add: USERTOP_def)
  have g: "owned demo_mapped g" "g \<notin> tables demo_mapped {0, 1}" using leaf_frame [OF d(1) _ u(1) d(5)] by auto
  have r: "page_ref g demo_mapped = int (card (maps demo_mapped {0, 1} g))" using d(4,6) by simp
  have "unat (0x900000 :: u64) div 4096 = 0x900" by simp
  note P = page_insert_maps [OF d(1) packed_topped [OF d(2)] _ la user_perm g r, of 1, unfolded this]
  have "card (vfree demo_mapped) \<ge> 5" using packed_free [OF d(2)] d(3) by simp
  with P obtain v' where p: "page_insert 1 g 0x900000 PTE_USER demo_mapped = Some (0, v')" "vm_inv v' {0, 1}"
    "\<forall>pd' \<in> {0, 1}. \<forall>k < USER_PAGES. pte v' pd' k = (if pd' = 1 \<and> k = 0x900
       then pte_create (page2ppn nbase g) (PTE_V OR PTE_USER) else pte demo_mapped pd' k)"
    "entry_frame v' (pte v' 1 0x900) = Some g" by (auto split: if_splits)
  moreover have "pte v' 0 0x800 = pte demo_mapped 0 0x800" using p(3) u by simp
  ultimately show ?thesis by blast
qed
text \<open>Taking a page at an unmapped address either maps a frame that was free, with reference count 1
  and no other mapping, or returns the null pointer with every translation as it was and nothing of
  the page kept; the assertion on the count never fails.\<close>

lemma alloc_page_maps_fresh:
  assumes "vm_inv v S" and "pd \<in> S" and "la < USERTOP" and "pte v pd (unat la div 4096) = 0"
    and "(PTE_V OR perm) AND NOT 0x3FF = 0"
  shows "\<exists>r v'. pgdir_alloc_page pd la perm v = Some (r, v') \<and> vm_inv v' S \<and>
    (case r of None \<Rightarrow> card (vfree v) \<le> 3 \<and> (\<forall>pd' \<in> S. \<forall>k < USER_PAGES. pte v' pd' k = pte v pd' k)
     | Some page \<Rightarrow> page \<in> vfree v \<and> page \<notin> vfree v' \<and> page_ref page v' = 1 \<and>
        maps v' S page = {(pd, unat la div 4096)} \<and>
        (\<forall>pd' \<in> S. \<forall>k < USER_PAGES. pte v' pd' k =
          (if pd' = pd \<and> k = unat la div 4096 then pte_create (page2ppn nbase page) (PTE_V OR perm) else pte v pd' k)))"
proof -
  from pgdir_alloc_page_ok [OF assms(1-3) refl assms(4,5)] obtain r v' where
    "pgdir_alloc_page pd la perm v = Some (r, v')" "vm_inv v' S"
    "case r of None \<Rightarrow> card (vfree v) \<le> 3 \<and> (\<forall>pd' \<in> S. \<forall>j < USER_PAGES. pte v' pd' j = pte v pd' j)
     | Some g \<Rightarrow> g \<in> vfree v \<and> g \<notin> vfree v' \<and> vfree v' \<subseteq> vfree v \<and> card (vfree v) \<le> card (vfree v') + 3 \<and>
        frame_reserved (frames v') = frame_reserved (frames v) \<and> npage v' = npage v \<and>
        page_ref g v' = 1 \<and> maps v' S g = {(pd, unat la div 4096)} \<and>
        (\<forall>pd' \<in> S. \<forall>j < USER_PAGES. pte v' pd' j = (if pd' = pd \<and> j = unat la div 4096 then leaf_entry g perm else pte v pd' j))"
    by (elim exE conjE) (rule that, assumption+)
  then show ?thesis by (cases r) (simp_all add: leaf_entry_def)
qed

lemma alloc_page_maps_fresh_witness:
  "\<exists>page v'. pgdir_alloc_page 1 0x7FFFF000 PTE_USER demo_two = Some (Some page, v') \<and> page_ref page v' = 1 \<and>
    maps v' {0, 1} page = {(1, 0x7FFFF)}"
proof -
  have la: "(0x7FFFF000 :: u64) < USERTOP" "unat (0x7FFFF000 :: u64) div 4096 = 0x7FFFF" by (simp_all add: USERTOP_def)
  have "card (vfree demo_two) = 8" using packed_free [OF demo_two_ok(2)] by simp
  with alloc_page_maps_fresh [OF demo_two_ok(1) _ la(1) _ user_perm, of 1, unfolded la(2)] demo_two_ok(4) show ?thesis
    by (auto split: option.splits)
qed

text \<open>C32: Unmapping a range of user addresses removes the translations of its pages, keeps all others,
  and gives back exactly the frames that were mapped before and are mapped nowhere afterwards; shared
  frames stay with one reference less.\<close>

theorem unmap_range_unmaps:
  assumes "vm_inv v S" and "topped v" and "pd \<in> S" and "s mod PGSIZE = 0" and "e mod PGSIZE = 0" and "USER_ACCESS s e"
  shows "\<exists>v'. unmap_range pd s e v = Some v' \<and> vm_inv v' S \<and>
    (\<forall>pd' \<in> S. \<forall>k < USER_PAGES. pte v' pd' k =
      (if pd' = pd \<and> unat s div 4096 \<le> k \<and> k < unat e div 4096 then 0 else pte v pd' k)) \<and>
    vfree v' = vfree v \<union> {f. maps v S f \<noteq> {} \<and> maps v' S f = {}} \<and> tables v' S = tables v S \<and>
    (\<forall>f. f \<notin> tables v S \<longrightarrow> ram v' f = ram v f)"
proof -
  from unmap_range_ok [OF assms(1,3,2,4-6)] obtain v' where u: "unmap_range pd s e v = Some v'" "vm_inv v' S"
    "cleared S pd {unat s div 4096 ..< unat e div 4096} v v'" by blast
  then show ?thesis by (intro exI [of _ v']) (simp add: cleared_def)
qed

lemma unmap_range_unmaps_witness:
  "\<exists>g v'. entry_frame demo_mapped (pte demo_mapped 0 0x800) = Some g \<and> g \<notin> vfree demo_mapped \<and>
    unmap_range 0 0x800000 0x900000 demo_mapped = Some v' \<and> pte v' 0 0x800 = 0 \<and> g \<in> vfree v'"
proof -
  obtain b g where d: "vm_inv demo_mapped {0, 1}" "packed b 9 demo_mapped" "b \<le> 5" "page_ref g demo_mapped = 1"
    "entry_frame demo_mapped (pte demo_mapped 0 0x800) = Some g" "maps demo_mapped {0, 1} g = {(0, 0x800)}"
    "\<And>k. k < USER_PAGES \<Longrightarrow> pte demo_mapped 1 k = 0" "\<And>k. k < USER_PAGES \<Longrightarrow> k \<noteq> 0x800 \<Longrightarrow> pte demo_mapped 0 k = 0"
    by (rule demo_mapped_ok) (rule that, assumption+)
  have a: "(0x800000 :: u64) mod PGSIZE = 0" "(0x900000 :: u64) mod PGSIZE = 0" "USER_ACCESS 0x800000 0x900000"
    by (simp_all add: PGSIZE_def USER_ACCESS_def USERBASE_def USERTOP_def)
  have k: "unat (0x800000 :: u64) div 4096 = 0x800" "unat (0x900000 :: u64) div 4096 = 0x900" by simp_all
  from unmap_range_unmaps [OF d(1) packed_topped [OF d(2)] _ a, of 0, unfolded k] obtain v' where
    v': "unmap_range 0 0x800000 0x900000 demo_mapped = Some v'"
      "\<forall>pd' \<in> {0, 1}. \<forall>k < USER_PAGES. pte v' pd' k = (if pd' = 0 \<and> 0x800 \<le> k \<and> k < 0x900 then 0 else pte demo_mapped pd' k)"
      "vfree v' = vfree demo_mapped \<union> {f. maps demo_mapped {0, 1} f \<noteq> {} \<and> maps v' {0, 1} f = {}}" by auto
  have z: "pte v' pd k = 0" if "pd \<in> {0, 1}" "k < USER_PAGES" for pd k using v'(2) that d(7,8) by (cases "k = 0x800") auto
  have u: "0x800 < USER_PAGES" by (simp add: USER_PAGES_def)
  have "(d, j) \<notin> maps v' {0, 1} g" for d j using z [of 0 j] z [of 1 j] by (cases "d = 0"; cases "d = 1") (auto simp: maps_def)
  then have "maps v' {0, 1} g = {}" by auto
  then have "g \<in> vfree v'" using v'(3) d(6) by simp
  moreover have "g \<notin> vfree demo_mapped" using leaf_frame [OF d(1) _ u d(5)] by (simp add: owned_def)
  ultimately show ?thesis using v'(1) z [of 0, OF _ u] d(5) by auto
qed
text \<open>C31: Copying a range for a new process succeeds when three frames are free for each page that is
  mapped there.  Each such page gets its own frame, free before, with the same contents, the same user
  permissions and reference count 1; no other translation of any space changes, and the frames of the
  old space keep their contents and counts, so that neither space sees the other's later writes.\<close>

theorem copy_range_isolates:
  assumes "vm_inv v S" and "to \<in> S" and "frm \<in> S" and "to \<noteq> frm"
    and "s mod PGSIZE = 0" and "e mod PGSIZE = 0" and "USER_ACCESS s e"
    and "\<forall>k \<in> {unat s div 4096 ..< unat e div 4096}. pte v to k = 0"
    and "3 * card {k \<in> {unat s div 4096 ..< unat e div 4096}. pte v frm k \<noteq> 0} \<le> card (vfree v)"
  shows "\<exists>v'. copy_range to frm s e v = Some (0, v') \<and> vm_inv v' S \<and>
    (\<forall>pd \<in> S. \<forall>k < USER_PAGES. pd \<noteq> to \<or> k \<notin> {unat s div 4096 ..< unat e div 4096} \<longrightarrow> pte v' pd k = pte v pd k) \<and>
    (\<forall>k \<in> {unat s div 4096 ..< unat e div 4096}.
       if pte v frm k = 0 then pte v' to k = 0
       else \<exists>f g. entry_frame v (pte v frm k) = Some f \<and> entry_frame v' (pte v' to k) = Some g \<and>
         g \<in> vfree v \<and> maps v' S g = {(to, k)} \<and> page_ref g v' = 1 \<and> ram v' g = ram v f \<and> ram v' f = ram v f \<and>
         page_ref f v' = page_ref f v \<and> pte v' to k = pte_create (page2ppn nbase g) (PTE_V OR (pte v frm k AND PTE_USER)))"
proof -
  let ?A = "{unat s div 4096 ..< unat e div 4096}"
  from copy_range_ok [OF assms] obtain v' where c: "copy_range to frm s e v = Some (0, v')" "vm_inv v' S" "copied S to frm ?A v v'" by blast
  have n: "npage v' = npage v" using c(3) by (simp add: copied_def)
  note en = entry_frame_npage [OF n]
  have k: "k < USER_PAGES" if "k \<in> ?A" for k
  proof -
    have "unat e \<le> 0x80000000" using assms(7) by (simp add: USER_ACCESS_def USERTOP_def word_le_nat_alt)
    then have "unat e div 4096 \<le> 0x80000000 div 4096" by (rule div_le_mono)
    then show ?thesis using that by (simp add: USER_PAGES_def)
  qed
  have other: "\<forall>pd \<in> S. \<forall>k < USER_PAGES. pd \<noteq> to \<or> k \<notin> ?A \<longrightarrow> pte v' pd k = pte v pd k" using c(3) by (simp add: copied_def)
  have "if pte v frm k = 0 then pte v' to k = 0
       else \<exists>f g. entry_frame v (pte v frm k) = Some f \<and> entry_frame v' (pte v' to k) = Some g \<and>
         g \<in> vfree v \<and> maps v' S g = {(to, k)} \<and> page_ref g v' = 1 \<and> ram v' g = ram v f \<and> ram v' f = ram v f \<and>
         page_ref f v' = page_ref f v \<and> pte v' to k = pte_create (page2ppn nbase g) (PTE_V OR (pte v frm k AND PTE_USER))"
    if A: "k \<in> ?A" for k
  proof -
    have pc: "page_copied v to frm v' k" using c(3) A by (simp add: copied_def)
    show ?thesis
    proof (cases "pte v frm k = 0")
      case True
      then show ?thesis using pc by (simp add: page_copied_def)
    next
      case False
      with pc obtain f g where fg: "entry_frame v (pte v frm k) = Some f" "pte v' to k = leaf_entry g (pte v frm k AND PTE_USER)"
        "entry_frame v (pte v' to k) = Some g" "g \<in> vfree v" "page_ref g v' = 1" "ram v' g = ram v f"
        unfolding page_copied_def by auto
      have "owned v f" "f \<notin> tables v S" using leaf_frame [OF c(2)] leaf_frame [OF assms(1,3) k [OF A] fg(1)] by auto
      then have f: "ram v' f = ram v f" "page_ref f v' = page_ref f v" using c(3) by (simp_all add: copied_def)
      have "pte v' to k = 0 \<or> (\<exists>h. entry_frame v' (pte v' to k) = Some h \<and> page_ref h v' = int (card (maps v' S h)))"
        using vm_invD(4) [OF c(2)] assms(2) k [OF A] unfolding leaf_ok_def by blast
      then have "card (maps v' S g) = 1" using fg(3,5) by (auto simp: en)
      moreover have "(to, k) \<in> maps v' S g" using assms(2) k [OF A] fg(3) by (simp add: maps_def en)
      ultimately have "maps v' S g = {(to, k)}" by (metis card_1_singletonE singletonD)
      then show ?thesis using False fg f by (simp add: en leaf_entry_def)
    qed
  qed
  then show ?thesis using c(1,2) other by blast
qed

lemma copy_range_isolates_witness:
  "\<exists>f g v'. copy_range 1 0 0x800000 0x802000 demo_mapped = Some (0, v') \<and> entry_frame demo_mapped (pte demo_mapped 0 0x800) = Some f \<and>
    entry_frame v' (pte v' 1 0x800) = Some g \<and> f \<noteq> g \<and> ram v' g = ram v' f \<and> pte v' 1 0x801 = 0"
proof -
  obtain b g where d: "vm_inv demo_mapped {0, 1}" "packed b 9 demo_mapped" "b \<le> 5" "page_ref g demo_mapped = 1"
    "entry_frame demo_mapped (pte demo_mapped 0 0x800) = Some g" "maps demo_mapped {0, 1} g = {(0, 0x800)}"
    "\<And>k. k < USER_PAGES \<Longrightarrow> pte demo_mapped 1 k = 0" "\<And>k. k < USER_PAGES \<Longrightarrow> k \<noteq> 0x800 \<Longrightarrow> pte demo_mapped 0 k = 0"
    by (rule demo_mapped_ok) (rule that, assumption+)
  have a: "(0x800000 :: u64) mod PGSIZE = 0" "(0x802000 :: u64) mod PGSIZE = 0" "USER_ACCESS 0x800000 0x802000"
    by (simp_all add: PGSIZE_def USER_ACCESS_def USERBASE_def USERTOP_def)
  have k: "unat (0x800000 :: u64) div 4096 = 0x800" "unat (0x802000 :: u64) div 4096 = 0x802" by simp_all
  have r: "{0x800 ..< 0x802} = {0x800, 0x801 :: nat}" by auto
  have u: "0x800 < USER_PAGES" "0x801 < USER_PAGES" by (simp_all add: USER_PAGES_def)
  have "pte demo_mapped 0 0x800 \<noteq> 0" using d(5) by auto
  then have one: "{k \<in> {0x800, 0x801}. pte demo_mapped 0 k \<noteq> 0} = {0x800}" using d(8) [OF u(2)] by auto
  have z: "\<forall>k \<in> {0x800, 0x801}. pte demo_mapped 1 k = 0" using d(7) u by simp
  have "3 * card {k \<in> {0x800, 0x801}. pte demo_mapped 0 k \<noteq> 0} \<le> card (vfree demo_mapped)"
    unfolding one using packed_free [OF d(2)] d(3) by simp
  from copy_range_isolates [OF d(1) _ _ _ a, of 1 0, unfolded k r, OF _ _ _ z this] obtain v' where
    v': "copy_range 1 0 0x800000 0x802000 demo_mapped = Some (0, v')" "\<forall>k \<in> {0x800, 0x801}.
       if pte demo_mapped 0 k = 0 then pte v' 1 k = 0
       else \<exists>f g. entry_frame demo_mapped (pte demo_mapped 0 k) = Some f \<and> entry_frame v' (pte v' 1 k) = Some g \<and>
         g \<in> vfree demo_mapped \<and> maps v' {0, 1} g = {(1, k)} \<and> page_ref g v' = 1 \<and> ram v' g = ram demo_mapped f \<and>
         ram v' f = ram demo_mapped f \<and> page_ref f v' = page_ref f demo_mapped \<and>
         pte v' 1 k = pte_create (page2ppn nbase g) (PTE_V OR (pte demo_mapped 0 k AND PTE_USER))" by auto
  have "pte v' 1 0x801 = 0" using v'(2) d(8) [OF u(2)] by simp
  moreover obtain f h where "entry_frame demo_mapped (pte demo_mapped 0 0x800) = Some f" "entry_frame v' (pte v' 1 0x800) = Some h"
    "h \<in> vfree demo_mapped" "ram v' h = ram demo_mapped f" "ram v' f = ram demo_mapped f"
    using v'(2) \<open>pte demo_mapped 0 0x800 \<noteq> 0\<close> by auto
  moreover from this have "f \<noteq> h" using leaf_frame [OF d(1) _ u(1)] by (auto simp: owned_def)
  ultimately show ?thesis using v'(1) by auto
qed
text \<open>C33: Giving back the tables of a range of a space with no pages left returns, changes no
  translation, and frees exactly the third-level tables of the range and those second-level tables
  none of whose third-level tables in the range was missing.\<close>

theorem exit_range_frees:
  assumes "vm_inv v S" and "topped v" and "pd \<in> S" and "\<forall>k < USER_PAGES. pte v pd k = 0"
    and "s mod PGSIZE = 0" and "e mod PGSIZE = 0" and "USER_ACCESS s e"
    and "J = {unat s div 0x200000 ..< (unat e + 0x1FFFFF) div 0x200000}"
  shows "\<exists>v'. exit_range pd s e v = Some v' \<and> vm_inv v' S \<and>
    (\<forall>pd' \<in> S. \<forall>k < USER_PAGES. pte v' pd' k = pte v pd' k) \<and>
    vfree v' = vfree v \<union> {q. \<exists>j \<in> J. low v pd j = Some q} \<union>
      {t. \<exists>i. mid v pd i = Some t \<and> (\<exists>j \<in> J. j div 512 = i) \<and> (\<forall>j \<in> J. j div 512 = i \<longrightarrow> low v pd j \<noteq> None)}"
proof -
  let ?a = "unat s div 0x200000" and ?b = "(unat e + 0x1FFFFF) div 0x200000"
  have z: "emptied v pd" using assms(4) by (simp add: emptied_def)
  from exit_range_ok [OF assms(1-3) z assms(5-7)] obtain v' where
    v': "exit_range pd s e v = Some v'" "vm_inv v' S" "trimmed S (gone v pd ?a ?b) (given v pd ?a ?b) v v'" by blast
  have "given v pd ?a ?b = {q. \<exists>j \<in> J. low v pd j = Some q} \<union>
      {t. \<exists>i. mid v pd i = Some t \<and> (\<exists>j \<in> J. j div 512 = i) \<and> (\<forall>j \<in> J. j div 512 = i \<longrightarrow> low v pd j \<noteq> None)}"
    unfolding given_def full_def assms(8) by auto
  then show ?thesis using v' by (simp add: trimmed_def Un_assoc)
qed

text \<open>Two tables of the space 0, four megabytes apart, and none of its pages.\<close>

definition demo_tables :: vmem where
  "demo_tables = snd (the (get_pte 0 0x1000000 True (snd (the (get_pte 0 0x800000 True demo_two)))))"

lemma table_made:
  assumes "vm_inv v {0, 1}" "packed b 9 v" "b + 2 \<le> 9" "la < USERTOP" "unat la div 4096 div 512 = j" "j < 1024" "pd \<in> {0, 1}"
  shows "\<exists>r v' b' t. get_pte pd la True v = Some (r, v') \<and> vm_inv v' {0, 1} \<and> packed b' 9 v' \<and> b' \<le> b + 2 \<and> low v' pd j = Some t \<and>
    (\<forall>i < 1024. \<forall>q. low v pd i = Some q \<longrightarrow> low v' pd i = Some q) \<and> (\<forall>d \<in> {0, 1}. \<forall>k < USER_PAGES. pte v' d k = pte v d k)"
proof -
  from get_pte_ok [OF assms(1) assms(7) assms(4), of True, unfolded assms(5)] obtain r v' where
    g: "get_pte pd la True v = Some (r, v')" "vm_inv v' {0, 1}" "grown {0, 1} 2 v v'"
      "case r of None \<Rightarrow> low v' pd j = None \<and> (True \<longrightarrow> vfree v' = {}) | Some (t, k) \<Rightarrow> low v' pd j = Some t \<and> k = unat la div 4096 mod 512"
    by (elim exE conjE) (rule that, assumption+)
  from packed_get_pte [OF g(1) assms(2,3)] obtain b' where b': "packed b' 9 v'" "b' \<le> b + 2" by blast
  have "vfree v' \<noteq> {}" using packed_free [OF b'(1)] b'(1) by (simp add: packed_def)
  then obtain t where "low v' pd j = Some t" using g(4) by (cases r) auto
  moreover have "low v' pd i = Some q" if "i < 1024" "low v pd i = Some q" for i q
  proof -
    have "Low pd i \<in> slots {0, 1}" "tab v (Low pd i) = Some q" using that assms(7) by simp_all
    then have "tab v' (Low pd i) = Some q" using g(3) unfolding grown_def by blast
    then show ?thesis by simp
  qed
  moreover have "\<forall>d \<in> {0, 1}. \<forall>k < USER_PAGES. pte v' d k = pte v d k" using g(3) by (simp add: grown_def)
  ultimately show ?thesis using g(1,2) b' by blast
qed

lemma demo_tables_ok:
  obtains q4 q8 b where "vm_inv demo_tables {0, 1}" "packed b 9 demo_tables" "low demo_tables 0 4 = Some q4"
    "low demo_tables 0 8 = Some q8" "\<And>k. k < USER_PAGES \<Longrightarrow> pte demo_tables 0 k = 0"
proof -
  have la: "(0x800000 :: u64) < USERTOP" "(0x1000000 :: u64) < USERTOP" by (simp_all add: USERTOP_def)
  have j: "unat (0x800000 :: u64) div 4096 div 512 = 4" "unat (0x1000000 :: u64) div 4096 div 512 = 8" by simp_all
  from table_made [OF demo_two_ok(1,2) _ la(1) j(1), of 0] obtain r1 v1 b1 t1 where
    v1: "get_pte 0 0x800000 True demo_two = Some (r1, v1)" "vm_inv v1 {0, 1}" "packed b1 9 v1" "b1 \<le> 4" "low v1 0 4 = Some t1"
      "\<forall>k < USER_PAGES. pte v1 0 k = pte demo_two 0 k" by auto
  from table_made [OF v1(2,3) _ la(2) j(2), of 0] v1(4) obtain r2 v2 b2 t2 where
    v2: "get_pte 0 0x1000000 True v1 = Some (r2, v2)" "vm_inv v2 {0, 1}" "packed b2 9 v2" "low v2 0 8 = Some t2"
      "\<forall>i < 1024. \<forall>q. low v1 0 i = Some q \<longrightarrow> low v2 0 i = Some q" "\<forall>k < USER_PAGES. pte v2 0 k = pte v1 0 k" by auto
  have "demo_tables = v2" by (simp add: demo_tables_def v1(1) v2(1))
  then show thesis using that v1(5,6) v2 demo_two_ok(3) by simp
qed

lemma exit_range_frees_witness:
  "\<exists>v' q t. exit_range 0 0x800000 0xA00000 demo_tables = Some v' \<and> low demo_tables 0 4 = Some q \<and> mid demo_tables 0 0 = Some t \<and>
    vfree v' = vfree demo_tables \<union> {q, t}"
proof -
  obtain q4 q8 b where d: "vm_inv demo_tables {0, 1}" "packed b 9 demo_tables" "low demo_tables 0 4 = Some q4"
    "low demo_tables 0 8 = Some q8" "\<And>k. k < USER_PAGES \<Longrightarrow> pte demo_tables 0 k = 0"
    by (rule demo_tables_ok) (rule that, assumption+)
  have a: "(0x800000 :: u64) mod PGSIZE = 0" "(0xA00000 :: u64) mod PGSIZE = 0" "USER_ACCESS 0x800000 0xA00000"
    by (simp_all add: PGSIZE_def USER_ACCESS_def USERBASE_def USERTOP_def)
  have j: "{4 :: nat} = {unat (0x800000 :: u64) div 0x200000 ..< (unat (0xA00000 :: u64) + 0x1FFFFF) div 0x200000}" by auto
  obtain t where t: "mid demo_tables 0 0 = Some t" using d(3) by (auto simp: low_def split: option.splits)
  have z: "\<forall>k < USER_PAGES. pte demo_tables 0 k = 0" using d(5) by blast
  from exit_range_frees [OF d(1) packed_topped [OF d(2)] _ z a j] t d(3) show ?thesis by auto
qed

text \<open>C34: A second-level table that is freed may still lead to third-level tables outside the range:
  such a table is then reached from no space and mapped by none, and it is not free either, so nothing
  in the kernel can ever give it back.\<close>

theorem exit_range_leaks:
  assumes "vm_inv v S" and "topped v" and "pd \<in> S" and "\<forall>k < USER_PAGES. pte v pd k = 0"
    and "s mod PGSIZE = 0" and "e mod PGSIZE = 0" and "USER_ACCESS s e"
    and "J = {unat s div 0x200000 ..< (unat e + 0x1FFFFF) div 0x200000}"
    and "\<exists>j \<in> J. j div 512 = j' div 512" and "\<forall>j \<in> J. j div 512 = j' div 512 \<longrightarrow> low v pd j \<noteq> None"
    and "j' < 1024" and "j' \<notin> J" and "low v pd j' = Some q"
  shows "\<exists>v'. exit_range pd s e v = Some v' \<and> vm_inv v' S \<and> owned v' q \<and> q \<notin> tables v' S \<and> maps v' S q = {}"
proof -
  let ?a = "unat s div 0x200000" and ?b = "(unat e + 0x1FFFFF) div 0x200000"
  have z: "emptied v pd" using assms(4) by (simp add: emptied_def)
  from exit_range_ok [OF assms(1-3) z assms(5-7)] obtain v' where
    v': "exit_range pd s e v = Some v'" "vm_inv v' S" "trimmed S (gone v pd ?a ?b) (given v pd ?a ?b) v v'" by blast
  note T = vm_invD(3) [OF assms(1)]
  have s: "Low pd j' \<in> slots S" "tab v (Low pd j') = Some q" using assms(3,11,13) by simp_all
  have oq: "owned v q" using tree_okD(1) [OF T s] .
  have only: "s' = Low pd j'" if "s' \<in> slots S" "tab v s' = Some q" for s' using tree_okD(2) [OF T s that] .
  have b: "?b \<le> 1024"
  proof -
    have "unat e \<le> 0x80000000" using assms(7) by (simp add: USER_ACCESS_def USERTOP_def word_le_nat_alt)
    then have "?b \<le> (0x80000000 + 0x1FFFFF) div 0x200000" by (intro div_le_mono) simp
    then show ?thesis by simp
  qed
  have full: "full v pd ?a ?b (j' div 512)"
    using assms(8-10,13) by (auto simp: full_def low_def split: option.splits)
  then have gone: "Low pd j' \<in> gone v pd ?a ?b" unfolding gone_def by auto
  have "q \<notin> given v pd ?a ?b"
  proof
    assume "q \<in> given v pd ?a ?b"
    then consider j where "j \<in> {?a ..< ?b}" "low v pd j = Some q" | i where "full v pd ?a ?b i" "mid v pd i = Some q"
      unfolding given_def by blast
    then show False
    proof cases
      case 1
      then have "Low pd j = Low pd j'" using assms(3) b by (intro only) auto
      then show False using 1(1) assms(8,12) by simp
    next
      case 2
      then obtain j where "j \<in> {?a ..< ?b}" "j div 512 = i" unfolding full_def by blast
      then have "i < 2" using b page_index(2) [of j] by auto
      then have "Mid pd i = Low pd j'" using assms(3) 2(2) by (intro only) auto
      then show False by simp
    qed
  qed
  then have "owned v' q" using oq v'(3) by (simp add: trimmed_def owned_def limit_def)
  moreover have "q \<notin> tables v' S"
  proof
    assume "q \<in> tables v' S"
    then obtain s' where s': "s' \<in> slots S" "tab v' s' = Some q" by (auto simp: tables_def)
    then have "tab v s' = Some q" "s' \<notin> gone v pd ?a ?b" using v'(3) by (auto simp: trimmed_def split: if_splits)
    then show False using only [OF s'(1)] gone by simp
  qed
  moreover have "(d, k) \<notin> maps v' S q" for d k
  proof
    assume dk: "(d, k) \<in> maps v' S q"
    then have "d \<in> S" "k < USER_PAGES" by (simp_all add: maps_def)
    moreover have "npage v' = npage v" using v'(3) by (simp add: trimmed_def)
    ultimately have "entry_frame v (pte v d k) = Some q" using dk v'(3) entry_frame_npage [of v' v] by (simp add: maps_def trimmed_def)
    then have "q \<notin> tables v S" using leaf_frame [OF assms(1) \<open>d \<in> S\<close> \<open>k < USER_PAGES\<close>] by blast
    then show False using tables_slot [OF s] by simp
  qed
  ultimately show ?thesis using v'(1,2) by auto
qed

lemma exit_range_leaks_witness:
  "\<exists>v' q. exit_range 0 0x800000 0xA00000 demo_tables = Some v' \<and> low demo_tables 0 8 = Some q \<and> owned v' q \<and>
    q \<notin> tables v' {0, 1}"
proof -
  obtain q4 q8 b where d: "vm_inv demo_tables {0, 1}" "packed b 9 demo_tables" "low demo_tables 0 4 = Some q4"
    "low demo_tables 0 8 = Some q8" "\<And>k. k < USER_PAGES \<Longrightarrow> pte demo_tables 0 k = 0"
    by (rule demo_tables_ok) (rule that, assumption+)
  have a: "(0x800000 :: u64) mod PGSIZE = 0" "(0xA00000 :: u64) mod PGSIZE = 0" "USER_ACCESS 0x800000 0xA00000"
    by (simp_all add: PGSIZE_def USER_ACCESS_def USERBASE_def USERTOP_def)
  have j: "{4 :: nat} = {unat (0x800000 :: u64) div 0x200000 ..< (unat (0xA00000 :: u64) + 0x1FFFFF) div 0x200000}" by auto
  have z: "\<forall>k < USER_PAGES. pte demo_tables 0 k = 0" using d(5) by blast
  from exit_range_leaks [OF d(1) packed_topped [OF d(2)] _ z a j _ _ _ _ d(4)] d(3,4) show ?thesis by auto
qed
text \<open>When no frame is left and the new space already has the table for the address, copying a
  mapped page fails an assertion (the kernel panics), although the caller handles \<open>-E_NO_MEM\<close> and the
  code returns it when the table is what cannot be allocated.\<close>

lemma copy_without_memory_panics:
  assumes "vm_inv v S" and "to \<in> S" and "frm \<in> S" and "vfree v = {}"
    and "s mod PGSIZE = 0" and "e mod PGSIZE = 0" and "USER_ACCESS s e" and "pte v frm (unat s div 4096) \<noteq> 0"
  shows "copy_range to frm s e v =
    (if low v to (unat s div 4096 div 512) = None then Some (- E_NO_MEM, v) else None)"
proof -
  let ?k = "unat s div 4096"
  have la: "s < USERTOP" using assms(7) by (auto simp: USER_ACCESS_def)
  have k: "?k < USER_PAGES" using user_index(4) [OF la] by (simp add: USER_PAGES_def)
  from assms(8) obtain t where t: "low v frm (?k div 512) = Some t" "ram v t (?k mod 512) = pte v frm ?k"
    by (auto simp: pte_def split: option.splits)
  obtain f where f: "entry_frame v (pte v frm ?k) = Some f" using leaf_zero [OF assms(1,3) k] assms(8) by auto
  then have f': "valid (pte v frm ?k)" "pte2page (pte v frm ?k) v = Some f"
    by (auto simp: entry_frame_def pte2page_def split: if_splits)
  from get_pte_ok [OF assms(1,2) la, of True] obtain r v1 where g: "get_pte to s True v = Some (r, v1)"
    "grown S 2 v v1" "low v to (?k div 512) \<noteq> None \<longrightarrow> v1 = v"
    "case r of None \<Rightarrow> low v1 to (?k div 512) = None | Some (t, j) \<Rightarrow> low v1 to (?k div 512) = Some t"
    by (auto split: option.splits)
  have none: "alloc_pages 1 v = Some (None, v)" using alloc_page_cases [OF vm_invD(2) [OF assms(1)]] assms(4) by fastforce
  have same: "v1 = v"
  proof -
    have "next_table a b True v = Some (x, w) \<Longrightarrow> w = v" for a b x w
      using none by (auto simp: next_table_def bind_eq_Some_conv split: if_splits)
    then show ?thesis using g(1)
      by (auto simp: get_pte_def bind_eq_Some_conv split: option.splits prod.splits) metis+
  qed
  have copy: "copy_page to s (t, ?k mod 512) v = (if low v to (?k div 512) = None then Some (- E_NO_MEM, v) else None)"
    using g(1,4) none t(2) f'(2) unfolding same by (cases r) (auto simp: copy_page_def Let_def)
  have "copy_loop to frm s e v = (if low v to (?k div 512) = None then Some (- E_NO_MEM, v) else None)"
    by (subst copy_loop.simps) (simp add: get_pte_look [OF assms(1,3) la] t f'(1) copy)
  then show ?thesis using assms(5-7) by (simp add: copy_range_def)
qed

lemma drained: "vm_inv v S \<Longrightarrow> \<exists>v'. vm_inv v' S \<and> vfree v' = {} \<and> npage v' = npage v \<and> ram v' = ram v"
proof (induction "card (vfree v)" arbitrary: v rule: less_induct)
  case less
  from less.prems show ?case
  proof (cases rule: alloc_taken)
    case (some g v1)
    have "card (vfree v1) < card (vfree v)"
      using some(2) card_Diff1_less [OF finite_vfree [OF less.prems], of g] unfolding taken_def by metis
    from less.hyps [OF this some(5)] show ?thesis using some(2,3) by (simp add: taken_def)
  qed (use less.prems in auto)
qed

lemma same_ram: "npage v' = npage v \<Longrightarrow> ram v' = ram v \<Longrightarrow> pte v' = pte v \<and> low v' = low v \<and> mid v' = mid v"
  by (simp add: fun_eq_iff pte_def low_def mid_def entry_frame_npage [of v' v] split: option.splits)

lemma copy_without_memory_panics_witness:
  "\<exists>v. vfree v = {} \<and> pte v 0 0x800 \<noteq> 0 \<and> copy_range 1 0 0x800000 0x801000 v = None"
proof -
  obtain b g where d: "vm_inv demo_mapped {0, 1}" "packed b 9 demo_mapped" "b \<le> 5" "page_ref g demo_mapped = 1"
    "entry_frame demo_mapped (pte demo_mapped 0 0x800) = Some g" "maps demo_mapped {0, 1} g = {(0, 0x800)}"
    "\<And>k. k < USER_PAGES \<Longrightarrow> pte demo_mapped 1 k = 0" "\<And>k. k < USER_PAGES \<Longrightarrow> k \<noteq> 0x800 \<Longrightarrow> pte demo_mapped 0 k = 0"
    by (rule demo_mapped_ok) (rule that, assumption+)
  have la: "(0x800000 :: u64) < USERTOP" "unat (0x800000 :: u64) div 4096 div 512 = 4" by (simp_all add: USERTOP_def)
  from table_made [OF d(1,2) _ la, of 1] d(3) obtain r v1 b1 t where v1: "vm_inv v1 {0, 1}" "low v1 1 4 = Some t"
    "\<forall>d \<in> {0, 1}. \<forall>k < USER_PAGES. pte v1 d k = pte demo_mapped d k" by auto
  from drained [OF v1(1)] obtain v where v: "vm_inv v {0, 1}" "vfree v = {}" "npage v = npage v1" "ram v = ram v1" by blast
  have u: "0x800 < USER_PAGES" by (simp add: USER_PAGES_def)
  have "pte demo_mapped 0 0x800 \<noteq> 0" using d(5) by auto
  then have p: "pte v 0 0x800 \<noteq> 0" "low v 1 4 = Some t" using v1(2,3) same_ram [OF v(3,4)] u by simp_all
  have a: "(0x800000 :: u64) mod PGSIZE = 0" "(0x801000 :: u64) mod PGSIZE = 0" "USER_ACCESS 0x800000 0x801000"
    by (simp_all add: PGSIZE_def USER_ACCESS_def USERBASE_def USERTOP_def)
  have k: "unat (0x800000 :: u64) div 4096 = 0x800" "(0x800 :: nat) div 512 = 4" by simp_all
  have "copy_range 1 0 0x800000 0x801000 v = None"
    using copy_without_memory_panics [OF v(1) _ _ v(2) a, of 1 0, unfolded k] p by simp
  then show ?thesis using v(2) p(1) by blast
qed

end
