(* ===== verification/Vmm_Theorems.thy ===== *)
theory Vmm_Theorems
  imports Vmm_Space Paging_Theorems
begin

text \<open>
  The properties of virtual memory areas: mapping an area, the checks of user memory, copying and taking
  down a space.  The witnesses use the memory of \<open>Paging_Theorems\<close>, with a page at \<open>0x800000\<close> of space 0.
\<close>

subsection \<open>Example states\<close>

definition demo_area :: vma where
  "demo_area = \<lparr>vm_start = 0x800000, vm_end = 0x802000, vm_flags = 1\<rparr>"

definition demo_stack :: vma where
  "demo_stack = \<lparr>vm_start = 0x7FF00000, vm_end = 0x80000000, vm_flags = 11\<rparr>"

definition demo_mm :: mm where
  "demo_mm = \<lparr>mmap_list = [demo_area, demo_stack], mmap_cache = Some demo_stack, mm_pgdir = Some 0, map_count = 2, mm_count = 0\<rparr>"

lemma demo_mm_ok: "space_ok demo_mm"
  by (simp add: space_ok_def mm_ok_def demo_mm_def vma_user_def demo_area_def demo_stack_def PGSIZE_def USER_ACCESS_def
      USERBASE_def USERTOP_def)

subsection \<open>Areas\<close>

lemma ROUNDDOWN_page: "ROUNDDOWN a PGSIZE mod PGSIZE = 0"
proof -
  have pg: "unat PGSIZE = 4096" by (simp add: PGSIZE_def)
  have "unat (a mod PGSIZE) = unat a mod 4096" by (simp add: unat_mod pg)
  moreover have "a mod PGSIZE \<le> a" by (simp add: word_le_nat_alt unat_mod)
  ultimately have "unat (ROUNDDOWN a PGSIZE) = unat a - unat a mod 4096" by (simp add: ROUNDDOWN_def unat_sub)
  then have "unat (ROUNDDOWN a PGSIZE mod PGSIZE) = 0" by (simp add: unat_mod pg)
  then show ?thesis by (simp only: unat_eq_0)
qed

lemma kmalloc_vma: "vma_create s e fl os =
  (if fst (kmalloc os) then Some \<lparr>vm_start = s, vm_end = e, vm_flags = fl\<rparr> else None, snd (kmalloc os))"
  by (simp add: vma_create_def split: prod.split)

text \<open>C40: Mapping an area gives \<open>-E_INVAL\<close> when the range is not one of user memory or its first address
  lies in an area, \<open>-E_NO_MEM\<close> when the descriptor cannot be allocated, and otherwise adds the area of
  whole pages, the list staying sorted and free of overlaps.  An area that starts in a gap and reaches
  into a later one is not an error: the assertion of the insertion fails and the kernel panics.\<close>

theorem mm_map_outcome:
  assumes "space_ok mm" and "n = \<lparr>vm_start = ROUNDDOWN addr PGSIZE, vm_end = ROUNDUP (addr + len) PGSIZE, vm_flags = fl\<rparr>"
  shows "if \<not> USER_ACCESS (vm_start n) (vm_end n) \<or> (\<exists>a \<in> set (mmap_list mm). covers a (vm_start n))
     then \<exists>c. mm_map mm addr len fl os = Some (- E_INVAL, None, mm\<lparr>mmap_cache := c\<rparr>, os)
     else if \<not> fst (kmalloc os)
     then \<exists>c. mm_map mm addr len fl os = Some (- E_NO_MEM, None, mm\<lparr>mmap_cache := c\<rparr>, snd (kmalloc os))
     else if \<exists>a \<in> set (mmap_list mm). overlaps a n then mm_map mm addr len fl os = None
     else \<exists>mm'. mm_map mm addr len fl os = Some (0, Some n, mm', snd (kmalloc os)) \<and> space_ok mm' \<and>
       set (mmap_list mm') = insert n (set (mmap_list mm))"
proof -
  let ?s = "vm_start n" and ?e = "vm_end n"
  have n: "ROUNDDOWN addr PGSIZE = ?s" "ROUNDUP (addr + len) PGSIZE = ?e" "\<lparr>vm_start = ?s, vm_end = ?e, vm_flags = fl\<rparr> = n"
    using assms(2) by simp_all
  have mm: "mm_ok mm" "areas_ok (mmap_list mm)" using assms(1) by (simp_all add: space_ok_def mm_ok_def)
  from mm(1) obtain c where c: "find_vma mm ?s = (find_loop (mmap_list mm) ?s, mm\<lparr>mmap_cache := c\<rparr>)" "mm_ok (mm\<lparr>mmap_cache := c\<rparr>)"
    by (rule find_vma_ok)
  let ?mm = "mm\<lparr>mmap_cache := c\<rparr>"
  have map: "mm_map mm addr len fl os = (if \<not> USER_ACCESS ?s ?e then Some (- E_INVAL, None, mm, os)
      else if (case find_loop (mmap_list mm) ?s of None \<Rightarrow> False | Some v \<Rightarrow> ?e > vm_start v) then Some (- E_INVAL, None, ?mm, os)
      else if fst (kmalloc os) then do { mm2 \<leftarrow> insert_vma_struct ?mm n; Some (0, Some n, mm2, snd (kmalloc os)) }
      else Some (- E_NO_MEM, None, ?mm, snd (kmalloc os)))"
    by (simp add: mm_map_def Let_def n c(1) kmalloc_vma)
  consider "\<not> USER_ACCESS ?s ?e" | a where "USER_ACCESS ?s ?e" "a \<in> set (mmap_list mm)" "covers a ?s" |
    "USER_ACCESS ?s ?e" "\<And>a. a \<in> set (mmap_list mm) \<Longrightarrow> \<not> covers a ?s" by blast
  then show ?thesis
  proof cases
    case 1
    then show ?thesis using map by (auto intro!: exI [of _ "mmap_cache mm"])
  next
    case 2
    then have "find_loop (mmap_list mm) ?s = Some a" using find_loop_iff [OF mm(2)] by blast
    moreover have "vm_start a < ?e" using 2(1,3) by (auto simp: covers_def USER_ACCESS_def word_le_nat_alt word_less_nat_alt)
    ultimately show ?thesis using map 2 by auto
  next
    case 3
    then have f: "find_loop (mmap_list mm) ?s = None" by (simp add: find_loop_None)
    have se: "?s < ?e" using 3(1) by (simp add: USER_ACCESS_def)
    have u: "vma_user n" using 3(1) ROUNDDOWN_page by (simp add: vma_user_def assms(2) ROUNDUP_def)
    note I = insert_ok [OF c(2) se]
    show ?thesis
    proof (cases "fst (kmalloc os) \<and> (\<forall>a \<in> set (mmap_list mm). \<not> overlaps a n)")
      case True
      then obtain mm' where mm': "insert_vma_struct ?mm n = Some mm'" "mm_ok mm'" "set (mmap_list mm') = insert n (set (mmap_list mm))"
        using I by auto
      then have "space_ok mm'" using assms(1) u by (simp add: space_ok_def)
      then show ?thesis using map f 3 True mm' by auto
    next
      case False
      then show ?thesis using map f 3 I by auto
    qed
  qed
qed

lemma mm_map_outcome_witness:
  "(\<exists>mm'. mm_map demo_mm 0x900010 0x1000 3 [True] = Some (0, Some \<lparr>vm_start = 0x900000, vm_end = 0x902000, vm_flags = 3\<rparr>, mm', []) \<and>
     space_ok mm') \<and> mm_map demo_mm 0x700000 0x101000 3 [True] = None"
proof -
  let ?n = "\<lparr>vm_start = 0x900000, vm_end = 0x902000, vm_flags = 3\<rparr>" and ?o = "\<lparr>vm_start = 0x700000, vm_end = 0x801000, vm_flags = 3\<rparr>"
  have "?n = \<lparr>vm_start = ROUNDDOWN 0x900010 PGSIZE, vm_end = ROUNDUP (0x900010 + 0x1000) PGSIZE, vm_flags = 3\<rparr>"
    "?o = \<lparr>vm_start = ROUNDDOWN 0x700000 PGSIZE, vm_end = ROUNDUP (0x700000 + 0x101000) PGSIZE, vm_flags = 3\<rparr>"
    by (simp_all add: ROUNDDOWN_def ROUNDUP_def PGSIZE_def)
  from this [THEN mm_map_outcome [OF demo_mm_ok], of "[True]"] show ?thesis
    by (auto simp add: demo_mm_def demo_area_def demo_stack_def covers_def overlaps_def USER_ACCESS_def USERBASE_def USERTOP_def kmalloc_def)
qed

subsection \<open>User memory\<close>

text \<open>C36: The check of a user range accepts exactly when the range is not empty, lies in user memory
  without wrapping around, and every byte of it is in an area that allows the access (and, for a write
  to a stack, is not in the guard page at its bottom): one walk over the areas, with a cache,
  decides what a test of each byte would.\<close>

theorem user_mem_check_bytes:
  assumes "space_ok mm"
  shows "\<exists>mm'. user_mem_check (Some mm) addr len w =
      Some (0x200000 \<le> unat addr \<and> 0 < unat len \<and> unat addr + unat len \<le> 0x80000000 \<and>
        (\<forall>i < unat len. \<exists>a \<in> set (mmap_list mm). covers a (addr + of_nat i) \<and> area_allows a (addr + of_nat i) w), Some mm') \<and>
    space_ok mm' \<and> mmap_list mm' = mmap_list mm"
proof -
  have "mm_ok mm" using assms by (simp add: space_ok_def)
  from user_mem_check_ok [OF this, of addr len w, unfolded byte_ok_def] obtain c where
    "user_mem_check (Some mm) addr len w =
      Some (0x200000 \<le> unat addr \<and> 0 < unat len \<and> unat addr + unat len \<le> 0x80000000 \<and>
        (\<forall>i < unat len. \<exists>a \<in> set (mmap_list mm). covers a (addr + of_nat i) \<and> area_allows a (addr + of_nat i) w),
        Some (mm\<lparr>mmap_cache := c\<rparr>))" "mm_ok (mm\<lparr>mmap_cache := c\<rparr>)" by blast
  then show ?thesis using assms by (intro exI [of _ "mm\<lparr>mmap_cache := c\<rparr>"]) (simp add: space_ok_def)
qed

lemma user_mem_check_bytes_witness:
  "\<exists>mm'. user_mem_check (Some demo_mm) 0x7FF00FFF 1 True = Some (False, Some mm')"
proof -
  from user_mem_check_bytes [OF demo_mm_ok, of "0x7FF00FFF" 1 True] show ?thesis
    by (auto simp: demo_mm_def demo_area_def demo_stack_def covers_def area_allows_def PGSIZE_def VM_WRITE_def VM_STACK_def)
qed

text \<open>The loops of the user memory checks end, on any space, even a broken one, and any arguments.\<close>

lemma user_checks_return:
  "(\<exists>r. user_mem_check mmo addr len w = Some r) \<and> (\<exists>r. copy_from_user mmo dst addr len w m = Some r) \<and>
   (\<exists>r. copy_to_user mmo addr dst len m = Some r) \<and> (\<exists>r. copy_string mmo dst addr len m = Some r)"
proof -
  have u: "\<exists>ok mmo1. user_mem_check mmo addr len w = Some (ok, mmo1)" for w
    using user_mem_check_returns [of mmo addr len w] by auto
  have "\<exists>r. copy_from_user mmo dst addr len w m = Some r" using u [of w] by (auto simp: copy_from_user_def)
  moreover have "\<exists>r. copy_to_user mmo addr dst len m = Some r" using u [of True] by (auto simp: copy_to_user_def)
  moreover have "\<exists>r. copy_string mmo dst addr len m = Some r" using string_loop_returns by (simp add: copy_string_def)
  ultimately show ?thesis using u [of w] by blast
qed

text \<open>C37: Copying a string from user memory succeeds exactly when it ends within the bound and all its
  bytes, the null byte included, are readable by the user: then exactly these bytes are copied.  When it
  fails, no byte outside the buffer has been written.  (The check is made a page at a time.)\<close>

theorem copy_string_exact:
  assumes "space_ok mm" and "unat dst + unat maxn < 2 ^ 64"
    and "unat dst + unat maxn \<le> unat src \<or> unat src + unat maxn \<le> unat dst"
  shows "\<exists>ok mm' m'. copy_string (Some mm) dst src maxn m = Some (ok, Some mm', m') \<and> space_ok mm' \<and> mmap_list mm' = mmap_list mm \<and>
    (if \<exists>n < unat maxn. m (unat src + n) = 0 \<and> (\<forall>i < n. m (unat src + i) \<noteq> 0) \<and>
        (\<forall>i \<le> n. \<exists>a \<in> set (mmap_list mm). covers a (src + of_nat i) \<and> area_allows a (src + of_nat i) False)
     then ok \<and> (\<exists>n. strlen m (unat src) = Some n \<and>
       (\<forall>x. m' x = (if unat dst \<le> x \<and> x \<le> unat dst + n then m (unat src + (x - unat dst)) else m x)))
     else \<not> ok \<and> (\<forall>x. x < unat dst \<or> unat dst + unat maxn \<le> x \<longrightarrow> m' x = m x))"
proof -
  let ?R = "string_readable (mmap_list mm) m src (unat maxn)"
  from copy_string_ok [OF assms] obtain ok c m' where
    s: "copy_string (Some mm) dst src maxn m = Some (ok, Some (mm\<lparr>mmap_cache := c\<rparr>), m')" "ok \<longleftrightarrow> (\<exists>n. ?R n)"
      "space_ok (mm\<lparr>mmap_cache := c\<rparr>)" "\<And>n. ?R n \<Longrightarrow> string_copied m (unat dst) (unat src) n m'"
      "\<forall>x. x < unat dst \<or> unat dst + unat maxn \<le> x \<longrightarrow> m' x = m x" by blast
  have R: "(\<exists>n < unat maxn. m (unat src + n) = 0 \<and> (\<forall>i < n. m (unat src + i) \<noteq> 0) \<and>
      (\<forall>i \<le> n. \<exists>a \<in> set (mmap_list mm). covers a (src + of_nat i) \<and> area_allows a (src + of_nat i) False)) \<longleftrightarrow> (\<exists>n. ?R n)"
    by (auto simp: string_readable_def nul_at_def byte_ok_def)
  have len: "strlen m (unat src) = Some n" if "?R n" for n
  proof -
    have "cstr m (unat src) (map (\<lambda>i. m (unat src + i)) [0 ..< n])"
      using that by (auto simp: cstr_iff string_readable_def nul_at_def)
    from strlen_cstr [OF this] show ?thesis by simp
  qed
  show ?thesis
  proof (cases "\<exists>n. ?R n")
    case True
    then obtain n where n: "?R n" by blast
    have "\<exists>n. strlen m (unat src) = Some n \<and>
       (\<forall>x. m' x = (if unat dst \<le> x \<and> x \<le> unat dst + n then m (unat src + (x - unat dst)) else m x))"
      using len [OF n] s(4) [OF n] by (simp add: string_copied_def)
    then show ?thesis unfolding R using s(1-3) True by (intro exI [of _ ok]) simp
  next
    case False
    then show ?thesis unfolding R using s(1-3,5) by (intro exI [of _ ok]) simp
  qed
qed

text \<open>A string of two bytes at \<open>0x800FFF\<close>, across a page boundary.\<close>

definition demo_string :: mem where
  "demo_string = (\<lambda>x. if x = 0x800FFF then 104 else if x = 0x801000 then 105 else 0)"

lemma copy_string_exact_witness:
  "\<exists>mm' m'. copy_string (Some demo_mm) 0x1000 0x800FFF 16 demo_string = Some (True, Some mm', m') \<and>
    m' 0x1000 = 104 \<and> m' 0x1001 = 105 \<and> m' 0x1002 = 0"
proof -
  have le: "i \<le> 2 \<longleftrightarrow> i = 0 \<or> i = 1 \<or> i = 2" for i :: nat by auto
  have "\<exists>n < unat (16 :: u64). demo_string (unat (0x800FFF :: u64) + n) = 0 \<and> (\<forall>i < n. demo_string (unat (0x800FFF :: u64) + i) \<noteq> 0) \<and>
        (\<forall>i \<le> n. \<exists>a \<in> set (mmap_list demo_mm). covers a (0x800FFF + of_nat i) \<and> area_allows a (0x800FFF + of_nat i) False)"
    by (rule exI [of _ 2]) (auto simp: demo_string_def less_2_cases_iff le demo_mm_def demo_area_def covers_def area_allows_def VM_READ_def)
  with copy_string_exact [OF demo_mm_ok, of "0x1000" 16 "0x800FFF" demo_string] obtain mm' m' n where
    r: "copy_string (Some demo_mm) 0x1000 0x800FFF 16 demo_string = Some (True, Some mm', m')" "strlen demo_string 0x800FFF = Some n"
      "\<forall>x. m' x = (if 0x1000 \<le> x \<and> x \<le> 0x1000 + n then demo_string (0x800FFF + (x - 0x1000)) else demo_string x)" by auto
  have "cstr demo_string 0x800FFF [104, 105]" by (simp add: demo_string_def)
  then have "n = 2" using r(2) strlen_cstr by fastforce
  then show ?thesis using r(1,3) by (simp add: demo_string_def)
qed
subsection \<open>Whole spaces\<close>

text \<open>C38: Duplicating the areas of a space for a new process, when descriptors and frames suffice, gives
  the new space the same list of areas, and every page mapped in them a frame of its own with the same
  contents; the areas are inserted from the last to the first, and no insertion fails.  The old space
  keeps its translations and contents.\<close>

theorem dup_mmap_copies:
  assumes "vm_inv v S" and "topd \<in> S" and "frompd \<in> S" and "topd \<noteq> frompd" and "space_ok frm"
    and "mm_pgdir to = Some topd" and "mm_pgdir frm = Some frompd" and "mmap_list to = []" and "map_count to = 0"
    and "mmap_cache to = None" and "\<forall>k < USER_PAGES. pte v topd k = 0"
    and "3 * card {k \<in> area_pages (mmap_list frm). pte v frompd k \<noteq> 0} \<le> card (vfree v)"
  shows "\<exists>to' v'. dup_mmap to frm (replicate (length (mmap_list frm)) True) v = Some (0, to', [], v') \<and>
    space_ok to' \<and> mmap_list to' = mmap_list frm \<and> vm_inv v' S \<and>
    (\<forall>pd \<in> S - {topd}. \<forall>k < USER_PAGES. pte v' pd k = pte v pd k) \<and>
    (\<forall>k < USER_PAGES. case entry_frame v (pte v frompd k) of
       None \<Rightarrow> pte v' topd k = 0
     | Some f \<Rightarrow> if k \<in> area_pages (mmap_list frm)
         then \<exists>g. entry_frame v' (pte v' topd k) = Some g \<and> g \<in> vfree v \<and> page_ref g v' = 1 \<and>
           ram v' g = ram v f \<and> ram v' f = ram v f
         else pte v' topd k = 0)"
proof -
  let ?as = "mmap_list frm"
  have ok: "areas_ok ?as" "\<forall>a \<in> set ?as. vma_user a" "map_count frm = int (length ?as)"
    using assms(5) by (simp_all add: space_ok_def mm_ok_def)
  have set: "area_pages (rev ?as) = area_pages ?as" by (simp add: area_pages_def)
  have sub: "area_pages ?as \<subseteq> {..< USER_PAGES}" using vma_userD(4) ok(2) by (auto simp: area_pages_def)
  have rok: "areas_ok (rev (rev ?as) @ mmap_list to)" using ok(1) assms(8) by simp
  have ru: "\<forall>a \<in> set (rev ?as). vma_user a" using ok(2) by simp
  have os: "replicate (length ?as) True = replicate (length (rev ?as)) True @ []" by simp
  have z: "\<forall>k \<in> area_pages (rev ?as). pte v topd k = 0" using assms(11) sub unfolding set by blast
  from dup_areas_ok [OF assms(1-4) rok ru os z] assms(12) obtain v' where
    v': "dup_areas (rev ?as) topd frompd to (replicate (length ?as) True) v =
        Some (0, to\<lparr>mmap_list := ?as, map_count := int (length ?as)\<rparr>, [], v')"
      "vm_inv v' S" "copied S topd frompd (area_pages ?as) v v'"
    using assms(8,9) by (auto simp: set)
  let ?to = "to\<lparr>mmap_list := ?as, map_count := int (length ?as)\<rparr>"
  have d: "dup_mmap to frm (replicate (length ?as) True) v = Some (0, ?to, [], v')" using v'(1) assms(6,7) by (simp add: dup_mmap_def)
  have sp: "space_ok ?to" using ok assms(10) by (simp add: space_ok_def mm_ok_def)
  have n: "npage v' = npage v" using v'(3) by (simp add: copied_def)
  have other: "\<forall>pd \<in> S - {topd}. \<forall>k < USER_PAGES. pte v' pd k = pte v pd k" using v'(3) by (simp add: copied_def)
  have out: "pte v' topd k = 0" if "k < USER_PAGES" "k \<notin> area_pages ?as" for k
    using v'(3) that assms(2,11) by (simp add: copied_def)
  have "case entry_frame v (pte v frompd k) of None \<Rightarrow> pte v' topd k = 0
     | Some f \<Rightarrow> if k \<in> area_pages ?as
         then \<exists>g. entry_frame v' (pte v' topd k) = Some g \<and> g \<in> vfree v \<and> page_ref g v' = 1 \<and> ram v' g = ram v f \<and> ram v' f = ram v f
         else pte v' topd k = 0" if k: "k < USER_PAGES" for k
  proof (cases "k \<in> area_pages ?as")
    case True
    then have pc: "page_copied v topd frompd v' k" using v'(3) by (simp add: copied_def)
    show ?thesis
    proof (cases "entry_frame v (pte v frompd k)")
      case None
      then have "pte v frompd k = 0" using leaf_zero [OF assms(1,3) k] by simp
      then show ?thesis using None pc by (simp add: page_copied_def)
    next
      case (Some f)
      then have "pte v frompd k \<noteq> 0" by auto
      with pc Some obtain g where g: "entry_frame v (pte v' topd k) = Some g" "g \<in> vfree v" "page_ref g v' = 1" "ram v' g = ram v f"
        by (auto simp: page_copied_def)
      have "owned v f" "f \<notin> tables v S" using leaf_frame [OF assms(1,3) k Some] by auto
      then have "ram v' f = ram v f" using v'(3) by (simp add: copied_def)
      then show ?thesis using Some True g entry_frame_npage [OF n] by auto
    qed
  qed (use out k in \<open>simp split: option.split\<close>)
  then show ?thesis using d sp v'(2) other by (intro exI [of _ ?to] exI [of _ v']) simp
qed

definition demo_from :: mm where
  "demo_from = \<lparr>mmap_list = [demo_area], mmap_cache = None, mm_pgdir = Some 0, map_count = 1, mm_count = 0\<rparr>"

definition demo_to :: mm where
  "demo_to = \<lparr>mmap_list = [], mmap_cache = None, mm_pgdir = Some 1, map_count = 0, mm_count = 0\<rparr>"

lemma demo_from_ok: "space_ok demo_from" "area_pages (mmap_list demo_from) = {0x800, 0x801}"
proof -
  show "space_ok demo_from"
    by (simp add: space_ok_def mm_ok_def demo_from_def vma_user_def demo_area_def PGSIZE_def USER_ACCESS_def USERBASE_def USERTOP_def)
  show "area_pages (mmap_list demo_from) = {0x800, 0x801}" by (auto simp: demo_from_def demo_area_def vma_pages_def)
qed

lemma dup_mmap_copies_witness:
  "\<exists>to' v' f g. dup_mmap demo_to demo_from [True] demo_mapped = Some (0, to', [], v') \<and> mmap_list to' = [demo_area] \<and>
    entry_frame demo_mapped (pte demo_mapped 0 0x800) = Some f \<and> entry_frame v' (pte v' 1 0x800) = Some g \<and> ram v' g = ram demo_mapped f"
proof -
  obtain b g where d: "vm_inv demo_mapped {0, 1}" "packed b 9 demo_mapped" "b \<le> 5" "page_ref g demo_mapped = 1"
    "entry_frame demo_mapped (pte demo_mapped 0 0x800) = Some g" "maps demo_mapped {0, 1} g = {(0, 0x800)}"
    "\<And>k. k < USER_PAGES \<Longrightarrow> pte demo_mapped 1 k = 0" "\<And>k. k < USER_PAGES \<Longrightarrow> k \<noteq> 0x800 \<Longrightarrow> pte demo_mapped 0 k = 0"
    by (rule demo_mapped_ok) (rule that, assumption+)
  have u: "0x800 < USER_PAGES" "0x801 < USER_PAGES" by (simp_all add: USER_PAGES_def)
  have "pte demo_mapped 0 0x800 \<noteq> 0" using d(5) by auto
  then have "{k \<in> area_pages (mmap_list demo_from). pte demo_mapped 0 k \<noteq> 0} = {0x800}" using d(8) [OF u(2)] demo_from_ok(2) by auto
  then have "3 * card {k \<in> area_pages (mmap_list demo_from). pte demo_mapped 0 k \<noteq> 0} \<le> card (vfree demo_mapped)"
    using packed_free [OF d(2)] d(3) by simp
  from dup_mmap_copies [OF d(1) _ _ _ demo_from_ok(1) _ _ _ _ _ _ this, of 1 demo_to] d(7) obtain to' v' where
    "dup_mmap demo_to demo_from (replicate (length (mmap_list demo_from)) True) demo_mapped = Some (0, to', [], v')"
    "mmap_list to' = mmap_list demo_from"
    "\<forall>k < USER_PAGES. case entry_frame demo_mapped (pte demo_mapped 0 k) of None \<Rightarrow> pte v' 1 k = 0
     | Some f \<Rightarrow> if k \<in> area_pages (mmap_list demo_from)
         then \<exists>g. entry_frame v' (pte v' 1 k) = Some g \<and> g \<in> vfree demo_mapped \<and> page_ref g v' = 1 \<and>
           ram v' g = ram demo_mapped f \<and> ram v' f = ram demo_mapped f
         else pte v' 1 k = 0" by (auto simp: demo_to_def demo_from_def)
  moreover from this(3) u(1) d(5) demo_from_ok(2) obtain h where "entry_frame v' (pte v' 1 0x800) = Some h" "ram v' h = ram demo_mapped g" by force
  ultimately show ?thesis using d(5) by (auto simp: demo_from_def)
qed

text \<open>C39: Taking down a space whose mapped pages all lie in its areas returns and leaves it without a
  mapping; its root is given back, and so is every frame that only this space mapped.  The other spaces
  keep their translations, and the invariant of the tables holds without the space.\<close>

theorem exit_space_gives_back:
  assumes "vm_inv v S" and "topped v" and "pd \<in> S" and "mm_pgdir mm = Some pd" and "mm_count mm = 0" and "space_ok mm"
    and "\<forall>k < USER_PAGES. pte v pd k \<noteq> 0 \<longrightarrow> k \<in> area_pages (mmap_list mm)"
  shows "\<exists>v'. do { v1 \<leftarrow> exit_mmap mm v; put_pgdir pd v1 } = Some v' \<and> vm_inv v' (S - {pd}) \<and> pd \<in> vfree v' \<and>
    {f. maps v S f \<noteq> {} \<and> maps v S f \<subseteq> {pd} \<times> UNIV} \<subseteq> vfree v' \<and>
    (\<forall>pd' \<in> S - {pd}. \<forall>k < USER_PAGES. pte v' pd' k = pte v pd' k)"
proof -
  from exit_mmap_ok [OF assms(1-6)] assms(7) obtain v1 where v1: "exit_mmap mm v = Some v1" "vm_inv v1 S" "topped v1" "emptied v1 pd"
    "\<forall>pd' \<in> S. pd' \<noteq> pd \<longrightarrow> (\<forall>k < USER_PAGES. pte v1 pd' k = pte v pd' k)"
    "{f. maps v S f \<noteq> {} \<and> maps v1 S f = {}} \<subseteq> vfree v1" "npage v1 = npage v" by blast
  from put_pgdir_ok [OF v1(2,3) assms(3) v1(4)] obtain v' where
    v': "put_pgdir pd v1 = Some v'" "vm_inv v' (S - {pd})" "vfree v' = insert pd (vfree v1)"
      "\<forall>pd' \<in> S - {pd}. \<forall>k < USER_PAGES. pte v' pd' k = pte v1 pd' k" by blast
  have "f \<in> vfree v'" if f: "maps v S f \<noteq> {}" "maps v S f \<subseteq> {pd} \<times> UNIV" for f
  proof (cases "f \<in> vfree v1")
    case False
    then have "maps v1 S f \<noteq> {}" using v1(6) f(1) by blast
    then obtain d k where dk: "(d, k) \<in> maps v1 S f" by auto
    then have e: "entry_frame v1 (pte v1 d k) = Some f" "d \<in> S" "k < USER_PAGES" by (simp_all add: maps_def)
    have "d \<noteq> pd" using e v1(4) by (auto simp: emptied_def)
    moreover from this have "pte v1 d k = pte v d k" using v1(5) e by blast
    ultimately have "(d, k) \<in> maps v S f" using e entry_frame_npage [OF v1(7)] by (simp add: maps_def)
    then show ?thesis using f(2) \<open>d \<noteq> pd\<close> by blast
  qed (use v'(3) in simp)
  then show ?thesis using v1(1,5) v' by (intro exI [of _ v']) auto
qed
lemma exit_space_gives_back_witness:
  "\<exists>g v'. entry_frame demo_mapped (pte demo_mapped 0 0x800) = Some g \<and>
    do { v1 \<leftarrow> exit_mmap demo_from demo_mapped; put_pgdir 0 v1 } = Some v' \<and> {0, g} \<subseteq> vfree v' \<and> vm_inv v' {1}"
proof -
  obtain b g where d: "vm_inv demo_mapped {0, 1}" "packed b 9 demo_mapped" "b \<le> 5" "page_ref g demo_mapped = 1"
    "entry_frame demo_mapped (pte demo_mapped 0 0x800) = Some g" "maps demo_mapped {0, 1} g = {(0, 0x800)}"
    "\<And>k. k < USER_PAGES \<Longrightarrow> pte demo_mapped 1 k = 0" "\<And>k. k < USER_PAGES \<Longrightarrow> k \<noteq> 0x800 \<Longrightarrow> pte demo_mapped 0 k = 0"
    by (rule demo_mapped_ok) (rule that, assumption+)
  have p: "\<forall>k < USER_PAGES. pte demo_mapped 0 k \<noteq> 0 \<longrightarrow> k \<in> area_pages (mmap_list demo_from)"
    unfolding demo_from_ok(2) using d(8) by auto
  have "mm_pgdir demo_from = Some 0" "mm_count demo_from = 0" "{0, 1 :: nat} - {0} = {1}" by (auto simp: demo_from_def)
  with exit_space_gives_back [OF d(1) packed_topped [OF d(2)] _ this(1,2) demo_from_ok(1) p] obtain v' where
    v': "do { v1 \<leftarrow> exit_mmap demo_from demo_mapped; put_pgdir 0 v1 } = Some v'" "vm_inv v' {1}" "0 \<in> vfree v'"
      "{f. maps demo_mapped {0, 1} f \<noteq> {} \<and> maps demo_mapped {0, 1} f \<subseteq> {0} \<times> UNIV} \<subseteq> vfree v'" by auto
  moreover have "g \<in> {f. maps demo_mapped {0, 1} f \<noteq> {} \<and> maps demo_mapped {0, 1} f \<subseteq> {0} \<times> UNIV}" unfolding mem_Collect_eq d(6) by simp
  ultimately have "{0, g} \<subseteq> vfree v'" by blast
  then show ?thesis using d(5) v'(1,2) by blast
qed

end
