(* ===== verification/Proc_Table.thy ===== *)
theory Proc_Table
  imports Sched_RR Libs_Num
begin

unbundle bit_operations_syntax

text \<open>
  The process table of kern/process/proc.c (labcode/lab8): the list of all processes, the hash lists by
  process number, the pointers that tie a process to its parent, its children and its siblings, the
  choice of a new process number, and the parts of \<open>do_exit\<close>, \<open>do_wait\<close> and \<open>do_kill\<close> that work on them.

  A descriptor is named by its address, as in \<open>Proc_State\<close>, whose state \<open>kern\<close> is a part of the state
  here.  The nodes \<^verbatim>\<open>list_link\<close> of all descriptors and the head \<^verbatim>\<open>proc_list\<close> form one store of links,
  the nodes \<^verbatim>\<open>hash_link\<close> and the heads \<^verbatim>\<open>hash_list[i]\<close> another.  The static variables of \<^verbatim>\<open>get_pid\<close> are
  part of the state.  Following a null pointer is \<open>None\<close>.  The scheduling class is the one the kernel is
  built with (round robin).
\<close>

datatype list_entry = ProcList | ListLink nat
datatype hash_entry = HashHead nat | HashLink nat

record ptab =
  sched :: kern
  proc_list :: "list_entry links"
  hash_list :: "hash_entry links"
  nr_process :: int
  next_safe :: int
  last_pid :: int

abbreviation (input) E_NO_FREE_PROC :: int where "E_NO_FREE_PROC \<equiv> 5"
abbreviation (input) E_KILLED :: int where "E_KILLED \<equiv> 9"

definition MAX_PROCESS :: int where "MAX_PROCESS = 4096"
definition MAX_PID :: int where "MAX_PID = MAX_PROCESS * 2"
definition HASH_SHIFT :: nat where "HASH_SHIFT = 10"
definition HASH_LIST_SIZE :: nat where "HASH_LIST_SIZE = 2 ^ HASH_SHIFT"

definition pid_hashfn :: "int \<Rightarrow> nat" where
  "pid_hashfn x = unat (hash32 (word_of_int x) HASH_SHIFT)"

text \<open>Reading and writing a descriptor.\<close>

abbreviation pr :: "ptab \<Rightarrow> nat \<Rightarrow> proc_struct" where "pr t \<equiv> procs (sched t)"
abbreviation cur :: "ptab \<Rightarrow> nat" where "cur t \<equiv> current (sched t)"

definition set_proc :: "nat \<Rightarrow> (proc_struct \<Rightarrow> proc_struct) \<Rightarrow> ptab \<Rightarrow> ptab" where
  "set_proc p f t = t\<lparr>sched := upd_proc p f (sched t)\<rparr>"

definition wake :: "nat \<Rightarrow> ptab \<Rightarrow> ptab option" where
  "wake p t = do { s \<leftarrow> wakeup_proc default_sched_class p (sched t); Some (t\<lparr>sched := s\<rparr>) }"

definition resched :: "ptab \<Rightarrow> ptab option" where
  "resched t = do { s \<leftarrow> schedule default_sched_class (sched t); Some (t\<lparr>sched := s\<rparr>) }"

subsection \<open>Descriptors\<close>

text \<open>What \<^verbatim>\<open>kmalloc\<close> returns is an argument.  The field \<^verbatim>\<open>exit_code\<close> and the two links are not
  initialised.\<close>

definition alloc_proc :: "nat option \<Rightarrow> ptab \<Rightarrow> nat option \<times> ptab" where
  "alloc_proc r t = (case r of None \<Rightarrow> (None, t)
   | Some p \<Rightarrow> (Some p, (set_proc p (\<lambda>q. q\<lparr>state := PROC_UNINIT, pid := - 1, runs := 0, need_resched := False,
       parent := None, flags := 0, wait_state := 0, cptr := None, optr := None, yptr := None, has_rq := False,
       time_slice := 0, lab6_stride := 0, lab6_priority := 0\<rparr>)
       (t\<lparr>sched := (sched t)\<lparr>run_list := list_init (RunLink p) (run_list (sched t)),
          pool := skew_heap_init p (pool (sched t))\<rparr>\<rparr>))))"

definition set_links :: "nat \<Rightarrow> ptab \<Rightarrow> ptab option" where
  "set_links p t = do {
     let t1 = t\<lparr>proc_list := list_add ProcList (ListLink p) (proc_list t)\<rparr>;
     let t2 = set_proc p (\<lambda>q. q\<lparr>yptr := None\<rparr>) t1;
     par \<leftarrow> parent (pr t2 p);
     let older = cptr (pr t2 par);
     let t3 = set_proc p (\<lambda>q. q\<lparr>optr := older\<rparr>) t2;
     let t4 = (case older of None \<Rightarrow> t3 | Some o' \<Rightarrow> set_proc o' (\<lambda>q. q\<lparr>yptr := Some p\<rparr>) t3);
     let t5 = set_proc par (\<lambda>q. q\<lparr>cptr := Some p\<rparr>) t4;
     Some (t5\<lparr>nr_process := nr_process t5 + 1\<rparr>) }"

definition remove_links :: "nat \<Rightarrow> ptab \<Rightarrow> ptab option" where
  "remove_links p t = do {
     let t1 = t\<lparr>proc_list := list_del (ListLink p) (proc_list t)\<rparr>;
     let t2 = (case optr (pr t1 p) of None \<Rightarrow> t1
               | Some o' \<Rightarrow> set_proc o' (\<lambda>q. q\<lparr>yptr := yptr (pr t1 p)\<rparr>) t1);
     t3 \<leftarrow> (case yptr (pr t2 p) of
             Some y \<Rightarrow> Some (set_proc y (\<lambda>q. q\<lparr>optr := optr (pr t2 p)\<rparr>) t2)
           | None \<Rightarrow> do {
               par \<leftarrow> parent (pr t2 p);
               Some (set_proc par (\<lambda>q. q\<lparr>cptr := optr (pr t2 p)\<rparr>) t2) });
     Some (t3\<lparr>nr_process := nr_process t3 - 1\<rparr>) }"

subsection \<open>Process numbers\<close>

text \<open>The loop of \<^verbatim>\<open>get_pid\<close> at \<^verbatim>\<open>le\<close>, with the two static variables; \<^verbatim>\<open>goto repeat\<close> starts again at the head.\<close>

partial_function (option) pid_loop :: "ptab \<Rightarrow> list_entry \<Rightarrow> int \<Rightarrow> int \<Rightarrow> (int \<times> int) option" where
  "pid_loop t le n safe = (case list_next le (proc_list t) of
     ProcList \<Rightarrow> Some (n, safe)
   | ListLink p \<Rightarrow>
       if pid (pr t p) = n then
         if n + 1 \<ge> safe then pid_loop t ProcList (if n + 1 \<ge> MAX_PID then 1 else n + 1) MAX_PID
         else pid_loop t (ListLink p) (n + 1) safe
       else if pid (pr t p) > n \<and> safe > pid (pr t p) then pid_loop t (ListLink p) n (pid (pr t p))
       else pid_loop t (ListLink p) n safe)"

definition get_pid :: "ptab \<Rightarrow> (int \<times> ptab) option" where
  "get_pid t = (let n = last_pid t + 1 in
     if n \<ge> MAX_PID then do {
       (m, safe) \<leftarrow> pid_loop t ProcList 1 MAX_PID; Some (m, t\<lparr>last_pid := m, next_safe := safe\<rparr>) }
     else if n \<ge> next_safe t then do {
       (m, safe) \<leftarrow> pid_loop t ProcList n MAX_PID; Some (m, t\<lparr>last_pid := m, next_safe := safe\<rparr>) }
     else Some (n, t\<lparr>last_pid := n\<rparr>))"

definition hash_proc :: "nat \<Rightarrow> ptab \<Rightarrow> ptab" where
  "hash_proc p t = t\<lparr>hash_list := list_add (HashHead (pid_hashfn (pid (pr t p)))) (HashLink p) (hash_list t)\<rparr>"

definition unhash_proc :: "nat \<Rightarrow> ptab \<Rightarrow> ptab" where
  "unhash_proc p t = t\<lparr>hash_list := list_del (HashLink p) (hash_list t)\<rparr>"

partial_function (option) hash_walk :: "ptab \<Rightarrow> hash_entry \<Rightarrow> hash_entry \<Rightarrow> int \<Rightarrow> nat option option" where
  "hash_walk t lh le n = (let le' = list_next le (hash_list t) in
     if le' = lh then Some None
     else (case le' of HashHead _ \<Rightarrow> None
       | HashLink p \<Rightarrow> if pid (pr t p) = n then Some (Some p) else hash_walk t lh le' n))"

definition find_proc :: "int \<Rightarrow> ptab \<Rightarrow> nat option option" where
  "find_proc n t =
     (if 0 < n \<and> n < MAX_PID then hash_walk t (HashHead (pid_hashfn n)) (HashHead (pid_hashfn n)) n else Some None)"

subsection \<open>Small operations of the running process\<close>

definition do_yield :: "ptab \<Rightarrow> int \<times> ptab" where
  "do_yield t = (0, set_proc (cur t) (\<lambda>q. q\<lparr>need_resched := True\<rparr>) t)"

definition lab6_set_priority :: "u32 \<Rightarrow> ptab \<Rightarrow> ptab" where
  "lab6_set_priority n t = set_proc (cur t) (\<lambda>q. q\<lparr>lab6_priority := if n = 0 then 1 else n\<rparr>) t"

definition do_kill :: "int \<Rightarrow> ptab \<Rightarrow> (int \<times> ptab) option" where
  "do_kill n t = do {
     r \<leftarrow> find_proc n t;
     case r of None \<Rightarrow> Some (- E_INVAL, t)
     | Some p \<Rightarrow>
         if flags (pr t p) AND PF_EXITING = 0 then do {
           let t1 = set_proc p (\<lambda>q. q\<lparr>flags := flags q OR PF_EXITING\<rparr>) t;
           t2 \<leftarrow> (if wait_state (pr t1 p) AND WT_INTERRUPTED \<noteq> 0 then wake p t1 else Some t1);
           Some (0, t2) }
         else Some (- E_KILLED, t) }"

subsection \<open>Waiting and exiting\<close>

text \<open>One round of the loop of \<^verbatim>\<open>do_wait\<close>: a zombie that was waited for, only children that live, or none.\<close>

datatype wait_result = Found nat | Only_Live | No_Child

partial_function (option) child_scan :: "ptab \<Rightarrow> nat option \<Rightarrow> bool \<Rightarrow> wait_result option" where
  "child_scan t c haskid = (case c of
     None \<Rightarrow> Some (if haskid then Only_Live else No_Child)
   | Some q \<Rightarrow> if state (pr t q) = PROC_ZOMBIE then Some (Found q) else child_scan t (optr (pr t q)) True)"

definition wait_scan :: "int \<Rightarrow> ptab \<Rightarrow> wait_result option" where
  "wait_scan n t =
     (if n \<noteq> 0 then do {
        r \<leftarrow> find_proc n t;
        Some (case r of None \<Rightarrow> No_Child
          | Some q \<Rightarrow> if parent (pr t q) = Some (cur t)
                    then if state (pr t q) = PROC_ZOMBIE then Found q else Only_Live else No_Child) }
      else child_scan t (cptr (pr t (cur t))) False)"

definition sleep_child :: "ptab \<Rightarrow> ptab option" where
  "sleep_child t = resched (set_proc (cur t) (\<lambda>q. q\<lparr>state := PROC_SLEEPING, wait_state := WT_CHILD\<rparr>) t)"

text \<open>The children of an exiting process go to \<^verbatim>\<open>initproc\<close>, one by one.\<close>

definition orphan :: "nat \<Rightarrow> ptab \<Rightarrow> ptab option" where
  "orphan q t = do {
     let t1 = set_proc (cur t) (\<lambda>r. r\<lparr>cptr := optr (pr t q)\<rparr>) t;
     let t2 = set_proc q (\<lambda>r. r\<lparr>yptr := None\<rparr>) t1;
     let ini = initproc (sched t2);
     let first = cptr (pr t2 ini);
     let t3 = set_proc q (\<lambda>r. r\<lparr>optr := first\<rparr>) t2;
     let t4 = (case first of None \<Rightarrow> t3 | Some f \<Rightarrow> set_proc f (\<lambda>r. r\<lparr>yptr := Some q\<rparr>) t3);
     let t5 = set_proc ini (\<lambda>r. r\<lparr>cptr := Some q\<rparr>) (set_proc q (\<lambda>r. r\<lparr>parent := Some ini\<rparr>) t4);
     if state (pr t5 q) = PROC_ZOMBIE \<and> wait_state (pr t5 ini) = WT_CHILD then wake ini t5 else Some t5 }"

partial_function (option) orphan_loop :: "ptab \<Rightarrow> ptab option" where
  "orphan_loop t = (case cptr (pr t (cur t)) of None \<Rightarrow> Some t
   | Some q \<Rightarrow> do { t1 \<leftarrow> orphan q t; orphan_loop t1 })"

text \<open>\<^verbatim>\<open>do_exit\<close> from the change of state on; the call of the scheduler does not come back.\<close>

definition exit_links :: "int \<Rightarrow> ptab \<Rightarrow> ptab option" where
  "exit_links code t = do {
     let t1 = set_proc (cur t) (\<lambda>q. q\<lparr>state := PROC_ZOMBIE, exit_code := code\<rparr>) t;
     par \<leftarrow> parent (pr t1 (cur t1));
     t2 \<leftarrow> (if wait_state (pr t1 par) = WT_CHILD then wake par t1 else Some t1);
     t3 \<leftarrow> orphan_loop t2;
     resched t3 }"

text \<open>What \<^verbatim>\<open>do_wait\<close> takes out of the table for the child it found.\<close>

definition reap_links :: "nat \<Rightarrow> ptab \<Rightarrow> ptab option" where
  "reap_links p t = do {
     c_assert (p \<noteq> idleproc (sched t) \<and> p \<noteq> initproc (sched t));
     remove_links p (unhash_proc p t) }"

end
