(* ===== verification/Proc_Sys.thy ===== *)
theory Proc_Sys
  imports Proc_Table Vmm File_Table
begin

text \<open>
  Process management as a whole (kern/process/proc.c of labcode/lab8): \<open>do_fork\<close> with the copying of the
  address space and of the table of open files, \<open>do_exit\<close>, \<open>do_wait\<close>, kernel threads and the creation of
  the first two processes.  The state \<open>ksys\<close> joins the process table, the physical memory with the page
  tables and the file layer; the pointers of a descriptor into these (\<^verbatim>\<open>mm\<close>, \<^verbatim>\<open>filesp\<close>, \<^verbatim>\<open>kstack\<close>, \<^verbatim>\<open>pgdir\<close>,
  \<^verbatim>\<open>tf\<close>, \<^verbatim>\<open>context\<close>) are functions of the process.  A kernel stack is named by its first frame, a page
  directory by its frame, and \<^verbatim>\<open>boot_pgdir\<close> is None.  The trap frame of a process that has not run yet lies
  at the top of its stack, so its address follows from the stack.

  Addresses fixed by the linker and the values of control registers are parameters (\<open>image\<close>), and so is
  what \<^verbatim>\<open>kmalloc\<close> returns: \<open>mem_calls\<close> holds the outcomes of the calls of one fork.  The semaphore of a
  \<^verbatim>\<open>mm_struct\<close> only serialises.  Names of processes are only printed and are left out.

  A call that gives up the processor is split there: \<open>do_wait\<close> ends with \<open>Slept\<close>, and \<open>wait_resume\<close> is what
  runs when the process is chosen again.
\<close>

record trapframe =
  gpr :: "nat \<Rightarrow> u64"
  tf_status :: u64
  tf_epc :: u64
  tf_tval :: u64
  tf_cause :: u64

record cpu_context =
  ctx_ra :: u64
  ctx_sp :: u64

record image =
  boot_pgdir :: nat
  bootstack :: nat
  forkret :: u64
  kernel_thread_entry :: u64

record ksys =
  ptable :: ptab
  vm :: vmem
  fsys :: kfs
  mms :: "nat \<Rightarrow> mm option"
  mm_of :: "nat \<Rightarrow> nat option"
  files_of :: "nat \<Rightarrow> nat option"
  kstack :: "nat \<Rightarrow> nat option"
  pgdir_of :: "nat \<Rightarrow> nat option"
  tf_of :: "nat \<Rightarrow> trapframe"
  context_of :: "nat \<Rightarrow> cpu_context"
  satp :: "nat option"

record mem_calls =
  proc_mem :: "nat option"
  mm_mem :: nat
  area_mem :: "bool list"
  files_mem :: "nat option"

definition KSTACKPAGE :: nat where "KSTACKPAGE = 2"
definition KSTACKSIZE :: u64 where "KSTACKSIZE = 0x2000"
definition TRAPFRAME_SIZE :: u64 where "TRAPFRAME_SIZE = 36 * 8"
definition CLONE_VM :: u32 where "CLONE_VM = 0x100"
definition CLONE_FS :: u32 where "CLONE_FS = 0x800"
definition SSTATUS_SIE :: u64 where "SSTATUS_SIE = 2"
definition SSTATUS_SPIE :: u64 where "SSTATUS_SPIE = 0x20"
definition SSTATUS_SPP :: u64 where "SSTATUS_SPP = 0x100"
definition va_pa_offset :: u64 where "va_pa_offset = 0xFFFFFFFF40000000"

definition kva :: "nat \<Rightarrow> u64" where "kva p = page2pa nbase p + va_pa_offset"

abbreviation me :: "ksys \<Rightarrow> nat" where "me x \<equiv> cur (ptable x)"

subsection \<open>Descriptors and stacks\<close>

text \<open>The fields of a new descriptor that \<open>Proc_Table.alloc_proc\<close> does not have.\<close>

definition init_proc :: "nat \<Rightarrow> ksys \<Rightarrow> ksys" where
  "init_proc p x = x\<lparr>mm_of := (mm_of x)(p := None), files_of := (files_of x)(p := None), kstack := (kstack x)(p := None),
     pgdir_of := (pgdir_of x)(p := None), context_of := (context_of x)(p := \<lparr>ctx_ra = 0, ctx_sp = 0\<rparr>)\<rparr>"

definition setup_kstack :: "nat \<Rightarrow> ksys \<Rightarrow> (int \<times> ksys) option" where
  "setup_kstack p x = do {
     (r, v) \<leftarrow> alloc_pages KSTACKPAGE (vm x);
     case r of None \<Rightarrow> Some (- E_NO_MEM, x\<lparr>vm := v\<rparr>)
     | Some page \<Rightarrow> do { k \<leftarrow> page2kva page v; Some (0, x\<lparr>vm := v, kstack := (kstack x)(p := Some k)\<rparr>) } }"

definition put_kstack :: "nat \<Rightarrow> ksys \<Rightarrow> ksys option" where
  "put_kstack p x = do { k \<leftarrow> kstack x p; v \<leftarrow> free_pages k KSTACKPAGE (vm x); Some (x\<lparr>vm := v\<rparr>) }"

subsection \<open>The address space\<close>

text \<open>From the label \<^verbatim>\<open>good_mm\<close> on.\<close>

definition share_mm :: "nat \<Rightarrow> nat \<Rightarrow> ksys \<Rightarrow> (int \<times> ksys) option" where
  "share_mm m p x = do {
     mm \<leftarrow> mms x m;
     pd \<leftarrow> mm_pgdir mm;
     Some (0, x\<lparr>mms := (mms x)(m \<mapsto> mm\<lparr>mm_count := mm_count mm + 1\<rparr>), mm_of := (mm_of x)(p \<mapsto> m),
       pgdir_of := (pgdir_of x)(p \<mapsto> pd)\<rparr>) }"

definition copy_mm :: "image \<Rightarrow> u32 \<Rightarrow> nat \<Rightarrow> mem_calls \<Rightarrow> ksys \<Rightarrow> (int \<times> ksys) option" where
  "copy_mm im fl p a x = (case mm_of x (me x) of
     None \<Rightarrow> Some (0, x)
   | Some old \<Rightarrow>
       if fl AND CLONE_VM \<noteq> 0 then share_mm old p x
       else (case mm_create (area_mem a) of
         (None, os) \<Rightarrow> Some (- E_NO_MEM, x)
       | (Some m, os) \<Rightarrow> do {
           (r, v1) \<leftarrow> setup_pgdir (boot_pgdir im) (vm x);
           case r of
             None \<Rightarrow> do { _ \<leftarrow> mm_destroy m; Some (- E_NO_MEM, x\<lparr>vm := v1\<rparr>) }
           | Some pd \<Rightarrow> do {
               om \<leftarrow> mms x old;
               (ret, m1, os1, v2) \<leftarrow> dup_mmap (m\<lparr>mm_pgdir := Some pd\<rparr>) om os v1;
               if ret \<noteq> 0 then do {
                 v3 \<leftarrow> exit_mmap m1 v2;
                 v4 \<leftarrow> put_pgdir pd v3;
                 _ \<leftarrow> mm_destroy m1;
                 Some (ret, x\<lparr>vm := v4\<rparr>) }
               else share_mm (mm_mem a) p (x\<lparr>vm := v2, mms := (mms x)(mm_mem a \<mapsto> m1)\<rparr>) } }))"

text \<open>The last user takes the space down; the same lines are in \<^verbatim>\<open>do_exit\<close> and in \<^verbatim>\<open>do_execve\<close>.\<close>

definition drop_mm :: "nat \<Rightarrow> ksys \<Rightarrow> ksys option" where
  "drop_mm m x = do {
     mm \<leftarrow> mms x m;
     let mm1 = mm\<lparr>mm_count := mm_count mm - 1\<rparr>;
     if mm_count mm1 = 0 then do {
       v1 \<leftarrow> exit_mmap mm1 (vm x);
       pd \<leftarrow> mm_pgdir mm1;
       v2 \<leftarrow> put_pgdir pd v1;
       _ \<leftarrow> mm_destroy mm1;
       Some (x\<lparr>vm := v2, mms := (mms x)(m := None)\<rparr>) }
     else Some (x\<lparr>mms := (mms x)(m \<mapsto> mm1)\<rparr>) }"

subsection \<open>The trap frame of a child\<close>

definition tf_addr :: "nat \<Rightarrow> u64" where "tf_addr k = kva k + KSTACKSIZE - TRAPFRAME_SIZE"

definition copy_thread :: "image \<Rightarrow> nat \<Rightarrow> u64 \<Rightarrow> trapframe \<Rightarrow> ksys \<Rightarrow> ksys option" where
  "copy_thread im p esp tf x = do {
     k \<leftarrow> kstack x p;
     let tf1 = tf\<lparr>gpr := (gpr tf)(10 := 0, 2 := if esp = 0 then tf_addr k else esp)\<rparr>;
     Some (x\<lparr>tf_of := (tf_of x)(p := tf1), context_of := (context_of x)(p := \<lparr>ctx_ra = forkret im, ctx_sp = tf_addr k\<rparr>)\<rparr>) }"

subsection \<open>The table of open files\<close>

definition share_files :: "nat \<Rightarrow> nat \<Rightarrow> ksys \<Rightarrow> (int \<times> ksys) option" where
  "share_files fp p x = Some (0, x\<lparr>fsys := add_files_count fp 1 (fsys x), files_of := (files_of x)(p \<mapsto> fp)\<rparr>)"

definition copy_files :: "u32 \<Rightarrow> nat \<Rightarrow> mem_calls \<Rightarrow> ksys \<Rightarrow> (int \<times> ksys) option" where
  "copy_files fl p a x = do {
     old \<leftarrow> files_of x (me x);
     if fl AND CLONE_FS \<noteq> 0 then share_files old p x
     else (case files_create (files_mem a) (fsys x) of
       (None, s) \<Rightarrow> Some (- E_NO_MEM, x\<lparr>fsys := s\<rparr>)
     | (Some fp, s) \<Rightarrow> do {
         (ret, s1) \<leftarrow> dup_files fp old s;
         if ret \<noteq> 0 then do { s2 \<leftarrow> files_destroy fp s1; Some (ret, x\<lparr>fsys := s2\<rparr>) }
         else share_files fp p (x\<lparr>fsys := s1\<rparr>) }) }"

definition put_files :: "nat \<Rightarrow> ksys \<Rightarrow> ksys option" where
  "put_files p x = (case files_of x p of
     None \<Rightarrow> Some x
   | Some fp \<Rightarrow> do {
       let s = add_files_count fp (- 1) (fsys x);
       fs \<leftarrow> ftabs s fp;
       s1 \<leftarrow> (if files_count fs = 0 then files_destroy fp s else Some s);
       Some (x\<lparr>fsys := s1\<rparr>) })"

subsection \<open>Fork\<close>

definition do_fork :: "image \<Rightarrow> u32 \<Rightarrow> u64 \<Rightarrow> trapframe \<Rightarrow> mem_calls \<Rightarrow> ksys \<Rightarrow> (int \<times> ksys) option" where
  "do_fork im fl stack tf a x =
     (if nr_process (ptable x) \<ge> MAX_PROCESS then Some (- E_NO_FREE_PROC, x)
      else (case alloc_proc (proc_mem a) (ptable x) of
        (None, t) \<Rightarrow> Some (- E_NO_MEM, x\<lparr>ptable := t\<rparr>)
      | (Some p, t) \<Rightarrow> do {
          let t1 = set_proc p (\<lambda>q. q\<lparr>parent := Some (cur t)\<rparr>) t;
          let t2 = set_proc (cur t1) (\<lambda>q. q\<lparr>wait_state := 0\<rparr>) t1;
          (r1, x1) \<leftarrow> setup_kstack p (init_proc p (x\<lparr>ptable := t2\<rparr>));
          if r1 \<noteq> 0 then Some (- E_NO_MEM, x1)
          else do {
            (r2, x2) \<leftarrow> copy_mm im fl p a x1;
            if r2 \<noteq> 0 then do { x3 \<leftarrow> put_kstack p x2; Some (- E_NO_MEM, x3) }
            else do {
              x3 \<leftarrow> copy_thread im p stack tf x2;
              (n, t3) \<leftarrow> get_pid (ptable x3);
              let x4 = x3\<lparr>ptable := set_proc p (\<lambda>q. q\<lparr>pid := n\<rparr>) t3\<rparr>;
              (r3, x5) \<leftarrow> copy_files fl p a x4;
              if r3 \<noteq> 0 then do { x6 \<leftarrow> put_kstack p x5; Some (- E_NO_MEM, x6) }
              else do {
                t5 \<leftarrow> set_links p (hash_proc p (ptable x5));
                t6 \<leftarrow> wake p t5;
                Some (pid (pr t6 p), x5\<lparr>ptable := t6\<rparr>) } } } }))"

definition kernel_thread :: "image \<Rightarrow> u64 \<Rightarrow> u64 \<Rightarrow> u64 \<Rightarrow> u32 \<Rightarrow> mem_calls \<Rightarrow> ksys \<Rightarrow> (int \<times> ksys) option" where
  "kernel_thread im sstatus fn arg fl a x =
     do_fork im (fl OR CLONE_VM) 0
       \<lparr>gpr = (\<lambda>_. 0)(8 := fn, 9 := arg), tf_status = (sstatus OR SSTATUS_SPP OR SSTATUS_SPIE) AND NOT SSTATUS_SIE,
        tf_epc = kernel_thread_entry im, tf_tval = 0, tf_cause = 0\<rparr> a x"

subsection \<open>Exit and wait\<close>

text \<open>The page table that goes with a new choice of the running process (\<^verbatim>\<open>proc_run\<close>).\<close>

definition run_on :: "ptab \<Rightarrow> ksys \<Rightarrow> ksys" where
  "run_on t x = x\<lparr>ptable := t, satp := if cur t \<noteq> me x then pgdir_of x (cur t) else satp x\<rparr>"

definition do_exit :: "int \<Rightarrow> ksys \<Rightarrow> ksys option" where
  "do_exit code x = do {
     c_assert (me x \<noteq> idleproc (sched (ptable x)));
     c_assert (me x \<noteq> initproc (sched (ptable x)));
     x1 \<leftarrow> (case mm_of x (me x) of
             None \<Rightarrow> Some x
           | Some m \<Rightarrow> do {
               x1 \<leftarrow> drop_mm m (x\<lparr>satp := None\<rparr>);
               put_files (me x) (x1\<lparr>mm_of := (mm_of x1)(me x := None)\<rparr>) });
     t \<leftarrow> exit_links code (ptable x1);
     Some (run_on t x1) }"

datatype wait_outcome = Slept | Returned int "(u64 \<times> int) option"

definition wait_round :: "int \<Rightarrow> u64 option \<Rightarrow> ksys \<Rightarrow> (wait_outcome \<times> ksys) option" where
  "wait_round n store x = do {
     r \<leftarrow> wait_scan n (ptable x);
     case r of
       No_Child \<Rightarrow> Some (Returned (- E_BAD_PROC) None, x)
     | Only_Live \<Rightarrow> do { t \<leftarrow> sleep_child (ptable x); Some (Slept, run_on t x) }
     | Found q \<Rightarrow> do {
         t \<leftarrow> reap_links q (ptable x);
         x1 \<leftarrow> put_kstack q (x\<lparr>ptable := t\<rparr>);
         Some (Returned 0 (map_option (\<lambda>addr. (addr, exit_code (pr (ptable x) q))) store), x1) } }"

definition do_wait :: "int \<Rightarrow> u64 option \<Rightarrow> ksys \<Rightarrow> (wait_outcome \<times> ksys) option" where
  "do_wait n store x = (case store of
     None \<Rightarrow> wait_round n store x
   | Some addr \<Rightarrow> (case mm_of x (me x) of
       None \<Rightarrow> if KERN_ACCESS addr (addr + 4) then wait_round n store x else Some (Returned (- E_INVAL) None, x)
     | Some m \<Rightarrow> do {
         mm \<leftarrow> mms x m;
         (ok, mmo) \<leftarrow> user_mem_check (Some mm) addr 4 True;
         let x1 = x\<lparr>mms := (mms x)(m := mmo)\<rparr>;
         if ok then wait_round n store x1 else Some (Returned (- E_INVAL) None, x1) }))"

text \<open>After the call of the scheduler in the loop: a killed process exits, which does not come back.\<close>

definition wait_resume :: "int \<Rightarrow> u64 option \<Rightarrow> ksys \<Rightarrow> (wait_outcome option \<times> ksys) option" where
  "wait_resume n store x =
     (if proc_struct.flags (pr (ptable x) (me x)) AND PF_EXITING \<noteq> 0 then do { x1 \<leftarrow> do_exit (- E_KILLED) x; Some (None, x1) }
      else do { (r, x1) \<leftarrow> wait_round n store x; Some (Some r, x1) })"

subsection \<open>The first two processes\<close>

definition init_lists :: "ptab \<Rightarrow> ptab" where
  "init_lists t = t\<lparr>proc_list := list_init ProcList (proc_list t),
     hash_list := fold (\<lambda>i. list_init (HashHead i)) [0 ..< HASH_LIST_SIZE] (hash_list t)\<rparr>"

definition idle_fields :: "nat \<Rightarrow> image \<Rightarrow> ksys \<Rightarrow> ksys" where
  "idle_fields p im x = x\<lparr>ptable := set_proc p (\<lambda>q. q\<lparr>pid := 0, state := PROC_RUNNABLE, need_resched := True\<rparr>) (ptable x),
     kstack := (kstack x)(p \<mapsto> bootstack im)\<rparr>"

definition proc_init :: "image \<Rightarrow> u64 \<Rightarrow> u64 \<Rightarrow> mem_calls \<Rightarrow> mem_calls \<Rightarrow> ksys \<Rightarrow> ksys option" where
  "proc_init im sstatus init_main ai a x = (case alloc_proc (proc_mem ai) (init_lists (ptable x)) of
     (None, _) \<Rightarrow> None
   | (Some idle, t) \<Rightarrow>
       (let x1 = idle_fields idle im (init_proc idle (x\<lparr>ptable := t\<lparr>sched := (sched t)\<lparr>idleproc := idle\<rparr>\<rparr>\<rparr>))
        in case files_create (files_mem ai) (fsys x1) of
             (None, _) \<Rightarrow> None
           | (Some fp, s) \<Rightarrow> do {
               let x2 = x1\<lparr>fsys := add_files_count fp 1 s, files_of := (files_of x1)(idle \<mapsto> fp)\<rparr>;
               let t2 = ptable x2;
               let x3 = x2\<lparr>ptable := t2\<lparr>nr_process := nr_process t2 + 1, sched := (sched t2)\<lparr>current := idle\<rparr>\<rparr>\<rparr>;
               (n, x4) \<leftarrow> kernel_thread im sstatus init_main 0 0 a x3;
               c_assert (n > 0);
               r \<leftarrow> find_proc n (ptable x4);
               ini \<leftarrow> r;
               let x5 = x4\<lparr>ptable := (ptable x4)\<lparr>sched := (sched (ptable x4))\<lparr>initproc := ini\<rparr>\<rparr>\<rparr>;
               c_assert (pid (pr (ptable x5) idle) = 0);
               c_assert (pid (pr (ptable x5) ini) = 1);
               Some x5 }))"

end
