(* ===== verification/Proc_Pid.thy ===== *)
theory Proc_Pid
  imports Proc_Table
begin

text \<open>
  Process numbers: the loop of \<open>get_pid\<close> ends, whatever the numbers in use, as long as one is free; the
  number it finds is free, and no number in use lies between it and \<open>next_safe\<close>, which is what lets the
  next call skip the loop.  A lookup by number walks one hash list and finds the process with that
  number, if there is one.
\<close>

subsection \<open>The numbers in cyclic order\<close>

definition pid_range :: "int set" where "pid_range = {1 ..< MAX_PID}"

definition next_pid :: "int \<Rightarrow> int" where "next_pid n = (if n + 1 \<ge> MAX_PID then 1 else n + 1)"

definition cyc :: "int \<Rightarrow> nat \<Rightarrow> int" where "cyc n k = (n - 1 + int k) mod (MAX_PID - 1) + 1"

lemma MAX_PID_eq: "MAX_PID = 8192"
  by (simp add: MAX_PID_def MAX_PROCESS_def)

lemma next_pid_range: "n \<in> pid_range \<Longrightarrow> next_pid n \<in> pid_range"
  by (auto simp: pid_range_def next_pid_def MAX_PID_eq)

lemma cyc_0: "n \<in> pid_range \<Longrightarrow> cyc n 0 = n"
  by (simp add: cyc_def pid_range_def MAX_PID_eq)

lemma cyc_next: "n \<in> pid_range \<Longrightarrow> cyc (next_pid n) k = cyc n (Suc k)"
proof -
  assume n: "n \<in> pid_range"
  show ?thesis
  proof (cases "n + 1 \<ge> MAX_PID")
    case True
    with n have e: "n - 1 + int (Suc k) = int k + 8191" by (simp add: pid_range_def MAX_PID_eq)
    have "(int k + 8191) mod 8191 = int k mod 8191" by simp
    then show ?thesis using True unfolding cyc_def next_pid_def MAX_PID_eq e by simp
  qed (simp add: cyc_def next_pid_def add_ac)
qed

lemma cyc_onto:
  assumes "n \<in> pid_range" "m \<in> pid_range"
  shows "\<exists>k. cyc n k = m"
proof (intro exI)
  let ?k = "nat ((m - n) mod 8191)"
  have "(n - 1 + (m - n) mod 8191) mod 8191 = (m - 1) mod 8191"
    by (simp add: mod_add_right_eq)
  then show "cyc n ?k = m" using assms(2) by (simp add: cyc_def MAX_PID_eq pid_range_def)
qed

lemma free_pid:
  assumes "card U < 8191" "finite U"
  shows "\<exists>m \<in> pid_range. m \<notin> U"
proof (rule ccontr)
  assume "\<not> ?thesis"
  then have "pid_range \<subseteq> U" by auto
  then have "card pid_range \<le> card U" using assms(2) card_mono by blast
  then show False using assms(1) by (simp add: pid_range_def MAX_PID_eq)
qed

subsection \<open>The loop\<close>

text \<open>What the loop has established about a part of the processes.\<close>

definition pid_gap :: "int \<Rightarrow> int \<Rightarrow> int set \<Rightarrow> bool" where
  "pid_gap n safe U \<longleftrightarrow> (\<forall>m \<in> U. m \<noteq> n \<and> \<not> (n < m \<and> m < safe))"

lemma pid_loop_ok:
  assumes d: "dll (proc_list t) ProcList (map ListLink L)"
  shows "\<lbrakk>L = xs @ ys; n \<in> pid_range; n < safe; safe \<le> MAX_PID; pid_gap n safe ((\<lambda>p. pid (pr t p)) ` set xs);
      cyc n k \<notin> (\<lambda>p. pid (pr t p)) ` set L\<rbrakk> \<Longrightarrow>
    \<exists>m safe'. pid_loop t (last (ProcList # map ListLink xs)) n safe = Some (m, safe') \<and> m \<in> pid_range \<and> m < safe' \<and>
      safe' \<le> MAX_PID \<and> pid_gap m safe' ((\<lambda>p. pid (pr t p)) ` set L)"
proof (induction k arbitrary: xs ys n safe rule: less_induct)
  case (less k)
  let ?U = "(\<lambda>p. pid (pr t p)) ` set L"
  show ?case using less.prems(1,3,4,5)
  proof (induction ys arbitrary: xs safe)
    case Nil
    define le where "le = last (ProcList # map ListLink xs)"
    have "lnext (proc_list t) le = ProcList"
      unfolding le_def using d Nil.prems(1) by (cases xs rule: rev_cases) (auto simp: dll_def)
    then have "pid_loop t le n safe = Some (n, safe)" by (subst pid_loop.simps) (simp add: list_next_def)
    then show ?case using Nil less.prems(2) unfolding le_def by simp
  next
    case (Cons p ys)
    define le where "le = last (ProcList # map ListLink xs)"
    have e: "lnext (proc_list t) le = ListLink p"
      unfolding le_def using d Cons.prems(1) by (cases xs rule: rev_cases) (auto simp: dll_def)
    show ?case
    proof (cases "pid (pr t p) = n")
      case False
      define s where "s = (if pid (pr t p) > n \<and> safe > pid (pr t p) then pid (pr t p) else safe)"
      have "pid_gap n s ((\<lambda>p. pid (pr t p)) ` set (xs @ [p]))" using Cons.prems(4) False by (auto simp: pid_gap_def s_def)
      moreover have "n < s" "s \<le> MAX_PID" using Cons.prems(2,3) by (auto simp: s_def)
      ultimately obtain m safe' where "pid_loop t (last (ProcList # map ListLink (xs @ [p]))) n s = Some (m, safe')"
        "m \<in> pid_range" "m < safe'" "safe' \<le> MAX_PID" "pid_gap m safe' ?U"
        using Cons.IH [of "xs @ [p]" s] Cons.prems(1) by auto
      moreover have "pid_loop t le n safe = pid_loop t (ListLink p) n s"
        by (subst pid_loop.simps) (simp add: list_next_def e False s_def)
      ultimately show ?thesis unfolding le_def by simp
    next
      case True
      have "k \<noteq> 0" using True less.prems(2,6) Cons.prems(1) cyc_0 by (cases k) auto
      then obtain j where j: "k = Suc j" by (cases k) auto
      then have c: "cyc (next_pid n) j \<notin> ?U" using less.prems(2,6) cyc_next by simp
      show ?thesis
      proof (cases "n + 1 \<ge> safe")
        case over: True
        have nr: "next_pid n \<in> pid_range" using next_pid_range less.prems(2) .
        then have lt: "next_pid n < MAX_PID" by (simp add: pid_range_def)
        from less.IH [OF _ _ nr lt _ _ c, of "[]" L] j obtain m safe' where
          "pid_loop t ProcList (next_pid n) MAX_PID = Some (m, safe')"
          "m \<in> pid_range" "m < safe'" "safe' \<le> MAX_PID" "pid_gap m safe' ?U" by (auto simp: pid_gap_def)
        moreover have "pid_loop t le n safe = pid_loop t ProcList (next_pid n) MAX_PID"
          by (subst pid_loop.simps) (simp add: list_next_def e True over next_pid_def)
        ultimately show ?thesis unfolding le_def by simp
      next
        case False
        then have n1: "next_pid n = n + 1" "n + 1 < safe" using Cons.prems(3) by (simp_all add: next_pid_def)
        have g: "pid_gap (n + 1) safe ((\<lambda>p. pid (pr t p)) ` set (xs @ [p]))"
          using Cons.prems(4) True n1(2) unfolding pid_gap_def by force
        have nr: "n + 1 \<in> pid_range" using next_pid_range [OF less.prems(2)] n1(1) by simp
        from less.IH [OF _ _ nr n1(2) Cons.prems(3) g c [unfolded n1(1)], of ys] j Cons.prems(1) obtain m safe' where
          "pid_loop t (last (ProcList # map ListLink (xs @ [p]))) (n + 1) safe = Some (m, safe')"
          "m \<in> pid_range" "m < safe'" "safe' \<le> MAX_PID" "pid_gap m safe' ?U" by auto
        moreover have "pid_loop t le n safe = pid_loop t (ListLink p) (n + 1) safe"
          by (subst pid_loop.simps) (use n1(2) in \<open>simp add: list_next_def e True\<close>)
        ultimately show ?thesis unfolding le_def by simp
      qed
    qed
  qed
qed

text \<open>The invariant of the static variables, and the whole function.\<close>

definition pids_ok :: "ptab \<Rightarrow> nat list \<Rightarrow> bool" where
  "pids_ok t L \<longleftrightarrow> (\<forall>p \<in> set L. pid (pr t p) \<in> pid_range) \<and> inj_on (\<lambda>p. pid (pr t p)) (set L) \<and>
     1 \<le> last_pid t \<and> last_pid t \<le> MAX_PID \<and> next_safe t \<le> MAX_PID \<and>
     (\<forall>p \<in> set L. \<not> (last_pid t < pid (pr t p) \<and> pid (pr t p) < next_safe t))"

lemma get_pid_ok:
  assumes d: "dll (proc_list t) ProcList (map ListLink L)" and ok: "pids_ok t L" and len: "length L < 8191"
  shows "\<exists>n safe. get_pid t = Some (n, t\<lparr>last_pid := n, next_safe := safe\<rparr>) \<and> n \<in> pid_range \<and>
    n \<notin> (\<lambda>p. pid (pr t p)) ` set L \<and> pids_ok (t\<lparr>last_pid := n, next_safe := safe\<rparr>) L"
proof -
  let ?U = "(\<lambda>p. pid (pr t p)) ` set L"
  have "card ?U \<le> card (set L)" by (rule card_image_le) simp
  also have "\<dots> \<le> length L" by (rule card_length)
  finally have "card ?U < 8191" using len by simp
  then obtain f where f: "f \<in> pid_range" "f \<notin> ?U" using free_pid [of ?U] by auto
  have loop: "\<exists>m safe. pid_loop t ProcList n MAX_PID = Some (m, safe) \<and> m \<in> pid_range \<and> m < safe \<and> safe \<le> MAX_PID \<and> pid_gap m safe ?U"
    if n: "n \<in> pid_range" for n
  proof -
    obtain k where "cyc n k = f" using cyc_onto [OF n f(1)] by blast
    then show ?thesis using pid_loop_ok [OF d, of "[]" L n MAX_PID k] n f(2) by (simp add: pid_gap_def pid_range_def)
  qed
  have found: "\<exists>n safe. Some (m, t\<lparr>last_pid := m, next_safe := s\<rparr>) = Some (n, t\<lparr>last_pid := n, next_safe := safe\<rparr>) \<and> n \<in> pid_range \<and>
    n \<notin> ?U \<and> pids_ok (t\<lparr>last_pid := n, next_safe := safe\<rparr>) L" if "m \<in> pid_range" "s \<le> MAX_PID" "pid_gap m s ?U" for m s
    using that ok by (auto simp: pids_ok_def pid_gap_def pid_range_def)
  consider "last_pid t + 1 \<ge> MAX_PID" | "last_pid t + 1 < MAX_PID" "last_pid t + 1 \<ge> next_safe t"
    | "last_pid t + 1 < MAX_PID" "last_pid t + 1 < next_safe t" by linarith
  then show ?thesis
  proof cases
    case 1
    have "1 \<in> pid_range" by (simp add: pid_range_def MAX_PID_eq)
    from loop [OF this] obtain m s where "pid_loop t ProcList 1 MAX_PID = Some (m, s)" "m \<in> pid_range" "s \<le> MAX_PID" "pid_gap m s ?U" by blast
    then show ?thesis using 1 found [of m s] by (simp add: get_pid_def)
  next
    case 2
    then have "last_pid t + 1 \<in> pid_range" using ok by (simp add: pid_range_def pids_ok_def)
    from loop [OF this] obtain m s where "pid_loop t ProcList (last_pid t + 1) MAX_PID = Some (m, s)" "m \<in> pid_range" "s \<le> MAX_PID" "pid_gap m s ?U" by blast
    then show ?thesis using 2 found [of m s] by (simp add: get_pid_def)
  next
    case 3
    have "pid_gap (last_pid t + 1) (next_safe t) ?U" using ok 3 by (fastforce simp: pids_ok_def pid_gap_def)
    moreover have "get_pid t = Some (last_pid t + 1, t\<lparr>last_pid := last_pid t + 1, next_safe := next_safe t\<rparr>)"
      using 3 by (simp add: get_pid_def Let_def)
    ultimately show ?thesis using found [of "last_pid t + 1" "next_safe t"] 3 ok by (simp add: pids_ok_def pid_range_def)
  qed
qed

subsection \<open>Looking up a number\<close>

definition hash_ok :: "ptab \<Rightarrow> nat list \<Rightarrow> (nat \<Rightarrow> nat list) \<Rightarrow> bool" where
  "hash_ok t L B \<longleftrightarrow> (\<forall>i < HASH_LIST_SIZE. dll (hash_list t) (HashHead i) (map HashLink (B i)) \<and>
     set (B i) = {p \<in> set L. pid_hashfn (pid (pr t p)) = i})"

lemma pid_hashfn_bound: "pid_hashfn n < HASH_LIST_SIZE"
  using hash32_bound [of HASH_SHIFT] by (simp add: pid_hashfn_def HASH_LIST_SIZE_def HASH_SHIFT_def)

lemma hash_walk_ok:
  assumes d: "dll (hash_list t) (HashHead i) (map HashLink (xs @ ys))"
  shows "hash_walk t (HashHead i) (last (HashHead i # map HashLink xs)) n = Some (find (\<lambda>p. pid (pr t p) = n) ys)"
  using d
proof (induction ys arbitrary: xs)
  case Nil
  define le where "le = last (HashHead i # map HashLink xs)"
  have "lnext (hash_list t) le = HashHead i"
    unfolding le_def using Nil by (cases xs rule: rev_cases) (auto simp: dll_def)
  then show ?case unfolding le_def [symmetric] by (subst hash_walk.simps) (simp add: list_next_def)
next
  case (Cons p ys)
  define le where "le = last (HashHead i # map HashLink xs)"
  have "lnext (hash_list t) le = HashLink p"
    unfolding le_def using Cons.prems by (cases xs rule: rev_cases) (auto simp: dll_def)
  then have "hash_walk t (HashHead i) le n = (if pid (pr t p) = n then Some (Some p) else hash_walk t (HashHead i) (HashLink p) n)"
    by (subst hash_walk.simps) (simp add: list_next_def)
  then show ?case using Cons.IH [of "xs @ [p]"] Cons.prems unfolding le_def by simp
qed

lemma find_proc_ok:
  assumes h: "hash_ok t L B" and ok: "pids_ok t L"
  shows "\<exists>r. find_proc n t = Some r \<and> (case r of None \<Rightarrow> n \<notin> (\<lambda>p. pid (pr t p)) ` set L | Some p \<Rightarrow> p \<in> set L \<and> pid (pr t p) = n)"
proof (cases "0 < n \<and> n < MAX_PID")
  case False
  then show ?thesis using ok by (auto simp: find_proc_def pids_ok_def pid_range_def)
next
  case True
  let ?B = "B (pid_hashfn n)"
  have b: "dll (hash_list t) (HashHead (pid_hashfn n)) (map HashLink ([] @ ?B))" "set ?B = {p \<in> set L. pid_hashfn (pid (pr t p)) = pid_hashfn n}"
    using h pid_hashfn_bound by (simp_all add: hash_ok_def)
  have "find_proc n t = Some (find (\<lambda>p. pid (pr t p) = n) ?B)"
    using hash_walk_ok [OF b(1)] True by (simp add: find_proc_def)
  then show ?thesis using b(2) by (cases "find (\<lambda>p. pid (pr t p) = n) ?B") (auto simp: find_None_iff find_Some_iff)
qed

end
