(* ===== verification/Proc_Inv.thy ===== *)
theory Proc_Inv
  imports Proc_Pid
begin

text \<open>
  The invariant of the process table.  \<open>lists_ok\<close>: the list of processes, the hash lists and the process
  numbers agree.  \<open>family_ok\<close>: the children of every process are exactly the processes whose parent it is,
  linked from the youngest to the oldest.  \<open>states_ok\<close>: who may run, sleep or wait for being reaped.  The
  ghost arguments are the list of processes \<open>L\<close>, the children \<open>K p\<close> of every process and the hash lists \<open>B\<close>;
  the idle process is in none of the lists.
\<close>

subsection \<open>What the scheduler leaves alone\<close>

definition same_kin :: "kern \<Rightarrow> kern \<Rightarrow> bool" where
  "same_kin s s' \<longleftrightarrow> idleproc s' = idleproc s \<and> initproc s' = initproc s \<and>
     (\<forall>p. pid (procs s' p) = pid (procs s p) \<and> parent (procs s' p) = parent (procs s p) \<and>
       cptr (procs s' p) = cptr (procs s p) \<and> yptr (procs s' p) = yptr (procs s p) \<and> optr (procs s' p) = optr (procs s p) \<and>
       flags (procs s' p) = flags (procs s p) \<and> exit_code (procs s' p) = exit_code (procs s p))"

lemma same_kin_trans: "same_kin s t \<Longrightarrow> same_kin t u \<Longrightarrow> same_kin s u"
  by (simp add: same_kin_def)

lemma same_kin_refl [simp]: "same_kin s s"
  by (simp add: same_kin_def)

lemma RR_enqueue_kin: "RR_enqueue p s = Some s' \<Longrightarrow> same_kin s s'"
  by (auto simp: RR_enqueue_def same_kin_def Let_def Option.bind_eq_Some_conv)

lemma RR_dequeue_kin: "RR_dequeue p s = Some s' \<Longrightarrow> same_kin s s'"
  by (auto simp: RR_dequeue_def same_kin_def Let_def Option.bind_eq_Some_conv)

lemma enqueue_kin: "sched_class_enqueue default_sched_class p s = Some s' \<Longrightarrow> same_kin s s'"
  using RR_enqueue_kin by (auto simp: sched_class_enqueue_def split: if_splits)

lemma wakeup_kin: "wakeup_proc default_sched_class p s = Some s' \<Longrightarrow> same_kin s s'"
proof -
  assume w: "wakeup_proc default_sched_class p s = Some s'"
  have "same_kin s (upd_proc p (\<lambda>q. q\<lparr>state := PROC_RUNNABLE, wait_state := 0\<rparr>) s)" by (simp add: same_kin_def)
  then show ?thesis using w enqueue_kin same_kin_trans
    by (fastforce simp: wakeup_proc_def Let_def Option.bind_eq_Some_conv split: if_splits)
qed

lemma schedule_kin: "schedule default_sched_class s = Some s' \<Longrightarrow> same_kin s s'"
proof -
  assume sch: "schedule default_sched_class s = Some s'"
  define s1 where "s1 = upd_proc (current s) (\<lambda>pr. pr\<lparr>need_resched := False\<rparr>) s"
  from sch obtain s2 nxt s3 s4 where s2: "(if state (procs s1 (current s1)) = PROC_RUNNABLE
      then sched_class_enqueue default_sched_class (current s1) s1 else Some s1) = Some s2"
    and s3: "RR_pick_next s2 = Some (nxt, s3)"
    and s4: "(case nxt of Some p \<Rightarrow> sched_class_dequeue default_sched_class p s3 | None \<Rightarrow> Some s3) = Some s4"
    and s': "s' = (let p = (case nxt of Some p \<Rightarrow> p | None \<Rightarrow> idleproc s4);
       s5 = upd_proc p (\<lambda>pr. pr\<lparr>runs := runs pr + 1\<rparr>) s4 in if p \<noteq> current s5 then proc_run p s5 else s5)"
    unfolding schedule_def s1_def [symmetric] Let_def sched_class_pick_next_def default_sched_class_simps
    by (fastforce simp: Option.bind_eq_Some_conv)
  have "same_kin s s1" by (simp add: same_kin_def s1_def)
  then have "same_kin s s2" using s2 enqueue_kin same_kin_trans by (fastforce split: if_splits)
  moreover have "s3 = s2" using s3 by (auto simp: RR_pick_next_def split: list.splits run_entry.splits)
  moreover have "same_kin s3 s4" using s4 RR_dequeue_kin by (auto simp: sched_class_dequeue_def split: option.splits)
  moreover have "same_kin s4 s'" unfolding s' by (auto simp: same_kin_def Let_def proc_run_def)
  ultimately show ?thesis using same_kin_trans by blast
qed

subsection \<open>Setting fields\<close>

lemma set_proc_simps [simp]:
  "pr (set_proc p f t) q = (if q = p then f (pr t p) else pr t q)"
  "cur (set_proc p f t) = cur t" "idleproc (sched (set_proc p f t)) = idleproc (sched t)"
  "initproc (sched (set_proc p f t)) = initproc (sched t)"
  "proc_list (set_proc p f t) = proc_list t" "hash_list (set_proc p f t) = hash_list t"
  "nr_process (set_proc p f t) = nr_process t" "next_safe (set_proc p f t) = next_safe t"
  "last_pid (set_proc p f t) = last_pid t"
  by (simp_all add: set_proc_def)

lemma set_proc_inv:
  assumes "sched_inv rr_ok rr_queued (sched t)"
    and "has_rq (f (pr t p)) = has_rq (pr t p)"
    and "p = cur t \<or> p = idleproc (sched t) \<or> (state (f (pr t p)) = PROC_RUNNABLE \<longleftrightarrow> state (pr t p) = PROC_RUNNABLE)"
  shows "sched_inv rr_ok rr_queued (sched (set_proc p f t))"
proof -
  let ?s' = "sched (set_proc p f t)"
  have "rr_ok ?s' \<and> rr_queued ?s' = rr_queued (sched t)"
    by (rule rr.frame) (use assms(1,2) in \<open>auto simp: sched_inv_def same_queue_def set_proc_def\<close>)
  moreover have "runnables ?s' = runnables (sched t)" using assms(3) by (auto simp: runnables_def)
  ultimately show ?thesis using assms(1) by (simp add: sched_inv_def)
qed

subsection \<open>Waking and rescheduling\<close>

definition moved :: "ptab \<Rightarrow> ptab \<Rightarrow> bool" where
  "moved t t' \<longleftrightarrow> (\<exists>s. t' = t\<lparr>sched := s\<rparr> \<and> same_kin (sched t) s \<and> sched_inv rr_ok rr_queued s)"

lemma wake_ok:
  assumes i: "sched_inv rr_ok rr_queued (sched t)" and z: "state (pr t p) \<noteq> PROC_ZOMBIE"
  shows "\<exists>t'. wake p t = Some t' \<and> moved t t' \<and> cur t' = cur t \<and>
    (\<forall>q. state (pr t' q) = (if q = p then PROC_RUNNABLE else state (pr t q))) \<and>
    (\<forall>q. wait_state (pr t' q) = (if q = p \<and> state (pr t p) \<noteq> PROC_RUNNABLE then 0 else wait_state (pr t q)))"
proof -
  from rr.wakeup_inv [OF i z] obtain s' where s': "wakeup_proc default_sched_class p (sched t) = Some s'"
    "sched_inv rr_ok rr_queued s'" "state (procs s' p) = PROC_RUNNABLE" "current s' = cur t"
    "\<forall>q. q \<noteq> p \<longrightarrow> state (procs s' q) = state (pr t q) \<and> wait_state (procs s' q) = wait_state (pr t q)" by blast
  have "wait_state (procs s' p) = (if state (pr t p) \<noteq> PROC_RUNNABLE then 0 else wait_state (pr t p))"
    using s'(1) by (auto simp: wakeup_proc_def Let_def Option.bind_eq_Some_conv sched_class_enqueue_def RR_enqueue_def split: if_splits)
  then show ?thesis using s' wakeup_kin [OF s'(1)] by (auto simp: wake_def moved_def)
qed

lemma resched_ok:
  assumes i: "sched_inv rr_ok rr_queued (sched t)"
  shows "\<exists>t'. resched t = Some t' \<and> moved t t' \<and>
    (\<forall>q. state (pr t' q) = state (pr t q) \<and> wait_state (pr t' q) = wait_state (pr t q)) \<and>
    (cur t' = idleproc (sched t) \<or> state (pr t (cur t')) = PROC_RUNNABLE)"
proof -
  from rr.schedule_inv [OF i] obtain s' where s': "schedule default_sched_class (sched t) = Some s'"
    "sched_inv rr_ok rr_queued s'" "\<forall>p. state (procs s' p) = state (pr t p) \<and> wait_state (procs s' p) = wait_state (pr t p)"
    "current s' = idleproc (sched t) \<or> state (pr t (current s')) = PROC_RUNNABLE" by (metis (no_types, lifting))
  then show ?thesis using schedule_kin [OF s'(1)] by (auto simp: resched_def moved_def)
qed

subsection \<open>The invariant\<close>

definition lists_ok :: "ptab \<Rightarrow> nat list \<Rightarrow> (nat \<Rightarrow> nat list) \<Rightarrow> bool" where
  "lists_ok t L B \<longleftrightarrow> dll (proc_list t) ProcList (map ListLink L) \<and> nr_process t = int (length L) + 1 \<and>
     hash_ok t L B \<and> pids_ok t L"

primrec sibs :: "(nat \<Rightarrow> proc_struct) \<Rightarrow> nat option \<Rightarrow> nat option \<Rightarrow> nat list \<Rightarrow> bool" where
  "sibs P y c [] \<longleftrightarrow> c = None"
| "sibs P y c (x # xs) \<longleftrightarrow> c = Some x \<and> yptr (P x) = y \<and> sibs P (Some x) (optr (P x)) xs"

definition members :: "ptab \<Rightarrow> nat list \<Rightarrow> nat set" where
  "members t L = insert (idleproc (sched t)) (set L)"

text \<open>\<open>Y p\<close> is the younger sibling recorded in the first child of p: none, except half way through an exit.\<close>

definition family_ok :: "ptab \<Rightarrow> nat list \<Rightarrow> (nat \<Rightarrow> nat list) \<Rightarrow> (nat \<Rightarrow> nat option) \<Rightarrow> bool" where
  "family_ok t L K Y \<longleftrightarrow>
     (\<forall>p \<in> members t L. sibs (pr t) (Y p) (cptr (pr t p)) (K p) \<and> distinct (K p) \<and>
        set (K p) = {q \<in> set L. parent (pr t q) = Some p}) \<and>
     (\<forall>q \<in> set L. \<exists>p \<in> members t L. parent (pr t q) = Some p)"

definition states_ok :: "ptab \<Rightarrow> nat list \<Rightarrow> bool" where
  "states_ok t L \<longleftrightarrow> idleproc (sched t) \<notin> set L \<and> initproc (sched t) \<in> set L \<and>
     (\<forall>p \<in> set L. state (pr t p) \<noteq> PROC_UNINIT) \<and> (\<forall>p. p \<notin> members t L \<longrightarrow> state (pr t p) \<noteq> PROC_RUNNABLE) \<and>
     (\<forall>p \<in> members t L. state (pr t p) \<noteq> PROC_SLEEPING \<longrightarrow> wait_state (pr t p) = 0) \<and>
     state (pr t (initproc (sched t))) \<noteq> PROC_ZOMBIE \<and> state (pr t (idleproc (sched t))) = PROC_RUNNABLE \<and>
     sched_inv rr_ok rr_queued (sched t)"

text \<open>The same without \<^verbatim>\<open>initproc\<close>, which does not exist yet when the first process is made.\<close>

definition base_ok :: "ptab \<Rightarrow> nat list \<Rightarrow> bool" where
  "base_ok t L \<longleftrightarrow> idleproc (sched t) \<notin> set L \<and>
     (\<forall>p \<in> set L. state (pr t p) \<noteq> PROC_UNINIT) \<and> (\<forall>p. p \<notin> members t L \<longrightarrow> state (pr t p) \<noteq> PROC_RUNNABLE) \<and>
     (\<forall>p \<in> members t L. state (pr t p) \<noteq> PROC_SLEEPING \<longrightarrow> wait_state (pr t p) = 0) \<and>
     state (pr t (idleproc (sched t))) = PROC_RUNNABLE \<and> sched_inv rr_ok rr_queued (sched t)"

definition init_ok :: "ptab \<Rightarrow> nat list \<Rightarrow> bool" where
  "init_ok t L \<longleftrightarrow> initproc (sched t) \<in> set L \<and> state (pr t (initproc (sched t))) \<noteq> PROC_ZOMBIE"

lemma states_ok_iff: "states_ok t L \<longleftrightarrow> base_ok t L \<and> init_ok t L"
  by (auto simp: states_ok_def base_ok_def init_ok_def)

definition ptab_base :: "ptab \<Rightarrow> nat list \<Rightarrow> (nat \<Rightarrow> nat list) \<Rightarrow> (nat \<Rightarrow> nat list) \<Rightarrow> bool" where
  "ptab_base t L K B \<longleftrightarrow> lists_ok t L B \<and> family_ok t L K (\<lambda>_. None) \<and> base_ok t L \<and>
     (\<forall>p \<in> set L. state (pr t p) = PROC_ZOMBIE \<longrightarrow> K p = []) \<and>
     cur t \<in> members t L \<and> state (pr t (cur t)) = PROC_RUNNABLE"

definition ptab_ok :: "ptab \<Rightarrow> nat list \<Rightarrow> (nat \<Rightarrow> nat list) \<Rightarrow> (nat \<Rightarrow> nat list) \<Rightarrow> bool" where
  "ptab_ok t L K B \<longleftrightarrow> lists_ok t L B \<and> family_ok t L K (\<lambda>_. None) \<and> states_ok t L \<and>
     (\<forall>p \<in> set L. state (pr t p) = PROC_ZOMBIE \<longrightarrow> K p = []) \<and>
     cur t \<in> members t L \<and> state (pr t (cur t)) = PROC_RUNNABLE"

lemma ptab_ok_iff: "ptab_ok t L K B \<longleftrightarrow> ptab_base t L K B \<and> init_ok t L"
  by (auto simp: ptab_ok_def ptab_base_def states_ok_iff)

lemma sibs_cong:
  "(\<And>x. x \<in> set xs \<Longrightarrow> yptr (P x) = yptr (Q x) \<and> optr (P x) = optr (Q x)) \<Longrightarrow> sibs P y c xs \<longleftrightarrow> sibs Q y c xs"
  by (induction xs arbitrary: y c) auto

lemma lists_cong:
  assumes "lists_ok t L B" "proc_list t' = proc_list t" "hash_list t' = hash_list t" "nr_process t' = nr_process t"
    "last_pid t' = last_pid t" "next_safe t' = next_safe t" "\<And>p. p \<in> set L \<Longrightarrow> pid (pr t' p) = pid (pr t p)"
  shows "lists_ok t' L B"
proof -
  have "{p \<in> set L. pid_hashfn (pid (pr t' p)) = i} = {p \<in> set L. pid_hashfn (pid (pr t p)) = i}" for i using assms(7) by auto
  moreover have "inj_on (\<lambda>p. pid (pr t' p)) (set L) = inj_on (\<lambda>p. pid (pr t p)) (set L)" using assms(7) by (rule inj_on_cong)
  ultimately show ?thesis using assms by (simp add: lists_ok_def hash_ok_def pids_ok_def)
qed

lemma family_cong:
  assumes "family_ok t L K Y" "idleproc (sched t') = idleproc (sched t)"
    "\<And>p. p \<in> members t L \<Longrightarrow> cptr (pr t' p) = cptr (pr t p) \<and> yptr (pr t' p) = yptr (pr t p) \<and>
       optr (pr t' p) = optr (pr t p) \<and> parent (pr t' p) = parent (pr t p)"
  shows "family_ok t' L K Y"
proof -
  have m: "members t' L = members t L" "\<And>p. p \<in> set L \<Longrightarrow> p \<in> members t L" using assms(2) by (auto simp: members_def)
  have "{q \<in> set L. parent (pr t' q) = Some p} = {q \<in> set L. parent (pr t q) = Some p}" for p using assms(3) m(2) by auto
  moreover have "sibs (pr t') (Y p) (cptr (pr t' p)) (K p)" if "p \<in> members t L" for p
  proof -
    have k: "sibs (pr t) (Y p) (cptr (pr t p)) (K p)" "set (K p) \<subseteq> set L" using assms(1) that by (auto simp: family_ok_def)
    have "sibs (pr t') (Y p) (cptr (pr t p)) (K p) \<longleftrightarrow> sibs (pr t) (Y p) (cptr (pr t p)) (K p)"
      by (rule sibs_cong) (use k(2) m(2) assms(3) in blast)
    then show ?thesis using k(1) assms(3) that by simp
  qed
  ultimately show ?thesis using assms(1,3) m by (auto simp: family_ok_def)
qed

lemma moved_simps:
  assumes "moved t t'"
  shows "sched_inv rr_ok rr_queued (sched t')" "idleproc (sched t') = idleproc (sched t)" "initproc (sched t') = initproc (sched t)"
    "members t' L = members t L" "lists_ok t L B \<Longrightarrow> lists_ok t' L B" "family_ok t L K Y \<Longrightarrow> family_ok t' L K Y"
    "flags (pr t' p) = flags (pr t p)" "exit_code (pr t' p) = exit_code (pr t p)" "parent (pr t' p) = parent (pr t p)"
    "pid (pr t' p) = pid (pr t p)" "cptr (pr t' p) = cptr (pr t p)" "optr (pr t' p) = optr (pr t p)" "yptr (pr t' p) = yptr (pr t p)"
proof -
  from assms obtain s where s: "t' = t\<lparr>sched := s\<rparr>" "same_kin (sched t) s" "sched_inv rr_ok rr_queued s" by (auto simp: moved_def)
  then show "sched_inv rr_ok rr_queued (sched t')" "idleproc (sched t') = idleproc (sched t)" "initproc (sched t') = initproc (sched t)"
    "flags (pr t' p) = flags (pr t p)" "exit_code (pr t' p) = exit_code (pr t p)" "parent (pr t' p) = parent (pr t p)"
    "pid (pr t' p) = pid (pr t p)" "cptr (pr t' p) = cptr (pr t p)" "optr (pr t' p) = optr (pr t p)" "yptr (pr t' p) = yptr (pr t p)"
    by (simp_all add: same_kin_def)
  then show "members t' L = members t L" by (simp add: members_def)
  show "lists_ok t L B \<Longrightarrow> lists_ok t' L B" by (erule lists_cong) (use s in \<open>simp_all add: same_kin_def\<close>)
  show "family_ok t L K Y \<Longrightarrow> family_ok t' L K Y" by (erule family_cong) (use s in \<open>simp_all add: same_kin_def\<close>)
qed

end
