(* ===== verification/Proc_Links.thy ===== *)
theory Proc_Links
  imports Proc_Inv
begin

text \<open>
  The operations on the lists and on the pointers between relatives keep \<open>lists_ok\<close> and \<open>family_ok\<close>:
  entering a process (\<open>hash_proc\<close>, \<open>set_links\<close>), taking it out (\<open>unhash_proc\<close>, \<open>remove_links\<close>) and
  giving a child to \<^verbatim>\<open>initproc\<close> (\<open>orphan\<close>).
\<close>

subsection \<open>Lists of siblings\<close>

lemma sibs_front:
  assumes "sibs P y c xs" "distinct xs" "\<And>x. x \<in> set xs \<Longrightarrow> optr (Q x) = optr (P x)"
    "\<And>x. x \<in> set xs \<Longrightarrow> yptr (Q x) = (if x = hd xs then y' else yptr (P x))"
  shows "sibs Q y' c xs"
proof (cases xs)
  case (Cons x xs')
  have "sibs Q (Some x) (optr (P x)) xs' \<longleftrightarrow> sibs P (Some x) (optr (P x)) xs'"
    by (rule sibs_cong) (use assms(2-4) Cons in auto)
  then show ?thesis using assms Cons by simp
qed (use assms in simp)

lemma sibs_nth:
  assumes "sibs P y c (as @ p # bs)"
  shows "yptr (P p) = (if as = [] then y else Some (last as))" "optr (P p) = (if bs = [] then None else Some (hd bs))"
    "c = Some (hd (as @ [p]))"
  using assms by (induction as arbitrary: y c) (cases bs; auto)+

lemma sibs_remove:
  assumes "sibs P y c (as @ p # bs)" "distinct (as @ p # bs)"
    "\<And>x. x \<in> set as \<union> set bs \<Longrightarrow> yptr (Q x) = (if bs \<noteq> [] \<and> x = hd bs then yptr (P p) else yptr (P x))"
    "\<And>x. x \<in> set as \<union> set bs \<Longrightarrow> optr (Q x) = (if as \<noteq> [] \<and> x = last as then optr (P p) else optr (P x))"
  shows "sibs Q y (if as = [] then optr (P p) else c) (as @ bs)"
  using assms
proof (induction as arbitrary: y c)
  case Nil
  then have "sibs P (Some p) (optr (P p)) bs" "yptr (P p) = y" by auto
  then show ?case using sibs_front [of P "Some p" "optr (P p)" bs Q y] Nil by (cases bs) auto
next
  case (Cons a as)
  have a: "c = Some a" "yptr (P a) = y" "sibs P (Some a) (optr (P a)) (as @ p # bs)" using Cons.prems(1) by auto
  have "sibs Q (Some a) (if as = [] then optr (P p) else optr (P a)) (as @ bs)"
    by (rule Cons.IH [OF a(3)]) (use Cons.prems in auto)
  moreover have "yptr (Q a) = y" using Cons.prems(2,3) a(2) by (cases bs) auto
  moreover have "optr (Q a) = (if as = [] then optr (P p) else optr (P a))"
    using Cons.prems(2) Cons.prems(4) [of a] by (cases "as = []") auto
  ultimately show ?case using a(1) by auto
qed

subsection \<open>What the pointers do not touch\<close>

definition relinked :: "ptab \<Rightarrow> ptab \<Rightarrow> bool" where
  "relinked t t' \<longleftrightarrow> (\<exists>P. sched t' = (sched t)\<lparr>procs := P\<rparr> \<and> (\<forall>p. pid (P p) = pid (pr t p) \<and> state (P p) = state (pr t p) \<and>
     wait_state (P p) = wait_state (pr t p) \<and> flags (P p) = flags (pr t p) \<and> exit_code (P p) = exit_code (pr t p) \<and>
     has_rq (P p) = has_rq (pr t p)))"

lemma relinked_simps:
  assumes "relinked t t'"
  shows "pid (pr t' p) = pid (pr t p)" "state (pr t' p) = state (pr t p)" "wait_state (pr t' p) = wait_state (pr t p)"
    "flags (pr t' p) = flags (pr t p)" "exit_code (pr t' p) = exit_code (pr t p)" "cur t' = cur t"
    "idleproc (sched t') = idleproc (sched t)" "initproc (sched t') = initproc (sched t)"
    "sched_inv rr_ok rr_queued (sched t) \<Longrightarrow> sched_inv rr_ok rr_queued (sched t')"
proof -
  from assms obtain P where P: "sched t' = (sched t)\<lparr>procs := P\<rparr>" "\<And>p. state (P p) = state (pr t p)" "\<And>p. has_rq (P p) = has_rq (pr t p)"
    "\<And>p. wait_state (P p) = wait_state (pr t p)"
    unfolding relinked_def by blast
  show "pid (pr t' p) = pid (pr t p)" "state (pr t' p) = state (pr t p)" "wait_state (pr t' p) = wait_state (pr t p)"
    "flags (pr t' p) = flags (pr t p)" "exit_code (pr t' p) = exit_code (pr t p)" "cur t' = cur t"
    "idleproc (sched t') = idleproc (sched t)" "initproc (sched t') = initproc (sched t)"
    using assms by (auto simp: relinked_def)
  assume i: "sched_inv rr_ok rr_queued (sched t)"
  show "sched_inv rr_ok rr_queued (sched t')"
    by (rule rr.inv_frame [OF i]) (use P in \<open>simp_all add: same_queue_def same_core_def\<close>)
qed

lemma relinked_refl: "sched t' = sched t \<Longrightarrow> relinked t t'"
  by (auto simp: relinked_def intro!: exI [of _ "procs (sched t)"])

lemma relinked_trans: "relinked t u \<Longrightarrow> relinked u v \<Longrightarrow> relinked t v"
  unfolding relinked_def by (elim exE) (rule_tac x = Pa in exI, simp)

lemma relinked_set:
  "(\<And>q. pid (f q) = pid q \<and> state (f q) = state q \<and> wait_state (f q) = wait_state q \<and> flags (f q) = flags q \<and>
     exit_code (f q) = exit_code q \<and> has_rq (f q) = has_rq q) \<Longrightarrow> relinked t (set_proc p f t)"
  unfolding relinked_def by (rule exI [of _ "(pr t)(p := f (pr t p))"]) (simp add: set_proc_def upd_proc_def)

lemma relinked_step:
  "relinked t u \<Longrightarrow> (\<And>q. pid (f q) = pid q \<and> state (f q) = state q \<and> wait_state (f q) = wait_state q \<and> flags (f q) = flags q \<and>
     exit_code (f q) = exit_code q \<and> has_rq (f q) = has_rq q) \<Longrightarrow> relinked t (set_proc p f u)"
  by (rule relinked_trans [OF _ relinked_set])

subsection \<open>Entering\<close>

lemma bucket_disjoint:
  assumes "hash_ok t L B" "i < HASH_LIST_SIZE" "j < HASH_LIST_SIZE" "i \<noteq> j"
  shows "insert (HashHead i) (set (map HashLink (B i))) \<inter> insert (HashHead j) (set (map HashLink (B j))) = {}"
  using assms by (auto simp: hash_ok_def)

lemma enter_lists:
  assumes l: "lists_ok t L B" and p: "p \<notin> set L" and n: "pid (pr t p) \<in> pid_range" "pid (pr t p) \<notin> (\<lambda>q. pid (pr t q)) ` set L"
    and g: "\<not> (last_pid t < pid (pr t p) \<and> pid (pr t p) < next_safe t)"
    and t': "proc_list t' = list_add ProcList (ListLink p) (proc_list t)" "hash_list t' = hash_list (hash_proc p t)"
    "nr_process t' = nr_process t + 1" "last_pid t' = last_pid t" "next_safe t' = next_safe t" "\<And>q. pid (pr t' q) = pid (pr t q)"
  shows "lists_ok t' (p # L) (B(pid_hashfn (pid (pr t p)) := p # B (pid_hashfn (pid (pr t p)))))"
proof -
  let ?h = "pid_hashfn (pid (pr t p))"
  have d: "dll (proc_list t) ProcList (map ListLink L)" and h: "hash_ok t L B" and k: "pids_ok t L" using l by (simp_all add: lists_ok_def)
  have "dll (proc_list t') ProcList (map ListLink (p # L))" using dll_add_after_head [OF d, of "ListLink p"] p t'(1) by auto
  moreover have "pids_ok t' (p # L)" using k n g p unfolding pids_ok_def t'(4-6) by simp
  moreover have "hash_ok t' (p # L) (B(?h := p # B ?h))" unfolding hash_ok_def
  proof (intro allI impI)
    fix i assume i: "i < HASH_LIST_SIZE"
    have b: "dll (hash_list t) (HashHead j) (map HashLink (B j))" "set (B j) = {q \<in> set L. pid_hashfn (pid (pr t q)) = j}"
      if "j < HASH_LIST_SIZE" for j using h that by (simp_all add: hash_ok_def)
    note hb = b [OF pid_hashfn_bound [of "pid (pr t p)"]]
    have np: "p \<notin> set (B j)" if "j < HASH_LIST_SIZE" for j using b(2) [OF that] p by auto
    have "dll (hash_list t') (HashHead i) (map HashLink ((B(?h := p # B ?h)) i))"
    proof (cases "i = ?h")
      case True
      then show ?thesis using dll_add_after_head [OF hb(1), of "HashLink p"] np [OF pid_hashfn_bound] t'(2) by (auto simp: hash_proc_def)
    next
      case False
      have "dll (list_add (HashHead ?h) (HashLink p) (hash_list t)) (HashHead i) (map HashLink (B i))"
        by (rule dll_add_other [OF hb(1) b(1) [OF i] bucket_disjoint [OF h pid_hashfn_bound i]]) (use False np [OF i] in auto)
      then show ?thesis using False t'(2) by (simp add: hash_proc_def)
    qed
    moreover have "set ((B(?h := p # B ?h)) i) = {q \<in> set (p # L). pid_hashfn (pid (pr t' q)) = i}"
      using b(2) [OF i] t'(6) by auto
    ultimately show "dll (hash_list t') (HashHead i) (map HashLink ((B(?h := p # B ?h)) i)) \<and>
      set ((B(?h := p # B ?h)) i) = {q \<in> set (p # L). pid_hashfn (pid (pr t' q)) = i}" ..
  qed
  ultimately show ?thesis using l t'(3) by (simp add: lists_ok_def)
qed

text \<open>A process becomes the youngest child: of its parent when it is made, of \<^verbatim>\<open>initproc\<close> when it is orphaned.\<close>

lemma add_child:
  assumes s: "sibs P None c xs" "distinct (p # xs)" and p: "yptr (Q p) = None" "optr (Q p) = c"
    and x: "\<And>x. x \<in> set xs \<Longrightarrow> optr (Q x) = optr (P x)" "\<And>x. x \<in> set xs \<Longrightarrow> yptr (Q x) = (if Some x = c then Some p else yptr (P x))"
  shows "sibs Q None (Some p) (p # xs)"
proof -
  have hd: "c = Some (hd xs)" if "z \<in> set xs" for z using s(1) that by (cases xs) auto
  have "sibs Q (Some p) c xs"
  proof (rule sibs_front [OF s(1)])
    fix z assume z: "z \<in> set xs"
    show "optr (Q z) = optr (P z)" "yptr (Q z) = (if z = hd xs then Some p else yptr (P z))" using x [OF z] hd [OF z] by auto
  qed (use s(2) in simp)
  then show ?thesis using p by simp
qed

lemma enter_family:
  assumes f: "family_ok t L K (\<lambda>_. None)" and p: "p \<notin> members t L" and c: "parent (pr t p) = Some c" "c \<in> members t L" "cptr (pr t p) = None"
  shows "\<exists>t'. set_links p t = Some t' \<and> relinked t t' \<and> family_ok t' (p # L) (K(c := p # K c, p := [])) (\<lambda>_. None) \<and>
    proc_list t' = list_add ProcList (ListLink p) (proc_list t) \<and> hash_list t' = hash_list t \<and> nr_process t' = nr_process t + 1 \<and>
    last_pid t' = last_pid t \<and> next_safe t' = next_safe t \<and> (\<forall>q. parent (pr t' q) = parent (pr t q))"
proof -
  let ?K = "K(c := p # K c, p := [])"
  have pc: "p \<noteq> c" using p c(2) by auto
  define t1 where "t1 = set_proc p (\<lambda>q. q\<lparr>yptr := None\<rparr>) (t\<lparr>proc_list := list_add ProcList (ListLink p) (proc_list t)\<rparr>)"
  define older where "older = cptr (pr t1 c)"
  define t3 where "t3 = set_proc p (\<lambda>q. q\<lparr>optr := older\<rparr>) t1"
  define t4 where "t4 = (case older of None \<Rightarrow> t3 | Some o' \<Rightarrow> set_proc o' (\<lambda>q. q\<lparr>yptr := Some p\<rparr>) t3)"
  define t5 where "t5 = set_proc c (\<lambda>q. q\<lparr>cptr := Some p\<rparr>) t4"
  define t' where "t' = t5\<lparr>nr_process := nr_process t5 + 1\<rparr>"
  have "parent (pr t1 p) = Some c" using c(1) by (simp add: t1_def)
  then have run: "set_links p t = Some t'"
    unfolding set_links_def Let_def t1_def [symmetric]
    by (cases "cptr (pr t1 c)") (simp_all add: t3_def t4_def t5_def t'_def older_def)
  have older: "older = cptr (pr t c)" using pc by (simp add: older_def t1_def)
  have "relinked t t1" unfolding t1_def by (rule relinked_trans [OF relinked_refl relinked_set]) simp_all
  then have "relinked t t3" unfolding t3_def by (rule relinked_trans [OF _ relinked_set]) simp
  then have "relinked t t4" unfolding t4_def by (cases older) (simp_all add: relinked_step)
  then have "relinked t t5" unfolding t5_def by (rule relinked_trans [OF _ relinked_set]) simp
  then have r: "relinked t t'" unfolding t'_def by (rule relinked_trans [OF _ relinked_refl]) simp
  have k: "sibs (pr t) None (cptr (pr t q)) (K q)" "distinct (K q)" "set (K q) = {r \<in> set L. parent (pr t r) = Some q}" if "q \<in> members t L" for q
    using f that by (simp_all add: family_ok_def)
  have own: "older = Some r \<Longrightarrow> r \<in> set (K c)" for r using k [OF c(2)] older by (cases "K c") auto
  have fields: "yptr (pr t' q) = (if Some q = older then Some p else if q = p then None else yptr (pr t q))"
    "optr (pr t' q) = (if q = p then older else optr (pr t q))" "cptr (pr t' q) = (if q = c then Some p else cptr (pr t q))"
    "parent (pr t' q) = parent (pr t q)" for q
    by (cases older; simp add: t'_def t5_def t4_def t3_def t1_def)+
  have m: "members t' (p # L) = insert p (members t L)" using relinked_simps(7) [OF r] by (auto simp: members_def)
  have sub: "set L \<subseteq> members t L" by (auto simp: members_def)
  have pL: "p \<notin> set L" using p sub by blast
  have kids: "set (?K q) = {r \<in> set (p # L). parent (pr t' r) = Some q}" if "q \<in> insert p (members t L)" for q
  proof (cases "q = p")
    case True
    have "parent (pr t r) \<noteq> Some p" if "r \<in> set L" for r using f that p unfolding family_ok_def by (metis option.inject)
    then show ?thesis using True c(1) pc fields(4) by auto
  next
    case False
    then show ?thesis using that k(3) [of q] c(1) fields(4) pL by auto
  qed
  have chain: "sibs (pr t') None (cptr (pr t' q)) (?K q) \<and> distinct (?K q)" if "q \<in> insert p (members t L)" for q
  proof -
    consider "q = p" | "q = c" | "q \<noteq> p" "q \<noteq> c" by blast
    then show ?thesis
    proof cases
      case 1
      then show ?thesis using c(3) pc fields(3) by simp
    next
      case 2
      have nin: "p \<notin> set (K c)" using k(3) [OF c(2)] pL by auto
      have "sibs (pr t') None (Some p) (p # K c)"
      proof (rule add_child [OF k(1) [OF c(2)]])
        show "yptr (pr t' p) = None" using own nin by (auto simp: fields(1))
        show "optr (pr t' p) = cptr (pr t c)" by (simp add: fields(2) older)
        fix x assume x: "x \<in> set (K c)"
        show "optr (pr t' x) = optr (pr t x)" using x nin by (auto simp: fields(2))
        show "yptr (pr t' x) = (if Some x = cptr (pr t c) then Some p else yptr (pr t x))" using x nin by (auto simp: fields(1) older)
      qed (use nin k(2) [OF c(2)] in simp)
      then show ?thesis using 2 pc nin k(2) [OF c(2)] by (simp add: fields(3))
    next
      case 3
      then have q: "q \<in> members t L" using that by simp
      have "sibs (pr t') None (cptr (pr t q)) (K q) \<longleftrightarrow> sibs (pr t) None (cptr (pr t q)) (K q)"
      proof (rule sibs_cong)
        fix x assume x: "x \<in> set (K q)"
        then have "x \<noteq> p" "Some x \<noteq> older" using k(3) [OF q] k(3) [OF c(2)] own pL 3 by auto
        then show "yptr (pr t' x) = yptr (pr t x) \<and> optr (pr t' x) = optr (pr t x)" by (simp add: fields(1,2))
      qed
      then show ?thesis using 3 k(1,2) [OF q] by (simp add: fields(3))
    qed
  qed
  have par: "\<exists>z \<in> insert p (members t L). parent (pr t' q) = Some z" if "q \<in> set (p # L)" for q
  proof (cases "q = p")
    case False
    then have "q \<in> set L" using that by simp
    then show ?thesis using f unfolding family_ok_def fields(4) by blast
  qed (use c fields(4) in auto)
  have "family_ok t' (p # L) ?K (\<lambda>_. None)"
    unfolding family_ok_def m using kids chain par by blast
  moreover have "proc_list t' = list_add ProcList (ListLink p) (proc_list t)" "hash_list t' = hash_list t" "nr_process t' = nr_process t + 1"
    "last_pid t' = last_pid t" "next_safe t' = next_safe t"
    by (cases older; simp add: t'_def t5_def t4_def t3_def t1_def)+
  ultimately show ?thesis using run r fields(4) by blast
qed

subsection \<open>Leaving\<close>

lemma remove_lists:
  assumes l: "lists_ok t L B" and p: "p \<in> set L"
    and t': "proc_list t' = list_del (ListLink p) (proc_list t)" "hash_list t' = hash_list (unhash_proc p t)"
    "nr_process t' = nr_process t - 1" "last_pid t' = last_pid t" "next_safe t' = next_safe t" "\<And>q. pid (pr t' q) = pid (pr t q)"
  shows "lists_ok t' (remove1 p L) (B(pid_hashfn (pid (pr t p)) := remove1 p (B (pid_hashfn (pid (pr t p))))))"
proof -
  let ?h = "pid_hashfn (pid (pr t p))"
  have d: "dll (proc_list t) ProcList (map ListLink L)" and h: "hash_ok t L B" and k: "pids_ok t L" using l by (simp_all add: lists_ok_def)
  have b: "dll (hash_list t) (HashHead j) (map HashLink (B j))" "set (B j) = {q \<in> set L. pid_hashfn (pid (pr t q)) = j}"
    if "j < HASH_LIST_SIZE" for j using h that by (simp_all add: hash_ok_def)
  note hb = b [OF pid_hashfn_bound [of "pid (pr t p)"]]
  from p obtain xs ys where L: "L = xs @ p # ys" "p \<notin> set xs" by (meson split_list_first)
  from p hb(2) have "p \<in> set (B ?h)" by simp
  then obtain us vs where Bh: "B ?h = us @ p # vs" "p \<notin> set us" by (meson split_list_first)
  have dist: "distinct L" "distinct (B ?h)" using dll_distinct [OF d] dll_distinct [OF hb(1)] by (simp_all add: distinct_map)
  have "dll (proc_list t') ProcList (map ListLink (remove1 p L))"
    using dll_del [of "proc_list t" ProcList "map ListLink xs" "ListLink p" "map ListLink ys"] d L t'(1) by (simp add: remove1_append)
  moreover have "pids_ok t' (remove1 p L)" using k dist(1) unfolding pids_ok_def t'(4-6) by (auto simp: inj_on_def)
  moreover have "hash_ok t' (remove1 p L) (B(?h := remove1 p (B ?h)))" unfolding hash_ok_def
  proof (intro allI impI)
    fix i assume i: "i < HASH_LIST_SIZE"
    have "dll (hash_list t') (HashHead i) (map HashLink ((B(?h := remove1 p (B ?h))) i))"
    proof (cases "i = ?h")
      case True
      then show ?thesis using dll_del [of "hash_list t" "HashHead ?h" "map HashLink us" "HashLink p" "map HashLink vs"] hb(1) Bh t'(2)
        by (simp add: unhash_proc_def remove1_append)
    next
      case False
      have "dll (list_del (HashLink p) (hash_list t)) (HashHead i) (map HashLink (B i))"
        by (rule dll_del_other [of "hash_list t" "HashHead ?h" "map HashLink us" _ "map HashLink vs"])
          (use hb(1) Bh b(1) [OF i] bucket_disjoint [OF h pid_hashfn_bound i, of "pid (pr t p)"] False in auto)
      then show ?thesis using False t'(2) by (simp add: unhash_proc_def)
    qed
    moreover have "set ((B(?h := remove1 p (B ?h))) i) = {q \<in> set (remove1 p L). pid_hashfn (pid (pr t' q)) = i}"
      using b(2) [OF i] hb(2) dist t'(6) by (auto simp: set_remove1_eq)
    ultimately show "dll (hash_list t') (HashHead i) (map HashLink ((B(?h := remove1 p (B ?h))) i)) \<and>
      set ((B(?h := remove1 p (B ?h))) i) = {q \<in> set (remove1 p L). pid_hashfn (pid (pr t' q)) = i}" ..
  qed
  moreover have "nr_process t' = int (length (remove1 p L)) + 1"
    using l L t'(3) by (simp add: lists_ok_def remove1_append)
  ultimately show ?thesis by (simp add: lists_ok_def)
qed

lemma remove_family:
  assumes f: "family_ok t L K (\<lambda>_. None)" and p: "p \<in> set L" "distinct L" "p \<noteq> idleproc (sched t)" "K p = []" and c: "parent (pr t p) = Some c"
  shows "\<exists>t'. remove_links p t = Some t' \<and> relinked t t' \<and> family_ok t' (remove1 p L) (K(c := remove1 p (K c))) (\<lambda>_. None) \<and>
    proc_list t' = list_del (ListLink p) (proc_list t) \<and> hash_list t' = hash_list t \<and> nr_process t' = nr_process t - 1 \<and>
    last_pid t' = last_pid t \<and> next_safe t' = next_safe t \<and> (\<forall>q. parent (pr t' q) = parent (pr t q))"
proof -
  let ?K = "K(c := remove1 p (K c))"
  have k: "sibs (pr t) None (cptr (pr t q)) (K q)" "distinct (K q)" "set (K q) = {r \<in> set L. parent (pr t r) = Some q}" if "q \<in> members t L" for q
    using f that by (simp_all add: family_ok_def)
  have cm: "c \<in> members t L" using f p(1) c by (auto simp: family_ok_def)
  have pm: "p \<in> members t L" using p(1) by (simp add: members_def)
  have pK: "p \<in> set (K c)" using k(3) [OF cm] p(1) c by simp
  then have pc: "p \<noteq> c" using p(4) by auto
  from pK obtain as bs where as: "K c = as @ p # bs" "p \<notin> set as" by (meson split_list_first)
  note s = k(1) [OF cm, unfolded as(1)]
  have dist: "distinct (as @ p # bs)" using k(2) [OF cm] as(1) by simp
  define y where "y = yptr (pr t p)"
  define o' where "o' = optr (pr t p)"
  have yo: "y = (if as = [] then None else Some (last as))" "o' = (if bs = [] then None else Some (hd bs))" "cptr (pr t c) = Some (hd (as @ [p]))"
    using sibs_nth [OF s] by (simp_all add: y_def o'_def)
  have ny: "y \<noteq> Some p" "o' \<noteq> Some p" using yo dist last_in_set [of as] hd_in_set [of bs] by auto
  define t1 where "t1 = t\<lparr>proc_list := list_del (ListLink p) (proc_list t)\<rparr>"
  define t2 where "t2 = (case o' of None \<Rightarrow> t1 | Some q \<Rightarrow> set_proc q (\<lambda>r. r\<lparr>yptr := y\<rparr>) t1)"
  define t3 where "t3 = (case y of Some q \<Rightarrow> set_proc q (\<lambda>r. r\<lparr>optr := o'\<rparr>) t2 | None \<Rightarrow> set_proc c (\<lambda>r. r\<lparr>cptr := o'\<rparr>) t2)"
  define t' where "t' = t3\<lparr>nr_process := nr_process t3 - 1\<rparr>"
  have at1: "pr t1 = pr t" by (simp add: t1_def)
  have at2: "yptr (pr t2 p) = y" "optr (pr t2 p) = o'" "parent (pr t2 p) = Some c"
    using ny c by (auto simp: t2_def at1 y_def o'_def split: option.splits)
  have run: "remove_links p t = Some t'"
    unfolding remove_links_def Let_def t1_def [symmetric] at1 y_def [symmetric] o'_def [symmetric] t2_def [symmetric] at2
    by (cases y) (simp_all add: t3_def t'_def)
  have "relinked t t1" unfolding t1_def by (rule relinked_refl) simp
  then have "relinked t t2" unfolding t2_def by (cases o') (simp_all add: relinked_step)
  then have "relinked t t3" unfolding t3_def by (cases y) (simp_all add: relinked_step)
  then have r: "relinked t t'" unfolding t'_def by (rule relinked_trans [OF _ relinked_refl]) simp
  have fields: "yptr (pr t' q) = (if Some q = o' then y else yptr (pr t q))" "optr (pr t' q) = (if Some q = y then o' else optr (pr t q))"
    "cptr (pr t' q) = (if y = None \<and> q = c then o' else cptr (pr t q))" "parent (pr t' q) = parent (pr t q)" for q
    by (cases y; cases o'; simp add: t'_def t3_def t2_def at1)+
  have m: "members t' (remove1 p L) = members t L - {p}"
    using relinked_simps(7) [OF r] p(2,3) by (auto simp: members_def)
  have kids: "set (?K q) = {r \<in> set (remove1 p L). parent (pr t' r) = Some q}" if "q \<in> members t L - {p}" for q
  proof -
    have q: "q \<in> members t L" using that by simp
    have "set (remove1 p L) = set L - {p}" "set (remove1 p (K c)) = set (K c) - {p}" using p(2) k(2) [OF cm] by (simp_all add: set_remove1_eq)
    then show ?thesis using k(3) [OF q] c by (cases "q = c") (simp_all add: fields(4), auto)
  qed
  have chain: "sibs (pr t') None (cptr (pr t' q)) (?K q) \<and> distinct (?K q)" if "q \<in> members t L - {p}" for q
  proof (cases "q = c")
    case True
    have "sibs (pr t') None (if as = [] then optr (pr t p) else cptr (pr t c)) (as @ bs)"
    proof (rule sibs_remove [OF s dist])
      fix x assume x: "x \<in> set as \<union> set bs"
      show "yptr (pr t' x) = (if bs \<noteq> [] \<and> x = hd bs then yptr (pr t p) else yptr (pr t x))"
        using yo(2) by (auto simp: fields(1) y_def)
      show "optr (pr t' x) = (if as \<noteq> [] \<and> x = last as then optr (pr t p) else optr (pr t x))"
        using yo(1) by (auto simp: fields(2) o'_def)
    qed
    moreover have "cptr (pr t' c) = (if as = [] then optr (pr t p) else cptr (pr t c))" using yo(1) by (simp add: fields(3) o'_def)
    ultimately show ?thesis using True as dist by (simp add: remove1_append)
  next
    case False
    then have q: "q \<in> members t L" using that by simp
    have "sibs (pr t') None (cptr (pr t q)) (K q) \<longleftrightarrow> sibs (pr t) None (cptr (pr t q)) (K q)"
    proof (rule sibs_cong)
      fix x assume x: "x \<in> set (K q)"
      then have "x \<notin> set (K c)" using k(3) [OF q] k(3) [OF cm] False by auto
      then have "Some x \<noteq> o'" "Some x \<noteq> y" using yo as last_in_set [of as] hd_in_set [of bs] by auto
      then show "yptr (pr t' x) = yptr (pr t x) \<and> optr (pr t' x) = optr (pr t x)" by (simp add: fields(1,2))
    qed
    then show ?thesis using False k(1,2) [OF q] by (simp add: fields(3))
  qed
  have par: "\<exists>z \<in> members t L - {p}. parent (pr t' q) = Some z" if q: "q \<in> set (remove1 p L)" for q
  proof -
    have "q \<in> set L" using q p(2) by simp
    then obtain z where z: "z \<in> members t L" "parent (pr t q) = Some z" using f by (auto simp: family_ok_def)
    have "z \<noteq> p" using k(3) [OF pm] p(4) z(2) \<open>q \<in> set L\<close> by auto
    then show ?thesis using z by (auto simp: fields(4))
  qed
  have "family_ok t' (remove1 p L) ?K (\<lambda>_. None)"
    unfolding family_ok_def m using kids chain par by blast
  moreover have "proc_list t' = list_del (ListLink p) (proc_list t)" "hash_list t' = hash_list t" "nr_process t' = nr_process t - 1"
    "last_pid t' = last_pid t" "next_safe t' = next_safe t"
    by (cases y; cases o'; simp add: t'_def t3_def t2_def t1_def)+
  ultimately show ?thesis using run r fields(4) by blast
qed

subsection \<open>Orphans\<close>

definition none_but :: "nat \<Rightarrow> nat option \<Rightarrow> nat \<Rightarrow> nat option" where "none_but me y = (\<lambda>_. None)(me := y)"

text \<open>The pointers, before \<^verbatim>\<open>initproc\<close> is roused.\<close>

definition hand_over :: "nat \<Rightarrow> ptab \<Rightarrow> ptab" where
  "hand_over q t =
     (let t1 = set_proc (cur t) (\<lambda>r. r\<lparr>cptr := optr (pr t q)\<rparr>) t;
          t2 = set_proc q (\<lambda>r. r\<lparr>yptr := None\<rparr>) t1;
          ini = initproc (sched t2);
          first = cptr (pr t2 ini);
          t3 = set_proc q (\<lambda>r. r\<lparr>optr := first\<rparr>) t2;
          t4 = (case first of None \<Rightarrow> t3 | Some f \<Rightarrow> set_proc f (\<lambda>r. r\<lparr>yptr := Some q\<rparr>) t3)
      in set_proc ini (\<lambda>r. r\<lparr>cptr := Some q\<rparr>) (set_proc q (\<lambda>r. r\<lparr>parent := Some ini\<rparr>) t4))"

lemma orphan_split:
  "orphan q t = (let t5 = hand_over q t; ini = initproc (sched t) in
     if state (pr t5 q) = PROC_ZOMBIE \<and> wait_state (pr t5 ini) = WT_CHILD then wake ini t5 else Some t5)"
  by (simp only: orphan_def hand_over_def Let_def set_proc_simps(4))

lemma hand_over_ok:
  assumes f: "family_ok t L K (none_but (cur t) y)" and me: "cur t \<in> members t L" "K (cur t) = q # qs"
    and ini: "initproc (sched t) \<in> set L" "initproc (sched t) \<noteq> cur t"
  shows "relinked t (hand_over q t)"
    "family_ok (hand_over q t) L (K(cur t := qs, initproc (sched t) := q # K (initproc (sched t)))) (none_but (cur t) (Some q))"
    "proc_list (hand_over q t) = proc_list t" "hash_list (hand_over q t) = hash_list t" "nr_process (hand_over q t) = nr_process t"
    "last_pid (hand_over q t) = last_pid t" "next_safe (hand_over q t) = next_safe t"
    "\<And>p. parent (pr (hand_over q t) p) = (if p = q then Some (initproc (sched t)) else parent (pr t p))"
proof -
  let ?ini = "initproc (sched t)" and ?me = "cur t" and ?t' = "hand_over q t"
  let ?K = "K(?me := qs, ?ini := q # K ?ini)"
  define first where "first = cptr (pr t ?ini)"
  have k: "sibs (pr t) (none_but ?me y p) (cptr (pr t p)) (K p)" "distinct (K p)" "set (K p) = {r \<in> set L. parent (pr t r) = Some p}"
    if "p \<in> members t L" for p using f that by (simp_all add: family_ok_def)
  have im: "?ini \<in> members t L" using ini(1) by (simp add: members_def)
  have first: "first = (case K ?ini of [] \<Rightarrow> None | x # _ \<Rightarrow> Some x)" using k(1) [OF im] by (cases "K ?ini") (simp_all add: first_def)
  have qp: "parent (pr t q) = Some ?me" "q \<in> set L" using k(3) [OF me(1)] me(2) by auto
  have qini: "q \<notin> set (K ?ini)" using k(3) [OF im] qp ini(2) by auto
  have fq: "first \<noteq> Some q" using first qini by (cases "K ?ini") auto
  define t2 where "t2 = set_proc q (\<lambda>r. r\<lparr>yptr := None\<rparr>) (set_proc ?me (\<lambda>r. r\<lparr>cptr := optr (pr t q)\<rparr>) t)"
  have "initproc (sched t2) = ?ini" "cptr (pr t2 ?ini) = first" using ini(2) by (simp_all add: t2_def first_def)
  then have t': "?t' = (let t3 = set_proc q (\<lambda>r. r\<lparr>optr := first\<rparr>) t2;
      t4 = (case first of None \<Rightarrow> t3 | Some f \<Rightarrow> set_proc f (\<lambda>r. r\<lparr>yptr := Some q\<rparr>) t3)
    in set_proc ?ini (\<lambda>r. r\<lparr>cptr := Some q\<rparr>) (set_proc q (\<lambda>r. r\<lparr>parent := Some ?ini\<rparr>) t4))"
    unfolding hand_over_def Let_def t2_def [symmetric] by (cases first) simp_all
  have r2: "relinked t t2" unfolding t2_def by (simp add: relinked_step relinked_refl)
  show r: "relinked t ?t'" unfolding t' Let_def using r2 by (cases first) (simp_all add: relinked_step)
  show rest: "proc_list ?t' = proc_list t" "hash_list ?t' = hash_list t" "nr_process ?t' = nr_process t"
    "last_pid ?t' = last_pid t" "next_safe ?t' = next_safe t"
    unfolding t' Let_def by (cases first; simp add: t2_def)+
  show par: "parent (pr ?t' p) = (if p = q then Some ?ini else parent (pr t p))" for p
    unfolding t' Let_def by (cases first) (simp_all add: t2_def)
  have fields: "yptr (pr ?t' p) = (if Some p = first then Some q else if p = q then None else yptr (pr t p))"
    "optr (pr ?t' p) = (if p = q then first else optr (pr t p))"
    "cptr (pr ?t' p) = (if p = ?ini then Some q else if p = ?me then optr (pr t q) else cptr (pr t p))" for p
    unfolding t' Let_def by (cases first; simp add: t2_def)+
  have m: "members ?t' L = members t L" using relinked_simps(7) [OF r] by (simp add: members_def)
  have kids: "set (?K p) = {r \<in> set L. parent (pr ?t' r) = Some p}" if p: "p \<in> members t L" for p
  proof -
    have "set (K p) = {r \<in> set L. parent (pr t r) = Some p}" using k(3) [OF p] .
    then show ?thesis using k(2) [OF me(1)] me(2) qp ini(2)
      by (cases "p = ?me"; cases "p = ?ini") (auto simp: par)
  qed
  have chain: "sibs (pr ?t') (none_but ?me (Some q) p) (cptr (pr ?t' p)) (?K p) \<and> distinct (?K p)" if p: "p \<in> members t L" for p
  proof -
    consider "p = ?me" | "p = ?ini" | "p \<noteq> ?me" "p \<noteq> ?ini" by blast
    then show ?thesis
    proof cases
      case 1
      have s: "sibs (pr t) (Some q) (optr (pr t q)) qs" using k(1) [OF me(1)] me(2) by simp
      have "sibs (pr ?t') (Some q) (optr (pr t q)) qs \<longleftrightarrow> sibs (pr t) (Some q) (optr (pr t q)) qs"
      proof (rule sibs_cong)
        fix x assume x: "x \<in> set qs"
        then have "x \<noteq> q" "x \<in> set (K ?me)" using k(2) [OF me(1)] me(2) by auto
        moreover from this have "x \<notin> set (K ?ini)" using k(3) [OF me(1)] k(3) [OF im] ini(2) by auto
        then have "Some x \<noteq> first" using first by (cases "K ?ini") auto
        ultimately show "yptr (pr ?t' x) = yptr (pr t x) \<and> optr (pr ?t' x) = optr (pr t x)" by (simp add: fields(1,2))
      qed
      then show ?thesis using 1 s ini(2) k(2) [OF me(1)] me(2) by (simp add: fields(3) none_but_def)
    next
      case 2
      have "sibs (pr ?t') None (Some q) (q # K ?ini)"
      proof (rule add_child)
        show "sibs (pr t) None (cptr (pr t ?ini)) (K ?ini)" using k(1) [OF im] ini(2) by (simp add: none_but_def)
        show "yptr (pr ?t' q) = None" "optr (pr ?t' q) = cptr (pr t ?ini)" using fq by (auto simp: fields(1,2) first_def)
        fix x assume x: "x \<in> set (K ?ini)"
        show "optr (pr ?t' x) = optr (pr t x)" using x qini by (auto simp: fields(2))
        show "yptr (pr ?t' x) = (if Some x = cptr (pr t ?ini) then Some q else yptr (pr t x))" using x qini by (auto simp: fields(1) first_def)
      qed (use qini k(2) [OF im] in simp)
      then show ?thesis using 2 ini(2) qini k(2) [OF im] by (simp add: fields(3) none_but_def)
    next
      case 3
      have "sibs (pr ?t') None (cptr (pr t p)) (K p) \<longleftrightarrow> sibs (pr t) None (cptr (pr t p)) (K p)"
      proof (rule sibs_cong)
        fix x assume x: "x \<in> set (K p)"
        then have "x \<noteq> q" "x \<notin> set (K ?ini)" using k(3) [OF p] k(3) [OF im] qp 3 by auto
        moreover from this have "Some x \<noteq> first" using first by (cases "K ?ini") auto
        ultimately show "yptr (pr ?t' x) = yptr (pr t x) \<and> optr (pr ?t' x) = optr (pr t x)" by (simp add: fields(1,2))
      qed
      then show ?thesis using 3 k(1,2) [OF p] by (simp add: fields(3) none_but_def)
    qed
  qed
  have "\<exists>z \<in> members t L. parent (pr ?t' p) = Some z" if "p \<in> set L" for p
    using f that im by (auto simp: family_ok_def par)
  then show "family_ok ?t' L ?K (none_but ?me (Some q))"
    unfolding family_ok_def m using kids chain by blast
qed

end
