(* ===== verification/Proc_Ops.thy ===== *)
theory Proc_Ops
  imports Proc_Links
begin

text \<open>
  The operations that change the process table keep its invariant \<open>ptab_ok\<close>, and what they do: a new
  process is entered and roused, an exiting process becomes a zombie without children whose parent and, if
  need be, \<^verbatim>\<open>initproc\<close> are awake, a zombie is reaped, a process is killed, and a round of waiting finds a
  zombie child exactly if there is one.
\<close>

subsection \<open>Orphans\<close>

lemma WT_CHILD_nonzero: "WT_CHILD \<noteq> 0"
  by (simp add: WT_CHILD_def WT_INTERRUPTED_def)

text \<open>Only processes of W may have been roused, and nothing else happened to states and numbers.\<close>

definition roused :: "nat set \<Rightarrow> ptab \<Rightarrow> ptab \<Rightarrow> bool" where
  "roused W t t' \<longleftrightarrow> idleproc (sched t') = idleproc (sched t) \<and> initproc (sched t') = initproc (sched t) \<and>
     (\<forall>p. pid (pr t' p) = pid (pr t p) \<and> flags (pr t' p) = flags (pr t p) \<and> exit_code (pr t' p) = exit_code (pr t p)) \<and>
     (\<forall>p. state (pr t' p) = state (pr t p) \<and> wait_state (pr t' p) = wait_state (pr t p) \<or>
        p \<in> W \<and> state (pr t p) = PROC_SLEEPING \<and> state (pr t' p) = PROC_RUNNABLE \<and> wait_state (pr t' p) = 0)"

lemma rousedD:
  assumes "roused W t t'"
  shows "idleproc (sched t') = idleproc (sched t)" "initproc (sched t') = initproc (sched t)" "members t' L = members t L"
    "pid (pr t' p) = pid (pr t p)" "flags (pr t' p) = flags (pr t p)" "exit_code (pr t' p) = exit_code (pr t p)"
    "state (pr t' p) = state (pr t p) \<and> wait_state (pr t' p) = wait_state (pr t p) \<or>
     p \<in> W \<and> state (pr t p) = PROC_SLEEPING \<and> state (pr t' p) = PROC_RUNNABLE \<and> wait_state (pr t' p) = 0"
    "state (pr t' p) = PROC_ZOMBIE \<longleftrightarrow> state (pr t p) = PROC_ZOMBIE"
proof -
  show "idleproc (sched t') = idleproc (sched t)" "initproc (sched t') = initproc (sched t)" "members t' L = members t L"
    "pid (pr t' p) = pid (pr t p)" "flags (pr t' p) = flags (pr t p)" "exit_code (pr t' p) = exit_code (pr t p)"
    using assms by (simp_all add: roused_def members_def)
  show d: "state (pr t' p) = state (pr t p) \<and> wait_state (pr t' p) = wait_state (pr t p) \<or>
     p \<in> W \<and> state (pr t p) = PROC_SLEEPING \<and> state (pr t' p) = PROC_RUNNABLE \<and> wait_state (pr t' p) = 0"
    using assms by (simp add: roused_def)
  then show "state (pr t' p) = PROC_ZOMBIE \<longleftrightarrow> state (pr t p) = PROC_ZOMBIE" by auto
qed

lemma roused_trans:
  assumes a: "roused W t u" and b: "roused W' u v"
  shows "roused (W \<union> W') t v"
proof -
  have "state (pr v p) = state (pr t p) \<and> wait_state (pr v p) = wait_state (pr t p) \<or>
    p \<in> W \<union> W' \<and> state (pr t p) = PROC_SLEEPING \<and> state (pr v p) = PROC_RUNNABLE \<and> wait_state (pr v p) = 0" for p
    using rousedD(7) [OF a, of p] rousedD(7) [OF b, of p] by auto
  then show ?thesis using a b unfolding roused_def by simp
qed

lemma roused_same: "roused W t t' \<Longrightarrow> roused W' t' t'' \<Longrightarrow> W' \<subseteq> W \<Longrightarrow> roused W t t''"
  using roused_trans [of W t t' W' t''] by (simp add: Un_absorb2)

lemma states_roused:
  assumes s: "states_ok t L" and w: "roused W t t'" and W: "W \<subseteq> members t L" and i: "sched_inv rr_ok rr_queued (sched t')"
  shows "states_ok t' L"
proof -
  note d = rousedD [OF w]
  have "state (pr t' p) \<noteq> PROC_UNINIT" if "p \<in> set L" for p using s that d(7) [of p] by (auto simp: states_ok_def)
  moreover have "state (pr t' p) \<noteq> PROC_RUNNABLE" if "p \<notin> members t L" for p using s that d(7) [of p] W by (auto simp: states_ok_def)
  moreover have "wait_state (pr t' p) = 0" if "p \<in> members t L" "state (pr t' p) \<noteq> PROC_SLEEPING" for p
    using s that d(7) [of p] by (auto simp: states_ok_def)
  moreover have "state (pr t' (idleproc (sched t))) = PROC_RUNNABLE" using s d(7) [of "idleproc (sched t)"] by (auto simp: states_ok_def)
  ultimately show ?thesis using s i d(1-3,8) unfolding states_ok_def by simp
qed

lemma wake_roused:
  assumes i: "sched_inv rr_ok rr_queued (sched t)" and p: "state (pr t p) = PROC_SLEEPING"
  shows "\<exists>t'. wake p t = Some t' \<and> moved t t' \<and> cur t' = cur t \<and> roused {p} t t' \<and> state (pr t' p) = PROC_RUNNABLE \<and> wait_state (pr t' p) = 0"
proof -
  have "state (pr t p) \<noteq> PROC_ZOMBIE" using p by simp
  from wake_ok [OF i this] obtain t' where t': "wake p t = Some t'" "moved t t'" "cur t' = cur t"
    "\<And>q. state (pr t' q) = (if q = p then PROC_RUNNABLE else state (pr t q))"
    "\<And>q. wait_state (pr t' q) = (if q = p \<and> state (pr t p) \<noteq> PROC_RUNNABLE then 0 else wait_state (pr t q))" by blast
  have "roused {p} t t'" unfolding roused_def using moved_simps [OF t'(2)] t'(4,5) p by simp
  then show ?thesis using t' p by auto
qed

lemma orphan_ok:
  assumes f: "family_ok t L K (none_but (cur t) y)" and me: "cur t \<in> members t L" "K (cur t) = q # qs"
    and ini: "initproc (sched t) \<in> set L" "initproc (sched t) \<noteq> cur t" "state (pr t (initproc (sched t))) \<noteq> PROC_ZOMBIE"
      "wait_state (pr t (initproc (sched t))) \<noteq> 0 \<Longrightarrow> state (pr t (initproc (sched t))) = PROC_SLEEPING"
    and l: "lists_ok t L B" and s: "sched_inv rr_ok rr_queued (sched t)"
  shows "\<exists>t'. orphan q t = Some t' \<and> lists_ok t' L B \<and> cur t' = cur t \<and> roused {initproc (sched t)} t t' \<and> sched_inv rr_ok rr_queued (sched t') \<and>
    family_ok t' L (K(cur t := qs, initproc (sched t) := q # K (initproc (sched t)))) (none_but (cur t) (Some q)) \<and>
    (\<forall>p. parent (pr t' p) = (if p = q then Some (initproc (sched t)) else parent (pr t p))) \<and>
    (state (pr t q) = PROC_ZOMBIE \<longrightarrow> wait_state (pr t' (initproc (sched t))) \<noteq> WT_CHILD) \<and>
    (state (pr t q) = PROC_ZOMBIE \<and> wait_state (pr t (initproc (sched t))) = WT_CHILD \<or> roused {} t t')"
proof -
  let ?ini = "initproc (sched t)" and ?t = "hand_over q t"
  note h = hand_over_ok [OF f me ini(1,2)]
  note r = relinked_simps [OF h(1)]
  have l1: "lists_ok ?t L B" by (rule lists_cong [OF l]) (use h(3-7) r(1) in simp_all)
  have s1: "sched_inv rr_ok rr_queued (sched ?t)" using r(9) [OF s] .
  have w1: "roused {?ini} t ?t" "roused {} t ?t" using r by (simp_all add: roused_def)
  show ?thesis
  proof (cases "state (pr t q) = PROC_ZOMBIE \<and> wait_state (pr t ?ini) = WT_CHILD")
    case False
    then have "orphan q t = Some ?t" using r(2,3) by (auto simp: orphan_split Let_def)
    then show ?thesis using l1 s1 w1 h(2,8) r(3,6) False by auto
  next
    case True
    then have "state (pr ?t ?ini) = PROC_SLEEPING" using ini(4) WT_CHILD_nonzero r(2) by simp
    from wake_roused [OF s1 this] obtain t' where t': "wake ?ini ?t = Some t'" "moved ?t t'" "cur t' = cur ?t" "roused {?ini} ?t t'"
      "wait_state (pr t' ?ini) = 0" by blast
    note m = moved_simps [OF t'(2)]
    have "orphan q t = Some t'" using True r(2,3) t'(1) by (simp add: orphan_split Let_def)
    moreover have "roused {?ini} t t'" by (rule roused_same [OF w1(1) t'(4)]) simp
    ultimately show ?thesis using True m(1) m(5) [OF l1] m(6) [OF h(2)] m(9) h(8) WT_CHILD_nonzero r(6) t'(3,5) by auto
  qed
qed

lemma orphan_loop_ok:
  assumes "family_ok t L K (none_but (cur t) y)" "cur t \<in> members t L"
    "initproc (sched t) \<in> set L" "initproc (sched t) \<noteq> cur t" "state (pr t (initproc (sched t))) \<noteq> PROC_ZOMBIE"
    "wait_state (pr t (initproc (sched t))) \<noteq> 0 \<Longrightarrow> state (pr t (initproc (sched t))) = PROC_SLEEPING"
    "lists_ok t L B" "sched_inv rr_ok rr_queued (sched t)"
  shows "\<exists>t'. orphan_loop t = Some t' \<and> lists_ok t' L B \<and> cur t' = cur t \<and> roused {initproc (sched t)} t t' \<and> sched_inv rr_ok rr_queued (sched t') \<and>
    family_ok t' L (K(cur t := [], initproc (sched t) := rev (K (cur t)) @ K (initproc (sched t)))) (\<lambda>_. None) \<and>
    (\<forall>p. parent (pr t' p) = (if p \<in> set (K (cur t)) then Some (initproc (sched t)) else parent (pr t p))) \<and>
    ((\<exists>q \<in> set (K (cur t)). state (pr t q) = PROC_ZOMBIE) \<longrightarrow> wait_state (pr t' (initproc (sched t))) \<noteq> WT_CHILD) \<and>
    ((\<exists>q \<in> set (K (cur t)). state (pr t q) = PROC_ZOMBIE) \<and> wait_state (pr t (initproc (sched t))) = WT_CHILD \<or> roused {} t t')"
  using assms
proof (induction "K (cur t)" arbitrary: t K y)
  case Nil
  have c: "cptr (pr t (cur t)) = None" using Nil.prems(1,2) Nil.hyps [symmetric] by (auto simp: family_ok_def)
  have "sibs (pr t) (none_but (cur t) y p) (cptr (pr t p)) (K p) \<Longrightarrow> sibs (pr t) None (cptr (pr t p)) (K p)" for p
    using Nil.hyps by (cases "p = cur t") (simp_all add: none_but_def)
  then have "family_ok t L K (\<lambda>_. None)" using Nil.prems(1) by (simp add: family_ok_def)
  moreover have "K(cur t := []) = K" using Nil.hyps by auto
  moreover have "orphan_loop t = Some t" using c by (subst orphan_loop.simps) simp
  ultimately show ?case using Nil by (simp add: roused_def flip: Nil.hyps)
next
  case (Cons q qs)
  let ?ini = "initproc (sched t)" and ?me = "cur t"
  let ?K1 = "K(?me := qs, ?ini := q # K ?ini)"
  have K: "K ?me = q # qs" using Cons.hyps(2) by simp
  have c: "cptr (pr t ?me) = Some q" using Cons.prems(1,2) K by (auto simp: family_ok_def)
  from orphan_ok [OF Cons.prems(1,2) K Cons.prems(3-8)] obtain t1 where t1: "orphan q t = Some t1" "lists_ok t1 L B" "cur t1 = ?me" "roused {?ini} t t1"
    "sched_inv rr_ok rr_queued (sched t1)" "family_ok t1 L ?K1 (none_but ?me (Some q))"
    "\<And>p. parent (pr t1 p) = (if p = q then Some ?ini else parent (pr t p))"
    "state (pr t q) = PROC_ZOMBIE \<Longrightarrow> wait_state (pr t1 ?ini) \<noteq> WT_CHILD"
    "state (pr t q) = PROC_ZOMBIE \<and> wait_state (pr t ?ini) = WT_CHILD \<or> roused {} t t1" by blast
  have e: "cur t1 = ?me" "initproc (sched t1) = ?ini" "members t1 L = members t L" using t1(3) rousedD(1,2) [OF t1(4)] by (simp_all add: members_def)
  have w: "state (pr t1 p) = state (pr t p) \<and> wait_state (pr t1 p) = wait_state (pr t p) \<or>
    p = ?ini \<and> state (pr t p) = PROC_SLEEPING \<and> state (pr t1 p) = PROC_RUNNABLE \<and> wait_state (pr t1 p) = 0" for p
    using rousedD(7) [OF t1(4)] by simp
  have qs: "qs = ?K1 ?me" using Cons.prems(4) by simp
  have z1: "state (pr t1 ?ini) \<noteq> PROC_ZOMBIE" "wait_state (pr t1 ?ini) \<noteq> 0 \<Longrightarrow> state (pr t1 ?ini) = PROC_SLEEPING"
    using w [of ?ini] Cons.prems(5,6) by auto
  from Cons.hyps(1) [where t = t1 and K = ?K1 and y = "Some q", unfolded e, OF qs t1(6) Cons.prems(2,3,4) z1 t1(2,5)] obtain t' where
    t': "orphan_loop t1 = Some t'" "lists_ok t' L B" "cur t' = ?me" "roused {?ini} t1 t'" "sched_inv rr_ok rr_queued (sched t')"
      "family_ok t' L (?K1(?me := [], ?ini := rev (?K1 ?me) @ ?K1 ?ini)) (\<lambda>_. None)"
      "\<And>p. parent (pr t' p) = (if p \<in> set (?K1 ?me) then Some ?ini else parent (pr t1 p))"
      "(\<exists>p \<in> set (?K1 ?me). state (pr t1 p) = PROC_ZOMBIE) \<Longrightarrow> wait_state (pr t' ?ini) \<noteq> WT_CHILD"
      "(\<exists>p \<in> set (?K1 ?me). state (pr t1 p) = PROC_ZOMBIE) \<and> wait_state (pr t1 ?ini) = WT_CHILD \<or> roused {} t1 t'" by blast
  have k1: "?K1 ?me = qs" "?K1 ?ini = q # K ?ini" using Cons.prems(4) by simp_all
  have "?K1(?me := [], ?ini := rev (?K1 ?me) @ ?K1 ?ini) = K(?me := [], ?ini := rev (K ?me) @ K ?ini)"
    unfolding k1 K using Cons.prems(4) by auto
  then have "family_ok t' L (K(?me := [], ?ini := rev (K ?me) @ K ?ini)) (\<lambda>_. None)" using t'(6) by simp
  moreover have "orphan_loop t = Some t'" using c t1(1) t'(1) by (subst orphan_loop.simps) simp
  moreover have "parent (pr t' p) = (if p \<in> set (K ?me) then Some ?ini else parent (pr t p))" for p
    using t'(7) t1(7) unfolding k1 K by simp
  moreover have "wait_state (pr t' ?ini) \<noteq> WT_CHILD" if z: "\<exists>p \<in> set (K ?me). state (pr t p) = PROC_ZOMBIE"
  proof (cases "state (pr t q) = PROC_ZOMBIE")
    case True
    have "wait_state (pr t' ?ini) = wait_state (pr t1 ?ini) \<or> wait_state (pr t' ?ini) = 0" using rousedD(7) [OF t'(4), of ?ini] by auto
    then show ?thesis using t1(8) [OF True] WT_CHILD_nonzero by auto
  next
    case False
    then obtain p where "p \<in> set qs" "state (pr t p) = PROC_ZOMBIE" using z K by auto
    moreover from this have "state (pr t1 p) = PROC_ZOMBIE" using w [of p] by auto
    ultimately show ?thesis using t'(8) k1 by auto
  qed
  moreover have "(\<exists>p \<in> set (K ?me). state (pr t p) = PROC_ZOMBIE) \<and> wait_state (pr t ?ini) = WT_CHILD \<or> roused {} t t'"
  proof (cases "(\<exists>p \<in> set (K ?me). state (pr t p) = PROC_ZOMBIE) \<and> wait_state (pr t ?ini) = WT_CHILD")
    case False
    then have a: "roused {} t t1" using t1(9) K by auto
    have "\<not> ((\<exists>p \<in> set qs. state (pr t1 p) = PROC_ZOMBIE) \<and> wait_state (pr t1 ?ini) = WT_CHILD)"
      using False K rousedD(7) [OF a] by auto
    then have "roused {} t1 t'" using t'(9) unfolding k1 by blast
    then show ?thesis using roused_same [OF a] by blast
  qed simp
  ultimately show ?case using t'(2,3,5) roused_same [OF t1(4) t'(4)] by blast
qed

subsection \<open>Exiting\<close>

lemma ptab_baseD:
  assumes "ptab_base t L K B"
  shows "lists_ok t L B" "family_ok t L K (\<lambda>_. None)" "base_ok t L" "sched_inv rr_ok rr_queued (sched t)"
    "p \<in> set L \<Longrightarrow> state (pr t p) = PROC_ZOMBIE \<Longrightarrow> K p = []" "cur t \<in> members t L" "state (pr t (cur t)) = PROC_RUNNABLE"
    "distinct L"
  using assms dll_distinct [of "proc_list t" ProcList "map ListLink L"] by (auto simp: ptab_base_def base_ok_def lists_ok_def distinct_map)

lemma ptab_okD:
  assumes "ptab_ok t L K B"
  shows "lists_ok t L B" "family_ok t L K (\<lambda>_. None)" "states_ok t L" "sched_inv rr_ok rr_queued (sched t)"
    "p \<in> set L \<Longrightarrow> state (pr t p) = PROC_ZOMBIE \<Longrightarrow> K p = []" "cur t \<in> members t L" "state (pr t (cur t)) = PROC_RUNNABLE"
    "distinct L" "p \<in> set L \<Longrightarrow> p \<in> members t L"
    "p \<in> members t L \<Longrightarrow> set (K p) = {q \<in> set L. parent (pr t q) = Some p}"
    "p \<in> members t L \<Longrightarrow> wait_state (pr t p) \<noteq> 0 \<Longrightarrow> state (pr t p) = PROC_SLEEPING"
    "p \<in> set L \<Longrightarrow> \<exists>c \<in> members t L. parent (pr t p) = Some c \<and> p \<in> set (K c) \<and> state (pr t c) \<noteq> PROC_ZOMBIE"
proof -
  show a: "lists_ok t L B" "family_ok t L K (\<lambda>_. None)" "states_ok t L" "cur t \<in> members t L" "state (pr t (cur t)) = PROC_RUNNABLE"
    using assms by (simp_all add: ptab_ok_def)
  show z: "p \<in> set L \<Longrightarrow> state (pr t p) = PROC_ZOMBIE \<Longrightarrow> K p = []" for p using assms by (simp add: ptab_ok_def)
  show "sched_inv rr_ok rr_queued (sched t)" "p \<in> members t L \<Longrightarrow> wait_state (pr t p) \<noteq> 0 \<Longrightarrow> state (pr t p) = PROC_SLEEPING"
    using a(3) by (auto simp: states_ok_def)
  show "p \<in> set L \<Longrightarrow> p \<in> members t L" by (simp add: members_def)
  show "distinct L" using a(1) dll_distinct by (fastforce simp: lists_ok_def distinct_map)
  show k: "p \<in> members t L \<Longrightarrow> set (K p) = {q \<in> set L. parent (pr t q) = Some p}" for p using a(2) by (simp add: family_ok_def)
  assume p: "p \<in> set L"
  then obtain c where c: "c \<in> members t L" "parent (pr t p) = Some c" using a(2) by (auto simp: family_ok_def)
  have "p \<in> set (K c)" using k [OF c(1)] p c(2) by simp
  moreover have "state (pr t c) \<noteq> PROC_ZOMBIE" using z [of c] calculation c(1) a(3) by (auto simp: members_def states_ok_def)
  ultimately show "\<exists>c \<in> members t L. parent (pr t p) = Some c \<and> p \<in> set (K c) \<and> state (pr t c) \<noteq> PROC_ZOMBIE" using c by blast
qed

text \<open>Setting fields that the invariants of lists and families do not mention.\<close>

lemma set_proc_lists: "(\<And>q. pid (f q) = pid q) \<Longrightarrow> lists_ok t L B \<Longrightarrow> lists_ok (set_proc p f t) L B"
  by (erule lists_cong) simp_all

lemma set_proc_family:
  "(\<And>q. cptr (f q) = cptr q \<and> yptr (f q) = yptr q \<and> optr (f q) = optr q \<and> parent (f q) = parent q) \<Longrightarrow>
    family_ok t L K Y \<Longrightarrow> family_ok (set_proc p f t) L K Y"
  by (erule family_cong) simp_all

lemma set_proc_states:
  assumes s: "states_ok t L" and p: "p \<in> set L" and i: "sched_inv rr_ok rr_queued (sched (set_proc p f t))"
    and f: "state (f (pr t p)) \<noteq> PROC_UNINIT" "p = initproc (sched t) \<Longrightarrow> state (f (pr t p)) \<noteq> PROC_ZOMBIE"
      "state (f (pr t p)) \<noteq> PROC_SLEEPING \<Longrightarrow> wait_state (f (pr t p)) = 0"
  shows "states_ok (set_proc p f t) L"
proof -
  have m: "members (set_proc p f t) L = members t L" by (simp add: members_def)
  have "p \<noteq> idleproc (sched t)" "p \<in> members t L" using s p by (auto simp: states_ok_def members_def)
  with s f show ?thesis unfolding states_ok_def m set_proc_simps by (cases "initproc (sched t) = p") (simp_all add: i)
qed

lemma exit_links_ok:
  assumes ok: "ptab_ok t L K B" and me: "cur t \<noteq> idleproc (sched t)" "cur t \<noteq> initproc (sched t)"
  defines "ini \<equiv> initproc (sched t)"
  shows "\<exists>t' c. exit_links code t = Some t' \<and> ptab_ok t' L (K(cur t := [], ini := rev (K (cur t)) @ K ini)) B \<and>
    parent (pr t (cur t)) = Some c \<and> wait_state (pr t' c) \<noteq> WT_CHILD \<and> state (pr t' (cur t)) = PROC_ZOMBIE \<and> exit_code (pr t' (cur t)) = code \<and>
    ((\<exists>q \<in> set (K (cur t)). state (pr t q) = PROC_ZOMBIE) \<longrightarrow> wait_state (pr t' ini) \<noteq> WT_CHILD) \<and>
    (\<forall>p. parent (pr t' p) = (if p \<in> set (K (cur t)) then Some ini else parent (pr t p))) \<and>
    roused {c, ini} (set_proc (cur t) (\<lambda>q. q\<lparr>state := PROC_ZOMBIE, exit_code := code\<rparr>) t) t' \<and>
    (\<forall>p. p \<noteq> cur t \<longrightarrow> wait_state (pr t p) = WT_CHILD \<and>
         (p = c \<or> p = ini \<and> (\<exists>q \<in> set (K (cur t)). q = cur t \<or> state (pr t q) = PROC_ZOMBIE)) \<or>
       state (pr t' p) = state (pr t p) \<and> wait_state (pr t' p) = wait_state (pr t p))"
proof -
  note d = ptab_okD [OF ok]
  let ?me = "cur t"
  let ?t1 = "set_proc ?me (\<lambda>q. q\<lparr>state := PROC_ZOMBIE, exit_code := code\<rparr>) t"
  have meL: "?me \<in> set L" using d(6) me by (simp add: members_def)
  from d(12) [OF meL] obtain c where c: "c \<in> members t L" "parent (pr t ?me) = Some c" "?me \<in> set (K c)" "state (pr t c) \<noteq> PROC_ZOMBIE" by blast
  have ini: "ini \<in> set L" "state (pr t ini) \<noteq> PROC_ZOMBIE" "ini \<in> members t L" "initproc (sched t) = ini" "ini \<noteq> ?me"
    using d(3) me(2) by (auto simp: states_ok_def ini_def members_def)
  have l1: "lists_ok ?t1 L B" by (rule set_proc_lists [OF _ d(1)]) simp
  have f1: "family_ok ?t1 L K (\<lambda>_. None)" by (rule set_proc_family [OF _ d(2)]) simp
  have s1: "sched_inv rr_ok rr_queued (sched ?t1)" by (rule set_proc_inv [OF d(4)]) simp_all
  have m1: "members ?t1 L = members t L" by (simp add: members_def)
  have w1: "wait_state (pr ?t1 p) \<noteq> 0 \<Longrightarrow> p \<in> members t L \<Longrightarrow> state (pr ?t1 p) = PROC_SLEEPING" for p using d(11) [of p] d(7) by (auto split: if_splits)
  have "wait_state (pr t ?me) = 0" using d(11) [OF d(6)] d(7) by auto
  then have st1: "states_ok ?t1 L" using me by (intro set_proc_states [OF d(3) meL s1]) simp_all
  have "\<exists>t2. (if wait_state (pr ?t1 c) = WT_CHILD then wake c ?t1 else Some ?t1) = Some t2 \<and> lists_ok t2 L B \<and> family_ok t2 L K (\<lambda>_. None) \<and>
    sched_inv rr_ok rr_queued (sched t2) \<and> cur t2 = ?me \<and> roused {c} ?t1 t2 \<and> wait_state (pr t2 c) \<noteq> WT_CHILD \<and>
    (\<forall>p. parent (pr t2 p) = parent (pr t p))"
  proof (cases "wait_state (pr ?t1 c) = WT_CHILD")
    case True
    then have "state (pr ?t1 c) = PROC_SLEEPING" using w1 [OF _ c(1)] WT_CHILD_nonzero by metis
    from wake_roused [OF s1 this] obtain t2 where t2: "wake c ?t1 = Some t2" "moved ?t1 t2" "cur t2 = cur ?t1" "roused {c} ?t1 t2"
      "wait_state (pr t2 c) = 0" by blast
    note m = moved_simps [OF t2(2)]
    have "parent (pr t2 p) = parent (pr t p)" for p using m(9) by simp
    then show ?thesis using True t2 m(1) m(5) [OF l1] m(6) [OF f1] WT_CHILD_nonzero by simp
  next
    case False
    then show ?thesis using l1 f1 s1 by (simp add: roused_def)
  qed
  then obtain t2 where t2: "(if wait_state (pr ?t1 c) = WT_CHILD then wake c ?t1 else Some ?t1) = Some t2" "lists_ok t2 L B"
    "family_ok t2 L K (\<lambda>_. None)" "sched_inv rr_ok rr_queued (sched t2)" "cur t2 = ?me" "roused {c} ?t1 t2" "wait_state (pr t2 c) \<noteq> WT_CHILD"
    "\<And>p. parent (pr t2 p) = parent (pr t p)" by blast
  have st2: "states_ok t2 L" by (rule states_roused [OF st1 t2(6) _ t2(4)]) (use c(1) m1 in simp)
  have e2: "initproc (sched t2) = ini" "members t2 L = members t L" using rousedD(2,3) [OF t2(6)] m1 ini(4) by simp_all
  have n: "none_but (cur t2) None = (\<lambda>_. None)" by (simp add: none_but_def)
  have p2: "family_ok t2 L K (none_but (cur t2) None)" "cur t2 \<in> members t2 L" "initproc (sched t2) \<in> set L" "initproc (sched t2) \<noteq> cur t2"
    "state (pr t2 (initproc (sched t2))) \<noteq> PROC_ZOMBIE"
    "wait_state (pr t2 (initproc (sched t2))) \<noteq> 0 \<Longrightarrow> state (pr t2 (initproc (sched t2))) = PROC_SLEEPING"
    using t2(3,5) e2 d(6) ini st2 unfolding n by (auto simp: states_ok_def)
  from orphan_loop_ok [OF p2 t2(2,4)] obtain t3 where t3: "orphan_loop t2 = Some t3" "lists_ok t3 L B" "cur t3 = ?me" "roused {ini} t2 t3"
    "sched_inv rr_ok rr_queued (sched t3)" "family_ok t3 L (K(?me := [], ini := rev (K ?me) @ K ini)) (\<lambda>_. None)"
    "\<And>p. parent (pr t3 p) = (if p \<in> set (K ?me) then Some ini else parent (pr t2 p))"
    "(\<exists>q \<in> set (K ?me). state (pr t2 q) = PROC_ZOMBIE) \<Longrightarrow> wait_state (pr t3 ini) \<noteq> WT_CHILD"
    "(\<exists>q \<in> set (K ?me). state (pr t2 q) = PROC_ZOMBIE) \<and> wait_state (pr t2 ini) = WT_CHILD \<or> roused {} t2 t3"
    unfolding e2 t2(5) by blast
  have w3: "roused {c, ini} ?t1 t3" using roused_trans [OF t2(6) t3(4)] by (simp add: insert_commute)
  have st3: "states_ok t3 L" by (rule states_roused [OF st1 w3 _ t3(5)]) (use c(1) ini(3) m1 in simp)
  from resched_ok [OF t3(5)] obtain t' where t': "resched t3 = Some t'" "moved t3 t'" "\<And>q. state (pr t' q) = state (pr t3 q)"
    "\<And>q. wait_state (pr t' q) = wait_state (pr t3 q)" "cur t' = idleproc (sched t3) \<or> state (pr t3 (cur t')) = PROC_RUNNABLE" by blast
  note m = moved_simps [OF t'(2)]
  have "roused {} t3 t'" unfolding roused_def using m(2,3,7,8,10) t'(3,4) by simp
  then have w: "roused {c, ini} ?t1 t'" by (rule roused_same [OF w3]) simp
  have st': "states_ok t' L" by (rule states_roused [OF st1 w _ m(1)]) (use c(1) ini(3) m1 in simp)
  have z: "state (pr t' p) = PROC_ZOMBIE \<longleftrightarrow> p = ?me \<or> state (pr t p) = PROC_ZOMBIE" for p using rousedD(8) [OF w, of p] by simp
  have "exit_links code t = Some t'" using c(2) t2(1) t3(1) t'(1) by (simp add: exit_links_def Let_def)
  moreover have "ptab_ok t' L (K(?me := [], ini := rev (K ?me) @ K ini)) B"
  proof -
    have "state (pr t' (cur t')) = PROC_RUNNABLE" using t'(3,5) st' m(2) by (auto simp: states_ok_def)
    moreover from this have "cur t' \<in> members t' L" using st' by (auto simp: states_ok_def)
    moreover have "p \<in> set L \<Longrightarrow> state (pr t' p) = PROC_ZOMBIE \<Longrightarrow> (K(?me := [], ini := rev (K ?me) @ K ini)) p = []" for p
      using z [of p] d(5) [of p] ini(2,5) by auto
    ultimately show ?thesis using st' m(5) [OF t3(2)] m(6) [OF t3(6)] by (simp add: ptab_ok_def)
  qed
  moreover have "wait_state (pr t' c) \<noteq> WT_CHILD" using t2(7) rousedD(7) [OF t3(4), of c] t'(4) WT_CHILD_nonzero by auto
  moreover have "wait_state (pr t' ini) \<noteq> WT_CHILD" if "\<exists>q \<in> set (K ?me). state (pr t q) = PROC_ZOMBIE"
  proof -
    from that obtain q where "q \<in> set (K ?me)" "state (pr ?t1 q) = PROC_ZOMBIE" by auto
    then have "\<exists>q \<in> set (K ?me). state (pr t2 q) = PROC_ZOMBIE" using rousedD(8) [OF t2(6)] by blast
    then show ?thesis using t3(8) t'(4) by simp
  qed
  moreover have "parent (pr t' p) = (if p \<in> set (K ?me) then Some ini else parent (pr t p))" for p using m(9) t3(7) t2(8) by simp
  moreover have "state (pr t' ?me) = PROC_ZOMBIE" "exit_code (pr t' ?me) = code" using z [of ?me] rousedD(6) [OF w, of ?me] by simp_all
  moreover have "wait_state (pr t p) = WT_CHILD \<and> (p = c \<or> p = ini \<and> (\<exists>q \<in> set (K ?me). q = ?me \<or> state (pr t q) = PROC_ZOMBIE)) \<or>
      state (pr t' p) = state (pr t p) \<and> wait_state (pr t' p) = wait_state (pr t p)" if p: "p \<noteq> ?me" for p
  proof (cases "wait_state (pr t p) = WT_CHILD \<and> (p = c \<or> p = ini \<and> (\<exists>q \<in> set (K ?me). q = ?me \<or> state (pr t q) = PROC_ZOMBIE))")
    case False
    have a: "state (pr t2 p) = state (pr t p) \<and> wait_state (pr t2 p) = wait_state (pr t p)"
    proof (cases "p = c")
      case True
      then have "t2 = ?t1" using False p t2(1) by auto
      then show ?thesis using p by simp
    next
      case False
      then show ?thesis using rousedD(7) [OF t2(6), of p] p by simp
    qed
    have b: "state (pr t3 p) = state (pr t2 p) \<and> wait_state (pr t3 p) = wait_state (pr t2 p)"
    proof (cases "p = ini")
      case True
      have "\<not> ((\<exists>q \<in> set (K ?me). state (pr t2 q) = PROC_ZOMBIE) \<and> wait_state (pr t2 ini) = WT_CHILD)"
        using False True a rousedD(8) [OF t2(6)] by (auto split: if_splits)
      then have "roused {} t2 t3" using t3(9) by blast
      then show ?thesis using rousedD(7) by blast
    next
      case False
      then show ?thesis using rousedD(7) [OF t3(4), of p] by simp
    qed
    show ?thesis using a b t'(3,4) by simp
  qed simp
  ultimately show ?thesis using c(2) w by blast
qed

subsection \<open>Making a process\<close>

lemma alloc_inv:
  assumes i: "sched_inv rr_ok rr_queued s" and p: "state (procs s p) \<noteq> PROC_RUNNABLE" and q: "state q \<noteq> PROC_RUNNABLE"
  shows "sched_inv rr_ok rr_queued (s\<lparr>run_list := list_init (RunLink p) (run_list s), pool := h, procs := (procs s)(p := q)\<rparr>)"
proof -
  let ?s = "s\<lparr>run_list := list_init (RunLink p) (run_list s), pool := h, procs := (procs s)(p := q)\<rparr>"
  from i obtain xs where w: "rr_wf s xs" "set xs = runnables s" using rr_wfD(3) by (fastforce simp: sched_inv_def rr_ok_def)
  have np: "p \<notin> set xs" using w(2) p by (auto simp: runnables_def)
  note d = rr_wfD [OF w(1)]
  have "dll (run_list ?s) RunList (map RunLink xs)" using dll_init_other [OF d(1), of "RunLink p"] np by auto
  moreover have "list_empty (RunLink r) (run_list ?s)" if "r \<notin> set xs" for r
    using d(6) [OF that] by (auto simp: link_defs)
  ultimately have w': "rr_wf ?s xs" using w(1) np by (simp add: rr_wf_def)
  moreover have "runnables ?s = runnables s" using p q by (auto simp: runnables_def)
  ultimately show ?thesis using rr_wfD(3) [OF w'] w(2) by (auto simp: sched_inv_def rr_ok_def)
qed

text \<open>Descriptors outside the table can be changed freely.\<close>

lemma outside_ok:
  assumes ok: "ptab_base t L K B" and p: "p \<notin> members t L" and same: "proc_list t' = proc_list t" "hash_list t' = hash_list t"
    "nr_process t' = nr_process t" "last_pid t' = last_pid t" "next_safe t' = next_safe t" "cur t' = cur t"
    "idleproc (sched t') = idleproc (sched t)" "initproc (sched t') = initproc (sched t)"
    "\<And>q. q \<noteq> p \<Longrightarrow> pr t' q = pr t q" "state (pr t' p) \<noteq> PROC_RUNNABLE" "sched_inv rr_ok rr_queued (sched t')"
  shows "ptab_base t' L K B"
proof -
  note d = ptab_baseD [OF ok]
  have e: "pr t' q = pr t q" if "q \<in> members t L" for q using same(9) that p by metis
  have m: "members t' L = members t L" by (simp add: members_def same(7))
  have sub: "q \<in> set L \<Longrightarrow> q \<in> members t L" for q by (simp add: members_def)
  have "lists_ok t' L B" by (rule lists_cong [OF d(1)]) (use same e sub in auto)
  moreover have "family_ok t' L K (\<lambda>_. None)" by (rule family_cong [OF d(2)]) (use same e in auto)
  moreover have "base_ok t' L"
  proof -
    have "idleproc (sched t) \<in> members t L" by (simp add: members_def)
    moreover have "state (pr t' q) \<noteq> PROC_RUNNABLE" if "q \<notin> members t L" for q
      using same(9,10) that d(3) by (cases "q = p") (auto simp: base_ok_def)
    ultimately show ?thesis using d(3) e sub same(11) unfolding base_ok_def m same(7,8) by simp
  qed
  ultimately show ?thesis using d(5-7) e sub by (simp add: ptab_base_def m same(6))
qed

lemma alloc_proc_ok:
  assumes ok: "ptab_base t L K B" and p: "p \<notin> members t L"
  shows "\<exists>t'. alloc_proc (Some p) t = (Some p, t') \<and> ptab_base t' L K B \<and> (\<forall>q. q \<noteq> p \<longrightarrow> pr t' q = pr t q) \<and> members t' L = members t L \<and>
    cur t' = cur t \<and> nr_process t' = nr_process t \<and> state (pr t' p) = PROC_UNINIT \<and> wait_state (pr t' p) = 0 \<and>
    cptr (pr t' p) = None \<and> flags (pr t' p) = 0 \<and> initproc (sched t') = initproc (sched t)"
proof -
  obtain t' where t': "alloc_proc (Some p) t = (Some p, t')" by (simp add: alloc_proc_def)
  then have e: "t' = set_proc p (\<lambda>q. q\<lparr>state := PROC_UNINIT, pid := - 1, runs := 0, need_resched := False,
       parent := None, flags := 0, wait_state := 0, cptr := None, optr := None, yptr := None, has_rq := False,
       time_slice := 0, lab6_stride := 0, lab6_priority := 0\<rparr>)
       (t\<lparr>sched := (sched t)\<lparr>run_list := list_init (RunLink p) (run_list (sched t)),
          pool := skew_heap_init p (pool (sched t))\<rparr>\<rparr>)" by (simp add: alloc_proc_def)
  have st: "state (pr t p) \<noteq> PROC_RUNNABLE" using ptab_baseD(3) [OF ok] p by (simp add: base_ok_def)
  have "sched_inv rr_ok rr_queued (sched t')"
    using alloc_inv [OF ptab_baseD(4) [OF ok] st] unfolding e by (simp add: set_proc_def upd_proc_def)
  then have "ptab_base t' L K B" by (intro outside_ok [OF ok p]) (simp_all add: e)
  then show ?thesis using t' by (simp add: e members_def)
qed

text \<open>The last steps of a fork: the number is set, the process is entered and roused.\<close>

lemma fork_enter_ok:
  assumes ok: "ptab_base t L K B" and p: "p \<notin> members t L" and n: "pid (pr t p) \<in> pid_range" "pid (pr t p) \<notin> (\<lambda>q. pid (pr t q)) ` set L"
    "pid (pr t p) = last_pid t" and st: "state (pr t p) = PROC_UNINIT" "wait_state (pr t p) = 0" "cptr (pr t p) = None" "parent (pr t p) = Some (cur t)"
  shows "\<exists>t' B'. do { t1 \<leftarrow> set_links p (hash_proc p t); wake p t1 } = Some t' \<and> ptab_base t' (p # L) (K(cur t := p # K (cur t), p := [])) B' \<and>
    cur t' = cur t \<and> (\<forall>q. q \<noteq> p \<longrightarrow> state (pr t' q) = state (pr t q) \<and> wait_state (pr t' q) = wait_state (pr t q)) \<and>
    (\<forall>q. pid (pr t' q) = pid (pr t q) \<and> parent (pr t' q) = parent (pr t q) \<and> flags (pr t' q) = flags (pr t q)) \<and>
    state (pr t' p) = PROC_RUNNABLE \<and> nr_process t' = nr_process t + 1 \<and> initproc (sched t') = initproc (sched t) \<and> idleproc (sched t') = idleproc (sched t)"
proof -
  note d = ptab_baseD [OF ok]
  have pL: "p \<notin> set L" "p \<noteq> cur t" using p d(6) by (auto simp: members_def)
  let ?t0 = "hash_proc p t" and ?K = "K(cur t := p # K (cur t), p := [])"
  have h: "sched ?t0 = sched t" "proc_list ?t0 = proc_list t" "nr_process ?t0 = nr_process t" "last_pid ?t0 = last_pid t" "next_safe ?t0 = next_safe t"
    by (simp_all add: hash_proc_def)
  have m0: "members ?t0 L = members t L" by (simp add: members_def h)
  have f0: "family_ok ?t0 L K (\<lambda>_. None)" by (rule family_cong [OF d(2)]) (simp_all add: h)
  have p0: "p \<notin> members ?t0 L" "parent (pr ?t0 p) = Some (cur t)" "cur t \<in> members ?t0 L" "cptr (pr ?t0 p) = None"
    using p st d(6) by (simp_all add: m0 h)
  from enter_family [OF f0 p0, unfolded h] obtain t1 where t1: "set_links p ?t0 = Some t1" "relinked ?t0 t1" "family_ok t1 (p # L) ?K (\<lambda>_. None)"
    "proc_list t1 = list_add ProcList (ListLink p) (proc_list t)" "hash_list t1 = hash_list ?t0" "nr_process t1 = nr_process t + 1"
    "last_pid t1 = last_pid t" "next_safe t1 = next_safe t" "\<And>q. parent (pr t1 q) = parent (pr t q)" by blast
  note r = relinked_simps [OF t1(2), unfolded h]
  have "\<exists>B'. lists_ok t1 (p # L) B'"
    using enter_lists [OF d(1) pL(1) n(1,2) _ t1(4,5,6,7,8) r(1)] n(3) by auto
  then obtain B' where l1: "lists_ok t1 (p # L) B'" by blast
  have s1: "sched_inv rr_ok rr_queued (sched t1)" using r(9) [OF d(4)] .
  have "state (pr t1 p) \<noteq> PROC_ZOMBIE" using r(2) st(1) by simp
  from wake_ok [OF s1 this] obtain t' where t': "wake p t1 = Some t'" "moved t1 t'" "cur t' = cur t1"
    "\<And>q. state (pr t' q) = (if q = p then PROC_RUNNABLE else state (pr t1 q))"
    "\<And>q. wait_state (pr t' q) = (if q = p \<and> state (pr t1 p) \<noteq> PROC_RUNNABLE then 0 else wait_state (pr t1 q))" by blast
  note m = moved_simps [OF t'(2)]
  have mem: "members t' (p # L) = insert p (members t L)" by (auto simp: members_def m(2) r(7))
  have stt: "base_ok t' (p # L)"
  proof -
    have "idleproc (sched t) \<noteq> p" using p by (auto simp: members_def)
    then show ?thesis using d(3) m(1) unfolding base_ok_def mem m(2,3) r(7,8) t'(4,5) r(2,3) by (simp add: st)
  qed
  have "ptab_base t' (p # L) ?K B'"
    unfolding ptab_base_def
  proof (intro conjI ballI impI)
    fix q assume "q \<in> set (p # L)" "state (pr t' q) = PROC_ZOMBIE"
    then have "q \<noteq> p" "q \<in> set L" "state (pr t q) = PROC_ZOMBIE" using t'(4) r(2) by (auto split: if_splits)
    then show "?K q = []" using d(5) d(7) by auto
  next
    show "cur t' \<in> members t' (p # L)" using d(6) by (simp add: mem t'(3) r(6))
    show "state (pr t' (cur t')) = PROC_RUNNABLE" using d(7) by (simp add: t'(3,4) r(2,6))
  qed (use m(5) [OF l1] m(6) [OF t1(3)] stt in simp_all)
  then show ?thesis using t1(1,6,9) t' m r moved_def by (intro exI [of _ t'] exI [of _ B']) (auto simp: moved_def)
qed

subsection \<open>Rescheduling, sleeping, waking\<close>

lemma tab_resched:
  assumes l: "lists_ok t L B" and f: "family_ok t L K (\<lambda>_. None)" and s: "states_ok t L"
    and z: "\<And>p. p \<in> set L \<Longrightarrow> state (pr t p) = PROC_ZOMBIE \<Longrightarrow> K p = []"
  shows "\<exists>t'. resched t = Some t' \<and> ptab_ok t' L K B \<and> roused {} t t' \<and> (\<forall>p. parent (pr t' p) = parent (pr t p))"
proof -
  have "sched_inv rr_ok rr_queued (sched t)" using s by (simp add: states_ok_def)
  from resched_ok [OF this] obtain t' where t': "resched t = Some t'" "moved t t'" "\<And>q. state (pr t' q) = state (pr t q)"
    "\<And>q. wait_state (pr t' q) = wait_state (pr t q)" "cur t' = idleproc (sched t) \<or> state (pr t (cur t')) = PROC_RUNNABLE" by blast
  note m = moved_simps [OF t'(2)]
  have w: "roused {} t t'" unfolding roused_def using m(2,3,7,8,10) t'(3,4) by simp
  have s': "states_ok t' L" by (rule states_roused [OF s w _ m(1)]) simp
  have "state (pr t' (cur t')) = PROC_RUNNABLE" using t'(3,5) s by (auto simp: states_ok_def)
  moreover from this have "cur t' \<in> members t' L" using s' by (auto simp: states_ok_def)
  ultimately have "ptab_ok t' L K B" using s' m(5) [OF l] m(6) [OF f] z t'(3) by (simp add: ptab_ok_def)
  then show ?thesis using t'(1) w m(9) by blast
qed

lemma resched_tab_ok:
  assumes "ptab_ok t L K B"
  shows "\<exists>t'. resched t = Some t' \<and> ptab_ok t' L K B \<and> roused {} t t' \<and> (\<forall>p. parent (pr t' p) = parent (pr t p))"
  using tab_resched [OF ptab_okD(1-3) [OF assms]] ptab_okD(5) [OF assms] by blast

text \<open>The running process goes to sleep.\<close>

lemma block_ok:
  assumes ok: "ptab_ok t L K B" and me: "cur t \<noteq> idleproc (sched t)"
    and t1_def: "t1 = set_proc (cur t) (\<lambda>q. q\<lparr>state := PROC_SLEEPING, wait_state := w\<rparr>) t"
  shows "\<exists>t'. resched t1 = Some t' \<and> ptab_ok t' L K B \<and> roused {} t1 t' \<and> (\<forall>p. parent (pr t' p) = parent (pr t p))"
proof -
  note d = ptab_okD [OF ok]
  have meL: "cur t \<in> set L" using d(6) me by (simp add: members_def)
  have i: "sched_inv rr_ok rr_queued (sched t1)" unfolding t1_def by (rule set_proc_inv [OF d(4)]) simp_all
  have "lists_ok t1 L B" unfolding t1_def by (rule set_proc_lists [OF _ d(1)]) simp
  moreover have "family_ok t1 L K (\<lambda>_. None)" unfolding t1_def by (rule set_proc_family [OF _ d(2)]) simp
  moreover have "states_ok t1 L" using i unfolding t1_def by (intro set_proc_states [OF d(3) meL]) simp_all
  moreover have "K p = []" if "p \<in> set L" "state (pr t1 p) = PROC_ZOMBIE" for p
    using that d(5) by (cases "p = cur t") (simp_all add: t1_def)
  moreover have "parent (pr t1 p) = parent (pr t p)" for p by (simp add: t1_def)
  ultimately show ?thesis using tab_resched [of t1 L B K] by auto
qed

lemma wake_tab_ok:
  assumes ok: "ptab_ok t L K B" and p: "p \<in> members t L" "state (pr t p) = PROC_SLEEPING"
  shows "\<exists>t'. wake p t = Some t' \<and> ptab_ok t' L K B \<and> roused {p} t t' \<and> state (pr t' p) = PROC_RUNNABLE \<and> wait_state (pr t' p) = 0 \<and>
    cur t' = cur t \<and> (\<forall>q. parent (pr t' q) = parent (pr t q))"
proof -
  note d = ptab_okD [OF ok]
  from wake_roused [OF d(4) p(2)] obtain t' where t': "wake p t = Some t'" "moved t t'" "cur t' = cur t" "roused {p} t t'"
    "state (pr t' p) = PROC_RUNNABLE" "wait_state (pr t' p) = 0" by blast
  note m = moved_simps [OF t'(2)]
  have "states_ok t' L" by (rule states_roused [OF d(3) t'(4) _ m(1)]) (use p(1) in simp)
  moreover have "p \<noteq> cur t" using p(2) d(7) by auto
  then have "state (pr t' (cur t)) = PROC_RUNNABLE" using rousedD(7) [OF t'(4), of "cur t"] d(7) by auto
  ultimately have "ptab_ok t' L K B"
    using m(5) [OF d(1)] m(6) [OF d(2)] d(5,6) rousedD(8) [OF t'(4)] t'(3) m(4) by (simp add: ptab_ok_def)
  then show ?thesis using t' m(9) by blast
qed

text \<open>Fields that no invariant mentions may be changed.\<close>

lemma touch_ok:
  assumes ok: "ptab_ok t L K B"
    and f: "\<And>q. pid (f q) = pid q \<and> cptr (f q) = cptr q \<and> yptr (f q) = yptr q \<and> optr (f q) = optr q \<and> parent (f q) = parent q \<and>
      state (f q) = state q \<and> wait_state (f q) = wait_state q \<and> has_rq (f q) = has_rq q"
  shows "ptab_ok (set_proc p f t) L K B"
proof -
  note d = ptab_okD [OF ok]
  have m: "members (set_proc p f t) L = members t L" by (simp add: members_def)
  have i: "sched_inv rr_ok rr_queued (sched (set_proc p f t))" by (rule set_proc_inv [OF d(4)]) (simp_all add: f)
  have e: "state (pr (set_proc p f t) q) = state (pr t q)" "wait_state (pr (set_proc p f t) q) = wait_state (pr t q)" for q by (simp_all add: f)
  have "lists_ok (set_proc p f t) L B" by (rule set_proc_lists [OF _ d(1)]) (simp add: f)
  moreover have "family_ok (set_proc p f t) L K (\<lambda>_. None)" by (rule set_proc_family [OF _ d(2)]) (simp add: f)
  moreover have "states_ok (set_proc p f t) L" using d(3) i unfolding states_ok_def m e by simp
  ultimately show ?thesis using ok unfolding ptab_ok_def m e by simp
qed

subsection \<open>Killing\<close>

lemma find_tab_ok:
  assumes ok: "ptab_ok t L K B"
  shows "\<exists>r. find_proc n t = Some r \<and> (case r of None \<Rightarrow> n \<notin> (\<lambda>p. pid (pr t p)) ` set L | Some p \<Rightarrow> p \<in> set L \<and> pid (pr t p) = n)"
  using ptab_okD(1) [OF ok] find_proc_ok by (fastforce simp: lists_ok_def)

lemma do_kill_ok:
  assumes ok: "ptab_ok t L K B"
  shows "\<exists>ret t'. do_kill n t = Some (ret, t') \<and> ptab_ok t' L K B \<and> cur t' = cur t \<and> (\<forall>q. parent (pr t' q) = parent (pr t q)) \<and>
    (if n \<notin> (\<lambda>p. pid (pr t p)) ` set L then ret = - E_INVAL \<and> t' = t
     else \<exists>p \<in> set L. pid (pr t p) = n \<and>
       (if flags (pr t p) AND PF_EXITING \<noteq> 0 then ret = - E_KILLED \<and> t' = t
        else ret = 0 \<and> flags (pr t' p) = flags (pr t p) OR PF_EXITING \<and>
          (if wait_state (pr t p) AND WT_INTERRUPTED \<noteq> 0 then state (pr t' p) = PROC_RUNNABLE \<and> wait_state (pr t' p) = 0
           else state (pr t' p) = state (pr t p) \<and> wait_state (pr t' p) = wait_state (pr t p)) \<and>
          (\<forall>q. q \<noteq> p \<longrightarrow> flags (pr t' q) = flags (pr t q) \<and> state (pr t' q) = state (pr t q) \<and> wait_state (pr t' q) = wait_state (pr t q))))"
proof -
  from find_tab_ok [OF ok] obtain r where r: "find_proc n t = Some r"
    "case r of None \<Rightarrow> n \<notin> (\<lambda>p. pid (pr t p)) ` set L | Some p \<Rightarrow> p \<in> set L \<and> pid (pr t p) = n" by blast
  show ?thesis
  proof (cases r)
    case None
    then show ?thesis using r ok by (simp add: do_kill_def)
  next
    case (Some p)
    then have p: "p \<in> set L" "pid (pr t p) = n" using r(2) by simp_all
    then have n: "n \<in> (\<lambda>p. pid (pr t p)) ` set L" by blast
    show ?thesis
    proof (cases "flags (pr t p) AND PF_EXITING = 0")
      case False
      then show ?thesis using r(1) Some ok p n by (auto simp: do_kill_def)
    next
      case True
      let ?t1 = "set_proc p (\<lambda>q. q\<lparr>flags := flags q OR PF_EXITING\<rparr>) t"
      have ok1: "ptab_ok ?t1 L K B" by (rule touch_ok [OF ok]) simp
      show ?thesis
      proof (cases "wait_state (pr t p) AND WT_INTERRUPTED \<noteq> 0")
        case False
        then have "do_kill n t = Some (0, ?t1)" using r(1) Some True by (simp add: do_kill_def Let_def)
        then show ?thesis by (intro exI [of _ "0::int"] exI [of _ ?t1]) (use ok1 False True p n in auto)
      next
        case w: True
        then have "state (pr t p) = PROC_SLEEPING" using ptab_okD(11) [OF ok ptab_okD(9) [OF ok p(1)]] by (cases "wait_state (pr t p) = 0") simp_all
        then have "p \<in> members ?t1 L" "state (pr ?t1 p) = PROC_SLEEPING" using p(1) by (simp_all add: members_def)
        from wake_tab_ok [OF ok1 this] obtain t' where t': "wake p ?t1 = Some t'" "ptab_ok t' L K B" "roused {p} ?t1 t'"
          "state (pr t' p) = PROC_RUNNABLE" "wait_state (pr t' p) = 0" "cur t' = cur ?t1" "\<And>q. parent (pr t' q) = parent (pr ?t1 q)" by blast
        have k: "do_kill n t = Some (0, t')" using r(1) Some True w t'(1) by (simp add: do_kill_def Let_def)
        have "flags (pr t' p) = flags (pr t p) OR PF_EXITING" using rousedD(5) [OF t'(3), of p] by simp
        moreover have "flags (pr t' q) = flags (pr t q) \<and> state (pr t' q) = state (pr t q) \<and> wait_state (pr t' q) = wait_state (pr t q)"
          if "q \<noteq> p" for q using rousedD(5,7) [OF t'(3), of q] that by simp
        ultimately show ?thesis by (intro exI [of _ "0::int"] exI [of _ t']) (use k t' w True p n in auto)
      qed
    qed
  qed
qed

subsection \<open>Waiting\<close>

definition awaited :: "int \<Rightarrow> ptab \<Rightarrow> (nat \<Rightarrow> nat list) \<Rightarrow> nat \<Rightarrow> nat set" where
  "awaited n t K p = {q \<in> set (K p). n = 0 \<or> pid (pr t q) = n}"

lemma child_scan_ok:
  "sibs (pr t) y c xs \<Longrightarrow> child_scan t c h = Some (case find (\<lambda>q. state (pr t q) = PROC_ZOMBIE) xs of
     Some q \<Rightarrow> Found q | None \<Rightarrow> if h \<or> xs \<noteq> [] then Only_Live else No_Child)"
proof (induction xs arbitrary: y c h)
  case Nil
  then show ?case by (subst child_scan.simps) simp
next
  case (Cons x xs)
  then show ?case by (subst child_scan.simps) (auto split: option.split)
qed

lemma wait_scan_ok:
  assumes ok: "ptab_ok t L K B"
  shows "\<exists>r. wait_scan n t = Some r \<and> (case r of
      Found q \<Rightarrow> q \<in> awaited n t K (cur t) \<and> state (pr t q) = PROC_ZOMBIE
    | Only_Live \<Rightarrow> awaited n t K (cur t) \<noteq> {} \<and> (\<forall>q \<in> awaited n t K (cur t). state (pr t q) \<noteq> PROC_ZOMBIE)
    | No_Child \<Rightarrow> awaited n t K (cur t) = {})"
proof -
  note d = ptab_okD [OF ok]
  have k: "set (K (cur t)) = {q \<in> set L. parent (pr t q) = Some (cur t)}" using d(10) [OF d(6)] .
  show ?thesis
  proof (cases "n = 0")
    case True
    have "sibs (pr t) None (cptr (pr t (cur t))) (K (cur t))" using d(2,6) by (simp add: family_ok_def)
    from child_scan_ok [OF this, of False] show ?thesis using True
      by (cases "find (\<lambda>q. state (pr t q) = PROC_ZOMBIE) (K (cur t))")
        (auto simp: wait_scan_def awaited_def find_None_iff find_Some_iff)
  next
    case False
    from find_tab_ok [OF ok] obtain r where r: "find_proc n t = Some r"
      "case r of None \<Rightarrow> n \<notin> (\<lambda>p. pid (pr t p)) ` set L | Some p \<Rightarrow> p \<in> set L \<and> pid (pr t p) = n" by blast
    have inj: "inj_on (\<lambda>p. pid (pr t p)) (set L)" using d(1) by (simp add: lists_ok_def pids_ok_def)
    show ?thesis
    proof (cases r)
      case None
      then show ?thesis using r False k by (auto simp: wait_scan_def awaited_def)
    next
      case (Some p)
      then have p: "p \<in> set L" "pid (pr t p) = n" using r(2) by simp_all
      then have "awaited n t K (cur t) = (if parent (pr t p) = Some (cur t) then {p} else {})"
        using False k inj by (auto simp: awaited_def inj_on_def)
      then show ?thesis using r(1) Some False by (simp add: wait_scan_def)
    qed
  qed
qed

text \<open>Reaping.\<close>

lemma reap_links_ok:
  assumes ok: "ptab_ok t L K B" and q: "q \<in> set (K (cur t))" "state (pr t q) = PROC_ZOMBIE"
  shows "\<exists>t' B'. reap_links q t = Some t' \<and> ptab_ok t' (remove1 q L) (K(cur t := remove1 q (K (cur t)))) B' \<and> relinked t t' \<and>
    (\<forall>p. parent (pr t' p) = parent (pr t p)) \<and> nr_process t' = nr_process t - 1"
proof -
  note d = ptab_okD [OF ok]
  have qL: "q \<in> set L" "parent (pr t q) = Some (cur t)" using q(1) d(10) [OF d(6)] by auto
  have ne: "q \<noteq> idleproc (sched t)" "q \<noteq> initproc (sched t)" using d(3) qL(1) q(2) by (auto simp: states_ok_def)
  let ?t0 = "unhash_proc q t"
  have h: "sched ?t0 = sched t" "proc_list ?t0 = proc_list t" "nr_process ?t0 = nr_process t" "last_pid ?t0 = last_pid t" "next_safe ?t0 = next_safe t"
    by (simp_all add: unhash_proc_def)
  have f0: "family_ok ?t0 L K (\<lambda>_. None)" by (rule family_cong [OF d(2)]) (simp_all add: h)
  have p0: "q \<in> set L" "distinct L" "q \<noteq> idleproc (sched ?t0)" "K q = []" "parent (pr ?t0 q) = Some (cur t)"
    using d(5,8) qL q(2) ne(1) by (simp_all add: h)
  from remove_family [OF f0 p0, unfolded h] obtain t' where t': "remove_links q ?t0 = Some t'" "relinked ?t0 t'"
    "family_ok t' (remove1 q L) (K(cur t := remove1 q (K (cur t)))) (\<lambda>_. None)" "proc_list t' = list_del (ListLink q) (proc_list t)"
    "hash_list t' = hash_list ?t0" "nr_process t' = nr_process t - 1" "last_pid t' = last_pid t" "next_safe t' = next_safe t"
    "\<And>p. parent (pr t' p) = parent (pr t p)" by blast
  note r = relinked_simps [OF t'(2), unfolded h]
  from remove_lists [OF d(1) qL(1) t'(4,5,6,7,8) r(1)] obtain B' where l': "lists_ok t' (remove1 q L) B'" by blast
  have rel: "relinked t t'" using relinked_trans [OF relinked_refl t'(2)] by (simp add: h)
  have set: "set (remove1 q L) = set L - {q}" using d(8) by (rule set_remove1_eq)
  have mem: "members t' (remove1 q L) = members t L - {q}" using ne(1) by (auto simp: members_def set r(7))
  have st: "states_ok t' (remove1 q L)"
    using d(3) r(9) [OF d(4)] ne q(2) unfolding states_ok_def mem set r(2,3,7,8) by auto
  have cq: "cur t \<noteq> q" using d(7) q(2) by auto
  have "ptab_ok t' (remove1 q L) (K(cur t := remove1 q (K (cur t)))) B'"
    unfolding ptab_ok_def mem set r(2,6) using l' t'(3) st d(5-7) cq by auto
  moreover have "reap_links q t = Some t'" using ne t'(1) by (simp add: reap_links_def)
  ultimately show ?thesis using rel t'(6,9) by blast
qed

end
