(* ===== verification/Proc_Tab.thy ===== *)
theory Proc_Tab
  imports Proc_Sys Proc_Ops
begin

text \<open>
  What the operations of \<open>Proc_Sys\<close> do to the process table, whatever memory and files do: if \<open>do_fork\<close>,
  \<open>do_exit\<close>, \<open>do_wait\<close> or the creation of the first processes returns, the table is again intact.
\<close>

subsection \<open>Operations that leave the table alone\<close>

lemma keeps_table:
  "setup_kstack p x = Some (r, y) \<Longrightarrow> ptable y = ptable x"
  "put_kstack p x = Some y \<Longrightarrow> ptable y = ptable x"
  "share_mm m p x = Some (r, y) \<Longrightarrow> ptable y = ptable x"
  "drop_mm m x = Some y \<Longrightarrow> ptable y = ptable x"
  "copy_thread im p esp tf x = Some y \<Longrightarrow> ptable y = ptable x"
  "share_files fp p x = Some (r, y) \<Longrightarrow> ptable y = ptable x"
  "put_files p x = Some y \<Longrightarrow> ptable y = ptable x"
  by (auto simp: setup_kstack_def put_kstack_def share_mm_def drop_mm_def copy_thread_def share_files_def put_files_def Let_def
      Option.bind_eq_Some_conv split: option.splits if_splits)

lemma copy_mm_table: "copy_mm im fl p a x = Some (r, y) \<Longrightarrow> ptable y = ptable x"
  using keeps_table(3)
  by (fastforce simp: copy_mm_def Option.bind_eq_Some_conv split: option.splits if_splits prod.splits)

lemma copy_files_table: "copy_files fl p a x = Some (r, y) \<Longrightarrow> ptable y = ptable x"
  using keeps_table(6)
  by (fastforce simp: copy_files_def Option.bind_eq_Some_conv split: option.splits if_splits prod.splits)

lemma init_proc_simps [simp]: "ptable (init_proc p x) = ptable x" "vm (init_proc p x) = vm x" "fsys (init_proc p x) = fsys x"
  "mms (init_proc p x) = mms x" "satp (init_proc p x) = satp x" "mm_of (init_proc p x) = (mm_of x)(p := None)"
  "files_of (init_proc p x) = (files_of x)(p := None)" "kstack (init_proc p x) = (kstack x)(p := None)"
  "pgdir_of (init_proc p x) = (pgdir_of x)(p := None)"
  by (simp_all add: init_proc_def)

lemma run_on_table [simp]: "ptable (run_on t x) = t"
  by (simp add: run_on_def)

subsection \<open>Process numbers\<close>

lemma get_pid_tab:
  assumes ok: "ptab_base t L K B" and n: "nr_process t \<le> MAX_PROCESS"
  shows "\<exists>m t'. get_pid t = Some (m, t') \<and> ptab_base t' L K B \<and> m \<in> pid_range \<and> m \<notin> (\<lambda>p. pid (pr t p)) ` set L \<and>
    last_pid t' = m \<and> sched t' = sched t \<and> nr_process t' = nr_process t"
proof -
  note d = ptab_baseD [OF ok]
  have l: "dll (proc_list t) ProcList (map ListLink L)" "pids_ok t L" "nr_process t = int (length L) + 1" "hash_ok t L B"
    using d(1) by (simp_all add: lists_ok_def)
  have "length L < 8191" using n l(3) by (simp add: MAX_PROCESS_def)
  from get_pid_ok [OF l(1,2) this] obtain m safe where m: "get_pid t = Some (m, t\<lparr>last_pid := m, next_safe := safe\<rparr>)" "m \<in> pid_range"
    "m \<notin> (\<lambda>p. pid (pr t p)) ` set L" "pids_ok (t\<lparr>last_pid := m, next_safe := safe\<rparr>) L" by blast
  have "ptab_base (t\<lparr>last_pid := m, next_safe := safe\<rparr>) L K B"
    using ok m(4) l by (simp add: ptab_base_def lists_ok_def hash_ok_def family_ok_def base_ok_def members_def)
  then show ?thesis using m by auto
qed

lemma set_proc_same: "f (pr t p) = pr t p \<Longrightarrow> set_proc p f t = t"
  by (simp add: set_proc_def upd_proc_def)

lemma set_outside:
  assumes ok: "ptab_base t L K B" and p: "p \<notin> members t L" and f: "state (f (pr t p)) \<noteq> PROC_RUNNABLE" "has_rq (f (pr t p)) = has_rq (pr t p)"
  shows "ptab_base (set_proc p f t) L K B"
proof -
  have "state (pr t p) \<noteq> PROC_RUNNABLE" using ptab_baseD(3) [OF ok] p by (simp add: base_ok_def)
  then have "sched_inv rr_ok rr_queued (sched (set_proc p f t))" using f by (intro set_proc_inv [OF ptab_baseD(4) [OF ok]]) simp_all
  then show ?thesis using f(1) by (intro outside_ok [OF ok p]) simp_all
qed

subsection \<open>Fork\<close>

text \<open>The table as a process q sees it: nothing changed for the processes of A.\<close>

definition same_on :: "nat set \<Rightarrow> ptab \<Rightarrow> ptab \<Rightarrow> bool" where
  "same_on A t t' \<longleftrightarrow> cur t' = cur t \<and> idleproc (sched t') = idleproc (sched t) \<and> initproc (sched t') = initproc (sched t) \<and>
     (\<forall>q \<in> A. pid (pr t' q) = pid (pr t q) \<and> parent (pr t' q) = parent (pr t q) \<and> state (pr t' q) = state (pr t q) \<and>
       wait_state (pr t' q) = wait_state (pr t q) \<and> proc_struct.flags (pr t' q) = proc_struct.flags (pr t q))"

lemma same_on_refl [simp]: "same_on A t t"
  by (simp add: same_on_def)

lemma same_on_trans: "same_on A t u \<Longrightarrow> same_on A u v \<Longrightarrow> same_on A t v"
  by (simp add: same_on_def)

lemma same_on_members: "same_on A t t' \<Longrightarrow> members t' L = members t L"
  by (simp add: same_on_def members_def)

text \<open>A process that is made but not entered yet.\<close>

definition unborn :: "nat \<Rightarrow> ptab \<Rightarrow> bool" where
  "unborn p t \<longleftrightarrow> state (pr t p) = PROC_UNINIT \<and> wait_state (pr t p) = 0 \<and> cptr (pr t p) = None \<and>
     proc_struct.flags (pr t p) = 0 \<and> parent (pr t p) = Some (cur t)"

definition fork_start :: "nat \<Rightarrow> ptab \<Rightarrow> ptab" where
  "fork_start p t = (let t1 = set_proc p (\<lambda>q. q\<lparr>parent := Some (cur t)\<rparr>) t in set_proc (cur t1) (\<lambda>q. q\<lparr>wait_state := 0\<rparr>) t1)"

lemma fork_start_ok:
  assumes ok: "ptab_base t L K B" and p: "p \<notin> members t L"
  shows "\<exists>t0. alloc_proc (Some p) t = (Some p, t0) \<and> ptab_base (fork_start p t0) L K B \<and> unborn p (fork_start p t0) \<and>
    same_on (members t L) t (fork_start p t0) \<and> nr_process (fork_start p t0) = nr_process t"
proof -
  from alloc_proc_ok [OF ok p] obtain t0 where t: "alloc_proc (Some p) t = (Some p, t0)" "ptab_base t0 L K B"
    "\<And>q. q \<noteq> p \<Longrightarrow> pr t0 q = pr t q" "members t0 L = members t L" "cur t0 = cur t" "nr_process t0 = nr_process t"
    "state (pr t0 p) = PROC_UNINIT" "wait_state (pr t0 p) = 0" "cptr (pr t0 p) = None" "proc_struct.flags (pr t0 p) = 0"
    "initproc (sched t0) = initproc (sched t)" by blast
  let ?t1 = "set_proc p (\<lambda>q. q\<lparr>parent := Some (cur t0)\<rparr>) t0"
  have pc: "p \<noteq> cur t" using ptab_baseD(6) [OF ok] p by auto
  have b1: "ptab_base ?t1 L K B" by (rule set_outside [OF t(2)]) (use p t(4,7) in simp_all)
  have "wait_state (pr ?t1 (cur ?t1)) = 0" using ptab_baseD(3,6,7) [OF b1] by (auto simp: base_ok_def)
  then have e: "fork_start p t0 = ?t1" unfolding fork_start_def Let_def by (intro set_proc_same) simp
  have "idleproc (sched t0) = idleproc (sched t)" using t(1) by (auto simp: alloc_proc_def)
  then have "same_on (members t L) t ?t1" using p t(3,5,11) by (auto simp: same_on_def)
  then show ?thesis unfolding e using t b1 pc by (intro exI [of _ t0]) (simp add: e unborn_def)
qed

lemma fork_pid_ok:
  assumes ok: "ptab_base t L K B" and p: "p \<notin> members t L" "unborn p t" and n: "nr_process t \<le> MAX_PROCESS"
  shows "\<exists>m t'. get_pid t = Some (m, t') \<and> ptab_base (set_proc p (\<lambda>q. q\<lparr>pid := m\<rparr>) t') L K B \<and> m \<in> pid_range \<and>
    m \<notin> (\<lambda>q. pid (pr t q)) ` set L \<and> last_pid t' = m \<and> unborn p (set_proc p (\<lambda>q. q\<lparr>pid := m\<rparr>) t') \<and>
    same_on (members t L) t (set_proc p (\<lambda>q. q\<lparr>pid := m\<rparr>) t') \<and> nr_process t' = nr_process t"
proof -
  from get_pid_tab [OF ok n] obtain m t' where g: "get_pid t = Some (m, t')" "ptab_base t' L K B" "m \<in> pid_range"
    "m \<notin> (\<lambda>q. pid (pr t q)) ` set L" "last_pid t' = m" "sched t' = sched t" "nr_process t' = nr_process t" by blast
  have "p \<notin> members t' L" "state (pr t' p) = PROC_UNINIT" using p g(6) by (simp_all add: members_def unborn_def)
  then have "ptab_base (set_proc p (\<lambda>q. q\<lparr>pid := m\<rparr>) t') L K B" by (intro set_outside [OF g(2)]) simp_all
  moreover have "same_on (members t L) t (set_proc p (\<lambda>q. q\<lparr>pid := m\<rparr>) t')" using p(1) g(6) by (auto simp: same_on_def)
  moreover have "unborn p (set_proc p (\<lambda>q. q\<lparr>pid := m\<rparr>) t')" using p(2) g(6) by (simp add: unborn_def)
  ultimately show ?thesis using g by blast
qed

lemma fork_links_ok:
  assumes ok: "ptab_base t L K B" and p: "p \<notin> members t L" "unborn p t" and n: "pid (pr t p) \<in> pid_range"
    "pid (pr t p) \<notin> (\<lambda>q. pid (pr t q)) ` set L" "pid (pr t p) = last_pid t"
  shows "\<exists>t1 t' B'. set_links p (hash_proc p t) = Some t1 \<and> wake p t1 = Some t' \<and>
    ptab_base t' (p # L) (K(cur t := p # K (cur t), p := [])) B' \<and> same_on (members t L) t t' \<and> state (pr t' p) = PROC_RUNNABLE \<and>
    parent (pr t' p) = Some (cur t) \<and> proc_struct.flags (pr t' p) = 0 \<and> pid (pr t' p) = pid (pr t p) \<and> nr_process t' = nr_process t + 1"
proof -
  have u: "state (pr t p) = PROC_UNINIT" "wait_state (pr t p) = 0" "cptr (pr t p) = None" "parent (pr t p) = Some (cur t)"
    "proc_struct.flags (pr t p) = 0" using p(2) by (simp_all add: unborn_def)
  from fork_enter_ok [OF ok p(1) n u(1-4)] obtain t' B' where t': "do { t1 \<leftarrow> set_links p (hash_proc p t); wake p t1 } = Some t'"
    "ptab_base t' (p # L) (K(cur t := p # K (cur t), p := [])) B'" "cur t' = cur t"
    "\<And>q. q \<noteq> p \<Longrightarrow> state (pr t' q) = state (pr t q) \<and> wait_state (pr t' q) = wait_state (pr t q)"
    "\<And>q. pid (pr t' q) = pid (pr t q) \<and> parent (pr t' q) = parent (pr t q) \<and> proc_struct.flags (pr t' q) = proc_struct.flags (pr t q)"
    "state (pr t' p) = PROC_RUNNABLE" "nr_process t' = nr_process t + 1" "initproc (sched t') = initproc (sched t)"
    "idleproc (sched t') = idleproc (sched t)" by blast
  have "same_on (members t L) t t'" unfolding same_on_def
  proof (intro conjI ballI)
    fix q assume "q \<in> members t L"
    then have "q \<noteq> p" using p(1) by auto
    then show "state (pr t' q) = state (pr t q)" "wait_state (pr t' q) = wait_state (pr t q)" using t'(4) by simp_all
  qed (use t' in simp_all)
  moreover from t'(1) obtain t1 where "set_links p (hash_proc p t) = Some t1" "wake p t1 = Some t'" by (auto simp: Option.bind_eq_Some_conv)
  moreover have "pid (pr t' p) = pid (pr t p)" "parent (pr t' p) = Some (cur t)" "proc_struct.flags (pr t' p) = 0"
    using t'(5) [of p] u by simp_all
  ultimately show ?thesis using t'(2,6,7) by blast
qed

text \<open>How a call of \<open>do_fork\<close> that returns has gone.\<close>

lemma do_fork_cases:
  assumes "do_fork im fl stack tf a x = Some (ret, y)"
  obtains (full) "nr_process (ptable x) \<ge> MAX_PROCESS" "ret = - E_NO_FREE_PROC" "y = x"
  | (no_descriptor) t where "nr_process (ptable x) < MAX_PROCESS" "alloc_proc (proc_mem a) (ptable x) = (None, t)" "ret = - E_NO_MEM" "y = x\<lparr>ptable := t\<rparr>"
  | (no_stack) p t where "nr_process (ptable x) < MAX_PROCESS" "alloc_proc (proc_mem a) (ptable x) = (Some p, t)" "ret = - E_NO_MEM"
      "setup_kstack p (init_proc p (x\<lparr>ptable := fork_start p t\<rparr>)) = Some (- E_NO_MEM, y)"
  | (no_space) p t x1 r x2 where "nr_process (ptable x) < MAX_PROCESS" "alloc_proc (proc_mem a) (ptable x) = (Some p, t)" "ret = - E_NO_MEM"
      "setup_kstack p (init_proc p (x\<lparr>ptable := fork_start p t\<rparr>)) = Some (0, x1)" "copy_mm im fl p a x1 = Some (r, x2)" "r \<noteq> 0"
      "put_kstack p x2 = Some y"
  | (no_files) p t x1 x2 x3 n t3 r x5 where "nr_process (ptable x) < MAX_PROCESS" "alloc_proc (proc_mem a) (ptable x) = (Some p, t)" "ret = - E_NO_MEM"
      "setup_kstack p (init_proc p (x\<lparr>ptable := fork_start p t\<rparr>)) = Some (0, x1)" "copy_mm im fl p a x1 = Some (0, x2)"
      "copy_thread im p stack tf x2 = Some x3" "get_pid (ptable x3) = Some (n, t3)"
      "copy_files fl p a (x3\<lparr>ptable := set_proc p (\<lambda>q. q\<lparr>pid := n\<rparr>) t3\<rparr>) = Some (r, x5)" "r \<noteq> 0" "put_kstack p x5 = Some y"
  | (made) p t x1 x2 x3 n t3 x5 t5 t6 where "nr_process (ptable x) < MAX_PROCESS" "alloc_proc (proc_mem a) (ptable x) = (Some p, t)"
      "setup_kstack p (init_proc p (x\<lparr>ptable := fork_start p t\<rparr>)) = Some (0, x1)" "copy_mm im fl p a x1 = Some (0, x2)"
      "copy_thread im p stack tf x2 = Some x3" "get_pid (ptable x3) = Some (n, t3)"
      "copy_files fl p a (x3\<lparr>ptable := set_proc p (\<lambda>q. q\<lparr>pid := n\<rparr>) t3\<rparr>) = Some (0, x5)"
      "set_links p (hash_proc p (ptable x5)) = Some t5" "wake p t5 = Some t6" "ret = pid (pr t6 p)" "y = x5\<lparr>ptable := t6\<rparr>"
proof (cases "nr_process (ptable x) \<ge> MAX_PROCESS")
  case True
  then show ?thesis using assms by (intro full) (simp_all add: do_fork_def)
next
  case nr: False
  obtain o' t where al: "alloc_proc (proc_mem a) (ptable x) = (o', t)" by (cases "alloc_proc (proc_mem a) (ptable x)")
  show ?thesis
  proof (cases o')
    case None
    then show ?thesis using assms nr al by (intro no_descriptor [of t]) (simp_all add: do_fork_def)
  next
    case (Some p)
    let ?x0 = "init_proc p (x\<lparr>ptable := fork_start p t\<rparr>)"
    have nr': "nr_process (ptable x) < MAX_PROCESS" and al': "alloc_proc (proc_mem a) (ptable x) = (Some p, t)" using nr al Some by simp_all
    have fs: "set_proc (cur (set_proc p (\<lambda>q. q\<lparr>parent := Some (cur t)\<rparr>) t)) (\<lambda>q. q\<lparr>wait_state := 0\<rparr>) (set_proc p (\<lambda>q. q\<lparr>parent := Some (cur t)\<rparr>) t) = fork_start p t"
      by (simp only: fork_start_def Let_def)
    obtain r1 x1 where x1: "setup_kstack p ?x0 = Some (r1, x1)"
      using assms nr al' unfolding do_fork_def by (cases "setup_kstack p ?x0") (auto simp: fork_start_def)
    have r1: "r1 = 0 \<or> r1 = - E_NO_MEM" using x1 by (auto simp: setup_kstack_def Option.bind_eq_Some_conv split: option.splits)
    have run: "do_fork im fl stack tf a x = (if r1 \<noteq> 0 then Some (- E_NO_MEM, x1)
          else do {
            (r2, x2) \<leftarrow> copy_mm im fl p a x1;
            if r2 \<noteq> 0 then do { x3 \<leftarrow> put_kstack p x2; Some (- E_NO_MEM, x3) }
            else do {
              x3 \<leftarrow> copy_thread im p stack tf x2;
              (n, t3) \<leftarrow> get_pid (ptable x3);
              let x4 = x3\<lparr>ptable := set_proc p (\<lambda>q. q\<lparr>pid := n\<rparr>) t3\<rparr>;
              (r3, x5) \<leftarrow> copy_files fl p a x4;
              if r3 \<noteq> 0 then do { x6 \<leftarrow> put_kstack p x5; Some (- E_NO_MEM, x6) }
              else do {
                t5 \<leftarrow> set_links p (hash_proc p (ptable x5));
                t6 \<leftarrow> wake p t5;
                Some (pid (pr t6 p), x5\<lparr>ptable := t6\<rparr>) } } })"
      unfolding do_fork_def al' using nr x1 [unfolded fs [symmetric]] by (simp add: Let_def del: set_proc_simps)
    show ?thesis
    proof (cases "r1 = 0")
      case False
      then have "ret = - E_NO_MEM" "x1 = y" "r1 = - E_NO_MEM" using run assms r1 by auto
      then show ?thesis using no_stack [OF nr' al'] x1 by blast
    next
      case True
      note x1' = x1 [unfolded True]
      from assms [unfolded run] True obtain r2 x2 where x2: "copy_mm im fl p a x1 = Some (r2, x2)" by (auto simp: Option.bind_eq_Some_conv)
      show ?thesis
      proof (cases "r2 = 0")
        case False
        with assms [unfolded run] True x2 have "put_kstack p x2 = Some y" "ret = - E_NO_MEM" by (auto simp: Option.bind_eq_Some_conv)
        then show ?thesis using no_space [OF nr' al' _ x1' x2 False] by blast
      next
        case r2: True
        from assms [unfolded run] True x2 r2 obtain x3 n t3 r3 x5 where x3: "copy_thread im p stack tf x2 = Some x3" "get_pid (ptable x3) = Some (n, t3)"
          "copy_files fl p a (x3\<lparr>ptable := set_proc p (\<lambda>q. q\<lparr>pid := n\<rparr>) t3\<rparr>) = Some (r3, x5)"
          "(if r3 \<noteq> 0 then do { x6 \<leftarrow> put_kstack p x5; Some (- E_NO_MEM, x6) }
            else do { t5 \<leftarrow> set_links p (hash_proc p (ptable x5)); t6 \<leftarrow> wake p t5; Some (pid (pr t6 p), x5\<lparr>ptable := t6\<rparr>) }) = Some (ret, y)"
          by (auto simp: Option.bind_eq_Some_conv Let_def)
        show ?thesis
        proof (cases "r3 = 0")
          case False
          with x3(4) have "put_kstack p x5 = Some y" "ret = - E_NO_MEM" by (auto simp: Option.bind_eq_Some_conv)
          then show ?thesis using no_files [OF nr' al' _ x1' x2 [unfolded r2] x3(1-3) False] by blast
        next
          case r3: True
          with x3(4) obtain t5 t6 where "set_links p (hash_proc p (ptable x5)) = Some t5" "wake p t5 = Some t6" "ret = pid (pr t6 p)" "y = x5\<lparr>ptable := t6\<rparr>"
            by (auto simp: Option.bind_eq_Some_conv)
          then show ?thesis by (rule made [OF nr' al' x1' x2 [unfolded r2] x3(1,2) x3(3) [unfolded r3]])
        qed
      qed
    qed
  qed
qed

definition forked :: "ptab \<Rightarrow> nat list \<Rightarrow> (nat \<Rightarrow> nat list) \<Rightarrow> nat \<Rightarrow> int \<Rightarrow> ptab \<Rightarrow> bool" where
  "forked t L K p ret t' \<longleftrightarrow> p \<notin> members t L \<and> ret = pid (pr t' p) \<and> ret \<in> pid_range \<and> ret \<notin> (\<lambda>q. pid (pr t q)) ` set L \<and>
     (\<exists>B'. ptab_base t' (p # L) (K(cur t := p # K (cur t), p := [])) B') \<and> nr_process t' = nr_process t + 1 \<and>
     same_on (members t L) t t' \<and> state (pr t' p) = PROC_RUNNABLE \<and> parent (pr t' p) = Some (cur t) \<and> proc_struct.flags (pr t' p) = 0"

lemma do_fork_table:
  assumes ok: "ptab_base (ptable x) L K B" and fresh: "\<And>p. proc_mem a = Some p \<Longrightarrow> p \<notin> members (ptable x) L"
    and run: "do_fork im fl stack tf a x = Some (ret, y)"
  shows "(ret < 0 \<and> ptab_base (ptable y) L K B \<and> nr_process (ptable y) = nr_process (ptable x) \<and> same_on (members (ptable x) L) (ptable x) (ptable y)) \<or>
    (\<exists>p. proc_mem a = Some p \<and> forked (ptable x) L K p ret (ptable y))"
proof -
  have al: "p = p' \<and> p \<notin> members (ptable x) L \<and> ptab_base (fork_start p t) L K B \<and> unborn p (fork_start p t) \<and>
    same_on (members (ptable x) L) (ptable x) (fork_start p t) \<and> nr_process (fork_start p t) = nr_process (ptable x)"
    if "alloc_proc (proc_mem a) (ptable x) = (Some p, t)" "proc_mem a = Some p'" for p p' t
    using fork_start_ok [OF ok fresh [OF that(2)]] that fresh [OF that(2)] by auto
  have pm: "\<exists>p'. proc_mem a = Some p'" if "alloc_proc (proc_mem a) (ptable x) = (Some p, t)" for p t
    using that by (auto simp: alloc_proc_def split: option.splits)
  have pid: "get_pid (fork_start p t) = Some (n, t3) \<Longrightarrow> ptab_base (set_proc p (\<lambda>q. q\<lparr>pid := n\<rparr>) t3) L K B \<and> n \<in> pid_range \<and>
      n \<notin> (\<lambda>q. pid (pr (ptable x) q)) ` set L \<and> last_pid t3 = n \<and> unborn p (set_proc p (\<lambda>q. q\<lparr>pid := n\<rparr>) t3) \<and>
      same_on (members (ptable x) L) (ptable x) (set_proc p (\<lambda>q. q\<lparr>pid := n\<rparr>) t3) \<and> nr_process t3 = nr_process (ptable x)"
    if a: "alloc_proc (proc_mem a) (ptable x) = (Some p, t)" "nr_process (ptable x) < MAX_PROCESS" for p t n t3
  proof -
    assume g: "get_pid (fork_start p t) = Some (n, t3)"
    from pm [OF a(1)] al [OF a(1)] have s: "p \<notin> members (ptable x) L" "ptab_base (fork_start p t) L K B" "unborn p (fork_start p t)"
      "same_on (members (ptable x) L) (ptable x) (fork_start p t)" "nr_process (fork_start p t) = nr_process (ptable x)" by auto
    note m = same_on_members [OF s(4), of L]
    have "(\<lambda>q. pid (pr (fork_start p t) q)) ` set L = (\<lambda>q. pid (pr (ptable x) q)) ` set L"
      by (rule image_cong) (use s(4) in \<open>auto simp: same_on_def members_def\<close>)
    moreover have "p \<notin> members (fork_start p t) L" "nr_process (fork_start p t) \<le> MAX_PROCESS" using s(1,5) m a(2) by simp_all
    from fork_pid_ok [OF s(2) this(1) s(3) this(2)] g have f: "ptab_base (set_proc p (\<lambda>q. q\<lparr>pid := n\<rparr>) t3) L K B" "n \<in> pid_range"
      "n \<notin> (\<lambda>q. pid (pr (fork_start p t) q)) ` set L" "last_pid t3 = n" "unborn p (set_proc p (\<lambda>q. q\<lparr>pid := n\<rparr>) t3)"
      "same_on (members (fork_start p t) L) (fork_start p t) (set_proc p (\<lambda>q. q\<lparr>pid := n\<rparr>) t3)" "nr_process t3 = nr_process (fork_start p t)" by auto
    ultimately show ?thesis using same_on_trans [OF s(4) f(6) [unfolded m]] s(5) by simp
  qed
  from run show ?thesis
  proof (cases rule: do_fork_cases)
    case (made p t x1 x2 x3 n t3 x5 t5 t6)
    have e3: "ptable x3 = fork_start p t" using keeps_table(1) [OF made(3)] keeps_table(5) [OF made(5)] copy_mm_table [OF made(4)] by simp
    have e5: "ptable x5 = set_proc p (\<lambda>q. q\<lparr>pid := n\<rparr>) t3" using copy_files_table [OF made(7)] by simp
    from pm [OF made(2)] al [OF made(2)] have p: "proc_mem a = Some p" "p \<notin> members (ptable x) L" by auto
    from pid [OF made(2,1) made(6) [unfolded e3]] have s: "ptab_base (ptable x5) L K B" "n \<in> pid_range" "n \<notin> (\<lambda>q. pid (pr (ptable x) q)) ` set L"
      "last_pid (ptable x5) = n" "unborn p (ptable x5)" "same_on (members (ptable x) L) (ptable x) (ptable x5)" "nr_process (ptable x5) = nr_process (ptable x)"
      "pid (pr (ptable x5) p) = n" by (simp_all add: e5)
    note m = same_on_members [OF s(6), of L]
    have "(\<lambda>q. pid (pr (ptable x5) q)) ` set L = (\<lambda>q. pid (pr (ptable x) q)) ` set L"
      by (rule image_cong) (use s(6) in \<open>auto simp: same_on_def members_def\<close>)
    with fork_links_ok [OF s(1) _ s(5)] s p m made(8,9) obtain B' where l: "ptab_base t6 (p # L) (K(me x5 := p # K (me x5), p := [])) B'"
      "same_on (members (ptable x) L) (ptable x5) t6" "state (pr t6 p) = PROC_RUNNABLE" "parent (pr t6 p) = Some (me x5)"
      "proc_struct.flags (pr t6 p) = 0" "pid (pr t6 p) = n" "nr_process t6 = nr_process (ptable x5) + 1" by auto
    have c: "me x5 = me x" using s(6) by (simp add: same_on_def)
    have "forked (ptable x) L K p ret (ptable y)"
      unfolding forked_def using made(10,11) l p s same_on_trans [OF s(6) l(2)] by (auto simp: c)
    then show ?thesis using p(1) by blast
  next
    case (no_files p t x1 x2 x3 n t3 r x5)
    have e3: "ptable x3 = fork_start p t" using keeps_table(1) [OF no_files(4)] keeps_table(5) [OF no_files(6)] copy_mm_table [OF no_files(5)] by simp
    have "ptable y = set_proc p (\<lambda>q. q\<lparr>pid := n\<rparr>) t3" using copy_files_table [OF no_files(8)] keeps_table(2) [OF no_files(10)] by simp
    then show ?thesis using pid [OF no_files(2,1) no_files(7) [unfolded e3]] no_files(3) by simp
  next
    case (no_space p t x1 r x2)
    have "ptable y = fork_start p t" using keeps_table(1) [OF no_space(4)] copy_mm_table [OF no_space(5)] keeps_table(2) [OF no_space(7)] by simp
    then show ?thesis using pm [OF no_space(2)] al [OF no_space(2)] no_space(3) by auto
  next
    case (no_stack p t)
    have "ptable y = fork_start p t" using keeps_table(1) [OF no_stack(4)] by simp
    then show ?thesis using pm [OF no_stack(2)] al [OF no_stack(2)] no_stack(3) by auto
  next
    case (no_descriptor t)
    then have "t = ptable x" by (auto simp: alloc_proc_def split: option.splits)
    then show ?thesis using no_descriptor ok by simp
  qed (use ok in simp)
qed

end
