(* ===== verification/Proc_Steps.thy ===== *)
theory Proc_Steps
  imports Proc_Tab
begin

text \<open>
  Processes in action: \<open>pstep\<close> interleaves the system calls of all processes, their sleeping and waking for
  other reasons, ticks and calls of the scheduler.  A process that sleeps in \<open>do_wait\<close> keeps the arguments
  of the call on its stack; they are the second component of the state.  The invariant \<open>proc_inv\<close> says
  that the table is intact, that \<^verbatim>\<open>initproc\<close> is a child of the idle process and nobody its own parent, and that
  a process asleep in \<open>do_wait\<close> still has a child it waits for, and none of these is a zombie.
\<close>

type_synonym waits = "nat \<Rightarrow> (int \<times> u64 option) option"

subsection \<open>Exit and wait on the table\<close>

lemma do_exit_table:
  assumes ok: "ptab_ok (ptable x) L K B" and run: "do_exit code x = Some y"
  defines "ini \<equiv> initproc (sched (ptable x))"
  shows "\<exists>c. ptab_ok (ptable y) L (K(me x := [], ini := rev (K (me x)) @ K ini)) B \<and> me x \<in> set L \<and> me x \<noteq> ini \<and>
    parent (pr (ptable x) (me x)) = Some c \<and> wait_state (pr (ptable y) c) \<noteq> WT_CHILD \<and> state (pr (ptable y) (me x)) = PROC_ZOMBIE \<and>
    exit_code (pr (ptable y) (me x)) = code \<and>
    ((\<exists>q \<in> set (K (me x)). state (pr (ptable x) q) = PROC_ZOMBIE) \<longrightarrow> wait_state (pr (ptable y) ini) \<noteq> WT_CHILD) \<and>
    (\<forall>p. parent (pr (ptable y) p) = (if p \<in> set (K (me x)) then Some ini else parent (pr (ptable x) p))) \<and>
    roused {c, ini} (set_proc (me x) (\<lambda>q. q\<lparr>state := PROC_ZOMBIE, exit_code := code\<rparr>) (ptable x)) (ptable y)"
proof -
  have ne: "me x \<noteq> idleproc (sched (ptable x))" "me x \<noteq> initproc (sched (ptable x))"
    using run by (auto simp: do_exit_def Option.bind_eq_Some_conv)
  from run obtain x1 t where x1: "(case mm_of x (me x) of None \<Rightarrow> Some x
      | Some m \<Rightarrow> do { x1 \<leftarrow> drop_mm m (x\<lparr>satp := None\<rparr>); put_files (me x) (x1\<lparr>mm_of := (mm_of x1)(me x := None)\<rparr>) }) = Some x1"
    "exit_links code (ptable x1) = Some t" "y = run_on t x1"
    unfolding do_exit_def by (fastforce simp: Option.bind_eq_Some_conv)
  have "ptable x1 = ptable x"
    using x1(1) keeps_table(4,7) by (fastforce simp: Option.bind_eq_Some_conv split: option.splits)
  then have t: "exit_links code (ptable x) = Some t" "ptable y = t" using x1(2,3) by simp_all
  have "me x \<in> set L" using ptab_okD(6) [OF ok] ne by (simp add: members_def)
  then show ?thesis using exit_links_ok [OF ok ne, of code] ne(2) unfolding t ini_def by fastforce
qed

lemma wait_round_table:
  assumes ok: "ptab_ok (ptable x) L K B" and idle: "me x \<noteq> idleproc (sched (ptable x))" and run: "wait_round n store x = Some (r, y)"
  shows "(r = Returned (- E_BAD_PROC) None \<and> y = x \<and> awaited n (ptable x) K (me x) = {}) \<or>
    (r = Slept \<and> ptab_ok (ptable y) L K B \<and> roused {} (set_proc (me x) (\<lambda>q. q\<lparr>state := PROC_SLEEPING, wait_state := WT_CHILD\<rparr>) (ptable x)) (ptable y) \<and>
      (\<forall>p. parent (pr (ptable y) p) = parent (pr (ptable x) p)) \<and>
      awaited n (ptable x) K (me x) \<noteq> {} \<and> (\<forall>q \<in> awaited n (ptable x) K (me x). state (pr (ptable x) q) \<noteq> PROC_ZOMBIE)) \<or>
    (\<exists>q B'. q \<in> awaited n (ptable x) K (me x) \<and> state (pr (ptable x) q) = PROC_ZOMBIE \<and>
      r = Returned 0 (map_option (\<lambda>addr. (addr, exit_code (pr (ptable x) q))) store) \<and>
      ptab_ok (ptable y) (remove1 q L) (K(me x := remove1 q (K (me x)))) B' \<and> relinked (ptable x) (ptable y) \<and>
      (\<forall>p. parent (pr (ptable y) p) = parent (pr (ptable x) p)))"
proof -
  from wait_scan_ok [OF ok, of n] obtain w where w: "wait_scan n (ptable x) = Some w"
    "case w of Found q \<Rightarrow> q \<in> awaited n (ptable x) K (me x) \<and> state (pr (ptable x) q) = PROC_ZOMBIE
    | Only_Live \<Rightarrow> awaited n (ptable x) K (me x) \<noteq> {} \<and> (\<forall>q \<in> awaited n (ptable x) K (me x). state (pr (ptable x) q) \<noteq> PROC_ZOMBIE)
    | No_Child \<Rightarrow> awaited n (ptable x) K (me x) = {}" by blast
  show ?thesis
  proof (cases w)
    case No_Child
    then show ?thesis using w run by (simp add: wait_round_def)
  next
    case Only_Live
    from block_ok [OF ok idle refl, of WT_CHILD] obtain t where t: "sleep_child (ptable x) = Some t" "ptab_ok t L K B"
      "roused {} (set_proc (me x) (\<lambda>q. q\<lparr>state := PROC_SLEEPING, wait_state := WT_CHILD\<rparr>) (ptable x)) t"
      "\<forall>p. parent (pr t p) = parent (pr (ptable x) p)" by (auto simp: sleep_child_def)
    then have "r = Slept" "ptable y = t" using w(1) Only_Live run by (auto simp: wait_round_def)
    then show ?thesis using t w(2) Only_Live by simp
  next
    case (Found q)
    then have q: "q \<in> awaited n (ptable x) K (me x)" "state (pr (ptable x) q) = PROC_ZOMBIE" using w(2) by simp_all
    then have "q \<in> set (K (me x))" by (simp add: awaited_def)
    from reap_links_ok [OF ok this q(2)] obtain t B' where t: "reap_links q (ptable x) = Some t"
      "ptab_ok t (remove1 q L) (K(me x := remove1 q (K (me x)))) B'" "relinked (ptable x) t" "\<forall>p. parent (pr t p) = parent (pr (ptable x) p)" by blast
    then have "r = Returned 0 (map_option (\<lambda>addr. (addr, exit_code (pr (ptable x) q))) store)" "ptable y = t"
      using w(1) Found run keeps_table(2) by (fastforce simp: wait_round_def Option.bind_eq_Some_conv)+
    then show ?thesis using t q by blast
  qed
qed

subsection \<open>Steps\<close>

text \<open>What \<^verbatim>\<open>kmalloc\<close> promises: it does not hand out a descriptor that is in use.\<close>

definition unused :: "ptab \<Rightarrow> nat \<Rightarrow> bool" where
  "unused t p \<longleftrightarrow> (\<forall>L. dll (proc_list t) ProcList (map ListLink L) \<longrightarrow> p \<notin> members t L)"

inductive pstep :: "image \<Rightarrow> ksys \<times> waits \<Rightarrow> ksys \<times> waits \<Rightarrow> bool" for im where
  fork: "W (me x) = None \<Longrightarrow> (\<And>p. proc_mem a = Some p \<Longrightarrow> unused (ptable x) p) \<Longrightarrow>
    do_fork im fl stack tf a x = Some (ret, y) \<Longrightarrow> pstep im (x, W) (y, W)"
| leave: "W (me x) = None \<Longrightarrow> do_exit code x = Some y \<Longrightarrow> pstep im (x, W) (y, W)"
| wait: "W (me x) = None \<Longrightarrow> me x \<noteq> idleproc (sched (ptable x)) \<Longrightarrow> do_wait n store x = Some (r, y) \<Longrightarrow>
    pstep im (x, W) (y, if r = Slept then W(me x \<mapsto> (n, store)) else W)"
| resume: "W (me x) = Some (n, store) \<Longrightarrow> wait_resume n store x = Some (r, y) \<Longrightarrow>
    pstep im (x, W) (y, if r = Some Slept then W else W(me x := None))"
| kill: "W (me x) = None \<Longrightarrow> do_kill n (ptable x) = Some (ret, t) \<Longrightarrow> pstep im (x, W) (x\<lparr>ptable := t\<rparr>, W)"
| yielding: "W (me x) = None \<Longrightarrow> pstep im (x, W) (x\<lparr>ptable := snd (do_yield (ptable x))\<rparr>, W)"
| priority: "W (me x) = None \<Longrightarrow> pstep im (x, W) (x\<lparr>ptable := lab6_set_priority k (ptable x)\<rparr>, W)"
| resched: "W (me x) = None \<Longrightarrow> Proc_Table.resched (ptable x) = Some t \<Longrightarrow> pstep im (x, W) (run_on t x, W)"
| block: "W (me x) = None \<Longrightarrow> me x \<noteq> idleproc (sched (ptable x)) \<Longrightarrow> w \<noteq> WT_CHILD \<Longrightarrow>
    Proc_Table.resched (set_proc (me x) (\<lambda>q. q\<lparr>state := PROC_SLEEPING, wait_state := w\<rparr>) (ptable x)) = Some t \<Longrightarrow>
    pstep im (x, W) (run_on t x, W)"
| wakeup: "state (pr (ptable x) p) = PROC_SLEEPING \<Longrightarrow> wait_state (pr (ptable x) p) \<noteq> WT_CHILD \<Longrightarrow> \<not> unused (ptable x) p \<Longrightarrow>
    Proc_Table.wake p (ptable x) = Some t \<Longrightarrow> pstep im (x, W) (x\<lparr>ptable := t\<rparr>, W)"
| tick: "pstep im (x, W) (x\<lparr>ptable := (ptable x)\<lparr>sched := sched_class_proc_tick default_sched_class (me x) (sched (ptable x))\<rparr>\<rparr>, W)"

inductive_cases pstepE: "pstep im s s'"

subsection \<open>The invariant\<close>

definition waits_ok :: "ptab \<Rightarrow> nat list \<Rightarrow> (nat \<Rightarrow> nat list) \<Rightarrow> waits \<Rightarrow> bool" where
  "waits_ok t L K W \<longleftrightarrow>
     (\<forall>p \<in> members t L. wait_state (pr t p) = WT_CHILD \<longrightarrow>
        (\<exists>n store. W p = Some (n, store) \<and> awaited n t K p \<noteq> {} \<and> (\<forall>q \<in> awaited n t K p. state (pr t q) \<noteq> PROC_ZOMBIE))) \<and>
     (\<forall>p. W p \<noteq> None \<longrightarrow> p \<in> set L \<and> state (pr t p) \<noteq> PROC_ZOMBIE)"

definition kin_ok :: "ptab \<Rightarrow> nat list \<Rightarrow> bool" where
  "kin_ok t L \<longleftrightarrow> parent (pr t (initproc (sched t))) = Some (idleproc (sched t)) \<and> (\<forall>p \<in> set L. parent (pr t p) \<noteq> Some p)"

definition proc_inv :: "ksys \<times> waits \<Rightarrow> bool" where
  "proc_inv s \<longleftrightarrow> (\<exists>L K B. ptab_ok (ptable (fst s)) L K B \<and> kin_ok (ptable (fst s)) L \<and> waits_ok (ptable (fst s)) L K (snd s))"

lemma waits_okD:
  assumes "waits_ok t L K W"
  shows "p \<in> members t L \<Longrightarrow> wait_state (pr t p) = WT_CHILD \<Longrightarrow>
      \<exists>n store. W p = Some (n, store) \<and> awaited n t K p \<noteq> {} \<and> (\<forall>q \<in> awaited n t K p. state (pr t q) \<noteq> PROC_ZOMBIE)"
    "W p \<noteq> None \<Longrightarrow> p \<in> set L \<and> state (pr t p) \<noteq> PROC_ZOMBIE"
  using assms unfolding waits_ok_def by blast+

lemma proc_invI: "ptab_ok (ptable x) L K B \<Longrightarrow> kin_ok (ptable x) L \<Longrightarrow> waits_ok (ptable x) L K W \<Longrightarrow> proc_inv (x, W)"
  by (auto simp: proc_inv_def)

lemma unusedD: "unused t p \<Longrightarrow> ptab_ok t L K B \<Longrightarrow> p \<notin> members t L"
  by (auto simp: unused_def ptab_ok_def lists_ok_def)

lemma dll_unique:
  assumes "dll l h xs" "dll l h ys"
  shows "xs = ys"
proof -
  have "path f a xs h \<Longrightarrow> path f a ys h \<Longrightarrow> h \<notin> set xs \<Longrightarrow> h \<notin> set ys \<Longrightarrow> xs = ys" for f a
  proof (induction xs arbitrary: a ys)
    case Nil
    then show ?case by (cases ys) auto
  next
    case (Cons x xs)
    then show ?case by (cases ys) auto
  qed
  then show ?thesis using assms by (auto simp: dll_def)
qed

lemma usedD:
  assumes "\<not> unused t p" "ptab_ok t L K B"
  shows "p \<in> members t L"
proof -
  from assms(1) obtain L' where L': "dll (proc_list t) ProcList (map ListLink L')" "p \<in> members t L'" by (auto simp: unused_def)
  have "map ListLink L' = map ListLink L" by (rule dll_unique [OF L'(1)]) (use assms(2) in \<open>simp add: ptab_ok_def lists_ok_def\<close>)
  then have "L' = L" by (rule map_injective) (auto intro: injI)
  then show ?thesis using L'(2) by simp
qed

text \<open>Steps that change neither families nor numbers.\<close>

lemma kin_cong:
  assumes "kin_ok t L" "idleproc (sched t') = idleproc (sched t)" "initproc (sched t') = initproc (sched t)"
    "\<And>p. parent (pr t' p) = parent (pr t p)" "set L' \<subseteq> set L"
  shows "kin_ok t' L'"
  using assms by (auto simp: kin_ok_def)

lemma waits_cong:
  assumes i: "waits_ok t L K W" and m: "idleproc (sched t') = idleproc (sched t)" and p: "\<And>p. pid (pr t' p) = pid (pr t p)"
    and z: "\<And>p. state (pr t' p) = PROC_ZOMBIE \<longleftrightarrow> state (pr t p) = PROC_ZOMBIE"
    and w: "\<And>p. wait_state (pr t' p) = WT_CHILD \<Longrightarrow> wait_state (pr t p) = WT_CHILD"
  shows "waits_ok t' L K W"
proof -
  have a: "awaited n t' K q = awaited n t K q" for n q by (simp add: awaited_def p)
  have e: "members t' L = members t L" by (simp add: members_def m)
  show ?thesis using i w unfolding waits_ok_def a e z by blast
qed

lemma waits_roused:
  assumes i: "waits_ok t L K W" and w: "roused V t t'"
  shows "waits_ok t' L K W"
proof (rule waits_cong [OF i])
  note d = rousedD [OF w]
  show "wait_state (pr t' p) = WT_CHILD \<Longrightarrow> wait_state (pr t p) = WT_CHILD" for p using d(7) [of p] WT_CHILD_nonzero by auto
qed (use rousedD [OF w] in simp_all)

lemma moved_tab_ok:
  assumes ok: "ptab_ok t L K B" and m: "moved t t'" "cur t' = cur t"
    and s: "\<And>p. state (pr t' p) = state (pr t p)" "\<And>p. wait_state (pr t' p) = wait_state (pr t p)"
  shows "ptab_ok t' L K B \<and> roused {} t t'"
proof -
  note d = ptab_okD [OF ok] and m' = moved_simps [OF m(1)]
  have w: "roused {} t t'" unfolding roused_def using m' s by simp
  have "states_ok t' L" by (rule states_roused [OF d(3) w _ m'(1)]) simp
  then have "ptab_ok t' L K B" using m'(5) [OF d(1)] m'(6) [OF d(2)] d(5,6,7) m(2) m'(4) s by (simp add: ptab_ok_def)
  then show ?thesis using w by simp
qed

lemma tick_tab_ok:
  assumes ok: "ptab_ok t L K B"
  assumes t'_def: "t' = t\<lparr>sched := sched_class_proc_tick default_sched_class p (sched t)\<rparr>"
  shows "ptab_ok t' L K B \<and> roused {} t t' \<and> (\<forall>q. parent (pr t' q) = parent (pr t q))"
proof -
  have k: "same_kin (sched t) (sched t')" "cur t' = cur t" "\<And>q. state (pr t' q) = state (pr t q)" "\<And>q. wait_state (pr t' q) = wait_state (pr t q)"
    by (auto simp: t'_def same_kin_def sched_class_proc_tick_def default_sched_class_simps RR_proc_tick_def Let_def)
  have "moved t t'" unfolding moved_def using k(1) rr.tick_inv [OF ptab_okD(4) [OF ok]] by (intro exI [of _ "sched t'"]) (simp add: t'_def)
  from moved_tab_ok [OF ok this k(2-4)] show ?thesis using k(1) by (simp add: same_kin_def)
qed

lemma do_kill_same:
  assumes "do_kill n t = Some (ret, t')"
  shows "idleproc (sched t') = idleproc (sched t) \<and> initproc (sched t') = initproc (sched t) \<and> (\<forall>p. pid (pr t' p) = pid (pr t p))"
proof -
  have w: "wake p t1 = Some t2 \<Longrightarrow> same_kin (sched t1) (sched t2)" for p t1 t2
    by (auto simp: wake_def Option.bind_eq_Some_conv dest: wakeup_kin)
  show ?thesis using assms w unfolding do_kill_def Let_def
    by (fastforce simp: Option.bind_eq_Some_conv same_kin_def split: option.splits if_splits)
qed

lemma kill_inv:
  assumes ok: "ptab_ok t L K B" and kin: "kin_ok t L" and wt: "waits_ok t L K W" and k: "do_kill n t = Some (ret, t')"
  shows "ptab_ok t' L K B \<and> kin_ok t' L \<and> waits_ok t' L K W"
proof -
  note s = do_kill_same [OF k]
  from do_kill_ok [OF ok, of n] k have o': "ptab_ok t' L K B" "\<forall>q. parent (pr t' q) = parent (pr t q)" by auto
  from do_kill_ok [OF ok, of n] k have "t' = t \<or> (\<exists>q \<in> set L.
      (state (pr t' q) = PROC_RUNNABLE \<and> wait_state (pr t' q) = 0 \<and> wait_state (pr t q) \<noteq> 0 \<or>
        state (pr t' q) = state (pr t q) \<and> wait_state (pr t' q) = wait_state (pr t q)) \<and>
      (\<forall>p. p \<noteq> q \<longrightarrow> state (pr t' p) = state (pr t p) \<and> wait_state (pr t' p) = wait_state (pr t p)))"
    by (fastforce split: if_splits)
  then have "state (pr t' p) = state (pr t p) \<and> wait_state (pr t' p) = wait_state (pr t p) \<or>
    state (pr t' p) = PROC_RUNNABLE \<and> wait_state (pr t' p) = 0 \<and> wait_state (pr t p) \<noteq> 0 \<and> p \<in> set L" for p by metis
  then have "(state (pr t' p) = PROC_ZOMBIE \<longleftrightarrow> state (pr t p) = PROC_ZOMBIE) \<and> (wait_state (pr t' p) = WT_CHILD \<longrightarrow> wait_state (pr t p) = WT_CHILD)" for p
    using ptab_okD(11) [OF ok ptab_okD(9) [OF ok, of p]] WT_CHILD_nonzero proc_state.distinct by metis
  then have "waits_ok t' L K W" using s by (intro waits_cong [OF wt]) simp_all
  moreover have "kin_ok t' L" using s o'(2) by (intro kin_cong [OF kin]) simp_all
  ultimately show ?thesis using o'(1) by simp
qed

subsection \<open>Fork, exit and wait keep it\<close>

lemma fork_inv:
  assumes ok: "ptab_ok (ptable x) L K B" and kin: "kin_ok (ptable x) L" and wt: "waits_ok (ptable x) L K W"
    and fresh: "\<And>p. proc_mem a = Some p \<Longrightarrow> p \<notin> members (ptable x) L" and run: "do_fork im fl stack tf a x = Some (ret, y)"
  shows "proc_inv (y, W)"
proof -
  let ?t = "ptable x" and ?t' = "ptable y"
  have b: "ptab_base ?t L K B" "init_ok ?t L" using ok by (simp_all add: ptab_ok_iff)
  note d = ptab_okD [OF ok]
  have keep: "init_ok ?t' L \<and> parent (pr ?t' (initproc (sched ?t'))) = Some (idleproc (sched ?t'))" if "same_on (members ?t L) ?t ?t'"
    using that b(2) kin d(9) by (simp add: init_ok_def same_on_def kin_ok_def)
  from do_fork_table [OF b(1) fresh run] consider
    (failed) "ptab_base ?t' L K B" "same_on (members ?t L) ?t ?t'" | (made) p where "forked ?t L K p ret ?t'" by blast
  then show ?thesis
  proof cases
    case failed
    have sub: "q \<in> members ?t L \<Longrightarrow> pid (pr ?t' q) = pid (pr ?t q) \<and> parent (pr ?t' q) = parent (pr ?t q) \<and>
      state (pr ?t' q) = state (pr ?t q) \<and> wait_state (pr ?t' q) = wait_state (pr ?t q)" for q using failed(2) by (simp add: same_on_def)
    have a: "awaited n ?t' K q = awaited n ?t K q" if "q \<in> members ?t L" for n q
      using sub d(9) d(10) [OF that] by (auto simp: awaited_def)
    have z: "state (pr ?t' r) = state (pr ?t r)" if "q \<in> members ?t L" "r \<in> awaited n ?t K q" for n q r
      using sub [of r] d(9) [of r] d(10) [OF that(1)] that(2) by (auto simp: awaited_def)
    have "waits_ok ?t' L K W" unfolding waits_ok_def same_on_members [OF failed(2)]
      using wt sub d(9) by (fastforce simp: waits_ok_def a z)
    moreover have "kin_ok ?t' L" using keep [OF failed(2)] kin sub d(9) by (auto simp: kin_ok_def)
    ultimately show ?thesis using failed(1) keep [OF failed(2)] by (intro proc_invI [of _ L K B]) (simp_all add: ptab_ok_iff)
  next
    case (made p)
    let ?K = "K(me x := p # K (me x), p := [])"
    from made obtain B' where f: "p \<notin> members ?t L" "ptab_base ?t' (p # L) ?K B'" "same_on (members ?t L) ?t ?t'"
      "state (pr ?t' p) = PROC_RUNNABLE" "parent (pr ?t' p) = Some (me x)" by (auto simp: forked_def)
    have sub: "q \<in> members ?t L \<Longrightarrow> pid (pr ?t' q) = pid (pr ?t q) \<and> parent (pr ?t' q) = parent (pr ?t q) \<and>
      state (pr ?t' q) = state (pr ?t q) \<and> wait_state (pr ?t' q) = wait_state (pr ?t q)" for q using f(3) by (simp add: same_on_def)
    have run: "wait_state (pr ?t' q) \<noteq> WT_CHILD" if "q = p \<or> q = me x" for q
      using that f(4) sub [of "me x"] d(6,7) ptab_baseD(3) [OF f(2)] WT_CHILD_nonzero d(11) [OF d(6)] by (auto simp: base_ok_def members_def)
    have m: "members ?t' (p # L) = insert p (members ?t L)" using same_on_members [OF f(3)] by (auto simp: members_def)
    have a: "awaited n ?t' ?K q = awaited n ?t K q" if "q \<in> members ?t L" "q \<noteq> me x" "q \<noteq> p" for n q
      using that sub d(9) d(10) [OF that(1)] by (auto simp: awaited_def)
    have z: "state (pr ?t' r) = state (pr ?t r)" if "q \<in> members ?t L" "r \<in> awaited n ?t K q" for n q r
      using sub [of r] d(9) [of r] d(10) [OF that(1)] that(2) by (auto simp: awaited_def)
    have "\<exists>n store. W q = Some (n, store) \<and> awaited n ?t' ?K q \<noteq> {} \<and> (\<forall>r \<in> awaited n ?t' ?K q. state (pr ?t' r) \<noteq> PROC_ZOMBIE)"
      if q: "q \<in> insert p (members ?t L)" "wait_state (pr ?t' q) = WT_CHILD" for q
    proof -
      have n: "q \<noteq> p" "q \<noteq> me x" "q \<in> members ?t L" using run q by auto
      then obtain n store where "W q = Some (n, store)" "awaited n ?t K q \<noteq> {}" "\<forall>r \<in> awaited n ?t K q. state (pr ?t r) \<noteq> PROC_ZOMBIE"
        using waits_okD(1) [OF wt n(3)] sub [OF n(3)] q(2) by metis
      then show ?thesis using n z a by auto
    qed
    moreover have "q \<in> set (p # L) \<and> state (pr ?t' q) \<noteq> PROC_ZOMBIE" if "W q \<noteq> None" for q
      using wt that sub [of q] d(9) [of q] by (auto simp: waits_ok_def)
    ultimately have "waits_ok ?t' (p # L) ?K W" unfolding waits_ok_def m by blast
    moreover have "p \<noteq> me x" using f(1) d(6) by auto
    then have "kin_ok ?t' (p # L)" using keep [OF f(3)] kin sub d(9) f(5) by (auto simp: kin_ok_def)
    ultimately show ?thesis using f(2) keep [OF f(3)] by (intro proc_invI [of _ "p # L" ?K B']) (auto simp: ptab_ok_iff init_ok_def)
  qed
qed

lemma exit_inv:
  assumes ok: "ptab_ok (ptable x) L K B" and kin: "kin_ok (ptable x) L" and wt: "waits_ok (ptable x) L K W"
    and run: "do_exit code x = Some y"
  shows "proc_inv (y, W(me x := None))"
proof -
  let ?t = "ptable x" and ?t' = "ptable y" and ?ini = "initproc (sched (ptable x))"
  let ?K = "K(me x := [], ?ini := rev (K (me x)) @ K ?ini)"
  from do_exit_table [OF ok run] obtain c where c: "ptab_ok ?t' L ?K B" "me x \<in> set L" "me x \<noteq> ?ini" "parent (pr ?t (me x)) = Some c"
    "wait_state (pr ?t' c) \<noteq> WT_CHILD" "state (pr ?t' (me x)) = PROC_ZOMBIE"
    "(\<exists>q \<in> set (K (me x)). state (pr ?t q) = PROC_ZOMBIE) \<Longrightarrow> wait_state (pr ?t' ?ini) \<noteq> WT_CHILD"
    "\<And>p. parent (pr ?t' p) = (if p \<in> set (K (me x)) then Some ?ini else parent (pr ?t p))"
    "roused {c, ?ini} (set_proc (me x) (\<lambda>q. q\<lparr>state := PROC_ZOMBIE, exit_code := code\<rparr>) ?t) ?t'" by blast
  note d = ptab_okD [OF ok] and d' = ptab_okD [OF c(1)] and r = rousedD [OF c(9)]
  have m: "members ?t' L = members ?t L" "initproc (sched ?t') = ?ini" "idleproc (sched ?t') = idleproc (sched ?t)"
    using r(1-3) by (simp_all add: members_def)
  have km: "set (K (me x)) = {q \<in> set L. parent (pr ?t q) = Some (me x)}" using d(10) [OF d(6)] .
  have ne: "me x \<noteq> idleproc (sched ?t)" using c(2) d(3) by (auto simp: states_ok_def)
  have ini: "?ini \<in> set L" "?ini \<notin> set (K (me x))" using d(3) km kin ne by (auto simp: states_ok_def kin_ok_def)
  have own: "me x \<notin> set (K (me x))" using kin km c(2) by (auto simp: kin_ok_def)
  have z: "state (pr ?t' q) = PROC_ZOMBIE \<longleftrightarrow> q = me x \<or> state (pr ?t q) = PROC_ZOMBIE" for q
    using r(8) [of q] by simp
  have ws: "wait_state (pr ?t q) = WT_CHILD \<and> q \<noteq> me x \<and> q \<noteq> c" if "wait_state (pr ?t' q) = WT_CHILD" for q
  proof -
    have "wait_state (pr ?t q) = WT_CHILD" using r(7) [of q] that WT_CHILD_nonzero by (auto split: if_splits)
    moreover have "q \<noteq> me x" using that c(6) d'(11) [of "me x"] d'(9) [OF c(2)] WT_CHILD_nonzero by auto
    ultimately show ?thesis using that c(5) by auto
  qed
  have p: "pid (pr ?t' q) = pid (pr ?t q)" for q using r(4) [of q] by simp
  have "\<exists>n store. (W(me x := None)) q = Some (n, store) \<and> awaited n ?t' ?K q \<noteq> {} \<and> (\<forall>r \<in> awaited n ?t' ?K q. state (pr ?t' r) \<noteq> PROC_ZOMBIE)"
    if q: "q \<in> members ?t L" "wait_state (pr ?t' q) = WT_CHILD" for q
  proof -
    note w = ws [OF q(2)]
    from waits_okD(1) [OF wt q(1)] w obtain n store where n: "W q = Some (n, store)" "awaited n ?t K q \<noteq> {}"
      "\<forall>r \<in> awaited n ?t K q. state (pr ?t r) \<noteq> PROC_ZOMBIE" by blast
    have kq: "me x \<notin> set (K q)" using d(10) [OF q(1)] c(4) w by auto
    have a: "awaited n ?t' ?K q = awaited n ?t K q \<union> (if q = ?ini then awaited n ?t K (me x) else {})" using w by (auto simp: awaited_def p)
    have "state (pr ?t' r) \<noteq> PROC_ZOMBIE" if "r \<in> awaited n ?t' ?K q" for r
    proof (cases "r \<in> awaited n ?t K q")
      case True
      then show ?thesis using n(3) kq by (auto simp: z awaited_def)
    next
      case False
      then have "q = ?ini" "r \<in> set (K (me x))" using that a by (auto simp: awaited_def split: if_splits)
      then show ?thesis using c(7) q(2) own by (auto simp: z)
    qed
    then show ?thesis using n(1,2) w a by auto
  qed
  moreover have "q \<in> set L \<and> state (pr ?t' q) \<noteq> PROC_ZOMBIE" if "(W(me x := None)) q \<noteq> None" for q
    using that wt by (auto simp: z waits_ok_def split: if_splits)
  ultimately have "waits_ok ?t' L ?K (W(me x := None))" unfolding waits_ok_def m(1) by blast
  moreover have "kin_ok ?t' L" using kin ini m(2,3) c(8) by (auto simp: kin_ok_def)
  ultimately show ?thesis using c(1) by (intro proc_invI)
qed

lemma wait_round_inv:
  assumes ok: "ptab_ok (ptable x) L K B" and kin: "kin_ok (ptable x) L" and wt: "waits_ok (ptable x) L K W"
    and idle: "me x \<noteq> idleproc (sched (ptable x))" and run: "wait_round n store x = Some (r, y)"
  shows "proc_inv (y, if r = Slept then W(me x \<mapsto> (n, store)) else W(me x := None))"
proof -
  let ?t = "ptable x" and ?t' = "ptable y"
  note d = ptab_okD [OF ok]
  have meL: "me x \<in> set L" using d(6) idle by (simp add: members_def)
  from wait_round_table [OF ok idle run] consider (none) "r \<noteq> Slept" "y = x"
    | (slept) "r = Slept" "ptab_ok ?t' L K B" "roused {} (set_proc (me x) (\<lambda>q. q\<lparr>state := PROC_SLEEPING, wait_state := WT_CHILD\<rparr>) ?t) ?t'"
      "\<And>p. parent (pr ?t' p) = parent (pr ?t p)" "awaited n ?t K (me x) \<noteq> {}" "\<forall>q \<in> awaited n ?t K (me x). state (pr ?t q) \<noteq> PROC_ZOMBIE"
    | (found) q B' where "q \<in> awaited n ?t K (me x)" "state (pr ?t q) = PROC_ZOMBIE" "r \<noteq> Slept" "relinked ?t ?t'"
      "ptab_ok ?t' (remove1 q L) (K(me x := remove1 q (K (me x)))) B'" "\<And>p. parent (pr ?t' p) = parent (pr ?t p)" by auto
  then show ?thesis
  proof cases
    case none
    have "wait_state (pr ?t (me x)) \<noteq> WT_CHILD" using d(7) d(11) [OF d(6)] WT_CHILD_nonzero by auto
    then have "waits_ok ?t L K (W(me x := None))" using wt by (auto simp: waits_ok_def)
    then show ?thesis using none ok kin by (auto intro: proc_invI)
  next
    case slept
    note r = rousedD [OF slept(3)]
    have a: "awaited m ?t' K q = awaited m ?t K q" for m q using r(4) by (auto simp: awaited_def)
    have z: "state (pr ?t' q) = PROC_ZOMBIE \<longleftrightarrow> q \<noteq> me x \<and> state (pr ?t q) = PROC_ZOMBIE" for q using r(8) [of q] by auto
    have m: "members ?t' L = members ?t L" using r(3) by (simp add: members_def)
    have w: "wait_state (pr ?t' q) = WT_CHILD \<Longrightarrow> q = me x \<or> wait_state (pr ?t q) = WT_CHILD" for q using r(7) [of q] by (auto split: if_splits)
    have "\<exists>m st. (W(me x \<mapsto> (n, store))) q = Some (m, st) \<and> awaited m ?t' K q \<noteq> {} \<and> (\<forall>r \<in> awaited m ?t' K q. state (pr ?t' r) \<noteq> PROC_ZOMBIE)"
      if "q \<in> members ?t L" "wait_state (pr ?t' q) = WT_CHILD" for q
    proof (cases "q = me x")
      case False
      then show ?thesis using waits_okD(1) [OF wt] that w m unfolding a z by (metis fun_upd_other)
    qed (use slept(5,6) in \<open>simp add: a z\<close>)
    moreover have "q \<in> set L \<and> state (pr ?t' q) \<noteq> PROC_ZOMBIE" if "(W(me x \<mapsto> (n, store))) q \<noteq> None" for q
      using that wt meL by (auto simp: z waits_ok_def split: if_splits)
    ultimately have "waits_ok ?t' L K (W(me x \<mapsto> (n, store)))" unfolding waits_ok_def m by blast
    moreover have "kin_ok ?t' L" using r(1,2) slept(4) by (intro kin_cong [OF kin]) simp_all
    ultimately show ?thesis using slept(1,2) by (auto intro: proc_invI)
  next
    case (found q B')
    note e = relinked_simps [OF found(4)]
    let ?L = "remove1 q L" and ?K = "K(me x := remove1 q (K (me x)))"
    have sub: "members ?t' ?L \<subseteq> members ?t L" using e(7) set_remove1_subset [of q L] by (auto simp: members_def)
    have "wait_state (pr ?t (me x)) \<noteq> WT_CHILD" using d(7) d(11) [OF d(6)] WT_CHILD_nonzero by auto
    then have "\<exists>m st. (W(me x := None)) p = Some (m, st) \<and> awaited m ?t' ?K p \<noteq> {} \<and> (\<forall>r \<in> awaited m ?t' ?K p. state (pr ?t' r) \<noteq> PROC_ZOMBIE)"
      if "p \<in> members ?t' ?L" "wait_state (pr ?t' p) = WT_CHILD" for p
      using that sub wt by (cases "p = me x") (auto simp: waits_ok_def awaited_def e(1-3))
    moreover have "p \<in> set ?L \<and> state (pr ?t' p) \<noteq> PROC_ZOMBIE" if "(W(me x := None)) p \<noteq> None" for p
    proof -
      have "p \<in> set L" "state (pr ?t p) \<noteq> PROC_ZOMBIE" using that wt by (auto simp: waits_ok_def split: if_splits)
      moreover from this(2) have "p \<noteq> q" using found(2) by auto
      ultimately show ?thesis by (simp add: e(2))
    qed
    ultimately have "waits_ok ?t' ?L ?K (W(me x := None))" unfolding waits_ok_def by blast
    moreover have "kin_ok ?t' ?L" using e(7,8) found(6) set_remove1_subset [of q L] by (intro kin_cong [OF kin]) simp_all
    ultimately show ?thesis using found(3,5) by (auto intro: proc_invI)
  qed
qed

lemma do_wait_cases:
  assumes "do_wait n store x = Some (r, y)"
  shows "(r = Returned (- E_INVAL) None \<and> ptable y = ptable x) \<or> (\<exists>x1. ptable x1 = ptable x \<and> wait_round n store x1 = Some (r, y))"
proof (cases store)
  case None
  then show ?thesis using assms by (auto simp: do_wait_def)
next
  case (Some addr)
  show ?thesis
  proof (cases "mm_of x (me x)")
    case None
    then show ?thesis using assms Some by (auto simp: do_wait_def split: if_splits)
  next
    case (Some m)
    with assms \<open>store = Some addr\<close> obtain mm ok mmo where "(if ok then wait_round n store (x\<lparr>mms := (mms x)(m := mmo)\<rparr>)
        else Some (Returned (- E_INVAL) None, x\<lparr>mms := (mms x)(m := mmo)\<rparr>)) = Some (r, y)"
      by (auto simp: do_wait_def Option.bind_eq_Some_conv Let_def)
    then show ?thesis by (intro disjCI exI [of _ "x\<lparr>mms := (mms x)(m := mmo)\<rparr>"]) (auto split: if_splits)
  qed
qed

lemma same_table_inv: "ptable y = ptable x \<Longrightarrow> proc_inv (x, W) \<Longrightarrow> proc_inv (y, W)"
  by (simp add: proc_inv_def)

lemma pstep_inv:
  assumes s: "pstep im (x, W) (y, W')" and i: "proc_inv (x, W)"
  shows "proc_inv (y, W')"
proof -
  from i obtain L K B where ok: "ptab_ok (ptable x) L K B" and kin: "kin_ok (ptable x) L" and wt: "waits_ok (ptable x) L K W"
    by (auto simp: proc_inv_def)
  have plain: "proc_inv (y, W)" if "ptab_ok (ptable y) L K B" "roused V (ptable x) (ptable y)" "\<forall>q. parent (pr (ptable y) q) = parent (pr (ptable x) q)" for V
    using that waits_roused [OF wt that(2)] kin_cong [OF kin, of "ptable y" L] rousedD(1,2) [OF that(2)] by (intro proc_invI) simp_all
  from s show ?thesis
  proof (cases rule: pstep.cases)
    case (resched t)
    then show ?thesis using resched_tab_ok [OF ok] plain [of "{}"] by auto
  next
    case (wakeup p t)
    then show ?thesis using wake_tab_ok [OF ok usedD [OF wakeup(5) ok] wakeup(3)] plain [of "{p}"] by auto
  next
    case yielding
    then show ?thesis using touch_ok [OF ok] plain [of "{}"] by (simp add: do_yield_def roused_def)
  next
    case (priority k)
    then show ?thesis using touch_ok [OF ok] plain [of "{}"] by (simp add: lab6_set_priority_def roused_def)
  next
    case tick
    then show ?thesis using tick_tab_ok [OF ok refl, of "me x"] plain [of "{}"] by simp
  next
    case (kill n ret t)
    then show ?thesis using kill_inv [OF ok kin wt kill(4)] by (auto intro: proc_invI)
  next
    case (block w t)
    from block_ok [OF ok block(4) refl, of w] block(6) have t: "ptab_ok t L K B" "roused {} (set_proc (me x) (\<lambda>q. q\<lparr>state := PROC_SLEEPING, wait_state := w\<rparr>) (ptable x)) t"
      "\<And>p. parent (pr t p) = parent (pr (ptable x) p)" by auto
    note r = rousedD [OF t(2)]
    have z: "state (pr (ptable x) (me x)) \<noteq> PROC_ZOMBIE" using ptab_okD(7) [OF ok] by simp
    have "waits_ok t L K W"
    proof (rule waits_cong [OF wt])
      show "state (pr t p) = PROC_ZOMBIE \<longleftrightarrow> state (pr (ptable x) p) = PROC_ZOMBIE" for p using r(8) [of p] z by auto
      show "wait_state (pr t p) = WT_CHILD \<Longrightarrow> wait_state (pr (ptable x) p) = WT_CHILD" for p using r(7) [of p] block(5) by (auto split: if_splits)
    qed (use r(1,4) in auto)
    moreover have "kin_ok t L" using r(1,2) t(3) by (intro kin_cong [OF kin]) simp_all
    ultimately show ?thesis using block(1,2) t(1) by (auto intro: proc_invI)
  next
    case (fork a fl stack tf ret)
    have "p \<notin> members (ptable x) L" if "proc_mem a = Some p" for p using unusedD [OF fork(3) [OF that] ok] .
    then show ?thesis using fork_inv [OF ok kin wt _ fork(4)] fork(1) by blast
  next
    case (leave code)
    then show ?thesis using exit_inv [OF ok kin wt leave(3)] by (simp add: fun_upd_idem)
  next
    case (wait n store r)
    note w = wait
    from do_wait_cases [OF wait(4)] show ?thesis
    proof (elim disjE conjE exE)
      assume "r = Returned (- E_INVAL) None" "ptable y = ptable x"
      then show ?thesis using w(1) i by (auto intro: same_table_inv)
    next
      fix x1 assume "ptable x1 = ptable x" "wait_round n store x1 = Some (r, y)"
      then show ?thesis using wait_round_inv [of x1 L K B W n store r y] ok kin wt w(1-3) by (auto simp: fun_upd_idem)
    qed
  next
    case (resume n store r)
    have "me x \<noteq> idleproc (sched (ptable x))" using waits_okD(2) [OF wt, of "me x"] resume(2) ptab_okD(3) [OF ok] by (auto simp: states_ok_def)
    note round = wait_round_inv [OF ok kin wt this]
    show ?thesis
    proof (cases "proc_struct.flags (pr (ptable x) (me x)) AND PF_EXITING = 0")
      case True
      then obtain r' where "wait_round n store x = Some (r', y)" "r = Some r'" using resume(3) by (auto simp: wait_resume_def Option.bind_eq_Some_conv)
      then show ?thesis using round [of n store r' y] resume(1,2) by (auto simp: fun_upd_idem split: if_splits)
    next
      case False
      then have "do_exit (- E_KILLED) x = Some y" "r = None" using resume(3) by (auto simp: wait_resume_def Option.bind_eq_Some_conv)
      then show ?thesis using exit_inv [OF ok kin wt] resume(1) by simp
    qed
  qed
qed

text \<open>All states that can be reached from a given one.\<close>

inductive preach :: "image \<Rightarrow> ksys \<times> waits \<Rightarrow> ksys \<times> waits \<Rightarrow> bool" for im s where
  start: "preach im s s"
| step: "preach im s s' \<Longrightarrow> pstep im s' s'' \<Longrightarrow> preach im s s''"

lemma preach_inv: "preach im s s' \<Longrightarrow> proc_inv s \<Longrightarrow> proc_inv s'"
proof (induction rule: preach.induct)
  case (step s' s'')
  then show ?case using pstep_inv [of im "fst s'" "snd s'" "fst s''" "snd s''"] by simp
qed

end
