(* ===== verification/Proc_Boot.thy ===== *)
theory Proc_Boot
  imports Proc_Steps Paging_Theorems
begin

text \<open>
  \<^verbatim>\<open>proc_init\<close> makes an intact process table of the idle process and \<^verbatim>\<open>initproc\<close>, its child.
\<close>

subsection \<open>The start\<close>

text \<open>The scheduler is initialised, there is no process, and the static variables of \<^verbatim>\<open>get_pid\<close> have their
  initial values.\<close>

definition boot_ok :: "ptab \<Rightarrow> bool" where
  "boot_ok t \<longleftrightarrow> rr_ok (sched t) \<and> rr_queued (sched t) = {} \<and> (\<forall>p. state (pr t p) = PROC_UNINIT) \<and> nr_process t = 0 \<and>
     last_pid t = MAX_PID \<and> next_safe t = MAX_PID"

lemma list_init_next: "lnext (list_init e l) d = (if d = e then e else lnext l d)" "lprev (list_init e l) d = (if d = e then e else lprev l d)"
  by (simp_all add: link_defs)

lemma init_hash_lists: "i < n \<Longrightarrow> dll (fold (\<lambda>i. list_init (HashHead i)) [0 ..< n] h) (HashHead i) []"
proof (induction n)
  case (Suc n)
  then show ?case by (cases "i = n") (auto simp: dll_def list_init_next)
qed simp

subsection \<open>The idle process\<close>

definition idle_table :: "nat \<Rightarrow> ptab \<Rightarrow> ptab" where
  "idle_table p t0 = (let t = snd (alloc_proc (Some p) (init_lists t0));
     t1 = set_proc p (\<lambda>q. q\<lparr>pid := 0, state := PROC_RUNNABLE, need_resched := True\<rparr>) (t\<lparr>sched := (sched t)\<lparr>idleproc := p\<rparr>\<rparr>)
     in t1\<lparr>nr_process := nr_process t1 + 1, sched := (sched t1)\<lparr>current := p\<rparr>\<rparr>)"

lemma idle_table_ok:
  assumes "boot_ok t"
  shows "ptab_base (idle_table p t) [] (\<lambda>_. []) (\<lambda>_. []) \<and> nr_process (idle_table p t) = 1 \<and> cur (idle_table p t) = p \<and> idleproc (sched (idle_table p t)) = p \<and>
    pid (pr (idle_table p t) p) = 0 \<and> last_pid (idle_table p t) = MAX_PID"
proof -
  let ?t = "idle_table p t" and ?s0 = "(sched t)\<lparr>run_list := list_init (RunLink p) (run_list (sched t)), pool := skew_heap_init p (pool (sched t)),
     procs := (pr t)(p := (pr t p)\<lparr>state := PROC_UNINIT, pid := - 1, runs := 0, need_resched := False,
       parent := None, proc_struct.flags := 0, wait_state := 0, cptr := None, optr := None, yptr := None, has_rq := False,
       time_slice := 0, lab6_stride := 0, lab6_priority := 0\<rparr>)\<rparr>"
  have b: "rr_ok (sched t)" "rr_queued (sched t) = {}" "\<And>q. state (pr t q) = PROC_UNINIT" "nr_process t = 0" "last_pid t = MAX_PID" "next_safe t = MAX_PID"
    using assms by (simp_all add: boot_ok_def)
  have f: "proc_list ?t = list_init ProcList (proc_list t)" "hash_list ?t = fold (\<lambda>i. list_init (HashHead i)) [0 ..< HASH_LIST_SIZE] (hash_list t)"
    "nr_process ?t = 1" "last_pid ?t = MAX_PID" "next_safe ?t = MAX_PID" "cur ?t = p" "idleproc (sched ?t) = p"
    "state (pr ?t p) = PROC_RUNNABLE" "wait_state (pr ?t p) = 0" "cptr (pr ?t p) = None" "pid (pr ?t p) = 0" "\<And>q. q \<noteq> p \<Longrightarrow> state (pr ?t q) = PROC_UNINIT"
    "same_queue ?s0 (sched ?t)"
    using b by (simp_all add: idle_table_def Let_def alloc_proc_def init_lists_def set_proc_def upd_proc_def same_queue_def)
  have "sched_inv rr_ok rr_queued (sched t)" using b(1-3) by (simp add: sched_inv_def runnables_def)
  then have s0: "sched_inv rr_ok rr_queued ?s0" using b(3) by (intro alloc_inv) simp_all
  have "runnables ?s0 = {}" using b(3) by (simp add: runnables_def)
  then have "rr_queued ?s0 = {}" "rr_ok ?s0" using s0 by (simp_all add: sched_inv_def)
  moreover have "state (pr ?t q) = PROC_RUNNABLE \<Longrightarrow> q = p" for q using f(12) [of q] by auto
  then have "runnables (sched ?t) = {}" using f(6,7) by (auto simp: runnables_def)
  ultimately have "sched_inv rr_ok rr_queued (sched ?t)" using rr.frame [OF _ f(13)] by (simp add: sched_inv_def)
  moreover have "lists_ok ?t [] (\<lambda>_. [])"
    using f(1-5) init_hash_lists by (simp add: lists_ok_def hash_ok_def pids_ok_def MAX_PID_eq dll_def list_init_next)
  ultimately show ?thesis using f by (auto simp: ptab_base_def family_ok_def base_ok_def members_def)
qed

subsection \<open>The first child\<close>

lemma proc_init_table:
  assumes boot: "boot_ok (ptable x)" and distinct: "proc_mem a \<noteq> proc_mem ai" and run: "proc_init im ss f ai a x = Some y"
  shows "\<exists>p K B. ptab_ok (ptable y) [p] K B \<and> kin_ok (ptable y) [p] \<and> initproc (sched (ptable y)) = p \<and> me y = idleproc (sched (ptable y)) \<and>
    proc_mem a = Some p \<and> proc_mem ai = Some (me y) \<and> pid (pr (ptable y) p) = 1 \<and> state (pr (ptable y) p) = PROC_RUNNABLE \<and> wait_state (pr (ptable y) p) = 0"
proof -
  from run obtain idle t where al: "alloc_proc (proc_mem ai) (init_lists (ptable x)) = (Some idle, t)" "proc_mem ai = Some idle"
    by (auto simp: proc_init_def alloc_proc_def split: option.splits)
  define x1 where "x1 = idle_fields idle im (init_proc idle (x\<lparr>ptable := t\<lparr>sched := (sched t)\<lparr>idleproc := idle\<rparr>\<rparr>\<rparr>))"
  from run al obtain fp s where fs: "files_create (files_mem ai) (fsys x1) = (Some fp, s)"
    by (auto simp: proc_init_def x1_def Let_def split: prod.splits option.splits)
  define x2 where "x2 = x1\<lparr>fsys := add_files_count fp 1 s, files_of := (files_of x1)(idle \<mapsto> fp)\<rparr>"
  define x3 where "x3 = x2\<lparr>ptable := (ptable x2)\<lparr>nr_process := nr_process (ptable x2) + 1, sched := (sched (ptable x2))\<lparr>current := idle\<rparr>\<rparr>\<rparr>"
  from run obtain n x4 p where k: "kernel_thread im ss f 0 0 a x3 = Some (n, x4)" "n > 0" "find_proc n (ptable x4) = Some (Some p)"
    "y = x4\<lparr>ptable := (ptable x4)\<lparr>sched := (sched (ptable x4))\<lparr>initproc := p\<rparr>\<rparr>\<rparr>" "pid (pr (ptable x4) p) = 1"
    unfolding proc_init_def al(1) option.case prod.case Let_def fs x1_def [symmetric] x2_def [symmetric] x3_def [symmetric]
    by (auto simp: Option.bind_eq_Some_conv)
  have t3: "ptable x3 = idle_table idle (ptable x)" using al unfolding x3_def x2_def x1_def idle_fields_def idle_table_def
    by (simp add: Let_def)
  note base = idle_table_ok [OF boot, of idle, folded t3]
  have fresh: "q \<notin> members (ptable x3) []" if "proc_mem a = Some q" for q using that distinct al(2) base by (auto simp: members_def)
  from do_fork_table [OF _ fresh, of "\<lambda>_. []" "\<lambda>_. []"] base k(1,2) obtain q where "forked (ptable x3) [] (\<lambda>_. []) q n (ptable x4)" "proc_mem a = Some q"
    unfolding kernel_thread_def by force
  then obtain K B where q: "ptab_base (ptable x4) [q] K B" "n = pid (pr (ptable x4) q)" "same_on {idle} (ptable x3) (ptable x4)"
    "state (pr (ptable x4) q) = PROC_RUNNABLE" "parent (pr (ptable x4) q) = Some idle" "q \<noteq> idle" "proc_mem a = Some q"
    using base by (auto simp: forked_def members_def)
  have "\<exists>r. find_proc n (ptable x4) = Some r \<and> (case r of None \<Rightarrow> n \<notin> (\<lambda>p. pid (pr (ptable x4) p)) ` set [q] | Some p \<Rightarrow> p \<in> set [q] \<and> pid (pr (ptable x4) p) = n)"
    using ptab_baseD(1) [OF q(1)] find_proc_ok by (fastforce simp: lists_ok_def)
  then have pq: "p = q" using k(3) by auto
  have w: "wait_state (pr (ptable x4) q) = 0" using ptab_baseD(3) [OF q(1)] q(4) by (auto simp: base_ok_def members_def)
  have i: "idleproc (sched (ptable x4)) = idle" "me x4 = idle" using q(3) base by (simp_all add: same_on_def)
  have "sched_inv rr_ok rr_queued ((sched (ptable x4))\<lparr>initproc := q\<rparr>)"
    by (rule rr.inv_frame [OF ptab_baseD(4) [OF q(1)]]) (simp_all add: same_queue_def same_core_def)
  then have "ptab_ok (ptable y) [q] K B"
    using q(1,4) unfolding k(4) pq
    by (simp add: ptab_ok_iff ptab_base_def lists_ok_def hash_ok_def pids_ok_def family_ok_def base_ok_def members_def init_ok_def)
  then show ?thesis using q w i k(5) al(2) unfolding k(4) pq by (intro exI [of _ q]) (auto simp: kin_ok_def)
qed

lemma proc_init_inv:
  assumes "boot_ok (ptable x)" "proc_mem a \<noteq> proc_mem ai" "proc_init im ss f ai a x = Some y"
  shows "proc_inv (y, \<lambda>_. None)"
proof -
  from proc_init_table [OF assms] obtain p K B where p: "ptab_ok (ptable y) [p] K B" "kin_ok (ptable y) [p]"
    "wait_state (pr (ptable y) p) = 0" "me y = idleproc (sched (ptable y))" by blast
  note d = ptab_okD [OF p(1)]
  have "wait_state (pr (ptable y) (me y)) = 0" using d(7) d(11) [OF d(6)] by auto
  then have "waits_ok (ptable y) [p] K (\<lambda>_. None)" using p(3,4) WT_CHILD_nonzero by (auto simp: waits_ok_def members_def)
  then show ?thesis using p by (intro proc_invI)
qed

subsection \<open>It returns\<close>

lemma packed_block:
  assumes "packed b h v" "b + n \<le> h" "0 < n"
  shows "\<exists>f. alloc_pages n v = Some (Some b, v\<lparr>frames := f\<rparr>) \<and> packed (b + n) h (v\<lparr>frames := f\<rparr>)"
proof -
  have wf: "pmm_wf (vmem.frames v) [(b, h + 1 - b)]" using assms(1) by (simp add: packed_def)
  have "ff_alloc n [(b, h + 1 - b)] = Some (b, [(b + n, h + 1 - (b + n))])" using assms(2) by simp
  with default_alloc_refines [OF wf assms(3)] have "default_alloc_pages n (vmem.frames v) = Some (Some b, take_block n b (vmem.frames v))"
    "pmm_wf (take_block n b (vmem.frames v)) [(b + n, h + 1 - (b + n))]" by auto
  then show ?thesis using assms
    by (intro exI [of _ "take_block n b (vmem.frames v)"]) (simp add: alloc_pages_def default_pmm_manager_def packed_def)
qed

lemma setup_kstack_packed:
  assumes "packed b h (vm x)" "b + 2 \<le> h" "h < 2 ^ 43"
  shows "\<exists>y. setup_kstack p x = Some (0, y) \<and> kstack y p = Some b \<and> packed (b + 2) h (vm y) \<and> ptable y = ptable x \<and>
    fsys y = fsys x \<and> mm_of y = mm_of x \<and> files_of y = files_of x"
proof -
  from packed_block [OF assms(1), of 2] assms(2) obtain f where f: "alloc_pages 2 (vm x) = Some (Some b, (vm x)\<lparr>vmem.frames := f\<rparr>)"
    "packed (b + 2) h ((vm x)\<lparr>vmem.frames := f\<rparr>)" by auto
  have "page2kva b ((vm x)\<lparr>vmem.frames := f\<rparr>) = Some b"
    using assms by (intro page2kva_ok) (simp_all add: limit_def packed_def)
  then show ?thesis using f by (simp add: setup_kstack_def KSTACKPAGE_def)
qed

text \<open>A table of files in which nothing is open is copied by doing nothing.\<close>

lemma dup_loop_idle:
  assumes "ftabs s from = Some f" "\<forall>e \<in> set (fd_array f). status e \<noteq> FD_OPENED" "i + k \<le> length (fd_array f)"
  shows "dup_loop k i to from s = Some s"
  using assms by (induction k arbitrary: i) (simp_all add: file_at_def get_fd_array_def)

lemma copy_files_idle:
  assumes "files_of x (me x) = Some old" "ftabs (fsys x) old = Some f" "\<forall>e \<in> set (fd_array f). status e \<noteq> FD_OPENED"
    "length (fd_array f) = FILES_STRUCT_NENTRY" "pwd f = None" "files_count f > 0" "files_mem a = Some fp" "fp \<noteq> old" "fl AND CLONE_FS = 0"
  shows "\<exists>y. copy_files fl p a x = Some (0, y)"
proof -
  let ?n = "\<lparr>pwd = None, fd_array = fd_array_init, files_count = 0\<rparr>"
  let ?s = "(fsys x)\<lparr>ftabs := (ftabs (fsys x))(fp \<mapsto> ?n)\<rparr>"
  have "dup_loop FILES_STRUCT_NENTRY 0 fp old (set_pwd fp None ?s) = Some (set_pwd fp None ?s)"
    using assms by (intro dup_loop_idle [of _ _ f]) (simp_all add: set_pwd_def)
  then have "dup_files fp old ?s = Some (0, set_pwd fp None ?s)" using assms by (simp add: dup_files_def)
  then show ?thesis using assms by (simp add: copy_files_def files_create_def share_files_def)
qed

text \<open>A fork by a kernel thread whose requests for memory are granted returns the number of a new process.\<close>

lemma fork_returns:
  assumes ok: "ptab_base (ptable x) L K B" and nr: "nr_process (ptable x) < MAX_PROCESS" and p: "proc_mem a = Some p" "p \<notin> members (ptable x) L"
    and mem: "packed b h (vm x)" "b + 2 \<le> h" "h < 2 ^ 43" and space: "mm_of x (me x) = None"
    and files: "files_of x (me x) = Some old" "ftabs (fsys x) old = Some f" "\<forall>e \<in> set (fd_array f). status e \<noteq> FD_OPENED"
      "length (fd_array f) = FILES_STRUCT_NENTRY" "pwd f = None" "files_count f > 0" "files_mem a = Some fp" "fp \<noteq> old" "fl AND CLONE_FS = 0"
  shows "\<exists>t0 n t3 y. do_fork im fl stack tf a x = Some (n, y) \<and> same_on (members (ptable x) L) (ptable x) t0 \<and> last_pid t0 = last_pid (ptable x) \<and>
    next_safe t0 = next_safe (ptable x) \<and> proc_list t0 = proc_list (ptable x) \<and> get_pid t0 = Some (n, t3) \<and> forked (ptable x) L K p n (ptable y)"
proof -
  note m = ptab_baseD(6) [OF ok]
  have pc: "p \<noteq> me x" using p(2) m by auto
  from fork_start_ok [OF ok p(2)] obtain t where t: "alloc_proc (Some p) (ptable x) = (Some p, t)" "ptab_base (fork_start p t) L K B"
    "unborn p (fork_start p t)" "same_on (members (ptable x) L) (ptable x) (fork_start p t)" "nr_process (fork_start p t) = nr_process (ptable x)" by blast
  have t0: "last_pid (fork_start p t) = last_pid (ptable x)" "next_safe (fork_start p t) = next_safe (ptable x)" "proc_list (fork_start p t) = proc_list (ptable x)"
    using t(1) by (auto simp: alloc_proc_def fork_start_def Let_def)
  let ?x0 = "init_proc p (x\<lparr>ptable := fork_start p t\<rparr>)"
  from setup_kstack_packed [of b h ?x0 p] mem obtain x1 where x1: "setup_kstack p ?x0 = Some (0, x1)" "kstack x1 p = Some b" "ptable x1 = fork_start p t"
    "fsys x1 = fsys x" "mm_of x1 = (mm_of x)(p := None)" "files_of x1 = (files_of x)(p := None)" by auto
  have c: "me x1 = me x" using t(4) x1(3) by (simp add: same_on_def)
  have x2: "copy_mm im fl p a x1 = Some (0, x1)" using space x1(5) c pc by (simp add: copy_mm_def)
  obtain x3 where x3: "copy_thread im p stack tf x1 = Some x3" "ptable x3 = fork_start p t" "fsys x3 = fsys x" "files_of x3 = (files_of x)(p := None)"
    using x1 by (simp add: copy_thread_def)
  note mem = same_on_members [OF t(4), of L]
  from fork_pid_ok [OF t(2), of p] t(3,5) nr p(2) mem obtain n t3 where n: "get_pid (fork_start p t) = Some (n, t3)"
    "ptab_base (set_proc p (\<lambda>q. q\<lparr>pid := n\<rparr>) t3) L K B" "n \<in> pid_range" "n \<notin> (\<lambda>q. pid (pr (fork_start p t) q)) ` set L" "last_pid t3 = n"
    "unborn p (set_proc p (\<lambda>q. q\<lparr>pid := n\<rparr>) t3)" "same_on (members (fork_start p t) L) (fork_start p t) (set_proc p (\<lambda>q. q\<lparr>pid := n\<rparr>) t3)" by auto
  let ?x4 = "x3\<lparr>ptable := set_proc p (\<lambda>q. q\<lparr>pid := n\<rparr>) t3\<rparr>"
  have "me ?x4 = me x" using n(7) c x1(3) by (simp add: same_on_def)
  then obtain x5 where x5: "copy_files fl p a ?x4 = Some (0, x5)" using copy_files_idle [of ?x4 old f a fp fl p] files pc x3(3,4) by auto
  have e5: "ptable x5 = set_proc p (\<lambda>q. q\<lparr>pid := n\<rparr>) t3" using copy_files_table [OF x5] by simp
  have "(\<lambda>q. pid (pr (ptable x5) q)) ` set L = (\<lambda>q. pid (pr (fork_start p t) q)) ` set L"
    unfolding e5 by (rule image_cong) (use n(7) in \<open>auto simp: same_on_def members_def\<close>)
  moreover have "members (ptable x5) L = members (ptable x) L" using same_on_members [OF n(7), of L] mem e5 by simp
  ultimately obtain t5 t6 where l: "set_links p (hash_proc p (ptable x5)) = Some t5" "wake p t5 = Some t6" "pid (pr t6 p) = n"
    using fork_links_ok [of "ptable x5" L K B p] n p(2) unfolding e5 by auto
  have run: "do_fork im fl stack tf a x = Some (n, x5\<lparr>ptable := t6\<rparr>)"
    using nr p(1) t(1) x1(1) x2 x3(1,2) n(1) x5 l by (simp add: do_fork_def fork_start_def Let_def del: set_proc_simps)
  have "forked (ptable x) L K p n (ptable (x5\<lparr>ptable := t6\<rparr>))"
    using do_fork_table [OF ok _ run] p n(3) by (auto simp: pid_range_def)
  then show ?thesis using run t(4) t0 n(1) by blast
qed

lemma first_pid:
  assumes "list_next ProcList (proc_list t) = ProcList" "last_pid t = MAX_PID" "get_pid t = Some (n, t')"
  shows "n = 1"
  using assms by (subst (asm) get_pid_def) (simp add: pid_loop.simps)


lemma proc_init_returns:
  assumes boot: "boot_ok (ptable x)" and p: "proc_mem ai = Some idle" "proc_mem a = Some p" "p \<noteq> idle"
    and fp: "files_mem ai = Some f0" "files_mem a = Some f1" "f1 \<noteq> f0" and mem: "packed b h (vm x)" "b + 2 \<le> h" "h < 2 ^ 43"
  shows "\<exists>y. proc_init im ss f ai a x = Some y"
proof -
  define t where "t = snd (alloc_proc (Some idle) (init_lists (ptable x)))"
  have al: "alloc_proc (proc_mem ai) (init_lists (ptable x)) = (Some idle, t)" by (simp add: t_def p alloc_proc_def)
  define x1 where "x1 = idle_fields idle im (init_proc idle (x\<lparr>ptable := t\<lparr>sched := (sched t)\<lparr>idleproc := idle\<rparr>\<rparr>\<rparr>))"
  let ?fs = "\<lparr>pwd = None, fd_array = fd_array_init, files_count = 0\<rparr>"
  define s where "s = (fsys x1)\<lparr>ftabs := (ftabs (fsys x1))(f0 \<mapsto> ?fs)\<rparr>"
  have fs: "files_create (files_mem ai) (fsys x1) = (Some f0, s)" by (simp add: files_create_def s_def fp)
  define x2 where "x2 = x1\<lparr>fsys := add_files_count f0 1 s, files_of := (files_of x1)(idle \<mapsto> f0)\<rparr>"
  define x3 where "x3 = x2\<lparr>ptable := (ptable x2)\<lparr>nr_process := nr_process (ptable x2) + 1, sched := (sched (ptable x2))\<lparr>current := idle\<rparr>\<rparr>\<rparr>"
  have t3: "ptable x3 = idle_table idle (ptable x)" unfolding x3_def x2_def x1_def idle_fields_def idle_table_def
    by (simp add: Let_def t_def)
  note base = idle_table_ok [OF boot, of idle, folded t3]
  have x3: "vm x3 = vm x" "mm_of x3 idle = None" "files_of x3 idle = Some f0" "ftabs (fsys x3) f0 = Some (?fs\<lparr>files_count := 1\<rparr>)"
    by (simp_all add: x3_def x2_def x1_def idle_fields_def add_files_count_def s_def)
  have new: "p \<notin> members (ptable x3) []" "nr_process (ptable x3) < MAX_PROCESS" using p(3) base by (auto simp: members_def MAX_PROCESS_def)
  have none: "status e \<noteq> FD_OPENED" if "e \<in> set fd_array_init" for e using that by (auto simp: fd_array_init_def)
  have c: "me x3 = idle" "ptab_base (ptable x3) [] (\<lambda>_. []) (\<lambda>_. [])" using base by simp_all
  have "\<exists>t0 n u y. do_fork im (0 OR CLONE_VM) 0 tf a x3 = Some (n, y) \<and> same_on (members (ptable x3) []) (ptable x3) t0 \<and>
      last_pid t0 = last_pid (ptable x3) \<and> next_safe t0 = next_safe (ptable x3) \<and> proc_list t0 = proc_list (ptable x3) \<and>
      get_pid t0 = Some (n, u) \<and> forked (ptable x3) [] (\<lambda>_. []) p n (ptable y)" for tf
    by (rule fork_returns [OF c(2) new(2) p(2) new(1), of b h f0 "?fs\<lparr>files_count := 1\<rparr>" f1])
      (use x3 mem none fp c(1) in \<open>simp_all add: CLONE_VM_def CLONE_FS_def fd_array_init_def\<close>)
  then obtain t0 n u x4 where y: "kernel_thread im ss f 0 0 a x3 = Some (n, x4)" "last_pid t0 = MAX_PID" "proc_list t0 = proc_list (ptable x3)"
    "get_pid t0 = Some (n, u)" "forked (ptable x3) [] (\<lambda>_. []) p n (ptable x4)"
    unfolding kernel_thread_def using base by metis
  have "list_next ProcList (proc_list t0) = ProcList" using base y(3) by (simp add: ptab_base_def lists_ok_def dll_def list_next_def)
  then have n: "n = 1" using first_pid y(2,4) by blast
  from y(5) obtain K B where q: "ptab_base (ptable x4) [p] K B" "n = pid (pr (ptable x4) p)" "same_on {idle} (ptable x3) (ptable x4)"
    using base by (auto simp: forked_def members_def)
  have "\<exists>r. find_proc n (ptable x4) = Some r \<and> (case r of None \<Rightarrow> n \<notin> (\<lambda>p. pid (pr (ptable x4) p)) ` set [p] | Some q \<Rightarrow> q \<in> set [p] \<and> pid (pr (ptable x4) q) = n)"
    using ptab_baseD(1) [OF q(1)] find_proc_ok by (fastforce simp: lists_ok_def)
  then have fnd: "find_proc n (ptable x4) = Some (Some p)" using q(2) by (auto split: option.splits)
  have "pid (pr (ptable x4) idle) = 0" using q(3) base by (simp add: same_on_def)
  then show ?thesis using y(1) n q(2) fnd
    unfolding proc_init_def al option.case prod.case Let_def fs x1_def [symmetric] x2_def [symmetric] x3_def [symmetric]
    by simp
qed

end
