(* ===== verification/Proc_Theorems.thy ===== *)
theory Proc_Theorems
  imports Proc_Boot Sched_Theorems File_Small
begin

text \<open>
  The properties of process management, and two small systems for their witnesses: an idle process, \<^verbatim>\<open>initproc\<close>
  with the number 1 and a child of it with the number 2, and the state before \<^verbatim>\<open>proc_init\<close>.
\<close>

subsection \<open>Example states\<close>

definition demo_family :: "nat \<Rightarrow> proc_state \<Rightarrow> u32 \<Rightarrow> proc_state \<Rightarrow> ptab" where
  "demo_family c s w s' = \<lparr>sched = (demo_kern c {})\<lparr>procs := (\<lambda>p.
       if p = 0 then (demo_proc PROC_RUNNABLE 0)\<lparr>cptr := Some 1\<rparr>
       else if p = 1 then (demo_proc s 0)\<lparr>pid := 1, parent := Some 0, cptr := Some 2, wait_state := w\<rparr>
       else if p = 2 then (demo_proc s' 0)\<lparr>pid := 2, parent := Some 1, exit_code := 7\<rparr>
       else demo_proc PROC_UNINIT 0)\<rparr>,
     proc_list = \<lparr>lnext = id(ProcList := ListLink 2, ListLink 2 := ListLink 1, ListLink 1 := ProcList),
       lprev = id(ProcList := ListLink 1, ListLink 1 := ListLink 2, ListLink 2 := ProcList)\<rparr>,
     hash_list = \<lparr>lnext = id(HashHead 632 := HashLink 1, HashLink 1 := HashHead 632, HashHead 241 := HashLink 2, HashLink 2 := HashHead 241),
       lprev = id(HashHead 632 := HashLink 1, HashLink 1 := HashHead 632, HashHead 241 := HashLink 2, HashLink 2 := HashHead 241)\<rparr>,
     nr_process = 3, next_safe = MAX_PID, last_pid = 2\<rparr>"

definition demo_kids :: "nat \<Rightarrow> nat list" where
  "demo_kids p = (if p = 0 then [1] else if p = 1 then [2] else [])"

definition demo_buckets :: "nat \<Rightarrow> nat list" where
  "demo_buckets i = (if i = 632 then [1] else if i = 241 then [2] else [])"

lemma demo_hash: "pid_hashfn 1 = 632" "pid_hashfn 2 = 241"
  by code_simp+

lemma demo_family_simps [simp]:
  "cur (demo_family c s w s') = c" "idleproc (sched (demo_family c s w s')) = 0" "initproc (sched (demo_family c s w s')) = 1"
  "nr_process (demo_family c s w s') = 3" "last_pid (demo_family c s w s') = 2" "next_safe (demo_family c s w s') = MAX_PID"
  "state (pr (demo_family c s w s') p) = (if p = 0 then PROC_RUNNABLE else if p = 1 then s else if p = 2 then s' else PROC_UNINIT)"
  "wait_state (pr (demo_family c s w s') p) = (if p = 1 then w else 0)"
  "pid (pr (demo_family c s w s') p) = (if p = 1 then 1 else if p = 2 then 2 else 0)"
  "parent (pr (demo_family c s w s') p) = (if p = 1 then Some 0 else if p = 2 then Some 1 else None)"
  "cptr (pr (demo_family c s w s') p) = (if p = 0 then Some 1 else if p = 1 then Some 2 else None)"
  "optr (pr (demo_family c s w s') p) = None" "yptr (pr (demo_family c s w s') p) = None" "proc_struct.flags (pr (demo_family c s w s') p) = 0"
  "exit_code (pr (demo_family c s w s') p) = (if p = 2 then 7 else 0)"
  by (simp_all add: demo_family_def demo_kern_def demo_proc_def)

text \<open>At most the running one of the two is runnable, so the run queue is empty.\<close>

lemma demo_family_ok:
  assumes "c = 1 \<and> s = PROC_RUNNABLE \<and> w = 0 \<and> s' \<in> {PROC_SLEEPING, PROC_ZOMBIE} \<or> c = 2 \<and> s = PROC_SLEEPING \<and> s' = PROC_RUNNABLE"
  shows "ptab_ok (demo_family c s w s') [2, 1] demo_kids demo_buckets \<and> kin_ok (demo_family c s w s') [2, 1]"
proof -
  let ?t = "demo_family c s w s'"
  have "dll (proc_list ?t) ProcList (map ListLink [2, 1])" by (simp add: demo_family_def dll_def)
  moreover have "hash_ok ?t [2, 1] demo_buckets"
    by (auto simp: hash_ok_def demo_buckets_def demo_hash demo_family_def dll_def demo_proc_def)
  moreover have "pids_ok ?t [2, 1]" by (simp add: pids_ok_def pid_range_def MAX_PID_eq)
  ultimately have l: "lists_ok ?t [2, 1] demo_buckets" by (simp add: lists_ok_def)
  have f: "family_ok ?t [2, 1] demo_kids (\<lambda>_. None)" by (auto simp: family_ok_def demo_kids_def members_def)
  have "rr_wf (sched ?t) []" by (simp add: rr_wf_def demo_family_def demo_kern_def dll_def list_empty_def)
  moreover have "runnables (sched ?t) = {}" using assms by (auto simp: runnables_def)
  ultimately have "sched_inv rr_ok rr_queued (sched ?t)" using rr_wfD(3) by (fastforce simp: sched_inv_def rr_ok_def)
  then have "states_ok ?t [2, 1]" using assms by (auto simp: states_ok_def members_def)
  then have "ptab_ok ?t [2, 1] demo_kids demo_buckets" using l f assms by (auto simp: ptab_ok_def members_def demo_kids_def)
  then show ?thesis by (simp add: kin_ok_def)
qed

definition demo_image :: image where
  "demo_image = \<lparr>boot_pgdir = 20, bootstack = 21, forkret = 0x100, kernel_thread_entry = 0x200\<rparr>"

text \<open>Nine free frames; processes 1 and 2 have empty tables of files.\<close>

definition demo_files :: files_struct where
  "demo_files = \<lparr>pwd = None, fd_array = fd_array_init, files_count = 1\<rparr>"

definition demo_ksys :: "ptab \<Rightarrow> ksys" where
  "demo_ksys t = \<lparr>ptable = t, vm = demo_frames,
     fsys = \<lparr>nodes = vfs_none, vdev_list = [], bootfs_node = None, ftabs = [1 \<mapsto> demo_files, 2 \<mapsto> demo_files]\<rparr>,
     mms = (\<lambda>_. None), mm_of = (\<lambda>_. None), files_of = [1 \<mapsto> 1, 2 \<mapsto> 2], kstack = (\<lambda>_. None), pgdir_of = (\<lambda>_. None),
     tf_of = (\<lambda>_. \<lparr>gpr = (\<lambda>_. 0), tf_status = 0, tf_epc = 0, tf_tval = 0, tf_cause = 0\<rparr>),
     context_of = (\<lambda>_. \<lparr>ctx_ra = 0, ctx_sp = 0\<rparr>), satp = None\<rparr>"

definition demo_calls :: "nat \<Rightarrow> mem_calls" where
  "demo_calls p = \<lparr>proc_mem = Some p, mm_mem = p, area_mem = [], files_mem = Some p\<rparr>"

definition demo_boot :: ksys where
  "demo_boot = demo_ksys \<lparr>sched = (demo_kern 0 {})\<lparr>procs := (\<lambda>_. demo_proc PROC_UNINIT 0)\<rparr>, proc_list = \<lparr>lnext = id, lprev = id\<rparr>,
     hash_list = \<lparr>lnext = id, lprev = id\<rparr>, nr_process = 0, next_safe = MAX_PID, last_pid = MAX_PID\<rparr>"

lemma demo_boot_ok: "boot_ok (ptable demo_boot)"
proof -
  have "rr_wf (sched (ptable demo_boot)) []"
    by (simp add: rr_wf_def demo_boot_def demo_ksys_def demo_kern_def dll_def list_empty_def)
  then have "rr_ok (sched (ptable demo_boot))" "rr_queued (sched (ptable demo_boot)) = {}" using rr_wfD(3) by (fastforce simp: rr_ok_def)+
  then show ?thesis by (simp add: boot_ok_def demo_boot_def demo_ksys_def demo_proc_def)
qed

lemma demo_memory: "packed 0 9 (vm (demo_ksys t))"
  using demo_frames_ok(2) by (simp add: demo_ksys_def)

subsection \<open>The process table\<close>

text \<open>C1: If the first two kernel stacks can be allocated, \<^verbatim>\<open>proc_init\<close> returns, none of its assertions fails, and
  in every state that the processes can reach from there, whatever system calls they make in whatever order,
  the process table is intact: the list of processes, the hash lists and the count agree, numbers are unique and
  between 1 and the limit, the children of a process are exactly those whose parent it is, \<^verbatim>\<open>initproc\<close> is alive
  and the child of the idle process, the running process is runnable, and the run queue holds the others.\<close>

theorem processes_intact:
  assumes "boot_ok (ptable x)" and "proc_mem ai = Some idle" and "proc_mem a = Some p" and "p \<noteq> idle"
    and "files_mem ai = Some f0" and "files_mem a = Some f1" and "f1 \<noteq> f0" and "packed b h (vm x)" and "b + 2 \<le> h" and "h < 2 ^ 43"
  shows "\<exists>y. proc_init im ss f ai a x = Some y \<and> initproc (sched (ptable y)) = p \<and> me y = idle \<and> pid (pr (ptable y) p) = 1 \<and>
    (\<forall>z W. preach im (y, \<lambda>_. None) (z, W) \<longrightarrow> (\<exists>L K B. ptab_ok (ptable z) L K B \<and> kin_ok (ptable z) L))"
proof -
  obtain y where y: "proc_init im ss f ai a x = Some y"
    using proc_init_returns [OF assms] by blast
  have ne: "proc_mem a \<noteq> proc_mem ai" using assms(2-4) by simp
  have "\<exists>L K B. ptab_ok (ptable z) L K B \<and> kin_ok (ptable z) L" if "preach im (y, \<lambda>_. None) (z, W)" for z W
    using preach_inv [OF that proc_init_inv [OF assms(1) ne y]] by (auto simp: proc_inv_def)
  then show ?thesis using proc_init_table [OF assms(1) ne y] y assms(2,3) by auto
qed

lemma processes_intact_witness:
  "\<exists>y. proc_init demo_image 0 0x300 (demo_calls 4) (demo_calls 5) demo_boot = Some y \<and> initproc (sched (ptable y)) = 5 \<and> pid (pr (ptable y) 5) = 1 \<and>
    (\<exists>L K B. ptab_ok (ptable (y\<lparr>ptable := snd (do_yield (ptable y))\<rparr>)) L K B)"
proof -
  have c: "proc_mem (demo_calls n) = Some n" "files_mem (demo_calls n) = Some n" for n by (simp_all add: demo_calls_def)
  have m: "packed 0 9 (vm demo_boot)" using demo_memory by (simp add: demo_boot_def)
  from processes_intact [OF demo_boot_ok c(1) [of 4] c(1) [of 5] _ c(2) [of 4] c(2) [of 5] _ m, where im = demo_image and ss = 0 and f = "0x300"]
  obtain y where y: "proc_init demo_image 0 0x300 (demo_calls 4) (demo_calls 5) demo_boot = Some y" "initproc (sched (ptable y)) = 5"
    "pid (pr (ptable y) 5) = 1" "\<And>z W. preach demo_image (y, \<lambda>_. None) (z, W) \<Longrightarrow> \<exists>L K B. ptab_ok (ptable z) L K B"
    by (auto simp del: split_paired_All) blast
  have "preach demo_image (y, \<lambda>_. None) (y\<lparr>ptable := snd (do_yield (ptable y))\<rparr>, \<lambda>_. None)"
    by (rule preach.step [OF preach.start pstep.yielding]) simp
  then show ?thesis using y by blast
qed

text \<open>C2: No process sleeps in \<^verbatim>\<open>do_wait\<close> for nothing.  Whenever a process is asleep there, in whatever order
  forks, exits, waits, kills, ticks, wakeups and scheduler calls have happened, it still has a child that it waits
  for, and none of these children is a zombie: an exit never gets lost between the look at the children and the
  sleep, also when a child has been handed over from a process that exited.\<close>

theorem no_missed_child:
  assumes "proc_inv s" and "preach im s (x, W)" and "wait_state (pr (ptable x) p) = WT_CHILD" and "\<not> unused (ptable x) p"
  shows "\<exists>n store. W p = Some (n, store) \<and>
    (\<exists>q. \<not> unused (ptable x) q \<and> parent (pr (ptable x) q) = Some p \<and> (n = 0 \<or> pid (pr (ptable x) q) = n)) \<and>
    (\<forall>q. \<not> unused (ptable x) q \<and> parent (pr (ptable x) q) = Some p \<and> (n = 0 \<or> pid (pr (ptable x) q) = n) \<and>
      q \<noteq> idleproc (sched (ptable x)) \<longrightarrow> state (pr (ptable x) q) \<noteq> PROC_ZOMBIE)"
proof -
  from preach_inv [OF assms(2,1)] obtain L K B where i: "ptab_ok (ptable x) L K B" "waits_ok (ptable x) L K W" by (auto simp: proc_inv_def)
  note d = ptab_okD [OF i(1)]
  have p: "p \<in> members (ptable x) L" by (rule usedD [OF assms(4) i(1)])
  from waits_okD(1) [OF i(2) p assms(3)] obtain n store where n: "W p = Some (n, store)" "awaited n (ptable x) K p \<noteq> {}"
    "\<forall>q \<in> awaited n (ptable x) K p. state (pr (ptable x) q) \<noteq> PROC_ZOMBIE" by blast
  have a: "awaited n (ptable x) K p = {q \<in> set L. parent (pr (ptable x) q) = Some p \<and> (n = 0 \<or> pid (pr (ptable x) q) = n)}"
    using d(10) [OF p] by (auto simp: awaited_def)
  have u: "\<not> unused (ptable x) q" if "q \<in> set L" for q using unusedD [OF _ i(1)] d(9) [OF that] by blast
  have l: "q \<in> set L" if "\<not> unused (ptable x) q" "q \<noteq> idleproc (sched (ptable x))" for q
    using usedD [OF that(1) i(1)] that(2) by (simp add: members_def)
  show ?thesis using n u l unfolding a by blast
qed

definition demo_waits :: waits where "demo_waits = [1 \<mapsto> (0, None)]"

lemma demo_waiting: "proc_inv (demo_ksys (demo_family 2 PROC_SLEEPING WT_CHILD PROC_RUNNABLE), demo_waits)"
proof (rule proc_invI)
  show "ptab_ok (ptable (demo_ksys (demo_family 2 PROC_SLEEPING WT_CHILD PROC_RUNNABLE))) [2, 1] demo_kids demo_buckets"
    "kin_ok (ptable (demo_ksys (demo_family 2 PROC_SLEEPING WT_CHILD PROC_RUNNABLE))) [2, 1]"
    using demo_family_ok by (simp_all add: demo_ksys_def)
  show "waits_ok (ptable (demo_ksys (demo_family 2 PROC_SLEEPING WT_CHILD PROC_RUNNABLE))) [2, 1] demo_kids demo_waits"
    using WT_CHILD_nonzero by (auto simp: waits_ok_def demo_ksys_def demo_waits_def awaited_def demo_kids_def members_def)
qed

lemma no_missed_child_witness:
  "\<exists>q. parent (pr (lab6_set_priority 3 (demo_family 2 PROC_SLEEPING WT_CHILD PROC_RUNNABLE)) q) = Some 1"
proof -
  let ?x = "demo_ksys (demo_family 2 PROC_SLEEPING WT_CHILD PROC_RUNNABLE)"
  let ?y = "?x\<lparr>ptable := lab6_set_priority 3 (ptable ?x)\<rparr>"
  have r: "preach demo_image (?x, demo_waits) (?y, demo_waits)"
    by (rule preach.step [OF preach.start pstep.priority]) (simp add: demo_waits_def demo_ksys_def)
  have e: "proc_list (ptable ?y) = proc_list (demo_family 2 PROC_SLEEPING WT_CHILD PROC_RUNNABLE)" "idleproc (sched (ptable ?y)) = 0"
    by (simp_all add: lab6_set_priority_def demo_ksys_def)
  have "dll (proc_list (ptable ?y)) ProcList (map ListLink [2, 1])" using demo_family_ok [of 2 PROC_SLEEPING WT_CHILD PROC_RUNNABLE]
    unfolding e by (simp add: ptab_ok_def lists_ok_def)
  then have "\<not> unused (ptable ?y) 1" unfolding unused_def by (auto simp: members_def simp del: list.map intro!: exI [of _ "[2, 1]"])
  with no_missed_child [OF demo_waiting r, of 1] show ?thesis by (auto simp: lab6_set_priority_def demo_ksys_def)
qed

subsection \<open>Numbers\<close>

text \<open>C6: \<^verbatim>\<open>get_pid\<close> returns on every intact table that is not over-full, with a number within the limits that
  no process has and \<^verbatim>\<open>find_proc\<close> does not find; it is the one the next fork counts on from.\<close>

theorem get_pid_returns_free:
  assumes "ptab_ok t L K B" and "nr_process t \<le> MAX_PROCESS"
  shows "\<exists>n t'. get_pid t = Some (n, t') \<and> 0 < n \<and> n < MAX_PID \<and> (\<forall>p \<in> set L. pid (pr t p) \<noteq> n) \<and>
    find_proc n t = Some None \<and> last_pid t' = n \<and> sched t' = sched t \<and> ptab_ok t' L K B"
proof -
  have b: "ptab_base t L K B" "init_ok t L" using assms(1) by (simp_all add: ptab_ok_iff)
  from get_pid_tab [OF b(1) assms(2)] obtain n t' where g: "get_pid t = Some (n, t')" "ptab_base t' L K B" "n \<in> pid_range"
    "n \<notin> (\<lambda>p. pid (pr t p)) ` set L" "last_pid t' = n" "sched t' = sched t" by blast
  from find_tab_ok [OF assms(1), of n] obtain r where r: "find_proc n t = Some r"
    "case r of None \<Rightarrow> n \<notin> (\<lambda>p. pid (pr t p)) ` set L | Some p \<Rightarrow> p \<in> set L \<and> pid (pr t p) = n" by blast
  have "r = None" using r(2) g(4) by (cases r) auto
  then have "find_proc n t = Some None" using r(1) by simp
  moreover have "\<forall>p \<in> set L. pid (pr t p) \<noteq> n" using g(4) by blast
  moreover have "ptab_ok t' L K B" using g(2,6) b(2) by (simp add: ptab_ok_iff init_ok_def)
  ultimately show ?thesis using g(1,3,5,6) by (auto simp: pid_range_def)
qed

lemma get_pid_returns_free_witness: "\<exists>n t'. get_pid (demo_family 2 PROC_SLEEPING WT_CHILD PROC_RUNNABLE) = Some (n, t') \<and> n \<noteq> 1 \<and> n \<noteq> 2"
proof -
  have "ptab_ok (demo_family 2 PROC_SLEEPING WT_CHILD PROC_RUNNABLE) [2, 1] demo_kids demo_buckets" using demo_family_ok by simp
  from get_pid_returns_free [OF this] show ?thesis by (auto simp: MAX_PROCESS_def)
qed

subsection \<open>Fork\<close>

lemma keeps_frames:
  "copy_files fl p a x = Some (r, y) \<Longrightarrow> tf_of y = tf_of x \<and> context_of y = context_of x"
  by (auto simp: copy_files_def share_files_def Option.bind_eq_Some_conv split: option.splits if_splits prod.splits)

text \<open>C5: \<^verbatim>\<open>do_fork\<close> either reports that there is no room, and then no process has changed, or enters exactly one new
  process, runnable, the youngest child of the caller, with a number that no other process has and that is returned; the
  child starts in \<^verbatim>\<open>forkret\<close> with a copy of the given registers in which the return value is 0.  All other processes
  keep number, parent, state and flags, and the table is again intact.\<close>

theorem fork_outcome:
  assumes "ptab_ok (ptable x) L K B" and "\<And>p. proc_mem a = Some p \<Longrightarrow> p \<notin> members (ptable x) L"
    and "do_fork im fl stack tf a x = Some (ret, y)"
  shows "same_on (members (ptable x) L) (ptable x) (ptable y) \<and>
    (ret \<in> {- E_NO_FREE_PROC, - E_NO_MEM} \<and> ptab_ok (ptable y) L K B \<and> nr_process (ptable y) = nr_process (ptable x) \<or>
     (\<exists>p B'. proc_mem a = Some p \<and> 0 < ret \<and> ret < MAX_PID \<and> ret \<notin> (\<lambda>q. pid (pr (ptable x) q)) ` set L \<and> pid (pr (ptable y) p) = ret \<and>
       state (pr (ptable y) p) = PROC_RUNNABLE \<and> parent (pr (ptable y) p) = Some (me x) \<and> nr_process (ptable y) = nr_process (ptable x) + 1 \<and>
       ptab_ok (ptable y) (p # L) (K(me x := p # K (me x), p := [])) B' \<and>
       gpr (tf_of y p) 10 = 0 \<and> (\<forall>i. i \<noteq> 2 \<and> i \<noteq> 10 \<longrightarrow> gpr (tf_of y p) i = gpr tf i) \<and> tf_epc (tf_of y p) = tf_epc tf \<and>
       ctx_ra (context_of y p) = forkret im))"
proof -
  have b: "ptab_base (ptable x) L K B" "init_ok (ptable x) L" using assms(1) by (simp_all add: ptab_ok_iff)
  have i: "init_ok (ptable y) L'" if "same_on (members (ptable x) L) (ptable x) (ptable y)" "set L \<subseteq> set L'" for L'
    using that b(2) by (auto simp: init_ok_def same_on_def members_def)
  have frame: "ret \<in> {- E_NO_FREE_PROC, - E_NO_MEM} \<or> (\<exists>p. proc_mem a = Some p \<and> gpr (tf_of y p) 10 = 0 \<and>
      (\<forall>i. i \<noteq> 2 \<and> i \<noteq> 10 \<longrightarrow> gpr (tf_of y p) i = gpr tf i) \<and> tf_epc (tf_of y p) = tf_epc tf \<and> ctx_ra (context_of y p) = forkret im)"
    using assms(3)
  proof (cases rule: do_fork_cases)
    case (made p t x1 x2 x3 n t3 x5 t5 t6)
    have "proc_mem a = Some p" using made(2) by (auto simp: alloc_proc_def split: option.splits)
    moreover have "tf_of y = tf_of x3" "context_of y = context_of x3" using keeps_frames [OF made(7)] made(11) by simp_all
    ultimately show ?thesis using made(5) by (auto simp: copy_thread_def Let_def Option.bind_eq_Some_conv)
  qed simp_all
  from do_fork_table [OF b(1) assms(2,3)] consider
    (failed) "ret < 0" "ptab_base (ptable y) L K B" "nr_process (ptable y) = nr_process (ptable x)" "same_on (members (ptable x) L) (ptable x) (ptable y)"
    | (made) p where "proc_mem a = Some p" "forked (ptable x) L K p ret (ptable y)" by blast
  then show ?thesis
  proof cases
    case failed
    have "ret \<in> {- E_NO_FREE_PROC, - E_NO_MEM}" using assms(3) failed(1)
    proof (cases rule: do_fork_cases)
      case (made p t x1 x2 x3 n t3 x5 t5 t6)
      have "nr_process t6 = nr_process (ptable x5) + 1" using made(8,9)
        by (auto simp: set_links_def wake_def hash_proc_def Let_def Option.bind_eq_Some_conv split: option.splits)
      moreover have "nr_process (ptable x5) = nr_process t3" using copy_files_table [OF made(7)] by simp
      moreover have "nr_process t3 = nr_process (ptable x3)" using made(6) by (auto simp: get_pid_def Let_def Option.bind_eq_Some_conv split: if_splits)
      moreover have "ptable x3 = fork_start p t" using keeps_table(1) [OF made(3)] keeps_table(5) [OF made(5)] copy_mm_table [OF made(4)] by simp
      moreover have "nr_process (fork_start p t) = nr_process (ptable x)" using made(2)
        by (auto simp: fork_start_def Let_def alloc_proc_def split: option.splits)
      ultimately show ?thesis using failed(3) made(11) by simp
    qed simp_all
    then show ?thesis using failed i [OF failed(4), of L] by (simp add: ptab_ok_iff)
  next
    case (made p)
    then obtain B' where f: "ret \<in> pid_range" "ptab_base (ptable y) (p # L) (K(me x := p # K (me x), p := [])) B'" "same_on (members (ptable x) L) (ptable x) (ptable y)"
      by (auto simp: forked_def)
    have "ptab_ok (ptable y) (p # L) (K(me x := p # K (me x), p := [])) B'" using f(2) i [OF f(3), of "p # L"] by (auto simp: ptab_ok_iff)
    moreover have "0 < ret" "ret < MAX_PID" using f(1) by (simp_all add: pid_range_def)
    ultimately show ?thesis using frame made f(3) by (auto simp: forked_def)
  qed
qed

lemma fork_outcome_witness:
  "\<exists>ret y. do_fork demo_image 0 0 \<lparr>gpr = (\<lambda>_. 9), tf_status = 0, tf_epc = 0x400, tf_tval = 0, tf_cause = 8\<rparr> (demo_calls 3)
      (demo_ksys (demo_family 2 PROC_SLEEPING 0 PROC_RUNNABLE)) = Some (ret, y) \<and>
    0 < ret \<and> pid (pr (ptable y) 3) = ret \<and> parent (pr (ptable y) 3) = Some 2 \<and> gpr (tf_of y 3) 10 = 0 \<and> gpr (tf_of y 3) 8 = 9"
proof -
  let ?x = "demo_ksys (demo_family 2 PROC_SLEEPING 0 PROC_RUNNABLE)"
    and ?tf = "\<lparr>gpr = (\<lambda>_. 9), tf_status = 0, tf_epc = 0x400, tf_tval = 0, tf_cause = 8\<rparr>"
  have ok: "ptab_ok (ptable ?x) [2, 1] demo_kids demo_buckets" using demo_family_ok by (simp add: demo_ksys_def)
  have new: "3 \<notin> members (ptable ?x) [2, 1]" by (simp add: members_def demo_ksys_def)
  have none: "status e \<noteq> FD_OPENED" if "e \<in> set fd_array_init" for e using that by (auto simp: fd_array_init_def)
  have "ptab_base (ptable ?x) [2, 1] demo_kids demo_buckets" using ok by (simp add: ptab_ok_iff)
  from fork_returns [OF this _ _ new demo_memory, of "demo_calls 3" 2 demo_files 3 0 demo_image 0 ?tf] none
  obtain ret y where y: "do_fork demo_image 0 0 ?tf (demo_calls 3) ?x = Some (ret, y)" "ret \<in> pid_range"
    by (auto simp: forked_def demo_calls_def demo_ksys_def demo_files_def MAX_PROCESS_def fd_array_init_def)
  have "proc_mem (demo_calls 3) = Some p \<Longrightarrow> p \<notin> members (ptable ?x) [2, 1]" for p using new by (simp add: demo_calls_def)
  from fork_outcome [OF ok this y(1)] y show ?thesis by (auto simp: pid_range_def demo_calls_def demo_ksys_def)
qed

subsection \<open>Exit and wait\<close>

text \<open>C3: The part of \<^verbatim>\<open>do_exit\<close> that works on the table never fails.  The caller becomes a zombie that keeps its
  exit code, its number and its place with its parent, another process runs, and the table is intact.  Exactly the
  children of the caller become children of \<^verbatim>\<open>initproc\<close>.  Exactly two processes may be woken, and only out of
  \<^verbatim>\<open>do_wait\<close>: the parent becomes runnable if it sleeps there, and \<^verbatim>\<open>initproc\<close> if it sleeps there and one of the children
  it gets is a zombie.  No other process changes its state or what it waits for (a parent that sleeps for anything else
  sleeps on), and no other process changes its exit code, and none its number or its flags.  (\<open>kin_ok\<close>, part of the
  invariant of all reachable states: the parent of \<^verbatim>\<open>initproc\<close> is the idle process, and nobody is its own parent.)\<close>

theorem exit_hands_over:
  assumes "ptab_ok t L K B" and "kin_ok t L" and "cur t \<noteq> idleproc (sched t)" and "cur t \<noteq> initproc (sched t)"
  shows "\<exists>t' c. exit_links code t = Some t' \<and> ptab_ok t' L (K(cur t := [], initproc (sched t) := rev (K (cur t)) @ K (initproc (sched t)))) B \<and>
    parent (pr t (cur t)) = Some c \<and> c \<noteq> cur t \<and> cur t' \<noteq> cur t \<and>
    state (pr t' (cur t)) = PROC_ZOMBIE \<and> exit_code (pr t' (cur t)) = code \<and>
    (\<forall>q. parent (pr t' q) = (if q \<in> set L \<and> parent (pr t q) = Some (cur t) then Some (initproc (sched t)) else parent (pr t q))) \<and>
    (\<forall>q. pid (pr t' q) = pid (pr t q) \<and> proc_struct.flags (pr t' q) = proc_struct.flags (pr t q)) \<and>
    (\<forall>q. q \<noteq> cur t \<longrightarrow> exit_code (pr t' q) = exit_code (pr t q) \<and>
       (if wait_state (pr t q) = WT_CHILD \<and>
           (q = c \<or> q = initproc (sched t) \<and> (\<exists>r \<in> set L. parent (pr t r) = Some (cur t) \<and> state (pr t r) = PROC_ZOMBIE))
        then state (pr t' q) = PROC_RUNNABLE \<and> wait_state (pr t' q) = 0
        else state (pr t' q) = state (pr t q) \<and> wait_state (pr t' q) = wait_state (pr t q)))"
proof -
  let ?ini = "initproc (sched t)" and ?t1 = "set_proc (cur t) (\<lambda>q. q\<lparr>state := PROC_ZOMBIE, exit_code := code\<rparr>) t"
  note d = ptab_okD [OF assms(1)]
  have k: "set (K (cur t)) = {q \<in> set L. parent (pr t q) = Some (cur t)}" using d(10) [OF d(6)] .
  have own: "cur t \<notin> set (K (cur t))" using k assms(2) by (auto simp: kin_ok_def)
  from exit_links_ok [OF assms(1,3,4), of code] obtain t' c where e: "exit_links code t = Some t'"
    "ptab_ok t' L (K(cur t := [], ?ini := rev (K (cur t)) @ K ?ini)) B"
    "parent (pr t (cur t)) = Some c" "wait_state (pr t' c) \<noteq> WT_CHILD" "state (pr t' (cur t)) = PROC_ZOMBIE" "exit_code (pr t' (cur t)) = code"
    "(\<exists>q \<in> set (K (cur t)). state (pr t q) = PROC_ZOMBIE) \<longrightarrow> wait_state (pr t' ?ini) \<noteq> WT_CHILD"
    "\<forall>p. parent (pr t' p) = (if p \<in> set (K (cur t)) then Some ?ini else parent (pr t p))"
    "roused {c, ?ini} ?t1 t'"
    "\<forall>p. p \<noteq> cur t \<longrightarrow> wait_state (pr t p) = WT_CHILD \<and> (p = c \<or> p = ?ini \<and> (\<exists>q \<in> set (K (cur t)). q = cur t \<or> state (pr t q) = PROC_ZOMBIE)) \<or>
       state (pr t' p) = state (pr t p) \<and> wait_state (pr t' p) = wait_state (pr t p)" by blast
  have z: "(\<exists>q \<in> set (K (cur t)). q = cur t \<or> state (pr t q) = PROC_ZOMBIE) \<longleftrightarrow>
      (\<exists>r \<in> set L. parent (pr t r) = Some (cur t) \<and> state (pr t r) = PROC_ZOMBIE)"
    "(\<exists>q \<in> set (K (cur t)). state (pr t q) = PROC_ZOMBIE) \<longleftrightarrow>
      (\<exists>r \<in> set L. parent (pr t r) = Some (cur t) \<and> state (pr t r) = PROC_ZOMBIE)" using own k by auto
  have "cur t \<in> set L" using d(6) assms(3) by (simp add: members_def)
  then have c: "c \<noteq> cur t" using e(3) assms(2) by (auto simp: kin_ok_def)
  have woken: "state (pr t' q) = PROC_RUNNABLE \<and> wait_state (pr t' q) = 0"
    if "wait_state (pr t q) = WT_CHILD" "q \<noteq> cur t" "wait_state (pr t' q) \<noteq> WT_CHILD" for q
    using rousedD(7) [OF e(9), of q] that by simp
  have "cur t' \<noteq> cur t" using ptab_okD(7) [OF e(2)] e(5) by auto
  moreover have "pid (pr t' q) = pid (pr t q) \<and> proc_struct.flags (pr t' q) = proc_struct.flags (pr t q)" for q using rousedD(4,5) [OF e(9), of q] by simp
  moreover have "exit_code (pr t' q) = exit_code (pr t q)" if "q \<noteq> cur t" for q using rousedD(6) [OF e(9), of q] that by simp
  moreover have "if wait_state (pr t q) = WT_CHILD \<and> (q = c \<or> q = ?ini \<and> (\<exists>r \<in> set L. parent (pr t r) = Some (cur t) \<and> state (pr t r) = PROC_ZOMBIE))
      then state (pr t' q) = PROC_RUNNABLE \<and> wait_state (pr t' q) = 0
      else state (pr t' q) = state (pr t q) \<and> wait_state (pr t' q) = wait_state (pr t q)" if "q \<noteq> cur t" for q
    using woken [of q] that e(4,7,10) unfolding z by (simp split: if_split) blast
  moreover have "\<forall>q. parent (pr t' q) = (if q \<in> set L \<and> parent (pr t q) = Some (cur t) then Some ?ini else parent (pr t q))"
    using e(8) unfolding k by simp
  ultimately show ?thesis using e(1-3,5,6) c by blast
qed

lemma exit_hands_over_witness:
  "\<exists>t'. exit_links 7 (demo_family 2 PROC_SLEEPING WT_CHILD PROC_RUNNABLE) = Some t' \<and> state (pr t' 2) = PROC_ZOMBIE \<and> exit_code (pr t' 2) = 7 \<and>
    state (pr t' 1) = PROC_RUNNABLE \<and> wait_state (pr t' 1) = 0"
proof -
  have "ptab_ok (demo_family 2 PROC_SLEEPING WT_CHILD PROC_RUNNABLE) [2, 1] demo_kids demo_buckets \<and>
      kin_ok (demo_family 2 PROC_SLEEPING WT_CHILD PROC_RUNNABLE) [2, 1]" using demo_family_ok by simp
  from exit_hands_over [OF conjunct1 [OF this] conjunct2 [OF this], of 7] show ?thesis by (auto dest!: spec [of _ 1])
qed

text \<open>A stack whose frames are in use and do not lie behind the last free block is given back.\<close>

lemma put_kstack_ok:
  assumes "pmm_ok (vmem.frames (vm x))" "kstack x q = Some k" "pmm_returnable k KSTACKPAGE (vmem.frames (vm x))"
  shows "\<exists>v. put_kstack q x = Some (x\<lparr>vm := v\<rparr>) \<and> pmm_ok (vmem.frames v) \<and> vfree v = vfree (vm x) \<union> {k ..< k + KSTACKPAGE}"
proof -
  from ff.free_ok [OF assms(1,3)] obtain f where "default_free_pages k KSTACKPAGE (vmem.frames (vm x)) = Some f" "pmm_ok f"
    "pmm_free_of f = pmm_free_of (vmem.frames (vm x)) \<union> {k ..< k + KSTACKPAGE}" by blast
  then show ?thesis using assms(2)
    by (intro exI [of _ "(vm x)\<lparr>vmem.frames := f\<rparr>"]) (simp add: put_kstack_def free_pages_def default_pmm_manager_def vfree_def)
qed

text \<open>C4: A round of \<^verbatim>\<open>do_wait\<close> always returns, and does exactly one of three things.  Without a child of the asked
  number it reports an error and changes nothing.  With such children but no zombie among them the caller goes to sleep,
  another process runs and the others are as they were.  With a zombie it takes one of them out of the table, which loses nothing else and stays
  intact, gives back the two frames of its stack and no other, and returns 0 with its exit code for the given address.
  (The stacks of the zombies waited for are in use and not behind the last free block; \<^verbatim>\<open>default_free_pages\<close> breaks its
  list otherwise.)\<close>

theorem wait_outcome:
  fixes n :: int
  assumes "ptab_ok (ptable x) L K B" and "me x \<noteq> idleproc (sched (ptable x))" and "pmm_ok (vmem.frames (vm x))"
  defines "T \<equiv> {q \<in> set L. parent (pr (ptable x) q) = Some (me x) \<and> (n = 0 \<or> pid (pr (ptable x) q) = n)}"
  assumes "\<forall>q \<in> T. state (pr (ptable x) q) = PROC_ZOMBIE \<longrightarrow> (\<exists>k. kstack x q = Some k \<and> pmm_returnable k KSTACKPAGE (vmem.frames (vm x)))"
  shows "(T = {} \<longrightarrow> wait_round n store x = Some (Returned (- E_BAD_PROC) None, x)) \<and>
    (T \<noteq> {} \<and> (\<forall>q \<in> T. state (pr (ptable x) q) \<noteq> PROC_ZOMBIE) \<longrightarrow> (\<exists>y. wait_round n store x = Some (Slept, y) \<and>
       ptab_ok (ptable y) L K B \<and> state (pr (ptable y) (me x)) = PROC_SLEEPING \<and> wait_state (pr (ptable y) (me x)) = WT_CHILD \<and> me y \<noteq> me x \<and>
       (\<forall>q. q \<noteq> me x \<longrightarrow> state (pr (ptable y) q) = state (pr (ptable x) q) \<and> wait_state (pr (ptable y) q) = wait_state (pr (ptable x) q)))) \<and>
    ((\<exists>q \<in> T. state (pr (ptable x) q) = PROC_ZOMBIE) \<longrightarrow> (\<exists>q k t v B'. q \<in> T \<and> state (pr (ptable x) q) = PROC_ZOMBIE \<and> kstack x q = Some k \<and>
       wait_round n store x = Some (Returned 0 (map_option (\<lambda>addr. (addr, exit_code (pr (ptable x) q))) store), x\<lparr>ptable := t, vm := v\<rparr>) \<and>
       pmm_ok (vmem.frames v) \<and> vfree v = vfree (vm x) \<union> {k ..< k + KSTACKPAGE} \<and>
       ptab_ok t (remove1 q L) (K(me x := remove1 q (K (me x)))) B' \<and> nr_process t = nr_process (ptable x) - 1 \<and> cur t = me x \<and>
       (\<forall>p. parent (pr t p) = parent (pr (ptable x) p) \<and> state (pr t p) = state (pr (ptable x) p) \<and> pid (pr t p) = pid (pr (ptable x) p))))"
proof -
  note ok = assms(1)
  have T: "awaited n (ptable x) K (me x) = T" using ptab_okD(10) [OF ok ptab_okD(6) [OF ok]] by (auto simp: T_def awaited_def)
  from wait_scan_ok [OF ok, of n] obtain w where w: "wait_scan n (ptable x) = Some w"
    "case w of Found q \<Rightarrow> q \<in> T \<and> state (pr (ptable x) q) = PROC_ZOMBIE
    | Only_Live \<Rightarrow> T \<noteq> {} \<and> (\<forall>q \<in> T. state (pr (ptable x) q) \<noteq> PROC_ZOMBIE) | No_Child \<Rightarrow> T = {}" unfolding T by blast
  show ?thesis
  proof (cases w)
    case No_Child
    then show ?thesis using w by (simp add: wait_round_def)
  next
    case Only_Live
    from block_ok [OF ok assms(2) refl, of WT_CHILD] obtain t where t: "sleep_child (ptable x) = Some t" "ptab_ok t L K B"
      "roused {} (set_proc (me x) (\<lambda>q. q\<lparr>state := PROC_SLEEPING, wait_state := WT_CHILD\<rparr>) (ptable x)) t" by (auto simp: sleep_child_def)
    have s: "state (pr t (me x)) = PROC_SLEEPING" "wait_state (pr t (me x)) = WT_CHILD" using rousedD(7) [OF t(3), of "me x"] by simp_all
    have f: "state (pr t q) = state (pr (ptable x) q) \<and> wait_state (pr t q) = wait_state (pr (ptable x) q)" if "q \<noteq> me x" for q
      using rousedD(7) [OF t(3), of q] that by simp
    have "cur t \<noteq> me x" using s ptab_okD(7) [OF t(2)] by auto
    with f show ?thesis using w Only_Live t s by (simp add: wait_round_def)
  next
    case (Found q)
    then have q: "q \<in> T" "state (pr (ptable x) q) = PROC_ZOMBIE" using w(2) by simp_all
    then have "q \<in> set (K (me x))" using T by (auto simp: awaited_def)
    from reap_links_ok [OF ok this q(2)] obtain t B' where t: "reap_links q (ptable x) = Some t"
      "ptab_ok t (remove1 q L) (K(me x := remove1 q (K (me x)))) B'" "relinked (ptable x) t" "\<forall>p. parent (pr t p) = parent (pr (ptable x) p)"
      "nr_process t = nr_process (ptable x) - 1" by blast
    from assms(5) q obtain k where k: "kstack x q = Some k" "pmm_returnable k KSTACKPAGE (vmem.frames (vm x))" by blast
    then obtain v where v: "put_kstack q (x\<lparr>ptable := t\<rparr>) = Some (x\<lparr>ptable := t, vm := v\<rparr>)" "pmm_ok (vmem.frames v)"
      "vfree v = vfree (vm x) \<union> {k ..< k + KSTACKPAGE}" using put_kstack_ok [of "x\<lparr>ptable := t\<rparr>" q k] assms(3) by auto
    have r: "wait_round n store x = Some (Returned 0 (map_option (\<lambda>addr. (addr, exit_code (pr (ptable x) q))) store), x\<lparr>ptable := t, vm := v\<rparr>)"
      using w(1) Found t(1) v(1) by (simp add: wait_round_def)
    have "T \<noteq> {}" "\<not> (\<forall>q \<in> T. state (pr (ptable x) q) \<noteq> PROC_ZOMBIE)" using q by auto
    moreover have "\<forall>p. parent (pr t p) = parent (pr (ptable x) p) \<and> state (pr t p) = state (pr (ptable x) p) \<and> pid (pr t p) = pid (pr (ptable x) p)"
      "cur t = me x" using t(4) relinked_simps [OF t(3)] by simp_all
    ultimately show ?thesis using q r t(2,5) k(1) v(2,3) by blast
  qed
qed

text \<open>The family with a stack of two frames for the zombie, in a memory whose frames above them are free.\<close>

definition demo_stack :: ksys where
  "demo_stack = (demo_ksys (demo_family 1 PROC_RUNNABLE 0 PROC_ZOMBIE))\<lparr>kstack := [2 \<mapsto> 0],
     vm := demo_frames\<lparr>vmem.frames := take_block 2 0 demo_full\<rparr>\<rparr>"

lemma demo_stack_frames:
  "pmm_wf (vmem.frames (vm demo_stack)) [(2, 8)]" "pmm_returnable 0 KSTACKPAGE (vmem.frames (vm demo_stack))" "vfree (vm demo_stack) = {2 ..< 10}"
proof -
  show wf: "pmm_wf (vmem.frames (vm demo_stack)) [(2, 8)]" using default_alloc_refines [OF demo_full_wf, of 2] by (simp add: demo_stack_def flip: numeral_2_eq_2)
  have "in_use 0 2 (take_block 2 0 demo_full)" by code_simp
  then show "pmm_returnable 0 KSTACKPAGE (vmem.frames (vm demo_stack))"
    using wf unfolding pmm_returnable_def by (auto simp: demo_stack_def KSTACKPAGE_def fits_def not_tail_def intro!: exI [of _ "[(2, 8)]"])
  show "vfree (vm demo_stack) = {2 ..< 10}" by (auto simp: vfree_def pmm_free_of_eq [OF wf] free_set_def block_pages_def)
qed

lemma wait_outcome_witness:
  "\<exists>t v. wait_round 0 (Some 0x1000) demo_stack = Some (Returned 0 (Some (0x1000, 7)), demo_stack\<lparr>ptable := t, vm := v\<rparr>) \<and>
      nr_process t = 2 \<and> vfree v = {0 ..< 10}"
proof -
  let ?x = demo_stack
  have ok: "ptab_ok (ptable ?x) [2, 1] demo_kids demo_buckets" using demo_family_ok by (simp add: demo_stack_def demo_ksys_def)
  have i: "me ?x \<noteq> idleproc (sched (ptable ?x))" by (simp add: demo_stack_def demo_ksys_def)
  have m: "pmm_ok (vmem.frames (vm ?x))" using demo_stack_frames(1) by (auto simp: pmm_ok_def)
  have T: "{q \<in> set [2, 1]. parent (pr (ptable ?x) q) = Some (me ?x) \<and> (0 = (0 :: int) \<or> pid (pr (ptable ?x) q) = 0)} = {2}"
    by (auto simp: demo_stack_def demo_ksys_def)
  have s: "kstack ?x 2 = Some 0" "state (pr (ptable ?x) 2) = PROC_ZOMBIE" "exit_code (pr (ptable ?x) 2) = 7" "nr_process (ptable ?x) = 3"
    by (simp_all add: demo_stack_def demo_ksys_def)
  have "{2 ..< 10} \<union> {0 ..< 0 + KSTACKPAGE} = {0 ..< (10 :: nat)}" by (auto simp: KSTACKPAGE_def)
  then show ?thesis using wait_outcome [OF ok i m, of 0 "Some 0x1000", unfolded T] s demo_stack_frames(2,3) by auto
qed

subsection \<open>Kill\<close>

text \<open>C7: \<^verbatim>\<open>do_kill\<close> always returns: with an error and no change if no process has the number or the process is
  already marked, and otherwise it marks exactly that process, and wakes it if it sleeps in a way that may be
  interrupted.\<close>

theorem kill_outcome:
  assumes "ptab_ok t L K B"
  shows "\<exists>ret t'. do_kill n t = Some (ret, t') \<and> ptab_ok t' L K B \<and> cur t' = cur t \<and>
    (if \<forall>p \<in> set L. pid (pr t p) \<noteq> n then ret = - E_INVAL \<and> t' = t
     else \<exists>p \<in> set L. pid (pr t p) = n \<and>
       (if proc_struct.flags (pr t p) AND PF_EXITING \<noteq> 0 then ret = - E_KILLED \<and> t' = t
        else ret = 0 \<and> proc_struct.flags (pr t' p) = proc_struct.flags (pr t p) OR PF_EXITING \<and>
          (if wait_state (pr t p) AND WT_INTERRUPTED \<noteq> 0 then state (pr t' p) = PROC_RUNNABLE \<and> wait_state (pr t' p) = 0
           else state (pr t' p) = state (pr t p) \<and> wait_state (pr t' p) = wait_state (pr t p)) \<and>
          (\<forall>q. q \<noteq> p \<longrightarrow> proc_struct.flags (pr t' q) = proc_struct.flags (pr t q) \<and> state (pr t' q) = state (pr t q) \<and>
             wait_state (pr t' q) = wait_state (pr t q))))"
proof -
  have i: "n \<notin> (\<lambda>p. pid (pr t p)) ` set L \<longleftrightarrow> (\<forall>p \<in> set L. pid (pr t p) \<noteq> n)" by auto
  show ?thesis using do_kill_ok [OF assms, of n] unfolding i by (elim exE conjE) (intro exI conjI)
qed

lemma kill_outcome_witness:
  "\<exists>t'. do_kill 1 (demo_family 2 PROC_SLEEPING WT_CHILD PROC_RUNNABLE) = Some (0, t') \<and> state (pr t' 1) = PROC_RUNNABLE \<and>
    proc_struct.flags (pr t' 1) = PF_EXITING"
proof -
  have ok: "ptab_ok (demo_family 2 PROC_SLEEPING WT_CHILD PROC_RUNNABLE) [2, 1] demo_kids demo_buckets" using demo_family_ok by simp
  have "WT_CHILD AND WT_INTERRUPTED \<noteq> 0" by (simp add: WT_CHILD_def WT_INTERRUPTED_def)
  then show ?thesis using kill_outcome [OF ok, of 1] by (auto split: if_splits)
qed

text \<open>Nothing protects \<^verbatim>\<open>initproc\<close>: marked, it exits when it wakes up in \<^verbatim>\<open>do_wait\<close>, and the kernel panics.\<close>

lemma killed_init_panics:
  "me x = initproc (sched (ptable x)) \<Longrightarrow> proc_struct.flags (pr (ptable x) (me x)) AND PF_EXITING \<noteq> 0 \<Longrightarrow> wait_resume n store x = None"
  by (simp add: wait_resume_def do_exit_def)

end
