(* ===== verification/Spec2Isabelle.thy ===== *)
theory Spec2Isabelle
  imports Pmm_Theorems Sync_Theorems Libs_Theorems File_Theorems Vmm_Theorems Proc_Theorems
begin

text \<open>
  A verification development for the teaching kernel under labcode/: eight successive states (lab1 to
  lab8) of one small operating system for a 64-bit RISC-V machine.  Most files of a lab are copies of
  those of the lab before.  The models are of labcode/lab8, the last and most complete state, except
  where a component exists in an earlier lab only: the best-fit and the buddy allocator are those of
  labcode/lab2, the lottery and shortest-job-first policies those of labcode/lab6.

  \<^bold>\<open>The program and its parts.\<close>

  Physical memory is handed out in page frames by one of three managers behind \<^verbatim>\<open>struct pmm_manager\<close>
  (kern/mm/pmm.h).  From these kern/mm/pmm.c builds the three-level page tables of address spaces, and
  kern/mm/vmm.c keeps the areas a process may use and checks the addresses it hands to the kernel.
  kern/process/proc.c keeps the table of processes: it makes them (with a copy of the space and of the
  open files of the parent), ends them, and lets the parent collect them.  Processes are scheduled by kern/schedule/sched.c, which reaches one of four
  policies through \<^verbatim>\<open>struct sched_class\<close>; the same file keeps the timers that end \<^verbatim>\<open>do_sleep\<close>.  Wait
  queues and semaphores (kern/sync) put processes to sleep and wake them through the scheduler.  The
  simple file system (kern/fs/sfs) keeps files and directories in blocks of a disk, which is a memory
  image (kern/driver).  In front of it is the virtual file system (kern/fs/vfs): inodes in memory with
  a reference count and an open count, and a table of operations each (of the simple file system or of
  a device, kern/fs/devs).  A process has a table of open files (kern/fs/file.c, fs.c), each on an inode,
  which a new process copies.  All of them use the circular lists of libs/list.h, the skew heap of
  libs/skew_heap.h, and the string and output functions of libs.

  \<^bold>\<open>Conventions.\<close>

  A C function that may fail an assertion, panic or loop for ever is a function into an option type:
  \<open>None\<close> is "does not return".  Error codes (\<open>-E_NO_MEM\<close>, ...) are values.  The state a component
  works on is a record that is passed through; pointers into arrays are indices, the nodes of
  intrusive lists are the constructors of a datatype and \<^verbatim>\<open>le2...\<close> is a pattern match.  Loops are
  primitive recursion on a count, recursive functions with a measure, or, where only the data make
  them end, \<open>partial_function (option)\<close>, and then a theorem shows that they return; no fuel is used.
  Integers are words of their width where wrap-around matters (time stamps, strides, random numbers,
  hashing, printed numbers, bitmaps) and naturals elsewhere, with the bound that makes this right in
  the theory's opening text.  Interrupts are disabled in every modelled function that takes a lock or
  saves the interrupt flag, so these are single steps; functions that give up the processor in the
  middle are split there.

  \<^bold>\<open>The theories.\<close>

  \<^item> Prelude: assertions, error codes, machine types, fact collections.  Klist: libs/list.h on a store
    of links; \<open>dll\<close> says that a list is intact.

  \<^item> Page: \<^verbatim>\<open>struct Page\<close> and the free list (kern/mm/memlayout.h).  Pmm_FirstFit: kern/mm/default_pmm.c,
    refined to \<open>ff_alloc\<close> and \<open>ff_free\<close> on lists of blocks.  Pmm_BestFit: labcode/lab2/kern/mm/best_fit_pmm.c.
    Pmm_Manager: the locale of what a client of a manager relies on, interpreted by both.  Buddy:
    labcode/lab2/kern/mm/buddy_pmm.c, refined to the set of pages handed out.  Pmm_Check: the manager
    tables and the self tests at boot.  Pmm_Theorems: the properties.

  \<^item> Paging: page tables (kern/mm/pmm.c, mmu.h) in a memory of frames of 512 words.  Paging_Inv: the
    translation \<open>pte\<close> of a space and the invariant \<open>vm_inv\<close> (tables are trees that share no frame, entries
    for tables are no leaves, reference counts are numbers of mappings).  Pmm_Frames: the locale of what page tables rely on in a
    manager, and first fit as its instance.  Paging_Ops, Paging_Range, Paging_Copy, Paging_Exit: the
    operations on pages and on ranges.  Sv39: the walk of the machine, as a specification on plain numbers.  Paging_New: mapping a new page, and \<^verbatim>\<open>setup_pgdir\<close> and
    \<^verbatim>\<open>put_pgdir\<close> of proc.c.  Paging_Theorems: the properties.

  \<^item> Vmm: kern/mm/vmm.c.  Vmm_Inv: the invariant \<open>mm_ok\<close> of the areas of a space.  Vmm_User: the checks of
    user addresses.  Vmm_Space: copying and taking down a space.  Vmm_Theorems: the properties.

  \<^item> Skewheap: libs/skew_heap.h on a store of nodes, refined to skew heaps as trees.  Libs_Num:
    libs/rand.c and libs/hash.c.  Proc_State: the fields of \<^verbatim>\<open>struct proc_struct\<close> that the scheduler and
    the process table use.
    Sched_Class: kern/schedule/sched.c and the locale of a scheduling policy; Sched_RR, Sched_Stride
    (with shortest job first) and Sched_Lottery are its four interpretations.  Timer: the timer list,
    refined to a list of deadlines.  Sched_Theorems: the properties.

  \<^item> Wait_Queue: kern/sync/wait.c and sem.c as a transition system over the scheduler, with the
    invariant \<open>sync_wf\<close>.  Sync_Theorems: its consequences.

  \<^item> Proc_Table: the process table of kern/process/proc.c: its list, the hash lists, process numbers, the
    pointers between relatives, and what exit, wait and kill do to them.  Proc_Pid: numbers and their
    hash lists.  Proc_Inv: the invariant \<open>ptab_ok\<close>.  Proc_Links, Proc_Ops: the operations keep it.
    Proc_Sys: fork, exit, wait, kernel threads and the first two processes on the whole state (table,
    memory, spaces, files), \<open>ksys\<close>.  Proc_Tab: what these do to the table.  Proc_Steps: the calls of all
    processes as interleaved steps \<open>pstep\<close>, and the invariant \<open>proc_inv\<close>.  Proc_Boot: \<^verbatim>\<open>proc_init\<close> returns and
    establishes it.  Proc_Theorems: the properties.

  \<^item> Cstring: libs/string.c on byte-addressed memory.  Printfmt: libs/printfmt.c as an interpreter of
    format strings.  Libs_Theorems: the properties.

  \<^item> Bitmap, Iobuf: kern/fs/sfs/bitmap.c and kern/fs/iobuf.c.  Sfs_Io: kern/driver/ramdisk.c and ide.c,
    kern/fs/devs/dev_disk0.c and kern/fs/sfs/sfs_io.c.  Sfs_Bmap: block allocation and the block map of
    kern/fs/sfs/sfs_inode.c.  Sfs_Map: the map from outside, with \<open>sfs_ok\<close> (the free map, the superblock
    and the disk agree) and \<open>file_ok\<close> (the blocks of a file are distinct, in use and in range).
    Sfs_File: reading, writing, resizing and synchronising a file; Sfs_Theorems: its properties over
    the contents \<open>fc\<close> of files.  Sfs_Dir: directories, with their properties.

  \<^item> Vfs_Node: kern/fs/vfs/inode.c, the devices (kern/fs/devs) and the inode cache of sfs_inode.c and
    sfs_fs.c: hash lists and the list of inodes as stores of links, loading and reclaiming.  Vfs_Cache:
    the invariant \<open>vfs_inv\<close> (the lists are intact, an inode is cached once, its counts are those of a given
    account of holders, every cached inode agrees with the volume).  Vfs_Refs, Vfs_Load, Vfs_Lookup: each
    operation on the counts, on the cache and on names keeps it.

  \<^item> File_Table: kern/fs/file.c, fs.c, vfs.c, vfsfile.c, vfslookup.c, vfspath.c and vfs_get_root of
    vfsdev.c: open files, opening, lookup of paths.  File_Inv: the invariant \<open>kfs_inv\<close> that ties the tables
    of all processes to the counts of the inodes.  File_Ops, File_Open, File_Io: the operations keep it
    and what they return.  File_Steps: the operations on tables as steps that processes and unfinished
    calls interleave.  File_Small: a small disk and tables on which the properties are tried.
    File_Theorems: the properties.

  \<^bold>\<open>What the theorems show.\<close>

  First fit and best fit: allocation and release keep the free list sorted, disjoint and merged, and
  refine functions on lists of blocks; blocks handed out in any sequence of calls are disjoint.  The
  release behind the last free block is the exception (the loop goes on after the insertion): the
  list is corrupted and a frame can be handed out twice, which is shown on ten frames.  The buddy tree
  always describes the set of free areas, for every request but one for the whole pool, which is never
  checked and granted whatever is in use.

  Page tables: mapping, unmapping and copying act on the translations of one space as they should and
  on no other, reference counts stay the numbers of mappings, and frames that are mapped nowhere go back
  to the manager; the walk of \<open>get_pte\<close> finds what a walk of the Sv39 format finds.  Taking down tables has a flaw: a
  second-level table may be freed above a third-level table that is then lost.  Copying a page without a
  free frame panics.

  Areas: the check of a user range is the check of each of its bytes, whatever the cache holds; strings
  are copied exactly when they end in time in readable memory; a copied space has the same areas and its
  own copies of the pages; a space taken down gives back what it alone used.  \<open>mm_map\<close> panics on an
  overlap with a later area.

  Processes: from boot on, whatever calls the processes make in whatever order, the list, the hash lists,
  the count and the numbers of processes agree, the children of a process are those whose parent it is,
  and the run queue holds the runnable processes.  Nobody sleeps in \<open>do_wait\<close> while a child it waits for is
  a zombie, also when the child came from a process that exited.  \<open>get_pid\<close> returns a number that nobody
  has; fork enters exactly one child or none; exit hands the children to \<^verbatim>\<open>initproc\<close> and
  wakes exactly those that sleep in \<open>do_wait\<close> for it; wait reports, sleeps or collects one zombie; kill marks exactly one process, \<^verbatim>\<open>initproc\<close> too, which then makes the kernel panic.

  Scheduler: for each policy the run queue holds exactly the runnable processes that do not run;
  \<open>schedule\<close> never idles while one is runnable; round robin serves every process in each round, the
  lottery draws in proportion to the tickets, the stride and shortest-job-first heaps stay ordered.
  Timers expire in order of their deadlines and \<open>add_timer\<close> and \<open>del_timer\<close> keep the differences right.
  Semaphores never lose or invent a unit and wake waiters in order of arrival, under every schedule.

  Libraries: block and string functions meet their specifications, \<open>snprintf\<close> stays in its buffer, and
  printed numbers are read back by \<open>strtol\<close>.

  File system: writes, reads and changes of size act on the contents as they should, keep the disk
  sound and leave other files alone; a full disk is reported and leaves a sound prefix; the inode and
  directory entries are read back from the disk as they were written.  Two limits are not handled:
  beyond 1036 blocks, and after a resize that failed half way, the kernel panics.

  Open files: in every interleaving of the operations on descriptors, the counts of each inode are
  exactly the entries and directories that refer to it, so that an inode is dropped neither early nor
  late; an entry closed while calls use it lives until the last of them ends; an inode is in memory at most
  once and survives being dropped and loaded; what is written through one descriptor is read through
  another; a new process gets the descriptors of its parent.  Three calls do not do what they should:
  an exclusive open of an existing file keeps a reference, \<open>O_CREAT\<close> creates nothing, and an operation
  the table of the inode does not have panics.

  \<^bold>\<open>Bounds.\<close>

  Frames: fewer than 0x7E00, so that page counts do not reach the range of \<^verbatim>\<open>unsigned int\<close>.  Disk blocks:
  fewer than 2 to the 20, so that byte offsets fit 32 bits; \<open>sfs_ok\<close> bounds them by the size of the
  disk.  Files: 12 + 1024 blocks, the capacity of the block map.  Page tables: user addresses below
  \<^verbatim>\<open>USERTOP\<close>; copying a range is shown to succeed with three free frames for each page (two tables and the
  copy), and giving frames back assumes a free frame above all that are in use (\<open>topped\<close>), which keeps
  clear of the flaw of first fit above.  Processes: at most 4096 for numbers below 8192, the limits of proc.h.

  \<^bold>\<open>Not modelled.\<close>

  Assembly (entry, trap and context switch), traps and interrupts, device drivers and the console, the
  device tree, the kernel monitor and debugger: hardware access.  The system calls and user programs:
  glue around the operations above.  Detecting memory and mapping the kernel at boot (\<^verbatim>\<open>page_init\<close>,
  \<^verbatim>\<open>boot_map_segment\<close>), the boot self tests of paging and areas, the inside of the small-object allocator
  (kern/mm/kmalloc.c), loading a program (\<^verbatim>\<open>do_execve\<close> and \<^verbatim>\<open>load_icode\<close>), the names of processes, and
  monitors (kern/sync/monitor.c, check_sync.c).  Of the file layer,
  mounting and the registration of devices, which happen once at initialisation, \<open>vfs_getcwd\<close> and
  the copying between user and kernel memory (kern/fs/sysfile.c).  What \<^verbatim>\<open>kmalloc\<close> returns is an
  argument of the operations that call it; a step that forks assumes that it is not a descriptor in use.
  The semaphore of an address space only serialises and is left out, and so are those that the file
  layer takes around its operations on inodes, descriptors and the volume: each is one step here.  The values of
  semaphores are unbounded integers, and a number too large for \<^verbatim>\<open>strtol\<close>, which C leaves undefined, wraps.
\<close>

end
